(* ===== verification/Leed_Prelude.thy ===== *)
theory Leed_Prelude
  imports Main "HOL-Library.Word"
begin

unbundle bit_operations_syntax

text \<open>
  Shared vocabulary of the development: the machine integer types of the C code, results
  that may abort the process, copies into flat buffers, and the arithmetic of circular
  positions on which the logs rest. The collections \<open>res_simps\<close> and \<open>circ_simps\<close>
  carry the component proofs.
\<close>

named_theorems res_simps
named_theorems circ_simps

section \<open>Machine integers\<close>

type_synonym u8 = "8 word"
type_synonym u16 = "16 word"
type_synonym u32 = "32 word"
type_synonym u48 = "48 word"
type_synonym u64 = "64 word"

text \<open>
  The C code reads the first eight bytes of a key with \<open>*(uint64_t *)key\<close>; on the
  little-endian targets the program supports the first byte is the least significant.
\<close>

fun le_bytes_to_nat :: "u8 list \<Rightarrow> nat" where
  "le_bytes_to_nat [] = 0"
| "le_bytes_to_nat (b # bs) = unat b + 256 * le_bytes_to_nat bs"

definition load_u64 :: "u8 list \<Rightarrow> u64" where
  "load_u64 bs = word_of_nat (le_bytes_to_nat (take 8 bs))"

definition load_u32 :: "u8 list \<Rightarrow> u32" where
  "load_u32 bs = word_of_nat (le_bytes_to_nat (take 4 bs))"

fun nat_to_le_bytes :: "nat \<Rightarrow> nat \<Rightarrow> u8 list" where
  "nat_to_le_bytes 0 n = []"
| "nat_to_le_bytes (Suc k) n = word_of_nat n # nat_to_le_bytes k (n div 256)"

definition store_u64 :: "u64 \<Rightarrow> u8 list" where
  "store_u64 w = nat_to_le_bytes 8 (unat w)"

lemma length_nat_to_le_bytes [simp]: "length (nat_to_le_bytes k n) = k"
  by (induction k arbitrary: n) auto

lemma unat_word_of_nat_byte [simp]: "unat (word_of_nat n :: u8) = n mod 256"
  by (simp add: unat_of_nat)

lemma le_bytes_nat_to_le_bytes: "le_bytes_to_nat (nat_to_le_bytes k n) = n mod 256 ^ k"
proof (induction k arbitrary: n)
  case 0
  then show ?case by simp
next
  case (Suc k)
  have "le_bytes_to_nat (nat_to_le_bytes (Suc k) n) = n mod 256 + 256 * (n div 256 mod 256 ^ k)"
    using Suc.IH[of "n div 256"] by simp
  also have "\<dots> = n mod (256 * 256 ^ k)"
    by (simp add: mod_mult2_eq)
  finally show ?case by simp
qed

lemma load_store_u64 [simp]: "load_u64 (store_u64 w @ bs) = w"
proof -
  have "unat w < 256 ^ 8"
    using unsigned_less[of w] by simp
  then show ?thesis
    by (simp add: load_u64_def store_u64_def le_bytes_nat_to_le_bytes)
qed

lemma length_store_u64 [simp]: "length (store_u64 w) = 8"
  by (simp add: store_u64_def)

subsection \<open>Masks\<close>

lemma and_not_mask_eq:
  fixes x :: "'a::len word"
  shows "x AND NOT (mask n) = push_bit n (drop_bit n x)"
  by (rule bit_eqI) (auto simp: bit_simps)

lemma unat_take_bit:
  fixes x :: "'a::len word"
  shows "unat (take_bit n x) = unat x mod 2 ^ n"
  using take_bit_eq_mod[of n "unat x"] by (simp only: unsigned_take_bit_eq)

lemma unat_and_mask:
  fixes x :: "'a::len word"
  shows "unat (x AND mask n) = unat x mod 2 ^ n"
  by (simp only: unat_take_bit flip: take_bit_eq_mask)

lemma unat_and_not_mask:
  fixes x :: "'a::len word"
  shows "unat (x AND NOT (mask n)) = unat x - unat x mod 2 ^ n"
proof -
  have "x AND NOT (mask n) = x - take_bit n x"
    using bits_ident[of n x] by (simp add: and_not_mask_eq algebra_simps)
  moreover have "take_bit n x \<le> x" unfolding word_le_nat_alt unat_take_bit by simp
  ultimately show ?thesis by (simp add: unat_sub unat_take_bit)
qed

section \<open>Results that may abort the process\<close>

text \<open>
  A failed \<open>assert\<close>, a call of \<open>exit(-1)\<close>, the dereference of a null pointer, an access past a buffer and the use of an uninitialised variable
  end the process; the model returns them as values. \<open>No_return\<close> marks a loop that has
  not ended within the fuel of its model; the components prove that it does not occur.
\<close>

datatype err = Assert_fail | Exit_fail | Null_deref | Out_of_bounds | Uninit_read | No_return | Div_by_zero

type_synonym 'a res = "err + 'a"

definition rbind :: "'a res \<Rightarrow> ('a \<Rightarrow> 'b res) \<Rightarrow> 'b res" where
  "rbind m f = (case m of Inl e \<Rightarrow> Inl e | Inr x \<Rightarrow> f x)"

definition c_assert :: "bool \<Rightarrow> unit res" where
  "c_assert b = (if b then Inr () else Inl Assert_fail)"

lemma rbind_Inl [simp, res_simps]: "rbind (Inl e) f = Inl e"
  by (simp add: rbind_def)

lemma rbind_Inr [simp, res_simps]: "rbind (Inr x) f = f x"
  by (simp add: rbind_def)

lemma rbind_eq_Inr_iff [res_simps]: "rbind m f = Inr y \<longleftrightarrow> (\<exists>x. m = Inr x \<and> f x = Inr y)"
  by (cases m) auto

lemma rbind_assoc: "rbind (rbind m f) g = rbind m (\<lambda>x. rbind (f x) g)"
  by (cases m) auto

lemma c_assert_True [simp, res_simps]: "c_assert True = Inr ()"
  by (simp add: c_assert_def)

lemma c_assert_False [simp, res_simps]: "c_assert False = Inl Assert_fail"
  by (simp add: c_assert_def)

lemma c_assert_eq_Inr [simp, res_simps]: "c_assert b = Inr u \<longleftrightarrow> b"
  by (simp add: c_assert_def)

section \<open>Copies into flat buffers\<close>

text \<open>\<open>blit dst at src\<close> is \<open>memcpy(dst + at, src, |src|)\<close> on a buffer of known length.\<close>

definition blit :: "'a list \<Rightarrow> nat \<Rightarrow> 'a list \<Rightarrow> 'a list" where
  "blit dst at src = take at dst @ src @ drop (at + length src) dst"

lemma length_blit [simp]: "at + length src \<le> length dst \<Longrightarrow> length (blit dst at src) = length dst"
  by (simp add: blit_def)

lemma nth_blit:
  assumes "at + length src \<le> length dst" and "i < length dst"
  shows "blit dst at src ! i = (if at \<le> i \<and> i < at + length src then src ! (i - at) else dst ! i)"
  using assms by (auto simp: blit_def nth_append min_def)

lemma blit_Nil [simp]: "blit dst at [] = dst"
  by (simp add: blit_def)

section \<open>Circular positions\<close>

text \<open>
  The distance from \<open>h\<close> to \<open>t\<close> going forward on a circle of \<open>s\<close> positions. The C code
  computes it as \<open>(size + tail - head) % size\<close> in \<open>uint64_t\<close>.
\<close>

definition circ_dist :: "nat \<Rightarrow> nat \<Rightarrow> nat \<Rightarrow> nat" where
  "circ_dist s h t = (s + t - h) mod s"

lemma circ_dist_less [simp]: "0 < s \<Longrightarrow> circ_dist s h t < s"
  by (simp add: circ_dist_def)

lemma circ_dist_le: "0 < s \<Longrightarrow> circ_dist s h t \<le> s - 1"
  using circ_dist_less[of s h t] by linarith

lemma circ_dist_cases:
  assumes "h < s" and "t < s"
  shows "circ_dist s h t = (if h \<le> t then t - h else s + t - h)"
  using assms by (auto simp: circ_dist_def mod_if)

lemma mod_add_cases:
  assumes "h < s" and "k \<le> (s :: nat)"
  shows "(h + k) mod s = (if h + k < s then h + k else h + k - s)"
  using assms by (auto simp: mod_if)

lemma circ_dist_self [simp]: "circ_dist s h h = 0"
  by (simp add: circ_dist_def)

lemma circ_dist_add [circ_simps]:
  assumes "h < s" and "k < s"
  shows "circ_dist s h ((h + k) mod s) = k"
  using assms by (auto simp: circ_dist_cases mod_add_cases)

lemma circ_add_dist [circ_simps]:
  assumes "h < s" and "t < s"
  shows "(h + circ_dist s h t) mod s = t"
  using assms by (auto simp: circ_dist_cases mod_if)

lemma circ_add_inj:
  assumes "j < s" and "k < s" and "(h + j) mod s = (h + k) mod (s :: nat)"
  shows "j = k"
proof -
  have "(h mod s + j) mod s = (h mod s + k) mod s"
    using assms(3) by (simp add: mod_add_left_eq)
  moreover have "h mod s < s"
    using assms(1) by simp
  ultimately show ?thesis
    using assms(1,2) circ_dist_add[of "h mod s" s] by metis
qed

lemma circ_dist_advance_tail:
  assumes "h < s" and "t < s" and "circ_dist s h t + n < s"
  shows "circ_dist s h ((t + n) mod s) = circ_dist s h t + n"
proof -
  have "(t + n) mod s = (h + (circ_dist s h t + n)) mod s"
    using circ_add_dist[OF assms(1,2)] by (metis add.assoc mod_add_left_eq)
  then show ?thesis
    using circ_dist_add[OF assms(1,3)] by simp
qed

lemma circ_dist_advance_head:
  assumes "h < s" and "t < s" and "n \<le> circ_dist s h t"
  shows "circ_dist s ((h + n) mod s) t = circ_dist s h t - n"
proof -
  let ?d = "circ_dist s h t"
  have s: "0 < s" using assms(1) by simp
  have "((h + n) mod s + (?d - n)) mod s = (h + n + (?d - n)) mod s"
    by (simp add: mod_add_left_eq)
  also have "\<dots> = (h + ?d) mod s" using assms(3) by simp
  also have "\<dots> = t" using circ_add_dist[OF assms(1,2)] .
  finally have "((h + n) mod s + (?d - n)) mod s = t" .
  moreover have "?d - n < s" using circ_dist_less[OF s, of h t] by linarith
  moreover have "(h + n) mod s < s" using s by simp
  ultimately show ?thesis using circ_dist_add by metis
qed

subsection \<open>The same positions in 64-bit words\<close>

lemma unat_mod [simp]: "unat (a mod b :: 'a::len word) = unat a mod unat b"
  by (simp add: unat_mod_distrib)

lemma unat_ucast_up:
  assumes "LENGTH('a::len) \<le> LENGTH('b::len)"
  shows "unat (ucast (x :: 'a word) :: 'b word) = unat x"
proof -
  have "unat x < 2 ^ LENGTH('a)" by (rule unsigned_less)
  also have "(2 :: nat) ^ LENGTH('a) \<le> 2 ^ LENGTH('b)" using assms by simp
  finally show ?thesis by (simp add: unsigned_ucast_eq take_bit_nat_eq_self)
qed

lemma unat_ucast_simps [simp]:
  "unat (ucast (a :: u8) :: u64) = unat a" "unat (ucast (a :: u8) :: u32) = unat a"
  "unat (ucast (b :: u32) :: u64) = unat b" "unat (ucast (c :: u48) :: u64) = unat c"
  "unat (ucast (d :: u16) :: u64) = unat d" "unat (ucast (d :: u16) :: u32) = unat d"
  by (simp_all add: unat_ucast_up)

lemma unat_of_nat_u64: "n < 2 ^ 64 \<Longrightarrow> unat (word_of_nat n :: u64) = n"
  by (simp add: unat_of_nat)

lemma unat_of_nat_mod:
  assumes "0 < s" and "s < 2 ^ 62"
  shows "unat (word_of_nat (x mod s) :: u64) = x mod s"
proof -
  have "x mod s < s" using assms(1) by simp
  then have "x mod s < 2 ^ 64" using assms(2) by simp
  then show ?thesis by (rule unat_of_nat_u64)
qed

lemma unat_add_less:
  "unat a + unat (b :: u64) < 2 ^ 64 \<Longrightarrow> unat (a + b) = unat a + unat b"
  by (simp add: unat_word_ariths)

lemma unat_add_mod [circ_simps]:
  fixes a b s :: u64
  assumes "unat a + unat b < 2 ^ 64"
  shows "unat ((a + b) mod s) = (unat a + unat b) mod unat s"
  using assms by (simp add: unat_add_less)

lemma unat_sub_le:
  fixes a b :: u64
  assumes "unat b \<le> unat a"
  shows "unat (a - b) = unat a - unat b"
  using assms by (simp add: unat_sub word_le_nat_alt)

lemma unat_circ_dist [circ_simps]:
  fixes s h t :: u64
  assumes "unat h \<le> unat s" and "unat s + unat t < 2 ^ 64"
  shows "unat ((s + t - h) mod s) = circ_dist (unat s) (unat h) (unat t)"
proof -
  have "unat (s + t - h) = unat s + unat t - unat h"
    using assms by (simp add: unat_sub_le unat_add_less)
  then show ?thesis by (simp add: circ_dist_def)
qed

lemma unat_circ_dist' [circ_simps]:
  fixes s h t :: u64
  assumes "unat h \<le> unat s" and "unat s + unat t < 2 ^ 64"
  shows "unat ((s - h + t) mod s) = circ_dist (unat s) (unat h) (unat t)"
proof -
  have "s - h + t = s + t - h" by simp
  then show ?thesis using unat_circ_dist[OF assms] by (simp only:)
qed

end
