(* ===== verification/Kv_Ds_Queue.thy ===== *)
theory Kv_Ds_Queue
  imports Leed_Prelude
begin

text \<open>
  \<open>kv_ds_queue.h\<close> and \<open>kv_ds_queue.c\<close>: the admission counters of the data stores. Every
  data store has a capacity and a current load in 32-bit counters; a client or a server
  asks \<open>kv_ds_queue_find\<close> for a store that can take an operation of a given cost.
\<close>

section \<open>Data and operations\<close>

record kv_ds_q_info =
  q_size :: u32
  q_cap :: u32

datatype kv_ds_op = KV_DS_SET | KV_DS_GET | KV_DS_DEL

record kv_ds_queue =
  ds_cnt :: u32
  q_info :: "kv_ds_q_info list"
  q_io_cnt :: "u32 list"

text \<open>\<open>calloc\<close> zeroes both arrays.\<close>

definition kv_ds_queue_init :: "u32 \<Rightarrow> kv_ds_queue" where
  "kv_ds_queue_init n =
     \<lparr>ds_cnt = n, q_info = replicate (unat n) \<lparr>q_size = 0, q_cap = 0\<rparr>,
      q_io_cnt = replicate (unat n) 0\<rparr>"

definition kv_ds_queue_fini :: "kv_ds_queue \<Rightarrow> kv_ds_queue" where
  "kv_ds_queue_fini q = q\<lparr>q_info := [], q_io_cnt := []\<rparr>"

fun kv_ds_op_cost :: "kv_ds_op \<Rightarrow> u32" where
  "kv_ds_op_cost KV_DS_SET = 8"
| "kv_ds_op_cost KV_DS_GET = 3"
| "kv_ds_op_cost KV_DS_DEL = 4"

text \<open>The free capacity as the C code computes it, wrapping below zero.\<close>

definition q_free :: "kv_ds_q_info \<Rightarrow> u32" where
  "q_free q = q_cap q - q_size q"

text \<open>
  The scan of \<open>kv_ds_queue_find\<close>: \<open>Inl i\<close> is the early return of an idle store,
  \<open>Inr j\<close> the position with the most free capacity at the end of the loop.
\<close>

fun find_scan :: "kv_ds_q_info list \<Rightarrow> u32 list option \<Rightarrow> nat \<Rightarrow> nat \<Rightarrow> nat \<Rightarrow> nat + nat" where
  "find_scan qs io 0 i j = Inr j"
| "find_scan qs io (Suc k) i j =
     (if (case io of None \<Rightarrow> False | Some c \<Rightarrow> c ! i = 0) then Inl i
      else find_scan qs io k (Suc i) (if q_free (qs ! i) > q_free (qs ! j) then i else j))"

definition kv_ds_queue_find ::
  "kv_ds_q_info list \<Rightarrow> u32 list option \<Rightarrow> nat \<Rightarrow> u32 \<Rightarrow> nat option \<times> kv_ds_q_info list" where
  "kv_ds_queue_find qs io n cost =
     (if n = 0 then (None, qs)
      else case find_scan qs io n 0 0 of
             Inl i \<Rightarrow> (Some i, qs)
           | Inr j \<Rightarrow>
               if q_cap (qs ! j) \<ge> q_size (qs ! j) + cost
               then (Some j, qs[j := (qs ! j)\<lparr>q_size := q_size (qs ! j) + cost\<rparr>])
               else (None, qs))"

section \<open>Invariant and correctness\<close>

text \<open>
  The load never exceeds the capacity, and capacities leave room for one more cost in
  32 bits (the code uses 1024).
\<close>

definition q_ok :: "kv_ds_q_info \<Rightarrow> bool" where
  "q_ok q \<longleftrightarrow> unat (q_size q) \<le> unat (q_cap q) \<and> unat (q_cap q) < 2 ^ 31"

lemma unat_q_free: "q_ok q \<Longrightarrow> unat (q_free q) = unat (q_cap q) - unat (q_size q)"
  by (simp add: q_free_def q_ok_def unat_sub word_le_nat_alt)

text \<open>A store without requests, where the caller has counters of requests.\<close>

definition idle :: "u32 list option \<Rightarrow> nat \<Rightarrow> bool" where
  "idle io l \<longleftrightarrow> (\<exists>c. io = Some c \<and> c ! l = 0)"

lemma find_scan_first_idle:
  "(case find_scan qs io k i j of
      Inl m \<Rightarrow> i \<le> m \<and> m < i + k \<and> idle io m \<and> (\<forall>l. i \<le> l \<and> l < m \<longrightarrow> \<not> idle io l)
    | Inr _ \<Rightarrow> \<forall>l. i \<le> l \<and> l < i + k \<longrightarrow> \<not> idle io l)"
proof (induction k arbitrary: i j)
  case (Suc k)
  show ?case
  proof (cases "idle io i")
    case True
    then show ?thesis by (auto simp: idle_def)
  next
    case False
    let ?j = "if q_free (qs ! i) > q_free (qs ! j) then i else j"
    have step: "find_scan qs io (Suc k) i j = find_scan qs io k (Suc i) ?j"
      using False by (auto simp: idle_def split: option.splits)
    have here: "(\<forall>l. i \<le> l \<and> l < b \<longrightarrow> \<not> idle io l) \<longleftrightarrow> (\<forall>l. Suc i \<le> l \<and> l < b \<longrightarrow> \<not> idle io l)" for b
      using False by (metis Suc_leD Suc_leI le_neq_implies_less)
    note ih = Suc.IH[of "Suc i" ?j]
    show ?thesis
    proof (cases "find_scan qs io k (Suc i) ?j")
      case (Inl m)
      then show ?thesis using ih unfolding step here by simp
    next
      case (Inr m)
      then show ?thesis using ih unfolding step here by simp
    qed
  qed
qed auto

lemma find_scan_max:
  "find_scan qs io k i j = Inr m \<Longrightarrow> j < i + k \<or> (k = 0 \<and> j \<le> i) \<Longrightarrow>
     q_free (qs ! m) \<ge> q_free (qs ! j) \<and> (\<forall>l. i \<le> l \<and> l < i + k \<longrightarrow> q_free (qs ! l) \<le> q_free (qs ! m))
     \<and> (m = j \<or> i \<le> m \<and> m < i + k)"
proof (induction k arbitrary: i j)
  case 0
  then show ?case by auto
next
  case (Suc k)
  let ?j = "if q_free (qs ! i) > q_free (qs ! j) then i else j"
  have rec: "find_scan qs io k (Suc i) ?j = Inr m"
    using Suc.prems(1) by (auto split: if_splits)
  have pre: "?j < Suc i + k \<or> (k = 0 \<and> ?j \<le> Suc i)"
    using Suc.prems(2) by auto
  have ih: "q_free (qs ! m) \<ge> q_free (qs ! ?j)"
    "\<forall>l. Suc i \<le> l \<and> l < Suc i + k \<longrightarrow> q_free (qs ! l) \<le> q_free (qs ! m)"
    "m = ?j \<or> Suc i \<le> m \<and> m < Suc i + k"
    using Suc.IH[OF rec pre] by blast+
  have fi: "q_free (qs ! i) \<le> q_free (qs ! m)" "q_free (qs ! j) \<le> q_free (qs ! m)"
    using ih(1) by (auto split: if_splits)
  have "\<forall>l. i \<le> l \<and> l < i + Suc k \<longrightarrow> q_free (qs ! l) \<le> q_free (qs ! m)"
    using ih(2) fi(1) by (metis Suc_leI add_Suc add_Suc_right le_neq_implies_less)
  moreover have "m = j \<or> i \<le> m \<and> m < i + Suc k"
    using ih(3) by (auto split: if_splits)
  ultimately show ?case using fi(2) by blast
qed

lemma find_scan_some_max:
  assumes "0 < n" and "find_scan qs io n 0 0 = Inr m"
  shows "m < n" and "\<forall>l < n. q_free (qs ! l) \<le> q_free (qs ! m)"
  using find_scan_max[OF assms(2)] assms(1) by auto

text \<open>Without idle counters the scan always runs to its end.\<close>

lemma find_scan_None: "\<exists>m. find_scan qs None k i j = Inr m"
  by (induction k arbitrary: i j) auto

lemma q_ok_add_cost:
  assumes "q_ok q" and "unat cost < 2 ^ 31"
  shows "unat (q_size q + cost) = unat (q_size q) + unat cost"
  using assms by (simp add: q_ok_def unat_word_ariths)

lemma kv_ds_queue_find_keeps_q_ok:
  assumes ok: "list_all q_ok qs" and n: "n \<le> length qs" and c: "unat cost < 2 ^ 31"
    and r: "kv_ds_queue_find qs io n cost = (i, qs')"
  shows "list_all q_ok qs' \<and> length qs' = length qs"
proof (cases "n = 0")
  case True
  then show ?thesis using ok r by (simp add: kv_ds_queue_find_def)
next
  case False
  show ?thesis
  proof (cases "find_scan qs io n 0 0")
    case (Inl m)
    then show ?thesis using ok r False by (simp add: kv_ds_queue_find_def)
  next
    case (Inr j)
    have j: "j < length qs" using find_scan_some_max[of n qs io j] False Inr n by simp
    have okj: "q_ok (qs ! j)" using ok j by (simp add: list_all_length)
    have new: "q_ok ((qs ! j)\<lparr>q_size := q_size (qs ! j) + cost\<rparr>)"
      if "q_cap (qs ! j) \<ge> q_size (qs ! j) + cost"
      using that okj by (simp add: q_ok_def word_le_nat_alt)
    then show ?thesis using ok r False Inr j
      by (auto simp: kv_ds_queue_find_def list_all_length nth_list_update split: if_splits)
  qed
qed

text \<open>The single-queue call of the data store's admission control (\<open>size == 1\<close>, no idle counters).\<close>

definition admit :: "kv_ds_q_info \<Rightarrow> u32 \<Rightarrow> kv_ds_q_info option" where
  "admit q cost = (if q_cap q \<ge> q_size q + cost then Some (q\<lparr>q_size := q_size q + cost\<rparr>) else None)"

lemma kv_ds_queue_find_single:
  "kv_ds_queue_find [q] None 1 cost =
     (case admit q cost of None \<Rightarrow> (None, [q]) | Some q' \<Rightarrow> (Some 0, [q']))"
  by (simp add: kv_ds_queue_find_def admit_def)

lemma admit_Some:
  assumes "admit q cost = Some q'" and "q_ok q" and "unat cost < 2 ^ 31"
  shows "unat (q_size q') = unat (q_size q) + unat cost" and "q_ok q'" and "q_cap q' = q_cap q"
  using assms q_ok_add_cost[OF assms(2,3)]
  by (auto simp: admit_def q_ok_def word_le_nat_alt split: if_splits)

lemma admit_None:
  assumes "admit q cost = None" and "q_ok q" and "unat cost < 2 ^ 31"
  shows "unat (q_cap q) < unat (q_size q) + unat cost"
  using assms q_ok_add_cost[OF assms(2,3)]
  by (auto simp: admit_def q_ok_def word_le_nat_alt split: if_splits)

lemma kv_ds_op_cost_less: "0 < unat (kv_ds_op_cost op) \<and> unat (kv_ds_op_cost op) \<le> 8"
  by (cases op) simp_all

section \<open>Properties\<close>

text \<open>
  C26. Admission. If the caller has counters of requests and a candidate is idle, the first idle
  one is taken, whatever its room, and nothing is charged. Otherwise the store with the most
  free capacity among all candidates is taken and charged exactly the cost, no other store
  changes, and the answer is a refusal, which changes nothing, exactly if no candidate has room
  for the cost.
\<close>

theorem ds_queue_find_correct:
  assumes "list_all q_ok qs" and "n \<le> length qs" and "0 < n" and "unat cost < 2 ^ 31"
  shows "(case kv_ds_queue_find qs io n cost of
            (Some i, qs') \<Rightarrow>
              i < n \<and> list_all q_ok qs' \<and>
              (if \<exists>l < n. idle io l then idle io i \<and> (\<forall>l < i. \<not> idle io l) \<and> qs' = qs
               else (\<forall>l < n. unat (q_free (qs ! l)) \<le> unat (q_free (qs ! i))) \<and>
                 unat cost \<le> unat (q_free (qs ! i)) \<and> unat (q_size (qs' ! i)) = unat (q_size (qs ! i)) + unat cost \<and>
                 length qs' = length qs \<and> (\<forall>l. l \<noteq> i \<longrightarrow> qs' ! l = qs ! l))
          | (None, qs') \<Rightarrow> qs' = qs \<and> (\<forall>l < n. \<not> idle io l) \<and> (\<forall>l < n. unat (q_free (qs ! l)) < unat cost))"
proof (cases "find_scan qs io n 0 0")
  case (Inl m)
  then have "m < n" "idle io m" "\<forall>l < m. \<not> idle io l" using find_scan_first_idle[where qs = qs and io = io and k = n and i = 0 and j = 0] by auto
  then show ?thesis using Inl assms(1,3) by (auto simp: kv_ds_queue_find_def)
next
  case (Inr j)
  have busy: "\<forall>l < n. \<not> idle io l" using Inr find_scan_first_idle[where qs = qs and io = io and k = n and i = 0 and j = 0] by simp
  have j: "j < n" "\<forall>l < n. unat (q_free (qs ! l)) \<le> unat (q_free (qs ! j))"
    using find_scan_some_max[OF assms(3) Inr] by (auto simp: word_le_nat_alt)
  have okj: "q_ok (qs ! j)" using assms(1,2) j(1) by (simp add: list_all_length)
  note add = q_ok_add_cost[OF okj assms(4)]
  show ?thesis
  proof (cases "q_cap (qs ! j) \<ge> q_size (qs ! j) + cost")
    case True
    let ?qs = "qs[j := (qs ! j)\<lparr>q_size := q_size (qs ! j) + cost\<rparr>]"
    have eq: "kv_ds_queue_find qs io n cost = (Some j, ?qs)"
      using True Inr assms(3) by (simp add: kv_ds_queue_find_def)
    have "list_all q_ok ?qs" using kv_ds_queue_find_keeps_q_ok[OF assms(1,2,4) eq] by simp
    moreover have "unat cost \<le> unat (q_free (qs ! j))"
      using True add unat_q_free[OF okj] by (simp add: word_le_nat_alt)
    ultimately show ?thesis using eq j add assms(2) busy by auto
  next
    case False
    then have "unat (q_free (qs ! j)) < unat cost"
      using okj add unat_q_free[OF okj] by (simp add: word_le_nat_alt q_ok_def) linarith
    moreover have "kv_ds_queue_find qs io n cost = (None, qs)"
      using False Inr assms(3) by (simp add: kv_ds_queue_find_def)
    ultimately show ?thesis using j(2) busy by (auto intro: le_less_trans)
  qed
qed

theorem ds_queue_find_correct_witness:
  "kv_ds_queue_find [\<lparr>q_size = 1020, q_cap = 1024\<rparr>, \<lparr>q_size = 1000, q_cap = 1024\<rparr>] None 2 8
     = (Some 1, [\<lparr>q_size = 1020, q_cap = 1024\<rparr>, \<lparr>q_size = 1008, q_cap = 1024\<rparr>]) \<and>
   unat (q_free \<lparr>q_size = 1020, q_cap = 1024\<rparr>) \<le> unat (q_free \<lparr>q_size = 1000, q_cap = 1024\<rparr>)"
proof -
  let ?qs = "[\<lparr>q_size = 1020, q_cap = 1024\<rparr>, \<lparr>q_size = 1000, q_cap = 1024\<rparr>]"
  have e: "kv_ds_queue_find ?qs None 2 8
     = (Some 1, [\<lparr>q_size = 1020, q_cap = 1024\<rparr>, \<lparr>q_size = 1008, q_cap = 1024\<rparr>])"
    by code_simp
  have h: "list_all q_ok ?qs" "2 \<le> length ?qs" "0 < (2::nat)" "unat (8::u32) < 2 ^ 31"
    by (simp_all add: q_ok_def)
  have "\<forall>l < 2. unat (q_free (?qs ! l)) \<le> unat (q_free (?qs ! 1))"
    using ds_queue_find_correct[OF h, of None] unfolding e by (auto simp: idle_def)
  then have "unat (q_free (?qs ! 0)) \<le> unat (q_free (?qs ! 1))" by (metis zero_less_numeral)
  then show ?thesis using e by simp
qed

end
