(* ===== verification/Kv_Circular_Log.thy ===== *)
theory Kv_Circular_Log
  imports Leed_Prelude
begin

unbundle bit_operations_syntax

text \<open>
  \<open>kv_circular_log.h\<close> and \<open>kv_circular_log.c\<close>: a log of blocks on a region of a block
  device, written at its tail and trimmed at its head, with a prefetch buffer that mirrors
  the blocks behind the head. The type variable \<open>'b\<close> is the content of one block; the
  bucket log, the value log and the bucket id log instantiate it. An \<open>iovec\<close> carries its
  address and the blocks at that address; its \<open>iov_len\<close> counts blocks, as in the source.
\<close>

section \<open>Data\<close>

record 'b iovec =
  iov_base :: u64
  iov_blocks :: "'b list"

definition iov_len :: "'b iovec \<Rightarrow> u64" where
  "iov_len v = word_of_nat (length (iov_blocks v))"

record 'b kv_circular_log_fetch =
  fetch_len :: u64
  f_head :: u64
  f_tail :: u64
  f_tail1 :: u64
  f_size :: u64
  f_addr :: u64
  f_buffer :: "'b list"
  f_valid :: "bool list"

record 'b kv_circular_log =
  l_block_size :: u64
  l_thread_index :: u32
  l_base :: u64
  l_size :: u64
  l_head :: u64
  l_tail :: u64
  l_fetch :: "'b kv_circular_log_fetch"

datatype kv_circular_log_operation = CIRCULAR_LOG_READ | CIRCULAR_LOG_APPEND | CIRCULAR_LOG_WRITE

text \<open>The two macros apply to a log and to its fetch window alike.\<close>

definition kv_circular_log_length :: "u64 \<Rightarrow> u64 \<Rightarrow> u64 \<Rightarrow> u64" where
  "kv_circular_log_length sz h t = (sz + t - h) mod sz"

definition kv_circular_log_empty_space :: "u64 \<Rightarrow> u64 \<Rightarrow> u64 \<Rightarrow> u64" where
  "kv_circular_log_empty_space sz h t = sz - 1 - kv_circular_log_length sz h t"

abbreviation log_length :: "'b kv_circular_log \<Rightarrow> u64" where
  "log_length l \<equiv> kv_circular_log_length (l_size l) (l_head l) (l_tail l)"

abbreviation log_empty_space :: "'b kv_circular_log \<Rightarrow> u64" where
  "log_empty_space l \<equiv> kv_circular_log_empty_space (l_size l) (l_head l) (l_tail l)"

abbreviation fetch_length :: "'b kv_circular_log_fetch \<Rightarrow> u64" where
  "fetch_length f \<equiv> kv_circular_log_length (f_size f) (f_head f) (f_tail f)"

abbreviation fetch_empty_space :: "'b kv_circular_log_fetch \<Rightarrow> u64" where
  "fetch_empty_space f \<equiv> kv_circular_log_empty_space (f_size f) (f_head f) (f_tail f)"

section \<open>Initialisation\<close>

text \<open>
  The buffer comes from \<open>kv_storage_blk_alloc\<close>: its address and its (uninitialised)
  blocks are arguments.
\<close>

definition kv_circular_log_init ::
  "u64 \<Rightarrow> u32 \<Rightarrow> u64 \<Rightarrow> u64 \<Rightarrow> u64 \<Rightarrow> u64 \<Rightarrow> u64 \<Rightarrow> u64 \<Rightarrow> u64 \<Rightarrow> 'b list \<Rightarrow> 'b kv_circular_log" where
  "kv_circular_log_init block_size thread b sz h t fetch_buf_size flen buf_addr buf =
     \<lparr>l_block_size = block_size, l_thread_index = thread, l_base = b, l_size = sz,
      l_head = h, l_tail = t,
      l_fetch = \<lparr>fetch_len = flen, f_head = 0, f_tail = 0, f_tail1 = 0,
        f_size = fetch_buf_size + 1, f_addr = buf_addr, f_buffer = buf,
        f_valid = replicate (unat (fetch_buf_size + 1)) False\<rparr>\<rparr>"

definition kv_circular_log_fini :: "'b kv_circular_log \<Rightarrow> 'b kv_circular_log" where
  "kv_circular_log_fini l = l\<lparr>l_fetch := (l_fetch l)\<lparr>f_buffer := [], f_valid := []\<rparr>\<rparr>"

section \<open>Vectored I/O\<close>

text \<open>Requests handed to \<open>kv_storage_read_blocks\<close> and \<open>kv_storage_write_blocks\<close>: the vector, the first device block and the number of blocks.\<close>

datatype 'b device_io =
  Storage_read "'b iovec list" u64 u64
| Storage_write "'b iovec list" u64 u64

text \<open>
  \<open>Iov_issued\<close> lists the requests of one call; \<open>Iov_no_space\<close> is the append that fails:
  its callback is sent to the owning thread with \<open>success = false\<close>.
\<close>

datatype 'b iov_result = Iov_issued "'b device_io list" | Iov_no_space

text \<open>The state of the loop that splits the vector where the log wraps around.\<close>

record 'b split_state =
  sp_n :: u64
  sp_splitted :: bool
  sp_i2 :: nat
  sp_blocks :: "'b iovec list"
  sp_blocks2 :: "nat option"

definition iov_null :: "'b iovec" where
  "iov_null = \<lparr>iov_base = 0, iov_blocks = []\<rparr>"

definition iov_split_step ::
  "u64 \<Rightarrow> u64 \<Rightarrow> nat \<Rightarrow> nat \<Rightarrow> 'b iovec \<Rightarrow> 'b split_state \<Rightarrow> 'b split_state" where
  "iov_split_step bs remaining iovcnt i v st =
     (let n = sp_n st + iov_len v in
      if \<not> sp_splitted st \<and> n \<ge> remaining then
        let i2 = i + 1;
            over = n - remaining;
            keep = length (iov_blocks v) - unat over;
            b1 = v\<lparr>iov_blocks := take keep (iov_blocks v)\<rparr>;
            b2 = \<lparr>iov_base = iov_base v + (iov_len v * bs - over * bs),
                  iov_blocks = drop keep (iov_blocks v)\<rparr>
        in st\<lparr>sp_n := n, sp_splitted := True, sp_i2 := i2,
              sp_blocks := (sp_blocks st)[i2 := b2, i := b1],
              sp_blocks2 := (if over * bs \<noteq> 0 then Some i2
                             else if i2 = iovcnt then None else Some (i2 + 1))\<rparr>
      else st\<lparr>sp_n := n,
              sp_blocks := (sp_blocks st)[i + (if sp_splitted st then 1 else 0) := v]\<rparr>)"

fun iov_split_loop ::
  "u64 \<Rightarrow> u64 \<Rightarrow> nat \<Rightarrow> nat \<Rightarrow> 'b iovec list \<Rightarrow> 'b split_state \<Rightarrow> 'b split_state res" where
  "iov_split_loop bs remaining iovcnt i [] st = Inr st"
| "iov_split_loop bs remaining iovcnt i (v # vs) st =
     rbind (c_assert (iov_base v AND 3 = 0))
       (\<lambda>_. iov_split_loop bs remaining iovcnt (Suc i) vs
              (iov_split_step bs remaining iovcnt i v st))"

definition iov_split :: "u64 \<Rightarrow> u64 \<Rightarrow> 'b iovec list \<Rightarrow> 'b split_state res" where
  "iov_split bs remaining blocks =
     iov_split_loop bs remaining (length blocks) 0 blocks
       \<lparr>sp_n = 0, sp_splitted = False, sp_i2 = 0,
        sp_blocks = replicate (length blocks + 1) iov_null, sp_blocks2 = None\<rparr>"

text \<open>The requests of a split vector: two where it wraps, one otherwise.\<close>

definition iov_requests ::
  "('b iovec list \<Rightarrow> u64 \<Rightarrow> u64 \<Rightarrow> 'b device_io) \<Rightarrow> u64 \<Rightarrow> u64 \<Rightarrow> u64 \<Rightarrow> nat \<Rightarrow> 'b split_state
     \<Rightarrow> 'b device_io list" where
  "iov_requests io b offset remaining iovcnt st =
     (case sp_blocks2 st of
        Some p \<Rightarrow> [io (take (sp_i2 st) (sp_blocks st)) (b + offset) remaining,
                   io (drop p (sp_blocks st)) b (sp_n st - remaining)]
      | None \<Rightarrow> [io (take iovcnt (sp_blocks st)) (b + offset) (sp_n st)])"

section \<open>The fetch window\<close>

fun copy_blocks :: "'b kv_circular_log_fetch \<Rightarrow> 'b iovec list \<Rightarrow> 'b kv_circular_log_fetch" where
  "copy_blocks f [] = f"
| "copy_blocks f (v # vs) =
     (let empty_space = fetch_empty_space f in
      if empty_space = 0 then f
      else
        let len = (if iov_len v < empty_space then iov_len v else empty_space);
            src = take (unat len) (iov_blocks v);
            pos = unat (f_tail f);
            f' = (if f_tail f + len > f_size f then
                    let len0 = unat (f_size f - f_tail f) in
                    f\<lparr>f_buffer := blit (blit (f_buffer f) pos (take len0 src)) 0 (drop len0 src),
                      f_valid := blit (blit (f_valid f) pos (replicate len0 True)) 0
                                   (replicate (unat len - len0) True)\<rparr>
                  else
                    f\<lparr>f_buffer := blit (f_buffer f) pos src,
                      f_valid := blit (f_valid f) pos (replicate (unat len) True)\<rparr>)
        in copy_blocks (f'\<lparr>f_tail := (f_tail f + len) mod f_size f\<rparr>) vs)"

definition copy_to_fetch_buf :: "'b kv_circular_log \<Rightarrow> 'b iovec list \<Rightarrow> 'b kv_circular_log" where
  "copy_to_fetch_buf l blocks =
     (if log_length l \<ge> f_size (l_fetch l) - 1 then l
      else let f = copy_blocks (l_fetch l) blocks
           in l\<lparr>l_fetch := f\<lparr>f_tail1 := f_tail f\<rparr>\<rparr>)"

definition kv_circular_log_iov ::
  "'b kv_circular_log \<Rightarrow> u64 \<Rightarrow> 'b iovec list \<Rightarrow> kv_circular_log_operation
     \<Rightarrow> ('b kv_circular_log \<times> 'b iov_result) res" where
  "kv_circular_log_iov l offset blocks op =
     (let remaining = l_size l - offset in
      rbind (iov_split (l_block_size l) remaining blocks) (\<lambda>st.
        case op of
          CIRCULAR_LOG_READ \<Rightarrow>
            rbind (c_assert ((l_size l + offset - l_head l) mod l_size l < log_length l)) (\<lambda>_.
            rbind (c_assert ((l_size l + l_tail l - offset) mod l_size l \<ge> sp_n st)) (\<lambda>_.
              Inr (l, Iov_issued (iov_requests Storage_read (l_base l) offset remaining (length blocks) st))))
        | CIRCULAR_LOG_APPEND \<Rightarrow>
            (let offset' = l_tail l in
             if log_empty_space l < sp_n st then Inr (l, Iov_no_space)
             else
               let l1 = copy_to_fetch_buf l blocks;
                   l2 = l1\<lparr>l_tail := (l_tail l1 + sp_n st) mod l_size l1\<rparr>
               in Inr (l2, Iov_issued
                     (iov_requests Storage_write (l_base l) offset' remaining (length blocks) st)))
        | CIRCULAR_LOG_WRITE \<Rightarrow>
            Inr (l, Iov_issued
                     (iov_requests Storage_write (l_base l) offset remaining (length blocks) st))))"

text \<open>The inline wrappers of the header.\<close>

definition kv_circular_log_readv where
  "kv_circular_log_readv l offset blocks = kv_circular_log_iov l offset blocks CIRCULAR_LOG_READ"

definition kv_circular_log_read where
  "kv_circular_log_read l offset v = kv_circular_log_iov l offset [v] CIRCULAR_LOG_READ"

definition kv_circular_log_writev where
  "kv_circular_log_writev l offset blocks = kv_circular_log_iov l offset blocks CIRCULAR_LOG_WRITE"

definition kv_circular_log_write where
  "kv_circular_log_write l offset v = kv_circular_log_iov l offset [v] CIRCULAR_LOG_WRITE"

definition kv_circular_log_appendv where
  "kv_circular_log_appendv l blocks = kv_circular_log_iov l (l_tail l) blocks CIRCULAR_LOG_APPEND"

definition kv_circular_log_append where
  "kv_circular_log_append l v = kv_circular_log_iov l (l_tail l) [v] CIRCULAR_LOG_APPEND"

text \<open>
  The completion of one request: \<open>iov_cb\<close> decrements the counter of the call and, for
  the last one, hands its own success flag to the caller. \<open>iov_fail_cb\<close> is the message of
  a failed append.
\<close>

definition iov_cb :: "bool \<Rightarrow> u8 \<Rightarrow> u8 \<times> bool option" where
  "iov_cb success io_cnt =
     (let c = io_cnt - 1 in if c \<noteq> 0 then (c, None) else (c, Some success))"

definition iov_fail_cb :: "u8 \<Rightarrow> u8 \<times> bool option" where
  "iov_fail_cb io_cnt = iov_cb False io_cnt"

definition iov_io_cnt :: "'b iov_result \<Rightarrow> u8" where
  "iov_io_cnt r = (case r of Iov_issued ios \<Rightarrow> word_of_nat (length ios) | Iov_no_space \<Rightarrow> 1)"

section \<open>Prefetching\<close>

definition FETCH_CON_IO :: u64 where
  "FETCH_CON_IO = 32"

record 'b fetch_ctx =
  fc_offset :: u64
  fc_n :: u64
  fc_iov :: "'b iovec list"

definition fetch_ctx_zero :: "'b fetch_ctx" where
  "fetch_ctx_zero = \<lparr>fc_offset = 0, fc_n = 0, fc_iov = []\<rparr>"

text \<open>Position in the buffer of the block an iov of a prefetch points to.\<close>

definition iov_index :: "'b kv_circular_log \<Rightarrow> 'b iovec \<Rightarrow> nat" where
  "iov_index l v = unat ((iov_base v - f_addr (l_fetch l)) div l_block_size l)"

definition mark_valid :: "'b kv_circular_log \<Rightarrow> 'b iovec \<Rightarrow> bool list \<Rightarrow> bool list" where
  "mark_valid l v valid = blit valid (iov_index l v) (replicate (length (iov_blocks v)) True)"

text \<open>The loop that moves the tail of the window over the blocks that have arrived.\<close>

fun fetch_advance :: "nat \<Rightarrow> 'b kv_circular_log_fetch \<Rightarrow> 'b kv_circular_log_fetch res" where
  "fetch_advance 0 f = Inl No_return"
| "fetch_advance (Suc fuel) f =
     (if fetch_empty_space f = 0 then Inr f
      else if \<not> f_valid f ! unat (f_tail f) then Inr f
      else fetch_advance fuel (f\<lparr>f_tail := (f_tail f + 1) mod f_size f\<rparr>))"

definition buffer_iov :: "'b kv_circular_log \<Rightarrow> u64 \<Rightarrow> u64 \<Rightarrow> 'b iovec" where
  "buffer_iov l pos len =
     \<lparr>iov_base = f_addr (l_fetch l) + pos * l_block_size l,
      iov_blocks = take (unat len) (drop (unat pos) (f_buffer (l_fetch l)))\<rparr>"

text \<open>
  \<open>_fetch\<close>: the callback of a prefetch read and the starter of the next one. The result is
  the log and the read it leaves in flight, if any; a failed read is issued again.
\<close>

definition fetch_issue ::
  "'b kv_circular_log \<Rightarrow> 'b fetch_ctx \<Rightarrow> ('b kv_circular_log \<times> 'b fetch_ctx option) res" where
  "fetch_issue l ctx =
     rbind (kv_circular_log_readv l (fc_offset ctx) (fc_iov ctx)) (\<lambda>_. Inr (l, Some ctx))"

definition fetch_next ::
  "'b kv_circular_log \<Rightarrow> ('b kv_circular_log \<times> 'b fetch_ctx option) res" where
  "fetch_next l =
     (let f = l_fetch l;
          len = (f_size f - f_head f + f_tail1 f) mod f_size f;
          fetching_len = (f_size f - f_tail f + f_tail1 f) mod f_size f;
          remaining_len = f_size f - 1 - len;
          offset = (l_head l + len) mod l_size l;
          n0 = (l_size l - offset + l_tail l) mod l_size l;
          n1 = (if n0 < fetch_len f then n0 else fetch_len f);
          n = (if n1 < remaining_len then n1 else remaining_len)
      in if n < fetch_len f \<or> fetch_length f = log_length l
            \<or> fetching_len \<ge> fetch_len f * FETCH_CON_IO
         then Inr (l, None)
         else
           let iovs = (if n + f_tail1 f > f_size f then
                         [buffer_iov l (f_tail1 f) (f_size f - f_tail1 f),
                          buffer_iov l 0 (n - (f_size f - f_tail1 f))]
                       else [buffer_iov l (f_tail1 f) n]);
               ctx = \<lparr>fc_offset = offset, fc_n = n, fc_iov = iovs\<rparr>
           in rbind (fetch_issue l ctx) (\<lambda>(l', rd).
                Inr (l'\<lparr>l_fetch := f\<lparr>f_tail1 := (f_tail1 f + n) mod f_size f\<rparr>\<rparr>, rd)))"

definition fetch_cb ::
  "bool \<Rightarrow> 'b fetch_ctx \<Rightarrow> 'b kv_circular_log \<Rightarrow> ('b kv_circular_log \<times> 'b fetch_ctx option) res" where
  "fetch_cb success ctx l =
     (if success then
        let f = (l_fetch l)\<lparr>f_valid := fold (mark_valid l) (fc_iov ctx) (f_valid (l_fetch l))\<rparr> in
        rbind (fetch_advance (unat (f_size f)) f) (\<lambda>f'. fetch_next (l\<lparr>l_fetch := f'\<rparr>))
      else fetch_issue l ctx)"

fun move_head_loop ::
  "nat \<Rightarrow> 'b kv_circular_log \<Rightarrow> 'b fetch_ctx list \<Rightarrow> ('b kv_circular_log \<times> 'b fetch_ctx list) res" where
  "move_head_loop 0 l acc = Inl No_return"
| "move_head_loop (Suc fuel) l acc =
     rbind (fetch_cb True fetch_ctx_zero l) (\<lambda>(l', rd).
       let acc' = acc @ (case rd of None \<Rightarrow> [] | Some c \<Rightarrow> [c]) in
       if f_tail1 (l_fetch l) = f_tail1 (l_fetch l') then Inr (l', acc')
       else move_head_loop fuel l' acc')"

definition clear_valid :: "'b kv_circular_log_fetch \<Rightarrow> u64 \<Rightarrow> bool list" where
  "clear_valid f n =
     fold (\<lambda>i v. v[unat ((f_head f + word_of_nat i) mod f_size f) := False]) [0..<unat n] (f_valid f)"

definition kv_circular_log_move_head ::
  "'b kv_circular_log \<Rightarrow> u64 \<Rightarrow> ('b kv_circular_log \<times> 'b fetch_ctx list) res" where
  "kv_circular_log_move_head l n =
     (let f = l_fetch l in
      rbind (c_assert (fetch_length f \<ge> n)) (\<lambda>_.
        move_head_loop (Suc (unat (f_size f)))
          (l\<lparr>l_head := (l_head l + n) mod l_size l,
             l_fetch := f\<lparr>f_valid := clear_valid f n, f_head := (f_head f + n) mod f_size f\<rparr>\<rparr>) []))"

text \<open>Reads of the window: the one or two runs of blocks that hold \<open>n\<close> blocks from \<open>offset\<close>.\<close>

definition kv_circular_log_fetch_iov ::
  "'b kv_circular_log \<Rightarrow> u64 \<Rightarrow> u64 \<Rightarrow> ('b iovec \<times> 'b iovec) res" where
  "kv_circular_log_fetch_iov l offset n =
     (let o1 = (l_size l - l_head l + offset) mod l_size l;
          f = l_fetch l in
      rbind (c_assert (o1 < fetch_length f)) (\<lambda>_.
        let o2 = (f_head f + o1) mod f_size f in
        rbind (c_assert ((f_size f + f_tail f - o2) mod f_size f \<ge> n)) (\<lambda>_.
          let len0 = (if o2 + n > f_size f then f_size f - o2 else n) in
          Inr (buffer_iov l o2 len0, buffer_iov l 0 (n - len0)))))"

definition kv_circular_log_fetch_one :: "'b kv_circular_log \<Rightarrow> u64 \<Rightarrow> 'b res" where
  "kv_circular_log_fetch_one l offset =
     (let o1 = (l_size l - l_head l + offset) mod l_size l;
          f = l_fetch l in
      rbind (c_assert (o1 < fetch_length f)) (\<lambda>_.
        Inr (f_buffer f ! unat ((f_head f + o1) mod f_size f))))"

definition kv_circular_log_is_fetchable :: "'b kv_circular_log \<Rightarrow> u64 \<Rightarrow> bool" where
  "kv_circular_log_is_fetchable l offset \<longleftrightarrow>
     (l_size l - l_head l + offset) mod l_size l < fetch_length (l_fetch l)"

end
