(* ===== verification/Circular_Log_Append.thy ===== *)
theory Circular_Log_Append
  imports Kv_Circular_Log
begin

text \<open>
  Correctness of the vectored I/O of the circular log: the split of a vector where the log
  wraps around, the requests as writes of a circular region of the device, and an append as
  the append of a list of blocks that keeps the prefetch window a mirror of the device.
\<close>

unbundle bit_operations_syntax

section \<open>The split of a vector\<close>

definition iov_data :: "'b iovec list \<Rightarrow> 'b list" where
  "iov_data vs = concat (map iov_blocks vs)"

lemma iov_data_simps [simp]:
  "iov_data [] = []" "iov_data (v # vs) = iov_blocks v @ iov_data vs"
  "iov_data (xs @ ys) = iov_data xs @ iov_data ys"
  by (simp_all add: iov_data_def)

definition iov_aligned :: "'b iovec list \<Rightarrow> bool" where
  "iov_aligned vs \<longleftrightarrow> (\<forall>v \<in> set vs. iov_base v AND 3 = 0)"

lemma iov_aligned_simps [simp]:
  "iov_aligned []" "iov_aligned (v # vs) \<longleftrightarrow> iov_base v AND 3 = 0 \<and> iov_aligned vs"
  by (auto simp: iov_aligned_def)

lemma split_loop_after:
  assumes "sp_splitted st" and "iov_aligned vs"
    and "sp_blocks st = xs @ replicate (length vs + k) iov_null" and "length xs = Suc i"
  shows "iov_split_loop bs rem cnt i vs st =
    Inr (st\<lparr>sp_n := sp_n st + word_of_nat (length (iov_data vs)),
            sp_blocks := xs @ vs @ replicate k iov_null\<rparr>)"
  using assms
proof (induction vs arbitrary: st xs i)
  case Nil
  then show ?case by simp
next
  case (Cons v vs)
  let ?st = "st\<lparr>sp_n := sp_n st + iov_len v, sp_blocks := (sp_blocks st)[Suc i := v]\<rparr>"
  have step: "iov_split_step bs rem cnt i v st = ?st"
    using Cons.prems(1) by (simp add: iov_split_step_def Let_def)
  have bl: "sp_blocks ?st = (xs @ [v]) @ replicate (length vs + k) iov_null"
    using Cons.prems(3,4) by (simp add: list_update_append)
  show ?case
    using Cons.IH[of ?st "xs @ [v]" "Suc i"] Cons.prems step bl
    by (simp add: iov_len_def add.assoc)
qed

text \<open>The outcome of the split in terms of the vector.\<close>

definition split_done :: "u64 \<Rightarrow> nat \<Rightarrow> nat \<Rightarrow> 'b iovec list \<Rightarrow> 'b split_state \<Rightarrow> bool" where
  "split_done bs r cnt vs st \<longleftrightarrow>
     sp_n st = word_of_nat (length (iov_data vs)) \<and>
     (if length (iov_data vs) < r then sp_blocks2 st = None \<and> take cnt (sp_blocks st) = vs
      else iov_data (take (sp_i2 st) (sp_blocks st)) = take r (iov_data vs) \<and>
           (case sp_blocks2 st of
              None \<Rightarrow> length (iov_data vs) = r \<and> sp_i2 st = cnt
            | Some p \<Rightarrow> iov_data (drop p (sp_blocks st)) = drop r (iov_data vs)))"

lemma mult_word_nonzero:
  fixes a b :: u64
  assumes "unat a * unat b < 2 ^ 64" and "b \<noteq> 0"
  shows "a * b \<noteq> 0 \<longleftrightarrow> a \<noteq> 0"
proof -
  have "unat (a * b) = unat a * unat b" using assms(1) by (simp add: unat_word_ariths)
  then show ?thesis using assms(2) by (metis mult_eq_0_iff unat_eq_zero)
qed

text \<open>The vector that crosses the end of the log is cut in two; the rest follows its second part.\<close>

lemma split_loop_here:
  fixes rem bs :: u64 and xs :: "'b iovec list"
  defines "m \<equiv> length (iov_data xs)"
  assumes new: "\<not> sp_splitted st" and al: "iov_aligned (v # vs)"
    and bl0: "sp_blocks st = xs @ replicate (Suc (Suc (length vs))) iov_null" "length xs = i" "cnt = i + Suc (length vs)"
    and n0: "sp_n st = word_of_nat m" and before: "m < unat rem" and le: "unat rem \<le> m + length (iov_blocks v)"
    and bs: "bs \<noteq> 0" and tot: "length (iov_data (xs @ v # vs)) < 2 ^ 64" "length (iov_data (xs @ v # vs)) * unat bs < 2 ^ 64"
  shows "\<exists>st'. iov_split_loop bs rem cnt i (v # vs) st = Inr st' \<and> split_done bs (unat rem) cnt (xs @ v # vs) st'"
proof -
  define N where "N = m + length (iov_blocks v)"
  have un: "unat (word_of_nat N :: u64) = N" using tot(1) by (intro unat_of_nat_u64) (simp add: N_def m_def)
  have n: "sp_n st + iov_len v = word_of_nat N" using n0 by (simp add: iov_len_def N_def)
  have ge: "rem \<le> word_of_nat N" using le un by (simp add: word_le_nat_alt N_def)
  define over :: u64 where "over = word_of_nat N - rem"
  have uo: "unat over = N - unat rem" using ge un by (simp add: over_def unat_sub)
  define keep where "keep = length (iov_blocks v) - unat over"
  have keep: "keep = unat rem - m" using uo le before by (simp add: keep_def N_def)
  let ?b1 = "v\<lparr>iov_blocks := take keep (iov_blocks v)\<rparr>"
  let ?b2 = "\<lparr>iov_base = iov_base v + (iov_len v * bs - over * bs), iov_blocks = drop keep (iov_blocks v)\<rparr>"
  let ?st = "st\<lparr>sp_n := word_of_nat N, sp_splitted := True, sp_i2 := i + 1,
      sp_blocks := xs @ [?b1, ?b2] @ replicate (length vs) iov_null,
      sp_blocks2 := (if over * bs \<noteq> 0 then Some (i + 1) else if i + 1 = cnt then None else Some (i + 1 + 1))\<rparr>"
  have "(sp_blocks st)[i + 1 := ?b2, i := ?b1] = xs @ [?b1, ?b2] @ replicate (length vs) iov_null"
    using bl0(1,2) by (simp add: list_update_append)
  then have step: "iov_split_step bs rem cnt i v st = ?st"
    using new ge unfolding iov_split_step_def Let_def n over_def[symmetric] keep_def by simp
  let ?st' = "?st\<lparr>sp_n := word_of_nat N + word_of_nat (length (iov_data vs)), sp_blocks := (xs @ [?b1, ?b2]) @ vs @ replicate 0 iov_null\<rparr>"
  have rest: "iov_split_loop bs rem cnt (Suc i) vs ?st = Inr ?st'"
    using split_loop_after[of ?st vs "xs @ [?b1, ?b2]" 0 "Suc i"] al bl0(2) by simp
  have "unat over * unat bs \<le> length (iov_data (xs @ v # vs)) * unat bs" using uo by (intro mult_le_mono1) (simp add: N_def m_def)
  then have ob: "over * bs \<noteq> 0 \<longleftrightarrow> over \<noteq> 0" using tot(2) bs by (intro mult_word_nonzero) linarith
  have t: "iov_data xs @ take keep (iov_blocks v) = take (unat rem) (iov_data (xs @ v # vs))"
    "drop keep (iov_blocks v) @ iov_data vs = drop (unat rem) (iov_data (xs @ v # vs))"
    using keep le before by (simp_all add: min_def m_def)
  have "split_done bs (unat rem) cnt (xs @ v # vs) ?st'"
  proof (cases "over = 0")
    case True
    then have "drop keep (iov_blocks v) = []" "rem = word_of_nat m + word_of_nat (length (iov_blocks v))" "N = unat rem"
      using uo le by (simp_all add: keep_def over_def N_def)
    then show ?thesis using True t bl0(2,3) le by (cases vs) (simp_all add: split_done_def N_def m_def)
  next
    case False
    then show ?thesis using ob t bl0(2,3) le by (simp add: split_done_def N_def m_def)
  qed
  then show ?thesis using step rest al by simp
qed

lemma split_loop_before:
  fixes rem bs :: u64
  assumes "\<not> sp_splitted st" and "iov_aligned vs" and "sp_blocks2 st = None"
    and "sp_blocks st = xs @ replicate (Suc (length vs)) iov_null" and "length xs = i"
    and "cnt = i + length vs" and "sp_n st = word_of_nat (length (iov_data xs))"
    and "length (iov_data xs) < unat rem"
    and "bs \<noteq> 0" and "length (iov_data (xs @ vs)) * unat bs < 2 ^ 64"
  shows "\<exists>st'. iov_split_loop bs rem cnt i vs st = Inr st' \<and> split_done bs (unat rem) cnt (xs @ vs) st'"
  using assms
proof (induction vs arbitrary: st xs i)
  case Nil
  then show ?case by (simp add: split_done_def)
next
  case (Cons v vs)
  let ?N = "length (iov_data xs) + length (iov_blocks v)"
  have "1 \<le> unat bs" using Cons.prems(9) by (simp add: Suc_leI unat_gt_0)
  then have tot: "length (iov_data (xs @ v # vs)) < 2 ^ 64"
    using Cons.prems(10) by (metis le_less_trans mult.right_neutral mult_le_mono2)
  show ?case
  proof (cases "unat rem \<le> ?N")
    case False
    let ?st = "st\<lparr>sp_n := word_of_nat ?N, sp_blocks := (sp_blocks st)[i := v]\<rparr>"
    have "unat (word_of_nat ?N :: u64) = ?N" using tot by (intro unat_of_nat_u64) simp
    then have step: "iov_split_step bs rem cnt i v st = ?st"
      using Cons.prems(1,7) False by (simp add: iov_split_step_def Let_def iov_len_def word_le_nat_alt)
    have bl: "sp_blocks ?st = (xs @ [v]) @ replicate (Suc (length vs)) iov_null"
      using Cons.prems(4,5) by (simp add: list_update_append)
    show ?thesis using Cons.IH[of ?st "xs @ [v]" "Suc i"] Cons.prems step bl False by simp
  next
    case True
    show ?thesis using Cons.prems True tot by (intro split_loop_here) simp_all
  qed
qed

lemma iov_split_done:
  fixes rem bs :: u64
  assumes "iov_aligned vs" and "0 < unat rem" and "bs \<noteq> 0"
    and "length (iov_data vs) * unat bs < 2 ^ 64"
  obtains st where "iov_split bs rem vs = Inr st" and "split_done bs (unat rem) (length vs) vs st"
proof -
  let ?st = "\<lparr>sp_n = 0, sp_splitted = False, sp_i2 = 0,
    sp_blocks = replicate (length vs + 1) iov_null, sp_blocks2 = None\<rparr>"
  have "\<exists>st'. iov_split_loop bs rem (length vs) 0 vs ?st = Inr st' \<and>
          split_done bs (unat rem) (length vs) ([] @ vs) st'"
    by (rule split_loop_before) (use assms in simp_all)
  then show ?thesis using that by (auto simp: iov_split_def)
qed

section \<open>Requests on the device\<close>

definition dev_write :: "(nat \<Rightarrow> 'b) \<Rightarrow> nat \<Rightarrow> 'b list \<Rightarrow> nat \<Rightarrow> 'b" where
  "dev_write dev off bs = (\<lambda>a. if off \<le> a \<and> a < off + length bs then bs ! (a - off) else dev a)"

fun exec_io :: "'b device_io \<Rightarrow> (nat \<Rightarrow> 'b) \<Rightarrow> nat \<Rightarrow> 'b" where
  "exec_io (Storage_write vs off n) dev = dev_write dev (unat off) (take (unat n) (iov_data vs))"
| "exec_io (Storage_read vs off n) dev = dev"

definition exec_ios :: "'b device_io list \<Rightarrow> (nat \<Rightarrow> 'b) \<Rightarrow> nat \<Rightarrow> 'b" where
  "exec_ios ios dev = fold exec_io ios dev"

definition circ_write :: "(nat \<Rightarrow> 'b) \<Rightarrow> nat \<Rightarrow> nat \<Rightarrow> nat \<Rightarrow> 'b list \<Rightarrow> nat \<Rightarrow> 'b" where
  "circ_write dev b sz off bs =
     (\<lambda>a. if b \<le> a \<and> a < b + sz \<and> circ_dist sz off (a - b) < length bs
           then bs ! circ_dist sz off (a - b) else dev a)"

lemma circ_write_one:
  assumes "off + length bs \<le> sz" and "off < sz"
  shows "dev_write dev (b + off) bs = circ_write dev b sz off bs"
proof
  fix a
  show "dev_write dev (b + off) bs a = circ_write dev b sz off bs a"
  proof (cases "b \<le> a \<and> a < b + sz")
    case True
    then have "circ_dist sz off (a - b) = (if off \<le> a - b then a - b - off else sz + (a - b) - off)"
      using assms(2) by (intro circ_dist_cases) auto
    then show ?thesis using True assms by (auto simp: dev_write_def circ_write_def)
  next
    case False
    then show ?thesis using assms by (auto simp: dev_write_def circ_write_def)
  qed
qed

lemma circ_write_two:
  assumes "off < sz" and "length bs \<le> sz" and "sz - off \<le> length bs"
  shows "dev_write (dev_write dev (b + off) (take (sz - off) bs)) b (drop (sz - off) bs)
         = circ_write dev b sz off bs"
proof
  fix a
  show "dev_write (dev_write dev (b + off) (take (sz - off) bs)) b (drop (sz - off) bs) a
         = circ_write dev b sz off bs a"
  proof (cases "b \<le> a \<and> a < b + sz")
    case True
    then have d: "circ_dist sz off (a - b) = (if off \<le> a - b then a - b - off else sz + (a - b) - off)"
      using assms(1) by (intro circ_dist_cases) auto
    show ?thesis
    proof (cases "off \<le> a - b")
      case True
      then show ?thesis using \<open>b \<le> a \<and> a < b + sz\<close> d assms
        by (auto simp: dev_write_def circ_write_def)
    next
      case False
      then show ?thesis using \<open>b \<le> a \<and> a < b + sz\<close> d assms
        by (auto simp: dev_write_def circ_write_def add.commute)
    qed
  next
    case False
    then show ?thesis using assms by (auto simp: dev_write_def circ_write_def)
  qed
qed

lemma iov_requests_write:
  fixes b off sz :: u64
  assumes "split_done bs (unat (sz - off)) (length vs) vs st"
    and "unat off < unat sz" and "length (iov_data vs) \<le> unat sz" and "unat b + unat sz < 2 ^ 64"
  shows "exec_ios (iov_requests Storage_write b off (sz - off) (length vs) st) dev
         = circ_write dev (unat b) (unat sz) (unat off) (iov_data vs)"
proof -
  let ?D = "iov_data vs"
  have r: "unat (sz - off) = unat sz - unat off" using assms(2) by (simp add: unat_sub_le)
  have bo: "unat (b + off) = unat b + unat off" using assms(2,4) by (simp add: unat_add_less)
  have n: "sp_n st = word_of_nat (length ?D)" using assms(1) by (simp add: split_done_def)
  have un: "unat (sp_n st) = length ?D"
    unfolding n using assms(3,4) by (intro unat_of_nat_u64) linarith
  show ?thesis
  proof (cases "length ?D < unat (sz - off)")
    case True
    then show ?thesis using assms(1,2) r bo un
      by (simp add: split_done_def iov_requests_def exec_ios_def circ_write_one)
  next
    case False
    note sp = assms(1)[unfolded split_done_def]
    show ?thesis
    proof (cases "sp_blocks2 st")
      case None
      then have "iov_data (take (length vs) (sp_blocks st)) = ?D" "length ?D = unat (sz - off)"
        using False sp by auto
      then show ?thesis using None assms(2) r bo un
        by (simp add: iov_requests_def exec_ios_def circ_write_one)
    next
      case (Some p)
      then have d: "iov_data (take (sp_i2 st) (sp_blocks st)) = take (unat (sz - off)) ?D"
        "iov_data (drop p (sp_blocks st)) = drop (unat (sz - off)) ?D"
        using False sp by auto
      have "unat (sp_n st - (sz - off)) = length ?D - unat (sz - off)"
        using False un by (simp add: unat_sub_le)
      then show ?thesis using Some d assms(2,3) False r bo
        by (simp add: iov_requests_def exec_ios_def circ_write_two)
    qed
  qed
qed

section \<open>Well-formed logs\<close>

definition fetch_wf :: "u64 \<Rightarrow> 'b kv_circular_log_fetch \<Rightarrow> bool" where
  "fetch_wf bs f \<longleftrightarrow>
     unat (f_size f) * unat bs < 2 ^ 62 \<and> unat (fetch_len f) < 2 ^ 56 \<and> 0 < unat (fetch_len f) \<and>
     unat (f_head f) < unat (f_size f) \<and> unat (f_tail f) < unat (f_size f) \<and>
     unat (f_tail1 f) < unat (f_size f) \<and> length (f_valid f) = unat (f_size f) \<and>
     length (f_buffer f) = unat (f_size f) + 1 \<and> f_addr f AND 3 = 0 \<and> bs AND 3 = 0 \<and> bs \<noteq> 0"

definition log_wf :: "'b kv_circular_log \<Rightarrow> bool" where
  "log_wf l \<longleftrightarrow>
     unat (l_size l) * unat (l_block_size l) < 2 ^ 62 \<and> unat (l_base l) + unat (l_size l) < 2 ^ 62 \<and>
     unat (l_head l) < unat (l_size l) \<and> unat (l_tail l) < unat (l_size l) \<and>
     fetch_wf (l_block_size l) (l_fetch l)"

abbreviation llen :: "'b kv_circular_log \<Rightarrow> nat" where
  "llen l \<equiv> circ_dist (unat (l_size l)) (unat (l_head l)) (unat (l_tail l))"

abbreviation wlen :: "'b kv_circular_log_fetch \<Rightarrow> nat" where
  "wlen f \<equiv> circ_dist (unat (f_size f)) (unat (f_head f)) (unat (f_tail f))"

abbreviation wlen1 :: "'b kv_circular_log_fetch \<Rightarrow> nat" where
  "wlen1 f \<equiv> circ_dist (unat (f_size f)) (unat (f_head f)) (unat (f_tail1 f))"

lemma mult_bound_left: "a * b < (c::nat) \<Longrightarrow> 0 < b \<Longrightarrow> a < c"
  by (metis One_nat_def Suc_leI le_less_trans mult.right_neutral mult_le_mono2)

lemma fetch_wf_size:
  assumes "fetch_wf bs f"
  shows "0 < unat (f_size f)" and "unat (f_size f) < 2 ^ 62"
  using assms mult_bound_left[of "unat (f_size f)" "unat bs" "2 ^ 62"]
  by (auto simp: fetch_wf_def unat_gt_0)

lemma log_wf_size:
  assumes "log_wf l"
  shows "0 < unat (l_size l)" and "unat (l_size l) < 2 ^ 62"
  using assms by (auto simp: log_wf_def)

lemma unat_log_length: "log_wf l \<Longrightarrow> unat (log_length l) = llen l"
  using log_wf_size[of l]
  by (simp add: kv_circular_log_length_def unat_circ_dist log_wf_def less_imp_le del: unat_mod)

lemma unat_fetch_length: "fetch_wf bs f \<Longrightarrow> unat (fetch_length f) = wlen f"
  using fetch_wf_size[of bs f]
  by (simp add: kv_circular_log_length_def unat_circ_dist fetch_wf_def less_imp_le del: unat_mod)

lemma unat_empty_space_gen:
  fixes sz h t :: u64
  assumes "unat h < unat sz" and "unat t < unat sz" and "unat sz < 2 ^ 62"
  shows "unat (kv_circular_log_empty_space sz h t) = unat sz - 1 - circ_dist (unat sz) (unat h) (unat t)"
proof -
  have len: "unat (kv_circular_log_length sz h t) = circ_dist (unat sz) (unat h) (unat t)"
    using assms by (simp add: kv_circular_log_length_def unat_circ_dist del: unat_mod)
  have s1: "unat (sz - 1) = unat sz - 1" using assms(1) by (simp add: unat_sub_le)
  have "circ_dist (unat sz) (unat h) (unat t) < unat sz" using assms(1) by simp
  then show ?thesis
    using len s1 by (simp add: kv_circular_log_empty_space_def unat_sub_le)
qed

lemma unat_fetch_empty_space:
  "fetch_wf bs f \<Longrightarrow> unat (fetch_empty_space f) = unat (f_size f) - 1 - wlen f"
  using fetch_wf_size[of bs f] by (simp add: unat_empty_space_gen fetch_wf_def)

lemma unat_log_empty_space:
  "log_wf l \<Longrightarrow> unat (log_empty_space l) = unat (l_size l) - 1 - llen l"
  using log_wf_size[of l] by (simp add: unat_empty_space_gen log_wf_def)

section \<open>Copies into the window\<close>

definition circ_upd :: "nat \<Rightarrow> nat \<Rightarrow> 'a list \<Rightarrow> 'a list \<Rightarrow> 'a list \<Rightarrow> bool" where
  "circ_upd s t src xs ys \<longleftrightarrow> length ys = length xs \<and>
     (\<forall>i < s. ys ! i = (if circ_dist s t i < length src then src ! circ_dist s t i else xs ! i))"

lemma circ_upd_two:
  assumes "t < s" and "s \<le> length xs" and "length src \<le> s" and "s - t \<le> length src"
  shows "circ_upd s t src xs (blit (blit xs t (take (s - t) src)) 0 (drop (s - t) src))"
  using assms by (auto simp: circ_upd_def nth_blit circ_dist_cases add.commute)

lemma circ_upd_one:
  assumes "t < s" and "s \<le> length xs" and "t + length src \<le> s"
  shows "circ_upd s t src xs (blit xs t src)"
  using assms by (auto simp: circ_upd_def nth_blit circ_dist_cases)

lemma circ_upd_append:
  assumes "t < s" and "length (a @ b) \<le> s - 1" and "circ_upd s t a xs ys"
    and "circ_upd s ((t + length a) mod s) b ys zs"
  shows "circ_upd s t (a @ b) xs zs"
  unfolding circ_upd_def
proof (intro conjI allI impI)
  show "length zs = length xs" using assms(3,4) by (simp add: circ_upd_def)
  fix i assume i: "i < s"
  let ?t = "(t + length a) mod s"
  have z: "zs ! i = (if circ_dist s ?t i < length b then b ! circ_dist s ?t i else ys ! i)"
    using assms(4) i by (simp add: circ_upd_def)
  have y: "ys ! i = (if circ_dist s t i < length a then a ! circ_dist s t i else xs ! i)"
    using assms(3) i by (simp add: circ_upd_def)
  show "zs ! i = (if circ_dist s t i < length (a @ b) then (a @ b) ! circ_dist s t i else xs ! i)"
  proof (cases "circ_dist s t i < length a")
    case True
    have "\<not> circ_dist s ?t i < length b"
      using True i assms(1,2) by (auto simp: circ_dist_cases mod_add_cases split: if_splits)
    then show ?thesis using True z y by (simp add: nth_append)
  next
    case False
    then have "circ_dist s ?t i = circ_dist s t i - length a"
      using circ_dist_advance_head[OF assms(1) i, of "length a"] by simp
    then show ?thesis using False z y by (auto simp: nth_append)
  qed
qed

lemma circ_upd_Nil: "circ_upd s t [] xs xs"
  by (simp add: circ_upd_def)

text \<open>One vector: as many of its blocks as there is room for are copied behind the tail of the window.\<close>

lemma copy_block_step:
  fixes f :: "'b kv_circular_log_fetch"
  defines "s \<equiv> unat (f_size f)" and "t \<equiv> unat (f_tail f)"
  assumes wf: "fetch_wf bs f" and room: "fetch_empty_space f \<noteq> 0" and small: "length (iov_blocks v) < 2 ^ 62"
  defines "n \<equiv> min (length (iov_blocks v)) (s - 1 - wlen f)"
  shows "\<exists>b1 v1. let f1 = f\<lparr>f_buffer := b1, f_valid := v1, f_tail := word_of_nat ((t + n) mod s)\<rparr> in
    copy_blocks f (v # vs) = copy_blocks f1 vs \<and> circ_upd s t (take n (iov_blocks v)) (f_buffer f) b1 \<and>
    circ_upd s t (replicate n True) (f_valid f) v1 \<and> fetch_wf bs f1 \<and> unat (f_tail f1) = (t + n) mod s \<and> wlen f1 = wlen f + n"
proof -
  define len where "len = (if iov_len v < fetch_empty_space f then iov_len v else fetch_empty_space f)"
  define src where "src = take (unat len) (iov_blocks v)"
  have sz: "0 < s" "s < 2 ^ 62" using fetch_wf_size[OF wf] by (simp_all add: s_def)
  have w: "t < s" "length (f_valid f) = s" "length (f_buffer f) = s + 1" using wf by (auto simp: fetch_wf_def s_def t_def)
  have "unat (iov_len v) = length (iov_blocks v)" unfolding iov_len_def using small by (intro unat_of_nat_u64) simp
  then have ul: "unat len = n" using unat_fetch_empty_space[OF wf] by (simp add: len_def n_def s_def word_less_nat_alt min_def)
  have n: "n \<le> s - 1 - wlen f" "n \<le> length (iov_blocks v)" by (simp_all add: n_def)
  have ls: "length src = n" using n(2) by (simp add: src_def ul)
  have ut: "unat (f_tail f + len) = t + n" using w(1) sz n(1) unat_add_less[of "f_tail f" len] by (simp add: t_def ul)
  have ust: "unat (f_size f - f_tail f) = s - t" using w(1) by (simp add: unat_sub_le s_def t_def)
  have gt: "f_tail f + len > f_size f \<longleftrightarrow> s < t + n" using ut by (simp add: word_less_nat_alt s_def)
  have t': "(f_tail f + len) mod f_size f = word_of_nat ((t + n) mod s)"
    using ut word_arith_nat_mod[of "f_tail f + len" "f_size f"] by (simp add: s_def)
  define b1 where "b1 = (if s < t + n then blit (blit (f_buffer f) t (take (s - t) src)) 0 (drop (s - t) src) else blit (f_buffer f) t src)"
  define v1 where "v1 = (if s < t + n then blit (blit (f_valid f) t (replicate (s - t) True)) 0 (replicate (n - (s - t)) True)
     else blit (f_valid f) t (replicate n True))"
  let ?f1 = "f\<lparr>f_buffer := b1, f_valid := v1, f_tail := word_of_nat ((t + n) mod s)\<rparr>"
  have ub: "circ_upd s t src (f_buffer f) b1" unfolding b1_def using w n(1) ls by (auto intro!: circ_upd_two circ_upd_one)
  have uv: "circ_upd s t (replicate n True) (f_valid f) v1"
  proof (cases "s < t + n")
    case True
    then show ?thesis unfolding v1_def using w n circ_upd_two[of t s "f_valid f" "replicate n True"] by (simp add: min_def split: if_splits)
  next
    case False
    then show ?thesis unfolding v1_def using w by (auto intro!: circ_upd_one)
  qed
  have st: "copy_blocks f (v # vs) = copy_blocks ?f1 vs"
    using room by (simp add: Let_def len_def[symmetric] src_def b1_def v1_def ust gt t' ul t_def[symmetric])
  have "(t + n) mod s < 2 ^ 64" using less_trans[OF mod_less_divisor[OF sz(1), of "t + n"] sz(2)] by simp
  then have ut1: "unat (f_tail ?f1) = (t + n) mod s" by (simp add: unat_of_nat_u64)
  have "fetch_wf bs ?f1" using wf ub uv sz ut1 unfolding fetch_wf_def circ_upd_def by (simp add: s_def)
  moreover have lt: "wlen f + n < s" using n(1) circ_dist_less[OF sz(1), of "unat (f_head f)" t] unfolding s_def t_def by linarith
  moreover have "wlen ?f1 = wlen f + n"
  proof -
    have "circ_dist s (unat (f_head f)) ((t + n) mod s) = wlen f + n"
      unfolding s_def t_def using wf lt by (intro circ_dist_advance_tail) (auto simp: fetch_wf_def s_def)
    then show ?thesis using ut1 by (simp add: s_def)
  qed
  ultimately show ?thesis using st ub uv ut1 by (intro exI[of _ b1] exI[of _ v1]) (simp add: Let_def src_def ul)
qed

lemma copy_blocks_upd:
  assumes "fetch_wf bs f" and "length (iov_data vs) < 2 ^ 62"
  shows "\<exists>b v. let m = min (length (iov_data vs)) (unat (f_size f) - 1 - wlen f) in
     copy_blocks f vs = f\<lparr>f_buffer := b, f_valid := v, f_tail := word_of_nat ((unat (f_tail f) + m) mod unat (f_size f))\<rparr> \<and>
     circ_upd (unat (f_size f)) (unat (f_tail f)) (take m (iov_data vs)) (f_buffer f) b \<and>
     circ_upd (unat (f_size f)) (unat (f_tail f)) (replicate m True) (f_valid f) v"
  using assms
proof (induction vs arbitrary: f)
  case Nil
  have "f_tail f = word_of_nat (unat (f_tail f) mod unat (f_size f))"
    using Nil by (simp add: fetch_wf_def)
  then have "copy_blocks f [] = f\<lparr>f_buffer := f_buffer f, f_valid := f_valid f,
      f_tail := word_of_nat (unat (f_tail f) mod unat (f_size f))\<rparr>" by simp
  then show ?case by (intro exI[of _ "f_buffer f"] exI[of _ "f_valid f"]) (simp add: circ_upd_Nil)
next
  case (Cons v vs)
  note wf = Cons.prems(1)
  let ?s = "unat (f_size f)" and ?t = "unat (f_tail f)" and ?e = "unat (f_size f) - 1 - wlen f"
  have e: "unat (fetch_empty_space f) = ?e" using unat_fetch_empty_space[OF wf] by simp
  have t: "?t < ?s" using wf by (auto simp: fetch_wf_def)
  show ?case
  proof (cases "fetch_empty_space f = 0")
    case True
    then have "?e = 0" using e by simp
    then show ?thesis using True t by (intro exI[of _ "f_buffer f"] exI[of _ "f_valid f"]) (simp add: circ_upd_Nil)
  next
    case False
    define n where "n = min (length (iov_blocks v)) ?e"
    obtain b1 v1 where st: "copy_blocks f (v # vs) = copy_blocks (f\<lparr>f_buffer := b1, f_valid := v1, f_tail := word_of_nat ((?t + n) mod ?s)\<rparr>) vs"
      and ub: "circ_upd ?s ?t (take n (iov_blocks v)) (f_buffer f) b1" and uv: "circ_upd ?s ?t (replicate n True) (f_valid f) v1"
      and f1: "fetch_wf bs (f\<lparr>f_buffer := b1, f_valid := v1, f_tail := word_of_nat ((?t + n) mod ?s)\<rparr>)"
        "unat (word_of_nat ((?t + n) mod ?s) :: u64) = (?t + n) mod ?s"
        "wlen (f\<lparr>f_buffer := b1, f_valid := v1, f_tail := word_of_nat ((?t + n) mod ?s)\<rparr>) = wlen f + n"
      using copy_block_step[OF wf False, of v vs] Cons.prems(2) by (auto simp: Let_def n_def)
    define m1 where "m1 = min (length (iov_data vs)) (?s - 1 - (wlen f + n))"
    obtain b2 v2 where r: "copy_blocks (f\<lparr>f_buffer := b1, f_valid := v1, f_tail := word_of_nat ((?t + n) mod ?s)\<rparr>) vs =
          f\<lparr>f_buffer := b2, f_valid := v2, f_tail := word_of_nat (((?t + n) mod ?s + m1) mod ?s)\<rparr>"
      and rb: "circ_upd ?s ((?t + n) mod ?s) (take m1 (iov_data vs)) b1 b2" and rv: "circ_upd ?s ((?t + n) mod ?s) (replicate m1 True) v1 v2"
      using Cons.IH[OF f1(1)] Cons.prems(2) f1(2,3) by (auto simp: Let_def m1_def)
    define m where "m = min (length (iov_data (v # vs))) ?e"
    have m: "m = n + m1" by (auto simp: m_def m1_def n_def min_def)
    have dat: "take m (iov_data (v # vs)) = take n (iov_blocks v) @ take m1 (iov_data vs)"
      by (cases "length (iov_blocks v) \<le> ?e") (simp_all add: m n_def m1_def)
    have rep: "replicate m True = replicate n True @ replicate m1 True" by (simp add: m replicate_add)
    have le: "m \<le> ?s - 1" by (simp add: m_def)
    have ln: "length (take n (iov_blocks v)) = n" by (simp add: n_def)
    have "circ_upd ?s ?t (take m (iov_data (v # vs))) (f_buffer f) b2"
      unfolding dat by (rule circ_upd_append[OF t _ ub]) (use le m ln rb in \<open>auto simp: m1_def\<close>)
    moreover have "circ_upd ?s ?t (replicate m True) (f_valid f) v2"
      unfolding rep by (rule circ_upd_append[OF t _ uv]) (use le m rv in auto)
    moreover have "((?t + n) mod ?s + m1) mod ?s = (?t + m) mod ?s" by (simp add: m mod_add_left_eq add.assoc)
    ultimately show ?thesis using st r by (intro exI[of _ b2] exI[of _ v2]) (simp add: Let_def m_def)
  qed
qed

section \<open>Abstraction: a bounded list of blocks\<close>

definition log_blocks :: "(nat \<Rightarrow> 'b) \<Rightarrow> 'b kv_circular_log \<Rightarrow> 'b list" where
  "log_blocks dev l =
     map (\<lambda>k. dev (unat (l_base l) + (unat (l_head l) + k) mod unat (l_size l))) [0..<llen l]"

lemma length_log_blocks [simp]: "length (log_blocks dev l) = llen l"
  by (simp add: log_blocks_def)

lemma circ_dist_from_tail:
  assumes "h < s" and "t < s" and "k < s"
  shows "circ_dist s t ((h + k) mod s) =
     (if k < circ_dist s h t then s - circ_dist s h t + k else k - circ_dist s h t)"
  using assms by (auto simp: circ_dist_cases mod_add_cases split: if_splits)

lemma circ_write_at:
  assumes "h < s" and "t < s" and "k < s" and "circ_dist s h t + length D < s"
  shows "circ_write dev b s t D (b + (h + k) mod s) =
     (if circ_dist s h t \<le> k \<and> k < circ_dist s h t + length D then D ! (k - circ_dist s h t)
      else dev (b + (h + k) mod s))"
proof -
  have "(h + k) mod s < s" using assms(1) by simp
  then show ?thesis using circ_dist_from_tail[OF assms(1-3)] assms(4)
    by (auto simp: circ_write_def)
qed

text \<open>The window mirrors the device; blocks beyond it are marked invalid.\<close>

definition window_inv :: "(nat \<Rightarrow> 'b) \<Rightarrow> 'b kv_circular_log \<Rightarrow> bool" where
  "window_inv dev l \<longleftrightarrow>
     (let f = l_fetch l; s = unat (f_size f); h = unat (f_head f) in
      wlen f \<le> wlen1 f \<and> wlen1 f \<le> llen l \<and>
      (\<forall>k < wlen f. f_valid f ! ((h + k) mod s)) \<and>
      (\<forall>k < s. wlen1 f \<le> k \<longrightarrow> \<not> f_valid f ! ((h + k) mod s)) \<and>
      (\<forall>k < wlen1 f. f_valid f ! ((h + k) mod s) \<longrightarrow>
         f_buffer f ! ((h + k) mod s) =
           dev (unat (l_base l) + (unat (l_head l) + k) mod unat (l_size l))))"

text \<open>
  Appends copy into the window only where it has caught up with the tail of the log; the
  code's test for this is the length of the log.
\<close>

definition window_sync :: "'b kv_circular_log \<Rightarrow> bool" where
  "window_sync l \<longleftrightarrow>
     f_tail (l_fetch l) = f_tail1 (l_fetch l) \<and> wlen (l_fetch l) = llen l
     \<or> unat (f_size (l_fetch l)) - 1 \<le> llen l"

lemma log_wf_split:
  assumes "log_wf l" and "iov_aligned vs" and "length (iov_data vs) \<le> unat (l_size l)"
    and "unat off < unat (l_size l)"
  obtains st where "iov_split (l_block_size l) (l_size l - off) vs = Inr st"
    and "split_done (l_block_size l) (unat (l_size l - off)) (length vs) vs st"
    and "unat (sp_n st) = length (iov_data vs)"
proof -
  have bs: "l_block_size l \<noteq> 0" using assms(1) by (simp add: log_wf_def fetch_wf_def)
  have "length (iov_data vs) * unat (l_block_size l) \<le> unat (l_size l) * unat (l_block_size l)"
    using assms(3) by (rule mult_le_mono1)
  then have b: "length (iov_data vs) * unat (l_block_size l) < 2 ^ 64"
    by (rule le_less_trans) (use assms(1) in \<open>simp add: log_wf_def\<close>)
  have r: "0 < unat (l_size l - off)" using assms(4) by (simp add: unat_sub_le)
  obtain st where st: "iov_split (l_block_size l) (l_size l - off) vs = Inr st"
    "split_done (l_block_size l) (unat (l_size l - off)) (length vs) vs st"
    using iov_split_done[OF assms(2) r bs b] .
  have "sp_n st = word_of_nat (length (iov_data vs))" using st(2) by (simp add: split_done_def)
  moreover have "length (iov_data vs) < 2 ^ 64"
    using assms(3) log_wf_size(2)[OF assms(1)] by simp
  ultimately have "unat (sp_n st) = length (iov_data vs)" by (metis unat_of_nat_u64)
  then show ?thesis using that st by blast
qed

lemma copy_to_fetch_buf_frame:
  "l_base (copy_to_fetch_buf l vs) = l_base l" "l_size (copy_to_fetch_buf l vs) = l_size l"
  "l_head (copy_to_fetch_buf l vs) = l_head l" "l_tail (copy_to_fetch_buf l vs) = l_tail l"
  "l_block_size (copy_to_fetch_buf l vs) = l_block_size l"
  "l_thread_index (copy_to_fetch_buf l vs) = l_thread_index l"
  by (simp_all add: copy_to_fetch_buf_def Let_def)

definition append_state :: "'b kv_circular_log \<Rightarrow> 'b iovec list \<Rightarrow> 'b kv_circular_log" where
  "append_state l vs = (copy_to_fetch_buf l vs)\<lparr>l_tail :=
     word_of_nat ((unat (l_tail l) + length (iov_data vs)) mod unat (l_size l))\<rparr>"

lemma appendv_eq:
  assumes "log_wf l" and "iov_aligned vs" and "llen l + length (iov_data vs) < unat (l_size l)"
  shows "\<exists>ios. kv_circular_log_appendv l vs = Inr (append_state l vs, Iov_issued ios) \<and>
     (\<forall>dev. exec_ios ios dev =
        circ_write dev (unat (l_base l)) (unat (l_size l)) (unat (l_tail l)) (iov_data vs))"
proof -
  have tl: "unat (l_tail l) < unat (l_size l)" using assms(1) by (simp add: log_wf_def)
  obtain st where st: "iov_split (l_block_size l) (l_size l - l_tail l) vs = Inr st"
    "split_done (l_block_size l) (unat (l_size l - l_tail l)) (length vs) vs st"
    "unat (sp_n st) = length (iov_data vs)"
    using log_wf_split[OF assms(1,2) _ tl] assms(3) by auto
  have sp: "\<not> log_empty_space l < sp_n st"
    using assms(1,3) st(3) by (simp add: word_less_nat_alt unat_log_empty_space)
  have "unat (l_tail l) + unat (sp_n st) < 2 ^ 64"
    using tl st(3) assms(3) log_wf_size[OF assms(1)] by (simp; linarith)
  then have tl': "(l_tail l + sp_n st) mod l_size l =
      word_of_nat ((unat (l_tail l) + length (iov_data vs)) mod unat (l_size l))"
    using st(3) word_arith_nat_mod[of "l_tail l + sp_n st" "l_size l"] by (simp add: unat_add_less)
  have ex: "exec_ios (iov_requests Storage_write (l_base l) (l_tail l) (l_size l - l_tail l) (length vs) st) dev =
     circ_write dev (unat (l_base l)) (unat (l_size l)) (unat (l_tail l)) (iov_data vs)" for dev
    using assms(1,3) st(2) tl by (intro iov_requests_write) (auto simp: log_wf_def)
  show ?thesis
    using st(1) sp tl' ex
    by (simp add: kv_circular_log_appendv_def kv_circular_log_iov_def Let_def copy_to_fetch_buf_frame
          append_state_def)
qed

lemma appendv_no_space:
  assumes "log_wf l" and "iov_aligned vs" and "unat (l_size l) \<le> llen l + length (iov_data vs)"
    and "length (iov_data vs) \<le> unat (l_size l)"
  shows "kv_circular_log_appendv l vs = Inr (l, Iov_no_space)"
proof -
  have tl: "unat (l_tail l) < unat (l_size l)" using assms(1) by (simp add: log_wf_def)
  obtain st where st: "iov_split (l_block_size l) (l_size l - l_tail l) vs = Inr st"
    "unat (sp_n st) = length (iov_data vs)"
    using log_wf_split[OF assms(1,2,4) tl] by auto
  have "llen l < unat (l_size l)" using log_wf_size[OF assms(1)] by simp
  then have "log_empty_space l < sp_n st"
    using assms(3) st(2) by (simp only: word_less_nat_alt unat_log_empty_space[OF assms(1)])
  then show ?thesis
    using st(1) by (simp add: kv_circular_log_appendv_def kv_circular_log_iov_def Let_def)
qed

lemma unat_append_tail:
  assumes "log_wf l"
  shows "unat (l_tail (append_state l vs)) =
    (unat (l_tail l) + length (iov_data vs)) mod unat (l_size l)"
  unfolding append_state_def using unat_of_nat_mod[OF log_wf_size[OF assms]] by simp

lemma llen_append_state:
  assumes "log_wf l" and "llen l + length (iov_data vs) < unat (l_size l)"
  shows "llen (append_state l vs) = llen l + length (iov_data vs)"
proof -
  have "llen (append_state l vs) = circ_dist (unat (l_size l)) (unat (l_head l))
      ((unat (l_tail l) + length (iov_data vs)) mod unat (l_size l))"
    using unat_append_tail[OF assms(1), of vs] by (simp add: append_state_def copy_to_fetch_buf_frame)
  also have "\<dots> = llen l + length (iov_data vs)"
    using assms by (intro circ_dist_advance_tail) (auto simp: log_wf_def)
  finally show ?thesis .
qed

lemma log_blocks_append:
  assumes "log_wf l" and "llen l + length (iov_data vs) < unat (l_size l)"
  shows "log_blocks (circ_write dev (unat (l_base l)) (unat (l_size l)) (unat (l_tail l)) (iov_data vs))
           (append_state l vs) = log_blocks dev l @ iov_data vs"
proof (rule nth_equalityI)
  let ?dev = "circ_write dev (unat (l_base l)) (unat (l_size l)) (unat (l_tail l)) (iov_data vs)"
  show len: "length (log_blocks ?dev (append_state l vs)) = length (log_blocks dev l @ iov_data vs)"
    using llen_append_state[OF assms] by simp
  fix i assume "i < length (log_blocks ?dev (append_state l vs))"
  then have i: "i < llen l + length (iov_data vs)" using llen_append_state[OF assms] by simp
  have "?dev (unat (l_base l) + (unat (l_head l) + i) mod unat (l_size l)) =
     (if llen l \<le> i \<and> i < llen l + length (iov_data vs) then iov_data vs ! (i - llen l)
      else dev (unat (l_base l) + (unat (l_head l) + i) mod unat (l_size l)))"
    using assms i by (intro circ_write_at) (auto simp: log_wf_def)
  then show "log_blocks ?dev (append_state l vs) ! i = (log_blocks dev l @ iov_data vs) ! i"
    using i llen_append_state[OF assms]
    by (simp add: log_blocks_def nth_append append_state_def copy_to_fetch_buf_frame)
qed

lemma fetch_wf_tail1: "fetch_wf bs f \<Longrightarrow> fetch_wf bs (f\<lparr>f_tail1 := f_tail f\<rparr>)"
  by (simp add: fetch_wf_def)

lemma copy_to_fetch_buf_cases:
  assumes "log_wf l" and "length (iov_data vs) < 2 ^ 62"
  obtains (full) "unat (f_size (l_fetch l)) - 1 \<le> llen l" "copy_to_fetch_buf l vs = l"
  | (copy) b v m t where "llen l < unat (f_size (l_fetch l)) - 1"
      "m = min (length (iov_data vs)) (unat (f_size (l_fetch l)) - 1 - wlen (l_fetch l))"
      "unat t = (unat (f_tail (l_fetch l)) + m) mod unat (f_size (l_fetch l))"
      "copy_to_fetch_buf l vs = l\<lparr>l_fetch := (l_fetch l)\<lparr>f_buffer := b, f_valid := v, f_tail := t, f_tail1 := t\<rparr>\<rparr>"
      "circ_upd (unat (f_size (l_fetch l))) (unat (f_tail (l_fetch l))) (take m (iov_data vs)) (f_buffer (l_fetch l)) b"
      "circ_upd (unat (f_size (l_fetch l))) (unat (f_tail (l_fetch l))) (replicate m True) (f_valid (l_fetch l)) v"
proof -
  let ?f = "l_fetch l"
  have wf: "fetch_wf (l_block_size l) ?f" using assms(1) by (simp add: log_wf_def)
  note sz = fetch_wf_size[OF wf]
  have s1: "unat (f_size ?f - 1) = unat (f_size ?f) - 1" using sz by (simp add: unat_sub_le)
  have ll: "unat (log_length l) = llen l" using unat_log_length[OF assms(1)] .
  show ?thesis
  proof (cases "log_length l \<ge> f_size ?f - 1")
    case True
    then show ?thesis using full s1 ll by (simp add: copy_to_fetch_buf_def word_le_nat_alt)
  next
    case False
    define m where "m = min (length (iov_data vs)) (unat (f_size ?f) - 1 - wlen ?f)"
    obtain b v where c: "copy_blocks ?f vs = ?f\<lparr>f_buffer := b, f_valid := v,
        f_tail := word_of_nat ((unat (f_tail ?f) + m) mod unat (f_size ?f))\<rparr>"
      "circ_upd (unat (f_size ?f)) (unat (f_tail ?f)) (take m (iov_data vs)) (f_buffer ?f) b"
      "circ_upd (unat (f_size ?f)) (unat (f_tail ?f)) (replicate m True) (f_valid ?f) v"
      using copy_blocks_upd[OF wf assms(2)] by (auto simp: Let_def m_def)
    have "unat (word_of_nat ((unat (f_tail ?f) + m) mod unat (f_size ?f)) :: u64) =
       (unat (f_tail ?f) + m) mod unat (f_size ?f)" using sz by (rule unat_of_nat_mod)
    moreover have "copy_to_fetch_buf l vs = l\<lparr>l_fetch := ?f\<lparr>f_buffer := b, f_valid := v,
        f_tail := word_of_nat ((unat (f_tail ?f) + m) mod unat (f_size ?f)),
        f_tail1 := word_of_nat ((unat (f_tail ?f) + m) mod unat (f_size ?f))\<rparr>\<rparr>"
      using False c(1) by (simp add: copy_to_fetch_buf_def Let_def)
    moreover have "llen l < unat (f_size ?f) - 1"
      using False s1 ll by (simp add: word_le_nat_alt)
    ultimately show ?thesis using c(2,3) by (intro copy) (simp_all only: m_def)
  qed
qed

lemma circ_upd_window:
  assumes "circ_upd s t src xs ys" and "h < s" and "t < s" and "k < s"
    and "circ_dist s h t + length src < s"
  shows "ys ! ((h + k) mod s) =
    (if circ_dist s h t \<le> k \<and> k < circ_dist s h t + length src then src ! (k - circ_dist s h t)
     else xs ! ((h + k) mod s))"
proof -
  have "(h + k) mod s < s" using assms(2) by simp
  then show ?thesis
    using assms(1,5) circ_dist_from_tail[OF assms(2-4)] by (auto simp: circ_upd_def)
qed

lemma append_state_wf:
  assumes "log_wf l" and "length (iov_data vs) < 2 ^ 62"
  shows "log_wf (append_state l vs)"
proof -
  note wf = assms(1)
  have tl: "unat (l_tail (append_state l vs)) < unat (l_size l)"
    using unat_append_tail[OF wf, of vs] log_wf_size[OF wf] by simp
  have "fetch_wf (l_block_size l) (l_fetch (copy_to_fetch_buf l vs))"
    using wf assms(2)
  proof (cases rule: copy_to_fetch_buf_cases)
    case full
    then show ?thesis using wf by (simp add: log_wf_def)
  next
    case (copy b v m t)
    have fs: "fetch_wf (l_block_size l) (l_fetch l)" using wf by (simp add: log_wf_def)
    then have "unat t < unat (f_size (l_fetch l))"
      using copy(3) fetch_wf_size(1)[OF fs] by simp
    then show ?thesis using fs copy(4-6) by (simp add: fetch_wf_def circ_upd_def)
  qed
  then show ?thesis using wf tl
    by (simp add: log_wf_def append_state_def copy_to_fetch_buf_frame)
qed

lemma append_window:
  assumes wf: "log_wf l" and sp: "llen l + length (iov_data vs) < unat (l_size l)"
    and inv: "window_inv dev l" and sync: "window_sync l"
  shows "window_inv (circ_write dev (unat (l_base l)) (unat (l_size l)) (unat (l_tail l)) (iov_data vs))
           (append_state l vs) \<and> window_sync (append_state l vs)"
proof -
  let ?D = "iov_data vs" and ?f = "l_fetch l" and ?f' = "l_fetch (append_state l vs)"
  let ?dev = "circ_write dev (unat (l_base l)) (unat (l_size l)) (unat (l_tail l)) ?D"
  have D62: "length ?D < 2 ^ 62" using sp log_wf_size[OF wf] by simp
  have fwf: "fetch_wf (l_block_size l) ?f" using wf by (simp add: log_wf_def)
  note ll = llen_append_state[OF wf sp]
  have frame: "l_base (append_state l vs) = l_base l" "l_size (append_state l vs) = l_size l"
    "l_head (append_state l vs) = l_head l" "l_fetch (append_state l vs) = l_fetch (copy_to_fetch_buf l vs)"
    by (simp_all add: append_state_def copy_to_fetch_buf_frame)
  have ll': "circ_dist (unat (l_size l)) (unat (l_head l)) (unat (l_tail (append_state l vs))) = llen l + length ?D"
    using ll frame by simp
  have dev: "?dev (unat (l_base l) + (unat (l_head l) + k) mod unat (l_size l)) =
     (if llen l \<le> k then ?D ! (k - llen l)
      else dev (unat (l_base l) + (unat (l_head l) + k) mod unat (l_size l)))"
    if "k < llen l + length ?D" for k
    using circ_write_at[of "unat (l_head l)" "unat (l_size l)" "unat (l_tail l)" k ?D dev] wf sp that
    by (auto simp: log_wf_def)
  from wf D62 show ?thesis
  proof (cases rule: copy_to_fetch_buf_cases)
    case full
    then have f: "?f' = ?f" using frame(4) by simp
    have "window_sync (append_state l vs)" using full ll f by (simp add: window_sync_def)
    moreover have "window_inv ?dev (append_state l vs)"
      using inv dev ll f frame unfolding window_inv_def Let_def by simp
    ultimately show ?thesis by simp
  next
    case (copy b v m t)
    let ?s = "unat (f_size ?f)" and ?h = "unat (f_head ?f)"
    have s0: "wlen ?f = llen l" "wlen1 ?f = llen l" using sync copy(1) by (auto simp: window_sync_def)
    have h: "?h < ?s" "unat (f_tail ?f) < ?s" using fwf by (auto simp: fetch_wf_def)
    have f: "?f' = ?f\<lparr>f_buffer := b, f_valid := v, f_tail := t, f_tail1 := t\<rparr>"
      using copy(4) frame(4) by simp
    have m: "m \<le> length ?D" "m \<le> ?s - 1 - llen l" using copy(2) s0(1) by auto
    have w: "circ_dist ?s ?h (unat t) = llen l + m"
      using copy(1,3) h m s0(1) circ_dist_advance_tail[of ?h ?s "unat (f_tail ?f)" m] by simp
    have vk: "v ! ((?h + k) mod ?s) \<longleftrightarrow> (if llen l \<le> k \<and> k < llen l + m then True else f_valid ?f ! ((?h + k) mod ?s))"
      if "k < ?s" for k
      using circ_upd_window[OF copy(6) h that] s0(1) m copy(1) by auto
    have bk: "b ! ((?h + k) mod ?s) = (if llen l \<le> k \<and> k < llen l + m then ?D ! (k - llen l) else f_buffer ?f ! ((?h + k) mod ?s))"
      if "k < ?s" for k
      using circ_upd_window[OF copy(5) h that] s0(1) m copy(1) by auto
    have "window_sync (append_state l vs)"
      using f w ll m copy(2) s0 by (auto simp: window_sync_def frame min_def)
    moreover have "window_inv ?dev (append_state l vs)"
      unfolding window_inv_def Let_def f frame ll'
      using inv w m copy(1) s0 vk bk dev unfolding window_inv_def Let_def by auto
    ultimately show ?thesis by simp
  qed
qed

end
