(* ===== verification/Circular_Log_Fetch.thy ===== *)
theory Circular_Log_Fetch
  imports Circular_Log_Append
begin

text \<open>
  Correctness of the prefetcher of the circular log: the reads in flight cover disjoint runs
  of the window, arrivals in any order keep the window a mirror of the device, and trimming
  the head drops blocks of the log.
\<close>

unbundle bit_operations_syntax

section \<open>Alignment\<close>

lemma and3_iff: "(x :: u64) AND 3 = 0 \<longleftrightarrow> unat x mod 4 = 0"
proof -
  have m: "(3 :: u64) = mask 2" by (simp add: mask_eq_exp_minus_1)
  have "unat (x AND 3) = unat x mod 4"
    unfolding m by (simp add: unsigned_take_bit_eq take_bit_eq_mod flip: take_bit_eq_mask)
  then show ?thesis by (metis unat_eq_zero)
qed

lemma aligned_add_mult:
  fixes a b p :: u64
  assumes "a AND 3 = 0" and "b AND 3 = 0"
  shows "(a + p * b) AND 3 = 0"
proof -
  have d: "4 dvd unat a" "4 dvd unat b" using assms by (simp_all add: and3_iff mod_eq_0_iff_dvd)
  have "unat (a + p * b) = (unat a + unat p * unat b) mod 2 ^ 64"
    by (simp add: unat_word_ariths mod_add_right_eq)
  moreover have "4 dvd (unat a + unat p * unat b) mod 2 ^ 64"
    using d by (intro dvd_mod) (auto)
  ultimately show ?thesis by (simp add: and3_iff mod_eq_0_iff_dvd)
qed

section \<open>Prefetch\<close>

lemma fetch_advance_run:
  assumes "fetch_wf bs f" and "unat (f_size f) - wlen f \<le> fuel"
    and "\<forall>k < wlen f. f_valid f ! ((unat (f_head f) + k) mod unat (f_size f))"
    and "wlen f \<le> w1" and "w1 < unat (f_size f)"
    and "\<forall>k < unat (f_size f). w1 \<le> k \<longrightarrow> \<not> f_valid f ! ((unat (f_head f) + k) mod unat (f_size f))"
  shows "\<exists>t. fetch_advance fuel f = Inr (f\<lparr>f_tail := t\<rparr>) \<and> unat t < unat (f_size f) \<and>
     wlen f \<le> wlen (f\<lparr>f_tail := t\<rparr>) \<and> wlen (f\<lparr>f_tail := t\<rparr>) \<le> w1 \<and>
     (\<forall>k < wlen (f\<lparr>f_tail := t\<rparr>). f_valid f ! ((unat (f_head f) + k) mod unat (f_size f)))"
  using assms
proof (induction fuel arbitrary: f)
  case 0
  have "wlen f < unat (f_size f)" using fetch_wf_size(1)[OF "0.prems"(1)] by simp
  then show ?case using "0.prems"(2) by linarith
next
  case (Suc fuel)
  note wf = Suc.prems(1)
  let ?s = "unat (f_size f)" and ?h = "unat (f_head f)"
  have ht: "?h < ?s" "unat (f_tail f) < ?s" using wf by (auto simp: fetch_wf_def)
  have tail: "(?h + wlen f) mod ?s = unat (f_tail f)" using circ_add_dist[OF ht] .
  have es: "unat (fetch_empty_space f) = ?s - 1 - wlen f" by (rule unat_fetch_empty_space[OF wf])
  show ?case
  proof (cases "fetch_empty_space f = 0 \<or> \<not> f_valid f ! unat (f_tail f)")
    case True
    then have "fetch_advance (Suc fuel) f = Inr (f\<lparr>f_tail := f_tail f\<rparr>)" by auto
    then show ?thesis using Suc.prems ht by (intro exI[of _ "f_tail f"]) simp
  next
    case False
    let ?t = "(f_tail f + 1) mod f_size f"
    let ?g = "f\<lparr>f_tail := ?t\<rparr>"
    have lt: "wlen f < ?s - 1" using False es by (metis diff_diff_left diff_is_0_eq not_le_imp_less unat_eq_zero)
    have ut: "unat ?t = (unat (f_tail f) + 1) mod ?s"
      using ht fetch_wf_size[OF wf] by (simp add: unat_add_less)
    have wg: "wlen ?g = wlen f + 1"
    proof -
      have "circ_dist ?s ?h ((unat (f_tail f) + 1) mod ?s) = wlen f + 1"
        using ht lt by (intro circ_dist_advance_tail) auto
      then show ?thesis using ut by simp
    qed
    have wfg: "fetch_wf bs ?g" using wf ut fetch_wf_size[OF wf] by (simp add: fetch_wf_def)
    have lt1: "wlen f < w1" using False tail Suc.prems(4-6) lt by (metis diff_le_self le_neq_implies_less less_le_trans order_refl)
    have fu: "unat (f_size ?g) - wlen ?g \<le> fuel" using Suc.prems(2) unfolding wg by simp
    have le1: "wlen ?g \<le> w1" using lt1 unfolding wg by simp
    have "\<forall>k < wlen ?g. f_valid ?g ! ((unat (f_head ?g) + k) mod unat (f_size ?g))"
      using Suc.prems(3) False tail wg by (simp add: less_Suc_eq)
    then obtain t where "fetch_advance fuel ?g = Inr (?g\<lparr>f_tail := t\<rparr>)" "unat t < ?s"
      "wlen ?g \<le> wlen (?g\<lparr>f_tail := t\<rparr>)" "wlen (?g\<lparr>f_tail := t\<rparr>) \<le> w1"
      "\<forall>k < wlen (?g\<lparr>f_tail := t\<rparr>). f_valid f ! ((?h + k) mod ?s)"
      using Suc.IH[OF wfg fu _ le1] Suc.prems(5,6) by auto
    then show ?thesis using False wg by (intro exI[of _ t]) simp
  qed
qed

text \<open>A prefetch in flight covers a run of positions of the window that have not arrived yet.\<close>

definition buffer_run :: "'b kv_circular_log \<Rightarrow> nat \<Rightarrow> nat \<Rightarrow> 'b iovec list" where
  "buffer_run l pos n =
     (let s = unat (f_size (l_fetch l)) in
      if s < pos + n
      then [buffer_iov l (word_of_nat pos) (word_of_nat (s - pos)), buffer_iov l 0 (word_of_nat (n - (s - pos)))]
      else [buffer_iov l (word_of_nat pos) (word_of_nat n)])"

lemma buffer_iov_len:
  assumes "unat pos + unat len \<le> unat (f_size (l_fetch l))" and "fetch_wf bs (l_fetch l)"
  shows "length (iov_blocks (buffer_iov l pos len)) = unat len"
  using assms by (auto simp: buffer_iov_def fetch_wf_def)

lemma buffer_iov_aligned:
  assumes "log_wf l"
  shows "iov_base (buffer_iov l pos len) AND 3 = 0"
  using assms by (simp add: buffer_iov_def log_wf_def fetch_wf_def aligned_add_mult)

text \<open>The one or two vectors of \<open>fetch_next\<close> are the run of the buffer behind the requested part.\<close>

lemma buffer_run_iovs:
  assumes wf: "log_wf l" and t: "unat t < unat (f_size (l_fetch l))" and n: "unat n \<le> unat (f_size (l_fetch l)) - 1"
  defines "iovs \<equiv> (if n + t > f_size (l_fetch l)
     then [buffer_iov l t (f_size (l_fetch l) - t), buffer_iov l 0 (n - (f_size (l_fetch l) - t))] else [buffer_iov l t n])"
  shows "iovs = buffer_run l (unat t) (unat n)" and "iov_aligned iovs" and "length (iov_data iovs) = unat n"
proof -
  let ?s = "unat (f_size (l_fetch l))"
  have fwf: "fetch_wf (l_block_size l) (l_fetch l)" using wf by (simp add: log_wf_def)
  note sz = fetch_wf_size[OF fwf]
  have "unat (n + t) = unat n + unat t" using t n sz by (intro unat_add_less) (simp; linarith)
  then have cond: "n + t > f_size (l_fetch l) \<longleftrightarrow> ?s < unat t + unat n" by (simp add: word_less_nat_alt add.commute)
  have ust: "unat (f_size (l_fetch l) - t) = ?s - unat t" using t by (simp add: unat_sub_le)
  have u2: "unat (n - (f_size (l_fetch l) - t)) = unat n - (?s - unat t)" if "?s < unat t + unat n" using that ust by (simp add: unat_sub_le)
  have wd: "w = word_of_nat k" if "unat w = k" for w :: u64 and k using that by (metis of_nat_unat ucast_id)
  show "iov_aligned iovs" by (auto simp: iovs_def buffer_iov_aligned[OF wf])
  show "iovs = buffer_run l (unat t) (unat n)"
    using cond wd[OF ust] wd[OF u2] by (simp add: iovs_def buffer_run_def Let_def)
  have "length (iov_blocks (buffer_iov l t (f_size (l_fetch l) - t))) = ?s - unat t"
    using buffer_iov_len[OF _ fwf, of t "f_size (l_fetch l) - t"] ust t by simp
  moreover have "length (iov_blocks (buffer_iov l 0 (n - (f_size (l_fetch l) - t)))) = unat n - (?s - unat t)" if "?s < unat t + unat n"
    using buffer_iov_len[OF _ fwf, of 0 "n - (f_size (l_fetch l) - t)"] u2[OF that] n by simp
  moreover have "length (iov_blocks (buffer_iov l t n)) = unat n" if "\<not> ?s < unat t + unat n"
    using buffer_iov_len[OF _ fwf, of t n] that by simp
  ultimately show "length (iov_data iovs) = unat n" using cond by (simp add: iovs_def)
qed

text \<open>A read of blocks inside the log is issued.\<close>

lemma fetch_issue_ok:
  assumes wf: "log_wf l" and off: "unat off = (unat (l_head l) + k) mod unat (l_size l)" and room: "k + unat n \<le> llen l" "0 < unat n"
    and iovs: "iov_aligned iovs" "length (iov_data iovs) = unat n"
  shows "fetch_issue l \<lparr>fc_offset = off, fc_n = n, fc_iov = iovs\<rparr> = Inr (l, Some \<lparr>fc_offset = off, fc_n = n, fc_iov = iovs\<rparr>)"
proof -
  let ?S = "unat (l_size l)"
  note sz = log_wf_size[OF wf]
  have b: "unat (l_head l) < ?S" "unat (l_tail l) < ?S" using wf by (auto simp: log_wf_def)
  have llt: "llen l < ?S" using sz by simp
  have offlt: "unat off < ?S" using off sz by simp
  have "length (iov_data iovs) \<le> ?S" using iovs(2) room(1) llt by linarith
  then obtain st where st: "iov_split (l_block_size l) (l_size l - off) iovs = Inr st" "unat (sp_n st) = unat n"
    using log_wf_split[OF wf iovs(1) _ offlt] iovs(2) by metis
  have "unat ((l_size l + off - l_head l) mod l_size l) = circ_dist ?S (unat (l_head l)) (unat off)"
    using b sz offlt by (intro unat_circ_dist) simp_all
  also have "\<dots> = k" unfolding off using b llt room by (intro circ_dist_add) linarith+
  also have "\<dots> < llen l" using room by linarith
  finally have a1: "(l_size l + off - l_head l) mod l_size l < log_length l" using unat_log_length[OF wf] by (simp only: word_less_nat_alt)
  have "unat ((l_size l + l_tail l - off) mod l_size l) = circ_dist ?S (unat off) (unat (l_tail l))"
    using b sz offlt by (intro unat_circ_dist) auto
  also have "\<dots> = llen l - k" unfolding off using b room by (intro circ_dist_advance_head) auto
  finally have a2: "(l_size l + l_tail l - off) mod l_size l \<ge> sp_n st" using st(2) room by (simp only: word_le_nat_alt)
  show ?thesis using st(1) a1 a2 by (simp add: fetch_issue_def kv_circular_log_readv_def kv_circular_log_iov_def Let_def)
qed

text \<open>The positions \<open>fetch_next\<close> computes: what is requested, what is left of the window and of the log.\<close>

lemma fetch_next_positions:
  assumes wf: "log_wf l" and w: "wlen1 (l_fetch l) \<le> llen l"
  defines "f \<equiv> l_fetch l"
  defines "len \<equiv> (f_size f - f_head f + f_tail1 f) mod f_size f"
  defines "off \<equiv> (l_head l + len) mod l_size l"
  shows "unat (f_size f - 1 - len) = unat (f_size f) - 1 - wlen1 f" and "unat off = (unat (l_head l) + wlen1 f) mod unat (l_size l)"
    and "unat ((l_size l - off + l_tail l) mod l_size l) = llen l - wlen1 f"
proof -
  let ?s = "unat (f_size f)" and ?S = "unat (l_size l)"
  have fwf: "fetch_wf (l_block_size l) f" using wf by (simp add: log_wf_def f_def)
  note sz = fetch_wf_size[OF fwf] log_wf_size[OF wf]
  have b: "unat (f_head f) < ?s" "unat (f_tail1 f) < ?s" "unat (l_head l) < ?S" "unat (l_tail l) < ?S" using fwf wf by (auto simp: fetch_wf_def log_wf_def)
  have len: "unat len = wlen1 f" unfolding len_def using b sz by (intro unat_circ_dist') auto
  have "wlen1 f \<le> ?s - 1" using sz by (intro circ_dist_le) auto
  then show "unat (f_size f - 1 - len) = ?s - 1 - wlen1 f" using len sz by (simp add: unat_sub_le)
  have "wlen1 f < ?s" using sz by simp
  then have "unat (l_head l) + unat len < 2 ^ 64" using b sz len by (simp; linarith)
  then show off: "unat off = (unat (l_head l) + wlen1 f) mod ?S" unfolding off_def by (simp only: unat_add_mod len)
  have "unat ((l_size l - off + l_tail l) mod l_size l) = circ_dist ?S (unat off) (unat (l_tail l))"
    using off b sz by (intro unat_circ_dist') auto
  also have "\<dots> = llen l - wlen1 f" unfolding off using b w by (intro circ_dist_advance_head) (auto simp: f_def)
  finally show "unat ((l_size l - off + l_tail l) mod l_size l) = llen l - wlen1 f" .
qed

lemma fetch_next_run:
  assumes wf: "log_wf l" and w: "wlen (l_fetch l) \<le> wlen1 (l_fetch l)" "wlen1 (l_fetch l) \<le> llen l"
  shows "fetch_next l = Inr (l, None) \<or>
    (\<exists>ctx t. fetch_next l = Inr (l\<lparr>l_fetch := (l_fetch l)\<lparr>f_tail1 := t\<rparr>\<rparr>, Some ctx) \<and>
      unat t = (unat (f_tail1 (l_fetch l)) + unat (fetch_len (l_fetch l))) mod unat (f_size (l_fetch l)) \<and>
      wlen1 (l_fetch l) + unat (fetch_len (l_fetch l)) \<le> llen l \<and>
      wlen1 (l_fetch l) + unat (fetch_len (l_fetch l)) \<le> unat (f_size (l_fetch l)) - 1 \<and>
      fc_n ctx = fetch_len (l_fetch l) \<and>
      unat (fc_offset ctx) = (unat (l_head l) + wlen1 (l_fetch l)) mod unat (l_size l) \<and>
      fc_iov ctx = buffer_run l (unat (f_tail1 (l_fetch l))) (unat (fetch_len (l_fetch l))))"
proof -
  let ?f = "l_fetch l"
  let ?s = "unat (f_size ?f)" and ?n = "unat (fetch_len ?f)"
  have fwf: "fetch_wf (l_block_size l) ?f" using wf by (simp add: log_wf_def)
  note sz = fetch_wf_size[OF fwf]
  have b: "unat (f_tail1 ?f) < ?s" "0 < ?n" "?n < 2 ^ 56" using fwf by (auto simp: fetch_wf_def)
  define len where "len = (f_size ?f - f_head ?f + f_tail1 ?f) mod f_size ?f"
  define rl where "rl = f_size ?f - 1 - len"
  define off where "off = (l_head l + len) mod l_size l"
  define n0 where "n0 = (l_size l - off + l_tail l) mod l_size l"
  define n1 where "n1 = (if n0 < fetch_len ?f then n0 else fetch_len ?f)"
  define n where "n = (if n1 < rl then n1 else rl)"
  define iovs where "iovs = (if n + f_tail1 ?f > f_size ?f
     then [buffer_iov l (f_tail1 ?f) (f_size ?f - f_tail1 ?f), buffer_iov l 0 (n - (f_size ?f - f_tail1 ?f))]
     else [buffer_iov l (f_tail1 ?f) n])"
  define ctx where "ctx = \<lparr>fc_offset = off, fc_n = n, fc_iov = iovs\<rparr>"
  define stop where "stop \<longleftrightarrow> n < fetch_len ?f \<or> fetch_length ?f = log_length l \<or>
     (f_size ?f - f_tail ?f + f_tail1 ?f) mod f_size ?f \<ge> fetch_len ?f * FETCH_CON_IO"
  note pos = fetch_next_positions[OF wf w(2), folded len_def, folded rl_def off_def, folded n0_def]
  have unf: "fetch_next l = (if stop then Inr (l, None)
     else rbind (fetch_issue l ctx) (\<lambda>(l', rd).
       Inr (l'\<lparr>l_fetch := ?f\<lparr>f_tail1 := (f_tail1 ?f + n) mod f_size ?f\<rparr>\<rparr>, rd)))"
    unfolding fetch_next_def Let_def stop_def ctx_def iovs_def n_def n1_def n0_def off_def rl_def len_def by simp
  show ?thesis
  proof (cases stop)
    case True
    then show ?thesis using unf by simp
  next
    case False
    then have nn: "n = fetch_len ?f" by (auto simp: stop_def n_def n1_def split: if_splits)
    then have "fetch_len ?f \<le> n0" "fetch_len ?f \<le> rl" by (auto simp: n_def n1_def split: if_splits)
    then have room: "wlen1 ?f + ?n \<le> llen l" "wlen1 ?f + ?n \<le> ?s - 1" using pos b(2) by (auto simp: word_le_nat_alt)
    have "unat n \<le> ?s - 1" using room nn by simp
    note run = buffer_run_iovs[OF wf b(1) this, folded iovs_def]
    have iss: "fetch_issue l ctx = Inr (l, Some ctx)"
      unfolding ctx_def by (rule fetch_issue_ok[OF wf pos(2)]) (use room b(2) nn run in simp_all)
    have "unat (f_tail1 ?f) + unat (fetch_len ?f) < 2 ^ 64" using b sz by (simp; linarith)
    then have tl: "unat ((f_tail1 ?f + n) mod f_size ?f) = (unat (f_tail1 ?f) + ?n) mod ?s" unfolding nn by (rule unat_add_mod)
    show ?thesis
    proof (rule disjI2, intro exI conjI)
      show "fetch_next l = Inr (l\<lparr>l_fetch := ?f\<lparr>f_tail1 := (f_tail1 ?f + n) mod f_size ?f\<rparr>\<rparr>, Some ctx)"
        using unf False iss by simp
    qed (use tl room pos(2) run(1) nn in \<open>simp_all add: ctx_def\<close>)
  qed
qed

section \<open>Prefetches in flight\<close>

definition iov_shape :: "'b iovec list \<Rightarrow> (u64 \<times> nat) list" where
  "iov_shape vs = map (\<lambda>v. (iov_base v, length (iov_blocks v))) vs"

definition run_shape :: "'b kv_circular_log \<Rightarrow> nat \<Rightarrow> nat \<Rightarrow> (u64 \<times> nat) list" where
  "run_shape l pos n =
     (let s = unat (f_size (l_fetch l)); a = f_addr (l_fetch l) in
      if s < pos + n
      then [(a + word_of_nat pos * l_block_size l, s - pos), (a, n - (s - pos))]
      else [(a + word_of_nat pos * l_block_size l, n)])"

text \<open>Data read from the device lands in the buffer through the vector of the request.\<close>

fun scatter :: "'b kv_circular_log \<Rightarrow> 'b iovec list \<Rightarrow> 'b list \<Rightarrow> 'b list \<Rightarrow> 'b list" where
  "scatter l [] d buf = buf"
| "scatter l (v # vs) d buf =
     scatter l vs (drop (length (iov_blocks v)) d)
       (blit buf (iov_index l v) (take (length (iov_blocks v)) d))"

definition fetch_arrive :: "'b list \<Rightarrow> 'b fetch_ctx \<Rightarrow> 'b kv_circular_log \<Rightarrow> 'b kv_circular_log" where
  "fetch_arrive d ctx l =
     l\<lparr>l_fetch := (l_fetch l)\<lparr>f_buffer := scatter l (fc_iov ctx) d (f_buffer (l_fetch l))\<rparr>\<rparr>"

definition read_blocks :: "(nat \<Rightarrow> 'b) \<Rightarrow> 'b kv_circular_log \<Rightarrow> 'b fetch_ctx \<Rightarrow> 'b list" where
  "read_blocks dev l ctx =
     map (\<lambda>k. dev (unat (l_base l) + (unat (fc_offset ctx) + k) mod unat (l_size l))) [0..<unat (fc_n ctx)]"

lemma iov_index_pos:
  assumes wf: "log_wf l" and p: "p < unat (f_size (l_fetch l))"
    and b: "iov_base v = f_addr (l_fetch l) + word_of_nat p * l_block_size l"
  shows "iov_index l v = p"
proof -
  let ?bs = "l_block_size l"
  have fwf: "fetch_wf ?bs (l_fetch l)" using wf by (simp add: log_wf_def)
  have bs: "0 < unat ?bs" using fwf by (simp add: fetch_wf_def unat_gt_0)
  have up: "unat (word_of_nat p :: u64) = p"
    using p fetch_wf_size[OF fwf] by (intro unat_of_nat_u64) simp
  have "p * unat ?bs \<le> unat (f_size (l_fetch l)) * unat ?bs" using p by (intro mult_le_mono1) simp
  then have "p * unat ?bs < 2 ^ 64" by (rule le_less_trans) (use fwf in \<open>simp add: fetch_wf_def\<close>)
  then have "unat (word_of_nat p * ?bs) = p * unat ?bs" using up by (simp add: unat_word_ariths)
  then show ?thesis using b bs by (simp add: iov_index_def unat_div_distrib)
qed

lemma shape_cases:
  assumes "iov_shape vs = run_shape l pos n"
  obtains (two) v w where "vs = [v, w]" "unat (f_size (l_fetch l)) < pos + n"
      "iov_base v = f_addr (l_fetch l) + word_of_nat pos * l_block_size l"
      "length (iov_blocks v) = unat (f_size (l_fetch l)) - pos"
      "iov_base w = f_addr (l_fetch l)" "length (iov_blocks w) = n - (unat (f_size (l_fetch l)) - pos)"
  | (one) v where "vs = [v]" "pos + n \<le> unat (f_size (l_fetch l))"
      "iov_base v = f_addr (l_fetch l) + word_of_nat pos * l_block_size l" "length (iov_blocks v) = n"
proof (cases "unat (f_size (l_fetch l)) < pos + n")
  case True
  then show ?thesis using assms two
    by (auto simp: iov_shape_def run_shape_def Let_def map_eq_Cons_conv)
next
  case False
  then show ?thesis using assms one
    by (auto simp: iov_shape_def run_shape_def Let_def map_eq_Cons_conv)
qed

lemma scatter_upd:
  assumes wf: "log_wf l" and sh: "iov_shape vs = run_shape l pos n"
    and p: "pos < unat (f_size (l_fetch l))" and n: "n \<le> unat (f_size (l_fetch l))"
    and d: "length d = n" and b: "length buf = unat (f_size (l_fetch l)) + 1"
  shows "circ_upd (unat (f_size (l_fetch l))) pos d buf (scatter l vs d buf)"
  using sh
proof (cases rule: shape_cases)
  case (two v w)
  have "iov_index l w = 0" using iov_index_pos[OF wf, of 0 w] p two by simp
  moreover have "iov_index l v = pos" using iov_index_pos[OF wf p] two by simp
  ultimately have "scatter l vs d buf = blit (blit buf pos (take (unat (f_size (l_fetch l)) - pos) d)) 0
     (drop (unat (f_size (l_fetch l)) - pos) d)" using two d by simp
  then show ?thesis using two p n d b by (simp add: circ_upd_two)
next
  case (one v)
  then show ?thesis using iov_index_pos[OF wf p, of v] d p b by (simp add: circ_upd_one)
qed

lemma mark_valid_upd:
  assumes wf: "log_wf l" and sh: "iov_shape vs = run_shape l pos n"
    and p: "pos < unat (f_size (l_fetch l))" and n: "n \<le> unat (f_size (l_fetch l))"
    and b: "length valid = unat (f_size (l_fetch l))"
  shows "circ_upd (unat (f_size (l_fetch l))) pos (replicate n True) valid (fold (mark_valid l) vs valid)"
  using sh
proof (cases rule: shape_cases)
  case (two v w)
  let ?s = "unat (f_size (l_fetch l))"
  have "iov_index l w = 0" using iov_index_pos[OF wf, of 0 w] p two by simp
  moreover have "iov_index l v = pos" using iov_index_pos[OF wf p] two by simp
  ultimately have "fold (mark_valid l) vs valid = blit (blit valid pos (take (?s - pos) (replicate n True))) 0
     (drop (?s - pos) (replicate n True))"
    using two p by (simp add: mark_valid_def min_absorb1)
  then show ?thesis using two p n b by (simp add: circ_upd_two del: drop_replicate take_replicate)
next
  case (one v)
  then show ?thesis using iov_index_pos[OF wf p, of v] p b by (simp add: mark_valid_def circ_upd_one)
qed

lemma buffer_run_shape:
  assumes wf: "log_wf l" and p: "pos < unat (f_size (l_fetch l))" and n: "n \<le> unat (f_size (l_fetch l))"
  shows "iov_shape (buffer_run l pos n) = run_shape l pos n"
proof -
  let ?s = "unat (f_size (l_fetch l))"
  have fwf: "fetch_wf (l_block_size l) (l_fetch l)" using wf by (simp add: log_wf_def)
  have u: "unat (word_of_nat k :: u64) = k" if "k \<le> ?s" for k
    using that fetch_wf_size[OF fwf] by (intro unat_of_nat_u64) simp
  have lb: "length (f_buffer (l_fetch l)) = ?s + 1" using fwf by (simp add: fetch_wf_def)
  show ?thesis using p n u[of pos] u[of n] u[of "?s - pos"] u[of "n - (?s - pos)"] lb
    by (auto simp: buffer_run_def iov_shape_def run_shape_def Let_def buffer_iov_def)
qed

definition fpos :: "'b kv_circular_log \<Rightarrow> 'b fetch_ctx \<Rightarrow> nat" where
  "fpos l c = circ_dist (unat (l_size l)) (unat (l_head l)) (unat (fc_offset c))"

definition flight :: "'b kv_circular_log \<Rightarrow> 'b fetch_ctx \<Rightarrow> bool" where
  "flight l c \<longleftrightarrow>
     (let f = l_fetch l; s = unat (f_size f); h = unat (f_head f); k0 = fpos l c; n = unat (fc_n c) in
      unat (fc_offset c) < unat (l_size l) \<and> 0 < n \<and> wlen f \<le> k0 \<and> k0 + n \<le> wlen1 f \<and>
      iov_shape (fc_iov c) = run_shape l ((h + k0) mod s) n \<and>
      (\<forall>k. k0 \<le> k \<and> k < k0 + n \<longrightarrow> \<not> f_valid f ! ((h + k) mod s)))"

definition apart :: "'b kv_circular_log \<Rightarrow> 'b fetch_ctx \<Rightarrow> 'b fetch_ctx \<Rightarrow> bool" where
  "apart l a b \<longleftrightarrow> fpos l a + unat (fc_n a) \<le> fpos l b \<or> fpos l b + unat (fc_n b) \<le> fpos l a"

definition flights_ok :: "'b kv_circular_log \<Rightarrow> 'b fetch_ctx list \<Rightarrow> bool" where
  "flights_ok l cs \<longleftrightarrow> (\<forall>c \<in> set cs. flight l c) \<and> sorted_wrt (apart l) cs"

text \<open>The state of the prefetcher as a whole.\<close>

definition log_inv :: "(nat \<Rightarrow> 'b) \<Rightarrow> 'b kv_circular_log \<Rightarrow> 'b fetch_ctx list \<Rightarrow> bool" where
  "log_inv dev l cs \<longleftrightarrow> log_wf l \<and> window_inv dev l \<and> flights_ok l cs"

lemma run_shape_cong:
  "f_size (l_fetch l) = f_size (l_fetch l') \<Longrightarrow> f_addr (l_fetch l) = f_addr (l_fetch l') \<Longrightarrow>
   l_block_size l = l_block_size l' \<Longrightarrow> run_shape l = run_shape l'"
  by (simp add: run_shape_def fun_eq_iff Let_def)

lemma fpos_cong:
  "l_size l = l_size l' \<Longrightarrow> l_head l = l_head l' \<Longrightarrow> fpos l = fpos l'"
  by (simp add: fpos_def fun_eq_iff)

text \<open>The prefetcher moves only the two tails of the window and fills the buffer.\<close>

definition log_frame :: "'b kv_circular_log \<Rightarrow> 'b kv_circular_log \<Rightarrow> bool" where
  "log_frame l l' \<longleftrightarrow> l_base l' = l_base l \<and> l_size l' = l_size l \<and> l_head l' = l_head l \<and> l_tail l' = l_tail l \<and>
     l_block_size l' = l_block_size l \<and> f_size (l_fetch l') = f_size (l_fetch l) \<and>
     f_head (l_fetch l') = f_head (l_fetch l)"

lemma log_frame_refl [simp]: "log_frame l l"
  by (simp add: log_frame_def)

lemma log_frame_trans [trans]: "log_frame a b \<Longrightarrow> log_frame b c \<Longrightarrow> log_frame a c"
  by (simp add: log_frame_def)

lemma log_frame_blocks: "log_frame l l' \<Longrightarrow> log_blocks dev l' = log_blocks dev l"
  by (simp add: log_frame_def log_blocks_def)

abbreviation opt_list :: "'a option \<Rightarrow> 'a list" where
  "opt_list x \<equiv> (case x of None \<Rightarrow> [] | Some y \<Rightarrow> [y])"

lemma fetch_next_inv:
  assumes inv: "log_inv dev l cs"
  shows "\<exists>l' rd. fetch_next l = Inr (l', rd) \<and>
    log_inv dev l' (cs @ opt_list rd) \<and> log_frame l l' \<and>
    (rd = None \<longrightarrow> l' = l) \<and> (rd \<noteq> None \<longrightarrow> wlen1 (l_fetch l) < wlen1 (l_fetch l')) \<and>
    f_tail (l_fetch l') = f_tail (l_fetch l)"
proof -
  let ?f = "l_fetch l"
  let ?s = "unat (f_size ?f)" and ?n = "unat (fetch_len ?f)" and ?h = "unat (f_head ?f)"
  have wf: "log_wf l" and win: "window_inv dev l" and fl: "flights_ok l cs"
    using inv by (auto simp: log_inv_def)
  have fwf: "fetch_wf (l_block_size l) ?f" using wf by (simp add: log_wf_def)
  note sz = fetch_wf_size[OF fwf] log_wf_size[OF wf]
  have b: "?h < ?s" "unat (f_tail1 ?f) < ?s" "unat (l_head l) < unat (l_size l)" "0 < ?n"
    using fwf wf by (auto simp: fetch_wf_def log_wf_def)
  have w: "wlen ?f \<le> wlen1 ?f" "wlen1 ?f \<le> llen l" using win by (auto simp: window_inv_def Let_def)
  from fetch_next_run[OF wf w] show ?thesis
  proof
    assume "fetch_next l = Inr (l, None)"
    then show ?thesis using inv by simp
  next
    assume "\<exists>ctx t. fetch_next l = Inr (l\<lparr>l_fetch := ?f\<lparr>f_tail1 := t\<rparr>\<rparr>, Some ctx) \<and>
      unat t = (unat (f_tail1 ?f) + ?n) mod ?s \<and> wlen1 ?f + ?n \<le> llen l \<and> wlen1 ?f + ?n \<le> ?s - 1 \<and>
      fc_n ctx = fetch_len ?f \<and> unat (fc_offset ctx) = (unat (l_head l) + wlen1 ?f) mod unat (l_size l) \<and>
      fc_iov ctx = buffer_run l (unat (f_tail1 ?f)) ?n"
    then obtain ctx t where nx: "fetch_next l = Inr (l\<lparr>l_fetch := ?f\<lparr>f_tail1 := t\<rparr>\<rparr>, Some ctx)"
      and t: "unat t = (unat (f_tail1 ?f) + ?n) mod ?s" and r: "wlen1 ?f + ?n \<le> llen l" "wlen1 ?f + ?n \<le> ?s - 1"
      and c: "fc_n ctx = fetch_len ?f" "unat (fc_offset ctx) = (unat (l_head l) + wlen1 ?f) mod unat (l_size l)"
      "fc_iov ctx = buffer_run l (unat (f_tail1 ?f)) ?n" by blast
    let ?l = "l\<lparr>l_fetch := ?f\<lparr>f_tail1 := t\<rparr>\<rparr>"
    have w1: "wlen1 (l_fetch ?l) = wlen1 ?f + ?n"
    proof -
      have "circ_dist ?s ?h ((unat (f_tail1 ?f) + ?n) mod ?s) = wlen1 ?f + ?n"
        using b r sz by (intro circ_dist_advance_tail) auto
      then show ?thesis using t by simp
    qed
    have wf': "log_wf ?l" using wf t sz by (simp add: log_wf_def fetch_wf_def)
    have nv: "\<forall>k < ?s. wlen1 ?f \<le> k \<longrightarrow> \<not> f_valid ?f ! ((?h + k) mod ?s)"
      using win by (simp add: window_inv_def Let_def)
    have bk: "f_buffer ?f ! ((?h + k) mod ?s) = dev (unat (l_base l) + (unat (l_head l) + k) mod unat (l_size l))"
      if "k < wlen1 ?f + ?n" "f_valid ?f ! ((?h + k) mod ?s)" for k
    proof -
      have "k < ?s" using that(1) r sz by linarith
      then have "k < wlen1 ?f" using nv that(2) by (metis not_le)
      then show ?thesis using win that(2) by (simp add: window_inv_def Let_def)
    qed
    have win': "window_inv dev ?l"
      using win w1 r w nv bk unfolding window_inv_def Let_def by auto
    have fp: "fpos ?l = fpos l" by (rule fpos_cong) auto
    have rs: "run_shape ?l = run_shape l" by (rule run_shape_cong) auto
    have "llen l < unat (l_size l)" using sz by simp
    then have wS: "wlen1 ?f < unat (l_size l)" using r by linarith
    have fp0: "fpos l ctx = wlen1 ?f"
      unfolding fpos_def c(2) using b(3) wS by (rule circ_dist_add)
    have tp: "(?h + wlen1 ?f) mod ?s = unat (f_tail1 ?f)" using circ_add_dist[OF b(1,2)] .
    have sh: "iov_shape (fc_iov ctx) = run_shape l (unat (f_tail1 ?f)) ?n"
      unfolding c(3) using b r by (intro buffer_run_shape[OF wf]) auto
    have old: "flight ?l x" if "x \<in> set cs" for x
      using fl that w1 fp rs unfolding flights_ok_def flight_def Let_def by force
    have new: "flight ?l ctx"
      unfolding flight_def Let_def fp fp0 using c b w w1 tp sh rs nv r sz by auto
    have ap: "\<forall>x \<in> set cs. apart ?l x ctx"
      using fl fp fp0 unfolding flights_ok_def flight_def apart_def Let_def by auto
    have "flights_ok ?l (cs @ [ctx])"
      using fl old new ap fp unfolding flights_ok_def apart_def by (auto simp: sorted_wrt_append)
    then show ?thesis using nx wf' win' w1 b(4)
      by (intro exI[of _ ?l] exI[of _ "Some ctx"]) (simp add: log_inv_def log_frame_def)
  qed
qed

section \<open>Arrivals\<close>

lemma apart_cong: "fpos l' = fpos l \<Longrightarrow> apart l' = apart l"
  by (simp add: apart_def fun_eq_iff)

lemma advance_inv:
  assumes inv: "log_inv dev l cs"
  shows "\<exists>t. fetch_advance (unat (f_size (l_fetch l))) (l_fetch l) = Inr ((l_fetch l)\<lparr>f_tail := t\<rparr>) \<and>
     log_inv dev (l\<lparr>l_fetch := (l_fetch l)\<lparr>f_tail := t\<rparr>\<rparr>) cs \<and> wlen (l_fetch l) \<le> wlen ((l_fetch l)\<lparr>f_tail := t\<rparr>)"
proof -
  let ?f = "l_fetch l"
  let ?s = "unat (f_size ?f)" and ?h = "unat (f_head ?f)"
  have wf: "log_wf l" and win: "window_inv dev l" and fl: "flights_ok l cs"
    using inv by (auto simp: log_inv_def)
  have fwf: "fetch_wf (l_block_size l) ?f" using wf by (simp add: log_wf_def)
  have w1: "wlen1 ?f < ?s" using fetch_wf_size[OF fwf] by simp
  obtain t where t: "fetch_advance ?s ?f = Inr (?f\<lparr>f_tail := t\<rparr>)" "unat t < ?s"
    "wlen ?f \<le> wlen (?f\<lparr>f_tail := t\<rparr>)" "wlen (?f\<lparr>f_tail := t\<rparr>) \<le> wlen1 ?f"
    "\<forall>k < wlen (?f\<lparr>f_tail := t\<rparr>). f_valid ?f ! ((?h + k) mod ?s)"
    using fetch_advance_run[OF fwf diff_le_self _ _ w1] win by (auto simp: window_inv_def Let_def)
  let ?l = "l\<lparr>l_fetch := ?f\<lparr>f_tail := t\<rparr>\<rparr>"
  have wf': "log_wf ?l" using wf t(2) by (simp add: log_wf_def fetch_wf_def)
  have win': "window_inv dev ?l" using win t(3-5) by (simp add: window_inv_def Let_def)
  have fp: "fpos ?l = fpos l" by (rule fpos_cong) auto
  have rs: "run_shape ?l = run_shape l" by (rule run_shape_cong) auto
  have "flight ?l c" if "c \<in> set cs" for c
  proof -
    have c: "flight l c" using fl that by (simp add: flights_ok_def)
    then have "\<not> f_valid ?f ! ((?h + fpos l c) mod ?s)" by (simp add: flight_def Let_def)
    then have "wlen (?f\<lparr>f_tail := t\<rparr>) \<le> fpos l c" using t(5) by (metis not_le_imp_less)
    then show ?thesis using c fp rs by (simp add: flight_def Let_def)
  qed
  then have "flights_ok ?l cs" using fl apart_cong[OF fp] by (simp add: flights_ok_def)
  then show ?thesis using t(1,3) wf' win' by (intro exI[of _ t]) (simp add: log_inv_def)
qed

text \<open>The part of the callback after the arrival is marked.\<close>

definition fetch_resume :: "'b kv_circular_log \<Rightarrow> ('b kv_circular_log \<times> 'b fetch_ctx option) res" where
  "fetch_resume l = rbind (fetch_advance (unat (f_size (l_fetch l))) (l_fetch l))
     (\<lambda>f'. fetch_next (l\<lparr>l_fetch := f'\<rparr>))"

lemma fetch_resume_inv:
  assumes inv: "log_inv dev l cs"
  shows "\<exists>l' rd. fetch_resume l = Inr (l', rd) \<and> log_inv dev l' (cs @ opt_list rd) \<and> log_frame l l' \<and>
    wlen (l_fetch l) \<le> wlen (l_fetch l') \<and>
    (f_tail1 (l_fetch l') \<noteq> f_tail1 (l_fetch l) \<longrightarrow> wlen1 (l_fetch l) < wlen1 (l_fetch l'))"
proof -
  let ?f = "l_fetch l"
  obtain t where t: "fetch_advance (unat (f_size ?f)) ?f = Inr (?f\<lparr>f_tail := t\<rparr>)"
    "log_inv dev (l\<lparr>l_fetch := ?f\<lparr>f_tail := t\<rparr>\<rparr>) cs" "wlen ?f \<le> wlen (?f\<lparr>f_tail := t\<rparr>)"
    using advance_inv[OF inv] by blast
  let ?l = "l\<lparr>l_fetch := ?f\<lparr>f_tail := t\<rparr>\<rparr>"
  have e: "fetch_resume l = fetch_next ?l" using t(1) by (simp add: fetch_resume_def)
  obtain l' rd where r: "fetch_next ?l = Inr (l', rd)" "log_inv dev l' (cs @ opt_list rd)" "log_frame ?l l'"
    "rd = None \<longrightarrow> l' = ?l" "rd \<noteq> None \<longrightarrow> wlen1 (l_fetch ?l) < wlen1 (l_fetch l')" "f_tail (l_fetch l') = t"
    using fetch_next_inv[OF t(2)] by auto
  have fr: "log_frame l l'" using r(3) by (simp add: log_frame_def)
  moreover have "wlen ?f \<le> wlen (l_fetch l')" using fr r(6) t(3) by (simp add: log_frame_def)
  ultimately show ?thesis using e r by (cases rd) auto
qed

lemma mark_valid_cong:
  assumes "f_addr (l_fetch l') = f_addr (l_fetch l)" and "l_block_size l' = l_block_size l"
  shows "mark_valid l' = mark_valid l"
  using assms by (simp add: mark_valid_def iov_index_def fun_eq_iff)

lemma arrive_mark_inv:
  assumes inv: "log_inv dev l (xs @ c # ys)"
  defines "l1 \<equiv> fetch_arrive (read_blocks dev l c) c l"
  defines "l2 \<equiv> l1\<lparr>l_fetch := (l_fetch l1)\<lparr>f_valid := fold (mark_valid l1) (fc_iov c) (f_valid (l_fetch l1))\<rparr>\<rparr>"
  shows "log_inv dev l2 (xs @ ys) \<and> log_frame l l2 \<and> wlen (l_fetch l2) = wlen (l_fetch l)"
proof -
  let ?f = "l_fetch l"
  let ?s = "unat (f_size ?f)" and ?h = "unat (f_head ?f)" and ?n = "unat (fc_n c)" and ?k = "fpos l c"
  let ?p = "(?h + ?k) mod ?s"
  have wf: "log_wf l" and win: "window_inv dev l" and fl: "flights_ok l (xs @ c # ys)"
    using inv by (auto simp: log_inv_def)
  have fwf: "fetch_wf (l_block_size l) ?f" using wf by (simp add: log_wf_def)
  note sz = fetch_wf_size[OF fwf] log_wf_size[OF wf]
  have cf: "flight l c" using fl by (simp add: flights_ok_def)
  then have c: "wlen ?f \<le> ?k" "?k + ?n \<le> wlen1 ?f" "iov_shape (fc_iov c) = run_shape l ?p ?n"
    "unat (fc_offset c) < unat (l_size l)" "0 < ?n"
    by (auto simp: flight_def Let_def)
  have w1: "wlen1 ?f < ?s" using sz by simp
  have kn: "?k + ?n < ?s" using c(2) w1 by linarith
  have hs: "?h < ?s" using fwf by (simp add: fetch_wf_def)
  have p: "?p < ?s" using sz by simp
  have pk: "circ_dist ?s ?h ?p = ?k" using hs kn by (intro circ_dist_add) auto
  define b where "b = scatter l (fc_iov c) (read_blocks dev l c) (f_buffer ?f)"
  define v where "v = fold (mark_valid l) (fc_iov c) (f_valid ?f)"
  have l2: "l2 = l\<lparr>l_fetch := ?f\<lparr>f_buffer := b, f_valid := v\<rparr>\<rparr>"
    using mark_valid_cong[of l1 l] by (simp add: l2_def l1_def fetch_arrive_def b_def v_def)
  have ub: "circ_upd ?s ?p (read_blocks dev l c) (f_buffer ?f) b"
    unfolding b_def using wf c(3) p kn fwf by (intro scatter_upd) (auto simp: read_blocks_def fetch_wf_def)
  have uv: "circ_upd ?s ?p (replicate ?n True) (f_valid ?f) v"
    unfolding v_def using wf c(3) p kn fwf by (intro mark_valid_upd) (auto simp: fetch_wf_def)
  have vk: "v ! ((?h + k) mod ?s) \<longleftrightarrow> (?k \<le> k \<and> k < ?k + ?n) \<or> f_valid ?f ! ((?h + k) mod ?s)" if "k < ?s" for k
    using circ_upd_window[OF uv hs p that] pk kn by auto
  have off: "(unat (l_head l) + ?k) mod unat (l_size l) = unat (fc_offset c)"
    unfolding fpos_def using wf c(4) by (intro circ_add_dist) (auto simp: log_wf_def)
  have rd: "read_blocks dev l c ! (k - ?k) = dev (unat (l_base l) + (unat (l_head l) + k) mod unat (l_size l))"
    if "?k \<le> k" "k < ?k + ?n" for k
  proof -
    have "(unat (fc_offset c) + (k - ?k)) mod unat (l_size l) = (unat (l_head l) + ?k + (k - ?k)) mod unat (l_size l)"
      unfolding off[symmetric] by (simp add: mod_add_left_eq)
    also have "\<dots> = (unat (l_head l) + k) mod unat (l_size l)" using that by simp
    finally have e: "(unat (fc_offset c) + (k - ?k)) mod unat (l_size l) = (unat (l_head l) + k) mod unat (l_size l)" .
    have "k - ?k < ?n" using that by arith
    then show ?thesis unfolding e[symmetric] by (simp add: read_blocks_def)
  qed
  have bk: "b ! ((?h + k) mod ?s) = (if ?k \<le> k \<and> k < ?k + ?n
      then dev (unat (l_base l) + (unat (l_head l) + k) mod unat (l_size l)) else f_buffer ?f ! ((?h + k) mod ?s))" if "k < ?s" for k
    using circ_upd_window[OF ub hs p that] pk kn rd by (auto simp: read_blocks_def)
  have wf': "log_wf l2" using wf ub uv by (simp add: l2 log_wf_def fetch_wf_def circ_upd_def)
  have win': "window_inv dev l2"
    using win c(2) w1 vk bk unfolding window_inv_def Let_def l2 by auto
  have fp: "fpos l2 = fpos l" by (rule fpos_cong) (auto simp: l2)
  have rs: "run_shape l2 = run_shape l" by (rule run_shape_cong) (auto simp: l2)
  have "flight l2 x" if "x \<in> set (xs @ ys)" for x
  proof -
    have x: "flight l x" and ap: "apart l x c \<or> apart l c x"
      using fl that by (auto simp: flights_ok_def sorted_wrt_append)
    have r: "fpos l x + unat (fc_n x) \<le> wlen1 ?f" using x by (simp add: flight_def Let_def)
    have nv: "\<not> v ! ((?h + k) mod ?s)" if k: "fpos l x \<le> k" "k < fpos l x + unat (fc_n x)" for k
    proof -
      have "k < ?s" using k r w1 by linarith
      moreover have "\<not> f_valid ?f ! ((?h + k) mod ?s)" using x k by (simp add: flight_def Let_def)
      moreover have "\<not> (?k \<le> k \<and> k < ?k + ?n)" using ap k by (auto simp: apart_def)
      ultimately show ?thesis using vk by blast
    qed
    have "l_fetch l2 = ?f\<lparr>f_buffer := b, f_valid := v\<rparr>" "l_size l2 = l_size l" by (simp_all add: l2)
    then show ?thesis using x nv fp rs unfolding flight_def Let_def by simp
  qed
  then have "flights_ok l2 (xs @ ys)"
    using fl apart_cong[OF fp] by (auto simp: flights_ok_def sorted_wrt_append)
  then show ?thesis using wf' win' by (simp add: log_inv_def log_frame_def l2)
qed

lemma fetch_cb_True:
  "fetch_cb True c l = fetch_resume (l\<lparr>l_fetch := (l_fetch l)\<lparr>f_valid := fold (mark_valid l) (fc_iov c) (f_valid (l_fetch l))\<rparr>\<rparr>)"
  by (simp add: fetch_cb_def fetch_resume_def Let_def)

lemma fetch_cb_arrival:
  assumes inv: "log_inv dev l (xs @ c # ys)"
  shows "\<exists>l' rd. fetch_cb True c (fetch_arrive (read_blocks dev l c) c l) = Inr (l', rd) \<and>
    log_inv dev l' ((xs @ ys) @ opt_list rd) \<and> log_frame l l' \<and> wlen (l_fetch l) \<le> wlen (l_fetch l')"
proof -
  let ?l = "fetch_arrive (read_blocks dev l c) c l"
  let ?m = "?l\<lparr>l_fetch := (l_fetch ?l)\<lparr>f_valid := fold (mark_valid ?l) (fc_iov c) (f_valid (l_fetch ?l))\<rparr>\<rparr>"
  note m = arrive_mark_inv[OF inv]
  obtain l' rd where "fetch_resume ?m = Inr (l', rd)" "log_inv dev l' ((xs @ ys) @ opt_list rd)"
    "log_frame ?m l'" "wlen (l_fetch ?m) \<le> wlen (l_fetch l')"
    using fetch_resume_inv[OF conjunct1[OF m]] by blast
  then show ?thesis using m log_frame_trans[of l ?m l'] by (auto simp: fetch_cb_True)
qed

section \<open>Trimming the head\<close>

lemma clear_valid_nth:
  assumes wf: "fetch_wf bs f" and n: "unat n < unat (f_size f)" and k: "k < unat (f_size f)"
  shows "clear_valid f n ! ((unat (f_head f) + k) mod unat (f_size f)) \<longleftrightarrow>
      unat n \<le> k \<and> f_valid f ! ((unat (f_head f) + k) mod unat (f_size f))"
    and "length (clear_valid f n) = length (f_valid f)"
proof -
  let ?s = "unat (f_size f)" and ?h = "unat (f_head f)"
  let ?g = "\<lambda>i v. v[unat ((f_head f + word_of_nat i) mod f_size f) := False]"
  have h: "?h < ?s" and lv: "length (f_valid f) = ?s" using wf by (auto simp: fetch_wf_def)
  note sz = fetch_wf_size[OF wf]
  have u: "unat ((f_head f + word_of_nat i) mod f_size f) = (?h + i) mod ?s" if "i < ?s" for i
  proof -
    have "unat (word_of_nat i :: u64) = i" using that sz by (intro unat_of_nat_u64) simp
    then show ?thesis using that h sz by (simp add: unat_add_less)
  qed
  have *: "(fold ?g [0..<m] (f_valid f) ! ((?h + k) mod ?s) \<longleftrightarrow> m \<le> k \<and> f_valid f ! ((?h + k) mod ?s)) \<and>
     length (fold ?g [0..<m] (f_valid f)) = ?s" if "m < ?s" for m
    using that
  proof (induction m)
    case 0
    then show ?case using lv by simp
  next
    case (Suc m)
    have "(?h + m) mod ?s = (?h + k) mod ?s \<longleftrightarrow> m = k"
      using circ_add_inj[of m ?s k ?h] Suc.prems k by auto
    moreover have "(?h + k) mod ?s < ?s" using sz by simp
    ultimately show ?case using Suc u[of m] by (auto simp: nth_list_update)
  qed
  show "clear_valid f n ! ((?h + k) mod ?s) \<longleftrightarrow> unat n \<le> k \<and> f_valid f ! ((?h + k) mod ?s)"
    using *[OF n] by (simp only: clear_valid_def)
  show "length (clear_valid f n) = length (f_valid f)"
    using *[OF n] lv by (simp only: clear_valid_def)
qed

definition trimmed :: "'b kv_circular_log \<Rightarrow> u64 \<Rightarrow> 'b kv_circular_log" where
  "trimmed l n = l\<lparr>l_head := (l_head l + n) mod l_size l,
     l_fetch := (l_fetch l)\<lparr>f_valid := clear_valid (l_fetch l) n,
       f_head := (f_head (l_fetch l) + n) mod f_size (l_fetch l)\<rparr>\<rparr>"

lemma mod_shift: "((a + n) mod s + k) mod s = (a + (n + k)) mod (s :: nat)"
  by (simp add: mod_add_left_eq add.assoc)

lemma trimmed_frame:
  assumes inv: "log_inv dev l cs" and n: "unat n \<le> wlen (l_fetch l)"
  shows "l_size (trimmed l n) = l_size l" "l_base (trimmed l n) = l_base l" "l_tail (trimmed l n) = l_tail l"
    "l_block_size (trimmed l n) = l_block_size l"
    "unat (l_head (trimmed l n)) = (unat (l_head l) + unat n) mod unat (l_size l)"
    "f_size (l_fetch (trimmed l n)) = f_size (l_fetch l)" "f_tail (l_fetch (trimmed l n)) = f_tail (l_fetch l)"
    "f_tail1 (l_fetch (trimmed l n)) = f_tail1 (l_fetch l)"
    "unat (f_head (l_fetch (trimmed l n))) = (unat (f_head (l_fetch l)) + unat n) mod unat (f_size (l_fetch l))"
    "f_valid (l_fetch (trimmed l n)) = clear_valid (l_fetch l) n"
    "f_buffer (l_fetch (trimmed l n)) = f_buffer (l_fetch l)" "f_addr (l_fetch (trimmed l n)) = f_addr (l_fetch l)"
    and "wlen (l_fetch (trimmed l n)) = wlen (l_fetch l) - unat n"
      "wlen1 (l_fetch (trimmed l n)) = wlen1 (l_fetch l) - unat n" "llen (trimmed l n) = llen l - unat n"
    and "log_wf (trimmed l n)"
proof -
  let ?f = "l_fetch l" and ?l = "trimmed l n" and ?n = "unat n"
  let ?s = "unat (f_size ?f)" and ?h = "unat (f_head ?f)" and ?S = "unat (l_size l)" and ?H = "unat (l_head l)"
  have wf: "log_wf l" and win: "window_inv dev l" using inv by (auto simp: log_inv_def)
  have fwf: "fetch_wf (l_block_size l) ?f" using wf by (simp add: log_wf_def)
  note sz = fetch_wf_size[OF fwf] log_wf_size[OF wf]
  have b: "?h < ?s" "?H < ?S" "unat (f_tail ?f) < ?s" "unat (f_tail1 ?f) < ?s" "unat (l_tail l) < ?S"
    using fwf wf by (auto simp: fetch_wf_def log_wf_def)
  have w: "wlen ?f \<le> wlen1 ?f" "wlen1 ?f \<le> llen l" using win by (auto simp: window_inv_def Let_def)
  have "wlen ?f < ?s" using sz by simp
  then have ns: "?n < ?s" using n by linarith
  have uh: "unat ((f_head ?f + n) mod f_size ?f) = (?h + ?n) mod ?s"
    using b sz ns by (intro unat_add_mod) (simp; linarith)
  have uH: "unat ((l_head l + n) mod l_size l) = (?H + ?n) mod ?S"
    using b sz ns by (intro unat_add_mod) (simp; linarith)
  show fr: "l_size ?l = l_size l" "l_base ?l = l_base l" "l_tail ?l = l_tail l" "l_block_size ?l = l_block_size l"
    "unat (l_head ?l) = (?H + ?n) mod ?S" "f_size (l_fetch ?l) = f_size ?f" "f_tail (l_fetch ?l) = f_tail ?f"
    "f_tail1 (l_fetch ?l) = f_tail1 ?f" "unat (f_head (l_fetch ?l)) = (?h + ?n) mod ?s"
    "f_valid (l_fetch ?l) = clear_valid ?f n" "f_buffer (l_fetch ?l) = f_buffer ?f" "f_addr (l_fetch ?l) = f_addr ?f"
    using uh uH by (simp_all add: trimmed_def del: unat_mod)
  show "wlen (l_fetch ?l) = wlen ?f - ?n" "wlen1 (l_fetch ?l) = wlen1 ?f - ?n" "llen ?l = llen l - ?n"
    unfolding fr using b n w by (auto intro!: circ_dist_advance_head)
  show "log_wf ?l"
    using wf b sz fr(5,9) clear_valid_nth(2)[OF fwf ns] b(1)
    by (simp add: log_wf_def fetch_wf_def trimmed_def)
qed

lemma clear_valid_shift:
  assumes fwf: "fetch_wf bs f" and ns: "unat n < unat (f_size f)" and k: "k < unat (f_size f)"
  shows "clear_valid f n ! (((unat (f_head f) + unat n) mod unat (f_size f) + k) mod unat (f_size f)) \<longleftrightarrow>
    k < unat (f_size f) - unat n \<and> f_valid f ! ((unat (f_head f) + (unat n + k)) mod unat (f_size f))"
proof (cases "unat n + k < unat (f_size f)")
  case True
  then show ?thesis using clear_valid_nth(1)[OF fwf ns, of "unat n + k"] by (auto simp: mod_shift)
next
  case False
  then have "(unat (f_head f) + (unat n + k)) mod unat (f_size f) =
      (unat (f_head f) + (unat n + k - unat (f_size f))) mod unat (f_size f)"
    by (metis le_add_diff_inverse2 mod_add_self2 add.assoc not_less)
  then show ?thesis
    using False clear_valid_nth(1)[OF fwf ns, of "unat n + k - unat (f_size f)"] k ns by (auto simp: mod_shift)
qed

lemma trimmed_window:
  assumes inv: "log_inv dev l cs" and n: "unat n \<le> wlen (l_fetch l)"
  shows "window_inv dev (trimmed l n)"
proof -
  let ?f = "l_fetch l" and ?n = "unat n"
  let ?s = "unat (f_size ?f)" and ?h = "unat (f_head ?f)" and ?S = "unat (l_size l)" and ?H = "unat (l_head l)"
  note fr = trimmed_frame[OF inv n]
  have win: "window_inv dev l" and fwf: "fetch_wf (l_block_size l) ?f"
    using inv by (auto simp: log_inv_def log_wf_def)
  note sz = fetch_wf_size[OF fwf]
  have w: "wlen ?f \<le> wlen1 ?f" "wlen1 ?f \<le> llen l" using win by (auto simp: window_inv_def Let_def)
  have ws: "wlen ?f < ?s" "wlen1 ?f < ?s" using sz by simp_all
  then have "?n < ?s" using n by linarith
  note cv = clear_valid_shift[OF fwf this]
  show ?thesis unfolding window_inv_def Let_def unfolding fr(13-15) unfolding fr
  proof (intro conjI allI impI)
    show "wlen ?f - ?n \<le> wlen1 ?f - ?n" "wlen1 ?f - ?n \<le> llen l - ?n" using w by auto
  next
    fix k assume k: "k < wlen ?f - ?n"
    then have "?n + k < wlen ?f" by simp
    then show "clear_valid ?f n ! (((?h + ?n) mod ?s + k) mod ?s)"
      using cv[of k] win ws by (auto simp: window_inv_def Let_def)
  next
    fix k assume k: "k < ?s" "wlen1 ?f - ?n \<le> k"
    then have "wlen1 ?f \<le> ?n + k" by simp
    then show "\<not> clear_valid ?f n ! (((?h + ?n) mod ?s + k) mod ?s)"
      using cv[OF k(1)] win by (auto simp: window_inv_def Let_def)
  next
    fix k assume k: "k < wlen1 ?f - ?n" "clear_valid ?f n ! (((?h + ?n) mod ?s + k) mod ?s)"
    then have "f_valid ?f ! ((?h + (?n + k)) mod ?s)" "?n + k < wlen1 ?f" using cv[of k] ws by auto
    then show "f_buffer ?f ! (((?h + ?n) mod ?s + k) mod ?s) =
      dev (unat (l_base l) + ((?H + ?n) mod ?S + k) mod ?S)"
      unfolding mod_shift using win by (simp add: window_inv_def Let_def)
  qed
qed

lemma trimmed_fpos:
  assumes inv: "log_inv dev l cs" and n: "unat n \<le> wlen (l_fetch l)" and c: "c \<in> set cs"
  shows "unat n \<le> fpos l c" "fpos (trimmed l n) c = fpos l c - unat n"
proof -
  have fl: "flight l c" and h: "unat (l_head l) < unat (l_size l)"
    using inv c by (auto simp: log_inv_def flights_ok_def log_wf_def)
  then show le: "unat n \<le> fpos l c" using n by (auto simp: flight_def Let_def)
  show "fpos (trimmed l n) c = fpos l c - unat n"
    using fl le h unfolding fpos_def trimmed_frame[OF inv n] flight_def Let_def
    by (auto intro!: circ_dist_advance_head)
qed

lemma trimmed_flight:
  assumes inv: "log_inv dev l cs" and n: "unat n \<le> wlen (l_fetch l)" and m: "c \<in> set cs"
  shows "flight (trimmed l n) c"
proof -
  let ?f = "l_fetch l" and ?l = "trimmed l n" and ?n = "unat n"
  let ?s = "unat (f_size ?f)" and ?h = "unat (f_head ?f)"
  note fr = trimmed_frame[OF inv n] and fc = trimmed_fpos[OF inv n m]
  have c: "flight l c" and fwf: "fetch_wf (l_block_size l) ?f"
    using inv m by (auto simp: log_inv_def flights_ok_def log_wf_def)
  have ws: "wlen ?f < ?s" "wlen1 ?f < ?s" using fetch_wf_size[OF fwf] by simp_all
  then have ns: "?n < ?s" using n by linarith
  have rs: "run_shape ?l = run_shape l" by (rule run_shape_cong) (auto simp: fr)
  have "\<not> clear_valid ?f n ! (((?h + ?n) mod ?s + k) mod ?s)"
    if "fpos l c - ?n \<le> k" "k < fpos l c - ?n + unat (fc_n c)" for k
  proof -
    have r: "fpos l c \<le> ?n + k" "?n + k < fpos l c + unat (fc_n c)" using that fc by auto
    then have "\<not> f_valid ?f ! ((?h + (?n + k)) mod ?s)" using c unfolding flight_def Let_def by blast
    moreover have "fpos l c + unat (fc_n c) \<le> wlen1 ?f" using c by (simp add: flight_def Let_def)
    then have "k < ?s" using r ws by linarith
    ultimately show ?thesis using clear_valid_shift[OF fwf ns] by blast
  qed
  moreover have "((?h + ?n) mod ?s + (fpos l c - ?n)) mod ?s = (?h + fpos l c) mod ?s"
    unfolding mod_shift using fc by simp
  ultimately show ?thesis using c fc n unfolding flight_def Let_def rs fr(13-15)
    by (auto simp: fr)
qed

lemma trimmed_blocks:
  assumes inv: "log_inv dev l cs" and n: "unat n \<le> wlen (l_fetch l)"
  shows "log_blocks dev (trimmed l n) = drop (unat n) (log_blocks dev l)"
  unfolding log_blocks_def unfolding trimmed_frame(13-15)[OF inv n] unfolding trimmed_frame[OF inv n]
proof (rule nth_equalityI, goal_cases)
  case (2 i)
  then have i: "unat n + i < llen l" by (simp add: less_diff_conv add.commute)
  then show ?case using 2 by (simp add: mod_shift nth_append)
qed simp

lemma trimmed_inv:
  assumes inv: "log_inv dev l cs" and n: "unat n \<le> wlen (l_fetch l)"
  shows "log_inv dev (trimmed l n) cs \<and> log_blocks dev (trimmed l n) = drop (unat n) (log_blocks dev l) \<and>
     wlen (l_fetch (trimmed l n)) = wlen (l_fetch l) - unat n \<and> llen (trimmed l n) = llen l - unat n \<and>
     unat (l_head (trimmed l n)) = (unat (l_head l) + unat n) mod unat (l_size l)"
proof -
  have "sorted_wrt (apart (trimmed l n)) cs"
  proof (rule sorted_wrt_mono_rel[where P = "apart l"])
    show "apart (trimmed l n) x y" if "x \<in> set cs" "y \<in> set cs" "apart l x y" for x y
      using that trimmed_fpos[OF inv n, of x] trimmed_fpos[OF inv n, of y] by (auto simp: apart_def)
    show "sorted_wrt (apart l) cs" using inv by (simp add: log_inv_def flights_ok_def)
  qed
  then have "flights_ok (trimmed l n) cs" using trimmed_flight[OF inv n] by (simp add: flights_ok_def)
  then show ?thesis
    using trimmed_frame(5,13,15,16)[OF inv n] trimmed_window[OF inv n] trimmed_blocks[OF inv n]
    by (simp add: log_inv_def)
qed

lemma move_head_loop_inv:
  assumes "log_inv dev l (cs @ acc)" and "unat (f_size (l_fetch l)) - wlen1 (l_fetch l) < fuel"
  shows "\<exists>l' acc'. move_head_loop fuel l acc = Inr (l', acc') \<and> log_inv dev l' (cs @ acc') \<and>
     log_frame l l' \<and> wlen (l_fetch l) \<le> wlen (l_fetch l')"
  using assms
proof (induction fuel arbitrary: l acc)
  case 0
  then show ?case by simp
next
  case (Suc fuel)
  have "fetch_cb True fetch_ctx_zero l = fetch_resume l"
    by (simp add: fetch_cb_True fetch_ctx_zero_def)
  then obtain l1 rd where r: "fetch_cb True fetch_ctx_zero l = Inr (l1, rd)"
    "log_inv dev l1 (cs @ (acc @ opt_list rd))" "log_frame l l1" "wlen (l_fetch l) \<le> wlen (l_fetch l1)"
    "f_tail1 (l_fetch l1) \<noteq> f_tail1 (l_fetch l) \<longrightarrow> wlen1 (l_fetch l) < wlen1 (l_fetch l1)"
    using fetch_resume_inv[OF Suc.prems(1)] by auto
  show ?case
  proof (cases "f_tail1 (l_fetch l) = f_tail1 (l_fetch l1)")
    case True
    then show ?thesis using r by (auto simp: Let_def)
  next
    case False
    have "0 < unat (f_size (l_fetch l1))"
      using r(2) fetch_wf_size(1) by (auto simp: log_inv_def log_wf_def)
    then have "wlen1 (l_fetch l1) < unat (f_size (l_fetch l1))" by simp
    moreover have "f_size (l_fetch l1) = f_size (l_fetch l)" using r(3) by (simp add: log_frame_def)
    ultimately have "unat (f_size (l_fetch l1)) - wlen1 (l_fetch l1) < fuel"
      using Suc.prems(2) r(5) False by auto
    from Suc.IH[OF r(2) this] obtain l2 acc2 where
      "move_head_loop fuel l1 (acc @ opt_list rd) = Inr (l2, acc2)" "log_inv dev l2 (cs @ acc2)"
      "log_frame l1 l2" "wlen (l_fetch l1) \<le> wlen (l_fetch l2)" by blast
    then show ?thesis using r(1,3,4) False log_frame_trans[of l l1 l2] by (auto simp: Let_def)
  qed
qed

lemma move_head_inv:
  assumes inv: "log_inv dev l cs" and n: "unat n \<le> wlen (l_fetch l)"
  shows "\<exists>l' new. kv_circular_log_move_head l n = Inr (l', new) \<and> log_inv dev l' (cs @ new) \<and>
     log_frame (trimmed l n) l' \<and> wlen (l_fetch l) - unat n \<le> wlen (l_fetch l')"
proof -
  have wf: "fetch_wf (l_block_size l) (l_fetch l)" using inv by (simp add: log_inv_def log_wf_def)
  have le: "fetch_length (l_fetch l) \<ge> n" using n unat_fetch_length[OF wf] by (simp add: word_le_nat_alt)
  have e: "kv_circular_log_move_head l n = move_head_loop (Suc (unat (f_size (l_fetch l)))) (trimmed l n) []"
    using le by (simp add: kv_circular_log_move_head_def trimmed_def Let_def)
  have fu: "unat (f_size (l_fetch (trimmed l n))) - wlen1 (l_fetch (trimmed l n)) < Suc (unat (f_size (l_fetch l)))"
    by (simp add: trimmed_def)
  note t = trimmed_inv[OF inv n]
  have "log_inv dev (trimmed l n) (cs @ [])" using t by simp
  from move_head_loop_inv[OF this fu] show ?thesis using t e by auto
qed

lemma move_head_too_far:
  assumes "log_inv dev l cs" and "wlen (l_fetch l) < unat n"
  shows "kv_circular_log_move_head l n = Inl Assert_fail"
proof -
  have wf: "fetch_wf (l_block_size l) (l_fetch l)" using assms(1) by (simp add: log_inv_def log_wf_def)
  have "\<not> n \<le> fetch_length (l_fetch l)"
    using assms(2) unat_fetch_length[OF wf] by (simp add: word_le_nat_alt)
  then show ?thesis by (simp add: kv_circular_log_move_head_def Let_def)
qed

section \<open>Reading the window\<close>

lemma fetch_pos:
  assumes inv: "log_inv dev l cs" and k: "k < llen l"
    and off: "unat off = (unat (l_head l) + k) mod unat (l_size l)"
  shows "unat ((l_size l - l_head l + off) mod l_size l) = k"
proof -
  have wf: "log_wf l" using inv by (simp add: log_inv_def)
  note sz = log_wf_size[OF wf]
  have H: "unat (l_head l) < unat (l_size l)" using wf by (simp add: log_wf_def)
  have o: "unat off < unat (l_size l)" using off sz by simp
  have "llen l < unat (l_size l)" using sz by simp
  then have "k < unat (l_size l)" using k by linarith
  moreover have "unat ((l_size l - l_head l + off) mod l_size l) = circ_dist (unat (l_size l)) (unat (l_head l)) (unat off)"
    using H o sz by (intro unat_circ_dist') auto
  ultimately show ?thesis unfolding off using H by (metis circ_dist_add)
qed

lemma fetch_one_correct:
  assumes inv: "log_inv dev l cs" and k: "k < wlen (l_fetch l)"
    and off: "unat off = (unat (l_head l) + k) mod unat (l_size l)"
  shows "kv_circular_log_fetch_one l off = Inr (log_blocks dev l ! k) \<and> kv_circular_log_is_fetchable l off"
proof -
  let ?f = "l_fetch l"
  have wf: "log_wf l" and win: "window_inv dev l" using inv by (auto simp: log_inv_def)
  have fwf: "fetch_wf (l_block_size l) ?f" using wf by (simp add: log_wf_def)
  have w: "wlen ?f \<le> wlen1 ?f" "wlen1 ?f \<le> llen l" using win by (auto simp: window_inv_def Let_def)
  have kl: "k < llen l" using k w by linarith
  let ?o = "(l_size l - l_head l + off) mod l_size l"
  have o: "unat ?o = k" by (rule fetch_pos[OF inv kl off])
  have lt: "?o < fetch_length ?f" using k o unat_fetch_length[OF fwf] by (simp only: word_less_nat_alt)
  have "wlen ?f < unat (f_size ?f)" using fetch_wf_size[OF fwf] by simp
  then have "unat (f_head ?f) + unat ?o < 2 ^ 64"
    unfolding o using k fwf fetch_wf_size[OF fwf] by (simp add: fetch_wf_def; linarith)
  then have "unat ((f_head ?f + ?o) mod f_size ?f) = (unat (f_head ?f) + k) mod unat (f_size ?f)"
    using unat_add_mod o by metis
  moreover have "f_buffer ?f ! ((unat (f_head ?f) + k) mod unat (f_size ?f)) = log_blocks dev l ! k"
    using win k kl w by (simp add: window_inv_def Let_def log_blocks_def)
  ultimately show ?thesis using lt
    by (simp add: kv_circular_log_fetch_one_def kv_circular_log_is_fetchable_def Let_def del: unat_mod)
qed

end
