(* ===== verification/Circular_Log_World.thy ===== *)
theory Circular_Log_World
  imports Circular_Log_Fetch
begin

text \<open>
  The circular log together with its device and its prefetch reads in flight, as a state
  machine of appends, trims, arrivals and failures of reads. Every run of it is a run of a
  bounded list, and no run reaches a failed assertion.
\<close>

unbundle bit_operations_syntax

section \<open>Failed reads and appends\<close>

lemma run_shape_data:
  assumes wf: "log_wf l" and sh: "iov_shape vs = run_shape l pos n"
    and p: "pos < unat (f_size (l_fetch l))"
  shows "length (iov_data vs) = n \<and> iov_aligned vs"
proof -
  have al: "f_addr (l_fetch l) AND 3 = 0" "l_block_size l AND 3 = 0"
    using wf by (auto simp: log_wf_def fetch_wf_def)
  show ?thesis using sh
    by (cases rule: shape_cases) (use p al in \<open>auto simp: aligned_add_mult\<close>)
qed

lemma fetch_cb_failure:
  assumes inv: "log_inv dev l cs" and c: "c \<in> set cs"
  shows "fetch_cb False c l = Inr (l, Some c)"
proof -
  let ?f = "l_fetch l" and ?S = "unat (l_size l)"
  have wf: "log_wf l" and win: "window_inv dev l" and f: "flight l c"
    using inv c by (auto simp: log_inv_def flights_ok_def)
  have fwf: "fetch_wf (l_block_size l) ?f" using wf by (simp add: log_wf_def)
  note sz = fetch_wf_size[OF fwf] log_wf_size[OF wf]
  have b: "unat (l_head l) < ?S" "unat (l_tail l) < ?S" using wf by (auto simp: log_wf_def)
  have fo: "unat (fc_offset c) < ?S" and n0: "0 < unat (fc_n c)" and r: "fpos l c + unat (fc_n c) \<le> llen l"
    using f win by (auto simp: flight_def window_inv_def Let_def)
  have d: "length (iov_data (fc_iov c)) = unat (fc_n c) \<and> iov_aligned (fc_iov c)"
    by (rule run_shape_data[OF wf, of _ "(unat (f_head ?f) + fpos l c) mod unat (f_size ?f)"])
      (use f sz in \<open>auto simp: flight_def Let_def\<close>)
  have lS: "llen l < ?S" using sz by simp
  have dS: "length (iov_data (fc_iov c)) \<le> ?S" using d r lS by linarith
  obtain st where st: "iov_split (l_block_size l) (l_size l - fc_offset c) (fc_iov c) = Inr st"
    "unat (sp_n st) = unat (fc_n c)"
    using log_wf_split[OF wf _ dS fo] d by metis
  have "unat ((l_size l + fc_offset c - l_head l) mod l_size l) = fpos l c"
    unfolding fpos_def using b sz fo by (intro unat_circ_dist) simp_all
  then have a1: "(l_size l + fc_offset c - l_head l) mod l_size l < log_length l"
    using r n0 unat_log_length[OF wf] by (simp only: word_less_nat_alt)
  have off: "(unat (l_head l) + fpos l c) mod ?S = unat (fc_offset c)"
    unfolding fpos_def using b fo by (intro circ_add_dist)
  have "unat ((l_size l + l_tail l - fc_offset c) mod l_size l) = circ_dist ?S (unat (fc_offset c)) (unat (l_tail l))"
    using b sz fo by (intro unat_circ_dist) auto
  also have "\<dots> = llen l - fpos l c" unfolding off[symmetric] using b r by (intro circ_dist_advance_head) auto
  finally have a2: "(l_size l + l_tail l - fc_offset c) mod l_size l \<ge> sp_n st"
    using st(2) r by (simp only: word_le_nat_alt)
  show ?thesis using st(1) a1 a2
    by (simp add: fetch_cb_def fetch_issue_def kv_circular_log_readv_def kv_circular_log_iov_def Let_def)
qed

lemma window_sync_iff:
  assumes "log_inv dev l cs"
  shows "window_sync l \<longleftrightarrow> wlen (l_fetch l) = llen l \<or> unat (f_size (l_fetch l)) - 1 \<le> llen l"
proof -
  have "f_tail (l_fetch l) = f_tail1 (l_fetch l)" if w: "wlen (l_fetch l) = llen l"
  proof -
    have b: "unat (f_head (l_fetch l)) < unat (f_size (l_fetch l))" "unat (f_tail (l_fetch l)) < unat (f_size (l_fetch l))"
      "unat (f_tail1 (l_fetch l)) < unat (f_size (l_fetch l))"
      using assms by (auto simp: log_inv_def log_wf_def fetch_wf_def)
    have "wlen1 (l_fetch l) = wlen (l_fetch l)" using w assms by (auto simp: log_inv_def window_inv_def Let_def)
    then have "unat (f_tail (l_fetch l)) = unat (f_tail1 (l_fetch l))"
      using circ_add_dist[OF b(1,2)] circ_add_dist[OF b(1,3)] by simp
    then show ?thesis by (simp add: word_unat_eq_iff)
  qed
  then show ?thesis by (auto simp: window_sync_def)
qed

lemma append_inv:
  assumes inv: "log_inv dev l cs" and sync: "window_sync l" and sp: "llen l + length (iov_data vs) < unat (l_size l)"
  shows "log_inv (circ_write dev (unat (l_base l)) (unat (l_size l)) (unat (l_tail l)) (iov_data vs)) (append_state l vs) cs"
proof -
  have wf: "log_wf l" and win: "window_inv dev l" and fl: "flights_ok l cs"
    using inv by (auto simp: log_inv_def)
  have D62: "length (iov_data vs) < 2 ^ 62" using sp log_wf_size[OF wf] by simp
  have "flights_ok (append_state l vs) cs" using wf D62
  proof (cases rule: copy_to_fetch_buf_cases)
    case full
    let ?l = "append_state l vs"
    have f: "l_fetch ?l = l_fetch l" "l_size ?l = l_size l" using full by (simp_all add: append_state_def)
    have fp: "fpos ?l = fpos l" by (rule fpos_cong) (auto simp: append_state_def full)
    have rs: "run_shape ?l = run_shape l" by (rule run_shape_cong) (auto simp: append_state_def full)
    show ?thesis using fl f rs fp apart_cong[OF fp]
      by (simp add: flights_ok_def flight_def Let_def)
  next
    case (copy b v m t)
    then have "wlen1 (l_fetch l) = wlen (l_fetch l)" using sync by (auto simp: window_sync_def)
    then have "cs = []" using fl by (cases cs) (auto simp: flights_ok_def flight_def Let_def)
    then show ?thesis by (simp add: flights_ok_def)
  qed
  then show ?thesis
    using append_state_wf[OF wf D62] append_window[OF wf sp win sync] by (simp add: log_inv_def)
qed

section \<open>The log with its device and its reads in flight\<close>

record 'b log_world =
  lw_dev :: "nat \<Rightarrow> 'b"
  lw_log :: "'b kv_circular_log"
  lw_flights :: "'b fetch_ctx list"

text \<open>
  The events of a log: an append of the owner, a trim by the compactor, the completion and
  the failure of the prefetch in position \<open>i\<close>. A device request takes effect in the order
  of its submission.
\<close>

datatype 'b log_event = Ev_append "'b iovec list" | Ev_trim u64 | Ev_arrive nat | Ev_fail nat

fun log_event_run :: "'b log_event \<Rightarrow> 'b log_world \<Rightarrow> 'b log_world res" where
  "log_event_run (Ev_append vs) w =
     rbind (kv_circular_log_appendv (lw_log w) vs) (\<lambda>(l, r).
       case r of Iov_issued ios \<Rightarrow> Inr (w\<lparr>lw_dev := exec_ios ios (lw_dev w), lw_log := l\<rparr>)
       | Iov_no_space \<Rightarrow> Inr (w\<lparr>lw_log := l\<rparr>))"
| "log_event_run (Ev_trim n) w =
     rbind (kv_circular_log_move_head (lw_log w) n) (\<lambda>(l, new).
       Inr (w\<lparr>lw_log := l, lw_flights := lw_flights w @ new\<rparr>))"
| "log_event_run (Ev_arrive i) w =
     (let c = lw_flights w ! i; l = lw_log w in
      rbind (fetch_cb True c (fetch_arrive (read_blocks (lw_dev w) l c) c l)) (\<lambda>(l', rd).
        Inr (w\<lparr>lw_log := l', lw_flights := (take i (lw_flights w) @ drop (Suc i) (lw_flights w)) @ opt_list rd\<rparr>)))"
| "log_event_run (Ev_fail i) w =
     (let c = lw_flights w ! i in
      rbind (fetch_cb False c (lw_log w)) (\<lambda>(l', rd).
        Inr (w\<lparr>lw_log := l', lw_flights := (take i (lw_flights w) @ drop (Suc i) (lw_flights w)) @ opt_list rd\<rparr>)))"

text \<open>
  What the callers of the log keep to: vectors are aligned and no longer than the log,
  a trim stays within the window and leaves the log at least as long as the window unless
  the window holds all of it (the compactors start far above that length), and callbacks
  come for reads in flight.
\<close>

definition log_event_ok :: "'b log_event \<Rightarrow> 'b log_world \<Rightarrow> bool" where
  "log_event_ok ev w =
     (let l = lw_log w in
      case ev of
        Ev_append vs \<Rightarrow> iov_aligned vs \<and> length (iov_data vs) \<le> unat (l_size l)
      | Ev_trim n \<Rightarrow> unat n \<le> wlen (l_fetch l) \<and>
          (wlen (l_fetch l) = llen l \<or> unat (f_size (l_fetch l)) - 1 \<le> llen l - unat n)
      | Ev_arrive i \<Rightarrow> i < length (lw_flights w)
      | Ev_fail i \<Rightarrow> i < length (lw_flights w))"

definition world_inv :: "'b log_world \<Rightarrow> bool" where
  "world_inv w \<longleftrightarrow> log_inv (lw_dev w) (lw_log w) (lw_flights w) \<and> window_sync (lw_log w)"

definition world_blocks :: "'b log_world \<Rightarrow> 'b list" where
  "world_blocks w = log_blocks (lw_dev w) (lw_log w)"

text \<open>The specification: a bounded list.\<close>

fun spec_event :: "nat \<Rightarrow> 'b log_event \<Rightarrow> 'b list \<Rightarrow> 'b list" where
  "spec_event cap (Ev_append vs) xs =
     (if length xs + length (iov_data vs) \<le> cap then xs @ iov_data vs else xs)"
| "spec_event cap (Ev_trim n) xs = drop (unat n) xs"
| "spec_event cap (Ev_arrive i) xs = xs"
| "spec_event cap (Ev_fail i) xs = xs"

definition world_cap :: "'b log_world \<Rightarrow> nat" where
  "world_cap w = unat (l_size (lw_log w)) - 1"

lemma world_append_step:
  assumes inv: "world_inv w" and ok: "log_event_ok (Ev_append vs) w"
  shows "\<exists>w'. log_event_run (Ev_append vs) w = Inr w' \<and> world_inv w' \<and> world_cap w' = world_cap w \<and>
     world_blocks w' = spec_event (world_cap w) (Ev_append vs) (world_blocks w)"
proof -
  let ?l = "lw_log w"
  have li: "log_inv (lw_dev w) ?l (lw_flights w)" and sy: "window_sync ?l" and wf: "log_wf ?l"
    and win: "window_inv (lw_dev w) ?l"
    using inv by (auto simp: world_inv_def log_inv_def)
  have al: "iov_aligned vs" and le: "length (iov_data vs) \<le> unat (l_size ?l)" using ok by (auto simp: log_event_ok_def Let_def)
  note sz = log_wf_size[OF wf]
  show ?thesis
  proof (cases "llen ?l + length (iov_data vs) < unat (l_size ?l)")
    case True
    obtain ios where r: "kv_circular_log_appendv ?l vs = Inr (append_state ?l vs, Iov_issued ios)"
      "\<forall>dev. exec_ios ios dev = circ_write dev (unat (l_base ?l)) (unat (l_size ?l)) (unat (l_tail ?l)) (iov_data vs)"
      using appendv_eq[OF wf al True] by blast
    have "world_inv (w\<lparr>lw_dev := exec_ios ios (lw_dev w), lw_log := append_state ?l vs\<rparr>)"
      using append_inv[OF li sy True] append_window[OF wf True win sy] r(2) by (simp add: world_inv_def)
    then show ?thesis using True r log_blocks_append[OF wf True, of "lw_dev w"]
      by (auto simp: world_blocks_def world_cap_def append_state_def copy_to_fetch_buf_frame)
  next
    case False
    then have "kv_circular_log_appendv ?l vs = Inr (?l, Iov_no_space)"
      using appendv_no_space[OF wf al _ le] by simp
    then show ?thesis using False inv sz by (auto simp: world_blocks_def world_cap_def)
  qed
qed

lemma sync_mono:
  assumes "log_inv dev l' cs'" and "llen l' = llen l \<and> f_size (l_fetch l') = f_size (l_fetch l)"
    and "wlen (l_fetch l) \<le> wlen (l_fetch l')" and "log_inv dev l cs" and "window_sync l"
  shows "window_sync l'"
  using assms(2,3,5) window_sync_iff[OF assms(1)] window_sync_iff[OF assms(4)] assms(1)
  by (auto simp: log_inv_def window_inv_def Let_def)

lemma world_trim_step:
  assumes inv: "world_inv w" and ok: "log_event_ok (Ev_trim n) w"
  shows "\<exists>w'. log_event_run (Ev_trim n) w = Inr w' \<and> world_inv w' \<and> world_cap w' = world_cap w \<and>
     world_blocks w' = drop (unat n) (world_blocks w)"
proof -
  let ?l = "lw_log w"
  have li: "log_inv (lw_dev w) ?l (lw_flights w)" using inv by (simp add: world_inv_def)
  have n: "unat n \<le> wlen (l_fetch ?l)"
    and d: "wlen (l_fetch ?l) = llen ?l \<or> unat (f_size (l_fetch ?l)) - 1 \<le> llen ?l - unat n"
    using ok by (auto simp: log_event_ok_def Let_def)
  obtain l' new where r: "kv_circular_log_move_head ?l n = Inr (l', new)"
    "log_inv (lw_dev w) l' (lw_flights w @ new)" "log_frame (trimmed ?l n) l'"
    "wlen (l_fetch ?l) - unat n \<le> wlen (l_fetch l')"
    using move_head_inv[OF li n] by blast
  note t = trimmed_inv[OF li n]
  have "llen l' = llen (trimmed ?l n)" using r(3) by (simp add: log_frame_def)
  then have ll: "llen l' = llen ?l - unat n" using t by linarith
  have fs: "f_size (l_fetch l') = f_size (l_fetch ?l)" using r(3) by (simp add: log_frame_def trimmed_def)
  have "wlen (l_fetch l') \<le> llen l'" using r(2) by (auto simp: log_inv_def window_inv_def Let_def)
  then have "window_sync l'"
    using d r(4) ll fs window_sync_iff[OF r(2)] by auto
  moreover have "log_blocks (lw_dev w) l' = drop (unat n) (log_blocks (lw_dev w) ?l)"
    using log_frame_blocks[OF r(3)] t by simp
  moreover have "l_size l' = l_size ?l" using r(3) by (simp add: log_frame_def trimmed_def)
  ultimately show ?thesis using r(1,2) by (simp add: world_inv_def world_blocks_def world_cap_def)
qed

lemma world_arrive_step:
  assumes inv: "world_inv w" and i: "i < length (lw_flights w)"
  shows "\<exists>w'. log_event_run (Ev_arrive i) w = Inr w' \<and> world_inv w' \<and> world_cap w' = world_cap w \<and>
     world_blocks w' = world_blocks w"
proof -
  let ?l = "lw_log w" and ?c = "lw_flights w ! i"
  have e: "lw_flights w = take i (lw_flights w) @ ?c # drop (Suc i) (lw_flights w)"
    using i by (simp add: id_take_nth_drop)
  have li: "log_inv (lw_dev w) ?l (take i (lw_flights w) @ ?c # drop (Suc i) (lw_flights w))"
    and sy: "window_sync ?l"
    using inv e by (auto simp: world_inv_def)
  obtain l' rd where r: "fetch_cb True ?c (fetch_arrive (read_blocks (lw_dev w) ?l ?c) ?c ?l) = Inr (l', rd)"
    "log_inv (lw_dev w) l' ((take i (lw_flights w) @ drop (Suc i) (lw_flights w)) @ opt_list rd)"
    "log_frame ?l l'" "wlen (l_fetch ?l) \<le> wlen (l_fetch l')"
    using fetch_cb_arrival[OF li] by blast
  have "llen l' = llen ?l \<and> f_size (l_fetch l') = f_size (l_fetch ?l)" using r(3) by (simp add: log_frame_def)
  then have "window_sync l'" using sync_mono[OF r(2) _ r(4) li sy] by simp
  moreover have "l_size l' = l_size ?l" using r(3) by (simp add: log_frame_def)
  ultimately show ?thesis using r(1,2) log_frame_blocks[OF r(3)]
    by (simp add: world_inv_def world_blocks_def world_cap_def Let_def)
qed

lemma log_inv_perm:
  assumes "log_inv dev l (xs @ c # ys)"
  shows "log_inv dev l ((xs @ ys) @ [c])"
  using assms by (auto simp: log_inv_def flights_ok_def sorted_wrt_append apart_def)

lemma world_fail_step:
  assumes inv: "world_inv w" and i: "i < length (lw_flights w)"
  shows "\<exists>w'. log_event_run (Ev_fail i) w = Inr w' \<and> world_inv w' \<and> world_cap w' = world_cap w \<and>
     world_blocks w' = world_blocks w"
proof -
  let ?l = "lw_log w" and ?c = "lw_flights w ! i"
  have e: "lw_flights w = take i (lw_flights w) @ ?c # drop (Suc i) (lw_flights w)"
    using i by (simp add: id_take_nth_drop)
  have li: "log_inv (lw_dev w) ?l (lw_flights w)" using inv by (simp add: world_inv_def)
  have r: "fetch_cb False ?c ?l = Inr (?l, Some ?c)" using fetch_cb_failure[OF li] i by simp
  have "log_inv (lw_dev w) ?l ((take i (lw_flights w) @ drop (Suc i) (lw_flights w)) @ [?c])"
    using log_inv_perm li e by metis
  then show ?thesis using r inv by (simp add: world_inv_def world_blocks_def world_cap_def Let_def)
qed

lemma world_step:
  assumes "world_inv w" and "log_event_ok ev w"
  shows "\<exists>w'. log_event_run ev w = Inr w' \<and> world_inv w' \<and> world_cap w' = world_cap w \<and>
     world_blocks w' = spec_event (world_cap w) ev (world_blocks w)"
proof (cases ev)
  case (Ev_append vs)
  then show ?thesis using world_append_step assms by blast
next
  case (Ev_trim n)
  then show ?thesis using world_trim_step assms by simp
next
  case (Ev_arrive i)
  then show ?thesis using world_arrive_step assms by (simp add: log_event_ok_def)
next
  case (Ev_fail i)
  then show ?thesis using world_fail_step assms by (simp add: log_event_ok_def)
qed

text \<open>Runs of events, as an inductive relation.\<close>

inductive log_steps :: "'b log_world \<Rightarrow> 'b log_event list \<Rightarrow> 'b log_world \<Rightarrow> bool" where
  log_steps_refl: "log_steps w [] w"
| log_steps_step: "log_event_ok ev w \<Longrightarrow> log_event_run ev w = Inr w' \<Longrightarrow> log_steps w' evs w'' \<Longrightarrow>
    log_steps w (ev # evs) w''"

inductive_cases log_steps_ConsE: "log_steps w (ev # evs) w'"
inductive_simps log_steps_Nil: "log_steps w [] w'"

lemma log_steps_inv:
  assumes "log_steps w evs w'" and "world_inv w"
  shows "world_inv w' \<and> world_cap w' = world_cap w \<and>
     world_blocks w' = fold (spec_event (world_cap w)) evs (world_blocks w)"
  using assms
proof (induction rule: log_steps.induct)
  case (log_steps_refl w)
  then show ?case by simp
next
  case (log_steps_step ev w w' evs w'')
  then show ?case using world_step[of w ev] by auto
qed

text \<open>A fresh log: no window, and a region and a buffer that fit the address space.\<close>

definition log_init_ok :: "'b kv_circular_log \<Rightarrow> bool" where
  "log_init_ok l \<longleftrightarrow> log_wf l \<and> l_head l = l_tail l"

definition fresh_world :: "(nat \<Rightarrow> 'b) \<Rightarrow> 'b kv_circular_log \<Rightarrow> 'b log_world" where
  "fresh_world dev l = \<lparr>lw_dev = dev, lw_log = l, lw_flights = []\<rparr>"

lemma fresh_world_inv:
  fixes bs sz p nbuf flen addr b :: u64
  assumes "log_wf (kv_circular_log_init bs thr b sz p p nbuf flen addr buf)"
  shows "world_inv (fresh_world dev (kv_circular_log_init bs thr b sz p p nbuf flen addr buf))"
proof -
  let ?l = "kv_circular_log_init bs thr b sz p p nbuf flen addr buf"
  have f: "l_fetch ?l = \<lparr>fetch_len = flen, f_head = 0, f_tail = 0, f_tail1 = 0, f_size = nbuf + 1,
      f_addr = addr, f_buffer = buf, f_valid = replicate (unat (nbuf + 1)) False\<rparr>"
    and ht: "l_head ?l = p" "l_tail ?l = p"
    by (simp_all add: kv_circular_log_init_def)
  have "window_inv dev ?l" by (simp add: window_inv_def Let_def f)
  moreover have "window_sync ?l" by (simp add: window_sync_def f ht)
  ultimately show ?thesis using assms
    by (simp add: world_inv_def fresh_world_def log_inv_def flights_ok_def)
qed

section \<open>The interface of the log: blocks at stable offsets\<close>

definition block_at :: "nat \<Rightarrow> nat \<Rightarrow> 'b list \<Rightarrow> nat \<Rightarrow> 'b option" where
  "block_at sz org xs off =
     (let k = circ_dist sz org off in if k < length xs then Some (xs ! k) else None)"

locale block_log =
  fixes inv :: "'s \<Rightarrow> bool"
    and contents :: "'s \<Rightarrow> 'b list"
    and origin :: "'s \<Rightarrow> nat"
    and size_of :: "'s \<Rightarrow> nat"
    and data :: "'v \<Rightarrow> 'b list"
    and append :: "'v \<Rightarrow> 's \<Rightarrow> 's option"
    and trim :: "nat \<Rightarrow> 's \<Rightarrow> 's option"
  assumes bounded: "inv s \<Longrightarrow> length (contents s) < size_of s \<and> origin s < size_of s"
    and append_law: "inv s \<Longrightarrow> append v s = Some s' \<Longrightarrow>
      inv s' \<and> contents s' = contents s @ data v \<and> origin s' = origin s \<and> size_of s' = size_of s"
    and trim_law: "inv s \<Longrightarrow> trim n s = Some s' \<Longrightarrow>
      inv s' \<and> n \<le> length (contents s) \<and> contents s' = drop n (contents s) \<and>
      origin s' = (origin s + n) mod size_of s \<and> size_of s' = size_of s"
begin

abbreviation at_offset :: "'s \<Rightarrow> nat \<Rightarrow> 'b option" where
  "at_offset s off \<equiv> block_at (size_of s) (origin s) (contents s) off"

lemma append_keeps:
  assumes "inv s" and "append v s = Some s'" and "at_offset s off = Some b"
  shows "at_offset s' off = Some b"
  using append_law[OF assms(1,2)] assms(3)
  by (auto simp: block_at_def Let_def nth_append split: if_splits)

lemma append_new:
  assumes "inv s" and "append v s = Some s'" and "i < length (data v)"
  shows "at_offset s' ((origin s + (length (contents s) + i)) mod size_of s) = Some (data v ! i)"
proof -
  note l = append_law[OF assms(1,2)]
  have "length (contents s) + length (data v) < size_of s" using l bounded[of s'] by auto
  then have "circ_dist (size_of s) (origin s) ((origin s + (length (contents s) + i)) mod size_of s) =
      length (contents s) + i"
    using assms(3) bounded[OF assms(1)] by (intro circ_dist_add) auto
  then show ?thesis using l assms(3) by (simp add: block_at_def)
qed

lemma trim_keeps:
  assumes "inv s" and "trim n s = Some s'" and "off < size_of s"
    and "n \<le> circ_dist (size_of s) (origin s) off"
  shows "at_offset s' off = at_offset s off"
proof -
  note l = trim_law[OF assms(1,2)]
  have "circ_dist (size_of s) ((origin s + n) mod size_of s) off = circ_dist (size_of s) (origin s) off - n"
    using bounded[OF assms(1)] assms(3,4) by (intro circ_dist_advance_head) auto
  then show ?thesis using l assms(4) by (auto simp: block_at_def Let_def)
qed

lemma trim_drops:
  assumes "inv s" and "trim n s = Some s'" and "off < size_of s"
    and "circ_dist (size_of s) (origin s) off < n"
  shows "at_offset s' off = None"
proof -
  note l = trim_law[OF assms(1,2)] and b = bounded[OF assms(1)]
  let ?d = "circ_dist (size_of s) (origin s) off"
  have n: "n \<le> length (contents s)" using l by blast
  have "circ_dist (size_of s) ((origin s + n) mod size_of s) ((origin s + ?d) mod size_of s) = size_of s - n + ?d"
    using circ_dist_from_tail[of "origin s" "size_of s" "(origin s + n) mod size_of s" ?d]
      circ_dist_add[of "origin s" "size_of s" n] b n assms(4) by auto
  moreover have "(origin s + ?d) mod size_of s = off" using b assms(3) by (intro circ_add_dist) auto
  ultimately show ?thesis using l b n by (auto simp: block_at_def Let_def)
qed

end

text \<open>The model's own appends and trims provide it.\<close>

definition world_append :: "'b iovec list \<Rightarrow> 'b log_world \<Rightarrow> 'b log_world option" where
  "world_append vs w =
     (if log_event_ok (Ev_append vs) w \<and> unat (log_length (lw_log w)) + length (iov_data vs) \<le> world_cap w
      then case log_event_run (Ev_append vs) w of Inr w' \<Rightarrow> Some w' | Inl _ \<Rightarrow> None
      else None)"

definition world_trim :: "nat \<Rightarrow> 'b log_world \<Rightarrow> 'b log_world option" where
  "world_trim n w =
     (if n < 2 ^ 62 \<and> log_event_ok (Ev_trim (word_of_nat n)) w
      then case log_event_run (Ev_trim (word_of_nat n)) w of Inr w' \<Rightarrow> Some w' | Inl _ \<Rightarrow> None
      else None)"

definition world_origin :: "'b log_world \<Rightarrow> nat" where
  "world_origin w = unat (l_head (lw_log w))"

definition world_size :: "'b log_world \<Rightarrow> nat" where
  "world_size w = unat (l_size (lw_log w))"

lemma append_head:
  assumes "kv_circular_log_appendv l vs = Inr (l', r)"
  shows "l_head l' = l_head l \<and> l_size l' = l_size l"
  using assms
  by (auto simp: kv_circular_log_appendv_def kv_circular_log_iov_def res_simps Let_def
      copy_to_fetch_buf_frame split: if_splits)

lemma append_event_head:
  assumes "log_event_run (Ev_append vs) w = Inr w'"
  shows "l_head (lw_log w') = l_head (lw_log w) \<and> l_size (lw_log w') = l_size (lw_log w)"
proof (cases "kv_circular_log_appendv (lw_log w) vs")
  case (Inr p)
  then show ?thesis using assms append_head[of "lw_log w" vs "fst p" "snd p"]
    by (cases p; cases "snd p") auto
qed (use assms in simp)

interpretation clog: block_log world_inv world_blocks world_origin world_size iov_data world_append world_trim
proof
  fix s :: "'b log_world"
  assume inv: "world_inv s"
  then have wf: "log_wf (lw_log s)" by (simp add: world_inv_def log_inv_def)
  then show "length (world_blocks s) < world_size s \<and> world_origin s < world_size s"
    using log_wf_size[OF wf] by (simp add: world_blocks_def world_size_def world_origin_def log_wf_def)
  fix v s'
  assume a: "world_append v s = Some s'"
  then have ok: "log_event_ok (Ev_append v) s" "llen (lw_log s) + length (iov_data v) \<le> world_cap s"
    and run: "log_event_run (Ev_append v) s = Inr s'"
    using unat_log_length[OF wf] by (auto simp: world_append_def split: if_splits sum.splits)
  have "l_head (lw_log s') = l_head (lw_log s) \<and> l_size (lw_log s') = l_size (lw_log s)"
    by (rule append_event_head[OF run])
  then show "world_inv s' \<and> world_blocks s' = world_blocks s @ iov_data v \<and>
      world_origin s' = world_origin s \<and> world_size s' = world_size s"
    using world_append_step[OF inv ok(1)] ok(2) run
    by (simp add: world_blocks_def world_origin_def world_size_def)
next
  fix s s' :: "'b log_world" and n
  assume inv: "world_inv s" and a: "world_trim n s = Some s'"
  let ?n = "word_of_nat n :: u64"
  have un: "unat ?n = n" using a by (intro unat_of_nat_u64) (auto simp: world_trim_def split: if_splits)
  have ok: "log_event_ok (Ev_trim ?n) s" and run: "log_event_run (Ev_trim ?n) s = Inr s'"
    using a by (auto simp: world_trim_def split: if_splits sum.splits)
  have li: "log_inv (lw_dev s) (lw_log s) (lw_flights s)" using inv by (simp add: world_inv_def)
  have nw: "unat ?n \<le> wlen (l_fetch (lw_log s))" using ok by (simp add: log_event_ok_def Let_def)
  have fr: "log_frame (trimmed (lw_log s) ?n) (lw_log s')"
    using move_head_inv[OF li nw] run by (auto simp: res_simps)
  have "n \<le> llen (lw_log s)"
    using nw un li by (auto simp: log_inv_def window_inv_def Let_def)
  then show "world_inv s' \<and> n \<le> length (world_blocks s) \<and> world_blocks s' = drop n (world_blocks s) \<and>
      world_origin s' = (world_origin s + n) mod world_size s \<and> world_size s' = world_size s"
    using world_trim_step[OF inv ok] run un fr trimmed_inv[OF li nw]
    by (simp add: world_blocks_def world_origin_def world_size_def log_frame_def trimmed_def del: unat_mod)
qed

section \<open>Offsets along runs\<close>

abbreviation world_at :: "'b log_world \<Rightarrow> nat \<Rightarrow> 'b option" where
  "world_at w off \<equiv> block_at (world_size w) (world_origin w) (world_blocks w) off"

fun event_trims :: "'b log_event \<Rightarrow> nat" where
  "event_trims (Ev_trim n) = unat n"
| "event_trims ev = 0"

lemma read_event_frame:
  assumes "world_inv w" and "log_event_ok ev w" and "log_event_run ev w = Inr w'"
    and "\<exists>i. ev = Ev_arrive i \<or> ev = Ev_fail i"
  shows "world_blocks w' = world_blocks w \<and> world_size w' = world_size w \<and> world_origin w' = world_origin w"
proof -
  from assms(4) obtain i where ev: "ev = Ev_arrive i \<or> ev = Ev_fail i" by blast
  have i: "i < length (lw_flights w)" using ev assms(2) by (auto simp: log_event_ok_def Let_def)
  have li: "log_inv (lw_dev w) (lw_log w) (take i (lw_flights w) @ (lw_flights w ! i) # drop (Suc i) (lw_flights w))"
    using assms(1) i by (simp add: world_inv_def flip: id_take_nth_drop)
  have c: "fetch_cb False (lw_flights w ! i) (lw_log w) = Inr (lw_log w, Some (lw_flights w ! i))"
    using fetch_cb_failure[OF li] by simp
  have "log_frame (lw_log w) (lw_log w')"
    using ev assms(3) fetch_cb_arrival[OF li] c by (auto simp: Let_def)
  moreover have "world_blocks w' = world_blocks w"
    using world_step[OF assms(1,2)] assms(3) ev by auto
  ultimately show ?thesis by (simp add: world_size_def world_origin_def log_frame_def)
qed

lemma event_keeps:
  assumes inv: "world_inv w" and ok: "log_event_ok ev w" and run: "log_event_run ev w = Inr w'"
    and b: "world_at w off = Some b" and off: "off < world_size w"
    and t: "event_trims ev \<le> circ_dist (world_size w) (world_origin w) off"
  shows "world_at w' off = Some b \<and> world_size w' = world_size w \<and>
     circ_dist (world_size w') (world_origin w') off = circ_dist (world_size w) (world_origin w) off - event_trims ev"
proof (cases ev)
  case (Ev_append vs)
  show ?thesis
  proof (cases "world_append vs w")
    case None
    then have "\<not> llen (lw_log w) + length (iov_data vs) \<le> world_cap w"
      using ok run Ev_append unat_log_length[of "lw_log w"] inv
      by (auto simp: world_append_def world_inv_def log_inv_def split: if_splits)
    then have "world_blocks w' = world_blocks w"
      using world_step[OF inv ok] run Ev_append by (auto simp: world_blocks_def)
    then show ?thesis using append_event_head[of vs w w'] run b Ev_append
      by (simp add: world_size_def world_origin_def)
  next
    case (Some u)
    then have "u = w'" using run Ev_append by (auto simp: world_append_def split: if_splits)
    then show ?thesis using clog.append_keeps[OF inv Some b] clog.append_law[OF inv Some] Ev_append by simp
  qed
next
  case (Ev_trim n)
  have un: "word_of_nat (unat n) = n" by simp
  have "wlen (l_fetch (lw_log w)) < 2 ^ 62"
  proof -
    have f: "fetch_wf (l_block_size (lw_log w)) (l_fetch (lw_log w))"
      using inv by (simp add: world_inv_def log_inv_def log_wf_def)
    show ?thesis using fetch_wf_size[OF f]
        circ_dist_less[of "unat (f_size (l_fetch (lw_log w)))" "unat (f_head (l_fetch (lw_log w)))" "unat (f_tail (l_fetch (lw_log w)))"]
      by linarith
  qed
  then have "unat n < 2 ^ 62" using ok Ev_trim by (simp add: log_event_ok_def Let_def)
  then have tr: "world_trim (unat n) w = Some w'" using ok run Ev_trim un by (simp add: world_trim_def)
  have n: "unat n \<le> circ_dist (world_size w) (world_origin w) off" using t Ev_trim by simp
  note l = clog.trim_law[OF inv tr]
  have "circ_dist (world_size w) ((world_origin w + unat n) mod world_size w) off =
      circ_dist (world_size w) (world_origin w) off - unat n"
    using clog.bounded[OF inv] off n by (intro circ_dist_advance_head) auto
  then show ?thesis using clog.trim_keeps[OF inv tr off n] l b Ev_trim by simp
next
  case (Ev_arrive i)
  then show ?thesis using read_event_frame[OF inv ok run] b by simp
next
  case (Ev_fail i)
  then show ?thesis using read_event_frame[OF inv ok run] b by simp
qed

lemma log_steps_keep:
  assumes "log_steps w evs w'" and "world_inv w" and "world_at w off = Some b" and "off < world_size w"
    and "sum_list (map event_trims evs) \<le> circ_dist (world_size w) (world_origin w) off"
  shows "world_at w' off = Some b"
  using assms
proof (induction rule: log_steps.induct)
  case (log_steps_refl w)
  then show ?case by simp
next
  case (log_steps_step ev w w' evs w'')
  have "world_at w' off = Some b \<and> world_size w' = world_size w \<and>
     circ_dist (world_size w') (world_origin w') off = circ_dist (world_size w) (world_origin w) off - event_trims ev"
    using log_steps_step by (intro event_keeps) auto
  moreover have "world_inv w'" using world_step[of w ev] log_steps_step by auto
  ultimately show ?case using log_steps_step by auto
qed

section \<open>Reads of the device\<close>

text \<open>The data a request brings back, and that its block count is the length of its vector.\<close>

fun io_data :: "(nat \<Rightarrow> 'b) \<Rightarrow> 'b device_io \<Rightarrow> 'b list" where
  "io_data dev (Storage_read vs off n) = map dev [unat off..<unat off + unat n]"
| "io_data dev (Storage_write vs off n) = []"

fun io_matches :: "'b device_io \<Rightarrow> bool" where
  "io_matches (Storage_read vs off n) \<longleftrightarrow> length (iov_data vs) = unat n"
| "io_matches (Storage_write vs off n) \<longleftrightarrow> length (iov_data vs) = unat n"

lemma map_dev_shift: "map dev [a..<a + n] = map (\<lambda>k. dev (a + k)) [0..<n]"
  by (rule nth_equalityI) simp_all

lemma circ_read_one:
  assumes "off + n \<le> sz" and "0 < (sz :: nat)"
  shows "map dev [b + off..<b + off + n] = map (\<lambda>k. dev (b + (off + k) mod sz)) [0..<n]"
  unfolding map_dev_shift using assms by (intro map_cong) (auto simp: add.assoc)

lemma circ_read_two:
  assumes "off < sz" and "n \<le> sz" and "sz - off \<le> n"
  shows "map dev [b + off..<b + off + (sz - off)] @ map dev [b..<b + (n - (sz - off))] =
     map (\<lambda>k. dev (b + (off + k) mod sz)) [0..<n]"
proof (rule nth_equalityI)
  fix i assume "i < length (map dev [b + off..<b + off + (sz - off)] @ map dev [b..<b + (n - (sz - off))])"
  then have i: "i < n" using assms by simp
  show "(map dev [b + off..<b + off + (sz - off)] @ map dev [b..<b + (n - (sz - off))]) ! i =
      map (\<lambda>k. dev (b + (off + k) mod sz)) [0..<n] ! i"
  proof (cases "i < sz - off")
    case True
    then show ?thesis using i by (simp add: nth_append add.assoc)
  next
    case False
    then have "(off + i) mod sz = off + i - sz" using assms i mod_add_cases[of off sz i] by auto
    moreover have "i - (sz - off) = off + i - sz" using False assms by simp
    ultimately show ?thesis using False i assms by (simp add: nth_append)
  qed
qed (use assms in simp)

lemma iov_requests_read:
  fixes b off sz :: u64
  assumes "split_done bs (unat (sz - off)) (length vs) vs st"
    and "unat off < unat sz" and "length (iov_data vs) \<le> unat sz" and "unat b + unat sz < 2 ^ 64"
  defines "ios \<equiv> iov_requests Storage_read b off (sz - off) (length vs) st"
  shows "concat (map (io_data dev) ios) =
      map (\<lambda>k. dev (unat b + (unat off + k) mod unat sz)) [0..<length (iov_data vs)] \<and> list_all io_matches ios"
proof -
  let ?D = "iov_data vs"
  have r: "unat (sz - off) = unat sz - unat off" using assms(2) by (simp add: unat_sub_le)
  have bo: "unat (b + off) = unat b + unat off" using assms(2,4) by (simp add: unat_add_less)
  have n: "sp_n st = word_of_nat (length ?D)" using assms(1) by (simp add: split_done_def)
  have un: "unat (sp_n st) = length ?D"
    unfolding n using assms(3,4) by (intro unat_of_nat_u64) linarith
  note sp = assms(1)[unfolded split_done_def]
  show ?thesis
  proof (cases "sp_blocks2 st")
    case None
    then have d: "iov_data (take (length vs) (sp_blocks st)) = ?D" "length ?D \<le> unat (sz - off)"
      using sp by (auto split: if_splits)
    then show ?thesis using None assms(2) r bo un circ_read_one[of "unat off" "length ?D" "unat sz" dev "unat b"]
      by (simp add: ios_def iov_requests_def)
  next
    case (Some p)
    then have d: "iov_data (take (sp_i2 st) (sp_blocks st)) = take (unat (sz - off)) ?D"
      "iov_data (drop p (sp_blocks st)) = drop (unat (sz - off)) ?D" "unat (sz - off) \<le> length ?D"
      using sp by (auto split: if_splits)
    have "unat (sp_n st - (sz - off)) = length ?D - unat (sz - off)"
      using d(3) un by (simp add: unat_sub_le)
    then show ?thesis using Some d assms(2,3) r bo circ_read_two[of "unat off" "unat sz" "length ?D" dev "unat b"]
      by (simp add: ios_def iov_requests_def)
  qed
qed

lemma readv_eq:
  assumes wf: "log_wf l" and al: "iov_aligned vs" and k: "k < llen l"
    and n: "k + length (iov_data vs) \<le> llen l"
    and off: "unat off = (unat (l_head l) + k) mod unat (l_size l)"
  shows "\<exists>ios. kv_circular_log_readv l off vs = Inr (l, Iov_issued ios) \<and> list_all io_matches ios \<and>
     concat (map (io_data dev) ios) = take (length (iov_data vs)) (drop k (log_blocks dev l))"
proof -
  let ?S = "unat (l_size l)"
  note sz = log_wf_size[OF wf]
  have b: "unat (l_head l) < ?S" "unat (l_tail l) < ?S" "unat (l_base l) + ?S < 2 ^ 64" using wf by (auto simp: log_wf_def)
  have lS: "llen l < ?S" using sz by simp
  have fo: "unat off < ?S" using off sz by simp
  have dS: "length (iov_data vs) \<le> ?S" using n lS by linarith
  obtain st where st: "iov_split (l_block_size l) (l_size l - off) vs = Inr st"
    "split_done (l_block_size l) (unat (l_size l - off)) (length vs) vs st"
    "unat (sp_n st) = length (iov_data vs)"
    using log_wf_split[OF wf al dS fo] .
  have "unat ((l_size l + off - l_head l) mod l_size l) = circ_dist ?S (unat (l_head l)) (unat off)"
    using b sz fo by (intro unat_circ_dist) simp_all
  also have "\<dots> = k" unfolding off using b(1) less_trans[OF k lS] by (intro circ_dist_add)
  finally have a1: "(l_size l + off - l_head l) mod l_size l < log_length l"
    using k unat_log_length[OF wf] by (simp only: word_less_nat_alt)
  have "unat ((l_size l + l_tail l - off) mod l_size l) = circ_dist ?S (unat off) (unat (l_tail l))"
    using b sz fo by (intro unat_circ_dist) auto
  also have "\<dots> = llen l - k" unfolding off using b k by (intro circ_dist_advance_head) auto
  finally have a2: "(l_size l + l_tail l - off) mod l_size l \<ge> sp_n st"
    using st(3) n by (simp only: word_le_nat_alt)
  let ?ios = "iov_requests Storage_read (l_base l) off (l_size l - off) (length vs) st"
  have rd: "concat (map (io_data dev) ?ios) =
      map (\<lambda>k. dev (unat (l_base l) + (unat off + k) mod ?S)) [0..<length (iov_data vs)] \<and> list_all io_matches ?ios"
    by (rule iov_requests_read[OF st(2) fo dS b(3)])
  have "map (\<lambda>j. dev (unat (l_base l) + (unat off + j) mod ?S)) [0..<length (iov_data vs)] =
      take (length (iov_data vs)) (drop k (log_blocks dev l))"
    by (rule nth_equalityI) (use n in \<open>simp_all add: log_blocks_def off mod_add_left_eq add.assoc\<close>)
  then show ?thesis using st(1) a1 a2 rd
    by (simp add: kv_circular_log_readv_def kv_circular_log_iov_def Let_def)
qed

section \<open>Vectors into the prefetch window\<close>

lemma buffer_iov_blocks:
  assumes inv: "log_inv dev l cs" and k: "k + n \<le> wlen (l_fetch l)"
    and pos: "unat pos = (unat (f_head (l_fetch l)) + k) mod unat (f_size (l_fetch l))"
    and len: "unat len = n" "unat pos + n \<le> unat (f_size (l_fetch l))"
  shows "iov_blocks (buffer_iov l pos len) = take n (drop k (log_blocks dev l))"
proof (rule nth_equalityI)
  let ?f = "l_fetch l"
  have wf: "log_wf l" and win: "window_inv dev l" using inv by (auto simp: log_inv_def)
  have fwf: "fetch_wf (l_block_size l) ?f" using wf by (simp add: log_wf_def)
  have w: "wlen ?f \<le> wlen1 ?f" "wlen1 ?f \<le> llen l" using win by (auto simp: window_inv_def Let_def)
  have ln: "length (iov_blocks (buffer_iov l pos len)) = n"
    using buffer_iov_len[OF _ fwf, of pos len] len by simp
  show "length (iov_blocks (buffer_iov l pos len)) = length (take n (drop k (log_blocks dev l)))"
    using ln k w by simp
  fix i assume "i < length (iov_blocks (buffer_iov l pos len))"
  then have i: "i < n" using ln by simp
  have lb: "length (f_buffer ?f) = unat (f_size ?f) + 1" using fwf by (simp add: fetch_wf_def)
  have p: "unat pos + i = (unat (f_head ?f) + (k + i)) mod unat (f_size ?f)"
    using i len pos by (metis add.assoc add_less_cancel_left less_le_trans mod_add_left_eq mod_less)
  have "iov_blocks (buffer_iov l pos len) ! i = f_buffer ?f ! (unat pos + i)"
    using i len lb by (simp add: buffer_iov_def)
  also have "\<dots> = log_blocks dev l ! (k + i)"
    unfolding p using win i k w by (simp add: window_inv_def Let_def log_blocks_def)
  also have "\<dots> = take n (drop k (log_blocks dev l)) ! i" using i k w by simp
  finally show "iov_blocks (buffer_iov l pos len) ! i = take n (drop k (log_blocks dev l)) ! i" .
qed

text \<open>The runs of \<open>kv_circular_log_fetch\<close> that are not empty hold the blocks asked for.\<close>

lemma fetch_iov_correct:
  assumes inv: "log_inv dev l cs" and n: "0 < unat n" and k: "k + unat n \<le> wlen (l_fetch l)"
    and off: "unat off = (unat (l_head l) + k) mod unat (l_size l)"
  shows "\<exists>v0 v1. kv_circular_log_fetch_iov l off n = Inr (v0, v1) \<and>
    iov_data (takeWhile (\<lambda>v. iov_len v \<noteq> 0) [v0, v1]) = take (unat n) (drop k (log_blocks dev l)) \<and>
    (\<forall>v \<in> set (takeWhile (\<lambda>v. iov_len v \<noteq> 0) [v0, v1]). iov_base v AND 3 = 0 \<and> iov_blocks v \<noteq> [])"
proof -
  let ?f = "l_fetch l" and ?n = "unat n"
  let ?s = "unat (f_size ?f)" and ?h = "unat (f_head ?f)"
  have wf: "log_wf l" and win: "window_inv dev l" using inv by (auto simp: log_inv_def)
  have fwf: "fetch_wf (l_block_size l) ?f" using wf by (simp add: log_wf_def)
  note sz = fetch_wf_size[OF fwf]
  have b: "?h < ?s" "unat (f_tail ?f) < ?s" using fwf by (auto simp: fetch_wf_def)
  have w: "wlen ?f \<le> wlen1 ?f" "wlen1 ?f \<le> llen l" using win by (auto simp: window_inv_def Let_def)
  have ws: "wlen ?f < ?s" using sz by simp
  have kw: "k < wlen ?f" and kl: "k < llen l" using k n w by linarith+
  define o1 where "o1 = (l_size l - l_head l + off) mod l_size l"
  have o1: "unat o1 = k" unfolding o1_def by (rule fetch_pos[OF inv kl off])
  have lt: "o1 < fetch_length ?f" using kw o1 unat_fetch_length[OF fwf] by (simp only: word_less_nat_alt)
  define o2 where "o2 = (f_head ?f + o1) mod f_size ?f"
  have o2: "unat o2 = (?h + k) mod ?s"
  proof -
    have "?h + unat o1 < 2 ^ 64" unfolding o1 using b ws kw sz by (simp; linarith)
    then show ?thesis unfolding o2_def using o1 by (simp only: unat_add_mod)
  qed
  have o2s: "unat o2 < ?s" using o2 sz by simp
  have rest: "unat ((f_size ?f + f_tail ?f - o2) mod f_size ?f) = wlen ?f - k"
  proof -
    have "unat ((f_size ?f + f_tail ?f - o2) mod f_size ?f) = circ_dist ?s (unat o2) (unat (f_tail ?f))"
      using o2s b sz by (intro unat_circ_dist) auto
    then show ?thesis unfolding o2 using b kw by (simp add: circ_dist_advance_head)
  qed
  have ge: "(f_size ?f + f_tail ?f - o2) mod f_size ?f \<ge> n"
    using k rest by (simp only: word_le_nat_alt)
  have ns: "?n < ?s" using k ws by linarith
  have sum: "unat (o2 + n) = unat o2 + ?n" using o2s sz ns by (intro unat_add_less) simp
  define len0 where "len0 = (if o2 + n > f_size ?f then f_size ?f - o2 else n)"
  have cond: "o2 + n > f_size ?f \<longleftrightarrow> ?s < unat o2 + ?n" by (simp only: word_less_nat_alt sum)
  have len0: "unat len0 = (if ?s < unat o2 + ?n then ?s - unat o2 else ?n)"
    unfolding len0_def cond using o2s by (simp add: unat_sub_le)
  have pos: "0 < unat len0" "unat len0 \<le> ?n" "unat o2 + unat len0 \<le> ?s" using len0 o2s n by auto
  have l1: "unat (n - len0) = ?n - unat len0" using pos by (intro unat_sub_le) simp
  let ?v0 = "buffer_iov l o2 len0" and ?v1 = "buffer_iov l 0 (n - len0)"
  have eq: "kv_circular_log_fetch_iov l off n = Inr (?v0, ?v1)"
    using lt ge by (simp add: kv_circular_log_fetch_iov_def Let_def o1_def o2_def len0_def)
  have b0: "iov_blocks ?v0 = take (unat len0) (drop k (log_blocks dev l))"
    using buffer_iov_blocks[OF inv _ o2 refl] k pos by simp
  have b1: "iov_blocks ?v1 = take (?n - unat len0) (drop (k + unat len0) (log_blocks dev l))"
  proof (cases "?s < unat o2 + ?n")
    case True
    have "unat (0 :: u64) = (?h + (k + unat len0)) mod ?s"
      using True len0 o2 o2s by (metis add.assoc add_diff_inverse_nat less_imp_not_less mod_add_left_eq mod_self unat_0)
    moreover have "?n - unat len0 \<le> ?s" using k ws by linarith
    ultimately show ?thesis using buffer_iov_blocks[OF inv _ _ l1, of "k + unat len0" 0] k pos by simp
  next
    case False
    then show ?thesis using l1 len0 by (simp add: buffer_iov_def)
  qed
  have ll: "length (log_blocks dev l) \<ge> k + ?n" using k w by simp
  have e0: "iov_len ?v0 = 0 \<longleftrightarrow> iov_blocks ?v0 = []" and e1: "iov_len ?v1 = 0 \<longleftrightarrow> iov_blocks ?v1 = []"
    using ll pos l1 unsigned_less[of n] by (auto simp: iov_len_def b0 b1 word_unat_eq_iff unat_of_nat)
  have ne: "iov_blocks ?v0 \<noteq> []" using b0 pos ll by (auto simp: min_def)
  have cat: "iov_blocks ?v0 @ iov_blocks ?v1 = take ?n (drop k (log_blocks dev l))"
    unfolding b0 b1 using take_add[of "unat len0" "?n - unat len0" "drop k (log_blocks dev l)"] pos by (simp add: add.commute)
  show ?thesis using eq ne cat e0 e1 by (auto simp: buffer_iov_aligned[OF wf])
qed

section \<open>Where the callers' discipline matters\<close>

text \<open>
  An append after a trim that leaves the log shorter than the window, but longer than what
  the window has caught up with, is copied to the wrong place of the window: the log of ten
  blocks below answers offset 4 with the block appended last, at offset 6.
\<close>

definition stale_log :: "nat kv_circular_log" where
  "stale_log = kv_circular_log_init 512 0 0 16 0 0 4 2 4096 (replicate 6 0)"

definition stale_run :: "(nat \<times> nat kv_circular_log) res" where
  "stale_run =
     rbind (kv_circular_log_append stale_log \<lparr>iov_base = 0, iov_blocks = [10, 11, 12, 13, 14, 15]\<rparr>) (\<lambda>(l1, _).
     rbind (kv_circular_log_move_head l1 3) (\<lambda>(l2, _).
     rbind (kv_circular_log_append l2 \<lparr>iov_base = 0, iov_blocks = [16]\<rparr>) (\<lambda>(l3, _).
     rbind (kv_circular_log_fetch_one l3 4) (\<lambda>x. Inr (x, l3)))))"

theorem append_into_stale_window:
  "rbind stale_run (\<lambda>(x, l). Inr (x, l_head l, l_tail l)) = Inr (16, 3, 7)"
  by code_simp

text \<open>
  The callback of a vector that was split into two requests gets the flag of the request
  that completes last: a failure of the other one is lost.
\<close>

theorem split_failure_is_lost:
  "iov_cb False 2 = (1, None) \<and> iov_cb True (fst (iov_cb False 2)) = (0, Some True)"
  by (simp add: iov_cb_def)

section \<open>Properties\<close>

definition demo_log :: "nat kv_circular_log" where
  "demo_log = kv_circular_log_init 512 0 100 8 6 6 3 1 4096 (replicate 5 0)"

definition demo_iov :: "nat iovec list" where
  "demo_iov = [\<lparr>iov_base = 4, iov_blocks = [11, 12]\<rparr>, \<lparr>iov_base = 8, iov_blocks = [13]\<rparr>]"

lemma demo_log_wf: "log_wf demo_log"
  by (simp add: log_wf_def fetch_wf_def demo_log_def kv_circular_log_init_def)

lemma demo_append_ok: "world_size w = 8 \<Longrightarrow> log_event_ok (Ev_append demo_iov) w"
  by (simp add: log_event_ok_def demo_iov_def Let_def world_size_def)

text \<open>
  C1. Every run of the circular log, with appends, trims and prefetch completions and failures in
  any order, is a run of a list of at most \<open>size - 1\<close> blocks: an append that fits
  extends it, one that does not fit changes nothing, a trim drops its first blocks.
\<close>

theorem circular_log_refines_list:
  assumes "log_wf (kv_circular_log_init bs thr b sz p p nbuf flen addr buf)"
    and "log_steps (fresh_world dev (kv_circular_log_init bs thr b sz p p nbuf flen addr buf)) evs w"
  shows "world_blocks w = fold (spec_event (unat sz - 1)) evs []"
proof -
  let ?w = "fresh_world dev (kv_circular_log_init bs thr b sz p p nbuf flen addr buf)"
  have "world_blocks ?w = []" "world_cap ?w = unat sz - 1"
    by (simp_all add: world_blocks_def fresh_world_def log_blocks_def world_cap_def kv_circular_log_init_def)
  then show ?thesis using log_steps_inv[OF assms(2) fresh_world_inv[OF assms(1)]] by simp
qed

lemma demo_run:
  "\<exists>w. log_steps (fresh_world (\<lambda>_. 0) demo_log) [Ev_append demo_iov, Ev_append demo_iov] w"
proof -
  let ?w = "fresh_world (\<lambda>_. 0) demo_log :: nat log_world"
  have i: "world_inv ?w" unfolding demo_log_def
    by (rule fresh_world_inv[OF demo_log_wf[unfolded demo_log_def]])
  have o0: "log_event_ok (Ev_append demo_iov) ?w"
    by (rule demo_append_ok) (simp add: world_size_def fresh_world_def demo_log_def kv_circular_log_init_def)
  obtain w1 where w1: "log_event_run (Ev_append demo_iov) ?w = Inr w1" "world_inv w1"
    using world_step[OF i o0] by blast
  have "world_size w1 = 8"
    using append_event_head[OF w1(1)]
    by (simp add: world_size_def fresh_world_def demo_log_def kv_circular_log_init_def)
  then have o1: "log_event_ok (Ev_append demo_iov) w1" by (rule demo_append_ok)
  obtain w2 where "log_event_run (Ev_append demo_iov) w1 = Inr w2" using world_step[OF w1(2) o1] by blast
  then show ?thesis using o0 o1 w1(1) by (blast intro: log_steps.intros)
qed

theorem circular_log_refines_list_witness:
  "log_wf demo_log \<and>
   (\<exists>w. log_steps (fresh_world (\<lambda>_. 0) demo_log) [Ev_append demo_iov, Ev_append demo_iov] w \<and>
        world_blocks w = [11, 12, 13, 11, 12, 13])"
proof -
  obtain w where w: "log_steps (fresh_world (\<lambda>_. 0) demo_log) [Ev_append demo_iov, Ev_append demo_iov] w"
    using demo_run by blast
  have "world_blocks w = fold (spec_event (unat (8 :: u64) - 1)) [Ev_append demo_iov, Ev_append demo_iov] []"
    using circular_log_refines_list[OF demo_log_wf[unfolded demo_log_def] w[unfolded demo_log_def]] .
  then show ?thesis using w demo_log_wf by (auto simp: demo_iov_def)
qed

lemma fetchable_answered:
  assumes "kv_circular_log_is_fetchable l off"
  shows "\<exists>x. kv_circular_log_fetch_one l off = Inr x"
  using assms by (simp add: kv_circular_log_fetch_one_def kv_circular_log_is_fetchable_def Let_def)

lemma move_head_guard: "log_wf l \<Longrightarrow> wlen (l_fetch l) < unat n \<Longrightarrow> kv_circular_log_move_head l n = Inl Assert_fail"
proof -
  assume wf: "log_wf l" and n: "wlen (l_fetch l) < unat n"
  have "unat (fetch_length (l_fetch l)) = wlen (l_fetch l)" using wf unat_fetch_length by (auto simp: log_wf_def)
  then have "\<not> n \<le> fetch_length (l_fetch l)" using n by (simp only: word_le_nat_alt not_le)
  then show ?thesis by (simp add: kv_circular_log_move_head_def Let_def c_assert_def)
qed

text \<open>
  C21. The assertions of the log fail only for callers that break its contract, and its loops
  end. In every reachable state, an append of aligned vectors no longer than the log, a trim
  within the prefetch window that keeps the log at least as long as the window or finds all of
  it there, and the arrival and the failure of any read in flight are carried out; a trim past
  the window fails its assertion; a read by the owner into aligned buffers is issued if it lies
  within the blocks of the log; and the window answers every request for blocks inside it.
\<close>

theorem circular_log_never_aborts:
  assumes "log_wf (kv_circular_log_init bs thr b sz p p nbuf flen addr buf)"
    and "log_steps (fresh_world dev (kv_circular_log_init bs thr b sz p p nbuf flen addr buf)) evs w"
  shows "(\<forall>ev. log_event_ok ev w \<longrightarrow> (\<exists>w'. log_event_run ev w = Inr w')) \<and>
    (\<forall>n. wlen (l_fetch (lw_log w)) < unat n \<longrightarrow> log_event_run (Ev_trim n) w = Inl Assert_fail) \<and>
    (\<forall>k vs off. iov_aligned vs \<and> k < length (world_blocks w) \<and> k + length (iov_data vs) \<le> length (world_blocks w) \<and>
       unat off = (world_origin w + k) mod world_size w \<longrightarrow> (\<exists>ios. kv_circular_log_readv (lw_log w) off vs = Inr (lw_log w, Iov_issued ios))) \<and>
    (\<forall>k n off. 0 < unat n \<and> k + unat n \<le> wlen (l_fetch (lw_log w)) \<and> unat off = (world_origin w + k) mod world_size w \<longrightarrow>
       (\<exists>v. kv_circular_log_fetch_iov (lw_log w) off n = Inr v)) \<and>
    (\<forall>off. kv_circular_log_is_fetchable (lw_log w) off \<longrightarrow> (\<exists>x. kv_circular_log_fetch_one (lw_log w) off = Inr x))"
proof -
  have inv: "world_inv w" using log_steps_inv[OF assms(2) fresh_world_inv[OF assms(1)]] by blast
  then have li: "log_inv (lw_dev w) (lw_log w) (lw_flights w)" and wf: "log_wf (lw_log w)" by (auto simp: world_inv_def log_inv_def)
  have ev: "\<exists>w'. log_event_run ev w = Inr w'" if "log_event_ok ev w" for ev using world_step[OF inv that] by blast
  have trim: "log_event_run (Ev_trim n) w = Inl Assert_fail" if "wlen (l_fetch (lw_log w)) < unat n" for n
    using move_head_guard[OF wf that] by simp
  have rd: "\<exists>ios. kv_circular_log_readv (lw_log w) off vs = Inr (lw_log w, Iov_issued ios)"
    if "iov_aligned vs" "k < length (world_blocks w)" "k + length (iov_data vs) \<le> length (world_blocks w)"
      "unat off = (world_origin w + k) mod world_size w" for k vs off
    using readv_eq[OF wf that(1), of k off] that(2-4) by (auto simp: world_blocks_def log_blocks_def world_origin_def world_size_def)
  have fe: "\<exists>v. kv_circular_log_fetch_iov (lw_log w) off n = Inr v"
    if "0 < unat n" "k + unat n \<le> wlen (l_fetch (lw_log w))" "unat off = (world_origin w + k) mod world_size w" for k n off
    using fetch_iov_correct[OF li that(1,2) that(3)[unfolded world_origin_def world_size_def]] by blast
  show ?thesis using ev trim rd fe fetchable_answered by blast
qed

theorem circular_log_never_aborts_witness:
  "(\<exists>w'. log_event_run (Ev_append demo_iov) (fresh_world (\<lambda>_. 0) demo_log) = Inr w') \<and>
    log_event_run (Ev_trim 1) (fresh_world (\<lambda>_. 0) demo_log) = Inl Assert_fail"
proof -
  let ?w = "fresh_world (\<lambda>_. 0) demo_log :: nat log_world"
  have "log_event_ok (Ev_append demo_iov) ?w"
    by (rule demo_append_ok) (simp add: world_size_def fresh_world_def demo_log_def kv_circular_log_init_def)
  moreover have "wlen (l_fetch (lw_log ?w)) < unat (1 :: u64)"
    by (simp add: fresh_world_def demo_log_def kv_circular_log_init_def)
  moreover note circular_log_never_aborts[OF demo_log_wf[unfolded demo_log_def] log_steps_refl, of "\<lambda>_. 0"]
  ultimately show ?thesis unfolding demo_log_def by blast
qed

text \<open>
  C23. A fetchable offset of a reachable log is answered from the window with the block the
  log holds at that offset.
\<close>

theorem circular_log_fetch_one_correct:
  assumes "log_wf (kv_circular_log_init bs thr b sz p p nbuf flen addr buf)"
    and "log_steps (fresh_world dev (kv_circular_log_init bs thr b sz p p nbuf flen addr buf)) evs w"
    and "unat off < world_size w" and "kv_circular_log_is_fetchable (lw_log w) off"
  shows "\<exists>x. kv_circular_log_fetch_one (lw_log w) off = Inr x \<and> world_at w (unat off) = Some x"
proof -
  let ?l = "lw_log w"
  have inv: "world_inv w" using log_steps_inv[OF assms(2) fresh_world_inv[OF assms(1)]] by blast
  then have li: "log_inv (lw_dev w) ?l (lw_flights w)" and wf: "log_wf ?l"
    by (auto simp: world_inv_def log_inv_def)
  have fwf: "fetch_wf (l_block_size ?l) (l_fetch ?l)" using wf by (simp add: log_wf_def)
  define k where "k = circ_dist (world_size w) (world_origin w) (unat off)"
  have b: "world_origin w < world_size w" using clog.bounded[OF inv] by simp
  have off: "unat off = (unat (l_head ?l) + k) mod unat (l_size ?l)"
    unfolding k_def using circ_add_dist[OF b assms(3)] by (simp add: world_origin_def world_size_def)
  have "unat ((l_size ?l - l_head ?l + off) mod l_size ?l) = k"
    unfolding k_def world_size_def world_origin_def using b assms(3) log_wf_size[OF wf]
    by (intro unat_circ_dist') (auto simp: world_size_def world_origin_def)
  then have k: "k < wlen (l_fetch ?l)"
    using assms(4) unat_fetch_length[OF fwf] by (simp add: kv_circular_log_is_fetchable_def word_less_nat_alt del: unat_mod)
  then have "k < length (world_blocks w)"
    using li by (auto simp: world_blocks_def log_inv_def window_inv_def Let_def)
  then show ?thesis using fetch_one_correct[OF li k off]
    by (simp add: block_at_def world_blocks_def flip: k_def)
qed

theorem circular_log_fetch_one_correct_witness:
  "\<exists>w. log_event_run (Ev_append demo_iov) (fresh_world (\<lambda>_. 0) demo_log) = Inr w \<and>
       kv_circular_log_fetch_one (lw_log w) 0 = Inr 13 \<and> world_at w 0 = Some 13"
proof -
  let ?w = "fresh_world (\<lambda>_. 0) demo_log :: nat log_world"
  have ok: "log_event_ok (Ev_append demo_iov) ?w"
    by (rule demo_append_ok) (simp add: world_size_def fresh_world_def demo_log_def kv_circular_log_init_def)
  have al: "iov_aligned demo_iov" "llen demo_log + length (iov_data demo_iov) < unat (l_size demo_log)"
    by code_simp+
  obtain ios where r: "kv_circular_log_appendv demo_log demo_iov = Inr (append_state demo_log demo_iov, Iov_issued ios)"
    using appendv_eq[OF demo_log_wf al] by blast
  define w where "w = ?w\<lparr>lw_dev := exec_ios ios (\<lambda>_. 0), lw_log := append_state demo_log demo_iov\<rparr>"
  have run: "log_event_run (Ev_append demo_iov) ?w = Inr w" using r by (simp add: fresh_world_def w_def)
  have l: "lw_log w = append_state demo_log demo_iov" by (simp add: w_def)
  have s: "log_steps ?w [Ev_append demo_iov] w" using ok run by (blast intro: log_steps.intros)
  have sz: "unat (0 :: u64) < world_size w"
    unfolding world_size_def l by code_simp
  have fe: "kv_circular_log_is_fetchable (lw_log w) 0" unfolding l by code_simp
  have f1: "kv_circular_log_fetch_one (append_state demo_log demo_iov) 0 = Inr 13" by code_simp
  have "\<exists>x. kv_circular_log_fetch_one (lw_log w) 0 = Inr x \<and> world_at w (unat (0 :: u64)) = Some x"
    by (rule circular_log_fetch_one_correct[OF demo_log_wf[unfolded demo_log_def] s[unfolded demo_log_def] sz fe])
  then show ?thesis using run f1 l by auto
qed

text \<open>
  C22. An offset keeps its block: once a block is at an offset, every run of the log that
  trims no further than that offset leaves it there.
\<close>

theorem circular_log_offsets_stable:
  assumes "log_wf (kv_circular_log_init bs thr b sz p p nbuf flen addr buf)"
    and "log_steps (fresh_world dev (kv_circular_log_init bs thr b sz p p nbuf flen addr buf)) evs0 w"
    and "log_steps w evs w'" and "world_at w off = Some x" and "off < world_size w"
    and "sum_list (map event_trims evs) \<le> circ_dist (world_size w) (world_origin w) off"
  shows "world_at w' off = Some x"
  using log_steps_inv[OF assms(2) fresh_world_inv[OF assms(1)]] log_steps_keep[OF assms(3) _ assms(4-6)] by blast

theorem circular_log_offsets_stable_witness:
  "\<exists>w w'. log_steps (fresh_world (\<lambda>_. 0) demo_log) [Ev_append demo_iov] w \<and>
     log_steps w [Ev_append demo_iov] w' \<and> world_at w 7 = Some 12 \<and> world_at w' 7 = Some 12"
proof -
  let ?w = "fresh_world (\<lambda>_. 0) demo_log :: nat log_world"
  obtain w w' where s: "log_steps ?w [Ev_append demo_iov] w" "log_steps w [Ev_append demo_iov] w'"
    using demo_run by (blast elim: log_steps_ConsE intro: log_steps.intros)
  have run: "log_event_run (Ev_append demo_iov) ?w = Inr w" using s(1) by (auto elim: log_steps_ConsE simp: log_steps_Nil)
  have fr: "world_origin w = 6" "world_size w = 8"
    using append_event_head[OF run]
    by (auto simp: world_size_def world_origin_def fresh_world_def demo_log_def kv_circular_log_init_def)
  have i: "world_inv ?w" unfolding demo_log_def
    by (rule fresh_world_inv[OF demo_log_wf[unfolded demo_log_def]])
  have "world_cap ?w = 7" "world_blocks ?w = []"
    by (simp_all add: world_cap_def world_blocks_def log_blocks_def fresh_world_def demo_log_def kv_circular_log_init_def)
  then have "world_blocks w = [11, 12, 13]" using log_steps_inv[OF s(1) i] by (simp add: demo_iov_def)
  then have a: "world_at w 7 = Some 12" using fr by (simp add: block_at_def circ_dist_def)
  have "world_at w' 7 = Some 12"
    by (rule circular_log_offsets_stable[OF demo_log_wf[unfolded demo_log_def] s(1)[unfolded demo_log_def] s(2) a])
      (simp_all add: fr)
  then show ?thesis using s a by blast
qed

text \<open>
  A vectored read within the log is one or two device requests whose block counts match
  their vectors and whose data, in order, are the blocks of the log from that offset on.
\<close>

theorem circular_log_readv_correct:
  assumes "log_wf l" and "iov_aligned vs" and "k < llen l" and "k + length (iov_data vs) \<le> llen l"
    and "unat off = (unat (l_head l) + k) mod unat (l_size l)"
  shows "\<exists>ios. kv_circular_log_readv l off vs = Inr (l, Iov_issued ios) \<and> list_all io_matches ios \<and>
     concat (map (io_data dev) ios) = take (length (iov_data vs)) (drop k (log_blocks dev l))"
  by (rule readv_eq[OF assms])

theorem circular_log_readv_correct_witness:
  "\<exists>ios. kv_circular_log_readv (append_state demo_log demo_iov) 7 [\<lparr>iov_base = 64, iov_blocks = [0, 0]\<rparr>]
      = Inr (append_state demo_log demo_iov, Iov_issued ios) \<and>
     concat (map (io_data (\<lambda>a. a)) ios) = [107, 100]"
proof -
  let ?l = "append_state demo_log demo_iov" and ?v = "[\<lparr>iov_base = 64, iov_blocks = [0, 0 :: nat]\<rparr>]"
  have wf: "log_wf ?l" by (rule append_state_wf[OF demo_log_wf]) (simp add: demo_iov_def)
  have h: "iov_aligned ?v" "1 < llen ?l" "1 + length (iov_data ?v) \<le> llen ?l"
    "unat (7 :: u64) = (unat (l_head ?l) + 1) mod unat (l_size ?l)" by code_simp+
  have "take (length (iov_data ?v)) (drop 1 (log_blocks (\<lambda>a. a) ?l)) = [107, 100]" by code_simp
  then show ?thesis using circular_log_readv_correct[OF wf h, of "\<lambda>a. a"] by auto
qed

end
