(* ===== verification/Kv_Bucket.thy ===== *)
theory Kv_Bucket
  imports Leed_Prelude
begin

unbundle bit_operations_syntax

text \<open>
  \<open>kv_bucket_log.h\<close> and the bucket meta and key set of \<open>kv_bucket.cpp\<close>: items,
  buckets and their chains, the two-level table that maps a bucket to the offset of its
  chain in the bucket log, and the counted set of keys with writes under way.
\<close>

section \<open>Items, buckets, chains and segments\<close>

definition KV_MAX_KEY_LENGTH :: nat where "KV_MAX_KEY_LENGTH = 20"
definition KV_MIN_KEY_LENGTH :: nat where "KV_MIN_KEY_LENGTH = 8"
definition KV_ITEM_PER_BUCKET :: nat where "KV_ITEM_PER_BUCKET = 16"
definition KV_NUM_ITEMS :: nat where "KV_NUM_ITEMS = 100000000"

text \<open>
  The search of the programs for the number of bits of a bucket id, downwards from 48. Below zero
  the shift of the code is undefined.
\<close>

fun shrink_log_bucket_num :: "nat \<Rightarrow> nat \<Rightarrow> nat res" where
  "shrink_log_bucket_num n 0 = (if 1 \<ge> n then Inl Out_of_bounds else Inr 0)"
| "shrink_log_bucket_num n (Suc k) = (if 2 ^ Suc k \<ge> n then shrink_log_bucket_num n k else Inr (Suc k))"
definition KV_BLK_SIZE :: u64 where "KV_BLK_SIZE = 512"

record kv_item =
  key_length :: u8
  key :: "u8 list"
  value_length :: u32
  value_offset :: u48

definition KV_EMPTY_ITEM :: "kv_item \<Rightarrow> bool" where
  "KV_EMPTY_ITEM it \<longleftrightarrow> key_length it = 0"

record kv_bucket =
  b_id :: u48
  chain_length :: u8
  chain_index :: u8
  b_head :: u32
  b_tail :: u32
  items :: "kv_item list"

record kv_bucket_meta =
  m_chain_length :: u8
  m_bucket_offset :: u32

text \<open>
  A chain entry is a run of buckets in memory at \<open>ce_addr\<close>; \<open>len\<close> is the length of the
  list. Buckets of a prefetched run alias the fetch buffer of the log in C; here they are
  copied.
\<close>

record kv_bucket_chain_entry =
  ce_addr :: u64
  ce_buckets :: "kv_bucket list"
  pre_alloc_bucket :: bool

record kv_bucket_segment =
  seg_bucket_id :: u64
  seg_chain :: "kv_bucket_chain_entry list"
  seg_offset :: u32
  seg_dirty :: bool
  seg_empty :: bool

text \<open>Zeroed memory as \<open>kv_storage_zblk_alloc\<close> returns it.\<close>

definition zero_item :: kv_item where
  "zero_item = \<lparr>key_length = 0, key = replicate KV_MAX_KEY_LENGTH 0, value_length = 0, value_offset = 0\<rparr>"

definition zero_bucket :: kv_bucket where
  "zero_bucket = \<lparr>b_id = 0, chain_length = 0, chain_index = 0, b_head = 0, b_tail = 0,
     items = replicate KV_ITEM_PER_BUCKET zero_item\<rparr>"

definition seg_buckets :: "kv_bucket_segment \<Rightarrow> kv_bucket list" where
  "seg_buckets seg = concat (map ce_buckets (seg_chain seg))"

text \<open>
  A pointer to an item of a segment is its position: the number of the bucket in the chain
  and the slot in the bucket. The searches of the code go through the chain in this order.
\<close>

type_synonym item_pos = "nat \<times> nat"

fun locate_in :: "(kv_item \<Rightarrow> bool) \<Rightarrow> kv_item list \<Rightarrow> nat \<Rightarrow> nat option" where
  "locate_in P [] i = None"
| "locate_in P (it # its) i = (if P it then Some i else locate_in P its (Suc i))"

fun locate :: "(kv_item \<Rightarrow> bool) \<Rightarrow> kv_bucket list \<Rightarrow> nat \<Rightarrow> item_pos option" where
  "locate P [] k = None"
| "locate P (b # bs) k =
     (case locate_in P (items b) 0 of Some i \<Rightarrow> Some (k, i) | None \<Rightarrow> locate P bs (Suc k))"

text \<open>Access and assignment through such a pointer.\<close>

definition seg_item :: "kv_bucket_segment \<Rightarrow> item_pos \<Rightarrow> kv_item" where
  "seg_item seg p = items (seg_buckets seg ! fst p) ! snd p"

fun update_nth_bucket :: "kv_bucket_chain_entry list \<Rightarrow> nat \<Rightarrow> (kv_bucket \<Rightarrow> kv_bucket) \<Rightarrow> kv_bucket_chain_entry list" where
  "update_nth_bucket [] k f = []"
| "update_nth_bucket (ce # ces) k f =
     (if k < length (ce_buckets ce)
      then ce\<lparr>ce_buckets := (ce_buckets ce)[k := f (ce_buckets ce ! k)]\<rparr> # ces
      else ce # update_nth_bucket ces (k - length (ce_buckets ce)) f)"

definition seg_update_item :: "kv_bucket_segment \<Rightarrow> item_pos \<Rightarrow> (kv_item \<Rightarrow> kv_item) \<Rightarrow> kv_bucket_segment" where
  "seg_update_item seg p f =
     seg\<lparr>seg_chain := update_nth_bucket (seg_chain seg) (fst p)
           (\<lambda>b. b\<lparr>items := (items b)[snd p := f (items b ! snd p)]\<rparr>)\<rparr>"

section \<open>Bucket meta\<close>

definition META_BLOCK_SHIFT :: nat where "META_BLOCK_SHIFT = 7"
definition META_BLOCK_SIZE :: nat where "META_BLOCK_SIZE = 128"
definition META_BLOCK_MASK :: u64 where "META_BLOCK_MASK = 127"

record meta_block =
  blk_meta :: "kv_bucket_meta list"
  non_empty_blks :: u32

type_synonym meta_map = "u64 \<rightharpoonup> meta_block"

definition zero_meta :: kv_bucket_meta where
  "zero_meta = \<lparr>m_chain_length = 0, m_bucket_offset = 0\<rparr>"

definition meta_key :: "u64 \<Rightarrow> u64" where
  "meta_key bucket_id = drop_bit META_BLOCK_SHIFT bucket_id"

definition meta_index :: "u64 \<Rightarrow> nat" where
  "meta_index bucket_id = unat (bucket_id AND META_BLOCK_MASK)"

definition kv_bucket_meta_init :: meta_map where
  "kv_bucket_meta_init = Map.empty"

definition kv_bucket_meta_get :: "meta_map \<Rightarrow> u64 \<Rightarrow> kv_bucket_meta" where
  "kv_bucket_meta_get m bucket_id =
     (case m (meta_key bucket_id) of
        None \<Rightarrow> zero_meta
      | Some blk \<Rightarrow> blk_meta blk ! meta_index bucket_id)"

definition is_meta_empty :: "kv_bucket_meta \<Rightarrow> bool" where
  "is_meta_empty d \<longleftrightarrow> m_chain_length d = 0"

definition fresh_meta_block :: meta_block where
  "fresh_meta_block = \<lparr>blk_meta = replicate META_BLOCK_SIZE zero_meta, non_empty_blks = 0\<rparr>"

definition kv_bucket_meta_put :: "meta_map \<Rightarrow> u64 \<Rightarrow> kv_bucket_meta \<Rightarrow> meta_map" where
  "kv_bucket_meta_put m bucket_id d =
     (let k = meta_key bucket_id; i = meta_index bucket_id in
      if m k = None \<and> is_meta_empty d then m
      else
        let blk = (case m k of None \<Rightarrow> fresh_meta_block | Some b \<Rightarrow> b);
            was_empty = is_meta_empty (blk_meta blk ! i);
            blk' = blk\<lparr>blk_meta := (blk_meta blk)[i := d]\<rparr>
        in if is_meta_empty d then
             let c = non_empty_blks blk' - 1 in
             if c = 0 then m(k := None) else m(k \<mapsto> blk'\<lparr>non_empty_blks := c\<rparr>)
           else if was_empty then m(k \<mapsto> blk'\<lparr>non_empty_blks := non_empty_blks blk' + 1\<rparr>)
           else m(k \<mapsto> blk'))"

section \<open>Key sets\<close>

type_synonym key_set = "u8 list \<rightharpoonup> u32"

text \<open>A key is padded with zeroes to the maximal length; a longer one overruns the array.\<close>

definition key_to_array :: "u8 list \<Rightarrow> nat \<Rightarrow> u8 list res" where
  "key_to_array k n =
     (if n \<le> KV_MAX_KEY_LENGTH then Inr (take n k @ replicate (KV_MAX_KEY_LENGTH - n) 0)
      else Inl Out_of_bounds)"

definition kv_bucket_key_set_init :: key_set where
  "kv_bucket_key_set_init = Map.empty"

definition kv_bucket_key_set_find :: "key_set \<Rightarrow> u8 list \<Rightarrow> nat \<Rightarrow> bool res" where
  "kv_bucket_key_set_find s k n = rbind (key_to_array k n) (\<lambda>a. Inr (s a \<noteq> None))"

definition kv_bucket_key_set_add :: "key_set \<Rightarrow> u8 list \<Rightarrow> nat \<Rightarrow> key_set res" where
  "kv_bucket_key_set_add s k n =
     rbind (key_to_array k n) (\<lambda>a.
       Inr (case s a of None \<Rightarrow> s(a \<mapsto> 1) | Some c \<Rightarrow> s(a \<mapsto> c + 1)))"

definition kv_bucket_key_set_del :: "key_set \<Rightarrow> u8 list \<Rightarrow> nat \<Rightarrow> key_set res" where
  "kv_bucket_key_set_del s k n =
     rbind (key_to_array k n) (\<lambda>a.
       case s a of
         None \<Rightarrow> Inl Assert_fail
       | Some c \<Rightarrow> Inr (if c - 1 = 0 then s(a := None) else s(a \<mapsto> c - 1)))"

section \<open>The meta table as a map\<close>

definition live_count :: "kv_bucket_meta list \<Rightarrow> nat" where
  "live_count ms = length (filter (\<lambda>d. \<not> is_meta_empty d) ms)"

definition meta_block_ok :: "meta_block \<Rightarrow> bool" where
  "meta_block_ok b \<longleftrightarrow> length (blk_meta b) = META_BLOCK_SIZE \<and>
     unat (non_empty_blks b) = live_count (blk_meta b) \<and> 0 < live_count (blk_meta b) \<and>
     (\<forall>d \<in> set (blk_meta b). is_meta_empty d \<longrightarrow> d = zero_meta)"

definition meta_inv :: "meta_map \<Rightarrow> bool" where
  "meta_inv m \<longleftrightarrow> (\<forall>k b. m k = Some b \<longrightarrow> meta_block_ok b)"

lemma meta_index_less: "meta_index i < META_BLOCK_SIZE"
proof -
  have m: "(127 :: u64) = mask 7" by (simp add: mask_eq_exp_minus_1)
  have "unat (i AND 127) = unat i mod 128"
    unfolding m by (simp add: unsigned_take_bit_eq take_bit_eq_mod flip: take_bit_eq_mask)
  then show ?thesis by (simp add: meta_index_def META_BLOCK_MASK_def META_BLOCK_SIZE_def)
qed

lemma meta_key_index_inj:
  assumes "meta_key i = meta_key j" and "meta_index i = meta_index j"
  shows "i = j"
proof -
  have m: "(127 :: u64) = mask 7" by (simp add: mask_eq_exp_minus_1)
  have t: "take_bit 7 i = take_bit 7 j"
    using assms(2) by (simp add: meta_index_def META_BLOCK_MASK_def m word_unat_eq_iff flip: take_bit_eq_mask)
  have "push_bit 7 (drop_bit 7 i) + take_bit 7 i = push_bit 7 (drop_bit 7 j) + take_bit 7 j"
    using assms(1) t by (simp add: meta_key_def META_BLOCK_SHIFT_def)
  then show ?thesis by (simp add: bits_ident)
qed

lemma live_count_update:
  assumes "i < length ms"
  shows "live_count (ms[i := d]) + (if is_meta_empty (ms ! i) then 0 else 1) =
     live_count ms + (if is_meta_empty d then 0 else 1)"
proof -
  have s: "ms = take i ms @ ms ! i # drop (Suc i) ms" using assms by (simp add: id_take_nth_drop)
  have u: "ms[i := d] = take i ms @ d # drop (Suc i) ms" using assms by (simp add: upd_conv_take_nth_drop)
  have "live_count ms = live_count (take i ms @ ms ! i # drop (Suc i) ms)" using s by simp
  then show ?thesis unfolding u by (simp add: live_count_def)
qed

lemma live_count_le: "live_count ms \<le> length ms"
  by (simp add: live_count_def)

lemma live_count_zero: "live_count ms = 0 \<Longrightarrow> i < length ms \<Longrightarrow> is_meta_empty (ms ! i)"
  by (auto simp: live_count_def filter_empty_conv)

text \<open>
  A put is legal unless it stores an empty entry where there is none to remove: the count of
  the block would go wrong. An empty entry is the zero entry, as all callers write it.
\<close>

definition meta_put_ok :: "meta_map \<Rightarrow> u64 \<Rightarrow> kv_bucket_meta \<Rightarrow> bool" where
  "meta_put_ok m i d \<longleftrightarrow>
     (is_meta_empty d \<longrightarrow> d = zero_meta \<and> (m (meta_key i) \<noteq> None \<longrightarrow> \<not> is_meta_empty (kv_bucket_meta_get m i)))"

lemma zero_meta_empty [simp]: "is_meta_empty zero_meta"
  by (simp add: is_meta_empty_def zero_meta_def)

lemma meta_put_cases:
  assumes inv: "meta_inv m" and ok: "meta_put_ok m i d"
  obtains (absent) "m (meta_key i) = None" "d = zero_meta" "kv_bucket_meta_put m i d = m"
  | (last) b where "m (meta_key i) = Some b" "d = zero_meta" "live_count ((blk_meta b)[meta_index i := d]) = 0"
      "meta_block_ok b" "kv_bucket_meta_put m i d = m(meta_key i := None)"
  | (store) b c where "length (blk_meta b) = META_BLOCK_SIZE"
      "m (meta_key i) = Some b \<or> m (meta_key i) = None \<and> b = fresh_meta_block"
      "meta_block_ok (b\<lparr>blk_meta := (blk_meta b)[meta_index i := d], non_empty_blks := c\<rparr>)"
      "kv_bucket_meta_put m i d = m(meta_key i \<mapsto> b\<lparr>blk_meta := (blk_meta b)[meta_index i := d], non_empty_blks := c\<rparr>)"
proof (cases "m (meta_key i) = None \<and> is_meta_empty d")
  case True
  then show ?thesis using ok by (intro absent) (auto simp: meta_put_ok_def kv_bucket_meta_put_def Let_def)
next
  case False
  define b where "b = (case m (meta_key i) of None \<Rightarrow> fresh_meta_block | Some b \<Rightarrow> b)"
  let ?ms = "blk_meta b" and ?i = "meta_index i"
  have b: "length ?ms = META_BLOCK_SIZE" "unat (non_empty_blks b) = live_count ?ms"
    using inv by (auto simp: b_def meta_inv_def meta_block_ok_def fresh_meta_block_def live_count_def split: option.splits)
  have z: "\<forall>d \<in> set ?ms. is_meta_empty d \<longrightarrow> d = zero_meta"
    using inv by (auto simp: b_def meta_inv_def meta_block_ok_def fresh_meta_block_def split: option.splits)
  have z': "\<forall>e \<in> set (?ms[?i := d]). is_meta_empty e \<longrightarrow> e = zero_meta"
    using z ok set_update_subset_insert[of ?ms ?i d] by (auto simp: meta_put_ok_def)
  have i: "?i < length ?ms" using meta_index_less b(1) by simp
  have le: "live_count ?ms \<le> 128" using live_count_le[of ?ms] b(1) by (simp add: META_BLOCK_SIZE_def)
  note upd = live_count_update[OF i, of d]
  show ?thesis
  proof (cases "is_meta_empty d")
    case True
    then obtain b0 where m0: "m (meta_key i) = Some b0" using False by auto
    then have m: "m (meta_key i) = Some b" by (simp add: b_def)
    have ne: "\<not> is_meta_empty (?ms ! ?i)" using ok True m by (simp add: meta_put_ok_def kv_bucket_meta_get_def)
    have lc: "live_count (?ms[?i := d]) = live_count ?ms - 1" "0 < live_count ?ms" using upd ne True by auto
    have uc: "unat (non_empty_blks b - 1) = live_count ?ms - 1" using b(2) lc by (simp add: unat_sub word_le_nat_alt)
    have bok: "meta_block_ok b" using b lc z by (simp add: meta_block_ok_def)
    show ?thesis
    proof (cases "non_empty_blks b - 1 = 0")
      case True
      then show ?thesis using last[OF m] lc uc ok bok \<open>is_meta_empty d\<close> m
        by (auto simp: meta_put_ok_def kv_bucket_meta_put_def Let_def)
    next
      case False
      have "live_count ?ms - 1 \<noteq> 0" using False uc by (metis unat_eq_zero)
      then show ?thesis using store[of b "non_empty_blks b - 1"] False m b lc uc z' \<open>is_meta_empty d\<close>
        by (auto simp: meta_block_ok_def kv_bucket_meta_put_def Let_def)
    qed
  next
    case False
    have mm: "m (meta_key i) = Some b \<or> m (meta_key i) = None \<and> b = fresh_meta_block"
      by (cases "m (meta_key i)") (auto simp: b_def)
    show ?thesis
    proof (cases "is_meta_empty (?ms ! ?i)")
      case True
      have "unat (non_empty_blks b + 1) = live_count ?ms + 1" using b(2) le by (simp add: unat_word_ariths)
      then show ?thesis using store[of b "non_empty_blks b + 1"] True False mm b upd z'
        by (auto simp: meta_block_ok_def kv_bucket_meta_put_def Let_def b_def split: option.splits)
    next
      case f: False
      have "m (meta_key i) = Some b"
        using mm f meta_index_less by (auto simp: fresh_meta_block_def)
      moreover have "0 < live_count ?ms" using f live_count_zero[OF _ i] by blast
      ultimately show ?thesis using store[of b "non_empty_blks b"] f False b upd z'
        by (auto simp: meta_block_ok_def kv_bucket_meta_put_def Let_def)
    qed
  qed
qed

lemma meta_put_inv:
  assumes "meta_inv m" and "meta_put_ok m i d"
  shows "meta_inv (kv_bucket_meta_put m i d)"
  using assms
  by (cases rule: meta_put_cases) (use assms(1) in \<open>auto simp: meta_inv_def\<close>)

lemma meta_get_put:
  assumes "meta_inv m" and "meta_put_ok m i d"
  shows "kv_bucket_meta_get (kv_bucket_meta_put m i d) j = (if j = i then d else kv_bucket_meta_get m j)"
  using assms
proof (cases rule: meta_put_cases)
  case absent
  then show ?thesis by (simp add: kv_bucket_meta_get_def)
next
  case (last b)
  let ?ms = "blk_meta b" and ?i = "meta_index i"
  show ?thesis
  proof (cases "meta_key j = meta_key i \<and> j \<noteq> i")
    case True
    then have ne: "meta_index j \<noteq> ?i" using meta_key_index_inj by blast
    have "is_meta_empty (?ms[?i := d] ! meta_index j)"
      using last(3,4) meta_index_less[of j] by (intro live_count_zero) (auto simp: meta_block_ok_def)
    then have e: "is_meta_empty (?ms ! meta_index j)" using ne by simp
    moreover have "?ms ! meta_index j \<in> set ?ms" using last(4) meta_index_less[of j] by (simp add: meta_block_ok_def)
    ultimately have "?ms ! meta_index j = zero_meta" using last(4) by (simp add: meta_block_ok_def)
    then show ?thesis using last True ne by (simp add: kv_bucket_meta_get_def)
  next
    case False
    then show ?thesis using last by (auto simp: kv_bucket_meta_get_def)
  qed
next
  case (store b c)
  then show ?thesis
  proof (cases "meta_key j = meta_key i \<and> j \<noteq> i")
    case True
    then have ne: "meta_index j \<noteq> meta_index i" using meta_key_index_inj by blast
    then show ?thesis using store True meta_index_less[of j]
      by (auto simp: kv_bucket_meta_get_def fresh_meta_block_def)
  next
    case False
    then show ?thesis using store meta_index_less[of i] by (auto simp: kv_bucket_meta_get_def)
  qed
qed

text \<open>The interface the bucket log relies on: a total table with partial writes.\<close>

locale meta_table =
  fixes inv :: "'m \<Rightarrow> bool"
    and get :: "'m \<Rightarrow> 'k \<Rightarrow> 'v"
    and put :: "'m \<Rightarrow> 'k \<Rightarrow> 'v \<Rightarrow> 'm"
    and ok :: "'m \<Rightarrow> 'k \<Rightarrow> 'v \<Rightarrow> bool"
    and live :: "'v \<Rightarrow> bool"
  assumes put_inv: "inv m \<Longrightarrow> ok m k v \<Longrightarrow> inv (put m k v)"
    and get_put: "inv m \<Longrightarrow> ok m k v \<Longrightarrow> get (put m k v) j = (if j = k then v else get m j)"
    and ok_live: "live v \<Longrightarrow> ok m k v"
begin

definition put_all :: "('k \<times> 'v) list \<Rightarrow> 'm \<Rightarrow> 'm" where
  "put_all kvs m = fold (\<lambda>(k, v) m. put m k v) kvs m"

lemma put_all_live:
  assumes "inv m" and "\<forall>(k, v) \<in> set kvs. live v" and "distinct (map fst kvs)"
  shows "inv (put_all kvs m) \<and>
    get (put_all kvs m) j = (case map_of kvs j of None \<Rightarrow> get m j | Some v \<Rightarrow> v)"
  using assms
proof (induction kvs arbitrary: m)
  case Nil
  then show ?case by (simp add: put_all_def)
next
  case (Cons kv kvs)
  obtain k v where kv: "kv = (k, v)" by fastforce
  have ok: "ok m k v" using Cons.prems kv by (intro ok_live) auto
  have "inv (put m k v)" using Cons.prems(1) ok by (rule put_inv)
  moreover have "j = k \<Longrightarrow> map_of kvs j = None" using Cons.prems(3) kv by (simp add: map_of_eq_None_iff)
  ultimately show ?case
    using Cons.IH[of "put m k v"] Cons.prems get_put[OF Cons.prems(1) ok] kv
    by (auto simp: put_all_def split: option.splits)
qed

end

interpretation bmeta: meta_table meta_inv kv_bucket_meta_get kv_bucket_meta_put meta_put_ok "\<lambda>d. \<not> is_meta_empty d"
  by unfold_locales (auto simp: meta_put_inv meta_get_put meta_put_ok_def)

section \<open>Key sets count\<close>

definition kset_count :: "key_set \<Rightarrow> u8 list \<Rightarrow> nat" where
  "kset_count s a = (case s a of None \<Rightarrow> 0 | Some c \<Rightarrow> unat c)"

definition kset_inv :: "key_set \<Rightarrow> bool" where
  "kset_inv s \<longleftrightarrow> (\<forall>a. s a \<noteq> Some 0)"

datatype kset_op = Kset_add "u8 list" | Kset_del "u8 list"

fun kset_step :: "kset_op \<Rightarrow> key_set \<Rightarrow> key_set res" where
  "kset_step (Kset_add k) s = kv_bucket_key_set_add s k (length k)"
| "kset_step (Kset_del k) s = kv_bucket_key_set_del s k (length k)"

fun kset_run :: "kset_op list \<Rightarrow> key_set \<Rightarrow> key_set res" where
  "kset_run [] s = Inr s"
| "kset_run (x # xs) s = rbind (kset_step x s) (kset_run xs)"

definition pad_key :: "u8 list \<Rightarrow> u8 list" where
  "pad_key k = k @ replicate (KV_MAX_KEY_LENGTH - length k) 0"

text \<open>Writes of a padded key that have been announced and not yet withdrawn.\<close>

fun kset_pending :: "kset_op list \<Rightarrow> u8 list \<Rightarrow> int" where
  "kset_pending [] a = 0"
| "kset_pending (Kset_add k # xs) a = (if pad_key k = a then 1 else 0) + kset_pending xs a"
| "kset_pending (Kset_del k # xs) a = (if pad_key k = a then -1 else 0) + kset_pending xs a"

lemma key_to_array_Inr: "key_to_array k (length k) = Inr a \<longleftrightarrow> length k \<le> KV_MAX_KEY_LENGTH \<and> a = pad_key k"
  by (auto simp: key_to_array_def pad_key_def)

lemma kset_find_iff:
  assumes "kset_inv s" and "length k \<le> KV_MAX_KEY_LENGTH"
  shows "kv_bucket_key_set_find s k (length k) = Inr (0 < kset_count s (pad_key k))"
  using assms
  by (auto simp: kv_bucket_key_set_find_def key_to_array_def pad_key_def kset_count_def kset_inv_def unat_gt_0
      split: option.splits)

lemma kset_add_count:
  assumes "kv_bucket_key_set_add s k (length k) = Inr s'" and "kset_inv s" and "kset_count s (pad_key k) < 2 ^ 32 - 1"
  shows "kset_inv s' \<and> kset_count s' a = kset_count s a + (if pad_key k = a then 1 else 0)"
proof -
  have u: "unat (c + 1) = unat c + 1 \<and> c + 1 \<noteq> 0" if "unat c < 2 ^ 32 - 1" for c :: u32
  proof -
    have e: "unat (c + 1) = unat c + 1" using that by (simp add: unat_word_ariths)
    then show ?thesis by (metis Suc_eq_plus1 nat.distinct(1) unat_0)
  qed
  show ?thesis using assms u
    by (auto simp: kv_bucket_key_set_add_def res_simps key_to_array_Inr kset_count_def kset_inv_def
        split: option.splits if_splits)
qed

lemma kset_del_count:
  assumes "kv_bucket_key_set_del s k (length k) = Inr s'" and "kset_inv s"
  shows "kset_inv s' \<and> 0 < kset_count s (pad_key k) \<and>
    kset_count s a = kset_count s' a + (if pad_key k = a then 1 else 0)"
proof -
  obtain c where c: "length k \<le> KV_MAX_KEY_LENGTH" "s (pad_key k) = Some c"
    "s' = (if c - 1 = 0 then s(pad_key k := None) else s(pad_key k \<mapsto> c - 1))"
    using assms(1) by (auto simp: kv_bucket_key_set_del_def res_simps key_to_array_Inr split: option.splits)
  have nz: "c \<noteq> 0" using assms(2) c(2) by (auto simp: kset_inv_def)
  then have "unat (c - 1) = unat c - 1" "0 < unat c"
    by (simp_all add: unat_sub word_le_nat_alt Suc_leI unat_gt_0)
  then show ?thesis using c assms(2) nz
    by (cases "c - 1 = 0") (auto simp: kset_count_def kset_inv_def)
qed

lemma kset_run_count:
  assumes "kset_run xs s = Inr s'" and "kset_inv s" and "\<forall>a. kset_count s a + length xs < 2 ^ 32"
  shows "kset_inv s' \<and> int (kset_count s' a) = int (kset_count s a) + kset_pending xs a"
  using assms
proof (induction xs arbitrary: s)
  case Nil
  then show ?case by simp
next
  case (Cons x xs)
  obtain s1 where s1: "kset_step x s = Inr s1" "kset_run xs s1 = Inr s'"
    using Cons.prems(1) by (auto simp: res_simps)
  show ?case
  proof (cases x)
    case (Kset_add k)
    have b: "kset_count s (pad_key k) + length (x # xs) < 2 ^ 32" using Cons.prems(3) by blast
    then have lt: "kset_count s (pad_key k) < 2 ^ 32 - 1" by simp
    have c: "\<And>a. kset_inv s1 \<and> kset_count s1 a = kset_count s a + (if pad_key k = a then 1 else 0)"
      using kset_add_count[OF _ Cons.prems(2) lt] s1(1) Kset_add by simp
    have "\<forall>a. kset_count s1 a + length xs < 2 ^ 32"
    proof
      fix a show "kset_count s1 a + length xs < 2 ^ 32" using c[of a] Cons.prems(3)[rule_format, of a] by simp
    qed
    then show ?thesis using Cons.IH[OF s1(2)] c Kset_add by auto
  next
    case (Kset_del k)
    have c: "\<And>a. kset_inv s1 \<and> kset_count s a = kset_count s1 a + (if pad_key k = a then 1 else 0)"
      using kset_del_count[OF _ Cons.prems(2)] s1(1) Kset_del by simp
    have "\<forall>a. kset_count s1 a + length xs < 2 ^ 32"
    proof
      fix a show "kset_count s1 a + length xs < 2 ^ 32" using c[of a] Cons.prems(3)[rule_format, of a] by (simp split: if_splits)
    qed
    then show ?thesis using Cons.IH[OF s1(2)] c Kset_del by auto
  qed
qed

section \<open>Properties\<close>

text \<open>
  The two-level bucket meta table behaves as a map from bucket ids: a legal put changes
  the entry of its bucket and no other, and keeps the counts of live entries exact.
\<close>

theorem bucket_meta_is_map:
  assumes "meta_inv m" and "meta_put_ok m i d"
  shows "meta_inv (kv_bucket_meta_put m i d) \<and>
    kv_bucket_meta_get (kv_bucket_meta_put m i d) j = (if j = i then d else kv_bucket_meta_get m j)"
  using meta_put_inv[OF assms] meta_get_put[OF assms] by simp

theorem bucket_meta_is_map_witness:
  "kv_bucket_meta_get (kv_bucket_meta_put kv_bucket_meta_init 300 \<lparr>m_chain_length = 2, m_bucket_offset = 77\<rparr>) 300
     = \<lparr>m_chain_length = 2, m_bucket_offset = 77\<rparr>"
proof -
  have "meta_inv kv_bucket_meta_init" by (simp add: meta_inv_def kv_bucket_meta_init_def)
  moreover have "meta_put_ok kv_bucket_meta_init 300 \<lparr>m_chain_length = 2, m_bucket_offset = 77\<rparr>"
    by (simp add: meta_put_ok_def is_meta_empty_def)
  ultimately show ?thesis using bucket_meta_is_map[of kv_bucket_meta_init 300 _ 300] by simp
qed

text \<open>
  Removing the entry of a bucket that has none, in a block where another bucket is live,
  makes the count of the block wrong and can erase the live bucket with the block.
\<close>

theorem bucket_meta_double_remove:
  "let m = kv_bucket_meta_put kv_bucket_meta_init 5 \<lparr>m_chain_length = 1, m_bucket_offset = 9\<rparr> in
   kv_bucket_meta_get m 5 = \<lparr>m_chain_length = 1, m_bucket_offset = 9\<rparr> \<and>
   kv_bucket_meta_get (kv_bucket_meta_put m 6 zero_meta) 5 = zero_meta"
  by code_simp

text \<open>
  A key is found in a key set exactly while more of its writes have been added than
  withdrawn, over every run of additions and removals that does not abort.
\<close>

theorem key_set_counts_pending:
  assumes "kset_run xs kv_bucket_key_set_init = Inr s" and "length xs < 2 ^ 32" and "length k \<le> KV_MAX_KEY_LENGTH"
  shows "kv_bucket_key_set_find s k (length k) = Inr (0 < kset_pending xs (pad_key k))"
proof -
  have "kset_inv s \<and> int (kset_count s (pad_key k)) = kset_pending xs (pad_key k)"
    using kset_run_count[OF assms(1), of "pad_key k"] assms(2)
    by (simp add: kset_inv_def kset_count_def kv_bucket_key_set_init_def)
  then show ?thesis using kset_find_iff[OF _ assms(3)] by auto
qed

theorem key_set_counts_pending_witness:
  "\<exists>s. kset_run [Kset_add [1, 2], Kset_add [1, 2], Kset_del [1, 2]] kv_bucket_key_set_init = Inr s \<and>
       kv_bucket_key_set_find s [1, 2] (length [1, 2 :: u8]) = Inr True"
proof -
  let ?xs = "[Kset_add [1, 2], Kset_add [1, 2], Kset_del [1, 2]]"
  obtain s where s: "kset_run ?xs kv_bucket_key_set_init = Inr s"
    by (simp add: kv_bucket_key_set_add_def kv_bucket_key_set_del_def key_to_array_def KV_MAX_KEY_LENGTH_def
        kv_bucket_key_set_init_def)
  have "kv_bucket_key_set_find s [1, 2] (length [1, 2 :: u8]) = Inr (0 < kset_pending ?xs (pad_key [1, 2]))"
    using s by (rule key_set_counts_pending) (simp_all add: KV_MAX_KEY_LENGTH_def)
  then show ?thesis using s by auto
qed

end
