(* ===== verification/Kv_Bucket_Log.thy ===== *)
theory Kv_Bucket_Log
  imports Circular_Log_World Kv_Bucket
begin

unbundle bit_operations_syntax

text \<open>
  \<open>kv_bucket_log.c\<close>: chains of buckets in a circular log. A segment is read with the
  meta of its bucket, changed in memory, appended to the log and then committed by updating
  the meta; compaction copies the live chains at the head of the log to its tail. Requests
  and callbacks are returned as events in the order in which the code issues them.
\<close>

section \<open>State\<close>

definition COMPACTION_CONCURRENCY :: u64 where "COMPACTION_CONCURRENCY = 4"
definition COMPACTION_LENGTH :: u64 where "COMPACTION_LENGTH = 512"
definition KV_BUCKET_ID_EMPTY :: u64 where "KV_BUCKET_ID_EMPTY = 0xFFFFFFFFFFFF"

record kv_bucket_log =
  bl_log :: "kv_bucket kv_circular_log"
  bl_size :: u32
  bl_head :: u32
  bl_tail :: u32
  bl_compact_head :: u32
  bl_meta :: meta_map

definition kv_bucket_log_offset :: "kv_bucket_log \<Rightarrow> u32" where
  "kv_bucket_log_offset bl = ucast (l_tail (bl_log bl))"

definition sizeof_kv_bucket :: u64 where "sizeof_kv_bucket = 512"

definition kv_bucket_log_init ::
  "u64 \<Rightarrow> u32 \<Rightarrow> u64 \<Rightarrow> u64 \<Rightarrow> u64 \<Rightarrow> kv_bucket list \<Rightarrow> kv_bucket_log res" where
  "kv_bucket_log_init block_size thread b size0 buf_addr buf =
     (let sz = (if size0 > push_bit 4 COMPACTION_LENGTH then size0 else push_bit 4 COMPACTION_LENGTH) in
      rbind (c_assert (block_size = sizeof_kv_bucket)) (\<lambda>_.
        let log = kv_circular_log_init block_size thread b (sz * 4) 0 0
                    (COMPACTION_LENGTH * COMPACTION_CONCURRENCY * 4) 256 buf_addr buf
        in Inr \<lparr>bl_log = log, bl_size = ucast (push_bit 1 (l_size log)), bl_head = 0, bl_tail = 0,
                bl_compact_head = 0, bl_meta = kv_bucket_meta_init\<rparr>))"

definition kv_bucket_log_fini :: "kv_bucket_log \<Rightarrow> kv_bucket_log" where
  "kv_bucket_log_fini bl = bl\<lparr>bl_log := kv_circular_log_fini (bl_log bl), bl_meta := Map.empty\<rparr>"

section \<open>Buckets of a segment\<close>

definition first_bucket :: "kv_bucket_segment \<Rightarrow> kv_bucket res" where
  "first_bucket seg =
     (case seg_chain seg of [] \<Rightarrow> Inl Null_deref
      | ce # _ \<Rightarrow> (case ce_buckets ce of [] \<Rightarrow> Inl Out_of_bounds | b # _ \<Rightarrow> Inr b))"

definition set_chain_length :: "u8 \<Rightarrow> kv_bucket_chain_entry list \<Rightarrow> kv_bucket_chain_entry list" where
  "set_chain_length n ces =
     map (\<lambda>ce. ce\<lparr>ce_buckets := map (\<lambda>b. b\<lparr>chain_length := n\<rparr>) (ce_buckets ce)\<rparr>) ces"

text \<open>\<open>kv_bucket_alloc_extra\<close>; the address of the new bucket comes from the allocator.\<close>

definition kv_bucket_alloc_extra :: "u64 \<Rightarrow> kv_bucket_segment \<Rightarrow> (bool \<times> kv_bucket_segment) res" where
  "kv_bucket_alloc_extra addr seg =
     rbind (if seg_chain seg = [] then Inr 0 else rbind (first_bucket seg) (\<lambda>b. Inr (chain_length b)))
       (\<lambda>len.
         if len = 0x7F then Inr (False, seg)
         else
           let b = zero_bucket\<lparr>b_id := ucast (seg_bucket_id seg), chain_index := len\<rparr>;
               ce = \<lparr>ce_addr = addr, ce_buckets = [b], pre_alloc_bucket = False\<rparr>
           in Inr (True, seg\<lparr>seg_chain := set_chain_length (len + 1) (seg_chain seg @ [ce])\<rparr>))"

definition kv_bucket_free_extra :: "kv_bucket_segment \<Rightarrow> kv_bucket_segment res" where
  "kv_bucket_free_extra seg =
     rbind (c_assert (seg_chain seg \<noteq> [])) (\<lambda>_.
     rbind (first_bucket seg) (\<lambda>b0.
       let ce = last (seg_chain seg);
           ces = (if 1 < length (ce_buckets ce)
                  then butlast (seg_chain seg) @ [ce\<lparr>ce_buckets := butlast (ce_buckets ce)\<rparr>]
                  else butlast (seg_chain seg))
       in Inr (seg\<lparr>seg_chain := set_chain_length (chain_length b0 - 1) ces\<rparr>)))"

text \<open>The debug check of a chain: \<open>bucket_id\<close>, \<open>len\<close> and \<open>i\<close> are its locals.\<close>

fun verify_loop :: "u64 \<Rightarrow> u64 option \<Rightarrow> u64 \<Rightarrow> kv_bucket list \<Rightarrow> unit res" where
  "verify_loop bid len i [] =
     (case len of None \<Rightarrow> Inl Uninit_read | Some n \<Rightarrow> c_assert (n = i))"
| "verify_loop bid len i (b # bs) =
     (if bid = KV_BUCKET_ID_EMPTY then verify_loop (ucast (b_id b)) (Some (ucast (chain_length b))) (i + 1) bs
      else rbind (c_assert (ucast (chain_index b) = i)) (\<lambda>_.
           rbind (c_assert (Some (ucast (chain_length b)) = len)) (\<lambda>_.
           rbind (c_assert (ucast (b_id b) = bid)) (\<lambda>_.
             verify_loop bid len (i + 1) bs))))"

definition verify_buckets :: "kv_bucket_segment \<Rightarrow> unit res" where
  "verify_buckets seg = verify_loop KV_BUCKET_ID_EMPTY None 0 (seg_buckets seg)"

section \<open>Segments\<close>

definition kv_bucket_seg_init :: "u64 \<Rightarrow> kv_bucket_segment" where
  "kv_bucket_seg_init bucket_id =
     \<lparr>seg_bucket_id = bucket_id, seg_chain = [], seg_offset = 0, seg_dirty = False, seg_empty = True\<rparr>"

definition kv_bucket_seg_cleanup :: "kv_bucket_segment \<Rightarrow> kv_bucket_segment" where
  "kv_bucket_seg_cleanup seg = seg\<lparr>seg_chain := [], seg_empty := True\<rparr>"

definition is_empty_seg :: "kv_bucket_segment \<Rightarrow> bool res" where
  "is_empty_seg seg =
     (if seg_chain seg = [] then Inr True
      else rbind (first_bucket seg) (\<lambda>b.
        if chain_length b > 1 then Inr False else Inr (list_all KV_EMPTY_ITEM (items b))))"

definition kv_bucket_seg_commit ::
  "meta_map \<Rightarrow> kv_bucket_segment \<Rightarrow> (meta_map \<times> kv_bucket_segment) res" where
  "kv_bucket_seg_commit m seg =
     rbind (if seg_chain seg = [] then Inr () else verify_buckets seg) (\<lambda>_.
     rbind (c_assert (seg_dirty seg)) (\<lambda>_.
     rbind (is_empty_seg seg) (\<lambda>e.
       if e then Inr (kv_bucket_meta_put m (seg_bucket_id seg) zero_meta, seg\<lparr>seg_dirty := False\<rparr>)
       else rbind (first_bucket seg) (\<lambda>b.
         Inr (kv_bucket_meta_put m (seg_bucket_id seg)
                \<lparr>m_chain_length = chain_length b, m_bucket_offset = seg_offset seg\<rparr>,
              seg\<lparr>seg_dirty := False\<rparr>)))))"

text \<open>
  Reads. \<open>Seg_done\<close> is the immediate call of the callback, \<open>Seg_reading\<close> a read under way
  whose completion is \<open>segment_get_cb\<close>. The buffer of the read and its address come from
  the allocator.
\<close>

datatype seg_get_result = Seg_done bool | Seg_reading "kv_bucket iov_result"

definition kv_bucket_seg_get ::
  "kv_bucket_log \<Rightarrow> kv_bucket_segment \<Rightarrow> kv_bucket_meta option \<Rightarrow> u64 \<Rightarrow> kv_bucket list
     \<Rightarrow> (kv_bucket_segment \<times> seg_get_result) res" where
  "kv_bucket_seg_get bl seg meta_ptr addr buf =
     (let meta = (case meta_ptr of Some m \<Rightarrow> m | None \<Rightarrow> kv_bucket_meta_get (bl_meta bl) (seg_bucket_id seg)) in
      if m_chain_length meta \<noteq> 0 then
        let bs = take (unat (m_chain_length meta)) buf;
            ce = \<lparr>ce_addr = addr, ce_buckets = bs, pre_alloc_bucket = False\<rparr>;
            seg' = seg\<lparr>seg_chain := ce # seg_chain seg, seg_offset := m_bucket_offset meta\<rparr>
        in rbind (kv_circular_log_read (bl_log bl) (ucast (m_bucket_offset meta))
                    \<lparr>iov_base = addr, iov_blocks = bs\<rparr>) (\<lambda>(_, r).
             Inr (seg', Seg_reading r))
      else Inr (seg\<lparr>seg_empty := False\<rparr>, Seg_done True))"

text \<open>The device has filled the buffer of the first chain entry.\<close>

definition seg_fill :: "kv_bucket list \<Rightarrow> kv_bucket_segment \<Rightarrow> kv_bucket_segment" where
  "seg_fill d seg =
     (case seg_chain seg of [] \<Rightarrow> seg | ce # ces \<Rightarrow> seg\<lparr>seg_chain := ce\<lparr>ce_buckets := d\<rparr> # ces\<rparr>)"

definition segment_get_cb ::
  "kv_bucket_log \<Rightarrow> bool \<Rightarrow> bool \<Rightarrow> kv_bucket_segment \<Rightarrow> (kv_bucket_segment \<times> seg_get_result) res" where
  "segment_get_cb bl strict success seg =
     (let meta = kv_bucket_meta_get (bl_meta bl) (seg_bucket_id seg) in
      if \<not> success then Inr (kv_bucket_seg_cleanup seg, Seg_done False)
      else if strict \<and> m_bucket_offset meta \<noteq> seg_offset seg then
        (case seg_chain seg of
           [] \<Rightarrow> Inl Null_deref
         | ce # _ \<Rightarrow>
             if length (ce_buckets ce) < unat (m_chain_length meta) then Inl Out_of_bounds
             else rbind (kv_circular_log_read (bl_log bl) (ucast (m_bucket_offset meta))
                    \<lparr>iov_base = ce_addr ce, iov_blocks = take (unat (m_chain_length meta)) (ce_buckets ce)\<rparr>)
                    (\<lambda>(_, r). Inr (seg\<lparr>seg_offset := m_bucket_offset meta\<rparr>, Seg_reading r)))
      else Inr (seg\<lparr>seg_empty := False\<rparr>, Seg_done True))"

section \<open>Writes and compaction\<close>

record compact_ctx =
  cc_compact_head :: u32
  cc_len :: u32
  cc_segments :: "kv_bucket_segment list"

datatype 'c bl_cb = Bl_caller 'c | Bl_compact compact_ctx

text \<open>
  What a write leaves behind: an append under way with its callback, prefetch reads started
  by a trim, and callbacks of the caller made at once.
\<close>

datatype 'c bl_event =
  Bl_append "'c bl_cb" "kv_bucket iov_result"
| Bl_prefetch "kv_bucket fetch_ctx list"
| Bl_callback 'c bool

text \<open>Runs that are adjacent in memory become one element of the vector.\<close>

definition iov_append :: "kv_bucket iovec list \<Rightarrow> u64 \<Rightarrow> kv_bucket list \<Rightarrow> kv_bucket iovec list" where
  "iov_append iovs base bs =
     (if iovs = [] \<or> iov_base (last iovs) + iov_len (last iovs) * sizeof_kv_bucket \<noteq> base
      then iovs @ [\<lparr>iov_base = base, iov_blocks = bs\<rparr>]
      else butlast iovs @ [(last iovs)\<lparr>iov_blocks := iov_blocks (last iovs) @ bs\<rparr>])"

fun put_bulk_loop ::
  "kv_bucket_log \<Rightarrow> u32 \<Rightarrow> kv_bucket iovec list \<Rightarrow> kv_bucket_segment list
     \<Rightarrow> (kv_bucket_segment list \<times> kv_bucket iovec list) res" where
  "put_bulk_loop bl len iovs [] = Inr ([], iovs)"
| "put_bulk_loop bl len iovs (seg # segs) =
     rbind (verify_buckets seg) (\<lambda>_.
     rbind (first_bucket seg) (\<lambda>b.
       let seg' = seg\<lparr>seg_offset := ucast ((l_tail (bl_log bl) + ucast len) mod l_size (bl_log bl))\<rparr>;
           iovs' = fold (\<lambda>ce acc. iov_append acc (ce_addr ce) (ce_buckets ce)) (seg_chain seg) iovs
       in rbind (put_bulk_loop bl (len + ucast (chain_length b)) iovs' segs) (\<lambda>(segs', iovs'').
            Inr (seg' # segs', iovs''))))"

text \<open>\<open>kv_bucket_log_writev\<close> stamps every bucket with the head and the running tail.\<close>

fun stamp_buckets :: "u32 \<Rightarrow> u32 \<Rightarrow> u32 \<Rightarrow> kv_bucket list \<Rightarrow> u32 \<times> kv_bucket list" where
  "stamp_buckets sz hh tt [] = (tt, [])"
| "stamp_buckets sz hh tt (b # bs) =
     (let tt1 = (tt + 1) mod sz; (tt2, bs') = stamp_buckets sz hh tt1 bs
      in (tt2, b\<lparr>b_head := hh, b_tail := tt1\<rparr> # bs'))"

fun stamp_iovs :: "u32 \<Rightarrow> u32 \<Rightarrow> u32 \<Rightarrow> kv_bucket iovec list \<Rightarrow> u32 \<times> kv_bucket iovec list" where
  "stamp_iovs sz hh tt [] = (tt, [])"
| "stamp_iovs sz hh tt (v # vs) =
     (let (tt1, bs) = stamp_buckets sz hh tt (iov_blocks v); (tt2, vs') = stamp_iovs sz hh tt1 vs
      in (tt2, v\<lparr>iov_blocks := bs\<rparr> # vs'))"

definition writev_append ::
  "kv_bucket_log \<Rightarrow> kv_bucket iovec list \<Rightarrow> (kv_bucket_log \<times> kv_bucket iov_result) res" where
  "writev_append bl iovs =
     (let (tt, iovs') = stamp_iovs (bl_size bl) (bl_head bl) (bl_tail bl) iovs in
      rbind (kv_circular_log_appendv (bl_log bl) iovs') (\<lambda>(log, r).
        Inr (bl\<lparr>bl_tail := tt, bl_log := log\<rparr>, r)))"

text \<open>A chain of the log is live if the meta of its bucket points to it.\<close>

definition chain_live :: "meta_map \<Rightarrow> kv_bucket \<Rightarrow> u32 \<Rightarrow> bool" where
  "chain_live m b offset =
     (let meta = kv_bucket_meta_get m (ucast (b_id b)) in
      m_chain_length meta \<noteq> 0 \<and> m_bucket_offset meta = offset)"

text \<open>The loop of \<open>compact_move_head\<close>: how many dead buckets there are at the head.\<close>

fun move_head_scan :: "nat \<Rightarrow> kv_bucket_log \<Rightarrow> u32 \<Rightarrow> u32 res" where
  "move_head_scan 0 bl i = Inl No_return"
| "move_head_scan (Suc fuel) bl i =
     (let log = bl_log bl in
      if (l_size log - ucast (bl_compact_head bl) + l_head log + ucast i) mod l_size log = 0 then Inr i
      else
        let offset = ucast ((l_head log + ucast i) mod l_size log) :: u32 in
        rbind (kv_circular_log_fetch_one log (ucast offset)) (\<lambda>b.
          if chain_live (bl_meta bl) b offset then Inr i
          else move_head_scan fuel bl (i + ucast (chain_length b))))"

definition compact_move_head :: "kv_bucket_log \<Rightarrow> (kv_bucket_log \<times> 'c bl_event list) res" where
  "compact_move_head bl =
     rbind (move_head_scan (Suc (unat (l_size (bl_log bl)))) bl 0) (\<lambda>i.
     rbind (kv_circular_log_move_head (bl_log bl) (ucast i)) (\<lambda>(log, cs).
       Inr (bl\<lparr>bl_head := (bl_head bl + i) mod bl_size bl, bl_log := log\<rparr>, [Bl_prefetch cs])))"

fun compact_commit ::
  "kv_bucket_log \<Rightarrow> u32 \<Rightarrow> u32 \<Rightarrow> kv_bucket_segment list \<Rightarrow> meta_map res" where
  "compact_commit bl ch len [] = Inr (bl_meta bl)"
| "compact_commit bl ch len (seg # segs) =
     (let meta = kv_bucket_meta_get (bl_meta bl) (seg_bucket_id seg); sz = l_size (bl_log bl) in
      if (sz - ucast ch + ucast (m_bucket_offset meta)) mod sz < ucast len \<and> m_chain_length meta \<noteq> 0
      then rbind (kv_bucket_seg_commit (bl_meta bl) (seg\<lparr>seg_dirty := True\<rparr>)) (\<lambda>(m, _).
             compact_commit (bl\<lparr>bl_meta := m\<rparr>) ch len segs)
      else compact_commit bl ch len segs)"

definition compact_write_cb ::
  "bool \<Rightarrow> compact_ctx \<Rightarrow> kv_bucket_log \<Rightarrow> (kv_bucket_log \<times> 'c bl_event list) res" where
  "compact_write_cb success ctx bl =
     (if \<not> success then Inl Exit_fail
      else rbind (compact_commit bl (cc_compact_head ctx) (cc_len ctx) (cc_segments ctx)) (\<lambda>m.
        compact_move_head (bl\<lparr>bl_meta := m\<rparr>)))"

text \<open>The loop of \<open>compact\<close> that collects the live chains of the next stretch of the log.\<close>

fun compact_collect ::
  "nat \<Rightarrow> kv_bucket_log \<Rightarrow> u32 \<Rightarrow> kv_bucket_segment list \<Rightarrow> (u32 \<times> kv_bucket_segment list) res" where
  "compact_collect 0 bl len segs = Inl No_return"
| "compact_collect (Suc fuel) bl len segs =
     (if \<not> len < ucast COMPACTION_LENGTH then Inr (len, segs)
      else
        let log = bl_log bl;
            offset = ucast ((ucast (bl_compact_head bl) + ucast len) mod l_size log :: u64) :: u32
        in rbind (kv_circular_log_fetch_one log (ucast offset)) (\<lambda>b.
           rbind (c_assert (chain_index b = 0 \<and> chain_length b \<noteq> 0)) (\<lambda>_.
             if chain_live (bl_meta bl) b offset then
               let meta = kv_bucket_meta_get (bl_meta bl) (ucast (b_id b)) in
               rbind (kv_circular_log_fetch_iov log (ucast (m_bucket_offset meta)) (ucast (m_chain_length meta))) (\<lambda>(v0, v1).
                 let runs = takeWhile (\<lambda>v. iov_len v \<noteq> 0) [v0, v1];
                     ces = map (\<lambda>v. \<lparr>ce_addr = iov_base v, ce_buckets = iov_blocks v, pre_alloc_bucket = True\<rparr>) runs;
                     seg = (kv_bucket_seg_init (ucast (b_id b)))\<lparr>seg_empty := False, seg_chain := ces\<rparr>
                 in compact_collect fuel bl (len + ucast (chain_length b)) (segs @ [seg]))
             else compact_collect fuel bl (len + ucast (chain_length b)) segs)))"

text \<open>
  Appending a vector starts a compaction, which appends in turn: the fuel bounds the nesting.
  A compaction starts while fewer than 2048 blocks lie between the head and the compacted
  part, and each one takes at least 512.
\<close>

definition COMPACT_FUEL :: nat where "COMPACT_FUEL = 6"

definition run_bl_cb :: "'c bl_cb \<Rightarrow> kv_bucket_log \<Rightarrow> (kv_bucket_log \<times> 'c bl_event list) res" where
  "run_bl_cb cb bl =
     (case cb of Bl_caller c \<Rightarrow> Inr (bl, [Bl_callback c True]) | Bl_compact ctx \<Rightarrow> compact_write_cb True ctx bl)"

definition with_segments :: "kv_bucket_segment list \<Rightarrow> 'c bl_cb \<Rightarrow> 'c bl_cb" where
  "with_segments segs cb =
     (case cb of Bl_caller c \<Rightarrow> Bl_caller c | Bl_compact ctx \<Rightarrow> Bl_compact (ctx\<lparr>cc_segments := segs\<rparr>))"

definition compact_idle :: "kv_bucket_log \<Rightarrow> bool" where
  "compact_idle bl \<longleftrightarrow>
     log_empty_space (bl_log bl) \<ge> COMPACTION_LENGTH * COMPACTION_CONCURRENCY * 6 \<or>
     (l_size (bl_log bl) - l_head (bl_log bl) + ucast (bl_compact_head bl)) mod l_size (bl_log bl)
       > COMPACTION_LENGTH * COMPACTION_CONCURRENCY"

fun compact :: "nat \<Rightarrow> kv_bucket_log \<Rightarrow> (kv_bucket_log \<times> 'c bl_event list) res"
  and seg_put_bulk :: "nat \<Rightarrow> kv_bucket_log \<Rightarrow> kv_bucket_segment list \<Rightarrow> 'c bl_cb
     \<Rightarrow> (kv_bucket_log \<times> kv_bucket_segment list \<times> 'c bl_event list) res"
  and log_writev :: "nat \<Rightarrow> kv_bucket_log \<Rightarrow> kv_bucket iovec list \<Rightarrow> 'c bl_cb
     \<Rightarrow> (kv_bucket_log \<times> 'c bl_event list) res" where
  "compact 0 bl = Inl No_return"
| "compact (Suc fuel) bl =
     (if compact_idle bl then Inr (bl, [])
      else rbind (compact_collect (Suc (unat COMPACTION_LENGTH)) bl 0 []) (\<lambda>(len, segs).
        let ctx = \<lparr>cc_compact_head = bl_compact_head bl, cc_len = len, cc_segments = segs\<rparr>;
            bl' = bl\<lparr>bl_compact_head :=
                       ucast ((ucast (bl_compact_head bl) + ucast len) mod l_size (bl_log bl) :: u64)\<rparr>
        in rbind (seg_put_bulk fuel bl' segs (Bl_compact ctx)) (\<lambda>(bl'', _, evs). Inr (bl'', evs))))"
| "seg_put_bulk fuel bl segs cb =
     (if list_all (\<lambda>seg. seg_chain seg = []) segs then
        rbind (run_bl_cb cb bl) (\<lambda>(bl', evs). Inr (bl', segs, evs))
      else rbind (put_bulk_loop bl 0 [] segs) (\<lambda>(segs', iovs).
        rbind (log_writev fuel bl iovs (with_segments segs' cb)) (\<lambda>(bl', evs). Inr (bl', segs', evs))))"
| "log_writev fuel bl iovs cb =
     rbind (writev_append bl iovs) (\<lambda>(bl', r).
     rbind (compact fuel bl') (\<lambda>(bl'', evs). Inr (bl'', Bl_append cb r # evs)))"

definition kv_bucket_seg_put_bulk ::
  "kv_bucket_log \<Rightarrow> kv_bucket_segment list \<Rightarrow> 'c \<Rightarrow> (kv_bucket_log \<times> kv_bucket_segment list \<times> 'c bl_event list) res" where
  "kv_bucket_seg_put_bulk bl segs c = seg_put_bulk COMPACT_FUEL bl segs (Bl_caller c)"

definition kv_bucket_seg_put ::
  "kv_bucket_log \<Rightarrow> kv_bucket_segment \<Rightarrow> 'c \<Rightarrow> (kv_bucket_log \<times> kv_bucket_segment list \<times> 'c bl_event list) res" where
  "kv_bucket_seg_put bl seg c = kv_bucket_seg_put_bulk bl [seg] c"

definition kv_bucket_log_writev ::
  "kv_bucket_log \<Rightarrow> kv_bucket iovec list \<Rightarrow> 'c \<Rightarrow> (kv_bucket_log \<times> 'c bl_event list) res" where
  "kv_bucket_log_writev bl iovs c = log_writev COMPACT_FUEL bl iovs (Bl_caller c)"

section \<open>Chains\<close>

text \<open>A run of buckets that is one whole chain of a bucket.\<close>

definition is_chain :: "u48 \<Rightarrow> kv_bucket list \<Rightarrow> bool" where
  "is_chain bid bs \<longleftrightarrow> bs \<noteq> [] \<and> length bs < 128 \<and>
     (\<forall>i < length bs. b_id (bs ! i) = bid \<and> unat (chain_length (bs ! i)) = length bs \<and>
        unat (chain_index (bs ! i)) = i)"

definition seg_wf :: "kv_bucket_segment \<Rightarrow> bool" where
  "seg_wf seg \<longleftrightarrow> (\<forall>ce \<in> set (seg_chain seg). ce_buckets ce \<noteq> []) \<and>
     (seg_chain seg \<noteq> [] \<longrightarrow> is_chain (ucast (seg_bucket_id seg)) (seg_buckets seg))"

lemma seg_buckets_simps [simp]:
  "seg_chain seg = [] \<Longrightarrow> seg_buckets seg = []"
  "seg_buckets (seg\<lparr>seg_chain := xs\<rparr>) = concat (map ce_buckets xs)"
  "seg_buckets (seg\<lparr>seg_dirty := d\<rparr>) = seg_buckets seg"
  "seg_buckets (seg\<lparr>seg_offset := off\<rparr>) = seg_buckets seg"
  by (simp_all add: seg_buckets_def)

lemma first_bucket_eq:
  assumes "seg_wf seg" and "seg_chain seg \<noteq> []"
  shows "first_bucket seg = Inr (hd (seg_buckets seg))" and "seg_buckets seg \<noteq> []"
  using assms by (auto simp: first_bucket_def seg_wf_def seg_buckets_def split: list.splits)

lemma concat_set_chain_length:
  "concat (map ce_buckets (set_chain_length n ces)) =
     map (\<lambda>b. b\<lparr>chain_length := n\<rparr>) (concat (map ce_buckets ces))"
  by (induction ces) (auto simp: set_chain_length_def)

lemma is_chain_hd:
  assumes "is_chain bid bs"
  shows "unat (chain_length (hd bs)) = length bs" and "b_id (hd bs) = bid" and "chain_index (hd bs) = 0"
  using assms by (auto simp: is_chain_def hd_conv_nth unat_eq_zero)

lemma unat_u8_inj: "unat (a :: u8) = unat b \<Longrightarrow> a = b"
  by (simp add: word_unat_eq_iff)

lemma is_chain_grow:
  assumes "bs = [] \<or> is_chain bid bs" and "length bs < 127" and "unat n = length bs" and "b_id z = bid" and "chain_index z = n"
  shows "is_chain bid (map (\<lambda>b. b\<lparr>chain_length := n + 1\<rparr>) (bs @ [z]))"
proof -
  have "unat (n + 1) = length bs + 1" using assms(2,3) by (simp add: unat_word_ariths)
  then show ?thesis using assms
    by (auto simp: is_chain_def nth_append less_Suc_eq)
qed

lemma is_chain_shrink:
  assumes "is_chain bid bs" and "1 < length bs" and "unat n = length bs"
  shows "is_chain bid (map (\<lambda>b. b\<lparr>chain_length := n - 1\<rparr>) (butlast bs))"
proof -
  have "unat (n - 1) = length bs - 1" using assms(2,3) by (simp add: unat_sub word_le_nat_alt)
  then show ?thesis using assms by (auto simp: is_chain_def nth_butlast butlast_conv_take)
qed

lemma set_chain_length_ne:
  "\<forall>ce \<in> set ces. ce_buckets ce \<noteq> [] \<Longrightarrow> \<forall>ce \<in> set (set_chain_length n ces). ce_buckets ce \<noteq> []"
  by (auto simp: set_chain_length_def)

lemma set_chain_length_Nil [simp]: "set_chain_length n ces = [] \<longleftrightarrow> ces = []"
  by (simp add: set_chain_length_def)

lemma alloc_extra_wf:
  assumes wf: "seg_wf seg"
  shows "\<exists>ok seg'. kv_bucket_alloc_extra addr seg = Inr (ok, seg') \<and> seg_wf seg' \<and>
    seg_bucket_id seg' = seg_bucket_id seg \<and> (ok \<longleftrightarrow> length (seg_buckets seg) < 127) \<and>
    map items (seg_buckets seg') =
      map items (seg_buckets seg) @ (if ok then [replicate KV_ITEM_PER_BUCKET zero_item] else [])"
proof -
  define n where "n = (if seg_chain seg = [] then 0 else chain_length (hd (seg_buckets seg)))"
  have c: "seg_chain seg \<noteq> [] \<Longrightarrow> is_chain (ucast (seg_bucket_id seg)) (seg_buckets seg)"
    using wf by (simp add: seg_wf_def)
  have n: "unat n = length (seg_buckets seg)" using is_chain_hd(1)[OF c] by (simp add: n_def)
  have c': "seg_buckets seg = [] \<or> is_chain (ucast (seg_bucket_id seg)) (seg_buckets seg)"
    using c by (cases "seg_chain seg = []") auto
  have len: "length (seg_buckets seg) < 128" using c by (cases "seg_chain seg = []") (auto simp: is_chain_def)
  have r: "(if seg_chain seg = [] then Inr 0 else rbind (first_bucket seg) (\<lambda>b. Inr (chain_length b))) = (Inr n :: u8 res)"
    using first_bucket_eq[OF wf] by (simp add: n_def)
  have eq: "n = 0x7F \<longleftrightarrow> length (seg_buckets seg) = 127"
    using n by (auto simp: word_unat_eq_iff)
  show ?thesis
  proof (cases "n = 0x7F")
    case True
    then show ?thesis using r wf eq by (intro exI[of _ False]) (simp add: kv_bucket_alloc_extra_def)
  next
    case False
    then have lt: "length (seg_buckets seg) < 127" using eq len by simp
    let ?z = "zero_bucket\<lparr>b_id := ucast (seg_bucket_id seg), chain_index := n\<rparr>"
    let ?ce = "\<lparr>ce_addr = addr, ce_buckets = [?z], pre_alloc_bucket = False\<rparr>"
    let ?seg = "seg\<lparr>seg_chain := set_chain_length (n + 1) (seg_chain seg @ [?ce])\<rparr>"
    have e: "kv_bucket_alloc_extra addr seg = Inr (True, ?seg)"
      using r False by (simp add: kv_bucket_alloc_extra_def Let_def)
    have b: "seg_buckets ?seg = map (\<lambda>b. b\<lparr>chain_length := n + 1\<rparr>) (seg_buckets seg @ [?z])"
      by (simp add: concat_set_chain_length seg_buckets_def)
    have "is_chain (ucast (seg_bucket_id seg)) (seg_buckets ?seg)"
      unfolding b using c' n lt by (intro is_chain_grow) auto
    moreover have "\<forall>ce \<in> set (seg_chain ?seg). ce_buckets ce \<noteq> []"
      using wf set_chain_length_ne[of "seg_chain seg @ [?ce]" "n + 1"] by (auto simp: seg_wf_def)
    ultimately have "seg_wf ?seg" by (simp add: seg_wf_def)
    moreover have "map items (seg_buckets ?seg) = map items (seg_buckets seg) @ [replicate KV_ITEM_PER_BUCKET zero_item]"
      unfolding b by (simp add: zero_bucket_def)
    ultimately show ?thesis using e lt by (intro exI[of _ True] exI[of _ ?seg]) simp
  qed
qed

lemma free_extra_wf:
  assumes wf: "seg_wf seg" and ne: "seg_chain seg \<noteq> []"
  shows "\<exists>seg'. kv_bucket_free_extra seg = Inr seg' \<and> seg_wf seg' \<and>
    seg_bucket_id seg' = seg_bucket_id seg \<and> map items (seg_buckets seg') = butlast (map items (seg_buckets seg))"
proof -
  let ?b0 = "hd (seg_buckets seg)" and ?ce = "last (seg_chain seg)"
  define ces where "ces = (if 1 < length (ce_buckets ?ce)
     then butlast (seg_chain seg) @ [?ce\<lparr>ce_buckets := butlast (ce_buckets ?ce)\<rparr>] else butlast (seg_chain seg))"
  let ?seg = "seg\<lparr>seg_chain := set_chain_length (chain_length ?b0 - 1) ces\<rparr>"
  have e: "kv_bucket_free_extra seg = Inr ?seg"
    using first_bucket_eq[OF wf ne] ne by (simp add: kv_bucket_free_extra_def ces_def Let_def)
  have c: "is_chain (ucast (seg_bucket_id seg)) (seg_buckets seg)" using wf ne by (simp add: seg_wf_def)
  have split: "seg_chain seg = butlast (seg_chain seg) @ [?ce]" using ne by simp
  have cene: "ce_buckets ?ce \<noteq> []" using wf ne by (simp add: seg_wf_def)
  have sb: "seg_buckets seg = concat (map ce_buckets (butlast (seg_chain seg))) @ ce_buckets ?ce"
    unfolding seg_buckets_def by (subst split) simp
  have cc: "concat (map ce_buckets ces) = butlast (seg_buckets seg)"
  proof (cases "1 < length (ce_buckets ?ce)")
    case True
    then show ?thesis using cene by (simp add: ces_def sb butlast_append)
  next
    case False
    then have "length (ce_buckets ?ce) = 1" using cene by (cases "ce_buckets ?ce") auto
    then have "butlast (ce_buckets ?ce) = []" by (cases "ce_buckets ?ce") auto
    then show ?thesis using False cene by (simp add: ces_def sb butlast_append)
  qed
  have b: "seg_buckets ?seg = map (\<lambda>b. b\<lparr>chain_length := chain_length ?b0 - 1\<rparr>) (butlast (seg_buckets seg))"
    by (simp add: concat_set_chain_length cc)
  have "\<forall>ce \<in> set ces. ce_buckets ce \<noteq> []"
  proof -
    have "\<forall>ce \<in> set (butlast (seg_chain seg)). ce_buckets ce \<noteq> []"
      using wf by (auto simp: seg_wf_def dest: in_set_butlastD)
    moreover have "1 < length (ce_buckets ?ce) \<Longrightarrow> butlast (ce_buckets ?ce) \<noteq> []"
      by (cases "ce_buckets ?ce" rule: rev_cases) auto
    ultimately show ?thesis by (auto simp: ces_def)
  qed
  then have ne': "\<forall>ce \<in> set (seg_chain ?seg). ce_buckets ce \<noteq> []"
    by (simp add: set_chain_length_ne del: set_chain_length_Nil)
  have "is_chain (ucast (seg_bucket_id seg)) (seg_buckets ?seg)" if "ces \<noteq> []"
  proof -
    have "concat (map ce_buckets ces) \<noteq> []"
      using that \<open>\<forall>ce \<in> set ces. ce_buckets ce \<noteq> []\<close> by (cases ces) auto
    then have "1 < length (seg_buckets seg)" unfolding cc
      by (cases "seg_buckets seg" rule: rev_cases) (auto simp: length_greater_0_conv)
    then show ?thesis unfolding b using c is_chain_hd(1)[OF c] by (intro is_chain_shrink) auto
  qed
  then have "seg_wf ?seg" using ne' by (auto simp: seg_wf_def)
  moreover have "map items (seg_buckets ?seg) = butlast (map items (seg_buckets seg))"
    unfolding b by (simp add: comp_def flip: map_butlast)
  ultimately show ?thesis using e by auto
qed

text \<open>Well-formed chains pass the debug check; the id \<open>KV_BUCKET_ID_EMPTY\<close> is reserved.\<close>

lemma verify_loop_ok:
  assumes "\<forall>j < length bs. b_id (bs ! j) = bid \<and> ucast (chain_length (bs ! j)) = n \<and> unat (chain_index (bs ! j)) = i + j"
    and "(ucast bid :: u64) \<noteq> KV_BUCKET_ID_EMPTY" and "i + length bs < 256" and "unat n = i + length bs"
  shows "verify_loop (ucast bid) (Some n) (word_of_nat i) bs = Inr ()"
  using assms
proof (induction bs arbitrary: i)
  case Nil
  then have "n = word_of_nat i" by (metis add_0_right list.size(3) of_nat_unat ucast_id)
  then show ?case by simp
next
  case (Cons b bs)
  have b: "b_id b = bid" "ucast (chain_length b) = n" "unat (chain_index b) = i" using Cons.prems(1) by force+
  have ci: "ucast (chain_index b) = (word_of_nat i :: u64)"
    using b(3) by (simp flip: b(3)) 
  have "verify_loop (ucast bid) (Some n) (word_of_nat (Suc i)) bs = Inr ()"
  proof (rule Cons.IH)
    show "\<forall>j<length bs. b_id (bs ! j) = bid \<and> ucast (chain_length (bs ! j)) = n \<and> unat (chain_index (bs ! j)) = Suc i + j"
    proof (intro allI impI)
      fix j assume "j < length bs"
      then show "b_id (bs ! j) = bid \<and> ucast (chain_length (bs ! j)) = n \<and> unat (chain_index (bs ! j)) = Suc i + j"
        using Cons.prems(1)[rule_format, of "Suc j"] by simp
    qed
  qed (use Cons.prems in auto)
  then show ?case using b ci Cons.prems(2) by (simp add: add.commute)
qed

lemma verify_buckets_ok:
  assumes "is_chain bid (seg_buckets seg)" and "(ucast bid :: u64) \<noteq> KV_BUCKET_ID_EMPTY"
  shows "verify_buckets seg = Inr ()"
proof -
  obtain b bs where s: "seg_buckets seg = b # bs" using assms(1) by (cases "seg_buckets seg") (auto simp: is_chain_def)
  have c: "length (b # bs) < 128" "\<forall>i < length (b # bs). b_id ((b # bs) ! i) = bid \<and>
      unat (chain_length ((b # bs) ! i)) = length (b # bs) \<and> unat (chain_index ((b # bs) ! i)) = i"
    using assms(1) unfolding s is_chain_def by auto
  have b: "b_id b = bid" "unat (chain_length b) = Suc (length bs)" using c(2)[rule_format, of 0] by auto
  have "verify_loop (ucast bid) (Some (ucast (chain_length b))) (word_of_nat 1) bs = Inr ()"
  proof (rule verify_loop_ok)
    show "\<forall>j<length bs. b_id (bs ! j) = bid \<and> ucast (chain_length (bs ! j)) = (ucast (chain_length b) :: u64) \<and>
        unat (chain_index (bs ! j)) = 1 + j"
    proof (intro allI impI)
      fix j assume "j < length bs"
      then have "b_id (bs ! j) = bid \<and> unat (chain_length (bs ! j)) = Suc (length bs) \<and> unat (chain_index (bs ! j)) = Suc j"
        using c(2)[rule_format, of "Suc j"] by simp
      moreover from this have "chain_length (bs ! j) = chain_length b" using b(2) by (metis unat_u8_inj)
      ultimately show "b_id (bs ! j) = bid \<and> ucast (chain_length (bs ! j)) = (ucast (chain_length b) :: u64) \<and>
        unat (chain_index (bs ! j)) = 1 + j" by simp
    qed
    show "unat (ucast (chain_length b) :: u64) = 1 + length bs"
      using b(2) by simp
  qed (use assms(2) c in auto)
  then show ?thesis using b by (simp add: verify_buckets_def s)
qed

end
