(* ===== verification/Kv_Value_Log.thy ===== *)
theory Kv_Value_Log
  imports Kv_Bucket_Log
begin

unbundle bit_operations_syntax

text \<open>
  \<open>kv_value_log.h\<close> and \<open>kv_value_log.c\<close>: values as runs of bytes in a circular log of
  byte blocks. A second circular log records, for every 256-byte unit of the value log, the
  bucket whose item refers to the value that starts there; compaction uses it to find the
  items of the values at the head and moves the values that are still referred to.
\<close>

section \<open>State\<close>

type_synonym byte_block = "u8 list"
type_synonym bucket_ids_block = "u48 list"

definition KV_VALUE_LOG_UNIT_SHIFT :: nat where "KV_VALUE_LOG_UNIT_SHIFT = 8"
definition KV_VALUE_LOG_UNIT_SIZE :: u64 where "KV_VALUE_LOG_UNIT_SIZE = 256"
definition KV_VALUE_LOG_UNIT_MASK :: u64 where "KV_VALUE_LOG_UNIT_MASK = 255"
definition BUCKET_ID_DUMP_BLKS :: u64 where "BUCKET_ID_DUMP_BLKS = 128"
definition BUCKET_ID_PER_BLK :: u64 where "BUCKET_ID_PER_BLK = 85"
definition VALUE_COMPACTION_CONCURRENCY :: u64 where "VALUE_COMPACTION_CONCURRENCY = 4"
definition VALUE_COMPACTION_LENGTH :: u64 where "VALUE_COMPACTION_LENGTH = 256"

record bucket_ids_ctx =
  ids_log :: "bucket_ids_block kv_circular_log"
  blk_buf0 :: "bucket_ids_block list"
  blk_buf1 :: "bucket_ids_block list"
  blk_index :: bool
  is_dumping :: bool

record kv_value_log =
  vl_log :: "byte_block kv_circular_log"
  has_bucket_log :: bool
  blk_mask :: u64
  blk_shift :: nat
  vl_compact_head :: u64
  is_compaction_started :: bool
  bucket_id_log :: bucket_ids_ctx
  id_log_size :: u64

definition kv_value_log_offset :: "kv_value_log \<Rightarrow> u64" where
  "kv_value_log_offset vl = push_bit (blk_shift vl) (l_tail (vl_log vl))"

definition align :: "kv_value_log \<Rightarrow> u64 \<Rightarrow> u64" where
  "align vl sz = (if sz AND blk_mask vl \<noteq> 0 then drop_bit (blk_shift vl) sz + 1 else drop_bit (blk_shift vl) sz)"

definition dword_align :: "u64 \<Rightarrow> u64" where
  "dword_align sz = (if sz AND 3 \<noteq> 0 then (sz AND NOT 3) + 4 else sz)"

section \<open>Reads\<close>

record read_ctx =
  rc_buf_offset :: u16
  rc_len_in_buf :: u16

text \<open>
  The blocks of a vector to be read are placeholders: only their number matters. A read at
  an unaligned offset goes through a bounce buffer of one block at \<open>buf\<close>.
\<close>

definition read_iov :: "u64 \<Rightarrow> u64 \<Rightarrow> byte_block iovec" where
  "read_iov base n = \<lparr>iov_base = base, iov_blocks = replicate (unat n) []\<rparr>"

definition kv_value_log_read ::
  "kv_value_log \<Rightarrow> u64 \<Rightarrow> u64 \<Rightarrow> u32 \<Rightarrow> u64 \<Rightarrow> (read_ctx option \<times> byte_block iov_result) res" where
  "kv_value_log_read vl offset value vlen buf =
     rbind (c_assert (offset AND 3 = 0)) (\<lambda>_.
       let blk = drop_bit (blk_shift vl) offset in
       if offset AND blk_mask vl \<noteq> 0 then
         let buf_offset = ucast (offset AND blk_mask vl) :: u16;
             len_in_buf = ucast (l_block_size (vl_log vl) - ucast buf_offset) :: u16
         in if vlen > ucast len_in_buf then
              rbind (kv_circular_log_readv (vl_log vl) blk
                       [read_iov buf 1, read_iov (value + ucast len_in_buf) (align vl (ucast (vlen - ucast len_in_buf)))])
                (\<lambda>(_, r). Inr (Some \<lparr>rc_buf_offset = buf_offset, rc_len_in_buf = len_in_buf\<rparr>, r))
            else
              rbind (kv_circular_log_read (vl_log vl) blk (read_iov buf 1))
                (\<lambda>(_, r). Inr (Some \<lparr>rc_buf_offset = buf_offset, rc_len_in_buf = ucast vlen\<rparr>, r))
       else rbind (kv_circular_log_read (vl_log vl) blk (read_iov value (align vl (ucast vlen))))
              (\<lambda>(_, r). Inr (None, r)))"

text \<open>\<open>read_cb\<close> copies the part of the value in the bounce buffer to the front of the value.\<close>

definition read_cb :: "read_ctx \<Rightarrow> byte_block \<Rightarrow> u8 list \<Rightarrow> u8 list" where
  "read_cb ctx buf value =
     blit value 0 (take (unat (rc_len_in_buf ctx)) (drop (unat (rc_buf_offset ctx)) buf))"

section \<open>The log of bucket ids\<close>

definition offset_to_block :: "u64 \<Rightarrow> u64" where
  "offset_to_block val_offset = drop_bit KV_VALUE_LOG_UNIT_SHIFT val_offset div BUCKET_ID_PER_BLK"

definition bucket_id_index :: "u64 \<Rightarrow> nat" where
  "bucket_id_index val_offset = unat (drop_bit KV_VALUE_LOG_UNIT_SHIFT val_offset mod BUCKET_ID_PER_BLK)"

definition get_bucket_id_from_blk :: "bucket_ids_block \<Rightarrow> u64 \<Rightarrow> u48" where
  "get_bucket_id_from_blk blk val_offset = blk ! bucket_id_index val_offset"

definition get_bucket_id :: "kv_value_log \<Rightarrow> u64 \<Rightarrow> u48 res" where
  "get_bucket_id vl val_offset =
     rbind (kv_circular_log_fetch_one (ids_log (bucket_id_log vl)) (offset_to_block val_offset)) (\<lambda>blk.
       Inr (get_bucket_id_from_blk blk val_offset))"

text \<open>\<open>get_bucket_id\<close> returns a pointer into the window; this is an assignment through it.\<close>

definition set_bucket_id :: "kv_value_log \<Rightarrow> u64 \<Rightarrow> u48 \<Rightarrow> kv_value_log res" where
  "set_bucket_id vl val_offset v =
     (let log = ids_log (bucket_id_log vl); f = l_fetch log;
          o1 = (l_size log - l_head log + offset_to_block val_offset) mod l_size log;
          p = unat ((f_head f + o1) mod f_size f)
      in rbind (kv_circular_log_fetch_one log (offset_to_block val_offset)) (\<lambda>blk.
           let log' = log\<lparr>l_fetch := f\<lparr>f_buffer := (f_buffer f)[p := blk[bucket_id_index val_offset := v]]\<rparr>\<rparr>
           in Inr (vl\<lparr>bucket_id_log := (bucket_id_log vl)\<lparr>ids_log := log'\<rparr>\<rparr>)))"

definition empty_ids :: "bucket_ids_block list" where
  "empty_ids = replicate (unat BUCKET_ID_DUMP_BLKS) (replicate (unat BUCKET_ID_PER_BLK) (-1))"

definition dump_bucket_id_cb :: "bool \<Rightarrow> kv_value_log \<Rightarrow> kv_value_log res" where
  "dump_bucket_id_cb success vl =
     (if \<not> success then Inl Exit_fail
      else Inr (vl\<lparr>bucket_id_log := (bucket_id_log vl)\<lparr>is_dumping := False\<rparr>\<rparr>))"

definition cur_buf :: "bucket_ids_ctx \<Rightarrow> bucket_ids_block list" where
  "cur_buf c = (if blk_index c then blk_buf1 c else blk_buf0 c)"

definition set_cur_buf :: "bucket_ids_block list \<Rightarrow> bucket_ids_ctx \<Rightarrow> bucket_ids_ctx" where
  "set_cur_buf b c = (if blk_index c then c\<lparr>blk_buf1 := b\<rparr> else c\<lparr>blk_buf0 := b\<rparr>)"

text \<open>The address of the two buffers is immaterial; both are block aligned.\<close>

definition append_bucket_id ::
  "kv_value_log \<Rightarrow> u64 \<Rightarrow> u64 \<Rightarrow> (kv_value_log \<times> bucket_ids_block iov_result list) res" where
  "append_bucket_id vl val_offset bucket_id =
     (let c = bucket_id_log vl; log = ids_log c;
          blk_i = (l_size log - l_tail log + offset_to_block val_offset) mod l_size log
      in rbind (c_assert (blk_i < 2 * BUCKET_ID_DUMP_BLKS)) (\<lambda>_.
           rbind (if blk_i \<ge> BUCKET_ID_DUMP_BLKS then
                    if is_dumping c then Inl Exit_fail
                    else rbind (kv_circular_log_append log \<lparr>iov_base = 0, iov_blocks = cur_buf c\<rparr>) (\<lambda>(log', r).
                      let c1 = c\<lparr>is_dumping := True, ids_log := log', blk_index := \<not> blk_index c\<rparr>
                      in Inr (set_cur_buf empty_ids c1, blk_i - BUCKET_ID_DUMP_BLKS, [r]))
                  else Inr (c, blk_i, []))
             (\<lambda>(c2, i, ios).
               let b = cur_buf c2;
                   b' = b[unat i := (b ! unat i)[bucket_id_index val_offset := ucast bucket_id]]
               in Inr (vl\<lparr>bucket_id_log := set_cur_buf b' c2\<rparr>, ios))))"

section \<open>Events\<close>

record item_list_entry =
  ie_seg :: u64
  ie_value_offset :: u64
  ie_item :: "item_pos option"

record vcompact_ctx =
  vc_segments :: "kv_bucket_segment list"
  vc_items :: "item_list_entry list"
  vc_iocnt :: u32

datatype 'c vl_cb = Vl_caller 'c | Vl_compact vcompact_ctx

datatype 'c vl_event =
  Vl_append "'c vl_cb" "byte_block iov_result"
| Vl_dump "bucket_ids_block iov_result"
| Vl_prefetch "byte_block fetch_ctx list"
| Vl_id_prefetch "bucket_ids_block fetch_ctx list"
| Vl_lock vcompact_ctx
| Vl_unlock "kv_bucket_segment list"
| Vl_bucket "vcompact_ctx bl_event list"

section \<open>Moving the head\<close>

text \<open>The loop of \<open>on_val_log_head_move\<close>; the result is the last offset it looked at.\<close>

fun head_move_scan :: "nat \<Rightarrow> kv_value_log \<Rightarrow> u64 \<Rightarrow> u64 \<Rightarrow> u64 \<Rightarrow> u64 res" where
  "head_move_scan 0 vl lim i last_off = Inl No_return"
| "head_move_scan (Suc fuel) vl lim i last_off =
     (if \<not> i \<le> lim then Inr last_off
      else
        let log = vl_log vl;
            val_offset = (push_bit (blk_shift vl) (l_head log) + i) mod push_bit (blk_shift vl) (l_size log)
        in rbind (get_bucket_id vl val_offset) (\<lambda>bid.
             if (ucast bid :: u64) \<noteq> KV_BUCKET_ID_EMPTY then Inr val_offset
             else head_move_scan fuel vl lim (i + KV_VALUE_LOG_UNIT_SIZE) val_offset))"

definition on_val_log_head_move :: "kv_value_log \<Rightarrow> (kv_value_log \<times> u64 \<times> 'c vl_event list) res" where
  "on_val_log_head_move vl =
     (let log = vl_log vl;
          max_blk = (l_size log + vl_compact_head vl - l_head log) mod l_size log;
          lim = push_bit (blk_shift vl) max_blk
      in rbind (head_move_scan (unat (drop_bit KV_VALUE_LOG_UNIT_SHIFT lim) + 2) vl lim 0 0) (\<lambda>vo.
           let val_offset = vo AND NOT (blk_mask vl);
               c = bucket_id_log vl; il = ids_log c;
               offset = (l_size il + offset_to_block val_offset - l_head il) mod l_size il
           in rbind (kv_circular_log_move_head il offset) (\<lambda>(il', cs).
                Inr (vl\<lparr>bucket_id_log := c\<lparr>ids_log := il'\<rparr>\<rparr>, val_offset, [Vl_id_prefetch cs]))))"

definition vl_compact_move_head :: "kv_value_log \<Rightarrow> (kv_value_log \<times> 'c vl_event list) res" where
  "vl_compact_move_head vl =
     rbind (on_val_log_head_move vl) (\<lambda>(vl1, val_offset, evs).
       let log = vl_log vl1; blk = drop_bit (blk_shift vl1) val_offset;
           offset = (l_size log + blk - l_head log) mod l_size log
       in rbind (kv_circular_log_move_head log offset) (\<lambda>(log', cs).
            Inr (vl1\<lparr>vl_log := log'\<rparr>, evs @ [Vl_prefetch cs])))"

section \<open>Compaction\<close>

fun clear_ids :: "kv_value_log \<Rightarrow> item_list_entry list \<Rightarrow> kv_value_log res" where
  "clear_ids vl [] = Inr vl"
| "clear_ids vl (e # es) = rbind (set_bucket_id vl (ie_value_offset e) (-1)) (\<lambda>vl'. clear_ids vl' es)"

fun commit_segments :: "meta_map \<Rightarrow> kv_bucket_segment list \<Rightarrow> (meta_map \<times> kv_bucket_segment list) res" where
  "commit_segments m [] = Inr (m, [])"
| "commit_segments m (seg # segs) =
     rbind (kv_bucket_seg_commit m seg) (\<lambda>(m', seg').
     rbind (commit_segments m' segs) (\<lambda>(m'', segs'). Inr (m'', seg' # segs')))"

text \<open>
  \<open>compact_write\<close>, the callback of the two writes of a compaction. The first completion
  only counts; \<open>None\<close> stands for the freed context.
\<close>

definition compact_write ::
  "bool \<Rightarrow> vcompact_ctx \<Rightarrow> kv_bucket_log \<Rightarrow> kv_value_log
     \<Rightarrow> (vcompact_ctx option \<times> kv_bucket_log \<times> kv_value_log \<times> 'c vl_event list) res" where
  "compact_write success ctx bl vl =
     (if \<not> success then Inl Exit_fail
      else
        let c = vc_iocnt ctx - 1 in
        if c \<noteq> 0 then Inr (Some (ctx\<lparr>vc_iocnt := c\<rparr>), bl, vl, [])
        else rbind (clear_ids vl (vc_items ctx)) (\<lambda>vl1.
             rbind (commit_segments (bl_meta bl) (vc_segments ctx)) (\<lambda>(m, segs).
             rbind (vl_compact_move_head vl1) (\<lambda>(vl2, evs).
               Inr (None, bl\<lparr>bl_meta := m\<rparr>, vl2, Vl_unlock segs # evs)))))"

text \<open>
  Values are moved inside the prefetch buffer, seen as one run of bytes: an element of the
  vector is an index into it and a number of blocks.
\<close>

record val_iov_state =
  vi_bytes :: "u8 list"
  vi_iovs :: "(u64 \<times> u64) list"

definition last_buf :: "kv_value_log \<Rightarrow> (u64 \<times> u64) list \<Rightarrow> u64" where
  "last_buf vl iovs = (let (base, len) = last iovs in base + push_bit (blk_shift vl) (len - 1))"

definition append_val_iov ::
  "kv_value_log \<Rightarrow> val_iov_state \<Rightarrow> u64 \<Rightarrow> u64 \<Rightarrow> u64 \<Rightarrow> val_iov_state res" where
  "append_val_iov vl st tail0 src len =
     (let tail = tail0 AND blk_mask vl in
      if tail \<noteq> 0 then
        if vi_iovs st = [] then Inl Out_of_bounds
        else
          let dst = unat (last_buf vl (vi_iovs st) + tail);
              n = push_bit (blk_shift vl) 1 - tail;
              move = (\<lambda>k. st\<lparr>vi_bytes := blit (vi_bytes st) dst (take (unat k) (drop (unat src) (vi_bytes st)))\<rparr>)
          in if len \<le> n then Inr (move len)
             else Inr ((move n)\<lparr>vi_iovs := vi_iovs st @ [(src + n, align vl (len - n))]\<rparr>)
      else Inr (st\<lparr>vi_iovs := vi_iovs st @ [(src, align vl len)]\<rparr>))"

text \<open>Position of the item of a segment whose value starts in a given unit.\<close>

definition value_in_unit :: "u64 \<Rightarrow> kv_item \<Rightarrow> bool" where
  "value_in_unit off it \<longleftrightarrow>
     \<not> KV_EMPTY_ITEM it \<and> (ucast (value_offset it) :: u64) AND NOT KV_VALUE_LOG_UNIT_MASK = off"

definition find_value_item :: "kv_bucket_segment \<Rightarrow> u64 \<Rightarrow> item_pos option" where
  "find_value_item seg off = locate (value_in_unit off) (seg_buckets seg) 0"

definition seg_of :: "kv_bucket_segment list \<Rightarrow> u64 \<Rightarrow> kv_bucket_segment option" where
  "seg_of segs bid = List.find (\<lambda>s. seg_bucket_id s = bid) segs"

fun resolve_items ::
  "kv_value_log \<Rightarrow> kv_bucket_segment list \<Rightarrow> item_list_entry list \<Rightarrow> (kv_value_log \<times> item_list_entry list) res" where
  "resolve_items vl segs [] = Inr (vl, [])"
| "resolve_items vl segs (e # es) =
     (case seg_of segs (ie_seg e) of
        None \<Rightarrow> Inl Null_deref
      | Some seg \<Rightarrow>
          (case find_value_item seg (ie_value_offset e) of
             Some p \<Rightarrow> rbind (resolve_items vl segs es) (\<lambda>(vl', es'). Inr (vl', e\<lparr>ie_item := Some p\<rparr> # es'))
           | None \<Rightarrow> rbind (set_bucket_id vl (ie_value_offset e) (-1)) (\<lambda>vl'. resolve_items vl' segs es)))"

definition flat_bytes :: "kv_value_log \<Rightarrow> u8 list" where
  "flat_bytes vl = concat (f_buffer (l_fetch (vl_log vl)))"

fun chunks :: "nat \<Rightarrow> nat \<Rightarrow> u8 list \<Rightarrow> byte_block list" where
  "chunks 0 sz bs = []"
| "chunks (Suc n) sz bs = take sz bs # chunks n sz (drop sz bs)"

definition next_value_tail :: "u64 \<Rightarrow> u32 \<Rightarrow> u64" where
  "next_value_tail tail vlen =
     (let next_tail = tail + dword_align (ucast vlen) in
      if drop_bit KV_VALUE_LOG_UNIT_SHIFT tail = drop_bit KV_VALUE_LOG_UNIT_SHIFT next_tail
      then (tail AND NOT KV_VALUE_LOG_UNIT_MASK) + KV_VALUE_LOG_UNIT_SIZE else next_tail)"

fun move_values ::
  "kv_value_log \<Rightarrow> kv_bucket_segment list \<Rightarrow> val_iov_state \<Rightarrow> u64 \<Rightarrow> item_list_entry list
     \<Rightarrow> (kv_value_log \<times> kv_bucket_segment list \<times> val_iov_state \<times> bucket_ids_block iov_result list) res" where
  "move_values vl segs st tail [] = Inr (vl, segs, st, [])"
| "move_values vl segs st tail (e # es) =
     (case (seg_of segs (ie_seg e), ie_item e) of
        (Some seg, Some p) \<Rightarrow>
          let item = seg_item seg p; voff = ucast (value_offset item) :: u64; vlen = value_length item;
              val_blk = drop_bit (blk_shift vl) voff;
              val_end = align vl (voff + ucast vlen);
              addr = f_addr (l_fetch (vl_log vl))
          in if \<not> kv_circular_log_is_fetchable (vl_log vl) val_end then Inl Exit_fail
             else rbind (kv_circular_log_fetch_iov (vl_log vl) val_blk (val_end - val_blk)) (\<lambda>(v0, v1).
               rbind (if iov_len v1 \<noteq> 0 then
                        let offset_in_buf = ucast (voff AND blk_mask vl) :: u32;
                            len = ucast (push_bit (blk_shift vl) (iov_len v0)) - offset_in_buf :: u32
                        in rbind (append_val_iov vl st tail (iov_base v0 - addr + ucast offset_in_buf) (ucast len)) (\<lambda>st1.
                             append_val_iov vl st1 tail (iov_base v1 - addr) (ucast (vlen - len)))
                      else append_val_iov vl st tail (iov_base v0 - addr + (voff AND blk_mask vl)) (ucast vlen))
                 (\<lambda>st'.
                   let new_off = ucast ((kv_value_log_offset vl + tail) mod push_bit (blk_shift vl) (l_size (vl_log vl))) :: u48;
                       seg' = seg_update_item seg p (\<lambda>it. it\<lparr>value_offset := new_off\<rparr>);
                       segs' = map (\<lambda>s. if seg_bucket_id s = ie_seg e then seg' else s) segs
                   in rbind (append_bucket_id vl (ucast new_off) (ie_seg e)) (\<lambda>(vl', ios).
                      rbind (move_values vl' segs' st' (next_value_tail tail vlen) es) (\<lambda>(vl'', segs'', st'', ios').
                        Inr (vl'', segs'', st'', ios @ ios')))))
      | _ \<Rightarrow> Inl Null_deref)"

definition val_iovs :: "kv_value_log \<Rightarrow> val_iov_state \<Rightarrow> byte_block iovec list" where
  "val_iovs vl st =
     map (\<lambda>(i, n). \<lparr>iov_base = f_addr (l_fetch (vl_log vl)) + i,
                   iov_blocks = chunks (unat n) (unat (l_block_size (vl_log vl))) (drop (unat i) (vi_bytes st))\<rparr>)
       (vi_iovs st)"

definition store_bytes :: "kv_value_log \<Rightarrow> u8 list \<Rightarrow> kv_value_log" where
  "store_bytes vl bs =
     (let log = vl_log vl; f = l_fetch log in
      vl\<lparr>vl_log := log\<lparr>l_fetch := f\<lparr>f_buffer :=
        chunks (length (f_buffer f)) (unat (l_block_size log)) bs\<rparr>\<rparr>\<rparr>)"

definition compact_lock_cb ::
  "vcompact_ctx \<Rightarrow> kv_bucket_log \<Rightarrow> kv_value_log
     \<Rightarrow> (vcompact_ctx option \<times> kv_bucket_log \<times> kv_value_log \<times> 'c vl_event list) res" where
  "compact_lock_cb ctx bl vl =
     rbind (resolve_items vl (vc_segments ctx) (vc_items ctx)) (\<lambda>(vl1, entries).
       let used = (\<lambda>s. list_ex (\<lambda>e. ie_seg e = seg_bucket_id s) entries);
           keep = map (\<lambda>s. s\<lparr>seg_dirty := True\<rparr>) (filter used (vc_segments ctx));
           unlock_segs = filter (\<lambda>s. \<not> used s) (vc_segments ctx);
           unlock = (if unlock_segs = [] then [] else [Vl_unlock unlock_segs])
       in if keep = [] then
            rbind (vl_compact_move_head vl1) (\<lambda>(vl2, evs). Inr (None, bl, vl2, unlock @ evs))
          else
            rbind (move_values vl1 keep \<lparr>vi_bytes = flat_bytes vl1, vi_iovs = []\<rparr> 0 entries) (\<lambda>(vl2, segs, st, ios).
              let ctx' = \<lparr>vc_segments = segs, vc_items = entries, vc_iocnt = 2\<rparr>;
                  vl3 = store_bytes vl2 (vi_bytes st)
              in rbind (kv_bucket_seg_put_bulk bl segs ctx') (\<lambda>(bl', segs', bevs).
                 rbind (kv_circular_log_appendv (vl_log vl3) (val_iovs vl3 st)) (\<lambda>(log', r).
                   let ctx'' = ctx'\<lparr>vc_segments := segs'\<rparr> in
                   Inr (Some ctx'', bl', vl3\<lparr>vl_log := log'\<rparr>,
                        unlock @ map Vl_dump ios @ [Vl_bucket bevs, Vl_append (Vl_compact ctx'') r])))))"

text \<open>The loop of \<open>compact\<close>: the units of the next stretch of the log and their buckets.\<close>

fun collect_units ::
  "kv_value_log \<Rightarrow> u64 list \<Rightarrow> kv_bucket_segment list \<Rightarrow> item_list_entry list
     \<Rightarrow> (kv_bucket_segment list \<times> item_list_entry list) res" where
  "collect_units vl [] segs es = Inr (segs, es)"
| "collect_units vl (i # is) segs es =
     (let val_offset = (push_bit (blk_shift vl) (vl_compact_head vl) + i) mod push_bit (blk_shift vl) (l_size (vl_log vl))
      in rbind (get_bucket_id vl val_offset) (\<lambda>v.
           let bucket_id = ucast v :: u64 in
           if bucket_id = KV_BUCKET_ID_EMPTY then collect_units vl is segs es
           else
             let segs' = (if seg_of segs bucket_id = None then segs @ [kv_bucket_seg_init bucket_id] else segs);
                 e = \<lparr>ie_seg = bucket_id, ie_value_offset = val_offset, ie_item = None\<rparr>
             in collect_units vl is segs' (es @ [e])))"

definition compact_units :: "kv_value_log \<Rightarrow> u64 list" where
  "compact_units vl =
     map (\<lambda>k. word_of_nat k * KV_VALUE_LOG_UNIT_SIZE)
       [0..<unat (drop_bit KV_VALUE_LOG_UNIT_SHIFT (push_bit (blk_shift vl) VALUE_COMPACTION_LENGTH))]"

definition vl_compact_idle :: "kv_value_log \<Rightarrow> bool" where
  "vl_compact_idle vl \<longleftrightarrow>
     \<not> has_bucket_log vl \<or>
     log_empty_space (vl_log vl) \<ge> VALUE_COMPACTION_LENGTH * VALUE_COMPACTION_CONCURRENCY * 8 \<or>
     (l_size (vl_log vl) - l_head (vl_log vl) + vl_compact_head vl) mod l_size (vl_log vl)
       > VALUE_COMPACTION_LENGTH * VALUE_COMPACTION_CONCURRENCY"

definition vl_compact :: "kv_value_log \<Rightarrow> (kv_value_log \<times> 'c vl_event list) res" where
  "vl_compact vl =
     (if vl_compact_idle vl then Inr (vl, [])
      else
        let vl1 = vl\<lparr>is_compaction_started := True\<rparr> in
        rbind (collect_units vl1 (compact_units vl1) [] []) (\<lambda>(segs, es).
          let vl2 = vl1\<lparr>vl_compact_head := (vl_compact_head vl1 + VALUE_COMPACTION_LENGTH) mod l_size (vl_log vl1)\<rparr>
          in if segs = [] then vl_compact_move_head vl2
             else Inr (vl2, [Vl_lock \<lparr>vc_segments = segs, vc_items = es, vc_iocnt = 0\<rparr>])))"

section \<open>Writes\<close>

text \<open>\<open>kv_value_log_write\<close>: the value with its padding to whole blocks is at \<open>value\<close>.\<close>

definition kv_value_log_write ::
  "kv_value_log \<Rightarrow> u64 \<Rightarrow> u64 \<Rightarrow> u8 list \<Rightarrow> u32 \<Rightarrow> 'c \<Rightarrow> (kv_value_log \<times> 'c vl_event list) res" where
  "kv_value_log_write vl bucket_id value bytes vlen c =
     rbind (append_bucket_id vl (kv_value_log_offset vl) bucket_id) (\<lambda>(vl1, ios).
     rbind (kv_circular_log_append (vl_log vl1)
              \<lparr>iov_base = value, iov_blocks = chunks (unat (align vl1 (ucast vlen))) (unat (l_block_size (vl_log vl1))) bytes\<rparr>)
       (\<lambda>(log', r).
     rbind (vl_compact (vl1\<lparr>vl_log := log'\<rparr>)) (\<lambda>(vl2, evs).
       Inr (vl2, map Vl_dump ios @ [Vl_append (Vl_caller c) r] @ evs))))"

fun buffered_offset_loop :: "kv_value_log \<Rightarrow> u64 \<Rightarrow> u32 list \<Rightarrow> u64 list res" where
  "buffered_offset_loop vl offset [] = Inr []"
| "buffered_offset_loop vl offset (n # ns) =
     (let offset' = offset + ucast n in
      rbind (c_assert (drop_bit (blk_shift vl) offset' = l_tail (vl_log vl))) (\<lambda>_.
      rbind (buffered_offset_loop vl offset' ns) (\<lambda>os. Inr (offset # os))))"

definition kv_value_log_buffered_offset :: "kv_value_log \<Rightarrow> u32 list \<Rightarrow> u64 list res" where
  "kv_value_log_buffered_offset vl lens = buffered_offset_loop vl (kv_value_log_offset vl) lens"

fun append_bucket_ids ::
  "kv_value_log \<Rightarrow> (u64 \<times> u64) list \<Rightarrow> (kv_value_log \<times> bucket_ids_block iov_result list) res" where
  "append_bucket_ids vl [] = Inr (vl, [])"
| "append_bucket_ids vl ((off, bid) # xs) =
     rbind (append_bucket_id vl off bid) (\<lambda>(vl', ios).
     rbind (append_bucket_ids vl' xs) (\<lambda>(vl'', ios'). Inr (vl'', ios @ ios')))"

definition kv_value_log_buffered_write ::
  "kv_value_log \<Rightarrow> u64 list \<Rightarrow> u64 list \<Rightarrow> u64 \<Rightarrow> u8 list \<Rightarrow> u32 list \<Rightarrow> 'c
     \<Rightarrow> (kv_value_log \<times> 'c vl_event list) res" where
  "kv_value_log_buffered_write vl offsets bucket_ids value bytes lens c =
     rbind (append_bucket_ids vl (zip offsets bucket_ids)) (\<lambda>(vl1, ios).
       let total = sum_list lens in
       rbind (kv_circular_log_append (vl_log vl1)
                \<lparr>iov_base = value, iov_blocks = chunks (unat (align vl1 (ucast total))) (unat (l_block_size (vl_log vl1))) bytes\<rparr>)
         (\<lambda>(log', r).
       rbind (vl_compact (vl1\<lparr>vl_log := log'\<rparr>)) (\<lambda>(vl2, evs).
         Inr (vl2, map Vl_dump ios @ [Vl_append (Vl_caller c) r] @ evs))))"

section \<open>Initialisation\<close>

text \<open>The loop that finds the lowest set bit of the block size; at most 63 rounds.\<close>

fun find_shift :: "nat \<Rightarrow> u64 \<Rightarrow> nat \<Rightarrow> nat res" where
  "find_shift 0 block_size i = Inl No_return"
| "find_shift (Suc fuel) block_size i =
     (if drop_bit i block_size AND 1 \<noteq> 0 then Inr i else find_shift fuel block_size (Suc i))"

definition null_bucket_ids :: bucket_ids_ctx where
  "null_bucket_ids = \<lparr>ids_log = kv_circular_log_init 0 0 0 0 0 0 0 0 0 [], blk_buf0 = [], blk_buf1 = [],
     blk_index = False, is_dumping = False\<rparr>"

definition bucket_id_log_init ::
  "u32 \<Rightarrow> u64 \<Rightarrow> bucket_ids_block list \<Rightarrow> bucket_ids_block list \<Rightarrow> kv_value_log \<Rightarrow> kv_value_log res" where
  "bucket_id_log_init thread buf_addr buf other vl =
     rbind (c_assert (push_bit (blk_shift vl) (1 :: u64) = 512)) (\<lambda>_.
       let log = vl_log vl;
           idsz = offset_to_block (push_bit (blk_shift vl) (l_size log)) + 1;
           il = kv_circular_log_init (l_block_size log) thread (l_base log + l_size log) idsz 0 0
                  (BUCKET_ID_DUMP_BLKS * 2) (BUCKET_ID_DUMP_BLKS div 8) buf_addr buf
       in Inr (vl\<lparr>id_log_size := idsz,
                  bucket_id_log := \<lparr>ids_log = il, blk_buf0 = empty_ids, blk_buf1 = other, blk_index = False,
                                    is_dumping = False\<rparr>\<rparr>))"

definition kv_value_log_init ::
  "u64 \<Rightarrow> u32 \<Rightarrow> bool \<Rightarrow> u64 \<Rightarrow> u64 \<Rightarrow> u64 \<Rightarrow> byte_block list \<Rightarrow> u64 \<Rightarrow> bucket_ids_block list
     \<Rightarrow> bucket_ids_block list \<Rightarrow> kv_value_log res" where
  "kv_value_log_init block_size thread has_bl b sz buf_addr buf id_addr id_buf id_other =
     rbind (find_shift 64 block_size 0) (\<lambda>sh.
     rbind (c_assert (block_size = push_bit sh 1)) (\<lambda>_.
       let log = kv_circular_log_init block_size thread b sz 0 0
                   (VALUE_COMPACTION_LENGTH * VALUE_COMPACTION_CONCURRENCY * 8) 256 buf_addr buf
       in bucket_id_log_init thread id_addr id_buf id_other
            \<lparr>vl_log = log, has_bucket_log = has_bl, blk_mask = block_size - 1, blk_shift = sh,
             vl_compact_head = 0, is_compaction_started = False,
             bucket_id_log = null_bucket_ids, id_log_size = 0\<rparr>))"

definition kv_value_log_fini :: "kv_value_log \<Rightarrow> kv_value_log" where
  "kv_value_log_fini vl =
     vl\<lparr>vl_log := kv_circular_log_fini (vl_log vl),
        bucket_id_log := (bucket_id_log vl)\<lparr>ids_log := kv_circular_log_fini (ids_log (bucket_id_log vl)),
          blk_buf0 := [], blk_buf1 := []\<rparr>\<rparr>"

end
