(* ===== verification/Kv_Data_Store.thy ===== *)
theory Kv_Data_Store
  imports Kv_Value_Log Kv_Ds_Queue
begin

unbundle bit_operations_syntax

text \<open>
  \<open>kv_data_store.h\<close> and \<open>kv_data_store.c\<close>: set, buffered set, get and delete on a bucket
  log and a value log, the admission queue in front of them, and the copy of key ranges to
  another node. Every asynchronous step of an operation is a handler on the store; its
  contexts live in tables of the store and are named by numbers, and what it hands to the
  other components is returned as a list of events.
\<close>

section \<open>Searches in a segment\<close>

definition compare_keys :: "u8 list \<Rightarrow> nat \<Rightarrow> u8 list \<Rightarrow> nat \<Rightarrow> bool" where
  "compare_keys k1 n1 k2 n2 \<longleftrightarrow> n1 = n2 \<and> take n1 k1 = take n1 k2"

definition item_has_key :: "u8 list \<Rightarrow> kv_item \<Rightarrow> bool" where
  "item_has_key k it \<longleftrightarrow> compare_keys (key it) (unat (key_length it)) k (length k)"

definition find_item_plus :: "kv_bucket_segment \<Rightarrow> u8 list \<Rightarrow> item_pos option" where
  "find_item_plus seg k = locate (item_has_key k) (seg_buckets seg) 0"

definition find_empty :: "u64 \<Rightarrow> kv_bucket_segment \<Rightarrow> (kv_bucket_segment \<times> item_pos option) res" where
  "find_empty addr seg =
     (case locate KV_EMPTY_ITEM (seg_buckets seg) 0 of
        Some p \<Rightarrow> Inr (seg, Some p)
      | None \<Rightarrow>
          rbind (kv_bucket_alloc_extra addr seg) (\<lambda>(ok, seg').
            Inr (seg', if ok then Some (length (seg_buckets seg') - 1, 0) else None)))"

text \<open>
  \<open>fill_the_hole\<close>: \<open>j\<close> is the position of \<open>item_to_move\<close> in the last bucket; the loop runs
  over the slots of all other buckets in order.
\<close>

fun next_to_move :: "kv_item list \<Rightarrow> nat \<Rightarrow> nat \<Rightarrow> nat option" where
  "next_to_move its 0 j = None"
| "next_to_move its (Suc n) j =
     (if j < length its \<and> \<not> KV_EMPTY_ITEM (its ! j) then Some j else next_to_move its n (Suc j))"

fun fill_loop :: "item_pos list \<Rightarrow> nat \<Rightarrow> kv_bucket_segment \<Rightarrow> kv_bucket_segment res" where
  "fill_loop [] j seg = Inr seg"
| "fill_loop (p # ps) j seg =
     (if KV_EMPTY_ITEM (seg_item seg p) then
        let n = length (seg_buckets seg) - 1; its = items (seg_buckets seg ! n) in
        case next_to_move its (KV_ITEM_PER_BUCKET - j) j of
          None \<Rightarrow> kv_bucket_free_extra seg
        | Some j' \<Rightarrow>
            fill_loop ps j'
              (seg_update_item (seg_update_item seg p (\<lambda>_. its ! j')) (n, j') (\<lambda>it. it\<lparr>key_length := 0\<rparr>))
      else fill_loop ps j seg)"

definition slots_before_last :: "kv_bucket_segment \<Rightarrow> item_pos list" where
  "slots_before_last seg =
     List.product [0..<length (seg_buckets seg) - 1] [0..<KV_ITEM_PER_BUCKET]"

definition fill_the_hole :: "kv_bucket_segment \<Rightarrow> kv_bucket_segment res" where
  "fill_the_hole seg =
     rbind (first_bucket seg) (\<lambda>b.
       if chain_length b = 1 then Inr seg else fill_loop (slots_before_last seg) 0 seg)"

section \<open>Updates of a segment\<close>

text \<open>The item written by an update and by a create.\<close>

definition set_value :: "u32 \<Rightarrow> u64 \<Rightarrow> kv_item \<Rightarrow> kv_item" where
  "set_value len off it = it\<lparr>value_length := len, value_offset := ucast off\<rparr>"

definition set_key :: "u8 list \<Rightarrow> kv_item \<Rightarrow> kv_item" where
  "set_key k it = it\<lparr>key_length := word_of_nat (length k), key := blit (key it) 0 k\<rparr>"

text \<open>The search and assignment of \<open>set_lock_cb\<close>: \<open>None\<close> if no bucket is available.\<close>

definition seg_set :: "u64 \<Rightarrow> u8 list \<Rightarrow> u32 \<Rightarrow> u64 \<Rightarrow> kv_bucket_segment \<Rightarrow> (bool \<times> kv_bucket_segment option) res" where
  "seg_set addr k len off seg =
     (case find_item_plus seg k of
        Some p \<Rightarrow> Inr (False, Some (seg_update_item seg p (set_value len off)))
      | None \<Rightarrow>
          rbind (find_empty addr seg) (\<lambda>(seg', r).
            case r of
              Some p \<Rightarrow> Inr (True, Some (seg_update_item seg' p (\<lambda>it. set_value len off (set_key k it))))
            | None \<Rightarrow> Inr (True, None)))"

definition seg_delete :: "u8 list \<Rightarrow> kv_bucket_segment \<Rightarrow> kv_bucket_segment option res" where
  "seg_delete k seg =
     (case find_item_plus seg k of
        None \<Rightarrow> Inr None
      | Some p \<Rightarrow>
          rbind (fill_the_hole (seg_update_item (seg\<lparr>seg_dirty := True\<rparr>) p (\<lambda>it. it\<lparr>key_length := 0\<rparr>)))
            (\<lambda>seg'. Inr (Some seg')))"

section \<open>Contexts and the store\<close>

record set_ctx =
  sc_key :: "u8 list"
  sc_value :: u64
  sc_bytes :: "u8 list"
  sc_value_length :: u32
  sc_bucket_id :: u64
  sc_io_cnt :: u32
  sc_seg :: kv_bucket_segment
  sc_value_offset :: u64
  sc_success :: bool
  sc_entry :: nat

record buffered_set_ctx =
  bs_keys :: "u8 list list"
  bs_value :: "u8 list"
  bs_value_length :: "u32 list"
  bs_value_offset :: "u64 list"
  bs_bucket_id :: "u64 list"
  bs_segs :: "kv_bucket_segment list"
  bs_io_cnt :: u32
  bs_success :: bool
  bs_entry :: nat

record get_ctx =
  gc_key :: "u8 list"
  gc_value :: u64
  gc_seg :: kv_bucket_segment
  gc_meta :: "kv_bucket_meta option"
  gc_entry :: nat

record delete_ctx =
  dc_key :: "u8 list"
  dc_bucket_id :: u64
  dc_seg :: kv_bucket_segment
  dc_entry :: nat

text \<open>The functions that \<open>enqueue\<close> is given, with the number of their context.\<close>

datatype ds_fn = Set_start nat | Buffered_set_start nat | Get_read_bucket nat | Delete_lock nat

record 'c queue_entry =
  qe_op :: kv_ds_op
  qe_fn :: ds_fn
  qe_cb :: 'c

datatype ds_lock_cb = Set_lock_cb nat | Buffered_set_lock_cb nat | Delete_lock_cb nat | Copy_lock_cb nat

datatype ds_io_cb = Set_finish_cb nat | Buffered_set_finish_cb nat | Delete_finish_cb nat

text \<open>
  Events: a message to the thread of the store, requests to the lock, to the two logs, a read
  of a segment, a read of a value with the entry to dequeue and the length stored through
  \<open>value_length\<close>, and the answer to a client.
\<close>

datatype 'c ds_event =
  Ds_send ds_fn
| Ds_lock "kv_bucket_segment list" ds_lock_cb
| Ds_unlock "kv_bucket_segment list"
| Ds_bucket "ds_io_cb bl_event list"
| Ds_value "ds_io_cb vl_event list"
| Ds_seg_read nat seg_get_result
| Ds_value_read nat u32 "read_ctx option \<times> byte_block iov_result"
| Ds_reply 'c bool

record 'c kv_data_store =
  ds_bucket_log :: kv_bucket_log
  ds_value_log :: kv_value_log
  ds_q_info :: kv_ds_q_info
  log_bucket_num :: nat
  dirty_set :: key_set
  ds_q :: "nat list"
  ds_entries :: "nat \<rightharpoonup> 'c queue_entry"
  ds_next :: nat
  ds_sets :: "nat \<rightharpoonup> set_ctx"
  ds_buffered :: "nat \<rightharpoonup> buffered_set_ctx"
  ds_gets :: "nat \<rightharpoonup> get_ctx"
  ds_dels :: "nat \<rightharpoonup> delete_ctx"

section \<open>The admission queue\<close>

definition enqueue ::
  "'c kv_data_store \<Rightarrow> kv_ds_op \<Rightarrow> ds_fn \<Rightarrow> 'c \<Rightarrow> 'c kv_data_store \<times> nat \<times> 'c ds_event list" where
  "enqueue ds op fn c =
     (let e = ds_next ds;
          ds1 = ds\<lparr>ds_entries := (ds_entries ds)(e \<mapsto> \<lparr>qe_op = op, qe_fn = fn, qe_cb = c\<rparr>), ds_next := Suc e\<rparr>
      in case kv_ds_queue_find [ds_q_info ds] None 1 (kv_ds_op_cost op) of
           (Some i, qs) \<Rightarrow> (ds1\<lparr>ds_q_info := hd qs\<rparr>, e, [Ds_send fn])
         | (None, _) \<Rightarrow> (ds1\<lparr>ds_q := ds_q ds @ [e]\<rparr>, e, []))"

fun dequeue_loop ::
  "(nat \<rightharpoonup> 'c queue_entry) \<Rightarrow> kv_ds_q_info \<Rightarrow> nat list \<Rightarrow> (kv_ds_q_info \<times> nat list \<times> 'c ds_event list) res" where
  "dequeue_loop es q [] = Inr (q, [], [])"
| "dequeue_loop es q (e # rest) =
     (case es e of
        None \<Rightarrow> Inl Null_deref
      | Some ent \<Rightarrow>
          (case kv_ds_queue_find [q] None 1 (kv_ds_op_cost (qe_op ent)) of
             (Some i, qs) \<Rightarrow>
               rbind (dequeue_loop es (hd qs) rest) (\<lambda>(q', rest', evs). Inr (q', rest', Ds_send (qe_fn ent) # evs))
           | (None, _) \<Rightarrow> Inr (q, e # rest, [])))"

definition dequeue :: "bool \<Rightarrow> nat \<Rightarrow> 'c kv_data_store \<Rightarrow> ('c kv_data_store \<times> 'c ds_event list) res" where
  "dequeue success e ds =
     (case ds_entries ds e of
        None \<Rightarrow> Inl Null_deref
      | Some ent \<Rightarrow>
          let q = (ds_q_info ds)\<lparr>q_size := q_size (ds_q_info ds) - kv_ds_op_cost (qe_op ent)\<rparr> in
          rbind (dequeue_loop (ds_entries ds) q (ds_q ds)) (\<lambda>(q', rest, evs).
            Inr (ds\<lparr>ds_q_info := q', ds_q := rest, ds_entries := (ds_entries ds)(e := None)\<rparr>,
                 evs @ [Ds_reply (qe_cb ent) success])))"

section \<open>Keys\<close>

definition kv_data_store_bucket_id :: "'c kv_data_store \<Rightarrow> u8 list \<Rightarrow> u64" where
  "kv_data_store_bucket_id ds k = drop_bit (64 - log_bucket_num ds) (load_u64 k)"

definition kv_data_store_dirty :: "'c kv_data_store \<Rightarrow> u8 list \<Rightarrow> 'c kv_data_store res" where
  "kv_data_store_dirty ds k =
     rbind (kv_bucket_key_set_add (dirty_set ds) k (length k)) (\<lambda>s. Inr (ds\<lparr>dirty_set := s\<rparr>))"

definition kv_data_store_clean :: "'c kv_data_store \<Rightarrow> u8 list \<Rightarrow> 'c kv_data_store res" where
  "kv_data_store_clean ds k =
     rbind (kv_bucket_key_set_del (dirty_set ds) k (length k)) (\<lambda>s. Inr (ds\<lparr>dirty_set := s\<rparr>))"

definition kv_data_store_is_dirty :: "'c kv_data_store \<Rightarrow> u8 list \<Rightarrow> bool res" where
  "kv_data_store_is_dirty ds k = kv_bucket_key_set_find (dirty_set ds) k (length k)"

section \<open>Initialisation\<close>

text \<open>The logs are built by their own initialisers; \<open>num_blocks\<close> is the size of the device.\<close>

definition kv_data_store_init ::
  "kv_bucket_log res \<Rightarrow> (u64 \<Rightarrow> kv_value_log res) \<Rightarrow> u64 \<Rightarrow> u64 \<Rightarrow> nat \<Rightarrow> 'c kv_data_store res" where
  "kv_data_store_init mk_bl mk_vl b num_blocks log_bn =
     rbind mk_bl (\<lambda>bl.
     rbind (mk_vl (b + l_size (bl_log bl))) (\<lambda>vl.
       let value_log_size = l_size (vl_log vl) + id_log_size vl in
       if l_size (bl_log bl) + value_log_size > num_blocks then Inl Exit_fail
       else Inr \<lparr>ds_bucket_log = bl, ds_value_log = vl, ds_q_info = \<lparr>q_size = 0, q_cap = 1024\<rparr>,
                 log_bucket_num = log_bn, dirty_set = kv_bucket_key_set_init, ds_q = [], ds_entries = Map.empty,
                 ds_next = 0, ds_sets = Map.empty, ds_buffered = Map.empty, ds_gets = Map.empty,
                 ds_dels = Map.empty\<rparr>))"

definition kv_data_store_fini :: "'c kv_data_store \<Rightarrow> 'c kv_data_store" where
  "kv_data_store_fini ds =
     ds\<lparr>ds_bucket_log := kv_bucket_log_fini (ds_bucket_log ds),
        ds_value_log := kv_value_log_fini (ds_value_log ds), dirty_set := Map.empty, ds_q := []\<rparr>"

section \<open>Set\<close>

definition kv_data_store_set ::
  "'c kv_data_store \<Rightarrow> u8 list \<Rightarrow> u64 \<Rightarrow> u8 list \<Rightarrow> u32 \<Rightarrow> 'c \<Rightarrow> 'c kv_data_store \<times> nat \<times> 'c ds_event list" where
  "kv_data_store_set ds k value bytes len c =
     (let i = ds_next ds; ds1 = ds\<lparr>ds_next := Suc i\<rparr>;
          bid = kv_data_store_bucket_id ds k;
          (ds2, e, evs) = enqueue ds1 KV_DS_SET (Set_start i) c
      in (ds2\<lparr>ds_sets := (ds_sets ds2)(i \<mapsto>
            \<lparr>sc_key = k, sc_value = value, sc_bytes = bytes, sc_value_length = len, sc_bucket_id = bid,
             sc_io_cnt = 0, sc_seg = kv_bucket_seg_init bid, sc_value_offset = 0, sc_success = False,
             sc_entry = e\<rparr>)\<rparr>, i, evs))"

definition set_finish_cb :: "bool \<Rightarrow> nat \<Rightarrow> 'c kv_data_store \<Rightarrow> ('c kv_data_store \<times> 'c ds_event list) res" where
  "set_finish_cb success0 i ds =
     (case ds_sets ds i of
        None \<Rightarrow> Inl Null_deref
      | Some ctx \<Rightarrow>
          let success = sc_success ctx \<and> success0; c = sc_io_cnt ctx - 1;
              ds1 = ds\<lparr>ds_sets := (ds_sets ds)(i \<mapsto> ctx\<lparr>sc_io_cnt := c\<rparr>)\<rparr>
          in if c \<noteq> 0 then Inr (ds1, []) else dequeue success (sc_entry ctx) ds1)"

definition set_start :: "nat \<Rightarrow> 'c kv_data_store \<Rightarrow> ('c kv_data_store \<times> 'c ds_event list) res" where
  "set_start i ds =
     (case ds_sets ds i of
        None \<Rightarrow> Inl Null_deref
      | Some ctx \<Rightarrow>
          let off = kv_value_log_offset (ds_value_log ds);
              seg = kv_bucket_seg_init (sc_bucket_id ctx);
              ctx1 = ctx\<lparr>sc_io_cnt := 2, sc_success := True, sc_value_offset := off, sc_seg := seg\<rparr>
          in rbind (kv_value_log_write (ds_value_log ds) (sc_bucket_id ctx) (sc_value ctx) (sc_bytes ctx)
                      (sc_value_length ctx) (Set_finish_cb i)) (\<lambda>(vl, vevs).
               Inr (ds\<lparr>ds_value_log := vl, ds_sets := (ds_sets ds)(i \<mapsto> ctx1)\<rparr>,
                    [Ds_value vevs, Ds_lock [seg] (Set_lock_cb i)])))"

text \<open>The lock is held and the chain of the bucket is in \<open>sc_seg\<close>.\<close>

definition set_lock_cb :: "u64 \<Rightarrow> nat \<Rightarrow> 'c kv_data_store \<Rightarrow> ('c kv_data_store \<times> 'c ds_event list) res" where
  "set_lock_cb addr i ds =
     (case ds_sets ds i of
        None \<Rightarrow> Inl Null_deref
      | Some ctx \<Rightarrow>
          if \<not> sc_success ctx then set_finish_cb False i ds
          else rbind (seg_set addr (sc_key ctx) (sc_value_length ctx) (sc_value_offset ctx) (sc_seg ctx)) (\<lambda>(_, r).
            case r of
              None \<Rightarrow> set_finish_cb False i ds
            | Some seg \<Rightarrow>
                rbind (kv_bucket_seg_put (ds_bucket_log ds) (seg\<lparr>seg_dirty := True\<rparr>) (Set_finish_cb i)) (\<lambda>(bl, segs, bevs).
                  Inr (ds\<lparr>ds_bucket_log := bl, ds_sets := (ds_sets ds)(i \<mapsto> ctx\<lparr>sc_seg := hd segs\<rparr>)\<rparr>,
                       [Ds_bucket bevs]))))"

definition kv_data_store_set_commit ::
  "nat \<Rightarrow> bool \<Rightarrow> 'c kv_data_store \<Rightarrow> ('c kv_data_store \<times> 'c ds_event list) res" where
  "kv_data_store_set_commit i success ds =
     (case ds_sets ds i of
        None \<Rightarrow> Inl Null_deref
      | Some ctx \<Rightarrow>
          rbind (if success then kv_bucket_seg_commit (bl_meta (ds_bucket_log ds)) (sc_seg ctx)
                 else Inr (bl_meta (ds_bucket_log ds), sc_seg ctx)) (\<lambda>(m, seg).
            Inr (ds\<lparr>ds_bucket_log := (ds_bucket_log ds)\<lparr>bl_meta := m\<rparr>, ds_sets := (ds_sets ds)(i := None)\<rparr>,
                 [Ds_unlock [seg]])))"

section \<open>Buffered set\<close>

fun concat_values :: "u8 list list \<Rightarrow> u32 list \<Rightarrow> u8 list" where
  "concat_values (v # vs) (n # ns) = take (unat n) v @ concat_values vs ns"
| "concat_values _ _ = []"

text \<open>
  The values are gathered in the 512 bytes of \<open>set_ctx_buffer.value\<close>; the model refuses what
  would overrun them.
\<close>

definition kv_data_store_buffered_set ::
  "'c kv_data_store \<Rightarrow> u8 list list \<Rightarrow> u8 list list \<Rightarrow> u32 list \<Rightarrow> 'c
     \<Rightarrow> ('c kv_data_store \<times> nat \<times> 'c ds_event list) res" where
  "kv_data_store_buffered_set ds keys values lens c =
     (let bytes = concat_values values lens in
      if unat KV_BLK_SIZE < length bytes then Inl Out_of_bounds
      else
        let i = ds_next ds; ds1 = ds\<lparr>ds_next := Suc i\<rparr>;
            (ds2, e, evs) = enqueue ds1 KV_DS_SET (Buffered_set_start i) c
        in Inr (ds2\<lparr>ds_buffered := (ds_buffered ds2)(i \<mapsto>
              \<lparr>bs_keys = keys, bs_value = bytes @ replicate (unat KV_BLK_SIZE - length bytes) 0,
               bs_value_length = lens, bs_value_offset = [], bs_bucket_id = map (kv_data_store_bucket_id ds) keys,
               bs_segs = [], bs_io_cnt = 0, bs_success = False, bs_entry = e\<rparr>)\<rparr>, i, evs))"

definition buffered_set_finish_cb ::
  "bool \<Rightarrow> nat \<Rightarrow> 'c kv_data_store \<Rightarrow> ('c kv_data_store \<times> 'c ds_event list) res" where
  "buffered_set_finish_cb success0 i ds =
     (case ds_buffered ds i of
        None \<Rightarrow> Inl Null_deref
      | Some ctx \<Rightarrow>
          let success = bs_success ctx \<and> success0; c = bs_io_cnt ctx - 1;
              ds1 = ds\<lparr>ds_buffered := (ds_buffered ds)(i \<mapsto> ctx\<lparr>bs_io_cnt := c\<rparr>)\<rparr>
          in if c \<noteq> 0 then Inr (ds1, []) else dequeue success (bs_entry ctx) ds1)"

text \<open>One segment per distinct bucket, each new one at the head of the list.\<close>

definition distinct_segs :: "u64 list \<Rightarrow> kv_bucket_segment list" where
  "distinct_segs bids =
     fold (\<lambda>b segs. if seg_of segs b = None then kv_bucket_seg_init b # segs else segs) bids []"

definition buffered_set_start :: "u64 \<Rightarrow> nat \<Rightarrow> 'c kv_data_store \<Rightarrow> ('c kv_data_store \<times> 'c ds_event list) res" where
  "buffered_set_start value i ds =
     (case ds_buffered ds i of
        None \<Rightarrow> Inl Null_deref
      | Some ctx \<Rightarrow>
          rbind (kv_value_log_buffered_offset (ds_value_log ds) (bs_value_length ctx)) (\<lambda>offs.
          rbind (kv_value_log_buffered_write (ds_value_log ds) offs (bs_bucket_id ctx) value (bs_value ctx)
                   (bs_value_length ctx) (Buffered_set_finish_cb i)) (\<lambda>(vl, vevs).
            let segs = distinct_segs (bs_bucket_id ctx);
                ctx1 = ctx\<lparr>bs_io_cnt := 2, bs_success := True, bs_value_offset := offs, bs_segs := segs\<rparr>
            in Inr (ds\<lparr>ds_value_log := vl, ds_buffered := (ds_buffered ds)(i \<mapsto> ctx1)\<rparr>,
                    [Ds_value vevs, Ds_lock segs (Buffered_set_lock_cb i)]))))"

definition replace_seg :: "kv_bucket_segment \<Rightarrow> kv_bucket_segment list \<Rightarrow> kv_bucket_segment list" where
  "replace_seg seg segs = map (\<lambda>s. if seg_bucket_id s = seg_bucket_id seg then seg else s) segs"

text \<open>
  The loop of \<open>buffered_set_lock_cb\<close>. An update marks the segment of the key dirty; a create
  marks \<open>ctx->seg\<close>, a segment that is not in the list. \<open>None\<close> is the early return.
\<close>

fun buffered_loop ::
  "u64 \<Rightarrow> (u8 list \<times> u32 \<times> u64 \<times> u64) list \<Rightarrow> kv_bucket_segment list \<Rightarrow> kv_bucket_segment list option res" where
  "buffered_loop addr [] segs = Inr (Some segs)"
| "buffered_loop addr ((k, len, off, bid) # rest) segs =
     (case seg_of segs bid of
        None \<Rightarrow> Inl Assert_fail
      | Some seg \<Rightarrow>
          rbind (seg_set addr k len off seg) (\<lambda>(created, r).
            case r of
              None \<Rightarrow> Inr None
            | Some seg' \<Rightarrow>
                let seg'' = (if created then seg' else seg'\<lparr>seg_dirty := True\<rparr>)
                in buffered_loop addr rest (replace_seg seg'' segs)))"

definition buffered_set_lock_cb ::
  "u64 \<Rightarrow> nat \<Rightarrow> 'c kv_data_store \<Rightarrow> ('c kv_data_store \<times> 'c ds_event list) res" where
  "buffered_set_lock_cb addr i ds =
     (case ds_buffered ds i of
        None \<Rightarrow> Inl Null_deref
      | Some ctx \<Rightarrow>
          if \<not> bs_success ctx then buffered_set_finish_cb False i ds
          else
            let reqs = zip (bs_keys ctx) (zip (bs_value_length ctx) (zip (bs_value_offset ctx) (bs_bucket_id ctx)))
            in rbind (buffered_loop addr reqs (bs_segs ctx)) (\<lambda>r.
                 case r of
                   None \<Rightarrow> buffered_set_finish_cb False i ds
                 | Some segs \<Rightarrow>
                     rbind (kv_bucket_seg_put_bulk (ds_bucket_log ds) segs (Buffered_set_finish_cb i)) (\<lambda>(bl, segs', bevs).
                       Inr (ds\<lparr>ds_bucket_log := bl, ds_buffered := (ds_buffered ds)(i \<mapsto> ctx\<lparr>bs_segs := segs'\<rparr>)\<rparr>,
                            [Ds_bucket bevs]))))"

definition kv_data_store_set_buffered_commit ::
  "nat \<Rightarrow> bool \<Rightarrow> 'c kv_data_store \<Rightarrow> ('c kv_data_store \<times> 'c ds_event list) res" where
  "kv_data_store_set_buffered_commit i success ds =
     (case ds_buffered ds i of
        None \<Rightarrow> Inl Null_deref
      | Some ctx \<Rightarrow>
          rbind (if success then commit_segments (bl_meta (ds_bucket_log ds)) (bs_segs ctx)
                 else Inr (bl_meta (ds_bucket_log ds), bs_segs ctx)) (\<lambda>(m, segs).
            Inr (ds\<lparr>ds_bucket_log := (ds_bucket_log ds)\<lparr>bl_meta := m\<rparr>, ds_buffered := (ds_buffered ds)(i := None)\<rparr>,
                 [Ds_unlock segs])))"

section \<open>Get\<close>

definition kv_data_store_get ::
  "'c kv_data_store \<Rightarrow> u8 list \<Rightarrow> u64 \<Rightarrow> kv_bucket_meta option \<Rightarrow> 'c \<Rightarrow> 'c kv_data_store \<times> nat \<times> 'c ds_event list" where
  "kv_data_store_get ds k value meta c =
     (let i = ds_next ds; ds1 = ds\<lparr>ds_next := Suc i\<rparr>;
          (ds2, e, evs) = enqueue ds1 KV_DS_GET (Get_read_bucket i) c
      in (ds2\<lparr>ds_gets := (ds_gets ds2)(i \<mapsto>
            \<lparr>gc_key = k, gc_value = value, gc_seg = kv_bucket_seg_init (kv_data_store_bucket_id ds k),
             gc_meta = meta, gc_entry = e\<rparr>)\<rparr>, i, evs))"

text \<open>\<open>get_seg_cb\<close>: answers through \<open>dequeue\<close> when the value has been read, or at once with false.\<close>

definition get_seg_cb :: "bool \<Rightarrow> u64 \<Rightarrow> nat \<Rightarrow> 'c kv_data_store \<Rightarrow> ('c kv_data_store \<times> 'c ds_event list) res" where
  "get_seg_cb success buf i ds =
     (case ds_gets ds i of
        None \<Rightarrow> Inl Null_deref
      | Some ctx \<Rightarrow>
          let ds1 = ds\<lparr>ds_gets := (ds_gets ds)(i := None)\<rparr> in
          case (if success then find_item_plus (gc_seg ctx) (gc_key ctx) else None) of
            Some p \<Rightarrow>
              let it = seg_item (gc_seg ctx) p in
              rbind (kv_value_log_read (ds_value_log ds) (ucast (value_offset it)) (gc_value ctx) (value_length it) buf) (\<lambda>r.
                Inr (ds1, [Ds_value_read (gc_entry ctx) (value_length it) r]))
          | None \<Rightarrow> dequeue False (gc_entry ctx) ds1)"

definition get_read_bucket ::
  "u64 \<Rightarrow> kv_bucket list \<Rightarrow> u64 \<Rightarrow> nat \<Rightarrow> 'c kv_data_store \<Rightarrow> ('c kv_data_store \<times> 'c ds_event list) res" where
  "get_read_bucket addr buf vbuf i ds =
     (case ds_gets ds i of
        None \<Rightarrow> Inl Null_deref
      | Some ctx \<Rightarrow>
          rbind (kv_bucket_seg_get (ds_bucket_log ds) (kv_bucket_seg_init (kv_data_store_bucket_id ds (gc_key ctx)))
                   (gc_meta ctx) addr buf) (\<lambda>(seg, r).
            let ds1 = ds\<lparr>ds_gets := (ds_gets ds)(i \<mapsto> ctx\<lparr>gc_seg := seg\<rparr>)\<rparr> in
            case r of
              Seg_done success \<Rightarrow> get_seg_cb success vbuf i ds1
            | Seg_reading _ \<Rightarrow> Inr (ds1, [Ds_seg_read i r])))"

section \<open>Delete\<close>

definition kv_data_store_delete ::
  "'c kv_data_store \<Rightarrow> u8 list \<Rightarrow> 'c \<Rightarrow> 'c kv_data_store \<times> nat \<times> 'c ds_event list" where
  "kv_data_store_delete ds k c =
     (let i = ds_next ds; ds1 = ds\<lparr>ds_next := Suc i\<rparr>; bid = kv_data_store_bucket_id ds k;
          (ds2, e, evs) = enqueue ds1 KV_DS_DEL (Delete_lock i) c
      in (ds2\<lparr>ds_dels := (ds_dels ds2)(i \<mapsto>
            \<lparr>dc_key = k, dc_bucket_id = bid, dc_seg = kv_bucket_seg_init bid, dc_entry = e\<rparr>)\<rparr>, i, evs))"

definition delete_finish_cb :: "bool \<Rightarrow> nat \<Rightarrow> 'c kv_data_store \<Rightarrow> ('c kv_data_store \<times> 'c ds_event list) res" where
  "delete_finish_cb success i ds =
     (case ds_dels ds i of None \<Rightarrow> Inl Null_deref | Some ctx \<Rightarrow> dequeue success (dc_entry ctx) ds)"

definition delete_lock :: "nat \<Rightarrow> 'c kv_data_store \<Rightarrow> ('c kv_data_store \<times> 'c ds_event list) res" where
  "delete_lock i ds =
     (case ds_dels ds i of
        None \<Rightarrow> Inl Null_deref
      | Some ctx \<Rightarrow>
          let seg = kv_bucket_seg_init (dc_bucket_id ctx)
          in Inr (ds\<lparr>ds_dels := (ds_dels ds)(i \<mapsto> ctx\<lparr>dc_seg := seg\<rparr>)\<rparr>, [Ds_lock [seg] (Delete_lock_cb i)]))"

definition delete_lock_cb :: "nat \<Rightarrow> 'c kv_data_store \<Rightarrow> ('c kv_data_store \<times> 'c ds_event list) res" where
  "delete_lock_cb i ds =
     (case ds_dels ds i of
        None \<Rightarrow> Inl Null_deref
      | Some ctx \<Rightarrow>
          rbind (seg_delete (dc_key ctx) (dc_seg ctx)) (\<lambda>r.
            case r of
              None \<Rightarrow> delete_finish_cb False i ds
            | Some seg \<Rightarrow>
                rbind (kv_bucket_seg_put (ds_bucket_log ds) seg (Delete_finish_cb i)) (\<lambda>(bl, segs, bevs).
                  Inr (ds\<lparr>ds_bucket_log := bl, ds_dels := (ds_dels ds)(i \<mapsto> ctx\<lparr>dc_seg := hd segs\<rparr>)\<rparr>,
                       [Ds_bucket bevs]))))"

definition kv_data_store_del_commit ::
  "nat \<Rightarrow> bool \<Rightarrow> 'c kv_data_store \<Rightarrow> ('c kv_data_store \<times> 'c ds_event list) res" where
  "kv_data_store_del_commit i success ds =
     (case ds_dels ds i of
        None \<Rightarrow> Inl Null_deref
      | Some ctx \<Rightarrow>
          rbind (if success then kv_bucket_seg_commit (bl_meta (ds_bucket_log ds)) (dc_seg ctx)
                 else Inr (bl_meta (ds_bucket_log ds), dc_seg ctx)) (\<lambda>(m, seg).
            Inr (ds\<lparr>ds_bucket_log := (ds_bucket_log ds)\<lparr>bl_meta := m\<rparr>, ds_dels := (ds_dels ds)(i := None)\<rparr>,
                 [Ds_unlock [seg]])))"

end
