(* ===== verification/Kv_Copy.thy ===== *)
theory Kv_Copy
  imports Kv_Data_Store
begin

unbundle bit_operations_syntax

text \<open>
  The copy part of \<open>kv_data_store.c\<close>: key ranges are copied to a new replica bucket by
  bucket. A producer locks the next bucket of every range, a consumer reads the values of
  the items of locked buckets into at most \<open>buf_num\<close> buffers, and a bucket is unlocked when
  all of its items have been sent. Ranges are named by numbers; the list of ranges is the
  circular queue of the code, its head first.
\<close>

record 'c key_range =
  kr_start :: u64
  kr_end :: u64
  kr_cb :: "'c option"
  kr_to_copy :: u64
  kr_copying :: bool
  kr_seg :: kv_bucket_segment
  kr_item_num :: u32

record 'c copy_ctx =
  cp_buf_num :: u32
  cp_iocnt :: u32
  cp_queue_size :: u32
  cp_next_range :: "nat option"
  cp_queue :: "(nat \<times> kv_item) list"
  cp_ranges :: "(nat \<times> 'c key_range) list"

datatype 'c copy_event =
  Cp_lock nat u64
| Cp_unlock kv_bucket_segment
| Cp_read nat "u8 list" "read_ctx option \<times> byte_block iov_result"
| Cp_done 'c

definition kv_data_store_copy_init :: "u32 \<Rightarrow> 'c copy_ctx" where
  "kv_data_store_copy_init buf_num =
     \<lparr>cp_buf_num = buf_num, cp_iocnt = 0, cp_queue_size = 0, cp_next_range = None, cp_queue = [], cp_ranges = []\<rparr>"

definition kv_data_store_copy_fini :: "'c copy_ctx \<Rightarrow> 'c copy_ctx option" where
  "kv_data_store_copy_fini ctx = None"

definition get_range :: "'c copy_ctx \<Rightarrow> nat \<Rightarrow> 'c key_range option" where
  "get_range ctx r = map_of (cp_ranges ctx) r"

definition set_range :: "nat \<Rightarrow> 'c key_range \<Rightarrow> 'c copy_ctx \<Rightarrow> 'c copy_ctx" where
  "set_range r kr ctx = ctx\<lparr>cp_ranges := map (\<lambda>(i, x). if i = r then (i, kr) else (i, x)) (cp_ranges ctx)\<rparr>"

text \<open>\<open>CIRCLEQ_LOOP_NEXT\<close>: the successor, and the first element after the last.\<close>

fun loop_next_in :: "nat list \<Rightarrow> nat \<Rightarrow> nat \<Rightarrow> nat" where
  "loop_next_in [] first r = first"
| "loop_next_in (x # xs) first r =
     (if x = r then (case xs of [] \<Rightarrow> first | y # _ \<Rightarrow> y) else loop_next_in xs first r)"

definition loop_next :: "'c copy_ctx \<Rightarrow> nat \<Rightarrow> nat" where
  "loop_next ctx r = (let ids = map fst (cp_ranges ctx) in loop_next_in ids (hd ids) r)"

definition id_space_size :: "nat \<Rightarrow> u64" where
  "id_space_size log_bn = push_bit log_bn 1"

section \<open>Producer and consumer\<close>

definition on_seg_copy_done :: "nat \<Rightarrow> 'c copy_ctx \<Rightarrow> ('c copy_ctx \<times> 'c copy_event list) res" where
  "on_seg_copy_done r ctx =
     (case get_range ctx r of
        None \<Rightarrow> Inl Null_deref
      | Some kr \<Rightarrow>
          let kr1 = kr\<lparr>kr_copying := False, kr_seg := kv_bucket_seg_cleanup (kr_seg kr)\<rparr>;
              fin = kr_to_copy kr = kr_end kr \<and> kr_cb kr \<noteq> None
          in Inr (set_range r (if fin then kr1\<lparr>kr_cb := None\<rparr> else kr1) ctx,
                  Cp_unlock (kr_seg kr) # (if fin then [Cp_done (the (kr_cb kr))] else [])))"

fun consume :: "kv_value_log \<Rightarrow> u64 \<Rightarrow> u64 \<Rightarrow> (nat \<times> kv_item) list \<Rightarrow> 'c copy_ctx \<Rightarrow> ('c copy_ctx \<times> 'c copy_event list) res" where
  "consume vl vbuf buf [] ctx = Inr (ctx\<lparr>cp_queue := []\<rparr>, [])"
| "consume vl vbuf buf ((r, it) # q) ctx =
     (if cp_iocnt ctx < cp_buf_num ctx then
        let ctx1 = ctx\<lparr>cp_queue_size := cp_queue_size ctx - 1, cp_iocnt := cp_iocnt ctx + 1\<rparr> in
        rbind (kv_value_log_read vl (ucast (value_offset it)) vbuf (value_length it) buf) (\<lambda>rd.
        rbind (consume vl vbuf buf q ctx1) (\<lambda>(ctx2, evs).
          Inr (ctx2, Cp_read r (take (unat (key_length it)) (key it)) rd # evs)))
      else Inr (ctx\<lparr>cp_queue := (r, it) # q\<rparr>, []))"

definition copy_consumer :: "kv_value_log \<Rightarrow> u64 \<Rightarrow> u64 \<Rightarrow> 'c copy_ctx \<Rightarrow> ('c copy_ctx \<times> 'c copy_event list) res" where
  "copy_consumer vl vbuf buf ctx = consume vl vbuf buf (cp_queue ctx) ctx"

definition produce_one :: "nat \<Rightarrow> nat \<Rightarrow> 'c copy_ctx \<Rightarrow> ('c copy_ctx \<times> 'c copy_event list) res" where
  "produce_one log_bn r ctx =
     (case get_range ctx r of
        None \<Rightarrow> Inl Null_deref
      | Some kr \<Rightarrow>
          if kr_to_copy kr \<noteq> kr_end kr \<and> \<not> kr_copying kr then
            rbind (c_assert (seg_empty (kr_seg kr))) (\<lambda>_.
            rbind (c_assert (kr_item_num kr = 0)) (\<lambda>_.
              Inr (set_range r (kr\<lparr>kr_seg := kv_bucket_seg_init (kr_to_copy kr), kr_copying := True,
                     kr_to_copy := (kr_to_copy kr + 1) mod id_space_size log_bn\<rparr>) ctx,
                   [Cp_lock r (kr_to_copy kr)])))
          else Inr (ctx, []))"

fun produce :: "nat \<Rightarrow> nat \<Rightarrow> nat \<Rightarrow> 'c copy_ctx \<Rightarrow> ('c copy_ctx \<times> 'c copy_event list) res" where
  "produce 0 log_bn start ctx = Inl No_return"
| "produce (Suc fuel) log_bn start ctx =
     (case cp_next_range ctx of
        None \<Rightarrow> Inl Null_deref
      | Some r \<Rightarrow>
          rbind (produce_one log_bn r ctx) (\<lambda>(ctx1, evs).
            let nx = loop_next ctx1 r; ctx2 = ctx1\<lparr>cp_next_range := Some nx\<rparr> in
            if nx = start then Inr (ctx2, evs)
            else rbind (produce fuel log_bn start ctx2) (\<lambda>(ctx3, evs'). Inr (ctx3, evs @ evs'))))"

definition copy_producer :: "nat \<Rightarrow> 'c copy_ctx \<Rightarrow> ('c copy_ctx \<times> 'c copy_event list) res" where
  "copy_producer log_bn ctx =
     (case cp_next_range ctx of
        None \<Rightarrow> Inr (ctx, [])
      | Some r \<Rightarrow> produce (length (cp_ranges ctx)) log_bn r ctx)"

definition copy_scheduler ::
  "kv_value_log \<Rightarrow> u64 \<Rightarrow> u64 \<Rightarrow> nat \<Rightarrow> 'c copy_ctx \<Rightarrow> ('c copy_ctx \<times> 'c copy_event list) res" where
  "copy_scheduler vl vbuf buf log_bn ctx =
     rbind (copy_consumer vl vbuf buf ctx) (\<lambda>(ctx1, evs).
       if cp_queue_size ctx1 < cp_buf_num ctx1
       then rbind (copy_producer log_bn ctx1) (\<lambda>(ctx2, evs'). Inr (ctx2, evs @ evs'))
       else Inr (ctx1, evs))"

text \<open>An item of range \<open>r\<close> has been sent.\<close>

definition kv_data_store_copy_commit ::
  "kv_value_log \<Rightarrow> u64 \<Rightarrow> u64 \<Rightarrow> nat \<Rightarrow> nat \<Rightarrow> 'c copy_ctx \<Rightarrow> ('c copy_ctx \<times> 'c copy_event list) res" where
  "kv_data_store_copy_commit vl vbuf buf log_bn r ctx =
     (case get_range ctx r of
        None \<Rightarrow> Inl Null_deref
      | Some kr \<Rightarrow>
          let n = kr_item_num kr - 1;
              ctx1 = set_range r (kr\<lparr>kr_item_num := n\<rparr>) (ctx\<lparr>cp_iocnt := cp_iocnt ctx - 1\<rparr>)
          in rbind (if n = 0 then on_seg_copy_done r ctx1 else Inr (ctx1, [])) (\<lambda>(ctx2, evs).
             rbind (copy_scheduler vl vbuf buf log_bn ctx2) (\<lambda>(ctx3, evs'). Inr (ctx3, evs @ evs'))))"

text \<open>The items of a locked segment in the order of the chain.\<close>

definition seg_live_items :: "kv_bucket_segment \<Rightarrow> kv_item list" where
  "seg_live_items seg = filter (\<lambda>it. \<not> KV_EMPTY_ITEM it) (concat (map items (seg_buckets seg)))"

definition copy_lock_cb ::
  "kv_value_log \<Rightarrow> u64 \<Rightarrow> u64 \<Rightarrow> nat \<Rightarrow> nat \<Rightarrow> 'c copy_ctx \<Rightarrow> ('c copy_ctx \<times> 'c copy_event list) res" where
  "copy_lock_cb vl vbuf buf log_bn r ctx =
     (case get_range ctx r of
        None \<Rightarrow> Inl Null_deref
      | Some kr \<Rightarrow>
          rbind (c_assert (\<not> seg_empty (kr_seg kr))) (\<lambda>_.
            if seg_chain (kr_seg kr) = [] then
              rbind (on_seg_copy_done r ctx) (\<lambda>(ctx1, evs).
              rbind (copy_scheduler vl vbuf buf log_bn ctx1) (\<lambda>(ctx2, evs'). Inr (ctx2, evs @ evs')))
            else
              let its = seg_live_items (kr_seg kr); n = word_of_nat (length its) :: u32;
                  ctx1 = set_range r (kr\<lparr>kr_item_num := kr_item_num kr + n\<rparr>) ctx
              in copy_scheduler vl vbuf buf log_bn
                   (ctx1\<lparr>cp_queue_size := cp_queue_size ctx1 + n, cp_queue := cp_queue ctx1 @ map (\<lambda>it. (r, it)) its\<rparr>)))"

section \<open>Key ranges\<close>

definition range_copied :: "nat \<Rightarrow> 'c key_range \<Rightarrow> u64 \<Rightarrow> bool" where
  "range_copied log_bn kr bid =
     (let sz = id_space_size log_bn in
      (bid + sz - kr_start kr) mod sz < (kr_to_copy kr + sz - kr_start kr) mod sz)"

definition kv_data_store_copy_forward :: "'c kv_data_store \<Rightarrow> 'd copy_ctx \<Rightarrow> u8 list \<Rightarrow> bool" where
  "kv_data_store_copy_forward ds ctx k =
     list_ex (\<lambda>(i, kr). range_copied (log_bucket_num ds) kr (kv_data_store_bucket_id ds k)) (cp_ranges ctx)"

definition kv_data_store_copy_add_key_range ::
  "'c kv_data_store \<Rightarrow> u64 \<Rightarrow> u64 \<Rightarrow> u8 list \<Rightarrow> u8 list \<Rightarrow> 'd \<Rightarrow> nat \<Rightarrow> 'd copy_ctx \<Rightarrow> ('d copy_ctx \<times> 'd copy_event list) res" where
  "kv_data_store_copy_add_key_range ds vbuf buf start_key end_key c r ctx =
     (let start = kv_data_store_bucket_id ds start_key;
          kr = \<lparr>kr_start = start, kr_end = kv_data_store_bucket_id ds end_key, kr_cb = Some c,
                kr_to_copy = start, kr_copying = False, kr_seg = kv_bucket_seg_init 0, kr_item_num = 0\<rparr>
      in rbind (if cp_next_range ctx = None then
                  rbind (c_assert (cp_ranges ctx = [])) (\<lambda>_. Inr (ctx\<lparr>cp_next_range := Some r\<rparr>))
                else Inr ctx) (\<lambda>ctx1.
           copy_scheduler (ds_value_log ds) vbuf buf (log_bucket_num ds)
             (ctx1\<lparr>cp_ranges := (r, kr) # cp_ranges ctx1\<rparr>)))"

text \<open>The buckets of a range, from its start to its end around the circle of ids.\<close>

fun range_ids :: "nat \<Rightarrow> u64 \<Rightarrow> u64 \<Rightarrow> u64 \<Rightarrow> u64 list res" where
  "range_ids 0 sz i e = Inl No_return"
| "range_ids (Suc fuel) sz i e =
     (if i = e then Inr [] else rbind (range_ids fuel sz ((i + 1) mod sz) e) (\<lambda>ids. Inr (i # ids)))"

definition remove_range :: "nat \<Rightarrow> 'c copy_ctx \<Rightarrow> 'c copy_ctx" where
  "remove_range r ctx =
     (let nx = loop_next ctx r;
          next_range = (if cp_next_range ctx = Some r then (if nx = r then None else Some nx) else cp_next_range ctx)
      in ctx\<lparr>cp_next_range := next_range, cp_ranges := filter (\<lambda>(i, _). i \<noteq> r) (cp_ranges ctx)\<rparr>)"

definition kv_data_store_copy_del_key_range ::
  "'c kv_data_store \<Rightarrow> u8 list \<Rightarrow> u8 list \<Rightarrow> bool \<Rightarrow> 'd copy_ctx \<Rightarrow> ('c kv_data_store \<times> 'd copy_ctx) res" where
  "kv_data_store_copy_del_key_range ds start_key end_key delete_items ctx =
     (let s = kv_data_store_bucket_id ds start_key; e = kv_data_store_bucket_id ds end_key in
      case List.find (\<lambda>(i, kr). kr_start kr = s \<and> kr_end kr = e) (cp_ranges ctx) of
        None \<Rightarrow> Inl Assert_fail
      | Some (r, kr) \<Rightarrow>
          rbind (c_assert (kr_to_copy kr = kr_end kr \<and> \<not> kr_copying kr)) (\<lambda>_.
            if delete_items then
              rbind (range_ids (Suc (2 ^ log_bucket_num ds)) (id_space_size (log_bucket_num ds)) s e) (\<lambda>ids.
                let bl = ds_bucket_log ds;
                    m = fold (\<lambda>i m. kv_bucket_meta_put m i zero_meta) ids (bl_meta bl)
                in Inr (ds\<lparr>ds_bucket_log := bl\<lparr>bl_meta := m\<rparr>\<rparr>, remove_range r ctx))
            else Inr (ds, remove_range r ctx)))"

end
