(* ===== verification/Kv_Msg.thy ===== *)
theory Kv_Msg
  imports Kv_Ds_Queue
begin

unbundle bit_operations_syntax

text \<open>
  \<open>kv_msg.h\<close>: the messages between clients and servers. Key and value lie behind the
  header in one buffer, the value at a four-byte boundary.
\<close>

definition KV_MSG_OK :: u8 where "KV_MSG_OK = 0"
definition KV_MSG_GET :: u8 where "KV_MSG_GET = 1"
definition KV_MSG_SET :: u8 where "KV_MSG_SET = 2"
definition KV_MSG_DEL :: u8 where "KV_MSG_DEL = 3"
definition KV_MSG_META_GET :: u8 where "KV_MSG_META_GET = 5"
definition KV_MSG_BUFFERED_SET :: u8 where "KV_MSG_BUFFERED_SET = 6"
definition KV_MSG_TEST :: u8 where "KV_MSG_TEST = 128"
definition KV_MSG_OUTDATED :: u8 where "KV_MSG_OUTDATED = 254"
definition KV_MSG_ERR :: u8 where "KV_MSG_ERR = 255"

lemmas msg_types =
  KV_MSG_OK_def KV_MSG_GET_def KV_MSG_SET_def KV_MSG_DEL_def KV_MSG_META_GET_def
  KV_MSG_BUFFERED_SET_def KV_MSG_TEST_def KV_MSG_OUTDATED_def KV_MSG_ERR_def

record kv_msg =
  msg_type :: u8
  key_len :: u8
  hop :: u16
  value_len :: u32
  put_key_ok :: u8
  slot_id :: u8
  msg_ds_id :: u32
  msg_q_info :: kv_ds_q_info
  data :: "u8 list"

definition sizeof_kv_msg :: u32 where "sizeof_kv_msg = 24"

definition KV_MSG_ALIGN :: "u8 \<Rightarrow> u32" where
  "KV_MSG_ALIGN n = (if n AND 3 \<noteq> 0 then (ucast n AND NOT 3) + 4 else ucast n)"

definition KV_MSG_KEY :: "kv_msg \<Rightarrow> u8 list" where
  "KV_MSG_KEY m = take (unat (key_len m)) (data m)"

definition KV_MSG_VALUE :: "kv_msg \<Rightarrow> u8 list" where
  "KV_MSG_VALUE m = take (unat (value_len m)) (drop (unat (KV_MSG_ALIGN (key_len m))) (data m))"

definition KV_MSG_SIZE :: "kv_msg \<Rightarrow> u32" where
  "KV_MSG_SIZE m = sizeof_kv_msg + KV_MSG_ALIGN (key_len m) + value_len m"

text \<open>Filling the buffer as the clients do: the key, then the value at its boundary.\<close>

definition put_key :: "u8 list \<Rightarrow> kv_msg \<Rightarrow> kv_msg" where
  "put_key k m = m\<lparr>key_len := word_of_nat (length k), data := blit (data m) 0 k\<rparr>"

definition put_value :: "u8 list \<Rightarrow> kv_msg \<Rightarrow> kv_msg" where
  "put_value v m =
     m\<lparr>value_len := word_of_nat (length v), data := blit (data m) (unat (KV_MSG_ALIGN (key_len m))) v\<rparr>"

lemma unat_KV_MSG_ALIGN: "unat (KV_MSG_ALIGN n) = (unat n + 3) div 4 * 4"
proof -
  have m: "(3 :: u8) = mask 2" "(3 :: u32) = mask 2" by (simp_all add: mask_eq_exp_minus_1)
  have a: "unat (n AND 3) = unat n mod 4" unfolding m using unat_and_mask[of n 2] by simp
  have b: "unat (ucast n AND NOT 3 :: u32) = unat n - unat n mod 4"
    unfolding m using unat_and_not_mask[of "ucast n :: u32" 2] by simp
  have lt: "unat n < 256" using unsigned_less[of n] by simp
  show ?thesis
  proof (cases "n AND 3 = 0")
    case True
    then have "unat n mod 4 = 0" using a by simp
    then show ?thesis using True by (simp add: KV_MSG_ALIGN_def) presburger
  next
    case False
    then have "unat n mod 4 \<noteq> 0" using a by (metis unat_eq_zero)
    moreover have "unat ((ucast n AND NOT 3) + 4 :: u32) = unat n - unat n mod 4 + 4"
      using b lt by (simp add: unat_word_ariths)
    ultimately show ?thesis using False by (simp add: KV_MSG_ALIGN_def) presburger
  qed
qed

lemma KV_MSG_ALIGN_ge: "unat n \<le> unat (KV_MSG_ALIGN n)" and KV_MSG_ALIGN_dvd: "4 dvd unat (KV_MSG_ALIGN n)"
  by (auto simp: unat_KV_MSG_ALIGN)

section \<open>Properties\<close>

text \<open>
  Key and value of a message do not overlap: after the key and then the value are put
  into a buffer with room for both, they read back unchanged, and the value starts at a
  multiple of four.
\<close>

theorem msg_key_value_roundtrip:
  assumes "length k < 256" and "length v < 2 ^ 31" and "unat (KV_MSG_ALIGN (word_of_nat (length k))) + length v \<le> length (data m)"
  defines "m' \<equiv> put_value v (put_key k m)"
  shows "KV_MSG_KEY m' = k \<and> KV_MSG_VALUE m' = v \<and> 4 dvd unat (KV_MSG_ALIGN (key_len m')) \<and>
    unat (KV_MSG_SIZE m') = 24 + unat (KV_MSG_ALIGN (key_len m')) + length v"
proof -
  let ?n = "word_of_nat (length k) :: u8" and ?a = "unat (KV_MSG_ALIGN (word_of_nat (length k)))"
  have uk: "unat ?n = length k" using assms(1) by (simp add: unat_of_nat)
  have uv: "unat (word_of_nat (length v) :: u32) = length v" using assms(2) by (simp add: unat_of_nat)
  have le: "length k \<le> ?a" using KV_MSG_ALIGN_ge[of ?n] uk by simp
  have al: "?a \<le> 256" using uk assms(1) by (simp add: unat_KV_MSG_ALIGN)
  have d1: "data m' = blit (blit (data m) 0 k) ?a v" and kl: "key_len m' = ?n" and vl: "value_len m' = word_of_nat (length v)"
    by (simp_all add: m'_def put_value_def put_key_def)
  have lk: "length (blit (data m) 0 k) = length (data m)" using le assms(3) by (intro length_blit) simp
  have key: "take (length k) (data m') = k"
    unfolding d1 using le assms(3) by (simp add: blit_def min_def)
  have val: "take (length v) (drop ?a (data m')) = v"
    unfolding d1 blit_def[of _ ?a v] using lk assms(3) by simp
  have "unat (KV_MSG_SIZE m') = 24 + ?a + length v"
    using al assms(2) uv kl vl by (simp add: KV_MSG_SIZE_def sizeof_kv_msg_def unat_word_ariths)
  then show ?thesis using key val uk uv kl vl KV_MSG_ALIGN_dvd[of ?n] by (simp add: KV_MSG_KEY_def KV_MSG_VALUE_def)
qed

definition demo_msg :: kv_msg where
  "demo_msg = \<lparr>msg_type = KV_MSG_SET, key_len = 0, hop = 1, value_len = 0, put_key_ok = 0, slot_id = 0,
     msg_ds_id = 0, msg_q_info = \<lparr>q_size = 0, q_cap = 0\<rparr>, data = replicate 16 0\<rparr>"

theorem msg_key_value_roundtrip_witness:
  "KV_MSG_VALUE (put_value [7, 8] (put_key [1, 2, 3, 4, 5] demo_msg)) = [7, 8]"
  using msg_key_value_roundtrip[of "[1, 2, 3, 4, 5]" "[7, 8]" demo_msg]
  by (simp add: unat_KV_MSG_ALIGN demo_msg_def)

end
