(* ===== verification/Kv_Ring.thy ===== *)
theory Kv_Ring
  imports Kv_Msg
begin

unbundle bit_operations_syntax

text \<open>
  The first half of \<open>kv_ring.c\<close>: consistent hashing over rings of virtual nodes. A ring is
  the circular queue of its virtual nodes, head first; a pointer to a virtual node is its
  position in the ring, a pointer to a node is its id. This theory has the data, the search
  for the virtual node of a key, replication chains, and the dispatch and forwarding of
  requests.
\<close>

section \<open>Data\<close>

record kv_etcd_node =
  log_ring_num :: u32
  log_bkt_num :: u32
  rpl_num :: u16
  ds_num :: u16

datatype vid_state = VID_JOINING | VID_RUNNING | VID_LEAVING

definition KV_VID_LEN :: nat where "KV_VID_LEN = 20"

record kv_etcd_vid =
  ev_ds_id :: u16
  ev_vid :: "u8 list"

record kv_node =
  info :: kv_etcd_node
  node_queue :: kv_ds_queue
  is_connected :: bool
  is_disconnecting :: bool
  is_local :: bool
  has_info :: bool
  req_cnt :: u32

record vid_entry =
  ve_vid :: kv_etcd_vid
  ve_node :: string
  ve_state :: vid_state
  cp_cnt :: u32
  rm_cnt :: u32

record kv_ring_copy_info =
  ci_start :: u64
  ci_end :: u64
  ci_ds_id :: u16
  ci_del :: bool

record copy_range_ctx =
  cr_info :: kv_ring_copy_info
  cr_ring :: nat
  cr_invalid :: string
  cr_invalid_state :: vid_state
  cr_version :: u64

record vnode_ring =
  vr_head :: "vid_entry list"
  vr_version :: u64
  vr_copy_ranges :: "copy_range_ctx list"
  vr_range_size :: u32

definition RING_VERSION_MAX :: u64 where "RING_VERSION_MAX = 64"

section \<open>Identifiers of virtual nodes\<close>

definition get_vid_64 :: "u8 list \<Rightarrow> u64" where
  "get_vid_64 vid = load_u64 vid"

definition set_vid_64 :: "u8 list \<Rightarrow> u64 \<Rightarrow> u8 list" where
  "set_vid_64 vid w = store_u64 w @ drop 8 vid"

definition get_ring_id :: "u8 list \<Rightarrow> nat \<Rightarrow> u32" where
  "get_ring_id vid lrn = (if lrn = 0 then 0 else ucast (drop_bit (64 - lrn) (get_vid_64 vid)))"

definition set_ring_id :: "u8 list \<Rightarrow> nat \<Rightarrow> u32 \<Rightarrow> u8 list" where
  "set_ring_id vid lrn ring_id =
     (if lrn = 0 then vid
      else let w = get_vid_64 vid AND (push_bit (64 - lrn) 1 - 1)
           in set_vid_64 vid (w OR push_bit (64 - lrn) (ucast ring_id)))"

definition mask_vnode_id :: "u8 list \<Rightarrow> nat \<Rightarrow> u8 list" where
  "mask_vnode_id vid lbn = set_vid_64 vid (get_vid_64 vid OR (push_bit (64 - lbn) 1 - 1))"

text \<open>
  \<open>hash_vid\<close>: the hash of the address and the index, padded to 20 bytes. \<open>strcpy\<close> into the
  16 and 8 bytes of the buffer overruns it for longer strings. The hash function is a
  parameter; \<open>City\<close> instantiates it.
\<close>

definition vid_src_buf :: "u8 list \<Rightarrow> u8 list \<Rightarrow> u32 \<Rightarrow> u8 list res" where
  "vid_src_buf ip port index =
     (if length ip < 16 \<and> length port < 8
      then Inr (ip @ replicate (16 - length ip) 0 @ port @ replicate (8 - length port) 0 @ store_u64 (ucast index))
      else Inl Out_of_bounds)"

definition hash_vid :: "(u8 list \<Rightarrow> u64 \<times> u64) \<Rightarrow> u8 list \<Rightarrow> u8 list \<Rightarrow> u32 \<Rightarrow> u8 list res" where
  "hash_vid city ip port index =
     rbind (vid_src_buf ip port index) (\<lambda>buf.
       let (lo, hi) = city buf in Inr (store_u64 lo @ store_u64 hi @ replicate 4 0))"

definition ring_size :: "vnode_ring \<Rightarrow> nat" where
  "ring_size ring = length (vr_head ring)"

definition vid_of :: "vid_entry \<Rightarrow> u64" where
  "vid_of x = get_vid_64 (ev_vid (ve_vid x))"

text \<open>Keys in \<open>(a, b]\<close> belong to the virtual node \<open>b\<close>.\<close>

fun scan_vid :: "vid_entry list \<Rightarrow> u64 \<Rightarrow> u64 \<Rightarrow> nat \<Rightarrow> nat option" where
  "scan_vid [] base d i = None"
| "scan_vid (x # xs) base d i = (if vid_of x - base \<ge> d then Some i else scan_vid xs base d (Suc i))"

definition find_vid_entry :: "vnode_ring \<Rightarrow> u8 list \<Rightarrow> nat option res" where
  "find_vid_entry ring vid =
     (if vr_head ring = [] then Inr None
      else
        let base = vid_of (last (vr_head ring)) + 1; d = get_vid_64 vid - base in
        case scan_vid (vr_head ring) base d 0 of None \<Rightarrow> Inl Assert_fail | Some i \<Rightarrow> Inr (Some i))"

fun scan_node :: "vid_entry list \<Rightarrow> string \<Rightarrow> nat \<Rightarrow> nat option" where
  "scan_node [] n i = None"
| "scan_node (x # xs) n i = (if ve_node x = n then Some i else scan_node xs n (Suc i))"

definition find_vid_by_node :: "vnode_ring \<Rightarrow> string \<Rightarrow> nat option" where
  "find_vid_by_node ring n = scan_node (vr_head ring) n 0"

definition loop_next_pos :: "vnode_ring \<Rightarrow> nat \<Rightarrow> nat" where
  "loop_next_pos ring i = (if Suc i < length (vr_head ring) then Suc i else 0)"

definition loop_prev_pos :: "vnode_ring \<Rightarrow> nat \<Rightarrow> nat" where
  "loop_prev_pos ring i = (if i = 0 then length (vr_head ring) - 1 else i - 1)"

section \<open>Replication chains\<close>

record vnode_chain =
  ch_base :: nat
  ch_copy :: "nat option"
  ch_invalid :: "nat option"
  ch_vids :: "nat list"

text \<open>
  The loop of \<open>get_chain\<close>: \<open>need\<close> is \<open>rpl_num\<close>, which drops by one when a leaving virtual
  node is met. The result is the chain and the position where the loop stopped. Two virtual
  nodes that are not running end the process.
\<close>

fun chain_loop ::
  "nat \<Rightarrow> vnode_ring \<Rightarrow> nat \<Rightarrow> nat \<Rightarrow> nat list \<Rightarrow> nat option \<Rightarrow> nat \<Rightarrow> (nat list \<times> nat option \<times> nat) res" where
  "chain_loop 0 ring base need vids bad x = Inl No_return"
| "chain_loop (Suc fuel) ring base need vids bad x =
     (if \<not> length vids < need then Inr (vids, bad, x)
      else
        let st = ve_state (vr_head ring ! x); nx = loop_next_pos ring x in
        if st = VID_RUNNING then
          (if nx = base then Inr (vids @ [x], bad, nx) else chain_loop fuel ring base need (vids @ [x]) bad nx)
        else if bad \<noteq> None then Inl Exit_fail
        else
          let need' = (if st = VID_LEAVING then need - 1 else need) in
          if nx = base then Inr (vids, Some x, nx) else chain_loop fuel ring base need' vids (Some x) nx)"

definition get_chain_at :: "(string \<Rightarrow> kv_node) \<Rightarrow> vnode_ring \<Rightarrow> nat \<Rightarrow> vnode_chain res" where
  "get_chain_at nodes ring base =
     (let rpl = unat (rpl_num (info (nodes (ve_node (vr_head ring ! base))))) in
      rbind (chain_loop (Suc (length (vr_head ring))) ring base rpl [] None base) (\<lambda>(vids, bad, x).
        let copy = (case bad of
                      None \<Rightarrow> None
                    | Some v \<Rightarrow>
                        (case ve_state (vr_head ring ! v) of
                           VID_LEAVING \<Rightarrow> if x \<noteq> base then Some x else None
                         | VID_JOINING \<Rightarrow> Some v
                         | VID_RUNNING \<Rightarrow> None))
        in Inr \<lparr>ch_base = base, ch_copy = copy, ch_invalid = bad, ch_vids = vids\<rparr>))"

definition get_chain ::
  "(string \<Rightarrow> kv_node) \<Rightarrow> vnode_ring list option \<Rightarrow> nat \<Rightarrow> u8 list \<Rightarrow> (nat \<times> vnode_chain) option res" where
  "get_chain nodes rings lrn k =
     (case rings of
        None \<Rightarrow> Inr None
      | Some rs \<Rightarrow>
          let r = unat (get_ring_id k lrn) in
          rbind (find_vid_entry (rs ! r) k) (\<lambda>b.
            case b of
              None \<Rightarrow> Inr None
            | Some base \<Rightarrow> rbind (get_chain_at nodes (rs ! r) base) (\<lambda>ch. Inr (Some (r, ch)))))"

section \<open>Dispatch\<close>

definition MAX_RETRY_NUM :: u32 where "MAX_RETRY_NUM = 10"

text \<open>A request of a client waiting for its answer; \<open>dp_cb\<close> names its callback.\<close>

record 'c dispatch_ctx =
  dp_msg :: kv_msg
  dp_cb :: 'c
  dp_thread_id :: u32
  dp_retry_num :: u32
  dp_next_retry :: u32
  dp_node :: string
  dp_ds_id :: nat

type_synonym nodes = "string \<Rightarrow> kv_node"

definition node_q :: "kv_node \<Rightarrow> nat \<Rightarrow> kv_ds_q_info" where
  "node_q n d = q_info (node_queue n) ! d"

definition node_io :: "kv_node \<Rightarrow> nat \<Rightarrow> u32" where
  "node_io n d = q_io_cnt (node_queue n) ! d"

definition set_node_q :: "nat \<Rightarrow> kv_ds_q_info \<Rightarrow> kv_node \<Rightarrow> kv_node" where
  "set_node_q d q n = n\<lparr>node_queue := (node_queue n)\<lparr>q_info := (q_info (node_queue n))[d := q]\<rparr>\<rparr>"

definition set_node_io :: "nat \<Rightarrow> u32 \<Rightarrow> kv_node \<Rightarrow> kv_node" where
  "set_node_io d c n = n\<lparr>node_queue := (node_queue n)\<lparr>q_io_cnt := (q_io_cnt (node_queue n))[d := c]\<rparr>\<rparr>"

definition upd_node :: "nodes \<Rightarrow> string \<Rightarrow> (kv_node \<Rightarrow> kv_node) \<Rightarrow> nodes" where
  "upd_node ns i f = ns(i := f (ns i))"

definition entry_ds :: "vid_entry \<Rightarrow> nat" where
  "entry_ds x = unat (ev_ds_id (ve_vid x))"

definition chain_entries :: "vnode_ring \<Rightarrow> vnode_chain \<Rightarrow> vid_entry list" where
  "chain_entries ring ch = map (\<lambda>i. vr_head ring ! i) (ch_vids ch)"

definition chain_q :: "nodes \<Rightarrow> vid_entry list \<Rightarrow> kv_ds_q_info list" where
  "chain_q ns xs = map (\<lambda>x. node_q (ns (ve_node x)) (entry_ds x)) xs"

definition chain_io :: "nodes \<Rightarrow> vid_entry list \<Rightarrow> u32 list" where
  "chain_io ns xs = map (\<lambda>x. node_io (ns (ve_node x)) (entry_ds x)) xs"

text \<open>Every replica of a write is charged on a copy of its counters; \<open>False\<close> if one has no room.\<close>

definition all_have_room :: "nodes \<Rightarrow> vid_entry list \<Rightarrow> u32 \<Rightarrow> bool" where
  "all_have_room ns xs cost =
     list_all (\<lambda>x. fst (kv_ds_queue_find [node_q (ns (ve_node x)) (entry_ds x)]
                          (Some [node_io (ns (ve_node x)) (entry_ds x)]) 1 cost) \<noteq> None) xs"

text \<open>
  \<open>try_send_req\<close>: the nodes after the charge, the context after the choice of the target, and
  whether the request was sent; one that has to wait keeps the hop count it was given.
\<close>

definition is_read_msg :: "kv_msg \<Rightarrow> bool" where
  "is_read_msg m \<longleftrightarrow> msg_type m = KV_MSG_GET \<or> msg_type m = KV_MSG_META_GET"

definition send_to ::
  "nodes \<Rightarrow> 'c dispatch_ctx \<Rightarrow> vid_entry \<Rightarrow> nodes \<times> 'c dispatch_ctx" where
  "send_to ns ctx x =
     (let d = entry_ds x; n = ve_node x;
          ns' = upd_node ns n (\<lambda>y. (set_node_io d (node_io y d + 1) y)\<lparr>req_cnt := req_cnt y + 1\<rparr>)
      in (ns', ctx\<lparr>dp_node := n, dp_ds_id := d\<rparr>))"

definition try_send_req ::
  "nodes \<Rightarrow> vnode_ring list option \<Rightarrow> nat \<Rightarrow> 'c dispatch_ctx \<Rightarrow> (nodes \<times> 'c dispatch_ctx \<times> bool) res" where
  "try_send_req ns rings lrn ctx0 =
     rbind (get_chain ns rings lrn (KV_MSG_KEY (dp_msg ctx0))) (\<lambda>r.
       case r of
         None \<Rightarrow> Inr (ns, ctx0, False)
       | Some (ri, ch) \<Rightarrow>
           let xs = chain_entries (the rings ! ri) ch; ctx = ctx0\<lparr>dp_msg := (dp_msg ctx0)\<lparr>hop := 1\<rparr>\<rparr> in
           if is_read_msg (dp_msg ctx) then
             (case kv_ds_queue_find (chain_q ns xs) (Some (chain_io ns xs)) (length xs) (kv_ds_op_cost KV_DS_GET) of
                (None, _) \<Rightarrow> Inr (ns, ctx, False)
              | (Some i, qs) \<Rightarrow>
                  let x = xs ! i; (ns1, ctx1) = send_to ns ctx x
                  in Inr (upd_node ns1 (ve_node x) (set_node_q (entry_ds x) (qs ! i)), ctx1, True))
           else if xs = [] then Inr (ns, ctx, False)
           else
             let cost = kv_ds_op_cost (if msg_type (dp_msg ctx) = KV_MSG_SET then KV_DS_SET else KV_DS_DEL) in
             if all_have_room ns xs cost then let (ns1, ctx1) = send_to ns ctx (hd xs) in Inr (ns1, ctx1, True)
             else Inr (ns, ctx, False))"

text \<open>
  The answer of the target: counters are returned and replaced by those of the message; an
  outdated answer is queued again with a longer wait. Otherwise the callback is sent.
\<close>

datatype 'c dispatch_event = Dp_sent "'c dispatch_ctx" | Dp_answer 'c kv_msg

definition back_off :: "'c dispatch_ctx \<Rightarrow> 'c dispatch_ctx" where
  "back_off ctx =
     (let n = (if dp_retry_num ctx < MAX_RETRY_NUM then dp_retry_num ctx + 1 else dp_retry_num ctx)
      in ctx\<lparr>dp_retry_num := n, dp_next_retry := push_bit (unat n) 1\<rparr>)"

definition dispatch_send_cb ::
  "nodes \<Rightarrow> 'c dispatch_ctx list \<Rightarrow> bool \<Rightarrow> kv_msg \<Rightarrow> 'c dispatch_ctx
     \<Rightarrow> nodes \<times> 'c dispatch_ctx list \<times> 'c dispatch_event list" where
  "dispatch_send_cb ns dq success resp ctx =
     (let d = dp_ds_id ctx;
          ns1 = upd_node ns (dp_node ctx)
                  (\<lambda>y. (set_node_q d (msg_q_info resp) (set_node_io d (node_io y d - 1) y))\<lparr>req_cnt := req_cnt y - 1\<rparr>)
      in if success \<and> msg_type resp = KV_MSG_OUTDATED then (ns1, dq @ [back_off ctx], [])
         else (ns1, dq, [Dp_answer (dp_cb ctx) (if success then resp else resp\<lparr>msg_type := KV_MSG_ERR\<rparr>)]))"

text \<open>The poller of the waiting requests.\<close>

fun dispatch_dequeue ::
  "nodes \<Rightarrow> vnode_ring list option \<Rightarrow> nat \<Rightarrow> 'c dispatch_ctx list
     \<Rightarrow> (nodes \<times> 'c dispatch_ctx list \<times> 'c dispatch_event list) res" where
  "dispatch_dequeue ns rings lrn [] = Inr (ns, [], [])"
| "dispatch_dequeue ns rings lrn (x # xs) =
     rbind (c_assert (dp_next_retry x \<noteq> 0)) (\<lambda>_.
       let x1 = x\<lparr>dp_next_retry := dp_next_retry x - 1\<rparr> in
       if dp_next_retry x1 \<noteq> 0 then
         rbind (dispatch_dequeue ns rings lrn xs) (\<lambda>(ns', dq, evs). Inr (ns', x1 # dq, evs))
       else
         rbind (try_send_req ns rings lrn x1) (\<lambda>(ns1, x2, sent).
         rbind (dispatch_dequeue ns1 rings lrn xs) (\<lambda>(ns', dq, evs).
           Inr (if sent then (ns', dq, Dp_sent x2 # evs) else (ns', back_off x2 # dq, evs)))))"

definition dispatch ::
  "nodes \<Rightarrow> vnode_ring list option \<Rightarrow> nat \<Rightarrow> 'c dispatch_ctx list \<Rightarrow> 'c dispatch_ctx
     \<Rightarrow> (nodes \<times> 'c dispatch_ctx list \<times> 'c dispatch_event list) res" where
  "dispatch ns rings lrn dq ctx =
     rbind (try_send_req ns rings lrn ctx) (\<lambda>(ns1, ctx1, sent).
       Inr (if sent then (ns1, dq, [Dp_sent ctx1]) else (ns1, dq @ [ctx1], [])))"

text \<open>A ring thread dispatches at once; another one sends the request to a ring thread.\<close>

definition kv_ring_dispatch :: "u32 \<Rightarrow> u32 \<Rightarrow> u32 \<Rightarrow> u32 \<Rightarrow> kv_msg \<Rightarrow> 'c \<Rightarrow> 'c dispatch_ctx \<times> u32" where
  "kv_ring_dispatch thread_id thread_num self_index rnd m c =
     (let ctx = \<lparr>dp_msg = m, dp_cb = c, dp_thread_id = self_index, dp_retry_num = 0, dp_next_retry = 1,
                 dp_node = [], dp_ds_id = 0\<rparr>
      in (ctx, if self_index \<ge> thread_id \<and> self_index < thread_id + thread_num then self_index
               else thread_id + rnd mod thread_num))"

section \<open>Forwarding\<close>

record forward_ctx =
  fw_node :: "string option"
  fw_ring :: nat
  fw_version :: nat

datatype forward_event = Fw_send string kv_msg | Fw_callback

text \<open>
  \<open>kv_ring_forward\<close> of a request that is not a copy: without a next node, or without a
  request, the counters are given back and the callback is called at once.
\<close>

definition dec_counter :: "u64 list list \<Rightarrow> nat \<Rightarrow> nat \<Rightarrow> u64 list list" where
  "dec_counter vs r v = vs[r := (vs ! r)[v := vs ! r ! v - 1]]"

definition inc_counter :: "u64 list list \<Rightarrow> nat \<Rightarrow> nat \<Rightarrow> u64 list list" where
  "inc_counter vs r v = vs[r := (vs ! r)[v := vs ! r ! v + 1]]"

definition kv_ring_forward ::
  "nodes \<Rightarrow> u64 list list \<Rightarrow> forward_ctx \<Rightarrow> kv_msg option \<Rightarrow> nodes \<times> u64 list list \<times> forward_event list" where
  "kv_ring_forward ns vers ctx req =
     (case (req, fw_node ctx) of
        (Some m, Some n) \<Rightarrow> (ns, vers, [Fw_send n m])
      | (_, on) \<Rightarrow>
          ((case on of None \<Rightarrow> ns | Some n \<Rightarrow> upd_node ns n (\<lambda>y. y\<lparr>req_cnt := req_cnt y - 1\<rparr>)),
           dec_counter vers (fw_ring ctx) (fw_version ctx), [Fw_callback]))"

text \<open>A copied item goes to the virtual node that is being filled, one hop behind the chain.\<close>

definition kv_ring_forward_copy ::
  "nodes \<Rightarrow> vnode_ring list option \<Rightarrow> nat \<Rightarrow> kv_msg \<Rightarrow> (nodes \<times> forward_event list) res" where
  "kv_ring_forward_copy ns rings lrn m =
     rbind (get_chain ns rings lrn (KV_MSG_KEY m)) (\<lambda>r.
       case r of
         None \<Rightarrow> Inl Null_deref
       | Some (ri, ch) \<Rightarrow>
           (case ch_copy ch of
              None \<Rightarrow> Inl Assert_fail
            | Some c \<Rightarrow>
                let n = ve_node (vr_head (the rings ! ri) ! c) in
                Inr (upd_node ns n (\<lambda>y. y\<lparr>req_cnt := req_cnt y + 1\<rparr>),
                     [Fw_send n (m\<lparr>hop := word_of_nat (length (ch_vids ch)) + 1\<rparr>)])))"

definition forward_cb ::
  "nodes \<Rightarrow> u64 list list \<Rightarrow> bool \<Rightarrow> bool \<Rightarrow> string \<Rightarrow> forward_ctx \<Rightarrow> kv_msg \<Rightarrow> nodes \<times> u64 list list \<times> kv_msg" where
  "forward_cb ns vers success is_copy_req n ctx resp =
     (upd_node ns n (\<lambda>y. y\<lparr>req_cnt := req_cnt y - 1\<rparr>),
      if is_copy_req then vers else dec_counter vers (fw_ring ctx) (fw_version ctx),
      if success then resp else resp\<lparr>msg_type := KV_MSG_ERR\<rparr>)"

section \<open>Requests at a server\<close>

datatype vnode_type = KV_RING_VNODE | KV_RING_TAIL | KV_RING_COPY

text \<open>
  \<open>rdma_req_handler_wrapper\<close>: either the request is handed to the server with the data store
  and the role of the local virtual node and the node to forward to, or it is answered as
  outdated. The two out-of-bounds cases read before the array of the chain.
\<close>

datatype ring_req =
  Rq_handle kv_msg "string option" nat vnode_type
| Rq_nak kv_msg

definition nak_msg :: "kv_msg \<Rightarrow> kv_msg" where
  "nak_msg m = m\<lparr>msg_type := KV_MSG_OUTDATED, value_len := 0\<rparr>"

definition write_role :: "nat \<Rightarrow> nat \<Rightarrow> vnode_type" where
  "write_role h n = (if h = n + 1 then KV_RING_COPY else if h = n then KV_RING_TAIL else KV_RING_VNODE)"

definition handle_write ::
  "nodes \<Rightarrow> vnode_ring \<Rightarrow> vnode_chain \<Rightarrow> kv_msg \<Rightarrow> (nodes \<times> ring_req) res" where
  "handle_write ns ring ch m =
     (let h = unat (hop m); n = length (ch_vids ch); at = (\<lambda>i. vr_head ring ! i) in
      if h = 0 then Inl Out_of_bounds
      else
        let loc = (if h = n + 1 then map_option at (ch_copy ch)
                   else if h < n + 1 then Some (at (ch_vids ch ! (h - 1))) else None)
        in case loc of
             None \<Rightarrow> Inr (ns, Rq_nak (nak_msg m))
           | Some x \<Rightarrow>
               if \<not> is_local (ns (ve_node x)) then Inr (ns, Rq_nak (nak_msg m))
               else
                 let nxt = (if h < n then Some (at (ch_vids ch ! h))
                            else if h = n then map_option at (ch_copy ch) else None);
                     role = write_role h n
                 in case nxt of
                      None \<Rightarrow> Inr (ns, Rq_handle m None (entry_ds x) role)
                    | Some y \<Rightarrow>
                        Inr (upd_node ns (ve_node y) (\<lambda>z. z\<lparr>req_cnt := req_cnt z + 1\<rparr>),
                             Rq_handle (m\<lparr>hop := hop m + 1\<rparr>) (Some (ve_node y)) (entry_ds x) role))"

definition handle_read ::
  "nodes \<Rightarrow> vnode_ring \<Rightarrow> vnode_chain \<Rightarrow> kv_msg \<Rightarrow> (nodes \<times> ring_req) res" where
  "handle_read ns ring ch m =
     (let xs = chain_entries ring ch; loc = (\<lambda>x. is_local (ns (ve_node x))) in
      if hop m = 1 then
        (case List.find loc xs of
           None \<Rightarrow> Inr (ns, Rq_nak (nak_msg m))
         | Some x \<Rightarrow>
             let t = last xs in
             if loc t then Inr (ns, Rq_handle m None (entry_ds x) KV_RING_TAIL)
             else Inr (upd_node ns (ve_node t) (\<lambda>z. z\<lparr>req_cnt := req_cnt z + 1\<rparr>),
                       Rq_handle (m\<lparr>hop := hop m + 1\<rparr>) (Some (ve_node t)) (entry_ds x) KV_RING_VNODE))
      else if hop m = 2 then
        (if xs = [] then Inl Out_of_bounds
         else if loc (last xs) then Inr (ns, Rq_handle m None (entry_ds (last xs)) KV_RING_TAIL)
         else Inr (ns, Rq_nak (nak_msg m)))
      else Inl Assert_fail)"

definition is_write_msg :: "kv_msg \<Rightarrow> bool" where
  "is_write_msg m \<longleftrightarrow>
     msg_type m = KV_MSG_SET \<or> msg_type m = KV_MSG_BUFFERED_SET \<or> msg_type m = KV_MSG_DEL"

definition rdma_req_handler_wrapper ::
  "nodes \<Rightarrow> vnode_ring list option \<Rightarrow> u64 list list \<Rightarrow> nat \<Rightarrow> bool \<Rightarrow> kv_msg
     \<Rightarrow> (nodes \<times> u64 list list \<times> ring_req) res" where
  "rdma_req_handler_wrapper ns rings vers lrn is_server_exiting m =
     (if is_server_exiting then Inr (ns, vers, Rq_nak (nak_msg m))
      else rbind (get_chain ns rings lrn (KV_MSG_KEY m)) (\<lambda>r.
        case r of
          None \<Rightarrow> Inr (ns, vers, Rq_nak (nak_msg m))
        | Some (ri, ch) \<Rightarrow>
            let ring = the rings ! ri in
            rbind (if is_write_msg m then handle_write ns ring ch m
                   else if is_read_msg m then handle_read ns ring ch m else Inl Assert_fail) (\<lambda>(ns', q).
              Inr (ns', (case q of Rq_handle _ _ _ _ \<Rightarrow> inc_counter vers ri (unat (vr_version ring)) | Rq_nak _ \<Rightarrow> vers), q))))"

end
