(* ===== verification/Kv_Ring_Update.thy ===== *)
theory Kv_Ring_Update
  imports Kv_Ring
begin

unbundle bit_operations_syntax

text \<open>
  The second half of \<open>kv_ring.c\<close>: how the rings follow the keys of the coordination service.
  Messages about nodes and virtual nodes are parsed, applied to the copy of the rings of
  every thread (the master thread last), and answered with new keys; joining and leaving
  virtual nodes start and stop the copy of key ranges. Contexts of ring changes live in a
  table and are named by numbers.
\<close>

section \<open>Keys of the coordination service\<close>

datatype kv_etcd_msg_type = KV_ETCD_MSG_PUT | KV_ETCD_MSG_DEL

definition digit_char :: "nat \<Rightarrow> char" where
  "digit_char n = char_of (48 + n)"

fun show_nat :: "nat \<Rightarrow> string" where
  "show_nat n = (if n < 10 then [digit_char n] else show_nat (n div 10) @ [digit_char (n mod 10)])"

declare show_nat.simps [simp del]

definition is_digit :: "char \<Rightarrow> bool" where
  "is_digit c \<longleftrightarrow> 48 \<le> (of_char c :: nat) \<and> (of_char c :: nat) < 58"

text \<open>\<open>sscanf\<close> with \<open>%u\<close> on the keys of this program: the leading digits.\<close>

definition scan_u32 :: "string \<Rightarrow> u32 res" where
  "scan_u32 s =
     (let ds = takeWhile is_digit s in
      if ds = [] then Inl Uninit_read
      else Inr (word_of_nat (fold (\<lambda>c n. n * 10 + (of_char c - 48)) ds 0)))"

definition ring_key :: "nat \<Rightarrow> nat \<Rightarrow> string \<Rightarrow> string" where
  "ring_key ring_id st node_id = ''/rings/'' @ show_nat ring_id @ ''/'' @ show_nat st @ ''/'' @ node_id @ ''/''"

definition ring_key_src :: "nat \<Rightarrow> nat \<Rightarrow> string \<Rightarrow> string \<Rightarrow> string" where
  "ring_key_src ring_id st node_id src_id = ring_key ring_id st node_id @ src_id @ ''/''"

definition node_key :: "string \<Rightarrow> string" where
  "node_key node_id = ''/nodes/'' @ node_id @ ''/''"

definition KV_MAX_NODEID_LEN :: nat where "KV_MAX_NODEID_LEN = 24"
definition MAX_RING_NUM :: nat where "MAX_RING_NUM = 1024"

fun key_next :: "string \<Rightarrow> string res" where
  "key_next [] = Inl Out_of_bounds"
| "key_next (c # cs) = (if c = CHR ''/'' then Inr cs else key_next cs)"

fun key_take :: "string \<Rightarrow> (string \<times> string) res" where
  "key_take [] = Inl Out_of_bounds"
| "key_take (c # cs) =
     (if c = CHR ''/'' then Inr ([], cs) else rbind (key_take cs) (\<lambda>(a, b). Inr (c # a, b)))"

definition key_copy :: "string \<Rightarrow> (string \<times> string) res" where
  "key_copy src =
     rbind (key_take src) (\<lambda>(a, b). if length a < KV_MAX_NODEID_LEN then Inr (a, b) else Inl Out_of_bounds)"

fun key_cmp :: "string \<Rightarrow> string \<Rightarrow> bool res" where
  "key_cmp [] s2 = Inr True"
| "key_cmp (a # s1) [] = Inl Out_of_bounds"
| "key_cmp (a # s1) (b # s2) =
     (if b = CHR ''/'' then Inr True else if a \<noteq> b then Inr False else key_cmp s1 s2)"

section \<open>State\<close>

record ring_change_ctx =
  rc_vid :: kv_etcd_vid
  rc_node_id :: string
  rc_src_id :: string
  rc_ring_id :: nat
  rc_state :: nat
  rc_msg :: kv_etcd_msg_type
  rc_cnt :: u32

record init_ctx_t =
  in_ip :: string
  in_port :: string
  in_ring_num :: u32
  in_vid_per_ssd :: u32
  in_ds_num :: u32
  in_rpl_num :: u32
  in_log_bkt_num :: u32

record kv_ring =
  rg_thread_num :: nat
  rg_local_id :: string
  rg_nodes :: "string \<rightharpoonup> kv_node"
  rg_rings :: "vnode_ring list list option"
  rg_log_ring_num :: nat
  rg_versions :: "u64 list list"
  rg_conn_q :: "string list"
  rg_updates :: "string \<Rightarrow> nat list"
  rg_changes :: "nat \<rightharpoonup> ring_change_ctx"
  rg_next :: nat
  rg_online_cb :: bool
  rg_exiting :: bool
  rg_copy_cb :: bool
  rg_server_init_cnt :: u64
  rg_init :: init_ctx_t
  rg_used :: "(kv_etcd_msg_type \<times> nat \<times> nat) set"

text \<open>
  What the ring asks of its surroundings: keys put and deleted, the copy callback, messages
  to its own threads, connections, leases and the two ends of a server's life.
\<close>

datatype ring_event =
  Rg_put string kv_etcd_vid
| Rg_put_node string kv_etcd_node
| Rg_del string
| Rg_copy bool copy_range_ctx
| Rg_update nat nat
| Rg_ack nat
| Rg_connect string string string
| Rg_disconnect string
| Rg_online
| Rg_revoke
| Rg_exit
| Rg_node_put string kv_etcd_node
| Rg_node_del string
| Rg_change nat

definition null_node :: kv_node where
  "null_node = \<lparr>info = \<lparr>log_ring_num = 0, log_bkt_num = 0, rpl_num = 0, ds_num = 0\<rparr>,
     node_queue = kv_ds_queue_init 0, is_connected = False, is_disconnecting = False, is_local = False,
     has_info = False, req_cnt = 0\<rparr>"

definition node_of :: "kv_ring \<Rightarrow> string \<Rightarrow> kv_node" where
  "node_of rg i = (case rg_nodes rg i of Some n \<Rightarrow> n | None \<Rightarrow> null_node)"

section \<open>Initialisation\<close>

definition empty_ring :: vnode_ring where
  "empty_ring = \<lparr>vr_head = [], vr_version = 0, vr_copy_ranges = [], vr_range_size = 0\<rparr>"

definition ring_init :: "nat \<Rightarrow> kv_ring \<Rightarrow> kv_ring" where
  "ring_init lrn rg =
     (case rg_rings rg of
        Some _ \<Rightarrow> rg
      | None \<Rightarrow>
          rg\<lparr>rg_log_ring_num := lrn,
             rg_versions := replicate (2 ^ lrn) (replicate (unat RING_VERSION_MAX) 0),
             rg_rings := Some (replicate (rg_thread_num rg) (replicate (2 ^ lrn) empty_ring))\<rparr>)"

definition kv_ring_init :: "nat \<Rightarrow> bool \<Rightarrow> kv_ring" where
  "kv_ring_init thread_num online_cb =
     \<lparr>rg_thread_num = thread_num, rg_local_id = [], rg_nodes = Map.empty, rg_rings = None, rg_log_ring_num = 0,
      rg_versions = [], rg_conn_q = [], rg_updates = (\<lambda>_. []), rg_changes = Map.empty, rg_next = 0,
      rg_online_cb = online_cb, rg_exiting = False, rg_copy_cb = False, rg_server_init_cnt = 0,
      rg_init = \<lparr>in_ip = [], in_port = [], in_ring_num = 0, in_vid_per_ssd = 0, in_ds_num = 0, in_rpl_num = 0,
                 in_log_bkt_num = 0\<rparr>, rg_used = {}\<rparr>"

definition kv_ring_server_init :: "init_ctx_t \<Rightarrow> kv_ring \<Rightarrow> kv_ring res" where
  "kv_ring_server_init ctx rg =
     rbind (c_assert (in_ds_num ctx \<noteq> 0)) (\<lambda>_.
     rbind (c_assert (in_vid_per_ssd ctx * in_ds_num ctx \<le> in_ring_num ctx)) (\<lambda>_.
       Inr (rg\<lparr>rg_init := ctx, rg_server_init_cnt := 20\<rparr>)))"

definition kv_ring_register_copy_cb :: "kv_ring \<Rightarrow> kv_ring" where
  "kv_ring_register_copy_cb rg = rg\<lparr>rg_copy_cb := True\<rparr>"

definition kv_ring_fini :: "kv_ring \<Rightarrow> kv_ring" where
  "kv_ring_fini rg = rg\<lparr>rg_rings := None, rg_versions := []\<rparr>"

section \<open>Virtual nodes\<close>

text \<open>\<open>vnode_create\<close>: the ring with the new entry and its position.\<close>

definition vnode_create :: "ring_change_ctx \<Rightarrow> vnode_ring \<Rightarrow> (vnode_ring \<times> nat) res" where
  "vnode_create ctx ring =
     (let x = \<lparr>ve_vid = rc_vid ctx, ve_node = rc_node_id ctx, ve_state = VID_JOINING, cp_cnt = 0, rm_cnt = 1\<rparr> in
      rbind (find_vid_entry ring (ev_vid (rc_vid ctx))) (\<lambda>p.
        let i = (case p of Some i \<Rightarrow> i | None \<Rightarrow> 0)
        in Inr (ring\<lparr>vr_head := take i (vr_head ring) @ x # drop i (vr_head ring)\<rparr>, i)))"

definition vnode_delete :: "nat \<Rightarrow> vnode_ring \<Rightarrow> vnode_ring" where
  "vnode_delete i ring = ring\<lparr>vr_head := take i (vr_head ring) @ drop (Suc i) (vr_head ring)\<rparr>"

fun any_local_after :: "nat \<Rightarrow> nodes \<Rightarrow> vnode_ring \<Rightarrow> nat \<Rightarrow> nat \<Rightarrow> bool" where
  "any_local_after 0 ns ring vid x = False"
| "any_local_after (Suc k) ns ring vid x =
     (let y = loop_next_pos ring x in
      if y = vid then False
      else if is_local (ns (ve_node (vr_head ring ! y))) then True
      else any_local_after k ns ring vid y)"

definition entry_rpl :: "nodes \<Rightarrow> vid_entry \<Rightarrow> nat" where
  "entry_rpl ns x = unat (rpl_num (info (ns (ve_node x))))"

definition vnode_join_copyable :: "nodes \<Rightarrow> vnode_ring \<Rightarrow> nat \<Rightarrow> bool" where
  "vnode_join_copyable ns ring vid = any_local_after (entry_rpl ns (vr_head ring ! vid)) ns ring vid vid"

fun local_within :: "nat \<Rightarrow> nodes \<Rightarrow> vnode_ring \<Rightarrow> nat \<Rightarrow> bool" where
  "local_within 0 ns ring x = False"
| "local_within (Suc k) ns ring x =
     (let y = loop_next_pos ring x in
      if is_local (ns (ve_node (vr_head ring ! y))) then True else local_within k ns ring y)"

definition vnode_leave_copyable :: "nodes \<Rightarrow> vnode_ring \<Rightarrow> nat \<Rightarrow> bool" where
  "vnode_leave_copyable ns ring vid =
     (if is_local (ns (ve_node (vr_head ring ! loop_prev_pos ring vid))) then True
      else local_within (unat (rpl_num (info (ns (ve_node (vr_head ring ! vid)))) - 1)) ns ring vid)"

section \<open>Copies of key ranges\<close>

definition set_ring_id_64 :: "u64 \<Rightarrow> nat \<Rightarrow> u32 \<Rightarrow> u64" where
  "set_ring_id_64 w lrn ring_id =
     (if lrn = 0 then w
      else (w AND (push_bit (64 - lrn) 1 - 1)) OR push_bit (64 - lrn) (ucast ring_id))"

text \<open>
  The key ranges of a chain: \<open>(prev, base]\<close> as a half-open range, split where it passes the
  end of the ring because the data store does not know about rings.
\<close>

definition copy_infos :: "nat \<Rightarrow> u64 \<Rightarrow> u64 \<Rightarrow> u8 list \<Rightarrow> u16 \<Rightarrow> bool \<Rightarrow> kv_ring_copy_info list" where
  "copy_infos lrn start e base_vid ds del =
     (if start > e \<and> e \<noteq> 0 then
        let ring_id = get_ring_id base_vid lrn in
        [\<lparr>ci_start = set_ring_id_64 0 lrn ring_id, ci_end = e, ci_ds_id = ds, ci_del = del\<rparr>,
         \<lparr>ci_start = start, ci_end = set_ring_id_64 0 lrn (ring_id + 1), ci_ds_id = ds, ci_del = del\<rparr>]
      else [\<lparr>ci_start = start, ci_end = e, ci_ds_id = ds, ci_del = del\<rparr>])"

fun start_copy_loop ::
  "nat \<Rightarrow> nodes \<Rightarrow> vnode_ring list \<Rightarrow> nat \<Rightarrow> bool \<Rightarrow> nat \<Rightarrow> nat \<Rightarrow> nat \<Rightarrow> copy_range_ctx list res" where
  "start_copy_loop 0 ns rings lrn has_cb rid vnode x = Inr []"
| "start_copy_loop (Suc k) ns rings lrn has_cb rid vnode x =
     (let ring = rings ! rid; hd_at = (\<lambda>i. vr_head ring ! i) in
      rbind (get_chain ns (Some rings) lrn (ev_vid (ve_vid (hd_at x)))) (\<lambda>r.
        case r of
          None \<Rightarrow> Inl Null_deref
        | Some (ri, ch) \<Rightarrow>
            if ch_vids ch = [] then Inl Out_of_bounds
            else
              let tail = vr_head (rings ! ri) ! last (ch_vids ch);
                  base = vr_head (rings ! ri) ! ch_base ch;
                  del = (length (ch_vids ch) = entry_rpl ns (hd_at vnode));
                  prev = vr_head ring ! loop_prev_pos ring (ch_base ch);
                  infos = copy_infos lrn (vid_of prev + 1) (vid_of base + 1) (ev_vid (ve_vid base))
                            (ev_ds_id (ve_vid tail)) del;
                  ctxs = (case (ch_copy ch, ch_invalid ch) of
                            (Some _, Some b) \<Rightarrow>
                              if is_local (ns (ve_node tail)) \<and> has_cb
                              then map (\<lambda>i. \<lparr>cr_info = i, cr_ring = rid, cr_invalid = ve_node (vr_head (rings ! ri) ! b),
                                            cr_invalid_state = ve_state (vr_head (rings ! ri) ! b),
                                            cr_version = vr_version ring\<rparr>) infos
                              else []
                          | _ \<Rightarrow> []);
                  y = loop_prev_pos ring x
              in if y = vnode then Inr ctxs
                 else rbind (start_copy_loop k ns rings lrn has_cb rid vnode y) (\<lambda>cs. Inr (ctxs @ cs))))"

definition start_copy :: "kv_ring \<Rightarrow> nat \<Rightarrow> nat \<Rightarrow> vnode_ring list \<Rightarrow> (vnode_ring list \<times> ring_event list) res" where
  "start_copy rg rid vnode rings =
     rbind (start_copy_loop (entry_rpl (node_of rg) (vr_head (rings ! rid) ! vnode)) (node_of rg) rings
              (rg_log_ring_num rg) (rg_copy_cb rg) rid vnode vnode) (\<lambda>cs.
       Inr (rings[rid := (rings ! rid)\<lparr>vr_range_size := vr_range_size (rings ! rid) + word_of_nat (length cs)\<rparr>],
            map (Rg_copy True) cs))"

text \<open>The last range of a ring withdraws the key of the virtual node that was copied for.\<close>

definition kv_ring_stop_copy :: "copy_range_ctx \<Rightarrow> kv_ring \<Rightarrow> kv_ring \<times> ring_event list" where
  "kv_ring_stop_copy c rg =
     (case rg_rings rg of
        None \<Rightarrow> (rg, [])
      | Some rss \<Rightarrow>
          let ring = rss ! 0 ! cr_ring c; n = vr_range_size ring - 1;
              ring' = ring\<lparr>vr_copy_ranges := vr_copy_ranges ring @ [c], vr_range_size := n\<rparr>;
              rg' = rg\<lparr>rg_rings := Some (rss[0 := (rss ! 0)[cr_ring c := ring']])\<rparr>;
              type = (if cr_invalid_state c = VID_JOINING then 0 else 2)
          in (rg', if n \<noteq> 0 then [] else [Rg_del (ring_key_src (cr_ring c) type (cr_invalid c) (rg_local_id rg))]))"

section \<open>Ring changes\<close>

definition set_entry :: "nat \<Rightarrow> (vid_entry \<Rightarrow> vid_entry) \<Rightarrow> vnode_ring \<Rightarrow> vnode_ring" where
  "set_entry i f ring = ring\<lparr>vr_head := (vr_head ring)[i := f (vr_head ring ! i)]\<rparr>"

definition next_version :: "kv_ring \<Rightarrow> nat \<Rightarrow> vnode_ring \<Rightarrow> vnode_ring res" where
  "next_version rg rid ring =
     rbind (c_assert (rg_versions rg ! rid ! unat ((vr_version ring + RING_VERSION_MAX - 1) mod RING_VERSION_MAX) = 0)) (\<lambda>_.
       Inr (ring\<lparr>vr_version := (vr_version ring + 1) mod RING_VERSION_MAX\<rparr>))"

definition find_or_create :: "ring_change_ctx \<Rightarrow> vnode_ring \<Rightarrow> (vnode_ring \<times> nat) res" where
  "find_or_create ctx ring =
     (case find_vid_by_node ring (rc_node_id ctx) of
        Some i \<Rightarrow> Inr (ring, i)
      | None \<Rightarrow> vnode_create ctx ring)"

text \<open>The \<open>switch\<close> of \<open>update_ring\<close> on the rings of one thread.\<close>

definition change_joining_put ::
  "kv_ring \<Rightarrow> bool \<Rightarrow> ring_change_ctx \<Rightarrow> vnode_ring list \<Rightarrow> (vnode_ring list \<times> ring_event list) res" where
  "change_joining_put rg master ctx rings =
     (let rid = rc_ring_id ctx; loc = rg_local_id rg in
      rbind (find_or_create ctx (rings ! rid)) (\<lambda>(ring, i).
        let ring1 = set_entry i (\<lambda>x. x\<lparr>ve_state := VID_JOINING, cp_cnt := cp_cnt x + 1\<rparr>) ring;
            rings1 = rings[rid := ring1];
            x = vr_head ring1 ! i; l = is_local (node_of rg (ve_node x))
        in if \<not> master then Inr (rings1, [])
           else if l \<and> rc_src_id ctx = loc then Inr (rings1, [Rg_put (ring_key rid 1 loc) (ve_vid x)])
           else if \<not> l \<and> rc_src_id ctx = rc_node_id ctx then
             Inr (rings1, if vnode_join_copyable (node_of rg) ring1 i
                          then [Rg_put (ring_key_src rid 0 (ve_node x) loc) (ve_vid x)] else [])
           else if \<not> l \<and> rc_src_id ctx = loc then start_copy rg rid i rings1
           else Inr (rings1, [])))"

definition change_joining_del ::
  "kv_ring \<Rightarrow> ring_change_ctx \<Rightarrow> vnode_ring list \<Rightarrow> (vnode_ring list \<times> ring_event list) res" where
  "change_joining_del rg ctx rings =
     (let rid = rc_ring_id ctx; ring = rings ! rid in
      case find_vid_by_node ring (rc_node_id ctx) of
        None \<Rightarrow> Inl Assert_fail
      | Some i \<Rightarrow>
          rbind (c_assert (ve_state (vr_head ring ! i) = VID_JOINING)) (\<lambda>_.
            let c = cp_cnt (vr_head ring ! i) - 1;
                ring1 = set_entry i (\<lambda>x. x\<lparr>cp_cnt := c\<rparr>) ring
            in if c \<noteq> 0 then Inr (rings[rid := ring1], [])
               else rbind (next_version rg rid (set_entry i (\<lambda>x. x\<lparr>ve_state := VID_RUNNING\<rparr>) ring1)) (\<lambda>ring2.
                 Inr (rings[rid := ring2], []))))"

definition change_running_put ::
  "ring_change_ctx \<Rightarrow> vnode_ring list \<Rightarrow> (vnode_ring list \<times> ring_event list) res" where
  "change_running_put ctx rings =
     (let rid = rc_ring_id ctx in
      rbind (find_or_create ctx (rings ! rid)) (\<lambda>(ring, i).
        Inr (rings[rid := set_entry i (\<lambda>x. if cp_cnt x = 0 then x\<lparr>ve_state := VID_RUNNING\<rparr> else x) ring], [])))"

definition change_running_del ::
  "ring_change_ctx \<Rightarrow> vnode_ring list \<Rightarrow> (vnode_ring list \<times> ring_event list) res" where
  "change_running_del ctx rings =
     (let rid = rc_ring_id ctx; ring = rings ! rid in
      case find_vid_by_node ring (rc_node_id ctx) of
        None \<Rightarrow> Inl Assert_fail
      | Some i \<Rightarrow>
          let c = rm_cnt (vr_head ring ! i) - 1 in
          if c = 0 then Inr (rings[rid := vnode_delete i ring], [])
          else rbind (c_assert (ve_state (vr_head ring ! i) = VID_LEAVING)) (\<lambda>_.
            Inr (rings[rid := set_entry i (\<lambda>x. x\<lparr>rm_cnt := c\<rparr>) ring], [])))"

definition change_leaving_put ::
  "kv_ring \<Rightarrow> bool \<Rightarrow> ring_change_ctx \<Rightarrow> vnode_ring list \<Rightarrow> (vnode_ring list \<times> ring_event list) res" where
  "change_leaving_put rg master ctx rings =
     (let rid = rc_ring_id ctx in
      rbind (find_or_create ctx (rings ! rid)) (\<lambda>(ring, i).
        let ring1 = set_entry i (\<lambda>x. x\<lparr>ve_state := VID_LEAVING, rm_cnt := rm_cnt x + 1\<rparr>) ring;
            rings1 = rings[rid := ring1];
            l = is_local (node_of rg (ve_node (vr_head ring1 ! i)))
        in if master \<and> \<not> l \<and> rc_src_id ctx = rg_local_id rg then start_copy rg rid i rings1
           else Inr (rings1, [])))"

definition change_leaving_del ::
  "kv_ring \<Rightarrow> ring_change_ctx \<Rightarrow> vnode_ring list \<Rightarrow> (vnode_ring list \<times> ring_event list) res" where
  "change_leaving_del rg ctx rings =
     (let rid = rc_ring_id ctx; ring = rings ! rid in
      case find_vid_by_node ring (rc_node_id ctx) of
        None \<Rightarrow> Inl Assert_fail
      | Some i \<Rightarrow>
          rbind (c_assert (ve_state (vr_head ring ! i) = VID_LEAVING)) (\<lambda>_.
            let c = rm_cnt (vr_head ring ! i) - 1 in
            if c \<noteq> 0 then Inr (rings[rid := set_entry i (\<lambda>x. x\<lparr>rm_cnt := c\<rparr>) ring], [])
            else rbind (next_version rg rid (vnode_delete i ring)) (\<lambda>ring1. Inr (rings[rid := ring1], []))))"

definition change_ring ::
  "kv_ring \<Rightarrow> bool \<Rightarrow> ring_change_ctx \<Rightarrow> vnode_ring list \<Rightarrow> (vnode_ring list \<times> ring_event list) res" where
  "change_ring rg master ctx rings =
     (if rc_state ctx = 0 then
        (case rc_msg ctx of KV_ETCD_MSG_PUT \<Rightarrow> change_joining_put rg master ctx rings
         | KV_ETCD_MSG_DEL \<Rightarrow> change_joining_del rg ctx rings)
      else if rc_state ctx = 1 then
        (case rc_msg ctx of KV_ETCD_MSG_PUT \<Rightarrow> change_running_put ctx rings
         | KV_ETCD_MSG_DEL \<Rightarrow> change_running_del ctx rings)
      else if rc_state ctx = 2 then
        (case rc_msg ctx of KV_ETCD_MSG_PUT \<Rightarrow> change_leaving_put rg master ctx rings
         | KV_ETCD_MSG_DEL \<Rightarrow> change_leaving_del rg ctx rings)
      else Inl Assert_fail)"

text \<open>\<open>update_ring\<close> on thread \<open>t\<close>; the master thread waits for the acknowledgement of all others.\<close>

definition update_ring :: "nat \<Rightarrow> nat \<Rightarrow> kv_ring \<Rightarrow> (kv_ring \<times> ring_event list) res" where
  "update_ring t ci rg =
     (case (rg_changes rg ci, rg_rings rg) of
        (Some ctx, Some rss) \<Rightarrow>
          let master = (t = 0); c = rc_cnt ctx - 1 in
          if master \<and> c \<noteq> 0 then Inr (rg\<lparr>rg_changes := (rg_changes rg)(ci \<mapsto> ctx\<lparr>rc_cnt := c\<rparr>)\<rparr>, [])
          else
            rbind (change_ring rg master ctx (rss ! t)) (\<lambda>(rs, evs).
              let rg1 = rg\<lparr>rg_rings := Some (rss[t := rs])\<rparr>
              in if master then Inr (rg1\<lparr>rg_changes := (rg_changes rg)(ci := None)\<rparr>, evs)
                 else Inr (rg1, evs @ [Rg_ack ci]))
      | _ \<Rightarrow> Inl Null_deref)"

fun update_rings_loop :: "nat list \<Rightarrow> string \<Rightarrow> kv_ring \<Rightarrow> (kv_ring \<times> ring_event list) res" where
  "update_rings_loop [] n rg = Inr (rg, [])"
| "update_rings_loop (ci # cis) n rg =
     (case rg_changes rg ci of
        None \<Rightarrow> Inl Null_deref
      | Some ctx \<Rightarrow>
          let vid = mask_vnode_id (ev_vid (rc_vid ctx)) (unat (log_bkt_num (info (node_of rg n))));
              ctx1 = ctx\<lparr>rc_vid := (rc_vid ctx)\<lparr>ev_vid := vid\<rparr>\<rparr>;
              rg1 = rg\<lparr>rg_changes := (rg_changes rg)(ci \<mapsto> ctx1)\<rparr>
          in rbind (c_assert (rc_msg ctx = KV_ETCD_MSG_DEL \<or> rc_ring_id ctx = unat (get_ring_id vid (rg_log_ring_num rg)))) (\<lambda>_.
             rbind (update_ring 0 ci rg1) (\<lambda>(rg2, evs).
             rbind (update_rings_loop cis n rg2) (\<lambda>(rg3, evs').
               Inr (rg3, map (\<lambda>t. Rg_update t ci) [1..<rg_thread_num rg] @ evs @ evs')))))"

definition update_rings :: "string \<Rightarrow> kv_ring \<Rightarrow> (kv_ring \<times> ring_event list) res" where
  "update_rings n rg = update_rings_loop (rg_updates rg n) n (rg\<lparr>rg_updates := (rg_updates rg)(n := [])\<rparr>)"

definition on_ring_change :: "nat \<Rightarrow> kv_ring \<Rightarrow> (kv_ring \<times> ring_event list) res" where
  "on_ring_change ci rg =
     (case rg_changes rg ci of
        None \<Rightarrow> Inl Null_deref
      | Some ctx \<Rightarrow>
          let n = rc_node_id ctx;
              ctx1 = ctx\<lparr>rc_cnt := word_of_nat (rg_thread_num rg)\<rparr>;
              update_now = (case rg_nodes rg n of
                              None \<Rightarrow> False
                            | Some x \<Rightarrow> \<not> (\<not> has_info x \<or> (\<not> is_local x \<and> \<not> is_disconnecting x \<and> \<not> is_connected x)));
              rg1 = rg\<lparr>rg_changes := (rg_changes rg)(ci \<mapsto> ctx1),
                       rg_nodes := (case rg_nodes rg n of None \<Rightarrow> (rg_nodes rg)(n \<mapsto> null_node) | Some _ \<Rightarrow> rg_nodes rg),
                       rg_updates := (rg_updates rg)(n := rg_updates rg n @ [ci])\<rparr>
          in if update_now then update_rings n rg1 else Inr (rg1, []))"

section \<open>Nodes\<close>

definition are_vnodes_gone :: "kv_ring \<Rightarrow> string \<Rightarrow> bool \<Rightarrow> bool" where
  "are_vnodes_gone rg n is_leaving =
     (case rg_rings rg of
        None \<Rightarrow> True
      | Some rss \<Rightarrow>
          list_all (\<lambda>ring.
            case find_vid_by_node ring n of
              None \<Rightarrow> True
            | Some i \<Rightarrow> is_leaving \<and> ve_state (vr_head ring ! i) = VID_LEAVING) (rss ! 0))"

definition rdma_disconnect_cb :: "string \<Rightarrow> kv_ring \<Rightarrow> kv_ring res" where
  "rdma_disconnect_cb n rg =
     (let x = node_of rg n in
      if is_disconnecting x then
        rbind (c_assert (are_vnodes_gone rg n True \<and> req_cnt x = 0)) (\<lambda>_.
          Inr (rg\<lparr>rg_nodes := (rg_nodes rg)(n \<mapsto> x\<lparr>is_connected := False\<rparr>), rg_conn_q := rg_conn_q rg @ [n]\<rparr>))
      else Inl Exit_fail)"

definition rdma_connect_cb :: "bool \<Rightarrow> string \<Rightarrow> kv_ring \<Rightarrow> (kv_ring \<times> ring_event list) res" where
  "rdma_connect_cb ok n rg =
     (let x = node_of rg n in
      rbind (c_assert (\<not> is_local x)) (\<lambda>_.
        if is_disconnecting x \<or> \<not> ok then Inr (rg\<lparr>rg_conn_q := rg_conn_q rg @ [n]\<rparr>, [])
        else
          rbind (update_rings n (rg\<lparr>rg_nodes := (rg_nodes rg)(n \<mapsto> x\<lparr>is_connected := True\<rparr>)\<rparr>)) (\<lambda>(rg1, evs).
            Inr (rg1\<lparr>rg_online_cb := False\<rparr>, evs @ (if rg_online_cb rg1 then [Rg_online] else [])))))"

definition on_node_put :: "string \<Rightarrow> kv_etcd_node \<Rightarrow> kv_ring \<Rightarrow> (kv_ring \<times> ring_event list) res" where
  "on_node_put n i rg0 =
     (let rg = ring_init (unat (log_ring_num i)) rg0 in
      if (case rg_nodes rg n of Some x \<Rightarrow> has_info x | None \<Rightarrow> False) then Inr (rg, [])
      else
        let loc = (rg_local_id rg = n);
            x = \<lparr>info = i, node_queue = kv_ds_queue_init (ucast (ds_num i)), is_connected = False,
                 is_disconnecting = False, is_local = loc, has_info = True, req_cnt = 0\<rparr>;
            rg1 = rg\<lparr>rg_nodes := (rg_nodes rg)(n \<mapsto> x)\<rparr>
        in if loc then update_rings n rg1 else Inr (rg1\<lparr>rg_conn_q := rg_conn_q rg1 @ [n]\<rparr>, []))"

text \<open>The rings where a leaving node is announced by the local node.\<close>

definition leaving_keys :: "kv_ring \<Rightarrow> string \<Rightarrow> vnode_ring list \<Rightarrow> ring_event list" where
  "leaving_keys rg n rings =
     concat (map (\<lambda>rid.
       let ring = rings ! rid in
       if ring_size ring \<le> unat (rpl_num (info (node_of rg n))) then []
       else case find_vid_by_node ring n of
              None \<Rightarrow> []
            | Some i \<Rightarrow>
                if vnode_leave_copyable (node_of rg) ring i
                then [Rg_put (ring_key_src rid 2 n (rg_local_id rg)) (ve_vid (vr_head ring ! i))] else [])
       [0..<2 ^ rg_log_ring_num rg])"

definition on_node_del :: "string \<Rightarrow> kv_ring \<Rightarrow> kv_ring \<times> ring_event list" where
  "on_node_del n rg =
     (case rg_nodes rg n of
        None \<Rightarrow> (rg, [])
      | Some x \<Rightarrow>
          if is_local x then (rg\<lparr>rg_exiting := True\<rparr>, [Rg_revoke])
          else
            let rg1 = rg\<lparr>rg_nodes := (rg_nodes rg)(n \<mapsto> x\<lparr>is_disconnecting := True\<rparr>),
                         rg_conn_q := (if is_connected x then rg_conn_q rg @ [n] else rg_conn_q rg)\<rparr>
            in (rg1, case rg_rings rg1 of None \<Rightarrow> [] | Some rss \<Rightarrow> leaving_keys rg1 n (rss ! 0)))"

section \<open>Registration of a server\<close>

fun log_rings :: "nat \<Rightarrow> u32 \<Rightarrow> nat \<Rightarrow> nat res" where
  "log_rings 0 ring_num l = Inl No_return"
| "log_rings (Suc fuel) ring_num l =
     (if drop_bit l (ring_num - 1) \<noteq> 0 then log_rings fuel ring_num (Suc l) else Inr l)"

definition string_bytes :: "string \<Rightarrow> u8 list" where
  "string_bytes s = map (\<lambda>c. word_of_nat (of_char c)) s"

text \<open>
  \<open>order\<close> is the result of \<open>qsort\<close> on the ring sizes: the rings with the fewest virtual
  nodes first. The node announces one virtual node per ring, its data stores in turn.
\<close>

fun reg_vids ::
  "(u8 list \<Rightarrow> u64 \<times> u64) \<Rightarrow> kv_ring \<Rightarrow> nat \<Rightarrow> u32 \<Rightarrow> nat list \<Rightarrow> nat \<Rightarrow> ring_event list res" where
  "reg_vids city rg lrn ds [] i = Inr []"
| "reg_vids city rg lrn ds (rid # rids) i =
     rbind (hash_vid city (string_bytes (in_ip (rg_init rg))) (string_bytes (in_port (rg_init rg))) (word_of_nat i)) (\<lambda>v.
       let vid = \<lparr>ev_ds_id = ucast ds, ev_vid = set_ring_id v lrn (word_of_nat rid)\<rparr> in
       rbind (reg_vids city rg lrn ((ds + 1) mod in_ds_num (rg_init rg)) rids (Suc i)) (\<lambda>evs.
         Inr (Rg_put (ring_key rid 0 (rg_local_id rg)) vid # evs)))"

definition reg_node ::
  "(u8 list \<Rightarrow> u64 \<times> u64) \<Rightarrow> nat list \<Rightarrow> kv_ring \<Rightarrow> (kv_ring \<times> ring_event list) res" where
  "reg_node city order rg0 =
     (let ctx = rg_init rg0 in
      rbind (log_rings 33 (in_ring_num ctx) 0) (\<lambda>lrn.
        let loc = in_ip ctx @ '':'' @ in_port ctx;
            rg1 = (ring_init lrn rg0)\<lparr>rg_local_id := loc, rg_init := ctx\<lparr>in_ring_num := push_bit lrn 1\<rparr>\<rparr>;
            node = \<lparr>log_ring_num = word_of_nat lrn, log_bkt_num = in_log_bkt_num ctx,
                    rpl_num = ucast (in_rpl_num ctx), ds_num = ucast (in_ds_num ctx)\<rparr>
        in rbind (reg_vids city rg1 lrn 0 order 0) (\<lambda>evs.
             Inr (rg1, Rg_put_node (node_key loc) node # evs))))"

section \<open>The connection poller\<close>

definition split_addr :: "string \<Rightarrow> (string \<times> string) res" where
  "split_addr s =
     (let ip = takeWhile (\<lambda>c. c \<noteq> CHR '':'') s in
      if length ip + 1 < KV_MAX_NODEID_LEN \<and> length ip < length s then Inr (ip, drop (Suc (length ip)) s)
      else Inl Assert_fail)"

fun poll_conns :: "string list \<Rightarrow> kv_ring \<Rightarrow> (kv_ring \<times> ring_event list) res" where
  "poll_conns [] rg = Inr (rg, [])"
| "poll_conns (n # ns) rg =
     (let x = node_of rg n; q = remove1 n (rg_conn_q rg) in
      if is_disconnecting x then
        if are_vnodes_gone rg n True \<and> req_cnt x = 0 then
          if is_connected x then
            rbind (poll_conns ns (rg\<lparr>rg_conn_q := q\<rparr>)) (\<lambda>(rg', evs). Inr (rg', Rg_disconnect n # evs))
          else if are_vnodes_gone rg n False then
            poll_conns ns (rg\<lparr>rg_conn_q := q, rg_nodes := (rg_nodes rg)(n := None)\<rparr>)
          else poll_conns ns rg
        else poll_conns ns rg
      else
        rbind (c_assert (\<not> is_connected x)) (\<lambda>_.
        rbind (split_addr n) (\<lambda>(ip, port).
        rbind (poll_conns ns (rg\<lparr>rg_conn_q := q\<rparr>)) (\<lambda>(rg', evs). Inr (rg', Rg_connect n ip port # evs)))))"

text \<open>Copies of an older ring version stop when no request of that version is under way.\<close>

definition stale_range :: "kv_ring \<Rightarrow> nat \<Rightarrow> vnode_ring \<Rightarrow> copy_range_ctx \<Rightarrow> bool" where
  "stale_range rg i ring c \<longleftrightarrow> cr_version c \<noteq> vr_version ring \<and> rg_versions rg ! i ! unat (cr_version c) = 0"

fun poll_copies :: "kv_ring \<Rightarrow> nat \<Rightarrow> vnode_ring list \<Rightarrow> (vnode_ring list \<times> ring_event list) res" where
  "poll_copies rg i [] = Inr ([], [])"
| "poll_copies rg i (ring # rings) =
     (let done_ranges = filter (stale_range rg i ring) (vr_copy_ranges ring) in
      rbind (c_assert (done_ranges \<noteq> [] \<longrightarrow> vr_range_size ring = 0)) (\<lambda>_.
      rbind (poll_copies rg (Suc i) rings) (\<lambda>(rings', evs).
        Inr (ring\<lparr>vr_copy_ranges := filter (\<lambda>c. \<not> stale_range rg i ring c) (vr_copy_ranges ring)\<rparr> # rings',
             map (Rg_copy False) done_ranges @ evs))))"

definition kv_conn_q_poller ::
  "(u8 list \<Rightarrow> u64 \<times> u64) \<Rightarrow> nat list \<Rightarrow> bool \<Rightarrow> bool \<Rightarrow> kv_ring \<Rightarrow> (kv_ring \<times> ring_event list) res" where
  "kv_conn_q_poller city order no_conns no_reqs rg =
     rbind (poll_conns (rg_conn_q rg) rg) (\<lambda>(rg1, evs1).
       if rg_exiting rg1 then Inr (rg1, evs1 @ (if no_conns \<and> no_reqs then [Rg_exit] else []))
       else
         let c = rg_server_init_cnt rg1 in
         rbind (if c \<noteq> 0 then
                  let rg2 = rg1\<lparr>rg_server_init_cnt := c - 1\<rparr>
                  in if c - 1 = 0 then reg_node city order rg2 else Inr (rg2, [])
                else Inr (rg1, [])) (\<lambda>(rg3, evs2).
           case rg_rings rg3 of
             None \<Rightarrow> Inr (rg3, evs1 @ evs2)
           | Some rss \<Rightarrow>
               rbind (poll_copies rg3 0 (rss ! 0)) (\<lambda>(rs, evs3).
                 Inr (rg3\<lparr>rg_rings := Some (rss[0 := rs])\<rparr>, evs1 @ evs2 @ evs3))))"

section \<open>Messages of the coordination service\<close>

text \<open>
  \<open>msg_handler\<close> parses a key and sends the result to the master thread. A ring message is
  dropped if one with the same kind, state and ring has been seen before.
\<close>

definition parse_ring_key :: "string \<Rightarrow> (nat \<times> nat \<times> string \<times> string) res" where
  "parse_ring_key k1 =
     rbind (key_next k1) (\<lambda>k2.
     rbind (scan_u32 k2) (\<lambda>rid.
     rbind (key_next k2) (\<lambda>k3.
     rbind (scan_u32 k3) (\<lambda>st.
     rbind (key_next k3) (\<lambda>k4.
     rbind (key_copy k4) (\<lambda>(node_id, k5).
       if k5 = [] then Inr (unat rid, unat st, node_id, node_id)
       else rbind (key_copy k5) (\<lambda>(src_id, _). Inr (unat rid, unat st, node_id, src_id))))))))"

definition msg_handler ::
  "kv_etcd_msg_type \<Rightarrow> string \<Rightarrow> kv_etcd_node \<Rightarrow> kv_etcd_vid \<Rightarrow> kv_ring \<Rightarrow> (kv_ring \<times> ring_event list) res" where
  "msg_handler msg k val_node val_vid rg =
     rbind (c_assert (k \<noteq> [] \<and> last k = CHR ''/'')) (\<lambda>_.
       if hd k \<noteq> CHR ''/'' then Inr (rg, [])
       else
         let k1 = tl k in
         rbind (key_cmp ''nodes'' k1) (\<lambda>is_node.
           if is_node then
             rbind (key_next k1) (\<lambda>k2.
             rbind (key_copy k2) (\<lambda>(n, _).
               case msg of
                 KV_ETCD_MSG_PUT \<Rightarrow> Inr (rg, [Rg_node_put n val_node])
               | KV_ETCD_MSG_DEL \<Rightarrow> Inr (rg, [Rg_node_del n])))
           else
             rbind (key_cmp ''rings'' k1) (\<lambda>is_ring.
               if \<not> is_ring then Inr (rg, [])
               else
                 rbind (parse_ring_key k1) (\<lambda>(rid, st, node_id, src_id).
                   if \<not> (st < 3 \<and> rid < MAX_RING_NUM) then Inl Out_of_bounds
                   else if (msg, st, rid) \<in> rg_used rg then Inr (rg, [])
                   else
                     let ci = rg_next rg;
                         vid = (case msg of KV_ETCD_MSG_PUT \<Rightarrow> val_vid
                                | KV_ETCD_MSG_DEL \<Rightarrow> \<lparr>ev_ds_id = 0, ev_vid = replicate KV_VID_LEN 0\<rparr>);
                         ctx = \<lparr>rc_vid = vid, rc_node_id = node_id, rc_src_id = src_id, rc_ring_id = rid,
                                rc_state = st, rc_msg = msg, rc_cnt = 0\<rparr>
                     in Inr (rg\<lparr>rg_used := insert (msg, st, rid) (rg_used rg), rg_next := Suc ci,
                                rg_changes := (rg_changes rg)(ci \<mapsto> ctx)\<rparr>, [Rg_change ci])))))"

end
