(* ===== verification/Kv_Memory.thy ===== *)
theory Kv_Memory
  imports Leed_Prelude "HOL-Library.Multiset"
begin

unbundle bit_operations_syntax

text \<open>
  \<open>kv_memory.c\<close>: pools of equal elements cut from one buffer. The free elements sit in a
  concurrent queue that promises no order between producers; the position from which a
  \<open>get\<close> takes its element is therefore an argument.
\<close>

record kv_mempool =
  mp_buf :: u64
  mp_free :: "u64 list"

definition mempool_ele :: "u64 \<Rightarrow> u64 \<Rightarrow> nat \<Rightarrow> u64" where
  "mempool_ele b ele_size i = b + word_of_nat i * ele_size"

text \<open>\<open>b\<close> is what \<open>kv_dma_malloc\<close> has returned.\<close>

definition kv_mempool_put :: "kv_mempool \<Rightarrow> u64 \<Rightarrow> kv_mempool" where
  "kv_mempool_put mp ele = mp\<lparr>mp_free := mp_free mp @ [ele]\<rparr>"

definition kv_mempool_create :: "u64 \<Rightarrow> nat \<Rightarrow> u64 \<Rightarrow> kv_mempool" where
  "kv_mempool_create b cnt ele_size =
     fold (\<lambda>i mp. kv_mempool_put mp (mempool_ele b ele_size i)) [0..<cnt] \<lparr>mp_buf = b, mp_free = []\<rparr>"

definition kv_mempool_get :: "nat \<Rightarrow> kv_mempool \<Rightarrow> kv_mempool \<times> u64 option" where
  "kv_mempool_get pos mp =
     (let fs = mp_free mp in
      if pos < length fs then (mp\<lparr>mp_free := take pos fs @ drop (Suc pos) fs\<rparr>, Some (fs ! pos)) else (mp, None))"

definition kv_mempool_free :: "kv_mempool \<Rightarrow> kv_mempool" where
  "kv_mempool_free mp = mp\<lparr>mp_free := []\<rparr>"

text \<open>Ids are byte offsets from the start of the buffer, as \<open>int64_t\<close>.\<close>

definition kv_mempool_get_id :: "kv_mempool \<Rightarrow> u64 \<Rightarrow> u64" where
  "kv_mempool_get_id mp ele = ele - mp_buf mp"

definition kv_mempool_get_ele :: "kv_mempool \<Rightarrow> u64 \<Rightarrow> u64" where
  "kv_mempool_get_ele mp i = mp_buf mp + i"

section \<open>Elements of a pool\<close>

definition pool_fits :: "u64 \<Rightarrow> nat \<Rightarrow> u64 \<Rightarrow> bool" where
  "pool_fits b cnt ele_size \<longleftrightarrow> 0 < unat ele_size \<and> unat b + cnt * unat ele_size \<le> 2 ^ 64"

lemma create_free: "mp_free (kv_mempool_create b cnt ele) = map (mempool_ele b ele) [0..<cnt] \<and> mp_buf (kv_mempool_create b cnt ele) = b"
proof (induction cnt)
  case 0
  then show ?case by (simp add: kv_mempool_create_def)
next
  case (Suc n)
  then show ?case by (simp add: kv_mempool_create_def kv_mempool_put_def)
qed

lemma unat_mempool_ele:
  assumes "pool_fits b cnt ele" and "i < cnt"
  shows "unat (mempool_ele b ele i) = unat b + i * unat ele" "unat (mempool_ele b ele i - b) = i * unat ele"
proof -
  have "Suc i * unat ele \<le> cnt * unat ele" using assms(2) by (intro mult_le_mono1) simp
  then have lt: "unat b + i * unat ele < 2 ^ 64" using assms(1) by (simp add: pool_fits_def)
  have "i * 1 \<le> i * unat ele" using assms(1) by (intro mult_le_mono2) (simp add: pool_fits_def)
  then have "i < 2 ^ 64" using lt by linarith
  then have m: "unat (word_of_nat i * ele) = i * unat ele"
    using lt by (simp add: unat_word_ariths unat_of_nat)
  then show "unat (mempool_ele b ele i - b) = i * unat ele" by (simp add: mempool_ele_def)
  show "unat (mempool_ele b ele i) = unat b + i * unat ele"
    using m lt by (simp add: mempool_ele_def unat_add_less)
qed

lemma create_distinct:
  assumes "pool_fits b cnt ele"
  shows "distinct (mp_free (kv_mempool_create b cnt ele))"
proof -
  have "inj_on (mempool_ele b ele) (set [0..<cnt])"
  proof (rule inj_onI)
    fix i j assume ij: "i \<in> set [0..<cnt]" "j \<in> set [0..<cnt]" and e: "mempool_ele b ele i = mempool_ele b ele j"
    have "i * unat ele = j * unat ele"
      using unat_mempool_ele(2)[OF assms, of i] unat_mempool_ele(2)[OF assms, of j] ij e by auto
    moreover have "unat ele \<noteq> 0" using assms by (auto simp: pool_fits_def simp del: unat_eq_zero)
    ultimately show "i = j" by simp
  qed
  then show ?thesis by (simp add: create_free distinct_map)
qed

text \<open>
  Runs of a pool: elements taken and given back. A holder gives back only what it holds.
\<close>

datatype mp_op = Mp_get nat | Mp_put u64

fun mp_run :: "mp_op list \<Rightarrow> kv_mempool \<times> u64 list \<Rightarrow> (kv_mempool \<times> u64 list) option" where
  "mp_run [] s = Some s"
| "mp_run (Mp_get pos # ops) (mp, held) =
     (case kv_mempool_get pos mp of
        (mp', None) \<Rightarrow> mp_run ops (mp', held)
      | (mp', Some e) \<Rightarrow> mp_run ops (mp', e # held))"
| "mp_run (Mp_put e # ops) (mp, held) =
     (if e \<in> set held then mp_run ops (kv_mempool_put mp e, remove1 e held) else None)"

lemma get_perm:
  assumes "kv_mempool_get pos mp = (mp', Some e)"
  shows "mset (mp_free mp) = add_mset e (mset (mp_free mp'))" and "mp_buf mp' = mp_buf mp"
proof -
  have p: "pos < length (mp_free mp)" and e: "e = mp_free mp ! pos"
    and m: "mp' = mp\<lparr>mp_free := take pos (mp_free mp) @ drop (Suc pos) (mp_free mp)\<rparr>"
    using assms by (auto simp: kv_mempool_get_def Let_def split: if_splits)
  have "mset (mp_free mp) = mset (take pos (mp_free mp) @ mp_free mp ! pos # drop (Suc pos) (mp_free mp))"
    using id_take_nth_drop[OF p] by simp
  then show "mset (mp_free mp) = add_mset e (mset (mp_free mp'))" using m e by simp
  show "mp_buf mp' = mp_buf mp" using m by simp
qed

lemma mp_run_conserves:
  assumes "mp_run ops (mp, held) = Some (mp', held')"
  shows "mset (mp_free mp') + mset held' = mset (mp_free mp) + mset held \<and> mp_buf mp' = mp_buf mp"
  using assms
proof (induction ops "(mp, held)" arbitrary: mp held rule: mp_run.induct)
  case 1
  then show ?case by simp
next
  case (2 pos ops mp held)
  obtain mp1 r where g: "kv_mempool_get pos mp = (mp1, r)" by fastforce
  show ?case
  proof (cases r)
    case None
    then have "mp1 = mp" using g by (auto simp: kv_mempool_get_def Let_def split: if_splits)
    then show ?thesis using 2 g None by simp
  next
    case (Some e)
    then show ?thesis using 2 g get_perm[of pos mp mp1 e] by simp
  qed
next
  case (3 e ops mp held)
  then have "e \<in> set held" by (auto split: if_splits)
  then show ?case using 3 by (simp add: kv_mempool_put_def)
qed

section \<open>Properties\<close>

text \<open>
  C30. A pool hands out every element to at most one holder at a time: after any run of gets
  and puts, the free and the held elements together are exactly the elements the pool was
  created with, without duplicates.
\<close>

theorem mempool_exclusive:
  assumes "pool_fits b cnt ele_size"
    and "mp_run ops (kv_mempool_create b cnt ele_size, []) = Some (mp, held)"
  shows "distinct (mp_free mp @ held) \<and> set (mp_free mp @ held) = (mempool_ele b ele_size) ` {..<cnt}"
proof -
  have "mset (mp_free mp @ held) = mset (map (mempool_ele b ele_size) [0..<cnt])"
    using mp_run_conserves[OF assms(2)] by (simp add: create_free)
  moreover have "distinct (map (mempool_ele b ele_size) [0..<cnt])"
    using create_distinct[OF assms(1)] by (simp add: create_free)
  ultimately have "distinct (mp_free mp @ held)" "set (mp_free mp @ held) = set (map (mempool_ele b ele_size) [0..<cnt])"
    using mset_eq_imp_distinct_iff mset_eq_setD by blast+
  then show ?thesis by (auto simp: atLeast0LessThan)
qed

theorem mempool_exclusive_witness:
  "\<exists>mp held. mp_run [Mp_get 1, Mp_get 0, Mp_put 1040] (kv_mempool_create 1000 3 40, []) = Some (mp, held) \<and>
     distinct (mp_free mp @ held)"
proof -
  have f: "pool_fits 1000 3 40" by (simp add: pool_fits_def)
  have "mp_run [Mp_get 1, Mp_get 0, Mp_put 1040] (kv_mempool_create 1000 3 40, [])
      = Some (\<lparr>mp_buf = 1000, mp_free = [1080, 1040]\<rparr>, [1000])"
    by code_simp
  then show ?thesis using mempool_exclusive[OF f] by blast
qed

end
