(* ===== verification/Kv_Storage.thy ===== *)
theory Kv_Storage
  imports Leed_Prelude
begin

unbundle bit_operations_syntax

text \<open>
  \<open>kv_storage.c\<close>: reads and writes on a block device of SPDK. The device is outside; what
  it returns for a submission is an argument, and what the code hands to it is an event.
\<close>

section \<open>Requests\<close>

datatype bdev_func = Bdev_write | Bdev_read | Bdev_write_blocks | Bdev_read_blocks

text \<open>
  The buffer of a request: memory, an array of vectors of the caller, or the copy of such an
  array that a waiting request makes, named by its address.
\<close>

datatype st_buf = Data_buf u64 | Caller_iov "(u64 \<times> u64) list" | Copied_iov nat

record 'c io_request =
  rq_buf :: st_buf
  rq_iovcnt :: nat
  rq_offset :: u64
  rq_n :: u64
  rq_cb :: "'c option"
  rq_is_read :: bool
  rq_is_block :: bool

text \<open>
  What the code allocates: \<open>struct io_complete_arg\<close>, \<open>struct io_wait_arg\<close> and copies of vectors.
  Objects are named by their addresses.
\<close>

datatype 'c st_obj = Complete_obj "'c option" | Wait_obj "'c io_request" | Iov_obj "(u64 \<times> u64) list"

record 'c st_heap =
  st_objs :: "nat \<rightharpoonup> 'c st_obj"
  st_next :: nat

definition st_alloc :: "'c st_obj \<Rightarrow> 'c st_heap \<Rightarrow> 'c st_heap \<times> nat" where
  "st_alloc ob h = (h\<lparr>st_objs := (st_objs h)(st_next h \<mapsto> ob), st_next := st_next h + 1\<rparr>, st_next h)"

definition st_free :: "nat \<Rightarrow> 'c st_heap \<Rightarrow> 'c st_heap" where
  "st_free a h = h\<lparr>st_objs := (st_objs h)(a := None)\<rparr>"

text \<open>
  The sizes of the objects in bytes, and the end of the last field that \<open>storage_io_wait\<close> reads
  (\<open>is_block\<close>, behind two pointers, a padded counter, two numbers, a callback and its argument).
\<close>

definition WAIT_ARG_READ_END :: nat where "WAIT_ARG_READ_END = 58"

fun obj_size :: "'c st_obj \<Rightarrow> nat" where
  "obj_size (Complete_obj _) = 16"
| "obj_size (Wait_obj _) = 104"
| "obj_size (Iov_obj vs) = 16 * length vs"

datatype 'c st_event =
  St_submit bdev_func bool "'c io_request" nat
| St_queue_wait nat nat
| St_callback 'c bool

definition ENOMEM :: int where "ENOMEM = 12"

definition func_index :: "bool \<Rightarrow> bool \<Rightarrow> nat" where
  "func_index is_read is_block = (if is_block then 1 else 0) * 2 + (if is_read then 1 else 0)"

definition io_func :: "'c io_request \<Rightarrow> bdev_func" where
  "io_func rq = [Bdev_write, Bdev_read, Bdev_write_blocks, Bdev_read_blocks] ! func_index (rq_is_read rq) (rq_is_block rq)"

definition opt_callback :: "'c option \<Rightarrow> bool \<Rightarrow> 'c st_event list" where
  "opt_callback cb ok = (case cb of None \<Rightarrow> [] | Some c \<Rightarrow> [St_callback c ok])"

text \<open>The completion of a submitted request frees its argument.\<close>

definition io_complete :: "bool \<Rightarrow> nat \<Rightarrow> 'c st_heap \<Rightarrow> ('c st_heap \<times> 'c st_event list) res" where
  "io_complete success a h =
     (case st_objs h a of
        Some (Complete_obj cb) \<Rightarrow> Inr (st_free a h, opt_callback cb success)
      | _ \<Rightarrow> Inl Out_of_bounds)"

text \<open>The copy of the vectors of a request that has to wait.\<close>

definition copy_vectors :: "'c io_request \<Rightarrow> 'c st_heap \<Rightarrow> 'c io_request \<times> 'c st_heap" where
  "copy_vectors rq h =
     (if rq_iovcnt rq = 0 then (rq, h)
      else let (h', a) = st_alloc (Iov_obj (case rq_buf rq of Caller_iov vs \<Rightarrow> take (rq_iovcnt rq) vs | _ \<Rightarrow> [])) h
           in (rq\<lparr>rq_buf := Copied_iov a\<rparr>, h'))"

definition free_vectors :: "'c io_request \<Rightarrow> 'c st_heap \<Rightarrow> 'c st_heap" where
  "free_vectors rq h =
     (if rq_iovcnt rq = 0 then h else case rq_buf rq of Copied_iov a \<Rightarrow> st_free a h | _ \<Rightarrow> h)"

text \<open>
  \<open>_storage_io\<close>: \<open>rc\<close> is what the device returns for the submission, \<open>wait\<close> the \<open>io_wait_arg\<close> of a
  request that has waited. When the device has no memory the request is queued. The argument
  registered for the retry is \<open>arg\<close>, that of the completion.
\<close>

definition storage_io :: "int \<Rightarrow> 'c io_request \<Rightarrow> nat option \<Rightarrow> 'c st_heap \<Rightarrow> 'c st_heap \<times> 'c st_event list" where
  "storage_io rc rq wait h =
     (let (h1, arg) = st_alloc (Complete_obj (rq_cb rq)) h;
          submit = St_submit (io_func rq) (rq_iovcnt rq \<noteq> 0) rq arg in
      if rc = - ENOMEM then
        (case wait of
           Some w \<Rightarrow> (h1, [submit, St_queue_wait w arg])
         | None \<Rightarrow>
             let (rq', h2) = copy_vectors rq h1; (h3, w) = st_alloc (Wait_obj rq') h2
             in (h3, [submit, St_queue_wait w arg]))
      else
        ((case wait of None \<Rightarrow> h1 | Some w \<Rightarrow> st_free w (free_vectors rq h1)),
         submit # (if rc \<noteq> 0 then opt_callback (rq_cb rq) False else [])))"

text \<open>
  \<open>storage_io_wait\<close> reads the fields of an \<open>io_wait_arg\<close> at its argument: an object that ends
  before them is read out of bounds.
\<close>

definition storage_io_wait :: "int \<Rightarrow> nat \<Rightarrow> 'c st_heap \<Rightarrow> ('c st_heap \<times> 'c st_event list) res" where
  "storage_io_wait rc a h =
     (case st_objs h a of
        None \<Rightarrow> Inl Out_of_bounds
      | Some ob \<Rightarrow>
          if obj_size ob < WAIT_ARG_READ_END then Inl Out_of_bounds
          else (case ob of Wait_obj rq \<Rightarrow> Inr (storage_io rc rq (Some a) h) | _ \<Rightarrow> Inl Assert_fail))"

definition mk_request :: "st_buf \<Rightarrow> nat \<Rightarrow> u64 \<Rightarrow> u64 \<Rightarrow> 'c option \<Rightarrow> bool \<Rightarrow> bool \<Rightarrow> 'c io_request" where
  "mk_request buf iovcnt off n cb rd blk =
     \<lparr>rq_buf = buf, rq_iovcnt = iovcnt, rq_offset = off, rq_n = n, rq_cb = cb, rq_is_read = rd, rq_is_block = blk\<rparr>"

definition kv_storage_read where
  "kv_storage_read rc buf iovcnt off n cb = storage_io rc (mk_request buf iovcnt off n cb True False) None"

definition kv_storage_write where
  "kv_storage_write rc buf iovcnt off n cb = storage_io rc (mk_request buf iovcnt off n cb False False) None"

definition kv_storage_read_blocks where
  "kv_storage_read_blocks rc buf iovcnt off n cb = storage_io rc (mk_request buf iovcnt off n cb True True) None"

definition kv_storage_write_blocks where
  "kv_storage_write_blocks rc buf iovcnt off n cb = storage_io rc (mk_request buf iovcnt off n cb False True) None"

section \<open>Opening a device\<close>

record bdev_info =
  bd_block_size :: u32
  bd_align :: u32
  bd_num_blocks :: u64

record kv_storage =
  st_block_size :: u32
  st_align :: u32
  st_num_blocks :: u64
  st_private :: bool

text \<open>
  \<open>kv_storage_init\<close>: \<open>devs\<close> are the devices in the order of \<open>spdk_bdev_next\<close>, \<open>open_rc\<close> the
  result of opening one and \<open>channel\<close> whether an I/O channel could be made. Returned are the
  storage and the result code; \<open>st_private\<close> says whether the private data are still allocated.
\<close>

fun nth_bdev :: "bdev_info list \<Rightarrow> nat \<Rightarrow> bdev_info option" where
  "nth_bdev [] i = None"
| "nth_bdev (d # ds) 0 = Some d"
| "nth_bdev (d # ds) (Suc i) = nth_bdev ds i"

definition kv_storage_init ::
  "bdev_info list \<Rightarrow> int \<Rightarrow> bool \<Rightarrow> u32 \<Rightarrow> kv_storage \<Rightarrow> kv_storage \<times> int" where
  "kv_storage_init devs open_rc channel index st =
     (case nth_bdev devs (unat index) of
        None \<Rightarrow> (st\<lparr>st_private := False\<rparr>, -1)
      | Some d \<Rightarrow>
          if open_rc \<noteq> 0 then (st\<lparr>st_private := False\<rparr>, open_rc)
          else if \<not> channel then (st\<lparr>st_private := False\<rparr>, open_rc)
          else (st\<lparr>st_block_size := bd_block_size d, st_align := bd_align d, st_num_blocks := bd_num_blocks d,
                   st_private := True\<rparr>, open_rc))"

definition kv_storage_fini :: "kv_storage \<Rightarrow> kv_storage res" where
  "kv_storage_fini st = (if st_private st then Inr (st\<lparr>st_private := False\<rparr>) else Inl Null_deref)"

text \<open>The sizes and alignments of the allocations of a storage.\<close>

definition kv_storage_malloc :: "kv_storage \<Rightarrow> u64 \<Rightarrow> u64 \<times> u32" where
  "kv_storage_malloc st sz = (sz, st_align st)"

definition kv_storage_blk_alloc :: "kv_storage \<Rightarrow> u64 \<Rightarrow> u64 \<times> u32" where
  "kv_storage_blk_alloc st n = (n * ucast (st_block_size st), st_align st)"

section \<open>Properties\<close>

definition heap_ok :: "'c st_heap \<Rightarrow> bool" where
  "heap_ok h \<longleftrightarrow> (\<forall>a \<ge> st_next h. st_objs h a = None)"

lemma io_func_cases:
  "io_func rq = (if rq_is_block rq then if rq_is_read rq then Bdev_read_blocks else Bdev_write_blocks
                 else if rq_is_read rq then Bdev_read else Bdev_write)"
  by (simp add: io_func_def func_index_def)

text \<open>A request whose retry is queued, with the two objects of the wait.\<close>

lemma storage_io_queued:
  "\<exists>h' rq' w. storage_io (- ENOMEM) rq None h = (h', [St_submit (io_func rq) (rq_iovcnt rq \<noteq> 0) rq (st_next h), St_queue_wait w (st_next h)]) \<and>
     st_objs h' (st_next h) = Some (Complete_obj (rq_cb rq)) \<and> st_objs h' w = Some (Wait_obj rq') \<and>
     rq' = rq\<lparr>rq_buf := rq_buf rq'\<rparr> \<and> w \<noteq> st_next h"
  by (simp add: storage_io_def copy_vectors_def st_alloc_def Let_def)

text \<open>
  C31. What becomes of a read or write. Accepted by the device, it has been submitted once,
  through the function of its direction and unit, and its completion calls the callback once
  with the result and leaves no memory behind. Refused, its callback is called at once with a
  failure, and the argument of the completion stays allocated with nothing left that would free
  it. Refused for lack of memory, it is queued for a retry, but with the argument of the
  completion and not with its \<open>io_wait_arg\<close>, which would submit it again: the retry reads past
  the end of the argument.
\<close>

theorem storage_request_outcomes:
  assumes "heap_ok h"
  shows "(\<exists>h'. storage_io 0 rq None h = (h', [St_submit (io_func rq) (rq_iovcnt rq \<noteq> 0) rq (st_next h)]) \<and>
      (\<forall>ok. \<exists>h''. io_complete ok (st_next h) h' = Inr (h'', opt_callback (rq_cb rq) ok) \<and> st_objs h'' = st_objs h)) \<and>
    (rc \<noteq> 0 \<and> rc \<noteq> - ENOMEM \<longrightarrow>
      (\<exists>h'. storage_io rc rq None h = (h', St_submit (io_func rq) (rq_iovcnt rq \<noteq> 0) rq (st_next h) # opt_callback (rq_cb rq) False) \<and>
        st_objs h' = (st_objs h)(st_next h \<mapsto> Complete_obj (rq_cb rq)))) \<and>
    (\<exists>h' w rq'. storage_io (- ENOMEM) rq None h =
        (h', [St_submit (io_func rq) (rq_iovcnt rq \<noteq> 0) rq (st_next h), St_queue_wait w (st_next h)]) \<and>
      (\<forall>rc'. storage_io_wait rc' (st_next h) h' = Inl Out_of_bounds) \<and>
      rq' = rq\<lparr>rq_buf := rq_buf rq'\<rparr> \<and> (\<forall>rc'. storage_io_wait rc' w h' = Inr (storage_io rc' rq' (Some w) h')))"
proof -
  let ?c = "Complete_obj (rq_cb rq)"
  have free: "(st_objs h)(st_next h := None) = st_objs h" using assms by (simp add: heap_ok_def fun_upd_idem)
  have 1: "\<exists>h'. storage_io 0 rq None h = (h', [St_submit (io_func rq) (rq_iovcnt rq \<noteq> 0) rq (st_next h)]) \<and>
      (\<forall>ok. \<exists>h''. io_complete ok (st_next h) h' = Inr (h'', opt_callback (rq_cb rq) ok) \<and> st_objs h'' = st_objs h)"
    using free by (simp add: storage_io_def st_alloc_def io_complete_def st_free_def ENOMEM_def Let_def)
  have 2: "\<exists>h'. storage_io rc rq None h = (h', St_submit (io_func rq) (rq_iovcnt rq \<noteq> 0) rq (st_next h) # opt_callback (rq_cb rq) False) \<and>
      st_objs h' = (st_objs h)(st_next h \<mapsto> ?c)" if "rc \<noteq> 0" "rc \<noteq> - ENOMEM"
    using that by (simp add: storage_io_def st_alloc_def Let_def)
  obtain h' rq' w where 3: "storage_io (- ENOMEM) rq None h =
      (h', [St_submit (io_func rq) (rq_iovcnt rq \<noteq> 0) rq (st_next h), St_queue_wait w (st_next h)])"
    "st_objs h' (st_next h) = Some ?c" "st_objs h' w = Some (Wait_obj rq')" "rq' = rq\<lparr>rq_buf := rq_buf rq'\<rparr>"
    using storage_io_queued[of rq h] by blast
  have "storage_io_wait rc' (st_next h) h' = Inl Out_of_bounds" "storage_io_wait rc' w h' = Inr (storage_io rc' rq' (Some w) h')" for rc'
    using 3(2,3) by (simp_all add: storage_io_wait_def WAIT_ARG_READ_END_def)
  then show ?thesis using 1 2 3 by blast
qed

theorem storage_request_outcomes_witness:
  "\<exists>h' w. storage_io (- 12) (mk_request (Data_buf 64) 0 1 1 (Some (7 :: nat)) True True) None \<lparr>st_objs = Map.empty, st_next = 0\<rparr> =
      (h', [St_submit Bdev_read_blocks False (mk_request (Data_buf 64) 0 1 1 (Some 7) True True) 0, St_queue_wait w 0]) \<and>
    storage_io_wait 0 0 h' = Inl Out_of_bounds"
proof -
  let ?h = "\<lparr>st_objs = Map.empty, st_next = 0\<rparr> :: nat st_heap" and ?rq = "mk_request (Data_buf 64) 0 1 1 (Some (7 :: nat)) True True"
  have "heap_ok ?h" by (simp add: heap_ok_def)
  from storage_request_outcomes[OF this, of ?rq 0] show ?thesis by (auto simp: ENOMEM_def io_func_cases mk_request_def)
qed

text \<open>
  Opening succeeds on the device with the given index; if no I/O channel can be made the
  code still returns 0, the code of success, with the private data freed.
\<close>

theorem storage_init_result:
  "kv_storage_init devs open_rc channel index st = (st', rc) \<Longrightarrow>
   (rc = 0 \<longleftrightarrow> unat index < length devs \<and> open_rc = 0) \<and>
   (st_private st' \<longleftrightarrow> rc = 0 \<and> channel) \<and>
   (st_private st' \<longrightarrow> st_num_blocks st' = bd_num_blocks (devs ! unat index) \<and>
      st_block_size st' = bd_block_size (devs ! unat index))"
proof -
  assume a: "kv_storage_init devs open_rc channel index st = (st', rc)"
  have n: "nth_bdev devs i = (if i < length devs then Some (devs ! i) else None)" for i
    by (induction devs i rule: nth_bdev.induct) auto
  show ?thesis using a by (auto simp: kv_storage_init_def n split: if_splits)
qed

theorem storage_init_result_witness:
  "\<exists>st' rc. kv_storage_init [\<lparr>bd_block_size = 512, bd_align = 4, bd_num_blocks = 9\<rparr>] 0 False 0
      \<lparr>st_block_size = 0, st_align = 0, st_num_blocks = 0, st_private = False\<rparr> = (st', rc) \<and> rc = 0 \<and> \<not> st_private st'"
proof -
  obtain st' rc where r: "kv_storage_init [\<lparr>bd_block_size = 512, bd_align = 4, bd_num_blocks = 9\<rparr>] 0 False 0
      \<lparr>st_block_size = 0, st_align = 0, st_num_blocks = 0, st_private = False\<rparr> = (st', rc)" by fastforce
  then show ?thesis using storage_init_result[OF r] by simp
qed

end
