(* ===== verification/Ring_Keys.thy ===== *)
theory Ring_Keys
  imports Kv_Ring_Update
begin

text \<open>
  The keys of the coordination service. One node prints the change of a ring into a key,
  the others parse the key in \<open>msg_handler\<close>: what comes out is what was put in.
\<close>

section \<open>Decimal numbers\<close>

lemma of_char_digit: "d < 10 \<Longrightarrow> (of_char (digit_char d) :: nat) = 48 + d"
  by (simp add: digit_char_def)

lemma is_digit_digit: "d < 10 \<Longrightarrow> is_digit (digit_char d)"
  by (simp add: is_digit_def of_char_digit)

lemma show_nat_digits: "\<forall>c \<in> set (show_nat n). is_digit c"
proof (induction n rule: show_nat.induct)
  case (1 n)
  then show ?case by (subst show_nat.simps) (auto simp: is_digit_digit simp del: show_nat.simps)
qed

lemma show_nat_not_Nil: "show_nat n \<noteq> []"
  by (subst show_nat.simps) (simp del: show_nat.simps)

abbreviation dec_step :: "char \<Rightarrow> nat \<Rightarrow> nat" where
  "dec_step \<equiv> \<lambda>c n. n * 10 + (of_char c - 48)"

lemma fold_show_nat: "fold dec_step (show_nat n) 0 = n"
proof (induction n rule: show_nat.induct)
  case (1 n)
  then show ?case by (subst show_nat.simps) (simp add: of_char_digit del: show_nat.simps)
qed

lemma scan_show_nat:
  assumes "n < 2 ^ 32"
  shows "scan_u32 (show_nat n @ CHR ''/'' # rest) = Inr (word_of_nat n)"
proof -
  have "\<not> is_digit (CHR ''/'')" by (simp add: is_digit_def)
  then have "takeWhile is_digit (show_nat n @ CHR ''/'' # rest) = show_nat n"
    using show_nat_digits[of n] by (simp add: takeWhile_append2 del: show_nat.simps)
  then show ?thesis using fold_show_nat[of n] show_nat_not_Nil[of n] by (simp add: scan_u32_def del: show_nat.simps)
qed

section \<open>Parts of a key\<close>

lemma key_next_part: "CHR ''/'' \<notin> set p \<Longrightarrow> key_next (p @ CHR ''/'' # rest) = Inr rest"
  by (induction p) auto

lemma key_copy_part:
  assumes "CHR ''/'' \<notin> set p" and "length p < KV_MAX_NODEID_LEN"
  shows "key_copy (p @ CHR ''/'' # rest) = Inr (p, rest)"
proof -
  have "key_take (p @ CHR ''/'' # rest) = Inr (p, rest)" using assms(1) by (induction p) auto
  then show ?thesis using assms(2) by (simp add: key_copy_def)
qed

lemma show_nat_no_slash: "CHR ''/'' \<notin> set (show_nat n)"
  using show_nat_digits[of n] by (auto simp: is_digit_def simp del: show_nat.simps)

definition node_id_ok :: "string \<Rightarrow> bool" where
  "node_id_ok n \<longleftrightarrow> CHR ''/'' \<notin> set n \<and> length n < KV_MAX_NODEID_LEN"

lemma parse_ring_key_prefix:
  assumes "node_id_ok n" and "rid < MAX_RING_NUM" and "st < 3"
  shows "parse_ring_key (''rings/'' @ show_nat rid @ ''/'' @ show_nat st @ ''/'' @ n @ ''/'' @ rest) =
    (if rest = [] then Inr (rid, st, n, n) else rbind (key_copy rest) (\<lambda>(src, _). Inr (rid, st, n, src)))"
proof -
  have r: "rid < 2 ^ 32" "st < 2 ^ 32" using assms by (simp_all add: MAX_RING_NUM_def)
  have u: "unat (word_of_nat rid :: u32) = rid" "unat (word_of_nat st :: u32) = st"
    using r by (simp_all add: unat_of_nat)
  have "key_next (''rings/'' @ xs) = Inr xs" for xs by simp
  then show ?thesis using assms(1) u
    by (simp add: parse_ring_key_def scan_show_nat[OF r(1)] scan_show_nat[OF r(2)] key_next_part[OF show_nat_no_slash]
        key_copy_part node_id_ok_def del: show_nat.simps)
qed

text \<open>
  C28. The key that a node writes for a change of a ring, with or without the node that
  reports it, is understood by every node that receives it: the handler records exactly the
  ring, the state, the node and the reporting node that were printed, and asks for the
  change; a later message of the same kind for the same ring and state is dropped.
\<close>

theorem ring_key_roundtrip:
  assumes "node_id_ok n" and "node_id_ok src" and "rid < MAX_RING_NUM" and "st < 3" and "(msg, st, rid) \<notin> rg_used rg"
    and "(k, s) = (ring_key rid st n, n) \<or> (k, s) = (ring_key_src rid st n src, src)"
  shows "\<exists>rg' c. msg_handler msg k val_node val_vid rg = Inr (rg', [Rg_change (rg_next rg)]) \<and>
    rg_changes rg' (rg_next rg) = Some c \<and> rc_ring_id c = rid \<and> rc_state c = st \<and> rc_node_id c = n \<and> rc_src_id c = s \<and>
    rc_msg c = msg \<and> (msg = KV_ETCD_MSG_PUT \<longrightarrow> rc_vid c = val_vid) \<and>
    msg_handler msg k val_node val_vid' rg' = Inr (rg', [])"
proof -
  obtain rest where k: "k = ''/rings/'' @ show_nat rid @ ''/'' @ show_nat st @ ''/'' @ n @ ''/'' @ rest"
    and r: "rest = [] \<and> s = n \<or> rest = src @ ''/'' \<and> s = src"
    using assms(6)
  proof
    assume "(k, s) = (ring_key rid st n, n)"
    then show thesis by (intro that[of "[]"]) (simp_all add: ring_key_def del: show_nat.simps)
  next
    assume "(k, s) = (ring_key_src rid st n src, src)"
    then show thesis by (intro that[of "src @ ''/''"]) (simp_all add: ring_key_def ring_key_src_def del: show_nat.simps)
  qed
  have "parse_ring_key (''rings/'' @ show_nat rid @ ''/'' @ show_nat st @ ''/'' @ n @ ''/'' @ rest) = Inr (rid, st, n, s)"
    unfolding parse_ring_key_prefix[OF assms(1,3,4)]
    using r key_copy_part[of src "[]"] assms(2) by (auto simp: node_id_ok_def)
  then have p: "parse_ring_key (tl k) = Inr (rid, st, n, s)" by (simp add: k del: show_nat.simps)
  have h: "k \<noteq> []" "hd k = CHR ''/''" "key_cmp ''nodes'' (tl k) = Inr False" "key_cmp ''rings'' (tl k) = Inr True"
    by (simp_all add: k del: show_nat.simps)
  have l: "last k = CHR ''/''" using r by (auto simp: k simp del: show_nat.simps)
  show ?thesis using assms(3-5) by (cases msg) (simp_all add: msg_handler_def h l p Let_def del: show_nat.simps)
qed


theorem ring_key_roundtrip_witness:
  "\<exists>rg' c. msg_handler KV_ETCD_MSG_PUT ''/rings/17/2/10.0.0.1:9000/10.0.0.2:9000/''
      \<lparr>log_ring_num = 0, log_bkt_num = 8, rpl_num = 3, ds_num = 1\<rparr> \<lparr>ev_ds_id = 0, ev_vid = replicate 20 0\<rparr> (kv_ring_init 1 False) =
      Inr (rg', [Rg_change 0]) \<and>
    rg_changes rg' 0 = Some c \<and> rc_ring_id c = 17 \<and> rc_state c = 2 \<and> rc_node_id c = ''10.0.0.1:9000'' \<and> rc_src_id c = ''10.0.0.2:9000''"
proof -
  have k: "''/rings/17/2/10.0.0.1:9000/10.0.0.2:9000/'' = ring_key_src 17 2 ''10.0.0.1:9000'' ''10.0.0.2:9000''"
    by (simp add: ring_key_src_def ring_key_def show_nat.simps) (simp add: digit_char_def char_of_def bit_0)
  have used: "(KV_ETCD_MSG_PUT, 2, 17) \<notin> rg_used (kv_ring_init 1 False)" "rg_next (kv_ring_init 1 False) = 0"
    by (simp_all add: kv_ring_init_def)
  have ok: "node_id_ok ''10.0.0.1:9000''" "node_id_ok ''10.0.0.2:9000''" "17 < MAX_RING_NUM" "(2 :: nat) < 3"
    by (simp_all add: node_id_ok_def KV_MAX_NODEID_LEN_def MAX_RING_NUM_def)
  show ?thesis unfolding k
    using ring_key_roundtrip[OF ok used(1) disjI2[OF refl], unfolded used(2)] by blast
qed

end
