(* ===== verification/Kv_App.thy ===== *)
theory Kv_App
  imports Ring_Keys
begin

unbundle bit_operations_syntax

text \<open>
  \<open>kv_app.c\<close>: one thread per task, each with a queue of messages that its poller runs, and
  the shutdown of the application. The concurrent queue of the code is a library outside: its
  operations are arguments of the definitions that call them, and nothing is assumed of them.
\<close>

section \<open>State\<close>

definition MAX_TASKS_NUM :: nat where "MAX_TASKS_NUM = 63"
definition MAX_POLL_SZ :: nat where "MAX_POLL_SZ = 128"

text \<open>
  The operations of the queue of a thread, of type \<open>'q\<close>: a new queue, an insertion with the
  token of a sending thread, one without a token, and the removal of at most so many messages.
  A message is a function with its argument, \<open>None\<close> if the function is null.
\<close>

record ('q, 'm) cq_ops =
  cq_create :: 'q
  cq_enqueue_with_token :: "nat \<Rightarrow> 'm option \<Rightarrow> 'q \<Rightarrow> 'q"
  cq_enqueue :: "'m option \<Rightarrow> 'q \<Rightarrow> 'q"
  cq_try_dequeue_bulk :: "nat \<Rightarrow> 'q \<Rightarrow> 'm option list \<times> 'q"

record 'q thread_data =
  td_cq :: 'q
  td_poller :: bool

record 'q kv_app =
  task_num :: nat
  running_thread :: u64
  g_threads :: "nat \<Rightarrow> 'q thread_data"
  app_stopped :: "int list"

definition set_cq :: "nat \<Rightarrow> 'q \<Rightarrow> 'q kv_app \<Rightarrow> 'q kv_app" where
  "set_cq index q a = a\<lparr>g_threads := (g_threads a)(index := (g_threads a index)\<lparr>td_cq := q\<rparr>)\<rparr>"

definition kv_app_send :: "('q, 'm) cq_ops \<Rightarrow> nat \<Rightarrow> nat \<Rightarrow> 'm option \<Rightarrow> 'q kv_app \<Rightarrow> 'q kv_app" where
  "kv_app_send ops local_index index m a =
     set_cq index (cq_enqueue_with_token ops local_index m (td_cq (g_threads a index))) a"

definition kv_app_send_without_token :: "('q, 'm) cq_ops \<Rightarrow> nat \<Rightarrow> 'm option \<Rightarrow> 'q kv_app \<Rightarrow> 'q kv_app" where
  "kv_app_send_without_token ops index m a = set_cq index (cq_enqueue ops m (td_cq (g_threads a index))) a"

text \<open>
  \<open>msg_poller\<close>: takes at most \<open>MAX_POLL_SZ\<close> messages and runs the functions they have in this
  order; a message without a function is passed over.
\<close>

definition msg_poller :: "('q, 'm) cq_ops \<Rightarrow> nat \<Rightarrow> 'q kv_app \<Rightarrow> 'q kv_app \<times> 'm list" where
  "msg_poller ops index a =
     (let (msgs, q) = cq_try_dequeue_bulk ops MAX_POLL_SZ (td_cq (g_threads a index))
      in (set_cq index q a, List.map_filter (\<lambda>m. m) msgs))"

text \<open>The index of the running thread; a thread that is not of the application has none.\<close>

definition kv_app_get_thread_index :: "nat option \<Rightarrow> nat res" where
  "kv_app_get_thread_index app_thread = rbind (c_assert (app_thread \<noteq> None)) (\<lambda>_. Inr (the app_thread))"

section \<open>Pollers\<close>

text \<open>
  Calls of SPDK: a poller is registered on the thread that makes the call, and its handle is
  kept in the place named by the caller. To register one on another thread, a message with
  the parameters is sent there; messages are those of the application and these.
\<close>

record ('f, 'h) poller_register_ctx =
  pr_func :: 'f
  pr_period :: u64
  pr_poller :: 'h

datatype ('f, 'h, 'm) spdk_event =
  Spdk_poller_register nat 'f u64 "'h option"
| Spdk_poller_unregister 'h
| Spdk_thread_send_msg nat 'm

definition kv_app_send_msg :: "nat \<Rightarrow> 'm \<Rightarrow> ('f, 'h, 'm) spdk_event" where
  "kv_app_send_msg index m = Spdk_thread_send_msg index m"

definition kv_app_poller_register :: "nat \<Rightarrow> 'f \<Rightarrow> u64 \<Rightarrow> ('f, 'h, 'm) spdk_event" where
  "kv_app_poller_register self func period = Spdk_poller_register self func period None"

definition kv_app_poller_register_on ::
  "('q, 'm + ('f, 'h) poller_register_ctx) cq_ops \<Rightarrow> nat \<Rightarrow> nat \<Rightarrow> 'f \<Rightarrow> u64 \<Rightarrow> 'h \<Rightarrow> 'q kv_app \<Rightarrow> 'q kv_app" where
  "kv_app_poller_register_on ops local_index index func period poller a =
     kv_app_send ops local_index index (Some (Inr \<lparr>pr_func = func, pr_period = period, pr_poller = poller\<rparr>)) a"

definition poller_register :: "nat \<Rightarrow> ('f, 'h) poller_register_ctx \<Rightarrow> ('f, 'h, 'm) spdk_event" where
  "poller_register self ctx = Spdk_poller_register self (pr_func ctx) (pr_period ctx) (Some (pr_poller ctx))"

definition kv_app_poller_unregister :: "'h \<Rightarrow> ('f, 'h, 'm) spdk_event" where
  "kv_app_poller_unregister poller = Spdk_poller_unregister poller"

section \<open>Start and stop\<close>

definition thread_init :: "('q, 'm) cq_ops \<Rightarrow> nat \<Rightarrow> 'q kv_app \<Rightarrow> 'q kv_app" where
  "thread_init ops index a = a\<lparr>g_threads := (g_threads a)(index := \<lparr>td_cq = cq_create ops, td_poller = True\<rparr>)\<rparr>"

text \<open>\<open>app_start\<close>: every task with a function is sent to its thread.\<close>

definition app_start :: "('q, 'm) cq_ops \<Rightarrow> nat \<Rightarrow> 'm option list \<Rightarrow> 'q kv_app \<Rightarrow> 'q kv_app" where
  "app_start ops self tasks a =
     fold (\<lambda>i a. if tasks ! i = None then a else kv_app_send ops self i (tasks ! i) a) [0..<task_num a] a"

text \<open>
  \<open>register_func\<close> runs once on every SPDK thread: one that is named \<open>reactor_<i>\<close> becomes thread
  \<open>i\<close> of the application. The index is not compared with the length of the table.
\<close>

definition reactor_index :: "string \<Rightarrow> nat option" where
  "reactor_index name =
     (if take 8 name = ''reactor_'' then (case scan_u32 (drop 8 name) of Inl _ \<Rightarrow> None | Inr i \<Rightarrow> Some (unat i)) else None)"

definition register_func :: "('q, 'm) cq_ops \<Rightarrow> string \<Rightarrow> 'q kv_app \<Rightarrow> 'q kv_app res" where
  "register_func ops name a =
     (case reactor_index name of
        None \<Rightarrow> Inr a
      | Some i \<Rightarrow> if i < MAX_TASKS_NUM then Inr (thread_init ops i a) else Inl Out_of_bounds)"

fun register_all :: "('q, 'm) cq_ops \<Rightarrow> string list \<Rightarrow> 'q kv_app \<Rightarrow> 'q kv_app res" where
  "register_all ops [] a = Inr a"
| "register_all ops (name # names) a = rbind (register_func ops name a) (register_all ops names)"

text \<open>\<open>send_msg_to_all\<close>: thread 0, then \<open>spdk_for_each_thread\<close>, then the tasks.\<close>

definition send_msg_to_all :: "('q, 'm) cq_ops \<Rightarrow> string list \<Rightarrow> 'm option list \<Rightarrow> 'q kv_app \<Rightarrow> 'q kv_app res" where
  "send_msg_to_all ops names tasks a =
     rbind (register_all ops names (thread_init ops 0 a)) (\<lambda>a. Inr (app_start ops 0 tasks a))"

text \<open>\<open>names\<close> are the names of the threads that SPDK makes for the mask of the \<open>n\<close> first CPUs.\<close>

definition kv_app_start ::
  "('q, 'm) cq_ops \<Rightarrow> nat \<Rightarrow> string list \<Rightarrow> 'm option list \<Rightarrow> (nat \<Rightarrow> 'q thread_data) \<Rightarrow> 'q kv_app res" where
  "kv_app_start ops n names tasks ths =
     rbind (c_assert (1 \<le> n \<and> n < MAX_TASKS_NUM)) (\<lambda>_.
       send_msg_to_all ops names tasks \<lparr>task_num = n, running_thread = push_bit n 1 - 1, g_threads = ths, app_stopped = []\<rparr>)"

text \<open>\<open>kv_app_stop\<close> of thread \<open>index\<close>; \<open>app_stopped\<close> records the calls of \<open>spdk_app_stop\<close>.\<close>

definition kv_app_stop :: "nat \<Rightarrow> int \<Rightarrow> 'q kv_app \<Rightarrow> 'q kv_app" where
  "kv_app_stop index rc a0 =
     (let a = a0\<lparr>g_threads := (g_threads a0)(index := (g_threads a0 index)\<lparr>td_poller := False\<rparr>)\<rparr> in
      if running_thread a \<noteq> 0 then
        if rc \<noteq> 0 then a\<lparr>app_stopped := app_stopped a @ [rc], running_thread := 0\<rparr>
        else
          let r = running_thread a AND NOT (push_bit index 1)
          in a\<lparr>running_thread := r, app_stopped := (if r = 0 then app_stopped a @ [rc] else app_stopped a)\<rparr>
      else a)"

section \<open>Shutdown\<close>

definition stop_all :: "(nat \<times> int) list \<Rightarrow> 'q kv_app \<Rightarrow> 'q kv_app" where
  "stop_all xs a = fold (\<lambda>(i, rc) a. kv_app_stop i rc a) xs a"

lemma bit_running_after: "bit (w AND NOT (push_bit i (1 :: u64))) j \<longleftrightarrow> bit w j \<and> j \<noteq> i"
  by (auto simp: bit_simps dest: bit_imp_le_length)

lemma bit_initial_mask: "n < 64 \<Longrightarrow> bit (push_bit n 1 - 1 :: u64) j \<longleftrightarrow> j < n"
  by (simp flip: mask_eq_exp_minus_1 add: push_bit_of_1 bit_mask_iff) (auto)

definition stop_inv :: "nat \<Rightarrow> bool \<Rightarrow> nat set \<Rightarrow> 'q kv_app \<Rightarrow> bool" where
  "stop_inv n err fin a \<longleftrightarrow>
     (if app_stopped a = [] then (\<forall>j. bit (running_thread a) j \<longleftrightarrow> j < n \<and> j \<notin> fin) \<and> \<not> {..<n} \<subseteq> fin
      else running_thread a = 0 \<and> length (app_stopped a) = 1 \<and> (err \<or> {..<n} \<subseteq> fin))"

lemma stop_inv_step:
  assumes "stop_inv n err fin a" and "i < n"
  shows "stop_inv n (err \<or> rc \<noteq> 0) (insert i fin) (kv_app_stop i rc a)"
proof (cases "app_stopped a = []")
  case True
  have b: "bit (running_thread a) j \<longleftrightarrow> j < n \<and> j \<notin> fin" for j using assms(1) True by (simp add: stop_inv_def)
  have nz: "running_thread a \<noteq> 0"
  proof
    assume z: "running_thread a = 0"
    have "{..<n} \<subseteq> fin" using b z by auto
    then show False using assms(1) True by (simp add: stop_inv_def)
  qed
  let ?r = "running_thread a AND NOT (push_bit i 1)"
  have br: "bit ?r j \<longleftrightarrow> j < n \<and> j \<notin> insert i fin" for j using bit_running_after b by blast
  have "?r = 0 \<longleftrightarrow> {..<n} \<subseteq> insert i fin"
  proof
    assume "?r = 0" then show "{..<n} \<subseteq> insert i fin" using br by auto
  next
    assume "{..<n} \<subseteq> insert i fin"
    then have "\<not> bit ?r j" for j using br by auto
    then show "?r = 0" by (intro bit_eqI) simp
  qed
  then show ?thesis using True nz br by (auto simp: stop_inv_def kv_app_stop_def Let_def)
next
  case False
  then show ?thesis using assms(1) by (auto simp: stop_inv_def kv_app_stop_def Let_def)
qed

lemma stop_all_inv:
  assumes "stop_inv n err fin a" and "\<forall>(i, rc) \<in> set xs. i < n"
  shows "stop_inv n (err \<or> (\<exists>(i, rc) \<in> set xs. rc \<noteq> 0)) (fin \<union> fst ` set xs) (stop_all xs a)"
  using assms
proof (induction xs arbitrary: err fin a)
  case Nil
  then show ?case by (simp add: stop_all_def)
next
  case (Cons x xs)
  obtain i rc where x: "x = (i, rc)" by fastforce
  have "stop_inv n (err \<or> rc \<noteq> 0) (insert i fin) (kv_app_stop i rc a)" using stop_inv_step Cons.prems x by auto
  then have "stop_inv n ((err \<or> rc \<noteq> 0) \<or> (\<exists>(i, rc) \<in> set xs. rc \<noteq> 0)) (insert i fin \<union> fst ` set xs)
      (stop_all xs (kv_app_stop i rc a))"
    using Cons.prems(2) by (intro Cons.IH) simp_all
  then show ?case using x by (simp add: stop_all_def disj_assoc)
qed

section \<open>Properties\<close>

lemma register_all_keeps:
  assumes "register_all ops names a = Inr a'"
  shows "running_thread a' = running_thread a \<and> app_stopped a' = app_stopped a \<and> task_num a' = task_num a"
  using assms
proof (induction names arbitrary: a)
  case Nil
  then show ?case by simp
next
  case (Cons name names)
  obtain a1 where "register_func ops name a = Inr a1" and r: "register_all ops names a1 = Inr a'" using Cons.prems by (auto simp: res_simps)
  then have "running_thread a1 = running_thread a \<and> app_stopped a1 = app_stopped a \<and> task_num a1 = task_num a"
    by (auto simp: register_func_def thread_init_def split: option.splits if_splits)
  then show ?case using Cons.IH[OF r] by simp
qed

lemma fold_app_start:
  "running_thread (app_start ops p tasks a) = running_thread a \<and> app_stopped (app_start ops p tasks a) = app_stopped a"
proof -
  have "running_thread (fold (\<lambda>i a. if tasks ! i = None then a else kv_app_send ops p i (tasks ! i) a) xs a) = running_thread a \<and>
    app_stopped (fold (\<lambda>i a. if tasks ! i = None then a else kv_app_send ops p i (tasks ! i) a) xs a) = app_stopped a" for xs
    by (induction xs arbitrary: a) (auto simp: kv_app_send_def set_cq_def)
  then show ?thesis by (simp add: app_start_def)
qed

lemma start_inv:
  assumes "kv_app_start ops n names tasks ths = Inr a"
  shows "stop_inv n False {} a"
proof -
  have n: "1 \<le> n" "n < 64" using assms by (auto simp: kv_app_start_def MAX_TASKS_NUM_def res_simps)
  have "running_thread a = push_bit n 1 - 1 \<and> app_stopped a = []"
    using assms by (auto simp: kv_app_start_def send_msg_to_all_def res_simps fold_app_start thread_init_def dest!: register_all_keeps)
  moreover have "{..<n} \<noteq> {}" using n(1) lessThan_empty_iff[of n] by linarith
  ultimately show ?thesis using n by (auto simp: stop_inv_def bit_initial_mask simp del: push_bit_of_1)
qed

text \<open>
  C32. Shutdown: after any calls of \<open>kv_app_stop\<close> by task threads, \<open>spdk_app_stop\<close> has been
  called at most once, and it has been called if every task thread has stopped. If all
  calls carried the code 0 and a thread is still running, it has not been called.
\<close>

theorem app_stops_once:
  assumes "kv_app_start ops n names tasks ths = Inr a" and "\<forall>(i, rc) \<in> set xs. i < n"
  shows "length (app_stopped (stop_all xs a)) \<le> 1 \<and>
    ({..<n} \<subseteq> fst ` set xs \<longrightarrow> length (app_stopped (stop_all xs a)) = 1) \<and>
    ((\<forall>(i, rc) \<in> set xs. rc = 0) \<and> \<not> {..<n} \<subseteq> fst ` set xs \<longrightarrow> app_stopped (stop_all xs a) = [])"
proof -
  have "stop_inv n (False \<or> (\<exists>(i, rc) \<in> set xs. rc \<noteq> 0)) ({} \<union> fst ` set xs) (stop_all xs a)"
    using stop_all_inv[OF start_inv[OF assms(1)] assms(2)] .
  then show ?thesis by (force simp: stop_inv_def split: if_splits)
qed

text \<open>A queue as a list, for examples.\<close>

definition list_cq :: "('m option list, 'm) cq_ops" where
  "list_cq = \<lparr>cq_create = [], cq_enqueue_with_token = (\<lambda>_ m q. q @ [m]), cq_enqueue = (\<lambda>m q. q @ [m]),
     cq_try_dequeue_bulk = (\<lambda>n q. (take n q, drop n q))\<rparr>"

theorem app_stops_once_witness:
  "\<exists>a. kv_app_start list_cq 2 [''reactor_1''] [Some (0 :: nat), None] (\<lambda>_. \<lparr>td_cq = [], td_poller = False\<rparr>) = Inr a \<and>
       length (app_stopped (stop_all [(1, 0), (0, 0)] a)) = 1"
proof -
  obtain a where a: "kv_app_start list_cq 2 [''reactor_1''] [Some (0 :: nat), None] (\<lambda>_. \<lparr>td_cq = [], td_poller = False\<rparr>) = Inr a"
    by (simp add: kv_app_start_def send_msg_to_all_def register_func_def reactor_index_def scan_u32_def is_digit_def MAX_TASKS_NUM_def)
  have "{..<2} \<subseteq> fst ` set [(1 :: nat, 0 :: int), (0, 0)]" by auto
  then show ?thesis using app_stops_once[OF a, of "[(1, 0), (0, 0)]"] a by auto
qed

text \<open>After the start every thread of the application has its task, and nothing else, in its queue.\<close>

lemma reactor_index_name: "i < 2 ^ 32 \<Longrightarrow> reactor_index (''reactor_'' @ show_nat i) = Some i"
proof -
  assume i: "i < 2 ^ 32"
  have t: "takeWhile is_digit (show_nat i) = show_nat i" using show_nat_digits[of i] by simp
  have "scan_u32 (show_nat i) = Inr (word_of_nat i)" unfolding scan_u32_def t using fold_show_nat[of i] show_nat_not_Nil[of i] by simp
  then show ?thesis using i by (simp add: reactor_index_def unat_of_nat take_bit_eq_mod)
qed

lemma register_all_names:
  assumes "\<forall>i \<in> set is. i < MAX_TASKS_NUM"
  shows "register_all ops (map (\<lambda>i. ''reactor_'' @ show_nat i) is) a = Inr (fold (thread_init ops) is a)"
  using assms by (induction "is" arbitrary: a) (auto simp: register_func_def reactor_index_name[simplified] MAX_TASKS_NUM_def)

lemma fold_thread_init_threads:
  "g_threads (fold (thread_init ops) is a) i = (if i \<in> set is then \<lparr>td_cq = cq_create ops, td_poller = True\<rparr> else g_threads a i) \<and>
   task_num (fold (thread_init ops) is a) = task_num a"
  by (induction "is" arbitrary: a) (auto simp: thread_init_def)

lemma app_start_queues:
  assumes "distinct xs"
  shows "g_threads (fold (\<lambda>i a. if tasks ! i = None then a else kv_app_send ops p i (tasks ! i) a) xs a) j =
    (if j \<in> set xs \<and> tasks ! j \<noteq> None
     then (g_threads a j)\<lparr>td_cq := cq_enqueue_with_token ops p (tasks ! j) (td_cq (g_threads a j))\<rparr> else g_threads a j)"
  using assms by (induction xs arbitrary: a) (auto simp: kv_app_send_def set_cq_def)

lemma app_threads_started:
  assumes "1 \<le> n" and "n < MAX_TASKS_NUM" and "i < n"
  shows "\<exists>a. kv_app_start ops n (map (\<lambda>i. ''reactor_'' @ show_nat i) [1..<n]) tasks ths = Inr a \<and> td_poller (g_threads a i) \<and>
    td_cq (g_threads a i) = (if tasks ! i = None then cq_create ops else cq_enqueue_with_token ops 0 (tasks ! i) (cq_create ops))"
proof -
  let ?a = "\<lparr>task_num = n, running_thread = push_bit n 1 - 1, g_threads = ths, app_stopped = []\<rparr>"
  have "register_all ops (map (\<lambda>i. ''reactor_'' @ show_nat i) [1..<n]) (thread_init ops 0 ?a) =
      Inr (fold (thread_init ops) [1..<n] (thread_init ops 0 ?a))"
    using assms(2) by (intro register_all_names) auto
  then have "kv_app_start ops n (map (\<lambda>i. ''reactor_'' @ show_nat i) [1..<n]) tasks ths =
      Inr (app_start ops 0 tasks (fold (thread_init ops) (0 # [1..<n]) ?a))"
    using assms(1,2) by (simp add: kv_app_start_def send_msg_to_all_def)
  moreover have "i \<in> set (0 # [1..<n])" using assms(3) by auto
  ultimately show ?thesis
    using fold_thread_init_threads[of ops "0 # [1..<n]" ?a] assms(3)
    by (auto simp: app_start_def app_start_queues)
qed

end
