(* ===== verification/Kv_Rdma.thy ===== *)
theory Kv_Rdma
  imports Kv_Memory
begin

unbundle bit_operations_syntax

text \<open>
  \<open>kv_rdma.c\<close>: request buffers cut from registered memory, the connections of a node, the
  requests of a client, the receive slots of a server and the teardown. The verbs library
  is outside: what its calls return is an argument where the code looks at it, and what the
  code hands to it is an event. Connections are named by numbers, the slots of a server by
  their index.
\<close>

section \<open>Registered memory\<close>

datatype kv_rdma_mr_type = KV_RDMA_MR_REQ | KV_RDMA_MR_RESP | KV_RDMA_MR_SERVER

record ibv_mr =
  mr_addr :: u64
  mr_length :: u64

text \<open>A scatter/gather entry; its length has 32 bits.\<close>

record ibv_sge =
  sge_addr :: u64
  sge_length :: u32

definition HEADER_SIZE :: u64 where "HEADER_SIZE = 12"

text \<open>\<open>b\<close> is the address of the one buffer from which all regions of a bulk are cut.\<close>

definition bulk_size :: "kv_rdma_mr_type \<Rightarrow> u64 \<Rightarrow> u64" where
  "bulk_size t sz = (if t \<noteq> KV_RDMA_MR_RESP then sz + HEADER_SIZE else sz)"

definition kv_rdma_alloc_bulk :: "u64 \<Rightarrow> kv_rdma_mr_type \<Rightarrow> u64 \<Rightarrow> nat \<Rightarrow> ibv_mr list" where
  "kv_rdma_alloc_bulk b t sz n =
     map (\<lambda>i. \<lparr>mr_addr = b + word_of_nat i * bulk_size t sz, mr_length = bulk_size t sz\<rparr>) [0..<n]"

text \<open>The length of the registered memory of a bulk.\<close>

definition bulk_length :: "kv_rdma_mr_type \<Rightarrow> u64 \<Rightarrow> nat \<Rightarrow> u64" where
  "bulk_length t sz n = bulk_size t sz * word_of_nat n"

definition kv_rdma_mrs_get :: "ibv_mr list \<Rightarrow> nat \<Rightarrow> ibv_mr res" where
  "kv_rdma_mrs_get mrs i = (if i < length mrs then Inr (mrs ! i) else Inl Out_of_bounds)"

definition kv_rdma_alloc_req :: "u64 \<Rightarrow> u32 \<Rightarrow> ibv_mr" where
  "kv_rdma_alloc_req b sz = \<lparr>mr_addr = b, mr_length = ucast (sz + ucast HEADER_SIZE)\<rparr>"

definition kv_rdma_get_req_buf :: "ibv_mr \<Rightarrow> u64" where
  "kv_rdma_get_req_buf mr = mr_addr mr + HEADER_SIZE"

definition kv_rdma_alloc_resp :: "u64 \<Rightarrow> u32 \<Rightarrow> ibv_mr" where
  "kv_rdma_alloc_resp b sz = \<lparr>mr_addr = b, mr_length = ucast sz\<rparr>"

definition kv_rdma_get_resp_buf :: "ibv_mr \<Rightarrow> u64" where
  "kv_rdma_get_resp_buf mr = mr_addr mr"

section \<open>State\<close>

record req_header =
  rh_resp_addr :: u64
  rh_req_id :: u32

record 'c client_req_ctx =
  cr_conn :: nat
  cr_cb :: "'c option"
  cr_req :: ibv_mr
  cr_resp :: ibv_mr

text \<open>
  A connection; \<open>c_reqs\<close> is the memory of the elements of its pool. \<open>'c\<close> are the callbacks.
\<close>

record 'c rdma_connection =
  is_server :: bool
  c_qp :: "u32 option"
  c_handler :: "'c option"
  c_connect :: "'c option"
  c_disconnect :: "'c option"
  c_mp :: kv_mempool
  c_reqs :: "u64 \<rightharpoonup> 'c client_req_ctx"

record server_req_ctx =
  sr_conn :: "nat option"
  sr_resp_rkey :: u32
  sr_mr :: ibv_mr
  sr_header :: req_header

record 'c kv_rdma =
  rd_ctx :: bool
  has_server :: bool
  rd_thread_num :: nat
  rd_thread_id :: nat
  con_req_num :: u32
  max_msg_sz :: u32
  conns :: "nat \<rightharpoonup> 'c rdma_connection"
  connections :: "u32 \<rightharpoonup> nat"
  requests :: "server_req_ctx list"
  srq :: "(nat \<times> ibv_sge) list"
  rd_init_cb :: "'c option"
  rd_ec :: bool
  rd_cqs :: "bool list"
  fini_thread_id :: nat
  fini_io_cnt :: u32
  fini_cb :: "'c option"

text \<open>Tasks of the teardown, sent to the threads of the node.\<close>

datatype rd_task = Cm_poller_unregister | Cq_poller_unregister nat | Poller_unregister_done

datatype 'c rd_event =
  Rd_register_cq_poller nat
| Rd_init_done 'c
| Rd_resolve_route nat
| Rd_connect nat
| Rd_accept nat
| Rd_connect_cb 'c "nat option"
| Rd_disconnect_cb 'c
| Rd_post_recv nat
| Rd_post_send nat ibv_mr u64 req_header u64
| Rd_write_resp u32 u32 u64 u32 nat
| Rd_client_cb 'c nat bool ibv_mr ibv_mr
| Rd_handler 'c nat u64
| Rd_free u64
| Rd_send nat rd_task
| Rd_fini_cb nat 'c
| Rd_destroy

type_synonym 'c rd_result = "('c kv_rdma \<times> 'c rd_event list) res"

section \<open>Connections\<close>

definition zero_req :: "ibv_mr \<Rightarrow> server_req_ctx" where
  "zero_req mr = \<lparr>sr_conn = None, sr_resp_rkey = 0, sr_mr = mr, sr_header = \<lparr>rh_resp_addr = 0, rh_req_id = 0\<rparr>\<rparr>"

text \<open>
  \<open>server_data_init\<close>: one slot per concurrent request, all of them posted for receiving. The
  entry of the receive queue of a slot starts at the region of the slot, and its length is
  that of the registered memory of all slots.
\<close>

definition server_data_init :: "u64 \<Rightarrow> 'c kv_rdma \<Rightarrow> 'c kv_rdma \<times> 'c rd_event list" where
  "server_data_init b r =
     (let n = unat (con_req_num r); mrs = kv_rdma_alloc_bulk b KV_RDMA_MR_SERVER (ucast (max_msg_sz r)) n;
          len = bulk_length KV_RDMA_MR_SERVER (ucast (max_msg_sz r)) n
      in (r\<lparr>requests := map zero_req mrs,
            srq := map (\<lambda>i. (i, \<lparr>sge_addr = mr_addr (mrs ! i), sge_length = ucast len\<rparr>)) [0..<n]\<rparr>,
          case rd_init_cb r of None \<Rightarrow> [] | Some c \<Rightarrow> [Rd_init_done c]))"

text \<open>\<open>create_connetion\<close>: \<open>b\<close> is the buffer of the server, \<open>qp\<close> the number of the new queue pair.\<close>

definition create_connetion :: "u64 \<Rightarrow> u32 \<Rightarrow> nat \<Rightarrow> 'c kv_rdma \<Rightarrow> 'c rd_result" where
  "create_connetion b qp cid r =
     (case conns r cid of
        None \<Rightarrow> Inl Null_deref
      | Some conn \<Rightarrow>
          let (r1, evs1) =
                (if rd_ctx r then (r, [])
                 else (r\<lparr>rd_ctx := True, rd_cqs := replicate (rd_thread_num r) True\<rparr>,
                       map (\<lambda>i. Rd_register_cq_poller (rd_thread_id r + i)) [0..<rd_thread_num r]));
              (r2, evs2) = (if has_server r1 \<and> requests r1 = [] then server_data_init b r1 else (r1, []))
          in Inr (r2\<lparr>conns := (conns r2)(cid \<mapsto> conn\<lparr>c_qp := Some qp\<rparr>)\<rparr>, evs1 @ evs2))"

definition on_addr_resolved :: "u64 \<Rightarrow> u32 \<Rightarrow> nat \<Rightarrow> 'c kv_rdma \<Rightarrow> 'c rd_result" where
  "on_addr_resolved b qp cid r =
     rbind (create_connetion b qp cid r) (\<lambda>(r', evs). Inr (r', evs @ [Rd_resolve_route cid]))"

definition on_route_resolved :: "nat \<Rightarrow> 'c kv_rdma \<Rightarrow> 'c rd_result" where
  "on_route_resolved cid r = Inr (r, [Rd_connect cid])"

text \<open>A request at the listening connection \<open>lid\<close> makes the new connection \<open>cid\<close>.\<close>

definition on_connect_request :: "u64 \<Rightarrow> u32 \<Rightarrow> nat \<Rightarrow> nat \<Rightarrow> 'c kv_rdma \<Rightarrow> 'c rd_result" where
  "on_connect_request b qp lid cid r =
     (case conns r lid of
        None \<Rightarrow> Inl Null_deref
      | Some l \<Rightarrow>
          let conn = \<lparr>is_server = True, c_qp = None, c_handler = c_handler l, c_connect = None, c_disconnect = None,
                      c_mp = \<lparr>mp_buf = 0, mp_free = []\<rparr>, c_reqs = Map.empty\<rparr>
          in rbind (create_connetion b qp cid (r\<lparr>conns := (conns r)(cid \<mapsto> conn)\<rparr>)) (\<lambda>(r', evs).
               Inr (r'\<lparr>connections := (connections r')(qp \<mapsto> cid)\<rparr>, evs @ [Rd_accept cid])))"

definition on_connect_error :: "nat \<Rightarrow> 'c kv_rdma \<Rightarrow> 'c rd_result" where
  "on_connect_error cid r =
     (case conns r cid of
        None \<Rightarrow> Inl Null_deref
      | Some conn \<Rightarrow>
          if is_server conn then Inr (r, [])
          else Inr (r\<lparr>conns := (conns r)(cid := None)\<rparr>,
                    case c_connect conn of None \<Rightarrow> [] | Some c \<Rightarrow> [Rd_connect_cb c None]))"

definition on_established :: "nat \<Rightarrow> 'c kv_rdma \<Rightarrow> 'c rd_result" where
  "on_established cid r =
     (case conns r cid of
        None \<Rightarrow> Inl Null_deref
      | Some conn \<Rightarrow>
          Inr (r, if is_server conn then []
                  else case c_connect conn of None \<Rightarrow> [] | Some c \<Rightarrow> [Rd_connect_cb c (Some cid)]))"

definition on_disconnect :: "nat \<Rightarrow> 'c kv_rdma \<Rightarrow> 'c rd_result" where
  "on_disconnect cid r =
     (case conns r cid of
        None \<Rightarrow> Inl Null_deref
      | Some conn \<Rightarrow>
          let r1 = r\<lparr>conns := (conns r)(cid := None)\<rparr> in
          if is_server conn then
            Inr (case c_qp conn of None \<Rightarrow> r1 | Some qp \<Rightarrow> r1\<lparr>connections := (connections r1)(qp := None)\<rparr>, [])
          else Inr (r1, case c_disconnect conn of None \<Rightarrow> [] | Some c \<Rightarrow> [Rd_disconnect_cb c]))"

datatype cm_event =
  Addr_resolved u64 u32 nat
| Route_resolved nat
| Unreachable nat
| Connect_request u64 u32 nat nat
| Established nat
| Disconnected nat
| Cm_other

fun cm_dispatch :: "cm_event \<Rightarrow> 'c kv_rdma \<Rightarrow> 'c rd_result" where
  "cm_dispatch (Addr_resolved b qp cid) r = on_addr_resolved b qp cid r"
| "cm_dispatch (Route_resolved cid) r = on_route_resolved cid r"
| "cm_dispatch (Unreachable cid) r = on_connect_error cid r"
| "cm_dispatch (Connect_request b qp lid cid) r = on_connect_request b qp lid cid r"
| "cm_dispatch (Established cid) r = on_established cid r"
| "cm_dispatch (Disconnected cid) r = on_disconnect cid r"
| "cm_dispatch Cm_other r = Inr (r, [])"

text \<open>\<open>rdma_cm_poller\<close> on the events that are waiting; none is taken once the channel is gone.\<close>

fun rdma_cm_poller :: "cm_event list \<Rightarrow> 'c kv_rdma \<Rightarrow> 'c rd_result" where
  "rdma_cm_poller [] r = Inr (r, [])"
| "rdma_cm_poller (e # es) r =
     (if rd_ec r then
        rbind (cm_dispatch e r) (\<lambda>(r1, evs).
        rbind (rdma_cm_poller es r1) (\<lambda>(r2, evs'). Inr (r2, evs @ evs')))
      else Inr (r, []))"

section \<open>Clients\<close>

definition sizeof_client_req_ctx :: u64 where "sizeof_client_req_ctx = 40"
definition CLIENT_REQ_NUM :: nat where "CLIENT_REQ_NUM = 8191"

text \<open>\<open>pb\<close> is the buffer of the pool of the new connection.\<close>

definition kv_rdma_connect :: "u64 \<Rightarrow> 'c option \<Rightarrow> 'c option \<Rightarrow> nat \<Rightarrow> 'c kv_rdma \<Rightarrow> 'c kv_rdma" where
  "kv_rdma_connect pb connect_cb disconnect_cb cid r =
     r\<lparr>conns := (conns r)(cid \<mapsto>
         \<lparr>is_server = False, c_qp = None, c_handler = None, c_connect = connect_cb, c_disconnect = disconnect_cb,
          c_mp = kv_mempool_create pb CLIENT_REQ_NUM sizeof_client_req_ctx, c_reqs = Map.empty\<rparr>)\<rparr>"

text \<open>
  \<open>kv_rdma_send_req\<close>: \<open>pos\<close> is the position the pool takes its element from, \<open>recv_rc\<close> and
  \<open>send_rc\<close> are what the two postings return. On failure the element is passed to
  \<open>kv_free\<close> and not given back to its pool.
\<close>

definition kv_rdma_send_req ::
  "nat \<Rightarrow> int \<Rightarrow> int \<Rightarrow> nat \<Rightarrow> ibv_mr \<Rightarrow> u32 \<Rightarrow> ibv_mr \<Rightarrow> u64 \<Rightarrow> 'c option \<Rightarrow> 'c kv_rdma \<Rightarrow> 'c rd_result" where
  "kv_rdma_send_req pos recv_rc send_rc cid req req_sz resp resp_addr0 cb r =
     (case conns r cid of
        None \<Rightarrow> Inl Null_deref
      | Some conn \<Rightarrow>
          rbind (c_assert (\<not> is_server conn)) (\<lambda>_.
            case kv_mempool_get pos (c_mp conn) of
              (mp, None) \<Rightarrow> Inl Null_deref
            | (mp, Some e) \<Rightarrow>
                let ctx = \<lparr>cr_conn = cid, cr_cb = cb, cr_req = req, cr_resp = resp\<rparr>;
                    conn1 = conn\<lparr>c_mp := mp, c_reqs := (c_reqs conn)(e \<mapsto> ctx)\<rparr>;
                    r1 = r\<lparr>conns := (conns r)(cid \<mapsto> conn1)\<rparr>;
                    resp_addr = (if resp_addr0 = 0 then mr_addr resp else resp_addr0);
                    hdr = \<lparr>rh_resp_addr = resp_addr, rh_req_id = ucast (kv_mempool_get_id mp e)\<rparr>;
                    fail = (case cb of None \<Rightarrow> [] | Some c \<Rightarrow> [Rd_client_cb c cid False req resp]) @ [Rd_free e]
                in rbind (c_assert (ucast req_sz \<le> mr_length req)) (\<lambda>_.
                     if recv_rc \<noteq> 0 then Inr (r1, fail)
                     else if send_rc \<noteq> 0 then Inr (r1, Rd_post_recv cid # fail)
                     else Inr (r1, [Rd_post_recv cid, Rd_post_send cid req (ucast req_sz + HEADER_SIZE) hdr e]))))"

definition on_recv_resp :: "bool \<Rightarrow> nat \<Rightarrow> u32 \<Rightarrow> 'c kv_rdma \<Rightarrow> 'c rd_result" where
  "on_recv_resp success cid imm r =
     (case conns r cid of
        None \<Rightarrow> Inl Null_deref
      | Some conn \<Rightarrow>
          rbind (c_assert (\<not> is_server conn)) (\<lambda>_.
            let e = kv_mempool_get_ele (c_mp conn) (scast imm) in
            case c_reqs conn e of
              None \<Rightarrow> Inl Out_of_bounds
            | Some ctx \<Rightarrow>
                (case cr_cb ctx of
                   None \<Rightarrow> Inl Null_deref
                 | Some c \<Rightarrow>
                     Inr (r\<lparr>conns := (conns r)(cid \<mapsto> conn\<lparr>c_mp := kv_mempool_put (c_mp conn) e\<rparr>)\<rparr>,
                          [Rd_client_cb c (cr_conn ctx) success (cr_req ctx) (cr_resp ctx)]))))"

definition on_send_req :: "bool \<Rightarrow> 'c kv_rdma \<Rightarrow> 'c rd_result" where
  "on_send_req success r = Inr (r, [])"

section \<open>Servers\<close>

definition kv_rdma_listen :: "u32 \<Rightarrow> u32 \<Rightarrow> 'c \<Rightarrow> 'c option \<Rightarrow> nat \<Rightarrow> 'c kv_rdma \<Rightarrow> 'c kv_rdma" where
  "kv_rdma_listen n sz h cb lid r =
     r\<lparr>has_server := True, rd_init_cb := cb, con_req_num := n, max_msg_sz := sz,
       conns := (conns r)(lid \<mapsto>
         \<lparr>is_server = True, c_qp = None, c_handler = Some h, c_connect = None, c_disconnect = None,
          c_mp = \<lparr>mp_buf = 0, mp_free = []\<rparr>, c_reqs = Map.empty\<rparr>)\<rparr>"

definition slot_connection :: "'c kv_rdma \<Rightarrow> nat \<Rightarrow> 'c rdma_connection res" where
  "slot_connection r i =
     (if i < length (requests r) then
        (case sr_conn (requests r ! i) of
           None \<Rightarrow> Inl Null_deref
         | Some cid \<Rightarrow> (case conns r cid of None \<Rightarrow> Inl Null_deref | Some conn \<Rightarrow> Inr conn))
      else Inl Out_of_bounds)"

definition kv_rdma_make_resp :: "nat \<Rightarrow> u64 \<Rightarrow> u32 \<Rightarrow> 'c kv_rdma \<Rightarrow> 'c rd_result" where
  "kv_rdma_make_resp i resp resp_sz r =
     rbind (slot_connection r i) (\<lambda>conn.
       case c_qp conn of
         None \<Rightarrow> Inl Null_deref
       | Some qp \<Rightarrow>
           let q = requests r ! i
           in Inr (r, [Rd_write_resp qp (rh_req_id (sr_header q)) (rh_resp_addr (sr_header q)) (sr_resp_rkey q) i]))"

definition kv_rdma_conn_num :: "u32 list \<Rightarrow> 'c kv_rdma \<Rightarrow> nat" where
  "kv_rdma_conn_num qps r = length (filter (\<lambda>q. connections r q \<noteq> None) (remdups qps))"

text \<open>A slot is posted again with its own region.\<close>

definition slot_sge :: "ibv_mr \<Rightarrow> ibv_sge" where
  "slot_sge mr = \<lparr>sge_addr = mr_addr mr, sge_length = ucast (mr_length mr)\<rparr>"

definition on_write_resp_done :: "nat \<Rightarrow> 'c kv_rdma \<Rightarrow> 'c rd_result" where
  "on_write_resp_done i r =
     rbind (slot_connection r i) (\<lambda>conn.
     rbind (c_assert (is_server conn)) (\<lambda>_.
       Inr (r\<lparr>srq := srq r @ [(i, slot_sge (sr_mr (requests r ! i)))]\<rparr>, [])))"

text \<open>
  \<open>on_recv_req\<close>: the slot \<open>i\<close> has received \<open>len\<close> bytes with header \<open>hdr\<close> on queue pair \<open>qp\<close>.
\<close>

definition on_recv_req :: "bool \<Rightarrow> nat \<Rightarrow> u32 \<Rightarrow> u64 \<Rightarrow> u32 \<Rightarrow> req_header \<Rightarrow> 'c kv_rdma \<Rightarrow> 'c rd_result" where
  "on_recv_req success i qp len imm hdr r =
     (if \<not> success then on_write_resp_done i r
      else rbind (c_assert (len > HEADER_SIZE)) (\<lambda>_.
        if i < length (requests r) then
          (case connections r qp of
             None \<Rightarrow> Inl Assert_fail
           | Some cid \<Rightarrow>
               (case conns r cid of
                  None \<Rightarrow> Inl Null_deref
                | Some conn \<Rightarrow>
                    rbind (c_assert (is_server conn)) (\<lambda>_.
                      (case c_handler conn of
                         None \<Rightarrow> Inl Null_deref
                       | Some h \<Rightarrow>
                           let q = (requests r ! i)\<lparr>sr_conn := Some cid, sr_resp_rkey := imm, sr_header := hdr\<rparr>
                           in Inr (r\<lparr>requests := (requests r)[i := q]\<rparr>, [Rd_handler h i (len - HEADER_SIZE)])))))
        else Inl Out_of_bounds))"

section \<open>Completions\<close>

datatype rdma_wc =
  Wc_recv bool nat u32 u64 u32 req_header
| Wc_recv_rdma_with_imm bool nat u32
| Wc_rdma_write bool nat
| Wc_send bool
| Wc_unknown

fun wc_dispatch :: "rdma_wc \<Rightarrow> 'c kv_rdma \<Rightarrow> 'c rd_result" where
  "wc_dispatch (Wc_recv ok i qp len imm hdr) r = on_recv_req ok i qp len imm hdr r"
| "wc_dispatch (Wc_recv_rdma_with_imm ok cid imm) r = on_recv_resp ok cid imm r"
| "wc_dispatch (Wc_rdma_write ok i) r = on_write_resp_done i r"
| "wc_dispatch (Wc_send ok) r = on_send_req ok r"
| "wc_dispatch Wc_unknown r = Inr (r, [])"

text \<open>\<open>rdma_cq_poller\<close> of poller \<open>p\<close> on the completions the queue gives it.\<close>

fun rdma_cq_poller :: "nat \<Rightarrow> rdma_wc list \<Rightarrow> 'c kv_rdma \<Rightarrow> 'c rd_result" where
  "rdma_cq_poller p [] r = Inr (r, [])"
| "rdma_cq_poller p (w # ws) r =
     (if p < length (rd_cqs r) \<and> rd_cqs r ! p then
        rbind (wc_dispatch w r) (\<lambda>(r1, evs).
        rbind (rdma_cq_poller p ws r1) (\<lambda>(r2, evs'). Inr (r2, evs @ evs')))
      else Inr (r, []))"

section \<open>Start and teardown\<close>

definition kv_rdma_init :: "bool \<Rightarrow> nat \<Rightarrow> nat \<Rightarrow> 'c kv_rdma res" where
  "kv_rdma_init ec_ok thread_num thread_index =
     (if \<not> ec_ok then Inl Exit_fail
      else Inr \<lparr>rd_ctx = False, has_server = False, rd_thread_num = thread_num, rd_thread_id = thread_index,
                con_req_num = 0, max_msg_sz = 0, conns = Map.empty, connections = Map.empty, requests = [], srq = [],
                rd_init_cb = None, rd_ec = True, rd_cqs = [], fini_thread_id = 0, fini_io_cnt = 0, fini_cb = None\<rparr>)"

definition kv_rdma_fini :: "nat \<Rightarrow> 'c \<Rightarrow> 'c kv_rdma \<Rightarrow> 'c kv_rdma \<times> 'c rd_event list" where
  "kv_rdma_fini thread_index c r =
     (r\<lparr>fini_thread_id := thread_index, fini_cb := Some c,
        fini_io_cnt := (if rd_ctx r then 1 + word_of_nat (rd_thread_num r) else 1)\<rparr>,
      Rd_send (rd_thread_id r) Cm_poller_unregister #
      (if rd_ctx r then map (\<lambda>i. Rd_send (rd_thread_id r + i) (Cq_poller_unregister i)) [0..<rd_thread_num r] else []))"

definition cm_poller_unregister :: "'c kv_rdma \<Rightarrow> 'c kv_rdma \<times> 'c rd_event list" where
  "cm_poller_unregister r = (r\<lparr>rd_ec := False\<rparr>, [Rd_send (rd_thread_id r) Poller_unregister_done])"

definition cq_poller_unregister :: "nat \<Rightarrow> 'c kv_rdma \<Rightarrow> 'c kv_rdma \<times> 'c rd_event list" where
  "cq_poller_unregister i r =
     (r\<lparr>rd_cqs := (rd_cqs r)[i := False]\<rparr>, [Rd_send (rd_thread_id r) Poller_unregister_done])"

definition poller_unregister_done :: "'c kv_rdma \<Rightarrow> 'c kv_rdma \<times> 'c rd_event list" where
  "poller_unregister_done r =
     (let c = fini_io_cnt r - 1; r1 = r\<lparr>fini_io_cnt := c\<rparr> in
      if c \<noteq> 0 then (r1, [])
      else (r1\<lparr>rd_ctx := False, requests := [], srq := []\<rparr>,
            (if rd_ctx r then [Rd_destroy] else []) @ (case fini_cb r of None \<Rightarrow> [] | Some cb \<Rightarrow> [Rd_fini_cb (fini_thread_id r) cb])))"

section \<open>Slots of a server\<close>

text \<open>
  The life of the slots: posted for receiving, in the hands of the handler, and being written
  back. The steps are the completions of the device and the response of the handler.
\<close>

type_synonym 'c slot_state = "'c kv_rdma \<times> nat list \<times> nat list"

inductive slot_step :: "'c slot_state \<Rightarrow> 'c slot_state \<Rightarrow> bool" where
  slot_recv: "(i, g) \<in> set (srq r) \<Longrightarrow> on_recv_req True i qp len imm hdr (r\<lparr>srq := remove1 (i, g) (srq r)\<rparr>) = Inr (r', evs)
    \<Longrightarrow> slot_step (r, hs, ws) (r', i # hs, ws)"
| slot_recv_error: "(i, g) \<in> set (srq r) \<Longrightarrow> on_recv_req False i qp len imm hdr (r\<lparr>srq := remove1 (i, g) (srq r)\<rparr>) = Inr (r', evs)
    \<Longrightarrow> slot_step (r, hs, ws) (r', hs, ws)"
| slot_respond: "i \<in> set hs \<Longrightarrow> kv_rdma_make_resp i resp sz r = Inr (r', evs)
    \<Longrightarrow> slot_step (r, hs, ws) (r', remove1 i hs, i # ws)"
| slot_written: "i \<in> set ws \<Longrightarrow> on_write_resp_done i r = Inr (r', evs)
    \<Longrightarrow> slot_step (r, hs, ws) (r', hs, remove1 i ws)"
| slot_connect: "on_connect_request b qp lid cid r = Inr (r', evs) \<Longrightarrow> requests r \<noteq> []
    \<Longrightarrow> slot_step (r, hs, ws) (r', hs, ws)"
| slot_disconnect: "on_disconnect cid r = Inr (r', evs) \<Longrightarrow> slot_step (r, hs, ws) (r', hs, ws)"

definition slot_mrs :: "'c kv_rdma \<Rightarrow> ibv_mr list" where
  "slot_mrs r = map sr_mr (requests r)"

text \<open>
  Every slot is in one place, with the region it was given; a posted receive starts at the
  region of its slot and is as long as the region or, before the slot was used, as the bulk.
\<close>

definition sge_ok :: "u64 \<Rightarrow> ibv_mr list \<Rightarrow> nat \<times> ibv_sge \<Rightarrow> bool" where
  "sge_ok blen mrs = (\<lambda>(i, g). g = slot_sge (mrs ! i) \<or> g = \<lparr>sge_addr = mr_addr (mrs ! i), sge_length = ucast blen\<rparr>)"

definition slots_ok :: "u64 \<Rightarrow> ibv_mr list \<Rightarrow> 'c slot_state \<Rightarrow> bool" where
  "slots_ok blen mrs = (\<lambda>(r, hs, ws). mset (map fst (srq r)) + mset hs + mset ws = mset [0..<length mrs] \<and>
     slot_mrs r = mrs \<and> list_all (sge_ok blen mrs) (srq r))"

lemma mset_fst_remove1: "(i, g) \<in> set xs \<Longrightarrow> mset (map fst xs) = add_mset i (mset (map fst (remove1 (i, g) xs)))"
  by (induction xs) auto

lemma list_all_remove1: "list_all P xs \<Longrightarrow> list_all P (remove1 x xs)"
  using notin_set_remove1 by (force simp: list_all_iff)

lemma on_write_resp_done_Inr:
  "on_write_resp_done i r = Inr (r', evs) \<Longrightarrow> i < length (requests r) \<and> r' = r\<lparr>srq := srq r @ [(i, slot_sge (sr_mr (requests r ! i)))]\<rparr>"
  by (auto simp: on_write_resp_done_def slot_connection_def res_simps split: if_splits)

lemma repost_ok: "on_write_resp_done i r = Inr (r', evs) \<Longrightarrow> slot_mrs r = mrs \<Longrightarrow>
    srq r' = srq r @ [(i, slot_sge (mrs ! i))] \<and> slot_mrs r' = mrs"
  by (auto simp: slot_mrs_def dest!: on_write_resp_done_Inr)

lemma on_recv_req_Inr:
  assumes "on_recv_req True i qp len imm hdr r = Inr (r', evs)"
  shows "srq r' = srq r \<and> slot_mrs r' = slot_mrs r"
  using assms
  by (auto simp: on_recv_req_def res_simps slot_mrs_def map_update Let_def split: if_splits option.splits)
     (metis list_update_id map_update)

lemma create_connetion_slots:
  "create_connetion b qp cid r = Inr (r', evs) \<Longrightarrow> requests r \<noteq> [] \<Longrightarrow> srq r' = srq r \<and> requests r' = requests r"
  by (auto simp: create_connetion_def Let_def split: option.splits if_splits prod.splits)

lemma slot_step_ok:
  assumes "slot_step x y" and "slots_ok blen mrs x"
  shows "slots_ok blen mrs y"
  using assms
proof (cases rule: slot_step.cases)
  case (slot_recv i g r qp len imm hdr r' evs hs ws)
  then show ?thesis using assms(2) on_recv_req_Inr[OF slot_recv(4)] mset_fst_remove1[OF slot_recv(3)]
    by (simp add: slots_ok_def slot_mrs_def list_all_remove1)
next
  case (slot_recv_error i g r qp len imm hdr r' evs hs ws)
  have "slot_mrs (r\<lparr>srq := remove1 (i, g) (srq r)\<rparr>) = mrs" using assms(2) slot_recv_error(1) by (simp add: slots_ok_def slot_mrs_def)
  then have "srq r' = remove1 (i, g) (srq r) @ [(i, slot_sge (mrs ! i))] \<and> slot_mrs r' = mrs"
    using repost_ok[of i "r\<lparr>srq := remove1 (i, g) (srq r)\<rparr>"] slot_recv_error(4) by (simp add: on_recv_req_def)
  then show ?thesis using assms(2) slot_recv_error mset_fst_remove1[OF slot_recv_error(3)]
    by (simp add: slots_ok_def list_all_remove1 sge_ok_def)
next
  case (slot_respond i hs resp sz r r' evs ws)
  have "r' = r" using slot_respond(4) by (auto simp: kv_rdma_make_resp_def res_simps Let_def split: option.splits)
  then show ?thesis using assms(2) slot_respond by (simp add: slots_ok_def)
next
  case (slot_written i ws r r' evs hs)
  have "mset ws = add_mset i (mset (remove1 i ws))" using slot_written(3) by simp
  moreover have "srq r' = srq r @ [(i, slot_sge (mrs ! i))] \<and> slot_mrs r' = mrs"
    using repost_ok[OF slot_written(4)] assms(2) slot_written(1) by (simp add: slots_ok_def)
  ultimately show ?thesis using assms(2) slot_written by (simp add: slots_ok_def sge_ok_def del: mset_remove1)
next
  case (slot_connect b qp lid cid r r' evs hs ws)
  then have "srq r' = srq r \<and> requests r' = requests r"
    by (auto simp: on_connect_request_def res_simps Let_def split: option.splits
        dest!: create_connetion_slots)
  then show ?thesis using assms(2) slot_connect by (simp add: slots_ok_def slot_mrs_def)
next
  case (slot_disconnect cid r r' evs hs ws)
  then have "srq r' = srq r \<and> requests r' = requests r"
    by (auto simp: on_disconnect_def Let_def split: option.splits if_splits)
  then show ?thesis using assms(2) slot_disconnect by (simp add: slots_ok_def slot_mrs_def)
qed

lemma slot_steps_ok:
  assumes "slot_step\<^sup>*\<^sup>* x y" and "slots_ok blen mrs x"
  shows "slots_ok blen mrs y"
  using assms by (induction rule: rtranclp_induct) (auto intro: slot_step_ok)

lemma server_data_init_ok:
  assumes "server_data_init b r = (r', evs)"
  shows "slots_ok (bulk_length KV_RDMA_MR_SERVER (ucast (max_msg_sz r)) (unat (con_req_num r)))
    (kv_rdma_alloc_bulk b KV_RDMA_MR_SERVER (ucast (max_msg_sz r)) (unat (con_req_num r))) (r', [], [])"
  using assms
  by (auto simp: server_data_init_def slots_ok_def slot_mrs_def kv_rdma_alloc_bulk_def zero_req_def sge_ok_def Let_def o_def list_all_iff multiset.map_comp)

section \<open>Regions of a bulk\<close>

definition mr_range :: "ibv_mr \<Rightarrow> nat set" where
  "mr_range mr = {unat (mr_addr mr)..<unat (mr_addr mr) + unat (mr_length mr)}"

lemma bulk_nth:
  assumes "pool_fits b n (bulk_size t sz)" and "i < n"
  shows "mr_range (kv_rdma_alloc_bulk b t sz n ! i) =
    {unat b + i * unat (bulk_size t sz)..<unat b + Suc i * unat (bulk_size t sz)}"
  using assms unat_mempool_ele(1)[OF assms]
  by (simp add: kv_rdma_alloc_bulk_def mr_range_def mempool_ele_def add_ac)

lemma bulk_disjoint:
  assumes "pool_fits b n (bulk_size t sz)" and "i < j" and "j < n"
  shows "mr_range (kv_rdma_alloc_bulk b t sz n ! i) \<inter> mr_range (kv_rdma_alloc_bulk b t sz n ! j) = {}"
proof -
  have "Suc i * unat (bulk_size t sz) \<le> j * unat (bulk_size t sz)" using assms(2) by (intro mult_le_mono1) simp
  then show ?thesis using bulk_nth[OF assms(1)] assms by auto
qed

section \<open>Requests of a client\<close>

definition client_pool :: "u64 \<Rightarrow> kv_mempool \<Rightarrow> bool" where
  "client_pool pb mp \<longleftrightarrow> mp_buf mp = pb \<and> pool_fits pb CLIENT_REQ_NUM sizeof_client_req_ctx \<and>
     set (mp_free mp) \<subseteq> mempool_ele pb sizeof_client_req_ctx ` {..<CLIENT_REQ_NUM}"

lemma scast_ucast_small:
  fixes x :: u64
  assumes "unat x < 2 ^ 31"
  shows "scast (ucast x :: u32) = x"
proof (rule bit_word_eqI)
  fix n assume n: "n < LENGTH(64)"
  have hi: "\<not> bit x k" if "31 \<le> k" for k
  proof -
    have "unat x = unat (take_bit 31 x)" using assms by (simp add: unat_take_bit)
    then have "x = take_bit 31 x" by (rule unsigned_word_eqI)
    then show ?thesis using that by (metis bit_take_bit_iff not_less)
  qed
  show "bit (scast (ucast x :: u32) :: u64) n = bit x n"
    using hi[of n] hi[of 31] n by (cases "n < 31") (auto simp: bit_simps min_def)
qed

lemma request_id_roundtrip:
  assumes "pool_fits pb CLIENT_REQ_NUM sizeof_client_req_ctx"
    and "e \<in> mempool_ele pb sizeof_client_req_ctx ` {..<CLIENT_REQ_NUM}" and "mp_buf mp = pb" and "mp_buf mp' = pb"
  shows "kv_mempool_get_ele mp' (scast (ucast (kv_mempool_get_id mp e) :: u32)) = e"
proof -
  obtain i where i: "i < CLIENT_REQ_NUM" "e = mempool_ele pb sizeof_client_req_ctx i" using assms(2) by auto
  have "unat (e - pb) = i * 40" using unat_mempool_ele(2)[OF assms(1) i(1)] i(2) by (simp add: sizeof_client_req_ctx_def)
  then have "unat (e - pb) < 2 ^ 31" using i(1) by (simp add: CLIENT_REQ_NUM_def)
  then show ?thesis using assms(3,4) by (simp add: kv_mempool_get_ele_def kv_mempool_get_id_def scast_ucast_small)
qed

lemma mempool_get_mem:
  "kv_mempool_get pos mp = (mp', Some e) \<Longrightarrow> e \<in> set (mp_free mp) \<and> mp_buf mp' = mp_buf mp"
  by (auto simp: kv_mempool_get_def Let_def split: if_splits)

section \<open>Properties\<close>

text \<open>
  C24. Receive slots are never lost or shared: from the start of a server, over any sequence
  of received requests, receive errors, responses, completed writes, connects and
  disconnects, every slot is exactly one of posted, handled or being written, its region is
  the one it was given, and the regions of different slots do not overlap. A posted receive
  starts at the region of its slot; its length is that of the region or, as the server posts it
  first, that of the memory of all slots.
\<close>

theorem rdma_slots_conserved:
  assumes "server_data_init b r = (r0, evs)" and "slot_step\<^sup>*\<^sup>* (r0, [], []) (r', hs, ws)"
    and "pool_fits b (unat (con_req_num r)) (bulk_size KV_RDMA_MR_SERVER (ucast (max_msg_sz r)))"
  shows "distinct (map fst (srq r') @ hs @ ws) \<and> set (map fst (srq r') @ hs @ ws) = {..<unat (con_req_num r)} \<and>
    (\<forall>i j. i < j \<and> j < unat (con_req_num r) \<longrightarrow> mr_range (sr_mr (requests r' ! i)) \<inter> mr_range (sr_mr (requests r' ! j)) = {}) \<and>
    (\<forall>(i, g) \<in> set (srq r'). sge_addr g = mr_addr (sr_mr (requests r' ! i)) \<and>
       (sge_length g = ucast (mr_length (sr_mr (requests r' ! i))) \<or>
        sge_length g = ucast (bulk_length KV_RDMA_MR_SERVER (ucast (max_msg_sz r)) (unat (con_req_num r)))))"
proof -
  let ?n = "unat (con_req_num r)" and ?mrs = "kv_rdma_alloc_bulk b KV_RDMA_MR_SERVER (ucast (max_msg_sz r)) (unat (con_req_num r))"
  let ?len = "bulk_length KV_RDMA_MR_SERVER (ucast (max_msg_sz r)) ?n"
  have ok: "slots_ok ?len ?mrs (r', hs, ws)" using slot_steps_ok[OF assms(2) server_data_init_ok[OF assms(1)]] .
  then have m: "mset (map fst (srq r') @ hs @ ws) = mset [0..<?n]" and q: "slot_mrs r' = ?mrs"
    by (simp_all add: slots_ok_def kv_rdma_alloc_bulk_def add.assoc)
  have d: "distinct (map fst (srq r') @ hs @ ws)" using mset_eq_imp_distinct_iff[OF m] by simp
  have e: "set (map fst (srq r') @ hs @ ws) = {..<?n}" using mset_eq_setD[OF m] by (simp add: atLeast0LessThan)
  have mr: "sr_mr (requests r' ! i) = ?mrs ! i" if "i < ?n" for i
  proof -
    have "length (requests r') = ?n" using arg_cong[OF q, of length] by (simp add: slot_mrs_def kv_rdma_alloc_bulk_def)
    then show ?thesis using that arg_cong[OF q, of "\<lambda>xs. xs ! i"] by (simp add: slot_mrs_def)
  qed
  have g: "sge_addr g = mr_addr (sr_mr (requests r' ! i)) \<and>
      (sge_length g = ucast (mr_length (sr_mr (requests r' ! i))) \<or> sge_length g = ucast ?len)" if "(i, g) \<in> set (srq r')" for i g
  proof -
    have "i < ?n" using e that by force
    moreover have "sge_ok ?len ?mrs (i, g)" using ok that by (auto simp: slots_ok_def list_all_iff)
    ultimately show ?thesis using mr by (auto simp: sge_ok_def slot_sge_def)
  qed
  show ?thesis using d e g mr bulk_disjoint[OF assms(3)] by auto
qed

text \<open>A server with two slots and one connection on queue pair 7.\<close>

definition demo_conn :: "nat rdma_connection" where
  "demo_conn = \<lparr>is_server = True, c_qp = Some 7, c_handler = Some 1, c_connect = None, c_disconnect = None,
     c_mp = \<lparr>mp_buf = 0, mp_free = []\<rparr>, c_reqs = Map.empty\<rparr>"

definition demo_rdma :: "nat kv_rdma" where
  "demo_rdma = \<lparr>rd_ctx = True, has_server = True, rd_thread_num = 1, rd_thread_id = 0, con_req_num = 2, max_msg_sz = 100,
     conns = [3 \<mapsto> demo_conn], connections = [7 \<mapsto> 3], requests = [], srq = [], rd_init_cb = None, rd_ec = True,
     rd_cqs = [True], fini_thread_id = 0, fini_io_cnt = 0, fini_cb = None\<rparr>"

lemma slot_recv_respond:
  assumes "srq r = [(0, g), (1, h)]" and "conns r = [3 \<mapsto> demo_conn]" and "connections r = [7 \<mapsto> 3]" and "length (requests r) = 2"
  shows "\<exists>r'. slot_step\<^sup>*\<^sup>* (r, [], []) (r', [], [1])"
proof -
  define q where "q = (requests r ! 1)\<lparr>sr_conn := Some 3, sr_resp_rkey := 5, sr_header := \<lparr>rh_resp_addr = 9, rh_req_id = 40\<rparr>\<rparr>"
  define r1 where "r1 = r\<lparr>srq := [(0, g)], requests := (requests r)[1 := q]\<rparr>"
  have "on_recv_req True 1 7 50 5 \<lparr>rh_resp_addr = 9, rh_req_id = 40\<rparr> (r\<lparr>srq := remove1 (1, h) (srq r)\<rparr>) = Inr (r1, [Rd_handler 1 1 38])"
    using assms by (simp add: on_recv_req_def HEADER_SIZE_def demo_conn_def r1_def q_def Let_def)
  then have s1: "slot_step (r, [], []) (r1, [1], [])" using slot_recv[of 1 h r] assms(1) by simp
  have "kv_rdma_make_resp 1 0 10 r1 = Inr (r1, [Rd_write_resp 7 40 9 5 1])"
    using assms by (simp add: kv_rdma_make_resp_def slot_connection_def r1_def q_def demo_conn_def Let_def)
  then have "slot_step (r1, [1], []) (r1, [], [1])" using slot_respond[of 1 "[1]" 0 10 r1] by simp
  then show ?thesis using converse_rtranclp_into_rtranclp[of slot_step, OF s1] by blast
qed

lemma demo_slot_run: "\<exists>r'. slot_step\<^sup>*\<^sup>* (fst (server_data_init 4096 demo_rdma), [], []) (r', [], [1])"
proof -
  have u: "unat (con_req_num demo_rdma) = 2" "[0..<2] = [0, 1 :: nat]" by (simp_all add: demo_rdma_def upt_rec)
  have "\<exists>g h. srq (fst (server_data_init 4096 demo_rdma)) = [(0, g), (1, h)]" by (simp add: server_data_init_def Let_def u)
  moreover have "conns (fst (server_data_init 4096 demo_rdma)) = [3 \<mapsto> demo_conn]" "connections (fst (server_data_init 4096 demo_rdma)) = [7 \<mapsto> 3]"
    "length (requests (fst (server_data_init 4096 demo_rdma))) = 2"
    by (simp_all add: server_data_init_def Let_def kv_rdma_alloc_bulk_def u) (simp_all add: demo_rdma_def)
  ultimately show ?thesis using slot_recv_respond by blast
qed

theorem rdma_slots_conserved_witness:
  "\<exists>r'. slot_step\<^sup>*\<^sup>* (fst (server_data_init 4096 demo_rdma), [], []) (r', [], [1]) \<and>
     distinct (map fst (srq r') @ [] @ [1]) \<and> set (map fst (srq r') @ [] @ [1]) = {..<2}"
proof -
  obtain r' where r': "slot_step\<^sup>*\<^sup>* (fst (server_data_init 4096 demo_rdma), [], []) (r', [], [1])"
    using demo_slot_run by blast
  have "server_data_init 4096 demo_rdma = (fst (server_data_init 4096 demo_rdma), snd (server_data_init 4096 demo_rdma))" by simp
  moreover have "pool_fits 4096 (unat (con_req_num demo_rdma)) (bulk_size KV_RDMA_MR_SERVER (ucast (max_msg_sz demo_rdma)))"
    by (simp add: pool_fits_def demo_rdma_def bulk_size_def HEADER_SIZE_def)
  moreover have "unat (con_req_num demo_rdma) = 2" by (simp add: demo_rdma_def)
  ultimately have "distinct (map fst (srq r') @ [] @ [1]) \<and> set (map fst (srq r') @ [] @ [1]) = {..<2}"
    using rdma_slots_conserved[OF _ r', of 4096 demo_rdma] by (simp only:)
  then show ?thesis using r' by (intro exI[of _ r']) (rule conjI)
qed

text \<open>The bytes a posted receive lets the device write.\<close>

definition sge_range :: "ibv_sge \<Rightarrow> nat set" where
  "sge_range g = {unat (sge_addr g)..<unat (sge_addr g) + unat (sge_length g)}"

text \<open>
  C33. The receives a server posts at its start overlap: if the memory of all slots is smaller
  than 4 GB, the receive of a slot covers the regions of all later slots, and that of every
  slot but the first one runs past the end of the registered memory. A message longer than its
  slot is not refused by the device but received into the slots behind it.
\<close>

theorem rdma_initial_receives_overlap:
  assumes "server_data_init b r = (r0, evs)" and "n = unat (con_req_num r)"
    and "sz = bulk_size KV_RDMA_MR_SERVER (ucast (max_msg_sz r))" and "pool_fits b n sz"
    and "n * unat sz < 2 ^ 32" and "i < j" and "j < n" and "0 < unat sz"
  shows "mr_range (sr_mr (requests r0 ! j)) \<subseteq> sge_range (snd (srq r0 ! i)) \<and>
    \<not> sge_range (snd (srq r0 ! j)) \<subseteq> {unat b..<unat b + n * unat sz}"
proof -
  let ?mrs = "kv_rdma_alloc_bulk b KV_RDMA_MR_SERVER (ucast (max_msg_sz r)) n"
  have len: "unat (ucast (bulk_length KV_RDMA_MR_SERVER (ucast (max_msg_sz r)) n) :: u32) = n * unat sz"
    using assms(3,5) by (simp add: bulk_length_def unsigned_ucast_eq take_bit_eq_mod unat_word_ariths unat_of_nat mult.commute mod_mult_right_eq)
  have at: "unat (mr_addr (?mrs ! k)) = unat b + k * unat sz" "unat (mr_length (?mrs ! k)) = unat sz" if "k < n" for k
    using unat_mempool_ele(1)[OF assms(4) that] that assms(3)
    by (simp_all add: kv_rdma_alloc_bulk_def mempool_ele_def)
  have rq: "sr_mr (requests r0 ! k) = ?mrs ! k" "snd (srq r0 ! k) = \<lparr>sge_addr = mr_addr (?mrs ! k),
      sge_length = ucast (bulk_length KV_RDMA_MR_SERVER (ucast (max_msg_sz r)) n)\<rparr>" if "k < n" for k
    using assms(1,2) that by (auto simp: server_data_init_def zero_req_def kv_rdma_alloc_bulk_def Let_def)
  have rg: "sge_range (snd (srq r0 ! k)) = {unat b + k * unat sz..<unat b + k * unat sz + n * unat sz}" if "k < n" for k
    using rq(2)[OF that] at(1)[OF that] len by (simp add: sge_range_def)
  have mrj: "mr_range (sr_mr (requests r0 ! j)) = {unat b + j * unat sz..<unat b + j * unat sz + unat sz}"
    using rq(1)[OF assms(7)] at[OF assms(7)] by (simp add: mr_range_def)
  have "Suc j * unat sz \<le> n * unat sz" "i * unat sz \<le> j * unat sz" using assms(6,7) by (simp_all only: mult_le_mono1 Suc_le_eq less_imp_le)
  then have "mr_range (sr_mr (requests r0 ! j)) \<subseteq> sge_range (snd (srq r0 ! i))"
    unfolding mrj rg[OF less_trans[OF assms(6,7)]] by (auto simp: algebra_simps)
  moreover have "unat b + n * unat sz \<in> sge_range (snd (srq r0 ! j))"
  proof -
    have "j * unat sz \<le> n * unat sz" "0 < j * unat sz" using assms(6-8) by simp_all
    then show ?thesis unfolding rg[OF assms(7)] by simp
  qed
  ultimately show ?thesis by fastforce
qed

theorem rdma_initial_receives_overlap_witness:
  "mr_range (sr_mr (requests (fst (server_data_init 4096 demo_rdma)) ! 1)) \<subseteq> sge_range (snd (srq (fst (server_data_init 4096 demo_rdma)) ! 0))"
proof -
  have sz: "bulk_size KV_RDMA_MR_SERVER (ucast (max_msg_sz demo_rdma)) = 112" "unat (con_req_num demo_rdma) = 2"
    by (simp_all add: demo_rdma_def bulk_size_def HEADER_SIZE_def)
  have "server_data_init 4096 demo_rdma = (fst (server_data_init 4096 demo_rdma), snd (server_data_init 4096 demo_rdma))" by simp
  from rdma_initial_receives_overlap[OF this sz(2)[symmetric] sz(1)[symmetric], of 0 1] show ?thesis by (simp add: pool_fits_def)
qed

text \<open>
  C25. The response to a request reaches it: the id that a request carries is, when the server
  returns it as immediate data, turned back into the context of this request, whatever other
  requests were sent or answered in between, and its callback is called with its own buffers.
\<close>

theorem rdma_response_matches_request:
  assumes "kv_rdma_send_req pos 0 0 cid req req_sz resp resp_addr (Some c) r = Inr (r1, evs)"
    and "conns r cid = Some conn" and "client_pool pb (c_mp conn)"
  shows "\<exists>hdr e ctx. Rd_post_send cid req (ucast req_sz + HEADER_SIZE) hdr e \<in> set evs \<and>
    c_reqs (the (conns r1 cid)) e = Some ctx \<and>
    (\<forall>r2 conn2 ok. conns r2 cid = Some conn2 \<and> \<not> is_server conn2 \<and> mp_buf (c_mp conn2) = pb \<and> c_reqs conn2 e = Some ctx \<longrightarrow>
       on_recv_resp ok cid (rh_req_id hdr) r2 =
         Inr (r2\<lparr>conns := (conns r2)(cid \<mapsto> conn2\<lparr>c_mp := kv_mempool_put (c_mp conn2) e\<rparr>)\<rparr>, [Rd_client_cb c cid ok req resp]))"
proof -
  obtain mp e where g: "kv_mempool_get pos (c_mp conn) = (mp, Some e)"
    using assms(1,2) by (auto simp: kv_rdma_send_req_def res_simps split: prod.splits option.splits)
  have e: "e \<in> mempool_ele pb sizeof_client_req_ctx ` {..<CLIENT_REQ_NUM}" "mp_buf mp = pb"
    using mempool_get_mem[OF g] assms(3) by (auto simp: client_pool_def)
  have f: "pool_fits pb CLIENT_REQ_NUM sizeof_client_req_ctx" using assms(3) by (simp add: client_pool_def)
  let ?ctx = "\<lparr>cr_conn = cid, cr_cb = Some c, cr_req = req, cr_resp = resp\<rparr>"
  let ?hdr = "\<lparr>rh_resp_addr = (if resp_addr = 0 then mr_addr resp else resp_addr), rh_req_id = ucast (kv_mempool_get_id mp e)\<rparr>"
  have "Rd_post_send cid req (ucast req_sz + HEADER_SIZE) ?hdr e \<in> set evs \<and> c_reqs (the (conns r1 cid)) e = Some ?ctx"
    using assms(1,2) g by (auto simp: kv_rdma_send_req_def res_simps Let_def)
  moreover have "kv_mempool_get_ele mp2 (scast (rh_req_id ?hdr)) = e" if "mp_buf mp2 = pb" for mp2
    using request_id_roundtrip[OF f e that] by simp
  ultimately show ?thesis
    by (intro exI[of _ ?hdr] exI[of _ e] exI[of _ ?ctx]) (auto simp: on_recv_resp_def Let_def)
qed

theorem rdma_response_matches_request_witness:
  "\<exists>r1 evs hdr e.
     kv_rdma_send_req 2 0 0 3 \<lparr>mr_addr = 64, mr_length = 64\<rparr> 20 \<lparr>mr_addr = 256, mr_length = 64\<rparr> 0 (Some 8)
       (kv_rdma_connect 4096 None None 3 demo_rdma) = Inr (r1, evs) \<and>
     Rd_post_send 3 \<lparr>mr_addr = 64, mr_length = 64\<rparr> 32 hdr e \<in> set evs"
proof -
  let ?r = "kv_rdma_connect 4096 None None 3 demo_rdma"
  let ?mp = "kv_mempool_create 4096 CLIENT_REQ_NUM sizeof_client_req_ctx"
  obtain conn where conn: "conns ?r 3 = Some conn" "\<not> is_server conn" "c_mp conn = ?mp"
    by (auto simp: kv_rdma_connect_def)
  have pool: "client_pool 4096 (c_mp conn)"
    by (auto simp: client_pool_def conn create_free pool_fits_def CLIENT_REQ_NUM_def sizeof_client_req_ctx_def)
  obtain mp e where g: "kv_mempool_get 2 ?mp = (mp, Some e)"
    by (simp add: kv_mempool_get_def create_free CLIENT_REQ_NUM_def Let_def)
  obtain r1 evs where s: "kv_rdma_send_req 2 0 0 3 \<lparr>mr_addr = 64, mr_length = 64\<rparr> 20 \<lparr>mr_addr = 256, mr_length = 64\<rparr> 0 (Some 8) ?r
      = Inr (r1, evs)"
    using conn g by (simp add: kv_rdma_send_req_def Let_def)
  show ?thesis using rdma_response_matches_request[OF s conn(1) pool] s by (auto simp: HEADER_SIZE_def)
qed

section \<open>Teardown\<close>

fun done_events :: "nat \<Rightarrow> 'c kv_rdma \<Rightarrow> 'c rd_event list" where
  "done_events 0 r = []"
| "done_events (Suc k) r = (let (r', evs) = poller_unregister_done r in evs @ done_events k r')"

lemma done_events_countdown:
  assumes "fini_cb r = Some c" and "k \<le> unat (fini_io_cnt r)"
  shows "filter (\<lambda>e. case e of Rd_fini_cb _ _ \<Rightarrow> True | _ \<Rightarrow> False) (done_events k r) =
    (if k = unat (fini_io_cnt r) \<and> 0 < k then [Rd_fini_cb (fini_thread_id r) c] else [])"
  using assms
proof (induction k arbitrary: r)
  case 0
  then show ?case by simp
next
  case (Suc k)
  have u: "unat (fini_io_cnt r - 1) = unat (fini_io_cnt r) - 1" using Suc.prems(2) by (simp add: unat_sub word_le_nat_alt)
  show ?case
  proof (cases "fini_io_cnt r - 1 = 0")
    case True
    then have "unat (fini_io_cnt r) = 1" using u Suc.prems(2) by simp
    then show ?thesis using Suc.prems True by (simp add: poller_unregister_done_def Let_def)
  next
    case False
    have "0 < unat (fini_io_cnt r - 1)" using False by (simp add: unat_gt_0)
    then show ?thesis
      using Suc.IH[of "r\<lparr>fini_io_cnt := fini_io_cnt r - 1\<rparr>"] Suc.prems u False
      by (auto simp: poller_unregister_done_def Let_def)
  qed
qed

text \<open>
  The teardown tells its caller exactly once, on the thread that asked, and only after
  the connection poller and every completion poller have been unregistered.
\<close>

theorem rdma_fini_waits_for_pollers:
  assumes "kv_rdma_fini t c r = (r1, evs)" and "rd_thread_num r < 2 ^ 32 - 1"
    and "k \<le> length (filter (\<lambda>e. case e of Rd_send _ _ \<Rightarrow> True | _ \<Rightarrow> False) evs)"
  shows "filter (\<lambda>e. case e of Rd_fini_cb _ _ \<Rightarrow> True | _ \<Rightarrow> False) (done_events k r1) =
    (if k = (if rd_ctx r then rd_thread_num r + 1 else 1) then [Rd_fini_cb t c] else [])"
proof -
  have u: "unat (fini_io_cnt r1) = (if rd_ctx r then rd_thread_num r + 1 else 1)" "fini_cb r1 = Some c" "fini_thread_id r1 = t"
    using assms(1,2) by (auto simp: kv_rdma_fini_def unat_word_ariths unat_of_nat)
  have "filter (\<lambda>e. case e of Rd_send _ _ \<Rightarrow> True | _ \<Rightarrow> False) (map (\<lambda>i. Rd_send (x + i) (Cq_poller_unregister i)) ys)
      = map (\<lambda>i. Rd_send (x + i) (Cq_poller_unregister i) :: 'a rd_event) ys" for x ys
    by (induction ys) auto
  then have "k \<le> unat (fini_io_cnt r1)" using assms(1,3) u(1) by (auto simp: kv_rdma_fini_def)
  then show ?thesis using done_events_countdown[OF u(2)] u by auto
qed

theorem rdma_fini_waits_for_pollers_witness:
  "filter (\<lambda>e. case e of Rd_fini_cb _ _ \<Rightarrow> True | _ \<Rightarrow> False) (done_events 2 (fst (kv_rdma_fini 5 8 demo_rdma))) = [Rd_fini_cb 5 8]"
proof -
  have d: "rd_ctx demo_rdma" "rd_thread_num demo_rdma = 1" by (simp_all add: demo_rdma_def)
  have e: "snd (kv_rdma_fini 5 8 demo_rdma) = [Rd_send 0 Cm_poller_unregister, Rd_send 0 (Cq_poller_unregister 0)]"
    by (simp add: kv_rdma_fini_def demo_rdma_def)
  have "kv_rdma_fini 5 8 demo_rdma = (fst (kv_rdma_fini 5 8 demo_rdma), snd (kv_rdma_fini 5 8 demo_rdma))" by simp
  then show ?thesis using rdma_fini_waits_for_pollers[of 5 8 demo_rdma _ _ 2] d e by simp
qed

end
