(* ===== verification/Kv_Server.thy ===== *)
theory Kv_Server
  imports Kv_Copy Kv_Ring
begin

unbundle bit_operations_syntax

text \<open>
  \<open>app/ring_server/kv_server.c\<close>: the server. A request that the ring has accepted gets an
  I/O context from a pool and is sent to the worker of its data store (\<open>handler\<close>), the
  worker starts the operation (\<open>io_start\<close>), its end decides whether the request goes on to
  the next replica (\<open>io_fini\<close>), and the answer of the chain commits the operation and is
  sent back (\<open>forward_cb\<close>). I/O contexts are named by numbers; a data store is named by
  \<open>worker_id + storage_id * MAX_SSD_WORKERS\<close>, the inverse of the split in \<open>handler\<close>.
\<close>

section \<open>State\<close>

definition MAX_SSD_WORKERS :: nat where "MAX_SSD_WORKERS = 4"
definition MAX_STORAGE_STRIDE :: nat where "MAX_STORAGE_STRIDE = 8"
definition SET_CTX_BUFFER_SIZE :: nat where "SET_CTX_BUFFER_SIZE = 128"

record server_opt =
  ssd_num :: u32
  worker_num :: u32
  so_thread_num :: u32
  concurrent_io_num :: u32
  copy_concurrency :: u32
  set_batch :: u32
  vid_per_ssd :: u32
  so_ring_num :: u32
  ours :: bool

text \<open>A slot of a set buffer: the request and the two lengths taken from its message.\<close>

type_synonym set_slot = "nat \<times> u8 \<times> u32"

record io_ctx =
  io_req_h :: nat
  io_msg :: kv_msg
  io_addr :: u64
  io_worker_id :: nat
  io_storage_id :: nat
  io_server_thread :: nat
  io_fwd_ctx :: "forward_ctx option"
  has_next_node :: bool
  need_forward :: bool
  in_copy_pool :: bool
  io_vnode_type :: vnode_type
  io_ds_ctx :: nat
  io_msg_type :: u8
  io_copy_store :: nat
  io_copy_range :: nat
  io_copy_val_len :: u32
  io_io :: "nat list"

text \<open>Messages between the threads of the server.\<close>

datatype sv_task =
  Io_start nat
| Send_response nat
| Buffered_send_response nat
| On_copy_msg kv_ring_copy_info bool
| Copy_fini kv_ring_copy_info
| Buffer_poller_impl nat
| Ring_init
| Worker_stop nat
| Thread_stop

datatype sv_event =
  Sv_send nat sv_task
| Sv_ring_forward "forward_ctx option" "kv_msg option" bool nat
| Sv_make_resp nat kv_msg u32
| Sv_ds nat "nat ds_event list"
| Sv_copy nat "kv_ring_copy_info copy_event list"
| Sv_invalidate_key "u8 list"
| Sv_put_key "u8 list"
| Sv_stop_copy kv_ring_copy_info

record kv_server =
  sv_opt :: server_opt
  sv_stores :: "nat \<Rightarrow> nat kv_data_store"
  sv_copies :: "nat \<Rightarrow> kv_ring_copy_info copy_ctx"
  sv_set_buffers :: "nat \<Rightarrow> set_slot list"
  sv_ios :: "nat \<Rightarrow> io_ctx"
  sv_io_pool :: "nat list"
  sv_copy_pool :: "nat list"
  sv_io_cnt :: u32

type_synonym sv_result = "(kv_server \<times> sv_event list) res"

definition store_index :: "nat \<Rightarrow> nat \<Rightarrow> nat" where
  "store_index worker storage = worker + storage * MAX_SSD_WORKERS"

definition io_store :: "io_ctx \<Rightarrow> nat" where
  "io_store io = store_index (io_worker_id io) (io_storage_id io)"

definition set_io :: "nat \<Rightarrow> io_ctx \<Rightarrow> kv_server \<Rightarrow> kv_server" where
  "set_io i io s = s\<lparr>sv_ios := (sv_ios s)(i := io)\<rparr>"

definition set_store :: "nat \<Rightarrow> nat kv_data_store \<Rightarrow> kv_server \<Rightarrow> kv_server" where
  "set_store d ds s = s\<lparr>sv_stores := (sv_stores s)(d := ds)\<rparr>"

definition value_addr :: "io_ctx \<Rightarrow> u64" where
  "value_addr io = io_addr io + ucast sizeof_kv_msg + ucast (KV_MSG_ALIGN (key_len (io_msg io)))"

section \<open>Responses\<close>

text \<open>\<open>ds_queue.q_info[io->worker_id]\<close>: the load reported is that of the store numbered like the worker.\<close>

definition reported_q_info :: "kv_server \<Rightarrow> nat \<Rightarrow> kv_ds_q_info" where
  "reported_q_info s w = ds_q_info (sv_stores s w)"

definition send_response :: "nat \<Rightarrow> kv_server \<Rightarrow> kv_server \<times> sv_event list" where
  "send_response i s =
     (let io = sv_ios s i; m = (io_msg io)\<lparr>msg_q_info := reported_q_info s (io_worker_id io)\<rparr>
      in ((set_io i (io\<lparr>io_msg := m\<rparr>) s)\<lparr>sv_io_pool := sv_io_pool s @ [i]\<rparr>,
          [Sv_make_resp (io_req_h io) m (KV_MSG_SIZE m)]))"

definition buffered_response :: "nat \<Rightarrow> kv_server \<Rightarrow> kv_server \<times> sv_event list" where
  "buffered_response j s =
     (let io = sv_ios s j;
          m = (io_msg io)\<lparr>value_len := 0, msg_type := KV_MSG_OK, msg_q_info := reported_q_info s (io_worker_id io)\<rparr>
      in ((set_io j (io\<lparr>io_msg := m\<rparr>) s)\<lparr>sv_io_pool := sv_io_pool s @ [j]\<rparr>,
          [Sv_invalidate_key (KV_MSG_KEY (io_msg io)), Sv_make_resp (io_req_h io) m (KV_MSG_SIZE m)]))"

fun respond_all :: "nat list \<Rightarrow> kv_server \<Rightarrow> kv_server \<times> sv_event list" where
  "respond_all [] s = (s, [])"
| "respond_all (j # js) s =
     (let (s1, evs) = buffered_response j s; (s2, evs') = respond_all js s1 in (s2, evs @ evs'))"

definition buffered_send_response :: "nat \<Rightarrow> kv_server \<Rightarrow> kv_server \<times> sv_event list" where
  "buffered_send_response i s = respond_all (io_io (sv_ios s i)) s"

section \<open>The end of an operation\<close>

text \<open>
  \<open>forward_cb\<close> of the server, called when the rest of the chain has answered (the answer is
  in the message of the request) or when there is no next node.
\<close>

definition copy_forward_done :: "u64 \<Rightarrow> u64 \<Rightarrow> nat \<Rightarrow> kv_server \<Rightarrow> sv_result" where
  "copy_forward_done vbuf buf i s =
     (let io = sv_ios s i; m = io_msg io in
      if msg_type m = KV_MSG_OK then
        let d = io_copy_store io; ds = sv_stores s d in
        rbind (kv_data_store_copy_commit (ds_value_log ds) vbuf buf (log_bucket_num ds) (io_copy_range io) (sv_copies s d)) (\<lambda>(c, evs).
          Inr (s\<lparr>sv_copies := (sv_copies s)(d := c), sv_copy_pool := sv_copy_pool s @ [i]\<rparr>, [Sv_copy d evs]))
      else if msg_type m = KV_MSG_OUTDATED then
        let m' = m\<lparr>msg_type := KV_MSG_SET, value_len := io_copy_val_len io\<rparr>; io' = io\<lparr>io_msg := m'\<rparr>
        in Inr (set_io i io' s, [Sv_ring_forward (io_fwd_ctx io) (Some m') True i])
      else Inl Exit_fail)"

definition forward_commit :: "io_ctx \<Rightarrow> nat kv_data_store \<Rightarrow> (nat kv_data_store \<times> nat ds_event list) res" where
  "forward_commit io ds =
     (let ok = msg_type (io_msg io) = KV_MSG_OK in
      if io_msg_type io = KV_MSG_SET then kv_data_store_set_commit (io_ds_ctx io) ok ds
      else if io_msg_type io = KV_MSG_BUFFERED_SET then kv_data_store_set_buffered_commit (io_ds_ctx io) ok ds
      else if io_msg_type io = KV_MSG_DEL then kv_data_store_del_commit (io_ds_ctx io) ok ds
      else Inr (ds, []))"

definition marks_dirty :: "io_ctx \<Rightarrow> bool" where
  "marks_dirty io \<longleftrightarrow> io_vnode_type io = KV_RING_VNODE \<and> (io_msg_type io = KV_MSG_SET \<or> io_msg_type io = KV_MSG_DEL)"

definition server_forward_cb :: "u64 \<Rightarrow> u64 \<Rightarrow> nat \<Rightarrow> kv_server \<Rightarrow> sv_result" where
  "server_forward_cb vbuf buf i s =
     (let io = sv_ios s i; d = io_store io in
      if in_copy_pool io then copy_forward_done vbuf buf i s
      else rbind (if marks_dirty io then kv_data_store_clean (sv_stores s d) (KV_MSG_KEY (io_msg io))
                  else Inr (sv_stores s d)) (\<lambda>ds1.
           rbind (forward_commit io ds1) (\<lambda>(ds2, evs).
             Inr (set_store d ds2 s,
                  [Sv_ds d evs,
                   Sv_send (io_server_thread io)
                     (if io_msg_type io = KV_MSG_BUFFERED_SET then Buffered_send_response i else Send_response i)]))))"

text \<open>
  \<open>io_fini\<close>: an error is not forwarded; a write goes on from every replica before the tail,
  and from the tail to the node that is being filled if its bucket has been copied.
\<close>

definition is_chain_write :: "u8 \<Rightarrow> bool" where
  "is_chain_write t \<longleftrightarrow> t = KV_MSG_SET \<or> t = KV_MSG_DEL"

definition fini_forward :: "kv_server \<Rightarrow> io_ctx \<Rightarrow> bool" where
  "fini_forward s io =
     (let d = io_store io in
      if is_chain_write (io_msg_type io) then
        (if io_vnode_type io = KV_RING_TAIL \<and> has_next_node io
         then kv_data_store_copy_forward (sv_stores s d) (sv_copies s d) (KV_MSG_KEY (io_msg io))
         else if io_vnode_type io = KV_RING_VNODE then True else need_forward io)
      else need_forward io)"

definition io_fini :: "bool \<Rightarrow> nat \<Rightarrow> kv_server \<Rightarrow> sv_result" where
  "io_fini success i s =
     (let io = sv_ios s i; m = io_msg io in
      if in_copy_pool io \<and> \<not> success then Inl Exit_fail
      else if \<not> success then
        Inr (set_io i (io\<lparr>io_msg := m\<lparr>msg_type := KV_MSG_ERR\<rparr>\<rparr>) s, [Sv_ring_forward (io_fwd_ctx io) None False i])
      else
        let nf = fini_forward s io;
            inval = (if is_chain_write (io_msg_type io) \<and> ours (sv_opt s) then [Sv_invalidate_key (KV_MSG_KEY m)] else []);
            m1 = (if nf then m
                  else (if msg_type m = KV_MSG_SET then m\<lparr>value_len := 0\<rparr> else m)\<lparr>msg_type := KV_MSG_OK\<rparr>)
        in Inr (set_io i (io\<lparr>need_forward := nf, io_msg := m1\<rparr>) s,
                inval @ [Sv_ring_forward (io_fwd_ctx io) (if nf then Some m1 else None) (in_copy_pool io) i]))"

section \<open>The start of an operation\<close>

definition start_write :: "nat \<Rightarrow> io_ctx \<Rightarrow> kv_server \<Rightarrow> sv_result" where
  "start_write i io s =
     (let m = io_msg io; d = io_store io; k = KV_MSG_KEY m in
      rbind (if io_vnode_type io = KV_RING_VNODE then kv_data_store_dirty (sv_stores s d) k else Inr (sv_stores s d)) (\<lambda>ds.
        if msg_type m = KV_MSG_SET then
          let (ds', c, evs) = kv_data_store_set ds k (value_addr io) (KV_MSG_VALUE m) (value_len m) i
          in Inr (set_io i (io\<lparr>io_ds_ctx := c\<rparr>) (set_store d ds' s), [Sv_ds d evs])
        else
          rbind (c_assert (value_len m = 0)) (\<lambda>_.
            let (ds', c, evs) = kv_data_store_delete ds k i
            in Inr (set_io i (io\<lparr>io_ds_ctx := c\<rparr>) (set_store d ds' s), [Sv_ds d evs]))))"

text \<open>The keys and values of a set buffer are read through the messages of its requests.\<close>

definition slot_key :: "kv_server \<Rightarrow> set_slot \<Rightarrow> u8 list" where
  "slot_key s = (\<lambda>(j, kl, vl). take (unat kl) (data (io_msg (sv_ios s j))))"

definition slot_value :: "kv_server \<Rightarrow> set_slot \<Rightarrow> u8 list" where
  "slot_value s = (\<lambda>(j, kl, vl). take (unat vl) (drop (unat (KV_MSG_ALIGN kl)) (data (io_msg (sv_ios s j)))))"

definition flush_set_buffer :: "nat \<Rightarrow> nat \<Rightarrow> kv_server \<Rightarrow> sv_result" where
  "flush_set_buffer i d s =
     (let slots = sv_set_buffers s d; io = sv_ios s i in
      rbind (kv_data_store_buffered_set (sv_stores s d) (map (slot_key s) slots) (map (slot_value s) slots)
               (map (\<lambda>(j, kl, vl). vl) slots) i) (\<lambda>(ds', c, evs).
        Inr ((set_io i (io\<lparr>io_ds_ctx := c, io_io := map fst slots\<rparr>) (set_store d ds' s))
               \<lparr>sv_set_buffers := (sv_set_buffers s)(d := [])\<rparr>, [Sv_ds d evs])))"

text \<open>
  The arrays of a set buffer have \<open>SET_CTX_BUFFER_SIZE\<close> places; the batch size of the command line
  is not compared with it, and a store past the last place is an access out of bounds.
\<close>

definition start_buffered_set :: "nat \<Rightarrow> io_ctx \<Rightarrow> kv_server \<Rightarrow> sv_result" where
  "start_buffered_set i io s =
     (let d = io_store io; m = io_msg io; slots = sv_set_buffers s d; n = unat (set_batch (sv_opt s)) in
      rbind (c_assert (length slots < n)) (\<lambda>_.
        if SET_CTX_BUFFER_SIZE \<le> length slots then Inl Out_of_bounds
        else
        let slots' = slots @ [(i, key_len m, value_len m)];
            s' = s\<lparr>sv_set_buffers := (sv_set_buffers s)(d := slots')\<rparr>
        in if length slots' = n then flush_set_buffer i d s' else Inr (s', [])))"

text \<open>
  The bucket meta as the five bytes of its packed struct. The assertion behind it compares
  the length with a macro that \<open>kv_server.c\<close> does not include; it is not modelled.
\<close>

definition meta_bytes :: "kv_bucket_meta \<Rightarrow> u8 list" where
  "meta_bytes d = m_chain_length d # nat_to_le_bytes 4 (unat (m_bucket_offset d))"

text \<open>\<open>ret\<close> is the value of \<open>packed_server_put_key\<close>, the call of the shared cache.\<close>

definition cache_put :: "kv_server \<Rightarrow> int \<Rightarrow> kv_msg \<Rightarrow> kv_msg \<times> sv_event list" where
  "cache_put s ret m =
     (if ours (sv_opt s) then
        (if ret \<ge> 0 then m\<lparr>put_key_ok := 1, slot_id := word_of_int ret\<rparr> else m\<lparr>put_key_ok := 0\<rparr>,
         [Sv_put_key (KV_MSG_KEY m)])
      else (m, []))"

definition start_meta_get :: "int \<Rightarrow> nat \<Rightarrow> io_ctx \<Rightarrow> kv_server \<Rightarrow> sv_result" where
  "start_meta_get ret i io s =
     (let d = io_store io; m = io_msg io; ds = sv_stores s d;
          meta = kv_bucket_meta_get (bl_meta (ds_bucket_log ds)) (kv_data_store_bucket_id ds (KV_MSG_KEY m));
          m1 = put_value (meta_bytes meta) m;
          (m2, evs) = cache_put s ret m1;
          m3 = (if ours (sv_opt s) then m2\<lparr>msg_ds_id := word_of_nat d\<rparr> else m2)
      in rbind (io_fini True i (set_io i (io\<lparr>io_msg := m3\<rparr>) s)) (\<lambda>(s', evs'). Inr (s', evs @ evs')))"

definition start_get :: "int \<Rightarrow> nat \<Rightarrow> io_ctx \<Rightarrow> kv_server \<Rightarrow> sv_result" where
  "start_get ret i io s =
     (let d = io_store io; m = io_msg io; k = KV_MSG_KEY m in
      rbind (kv_data_store_is_dirty (sv_stores s d) k) (\<lambda>dirty.
        if dirty \<and> io_vnode_type io = KV_RING_VNODE then io_fini True i (set_io i (io\<lparr>need_forward := True\<rparr>) s)
        else
          let (m1, evs) = cache_put s ret m;
              (ds', _, devs) = kv_data_store_get (sv_stores s d) k (value_addr io) None i
          in Inr (set_io i (io\<lparr>io_msg := m1\<rparr>) (set_store d ds' s), evs @ [Sv_ds d devs])))"

definition io_start :: "int \<Rightarrow> nat \<Rightarrow> kv_server \<Rightarrow> sv_result" where
  "io_start ret i s0 =
     (let io = (sv_ios s0 i)\<lparr>need_forward := False\<rparr>; s = set_io i io s0; t = msg_type (io_msg io) in
      if t = KV_MSG_DEL \<or> t = KV_MSG_SET then start_write i io s
      else if t = KV_MSG_BUFFERED_SET then start_buffered_set i io s
      else if t = KV_MSG_META_GET then start_meta_get ret i io s
      else if t = KV_MSG_GET then start_get ret i io s
      else if t = KV_MSG_TEST then io_fini True i s
      else Inl Assert_fail)"

section \<open>Requests and copies\<close>

text \<open>\<open>handler\<close>, the callback of the ring; \<open>addr\<close> is the address of the request buffer.\<close>

definition handler :: "nat \<Rightarrow> nat \<Rightarrow> kv_msg \<Rightarrow> u64 \<Rightarrow> forward_ctx \<Rightarrow> bool \<Rightarrow> nat \<Rightarrow> vnode_type \<Rightarrow> kv_server \<Rightarrow> sv_result" where
  "handler thread_id req_h m addr fwd nxt ds_id vt s =
     (case sv_io_pool s of
        [] \<Rightarrow> Inl Assert_fail
      | i # rest \<Rightarrow>
          let w = ds_id mod MAX_SSD_WORKERS;
              io = (sv_ios s i)\<lparr>io_req_h := req_h, io_msg := m, io_addr := addr, io_worker_id := w,
                     io_storage_id := ds_id div MAX_SSD_WORKERS, io_server_thread := thread_id,
                     io_fwd_ctx := Some fwd, has_next_node := nxt, in_copy_pool := False,
                     io_vnode_type := vt, io_msg_type := msg_type m\<rparr>
          in Inr ((set_io i io s)\<lparr>sv_io_pool := rest\<rparr>, [Sv_send w (Io_start i)]))"

text \<open>
  \<open>copy_get_buf\<close>: a context of the copy pool takes an item of range \<open>r\<close> of store \<open>d\<close>. \<open>rnd\<close> is the random
  number that picks the thread; the pool of the code is not checked for being empty.
\<close>

definition copy_get_buf :: "nat \<Rightarrow> nat \<Rightarrow> nat \<Rightarrow> u8 list \<Rightarrow> nat \<Rightarrow> u32 \<Rightarrow> kv_server \<Rightarrow> (kv_server \<times> nat) res" where
  "copy_get_buf d thread_index rnd k r val_len s =
     (case sv_copy_pool s of
        [] \<Rightarrow> Inl Null_deref
      | i # rest \<Rightarrow>
          let io = sv_ios s i;
              m = (put_key k (io_msg io))\<lparr>msg_type := KV_MSG_SET, value_len := val_len\<rparr>;
              io' = io\<lparr>io_req_h := 0, io_msg := m, io_worker_id := thread_index,
                      io_server_thread := unat (worker_num (sv_opt s)) + rnd mod unat (so_thread_num (sv_opt s)),
                      io_fwd_ctx := None, has_next_node := False, need_forward := True, in_copy_pool := True,
                      io_copy_store := d, io_copy_range := r, io_copy_val_len := val_len\<rparr>
          in Inr ((set_io i io' s)\<lparr>sv_copy_pool := rest\<rparr>, i))"

definition ring_copy_cb :: "bool \<Rightarrow> kv_ring_copy_info \<Rightarrow> sv_event list" where
  "ring_copy_cb is_start cinfo = [Sv_send (unat (ci_ds_id cinfo) mod MAX_SSD_WORKERS) (On_copy_msg cinfo is_start)]"

text \<open>A key of the ring as the eight bytes the store takes it from; \<open>r\<close> names the new range.\<close>

definition on_copy_msg :: "u64 \<Rightarrow> u64 \<Rightarrow> nat \<Rightarrow> kv_ring_copy_info \<Rightarrow> bool \<Rightarrow> kv_server \<Rightarrow> sv_result" where
  "on_copy_msg vbuf buf r cinfo is_start s =
     (let ds_id = unat (ci_ds_id cinfo);
          d = store_index (ds_id mod MAX_SSD_WORKERS) (ds_id div MAX_SSD_WORKERS);
          k1 = store_u64 (ci_start cinfo); k2 = store_u64 (ci_end cinfo)
      in if is_start then
           rbind (kv_data_store_copy_add_key_range (sv_stores s d) vbuf buf k1 k2 cinfo r (sv_copies s d)) (\<lambda>(c, evs).
             Inr (s\<lparr>sv_copies := (sv_copies s)(d := c)\<rparr>, [Sv_copy d evs]))
         else
           rbind (kv_data_store_copy_del_key_range (sv_stores s d) k1 k2 (ci_del cinfo) (sv_copies s d)) (\<lambda>(ds, c).
             Inr ((set_store d ds s)\<lparr>sv_copies := (sv_copies s)(d := c)\<rparr>, [])))"

definition on_copy_fini :: "bool \<Rightarrow> kv_ring_copy_info \<Rightarrow> kv_server \<Rightarrow> sv_result" where
  "on_copy_fini success cinfo s =
     rbind (c_assert success) (\<lambda>_. Inr (s, [Sv_send (unat (worker_num (sv_opt s))) (Copy_fini cinfo)]))"

definition copy_fini :: "kv_ring_copy_info \<Rightarrow> sv_event list" where
  "copy_fini cinfo = [Sv_stop_copy cinfo]"

section \<open>The buffer poller\<close>

text \<open>\<open>expired d\<close> holds when the buffer of store \<open>d\<close> has not been used for a millisecond.\<close>

definition flush_if_expired :: "(nat \<Rightarrow> bool) \<Rightarrow> nat \<Rightarrow> nat \<Rightarrow> kv_server \<Rightarrow> sv_result" where
  "flush_if_expired expired w st s =
     (let d = store_index w st; slots = sv_set_buffers s d in
      if expired d \<and> slots \<noteq> [] then
        let i = fst (last slots) in
        rbind (c_assert (io_worker_id (sv_ios s i) = w)) (\<lambda>_. flush_set_buffer i d s)
      else Inr (s, []))"

fun flush_loop :: "(nat \<Rightarrow> bool) \<Rightarrow> nat \<Rightarrow> nat list \<Rightarrow> kv_server \<Rightarrow> sv_result" where
  "flush_loop expired w [] s = Inr (s, [])"
| "flush_loop expired w (st # sts) s =
     rbind (flush_if_expired expired w st s) (\<lambda>(s1, evs).
     rbind (flush_loop expired w sts s1) (\<lambda>(s2, evs'). Inr (s2, evs @ evs')))"

definition buffer_poller_impl :: "(nat \<Rightarrow> bool) \<Rightarrow> nat \<Rightarrow> kv_server \<Rightarrow> sv_result" where
  "buffer_poller_impl expired w s = flush_loop expired w [0..<MAX_STORAGE_STRIDE] s"

definition buffer_poller :: "kv_server \<Rightarrow> sv_event list" where
  "buffer_poller s = map (\<lambda>w. Sv_send w (Buffer_poller_impl w)) [0..<unat (worker_num (sv_opt s))]"

section \<open>Start and stop\<close>

definition WORKER_INDEX :: "nat \<Rightarrow> nat \<Rightarrow> nat" where
  "WORKER_INDEX w i = i * MAX_SSD_WORKERS + w"

text \<open>The storages of a worker: the loop stops at the first index past the SSDs.\<close>

definition worker_storages :: "u32 \<Rightarrow> nat \<Rightarrow> nat list" where
  "worker_storages ssds w = takeWhile (\<lambda>i. WORKER_INDEX w i < unat ssds) [0..<MAX_STORAGE_STRIDE]"

text \<open>\<open>mk d\<close> stands for \<open>kv_storage_init\<close> and \<open>kv_data_store_init\<close> of the store with index \<open>d\<close>.\<close>

fun init_stores :: "(nat \<Rightarrow> nat kv_data_store res) \<Rightarrow> nat \<Rightarrow> nat list \<Rightarrow> kv_server \<Rightarrow> kv_server res" where
  "init_stores mk w [] s = Inr s"
| "init_stores mk w (i # rest) s =
     rbind (mk (WORKER_INDEX w i)) (\<lambda>ds.
       let d = store_index w i;
           c = kv_data_store_copy_init (copy_concurrency (sv_opt s) div ssd_num (sv_opt s))
       in init_stores mk w rest ((set_store d ds s)\<lparr>sv_copies := (sv_copies s)(d := c)\<rparr>))"

definition worker_init :: "(nat \<Rightarrow> nat kv_data_store res) \<Rightarrow> nat \<Rightarrow> kv_server \<Rightarrow> sv_result" where
  "worker_init mk w s =
     rbind (init_stores mk w (worker_storages (ssd_num (sv_opt s)) w) s) (\<lambda>s'.
       Inr (s', [Sv_send (unat (worker_num (sv_opt s))) Ring_init]))"

text \<open>\<open>ring_init\<close> of the server: the last worker to report starts the ring; \<open>True\<close> if it does.\<close>

definition server_ring_init :: "kv_server \<Rightarrow> kv_server \<times> bool" where
  "server_ring_init s =
     (let c = sv_io_cnt s - 1; s1 = s\<lparr>sv_io_cnt := c\<rparr> in
      if c \<noteq> 0 then (s1, False)
      else (s1\<lparr>sv_io_pool := [0..<unat (concurrent_io_num (sv_opt s))]\<rparr>, True))"

text \<open>The copy pool gets its contexts behind those of the I/O pool, one registered buffer each.\<close>

definition ring_init_cb :: "kv_server \<Rightarrow> kv_server" where
  "ring_init_cb s =
     (let n = unat (concurrent_io_num (sv_opt s)); c = unat (copy_concurrency (sv_opt s) * 2)
      in s\<lparr>sv_copy_pool := [n..<n + c]\<rparr>)"

definition worker_stop :: "nat \<Rightarrow> kv_server \<Rightarrow> kv_server" where
  "worker_stop w s =
     fold (\<lambda>i s. set_store (store_index w i) (kv_data_store_fini (sv_stores s (store_index w i))) s)
       (worker_storages (ssd_num (sv_opt s)) w) s"

definition ring_fini_cb :: "kv_server \<Rightarrow> sv_event list" where
  "ring_fini_cb s =
     map (\<lambda>i. Sv_send i (Worker_stop i)) [0..<unat (worker_num (sv_opt s))] @
     map (\<lambda>i. Sv_send (unat (worker_num (sv_opt s)) + i) Thread_stop) [0..<unat (so_thread_num (sv_opt s))]"

definition main_log_bucket_num :: "nat \<Rightarrow> nat res" where
  "main_log_bucket_num n = rbind (shrink_log_bucket_num n 48) (\<lambda>k. Inr (k + 1))"

definition main_opt :: "server_opt \<Rightarrow> server_opt" where
  "main_opt op = op\<lparr>worker_num := word_of_nat MAX_SSD_WORKERS, so_ring_num := vid_per_ssd op * ssd_num op\<rparr>"

end
