(* ===== verification/Segment_Map.thy ===== *)
theory Segment_Map
  imports Kv_Data_Store "HOL-Library.Multiset"
begin

text \<open>
  A segment is a map from keys to value places. The items of a chain are seen as a multiset
  of live items; searching, updating, creating, deleting and the moves of \<open>fill_the_hole\<close>
  are described by what they do to it, and the interface of a map follows.
\<close>

section \<open>Rows of items\<close>

definition rows :: "kv_bucket_segment \<Rightarrow> kv_item list list" where
  "rows seg = map items (seg_buckets seg)"

definition rect :: "kv_item list list \<Rightarrow> bool" where
  "rect rs \<longleftrightarrow> (\<forall>r \<in> set rs. length r = KV_ITEM_PER_BUCKET)"

definition valid_pos :: "kv_item list list \<Rightarrow> item_pos \<Rightarrow> bool" where
  "valid_pos rs p \<longleftrightarrow> fst p < length rs \<and> snd p < length (rs ! fst p)"

definition at_pos :: "kv_item list list \<Rightarrow> item_pos \<Rightarrow> kv_item" where
  "at_pos rs p = rs ! fst p ! snd p"

definition upd_pos :: "kv_item list list \<Rightarrow> item_pos \<Rightarrow> kv_item \<Rightarrow> kv_item list list" where
  "upd_pos rs p it = rs[fst p := (rs ! fst p)[snd p := it]]"

lemma locate_in_Some:
  "locate_in P its i = Some j \<Longrightarrow> i \<le> j \<and> j < i + length its \<and> P (its ! (j - i))"
proof (induction its arbitrary: i)
  case (Cons a its)
  then show ?case by (fastforce split: if_splits simp: nth_Cons' Suc_diff_le)
qed simp

lemma locate_in_None: "locate_in P its i = None \<longleftrightarrow> (\<forall>it \<in> set its. \<not> P it)"
  by (induction its arbitrary: i) auto

lemma locate_Some:
  "locate P bs k = Some p \<Longrightarrow> k \<le> fst p \<and> fst p < k + length bs \<and>
     snd p < length (items (bs ! (fst p - k))) \<and> P (items (bs ! (fst p - k)) ! snd p)"
proof (induction bs arbitrary: k)
  case (Cons b bs)
  show ?case
  proof (cases "locate_in P (items b) 0")
    case None
    then have l: "locate P bs (Suc k) = Some p" using Cons.prems by simp
    from Cons.IH[OF this] have "k < fst p" "fst p - k = Suc (fst p - Suc k)" by auto
    then show ?thesis using Cons.IH[OF l] by auto
  next
    case (Some i)
    then show ?thesis using Cons.prems locate_in_Some[OF Some] by auto
  qed
qed simp

lemma locate_None: "locate P bs k = None \<longleftrightarrow> (\<forall>b \<in> set bs. \<forall>it \<in> set (items b). \<not> P it)"
proof (induction bs arbitrary: k)
  case (Cons b bs)
  then show ?case using locate_in_None[of P "items b" 0] by (cases "locate_in P (items b) 0") auto
qed simp

lemma rows_Some:
  assumes "locate P (seg_buckets seg) 0 = Some p"
  shows "valid_pos (rows seg) p \<and> P (at_pos (rows seg) p)"
  using locate_Some[OF assms] by (auto simp: valid_pos_def at_pos_def rows_def)

lemma rows_None: "locate P (seg_buckets seg) 0 = None \<longleftrightarrow> (\<forall>it \<in> set (concat (rows seg)). \<not> P it)"
  by (auto simp: locate_None rows_def)

lemma seg_item_rows: "fst p < length (rows seg) \<Longrightarrow> seg_item seg p = at_pos (rows seg) p"
  by (simp add: seg_item_def at_pos_def rows_def)

lemma concat_update_nth:
  assumes "k < length (concat (map ce_buckets ces))" and "\<And>b. g b = f b"
  shows "concat (map ce_buckets (update_nth_bucket ces k f)) =
    (concat (map ce_buckets ces))[k := g (concat (map ce_buckets ces) ! k)]"
  using assms(1)
proof (induction ces arbitrary: k)
  case (Cons ce ces)
  then show ?case using assms(2) by (auto simp: list_update_append nth_append)
qed simp

lemma rows_update:
  assumes "fst p < length (rows seg)"
  shows "rows (seg_update_item seg p f) = upd_pos (rows seg) p (f (at_pos (rows seg) p))"
proof -
  let ?g = "\<lambda>b. b\<lparr>items := (items b)[snd p := f (items b ! snd p)]\<rparr>"
  have l: "fst p < length (seg_buckets seg)" using assms by (simp add: rows_def)
  have "seg_buckets (seg_update_item seg p f) = (seg_buckets seg)[fst p := ?g (seg_buckets seg ! fst p)]"
    using concat_update_nth[of "fst p" "seg_chain seg" ?g ?g] l by (simp add: seg_update_item_def seg_buckets_def)
  then show ?thesis using l by (simp add: rows_def upd_pos_def at_pos_def map_update)
qed

lemma update_nth_bucket_lengths:
  "map (\<lambda>ce. length (ce_buckets ce)) (update_nth_bucket ces k f) = map (\<lambda>ce. length (ce_buckets ce)) ces"
  by (induction ces arbitrary: k) auto

lemma ne_by_lengths: "(\<forall>ce \<in> set ces. ce_buckets ce \<noteq> []) \<longleftrightarrow> (0 :: nat) \<notin> set (map (\<lambda>ce. length (ce_buckets ce)) ces)"
  by auto

lemma seg_update_wf:
  assumes "seg_wf seg" and "fst p < length (rows seg)"
  shows "seg_wf (seg_update_item seg p f)" and "seg_bucket_id (seg_update_item seg p f) = seg_bucket_id seg"
    and "seg_chain (seg_update_item seg p f) \<noteq> []" and "seg_chain seg \<noteq> []"
proof -
  let ?g = "\<lambda>b. b\<lparr>items := (items b)[snd p := f (items b ! snd p)]\<rparr>"
  have l: "fst p < length (seg_buckets seg)" using assms(2) by (simp add: rows_def)
  then show c: "seg_chain seg \<noteq> []" by auto
  then show c': "seg_chain (seg_update_item seg p f) \<noteq> []"
    using update_nth_bucket_lengths[of "seg_chain seg" "fst p" ?g] by (auto simp: seg_update_item_def)
  have b: "seg_buckets (seg_update_item seg p f) = (seg_buckets seg)[fst p := ?g (seg_buckets seg ! fst p)]"
    using concat_update_nth[of "fst p" "seg_chain seg" ?g ?g] l by (simp add: seg_update_item_def seg_buckets_def)
  show i: "seg_bucket_id (seg_update_item seg p f) = seg_bucket_id seg" by (simp add: seg_update_item_def)
  have "is_chain (ucast (seg_bucket_id seg)) (seg_buckets seg)" using assms(1) c by (simp add: seg_wf_def)
  then have "is_chain (ucast (seg_bucket_id seg)) (seg_buckets (seg_update_item seg p f))"
    unfolding b is_chain_def using l by (simp add: nth_list_update)
  moreover have "\<forall>ce \<in> set (seg_chain (seg_update_item seg p f)). ce_buckets ce \<noteq> []"
    using assms(1) unfolding ne_by_lengths by (simp add: seg_update_item_def update_nth_bucket_lengths seg_wf_def ne_by_lengths)
  ultimately show "seg_wf (seg_update_item seg p f)" using i by (simp add: seg_wf_def)
qed

section \<open>Live items\<close>

definition key_of :: "kv_item \<Rightarrow> u8 list" where
  "key_of it = take (unat (key_length it)) (key it)"

definition val_of :: "kv_item \<Rightarrow> u32 \<times> u48" where
  "val_of it = (value_length it, value_offset it)"

definition item_ok :: "kv_item \<Rightarrow> bool" where
  "item_ok it \<longleftrightarrow> length (key it) = KV_MAX_KEY_LENGTH \<and> unat (key_length it) \<le> KV_MAX_KEY_LENGTH"

definition live :: "kv_item list list \<Rightarrow> kv_item multiset" where
  "live rs = filter_mset (\<lambda>it. \<not> KV_EMPTY_ITEM it) (mset (concat rs))"

definition distinct_keys :: "kv_item multiset \<Rightarrow> bool" where
  "distinct_keys M \<longleftrightarrow> (\<forall>k. size (filter_mset (\<lambda>it. key_of it = k) M) \<le> 1)"

definition items_inv :: "kv_item list list \<Rightarrow> bool" where
  "items_inv rs \<longleftrightarrow> rect rs \<and> (\<forall>it \<in> set (concat rs). item_ok it) \<and> distinct_keys (live rs)"

lemma filter_mset_none: "filter_mset P M = {#} \<longleftrightarrow> (\<forall>x. x \<in># M \<longrightarrow> \<not> P x)"
  by (simp flip: set_mset_eq_empty_iff)

lemma distinct_keys_add:
  "distinct_keys (add_mset it M) \<longleftrightarrow> distinct_keys M \<and> key_of it \<notin> key_of ` set_mset M"
proof
  assume a: "distinct_keys (add_mset it M)"
  have "size (filter_mset (\<lambda>x. key_of x = k) M) \<le> size (filter_mset (\<lambda>x. key_of x = k) (add_mset it M))" for k
    by (cases "key_of it = k") simp_all
  then have "size (filter_mset (\<lambda>x. key_of x = k) M) \<le> 1" for k
    using a[unfolded distinct_keys_def, rule_format, of k] le_trans by blast
  moreover have "filter_mset (\<lambda>x. key_of x = key_of it) M = {#}"
    using a[unfolded distinct_keys_def, rule_format, of "key_of it"] by simp
  then have "key_of it \<notin> key_of ` set_mset M" by (auto simp: filter_mset_none)
  ultimately show "distinct_keys M \<and> key_of it \<notin> key_of ` set_mset M" by (simp add: distinct_keys_def)
next
  assume a: "distinct_keys M \<and> key_of it \<notin> key_of ` set_mset M"
  then have "filter_mset (\<lambda>x. key_of x = key_of it) M = {#}" unfolding filter_mset_none image_iff by metis
  then show "distinct_keys (add_mset it M)" using a by (simp add: distinct_keys_def)
qed

lemma upd_pos_mset:
  assumes "valid_pos rs p"
  obtains N where "mset (concat rs) = add_mset (at_pos rs p) N"
    and "\<And>it. mset (concat (upd_pos rs p it)) = add_mset it N"
proof -
  let ?b = "fst p" and ?i = "snd p"
  have v: "?b < length rs" "?i < length (rs ! ?b)" using assms by (simp_all add: valid_pos_def)
  have split: "rs = take ?b rs @ rs ! ?b # drop (Suc ?b) rs" using v(1) by (rule id_take_nth_drop)
  have row: "rs ! ?b = take ?i (rs ! ?b) @ rs ! ?b ! ?i # drop (Suc ?i) (rs ! ?b)" using v(2) by (rule id_take_nth_drop)
  define N where "N = mset (concat (take ?b rs)) + mset (take ?i (rs ! ?b)) + mset (drop (Suc ?i) (rs ! ?b)) + mset (concat (drop (Suc ?b) rs))"
  have "mset (concat rs) = mset (concat (take ?b rs)) + mset (rs ! ?b) + mset (concat (drop (Suc ?b) rs))"
    by (subst split) simp
  moreover have "mset (rs ! ?b) = add_mset (at_pos rs p) (mset (take ?i (rs ! ?b)) + mset (drop (Suc ?i) (rs ! ?b)))"
    unfolding at_pos_def by (subst row) simp
  ultimately have "mset (concat rs) = add_mset (at_pos rs p) N" by (simp add: N_def)
  moreover have "mset (concat (upd_pos rs p it)) = add_mset it N" for it
  proof -
    have "upd_pos rs p it = take ?b rs @ (rs ! ?b)[?i := it] # drop (Suc ?b) rs"
      using v(1) by (simp add: upd_pos_def upd_conv_take_nth_drop)
    moreover have "mset ((rs ! ?b)[?i := it]) = add_mset it (mset (take ?i (rs ! ?b)) + mset (drop (Suc ?i) (rs ! ?b)))"
      using v(2) by (simp add: upd_conv_take_nth_drop)
    ultimately show ?thesis by (simp add: N_def)
  qed
  ultimately show ?thesis by (rule that)
qed

lemma upd_pos_rect: "rect rs \<Longrightarrow> rect (upd_pos rs p it)"
  by (cases "fst p < length rs")
     (auto simp: rect_def upd_pos_def list_update_beyond dest!: subsetD[OF set_update_subset_insert])

lemma upd_pos_items_ok:
  assumes "valid_pos rs p" and "\<forall>x \<in> set (concat rs). item_ok x" and "item_ok it"
  shows "\<forall>x \<in> set (concat (upd_pos rs p it)). item_ok x"
proof -
  obtain N where N: "mset (concat rs) = add_mset (at_pos rs p) N" "mset (concat (upd_pos rs p it)) = add_mset it N"
    using upd_pos_mset[OF assms(1)] by metis
  have "set_mset N \<subseteq> set (concat rs)" using arg_cong[OF N(1), of set_mset] by auto
  moreover have "set (concat (upd_pos rs p it)) = insert it (set_mset N)" using arg_cong[OF N(2), of set_mset] by simp
  ultimately show ?thesis using assms(2,3) by auto
qed

lemma live_upd:
  assumes "valid_pos rs p"
  obtains M where "live rs = (if KV_EMPTY_ITEM (at_pos rs p) then M else add_mset (at_pos rs p) M)"
    and "\<And>it. live (upd_pos rs p it) = (if KV_EMPTY_ITEM it then M else add_mset it M)"
proof -
  obtain N where "mset (concat rs) = add_mset (at_pos rs p) N" "\<And>it. mset (concat (upd_pos rs p it)) = add_mset it N"
    using upd_pos_mset[OF assms] by blast
  then show ?thesis by (intro that[of "filter_mset (\<lambda>it. \<not> KV_EMPTY_ITEM it) N"]) (simp_all add: live_def)
qed

lemma live_append: "live (rs @ rs') = live rs + live rs'"
  by (simp add: live_def)

lemma live_empty_row: "(\<forall>it \<in> set r. KV_EMPTY_ITEM it) \<Longrightarrow> live [r] = {#}"
  by (simp add: live_def filter_mset_none)

lemma item_has_key_iff: "item_ok it \<Longrightarrow> item_has_key k it \<longleftrightarrow> key_of it = k"
  by (auto simp: item_has_key_def compare_keys_def key_of_def item_ok_def min_def)

lemma key_of_Nil: "item_ok it \<Longrightarrow> key_of it = [] \<longleftrightarrow> KV_EMPTY_ITEM it"
  by (auto simp: key_of_def KV_EMPTY_ITEM_def item_ok_def unat_eq_zero KV_MAX_KEY_LENGTH_def)

section \<open>Lookup\<close>

definition seg_lookup :: "kv_bucket_segment \<Rightarrow> u8 list \<Rightarrow> (u32 \<times> u48) option" where
  "seg_lookup seg k = map_option (\<lambda>p. val_of (seg_item seg p)) (find_item_plus seg k)"

definition seg_inv :: "kv_bucket_segment \<Rightarrow> bool" where
  "seg_inv seg \<longleftrightarrow> seg_wf seg \<and> items_inv (rows seg)"

lemma at_pos_mem: "valid_pos rs p \<Longrightarrow> at_pos rs p \<in> set (concat rs)"
  by (auto simp: valid_pos_def at_pos_def intro!: bexI[of _ "rs ! fst p"])

lemma live_mem: "it \<in># live rs \<longleftrightarrow> it \<in> set (concat rs) \<and> \<not> KV_EMPTY_ITEM it"
  by (simp add: live_def)

lemma find_item_Some:
  assumes "items_inv (rows seg)" and "find_item_plus seg k = Some p" and "k \<noteq> []"
  shows "valid_pos (rows seg) p \<and> at_pos (rows seg) p \<in># live (rows seg) \<and> key_of (at_pos (rows seg) p) = k"
proof -
  have v: "valid_pos (rows seg) p" and h: "item_has_key k (at_pos (rows seg) p)"
    using rows_Some[of "item_has_key k" seg p] assms(2) by (simp_all add: find_item_plus_def)
  have ok: "item_ok (at_pos (rows seg) p)" using assms(1) at_pos_mem[OF v] unfolding items_inv_def by blast
  then have "key_of (at_pos (rows seg) p) = k" using h item_has_key_iff by blast
  moreover from this have "\<not> KV_EMPTY_ITEM (at_pos (rows seg) p)" using key_of_Nil[OF ok] assms(3) by blast
  ultimately show ?thesis using v at_pos_mem[OF v] by (simp add: live_mem)
qed

lemma find_item_None:
  assumes "items_inv (rows seg)" and "find_item_plus seg k = None"
  shows "k \<notin> key_of ` set_mset (live (rows seg))"
proof
  assume "k \<in> key_of ` set_mset (live (rows seg))"
  then obtain it where it: "it \<in># live (rows seg)" "key_of it = k" by auto
  then have m: "it \<in> set (concat (rows seg))" using live_mem by blast
  then have "item_has_key k it" using assms(1) it(2) item_has_key_iff unfolding items_inv_def by blast
  then show False using assms(2) m rows_None[of "item_has_key k" seg] unfolding find_item_plus_def by blast
qed

lemma lookup_iff:
  assumes "items_inv (rows seg)" and "k \<noteq> []"
  shows "seg_lookup seg k = Some v \<longleftrightarrow> (\<exists>it. it \<in># live (rows seg) \<and> key_of it = k \<and> val_of it = v)"
proof (cases "find_item_plus seg k")
  case None
  then show ?thesis using find_item_None[OF assms(1) None] by (auto simp: seg_lookup_def)
next
  case (Some p)
  let ?it = "at_pos (rows seg) p"
  have f: "valid_pos (rows seg) p" "?it \<in># live (rows seg)" "key_of ?it = k"
    using find_item_Some[OF assms(1) Some assms(2)] by auto
  then obtain M where M: "live (rows seg) = add_mset ?it M" using multi_member_split by metis
  then have "k \<notin> key_of ` set_mset M" using assms(1) f(3) distinct_keys_add by (simp add: items_inv_def)
  then have only: "it = ?it" if "it \<in># live (rows seg)" "key_of it = k" for it using that M by auto
  have "seg_lookup seg k = Some (val_of ?it)"
    using Some f(1) by (simp add: seg_lookup_def seg_item_rows valid_pos_def)
  then have "seg_lookup seg k = Some v \<longleftrightarrow> val_of ?it = v" by simp
  also have "\<dots> \<longleftrightarrow> (\<exists>it. it \<in># live (rows seg) \<and> key_of it = k \<and> val_of it = v)"
    using f(2,3) only by metis
  finally show ?thesis .
qed

text \<open>How a lookup changes when one live item is added.\<close>

lemma lookup_add:
  assumes "items_inv (rows seg)" and "items_inv (rows seg')" and "live (rows seg') = add_mset it M"
    and "\<And>x. x \<in># M \<Longrightarrow> x \<in># live (rows seg)" and "\<And>x. x \<in># live (rows seg) \<Longrightarrow> x \<in># M \<or> key_of x = key_of it"
    and "k \<noteq> []"
  shows "seg_lookup seg' k = (if k = key_of it then Some (val_of it) else seg_lookup seg k)"
proof (cases "k = key_of it")
  case True
  then show ?thesis using lookup_iff[OF assms(2,6), of "val_of it"] assms(3) by auto
next
  case False
  have "seg_lookup seg' k = Some v \<longleftrightarrow> seg_lookup seg k = Some v" for v
    unfolding lookup_iff[OF assms(1,6)] lookup_iff[OF assms(2,6)] assms(3) using assms(4,5) False by auto
  then show ?thesis using False by (metis not_None_eq)
qed

section \<open>Update and create\<close>

lemma unat_key_length: "length k \<le> KV_MAX_KEY_LENGTH \<Longrightarrow> unat (word_of_nat (length k) :: u8) = length k"
  by (simp add: KV_MAX_KEY_LENGTH_def)

lemma set_value_item [simp]:
  "key_of (set_value len off it) = key_of it" "val_of (set_value len off it) = (len, ucast off)"
  "KV_EMPTY_ITEM (set_value len off it) = KV_EMPTY_ITEM it" "item_ok (set_value len off it) = item_ok it"
  by (simp_all add: set_value_def key_of_def val_of_def KV_EMPTY_ITEM_def item_ok_def)

lemma set_key_item:
  assumes "item_ok it" and "length k \<le> KV_MAX_KEY_LENGTH" and "k \<noteq> []"
  shows "key_of (set_key k it) = k" and "item_ok (set_key k it)" and "\<not> KV_EMPTY_ITEM (set_key k it)"
proof -
  have l: "unat (word_of_nat (length k) :: u8) = length k" using unat_key_length[OF assms(2)] .
  show "key_of (set_key k it) = k" using l by (simp add: key_of_def set_key_def blit_def)
  show "item_ok (set_key k it)" using assms l by (simp add: item_ok_def set_key_def)
  show "\<not> KV_EMPTY_ITEM (set_key k it)"
  proof
    assume "KV_EMPTY_ITEM (set_key k it)"
    then have "(word_of_nat (length k) :: u8) = 0" by (simp add: KV_EMPTY_ITEM_def set_key_def)
    then have "length k = 0" using l by (simp only: unat_0)
    then show False using assms(3) by simp
  qed
qed

lemma seg_inv_upd:
  assumes "seg_inv seg" and "valid_pos (rows seg) p" and "item_ok (f (at_pos (rows seg) p))"
    and "distinct_keys (live (upd_pos (rows seg) p (f (at_pos (rows seg) p))))"
  shows "seg_inv (seg_update_item seg p f)" and "rows (seg_update_item seg p f) = upd_pos (rows seg) p (f (at_pos (rows seg) p))"
proof -
  have b: "fst p < length (rows seg)" using assms(2) by (simp add: valid_pos_def)
  show r: "rows (seg_update_item seg p f) = upd_pos (rows seg) p (f (at_pos (rows seg) p))" using rows_update[OF b] .
  show "seg_inv (seg_update_item seg p f)"
    using seg_update_wf(1)[OF _ b] assms upd_pos_rect upd_pos_items_ok[OF assms(2) _ assms(3)]
    unfolding seg_inv_def items_inv_def r by blast
qed

lemma update_existing:
  assumes inv: "seg_inv seg" and f: "find_item_plus seg k = Some p" and k: "k \<noteq> []"
  shows "seg_inv (seg_update_item seg p (set_value len off))" and
    "j \<noteq> [] \<Longrightarrow> seg_lookup (seg_update_item seg p (set_value len off)) j =
       (if j = k then Some (len, ucast off) else seg_lookup seg j)"
proof -
  let ?it = "at_pos (rows seg) p" and ?seg = "seg_update_item seg p (set_value len off)"
  have ii: "items_inv (rows seg)" using inv by (simp add: seg_inv_def)
  have v: "valid_pos (rows seg) p" "?it \<in># live (rows seg)" "key_of ?it = k" using find_item_Some[OF ii f k] by auto
  obtain M where M: "live (rows seg) = (if KV_EMPTY_ITEM ?it then M else add_mset ?it M)"
    "\<And>it. live (upd_pos (rows seg) p it) = (if KV_EMPTY_ITEM it then M else add_mset it M)" using live_upd[OF v(1)] by blast
  have ne: "\<not> KV_EMPTY_ITEM ?it" using v(2) by (simp add: live_mem)
  have ok: "item_ok ?it" using ii at_pos_mem[OF v(1)] unfolding items_inv_def by blast
  have L: "live (rows seg) = add_mset ?it M" "live (upd_pos (rows seg) p (set_value len off ?it)) = add_mset (set_value len off ?it) M"
    using M ne by simp_all
  have d: "distinct_keys (live (upd_pos (rows seg) p (set_value len off ?it)))"
    using ii unfolding L items_inv_def distinct_keys_add by simp
  note u = seg_inv_upd[OF inv v(1), of "set_value len off", OF _ d]
  show i: "seg_inv ?seg" using u(1) ok by simp
  have r: "rows ?seg = upd_pos (rows seg) p (set_value len off ?it)" using u(2) ok by simp
  assume "j \<noteq> []"
  then show "seg_lookup ?seg j = (if j = k then Some (len, ucast off) else seg_lookup seg j)"
    by (subst lookup_add[OF ii, of ?seg "set_value len off ?it" M]) (use i L v(3) r in \<open>auto simp: seg_inv_def\<close>)
qed

lemma create_item:
  assumes inv: "seg_inv seg" and v: "valid_pos (rows seg) p" and e: "KV_EMPTY_ITEM (at_pos (rows seg) p)"
    and n: "find_item_plus seg k = None" and k: "k \<noteq> []" "length k \<le> KV_MAX_KEY_LENGTH"
  shows "seg_inv (seg_update_item seg p (\<lambda>it. set_value len off (set_key k it)))" and
    "j \<noteq> [] \<Longrightarrow> seg_lookup (seg_update_item seg p (\<lambda>it. set_value len off (set_key k it))) j =
       (if j = k then Some (len, ucast off) else seg_lookup seg j)"
proof -
  let ?f = "\<lambda>it. set_value len off (set_key k it)"
  let ?it = "?f (at_pos (rows seg) p)" and ?seg = "seg_update_item seg p ?f"
  have ii: "items_inv (rows seg)" using inv by (simp add: seg_inv_def)
  have ok: "item_ok (at_pos (rows seg) p)" using ii at_pos_mem[OF v] unfolding items_inv_def by blast
  note sk = set_key_item[OF ok k(2,1)]
  obtain M where M: "live (rows seg) = (if KV_EMPTY_ITEM (at_pos (rows seg) p) then M else add_mset (at_pos (rows seg) p) M)"
    "\<And>it. live (upd_pos (rows seg) p it) = (if KV_EMPTY_ITEM it then M else add_mset it M)" using live_upd[OF v] by blast
  have L: "live (rows seg) = M" "live (upd_pos (rows seg) p ?it) = add_mset ?it M" using M e sk(3) by simp_all
  have d: "distinct_keys (live (upd_pos (rows seg) p ?it))"
    using ii find_item_None[OF ii n] sk(1) unfolding L items_inv_def distinct_keys_add by simp
  note u = seg_inv_upd[OF inv v, of ?f, OF _ d]
  show i: "seg_inv ?seg" using u(1) sk(2) by simp
  have r: "rows ?seg = upd_pos (rows seg) p ?it" using u(2) sk(2) by simp
  assume "j \<noteq> []"
  then show "seg_lookup ?seg j = (if j = k then Some (len, ucast off) else seg_lookup seg j)"
    by (subst lookup_add[OF ii, of ?seg ?it M]) (use i L sk(1) r in \<open>auto simp: seg_inv_def\<close>)
qed

lemma live_zero_row: "live (rs @ [replicate KV_ITEM_PER_BUCKET zero_item]) = live rs"
  by (simp add: live_append live_empty_row zero_item_def KV_EMPTY_ITEM_def)

lemma alloc_extra_inv:
  assumes inv: "seg_inv seg"
  shows "\<exists>ok seg'. kv_bucket_alloc_extra addr seg = Inr (ok, seg') \<and> seg_inv seg' \<and> live (rows seg') = live (rows seg) \<and>
    (ok \<longleftrightarrow> length (seg_buckets seg) < 127) \<and>
    (ok \<longrightarrow> rows seg' = rows seg @ [replicate KV_ITEM_PER_BUCKET zero_item])"
proof -
  obtain ok seg' where a: "kv_bucket_alloc_extra addr seg = Inr (ok, seg')" "seg_wf seg'" "ok \<longleftrightarrow> length (seg_buckets seg) < 127"
    "rows seg' = rows seg @ (if ok then [replicate KV_ITEM_PER_BUCKET zero_item] else [])"
    using alloc_extra_wf[of seg addr] inv by (auto simp: seg_inv_def rows_def)
  have z: "item_ok zero_item" by (simp add: item_ok_def zero_item_def)
  have l: "live (rows seg') = live (rows seg)" using a(4) by (cases ok) (simp_all add: live_zero_row)
  have "items_inv (rows seg')" unfolding items_inv_def l
    using inv a(4) z by (cases ok) (auto simp: seg_inv_def items_inv_def rect_def)
  then show ?thesis using a l by (intro exI[of _ ok] exI[of _ seg']) (simp add: seg_inv_def)
qed

lemma same_live_lookup:
  assumes "items_inv (rows seg)" and "items_inv (rows seg')" and "live (rows seg') = live (rows seg)" and "k \<noteq> []"
  shows "seg_lookup seg' k = seg_lookup seg k"
proof -
  have "seg_lookup seg' k = Some v \<longleftrightarrow> seg_lookup seg k = Some v" for v
    unfolding lookup_iff[OF assms(1,4)] lookup_iff[OF assms(2,4)] assms(3) ..
  then show ?thesis by (metis not_None_eq)
qed

lemma find_none_iff:
  assumes "items_inv (rows seg)" and "k \<noteq> []"
  shows "find_item_plus seg k = None \<longleftrightarrow> k \<notin> key_of ` set_mset (live (rows seg))"
  using find_item_None[OF assms(1)] find_item_Some[OF assms(1) _ assms(2)] by (cases "find_item_plus seg k") auto

lemma seg_set_ok:
  assumes inv: "seg_inv seg" and k: "k \<noteq> []" "length k \<le> KV_MAX_KEY_LENGTH"
  shows "\<exists>created r. seg_set addr k len off seg = Inr (created, r) \<and>
    (r = None \<longrightarrow> length (seg_buckets seg) = 127 \<and> find_item_plus seg k = None) \<and>
    (\<forall>seg'. r = Some seg' \<longrightarrow> seg_inv seg' \<and> seg_bucket_id seg' = seg_bucket_id seg \<and>
      (\<forall>j. j \<noteq> [] \<longrightarrow> seg_lookup seg' j = (if j = k then Some (len, ucast off) else seg_lookup seg j)))"
proof -
  have ii: "items_inv (rows seg)" using inv by (simp add: seg_inv_def)
  have id: "seg_bucket_id (seg_update_item g p f) = seg_bucket_id g" for g p f by (simp add: seg_update_item_def)
  show ?thesis
  proof (cases "find_item_plus seg k")
    case (Some p)
    then show ?thesis using update_existing[OF inv Some k(1)] id
      by (intro exI[of _ False] exI[of _ "Some (seg_update_item seg p (set_value len off))"]) (simp add: seg_set_def)
  next
    case None
    show ?thesis
    proof (cases "locate KV_EMPTY_ITEM (seg_buckets seg) 0")
      case (Some p)
      then have v: "valid_pos (rows seg) p" "KV_EMPTY_ITEM (at_pos (rows seg) p)" using rows_Some by blast+
      show ?thesis using create_item[OF inv v None k] Some None id by (simp add: seg_set_def find_empty_def ex_bool_eq)
    next
      case full: None
      obtain ok seg' where a: "kv_bucket_alloc_extra addr seg = Inr (ok, seg')" "seg_inv seg'" "live (rows seg') = live (rows seg)"
        "ok \<longleftrightarrow> length (seg_buckets seg) < 127" "ok \<longrightarrow> rows seg' = rows seg @ [replicate KV_ITEM_PER_BUCKET zero_item]"
        using alloc_extra_inv[OF inv, of addr] by blast
      have ii': "items_inv (rows seg')" using a(2) by (simp add: seg_inv_def)
      have lk: "seg_lookup seg' j = seg_lookup seg j" if "j \<noteq> []" for j using same_live_lookup[OF ii ii' a(3) that] .
      have n': "find_item_plus seg' k = None" using None find_none_iff[OF ii k(1)] find_none_iff[OF ii' k(1)] a(3) by simp
      have bid: "seg_bucket_id seg' = seg_bucket_id seg" using alloc_extra_wf[of seg addr] inv a(1) by (auto simp: seg_inv_def)
      have len: "length (seg_buckets seg) < 128"
        using inv by (cases "seg_chain seg = []") (auto simp: seg_inv_def seg_wf_def is_chain_def)
      show ?thesis
      proof (cases ok)
        case True
        let ?p = "(length (rows seg), 0)"
        have l: "length (seg_buckets seg') - 1 = length (rows seg)"
          using arg_cong[OF a(5)[THEN mp, OF True], of length] by (simp add: rows_def)
        have v: "valid_pos (rows seg') ?p" "KV_EMPTY_ITEM (at_pos (rows seg') ?p)"
          using a(5) True by (simp_all add: valid_pos_def at_pos_def KV_ITEM_PER_BUCKET_def zero_item_def KV_EMPTY_ITEM_def)
        show ?thesis using create_item[OF a(2) v n' k] None full a(1) True l id bid lk
          by (simp add: seg_set_def find_empty_def ex_bool_eq)
      next
        case False
        then show ?thesis using None full a(1,4) len by (simp add: seg_set_def find_empty_def ex_bool_eq)
      qed
    qed
  qed
qed

section \<open>Filling holes\<close>

lemma next_to_move_Some:
  "next_to_move its n j = Some j' \<Longrightarrow> j \<le> j' \<and> j' < length its \<and> \<not> KV_EMPTY_ITEM (its ! j') \<and>
     (\<forall>i. j \<le> i \<and> i < j' \<longrightarrow> KV_EMPTY_ITEM (its ! i))"
proof (induction n arbitrary: j)
  case (Suc n)
  show ?case
  proof (cases "j < length its \<and> \<not> KV_EMPTY_ITEM (its ! j)")
    case True
    then show ?thesis using Suc.prems by auto
  next
    case False
    then have m: "next_to_move its n (Suc j) = Some j'" using Suc.prems by (simp split: if_splits)
    note ih = Suc.IH[OF m]
    have "KV_EMPTY_ITEM (its ! j)" using False ih by auto
    then show ?thesis using ih by (metis Suc_leI Suc_le_lessD le_eq_less_or_eq less_imp_le_nat)
  qed
qed simp

lemma next_to_move_None:
  "next_to_move its n j = None \<Longrightarrow> length its \<le> j + n \<Longrightarrow> \<forall>i. j \<le> i \<and> i < length its \<longrightarrow> KV_EMPTY_ITEM (its ! i)"
proof (induction n arbitrary: j)
  case (Suc n)
  then have m: "next_to_move its n (Suc j) = None" "\<not> (j < length its \<and> \<not> KV_EMPTY_ITEM (its ! j))" by (simp_all split: if_splits)
  have "\<forall>i. Suc j \<le> i \<and> i < length its \<longrightarrow> KV_EMPTY_ITEM (its ! i)" using Suc.IH[OF m(1)] Suc.prems(2) by simp
  then show ?case using m(2) by (metis Suc_leI le_eq_less_or_eq)
qed auto

text \<open>A move of an item of the last row into a hole keeps the live items.\<close>

lemma live_move:
  assumes p: "valid_pos rs p" and q: "valid_pos rs q" and ne: "fst p \<noteq> fst q"
    and e: "KV_EMPTY_ITEM (at_pos rs p)" and l: "\<not> KV_EMPTY_ITEM (at_pos rs q)" and z: "KV_EMPTY_ITEM z"
  shows "live (upd_pos (upd_pos rs p (at_pos rs q)) q z) = live rs"
proof -
  let ?rs = "upd_pos rs p (at_pos rs q)"
  obtain M where M: "live rs = (if KV_EMPTY_ITEM (at_pos rs p) then M else add_mset (at_pos rs p) M)"
    "\<And>it. live (upd_pos rs p it) = (if KV_EMPTY_ITEM it then M else add_mset it M)" using live_upd[OF p] by blast
  have q': "valid_pos ?rs q" "at_pos ?rs q = at_pos rs q" using q ne by (simp_all add: valid_pos_def at_pos_def upd_pos_def)
  obtain K where K: "live ?rs = (if KV_EMPTY_ITEM (at_pos ?rs q) then K else add_mset (at_pos ?rs q) K)"
    "\<And>it. live (upd_pos ?rs q it) = (if KV_EMPTY_ITEM it then K else add_mset it K)" using live_upd[OF q'(1)] by blast
  have "live rs = M" "live ?rs = add_mset (at_pos rs q) M" using M e l by simp_all
  moreover have "live ?rs = add_mset (at_pos rs q) K" "live (upd_pos ?rs q z) = K" using K q'(2) l z by simp_all
  ultimately show ?thesis by simp
qed

lemma upd_pos_other: "fst p \<noteq> fst q \<Longrightarrow> upd_pos rs p it ! fst q = rs ! fst q"
  by (simp add: upd_pos_def)

definition fill_inv :: "nat \<Rightarrow> nat \<Rightarrow> kv_bucket_segment \<Rightarrow> bool" where
  "fill_inv n j seg \<longleftrightarrow> seg_inv seg \<and> length (rows seg) = Suc n \<and> (\<forall>i < j. i < KV_ITEM_PER_BUCKET \<longrightarrow> KV_EMPTY_ITEM (rows seg ! n ! i))"

lemma fill_move:
  assumes inv: "fill_inv n j seg" and p: "fst p < n" "snd p < KV_ITEM_PER_BUCKET" and e: "KV_EMPTY_ITEM (seg_item seg p)"
    and m: "next_to_move (items (seg_buckets seg ! n)) (KV_ITEM_PER_BUCKET - j) j = Some j'"
  defines "seg' \<equiv> seg_update_item (seg_update_item seg p (\<lambda>_. items (seg_buckets seg ! n) ! j')) (n, j') (\<lambda>it. it\<lparr>key_length := 0\<rparr>)"
  shows "fill_inv n j' seg' \<and> live (rows seg') = live (rows seg) \<and> seg_bucket_id seg' = seg_bucket_id seg"
proof -
  let ?rs = "rows seg" and ?it = "items (seg_buckets seg ! n) ! j'"
  let ?s1 = "seg_update_item seg p (\<lambda>_. ?it)"
  have si: "seg_inv seg" and ii: "items_inv ?rs" and len: "length ?rs = Suc n" using inv by (auto simp: fill_inv_def seg_inv_def)
  have row: "items (seg_buckets seg ! n) = ?rs ! n" using len by (simp add: rows_def)
  have rl: "length (?rs ! i) = KV_ITEM_PER_BUCKET" if "i \<le> n" for i
    using ii len that nth_mem[of i ?rs] by (simp add: items_inv_def rect_def)
  note mv = next_to_move_Some[OF m, unfolded row]
  have j': "j' < KV_ITEM_PER_BUCKET" using mv rl[of n] by simp
  have vp: "valid_pos ?rs p" and vq: "valid_pos ?rs (n, j')" using p len rl[of "fst p"] rl[of n] j' by (auto simp: valid_pos_def)
  have it: "?it = at_pos ?rs (n, j')" by (simp add: row at_pos_def)
  have ep: "KV_EMPTY_ITEM (at_pos ?rs p)" using e p len by (simp add: seg_item_rows)
  have lq: "\<not> KV_EMPTY_ITEM (at_pos ?rs (n, j'))" using mv by (simp add: at_pos_def)
  have oq: "item_ok (at_pos ?rs (n, j'))" using ii at_pos_mem[OF vq] unfolding items_inv_def by blast
  let ?z = "(at_pos ?rs (n, j'))\<lparr>key_length := 0\<rparr>"
  have zz: "KV_EMPTY_ITEM ?z" "item_ok ?z" using oq by (simp_all add: KV_EMPTY_ITEM_def item_ok_def)
  have r1: "rows ?s1 = upd_pos ?rs p (at_pos ?rs (n, j'))" using rows_update[of p seg] p len it by simp
  have atq: "at_pos (rows ?s1) (n, j') = at_pos ?rs (n, j')" using p r1 by (simp add: at_pos_def upd_pos_def)
  have l1: "length (rows ?s1) = Suc n" using r1 len by (simp add: upd_pos_def)
  have r2: "rows seg' = upd_pos (rows ?s1) (n, j') ?z"
    unfolding seg'_def using rows_update[of "(n, j')" ?s1] l1 atq by simp
  have lv: "live (rows seg') = live ?rs" unfolding r2 r1 using live_move[OF vp vq _ ep lq zz(1)] p by simp
  have vq1: "valid_pos (rows ?s1) (n, j')" using vq p by (simp add: r1 valid_pos_def upd_pos_def)
  have "items_inv (rows seg')" unfolding items_inv_def lv
  proof (intro conjI)
    show "rect (rows seg')" unfolding r2 r1 using ii by (simp add: upd_pos_rect items_inv_def)
    show "\<forall>it\<in>set (concat (rows seg')). item_ok it"
      unfolding r2 using upd_pos_items_ok[OF vq1 _ zz(2)] upd_pos_items_ok[OF vp _ oq] ii unfolding r1 items_inv_def by blast
    show "distinct_keys (live ?rs)" using ii by (simp add: items_inv_def)
  qed
  moreover have "seg_wf ?s1" using seg_update_wf(1)[of seg p] si p len by (simp add: seg_inv_def)
  then have "seg_wf seg'" unfolding seg'_def using seg_update_wf(1)[of ?s1 "(n, j')"] l1 by simp
  ultimately have "seg_inv seg'" by (simp add: seg_inv_def)
  moreover have "\<forall>i < j'. i < KV_ITEM_PER_BUCKET \<longrightarrow> KV_EMPTY_ITEM (rows seg' ! n ! i)"
  proof (intro allI impI)
    fix i assume i: "i < j'" "i < KV_ITEM_PER_BUCKET"
    have "rows seg' ! n ! i = ?rs ! n ! i" using i p len by (simp add: r2 r1 upd_pos_def nth_list_update)
    then show "KV_EMPTY_ITEM (rows seg' ! n ! i)" using inv mv i by (cases "i < j") (auto simp: fill_inv_def)
  qed
  moreover have "length (rows seg') = Suc n" using l1 r2 by (simp add: upd_pos_def)
  ultimately show ?thesis using lv by (simp add: fill_inv_def seg'_def seg_update_item_def)
qed

lemma free_extra_inv:
  assumes inv: "seg_inv seg" and n: "length (rows seg) = Suc n" and e: "\<forall>it \<in> set (rows seg ! n). KV_EMPTY_ITEM it"
  shows "\<exists>seg'. kv_bucket_free_extra seg = Inr seg' \<and> seg_inv seg' \<and> live (rows seg') = live (rows seg) \<and>
    seg_bucket_id seg' = seg_bucket_id seg"
proof -
  have "seg_chain seg \<noteq> []" using n by (auto simp: rows_def)
  then obtain seg' where s: "kv_bucket_free_extra seg = Inr seg'" "seg_wf seg'" "seg_bucket_id seg' = seg_bucket_id seg"
    "rows seg' = butlast (rows seg)"
    using free_extra_wf[of seg] inv by (auto simp: seg_inv_def rows_def)
  have sp: "rows seg = rows seg' @ [rows seg ! n]"
    using s(4) n append_butlast_last_id[of "rows seg"] by (cases "rows seg = []") (auto simp: last_conv_nth)
  have l: "live (rows seg') = live (rows seg)" by (subst sp) (simp add: live_append live_empty_row[OF e])
  have "set (rows seg') \<subseteq> set (rows seg)" using arg_cong[OF sp, of set] by auto
  then have "items_inv (rows seg')" using inv unfolding items_inv_def l by (fastforce simp: seg_inv_def items_inv_def rect_def)
  then show ?thesis using s l by (simp add: seg_inv_def)
qed

lemma fill_loop_ok:
  assumes "fill_inv n j seg" and "\<forall>p \<in> set ps. fst p < n \<and> snd p < KV_ITEM_PER_BUCKET"
  shows "\<exists>seg'. fill_loop ps j seg = Inr seg' \<and> seg_inv seg' \<and> live (rows seg') = live (rows seg) \<and>
    seg_bucket_id seg' = seg_bucket_id seg"
  using assms
proof (induction ps j seg rule: fill_loop.induct)
  case (1 j seg)
  then show ?case by (simp add: fill_inv_def)
next
  case (2 p ps j seg)
  let ?its = "items (seg_buckets seg ! n)"
  have len: "length (seg_buckets seg) - 1 = n" "length (rows seg) = Suc n" using 2(3) by (auto simp: fill_inv_def rows_def)
  have row: "?its = rows seg ! n" using len by (simp add: rows_def)
  show ?case
  proof (cases "KV_EMPTY_ITEM (seg_item seg p)")
    case False
    then show ?thesis using 2(2) 2(3,4) by simp
  next
    case True
    show ?thesis
    proof (cases "next_to_move ?its (KV_ITEM_PER_BUCKET - j) j")
      case None
      have rl: "length ?its = KV_ITEM_PER_BUCKET"
        using 2(3) len nth_mem[of n "rows seg"] by (simp add: row fill_inv_def seg_inv_def items_inv_def rect_def)
      have "KV_EMPTY_ITEM (rows seg ! n ! i)" if "i < KV_ITEM_PER_BUCKET" for i
        using next_to_move_None[OF None] 2(3) that rl row by (cases "i < j") (auto simp: fill_inv_def)
      then have "\<forall>it \<in> set (rows seg ! n). KV_EMPTY_ITEM it" using rl row by (auto simp: in_set_conv_nth)
      then show ?thesis using free_extra_inv[OF _ len(2)] 2(3) True None len(1) by (simp add: fill_inv_def Let_def)
    next
      case (Some j')
      have pp: "fst p < n" "snd p < KV_ITEM_PER_BUCKET" using 2(4) by auto
      let ?seg = "seg_update_item (seg_update_item seg p (\<lambda>_. ?its ! j')) (n, j') (\<lambda>it. it\<lparr>key_length := 0\<rparr>)"
      have m: "fill_inv n j' ?seg" "live (rows ?seg) = live (rows seg)" "seg_bucket_id ?seg = seg_bucket_id seg"
        using fill_move[OF 2(3) pp True Some] by auto
      have "\<exists>seg'. fill_loop ps j' ?seg = Inr seg' \<and> seg_inv seg' \<and> live (rows seg') = live (rows ?seg) \<and>
          seg_bucket_id seg' = seg_bucket_id ?seg"
        using 2(1)[OF True refl refl, of j'] Some m(1) 2(4) len(1) by simp
      then show ?thesis using True Some len(1) m(2,3) by (simp add: Let_def)
    qed
  qed
qed

lemma fill_the_hole_ok:
  assumes inv: "seg_inv seg" and ne: "seg_chain seg \<noteq> []"
  shows "\<exists>seg'. fill_the_hole seg = Inr seg' \<and> seg_inv seg' \<and> live (rows seg') = live (rows seg) \<and>
    seg_bucket_id seg' = seg_bucket_id seg"
proof -
  have wf: "seg_wf seg" using inv by (simp add: seg_inv_def)
  note fb = first_bucket_eq[OF wf ne]
  obtain n where n: "length (rows seg) = Suc n" using fb(2) by (cases "seg_buckets seg") (auto simp: rows_def)
  have "fill_inv n 0 seg" using inv n by (simp add: fill_inv_def)
  then show ?thesis using fill_loop_ok[of n 0 seg "slots_before_last seg"] fb inv n
    by (auto simp: fill_the_hole_def slots_before_last_def rows_def)
qed

lemma seg_delete_ok:
  assumes inv: "seg_inv seg" and k: "k \<noteq> []"
  shows "(seg_lookup seg k = None \<longrightarrow> seg_delete k seg = Inr None) \<and>
    (seg_lookup seg k \<noteq> None \<longrightarrow> (\<exists>seg'. seg_delete k seg = Inr (Some seg') \<and> seg_inv seg' \<and> seg_bucket_id seg' = seg_bucket_id seg \<and>
      (\<forall>j. j \<noteq> [] \<longrightarrow> seg_lookup seg' j = (if j = k then None else seg_lookup seg j))))"
proof (cases "find_item_plus seg k")
  case None
  then show ?thesis by (simp add: seg_lookup_def seg_delete_def)
next
  case (Some p)
  let ?f = "\<lambda>it :: kv_item. it\<lparr>key_length := 0\<rparr>"
  let ?d = "seg\<lparr>seg_dirty := True\<rparr>" and ?it = "at_pos (rows seg) p"
  have dirty: "rows ?d = rows seg" "seg_inv ?d" using inv by (simp_all add: rows_def seg_inv_def seg_wf_def)
  have ii: "items_inv (rows seg)" using inv by (simp add: seg_inv_def)
  have v: "valid_pos (rows seg) p" "?it \<in># live (rows seg)" "key_of ?it = k" using find_item_Some[OF ii Some k] by auto
  have b: "fst p < length (rows seg)" using v(1) by (simp add: valid_pos_def)
  obtain M where M: "live (rows seg) = (if KV_EMPTY_ITEM ?it then M else add_mset ?it M)"
    "\<And>it. live (upd_pos (rows seg) p it) = (if KV_EMPTY_ITEM it then M else add_mset it M)" using live_upd[OF v(1)] by blast
  have ne: "\<not> KV_EMPTY_ITEM ?it" using v(2) by (simp add: live_mem)
  have L: "live (rows seg) = add_mset ?it M" "live (upd_pos (rows seg) p (?f ?it)) = M"
    using M ne by (simp_all add: KV_EMPTY_ITEM_def)
  have kM: "k \<notin> key_of ` set_mset M" "distinct_keys M" using ii v(3) unfolding items_inv_def L distinct_keys_add by auto
  have ok: "item_ok (?f ?it)" using ii at_pos_mem[OF v(1)] unfolding items_inv_def item_ok_def by force
  have u: "seg_inv (seg_update_item ?d p ?f)" "rows (seg_update_item ?d p ?f) = upd_pos (rows seg) p (?f ?it)"
    using seg_inv_upd[OF dirty(2), of p ?f] v(1) ok kM(2) L(2) dirty(1) by auto
  have c: "seg_chain (seg_update_item ?d p ?f) \<noteq> []" using seg_update_wf(3)[of ?d p] dirty b by (simp add: seg_inv_def)
  obtain seg' where s: "fill_the_hole (seg_update_item ?d p ?f) = Inr seg'" "seg_inv seg'"
    "live (rows seg') = M" "seg_bucket_id seg' = seg_bucket_id seg"
    using fill_the_hole_ok[OF u(1) c] u(2) L(2) by (auto simp: seg_update_item_def)
  have ii': "items_inv (rows seg')" using s(2) by (simp add: seg_inv_def)
  have "seg_lookup seg' j = (if j = k then None else seg_lookup seg j)" if j: "j \<noteq> []" for j
  proof -
    have "seg_lookup seg' j = Some x \<longleftrightarrow> j \<noteq> k \<and> seg_lookup seg j = Some x" for x
      unfolding lookup_iff[OF ii' j] lookup_iff[OF ii j] s(3) L(1) using kM(1) v(3) by (auto simp: image_iff)
    then show ?thesis by (metis not_None_eq)
  qed
  moreover have "seg_lookup seg k \<noteq> None" using Some by (simp add: seg_lookup_def)
  ultimately show ?thesis using Some s by (simp add: seg_delete_def)
qed

section \<open>The number of keys\<close>

lemma card_live_keys: "distinct_keys M \<Longrightarrow> card (key_of ` set_mset M) = size M"
  by (induction M) (auto simp: distinct_keys_add)

lemma filter_all_iff: "length (filter P xs) = length xs \<longleftrightarrow> (\<forall>x \<in> set xs. P x)"
  by (metis filter_True length_filter_less less_irrefl)

lemma size_live:
  assumes "rect rs"
  shows "size (live rs) \<le> KV_ITEM_PER_BUCKET * length rs"
    and "size (live rs) = KV_ITEM_PER_BUCKET * length rs \<longleftrightarrow> (\<forall>it \<in> set (concat rs). \<not> KV_EMPTY_ITEM it)"
proof -
  have n: "length (concat rs) = KV_ITEM_PER_BUCKET * length rs" using assms by (induction rs) (auto simp: rect_def)
  have "size (live rs) = length (filter (\<lambda>it. \<not> KV_EMPTY_ITEM it) (concat rs))"
    unfolding live_def by (simp flip: mset_filter)
  then show "size (live rs) \<le> KV_ITEM_PER_BUCKET * length rs"
    "size (live rs) = KV_ITEM_PER_BUCKET * length rs \<longleftrightarrow> (\<forall>it \<in> set (concat rs). \<not> KV_EMPTY_ITEM it)"
    unfolding n[symmetric] by (simp_all add: filter_all_iff)
qed

text \<open>The map a segment stands for; the empty key marks a free item.\<close>

definition seg_map :: "kv_bucket_segment \<Rightarrow> u8 list \<Rightarrow> (u32 \<times> u48) option" where
  "seg_map seg k = (if k = [] then None else seg_lookup seg k)"

lemma seg_map_card:
  assumes "seg_inv seg"
  shows "finite (dom (seg_map seg))" and "card (dom (seg_map seg)) = size (live (rows seg))"
proof -
  have ii: "items_inv (rows seg)" using assms by (simp add: seg_inv_def)
  have "key_of it \<noteq> []" if "it \<in># live (rows seg)" for it
    using that ii key_of_Nil live_mem unfolding items_inv_def by blast
  moreover have "seg_map seg k \<noteq> None \<longleftrightarrow> k \<noteq> [] \<and> (\<exists>it. it \<in># live (rows seg) \<and> key_of it = k)" for k
    unfolding seg_map_def using lookup_iff[OF ii, of k] by (simp del: split_paired_Ex)
  ultimately have d: "dom (seg_map seg) = key_of ` set_mset (live (rows seg))"
    by (intro set_eqI) (auto simp: dom_def image_iff)
  show "finite (dom (seg_map seg))" by (simp add: d)
  show "card (dom (seg_map seg)) = size (live (rows seg))"
    unfolding d using ii by (intro card_live_keys) (simp add: items_inv_def)
qed

text \<open>A chain holds at most 127 buckets of 16 items; a set is refused exactly when all are taken by other keys.\<close>

definition SEG_CAPACITY :: nat where
  "SEG_CAPACITY = 127 * KV_ITEM_PER_BUCKET"

lemma seg_set_refused:
  assumes inv: "seg_inv seg" and st: "seg_set addr k len off seg = Inr (c, r)"
  shows "r = None \<longleftrightarrow> find_item_plus seg k = None \<and> SEG_CAPACITY \<le> size (live (rows seg))"
proof -
  have re: "rect (rows seg)" using inv by (simp add: seg_inv_def items_inv_def)
  have len: "length (rows seg) < 128"
    using inv by (cases "seg_chain seg = []") (auto simp: seg_inv_def seg_wf_def is_chain_def rows_def)
  have full: "SEG_CAPACITY \<le> size (live (rows seg)) \<longleftrightarrow> length (rows seg) = 127 \<and> locate KV_EMPTY_ITEM (seg_buckets seg) 0 = None"
    (is "?L \<longleftrightarrow> ?R")
  proof
    assume ?L
    moreover have "size (live (rows seg)) \<le> KV_ITEM_PER_BUCKET * length (rows seg)" using size_live(1)[OF re] .
    ultimately have l: "length (rows seg) = 127" using len by (simp add: SEG_CAPACITY_def KV_ITEM_PER_BUCKET_def)
    then have "size (live (rows seg)) = KV_ITEM_PER_BUCKET * length (rows seg)"
      using \<open>?L\<close> size_live(1)[OF re] by (simp add: SEG_CAPACITY_def)
    then show ?R using l size_live(2)[OF re] rows_None by blast
  next
    assume ?R
    then have "size (live (rows seg)) = KV_ITEM_PER_BUCKET * length (rows seg)" using size_live(2)[OF re] rows_None by blast
    then show ?L using \<open>?R\<close> by (simp add: SEG_CAPACITY_def)
  qed
  obtain ok seg' where a: "kv_bucket_alloc_extra addr seg = Inr (ok, seg')" "ok \<longleftrightarrow> length (seg_buckets seg) < 127"
    using alloc_extra_inv[OF inv, of addr] by blast
  show ?thesis unfolding full using st a len
    by (auto simp: seg_set_def find_empty_def rows_def res_simps split: option.splits if_splits)
qed

section \<open>The interface of a segment\<close>

text \<open>
  What a client of a container relies on: an operation that is \<open>ready\<close> does not abort, keeps
  the invariant, and answers and changes the abstract state as its specification says. The
  specification is a function of the abstract state alone.
\<close>

fun run_steps :: "('x \<Rightarrow> 's \<Rightarrow> ('s \<times> bool) res) \<Rightarrow> 'x list \<Rightarrow> 's \<Rightarrow> ('s \<times> bool list) res" where
  "run_steps step [] s = Inr (s, [])"
| "run_steps step (x # xs) s =
     rbind (step x s) (\<lambda>(s', b). rbind (run_steps step xs s') (\<lambda>(t, bs). Inr (t, b # bs)))"

fun run_spec :: "('x \<Rightarrow> 'a \<Rightarrow> 'a \<times> bool) \<Rightarrow> 'x list \<Rightarrow> 'a \<Rightarrow> 'a \<times> bool list" where
  "run_spec spec [] a = (a, [])"
| "run_spec spec (x # xs) a = (let (a', b) = spec x a; (c, bs) = run_spec spec xs a' in (c, b # bs))"

text \<open>Every operation is ready when its turn comes; nothing is said about its result.\<close>

fun run_ready :: "('x \<Rightarrow> 's \<Rightarrow> bool) \<Rightarrow> ('x \<Rightarrow> 's \<Rightarrow> ('s \<times> bool) res) \<Rightarrow> 'x list \<Rightarrow> 's \<Rightarrow> bool" where
  "run_ready ready step [] s = True"
| "run_ready ready step (x # xs) s =
     (ready x s \<and> (case step x s of Inl _ \<Rightarrow> True | Inr (s', _) \<Rightarrow> run_ready ready step xs s'))"

locale op_refinement =
  fixes inv :: "'s \<Rightarrow> bool"
    and abs :: "'s \<Rightarrow> 'a"
    and ready :: "'x \<Rightarrow> 's \<Rightarrow> bool"
    and step :: "'x \<Rightarrow> 's \<Rightarrow> ('s \<times> bool) res"
    and spec :: "'x \<Rightarrow> 'a \<Rightarrow> 'a \<times> bool"
  assumes step_refines: "inv s \<Longrightarrow> ready x s \<Longrightarrow> \<exists>s' b. step x s = Inr (s', b) \<and> inv s' \<and> spec x (abs s) = (abs s', b)"
begin

lemma run_refines:
  assumes "inv s" and "run_ready ready step xs s"
  shows "\<exists>t bs. run_steps step xs s = Inr (t, bs) \<and> inv t \<and> run_spec spec xs (abs s) = (abs t, bs)"
  using assms
proof (induction xs arbitrary: s)
  case (Cons x xs)
  obtain s' b where st: "step x s = Inr (s', b)" "inv s'" "spec x (abs s) = (abs s', b)"
    using step_refines[OF Cons.prems(1), of x] Cons.prems(2) by (metis run_ready.simps(2))
  moreover have "run_ready ready step xs s'" using Cons.prems(2) st(1) by simp
  ultimately show ?case using Cons.IH[OF st(2)] by auto
qed simp

end

text \<open>
  A map with room for \<open>cap\<close> keys. A removal answers whether the key was there; a new key is
  refused when the map is full, and the key of an entry is always accepted.
\<close>

definition bounded_map_op :: "nat \<Rightarrow> 'k \<times> 'v option \<Rightarrow> ('k \<Rightarrow> 'v option) \<Rightarrow> ('k \<Rightarrow> 'v option) \<times> bool" where
  "bounded_map_op cap x m =
     (case snd x of
        None \<Rightarrow> (m(fst x := None), m (fst x) \<noteq> None)
      | Some v \<Rightarrow> if m (fst x) \<noteq> None \<or> card (dom m) < cap then (m(fst x \<mapsto> v), True) else (m, False))"

definition legal_key :: "u8 list \<Rightarrow> bool" where
  "legal_key k \<longleftrightarrow> k \<noteq> [] \<and> length k \<le> KV_MAX_KEY_LENGTH"

text \<open>One set or delete on a chain; a refused one leaves the chain as it was.\<close>

definition seg_step :: "u64 \<Rightarrow> u8 list \<times> (u32 \<times> u48) option \<Rightarrow> kv_bucket_segment \<Rightarrow> (kv_bucket_segment \<times> bool) res" where
  "seg_step addr x seg =
     rbind (case snd x of
              Some v \<Rightarrow> rbind (seg_set addr (fst x) (fst v) (ucast (snd v)) seg) (\<lambda>(_, r). Inr r)
            | None \<Rightarrow> seg_delete (fst x) seg)
       (\<lambda>r. case r of None \<Rightarrow> Inr (seg, False) | Some seg' \<Rightarrow> Inr (seg', True))"

lemma ucast_ucast_u48: "ucast (ucast (x :: u48) :: u64) = x"
  by (rule bit_word_eqI) (simp add: bit_simps)

lemma seg_set_refines:
  assumes inv: "seg_inv seg" and k: "legal_key k"
  shows "\<exists>seg' b. seg_step addr (k, Some v) seg = Inr (seg', b) \<and> seg_inv seg' \<and>
    bounded_map_op SEG_CAPACITY (k, Some v) (seg_map seg) = (seg_map seg', b)"
proof -
  have k': "k \<noteq> []" "length k \<le> KV_MAX_KEY_LENGTH" using k by (simp_all add: legal_key_def)
  obtain c r where st: "seg_set addr k (fst v) (ucast (snd v)) seg = Inr (c, r)"
    and ok: "\<And>seg'. r = Some seg' \<Longrightarrow> seg_inv seg' \<and>
       (\<forall>j. j \<noteq> [] \<longrightarrow> seg_lookup seg' j = (if j = k then Some (fst v, ucast (ucast (snd v) :: u64)) else seg_lookup seg j))"
    using seg_set_ok[OF inv k', of addr "fst v" "ucast (snd v)"] by blast
  have no: "r = None \<longleftrightarrow> \<not> (seg_map seg k \<noteq> None \<or> card (dom (seg_map seg)) < SEG_CAPACITY)"
    using seg_set_refused[OF inv st] k'(1) by (auto simp: seg_map_card(2)[OF inv] seg_map_def seg_lookup_def)
  show ?thesis
  proof (cases r)
    case None
    then show ?thesis using no st inv by (simp add: seg_step_def bounded_map_op_def ex_bool_eq)
  next
    case (Some seg')
    then have "seg_map seg' = (seg_map seg)(k \<mapsto> v)" using ok[OF Some] k'(1) by (auto simp: seg_map_def fun_eq_iff ucast_ucast_u48)
    then show ?thesis using no st ok[OF Some] Some by (simp add: seg_step_def bounded_map_op_def ex_bool_eq)
  qed
qed

lemma seg_delete_refines:
  assumes inv: "seg_inv seg" and k: "legal_key k"
  shows "\<exists>seg' b. seg_step addr (k, None) seg = Inr (seg', b) \<and> seg_inv seg' \<and>
    bounded_map_op cap (k, None) (seg_map seg) = (seg_map seg', b)"
proof (cases "seg_lookup seg k")
  case None
  moreover from this have "(seg_map seg)(k := None) = seg_map seg" by (auto simp: seg_map_def fun_eq_iff)
  ultimately show ?thesis using seg_delete_ok[OF inv, of k] inv k by (simp add: seg_step_def bounded_map_op_def legal_key_def seg_map_def ex_bool_eq)
next
  case (Some v)
  then obtain seg' where d: "seg_delete k seg = Inr (Some seg')" "seg_inv seg'"
    and l: "\<forall>j. j \<noteq> [] \<longrightarrow> seg_lookup seg' j = (if j = k then None else seg_lookup seg j)"
    using seg_delete_ok[OF inv, of k] k by (auto simp: legal_key_def)
  have "(seg_map seg)(k := None) = seg_map seg'" using l by (auto simp: seg_map_def fun_eq_iff)
  moreover have "seg_map seg k \<noteq> None" using Some k by (simp add: seg_map_def legal_key_def)
  ultimately show ?thesis using d by (simp add: seg_step_def bounded_map_op_def ex_bool_eq)
qed

interpretation segmap: op_refinement seg_inv seg_map "\<lambda>x _. legal_key (fst x)" "seg_step addr" "bounded_map_op SEG_CAPACITY" for addr
proof
  fix s and x :: "u8 list \<times> (u32 \<times> u48) option"
  assume i: "seg_inv s" and k: "legal_key (fst x)"
  show "\<exists>s' b. seg_step addr x s = Inr (s', b) \<and> seg_inv s' \<and> bounded_map_op SEG_CAPACITY x (seg_map s) = (seg_map s', b)"
    using seg_set_refines[OF i k] seg_delete_refines[OF i k] by (cases x; cases "snd x") auto
qed

lemma legal_run_ready: "\<forall>x \<in> set ops. legal_key (fst x) \<Longrightarrow> run_ready (\<lambda>x _. legal_key (fst x)) step ops s"
  by (induction ops arbitrary: s) (auto split: sum.splits)

section \<open>Properties\<close>

lemma empty_seg_inv: "seg_inv (kv_bucket_seg_init b)"
  by (simp add: seg_inv_def seg_wf_def kv_bucket_seg_init_def items_inv_def rows_def rect_def live_def distinct_keys_def)

text \<open>
  Setting a key in the chain of its bucket never aborts; it either makes the key map to
  the new value place and leaves every other key alone, or refuses because the chain has
  its 127 buckets and the key is not there. The chain stays well formed.
\<close>

theorem seg_set_correct:
  assumes "seg_inv seg" and "k \<noteq> []" and "length k \<le> KV_MAX_KEY_LENGTH"
  shows "\<exists>created r. seg_set addr k len off seg = Inr (created, r) \<and>
    (r = None \<longrightarrow> length (seg_buckets seg) = 127 \<and> seg_lookup seg k = None) \<and>
    (\<forall>seg'. r = Some seg' \<longrightarrow> seg_inv seg' \<and>
      (\<forall>j. j \<noteq> [] \<longrightarrow> seg_lookup seg' j = (if j = k then Some (len, ucast off) else seg_lookup seg j)))"
  using seg_set_ok[OF assms, of addr len off] unfolding seg_lookup_def by fastforce

theorem seg_set_correct_witness:
  "\<exists>created seg'. seg_set 0 [1, 2] 7 9 (kv_bucket_seg_init 5) = Inr (created, Some seg') \<and>
     seg_lookup seg' [1, 2] = Some (7, ucast (9 :: u64))"
proof -
  have l: "length (seg_buckets (kv_bucket_seg_init 5)) \<noteq> 127" by (simp add: kv_bucket_seg_init_def)
  have k: "[1, 2 :: u8] \<noteq> []" "length [1, 2 :: u8] \<le> KV_MAX_KEY_LENGTH" by (simp_all add: KV_MAX_KEY_LENGTH_def)
  obtain created r where r: "seg_set 0 [1, 2] 7 9 (kv_bucket_seg_init 5) = Inr (created, r)"
      "r = None \<longrightarrow> length (seg_buckets (kv_bucket_seg_init 5)) = 127"
      "\<forall>seg'. r = Some seg' \<longrightarrow> (\<forall>j. j \<noteq> [] \<longrightarrow> seg_lookup seg' j = (if j = [1, 2] then Some (7, ucast (9 :: u64)) else seg_lookup (kv_bucket_seg_init 5) j))"
    using seg_set_correct[OF empty_seg_inv k, of 0 7 9 5] by blast
  obtain seg' where s: "r = Some seg'" using r(2) l by (cases r) auto
  have "seg_lookup seg' [1, 2] = Some (7, ucast (9 :: u64))" using r(3)[rule_format, OF s k(1)] by (simp only: refl if_True)
  then show ?thesis using r(1) s by blast
qed

text \<open>
  Deleting a key from the chain of its bucket never aborts: it reports a missing key, and
  otherwise removes exactly this key. The moves that fill the hole and free the last bucket
  lose no other key.
\<close>

theorem seg_delete_correct:
  assumes "seg_inv seg" and "k \<noteq> []"
  shows "(seg_lookup seg k = None \<longrightarrow> seg_delete k seg = Inr None) \<and>
    (seg_lookup seg k \<noteq> None \<longrightarrow> (\<exists>seg'. seg_delete k seg = Inr (Some seg') \<and> seg_inv seg' \<and>
      (\<forall>j. j \<noteq> [] \<longrightarrow> seg_lookup seg' j = (if j = k then None else seg_lookup seg j))))"
  using seg_delete_ok[OF assms] by blast

theorem seg_delete_correct_witness:
  "\<exists>seg seg'. seg_lookup seg [3] \<noteq> None \<and> seg_delete [3] seg = Inr (Some seg') \<and> seg_lookup seg' [3] = None"
proof -
  have k: "[3 :: u8] \<noteq> []" "length [3 :: u8] \<le> KV_MAX_KEY_LENGTH" by (simp_all add: KV_MAX_KEY_LENGTH_def)
  have l: "length (seg_buckets (kv_bucket_seg_init 5)) \<noteq> 127" by (simp add: kv_bucket_seg_init_def)
  obtain seg where s: "seg_inv seg" "seg_lookup seg [3] \<noteq> None"
    using seg_set_ok[OF empty_seg_inv k, of 0 7 9 5] l k(1) by (metis option.distinct(1) option.exhaust)
  then show ?thesis using seg_delete_correct[OF s(1) k(1)] k(1) by (metis)
qed

text \<open>
  C5. A chain of buckets is a map with room for 127 * 16 keys. Any sequence of sets and deletes
  of legal keys runs to its end without an abort, every operation is answered as the map
  answers it (a delete with whether the key was there, a set with whether it was there or
  there was room), the chain stays well formed and holds exactly the map that results.
  \<open>None\<close> as the second component of an operation deletes.
\<close>

theorem segment_run_is_map:
  assumes "seg_inv seg" and "\<forall>x \<in> set ops. legal_key (fst x)"
  shows "\<exists>seg' answers. run_steps (seg_step addr) ops seg = Inr (seg', answers) \<and> seg_inv seg' \<and>
    run_spec (bounded_map_op SEG_CAPACITY) ops (seg_map seg) = (seg_map seg', answers)"
  using segmap.run_refines[OF assms(1) legal_run_ready[OF assms(2)]] .

theorem segment_run_is_map_witness:
  "\<exists>seg'. run_steps (seg_step 0) [([1], Some (2, 3)), ([4], Some (5, 6)), ([1], None), ([1], None)] (kv_bucket_seg_init 5) =
      Inr (seg', [True, True, True, False]) \<and> seg_map seg' = [[4] \<mapsto> (5, 6)]"
proof -
  let ?ops = "[([1 :: u8], Some (2 :: u32, 3 :: u48)), ([4], Some (5, 6)), ([1], None), ([1], None)]"
  have "\<forall>x \<in> set ?ops. legal_key (fst x)" by (simp add: legal_key_def KV_MAX_KEY_LENGTH_def)
  from segment_run_is_map[OF empty_seg_inv this, of 0 5] obtain seg' answers where
    r: "run_steps (seg_step 0) ?ops (kv_bucket_seg_init 5) = Inr (seg', answers)"
      "run_spec (bounded_map_op SEG_CAPACITY) ?ops (seg_map (kv_bucket_seg_init 5)) = (seg_map seg', answers)" by blast
  have e: "seg_map (kv_bucket_seg_init 5) = Map.empty"
    by (simp add: seg_map_def seg_lookup_def find_item_plus_def kv_bucket_seg_init_def fun_eq_iff)
  have "[[1 :: u8] \<mapsto> v, [4] \<mapsto> w]([1] := None) = [[4] \<mapsto> w]" for v w :: "u32 \<times> u48" by (simp add: fun_eq_iff)
  then have "seg_map seg' = [[4] \<mapsto> (5, 6)] \<and> answers = [True, True, True, False]"
    using r(2)[unfolded e] by (simp add: bounded_map_op_def SEG_CAPACITY_def KV_ITEM_PER_BUCKET_def)
  then show ?thesis using r(1) by auto
qed

end
