(* ===== verification/Kv_Bucket_Lock.thy ===== *)
theory Kv_Bucket_Lock
  imports Kv_Bucket_Log "HOL-Library.Multiset"
begin

unbundle bit_operations_syntax

text \<open>
  The bucket lock of \<open>kv_bucket.cpp\<close>. A request names a list of segments; it is granted when
  none of their buckets is locked, and it is called back when the chains of all of them are
  in memory. Requests that have to wait prefetch their chains, and an unlock hands a clean
  chain over to the first waiting request for the same bucket. A request is named by a
  number, a segment object by its request and its bucket.
\<close>

section \<open>State\<close>

text \<open>
  \<open>lk_segments\<close>: for a bucket the request whose segment object holds or will hold the chain,
  and the context that waits for it. \<open>lk_ctxs\<close>: the contexts that have not been called back
  with their counters. \<open>lk_segs\<close>: the segment objects of the callers.
\<close>

record 'c bucket_lock =
  lk_locked :: "u64 list"
  lk_segments :: "u64 \<rightharpoonup> nat \<times> nat option"
  lk_queue :: "nat list"
  lk_ctxs :: "nat \<rightharpoonup> u32 \<times> 'c option"
  lk_segs :: "nat \<Rightarrow> kv_bucket_segment list"

datatype 'c lk_event =
  Lk_read u64 nat seg_get_result
| Lk_send 'c

type_synonym 'c lk_result = "('c bucket_lock \<times> 'c lk_event list) res"

definition kv_bucket_lock_init :: "'c bucket_lock" where
  "kv_bucket_lock_init =
     \<lparr>lk_locked = [], lk_segments = Map.empty, lk_queue = [], lk_ctxs = Map.empty, lk_segs = (\<lambda>_. [])\<rparr>"

definition find_seg :: "'c bucket_lock \<Rightarrow> nat \<Rightarrow> u64 \<Rightarrow> kv_bucket_segment option" where
  "find_seg l q b = List.find (\<lambda>s. seg_bucket_id s = b) (lk_segs l q)"

definition put_seg :: "nat \<Rightarrow> kv_bucket_segment \<Rightarrow> 'c bucket_lock \<Rightarrow> 'c bucket_lock" where
  "put_seg q seg l =
     l\<lparr>lk_segs := (lk_segs l)(q := map (\<lambda>s. if seg_bucket_id s = seg_bucket_id seg then seg else s) (lk_segs l q))\<rparr>"

definition seg_ids :: "'c bucket_lock \<Rightarrow> nat \<Rightarrow> u64 list" where
  "seg_ids l q = map seg_bucket_id (lk_segs l q)"

section \<open>Operations\<close>

text \<open>\<open>segment_move\<close> returns the source and the destination.\<close>

definition segment_move ::
  "kv_bucket_segment \<Rightarrow> kv_bucket_segment \<Rightarrow> (kv_bucket_segment \<times> kv_bucket_segment) res" where
  "segment_move src dst =
     rbind (c_assert (seg_bucket_id dst = seg_bucket_id src)) (\<lambda>_.
     rbind (c_assert (seg_chain dst = [] \<and> seg_empty dst \<and> \<not> seg_dirty dst)) (\<lambda>_.
     rbind (c_assert (\<not> seg_empty src \<and> \<not> seg_dirty src)) (\<lambda>_.
       Inr (src\<lparr>seg_chain := [], seg_empty := True\<rparr>,
            dst\<lparr>seg_chain := seg_chain dst @ seg_chain src, seg_empty := False\<rparr>))))"

definition move_between :: "nat \<Rightarrow> nat \<Rightarrow> u64 \<Rightarrow> 'c bucket_lock \<Rightarrow> 'c bucket_lock res" where
  "move_between q q' b l =
     (case (find_seg l q b, find_seg l q' b) of
        (Some src, Some dst) \<Rightarrow>
          rbind (segment_move src dst) (\<lambda>(src', dst').
            Inr ((put_seg q' dst' (put_seg q src' l))\<lparr>lk_segments := (lk_segments l)(b \<mapsto> (q', snd (the (lk_segments l b))))\<rparr>))
      | _ \<Rightarrow> Inl Null_deref)"

text \<open>One more chain of context \<open>c\<close> is there; the last one sends the callback and deletes the context.\<close>

definition ctx_loaded :: "nat \<Rightarrow> 'c bucket_lock \<Rightarrow> 'c lk_result" where
  "ctx_loaded c l =
     (case lk_ctxs l c of
        None \<Rightarrow> Inl Null_deref
      | Some x \<Rightarrow>
          if fst x - 1 = 0
          then Inr (l\<lparr>lk_ctxs := (lk_ctxs l)(c := None)\<rparr>, case snd x of None \<Rightarrow> [] | Some cb \<Rightarrow> [Lk_send cb])
          else Inr (l\<lparr>lk_ctxs := (lk_ctxs l)(c \<mapsto> (fst x - 1, snd x))\<rparr>, []))"

text \<open>The chain of bucket \<open>b\<close> is in memory.\<close>

definition lock_get_seg_cb :: "bool \<Rightarrow> u64 \<Rightarrow> 'c bucket_lock \<Rightarrow> 'c lk_result" where
  "lock_get_seg_cb success b l =
     (if \<not> success then Inl Exit_fail
      else case lk_segments l b of
             None \<Rightarrow> Inl Null_deref
           | Some (q, None) \<Rightarrow> Inr (l, [])
           | Some (q, Some c) \<Rightarrow>
               rbind (if q \<noteq> c \<and> find_seg l c b \<noteq> None then move_between q c b l else Inr l) (\<lambda>l1.
                 ctx_loaded c (l1\<lparr>lk_segments := (lk_segments l1)(b \<mapsto> (fst (the (lk_segments l1 b)), None))\<rparr>)))"

definition lockable :: "'c bucket_lock \<Rightarrow> u64 list \<Rightarrow> bool" where
  "lockable l ids \<longleftrightarrow> list_all (\<lambda>b. b \<notin> set (lk_locked l)) ids"

text \<open>
  A read of the chain of \<open>b\<close> into the segment object of request \<open>q\<close>; the address and the
  buffer come from the allocator. An empty bucket calls back at once.
\<close>

type_synonym seg_alloc = "u64 \<Rightarrow> u64 \<times> kv_bucket list"

definition start_seg_get :: "kv_bucket_log \<Rightarrow> seg_alloc \<Rightarrow> nat \<Rightarrow> u64 \<Rightarrow> 'c bucket_lock \<Rightarrow> 'c lk_result" where
  "start_seg_get bl al q b l =
     (case find_seg l q b of
        None \<Rightarrow> Inl Null_deref
      | Some seg \<Rightarrow>
          rbind (kv_bucket_seg_get bl seg None (fst (al b)) (snd (al b))) (\<lambda>(seg', r).
            let l1 = put_seg q seg' l in
            case r of
              Seg_done ok \<Rightarrow> lock_get_seg_cb ok b l1
            | Seg_reading _ \<Rightarrow> Inr (l1, [Lk_read b q r])))"

fun request_segs :: "kv_bucket_log \<Rightarrow> seg_alloc \<Rightarrow> nat \<Rightarrow> u64 list \<Rightarrow> 'c bucket_lock \<Rightarrow> 'c lk_result" where
  "request_segs bl al c [] l = Inr (l, [])"
| "request_segs bl al c (b # bs) l =
     rbind (case lk_segments l b of
              Some (q, w) \<Rightarrow>
                rbind (c_assert (w = None)) (\<lambda>_.
                  let l1 = l\<lparr>lk_segments := (lk_segments l)(b \<mapsto> (q, Some c))\<rparr> in
                  case find_seg l1 q b of
                    None \<Rightarrow> Inl Null_deref
                  | Some seg \<Rightarrow> if \<not> seg_empty seg then lock_get_seg_cb True b l1 else Inr (l1, []))
            | None \<Rightarrow> start_seg_get bl al c b (l\<lparr>lk_segments := (lk_segments l)(b \<mapsto> (c, Some c))\<rparr>)) (\<lambda>(l2, evs).
     rbind (request_segs bl al c bs l2) (\<lambda>(l3, evs'). Inr (l3, evs @ evs')))"

definition try_lock :: "kv_bucket_log \<Rightarrow> seg_alloc \<Rightarrow> nat \<Rightarrow> 'c bucket_lock \<Rightarrow> (bool \<times> 'c bucket_lock \<times> 'c lk_event list) res" where
  "try_lock bl al c l =
     (let ids = seg_ids l c in
      if \<not> lockable l ids then Inr (False, l, [])
      else case lk_ctxs l c of
             None \<Rightarrow> Inl Null_deref
           | Some (n, cb) \<Rightarrow>
               let l1 = l\<lparr>lk_locked := lk_locked l @ ids, lk_ctxs := (lk_ctxs l)(c \<mapsto> (n + word_of_nat (length ids), cb))\<rparr>
               in rbind (request_segs bl al c ids l1) (\<lambda>(l2, evs). Inr (True, l2, evs)))"

fun prefetch_segs :: "kv_bucket_log \<Rightarrow> seg_alloc \<Rightarrow> nat \<Rightarrow> u64 list \<Rightarrow> 'c bucket_lock \<Rightarrow> 'c lk_result" where
  "prefetch_segs bl al c [] l = Inr (l, [])"
| "prefetch_segs bl al c (b # bs) l =
     rbind (if lk_segments l b = None
            then start_seg_get bl al c b (l\<lparr>lk_segments := (lk_segments l)(b \<mapsto> (c, None))\<rparr>)
            else Inr (l, [])) (\<lambda>(l1, evs).
     rbind (prefetch_segs bl al c bs l1) (\<lambda>(l2, evs'). Inr (l2, evs @ evs')))"

text \<open>\<open>kv_bucket_lock\<close> of request \<open>c\<close>, which the caller has not used before.\<close>

definition kv_bucket_lock ::
  "kv_bucket_log \<Rightarrow> seg_alloc \<Rightarrow> nat \<Rightarrow> kv_bucket_segment list \<Rightarrow> 'c option \<Rightarrow> 'c bucket_lock \<Rightarrow> 'c lk_result" where
  "kv_bucket_lock bl al c segs cb l =
     (let l0 = l\<lparr>lk_segs := (lk_segs l)(c := segs), lk_ctxs := (lk_ctxs l)(c \<mapsto> (0, cb))\<rparr> in
      rbind (try_lock bl al c l0) (\<lambda>(ok, l1, evs).
        if ok then Inr (l1, evs)
        else rbind (prefetch_segs bl al c (seg_ids l1 c) (l1\<lparr>lk_queue := lk_queue l1 @ [c]\<rparr>)) (\<lambda>(l2, evs'). Inr (l2, evs @ evs'))))"

text \<open>The first waiting request that has a segment of bucket \<open>b\<close>.\<close>

definition next_owner :: "'c bucket_lock \<Rightarrow> u64 \<Rightarrow> nat option" where
  "next_owner l b = List.find (\<lambda>c. b \<in> set (seg_ids l c)) (lk_queue l)"

fun release_segs :: "nat \<Rightarrow> u64 list \<Rightarrow> 'c bucket_lock \<Rightarrow> 'c bucket_lock res" where
  "release_segs q [] l = Inr l"
| "release_segs q (b # bs) l =
     (case (lk_segments l b, find_seg l q b) of
        (Some (q', w), Some seg) \<Rightarrow>
          rbind (c_assert (q' = q)) (\<lambda>_.
            let l1 = l\<lparr>lk_locked := removeAll b (lk_locked l)\<rparr> in
            rbind (case (if seg_dirty seg then None else next_owner l1 b) of
                     Some c \<Rightarrow> move_between q c b l1
                   | None \<Rightarrow> Inr (put_seg q (kv_bucket_seg_cleanup seg) (l1\<lparr>lk_segments := (lk_segments l1)(b := None)\<rparr>)))
              (release_segs q bs))
      | _ \<Rightarrow> Inl Assert_fail)"

fun grant_queue :: "kv_bucket_log \<Rightarrow> seg_alloc \<Rightarrow> nat list \<Rightarrow> 'c bucket_lock \<Rightarrow> (nat list \<times> 'c bucket_lock \<times> 'c lk_event list) res" where
  "grant_queue bl al [] l = Inr ([], l, [])"
| "grant_queue bl al (c # cs) l =
     rbind (try_lock bl al c l) (\<lambda>(ok, l1, evs).
     rbind (grant_queue bl al cs l1) (\<lambda>(rest, l2, evs'). Inr (if ok then rest else c # rest, l2, evs @ evs')))"

text \<open>
  \<open>kv_bucket_unlock\<close> of the segments of request \<open>q\<close> whose buckets are \<open>bs\<close>, a list its caller has
  chosen; the rest of the request stays locked.
\<close>

definition kv_bucket_unlock :: "kv_bucket_log \<Rightarrow> seg_alloc \<Rightarrow> nat \<Rightarrow> u64 list \<Rightarrow> 'c bucket_lock \<Rightarrow> 'c lk_result" where
  "kv_bucket_unlock bl al q bs l =
     rbind (release_segs q bs l) (\<lambda>l1.
     rbind (grant_queue bl al (lk_queue l1) l1) (\<lambda>(rest, l2, evs).
       Inr (l2\<lparr>lk_queue := rest\<rparr>, evs)))"

text \<open>
  The callers take the segments they unlock out of the list of the request and free them, as
  \<open>compact_lock_cb\<close> of the value log does with the segments none of whose items moves.
\<close>

definition drop_segs :: "nat \<Rightarrow> u64 list \<Rightarrow> 'c bucket_lock \<Rightarrow> 'c bucket_lock" where
  "drop_segs q bs l = l\<lparr>lk_segs := (lk_segs l)(q := filter (\<lambda>s. seg_bucket_id s \<notin> set bs) (lk_segs l q))\<rparr>"

section \<open>What the chains do not change\<close>

definition lk_frame :: "'c bucket_lock \<Rightarrow> 'c bucket_lock \<Rightarrow> bool" where
  "lk_frame l l' \<longleftrightarrow> lk_locked l' = lk_locked l \<and> lk_queue l' = lk_queue l \<and> seg_ids l' = seg_ids l"

lemma lk_frame_refl [simp]: "lk_frame l l"
  by (simp add: lk_frame_def)

lemma lk_frame_trans: "lk_frame a b \<Longrightarrow> lk_frame b c \<Longrightarrow> lk_frame a c"
  by (simp add: lk_frame_def)

lemma lk_frame_upd [simp]:
  "lk_frame l (l'\<lparr>lk_segments := m\<rparr>) = lk_frame l l'" "lk_frame (l\<lparr>lk_segments := m\<rparr>) l' = lk_frame l l'"
  "lk_frame l (l'\<lparr>lk_ctxs := x\<rparr>) = lk_frame l l'" "lk_frame (l\<lparr>lk_ctxs := x\<rparr>) l' = lk_frame l l'"
  by (simp_all add: lk_frame_def seg_ids_def fun_eq_iff)

lemma put_seg_frame [simp]: "lk_frame l (put_seg q seg l') = lk_frame l l'"
proof -
  have "map seg_bucket_id (map (\<lambda>s. if seg_bucket_id s = seg_bucket_id seg then seg else s) xs) = map seg_bucket_id xs" for xs
    by (induction xs) auto
  then have "seg_ids (put_seg q seg l') = seg_ids l'" by (auto simp: seg_ids_def put_seg_def fun_eq_iff)
  moreover have "lk_locked (put_seg q seg l') = lk_locked l'" "lk_queue (put_seg q seg l') = lk_queue l'"
    by (simp_all add: put_seg_def)
  ultimately show ?thesis by (simp add: lk_frame_def)
qed

lemma move_between_frame: "move_between q q' b l = Inr l' \<Longrightarrow> lk_frame l l'"
  by (auto simp: move_between_def res_simps split: option.splits prod.splits)

lemma ctx_loaded_frame: "ctx_loaded c l = Inr (l', evs) \<Longrightarrow> lk_frame l l'"
  by (cases "lk_ctxs l c") (auto simp: ctx_loaded_def split: if_splits)

lemma get_cb_frame:
  assumes "lock_get_seg_cb ok b l = Inr (l', evs)"
  shows "lk_frame l l'"
proof -
  have ok: ok using assms by (auto simp: lock_get_seg_cb_def split: if_splits)
  obtain q w where q: "lk_segments l b = Some (q, w)"
    using assms ok by (auto simp: lock_get_seg_cb_def split: option.splits)
  show ?thesis
  proof (cases w)
    case None
    then show ?thesis using assms ok q by (simp add: lock_get_seg_cb_def)
  next
    case (Some c)
    let ?s = "\<lambda>l1. l1\<lparr>lk_segments := (lk_segments l1)(b \<mapsto> (fst (the (lk_segments l1 b)), None))\<rparr>"
    obtain l1 where l1: "(if q \<noteq> c \<and> find_seg l c b \<noteq> None then move_between q c b l else Inr l) = Inr l1"
      and r: "ctx_loaded c (?s l1) = Inr (l', evs)"
      using assms ok q Some by (auto simp: lock_get_seg_cb_def rbind_eq_Inr_iff)
    have "lk_frame l l1" using l1 move_between_frame[of q c b l l1] by (auto split: if_splits)
    then have "lk_frame l (?s l1)" by simp
    then show ?thesis using ctx_loaded_frame[OF r] lk_frame_trans by blast
  qed
qed

lemma start_seg_get_frame:
  assumes "start_seg_get bl al q b l = Inr (l', evs)"
  shows "lk_frame l l'"
proof -
  obtain seg0 where f: "find_seg l q b = Some seg0" using assms by (cases "find_seg l q b") (auto simp: start_seg_get_def)
  obtain seg r where g: "kv_bucket_seg_get bl seg0 None (fst (al b)) (snd (al b)) = Inr (seg, r)"
    using assms f by (auto simp: start_seg_get_def rbind_eq_Inr_iff)
  have p: "lk_frame l (put_seg q seg l)" by simp
  show ?thesis
  proof (cases r)
    case (Seg_done ok)
    then have "lock_get_seg_cb ok b (put_seg q seg l) = Inr (l', evs)" using assms f g by (simp add: start_seg_get_def)
    then show ?thesis using get_cb_frame p lk_frame_trans by blast
  next
    case (Seg_reading x)
    then show ?thesis using assms f g by (auto simp: start_seg_get_def)
  qed
qed

lemma request_segs_frame: "request_segs bl al c bs l = Inr (l', evs) \<Longrightarrow> lk_frame l l'"
proof (induction bs arbitrary: l l' evs)
  case (Cons b bs)
  obtain l2 e1 e2 where r: "request_segs bl al c bs l2 = Inr (l', e2)"
    and s: "(case lk_segments l b of
              Some (q, w) \<Rightarrow>
                rbind (c_assert (w = None)) (\<lambda>_.
                  let l1 = l\<lparr>lk_segments := (lk_segments l)(b \<mapsto> (q, Some c))\<rparr> in
                  case find_seg l1 q b of
                    None \<Rightarrow> Inl Null_deref
                  | Some seg \<Rightarrow> if \<not> seg_empty seg then lock_get_seg_cb True b l1 else Inr (l1, []))
            | None \<Rightarrow> start_seg_get bl al c b (l\<lparr>lk_segments := (lk_segments l)(b \<mapsto> (c, Some c))\<rparr>)) = Inr (l2, e1)"
    using Cons.prems by (auto simp: res_simps)
  have "lk_frame l l2" using s
    by (auto simp: res_simps Let_def split: option.splits prod.splits if_splits dest!: get_cb_frame start_seg_get_frame)
  then show ?case using Cons.IH[OF r] lk_frame_trans by blast
qed simp

lemma prefetch_segs_frame: "prefetch_segs bl al c bs l = Inr (l', evs) \<Longrightarrow> lk_frame l l'"
proof (induction bs arbitrary: l l' evs)
  case (Cons b bs)
  obtain l2 e1 e2 where r: "prefetch_segs bl al c bs l2 = Inr (l', e2)"
    and s: "(if lk_segments l b = None then start_seg_get bl al c b (l\<lparr>lk_segments := (lk_segments l)(b \<mapsto> (c, None))\<rparr>) else Inr (l, [])) = Inr (l2, e1)"
    using Cons.prems by (auto simp: res_simps)
  have "lk_frame l l2" using s start_seg_get_frame[of bl al c b "l\<lparr>lk_segments := (lk_segments l)(b \<mapsto> (c, None))\<rparr>" l2 e1]
    by (auto split: if_splits)
  then show ?case using Cons.IH[OF r] lk_frame_trans by blast
qed simp

lemma try_lock_cases:
  assumes "try_lock bl al c l = Inr (ok, l', evs)"
  shows "lk_queue l' = lk_queue l \<and> seg_ids l' = seg_ids l \<and> ok = lockable l (seg_ids l c) \<and>
    lk_locked l' = (if ok then lk_locked l @ seg_ids l c else lk_locked l)"
proof (cases "lockable l (seg_ids l c)")
  case True
  obtain x where x: "lk_ctxs l c = Some x" using assms True by (auto simp: try_lock_def Let_def split: option.splits)
  let ?l1 = "l\<lparr>lk_locked := lk_locked l @ seg_ids l c, lk_ctxs := (lk_ctxs l)(c \<mapsto> (fst x + word_of_nat (length (seg_ids l c)), snd x))\<rparr>"
  have "request_segs bl al c (seg_ids l c) ?l1 = Inr (l', evs)" "ok"
    using assms True x by (auto simp: try_lock_def Let_def res_simps split: prod.splits)
  then show ?thesis using request_segs_frame[of bl al c _ ?l1 l' evs] True
    by (simp add: lk_frame_def seg_ids_def fun_eq_iff)
next
  case False
  then show ?thesis using assms by (simp add: try_lock_def)
qed

lemma release_segs_cases:
  "release_segs q bs l = Inr l' \<Longrightarrow> lk_queue l' = lk_queue l \<and> seg_ids l' = seg_ids l \<and>
     lk_locked l' = filter (\<lambda>b. b \<notin> set bs) (lk_locked l)"
proof (induction bs arbitrary: l)
  case (Cons b bs)
  let ?l1 = "l\<lparr>lk_locked := removeAll b (lk_locked l)\<rparr>"
  obtain l2 where r: "release_segs q bs l2 = Inr l'" and f: "lk_frame ?l1 l2"
    using Cons.prems
    by (auto simp: res_simps Let_def split: option.splits prod.splits if_splits dest: move_between_frame)
  have "lk_locked l2 = removeAll b (lk_locked l)" "lk_queue l2 = lk_queue l" "seg_ids l2 = seg_ids l"
    using f by (simp_all add: lk_frame_def seg_ids_def fun_eq_iff)
  then show ?case using Cons.IH[OF r] by (auto simp: removeAll_filter_not_eq intro: filter_cong)
qed simp

section \<open>Mutual exclusion\<close>

text \<open>
  \<open>held\<close> are the requests that have been granted and not unlocked. The locked buckets are
  those of the held requests, each held once, and every waiting request needs one of them.
\<close>

definition lock_inv :: "'c bucket_lock \<Rightarrow> nat list \<Rightarrow> bool" where
  "lock_inv l held \<longleftrightarrow>
     mset (lk_locked l) = mset (concat (map (seg_ids l) held)) \<and> distinct (lk_locked l) \<and>
     distinct (held @ lk_queue l) \<and> (\<forall>c \<in> set (lk_queue l). \<not> lockable l (seg_ids l c) \<and> distinct (seg_ids l c))"

lemma lockable_iff: "lockable l ids \<longleftrightarrow> set ids \<inter> set (lk_locked l) = {}"
  by (auto simp: lockable_def list_all_iff)

lemma lock_inv_frame:
  assumes "lock_inv l held" and "lk_frame l l'"
  shows "lock_inv l' held"
  using assms by (simp add: lock_inv_def lk_frame_def lockable_def)

lemma grant_queue_ok:
  assumes "grant_queue bl al cs l = Inr (rest, l', evs)"
    and "distinct (lk_locked l)" and "\<forall>c \<in> set cs. distinct (seg_ids l c)"
  shows "lk_queue l' = lk_queue l \<and> seg_ids l' = seg_ids l \<and> distinct (lk_locked l') \<and>
    mset (lk_locked l') = mset (lk_locked l) + mset (concat (map (seg_ids l) (filter (\<lambda>c. c \<notin> set rest) cs))) \<or> \<not> distinct cs"
  using assms
proof (induction cs arbitrary: l rest evs)
  case (Cons c cs)
  obtain ok l1 e1 rest1 e2 where t: "try_lock bl al c l = Inr (ok, l1, e1)" and g: "grant_queue bl al cs l1 = Inr (rest1, l', e2)"
    and r: "rest = (if ok then rest1 else c # rest1)"
    using Cons.prems(1) by (auto simp: rbind_eq_Inr_iff split: prod.splits)
  note tc = try_lock_cases[OF t]
  have sub: "set rest1 \<subseteq> set cs" using g
  proof (induction cs arbitrary: l1 rest1 e2)
    case (Cons d ds)
    then show ?case by (fastforce simp: rbind_eq_Inr_iff split: if_splits prod.splits)
  qed simp
  have d1: "distinct (lk_locked l1)"
    using tc Cons.prems(2,3) by (auto simp: lockable_iff split: if_splits)
  have ih: "lk_queue l' = lk_queue l1 \<and> seg_ids l' = seg_ids l1 \<and> distinct (lk_locked l') \<and>
    mset (lk_locked l') = mset (lk_locked l1) + mset (concat (map (seg_ids l1) (filter (\<lambda>c. c \<notin> set rest1) cs))) \<or> \<not> distinct cs"
    using Cons.IH[OF g d1] tc Cons.prems(3) by simp
  show ?case
  proof (cases "distinct (c # cs)")
    case True
    then have "c \<notin> set rest1" using sub by auto
    have "filter (\<lambda>x. x \<notin> set rest) (c # cs) = (if ok then [c] else []) @ filter (\<lambda>x. x \<notin> set rest1) cs"
      using r True \<open>c \<notin> set rest1\<close> by (auto intro!: filter_cong)
    then show ?thesis using ih tc True by (cases ok) simp_all
  qed simp
qed simp

lemma grant_queue_rest:
  "grant_queue bl al cs l = Inr (rest, l', evs) \<Longrightarrow>
     (\<forall>c \<in> set rest. c \<in> set cs \<and> set (seg_ids l' c) \<inter> set (lk_locked l') \<noteq> {}) \<and> set (lk_locked l) \<subseteq> set (lk_locked l') \<and>
     (distinct cs \<longrightarrow> distinct rest) \<and> seg_ids l' = seg_ids l"
proof (induction cs arbitrary: l rest evs)
  case (Cons c cs)
  obtain ok l1 e1 rest1 e2 where t: "try_lock bl al c l = Inr (ok, l1, e1)" and g: "grant_queue bl al cs l1 = Inr (rest1, l', e2)"
    and r: "rest = (if ok then rest1 else c # rest1)"
    using Cons.prems by (auto simp: rbind_eq_Inr_iff split: prod.splits)
  note tc = try_lock_cases[OF t] and ih = Cons.IH[OF g]
  have "set (lk_locked l) \<subseteq> set (lk_locked l1)" using tc by auto
  moreover have "\<not> ok \<Longrightarrow> set (seg_ids l c) \<inter> set (lk_locked l) \<noteq> {}" using tc by (auto simp: lockable_iff)
  ultimately show ?case using ih tc r by (cases ok) auto
qed simp

lemma mset_concat_remove1:
  "q \<in> set qs \<Longrightarrow> mset (concat (map f qs)) = mset (f q) + mset (concat (map f (remove1 q qs)))"
  by (induction qs) auto

lemma drop_segs_ids: "seg_ids (drop_segs q bs l) = (seg_ids l)(q := filter (\<lambda>b. b \<notin> set bs) (seg_ids l q))"
  by (simp add: drop_segs_def seg_ids_def fun_eq_iff filter_map o_def)

lemma drop_segs_same [simp]: "lk_locked (drop_segs q bs l) = lk_locked l" "lk_queue (drop_segs q bs l) = lk_queue l"
  by (simp_all add: drop_segs_def)

lemma distinct_concat_disjoint:
  "distinct (concat (map f xs)) \<Longrightarrow> distinct xs \<Longrightarrow> x \<in> set xs \<Longrightarrow> y \<in> set xs \<Longrightarrow> x \<noteq> y \<Longrightarrow> set (f x) \<inter> set (f y) = {}"
  by (induction xs) auto

text \<open>Buckets of one request of disjoint requests are taken away from that request only.\<close>

lemma filter_concat_disjoint:
  assumes "distinct (concat (map f qs))" and "q \<in> set qs" and "set bs \<subseteq> set (f q)" and "distinct qs"
  shows "filter (\<lambda>b. b \<notin> set bs) (concat (map f qs)) = concat (map (f(q := filter (\<lambda>b. b \<notin> set bs) (f q))) qs)"
proof -
  have "filter (\<lambda>b. b \<notin> set bs) (f c) = (f(q := filter (\<lambda>b. b \<notin> set bs) (f q))) c" if "c \<in> set qs" for c
  proof (cases "c = q")
    case False
    then have "set (f c) \<inter> set (f q) = {}" using distinct_concat_disjoint[OF assms(1,4) that assms(2)] by simp
    then show ?thesis using False assms(3) by (auto intro!: filter_True)
  qed simp
  then show ?thesis by (auto simp: filter_concat intro!: arg_cong[where f = concat])
qed

text \<open>The requests that still hold a bucket after \<open>bs\<close> have been unlocked.\<close>

definition still_held :: "'c bucket_lock \<Rightarrow> nat \<Rightarrow> u64 list \<Rightarrow> nat list \<Rightarrow> nat list" where
  "still_held l q bs held = (if set (seg_ids l q) \<subseteq> set bs then remove1 q held else held)"

lemma still_held_locked:
  assumes "lock_inv l held" and "q \<in> set held" and "set bs \<subseteq> set (seg_ids l q)"
  shows "mset (filter (\<lambda>b. b \<notin> set bs) (lk_locked l)) =
    mset (concat (map ((seg_ids l)(q := filter (\<lambda>b. b \<notin> set bs) (seg_ids l q))) (still_held l q bs held)))"
proof -
  let ?f = "(seg_ids l)(q := filter (\<lambda>b. b \<notin> set bs) (seg_ids l q))"
  have m: "mset (lk_locked l) = mset (concat (map (seg_ids l) held))" using assms(1) by (simp add: lock_inv_def)
  have d: "distinct (concat (map (seg_ids l) held))" "distinct held"
    using assms(1) mset_eq_imp_distinct_iff[OF m] by (auto simp: lock_inv_def)
  have "mset (filter (\<lambda>b. b \<notin> set bs) (lk_locked l)) = mset (filter (\<lambda>b. b \<notin> set bs) (concat (map (seg_ids l) held)))"
    using m by simp
  also have "\<dots> = mset (concat (map ?f held))" unfolding filter_concat_disjoint[OF d(1) assms(2,3) d(2)] ..
  also have "\<dots> = mset (concat (map ?f (still_held l q bs held)))"
  proof (cases "set (seg_ids l q) \<subseteq> set bs")
    case True
    then have "?f q = []" by (auto simp: filter_empty_conv)
    then show ?thesis using mset_concat_remove1[OF assms(2), of ?f] True by (simp add: still_held_def)
  qed (simp add: still_held_def)
  finally show ?thesis .
qed

lemma unlock_inv:
  assumes inv: "lock_inv l held" and q: "q \<in> set held" and bs: "set bs \<subseteq> set (seg_ids l q)"
    and u: "kv_bucket_unlock bl al q bs l = Inr (l', evs)"
  shows "lock_inv (drop_segs q bs l') (still_held l q bs held @ filter (\<lambda>c. c \<notin> set (lk_queue l')) (lk_queue l))"
proof -
  obtain l1 l2 rest where r: "release_segs q bs l = Inr l1" and g: "grant_queue bl al (lk_queue l1) l1 = Inr (rest, l2, evs)"
    and l': "l' = l2\<lparr>lk_queue := rest\<rparr>"
    using u by (auto simp: kv_bucket_unlock_def rbind_eq_Inr_iff)
  note rc = release_segs_cases[OF r]
  let ?h = "still_held l q bs held" and ?n = "filter (\<lambda>c. c \<notin> set rest) (lk_queue l)"
  let ?f = "(seg_ids l)(q := filter (\<lambda>b. b \<notin> set bs) (seg_ids l q))"
  have ids: "seg_ids l1 = seg_ids l" "lk_queue l1 = lk_queue l" using rc by auto
  have dq: "distinct (lk_queue l)" "distinct held" "set held \<inter> set (lk_queue l) = {}" using inv by (auto simp: lock_inv_def)
  have qn: "q \<notin> set (lk_queue l)" using q dq(3) by blast
  have d1: "distinct (lk_locked l1)" using rc inv by (simp add: lock_inv_def)
  have m1: "mset (lk_locked l1) = mset (concat (map ?f ?h))" using still_held_locked[OF inv q bs] rc by simp
  have gq: "lk_queue l2 = lk_queue l1 \<and> seg_ids l2 = seg_ids l1 \<and> distinct (lk_locked l2) \<and>
      mset (lk_locked l2) = mset (lk_locked l1) + mset (concat (map (seg_ids l1) (filter (\<lambda>c. c \<notin> set rest) (lk_queue l1))))"
    using grant_queue_ok[OF g d1] inv ids dq(1) by (auto simp: lock_inv_def)
  note gr = grant_queue_rest[OF g]
  have s': "seg_ids l' = seg_ids l" "lk_locked l' = lk_locked l2" "lk_queue l' = rest"
    using l' gq ids by (auto simp: seg_ids_def fun_eq_iff)
  have sd: "seg_ids (drop_segs q bs l') = ?f" using s'(1) by (simp add: drop_segs_ids)
  have "map (seg_ids l) ?n = map ?f ?n" using qn by auto
  then have "mset (concat (map (seg_ids l) ?n)) = mset (concat (map ?f ?n))" by (rule arg_cong)
  then have "mset (lk_locked l') = mset (concat (map ?f (?h @ ?n)))" using gq m1 ids s' by simp
  moreover have "\<forall>c \<in> set rest. set (?f c) \<inter> set (lk_locked l') \<noteq> {} \<and> distinct (?f c)"
  proof
    fix c assume "c \<in> set rest"
    then have "c \<in> set (lk_queue l)" "set (seg_ids l c) \<inter> set (lk_locked l') \<noteq> {}" using gr ids s' gq by auto
    then show "set (?f c) \<inter> set (lk_locked l') \<noteq> {} \<and> distinct (?f c)" using qn inv by (auto simp: lock_inv_def)
  qed
  moreover have "distinct ((?h @ ?n) @ rest)" using dq gr ids set_remove1_subset[of q held] by (auto simp: still_held_def)
  ultimately show ?thesis using gq s' by (simp add: lock_inv_def sd lockable_iff)
qed

lemma lock_request_inv:
  assumes inv: "lock_inv l held" and c: "c \<notin> set held" "c \<notin> set (lk_queue l)" and d: "distinct (map seg_bucket_id segs)"
    and u: "kv_bucket_lock bl al c segs cb l = Inr (l', evs)"
  shows "lock_inv l' (if c \<in> set (lk_queue l') then held else c # held)"
proof -
  let ?l0 = "l\<lparr>lk_segs := (lk_segs l)(c := segs), lk_ctxs := (lk_ctxs l)(c \<mapsto> (0, cb))\<rparr>"
  obtain ok l1 e1 where t: "try_lock bl al c ?l0 = Inr (ok, l1, e1)"
    and r: "ok \<Longrightarrow> l' = l1" "\<not> ok \<Longrightarrow> \<exists>e2. prefetch_segs bl al c (seg_ids l1 c) (l1\<lparr>lk_queue := lk_queue l1 @ [c]\<rparr>) = Inr (l', e2)"
    using u by (auto simp: kv_bucket_lock_def rbind_eq_Inr_iff Let_def split: if_splits)
  note tc = try_lock_cases[OF t]
  have i0: "seg_ids ?l0 = (seg_ids l)(c := map seg_bucket_id segs)" by (auto simp: seg_ids_def fun_eq_iff)
  have h: "map (seg_ids ?l0) held = map (seg_ids l) held" using c(1) i0 by auto
  have "mset (lk_locked ?l0) = mset (concat (map (seg_ids ?l0) held))" using inv unfolding h by (simp add: lock_inv_def)
  then have inv0: "lock_inv ?l0 held" using inv c(2) i0 by (auto simp: lock_inv_def lockable_def)
  show ?thesis
  proof (cases ok)
    case True
    then have lk: "set (seg_ids ?l0 c) \<inter> set (lk_locked ?l0) = {}" using tc by (simp add: lockable_iff)
    have "c \<notin> set (lk_queue l')" using True r(1) tc c(2) by simp
    moreover have "distinct (lk_locked l')" using True r(1) tc lk inv0 d i0 by (auto simp: lock_inv_def)
    moreover have "\<forall>x \<in> set (lk_queue l'). \<not> lockable l' (seg_ids l' x) \<and> distinct (seg_ids l' x)"
      using True r(1) tc inv0 by (auto simp: lock_inv_def lockable_iff)
    moreover have "mset (lk_locked l') = mset (concat (map (seg_ids l') (c # held)))"
      using True r(1) tc inv0 by (simp add: lock_inv_def)
    ultimately show ?thesis using True r(1) tc inv0 c by (simp add: lock_inv_def)
  next
    case False
    let ?l2 = "l1\<lparr>lk_queue := lk_queue l1 @ [c]\<rparr>"
    obtain e2 where p: "prefetch_segs bl al c (seg_ids l1 c) ?l2 = Inr (l', e2)" using r(2) False by blast
    note fr = prefetch_segs_frame[OF p]
    have s2: "seg_ids ?l2 = seg_ids ?l0" "lk_locked ?l2 = lk_locked ?l0" "lk_queue ?l2 = lk_queue ?l0 @ [c]"
      using tc False by (auto simp: seg_ids_def fun_eq_iff)
    have "lock_inv ?l2 held"
      using inv0 s2 tc False c d i0 by (auto simp: lock_inv_def lockable_def)
    then have "lock_inv l' held" using fr by (rule lock_inv_frame)
    moreover have "c \<in> set (lk_queue l')" using fr s2(3) by (simp add: lk_frame_def)
    ultimately show ?thesis by simp
  qed
qed

section \<open>Runs of the lock\<close>

text \<open>
  Requests, chains read by the device (\<open>seg\<close> is the segment object with the chain), edits of
  a held segment by its owner, and unlocks of all or some of the segments of a held request,
  in any order.
\<close>

inductive lock_step :: "'c bucket_lock \<times> nat list \<Rightarrow> 'c bucket_lock \<times> nat list \<Rightarrow> bool" where
  lk_request: "c \<notin> set held \<Longrightarrow> c \<notin> set (lk_queue l) \<Longrightarrow> distinct (map seg_bucket_id segs) \<Longrightarrow>
    kv_bucket_lock bl al c segs cb l = Inr (l', evs) \<Longrightarrow>
    lock_step (l, held) (l', if c \<in> set (lk_queue l') then held else c # held)"
| lk_loaded: "lock_get_seg_cb True (seg_bucket_id seg) (put_seg q seg l) = Inr (l', evs) \<Longrightarrow> lock_step (l, held) (l', held)"
| lk_edit: "q \<in> set held \<Longrightarrow> lock_step (l, held) (put_seg q seg l, held)"
| lk_unlock: "q \<in> set held \<Longrightarrow> set bs \<subseteq> set (seg_ids l q) \<Longrightarrow> kv_bucket_unlock bl al q bs l = Inr (l', evs) \<Longrightarrow>
    lock_step (l, held) (drop_segs q bs l', still_held l q bs held @ filter (\<lambda>c. c \<notin> set (lk_queue l')) (lk_queue l))"

lemma lock_step_inv:
  assumes "lock_step x y" and "lock_inv (fst x) (snd x)"
  shows "lock_inv (fst y) (snd y)"
  using assms
proof (cases rule: lock_step.cases)
  case (lk_request c held l segs bl al cb l' evs)
  then show ?thesis using lock_request_inv[OF _ lk_request(3-6)] assms(2) by simp
next
  case (lk_loaded seg q l l' evs held)
  have "lk_frame l l'" using get_cb_frame[OF lk_loaded(3)] lk_frame_trans[of l "put_seg q seg l" l'] by simp
  then show ?thesis using lock_inv_frame assms(2) lk_loaded by auto
next
  case (lk_edit q held l seg)
  then show ?thesis using lock_inv_frame[of l held "put_seg q seg l"] assms(2) by simp
next
  case (lk_unlock q held bs l bl al l' evs)
  then show ?thesis using unlock_inv[OF _ lk_unlock(3-5)] assms(2) by simp
qed

lemma lock_steps_inv:
  assumes "lock_step\<^sup>*\<^sup>* (kv_bucket_lock_init, []) (l, held)"
  shows "lock_inv l held"
proof -
  have "lock_inv (fst y) (snd y)" if "lock_step\<^sup>*\<^sup>* (kv_bucket_lock_init, []) y" for y :: "'a bucket_lock \<times> nat list"
    using that
  proof (induction rule: rtranclp_induct)
    case base
    then show ?case by (simp add: lock_inv_def kv_bucket_lock_init_def)
  next
    case (step y z)
    then show ?case using lock_step_inv by blast
  qed
  then show ?thesis using assms by fastforce
qed

section \<open>Properties\<close>

text \<open>
  C9. The bucket lock excludes: over any sequence of requests, reads, edits and unlocks, each
  unlock releasing all or some of the segments of a request, two granted requests never hold
  the same bucket, and exactly the buckets that the granted requests still have are locked.
\<close>

theorem bucket_lock_excludes:
  assumes "lock_step\<^sup>*\<^sup>* (kv_bucket_lock_init, []) (l, held)"
  shows "set (lk_locked l) = (\<Union>c \<in> set held. set (seg_ids l c)) \<and>
    (\<forall>a \<in> set held. \<forall>b \<in> set held. a \<noteq> b \<longrightarrow> set (seg_ids l a) \<inter> set (seg_ids l b) = {})"
proof -
  have inv: "lock_inv l held" using lock_steps_inv[OF assms] .
  have m: "mset (lk_locked l) = mset (concat (map (seg_ids l) held))" using inv by (simp add: lock_inv_def)
  have "distinct (concat (map (seg_ids l) held))" "distinct held"
    using inv mset_eq_imp_distinct_iff[OF m] by (auto simp: lock_inv_def)
  then show ?thesis using distinct_concat_disjoint[of "seg_ids l" held] mset_eq_setD[OF m] by auto
qed

lemma demo_lock_run:
  "\<exists>l :: nat bucket_lock. lock_step\<^sup>*\<^sup>* (kv_bucket_lock_init, []) (l, [1]) \<and> lk_queue l = [2]"
proof -
  obtain lg :: "kv_bucket kv_circular_log" where True by blast
  let ?bl = "\<lparr>bl_log = lg, bl_size = 0, bl_head = 0, bl_tail = 0, bl_compact_head = 0, bl_meta = Map.empty\<rparr>"
  let ?al = "\<lambda>_. (0, [])" and ?seg = "kv_bucket_seg_init 5"
  note defs = kv_bucket_lock_def try_lock_def lockable_def seg_ids_def kv_bucket_lock_init_def find_seg_def start_seg_get_def
    kv_bucket_seg_get_def kv_bucket_meta_get_def zero_meta_def lock_get_seg_cb_def ctx_loaded_def put_seg_def kv_bucket_seg_init_def Let_def
  obtain l1 :: "nat bucket_lock" where l1: "kv_bucket_lock ?bl ?al 1 [?seg] (Some 7) kv_bucket_lock_init = Inr (l1, [Lk_send 7])"
    "lk_queue l1 = []" "lk_locked l1 = [5]" "lk_segments l1 5 \<noteq> None"
    by (simp add: defs)
  obtain l2 evs where l2: "kv_bucket_lock ?bl ?al 2 [?seg] (Some 8) l1 = Inr (l2, evs)" "lk_queue l2 = [2]"
    using l1 by (simp add: kv_bucket_lock_def try_lock_def lockable_def seg_ids_def kv_bucket_seg_init_def Let_def)
  have s1: "lock_step (kv_bucket_lock_init, []) (l1, [1])"
    using lk_request[OF _ _ _ l1(1), of "[]"] l1(2) by (simp add: kv_bucket_lock_init_def)
  have "lock_step (l1, [1]) (l2, [1])" using lk_request[OF _ _ _ l2(1), of "[1]"] l1(2) l2(2) by simp
  then show ?thesis using converse_rtranclp_into_rtranclp[of lock_step, OF s1] l2(2) by blast
qed

theorem bucket_lock_excludes_witness:
  "\<exists>l :: nat bucket_lock. lock_step\<^sup>*\<^sup>* (kv_bucket_lock_init, []) (l, [1]) \<and> set (lk_locked l) = set (seg_ids l 1)"
proof -
  obtain l :: "nat bucket_lock" where l: "lock_step\<^sup>*\<^sup>* (kv_bucket_lock_init, []) (l, [1])" using demo_lock_run by blast
  then show ?thesis using bucket_lock_excludes[OF l] by auto
qed

text \<open>
  C10. No wake-up is lost: whenever a request is waiting, one of its buckets is held by a
  request that has been granted and has not unlocked it, also when other buckets of that
  request have been unlocked before.
\<close>

theorem bucket_lock_no_lost_wakeup:
  assumes "lock_step\<^sup>*\<^sup>* (kv_bucket_lock_init, []) (l, held)" and "c \<in> set (lk_queue l)"
  shows "\<exists>h \<in> set held. set (seg_ids l c) \<inter> set (seg_ids l h) \<noteq> {}"
proof -
  have inv: "lock_inv l held" using lock_steps_inv[OF assms(1)] .
  have m: "mset (lk_locked l) = mset (concat (map (seg_ids l) held))" using inv by (simp add: lock_inv_def)
  have "set (seg_ids l c) \<inter> set (lk_locked l) \<noteq> {}" using inv assms(2) by (auto simp: lock_inv_def lockable_iff)
  then show ?thesis using mset_eq_setD[OF m] by auto
qed

theorem bucket_lock_no_lost_wakeup_witness:
  "\<exists>l :: nat bucket_lock. lock_step\<^sup>*\<^sup>* (kv_bucket_lock_init, []) (l, [1]) \<and> set (seg_ids l 2) \<inter> set (seg_ids l 1) \<noteq> {}"
proof -
  obtain l :: "nat bucket_lock" where l: "lock_step\<^sup>*\<^sup>* (kv_bucket_lock_init, []) (l, [1])" "lk_queue l = [2]"
    using demo_lock_run by blast
  then show ?thesis using bucket_lock_no_lost_wakeup[OF l(1), of 2] by auto
qed

end
