(* ===== verification/Admission.thy ===== *)
theory Admission
  imports Kv_Data_Store
begin

text \<open>
  The admission queue of a data store over the life of its requests: the charged load is the
  cost of the running requests, waiting ones are started in their order, and none waits
  while there is room for it.
\<close>

definition entry_cost :: "'c kv_data_store \<Rightarrow> nat \<Rightarrow> nat" where
  "entry_cost ds e = (case ds_entries ds e of None \<Rightarrow> 0 | Some ent \<Rightarrow> unat (kv_ds_op_cost (qe_op ent)))"

definition running :: "'c kv_data_store \<Rightarrow> nat set" where
  "running ds = dom (ds_entries ds) - set (ds_q ds)"

definition adm_inv :: "'c kv_data_store \<Rightarrow> bool" where
  "adm_inv ds \<longleftrightarrow> finite (dom (ds_entries ds)) \<and> set (ds_q ds) \<subseteq> dom (ds_entries ds) \<and> distinct (ds_q ds) \<and>
     q_ok (ds_q_info ds) \<and> unat (q_cap (ds_q_info ds)) = 1024 \<and>
     unat (q_size (ds_q_info ds)) = (\<Sum>e \<in> running ds. entry_cost ds e) \<and>
     (ds_q ds \<noteq> [] \<longrightarrow> 1024 < unat (q_size (ds_q_info ds)) + entry_cost ds (hd (ds_q ds))) \<and>
     (\<forall>e \<in> dom (ds_entries ds). e < ds_next ds)"

lemma cost_bounds: "0 < unat (kv_ds_op_cost op)" "unat (kv_ds_op_cost op) \<le> 8" "unat (kv_ds_op_cost op) < 2 ^ 31"
  using kv_ds_op_cost_less[of op] by auto

lemma find_single_cases:
  obtains (room) q' where "kv_ds_queue_find [q] None 1 c = (Some 0, [q'])" "admit q c = Some q'"
    | (full) "kv_ds_queue_find [q] None 1 c = (None, [q])" "admit q c = None"
  using kv_ds_queue_find_single[of q c] by (cases "admit q c") auto

lemma enqueue_inv:
  assumes inv: "adm_inv ds" and e: "enqueue ds op fn c = (ds', e, evs)"
  shows "adm_inv ds' \<and> e = ds_next ds \<and> e \<in> dom (ds_entries ds') \<and> (e \<in> running ds' \<longleftrightarrow> evs = [Ds_send fn]) \<and>
    (evs = [] \<longrightarrow> ds_q ds' = ds_q ds @ [e])"
proof -
  let ?n = "ds_next ds" and ?ent = "\<lparr>qe_op = op, qe_fn = fn, qe_cb = c\<rparr>"
  let ?c = "kv_ds_op_cost op" and ?es = "(ds_entries ds)(?n \<mapsto> \<lparr>qe_op = op, qe_fn = fn, qe_cb = c\<rparr>)"
  have fresh: "?n \<notin> dom (ds_entries ds)" using inv by (auto simp: adm_inv_def)
  have fq: "?n \<notin> set (ds_q ds)" using fresh inv by (auto simp: adm_inv_def)
  have qok: "q_ok (ds_q_info ds)" "unat (q_cap (ds_q_info ds)) = 1024" using inv by (auto simp: adm_inv_def)
  have fin: "finite (running ds)" using inv by (simp add: adm_inv_def running_def)
  have same: "(\<Sum>x \<in> running ds. case ?es x of None \<Rightarrow> 0 | Some ent \<Rightarrow> unat (kv_ds_op_cost (qe_op ent))) = (\<Sum>x \<in> running ds. entry_cost ds x)"
    using fresh by (intro sum.cong) (auto simp: entry_cost_def running_def)
  have hd: "ds_q ds \<noteq> [] \<Longrightarrow> hd (ds_q ds) \<noteq> ?n" using fq by (cases "ds_q ds") auto
  have lt: "x < Suc ?n" if "ds_entries ds x = Some y" for x y
    using inv that unfolding adm_inv_def by (metis domI less_SucI)
  show ?thesis
  proof (cases rule: find_single_cases[of "ds_q_info ds" ?c])
    case (room q')
    note ad = admit_Some[OF room(2) qok(1) cost_bounds(3)]
    have ds': "ds' = ds\<lparr>ds_entries := ?es, ds_next := Suc ?n, ds_q_info := q'\<rparr>" "e = ?n" "evs = [Ds_send fn]"
      using e room(1) by (auto simp: enqueue_def Let_def)
    have run: "running ds' = insert ?n (running ds)" using fq by (auto simp: running_def ds')
    have "?n \<notin> running ds" using fresh by (simp add: running_def)
    then have "(\<Sum>x \<in> running ds'. entry_cost ds' x) = unat ?c + (\<Sum>x \<in> running ds. entry_cost ds x)"
      using fin same unfolding run by (simp add: entry_cost_def ds'(1))
    then have "adm_inv ds'" using inv ad fq hd qok by (auto simp: adm_inv_def ds' entry_cost_def dest: lt)
    then show ?thesis using ds' run by auto
  next
    case full
    note ad = admit_None[OF full(2) qok(1) cost_bounds(3)]
    have ds': "ds' = ds\<lparr>ds_entries := ?es, ds_next := Suc ?n, ds_q := ds_q ds @ [?n]\<rparr>" "e = ?n" "evs = []"
      using e full(1) by (auto simp: enqueue_def Let_def)
    have run: "running ds' = running ds" using fresh by (auto simp: running_def ds')
    have "(\<Sum>x \<in> running ds'. entry_cost ds' x) = (\<Sum>x \<in> running ds. entry_cost ds x)"
      using same unfolding run by (simp add: entry_cost_def ds'(1))
    then have "adm_inv ds'" using inv ad fq hd qok by (cases "ds_q ds") (auto simp: adm_inv_def ds' entry_cost_def dest: lt)
    then show ?thesis using ds' run fresh by (auto simp: running_def)
  qed
qed

text \<open>The loop that starts waiting requests: it takes a prefix of the queue.\<close>

lemma dequeue_loop_ok:
  assumes "set qs \<subseteq> dom es" and "q_ok q" and "unat (q_cap q) = 1024"
  defines "cost \<equiv> \<lambda>e. case es e of None \<Rightarrow> 0 | Some ent \<Rightarrow> unat (kv_ds_op_cost (qe_op ent))"
  shows "\<exists>q' started rest evs. dequeue_loop es q qs = Inr (q', rest, evs) \<and> qs = started @ rest \<and> q_ok q' \<and> unat (q_cap q') = 1024 \<and>
    unat (q_size q') = unat (q_size q) + sum_list (map cost started) \<and>
    (rest \<noteq> [] \<longrightarrow> 1024 < unat (q_size q') + cost (hd rest)) \<and>
    evs = map (\<lambda>e. Ds_send (qe_fn (the (es e)))) started"
  using assms(1-3)
proof (induction qs arbitrary: q)
  case Nil
  then show ?case by simp
next
  case (Cons e qs)
  obtain ent where ent: "es e = Some ent" using Cons.prems(1) by auto
  show ?case
  proof (cases rule: find_single_cases[of q "kv_ds_op_cost (qe_op ent)"])
    case (room q1)
    note ad = admit_Some[OF room(2) Cons.prems(2) cost_bounds(3)]
    obtain q' started rest evs where ih: "dequeue_loop es q1 qs = Inr (q', rest, evs)" "qs = started @ rest" "q_ok q'"
      "unat (q_cap q') = 1024" "unat (q_size q') = unat (q_size q1) + sum_list (map cost started)"
      "rest \<noteq> [] \<longrightarrow> 1024 < unat (q_size q') + cost (hd rest)" "evs = map (\<lambda>e. Ds_send (qe_fn (the (es e)))) started"
      using Cons.IH[of q1] Cons.prems ad by auto
    have "dequeue_loop es q (e # qs) = Inr (q', rest, Ds_send (qe_fn ent) # evs)" using ent room(1) ih(1) by simp
    moreover have "unat (q_size q') = unat (q_size q) + sum_list (map cost (e # started))"
      using ih(5) ad(1) ent by (simp add: cost_def)
    ultimately show ?thesis using ih ent by (intro exI[of _ q'] exI[of _ "e # started"] exI[of _ rest]) auto
  next
    case full
    have "1024 < unat (q_size q) + cost e"
      using admit_None[OF full(2) Cons.prems(2) cost_bounds(3)] ent Cons.prems(3) by (simp add: cost_def)
    then show ?thesis using ent full(1) Cons.prems by (intro exI[of _ q] exI[of _ "[]"] exI[of _ "e # qs"]) simp
  qed
qed

lemma dequeue_inv:
  assumes inv: "adm_inv ds" and e: "e \<in> running ds"
  shows "\<exists>ds' started. dequeue success e ds =
      Inr (ds', map (\<lambda>x. Ds_send (qe_fn (the (ds_entries ds x)))) started @ [Ds_reply (qe_cb (the (ds_entries ds e))) success]) \<and>
    adm_inv ds' \<and> ds_q ds = started @ ds_q ds' \<and> running ds' = (running ds - {e}) \<union> set started"
proof -
  obtain ent where ent: "ds_entries ds e = Some ent" "e \<notin> set (ds_q ds)" using e by (auto simp: running_def)
  let ?q = "(ds_q_info ds)\<lparr>q_size := q_size (ds_q_info ds) - kv_ds_op_cost (qe_op ent)\<rparr>"
  have fin: "finite (running ds)" using inv by (simp add: adm_inv_def running_def)
  have sz: "unat (q_size (ds_q_info ds)) = entry_cost ds e + (\<Sum>x \<in> running ds - {e}. entry_cost ds x)"
    using inv e fin by (simp add: adm_inv_def sum.remove)
  have ce: "entry_cost ds e = unat (kv_ds_op_cost (qe_op ent))" using ent by (simp add: entry_cost_def)
  have le: "kv_ds_op_cost (qe_op ent) \<le> q_size (ds_q_info ds)" using sz ce by (simp add: word_le_nat_alt)
  have uq: "unat (q_size ?q) = (\<Sum>x \<in> running ds - {e}. entry_cost ds x)" using sz ce le by (simp add: unat_sub)
  have qok: "q_ok ?q" "unat (q_cap ?q) = 1024" using inv uq sz by (auto simp: adm_inv_def q_ok_def)
  have sub: "set (ds_q ds) \<subseteq> dom (ds_entries ds)" using inv by (simp add: adm_inv_def)
  have ec: "(\<lambda>e. case ds_entries ds e of None \<Rightarrow> 0 | Some ent \<Rightarrow> unat (kv_ds_op_cost (qe_op ent))) = entry_cost ds"
    by (simp add: entry_cost_def fun_eq_iff)
  obtain q' started rest where l: "dequeue_loop (ds_entries ds) ?q (ds_q ds) = Inr (q', rest, map (\<lambda>x. Ds_send (qe_fn (the (ds_entries ds x)))) started)"
    "ds_q ds = started @ rest" "q_ok q'" "unat (q_cap q') = 1024"
    "unat (q_size q') = unat (q_size ?q) + sum_list (map (entry_cost ds) started)"
    "rest \<noteq> [] \<longrightarrow> 1024 < unat (q_size q') + entry_cost ds (hd rest)"
    using dequeue_loop_ok[OF sub qok] unfolding ec entry_cost_def[of ds "hd _", symmetric] by blast
  let ?ds = "ds\<lparr>ds_q_info := q', ds_q := rest, ds_entries := (ds_entries ds)(e := None)\<rparr>"
  have dq: "dequeue success e ds = Inr (?ds, map (\<lambda>x. Ds_send (qe_fn (the (ds_entries ds x)))) started @ [Ds_reply (qe_cb (the (ds_entries ds e))) success])"
    using ent l(1) by (simp add: dequeue_def Let_def)
  have d: "distinct (started @ rest)" "set (started @ rest) \<subseteq> dom (ds_entries ds)" using inv l(2) by (auto simp: adm_inv_def)
  have run: "running ?ds = (running ds - {e}) \<union> set started"
    using d ent(2) l(2) by (auto simp: running_def)
  have dj: "(running ds - {e}) \<inter> set started = {}" using l(2) by (auto simp: running_def)
  have cc: "entry_cost ?ds x = entry_cost ds x" if "x \<noteq> e" for x using that by (simp add: entry_cost_def)
  have ns: "e \<notin> set started" "e \<notin> set rest" using ent(2) l(2) by auto
  have "(\<Sum>x \<in> running ?ds. entry_cost ?ds x) = (\<Sum>x \<in> running ds - {e}. entry_cost ds x) + (\<Sum>x \<in> set started. entry_cost ds x)"
  proof -
    have "(\<Sum>x \<in> running ?ds. entry_cost ?ds x) = (\<Sum>x \<in> running ?ds. entry_cost ds x)"
      using ns run by (intro sum.cong) (auto intro!: cc)
    then show ?thesis unfolding run using dj fin by (simp add: sum.union_disjoint)
  qed
  also have "(\<Sum>x \<in> set started. entry_cost ds x) = sum_list (map (entry_cost ds) started)"
    using d by (simp add: sum_list_distinct_conv_sum_set)
  finally have s: "unat (q_size q') = (\<Sum>x \<in> running ?ds. entry_cost ?ds x)" using l(5) uq by (simp only:)
  have h: "rest \<noteq> [] \<longrightarrow> 1024 < unat (q_size q') + entry_cost ?ds (hd rest)" using l(6) ns cc by (cases rest) auto
  have "adm_inv ?ds" using inv l(3,4) d s h ns by (auto simp: adm_inv_def)
  then show ?thesis using dq run l(2) by (intro exI[of _ ?ds] exI[of _ started]) simp
qed

section \<open>Runs of a store\<close>

text \<open>
  New requests, ends of running requests, and every other handler of the store, which leaves
  the queue alone.
\<close>

inductive adm_step :: "'c kv_data_store \<Rightarrow> 'c kv_data_store \<Rightarrow> bool" where
  adm_request: "enqueue ds op fn c = (ds', e, evs) \<Longrightarrow> adm_step ds ds'"
| adm_end: "e \<in> running ds \<Longrightarrow> dequeue success e ds = Inr (ds', evs) \<Longrightarrow> adm_step ds ds'"
| adm_other: "ds_q ds' = ds_q ds \<Longrightarrow> ds_q_info ds' = ds_q_info ds \<Longrightarrow> ds_entries ds' = ds_entries ds \<Longrightarrow>
    ds_next ds \<le> ds_next ds' \<Longrightarrow> adm_step ds ds'"

lemma adm_step_inv: "adm_step ds ds' \<Longrightarrow> adm_inv ds \<Longrightarrow> adm_inv ds'"
proof (induction rule: adm_step.induct)
  case (adm_request ds op fn c ds' e evs)
  then show ?case using enqueue_inv[OF adm_request(2,1)] by (elim conjE)
next
  case (adm_end e ds success ds' evs)
  obtain ds1 started where d: "dequeue success e ds = Inr (ds1, map (\<lambda>x. Ds_send (qe_fn (the (ds_entries ds x)))) started @ [Ds_reply (qe_cb (the (ds_entries ds e))) success])" "adm_inv ds1"
    using dequeue_inv[OF adm_end(3,1), of success] by (elim exE conjE)
  then have "ds' = ds1" unfolding adm_end(2) sum.inject prod.inject by (elim conjE)
  then show ?case using d(2) by (simp only:)
next
  case (adm_other ds' ds)
  have eq: "running ds' = running ds" "entry_cost ds' = entry_cost ds"
    unfolding running_def entry_cost_def[abs_def] adm_other(1,3) by (rule refl)+
  have "\<forall>e \<in> dom (ds_entries ds). e < ds_next ds'"
    using adm_other(4,5) unfolding adm_inv_def by (meson less_le_trans)
  then show ?case using adm_other(5) unfolding adm_inv_def eq adm_other(1,2,3) by blast
qed

lemma adm_steps_inv: "adm_step\<^sup>*\<^sup>* ds ds' \<Longrightarrow> adm_inv ds \<Longrightarrow> adm_inv ds'"
  by (induction rule: rtranclp_induct) (auto intro: adm_step_inv)

lemma init_adm_inv: "kv_data_store_init mk_bl mk_vl b n log_bn = Inr ds \<Longrightarrow> adm_inv ds"
  by (auto simp: kv_data_store_init_def res_simps Let_def adm_inv_def running_def q_ok_def split: if_splits)

section \<open>Properties\<close>

text \<open>
  C15. Admission control over the life of a store: the charged load is at all times the total
  cost of the running requests and at most the capacity of 1024, the request at the head of
  the queue does not fit, so none waits when nothing runs, and the end of any running
  request succeeds, answers its caller and starts a prefix of the queue in its order.
\<close>

theorem admission_queue_correct:
  assumes "kv_data_store_init mk_bl mk_vl b n log_bn = Inr ds0" and "adm_step\<^sup>*\<^sup>* ds0 ds"
  shows "unat (q_size (ds_q_info ds)) = (\<Sum>e \<in> running ds. entry_cost ds e) \<and> unat (q_size (ds_q_info ds)) \<le> 1024 \<and>
    (ds_q ds \<noteq> [] \<longrightarrow> 1024 < unat (q_size (ds_q_info ds)) + entry_cost ds (hd (ds_q ds))) \<and>
    (running ds = {} \<longrightarrow> ds_q ds = []) \<and>
    (\<forall>e \<in> running ds. \<exists>ds' started. dequeue ok e ds =
        Inr (ds', map (\<lambda>x. Ds_send (qe_fn (the (ds_entries ds x)))) started @ [Ds_reply (qe_cb (the (ds_entries ds e))) ok]) \<and>
      ds_q ds = started @ ds_q ds')"
proof -
  have inv: "adm_inv ds" using adm_steps_inv[OF assms(2) init_adm_inv[OF assms(1)]] .
  have "ds_q ds = []" if "running ds = {}"
  proof (rule ccontr)
    assume ne: "ds_q ds \<noteq> []"
    have "entry_cost ds (hd (ds_q ds)) \<le> 8" by (auto simp: entry_cost_def cost_bounds split: option.splits)
    then show False using inv ne that by (simp add: adm_inv_def)
  qed
  moreover have "\<forall>e \<in> running ds. \<exists>ds' started. dequeue ok e ds =
        Inr (ds', map (\<lambda>x. Ds_send (qe_fn (the (ds_entries ds x)))) started @ [Ds_reply (qe_cb (the (ds_entries ds e))) ok]) \<and>
      ds_q ds = started @ ds_q ds'"
    using dequeue_inv[OF inv, of _ ok] by blast
  ultimately show ?thesis using inv by (auto simp: adm_inv_def q_ok_def)
qed

text \<open>A small store, and the store with one set started.\<close>

definition example_bl :: kv_bucket_log where
  "example_bl = \<lparr>bl_log = kv_circular_log_init 512 0 0 8 0 0 4 2 0 [], bl_size = 16, bl_head = 0, bl_tail = 0,
     bl_compact_head = 0, bl_meta = kv_bucket_meta_init\<rparr>"

definition example_vl :: kv_value_log where
  "example_vl = \<lparr>vl_log = kv_circular_log_init 512 0 8 8 0 0 4 2 0 [], has_bucket_log = True, blk_mask = 511, blk_shift = 9,
     vl_compact_head = 0, is_compaction_started = False, bucket_id_log = null_bucket_ids, id_log_size = 1\<rparr>"

definition example_ds :: "nat kv_data_store" where
  "example_ds = \<lparr>ds_bucket_log = example_bl, ds_value_log = example_vl, ds_q_info = \<lparr>q_size = 0, q_cap = 1024\<rparr>,
     log_bucket_num = 4, dirty_set = kv_bucket_key_set_init, ds_q = [], ds_entries = Map.empty,
     ds_next = 0, ds_sets = Map.empty, ds_buffered = Map.empty, ds_gets = Map.empty, ds_dels = Map.empty\<rparr>"

definition example_ds1 :: "nat kv_data_store" where
  "example_ds1 = fst (enqueue example_ds KV_DS_SET (Set_start 0) 7)"

lemma example_ds_init: "kv_data_store_init (Inr example_bl) (\<lambda>_. Inr example_vl) 0 32 4 = Inr example_ds"
  by (simp add: kv_data_store_init_def example_ds_def example_bl_def example_vl_def kv_circular_log_init_def Let_def)

lemma example_ds_step: "adm_step\<^sup>*\<^sup>* example_ds example_ds1"
proof -
  have "adm_step example_ds example_ds1"
    by (rule adm_request[where op = KV_DS_SET and fn = "Set_start 0" and c = 7])
      (simp add: example_ds1_def prod_eq_iff)
  then show ?thesis by (rule r_into_rtranclp)
qed

lemma example_admitted: "admit \<lparr>q_size = 0, q_cap = 1024\<rparr> (kv_ds_op_cost KV_DS_SET) = Some \<lparr>q_size = kv_ds_op_cost KV_DS_SET, q_cap = 1024\<rparr>"
  by (simp add: admit_def)

lemma example_running: "running example_ds1 = {0}"
proof -
  have "kv_ds_queue_find [\<lparr>q_size = 0, q_cap = 1024\<rparr>] None 1 (kv_ds_op_cost KV_DS_SET) =
    (Some 0, [\<lparr>q_size = kv_ds_op_cost KV_DS_SET, q_cap = 1024\<rparr>])"
    unfolding kv_ds_queue_find_single example_admitted by simp
  then show ?thesis
    by (simp add: running_def example_ds1_def enqueue_def example_ds_def Let_def del: kv_ds_op_cost.simps One_nat_def)
qed

theorem admission_queue_correct_witness:
  "unat (q_size (ds_q_info example_ds1)) = (\<Sum>e \<in> running example_ds1. entry_cost example_ds1 e) \<and>
   (\<exists>ds' started. dequeue True 0 example_ds1 =
      Inr (ds', map (\<lambda>x. Ds_send (qe_fn (the (ds_entries example_ds1 x)))) started @
                [Ds_reply (qe_cb (the (ds_entries example_ds1 0))) True]) \<and> ds_q example_ds1 = started @ ds_q ds')"
  using admission_queue_correct[OF example_ds_init example_ds_step, of True] unfolding example_running
  by (elim conjE) (intro conjI, assumption, erule bspec, rule singletonI)

end
