(* ===== verification/Ring_Order.thy ===== *)
theory Ring_Order
  imports Kv_Ring_Update "HOL-Library.Multiset"
begin

text \<open>
  The order of the virtual nodes on a ring. A ring is kept as a list that runs once around
  the 64-bit positions; the search for the owner of a key scans it from a moving base. This
  theory shows that every ring the program builds is in order, that the search then finds
  the first virtual node at or after the key, and what a new or removed virtual node changes.
\<close>

section \<open>The interface of a hash ring\<close>

text \<open>
  What the dispatch of requests relies on: the owner of a key is the virtual node with the
  least clockwise distance from it, whatever was created and deleted before. Positions are
  words, so \<open>v - k\<close> is the clockwise distance from \<open>k\<close> to \<open>v\<close>.
\<close>

locale hash_ring =
  fixes inv :: "'r \<Rightarrow> bool"
    and vids :: "'r \<Rightarrow> u64 multiset"
    and owner :: "'r \<Rightarrow> 'k \<Rightarrow> u64 option"
    and key_at :: "'k \<Rightarrow> u64"
    and create :: "'c \<Rightarrow> 'r \<Rightarrow> 'r"
    and new_vid :: "'c \<Rightarrow> u64"
    and delete :: "nat \<Rightarrow> 'r \<Rightarrow> 'r"
    and vid_at :: "'r \<Rightarrow> nat \<Rightarrow> u64"
  assumes owner_empty: "inv r \<Longrightarrow> vids r = {#} \<Longrightarrow> owner r k = None"
    and owner_least: "inv r \<Longrightarrow> vids r \<noteq> {#} \<Longrightarrow>
      \<exists>v. owner r k = Some v \<and> v \<in># vids r \<and> (\<forall>w \<in># vids r. v - key_at k \<le> w - key_at k)"
    and create_inv: "inv r \<Longrightarrow> inv (create c r)"
    and create_vids: "inv r \<Longrightarrow> vids (create c r) = add_mset (new_vid c) (vids r)"
    and delete_inv: "inv r \<Longrightarrow> i < size (vids r) \<Longrightarrow> inv (delete i r)"
    and delete_vids: "inv r \<Longrightarrow> i < size (vids r) \<Longrightarrow> vids r = add_mset (vid_at r i) (vids (delete i r))"
begin

lemma dist_inj: "v - k = w - k \<Longrightarrow> v = w" for v w k :: u64
  by simp

lemma owner_unique:
  assumes "inv r" and "v \<in># vids r" and "\<forall>w \<in># vids r. v - key_at k \<le> w - key_at k"
  shows "owner r k = Some v"
proof -
  obtain u where u: "owner r k = Some u" "u \<in># vids r" "\<forall>w \<in># vids r. u - key_at k \<le> w - key_at k"
    using owner_least[OF assms(1)] assms(2) by fastforce
  then have "u - key_at k = v - key_at k" using assms by (meson order_antisym)
  then show ?thesis using u(1) by simp
qed

text \<open>A new virtual node takes over the keys between its predecessor and itself, and no other.\<close>

lemma owner_create:
  assumes "inv r"
  shows "owner (create c r) k =
    (case owner r k of None \<Rightarrow> Some (new_vid c)
     | Some v \<Rightarrow> if new_vid c - key_at k \<le> v - key_at k then Some (new_vid c) else Some v)"
proof (cases "vids r = {#}")
  case True
  then show ?thesis using assms owner_empty owner_unique[OF create_inv, of r "new_vid c" c k] create_vids by simp
next
  case False
  then obtain v where v: "owner r k = Some v" "v \<in># vids r" "\<forall>w \<in># vids r. v - key_at k \<le> w - key_at k"
    using owner_least[OF assms] by blast
  show ?thesis
  proof (cases "new_vid c - key_at k \<le> v - key_at k")
    case True
    then have "\<forall>w \<in># vids (create c r). new_vid c - key_at k \<le> w - key_at k"
      using v(3) by (auto simp: create_vids[OF assms] intro: order_trans)
    then show ?thesis using owner_unique[OF create_inv[OF assms]] True v(1) by (simp add: create_vids[OF assms])
  next
    case False
    then have "\<forall>w \<in># vids (create c r). v - key_at k \<le> w - key_at k"
      using v(3) by (auto simp: create_vids[OF assms])
    then show ?thesis using owner_unique[OF create_inv[OF assms], of v] v False by (simp add: create_vids[OF assms])
  qed
qed

text \<open>A removed virtual node gives up its own keys, and no other key changes its owner.\<close>

lemma owner_delete:
  assumes "inv r" and "i < size (vids r)" and "owner r k \<noteq> Some (vid_at r i)"
  shows "owner (delete i r) k = owner r k"
proof -
  have ne: "vids r \<noteq> {#}" using assms(2) by auto
  obtain v where v: "owner r k = Some v" "v \<in># vids r" "\<forall>w \<in># vids r. v - key_at k \<le> w - key_at k"
    using owner_least[OF assms(1) ne] by blast
  have "v \<in># vids (delete i r)" using v(1,2) assms(3) by (auto simp: delete_vids[OF assms(1,2)])
  moreover have "\<forall>w \<in># vids (delete i r). v - key_at k \<le> w - key_at k"
    using v(3) by (auto simp: delete_vids[OF assms(1,2)])
  ultimately show ?thesis using owner_unique[OF delete_inv[OF assms(1,2)]] v(1) by simp
qed

end

section \<open>Rings in order\<close>

text \<open>The distances of a list of positions from the one behind its last.\<close>

definition dists :: "u64 list \<Rightarrow> u64 list" where
  "dists vs = map (\<lambda>v. v - (last vs + 1)) vs"

definition in_order :: "u64 list \<Rightarrow> bool" where
  "in_order vs \<longleftrightarrow> sorted (dists vs)"

definition ring_vids :: "vnode_ring \<Rightarrow> u64 list" where
  "ring_vids ring = map vid_of (vr_head ring)"

definition ring_ok :: "vnode_ring \<Rightarrow> bool" where
  "ring_ok ring \<longleftrightarrow> in_order (ring_vids ring)"

lemma dist_rebase:
  fixes d e c :: u64
  assumes "d \<le> e" and "e \<le> c"
  shows "d - (c + 1) \<le> e - (c + 1)"
proof -
  have e: "x - (c + 1) = - 1 - (c - x)" for x by simp
  have u: "unat (- 1 - y) = unat (- 1 :: u64) - unat y" for y :: u64 by (simp add: unat_sub)
  show ?thesis using assms unfolding e by (simp add: word_le_nat_alt u unat_sub)
qed

lemma sorted_rebase:
  assumes "sorted ds" and "\<forall>d \<in> set ds. d \<le> (c :: u64)"
  shows "sorted (map (\<lambda>d. d - (c + 1)) ds)"
  using assms by (induction ds) (auto intro: dist_rebase)

lemma in_order_Nil [simp]: "in_order []"
  by (simp add: in_order_def dists_def)

lemma sorted_le_last: "sorted ds \<Longrightarrow> \<forall>d \<in> set ds. d \<le> last ds"
  by (induction ds) auto

lemma in_order_butlast:
  assumes "in_order (vs @ [v])"
  shows "in_order vs"
proof (cases "vs = []")
  case False
  let ?b = "v + 1" and ?c = "last vs - (v + 1)"
  let ?ds = "map (\<lambda>x. x - ?b) vs"
  have s: "sorted ?ds" using assms by (simp add: in_order_def dists_def sorted_append)
  have "\<forall>d \<in> set ?ds. d \<le> last ?ds" using s by (rule sorted_le_last)
  then have "sorted (map (\<lambda>d. d - (?c + 1)) ?ds)" using False by (intro sorted_rebase[OF s]) (metis last_map)
  moreover have "map (\<lambda>d. d - (?c + 1)) ?ds = dists vs" by (simp add: dists_def)
  ultimately show ?thesis by (simp add: in_order_def)
qed simp

lemma in_order_remove:
  assumes "in_order (xs @ v # ys)"
  shows "in_order (xs @ ys)"
proof (cases "ys = []")
  case True
  then show ?thesis using assms in_order_butlast by simp
next
  case False
  then show ?thesis using assms by (auto simp: in_order_def dists_def sorted_append)
qed

lemma in_order_insert:
  assumes "in_order (xs @ ys)" and "ys \<noteq> []"
    and "\<forall>x \<in> set xs. x - (last ys + 1) \<le> v - (last ys + 1)" and "v - (last ys + 1) \<le> hd ys - (last ys + 1)"
  shows "in_order (xs @ v # ys)"
proof -
  have "\<forall>y \<in> set ys. hd ys - (last ys + 1) \<le> y - (last ys + 1)"
    using assms(1,2) by (cases ys) (auto simp: in_order_def dists_def sorted_append)
  then show ?thesis using assms by (auto simp: in_order_def dists_def sorted_append intro: order_trans)
qed

section \<open>The search\<close>

lemma scan_vid_split:
  "scan_vid xs b d i = Some j \<Longrightarrow> \<exists>k < length xs. j = i + k \<and> vid_of (xs ! k) - b \<ge> d \<and> (\<forall>m < k. vid_of (xs ! m) - b < d)"
proof (induction xs b d i rule: scan_vid.induct)
  case (2 x xs b d i)
  show ?case
  proof (cases "vid_of x - b \<ge> d")
    case False
    then obtain k where "k < length xs" "j = Suc i + k" "vid_of (xs ! k) - b \<ge> d" "\<forall>m < k. vid_of (xs ! m) - b < d"
      using 2 by auto
    then show ?thesis using False by (intro exI[of _ "Suc k"]) (auto simp: less_Suc_eq_0_disj)
  qed (use 2 in auto)
qed simp

lemma scan_vid_None: "scan_vid xs b d i = None \<Longrightarrow> x \<in> set xs \<Longrightarrow> vid_of x - b < d"
  by (induction xs b d i rule: scan_vid.induct) (auto split: if_splits)

text \<open>The assertion behind the loop of \<open>find_vid_entry\<close> never fails: the last entry ends the scan.\<close>

lemma find_vid_entry_total:
  assumes "vr_head ring \<noteq> []"
  obtains i where "find_vid_entry ring k = Inr (Some i)" "i < length (vr_head ring)"
    "vid_of (vr_head ring ! i) - (vid_of (last (vr_head ring)) + 1) \<ge> get_vid_64 k - (vid_of (last (vr_head ring)) + 1)"
    "\<forall>m < i. vid_of (vr_head ring ! m) - (vid_of (last (vr_head ring)) + 1) < get_vid_64 k - (vid_of (last (vr_head ring)) + 1)"
proof -
  let ?b = "vid_of (last (vr_head ring)) + 1"
  have "\<not> vid_of (last (vr_head ring)) - ?b < get_vid_64 k - ?b" by (simp add: not_less)
  then obtain i where i: "scan_vid (vr_head ring) ?b (get_vid_64 k - ?b) 0 = Some i"
    using scan_vid_None[of "vr_head ring" ?b "get_vid_64 k - ?b" 0 "last (vr_head ring)"] assms
    by (cases "scan_vid (vr_head ring) ?b (get_vid_64 k - ?b) 0") auto
  then show ?thesis using scan_vid_split[OF i] assms by (intro that[of i]) (auto simp: find_vid_entry_def Let_def)
qed

lemma dist_from_key:
  fixes b k v w :: u64
  assumes "k - b \<le> v - b" and "w - b < k - b \<or> v - b \<le> w - b"
  shows "v - k \<le> w - k"
proof -
  define d p q where "d = k - b" and "p = v - b" and "q = w - b"
  have e: "v - k = p - d" "w - k = q - d" by (simp_all add: d_def p_def q_def)
  have "unat p < 2 ^ 64" using unsigned_less[of p, where 'a = nat] by simp
  moreover have "d \<le> p" "q < d \<or> p \<le> q" using assms by (simp_all add: d_def p_def q_def)
  ultimately have "p - d \<le> q - d" by (auto simp: word_le_nat_alt word_less_nat_alt unat_sub_if')
  then show ?thesis unfolding e .
qed

lemma find_least:
  assumes "ring_ok ring" and "find_vid_entry ring k = Inr (Some i)" and "vr_head ring \<noteq> []"
  shows "i < length (vr_head ring) \<and> (\<forall>x \<in> set (vr_head ring). vid_of (vr_head ring ! i) - get_vid_64 k \<le> vid_of x - get_vid_64 k)"
proof -
  let ?xs = "vr_head ring" and ?b = "vid_of (last (vr_head ring)) + 1"
  have f: "i < length ?xs" "get_vid_64 k - ?b \<le> vid_of (?xs ! i) - ?b" "\<forall>m < i. vid_of (?xs ! m) - ?b < get_vid_64 k - ?b"
    using find_vid_entry_total[OF assms(3), of k] assms(2) by auto
  have s: "sorted (map (\<lambda>x. vid_of x - ?b) ?xs)"
    using assms(1,3) by (simp add: ring_ok_def in_order_def dists_def ring_vids_def last_map o_def)
  have "vid_of (?xs ! i) - get_vid_64 k \<le> vid_of (?xs ! m) - get_vid_64 k" if "m < length ?xs" for m
  proof (rule dist_from_key[OF f(2)])
    show "vid_of (?xs ! m) - ?b < get_vid_64 k - ?b \<or> vid_of (?xs ! i) - ?b \<le> vid_of (?xs ! m) - ?b"
      using f(3) sorted_nth_mono[OF s, of i m] that by (cases "m < i") auto
  qed
  then show ?thesis using f(1) by (metis in_set_conv_nth)
qed

section \<open>Creating and deleting\<close>

lemma vnode_create_ok:
  assumes "ring_ok ring"
  obtains i where "vnode_create ctx ring = Inr (ring\<lparr>vr_head := take i (vr_head ring) @
      \<lparr>ve_vid = rc_vid ctx, ve_node = rc_node_id ctx, ve_state = VID_JOINING, cp_cnt = 0, rm_cnt = 1\<rparr> # drop i (vr_head ring)\<rparr>, i)"
    "i \<le> length (vr_head ring)"
    "ring_ok (ring\<lparr>vr_head := take i (vr_head ring) @
      \<lparr>ve_vid = rc_vid ctx, ve_node = rc_node_id ctx, ve_state = VID_JOINING, cp_cnt = 0, rm_cnt = 1\<rparr> # drop i (vr_head ring)\<rparr>)"
proof (cases "vr_head ring = []")
  case True
  then show ?thesis
    by (intro that[of 0]) (simp_all add: vnode_create_def find_vid_entry_def ring_ok_def ring_vids_def in_order_def dists_def)
next
  case False
  let ?xs = "vr_head ring" and ?v = "get_vid_64 (ev_vid (rc_vid ctx))"
  obtain i where i: "find_vid_entry ring (ev_vid (rc_vid ctx)) = Inr (Some i)" "i < length ?xs"
    "vid_of (?xs ! i) - (vid_of (last ?xs) + 1) \<ge> ?v - (vid_of (last ?xs) + 1)"
    "\<forall>m < i. vid_of (?xs ! m) - (vid_of (last ?xs) + 1) < ?v - (vid_of (last ?xs) + 1)"
    using find_vid_entry_total[OF False] by blast
  let ?l = "map vid_of (take i ?xs)" and ?r = "map vid_of (drop i ?xs)"
  have "in_order (?l @ ?r)" using assms by (simp add: ring_ok_def ring_vids_def flip: map_append)
  moreover have "last ?r = vid_of (last ?xs)" "hd ?r = vid_of (?xs ! i)" "?r \<noteq> []"
    using i(2) by (simp_all add: last_map hd_map hd_drop_conv_nth)
  moreover have "\<forall>x \<in> set ?l. x - (vid_of (last ?xs) + 1) \<le> ?v - (vid_of (last ?xs) + 1)"
    using i(4) by (auto simp: in_set_conv_nth simp del: not_less) (meson less_imp_le)
  ultimately have "in_order (?l @ ?v # ?r)" using i(3) by (intro in_order_insert) simp_all
  then show ?thesis using i(1,2)
    by (intro that[of i]) (simp_all add: vnode_create_def ring_ok_def ring_vids_def vid_of_def)
qed

lemma vnode_delete_ok: "ring_ok ring \<Longrightarrow> ring_ok (vnode_delete i ring)"
proof (cases "i < length (vr_head ring)")
  case True
  assume "ring_ok ring"
  then have "in_order (map vid_of (take i (vr_head ring)) @ vid_of (vr_head ring ! i) # map vid_of (drop (Suc i) (vr_head ring)))"
    using True by (simp add: ring_ok_def ring_vids_def id_take_nth_drop[symmetric] flip: map_append list.map)
  then show ?thesis using in_order_remove by (simp add: vnode_delete_def ring_ok_def ring_vids_def)
qed (simp add: vnode_delete_def)

lemma set_entry_vids:
  assumes "\<And>x. ve_vid (f x) = ve_vid x"
  shows "ring_vids (set_entry i f ring) = ring_vids ring"
  using assms by (cases "i < length (vr_head ring)") (auto simp: set_entry_def ring_vids_def map_update vid_of_def intro!: nth_equalityI simp: nth_list_update)

lemma set_entry_ok: "ring_ok ring \<Longrightarrow> (\<And>x. ve_vid (f x) = ve_vid x) \<Longrightarrow> ring_ok (set_entry i f ring)"
  by (simp add: ring_ok_def set_entry_vids)

section \<open>The ring as a hash ring\<close>

text \<open>
  The operations as total functions: the search for a key, and the ring that \<open>vnode_create\<close>
  returns.
\<close>

definition ring_owner :: "vnode_ring \<Rightarrow> u8 list \<Rightarrow> u64 option" where
  "ring_owner ring k =
     (case find_vid_entry ring k of Inr (Some i) \<Rightarrow> Some (vid_of (vr_head ring ! i)) | _ \<Rightarrow> None)"

definition ring_create :: "ring_change_ctx \<Rightarrow> vnode_ring \<Rightarrow> vnode_ring" where
  "ring_create ctx ring = (case vnode_create ctx ring of Inr (r, _) \<Rightarrow> r | Inl _ \<Rightarrow> ring)"

definition change_vid :: "ring_change_ctx \<Rightarrow> u64" where
  "change_vid ctx = get_vid_64 (ev_vid (rc_vid ctx))"

lemma owner_is_least:
  assumes "ring_ok ring" and "mset (ring_vids ring) \<noteq> {#}"
  shows "\<exists>v. ring_owner ring k = Some v \<and> v \<in># mset (ring_vids ring) \<and>
    (\<forall>w \<in># mset (ring_vids ring). v - get_vid_64 k \<le> w - get_vid_64 k)"
proof -
  have ne: "vr_head ring \<noteq> []" using assms(2) by (simp add: ring_vids_def)
  obtain i where i: "find_vid_entry ring k = Inr (Some i)" using find_vid_entry_total[OF ne] by blast
  then show ?thesis using find_least[OF assms(1) i ne] by (auto simp: ring_owner_def ring_vids_def)
qed

lemma create_mset: "ring_ok ring \<Longrightarrow> ring_ok (ring_create c ring) \<and>
    mset (ring_vids (ring_create c ring)) = add_mset (change_vid c) (mset (ring_vids ring))"
proof (erule vnode_create_ok[where ctx = c])
  fix i
  assume a: "vnode_create c ring = Inr (ring\<lparr>vr_head := take i (vr_head ring) @
      \<lparr>ve_vid = rc_vid c, ve_node = rc_node_id c, ve_state = VID_JOINING, cp_cnt = 0, rm_cnt = 1\<rparr> # drop i (vr_head ring)\<rparr>, i)"
    and ok: "ring_ok (ring\<lparr>vr_head := take i (vr_head ring) @
      \<lparr>ve_vid = rc_vid c, ve_node = rc_node_id c, ve_state = VID_JOINING, cp_cnt = 0, rm_cnt = 1\<rparr> # drop i (vr_head ring)\<rparr>)"
  have "mset (take i (ring_vids ring)) + mset (drop i (ring_vids ring)) = mset (ring_vids ring)"
    by (metis append_take_drop_id mset_append)
  then show ?thesis using a ok
    by (simp add: ring_create_def ring_vids_def change_vid_def vid_of_def take_map drop_map)
qed

lemma delete_mset:
  assumes "i < size (mset (ring_vids ring))"
  shows "mset (ring_vids ring) = add_mset (ring_vids ring ! i) (mset (ring_vids (vnode_delete i ring)))"
proof -
  have "i < length (ring_vids ring)" using assms by simp
  then have "mset (ring_vids ring) = mset (take i (ring_vids ring) @ ring_vids ring ! i # drop (Suc i) (ring_vids ring))"
    by (metis id_take_nth_drop)
  then show ?thesis by (simp add: vnode_delete_def ring_vids_def take_map drop_map)
qed

interpretation vring: hash_ring ring_ok "\<lambda>r. mset (ring_vids r)" ring_owner get_vid_64 ring_create change_vid vnode_delete
  "\<lambda>r i. ring_vids r ! i"
proof unfold_locales
  show "ring_ok r \<Longrightarrow> mset (ring_vids r) = {#} \<Longrightarrow> ring_owner r k = None" for r k
    by (simp add: ring_owner_def ring_vids_def find_vid_entry_def)
qed (use owner_is_least create_mset delete_mset vnode_delete_ok in blast)+

section \<open>Every ring of the program is in order\<close>

definition rings_ok :: "vnode_ring list \<Rightarrow> bool" where
  "rings_ok rings \<longleftrightarrow> list_all ring_ok rings"

definition all_rings_ok :: "kv_ring \<Rightarrow> bool" where
  "all_rings_ok rg \<longleftrightarrow> (case rg_rings rg of None \<Rightarrow> True | Some rss \<Rightarrow> list_all rings_ok rss)"

lemma rings_ok_update: "rings_ok rings \<Longrightarrow> (ring_ok (rings ! i) \<Longrightarrow> ring_ok r) \<Longrightarrow> rings_ok (rings[i := r])"
  by (cases "i < length rings") (auto simp: rings_ok_def list_all_length nth_list_update)

lemma find_or_create_ok: "find_or_create ctx ring = Inr (r, i) \<Longrightarrow> ring_ok ring \<Longrightarrow> ring_ok r"
  by (auto simp: find_or_create_def split: option.splits elim: vnode_create_ok[where ctx = ctx])

lemma next_version_ok: "next_version rg rid ring = Inr r \<Longrightarrow> ring_ok ring \<Longrightarrow> ring_ok r"
  by (auto simp: next_version_def res_simps ring_ok_def ring_vids_def)

lemma start_copy_ok: "start_copy rg rid v rings = Inr (rs, evs) \<Longrightarrow> rings_ok rings \<Longrightarrow> rings_ok rs"
  unfolding start_copy_def rbind_eq_Inr_iff
  by (auto intro!: rings_ok_update simp: ring_ok_def ring_vids_def)

lemmas change_ok_intros = rings_ok_update set_entry_ok vnode_delete_ok

lemma change_joining_put_ok: "change_joining_put rg m ctx rings = Inr (rs, evs) \<Longrightarrow> rings_ok rings \<Longrightarrow> rings_ok rs"
  unfolding change_joining_put_def Let_def rbind_eq_Inr_iff
  by (auto split: if_splits intro!: change_ok_intros dest: find_or_create_ok next_version_ok start_copy_ok)

lemma change_joining_del_ok: "change_joining_del rg ctx rings = Inr (rs, evs) \<Longrightarrow> rings_ok rings \<Longrightarrow> rings_ok rs"
  unfolding change_joining_del_def Let_def
  by (auto split: if_splits option.splits simp: rbind_eq_Inr_iff intro!: change_ok_intros dest: find_or_create_ok next_version_ok start_copy_ok)

lemma change_running_put_ok: "change_running_put ctx rings = Inr (rs, evs) \<Longrightarrow> rings_ok rings \<Longrightarrow> rings_ok rs"
  unfolding change_running_put_def Let_def rbind_eq_Inr_iff
  by (auto intro!: change_ok_intros dest: find_or_create_ok next_version_ok start_copy_ok)

lemma change_running_del_ok: "change_running_del ctx rings = Inr (rs, evs) \<Longrightarrow> rings_ok rings \<Longrightarrow> rings_ok rs"
  unfolding change_running_del_def Let_def
  by (auto split: if_splits option.splits simp: rbind_eq_Inr_iff intro!: change_ok_intros dest: find_or_create_ok next_version_ok start_copy_ok)

lemma change_leaving_put_ok: "change_leaving_put rg m ctx rings = Inr (rs, evs) \<Longrightarrow> rings_ok rings \<Longrightarrow> rings_ok rs"
  unfolding change_leaving_put_def Let_def rbind_eq_Inr_iff
  by (auto split: if_splits intro!: change_ok_intros dest: find_or_create_ok next_version_ok start_copy_ok)

lemma change_leaving_del_ok: "change_leaving_del rg ctx rings = Inr (rs, evs) \<Longrightarrow> rings_ok rings \<Longrightarrow> rings_ok rs"
  unfolding change_leaving_del_def Let_def
  by (auto split: if_splits option.splits simp: rbind_eq_Inr_iff intro!: change_ok_intros dest: find_or_create_ok next_version_ok start_copy_ok)

lemma change_ring_ok: "change_ring rg m ctx rings = Inr (rs, evs) \<Longrightarrow> rings_ok rings \<Longrightarrow> rings_ok rs"
  by (auto simp: change_ring_def split: if_splits kv_etcd_msg_type.splits
      intro: change_joining_put_ok change_joining_del_ok change_running_put_ok change_running_del_ok
        change_leaving_put_ok change_leaving_del_ok)

lemma all_rings_ok_cong: "rg_rings rg' = rg_rings rg \<Longrightarrow> all_rings_ok rg' = all_rings_ok rg"
  by (simp add: all_rings_ok_def)

lemma all_rings_ok_upd [simp]:
  "all_rings_ok (rg\<lparr>rg_changes := a\<rparr>) = all_rings_ok rg" "all_rings_ok (rg\<lparr>rg_updates := b\<rparr>) = all_rings_ok rg"
  "all_rings_ok (rg\<lparr>rg_nodes := c\<rparr>) = all_rings_ok rg" "all_rings_ok (rg\<lparr>rg_conn_q := d\<rparr>) = all_rings_ok rg"
  "all_rings_ok (rg\<lparr>rg_online_cb := e\<rparr>) = all_rings_ok rg" "all_rings_ok (rg\<lparr>rg_server_init_cnt := f\<rparr>) = all_rings_ok rg"
  "all_rings_ok (rg\<lparr>rg_local_id := g\<rparr>) = all_rings_ok rg" "all_rings_ok (rg\<lparr>rg_init := h\<rparr>) = all_rings_ok rg"
  by (simp_all add: all_rings_ok_def)

lemma all_rings_ok_set:
  assumes "all_rings_ok rg" and "rg_rings rg = Some rss" and "rg_rings rg' = Some (rss[t := rs])" and "rings_ok (rss ! t) \<Longrightarrow> rings_ok rs"
  shows "all_rings_ok rg'"
  using assms by (cases "t < length rss") (auto simp: all_rings_ok_def list_all_length nth_list_update)

lemma update_ring_ok: "update_ring t ci rg = Inr (rg', evs) \<Longrightarrow> all_rings_ok rg \<Longrightarrow> all_rings_ok rg'"
  unfolding update_ring_def Let_def
  by (auto split: option.splits if_splits prod.splits simp: rbind_eq_Inr_iff 
      dest: change_ring_ok elim!: all_rings_ok_set)

lemma update_rings_loop_ok: "update_rings_loop cis n rg = Inr (rg', evs) \<Longrightarrow> all_rings_ok rg \<Longrightarrow> all_rings_ok rg'"
proof (induction cis n rg arbitrary: rg' evs rule: update_rings_loop.induct)
  case (2 ci cis n rg)
  then show ?case
    by (auto simp: Let_def rbind_eq_Inr_iff split: option.splits dest!: update_ring_ok)
qed simp

lemma update_rings_ok: "update_rings n rg = Inr (rg', evs) \<Longrightarrow> all_rings_ok rg \<Longrightarrow> all_rings_ok rg'"
  unfolding update_rings_def by (auto dest!: update_rings_loop_ok)

lemma on_ring_change_ok: "on_ring_change ci rg = Inr (rg', evs) \<Longrightarrow> all_rings_ok rg \<Longrightarrow> all_rings_ok rg'"
  unfolding on_ring_change_def Let_def
  by (auto split: option.splits if_splits dest!: update_rings_ok)

lemma ring_init_ok: "all_rings_ok rg \<Longrightarrow> all_rings_ok (ring_init lrn rg)"
  by (auto simp: ring_init_def all_rings_ok_def rings_ok_def list_all_length empty_ring_def ring_ok_def ring_vids_def split: option.splits)

lemma on_node_put_ok: "on_node_put n i rg = Inr (rg', evs) \<Longrightarrow> all_rings_ok rg \<Longrightarrow> all_rings_ok rg'"
  using ring_init_ok[of rg "unat (log_ring_num i)"] unfolding on_node_put_def Let_def
  by (auto split: option.splits if_splits dest!: update_rings_ok)

lemma rdma_connect_cb_ok: "rdma_connect_cb b n rg = Inr (rg', evs) \<Longrightarrow> all_rings_ok rg \<Longrightarrow> all_rings_ok rg'"
  unfolding rdma_connect_cb_def Let_def
  by (auto split: if_splits dest!: update_rings_ok simp: rbind_eq_Inr_iff)

lemma poll_conns_rings: "poll_conns ns rg = Inr (rg', evs) \<Longrightarrow> rg_rings rg' = rg_rings rg"
  by (induction ns rg arbitrary: rg' evs rule: poll_conns.induct)
    (auto simp: Let_def rbind_eq_Inr_iff split: if_splits)

lemma poll_copies_ok: "poll_copies rg i rings = Inr (rs, evs) \<Longrightarrow> rings_ok rings \<Longrightarrow> rings_ok rs"
  by (induction rg i rings arbitrary: rs evs rule: poll_copies.induct)
    (auto simp: Let_def rbind_eq_Inr_iff rings_ok_def ring_ok_def ring_vids_def)

lemma reg_node_ok: "reg_node city order rg = Inr (rg', evs) \<Longrightarrow> all_rings_ok rg \<Longrightarrow> all_rings_ok rg'"
  unfolding reg_node_def Let_def using ring_init_ok
  by (auto simp: rbind_eq_Inr_iff)

lemma poller_tail_ok:
  assumes "(case rg_rings rg of None \<Rightarrow> Inr (rg, es @ es')
     | Some rss \<Rightarrow> rbind (poll_copies rg 0 (rss ! 0)) (\<lambda>(rs, evs3). Inr (rg\<lparr>rg_rings := Some (rss[0 := rs])\<rparr>, es @ es' @ evs3))) = Inr (rg', evs)"
    and "all_rings_ok rg"
  shows "all_rings_ok rg'"
  using assms by (auto simp: rbind_eq_Inr_iff split: option.splits dest: poll_copies_ok elim!: all_rings_ok_set)

lemma conn_q_poller_ok:
  assumes "kv_conn_q_poller city order no_conns no_reqs rg = Inr (rg', evs)" and ok: "all_rings_ok rg"
  shows "all_rings_ok rg'"
proof -
  obtain rg1 evs1 where 1: "poll_conns (rg_conn_q rg) rg = Inr (rg1, evs1)"
    using assms(1) by (auto simp: kv_conn_q_poller_def rbind_eq_Inr_iff)
  have ok1: "all_rings_ok rg1" using poll_conns_rings[OF 1] ok all_rings_ok_cong by blast
  show ?thesis
  proof (cases "rg_exiting rg1")
    case True
    then show ?thesis using assms(1) 1 ok1 by (auto simp: kv_conn_q_poller_def)
  next
    case False
    let ?c = "rg_server_init_cnt rg1"
    obtain rg3 evs2 where 3: "(if ?c \<noteq> 0 then
        if ?c - 1 = 0 then reg_node city order (rg1\<lparr>rg_server_init_cnt := ?c - 1\<rparr>) else Inr (rg1\<lparr>rg_server_init_cnt := ?c - 1\<rparr>, [])
        else Inr (rg1, [])) = Inr (rg3, evs2)"
      and t: "(case rg_rings rg3 of None \<Rightarrow> Inr (rg3, evs1 @ evs2)
        | Some rss \<Rightarrow> rbind (poll_copies rg3 0 (rss ! 0)) (\<lambda>(rs, evs3). Inr (rg3\<lparr>rg_rings := Some (rss[0 := rs])\<rparr>, evs1 @ evs2 @ evs3))) = Inr (rg', evs)"
      using assms(1) 1 False unfolding kv_conn_q_poller_def Let_def rbind_eq_Inr_iff by (auto simp: rbind_eq_Inr_iff)
    have "all_rings_ok rg3" using 3 ok1 reg_node_ok by (auto split: if_splits)
    then show ?thesis using poller_tail_ok[OF t] by blast
  qed
qed

lemma stop_copy_ok: "kv_ring_stop_copy c rg = (rg', evs) \<Longrightarrow> all_rings_ok rg \<Longrightarrow> all_rings_ok rg'"
  unfolding kv_ring_stop_copy_def Let_def
  by (auto split: option.splits elim!: all_rings_ok_set intro!: rings_ok_update simp: ring_ok_def ring_vids_def)

text \<open>
  The handlers of the ring: messages of the coordination service and their delivery to the
  threads, connections, the poller, ends of copies, and start and stop.
\<close>

inductive ring_step :: "kv_ring \<Rightarrow> kv_ring \<Rightarrow> bool" where
  step_msg: "msg_handler m k vn vv rg = Inr (rg', evs) \<Longrightarrow> ring_step rg rg'"
| step_change: "on_ring_change ci rg = Inr (rg', evs) \<Longrightarrow> ring_step rg rg'"
| step_update: "update_ring t ci rg = Inr (rg', evs) \<Longrightarrow> ring_step rg rg'"
| step_node_put: "on_node_put n i rg = Inr (rg', evs) \<Longrightarrow> ring_step rg rg'"
| step_node_del: "on_node_del n rg = (rg', evs) \<Longrightarrow> ring_step rg rg'"
| step_connect: "rdma_connect_cb b n rg = Inr (rg', evs) \<Longrightarrow> ring_step rg rg'"
| step_disconnect: "rdma_disconnect_cb n rg = Inr rg' \<Longrightarrow> ring_step rg rg'"
| step_poll: "kv_conn_q_poller city order no_conns no_reqs rg = Inr (rg', evs) \<Longrightarrow> ring_step rg rg'"
| step_stop_copy: "kv_ring_stop_copy c rg = (rg', evs) \<Longrightarrow> ring_step rg rg'"
| step_server_init: "kv_ring_server_init ctx rg = Inr rg' \<Longrightarrow> ring_step rg rg'"
| step_register: "ring_step rg (kv_ring_register_copy_cb rg)"
| step_fini: "ring_step rg (kv_ring_fini rg)"

lemma msg_handler_rings: "msg_handler m k vn vv rg = Inr (rg', evs) \<Longrightarrow> rg_rings rg' = rg_rings rg"
  by (cases m) (auto simp: msg_handler_def Let_def rbind_eq_Inr_iff split: if_splits kv_etcd_msg_type.splits)

lemma node_del_rings: "on_node_del n rg = (rg', evs) \<Longrightarrow> rg_rings rg' = rg_rings rg"
  by (auto simp: on_node_del_def Let_def split: option.splits if_splits)

lemma disconnect_rings: "rdma_disconnect_cb n rg = Inr rg' \<Longrightarrow> rg_rings rg' = rg_rings rg"
  by (auto simp: rdma_disconnect_cb_def Let_def rbind_eq_Inr_iff split: if_splits)

lemma server_init_rings: "kv_ring_server_init ctx rg = Inr rg' \<Longrightarrow> rg_rings rg' = rg_rings rg"
  by (auto simp: kv_ring_server_init_def rbind_eq_Inr_iff)

lemmas keeps_rings_ok = msg_handler_rings[THEN all_rings_ok_cong, THEN iffD2] node_del_rings[THEN all_rings_ok_cong, THEN iffD2]
  disconnect_rings[THEN all_rings_ok_cong, THEN iffD2] server_init_rings[THEN all_rings_ok_cong, THEN iffD2]

lemma ring_step_ok: "ring_step rg rg' \<Longrightarrow> all_rings_ok rg \<Longrightarrow> all_rings_ok rg'"
proof (induction rule: ring_step.induct)
  case (step_register rg)
  then show ?case by (simp add: kv_ring_register_copy_cb_def all_rings_ok_def)
next
  case (step_fini rg)
  then show ?case by (simp add: kv_ring_fini_def all_rings_ok_def)
qed (rule on_ring_change_ok update_ring_ok on_node_put_ok rdma_connect_cb_ok conn_q_poller_ok stop_copy_ok keeps_rings_ok,
      assumption+)+

lemma ring_steps_ok: "ring_step\<^sup>*\<^sup>* (kv_ring_init n cb) rg \<Longrightarrow> all_rings_ok rg"
proof (induction rule: rtranclp_induct)
  case base
  then show ?case by (simp add: kv_ring_init_def all_rings_ok_def)
qed (rule ring_step_ok)

lemma reached_ring_ok:
  "ring_step\<^sup>*\<^sup>* (kv_ring_init n cb) rg \<Longrightarrow> rg_rings rg = Some rss \<Longrightarrow> rings \<in> set rss \<Longrightarrow> ring \<in> set rings \<Longrightarrow> ring_ok ring"
  using ring_steps_ok[of n cb rg] by (auto simp: all_rings_ok_def rings_ok_def list_all_iff)

section \<open>A small run\<close>

text \<open>One node connects and its virtual node joins the only ring.\<close>

definition demo_info :: kv_etcd_node where
  "demo_info = \<lparr>log_ring_num = 0, log_bkt_num = 8, rpl_num = 1, ds_num = 1\<rparr>"

definition demo_vid :: kv_etcd_vid where
  "demo_vid = \<lparr>ev_ds_id = 0, ev_vid = replicate 20 7\<rparr>"

definition demo_ring1 :: kv_ring where
  "demo_ring1 = fst (projr (on_node_put ''a:1'' demo_info (kv_ring_init 1 False)))"

definition demo_ring2 :: kv_ring where
  "demo_ring2 = fst (projr (rdma_connect_cb True ''a:1'' demo_ring1))"

definition demo_ring3 :: kv_ring where
  "demo_ring3 = fst (projr (msg_handler KV_ETCD_MSG_PUT ''/rings/0/1/a:1/'' demo_info demo_vid demo_ring2))"

definition demo_ring4 :: kv_ring where
  "demo_ring4 = fst (projr (on_ring_change 0 demo_ring3))"

lemma demo_parse: "parse_ring_key ''rings/0/1/a:1/'' = Inr (0, 1, ''a:1'', ''a:1'')"
  "key_cmp ''nodes'' ''rings/0/1/a:1/'' = Inr False" "key_cmp ''rings'' ''rings/0/1/a:1/'' = Inr True"
  by code_simp+

lemma demo_step1: "on_node_put ''a:1'' demo_info (kv_ring_init 1 False) = Inr (demo_ring1, [])"
  by (simp add: demo_ring1_def on_node_put_def Let_def ring_init_def kv_ring_init_def)

lemma demo_step2: "rdma_connect_cb True ''a:1'' demo_ring1 = Inr (demo_ring2, [])"
  by (simp add: demo_ring2_def demo_ring1_def on_node_put_def Let_def ring_init_def kv_ring_init_def rdma_connect_cb_def
      update_rings_def node_of_def)

lemma demo_step3: "msg_handler KV_ETCD_MSG_PUT ''/rings/0/1/a:1/'' demo_info demo_vid demo_ring2 = Inr (demo_ring3, [Rg_change 0])"
  by (simp add: demo_ring3_def demo_ring2_def demo_ring1_def on_node_put_def Let_def ring_init_def kv_ring_init_def rdma_connect_cb_def
      update_rings_def node_of_def msg_handler_def demo_parse MAX_RING_NUM_def)

lemma demo_step4: "\<exists>evs. on_ring_change 0 demo_ring3 = Inr (demo_ring4, evs)"
  by (simp add: demo_ring4_def demo_ring3_def demo_ring2_def demo_ring1_def on_node_put_def Let_def ring_init_def kv_ring_init_def rdma_connect_cb_def
      update_rings_def node_of_def msg_handler_def demo_parse MAX_RING_NUM_def on_ring_change_def update_ring_def change_ring_def change_running_put_def
      find_or_create_def find_vid_by_node_def empty_ring_def vnode_create_def find_vid_entry_def demo_vid_def demo_info_def get_ring_id_def)

lemma demo_rings: "rg_rings demo_ring4 = Some [[empty_ring\<lparr>vr_head := [\<lparr>ve_vid = \<lparr>ev_ds_id = 0, ev_vid = mask_vnode_id (replicate 20 7) 8\<rparr>,
     ve_node = ''a:1'', ve_state = VID_RUNNING, cp_cnt = 0, rm_cnt = 1\<rparr>]\<rparr>]]"
  by (simp add: demo_ring4_def demo_ring3_def demo_ring2_def demo_ring1_def on_node_put_def Let_def ring_init_def kv_ring_init_def rdma_connect_cb_def
      update_rings_def node_of_def msg_handler_def demo_parse MAX_RING_NUM_def on_ring_change_def update_ring_def change_ring_def change_running_put_def
      find_or_create_def find_vid_by_node_def empty_ring_def vnode_create_def find_vid_entry_def demo_vid_def demo_info_def get_ring_id_def set_entry_def)

lemma demo_reached: "ring_step\<^sup>*\<^sup>* (kv_ring_init 1 False) demo_ring4"
proof -
  obtain evs where 4: "on_ring_change 0 demo_ring3 = Inr (demo_ring4, evs)" using demo_step4 by blast
  show ?thesis
    by (intro converse_rtranclp_into_rtranclp[where r = ring_step, OF step_node_put[OF demo_step1]]
        converse_rtranclp_into_rtranclp[where r = ring_step, OF step_connect[OF demo_step2]]
        converse_rtranclp_into_rtranclp[where r = ring_step, OF step_msg[OF demo_step3]]
        converse_rtranclp_into_rtranclp[where r = ring_step, OF step_change[OF 4]] rtranclp.rtrancl_refl)
qed

section \<open>Properties\<close>

text \<open>
  C12. Consistent hashing: on every ring of a reachable state the search for a key succeeds
  without failing its assertion, and returns a virtual node with the least clockwise
  distance from the key, the one whose range \<open>(predecessor, itself]\<close> holds the key.
\<close>

theorem ring_lookup_is_successor:
  assumes "ring_step\<^sup>*\<^sup>* (kv_ring_init n cb) rg" and "rg_rings rg = Some rss" and "rings \<in> set rss" and "ring \<in> set rings"
    and "vr_head ring \<noteq> []"
  shows "\<exists>i < length (vr_head ring). find_vid_entry ring k = Inr (Some i) \<and>
    (\<forall>x \<in> set (vr_head ring). vid_of (vr_head ring ! i) - get_vid_64 k \<le> vid_of x - get_vid_64 k)"
proof -
  obtain i where i: "find_vid_entry ring k = Inr (Some i)" using find_vid_entry_total[OF assms(5)] by blast
  then show ?thesis using find_least[OF reached_ring_ok[OF assms(1-4)] i assms(5)] by blast
qed

theorem ring_lookup_is_successor_witness:
  "\<exists>rg ring. ring_step\<^sup>*\<^sup>* (kv_ring_init 1 False) rg \<and> rg_rings rg = Some [[ring]] \<and>
     (\<exists>i < length (vr_head ring). find_vid_entry ring [1, 2, 3, 4, 5, 6, 7, 8] = Inr (Some i))"
  using ring_lookup_is_successor[OF demo_reached demo_rings, where k = "[1, 2, 3, 4, 5, 6, 7, 8]"] demo_reached demo_rings
  by fastforce

text \<open>
  C18. Adding and removing virtual nodes moves as few keys as possible: after
  \<open>vnode_create\<close> a key has either its old owner or the new virtual node, the latter exactly
  if the new one is not behind the old owner as seen from the key; after \<open>vnode_delete\<close> only
  keys of the removed virtual node change their owner. Both keep the ring in order.
\<close>

theorem ring_moves_few_keys:
  assumes "ring_step\<^sup>*\<^sup>* (kv_ring_init n cb) rg" and "rg_rings rg = Some rss" and "rings \<in> set rss" and "ring \<in> set rings"
  shows "(\<exists>ring' i. vnode_create ctx ring = Inr (ring', i) \<and> ring_ok ring' \<and>
      ring_owner ring' k = (case ring_owner ring k of None \<Rightarrow> Some (change_vid ctx)
        | Some v \<Rightarrow> if change_vid ctx - get_vid_64 k \<le> v - get_vid_64 k then Some (change_vid ctx) else Some v)) \<and>
    (\<forall>j < length (vr_head ring). ring_ok (vnode_delete j ring) \<and>
      (ring_owner ring k \<noteq> Some (vid_of (vr_head ring ! j)) \<longrightarrow> ring_owner (vnode_delete j ring) k = ring_owner ring k))"
proof -
  have ok: "ring_ok ring" using reached_ring_ok[OF assms] .
  obtain ring' i where c: "vnode_create ctx ring = Inr (ring', i)" using vnode_create_ok[OF ok] by metis
  then have "ring_create ctx ring = ring'" by (simp add: ring_create_def)
  then have "\<exists>ring' i. vnode_create ctx ring = Inr (ring', i) \<and> ring_ok ring' \<and>
      ring_owner ring' k = (case ring_owner ring k of None \<Rightarrow> Some (change_vid ctx)
        | Some v \<Rightarrow> if change_vid ctx - get_vid_64 k \<le> v - get_vid_64 k then Some (change_vid ctx) else Some v)"
    using c vring.owner_create[OF ok, of ctx k] vring.create_inv[OF ok, of ctx] by auto
  moreover have "\<forall>j < length (vr_head ring). ring_ok (vnode_delete j ring) \<and>
      (ring_owner ring k \<noteq> Some (vid_of (vr_head ring ! j)) \<longrightarrow> ring_owner (vnode_delete j ring) k = ring_owner ring k)"
    using vring.owner_delete[OF ok, of _ k] vnode_delete_ok[OF ok] by (simp add: ring_vids_def)
  ultimately show ?thesis ..
qed

theorem ring_moves_few_keys_witness:
  "\<exists>rg ring. ring_step\<^sup>*\<^sup>* (kv_ring_init 1 False) rg \<and> rg_rings rg = Some [[ring]] \<and> ring_ok (vnode_delete 0 ring) \<and>
     (\<exists>ring' i. vnode_create \<lparr>rc_vid = demo_vid, rc_node_id = ''b:1'', rc_src_id = ''b:1'', rc_ring_id = 0, rc_state = 0,
        rc_msg = KV_ETCD_MSG_PUT, rc_cnt = 1\<rparr> ring = Inr (ring', i) \<and> ring_ok ring')"
  using ring_moves_few_keys[OF demo_reached demo_rings, where ctx = "\<lparr>rc_vid = demo_vid, rc_node_id = ''b:1'', rc_src_id = ''b:1'',
      rc_ring_id = 0, rc_state = 0, rc_msg = KV_ETCD_MSG_PUT, rc_cnt = 1\<rparr>"] demo_reached demo_rings
  by fastforce

end
