(* ===== verification/Ring_Chain.thy ===== *)
theory Ring_Chain
  imports Kv_Ring
begin

text \<open>
  Replication chains: which virtual nodes a key is written to. The chain of a key starts at its owner and takes the next running virtual nodes
  clockwise; one that joins or leaves is passed over and is the reason for a copy.
\<close>

section \<open>Walking around a ring\<close>

definition ring_pos :: "vnode_ring \<Rightarrow> nat \<Rightarrow> nat \<Rightarrow> nat" where
  "ring_pos ring base j = (base + j) mod length (vr_head ring)"

definition is_run :: "vnode_ring \<Rightarrow> nat \<Rightarrow> bool" where
  "is_run ring i \<longleftrightarrow> ve_state (vr_head ring ! i) = VID_RUNNING"

text \<open>The running and the other virtual nodes among the first \<open>j\<close> clockwise from \<open>base\<close>.\<close>

definition runs :: "vnode_ring \<Rightarrow> nat \<Rightarrow> nat \<Rightarrow> nat list" where
  "runs ring base j = filter (is_run ring) (map (ring_pos ring base) [0..<j])"

definition bads :: "vnode_ring \<Rightarrow> nat \<Rightarrow> nat \<Rightarrow> nat list" where
  "bads ring base j = filter (\<lambda>i. \<not> is_run ring i) (map (ring_pos ring base) [0..<j])"

definition leaving :: "vnode_ring \<Rightarrow> nat \<Rightarrow> bool" where
  "leaving ring i \<longleftrightarrow> ve_state (vr_head ring ! i) = VID_LEAVING"

text \<open>The number of replicas asked for after \<open>j\<close> virtual nodes.\<close>

definition wanted :: "vnode_ring \<Rightarrow> nat \<Rightarrow> nat \<Rightarrow> nat \<Rightarrow> nat" where
  "wanted ring base rpl j = rpl - length (filter (leaving ring) (bads ring base j))"

lemma runs_Suc: "runs ring base (Suc j) = runs ring base j @ (if is_run ring (ring_pos ring base j) then [ring_pos ring base j] else [])"
  by (simp add: runs_def)

lemma bads_Suc: "bads ring base (Suc j) = bads ring base j @ (if is_run ring (ring_pos ring base j) then [] else [ring_pos ring base j])"
  by (simp add: bads_def)

lemma ring_pos_next:
  assumes "vr_head ring \<noteq> []"
  shows "loop_next_pos ring (ring_pos ring base j) = ring_pos ring base (Suc j)"
proof -
  let ?n = "length (vr_head ring)"
  have "(base + j) mod ?n < ?n" using assms by simp
  then show ?thesis by (auto simp: loop_next_pos_def ring_pos_def mod_Suc)
qed

lemma ring_pos_base:
  assumes "base < length (vr_head ring)" and "0 < j" and "j \<le> length (vr_head ring)"
  shows "ring_pos ring base j = base \<longleftrightarrow> j = length (vr_head ring)"
proof (cases "base + j < length (vr_head ring)")
  case False
  then show ?thesis using assms by (auto simp: ring_pos_def mod_if)
qed (use assms in \<open>auto simp: ring_pos_def\<close>)

lemma ring_pos_inj:
  assumes "i < length (vr_head ring)" and "j < length (vr_head ring)" and "base < length (vr_head ring)"
    and "ring_pos ring base i = ring_pos ring base j"
  shows "i = j"
  using assms by (auto simp: ring_pos_def mod_if split: if_splits)

lemma runs_distinct:
  assumes "j \<le> length (vr_head ring)" and "base < length (vr_head ring)"
  shows "distinct (runs ring base j)"
proof -
  have "inj_on (ring_pos ring base) (set [0..<j])" using assms by (intro inj_onI) (rule ring_pos_inj, auto)
  then show ?thesis unfolding runs_def by (intro distinct_filter) (simp add: distinct_map)
qed

lemma runs_prefix: "j \<le> k \<Longrightarrow> \<exists>zs. runs ring base k = runs ring base j @ zs"
proof (induction k)
  case (Suc k)
  then show ?case by (cases "j = Suc k") (auto simp: runs_Suc)
qed (simp add: runs_def)

lemma bads_mono: "j \<le> k \<Longrightarrow> length (bads ring base j) \<le> length (bads ring base k)"
  by (induction k) (auto simp: bads_Suc le_Suc_eq)

section \<open>The loop of get\_chain\<close>

definition first_bad :: "nat list \<Rightarrow> nat option" where
  "first_bad bs = (case bs of [] \<Rightarrow> None | b # _ \<Rightarrow> Some b)"

text \<open>
  The loop stops after \<open>k\<close> virtual nodes: once around, or with as many replicas as wanted,
  and not before.
\<close>

definition loop_end :: "vnode_ring \<Rightarrow> nat \<Rightarrow> nat \<Rightarrow> nat \<Rightarrow> bool" where
  "loop_end ring base rpl k \<longleftrightarrow> k \<le> length (vr_head ring) \<and>
     (k = length (vr_head ring) \<or> wanted ring base rpl k \<le> length (runs ring base k)) \<and>
     (\<forall>i < k. length (runs ring base i) < wanted ring base rpl i)"

lemma chain_loop_ok:
  assumes "base < length (vr_head ring)" and "j < length (vr_head ring)" and "length (vr_head ring) - j < fuel"
    and "length (bads ring base (length (vr_head ring))) \<le> 1"
    and "\<forall>i < j. length (runs ring base i) < wanted ring base rpl i"
  shows "\<exists>k. j \<le> k \<and> loop_end ring base rpl k \<and>
    chain_loop fuel ring base (wanted ring base rpl j) (runs ring base j) (first_bad (bads ring base j)) (ring_pos ring base j) =
      Inr (runs ring base k, first_bad (bads ring base k), ring_pos ring base k)"
  using assms(2,3,5)
proof (induction fuel arbitrary: j)
  case (Suc fuel)
  let ?n = "length (vr_head ring)" and ?x = "ring_pos ring base j"
  have ne: "vr_head ring \<noteq> []" using assms(1) by auto
  have nx: "loop_next_pos ring ?x = ring_pos ring base (Suc j)" using ring_pos_next[OF ne] .
  have b1: "length (bads ring base (Suc j)) \<le> 1" using bads_mono[of "Suc j" ?n ring base] assms(4) Suc.prems(1) by simp
  have at_base: "ring_pos ring base (Suc j) = base \<longleftrightarrow> Suc j = ?n" using ring_pos_base[OF assms(1), of "Suc j"] Suc.prems(1) by simp
  show ?case
  proof (cases "length (runs ring base j) < wanted ring base rpl j")
    case False
    then show ?thesis using Suc.prems by (intro exI[of _ j]) (simp add: loop_end_def)
  next
    case True
    have before: "\<forall>i < Suc j. length (runs ring base i) < wanted ring base rpl i" using True Suc.prems(3) by (simp add: less_Suc_eq)
    have fin: "Suc j = ?n \<Longrightarrow> loop_end ring base rpl (Suc j)" using before by (simp add: loop_end_def)
    have step: "chain_loop (Suc fuel) ring base (wanted ring base rpl j) (runs ring base j) (first_bad (bads ring base j)) ?x =
      (if ring_pos ring base (Suc j) = base then Inr (runs ring base (Suc j), first_bad (bads ring base (Suc j)), ring_pos ring base (Suc j))
       else chain_loop fuel ring base (wanted ring base rpl (Suc j)) (runs ring base (Suc j)) (first_bad (bads ring base (Suc j))) (ring_pos ring base (Suc j)))"
    proof (cases "is_run ring ?x")
      case run: True
      then show ?thesis using True nx
        by (simp add: Let_def is_run_def[symmetric] runs_Suc bads_Suc wanted_def)
    next
      case bad: False
      then have nil: "bads ring base j = []" using b1 by (simp add: bads_Suc)
      have st: "ve_state (vr_head ring ! ?x) \<noteq> VID_RUNNING" using bad by (simp add: is_run_def)
      show ?thesis using True nx st nil bad
        by (simp add: Let_def runs_Suc bads_Suc wanted_def first_bad_def leaving_def)
    qed
    show ?thesis
    proof (cases "Suc j = ?n")
      case True
      then show ?thesis using step at_base fin by (intro exI[of _ "Suc j"]) simp
    next
      case False
      then have "Suc j < ?n" "?n - Suc j < fuel" using Suc.prems(1,2) by simp_all
      from Suc.IH[OF this before] show ?thesis using step at_base False by (auto intro: Suc_leD)
    qed
  qed
qed simp

section \<open>Chains\<close>

lemma single_bad: "length bs \<le> 1 \<Longrightarrow> bs = [] \<or> (\<exists>b. bs = [b])"
  by (cases bs) auto

lemma wanted_le: "wanted ring base rpl j \<le> rpl"
  by (simp add: wanted_def)

lemma loop_end_bound:
  assumes "loop_end ring base rpl k"
  shows "length (runs ring base k) \<le> wanted ring base rpl k"
proof (cases k)
  case (Suc i)
  then have "length (runs ring base i) < wanted ring base rpl i" using assms by (simp add: loop_end_def)
  then show ?thesis using Suc by (auto simp: runs_Suc bads_Suc wanted_def)
qed (simp add: runs_def)

lemma loop_end_length:
  assumes "loop_end ring base rpl k"
  shows "length (runs ring base k) = min (wanted ring base rpl k) (length (runs ring base (length (vr_head ring))))"
proof -
  obtain zs where "runs ring base (length (vr_head ring)) = runs ring base k @ zs"
    using assms runs_prefix[of k "length (vr_head ring)" ring base] by (auto simp: loop_end_def)
  then show ?thesis using assms loop_end_bound[OF assms] by (auto simp: loop_end_def)
qed

text \<open>What follows the chain once its only irregular virtual node is behind it.\<close>

lemma after_chain:
  assumes "k < length (vr_head ring)" and "length (bads ring base (length (vr_head ring))) \<le> 1" and "bads ring base k = [b]"
  shows "length (runs ring base k) < length (runs ring base (length (vr_head ring))) \<and>
    runs ring base (length (vr_head ring)) ! length (runs ring base k) = ring_pos ring base k"
proof -
  have "length (bads ring base (Suc k)) \<le> 1" using bads_mono[of "Suc k" "length (vr_head ring)" ring base] assms by simp
  then have "is_run ring (ring_pos ring base k)" using assms(3) by (auto simp: bads_Suc split: if_splits)
  moreover obtain zs where "runs ring base (length (vr_head ring)) = runs ring base (Suc k) @ zs"
    using runs_prefix[of "Suc k" "length (vr_head ring)" ring base] assms(1) by auto
  ultimately show ?thesis by (simp add: runs_Suc)
qed

definition ring_rpl :: "nodes \<Rightarrow> vnode_ring \<Rightarrow> nat \<Rightarrow> nat" where
  "ring_rpl ns ring base = unat (rpl_num (info (ns (ve_node (vr_head ring ! base)))))"

lemma get_chain_at_ok:
  assumes "base < length (vr_head ring)" and "length (bads ring base (length (vr_head ring))) \<le> 1"
  obtains k where "loop_end ring base (ring_rpl ns ring base) k"
    "get_chain_at ns ring base = Inr \<lparr>ch_base = base,
       ch_copy = (case first_bad (bads ring base k) of None \<Rightarrow> None
          | Some v \<Rightarrow> (case ve_state (vr_head ring ! v) of VID_LEAVING \<Rightarrow> if ring_pos ring base k \<noteq> base then Some (ring_pos ring base k) else None
             | VID_JOINING \<Rightarrow> Some v | VID_RUNNING \<Rightarrow> None)),
       ch_invalid = first_bad (bads ring base k), ch_vids = runs ring base k\<rparr>"
proof -
  have 0: "wanted ring base rpl 0 = rpl" "runs ring base 0 = []" "first_bad (bads ring base 0) = None" "ring_pos ring base 0 = base" for rpl
    using assms(1) by (simp_all add: wanted_def runs_def bads_def first_bad_def ring_pos_def)
  have "0 < length (vr_head ring)" using assms(1) by (rule gr_implies_not0[THEN neq0_conv[THEN iffD1]])
  then obtain k where "loop_end ring base (ring_rpl ns ring base) k"
    "chain_loop (Suc (length (vr_head ring))) ring base (ring_rpl ns ring base) [] None base =
       Inr (runs ring base k, first_bad (bads ring base k), ring_pos ring base k)"
    using chain_loop_ok[OF assms(1), of 0 "Suc (length (vr_head ring))" "ring_rpl ns ring base"] assms(2) by (auto simp: 0)
  then show ?thesis by (intro that[of k]) (simp_all add: get_chain_at_def ring_rpl_def Let_def)
qed

text \<open>
  The chain as the documentation describes it, in one go. \<open>order\<close> are the virtual nodes
  clockwise from the owner, \<open>met\<close> is the joining or leaving one if it comes before the chain is
  complete. A leaving one takes the place of a replica, which the next running virtual node
  after the chain is being filled to take over; a joining one is being filled itself.
\<close>

definition chain_spec :: "vnode_ring \<Rightarrow> nat \<Rightarrow> nat \<Rightarrow> vnode_chain" where
  "chain_spec ring base rpl =
     (let order = map (ring_pos ring base) [0..<length (vr_head ring)]; running = filter (is_run ring) order;
          met = (if length (takeWhile (is_run ring) order) < rpl then List.find (\<lambda>i. \<not> is_run ring i) order else None);
          want = (case met of None \<Rightarrow> rpl | Some v \<Rightarrow> if leaving ring v then rpl - 1 else rpl)
      in \<lparr>ch_base = base,
          ch_copy = (case met of None \<Rightarrow> None
             | Some v \<Rightarrow> if leaving ring v then if want < length running then Some (running ! want) else None else Some v),
          ch_invalid = met, ch_vids = take want running\<rparr>)"

lemma first_irregular:
  assumes "length (bads ring base (length (vr_head ring))) \<le> 1" and "j \<le> length (vr_head ring)"
  shows "bads ring base j =
    (let d = length (takeWhile (is_run ring) (map (ring_pos ring base) [0..<length (vr_head ring)]))
     in if d < j then [ring_pos ring base d] else [])"
proof -
  let ?o = "map (ring_pos ring base) [0..<length (vr_head ring)]"
  define d where "d = length (takeWhile (is_run ring) ?o)"
  have run: "is_run ring (ring_pos ring base i)" if "i < d" for i
    using that nth_length_takeWhile takeWhile_nth[of i "is_run ring" ?o] length_takeWhile_le[of "is_run ring" ?o]
      set_takeWhileD[of "takeWhile (is_run ring) ?o ! i" "is_run ring" ?o] nth_mem[of i "takeWhile (is_run ring) ?o"]
    by (auto simp: d_def)
  show ?thesis
  proof (cases "d < j")
    case False
    then have "bads ring base j = []" using run by (auto simp: bads_def filter_empty_conv)
    then show ?thesis using False by (simp add: d_def[symmetric] Let_def)
  next
    case True
    then have "\<not> is_run ring (ring_pos ring base d)"
      using nth_length_takeWhile[of "is_run ring" ?o] assms(2) by (simp add: d_def)
    then have "ring_pos ring base d \<in> set (bads ring base j)" using True by (auto simp: bads_def)
    moreover have "length (bads ring base j) \<le> 1" using bads_mono[OF assms(2), of ring base] assms(1) by simp
    ultimately have "bads ring base j = [ring_pos ring base d]" by (cases "bads ring base j") auto
    then show ?thesis using True by (simp add: d_def[symmetric] Let_def)
  qed
qed

lemma runs_bads_length: "length (runs ring base j) + length (bads ring base j) = j"
  using sum_length_filter_compl[of "is_run ring" "map (ring_pos ring base) [0..<j]"] by (simp add: runs_def bads_def)

lemma find_filter: "List.find P xs = (case filter P xs of [] \<Rightarrow> None | x # _ \<Rightarrow> Some x)"
  by (induction xs) auto

text \<open>The loop meets the irregular virtual node exactly if the chain is not complete before it.\<close>

lemma loop_meets:
  assumes "length (bads ring base (length (vr_head ring))) \<le> 1" and "loop_end ring base rpl k"
  shows "first_bad (bads ring base k) =
    (if length (takeWhile (is_run ring) (map (ring_pos ring base) [0..<length (vr_head ring)])) < rpl
     then List.find (\<lambda>i. \<not> is_run ring i) (map (ring_pos ring base) [0..<length (vr_head ring)]) else None)"
proof -
  let ?n = "length (vr_head ring)" and ?o = "map (ring_pos ring base) [0..<length (vr_head ring)]"
  define d where "d = length (takeWhile (is_run ring) ?o)"
  have kn: "k \<le> ?n" using assms(2) by (simp add: loop_end_def)
  have b: "bads ring base j = (if d < j then [ring_pos ring base d] else [])" if "j \<le> ?n" for j
    using first_irregular[OF assms(1) that] by (simp add: d_def Let_def)
  have f: "List.find (\<lambda>i. \<not> is_run ring i) ?o = (if d < ?n then Some (ring_pos ring base d) else None)"
    using b[of ?n] by (simp add: find_filter bads_def)
  have dn: "d \<le> ?n" using length_takeWhile_le[of "is_run ring" ?o] by (simp add: d_def)
  have full: "length (runs ring base j) = j" "wanted ring base rpl j = rpl" if "j \<le> d" "j \<le> ?n" for j
    using that b[of j] runs_bads_length[of ring base j] by (simp_all add: wanted_def)
  have "d < k \<longleftrightarrow> d < rpl \<and> d < ?n"
  proof
    assume "d < k"
    then show "d < rpl \<and> d < ?n" using assms(2) full[of d] kn by (auto simp: loop_end_def)
  next
    assume d: "d < rpl \<and> d < ?n"
    show "d < k"
    proof (rule ccontr)
      assume "\<not> d < k"
      then have "length (runs ring base k) = k" "wanted ring base rpl k = rpl" using full[of k] kn by simp_all
      then show False using assms(2) d \<open>\<not> d < k\<close> by (auto simp: loop_end_def)
    qed
  qed
  then show ?thesis using f b[OF kn] dn by (auto simp: first_bad_def d_def[symmetric])
qed

lemma get_chain_at_spec:
  assumes "base < length (vr_head ring)" and "length (bads ring base (length (vr_head ring))) \<le> 1"
  shows "get_chain_at ns ring base = Inr (chain_spec ring base (ring_rpl ns ring base)) \<and>
    distinct (ch_vids (chain_spec ring base (ring_rpl ns ring base)))"
proof -
  let ?n = "length (vr_head ring)" and ?rpl = "ring_rpl ns ring base" and ?R = "runs ring base (length (vr_head ring))"
  obtain k where k: "loop_end ring base ?rpl k"
    "get_chain_at ns ring base = Inr \<lparr>ch_base = base,
       ch_copy = (case first_bad (bads ring base k) of None \<Rightarrow> None
          | Some v \<Rightarrow> (case ve_state (vr_head ring ! v) of VID_LEAVING \<Rightarrow> if ring_pos ring base k \<noteq> base then Some (ring_pos ring base k) else None
             | VID_JOINING \<Rightarrow> Some v | VID_RUNNING \<Rightarrow> None)),
       ch_invalid = first_bad (bads ring base k), ch_vids = runs ring base k\<rparr>"
    by (rule get_chain_at_ok[OF assms])
  have kn: "k \<le> ?n" using k(1) by (simp add: loop_end_def)
  obtain zs where zs: "?R = runs ring base k @ zs" using runs_prefix[OF kn] by blast
  have len: "length (runs ring base k) = min (wanted ring base ?rpl k) (length ?R)" using loop_end_length[OF k(1)] .
  then have pre: "runs ring base k = take (wanted ring base ?rpl k) ?R" using zs by (metis append_eq_conv_conj min_def take_all_iff take_take linear)
  have dist: "distinct (runs ring base k)" using runs_distinct[OF kn assms(1)] .
  note met = loop_meets[OF assms(2) k(1), symmetric]
  have spec: "chain_spec ring base ?rpl = \<lparr>ch_base = base,
      ch_copy = (case first_bad (bads ring base k) of None \<Rightarrow> None
         | Some v \<Rightarrow> if leaving ring v then if ?rpl - 1 < length ?R then Some (?R ! (?rpl - 1)) else None else Some v),
      ch_invalid = first_bad (bads ring base k),
      ch_vids = take (case first_bad (bads ring base k) of None \<Rightarrow> ?rpl | Some v \<Rightarrow> if leaving ring v then ?rpl - 1 else ?rpl) ?R\<rparr>"
    unfolding chain_spec_def Let_def met runs_def by (simp split: option.splits)
  have "length (bads ring base k) \<le> 1" using bads_mono[OF kn, of ring base] assms(2) by simp
  then consider "bads ring base k = []" | b where "bads ring base k = [b]" using single_bad by blast
  then show ?thesis
  proof cases
    case 1
    then have "wanted ring base ?rpl k = ?rpl" by (simp add: wanted_def)
    then show ?thesis using k(2) 1 pre dist unfolding spec by (simp add: first_bad_def)
  next
    case (2 b)
    have b: "\<not> is_run ring b" using 2 by (auto simp: bads_def dest: filter_eq_ConsD)
    have k0: "0 < k" using 2 by (cases k) (simp_all add: bads_def)
    show ?thesis
    proof (cases "leaving ring b")
      case True
      then have w: "wanted ring base ?rpl k = ?rpl - 1" using 2 by (simp add: wanted_def)
      have "(if ring_pos ring base k \<noteq> base then Some (ring_pos ring base k) else None) =
        (if length (runs ring base k) < length ?R then Some (?R ! length (runs ring base k)) else None)"
        using after_chain[OF _ assms(2) 2] ring_pos_base[OF assms(1) k0 kn] kn by (cases "k = ?n") auto
      also have "\<dots> = (if ?rpl - 1 < length ?R then Some (?R ! (?rpl - 1)) else None)" using len w by (auto simp: min_def)
      finally show ?thesis using k(2) 2 pre dist True w unfolding spec by (simp add: first_bad_def leaving_def)
    next
      case False
      then have "ve_state (vr_head ring ! b) = VID_JOINING" using b
        by (cases "ve_state (vr_head ring ! b)") (auto simp: leaving_def is_run_def)
      moreover have "wanted ring base ?rpl k = ?rpl" using 2 False by (simp add: wanted_def)
      ultimately show ?thesis using k(2) 2 pre dist False unfolding spec by (simp add: first_bad_def)
    qed
  qed
qed

section \<open>Properties\<close>

text \<open>
  C13. The chain of a key: if at most one virtual node of the ring is joining or leaving,
  \<open>get_chain\<close> succeeds and returns the chain of \<open>chain_spec\<close>. Its replicas are the first
  running virtual nodes clockwise from the owner of the key, all different, as many as the
  replication factor asks and the ring has; the joining or leaving virtual node is recorded
  exactly if it comes before the chain is complete; a leaving one then takes one place of the
  chain and the target of the copy is the running virtual node behind the chain, if there is
  one, and a joining one is the target itself.
\<close>

theorem get_chain_correct:
  assumes "base < length (vr_head ring)" and "length (bads ring base (length (vr_head ring))) \<le> 1"
  shows "get_chain_at ns ring base = Inr (chain_spec ring base (ring_rpl ns ring base)) \<and>
    distinct (ch_vids (chain_spec ring base (ring_rpl ns ring base)))"
  using assms by (rule get_chain_at_spec)

text \<open>A ring of four virtual nodes with two replicas, the second one leaving.\<close>

definition demo_entry :: "string \<Rightarrow> u8 \<Rightarrow> vid_state \<Rightarrow> vid_entry" where
  "demo_entry n v st = \<lparr>ve_vid = \<lparr>ev_ds_id = 0, ev_vid = replicate 20 v\<rparr>, ve_node = n, ve_state = st, cp_cnt = 0, rm_cnt = 1\<rparr>"

definition demo_chain_ring :: vnode_ring where
  "demo_chain_ring = \<lparr>vr_head = [demo_entry ''a'' 10 VID_RUNNING, demo_entry ''b'' 20 VID_LEAVING, demo_entry ''c'' 30 VID_RUNNING,
     demo_entry ''d'' 40 VID_RUNNING], vr_version = 0, vr_copy_ranges = [], vr_range_size = 0\<rparr>"

definition demo_nodes :: nodes where
  "demo_nodes n = \<lparr>info = \<lparr>log_ring_num = 0, log_bkt_num = 8, rpl_num = 2, ds_num = 1\<rparr>, node_queue = \<lparr>ds_cnt = 1, q_info = [\<lparr>q_size = 0, q_cap = 1024\<rparr>], q_io_cnt = [0]\<rparr>,
     is_connected = True, is_disconnecting = False, is_local = False, has_info = True, req_cnt = 0\<rparr>"

lemma demo_bads: "bads demo_chain_ring 0 4 = [1]"
  by code_simp

lemma demo_length: "length (vr_head demo_chain_ring) = 4"
  by (simp add: demo_chain_ring_def)

theorem get_chain_correct_witness:
  "get_chain_at demo_nodes demo_chain_ring 0 = Inr \<lparr>ch_base = 0, ch_copy = Some 2, ch_invalid = Some 1, ch_vids = [0]\<rparr>"
proof -
  have "unat (rpl_num (info (demo_nodes n))) = 2" for n by (simp add: demo_nodes_def)
  then have "chain_spec demo_chain_ring 0 (ring_rpl demo_nodes demo_chain_ring 0) =
      \<lparr>ch_base = 0, ch_copy = Some 2, ch_invalid = Some 1, ch_vids = [0]\<rparr>"
    by (simp add: ring_rpl_def chain_spec_def demo_chain_ring_def demo_entry_def is_run_def leaving_def ring_pos_def Let_def upt_rec)
  then show ?thesis using get_chain_correct[of 0 demo_chain_ring demo_nodes] by (simp add: demo_length demo_bads)
qed

end
