(* ===== verification/Server_Consistency.thy ===== *)
theory Server_Consistency
  imports Kv_Server Admission
begin

text \<open>
  Reads at a replica that is not the tail. A write marks its key dirty in the data store of
  every replica before the tail when it starts, and the answer of the rest of the chain
  removes the mark; a read of a dirty key goes on to the tail. This theory follows the
  requests of a server through their phases and shows that the marks are exactly the writes
  under way, so that a read is served locally only if no write of its key is under way.
\<close>

section \<open>Marks\<close>

text \<open>The mark a request leaves: its data store and its padded key.\<close>

definition io_mark :: "io_ctx \<Rightarrow> (nat \<times> u8 list) option" where
  "io_mark io = (if marks_dirty io then Some (io_store io, pad_key (KV_MSG_KEY (io_msg io))) else None)"

definition same_dirty :: "kv_server \<Rightarrow> kv_server \<Rightarrow> bool" where
  "same_dirty s s' \<longleftrightarrow> (\<forall>d. dirty_set (sv_stores s' d) = dirty_set (sv_stores s d))"

text \<open>What a step on request \<open>i\<close> leaves alone: marks, kinds, the pool, and all of the other requests.\<close>

definition same_ios :: "nat \<Rightarrow> kv_server \<Rightarrow> kv_server \<Rightarrow> bool" where
  "same_ios i s s' \<longleftrightarrow> sv_io_pool s' = sv_io_pool s \<and> (\<forall>j. j \<noteq> i \<longrightarrow> sv_ios s' j = sv_ios s j) \<and>
     io_mark (sv_ios s' i) = io_mark (sv_ios s i) \<and> in_copy_pool (sv_ios s' i) = in_copy_pool (sv_ios s i)"

lemma same_iosI:
  "sv_ios s' = (sv_ios s)(i := io) \<Longrightarrow> sv_io_pool s' = sv_io_pool s \<Longrightarrow> io_mark io = io_mark (sv_ios s i) \<Longrightarrow>
    in_copy_pool io = in_copy_pool (sv_ios s i) \<Longrightarrow> same_ios i s s'"
  by (simp add: same_ios_def)

lemma same_ios_refl: "sv_ios s' = sv_ios s \<Longrightarrow> sv_io_pool s' = sv_io_pool s \<Longrightarrow> same_ios i s s'"
  by (simp add: same_ios_def)

lemma same_trans: "same_ios i s s1 \<Longrightarrow> same_ios i s1 s2 \<Longrightarrow> same_ios i s s2"
  "same_dirty s s1 \<Longrightarrow> same_dirty s1 s2 \<Longrightarrow> same_dirty s s2"
  by (simp_all add: same_ios_def same_dirty_def)

text \<open>Changes of a request that keep its mark.\<close>

lemma io_mark_upd [simp]:
  "io_mark (io\<lparr>need_forward := a\<rparr>) = io_mark io" "io_mark (io\<lparr>io_ds_ctx := b\<rparr>) = io_mark io"
  "io_mark (io\<lparr>io_io := c\<rparr>) = io_mark io"
  by (simp_all add: io_mark_def marks_dirty_def io_store_def)

lemma io_mark_msg: "KV_MSG_KEY m = KV_MSG_KEY (io_msg io) \<or> \<not> marks_dirty io \<Longrightarrow> io_mark (io\<lparr>io_msg := m\<rparr>) = io_mark io"
  by (auto simp: io_mark_def marks_dirty_def io_store_def)

lemma key_upd [simp]:
  "KV_MSG_KEY (m\<lparr>msg_type := a\<rparr>) = KV_MSG_KEY m" "KV_MSG_KEY (m\<lparr>value_len := b\<rparr>) = KV_MSG_KEY m"
  "KV_MSG_KEY (m\<lparr>put_key_ok := c\<rparr>) = KV_MSG_KEY m" "KV_MSG_KEY (m\<lparr>slot_id := d\<rparr>) = KV_MSG_KEY m"
  "KV_MSG_KEY (m\<lparr>msg_ds_id := e\<rparr>) = KV_MSG_KEY m" "KV_MSG_KEY (m\<lparr>msg_q_info := f\<rparr>) = KV_MSG_KEY m"
  "KV_MSG_KEY (m\<lparr>hop := h\<rparr>) = KV_MSG_KEY m"
  by (simp_all add: KV_MSG_KEY_def)

section \<open>The data store keeps the dirty set\<close>

lemma enqueue_dirty: "enqueue ds op fn c = (ds', e, evs) \<Longrightarrow> dirty_set ds' = dirty_set ds"
  by (auto simp: enqueue_def Let_def split: prod.splits option.splits)

lemma store_ops_dirty:
  "kv_data_store_set ds k v bs n c = (ds1, i, evs) \<Longrightarrow> dirty_set ds1 = dirty_set ds"
  "kv_data_store_delete ds k c = (ds2, i, evs) \<Longrightarrow> dirty_set ds2 = dirty_set ds"
  "kv_data_store_get ds k v mt c = (ds3, i, evs) \<Longrightarrow> dirty_set ds3 = dirty_set ds"
  "kv_data_store_buffered_set ds ks vs ns c = Inr (ds4, i, evs) \<Longrightarrow> dirty_set ds4 = dirty_set ds"
  by (auto simp: kv_data_store_set_def kv_data_store_delete_def kv_data_store_get_def kv_data_store_buffered_set_def Let_def
      split: prod.splits if_splits dest!: enqueue_dirty)

lemma commit_dirty: "forward_commit io ds = Inr (ds', evs) \<Longrightarrow> dirty_set ds' = dirty_set ds"
  by (auto simp: forward_commit_def kv_data_store_set_commit_def kv_data_store_set_buffered_commit_def
      kv_data_store_del_commit_def Let_def rbind_eq_Inr_iff split: if_splits option.splits)

lemma copy_del_dirty: "kv_data_store_copy_del_key_range ds a b del c = Inr (ds', c') \<Longrightarrow> dirty_set ds' = dirty_set ds"
  by (auto simp: kv_data_store_copy_del_key_range_def Let_def rbind_eq_Inr_iff split: if_splits option.splits)

lemma set_store_dirty: "dirty_set ds = dirty_set (sv_stores s d) \<Longrightarrow> same_dirty s (set_store d ds s)"
  by (simp add: same_dirty_def set_store_def)

section \<open>Frames of the handlers\<close>

lemma io_fini_frame:
  assumes "io_fini success i s = Inr (s', evs)"
  shows "same_ios i s s' \<and> same_dirty s s'"
  using assms
  by (auto simp: io_fini_def Let_def same_dirty_def set_io_def io_mark_msg split: if_splits intro!: same_iosI)

lemma flush_frame:
  assumes "flush_set_buffer i d s = Inr (s', evs)"
  shows "same_ios i s s' \<and> same_dirty s s'"
  using assms
  by (auto simp: flush_set_buffer_def Let_def rbind_eq_Inr_iff same_dirty_def set_io_def set_store_def
      dest: store_ops_dirty(4) intro!: same_iosI)

lemma start_read_frame:
  assumes "io = sv_ios s i" and "\<not> marks_dirty io"
  shows "start_get ret i io s = Inr (s', evs) \<Longrightarrow> same_ios i s s' \<and> same_dirty s s'"
    and "start_meta_get ret i io s = Inr (s', evs) \<Longrightarrow> same_ios i s s' \<and> same_dirty s s'"
proof -
  have msg: "same_ios i s (set_io i (io\<lparr>io_msg := m\<rparr>) s) \<and> same_dirty s (set_io i (io\<lparr>io_msg := m\<rparr>) s)" for m
    using assms by (auto simp: set_io_def same_dirty_def io_mark_msg intro!: same_iosI)
  have fwd: "same_ios i s (set_io i (io\<lparr>need_forward := True\<rparr>) s) \<and> same_dirty s (set_io i (io\<lparr>need_forward := True\<rparr>) s)"
    using assms by (auto simp: set_io_def same_dirty_def intro!: same_iosI)
  assume a: "start_get ret i io s = Inr (s', evs)"
  obtain dirty where d: "kv_data_store_is_dirty (sv_stores s (io_store io)) (KV_MSG_KEY (io_msg io)) = Inr dirty"
    using a by (auto simp: start_get_def Let_def rbind_eq_Inr_iff)
  show "same_ios i s s' \<and> same_dirty s s'"
  proof (cases "dirty \<and> io_vnode_type io = KV_RING_VNODE")
    case True
    then have "io_fini True i (set_io i (io\<lparr>need_forward := True\<rparr>) s) = Inr (s', evs)"
      using a d by (simp add: start_get_def Let_def)
    then show ?thesis using io_fini_frame fwd same_trans by blast
  next
    case False
    obtain ds c devs where g: "kv_data_store_get (sv_stores s (io_store io)) (KV_MSG_KEY (io_msg io)) (value_addr io) None i = (ds, c, devs)"
      by (cases "kv_data_store_get (sv_stores s (io_store io)) (KV_MSG_KEY (io_msg io)) (value_addr io) None i") auto
    then obtain m where "s' = set_io i (io\<lparr>io_msg := m\<rparr>) (set_store (io_store io) ds s)"
      using a d False by (auto simp: start_get_def Let_def split: prod.splits)
    then show ?thesis using store_ops_dirty(3)[OF g] assms
      by (auto simp: set_io_def set_store_def same_dirty_def io_mark_msg intro!: same_iosI)
  qed
next
  have msg: "same_ios i s (set_io i (io\<lparr>io_msg := m\<rparr>) s) \<and> same_dirty s (set_io i (io\<lparr>io_msg := m\<rparr>) s)" for m
    using assms by (auto simp: set_io_def same_dirty_def io_mark_msg intro!: same_iosI)
  assume "start_meta_get ret i io s = Inr (s', evs)"
  then obtain m evs' where "io_fini True i (set_io i (io\<lparr>io_msg := m\<rparr>) s) = Inr (s', evs')"
    by (auto simp: start_meta_get_def Let_def rbind_eq_Inr_iff split: prod.splits)
  then show "same_ios i s s' \<and> same_dirty s s'" using io_fini_frame msg same_trans by blast
qed

lemma start_buffered_frame:
  assumes "start_buffered_set i io s = Inr (s', evs)"
  shows "same_ios i s s' \<and> same_dirty s s'"
proof -
  let ?slots = "sv_set_buffers s (io_store io) @ [(i, key_len (io_msg io), value_len (io_msg io))]"
  let ?s = "s\<lparr>sv_set_buffers := (sv_set_buffers s)(io_store io := ?slots)\<rparr>"
  have f: "same_ios i s ?s \<and> same_dirty s ?s" by (simp add: same_ios_def same_dirty_def)
  have "s' = ?s \<or> flush_set_buffer i (io_store io) ?s = Inr (s', evs)"
    using assms by (auto simp: start_buffered_set_def Let_def rbind_eq_Inr_iff split: if_splits)
  then show ?thesis using f flush_frame same_trans by blast
qed

text \<open>The start of a write: a replica before the tail adds the mark of the request to its store.\<close>

lemma start_write_frame:
  assumes "start_write i io s = Inr (s', evs)" and "io = sv_ios s i"
  shows "same_ios i s s'" and "\<And>d. d \<noteq> io_store io \<Longrightarrow> dirty_set (sv_stores s' d) = dirty_set (sv_stores s d)"
    and "if io_vnode_type io = KV_RING_VNODE
      then kv_bucket_key_set_add (dirty_set (sv_stores s (io_store io))) (KV_MSG_KEY (io_msg io)) (length (KV_MSG_KEY (io_msg io))) =
             Inr (dirty_set (sv_stores s' (io_store io)))
      else dirty_set (sv_stores s' (io_store io)) = dirty_set (sv_stores s (io_store io))"
proof -
  let ?d = "io_store io" and ?k = "KV_MSG_KEY (io_msg io)"
  obtain ds where ds: "(if io_vnode_type io = KV_RING_VNODE then kv_data_store_dirty (sv_stores s ?d) ?k else Inr (sv_stores s ?d)) = Inr ds"
    using assms(1) by (auto simp: start_write_def Let_def rbind_eq_Inr_iff)
  obtain ds' c where s': "s' = set_io i (io\<lparr>io_ds_ctx := c\<rparr>) (set_store ?d ds' s)" "dirty_set ds' = dirty_set ds"
    using assms(1) ds
    by (auto simp: start_write_def Let_def rbind_eq_Inr_iff split: if_splits prod.splits dest: store_ops_dirty(1,2))
  show "same_ios i s s'" using s' assms(2) by (auto simp: set_io_def set_store_def intro!: same_iosI)
  show "\<And>d. d \<noteq> ?d \<Longrightarrow> dirty_set (sv_stores s' d) = dirty_set (sv_stores s d)" using s' by (simp add: set_io_def set_store_def)
  show "if io_vnode_type io = KV_RING_VNODE
      then kv_bucket_key_set_add (dirty_set (sv_stores s ?d)) ?k (length ?k) = Inr (dirty_set (sv_stores s' ?d))
      else dirty_set (sv_stores s' ?d) = dirty_set (sv_stores s ?d)"
    using ds s' by (auto simp: kv_data_store_dirty_def rbind_eq_Inr_iff set_io_def set_store_def split: if_splits)
qed

text \<open>The answer of the chain removes it.\<close>

lemma forward_cb_frame:
  assumes "server_forward_cb vbuf buf i s = Inr (s', evs)" and "\<not> in_copy_pool (sv_ios s i)"
  shows "same_ios i s s'" and "\<And>d. d \<noteq> io_store (sv_ios s i) \<Longrightarrow> dirty_set (sv_stores s' d) = dirty_set (sv_stores s d)"
    and "if marks_dirty (sv_ios s i)
      then kv_bucket_key_set_del (dirty_set (sv_stores s (io_store (sv_ios s i)))) (KV_MSG_KEY (io_msg (sv_ios s i)))
             (length (KV_MSG_KEY (io_msg (sv_ios s i)))) = Inr (dirty_set (sv_stores s' (io_store (sv_ios s i))))
      else dirty_set (sv_stores s' (io_store (sv_ios s i))) = dirty_set (sv_stores s (io_store (sv_ios s i)))"
proof -
  let ?io = "sv_ios s i" let ?d = "io_store ?io" and ?k = "KV_MSG_KEY (io_msg ?io)"
  obtain ds1 ds2 dev where 1: "(if marks_dirty ?io then kv_data_store_clean (sv_stores s ?d) ?k else Inr (sv_stores s ?d)) = Inr ds1"
    and 2: "forward_commit ?io ds1 = Inr (ds2, dev)" and s': "s' = set_store ?d ds2 s"
    using assms by (auto simp: server_forward_cb_def Let_def rbind_eq_Inr_iff)
  show "same_ios i s s'" using s' by (intro same_ios_refl) (simp_all add: set_store_def)
  show "\<And>d. d \<noteq> ?d \<Longrightarrow> dirty_set (sv_stores s' d) = dirty_set (sv_stores s d)" using s' by (simp add: set_store_def)
  show "if marks_dirty ?io then kv_bucket_key_set_del (dirty_set (sv_stores s ?d)) ?k (length ?k) = Inr (dirty_set (sv_stores s' ?d))
      else dirty_set (sv_stores s' ?d) = dirty_set (sv_stores s ?d)"
    using 1 commit_dirty[OF 2] s' by (auto simp: kv_data_store_clean_def rbind_eq_Inr_iff set_store_def split: if_splits)
qed

section \<open>Requests in their phases\<close>

datatype io_phase = Io_free | Io_accepted | Io_started | Io_buffered | Io_answered

text \<open>
  A server with the phases of its I/O contexts. Contexts of the pool are free, a data store
  may change between the steps except for its dirty set, the answer of the chain replaces
  the message of a request but for its key, and the requests of a batch are answered while
  they wait.
\<close>

inductive server_step :: "kv_server \<times> (nat \<Rightarrow> io_phase) \<Rightarrow> kv_server \<times> (nat \<Rightarrow> io_phase) \<Rightarrow> bool" where
  sv_accept: "sv_io_pool s = i # rest \<Longrightarrow> ph i = Io_free \<Longrightarrow> handler th rq m addr fwd nxt dsid vt s = Inr (s', evs) \<Longrightarrow>
    server_step (s, ph) (s', ph(i := Io_accepted))"
| sv_start: "ph i = Io_accepted \<Longrightarrow> io_start ret i s = Inr (s', evs) \<Longrightarrow>
    server_step (s, ph) (s', ph(i := if msg_type (io_msg (sv_ios s i)) = KV_MSG_BUFFERED_SET then Io_buffered else Io_started))"
| sv_fini: "ph i \<in> {Io_started, Io_buffered} \<Longrightarrow> io_fini success i s = Inr (s', evs) \<Longrightarrow> server_step (s, ph) (s', ph)"
| sv_answer: "ph i \<in> {Io_started, Io_buffered} \<Longrightarrow> KV_MSG_KEY m = KV_MSG_KEY (io_msg (sv_ios s i)) \<Longrightarrow>
    server_step (s, ph) (set_io i ((sv_ios s i)\<lparr>io_msg := m\<rparr>) s, ph)"
| sv_done: "ph i = Io_started \<Longrightarrow> server_forward_cb vbuf buf i s = Inr (s', evs) \<Longrightarrow> server_step (s, ph) (s', ph(i := Io_answered))"
| sv_batch_done: "ph i = Io_buffered \<Longrightarrow> server_forward_cb vbuf buf i s = Inr (s', evs) \<Longrightarrow> server_step (s, ph) (s', ph)"
| sv_respond: "ph i = Io_answered \<Longrightarrow> send_response i s = (s', evs) \<Longrightarrow> server_step (s, ph) (s', ph(i := Io_free))"
| sv_batch_respond: "\<forall>j \<in> set (io_io (sv_ios s i)). ph j = Io_buffered \<Longrightarrow> buffered_send_response i s = (s', evs) \<Longrightarrow>
    server_step (s, ph) (s', \<lambda>j. if j \<in> set (io_io (sv_ios s i)) then Io_free else ph j)"
| sv_flush: "buffer_poller_impl expired w s = Inr (s', evs) \<Longrightarrow> server_step (s, ph) (s', ph)"
| sv_store: "dirty_set ds = dirty_set (sv_stores s d) \<Longrightarrow> server_step (s, ph) (set_store d ds s, ph)"
| sv_copy_msg: "on_copy_msg vbuf buf r cinfo b s = Inr (s', evs) \<Longrightarrow> server_step (s, ph) (s', ph)"
| sv_copy_item: "copy_get_buf d t rnd k r vl s = Inr (s', i) \<Longrightarrow> ph i = Io_free \<Longrightarrow> server_step (s, ph) (s', ph)"
| sv_copy_done: "ph i = Io_free \<Longrightarrow> in_copy_pool (sv_ios s i) \<Longrightarrow> server_forward_cb vbuf buf i s = Inr (s', evs) \<Longrightarrow> server_step (s, ph) (s', ph)"

text \<open>The writes under way at a replica before the tail.\<close>

definition writers :: "kv_server \<Rightarrow> (nat \<Rightarrow> io_phase) \<Rightarrow> nat \<Rightarrow> u8 list \<Rightarrow> nat set" where
  "writers s ph d a = {i. ph i = Io_started \<and> io_mark (sv_ios s i) = Some (d, a)}"

definition phases_ok :: "kv_server \<Rightarrow> (nat \<Rightarrow> io_phase) \<Rightarrow> bool" where
  "phases_ok s ph \<longleftrightarrow> (\<forall>i. ph i \<noteq> Io_free \<longrightarrow> i < 2 ^ 32 - 1) \<and> set (sv_io_pool s) \<subseteq> {..<2 ^ 32 - 1} \<and>
     (\<forall>i. ph i = Io_accepted \<longrightarrow> io_msg_type (sv_ios s i) = msg_type (io_msg (sv_ios s i))) \<and>
     (\<forall>i. ph i = Io_buffered \<longrightarrow> io_mark (sv_ios s i) = None) \<and>
     (\<forall>i. ph i \<in> {Io_accepted, Io_started, Io_buffered} \<longrightarrow> \<not> in_copy_pool (sv_ios s i))"

definition marks_ok :: "kv_server \<Rightarrow> (nat \<Rightarrow> io_phase) \<Rightarrow> bool" where
  "marks_ok s ph \<longleftrightarrow> (\<forall>d. kset_inv (dirty_set (sv_stores s d)) \<and>
     (\<forall>a. kset_count (dirty_set (sv_stores s d)) a = card (writers s ph d a)))"

lemma writers_finite: "phases_ok s ph \<Longrightarrow> finite (writers s ph d a)"
  by (rule finite_subset[of _ "{..<2 ^ 32 - 1}"]) (auto simp: phases_ok_def writers_def)

lemma writers_few:
  assumes "phases_ok s ph" and "ph i = Io_accepted"
  shows "card (writers s ph d a) < 2 ^ 32 - 1"
proof -
  have "i \<notin> writers s ph d a" "i \<in> {..<2 ^ 32 - 1}" "writers s ph d a \<subseteq> {..<2 ^ 32 - 1}"
    using assms by (auto simp: phases_ok_def writers_def)
  then have "writers s ph d a \<subset> {..<2 ^ 32 - 1}" by blast
  then show ?thesis using psubset_card_mono[of "{..<2 ^ 32 - 1 :: nat}" "writers s ph d a"] by simp
qed

lemma writers_cong:
  "(\<And>i. (ph' i = Io_started \<and> io_mark (sv_ios s' i) = Some (d, a)) = (ph i = Io_started \<and> io_mark (sv_ios s i) = Some (d, a))) \<Longrightarrow>
    writers s' ph' d a = writers s ph d a"
  by (simp add: writers_def)

lemma marks_ok_cong:
  assumes "marks_ok s ph" and "same_dirty s s'"
    and "\<And>i d a. (ph' i = Io_started \<and> io_mark (sv_ios s' i) = Some (d, a)) = (ph i = Io_started \<and> io_mark (sv_ios s i) = Some (d, a))"
  shows "marks_ok s' ph'"
  using assms(1,2) unfolding marks_ok_def same_dirty_def writers_cong[of ph' s' _ _ ph s, OF assms(3)] by simp

lemma same_ios_phases:
  assumes "phases_ok s ph" and "same_ios i s s'" and "ph i \<noteq> Io_free" and "p \<notin> {Io_accepted}" and "p = Io_buffered \<longrightarrow> io_mark (sv_ios s i) = None"
    and "p = Io_answered \<or> ph i \<noteq> Io_answered"
  shows "phases_ok s' (ph(i := p))"
proof -
  have n: "ph j \<noteq> Io_free \<longrightarrow> j < 2 ^ 32 - 1" for j using assms(1) by (simp add: phases_ok_def)
  have c: "ph i \<in> {Io_accepted, Io_started, Io_buffered} \<longrightarrow> \<not> in_copy_pool (sv_ios s i)" using assms(1) by (simp add: phases_ok_def)
  show ?thesis unfolding phases_ok_def
    using assms n[of i] c by (cases "ph i"; cases p) (auto simp: phases_ok_def same_ios_def)
qed

lemma same_ios_marks:
  assumes "marks_ok s ph" and "same_ios i s s'" and "same_dirty s s'"
    and "io_mark (sv_ios s i) = None \<or> (p = Io_started \<longleftrightarrow> ph i = Io_started)"
  shows "marks_ok s' (ph(i := p))"
  using assms(2,4) by (intro marks_ok_cong[OF assms(1,3)]) (auto simp: same_ios_def)

text \<open>A step on a request that keeps its mark and its phase, up to the end of a phase without mark.\<close>

lemma frame_step:
  assumes "phases_ok s ph \<and> marks_ok s ph" and "same_ios i s s' \<and> same_dirty s s'" and "ph i \<in> {Io_started, Io_buffered}"
  shows "phases_ok s' ph \<and> marks_ok s' ph"
proof -
  have "ph i = Io_buffered \<longrightarrow> io_mark (sv_ios s i) = None" using assms(1) by (simp add: phases_ok_def)
  then show ?thesis
    using same_ios_phases[of s ph i s' "ph i"] same_ios_marks[of s ph i s' "ph i"] assms by auto
qed

subsection \<open>Start and end of a write\<close>

lemma marks_add:
  assumes "marks_ok s ph" and "phases_ok s ph" and "ph i = Io_accepted" and "same_ios i s s'" and "io_mark (sv_ios s i) = Some (d, pad_key k)"
    and "kv_bucket_key_set_add (dirty_set (sv_stores s d)) k (length k) = Inr (dirty_set (sv_stores s' d))"
    and "\<And>d'. d' \<noteq> d \<Longrightarrow> dirty_set (sv_stores s' d') = dirty_set (sv_stores s d')"
  shows "marks_ok s' (ph(i := Io_started))"
proof -
  have w: "writers s' (ph(i := Io_started)) d' a = (if (d', a) = (d, pad_key k) then insert i (writers s ph d' a) else writers s ph d' a)" for d' a
    using assms(3-5) by (auto simp: writers_def same_ios_def)
  have ni: "i \<notin> writers s ph d' a" for d' a using assms(3) by (simp add: writers_def)
  have few: "kset_count (dirty_set (sv_stores s d)) (pad_key k) < 2 ^ 32 - 1"
    using writers_few[OF assms(2,3)] assms(1) by (simp add: marks_ok_def)
  have add: "kset_inv (dirty_set (sv_stores s' d)) \<and>
      kset_count (dirty_set (sv_stores s' d)) a = kset_count (dirty_set (sv_stores s d)) a + (if pad_key k = a then 1 else 0)" for a
    using kset_add_count[OF assms(6) _ few] assms(1) by (simp add: marks_ok_def)
  have fin: "finite (writers s ph d' a)" for d' a using writers_finite[OF assms(2)] .
  show ?thesis unfolding marks_ok_def
  proof (intro allI conjI)
    fix d' a
    show "kset_inv (dirty_set (sv_stores s' d'))" using add assms(1,7) by (cases "d' = d") (auto simp: marks_ok_def)
    show "kset_count (dirty_set (sv_stores s' d')) a = card (writers s' (ph(i := Io_started)) d' a)"
      using add[of a] assms(1,7) w[of d' a] ni fin by (cases "d' = d") (auto simp: marks_ok_def)
  qed
qed

lemma marks_del:
  assumes "marks_ok s ph" and "phases_ok s ph" and "ph i = Io_started" and "same_ios i s s'" and "io_mark (sv_ios s i) = Some (d, pad_key k)"
    and "kv_bucket_key_set_del (dirty_set (sv_stores s d)) k (length k) = Inr (dirty_set (sv_stores s' d))"
    and "\<And>d'. d' \<noteq> d \<Longrightarrow> dirty_set (sv_stores s' d') = dirty_set (sv_stores s d')"
  shows "marks_ok s' (ph(i := Io_answered))"
proof -
  have w: "writers s ph d' a = (if (d', a) = (d, pad_key k) then insert i (writers s' (ph(i := Io_answered)) d' a) else writers s' (ph(i := Io_answered)) d' a)" for d' a
    using assms(3-5) by (auto simp: writers_def same_ios_def)
  have ni: "i \<notin> writers s' (ph(i := Io_answered)) d' a" for d' a by (simp add: writers_def)
  have del: "kset_inv (dirty_set (sv_stores s' d)) \<and>
      kset_count (dirty_set (sv_stores s d)) a = kset_count (dirty_set (sv_stores s' d)) a + (if pad_key k = a then 1 else 0)" for a
    using kset_del_count[OF assms(6), of a] assms(1) by (simp add: marks_ok_def)
  have fin: "finite (writers s' (ph(i := Io_answered)) d' a)" for d' a
    using writers_finite[OF assms(2), of d' a] w[of d' a] by (auto split: if_splits)
  show ?thesis unfolding marks_ok_def
  proof (intro allI conjI)
    fix d' a
    show "kset_inv (dirty_set (sv_stores s' d'))" using del assms(1,7) by (cases "d' = d") (auto simp: marks_ok_def)
    show "kset_count (dirty_set (sv_stores s' d')) a = card (writers s' (ph(i := Io_answered)) d' a)"
      using del[of a] assms(1,7) w[of d' a] ni fin by (cases "d' = d") (auto simp: marks_ok_def split: if_splits)
  qed
qed

lemma io_start_inv:
  assumes inv: "phases_ok s ph \<and> marks_ok s ph" and "ph i = Io_accepted" and "io_start ret i s = Inr (s', evs)"
  defines "p \<equiv> (if msg_type (io_msg (sv_ios s i)) = KV_MSG_BUFFERED_SET then Io_buffered else Io_started)"
  shows "phases_ok s' (ph(i := p)) \<and> marks_ok s' (ph(i := p))"
proof -
  let ?io = "(sv_ios s i)\<lparr>need_forward := False\<rparr>" let ?s = "set_io i ?io s" and ?t = "msg_type (io_msg (sv_ios s i))"
  have ty: "io_msg_type (sv_ios s i) = ?t" using inv assms(2) by (simp add: phases_ok_def)
  have io: "?io = sv_ios ?s i" by (simp add: set_io_def)
  have f0: "same_ios i s ?s" "same_dirty s ?s" by (auto simp: set_io_def same_dirty_def intro!: same_iosI)
  have nomark: "io_mark (sv_ios s i) = None" if "?t \<noteq> KV_MSG_SET" "?t \<noteq> KV_MSG_DEL" using that ty by (simp add: io_mark_def marks_dirty_def)
  have by_frame: ?thesis if "same_ios i ?s s' \<and> same_dirty ?s s'" "io_mark (sv_ios s i) = None"
    using same_ios_phases[of s ph i s' p] same_ios_marks[of s ph i s' p] same_trans f0 that inv assms(2) by (auto simp: p_def)
  consider (w) "?t = KV_MSG_DEL \<or> ?t = KV_MSG_SET" "start_write i ?io ?s = Inr (s', evs)"
    | (b) "?t = KV_MSG_BUFFERED_SET" "start_buffered_set i ?io ?s = Inr (s', evs)"
    | (m) "?t = KV_MSG_META_GET" "start_meta_get ret i ?io ?s = Inr (s', evs)"
    | (g) "?t = KV_MSG_GET" "start_get ret i ?io ?s = Inr (s', evs)"
    | (t) "?t = KV_MSG_TEST" "io_fini True i ?s = Inr (s', evs)"
    using assms(3) by (auto simp: io_start_def Let_def split: if_splits)
  then show ?thesis
  proof cases
    case w
    note sw = start_write_frame[OF w(2) io]
    have p: "p = Io_started" using w(1) by (auto simp: p_def msg_types)
    have si: "same_ios i s s'" using same_trans(1)[OF f0(1) sw(1)] .
    have ph: "phases_ok s' (ph(i := p))" using same_ios_phases[OF _ si, of ph p] inv assms(2) by (simp add: p)
    have st: "sv_stores ?s = sv_stores s" by (simp add: set_io_def)
    show ?thesis
    proof (cases "io_vnode_type (sv_ios s i) = KV_RING_VNODE")
      case True
      then have mark: "io_mark (sv_ios s i) = Some (io_store (sv_ios s i), pad_key (KV_MSG_KEY (io_msg (sv_ios s i))))"
        using w(1) ty by (auto simp: io_mark_def marks_dirty_def)
      have sio: "io_store ?io = io_store (sv_ios s i)" by (simp add: io_store_def)
      have "marks_ok s' (ph(i := Io_started))"
        using marks_add[of s ph i s', OF _ _ assms(2) si mark] sw(2,3) inv True by (simp add: st sio)
      then show ?thesis using ph p by simp
    next
      case False
      then have "io_mark (sv_ios s i) = None" by (simp add: io_mark_def marks_dirty_def)
      moreover have "same_dirty s s'" unfolding same_dirty_def
      proof
        fix d show "dirty_set (sv_stores s' d) = dirty_set (sv_stores s d)"
          using sw(2)[of d] sw(3) False st by (cases "d = io_store ?io") auto
      qed
      ultimately show ?thesis using same_ios_marks[OF _ si, of ph p] inv ph by simp
    qed
  next
    case b
    have "io_mark (sv_ios s i) = None" using b(1) by (intro nomark) (simp_all add: msg_types)
    then show ?thesis using by_frame start_buffered_frame[OF b(2)] by blast
  next
    case m
    have n: "io_mark (sv_ios s i) = None" using m(1) by (intro nomark) (simp_all add: msg_types)
    then have "\<not> marks_dirty ?io" by (auto simp: io_mark_def marks_dirty_def split: if_splits)
    then show ?thesis using by_frame start_read_frame(2)[OF io _ m(2)] n by blast
  next
    case g
    have n: "io_mark (sv_ios s i) = None" using g(1) by (intro nomark) (simp_all add: msg_types)
    then have "\<not> marks_dirty ?io" by (auto simp: io_mark_def marks_dirty_def split: if_splits)
    then show ?thesis using by_frame start_read_frame(1)[OF io _ g(2)] n by blast
  next
    case t
    have "io_mark (sv_ios s i) = None" using t(1) by (intro nomark) (simp_all add: msg_types)
    then show ?thesis using by_frame io_fini_frame[OF t(2)] by blast
  qed
qed

lemma io_done_inv:
  assumes inv: "phases_ok s ph \<and> marks_ok s ph" and "ph i = Io_started" and "server_forward_cb vbuf buf i s = Inr (s', evs)"
  shows "phases_ok s' (ph(i := Io_answered)) \<and> marks_ok s' (ph(i := Io_answered))"
proof -
  have "\<not> in_copy_pool (sv_ios s i)" using inv assms(2) by (simp add: phases_ok_def)
  note f = forward_cb_frame[OF assms(3) this]
  have ph: "phases_ok s' (ph(i := Io_answered))" using same_ios_phases[OF _ f(1), of ph Io_answered] inv assms(2) by simp
  show ?thesis
  proof (cases "marks_dirty (sv_ios s i)")
    case True
    then have "io_mark (sv_ios s i) = Some (io_store (sv_ios s i), pad_key (KV_MSG_KEY (io_msg (sv_ios s i))))" by (simp add: io_mark_def)
    from marks_del[of s ph i s', OF _ _ assms(2) f(1) this] show ?thesis using f(2,3) True inv ph by simp
  next
    case False
    then have "io_mark (sv_ios s i) = None" by (simp add: io_mark_def)
    moreover have "same_dirty s s'" unfolding same_dirty_def
    proof
      fix d show "dirty_set (sv_stores s' d) = dirty_set (sv_stores s d)"
        using f(2)[of d] f(3) False by (cases "d = io_store (sv_ios s i)") auto
    qed
    ultimately show ?thesis using same_ios_marks[OF _ f(1), of ph Io_answered] inv ph by simp
  qed
qed

lemma batch_done_frame:
  assumes "phases_ok s ph" and "ph i = Io_buffered" and "server_forward_cb vbuf buf i s = Inr (s', evs)"
  shows "same_ios i s s' \<and> same_dirty s s'"
proof -
  have c: "\<not> in_copy_pool (sv_ios s i)" and n: "io_mark (sv_ios s i) = None" using assms(1,2) by (simp_all add: phases_ok_def)
  then have m: "\<not> marks_dirty (sv_ios s i)" by (auto simp: io_mark_def split: if_splits)
  note f = forward_cb_frame[OF assms(3) c]
  have "dirty_set (sv_stores s' d) = dirty_set (sv_stores s d)" for d
    using f(2)[of d] f(3) m by (cases "d = io_store (sv_ios s i)") auto
  then show ?thesis using f(1) by (simp add: same_dirty_def)
qed

subsection \<open>The other steps\<close>

lemma io_accept_inv:
  assumes inv: "phases_ok s ph \<and> marks_ok s ph" and "sv_io_pool s = i # rest" and "ph i = Io_free"
    and "handler th rq m addr fwd nxt dsid vt s = Inr (s', evs)"
  shows "phases_ok s' (ph(i := Io_accepted)) \<and> marks_ok s' (ph(i := Io_accepted))"
proof -
  obtain io where s': "s' = (set_io i io s)\<lparr>sv_io_pool := rest\<rparr>" "io_msg_type io = msg_type (io_msg io)" "\<not> in_copy_pool io"
    using assms(2,4) by (auto simp: handler_def Let_def)
  have "marks_ok s' (ph(i := Io_accepted))"
    using assms(3) s'(1) by (intro marks_ok_cong[OF conjunct2[OF inv]]) (auto simp: same_dirty_def set_io_def)
  then show ?thesis using inv assms(2,3) s' by (auto simp: phases_ok_def set_io_def)
qed

lemma respond_inv:
  assumes inv: "phases_ok s ph \<and> marks_ok s ph" and "ph i = Io_answered" and "send_response i s = (s', evs)"
  shows "phases_ok s' (ph(i := Io_free)) \<and> marks_ok s' (ph(i := Io_free))"
proof -
  have s': "sv_stores s' = sv_stores s" "\<And>j. j \<noteq> i \<Longrightarrow> sv_ios s' j = sv_ios s j" "sv_io_pool s' = sv_io_pool s @ [i]"
    using assms(3) by (auto simp: send_response_def Let_def set_io_def)
  have "marks_ok s' (ph(i := Io_free))"
    using assms(2) s' by (intro marks_ok_cong[OF conjunct2[OF inv]]) (auto simp: same_dirty_def)
  moreover have "i < 2 ^ 32 - 1" using inv assms(2) by (simp add: phases_ok_def)
  ultimately show ?thesis using inv s' by (auto simp: phases_ok_def)
qed

lemma respond_all_frame:
  "respond_all js s = (s', evs) \<Longrightarrow> sv_stores s' = sv_stores s \<and> sv_io_pool s' = sv_io_pool s @ js \<and> (\<forall>j. j \<notin> set js \<longrightarrow> sv_ios s' j = sv_ios s j)"
proof (induction js s arbitrary: s' evs rule: respond_all.induct)
  case (2 j js s)
  obtain s1 e1 where 1: "buffered_response j s = (s1, e1)" by (cases "buffered_response j s")
  obtain e2 where 2: "respond_all js s1 = (s', e2)" using 2(2) 1 by (auto split: prod.splits)
  have "sv_stores s1 = sv_stores s" "sv_io_pool s1 = sv_io_pool s @ [j]" "\<And>x. x \<noteq> j \<Longrightarrow> sv_ios s1 x = sv_ios s x"
    using 1 by (auto simp: buffered_response_def Let_def set_io_def)
  then show ?case using "2.IH"[OF 1[symmetric] refl 2] by auto
qed simp

lemma batch_respond_inv:
  assumes inv: "phases_ok s ph \<and> marks_ok s ph" and "\<forall>j \<in> set (io_io (sv_ios s i)). ph j = Io_buffered"
    and "buffered_send_response i s = (s', evs)"
  defines "ph' \<equiv> (\<lambda>j. if j \<in> set (io_io (sv_ios s i)) then Io_free else ph j)"
  shows "phases_ok s' ph' \<and> marks_ok s' ph'"
proof -
  let ?js = "io_io (sv_ios s i)"
  have f: "sv_stores s' = sv_stores s" "sv_io_pool s' = sv_io_pool s @ ?js" "\<forall>j. j \<notin> set ?js \<longrightarrow> sv_ios s' j = sv_ios s j"
    using respond_all_frame[of ?js s] assms(3) by (auto simp: buffered_send_response_def)
  have "marks_ok s' ph'"
    using assms(2) f by (intro marks_ok_cong[OF conjunct2[OF inv]]) (auto simp: same_dirty_def ph'_def)
  moreover have "j < 2 ^ 32 - 1" if "j \<in> set ?js" for j using inv assms(2) that by (auto simp: phases_ok_def)
  ultimately show ?thesis using inv f assms(2) by (auto simp: phases_ok_def ph'_def)
qed

text \<open>Steps that leave every request as it is, but for its batch.\<close>

definition same_all :: "kv_server \<Rightarrow> kv_server \<Rightarrow> bool" where
  "same_all s s' \<longleftrightarrow> sv_io_pool s' = sv_io_pool s \<and> same_dirty s s' \<and>
     (\<forall>j. io_mark (sv_ios s' j) = io_mark (sv_ios s j) \<and> in_copy_pool (sv_ios s' j) = in_copy_pool (sv_ios s j) \<and>
          io_msg_type (sv_ios s' j) = io_msg_type (sv_ios s j) \<and> io_msg (sv_ios s' j) = io_msg (sv_ios s j))"

lemma same_all_inv: "phases_ok s ph \<and> marks_ok s ph \<Longrightarrow> same_all s s' \<Longrightarrow> phases_ok s' ph \<and> marks_ok s' ph"
  by (auto simp: phases_ok_def same_all_def elim!: marks_ok_cong)

lemma flush_loop_frame: "flush_loop expired w sts s = Inr (s', evs) \<Longrightarrow> same_all s s'"
proof (induction expired w sts s arbitrary: s' evs rule: flush_loop.induct)
  case (1 expired w s)
  then show ?case by (simp add: same_all_def same_dirty_def)
next
  case (2 expired w st sts s)
  obtain s1 e1 e2 where 1: "flush_if_expired expired w st s = Inr (s1, e1)" and 2: "flush_loop expired w sts s1 = Inr (s', e2)"
    using "2.prems" by (auto simp: rbind_eq_Inr_iff)
  have "same_all s s1"
    using 1 by (auto simp: flush_if_expired_def flush_set_buffer_def Let_def rbind_eq_Inr_iff same_all_def same_dirty_def
        set_io_def set_store_def dest: store_ops_dirty(4) split: if_splits)
  then show ?case using "2.IH"[OF 2] by (simp add: same_all_def same_dirty_def)
qed

lemma copy_steps_frame:
  "on_copy_msg vbuf buf r cinfo b s = Inr (s', evs) \<Longrightarrow> same_all s s'"
  by (auto simp: on_copy_msg_def Let_def rbind_eq_Inr_iff same_all_def same_dirty_def set_store_def
      dest: copy_del_dirty split: if_splits)

text \<open>Steps on a context of the copy pool.\<close>

lemma free_step_inv:
  assumes "phases_ok s ph \<and> marks_ok s ph" and "ph i = Io_free" and "sv_io_pool s' = sv_io_pool s" and "same_dirty s s'"
    and "\<forall>j. j \<noteq> i \<longrightarrow> sv_ios s' j = sv_ios s j"
  shows "phases_ok s' ph \<and> marks_ok s' ph"
proof -
  have eq: "sv_ios s' j = sv_ios s j" if "ph j \<noteq> Io_free" for j using assms(2,5) that by metis
  then have "marks_ok s' ph" by (intro marks_ok_cong[OF conjunct2[OF assms(1)] assms(4)]) auto
  then show ?thesis using assms(1,3) eq by (auto simp: phases_ok_def)
qed

lemma server_step_inv: "server_step (s, ph) (s', ph') \<Longrightarrow> phases_ok s ph \<and> marks_ok s ph \<Longrightarrow> phases_ok s' ph' \<and> marks_ok s' ph'"
proof (induction "(s, ph)" "(s', ph')" arbitrary: s ph s' ph' rule: server_step.induct)
  case (sv_accept s i rest ph th rq m addr fwd nxt dsid vt s' evs)
  then show ?case by (intro io_accept_inv)
next
  case (sv_start ph i ret s s' evs)
  then show ?case by (intro io_start_inv)
next
  case (sv_fini ph i success s s' evs)
  then show ?case using frame_step io_fini_frame by metis
next
  case (sv_answer ph i m s)
  then show ?case
    by - (rule frame_step[of s ph i], auto simp: set_io_def same_dirty_def io_mark_msg intro!: same_iosI)
next
  case (sv_done ph i vbuf buf s s' evs)
  then show ?case by (intro io_done_inv)
next
  case (sv_batch_done ph i vbuf buf s s' evs)
  then show ?case using frame_step[of s ph i s'] batch_done_frame[of s ph i] by auto
next
  case (sv_respond ph i s s' evs)
  then show ?case by (intro respond_inv)
next
  case (sv_batch_respond s i ph s' evs)
  then show ?case by (intro batch_respond_inv)
next
  case (sv_flush expired w s s' evs ph)
  then have "same_all s s'" using flush_loop_frame by (simp add: buffer_poller_impl_def)
  then show ?case using same_all_inv[OF sv_flush(2)] by blast
next
  case (sv_store ds s d ph)
  then have "same_all s (set_store d ds s)" using set_store_dirty[of ds s d] by (simp add: same_all_def set_store_def)
  then show ?case using same_all_inv[OF sv_store(2)] by blast
next
  case (sv_copy_msg vbuf buf r cinfo b s s' evs ph)
  then show ?case using same_all_inv[OF sv_copy_msg(2) copy_steps_frame[OF sv_copy_msg(1)]] by blast
next
  case (sv_copy_item d t rnd k r vl s s' i ph)
  then show ?case
    by - (rule free_step_inv[of s ph i], auto simp: copy_get_buf_def Let_def set_io_def same_dirty_def split: list.splits)
next
  case (sv_copy_done ph i s vbuf buf s' evs)
  then show ?case
    by - (rule free_step_inv[of s ph i], auto simp: server_forward_cb_def copy_forward_done_def Let_def rbind_eq_Inr_iff set_io_def same_dirty_def split: if_splits)
qed

section \<open>Properties\<close>

definition fresh_stores :: "kv_server \<Rightarrow> bool" where
  "fresh_stores s \<longleftrightarrow> (\<forall>d. dirty_set (sv_stores s d) = kv_bucket_key_set_init)"

lemma server_steps_inv: "server_step\<^sup>*\<^sup>* x y \<Longrightarrow> phases_ok (fst x) (snd x) \<and> marks_ok (fst x) (snd x) \<Longrightarrow> phases_ok (fst y) (snd y) \<and> marks_ok (fst y) (snd y)"
proof (induction rule: rtranclp_induct)
  case (step y z)
  then show ?case using server_step_inv[of "fst y" "snd y" "fst z" "snd z"] by simp
qed

lemma fresh_inv:
  assumes "fresh_stores s0" and "server_ring_init s0 = (s1, True)"
  shows "phases_ok s1 (\<lambda>_. Io_free) \<and> marks_ok s1 (\<lambda>_. Io_free)"
proof -
  have s1: "sv_stores s1 = sv_stores s0" "sv_io_pool s1 = [0..<unat (concurrent_io_num (sv_opt s0))]"
    using assms(2) by (auto simp: server_ring_init_def Let_def split: if_splits)
  have "unat (concurrent_io_num (sv_opt s0)) < 2 ^ 32" using unsigned_less[of "concurrent_io_num (sv_opt s0)", where 'a = nat] by simp
  then have "phases_ok s1 (\<lambda>_. Io_free)" by (auto simp: phases_ok_def s1)
  then show ?thesis using assms(1)
    by (simp add: marks_ok_def s1 fresh_stores_def kset_inv_def kset_count_def kv_bucket_key_set_init_def writers_def)
qed

lemma dirty_iff_writers:
  assumes "marks_ok s ph" and "phases_ok s ph" and "length k \<le> KV_MAX_KEY_LENGTH"
  shows "kv_data_store_is_dirty (sv_stores s d) k = Inr (writers s ph d (pad_key k) \<noteq> {})"
proof -
  have "kv_data_store_is_dirty (sv_stores s d) k = Inr (0 < card (writers s ph d (pad_key k)))"
    using kset_find_iff[OF _ assms(3), of "dirty_set (sv_stores s d)"] assms(1) by (simp add: kv_data_store_is_dirty_def marks_ok_def)
  then show ?thesis using writers_finite[OF assms(2)] by (simp add: card_gt_0_iff)
qed

text \<open>
  C6. Requests \<open>KV_MSG_GET\<close> at a replica before the tail: in every reachable state of a server, a
  get of a key with a \<open>KV_MSG_SET\<close> or \<open>KV_MSG_DEL\<close> under way at this replica is forwarded to the
  tail unchanged, without touching the data stores; a get of any other key is started on the
  data store of this replica. A write is under way from its start until the rest of the chain
  has answered. Requests for the place of a key and buffered sets take no part in this: see
  \<open>meta_get_ignores_writes\<close> and \<open>buffered_set_leaves_no_mark\<close>.
\<close>

theorem dirty_reads_go_to_the_tail:
  assumes "fresh_stores s0" and "server_ring_init s0 = (s1, True)" and "server_step\<^sup>*\<^sup>* (s1, \<lambda>_. Io_free) (s, ph)"
    and "ph i = Io_accepted" and "io = sv_ios s i" and "msg_type (io_msg io) = KV_MSG_GET" and "io_vnode_type io = KV_RING_VNODE"
    and "length (KV_MSG_KEY (io_msg io)) \<le> KV_MAX_KEY_LENGTH"
  shows "if \<exists>j. ph j = Io_started \<and> marks_dirty (sv_ios s j) \<and> io_store (sv_ios s j) = io_store io \<and>
            pad_key (KV_MSG_KEY (io_msg (sv_ios s j))) = pad_key (KV_MSG_KEY (io_msg io))
     then \<exists>s'. io_start ret i s = Inr (s', [Sv_ring_forward (io_fwd_ctx io) (Some (io_msg io)) False i]) \<and> sv_stores s' = sv_stores s
     else \<exists>s' evs c devs. io_start ret i s = Inr (s', evs @ [Sv_ds (io_store io) devs]) \<and>
            kv_data_store_get (sv_stores s (io_store io)) (KV_MSG_KEY (io_msg io)) (value_addr io) None i = (sv_stores s' (io_store io), c, devs)"
proof -
  have inv: "phases_ok s ph" "marks_ok s ph" using server_steps_inv[OF assms(3)] fresh_inv[OF assms(1,2)] by simp_all
  let ?d = "io_store io" and ?k = "KV_MSG_KEY (io_msg io)" and ?io = "io\<lparr>need_forward := False\<rparr>"
  let ?w = "\<exists>j. ph j = Io_started \<and> marks_dirty (sv_ios s j) \<and> io_store (sv_ios s j) = ?d \<and>
      pad_key (KV_MSG_KEY (io_msg (sv_ios s j))) = pad_key ?k"
  have w: "writers s ph ?d (pad_key ?k) \<noteq> {} \<longleftrightarrow> ?w" by (auto simp: writers_def io_mark_def)
  have dirty: "kv_data_store_is_dirty (sv_stores s ?d) ?k = Inr ?w" using dirty_iff_writers[OF inv(2,1) assms(8)] w by simp
  have ty: "io_msg_type io = KV_MSG_GET" "\<not> in_copy_pool io" using inv(1) assms(4-6) by (auto simp: phases_ok_def)
  have st: "sv_stores (set_io i ?io s) = sv_stores s" by (simp add: set_io_def)
  have eqs: "io_store ?io = ?d" "value_addr ?io = value_addr io" by (simp_all add: io_store_def value_addr_def)
  have start: "io_start ret i s = start_get ret i ?io (set_io i ?io s)"
    using assms(5,6) by (simp add: io_start_def Let_def msg_types)
  show ?thesis
  proof (cases ?w)
    case True
    then have "io_start ret i s = io_fini True i (set_io i (io\<lparr>need_forward := True\<rparr>) s)"
      using dirty assms(7) by (simp add: start start_get_def Let_def st eqs set_io_def)
    also have "\<dots> = Inr (set_io i (io\<lparr>need_forward := True\<rparr>) s, [Sv_ring_forward (io_fwd_ctx io) (Some (io_msg io)) False i])"
      using ty by (simp add: io_fini_def Let_def set_io_def fini_forward_def is_chain_write_def msg_types)
    finally show ?thesis using True by (simp add: set_io_def)
  next
    case False
    obtain ds c devs where g: "kv_data_store_get (sv_stores s ?d) ?k (value_addr io) None i = (ds, c, devs)"
      by (cases "kv_data_store_get (sv_stores s ?d) ?k (value_addr io) None i") auto
    then show ?thesis using False dirty
      by (simp add: start start_get_def Let_def st eqs split: prod.splits) (auto simp: set_io_def set_store_def)
  qed
qed

text \<open>
  A request for the place of a key is answered from the meta table of this replica whether
  the key is dirty or not: the ring is told to answer, not to pass it on.
\<close>

lemma meta_get_ignores_writes:
  assumes "msg_type (io_msg (sv_ios s i)) = KV_MSG_META_GET" and "io_msg_type (sv_ios s i) = KV_MSG_META_GET"
    and "\<not> in_copy_pool (sv_ios s i)"
  shows "\<exists>s' evs. io_start ret i s = Inr (s', evs @ [Sv_ring_forward (io_fwd_ctx (sv_ios s i)) None False i])"
  using assms
  by (simp add: io_start_def start_meta_get_def Let_def msg_types io_fini_def set_io_def fini_forward_def is_chain_write_def put_value_def
      split: prod.splits)

text \<open>A buffered set leaves no mark: \<open>KV_MSG_GET\<close> requests of its key are served locally while it is under way.\<close>

lemma buffered_set_leaves_no_mark: "io_msg_type io = KV_MSG_BUFFERED_SET \<Longrightarrow> io_mark io = None"
  by (simp add: io_mark_def marks_dirty_def msg_types)

text \<open>A server that has started a write and accepted a read of the same key.\<close>

definition sample_msg :: "u8 \<Rightarrow> kv_msg" where
  "sample_msg t = \<lparr>msg_type = t, key_len = 2, hop = 1, value_len = 0, put_key_ok = 0, slot_id = 0, msg_ds_id = 0,
     msg_q_info = \<lparr>q_size = 0, q_cap = 0\<rparr>, data = [1, 2, 0, 0]\<rparr>"

lemma sample_msg_type [simp]: "msg_type (sample_msg t) = t"
  by (simp add: sample_msg_def)

definition sample_io :: io_ctx where
  "sample_io = \<lparr>io_req_h = 0, io_msg = sample_msg 0, io_addr = 0, io_worker_id = 0, io_storage_id = 0, io_server_thread = 0,
     io_fwd_ctx = None, has_next_node = False, need_forward = False, in_copy_pool = False, io_vnode_type = KV_RING_VNODE, io_ds_ctx = 0,
     io_msg_type = 0, io_copy_store = 0, io_copy_range = 0, io_copy_val_len = 0, io_io = []\<rparr>"

definition sample_server :: kv_server where
  "sample_server = \<lparr>sv_opt = \<lparr>ssd_num = 1, worker_num = 4, so_thread_num = 1, concurrent_io_num = 2, copy_concurrency = 1, set_batch = 4,
     vid_per_ssd = 1, so_ring_num = 1, ours = False\<rparr>, sv_stores = (\<lambda>_. example_ds), sv_copies = (\<lambda>_. kv_data_store_copy_init 1),
     sv_set_buffers = (\<lambda>_. []), sv_ios = (\<lambda>_. sample_io), sv_io_pool = [], sv_copy_pool = [], sv_io_cnt = 1\<rparr>"

definition sample_fwd :: forward_ctx where
  "sample_fwd = \<lparr>fw_node = Some ''b'', fw_ring = 0, fw_version = 0\<rparr>"

definition sample_s1 :: kv_server where "sample_s1 = sample_server\<lparr>sv_io_cnt := 0, sv_io_pool := [0, 1]\<rparr>"

definition accepted_io :: "u8 \<Rightarrow> io_ctx" where
  "accepted_io t = sample_io\<lparr>io_msg := sample_msg t, io_fwd_ctx := Some sample_fwd, has_next_node := True, io_msg_type := t\<rparr>"

definition sample_s2 :: kv_server where
  "sample_s2 = sample_s1\<lparr>sv_ios := (sv_ios sample_s1)(0 := accepted_io KV_MSG_SET), sv_io_pool := [1]\<rparr>"

definition sample_s3 :: kv_server where "sample_s3 = fst (projr (io_start 0 0 sample_s2))"

definition sample_s4 :: kv_server where
  "sample_s4 = sample_s3\<lparr>sv_ios := (sv_ios sample_s3)(1 := accepted_io KV_MSG_GET), sv_io_pool := []\<rparr>"

lemma sample_init: "server_ring_init sample_server = (sample_s1, True)"
proof -
  have "[0..<2] = [0, 1 :: nat]" by (simp add: upt_rec)
  then show ?thesis by (simp add: server_ring_init_def sample_server_def sample_s1_def Let_def)
qed

lemma sample_accept1: "handler 0 0 (sample_msg KV_MSG_SET) 0 sample_fwd True 0 KV_RING_VNODE sample_s1 = Inr (sample_s2, [Sv_send 0 (Io_start 0)])"
  by (simp add: handler_def sample_s1_def sample_s2_def sample_server_def sample_io_def accepted_io_def set_io_def MAX_SSD_WORKERS_def Let_def)

lemma sample_start: "\<exists>evs. io_start 0 0 sample_s2 = Inr (sample_s3, evs)"
proof -
  have "\<exists>x. io_start 0 0 sample_s2 = Inr x"
    by (simp add: io_start_def start_write_def sample_s2_def sample_s1_def sample_server_def accepted_io_def sample_io_def sample_msg_def
      set_io_def msg_types io_store_def store_index_def example_ds_def kv_data_store_dirty_def KV_MSG_KEY_def kv_bucket_key_set_add_def
      key_to_array_def KV_MAX_KEY_LENGTH_def kv_bucket_key_set_init_def Let_def split_def)
  then show ?thesis by (auto simp: sample_s3_def)
qed

lemma set_io_same: "set_io i (sv_ios s i) s = s"
  by (cases s) (simp add: set_io_def)

lemma sample_s3_ios: "sv_io_pool sample_s3 = [1]" "sv_ios sample_s3 (Suc 0) = sample_io"
  "\<exists>c. sv_ios sample_s3 0 = (accepted_io KV_MSG_SET)\<lparr>io_ds_ctx := c\<rparr>"
proof -
  obtain evs where st: "io_start 0 0 sample_s2 = Inr (sample_s3, evs)" using sample_start by blast
  have io: "sv_ios sample_s2 0 = accepted_io KV_MSG_SET" "need_forward (accepted_io KV_MSG_SET) = False"
    "msg_type (io_msg (accepted_io KV_MSG_SET)) = KV_MSG_SET"
    by (simp_all add: sample_s2_def accepted_io_def sample_io_def sample_msg_def)
  have nf: "(accepted_io KV_MSG_SET)\<lparr>need_forward := False\<rparr> = accepted_io KV_MSG_SET" by (simp add: accepted_io_def sample_io_def)
  have "start_write 0 (accepted_io KV_MSG_SET) sample_s2 = Inr (sample_s3, evs)"
    using st unfolding io_start_def Let_def io(1) nf io(3) set_io_same[of 0 sample_s2, unfolded io(1)] by simp
  then obtain ds c where "set_io 0 ((accepted_io KV_MSG_SET)\<lparr>io_ds_ctx := c\<rparr>) (set_store 0 ds sample_s2) = sample_s3"
    using io(3) by (auto simp: start_write_def Let_def rbind_eq_Inr_iff accepted_io_def sample_io_def io_store_def store_index_def split_def split: if_splits)
  note s3 = this[symmetric]
  show "sv_io_pool sample_s3 = [1]" "sv_ios sample_s3 (Suc 0) = sample_io" "\<exists>c. sv_ios sample_s3 0 = (accepted_io KV_MSG_SET)\<lparr>io_ds_ctx := c\<rparr>"
    unfolding s3 by (auto simp: set_io_def set_store_def sample_s2_def sample_s1_def sample_server_def)
qed

lemma sample_accept2: "handler 0 0 (sample_msg KV_MSG_GET) 0 sample_fwd True 0 KV_RING_VNODE sample_s3 = Inr (sample_s4, [Sv_send 0 (Io_start 1)])"
  by (simp add: handler_def sample_s3_ios sample_s4_def sample_io_def accepted_io_def set_io_def MAX_SSD_WORKERS_def Let_def)

lemma sample_run: "server_step\<^sup>*\<^sup>* (sample_s1, \<lambda>_. Io_free) (sample_s4, (\<lambda>_. Io_free)(0 := Io_started, 1 := Io_accepted))"
proof -
  obtain evs where st: "io_start 0 0 sample_s2 = Inr (sample_s3, evs)" using sample_start by blast
  have 1: "server_step (sample_s1, \<lambda>_. Io_free) (sample_s2, (\<lambda>_. Io_free)(0 := Io_accepted))"
    by (rule sv_accept[OF _ _ sample_accept1]) (simp_all add: sample_s1_def)
  have 2: "server_step (sample_s2, (\<lambda>_. Io_free)(0 := Io_accepted)) (sample_s3, (\<lambda>_. Io_free)(0 := Io_started))"
    using sv_start[OF _ st, of "(\<lambda>_. Io_free)(0 := Io_accepted)"]
    by (simp add: sample_s2_def accepted_io_def sample_io_def sample_msg_def msg_types)
  have 3: "server_step (sample_s3, (\<lambda>_. Io_free)(0 := Io_started)) (sample_s4, (\<lambda>_. Io_free)(0 := Io_started, 1 := Io_accepted))"
    by (rule sv_accept[OF _ _ sample_accept2]) (simp_all add: sample_s3_ios)
  show ?thesis using 1 2 3 by (meson converse_rtranclp_into_rtranclp rtranclp.rtrancl_refl)
qed

theorem dirty_reads_go_to_the_tail_witness:
  "\<exists>s'. io_start 0 1 sample_s4 = Inr (s', [Sv_ring_forward (Some sample_fwd) (Some (sample_msg KV_MSG_GET)) False 1]) \<and> sv_stores s' = sv_stores sample_s4"
proof -
  obtain c where io: "sv_ios sample_s4 (Suc 0) = accepted_io KV_MSG_GET" "sv_ios sample_s4 0 = (accepted_io KV_MSG_SET)\<lparr>io_ds_ctx := c\<rparr>"
    using sample_s3_ios(3) by (auto simp: sample_s4_def)
  have fresh: "fresh_stores sample_server" by (simp add: fresh_stores_def sample_server_def example_ds_def)
  have same: "io_store (sv_ios sample_s4 0) = io_store (sv_ios sample_s4 1)" "marks_dirty (sv_ios sample_s4 0)"
    "KV_MSG_KEY (io_msg (sv_ios sample_s4 0)) = KV_MSG_KEY (io_msg (sv_ios sample_s4 1))"
    "length (KV_MSG_KEY (io_msg (sv_ios sample_s4 1))) \<le> KV_MAX_KEY_LENGTH" "msg_type (io_msg (sv_ios sample_s4 1)) = KV_MSG_GET"
    "io_vnode_type (sv_ios sample_s4 1) = KV_RING_VNODE" "io_fwd_ctx (sv_ios sample_s4 1) = Some sample_fwd"
    "io_msg (sv_ios sample_s4 1) = sample_msg KV_MSG_GET"
    by (simp_all add: io accepted_io_def sample_io_def io_store_def marks_dirty_def KV_MSG_KEY_def sample_msg_def KV_MAX_KEY_LENGTH_def)
  have ex: "\<exists>j. ((\<lambda>_. Io_free)(0 := Io_started, 1 := Io_accepted)) j = Io_started \<and> marks_dirty (sv_ios sample_s4 j) \<and>
      io_store (sv_ios sample_s4 j) = io_store (sv_ios sample_s4 1) \<and>
      pad_key (KV_MSG_KEY (io_msg (sv_ios sample_s4 j))) = pad_key (KV_MSG_KEY (io_msg (sv_ios sample_s4 1)))"
    using same by (intro exI[of _ 0]) simp
  show ?thesis
    using dirty_reads_go_to_the_tail[OF fresh sample_init sample_run _ refl, of 1 0] ex same by simp
qed

text \<open>
  C29. A failed operation is not forwarded and not committed: the ring is told to answer
  without passing the request on, and the answer leaves the bucket log of every data store,
  and with it the meta table, as it was; a request outside a batch is answered with an error.
\<close>

theorem failed_write_not_committed:
  assumes "\<not> in_copy_pool (sv_ios s i)" and "io_fini False i s = Inr (s1, evs)" and "server_forward_cb vbuf buf i s1 = Inr (s2, evs')"
  shows "evs = [Sv_ring_forward (io_fwd_ctx (sv_ios s i)) None False i] \<and>
    (\<forall>d. ds_bucket_log (sv_stores s2 d) = ds_bucket_log (sv_stores s d)) \<and>
    msg_type (io_msg (sv_ios s2 i)) = KV_MSG_ERR \<and>
    (io_msg_type (sv_ios s i) \<noteq> KV_MSG_BUFFERED_SET \<longrightarrow> Sv_send (io_server_thread (sv_ios s i)) (Send_response i) \<in> set evs')"
proof -
  let ?io = "(sv_ios s i)\<lparr>io_msg := (io_msg (sv_ios s i))\<lparr>msg_type := KV_MSG_ERR\<rparr>\<rparr>"
  have 1: "s1 = set_io i ?io s" "evs = [Sv_ring_forward (io_fwd_ctx (sv_ios s i)) None False i]"
    using assms(1,2) by (auto simp: io_fini_def Let_def)
  have io: "sv_ios s1 i = ?io" "sv_stores s1 = sv_stores s" by (simp_all add: 1 set_io_def)
  have commit: "forward_commit ?io ds = Inr (ds', devs) \<Longrightarrow> ds_bucket_log ds' = ds_bucket_log ds" for ds ds' devs
    by (auto simp: forward_commit_def kv_data_store_set_commit_def kv_data_store_set_buffered_commit_def
        kv_data_store_del_commit_def Let_def msg_types split: if_splits option.splits)
  have clean: "kv_data_store_clean ds k = Inr ds' \<Longrightarrow> ds_bucket_log ds' = ds_bucket_log ds" for ds ds' :: "nat kv_data_store" and k
    by (auto simp: kv_data_store_clean_def rbind_eq_Inr_iff)
  show ?thesis using assms(1,3) 1(2)
    by (auto simp: server_forward_cb_def Let_def rbind_eq_Inr_iff io set_store_def dest!: commit clean split: if_splits)
qed

definition sample_failed :: kv_server where "sample_failed = fst (projr (io_fini False 0 sample_s3))"

lemma sample_fail: "io_fini False 0 sample_s3 = Inr (sample_failed, [Sv_ring_forward (Some sample_fwd) None False 0])"
  using sample_s3_ios(3) by (auto simp: sample_failed_def io_fini_def Let_def accepted_io_def sample_io_def)

lemma sample_failed_answer: "\<exists>s2 evs. server_forward_cb 0 0 0 sample_failed = Inr (s2, evs)"
proof -
  obtain evs where st: "io_start 0 0 sample_s2 = Inr (sample_s3, evs)" using sample_start by blast
  have e: "enqueue ds op fn c = (fst (enqueue ds op fn c), fst (snd (enqueue ds op fn c)), snd (snd (enqueue ds op fn c)))" for ds :: "nat kv_data_store" and op fn c
    by simp
  have d: "dirty_set (fst (enqueue ds op fn c)) = dirty_set ds" for ds :: "nat kv_data_store" and op fn c
    using enqueue_dirty[OF e] .
  show ?thesis
    by (simp add: sample_failed_def sample_s3_def io_fini_def io_start_def start_write_def sample_s2_def sample_s1_def sample_server_def
      accepted_io_def sample_io_def sample_msg_def set_io_def set_store_def msg_types io_store_def store_index_def example_ds_def
      kv_data_store_dirty_def KV_MSG_KEY_def kv_bucket_key_set_add_def key_to_array_def KV_MAX_KEY_LENGTH_def kv_bucket_key_set_init_def
      Let_def split_def kv_data_store_set_def d server_forward_cb_def marks_dirty_def kv_data_store_clean_def kv_bucket_key_set_del_def
      forward_commit_def kv_data_store_set_commit_def)
qed

theorem failed_write_not_committed_witness:
  "\<exists>s2 evs'. server_forward_cb 0 0 0 sample_failed = Inr (s2, evs') \<and> msg_type (io_msg (sv_ios s2 0)) = KV_MSG_ERR \<and>
     (\<forall>d. ds_bucket_log (sv_stores s2 d) = ds_bucket_log (sv_stores sample_s3 d))"
proof -
  obtain s2 evs' where a: "server_forward_cb 0 0 0 sample_failed = Inr (s2, evs')" using sample_failed_answer by blast
  have "\<not> in_copy_pool (sv_ios sample_s3 0)" using sample_s3_ios(3) by (auto simp: accepted_io_def sample_io_def)
  from failed_write_not_committed[OF this sample_fail a] show ?thesis using a by blast
qed

lemma respond_all_ok:
  assumes "j \<in> set js" and "respond_all js t = (t', es)"
  shows "\<exists>m n. Sv_make_resp (io_req_h (sv_ios t j)) m n \<in> set es \<and> msg_type m = KV_MSG_OK"
  using assms
proof (induction js t arbitrary: t' es rule: respond_all.induct)
  case (2 a js t)
  obtain t1 e1 where 1: "buffered_response a t = (t1, e1)" by (cases "buffered_response a t")
  obtain e2 where e: "respond_all js t1 = (t', e2)" "es = e1 @ e2" using 2(3) 1 by (auto split: prod.splits)
  have keep: "io_req_h (sv_ios t1 x) = io_req_h (sv_ios t x)" for x using 1 by (auto simp: buffered_response_def Let_def set_io_def)
  have head: "\<exists>m n. Sv_make_resp (io_req_h (sv_ios t a)) m n \<in> set e1 \<and> msg_type m = KV_MSG_OK"
    using 1 by (auto simp: buffered_response_def Let_def)
  show ?case
  proof (cases "j = a")
    case True
    then show ?thesis using head e(2) by auto
  next
    case False
    then have "j \<in> set js" using 2(2) by simp
    from "2.IH"[OF 1[symmetric] refl this e(1)] show ?thesis using e(2) keep by auto
  qed
qed simp

text \<open>
  C34. The requests of a failed batch of buffered sets are acknowledged. When the data store
  reports the failure of a batch, the request that flushed it is marked as failed and the ring
  calls back; the callback commits nothing, so that no chain and no value of the batch becomes
  visible, and sends the answers of the batch on their way; and these answer every request of
  the batch with \<open>KV_MSG_OK\<close>.
\<close>

theorem failed_batch_is_acknowledged:
  assumes "io_msg_type (sv_ios s i) = KV_MSG_BUFFERED_SET" and "\<not> in_copy_pool (sv_ios s i)"
    and "ds_buffered (sv_stores s (io_store (sv_ios s i))) (io_ds_ctx (sv_ios s i)) = Some ctx" and "j \<in> set (io_io (sv_ios s i))"
  shows "\<exists>s1 s2 s3 evs evs'. io_fini False i s = Inr (s1, [Sv_ring_forward (io_fwd_ctx (sv_ios s i)) None False i]) \<and>
    msg_type (io_msg (sv_ios s1 i)) = KV_MSG_ERR \<and> server_forward_cb vbuf buf i s1 = Inr (s2, evs) \<and>
    (\<forall>d. ds_bucket_log (sv_stores s2 d) = ds_bucket_log (sv_stores s d)) \<and>
    Sv_send (io_server_thread (sv_ios s i)) (Buffered_send_response i) \<in> set evs \<and>
    buffered_send_response i s2 = (s3, evs') \<and>
    (\<exists>m n. Sv_make_resp (io_req_h (sv_ios s j)) m n \<in> set evs' \<and> msg_type m = KV_MSG_OK)"
proof -
  let ?io = "(sv_ios s i)\<lparr>io_msg := (io_msg (sv_ios s i))\<lparr>msg_type := KV_MSG_ERR\<rparr>\<rparr>"
  let ?s1 = "set_io i ?io s" and ?d = "io_store (sv_ios s i)"
  have 1: "io_fini False i s = Inr (?s1, [Sv_ring_forward (io_fwd_ctx (sv_ios s i)) None False i])"
    using assms(2) by (simp add: io_fini_def Let_def)
  have io: "sv_ios ?s1 i = ?io" "sv_stores ?s1 = sv_stores s" "io_store ?io = ?d" by (simp_all add: set_io_def io_store_def)
  obtain ds devs where c: "forward_commit ?io (sv_stores s ?d) = Inr (ds, devs)" and b: "ds_bucket_log ds = ds_bucket_log (sv_stores s ?d)"
    using assms(1,3) by (auto simp: forward_commit_def kv_data_store_set_buffered_commit_def Let_def msg_types)
  have 2: "server_forward_cb vbuf buf i ?s1 =
      Inr (set_store ?d ds ?s1, [Sv_ds ?d devs, Sv_send (io_server_thread (sv_ios s i)) (Buffered_send_response i)])"
    unfolding server_forward_cb_def Let_def io using assms(1,2) c by (simp add: marks_dirty_def msg_types)
  obtain s3 evs' where 3: "buffered_send_response i (set_store ?d ds ?s1) = (s3, evs')" by fastforce
  have "sv_ios (set_store ?d ds ?s1) = sv_ios ?s1" "io_io (sv_ios ?s1 i) = io_io (sv_ios s i)"
    "io_req_h (sv_ios ?s1 j) = io_req_h (sv_ios s j)" by (simp_all add: set_store_def set_io_def)
  then have "\<exists>m n. Sv_make_resp (io_req_h (sv_ios s j)) m n \<in> set evs' \<and> msg_type m = KV_MSG_OK"
    using respond_all_ok[of j "io_io (sv_ios s i)" "set_store ?d ds ?s1" s3 evs'] 3 assms(4) by (simp add: buffered_send_response_def)
  then show ?thesis using 1 2 3 b io by (intro exI[of _ ?s1] exI[of _ "set_store ?d ds ?s1"] exI) (auto simp: set_store_def)
qed

text \<open>A batch of two buffered sets in the data store of the sample server, flushed by request 0.\<close>

definition sample_batch :: kv_server where
  "sample_batch =
     (let io = (accepted_io KV_MSG_BUFFERED_SET)\<lparr>io_ds_ctx := 5, io_io := [0, 1]\<rparr>;
          ds = example_ds\<lparr>ds_buffered := [5 \<mapsto> \<lparr>bs_keys = [[1, 2], [1, 2]], bs_value = [], bs_value_length = [0, 0],
            bs_value_offset = [0, 0], bs_bucket_id = [0, 0], bs_segs = [], bs_io_cnt = 0, bs_success = True, bs_entry = 0\<rparr>]\<rparr>
      in sample_s1\<lparr>sv_ios := \<lambda>_. io, sv_stores := \<lambda>_. ds\<rparr>)"

theorem failed_batch_is_acknowledged_witness:
  "\<exists>s1 s2 s3 evs evs' m n. io_fini False 0 sample_batch = Inr (s1, [Sv_ring_forward (Some sample_fwd) None False 0]) \<and>
     server_forward_cb 0 0 0 s1 = Inr (s2, evs) \<and> Sv_send 0 (Buffered_send_response 0) \<in> set evs \<and>
     buffered_send_response 0 s2 = (s3, evs') \<and> Sv_make_resp 0 m n \<in> set evs' \<and> msg_type m = KV_MSG_OK"
  using failed_batch_is_acknowledged[of sample_batch 0 _ 1 0 0]
  by (simp add: sample_batch_def Let_def accepted_io_def sample_io_def) blast

lemma shrink_ok: "1 < n \<Longrightarrow> n \<le> 2 * 2 ^ k \<Longrightarrow> \<exists>j. shrink_log_bucket_num n k = Inr j \<and> 2 ^ j < n \<and> n \<le> 2 * 2 ^ j"
  by (induction n k rule: shrink_log_bucket_num.induct) auto

text \<open>
  C36. The search for the number of bucket bits in \<open>main\<close>, downwards from 48, computes the least
  number with room for all segments, for every number of segments above 1 that 49 bits can
  count.
\<close>

theorem main_bucket_bits_least:
  assumes "1 < n" and "n \<le> 2 ^ 49"
  shows "main_log_bucket_num n = Inr (LEAST k. n \<le> 2 ^ k)"
proof -
  obtain j where j: "shrink_log_bucket_num n 48 = Inr j" "2 ^ j < n" "n \<le> 2 * 2 ^ j" using shrink_ok[of n 48] assms by auto
  have "(LEAST k. n \<le> 2 ^ k) = j + 1"
  proof (rule Least_equality)
    show "n \<le> 2 ^ (j + 1)" using j(3) by simp
    fix k assume "n \<le> 2 ^ k"
    then have "(2 :: nat) ^ j < 2 ^ k" using j(2) by linarith
    then show "j + 1 \<le> k" by (simp add: Suc_le_eq power_less_imp_less_exp)
  qed
  then show ?thesis using j(1) by (simp add: main_log_bucket_num_def)
qed

theorem main_bucket_bits_least_witness: "main_log_bucket_num (KV_NUM_ITEMS div KV_ITEM_PER_BUCKET) = Inr (LEAST k. 6250000 \<le> (2 :: nat) ^ k)"
  using main_bucket_bits_least[of 6250000] by (simp add: KV_NUM_ITEMS_def KV_ITEM_PER_BUCKET_def)

end
