(* ===== verification/Write_Path.thy ===== *)
theory Write_Path
  imports Ring_Chain Server_Consistency
begin

text \<open>
  The way of a write through its chain, over the code that runs at each node: the ring accepts
  the request (\<open>rdma_req_handler_wrapper\<close>), the server takes it (\<open>handler\<close>) and starts it
  (\<open>io_start\<close>), the data store reports the end of the operation (\<open>io_fini\<close>), and the ring
  sends the request on or calls back (\<open>kv_ring_forward\<close>).
\<close>

section \<open>A node of the cluster\<close>

text \<open>
  A node when a write reaches it: its own view of the nodes and of the rings, its server, the
  thread, request handle and buffer address the network gives the request, and what other
  requests make of the server between the start and the end of the operation.
\<close>

record member =
  mb_nodes :: nodes
  mb_rings :: "vnode_ring list option"
  mb_versions :: "u64 list list"
  mb_exiting :: bool
  mb_server :: kv_server
  mb_thread :: nat
  mb_req_h :: nat
  mb_addr :: u64
  mb_meanwhile :: "kv_server \<Rightarrow> kv_server"

text \<open>A write that a node has accepted, when the data store has carried it out.\<close>

record accepted =
  ac_nodes :: nodes
  ac_versions :: "u64 list list"
  ac_ds :: nat
  ac_role :: vnode_type
  ac_io :: nat
  ac_server :: kv_server

definition fwd_of :: "nat \<Rightarrow> vnode_ring list option \<Rightarrow> kv_msg \<Rightarrow> string option \<Rightarrow> forward_ctx" where
  "fwd_of lrn rings m nxt =
     (let r = unat (get_ring_id (KV_MSG_KEY m) lrn)
      in \<lparr>fw_node = nxt, fw_ring = r, fw_version = unat (vr_version (the rings ! r))\<rparr>)"

definition accept_write :: "nat \<Rightarrow> member \<Rightarrow> kv_msg \<Rightarrow> accepted option res" where
  "accept_write lrn mb m =
     rbind (rdma_req_handler_wrapper (mb_nodes mb) (mb_rings mb) (mb_versions mb) lrn (mb_exiting mb) m) (\<lambda>(ns, vers, q).
       case q of
         Rq_nak _ \<Rightarrow> Inr None
       | Rq_handle m' nxt ds role \<Rightarrow>
           let i = hd (sv_io_pool (mb_server mb)) in
           rbind (handler (mb_thread mb) (mb_req_h mb) m' (mb_addr mb) (fwd_of lrn (mb_rings mb) m nxt) (nxt \<noteq> None) ds role (mb_server mb)) (\<lambda>(s1, _).
           rbind (io_start 0 i s1) (\<lambda>(s2, _).
             Inr (Some \<lparr>ac_nodes = ns, ac_versions = vers, ac_ds = ds, ac_role = role, ac_io = i, ac_server = mb_meanwhile mb s2\<rparr>))))"

definition finish_write :: "accepted \<Rightarrow> forward_event list res" where
  "finish_write a =
     rbind (io_fini True (ac_io a) (ac_server a)) (\<lambda>(_, evs).
       case last evs of
         Sv_ring_forward (Some fwd) req _ _ \<Rightarrow> (case kv_ring_forward (ac_nodes a) (ac_versions a) fwd req of (_, _, fevs) \<Rightarrow> Inr fevs)
       | _ \<Rightarrow> Inl Null_deref)"

text \<open>
  The walk of a write that reaches node \<open>n\<close>; \<open>env n h\<close> is the node \<open>n\<close> when the request reaches
  it with the hop count \<open>h\<close>. The result is the data stores that carried it out, with their
  roles, and whether the walk ended without a refusal.
\<close>

fun write_walk :: "nat \<Rightarrow> nat \<Rightarrow> (string \<Rightarrow> nat \<Rightarrow> member) \<Rightarrow> string \<Rightarrow> kv_msg \<Rightarrow> ((string \<times> nat \<times> vnode_type) list \<times> bool) res" where
  "write_walk 0 lrn env n m = Inl No_return"
| "write_walk (Suc fuel) lrn env n m =
     rbind (accept_write lrn (env n (unat (hop m))) m) (\<lambda>a.
       case a of
         None \<Rightarrow> Inr ([], False)
       | Some a \<Rightarrow>
           rbind (finish_write a) (\<lambda>evs.
             case evs of
               Fw_send n' m' # _ \<Rightarrow>
                 rbind (write_walk fuel lrn env n' m') (\<lambda>(rest, b). Inr ((n, ac_ds a, ac_role a) # rest, b))
             | _ \<Rightarrow> Inr ([(n, ac_ds a, ac_role a)], True)))"

section \<open>One node\<close>

text \<open>
  A node that knows the rings the client has used, runs, has a free I/O context, and whose
  other requests leave the context of this one alone.
\<close>

definition up_to_date :: "nodes \<Rightarrow> vnode_ring list option \<Rightarrow> string \<Rightarrow> member \<Rightarrow> bool" where
  "up_to_date ns rings n mb \<longleftrightarrow> mb_rings mb = rings \<and> (\<forall>j. info (mb_nodes mb j) = info (ns j)) \<and>
     is_local (mb_nodes mb n) \<and> \<not> mb_exiting mb \<and> sv_io_pool (mb_server mb) \<noteq> [] \<and>
     (\<forall>s i. sv_ios (mb_meanwhile mb s) i = sv_ios s i)"

text \<open>A set or delete that the server can start.\<close>

definition startable :: "kv_msg \<Rightarrow> bool" where
  "startable m \<longleftrightarrow> is_chain_write (msg_type m) \<and> length (KV_MSG_KEY m) \<le> KV_MAX_KEY_LENGTH \<and>
     (msg_type m = KV_MSG_DEL \<longrightarrow> value_len m = 0)"

lemma get_chain_info: "\<forall>j. info (ns' j) = info (ns j) \<Longrightarrow> get_chain ns' rings lrn k = get_chain ns rings lrn k"
proof -
  assume "\<forall>j. info (ns' j) = info (ns j)"
  then have at: "get_chain_at ns' = get_chain_at ns" by (intro ext) (simp add: get_chain_at_def)
  show ?thesis unfolding get_chain_def at ..
qed

lemma store_index_split: "store_index (d mod MAX_SSD_WORKERS) (d div MAX_SSD_WORKERS) = d"
  by (simp add: store_index_def)

lemma start_write_ok:
  assumes "startable (io_msg io)" and "io_msg_type io = msg_type (io_msg io)"
  shows "\<exists>s' evs c. start_write i io s = Inr (s', evs) \<and> sv_ios s' i = io\<lparr>io_ds_ctx := c\<rparr>"
proof -
  let ?k = "KV_MSG_KEY (io_msg io)" and ?d = "io_store io"
  have "\<exists>ds. (if io_vnode_type io = KV_RING_VNODE then kv_data_store_dirty (sv_stores s ?d) ?k else Inr (sv_stores s ?d)) = Inr ds"
    using assms(1) by (auto simp: startable_def kv_data_store_dirty_def kv_bucket_key_set_add_def key_to_array_def)
  then show ?thesis using assms(1)
    by (auto simp: start_write_def Let_def startable_def is_chain_write_def msg_types set_io_def set_store_def split: prod.splits)
qed

text \<open>The context of an accepted write at the end of its operation.\<close>

lemma accept_write_ok:
  assumes "rdma_req_handler_wrapper (mb_nodes mb) (mb_rings mb) (mb_versions mb) lrn False m = Inr (ns, vers, Rq_handle m' nxt ds role)"
    and "startable m'" and "up_to_date ns0 rings n mb"
  shows "\<exists>a. accept_write lrn mb m = Inr (Some a) \<and> ac_ds a = ds \<and> ac_role a = role \<and>
    (let io = sv_ios (ac_server a) (ac_io a) in io_msg io = m' \<and> io_msg_type io = msg_type m' \<and> io_vnode_type io = role \<and>
       has_next_node io = (nxt \<noteq> None) \<and> \<not> need_forward io \<and> \<not> in_copy_pool io \<and> io_store io = ds \<and>
       (\<exists>fwd. io_fwd_ctx io = Some fwd \<and> fw_node fwd = nxt))"
proof -
  let ?s = "mb_server mb" and ?fwd = "fwd_of lrn (mb_rings mb) m nxt"
  obtain i rest where pool: "sv_io_pool ?s = i # rest" using assms(3) by (auto simp: up_to_date_def neq_Nil_conv)
  define io where "io = (sv_ios ?s i)\<lparr>io_req_h := mb_req_h mb, io_msg := m', io_addr := mb_addr mb,
    io_worker_id := ds mod MAX_SSD_WORKERS, io_storage_id := ds div MAX_SSD_WORKERS, io_server_thread := mb_thread mb,
    io_fwd_ctx := Some ?fwd, has_next_node := nxt \<noteq> None, in_copy_pool := False, io_vnode_type := role, io_msg_type := msg_type m'\<rparr>"
  define s1 where "s1 = (set_io i io ?s)\<lparr>sv_io_pool := rest\<rparr>"
  have h: "handler (mb_thread mb) (mb_req_h mb) m' (mb_addr mb) ?fwd (nxt \<noteq> None) ds role ?s =
      Inr (s1, [Sv_send (ds mod MAX_SSD_WORKERS) (Io_start i)])"
    using pool by (simp add: handler_def Let_def s1_def io_def)
  have "sv_ios s1 i = io" "startable (io_msg io)" "io_msg_type io = msg_type (io_msg io)"
    using assms(2) by (simp_all add: s1_def set_io_def io_def)
  then obtain s2 evs c where st: "start_write i (io\<lparr>need_forward := False\<rparr>) (set_io i (io\<lparr>need_forward := False\<rparr>) s1) = Inr (s2, evs)"
    "sv_ios s2 i = io\<lparr>need_forward := False, io_ds_ctx := c\<rparr>"
    using start_write_ok[of "io\<lparr>need_forward := False\<rparr>" i "set_io i (io\<lparr>need_forward := False\<rparr>) s1"] by auto
  have "io_start 0 i s1 = Inr (s2, evs)"
    using st(1) \<open>sv_ios s1 i = io\<close> assms(2) by (auto simp: io_start_def Let_def startable_def is_chain_write_def io_def)
  then have a: "accept_write lrn mb m = Inr (Some \<lparr>ac_nodes = ns, ac_versions = vers, ac_ds = ds, ac_role = role, ac_io = i,
      ac_server = mb_meanwhile mb s2\<rparr>)"
    using assms(1,3) h pool by (simp add: accept_write_def up_to_date_def)
  have "sv_ios (mb_meanwhile mb s2) i = io\<lparr>need_forward := False, io_ds_ctx := c\<rparr>" using st(2) assms(3) by (simp add: up_to_date_def)
  then show ?thesis using a
    by (simp add: io_def Let_def io_store_def store_index_split fwd_of_def)
qed

text \<open>
  The end of the operation: a replica before the tail sends the request on, the tail sends it to
  the target of a copy if its bucket has been copied already, and anything else calls back.
\<close>

definition copied_at :: "accepted \<Rightarrow> kv_msg \<Rightarrow> bool" where
  "copied_at a m = kv_data_store_copy_forward (sv_stores (ac_server a) (ac_ds a)) (sv_copies (ac_server a) (ac_ds a)) (KV_MSG_KEY m)"

lemma finish_write_ok:
  fixes a defines "io \<equiv> sv_ios (ac_server a) (ac_io a)"
  assumes "io_msg io = m" and "io_msg_type io = msg_type m" and "io_vnode_type io = role" and "has_next_node io = (nxt \<noteq> None)"
    and "\<not> need_forward io" and "\<not> in_copy_pool io" and "io_store io = ac_ds a" and "io_fwd_ctx io = Some fwd" and "fw_node fwd = nxt"
    and "is_chain_write (msg_type m)" and "role = KV_RING_VNODE \<longrightarrow> nxt \<noteq> None"
  shows "finish_write a = Inr [case nxt of None \<Rightarrow> Fw_callback
    | Some n \<Rightarrow> if role = KV_RING_VNODE \<or> role = KV_RING_TAIL \<and> copied_at a m then Fw_send n m else Fw_callback]"
proof -
  have nf: "fini_forward (ac_server a) io \<longleftrightarrow> role = KV_RING_VNODE \<or> role = KV_RING_TAIL \<and> nxt \<noteq> None \<and> copied_at a m"
    using assms(2-8,11,12) by (cases role) (auto simp: fini_forward_def Let_def copied_at_def)
  have f: "\<exists>s m' evs. io_fini True (ac_io a) (ac_server a) =
      Inr (s, evs @ [Sv_ring_forward (Some fwd) (if fini_forward (ac_server a) io then Some m else None) False (ac_io a)])"
    using assms(2,6,7,9) by (auto simp: io_fini_def Let_def io_def)
  then show ?thesis using nf assms(10,12)
    by (cases nxt) (auto simp: finish_write_def kv_ring_forward_def)
qed

section \<open>The chain\<close>

text \<open>The virtual nodes behind which a write may go: the chain, then the target of a copy.\<close>

definition write_targets :: "vnode_ring \<Rightarrow> vnode_chain \<Rightarrow> vid_entry list" where
  "write_targets ring ch = chain_entries ring ch @ (case ch_copy ch of None \<Rightarrow> [] | Some c \<Rightarrow> [vr_head ring ! c])"

lemma length_write_targets: "length (write_targets ring ch) = length (ch_vids ch) + (if ch_copy ch = None then 0 else 1)"
  by (auto simp: write_targets_def chain_entries_def split: option.splits)

lemma write_targets_nth:
  "j < length (ch_vids ch) \<Longrightarrow> write_targets ring ch ! j = vr_head ring ! (ch_vids ch ! j)"
  "ch_copy ch = Some c \<Longrightarrow> j = length (ch_vids ch) \<Longrightarrow> write_targets ring ch ! j = vr_head ring ! c"
  by (simp_all add: write_targets_def chain_entries_def nth_append split: option.splits)

lemma handle_write_at:
  fixes ring ch
  defines "ts \<equiv> write_targets ring ch"
  assumes "i < length ts" and "unat (hop m) = Suc i" and "is_local (ns (ve_node (ts ! i)))"
  shows "\<exists>ns'. handle_write ns ring ch m = Inr (ns', if Suc i < length ts
      then Rq_handle (m\<lparr>hop := hop m + 1\<rparr>) (Some (ve_node (ts ! Suc i))) (entry_ds (ts ! i)) (write_role (Suc i) (length (ch_vids ch)))
      else Rq_handle m None (entry_ds (ts ! i)) (write_role (Suc i) (length (ch_vids ch))))"
proof (cases "i < length (ch_vids ch)")
  case True
  then consider "Suc i < length (ch_vids ch)" | "Suc i = length (ch_vids ch)" by linarith
  then show ?thesis
  proof cases
    case 1
    then show ?thesis using assms by (auto simp: handle_write_def Let_def write_targets_nth length_write_targets)
  next
    case 2
    then have "i = length (ch_vids ch) - 1" by simp
    then show ?thesis using assms True 2
      by (cases "ch_copy ch") (auto simp: handle_write_def Let_def write_targets_nth length_write_targets)
  qed
next
  case False
  then obtain c where "ch_copy ch = Some c" "i = length (ch_vids ch)"
    using assms(2) by (auto simp: ts_def length_write_targets split: if_splits)
  then show ?thesis using assms by (auto simp: handle_write_def Let_def write_targets_nth length_write_targets)
qed

lemma startable_hop: "startable (m\<lparr>hop := h\<rparr>) = startable m"
  by (simp add: startable_def)

text \<open>What the node at position \<open>i\<close> does with the request.\<close>

lemma node_passes_on:
  fixes rings r ch
  defines "ts \<equiv> write_targets (the rings ! r) ch" and "n \<equiv> length (ch_vids ch)"
  assumes "get_chain ns rings lrn (KV_MSG_KEY m) = Inr (Some (r, ch))" and "startable m"
    and "i < length ts" and "unat (hop m) = Suc i" and "up_to_date ns rings (ve_node (ts ! i)) mb"
  shows "\<exists>a. accept_write lrn mb m = Inr (Some a) \<and> ac_ds a = entry_ds (ts ! i) \<and> ac_role a = write_role (Suc i) n \<and>
    finish_write a = Inr [if Suc i < n \<or> Suc i = n \<and> ch_copy ch \<noteq> None \<and> copied_at a m
      then Fw_send (ve_node (ts ! Suc i)) (m\<lparr>hop := hop m + 1\<rparr>) else Fw_callback]"
proof -
  have up: "mb_rings mb = rings" "is_local (mb_nodes mb (ve_node (ts ! i)))" using assms(7) by (simp_all add: up_to_date_def)
  have w: "is_chain_write (msg_type m)" "is_write_msg m" using assms(4) by (auto simp: startable_def is_chain_write_def is_write_msg_def)
  have len: "length ts = n + (if ch_copy ch = None then 0 else 1)" by (simp add: ts_def n_def length_write_targets)
  define nxt where "nxt = (if Suc i < length ts then Some (ve_node (ts ! Suc i)) else None)"
  define m' where "m' = (if Suc i < length ts then m\<lparr>hop := hop m + 1\<rparr> else m)"
  define role where "role = write_role (Suc i) n"
  obtain ns' where h: "handle_write (mb_nodes mb) (the rings ! r) ch m = Inr (ns', Rq_handle m' nxt (entry_ds (ts ! i)) role)"
    using handle_write_at[where ns = "mb_nodes mb", OF assms(5)[unfolded ts_def] assms(6) up(2)[unfolded ts_def]]
    by (auto simp: ts_def n_def nxt_def m'_def role_def split: if_splits)
  have "get_chain (mb_nodes mb) rings lrn (KV_MSG_KEY m) = Inr (Some (r, ch))"
    using get_chain_info[of "mb_nodes mb" ns rings lrn "KV_MSG_KEY m"] assms(3,7) by (simp add: up_to_date_def)
  then have q: "\<exists>vers. rdma_req_handler_wrapper (mb_nodes mb) (mb_rings mb) (mb_versions mb) lrn False m =
      Inr (ns', vers, Rq_handle m' nxt (entry_ds (ts ! i)) role)"
    using h up w by (simp add: rdma_req_handler_wrapper_def Let_def)
  have m': "startable m'" "copied_at a m' = copied_at a m" "is_chain_write (msg_type m')" for a
    using assms(4) w by (simp_all add: m'_def startable_hop copied_at_def)
  obtain a where a: "accept_write lrn mb m = Inr (Some a)" "ac_ds a = entry_ds (ts ! i)" "ac_role a = role"
    "let io = sv_ios (ac_server a) (ac_io a) in io_msg io = m' \<and> io_msg_type io = msg_type m' \<and> io_vnode_type io = role \<and>
       has_next_node io = (nxt \<noteq> None) \<and> \<not> need_forward io \<and> \<not> in_copy_pool io \<and> io_store io = entry_ds (ts ! i) \<and>
       (\<exists>fwd. io_fwd_ctx io = Some fwd \<and> fw_node fwd = nxt)"
    using q accept_write_ok[OF _ m'(1) assms(7)] by blast
  have role: "role = KV_RING_VNODE \<longleftrightarrow> Suc i < n" "role = KV_RING_TAIL \<longleftrightarrow> Suc i = n"
    using assms(5) len by (auto simp: role_def write_role_def split: if_splits)
  have fin: "finish_write a = Inr [case nxt of None \<Rightarrow> Fw_callback
    | Some n \<Rightarrow> if role = KV_RING_VNODE \<or> role = KV_RING_TAIL \<and> copied_at a m' then Fw_send n m' else Fw_callback]"
  proof -
    obtain fwd where "io_fwd_ctx (sv_ios (ac_server a) (ac_io a)) = Some fwd" "fw_node fwd = nxt" using a(4) by (auto simp: Let_def)
    moreover have "role = KV_RING_VNODE \<longrightarrow> nxt \<noteq> None" using role(1) len by (simp add: nxt_def)
    ultimately show ?thesis using a(2,4) m'(3) finish_write_ok[of a m' role nxt fwd] by (simp add: Let_def)
  qed
  have "(case nxt of None \<Rightarrow> Fw_callback
    | Some n \<Rightarrow> if role = KV_RING_VNODE \<or> role = KV_RING_TAIL \<and> copied_at a m' then Fw_send n m' else Fw_callback) =
    (if Suc i < n \<or> Suc i = n \<and> ch_copy ch \<noteq> None \<and> copied_at a m
      then Fw_send (ve_node (ts ! Suc i)) (m\<lparr>hop := hop m + 1\<rparr>) else Fw_callback)"
  proof (cases "Suc i < length ts")
    case True
    then have "Suc i < n \<or> Suc i = n \<and> ch_copy ch \<noteq> None" using len by (auto split: if_splits)
    then show ?thesis using True by (auto simp: nxt_def m'_def role copied_at_def)
  next
    case False
    then show ?thesis using len by (auto simp: nxt_def split: if_splits)
  qed
  then show ?thesis using a(1-3) fin by (auto simp: role_def)
qed

section \<open>The walk\<close>

text \<open>Whether the tail finds that the bucket of the request has been copied.\<close>

definition tail_forwards :: "nat \<Rightarrow> (string \<Rightarrow> nat \<Rightarrow> member) \<Rightarrow> vnode_ring \<Rightarrow> vnode_chain \<Rightarrow> kv_msg \<Rightarrow> bool" where
  "tail_forwards lrn env ring ch m =
     (let n = length (ch_vids ch) in
      case accept_write lrn (env (ve_node (last (chain_entries ring ch))) n) (m\<lparr>hop := word_of_nat n\<rparr>) of
        Inr (Some a) \<Rightarrow> copied_at a m
      | _ \<Rightarrow> False)"

definition reached :: "nat \<Rightarrow> (string \<Rightarrow> nat \<Rightarrow> member) \<Rightarrow> vnode_ring \<Rightarrow> vnode_chain \<Rightarrow> kv_msg \<Rightarrow> vid_entry list" where
  "reached lrn env ring ch m =
     (if tail_forwards lrn env ring ch m then write_targets ring ch else chain_entries ring ch)"

definition visits :: "vnode_chain \<Rightarrow> vid_entry list \<Rightarrow> nat \<Rightarrow> (string \<times> nat \<times> vnode_type) list" where
  "visits ch xs i = map (\<lambda>j. (ve_node (xs ! j), entry_ds (xs ! j), write_role (Suc j) (length (ch_vids ch)))) [i..<length xs]"

lemma visits_Cons:
  "i < length xs \<Longrightarrow> visits ch xs i = (ve_node (xs ! i), entry_ds (xs ! i), write_role (Suc i) (length (ch_vids ch))) # visits ch xs (Suc i)"
  by (simp add: visits_def upt_conv_Cons)

lemma visits_end: "visits ch xs (length xs) = []"
  by (simp add: visits_def)

lemma write_walk_ok:
  fixes rings r ch
  defines "ts \<equiv> write_targets (the rings ! r) ch" and "n \<equiv> length (ch_vids ch)"
  assumes "get_chain ns rings lrn (KV_MSG_KEY m) = Inr (Some (r, ch))" and "startable m" and "length ts < 2 ^ 16"
    and "\<forall>j < length ts. up_to_date ns rings (ve_node (ts ! j)) (env (ve_node (ts ! j)) (Suc j))"
    and "i < length (reached lrn env (the rings ! r) ch m)" and "length ts - i \<le> fuel"
  shows "write_walk fuel lrn env (ve_node (ts ! i)) (m\<lparr>hop := word_of_nat (Suc i)\<rparr>) =
    Inr (visits ch (reached lrn env (the rings ! r) ch m) i, True)"
  using assms(7,8)
proof (induction fuel arbitrary: i)
  case 0
  then show ?case by (auto simp: reached_def ts_def length_write_targets chain_entries_def split: if_splits)
next
  case (Suc fuel)
  let ?xs = "reached lrn env (the rings ! r) ch m" and ?m = "m\<lparr>hop := word_of_nat (Suc i)\<rparr>"
  have pre: "?xs = take (length ?xs) ts" by (auto simp: reached_def ts_def write_targets_def)
  have i: "i < length ts" "ts ! i = ?xs ! i" using Suc.prems(1) pre by (metis length_take min_less_iff_conj, metis nth_take)
  have hop: "unat (hop ?m) = Suc i" "hop ?m + 1 = word_of_nat (Suc (Suc i))" using i(1) assms(5) by (simp_all add: unat_of_nat del: of_nat_Suc) simp
  obtain a where a: "accept_write lrn (env (ve_node (ts ! i)) (Suc i)) ?m = Inr (Some a)" "ac_ds a = entry_ds (ts ! i)"
    "ac_role a = write_role (Suc i) n"
    "finish_write a = Inr [if Suc i < n \<or> Suc i = n \<and> ch_copy ch \<noteq> None \<and> copied_at a ?m
      then Fw_send (ve_node (ts ! Suc i)) (?m\<lparr>hop := hop ?m + 1\<rparr>) else Fw_callback]"
    using node_passes_on[of ns rings lrn ?m r ch i "env (ve_node (ts ! i)) (Suc i)"] assms(3,4,6) i(1) hop(1)
    by (auto simp: ts_def n_def startable_hop)
  have tail: "tail_forwards lrn env (the rings ! r) ch m \<longleftrightarrow> copied_at a m" if "Suc i = n"
  proof -
    have "ch_vids ch \<noteq> []" "length (ch_vids ch) - 1 = i" using that by (auto simp: n_def)
    then have "last (chain_entries (the rings ! r) ch) = ts ! i"
      by (auto simp: last_conv_nth chain_entries_def ts_def write_targets_def nth_append)
    then show ?thesis using a(1) that by (simp add: tail_forwards_def n_def[symmetric])
  qed
  have more: "Suc i < length ?xs \<longleftrightarrow> Suc i < n \<or> Suc i = n \<and> ch_copy ch \<noteq> None \<and> copied_at a ?m"
    using i(1) tail by (auto simp: reached_def ts_def n_def length_write_targets chain_entries_def copied_at_def split: if_splits)
  show ?case
  proof (cases "Suc i < length ?xs")
    case True
    have "write_walk fuel lrn env (ve_node (ts ! Suc i)) (m\<lparr>hop := word_of_nat (Suc (Suc i))\<rparr>) = Inr (visits ch ?xs (Suc i), True)"
      using True Suc.prems(2) by (intro Suc.IH) simp_all
    moreover have "finish_write a = Inr [Fw_send (ve_node (ts ! Suc i)) (m\<lparr>hop := word_of_nat (Suc (Suc i))\<rparr>)]"
      using a(4) True more hop(2) by simp
    ultimately show ?thesis using a(1-3) hop(1) Suc.prems(1) i(2) by (simp add: visits_Cons n_def)
  next
    case False
    then have "length ?xs = Suc i" using Suc.prems(1) by simp
    then have "visits ch ?xs (Suc i) = []" using visits_end[of ch ?xs] by simp
    moreover have "finish_write a = Inr [Fw_callback]" using a(4) False unfolding more by (simp only: if_False)
    ultimately show ?thesis using a(1-3) hop(1) Suc.prems(1) i(2) by (simp add: visits_Cons n_def)
  qed
qed

section \<open>Properties\<close>

text \<open>
  C8. Chain replication of a set or delete: if the nodes of the chain have the rings the client
  has used, are not exiting and have a free I/O context, and the operation succeeds in their
  data stores, then a request that \<open>try_send_req\<close> sends out is carried out at all replicas of
  its chain, in order, each once, the last one as the tail; after them it is carried out at the
  target of a running copy exactly if there is one and the tail finds the bucket of the key
  copied when its own operation ends. No node refuses the request, and it ends there.
\<close>

theorem write_reaches_every_replica:
  assumes "get_chain ns rings lrn (KV_MSG_KEY (dp_msg ctx)) = Inr (Some (r, ch))" and "startable (dp_msg ctx)"
    and "try_send_req ns rings lrn ctx = Inr (ns', ctx', True)" and "length (write_targets (the rings ! r) ch) < 2 ^ 16"
    and "\<forall>x \<in> set (write_targets (the rings ! r) ch). \<forall>h. up_to_date ns rings (ve_node x) (env (ve_node x) h)"
  shows "write_walk (length (write_targets (the rings ! r) ch)) lrn env (dp_node ctx') (dp_msg ctx') =
    Inr (map (\<lambda>j. (ve_node (write_targets (the rings ! r) ch ! j), entry_ds (write_targets (the rings ! r) ch ! j),
               write_role (Suc j) (length (ch_vids ch))))
           [0..<length (ch_vids ch) + (if ch_copy ch \<noteq> None \<and> tail_forwards lrn env (the rings ! r) ch (dp_msg ctx) then 1 else 0)], True)"
proof -
  let ?ring = "the rings ! r" and ?xs = "chain_entries (the rings ! r) ch" and ?m = "dp_msg ctx"
  let ?ctx = "ctx\<lparr>dp_msg := ?m\<lparr>hop := 1\<rparr>\<rparr>" and ?ts = "write_targets (the rings ! r) ch" and ?rs = "reached lrn env (the rings ! r) ch (dp_msg ctx)"
  have nr: "\<not> is_read_msg (?m\<lparr>hop := h\<rparr>)" for h using assms(2) by (auto simp: startable_def is_chain_write_def is_read_msg_def msg_types)
  have ne: "?xs \<noteq> []" and s: "send_to ns ?ctx (hd ?xs) = (ns', ctx')"
    using assms(1,3) nr by (auto simp: try_send_req_def Let_def split: if_splits prod.splits)
  have hd: "hd ?xs = ?ts ! 0" using ne by (simp add: write_targets_def hd_conv_nth nth_append)
  have c: "dp_node ctx' = ve_node (?ts ! 0)" "dp_msg ctx' = ?m\<lparr>hop := word_of_nat (Suc 0)\<rparr>"
    using s hd by (auto simp: send_to_def Let_def)
  have up: "\<forall>j < length ?ts. up_to_date ns rings (ve_node (?ts ! j)) (env (ve_node (?ts ! j)) (Suc j))" using assms(5) by simp
  have pre: "?rs = take (length ?rs) ?ts" by (auto simp: reached_def write_targets_def)
  have "0 < length ?rs" using ne by (auto simp: reached_def write_targets_def)
  then have w: "write_walk (length ?ts) lrn env (dp_node ctx') (dp_msg ctx') = Inr (visits ch ?rs 0, True)"
    unfolding c by (intro write_walk_ok[OF assms(1,2,4) up]) simp_all
  have "length ?rs = length (ch_vids ch) + (if ch_copy ch \<noteq> None \<and> tail_forwards lrn env ?ring ch ?m then 1 else 0)"
    by (auto simp: reached_def length_write_targets chain_entries_def)
  moreover have "visits ch ?rs 0 = map (\<lambda>j. (ve_node (?ts ! j), entry_ds (?ts ! j), write_role (Suc j) (length (ch_vids ch)))) [0..<length ?rs]"
    unfolding visits_def by (rule map_cong) (use pre nth_take in \<open>metis atLeastLessThan_iff set_upt\<close>)+
  ultimately show ?thesis using w by simp
qed

text \<open>A set on a ring with two replicas asked for, one of them leaving, whose bucket has been copied.\<close>

definition demo_ctx :: "nat dispatch_ctx" where
  "demo_ctx = \<lparr>dp_msg = \<lparr>msg_type = KV_MSG_SET, key_len = 8, hop = 0, value_len = 0, put_key_ok = 0, slot_id = 0, msg_ds_id = 0,
     msg_q_info = \<lparr>q_size = 0, q_cap = 0\<rparr>, data = replicate 8 5\<rparr>, dp_cb = 0, dp_thread_id = 0, dp_retry_num = 0,
     dp_next_retry = 1, dp_node = [], dp_ds_id = 0\<rparr>"

definition demo_chain :: vnode_chain where
  "demo_chain = \<lparr>ch_base = 0, ch_copy = Some 2, ch_invalid = Some 1, ch_vids = [0]\<rparr>"

lemma replicate_8: "replicate 8 x = [x, x, x, x, x, x, x, x]"
  by (simp add: numeral_eq_Suc)

lemma demo_vids: "get_vid_64 (replicate 20 10) = 0x0A0A0A0A0A0A0A0A" "get_vid_64 (replicate 20 40) = 0x2828282828282828"
  "get_vid_64 (replicate 8 5) = 0x0505050505050505"
  by (simp_all add: get_vid_64_def load_u64_def replicate_8)

lemma demo_find: "find_vid_entry demo_chain_ring (KV_MSG_KEY (dp_msg demo_ctx)) = Inr (Some 0)"
  by (simp add: find_vid_entry_def demo_chain_ring_def demo_entry_def demo_ctx_def KV_MSG_KEY_def vid_of_def demo_vids Let_def)

lemma demo_chain_at: "get_chain_at demo_nodes demo_chain_ring 0 = Inr demo_chain"
proof -
  have "unat (rpl_num (info (demo_nodes n))) = 2" for n by (simp add: demo_nodes_def)
  then show ?thesis by (simp add: get_chain_at_def demo_chain_ring_def demo_entry_def loop_next_pos_def Let_def demo_chain_def)
qed

lemma demo_get_chain:
  "get_chain demo_nodes (Some [demo_chain_ring]) 0 (KV_MSG_KEY (dp_msg demo_ctx)) =
     Inr (Some (0, demo_chain))"
  by (simp add: get_chain_def get_ring_id_def demo_find demo_chain_at)

lemma demo_room: "all_have_room demo_nodes [demo_entry ''a'' 10 VID_RUNNING] (kv_ds_op_cost KV_DS_SET)"
  by code_simp

definition demo_sent_ctx :: "nat dispatch_ctx" where
  "demo_sent_ctx = demo_ctx\<lparr>dp_msg := (dp_msg demo_ctx)\<lparr>hop := 1\<rparr>, dp_node := ''a'', dp_ds_id := 0\<rparr>"

lemma demo_sent: "\<exists>ns'. try_send_req demo_nodes (Some [demo_chain_ring]) 0 demo_ctx = Inr (ns', demo_sent_ctx, True)"
proof -
  have "chain_entries demo_chain_ring demo_chain = [demo_entry ''a'' 10 VID_RUNNING]"
    by (simp add: chain_entries_def demo_chain_ring_def demo_chain_def)
  moreover have "msg_type (dp_msg demo_ctx) = KV_MSG_SET" "\<not> is_read_msg ((dp_msg demo_ctx)\<lparr>hop := 1\<rparr>)"
    by (simp_all add: demo_ctx_def is_read_msg_def msg_types)
  moreover have "snd (send_to ns (demo_ctx\<lparr>dp_msg := (dp_msg demo_ctx)\<lparr>hop := 1\<rparr>\<rparr>) (demo_entry ''a'' 10 VID_RUNNING)) = demo_sent_ctx" for ns
    by (simp add: send_to_def Let_def demo_sent_ctx_def demo_entry_def entry_ds_def)
  ultimately show ?thesis using demo_room by (simp add: try_send_req_def demo_get_chain Let_def split_def)
qed

lemma demo_targets:
  "write_targets demo_chain_ring demo_chain =
     [demo_entry ''a'' 10 VID_RUNNING, demo_entry ''c'' 30 VID_RUNNING]"
  by (simp add: write_targets_def chain_entries_def demo_chain_ring_def demo_chain_def)

definition demo_env :: "string \<Rightarrow> nat \<Rightarrow> member" where
  "demo_env n h =
     (let kr = \<lparr>kr_start = 0, kr_end = 9, kr_cb = None, kr_to_copy = 8, kr_copying = False, kr_seg = kv_bucket_seg_init 0, kr_item_num = 0\<rparr>
      in \<lparr>mb_nodes = (\<lambda>j. (demo_nodes j)\<lparr>is_local := (j = n)\<rparr>), mb_rings = Some [demo_chain_ring], mb_versions = [[0]], mb_exiting = False,
          mb_server = sample_s1, mb_thread = 0, mb_req_h = 0, mb_addr = 0,
          mb_meanwhile = (\<lambda>s. s\<lparr>sv_stores := \<lambda>_. example_ds, sv_copies := \<lambda>_. (kv_data_store_copy_init 1)\<lparr>cp_ranges := [(0, kr)]\<rparr>\<rparr>)\<rparr>)"

lemma demo_up_to_date: "up_to_date demo_nodes (Some [demo_chain_ring]) n (demo_env n h)"
  by (simp add: up_to_date_def demo_env_def Let_def sample_s1_def)

lemma demo_startable: "startable (dp_msg demo_ctx)"
  by (simp add: startable_def demo_ctx_def is_chain_write_def msg_types KV_MSG_KEY_def KV_MAX_KEY_LENGTH_def)

lemma accept_write_server: "accept_write lrn mb m = Inr (Some a) \<Longrightarrow> \<exists>s. ac_server a = mb_meanwhile mb s"
proof -
  assume acc: "accept_write lrn mb m = Inr (Some a)"
  then obtain ns vers q where q: "rdma_req_handler_wrapper (mb_nodes mb) (mb_rings mb) (mb_versions mb) lrn (mb_exiting mb) m = Inr (ns, vers, q)"
    by (auto simp: accept_write_def rbind_eq_Inr_iff)
  then show ?thesis using acc by (cases q) (auto simp: accept_write_def Let_def rbind_eq_Inr_iff)
qed

lemma demo_bucket: "kv_data_store_bucket_id example_ds (KV_MSG_KEY (dp_msg demo_ctx)) = 0"
  by (simp add: kv_data_store_bucket_id_def example_ds_def demo_ctx_def KV_MSG_KEY_def demo_vids[unfolded get_vid_64_def])

lemma demo_copied: "accept_write 0 (demo_env n h) m = Inr (Some a) \<Longrightarrow> copied_at a (dp_msg demo_ctx)"
proof -
  assume "accept_write 0 (demo_env n h) m = Inr (Some a)"
  then obtain s where "ac_server a = mb_meanwhile (demo_env n h) s" using accept_write_server by blast
  moreover have "id_space_size (log_bucket_num example_ds) = 16" by (simp add: id_space_size_def example_ds_def)
  ultimately show ?thesis
    by (simp add: copied_at_def kv_data_store_copy_forward_def demo_env_def Let_def range_copied_def demo_bucket)
qed

lemma demo_tail: "tail_forwards 0 demo_env demo_chain_ring demo_chain (dp_msg demo_ctx)"
proof -
  have c: "chain_entries demo_chain_ring demo_chain = [demo_entry ''a'' 10 VID_RUNNING]" "length (ch_vids demo_chain) = 1"
    "ve_node (demo_entry ''a'' 10 VID_RUNNING) = ''a''"
    by (simp_all add: chain_entries_def demo_chain_ring_def demo_chain_def demo_entry_def)
  obtain a where "accept_write 0 (demo_env ''a'' 1) ((dp_msg demo_ctx)\<lparr>hop := 1\<rparr>) = Inr (Some a)"
    using node_passes_on[of demo_nodes "Some [demo_chain_ring]" 0 "(dp_msg demo_ctx)\<lparr>hop := 1\<rparr>" 0 demo_chain 0 "demo_env ''a'' 1"]
      demo_get_chain demo_startable demo_up_to_date
    by (auto simp: demo_targets startable_hop c(3))
  with demo_copied[OF this] show ?thesis by (simp add: tail_forwards_def c)
qed

theorem write_reaches_every_replica_witness:
  "write_walk 2 0 demo_env ''a'' ((dp_msg demo_ctx)\<lparr>hop := 1\<rparr>) = Inr ([(''a'', 0, KV_RING_TAIL), (''c'', 0, KV_RING_COPY)], True)"
proof -
  obtain ns' where sent: "try_send_req demo_nodes (Some [demo_chain_ring]) 0 demo_ctx = Inr (ns', demo_sent_ctx, True)" using demo_sent by blast
  have e: "entry_ds (demo_entry n v st) = 0" "ve_node (demo_entry n v st) = n" for n v st by (simp_all add: entry_ds_def demo_entry_def)
  have c: "length (ch_vids demo_chain) = 1" "ch_copy demo_chain = Some 2" "dp_node demo_sent_ctx = ''a''"
    "dp_msg demo_sent_ctx = (dp_msg demo_ctx)\<lparr>hop := 1\<rparr>" by (simp_all add: demo_chain_def demo_sent_ctx_def)
  have l: "length [demo_entry ''a'' 10 VID_RUNNING, demo_entry ''c'' 30 VID_RUNNING] = 2" "[0..<2] = [0, 1 :: nat]" by (simp_all add: upt_rec)
  show ?thesis
    using write_reaches_every_replica[OF demo_get_chain demo_startable sent, of demo_env] demo_up_to_date demo_tail
    by (simp add: demo_targets c l e write_role_def numeral_2_eq_2[symmetric] del: write_walk.simps)
qed



end
