(* ===== verification/City.thy ===== *)
theory City
  imports Kv_Ring
begin

unbundle bit_operations_syntax

text \<open>
  \<open>utils/city.c\<close>: CityHash, from which the positions of virtual nodes are computed. A
  pointer into the hashed bytes is an offset (an integer, so that an offset before the first
  byte is seen), and a read that is not inside the bytes is an error. The part of the file
  that needs CRC instructions is switched off by its own \<open>#undef\<close>.
\<close>

section \<open>Reads\<close>

definition Fetch64 :: "u8 list \<Rightarrow> int \<Rightarrow> u64 res" where
  "Fetch64 s p = (if 0 \<le> p \<and> p + 8 \<le> int (length s) then Inr (load_u64 (drop (nat p) s)) else Inl Out_of_bounds)"

definition Fetch32 :: "u8 list \<Rightarrow> int \<Rightarrow> u32 res" where
  "Fetch32 s p = (if 0 \<le> p \<and> p + 4 \<le> int (length s) then Inr (load_u32 (drop (nat p) s)) else Inl Out_of_bounds)"

definition Fetch8 :: "u8 list \<Rightarrow> int \<Rightarrow> u8 res" where
  "Fetch8 s p = (if 0 \<le> p \<and> p < int (length s) then Inr (s ! nat p) else Inl Out_of_bounds)"

section \<open>Mixing\<close>

definition k0 :: u64 where "k0 = 0xc3a5c85c97cb3127"
definition k1 :: u64 where "k1 = 0xb492b66fbe98f273"
definition k2 :: u64 where "k2 = 0x9ae16a3b2f90404f"
definition k3 :: u64 where "k3 = 0xc949d7c7509e6557"

type_synonym uint128 = "u64 \<times> u64"

definition Hash128to64 :: "uint128 \<Rightarrow> u64" where
  "Hash128to64 = (\<lambda>(lo, hi).
     let kMul = 0x9ddfea08eb382d69;
         a = (lo XOR hi) * kMul;
         a = a XOR drop_bit 47 a;
         b = (hi XOR a) * kMul;
         b = b XOR drop_bit 47 b
     in b * kMul)"

definition Rotate :: "u64 \<Rightarrow> nat \<Rightarrow> u64" where
  "Rotate val shift = (if shift = 0 then val else drop_bit shift val OR push_bit (64 - shift) val)"

definition RotateByAtLeast1 :: "u64 \<Rightarrow> nat \<Rightarrow> u64" where
  "RotateByAtLeast1 val shift = drop_bit shift val OR push_bit (64 - shift) val"

definition ShiftMix :: "u64 \<Rightarrow> u64" where
  "ShiftMix val = val XOR drop_bit 47 val"

definition HashLen16 :: "u64 \<Rightarrow> u64 \<Rightarrow> u64" where
  "HashLen16 u v = Hash128to64 (u, v)"

definition HashLen0to16 :: "u8 list \<Rightarrow> int \<Rightarrow> nat \<Rightarrow> u64 res" where
  "HashLen0to16 buf s len =
     (if len > 8 then
        rbind (Fetch64 buf s) (\<lambda>a.
        rbind (Fetch64 buf (s + int len - 8)) (\<lambda>b.
          Inr (HashLen16 a (RotateByAtLeast1 (b + word_of_nat len) len) XOR b)))
      else if len \<ge> 4 then
        rbind (Fetch32 buf s) (\<lambda>a.
        rbind (Fetch32 buf (s + int len - 4)) (\<lambda>b.
          Inr (HashLen16 (word_of_nat len + push_bit 3 (ucast a)) (ucast b))))
      else if len > 0 then
        rbind (Fetch8 buf s) (\<lambda>a.
        rbind (Fetch8 buf (s + int (len div 2))) (\<lambda>b.
        rbind (Fetch8 buf (s + int len - 1)) (\<lambda>c.
          let y = (ucast a :: u32) + push_bit 8 (ucast b);
              z = (word_of_nat len :: u32) + push_bit 2 (ucast c)
          in Inr (ShiftMix (ucast y * k2 XOR ucast z * k3) * k2))))
      else Inr k2)"

definition HashLen17to32 :: "u8 list \<Rightarrow> int \<Rightarrow> nat \<Rightarrow> u64 res" where
  "HashLen17to32 buf s len =
     rbind (Fetch64 buf s) (\<lambda>a. let a = a * k1 in
     rbind (Fetch64 buf (s + 8)) (\<lambda>b.
     rbind (Fetch64 buf (s + int len - 8)) (\<lambda>c. let c = c * k2 in
     rbind (Fetch64 buf (s + int len - 16)) (\<lambda>d. let d = d * k0 in
       Inr (HashLen16 (Rotate (a - b) 43 + Rotate c 30 + d) (a + Rotate (b XOR k3) 20 - c + word_of_nat len))))))"

definition WeakHashLen32WithSeeds6 :: "u64 \<Rightarrow> u64 \<Rightarrow> u64 \<Rightarrow> u64 \<Rightarrow> u64 \<Rightarrow> u64 \<Rightarrow> uint128" where
  "WeakHashLen32WithSeeds6 w x y z a b =
     (let a = a + w; b = Rotate (b + a + z) 21; c = a; a = a + x; a = a + y; b = b + Rotate a 44
      in (a + z, b + c))"

definition WeakHashLen32WithSeeds :: "u8 list \<Rightarrow> int \<Rightarrow> u64 \<Rightarrow> u64 \<Rightarrow> uint128 res" where
  "WeakHashLen32WithSeeds buf s a b =
     rbind (Fetch64 buf s) (\<lambda>w. rbind (Fetch64 buf (s + 8)) (\<lambda>x.
     rbind (Fetch64 buf (s + 16)) (\<lambda>y. rbind (Fetch64 buf (s + 24)) (\<lambda>z.
       Inr (WeakHashLen32WithSeeds6 w x y z a b)))))"

definition HashLen33to64 :: "u8 list \<Rightarrow> int \<Rightarrow> nat \<Rightarrow> u64 res" where
  "HashLen33to64 buf s len =
     rbind (Fetch64 buf (s + 24)) (\<lambda>z.
     rbind (Fetch64 buf s) (\<lambda>f0.
     rbind (Fetch64 buf (s + int len - 16)) (\<lambda>fl16.
     rbind (Fetch64 buf (s + 8)) (\<lambda>f8.
     rbind (Fetch64 buf (s + 16)) (\<lambda>f16.
     rbind (Fetch64 buf (s + int len - 32)) (\<lambda>fl32.
     rbind (Fetch64 buf (s + int len - 8)) (\<lambda>fl8.
     rbind (Fetch64 buf (s + int len - 24)) (\<lambda>fl24.
       let a = f0 + (word_of_nat len + fl16) * k0;
           b = Rotate (a + z) 52; c = Rotate a 37;
           a = a + f8; c = c + Rotate a 7; a = a + f16;
           vf = a + z; vs = b + Rotate a 31 + c;
           a = f16 + fl32; z = fl8;
           b = Rotate (a + z) 52; c = Rotate a 37;
           a = a + fl24; c = c + Rotate a 7; a = a + fl16;
           wf = a + z; ws = b + Rotate a 31 + c;
           r = ShiftMix ((vf + ws) * k2 + (wf + vs) * k0)
       in Inr (ShiftMix (r * k0 + vs) * k2)))))))))"

section \<open>Long inputs\<close>

text \<open>The 56 bytes of state \<open>v, w, x, y, z\<close>, and one pass over a chunk of 64 bytes.\<close>

record city_state =
  cs_v :: uint128
  cs_w :: uint128
  cs_x :: u64
  cs_y :: u64
  cs_z :: u64

definition city_chunk :: "u8 list \<Rightarrow> int \<Rightarrow> city_state \<Rightarrow> city_state res" where
  "city_chunk buf s st =
     rbind (Fetch64 buf (s + 8)) (\<lambda>f8.
     rbind (Fetch64 buf (s + 48)) (\<lambda>f48.
     rbind (Fetch64 buf (s + 40)) (\<lambda>f40.
     rbind (Fetch64 buf (s + 16)) (\<lambda>f16.
       let v = cs_v st; w = cs_w st;
           x = Rotate (cs_x st + cs_y st + fst v + f8) 37 * k1;
           y = Rotate (cs_y st + snd v + f48) 42 * k1;
           x = x XOR snd w;
           y = y + (fst v + f40);
           z = Rotate (cs_z st + fst w) 33 * k1
       in rbind (WeakHashLen32WithSeeds buf s (snd v * k1) (x + fst w)) (\<lambda>v'.
          rbind (WeakHashLen32WithSeeds buf (s + 32) (z + snd w) (y + f16)) (\<lambda>w'.
            Inr \<lparr>cs_v = v', cs_w = w', cs_x = z, cs_y = y, cs_z = x\<rparr>))))))"

text \<open>The loop of \<open>CityHash64\<close>; \<open>len\<close> is a positive multiple of 64.\<close>

function city64_loop :: "u8 list \<Rightarrow> int \<Rightarrow> nat \<Rightarrow> city_state \<Rightarrow> city_state res" where
  "city64_loop buf s len st =
     rbind (city_chunk buf s st) (\<lambda>st'. if len - 64 \<noteq> 0 then city64_loop buf (s + 64) (len - 64) st' else Inr st')"
  by auto
termination by (relation "measure (\<lambda>(_, _, len, _). len)") auto

declare city64_loop.simps [simp del]

definition CityHash64 :: "u8 list \<Rightarrow> u64 res" where
  "CityHash64 buf =
     (let len = length buf; at = (\<lambda>k. int len - k) in
      if len \<le> 32 then (if len \<le> 16 then HashLen0to16 buf 0 len else HashLen17to32 buf 0 len)
      else if len \<le> 64 then HashLen33to64 buf 0 len
      else
        rbind (Fetch64 buf (at 40)) (\<lambda>x.
        rbind (Fetch64 buf (at 16)) (\<lambda>l16.
        rbind (Fetch64 buf (at 56)) (\<lambda>l56.
        rbind (Fetch64 buf (at 48)) (\<lambda>l48.
        rbind (Fetch64 buf (at 24)) (\<lambda>l24.
          let y = l16 + l56; z = HashLen16 (l48 + word_of_nat len) l24 in
          rbind (WeakHashLen32WithSeeds buf (at 64) (word_of_nat len) z) (\<lambda>v.
          rbind (WeakHashLen32WithSeeds buf (at 32) (y + k1) x) (\<lambda>w.
          rbind (Fetch64 buf 0) (\<lambda>f0.
          rbind (city64_loop buf 0 ((len - 1) div 64 * 64) \<lparr>cs_v = v, cs_w = w, cs_x = x * k1 + f0, cs_y = y, cs_z = z\<rparr>) (\<lambda>st.
            Inr (HashLen16 (HashLen16 (fst (cs_v st)) (fst (cs_w st)) + ShiftMix (cs_y st) * k1 + cs_z st)
                           (HashLen16 (snd (cs_v st)) (snd (cs_w st)) + cs_x st))))))))))))"

definition CityHash64WithSeeds :: "u8 list \<Rightarrow> u64 \<Rightarrow> u64 \<Rightarrow> u64 res" where
  "CityHash64WithSeeds buf seed0 seed1 = rbind (CityHash64 buf) (\<lambda>h. Inr (HashLen16 (h - seed0) seed1))"

definition CityHash64WithSeed :: "u8 list \<Rightarrow> u64 \<Rightarrow> u64 res" where
  "CityHash64WithSeed buf seed = CityHash64WithSeeds buf k2 seed"

section \<open>128 bits\<close>

text \<open>The loop of \<open>CityMurmur\<close> over 16 bytes at a time; \<open>l\<close> is signed.\<close>

function murmur_loop :: "u8 list \<Rightarrow> int \<Rightarrow> int \<Rightarrow> u64 \<times> u64 \<times> u64 \<times> u64 \<Rightarrow> (u64 \<times> u64 \<times> u64 \<times> u64) res" where
  "murmur_loop buf s l (a, b, c, d) =
     rbind (Fetch64 buf s) (\<lambda>f0.
     rbind (Fetch64 buf (s + 8)) (\<lambda>f8.
       let a = (a XOR ShiftMix (f0 * k1) * k1) * k1; b = b XOR a;
           c = (c XOR ShiftMix (f8 * k1) * k1) * k1; d = d XOR c
       in if l - 16 > 0 then murmur_loop buf (s + 16) (l - 16) (a, b, c, d) else Inr (a, b, c, d)))"
  by pat_completeness auto
termination by (relation "measure (\<lambda>(_, _, l, _). nat l)") auto

declare murmur_loop.simps [simp del]

definition CityMurmur :: "u8 list \<Rightarrow> int \<Rightarrow> nat \<Rightarrow> uint128 \<Rightarrow> uint128 res" where
  "CityMurmur buf s len seed =
     (let a = fst seed; b = snd seed; l = int len - 16 in
      rbind (if l \<le> 0 then
               let a = ShiftMix (a * k1) * k1 in
               rbind (HashLen0to16 buf s len) (\<lambda>h.
                 let c = b * k1 + h in
                 rbind (if len \<ge> 8 then Fetch64 buf s else Inr c) (\<lambda>f. Inr (a, b, c, ShiftMix (a + f))))
             else
               rbind (Fetch64 buf (s + int len - 8)) (\<lambda>l8.
                 let c = HashLen16 (l8 + k1) a in
                 rbind (Fetch64 buf (s + int len - 16)) (\<lambda>l16.
                   let d = HashLen16 (b + word_of_nat len) (c + l16)
                   in murmur_loop buf s l (a + d, b, c, d)))) (\<lambda>(a, b, c, d).
        let a = HashLen16 a c; b = HashLen16 d b in Inr (a XOR b, HashLen16 b a)))"

text \<open>The loop over 128 bytes, unrolled twice; the result has the offset and the length that are left.\<close>

function city128_loop :: "u8 list \<Rightarrow> int \<Rightarrow> nat \<Rightarrow> city_state \<Rightarrow> (int \<times> nat \<times> city_state) res" where
  "city128_loop buf s len st =
     rbind (city_chunk buf s st) (\<lambda>st1.
     rbind (city_chunk buf (s + 64) st1) (\<lambda>st2.
       if len - 128 \<ge> 128 then city128_loop buf (s + 128) (len - 128) st2 else Inr (s + 128, len - 128, st2)))"
  by auto
termination by (relation "measure (\<lambda>(_, _, len, _). len)") auto

declare city128_loop.simps [simp del]

text \<open>The rest in chunks of 32 bytes from its end; the last one may begin before it.\<close>

function city128_tail :: "u8 list \<Rightarrow> int \<Rightarrow> nat \<Rightarrow> nat \<Rightarrow> city_state \<Rightarrow> city_state res" where
  "city128_tail buf s len tail_done st =
     (if tail_done < len then
        let p = s + int len - int (tail_done + 32); v = cs_v st; w = cs_w st in
        rbind (Fetch64 buf (p + 16)) (\<lambda>f16.
        rbind (Fetch64 buf p) (\<lambda>f0.
          let y = Rotate (cs_x st + cs_y st) 42 * k0 + snd v;
              w1 = fst w + f16; x = cs_x st * k0 + w1;
              z = cs_z st + (snd w + f0); w2 = snd w + fst v
          in rbind (WeakHashLen32WithSeeds buf p (fst v + z) (snd v)) (\<lambda>v'.
               city128_tail buf s len (tail_done + 32) \<lparr>cs_v = v', cs_w = (w1, w2), cs_x = x, cs_y = y, cs_z = z\<rparr>)))
      else Inr st)"
  by auto
termination by (relation "measure (\<lambda>(_, _, len, td, _). len - td)") auto

declare city128_tail.simps [simp del]

definition CityHash128WithSeed :: "u8 list \<Rightarrow> int \<Rightarrow> nat \<Rightarrow> uint128 \<Rightarrow> uint128 res" where
  "CityHash128WithSeed buf s len seed =
     (if len < 128 then CityMurmur buf s len seed
      else
        let x = fst seed; y = snd seed; z = word_of_nat len * k1 in
        rbind (Fetch64 buf s) (\<lambda>f0.
        rbind (Fetch64 buf (s + 8)) (\<lambda>f8.
        rbind (Fetch64 buf (s + 88)) (\<lambda>f88.
          let v1 = Rotate (y XOR k1) 49 * k1 + f0; v2 = Rotate v1 42 * k1 + f8;
              w1 = Rotate (y + z) 35 * k1 + x; w2 = Rotate (x + f88) 53 * k1
          in rbind (city128_loop buf s len \<lparr>cs_v = (v1, v2), cs_w = (w1, w2), cs_x = x, cs_y = y, cs_z = z\<rparr>) (\<lambda>(s', len', st).
               let x = cs_x st + Rotate (fst (cs_v st) + cs_z st) 49 * k0;
                   z = cs_z st + Rotate (fst (cs_w st)) 37 * k0
               in rbind (city128_tail buf s' len' 0 (st\<lparr>cs_x := x, cs_z := z\<rparr>)) (\<lambda>st.
                    let v = cs_v st; w = cs_w st;
                        x = HashLen16 (cs_x st) (fst v); y = HashLen16 (cs_y st + cs_z st) (fst w)
                    in Inr (HashLen16 (x + snd v) (snd w) + y, HashLen16 (x + snd w) (y + snd v))))))))"

text \<open>The middle case hashes no more bytes than its two reads; the null pointer of the code is never read.\<close>

definition CityHash128 :: "u8 list \<Rightarrow> uint128 res" where
  "CityHash128 buf =
     (let len = length buf in
      if len \<ge> 16 then
        rbind (Fetch64 buf 0) (\<lambda>f0. rbind (Fetch64 buf 8) (\<lambda>f8.
          CityHash128WithSeed buf 16 (len - 16) (f0 XOR k3, f8)))
      else if len \<ge> 8 then
        rbind (Fetch64 buf 0) (\<lambda>f0. rbind (Fetch64 buf (int len - 8)) (\<lambda>fl.
          CityHash128WithSeed [] 0 0 (f0 XOR word_of_nat len * k0, fl XOR k1)))
      else CityHash128WithSeed buf 0 len (k0, k1))"

section \<open>All reads are inside the input\<close>

definition res_ok :: "'a res \<Rightarrow> bool" where
  "res_ok r \<longleftrightarrow> (\<exists>x. r = Inr x)"

named_theorems city_ok

lemma ok_Inr [city_ok]: "res_ok (Inr x)"
  by (simp add: res_ok_def)

lemma ok_rbind [city_ok]: "res_ok m \<Longrightarrow> (\<And>x. res_ok (f x)) \<Longrightarrow> res_ok (rbind m f)"
  by (auto simp: res_ok_def)

lemma ok_rbind_post: "m = Inr x \<Longrightarrow> res_ok (f x) \<Longrightarrow> res_ok (rbind m f)"
  by simp

lemma ok_Fetch [city_ok]:
  "0 \<le> p \<Longrightarrow> p + 8 \<le> int (length s) \<Longrightarrow> res_ok (Fetch64 s p)"
  "0 \<le> p \<Longrightarrow> p + 4 \<le> int (length s) \<Longrightarrow> res_ok (Fetch32 s p)"
  "0 \<le> p \<Longrightarrow> p < int (length s) \<Longrightarrow> res_ok (Fetch8 s p)"
  by (simp_all add: res_ok_def Fetch64_def Fetch32_def Fetch8_def)

lemma ok_WeakHash [city_ok]: "0 \<le> s \<Longrightarrow> s + 32 \<le> int (length buf) \<Longrightarrow> res_ok (WeakHashLen32WithSeeds buf s a b)"
  unfolding WeakHashLen32WithSeeds_def by (intro city_ok) simp_all

lemma ok_HashLen0to16 [city_ok]: "0 \<le> s \<Longrightarrow> s + int len \<le> int (length buf) \<Longrightarrow> res_ok (HashLen0to16 buf s len)"
  unfolding HashLen0to16_def Let_def by (auto intro!: city_ok)

lemma ok_HashLen17to32 [city_ok]: "0 \<le> s \<Longrightarrow> 16 \<le> len \<Longrightarrow> s + int len \<le> int (length buf) \<Longrightarrow> res_ok (HashLen17to32 buf s len)"
  unfolding HashLen17to32_def Let_def by (intro city_ok) simp_all

lemma ok_HashLen33to64 [city_ok]: "0 \<le> s \<Longrightarrow> 32 \<le> len \<Longrightarrow> s + int len \<le> int (length buf) \<Longrightarrow> res_ok (HashLen33to64 buf s len)"
  unfolding HashLen33to64_def Let_def by (intro city_ok) simp_all

lemma ok_chunk [city_ok]: "0 \<le> s \<Longrightarrow> s + 64 \<le> int (length buf) \<Longrightarrow> res_ok (city_chunk buf s st)"
  unfolding city_chunk_def Let_def by (intro city_ok) simp_all

lemma ok_city64_loop: "0 \<le> s \<Longrightarrow> 64 \<le> len \<Longrightarrow> 64 dvd len \<Longrightarrow> s + int len \<le> int (length buf) \<Longrightarrow> res_ok (city64_loop buf s len st)"
proof (induction buf s len st rule: city64_loop.induct)
  case (1 buf s len st)
  have c: "res_ok (city_chunk buf s st)" using 1(2,3,5) by (intro city_ok) simp_all
  have rest: "res_ok (city64_loop buf (s + 64) (len - 64) st')" if "len - 64 \<noteq> 0" for st'
  proof (rule 1(1)[OF that])
    show "64 dvd len - 64" using 1(4) by (simp add: dvd_diff_nat)
    then show "64 \<le> len - 64" using that by (simp add: dvd_imp_le)
  qed (use 1(2,3,5) in auto)
  show ?case unfolding city64_loop.simps[of buf s len st] using rest by (intro ok_rbind[OF c]) (auto intro: ok_Inr)
qed

lemma ok_CityHash64: "res_ok (CityHash64 buf)"
proof -
  let ?n = "(length buf - Suc 0) div 64 * 64"
  have loop: "res_ok (city64_loop buf 0 ?n st)" if "64 < length buf" for st
    using that by (intro ok_city64_loop) auto
  show ?thesis unfolding CityHash64_def Let_def
    by (auto intro!: ok_rbind ok_Inr ok_Fetch ok_WeakHash ok_HashLen0to16 ok_HashLen17to32 ok_HashLen33to64 loop)
qed

lemma ok_murmur_loop: "0 \<le> s \<Longrightarrow> 0 < l \<Longrightarrow> s + l + 16 \<le> int (length buf) \<Longrightarrow> res_ok (murmur_loop buf s l st)"
proof (induction buf s l st rule: murmur_loop.induct)
  case (1 buf s l a b c d)
  show ?case unfolding murmur_loop.simps[of buf s l a] Let_def
    by (intro ok_rbind ok_Fetch) (use 1 in \<open>auto intro: ok_Inr\<close>)
qed

lemma ok_CityMurmur: "0 \<le> s \<Longrightarrow> s + int len \<le> int (length buf) \<Longrightarrow> res_ok (CityMurmur buf s len seed)"
  unfolding CityMurmur_def Let_def
  by (intro ok_rbind) (auto simp: split_def intro!: ok_rbind ok_Inr ok_Fetch ok_HashLen0to16 ok_murmur_loop)

lemma city128_loop_ok:
  "0 \<le> s \<Longrightarrow> 128 \<le> len \<Longrightarrow> s + int len \<le> int (length buf) \<Longrightarrow>
   \<exists>s' len' st'. city128_loop buf s len st = Inr (s', len', st') \<and> s' + int len' = s + int len \<and> len' < 128 \<and> s + 128 \<le> s'"
proof (induction buf s len st rule: city128_loop.induct)
  case (1 buf s len st)
  obtain st1 where 1: "city_chunk buf s st = Inr st1" using ok_chunk[of s buf st] 1 by (auto simp: res_ok_def)
  obtain st2 where 2: "city_chunk buf (s + 64) st1 = Inr st2" using ok_chunk[of "s + 64" buf st1] "1.prems" by (auto simp: res_ok_def)
  show ?case
  proof (cases "len - 128 \<ge> 128")
    case True
    from "1.IH"[OF True, of st2] "1.prems" True obtain s' len' st' where
      "city128_loop buf (s + 128) (len - 128) st2 = Inr (s', len', st')" "s' + int len' = s + 128 + int (len - 128)" "len' < 128" "s + 128 + 128 \<le> s'"
      by auto
    then show ?thesis using True 1 2 "1.prems" by (subst city128_loop.simps) simp
  next
    case False
    then show ?thesis using 1 2 "1.prems" by (subst city128_loop.simps) simp
  qed
qed

lemma ok_city128_tail: "31 \<le> s \<Longrightarrow> s + int len \<le> int (length buf) \<Longrightarrow> res_ok (city128_tail buf s len td st)"
proof (induction "len - td" arbitrary: td st rule: less_induct)
  case less
  show ?case
  proof (cases "td < len")
    case True
    then have "res_ok (city128_tail buf s len (td + 32) st')" for st' using less by simp
    then show ?thesis using True less.prems unfolding city128_tail.simps[of buf s len td st] Let_def
      by (auto intro!: ok_rbind ok_Fetch ok_WeakHash)
  next
    case False
    then show ?thesis by (subst city128_tail.simps) (simp add: ok_Inr)
  qed
qed

lemma ok_CityHash128WithSeed: "0 \<le> s \<Longrightarrow> s + int len \<le> int (length buf) \<Longrightarrow> res_ok (CityHash128WithSeed buf s len seed)"
proof (cases "len < 128")
  case False
  assume a: "0 \<le> s" "s + int len \<le> int (length buf)"
  have loop: "res_ok (rbind (city128_loop buf s len st) f)" if "\<And>s' len' st'. 128 \<le> s' \<Longrightarrow> s' + int len' \<le> int (length buf) \<Longrightarrow> res_ok (f (s', len', st'))"
    for st and f :: "int \<times> nat \<times> city_state \<Rightarrow> uint128 res"
    using city128_loop_ok[OF a(1) _ a(2), of st] False a that by fastforce
  show ?thesis using False a unfolding CityHash128WithSeed_def Let_def
    by (auto intro!: ok_rbind[OF ok_Fetch(1)] loop ok_rbind[OF ok_city128_tail] ok_Inr)
qed (simp add: CityHash128WithSeed_def ok_CityMurmur)

lemma ok_CityHash128: "res_ok (CityHash128 buf)"
  unfolding CityHash128_def Let_def
  by (auto intro!: ok_rbind ok_Fetch ok_CityHash128WithSeed)

section \<open>Virtual node ids\<close>

definition city_hash :: "u8 list \<Rightarrow> u64 \<times> u64" where
  "city_hash buf = projr (CityHash128 buf)"

lemma push_1_minus_1: "push_bit n 1 - 1 = (mask n :: u64)"
  by (simp add: mask_eq_exp_minus_1 push_bit_of_1)

lemma bit_below: "unat (r :: u32) < 2 ^ n \<Longrightarrow> bit r k \<Longrightarrow> k < n"
proof -
  assume "unat r < 2 ^ n" and b: "bit r k"
  then have "take_bit n r = r" by (simp add: word_unat_eq_iff unat_take_bit)
  then show "k < n" using b by (metis bit_take_bit_iff)
qed

lemma ring_bits:
  fixes w :: u64
  assumes "0 < lrn" and "lrn \<le> 32" and "unat r < 2 ^ lrn"
  shows "ucast (drop_bit (64 - lrn) ((w AND mask (64 - lrn)) OR push_bit (64 - lrn) (ucast r))) = (r :: u32)"
proof (rule bit_word_eqI)
  fix k assume "k < LENGTH(32)"
  then show "bit (ucast (drop_bit (64 - lrn) ((w AND mask (64 - lrn)) OR push_bit (64 - lrn) (ucast r))) :: u32) k = bit r k"
    using assms(1,2) bit_below[OF assms(3), of k] by (auto simp: bit_simps)
qed

lemma ring_bits_masked:
  fixes w :: u64
  assumes "lrn \<le> lbn" and "lbn \<le> 64"
  shows "drop_bit (64 - lrn) (w OR mask (64 - lbn)) = drop_bit (64 - lrn) w"
  by (rule bit_word_eqI) (use assms in \<open>auto simp: bit_simps\<close>)

lemma vid_set [simp]: "get_vid_64 (set_vid_64 v w) = w" "length v = 20 \<Longrightarrow> length (set_vid_64 v w) = 20"
  by (simp_all add: get_vid_64_def set_vid_64_def)

section \<open>Properties\<close>

text \<open>
  C27. CityHash never reads outside the bytes it hashes, and its loops end: for every input,
  also one shorter than a word, both hashes return a value. (The last reads of a long input
  reach back before the part that is left, but not before the input.)
\<close>

theorem city_hash_in_bounds: "(\<exists>h. CityHash64 buf = Inr h) \<and> (\<exists>h. CityHash128 buf = Inr h)"
  using ok_CityHash64[of buf] ok_CityHash128[of buf] by (simp add: res_ok_def)

text \<open>
  The id of a virtual node names its ring: the id hashed from an address that fits its
  fields has 20 bytes, and after the number of the ring is written into it, the ring of the
  id is that ring, also when the bits below the bucket number are masked, as the check on
  the arrival of a ring change demands.
\<close>

theorem vid_names_its_ring:
  assumes "length ip < 16" and "length port < 8" and "0 < lrn" and "lrn \<le> 32" and "unat r < 2 ^ lrn" and "lrn \<le> lbn" and "lbn \<le> 64"
  shows "\<exists>v. hash_vid city_hash ip port index = Inr v \<and> length (set_ring_id v lrn r) = KV_VID_LEN \<and>
    get_ring_id (set_ring_id v lrn r) lrn = r \<and> get_ring_id (mask_vnode_id (set_ring_id v lrn r) lbn) lrn = r"
proof -
  let ?buf = "ip @ replicate (16 - length ip) 0 @ port @ replicate (8 - length port) 0 @ store_u64 (ucast index)"
  obtain lo hi where "city_hash ?buf = (lo, hi)" by (cases "city_hash ?buf")
  then have v: "hash_vid city_hash ip port index = Inr (store_u64 lo @ store_u64 hi @ replicate 4 0)"
    using assms(1,2) by (simp add: hash_vid_def vid_src_buf_def)
  let ?v = "store_u64 lo @ store_u64 hi @ replicate 4 0 :: u8 list"
  have len: "length ?v = 20" by simp
  have "get_ring_id (set_ring_id ?v lrn r) lrn = r" "get_ring_id (mask_vnode_id (set_ring_id ?v lrn r) lbn) lrn = r"
    using assms(3)
    unfolding get_ring_id_def set_ring_id_def mask_vnode_id_def push_1_minus_1 Let_def
    by (simp_all only: vid_set(1) ring_bits[OF assms(3-5)] ring_bits_masked[OF assms(6,7)] if_False less_imp_neq[THEN not_sym])
  then show ?thesis using v len assms(3) by (auto simp: set_ring_id_def KV_VID_LEN_def Let_def)
qed

theorem vid_names_its_ring_witness:
  "\<exists>v. hash_vid city_hash [49, 48] [57] 3 = Inr v \<and> get_ring_id (mask_vnode_id (set_ring_id v 4 9) 20) 4 = 9"
  using vid_names_its_ring[of "[49, 48]" "[57]" 4 9 20 3] by auto

end
