(* ===== verification/Copy_Ranges.thy ===== *)
theory Copy_Ranges
  imports Kv_Copy
begin

unbundle bit_operations_syntax

text \<open>
  The copy of key ranges over its whole life. The producer locks the buckets of a range one
  after the other; a write that arrives meanwhile has to be forwarded to the new replica
  exactly if its bucket has been locked for the copy before. The trace of the events of a
  run tells which buckets have been locked.
\<close>

section \<open>Progress of a range\<close>

definition locks :: "nat \<Rightarrow> 'c copy_event list \<Rightarrow> u64 list" where
  "locks r tr = concat (map (\<lambda>e. case e of Cp_lock i b \<Rightarrow> if i = r then [b] else [] | _ \<Rightarrow> []) tr)"

lemma locks_simps [simp]: "locks r [] = []" "locks r (xs @ ys) = locks r xs @ locks r ys"
  "locks r (Cp_lock i b # xs) = (if i = r then b # locks r xs else locks r xs)"
  "locks r (Cp_unlock s # xs) = locks r xs" "locks r (Cp_read i k x # xs) = locks r xs" "locks r (Cp_done c # xs) = locks r xs"
  by (simp_all add: locks_def)

text \<open>Clockwise distances on the circle of bucket ids.\<close>

definition id_dist :: "nat \<Rightarrow> u64 \<Rightarrow> u64 \<Rightarrow> nat" where
  "id_dist log_bn a b = (unat b + 2 ^ log_bn - unat a) mod 2 ^ log_bn"

definition id_at :: "nat \<Rightarrow> u64 \<Rightarrow> nat \<Rightarrow> u64" where
  "id_at log_bn a j = word_of_nat ((unat a + j) mod 2 ^ log_bn)"

definition range_inv :: "nat \<Rightarrow> 'c key_range \<Rightarrow> u64 list \<Rightarrow> bool" where
  "range_inv log_bn kr ls \<longleftrightarrow>
     unat (kr_start kr) < 2 ^ log_bn \<and> unat (kr_end kr) < 2 ^ log_bn \<and> unat (kr_to_copy kr) < 2 ^ log_bn \<and>
     id_dist log_bn (kr_start kr) (kr_to_copy kr) \<le> id_dist log_bn (kr_start kr) (kr_end kr) \<and>
     (kr_cb kr = None \<longrightarrow> kr_to_copy kr = kr_end kr) \<and>
     ls = map (id_at log_bn (kr_start kr)) [0..<id_dist log_bn (kr_start kr) (kr_to_copy kr)]"

lemma id_dist_less: "id_dist n a b < 2 ^ n"
  by (simp add: id_dist_def)

lemma id_at_dist: "unat a < 2 ^ n \<Longrightarrow> unat b < 2 ^ n \<Longrightarrow> n < 64 \<Longrightarrow> id_at n a (id_dist n a b) = b"
  using mod_add_right_eq[of "unat a" "unat b + 2 ^ n - unat a" "2 ^ n"]
  by (simp add: id_at_def id_dist_def)

lemma id_dist_inj: "unat a < 2 ^ n \<Longrightarrow> unat b < 2 ^ n \<Longrightarrow> unat c < 2 ^ n \<Longrightarrow> n < 64 \<Longrightarrow> id_dist n a b = id_dist n a c \<Longrightarrow> b = c"
  by (metis id_at_dist)

lemma unat_id_at: "n < 64 \<Longrightarrow> unat (id_at n a j) = (unat a + j) mod 2 ^ n"
proof -
  assume "n < 64"
  then have "(2 :: nat) ^ n < 2 ^ 64" by (rule power_strict_increasing) simp
  moreover have "(unat a + j) mod 2 ^ n < 2 ^ n" by simp
  ultimately have "(unat a + j) mod 2 ^ n < 2 ^ 64" by (rule less_trans[rotated])
  then show ?thesis by (simp add: id_at_def unat_of_nat_u64)
qed

lemma id_dist_at: "n < 64 \<Longrightarrow> unat a < 2 ^ n \<Longrightarrow> j < 2 ^ n \<Longrightarrow> id_dist n a (id_at n a j) = j"
proof -
  assume n: "n < 64" and a: "unat a < 2 ^ n" and j: "j < 2 ^ n"
  show ?thesis
  proof (cases "unat a + j < 2 ^ n")
    case True
    then show ?thesis using n j by (simp add: id_dist_def unat_id_at)
  next
    case False
    then have "(unat a + j) mod 2 ^ n = unat a + j - 2 ^ n" using a j by (simp add: mod_if)
    then show ?thesis using n a j False by (simp add: id_dist_def unat_id_at)
  qed
qed

lemma unat_id_space: "n < 64 \<Longrightarrow> unat (id_space_size n) = 2 ^ n"
  using unat_of_nat_u64[of "2 ^ n"] power_strict_increasing[of n 64 "2::nat"]
  by (simp add: id_space_size_def push_bit_of_1)

lemma next_id:
  assumes "n < 64" and "unat a < 2 ^ n"
  shows "unat ((a + 1) mod id_space_size n) = (unat a + 1) mod 2 ^ n"
proof -
  have "(2 :: nat) ^ n \<le> 2 ^ 63" using assms(1) by (intro power_increasing) simp_all
  then have "unat (a + 1) = unat a + 1" using assms(2) by (simp add: unat_word_ariths)
  then show ?thesis by (simp add: unat_mod unat_id_space[OF assms(1)])
qed

lemma id_dist_next:
  assumes "n < 64" and "unat s < 2 ^ n" and "unat a < 2 ^ n" and "Suc (id_dist n s a) < 2 ^ n"
  shows "id_dist n s ((a + 1) mod id_space_size n) = Suc (id_dist n s a)"
proof -
  have a: "a = id_at n s (id_dist n s a)" using id_at_dist[OF assms(2,3,1)] by simp
  have "unat ((a + 1) mod id_space_size n) = (unat s + Suc (id_dist n s a)) mod 2 ^ n"
    unfolding next_id[OF assms(1,3)] by (subst a) (simp add: unat_id_at[OF assms(1)] mod_Suc_eq)
  then have "(a + 1) mod id_space_size n = id_at n s (Suc (id_dist n s a))"
    by (simp add: word_unat_eq_iff unat_id_at[OF assms(1)])
  then show ?thesis using id_dist_at[OF assms(1,2,4)] by simp
qed


lemma id_space_diff:
  assumes n: "n < 64" and "unat a < 2 ^ n" and "unat b < 2 ^ n"
  shows "unat ((b + id_space_size n - a) mod id_space_size n) = id_dist n a b"
proof -
  have le: "(2 :: nat) ^ n \<le> 2 ^ 63" using n by (intro power_increasing) simp_all
  have sum: "unat (b + id_space_size n) = unat b + 2 ^ n"
    using assms le by (simp add: unat_word_ariths unat_id_space)
  then have "a \<le> b + id_space_size n" using assms by (simp add: word_le_nat_alt)
  then have "unat (b + id_space_size n - a) = unat b + 2 ^ n - unat a" using sum by (simp add: unat_sub)
  then show ?thesis by (simp add: unat_mod id_dist_def unat_id_space[OF n])
qed

lemma range_copied_iff:
  assumes n: "n < 64" and inv: "range_inv n kr ls" and b: "unat b < 2 ^ n"
  shows "range_copied n kr b \<longleftrightarrow> b \<in> set ls"
proof -
  let ?s = "kr_start kr" and ?d = "id_dist n (kr_start kr)"
  have lt: "unat ?s < 2 ^ n" "unat (kr_to_copy kr) < 2 ^ n" and ls: "ls = map (id_at n ?s) [0..<?d (kr_to_copy kr)]"
    using inv by (simp_all add: range_inv_def)
  have "range_copied n kr b \<longleftrightarrow> ?d b < ?d (kr_to_copy kr)"
    unfolding range_copied_def Let_def word_less_nat_alt id_space_diff[OF n lt(1) b] id_space_diff[OF n lt] ..
  also have "\<dots> \<longleftrightarrow> b \<in> set ls"
  proof
    assume "?d b < ?d (kr_to_copy kr)"
    then have "id_at n ?s (?d b) \<in> set ls" by (simp add: ls)
    then show "b \<in> set ls" by (simp add: id_at_dist lt b n)
  next
    assume "b \<in> set ls"
    then obtain j where j: "j < ?d (kr_to_copy kr)" "b = id_at n ?s j" by (auto simp: ls)
    then have "?d b = j" using id_dist_at[OF n lt(1)] id_dist_less[of n ?s "kr_to_copy kr"] by (meson less_trans)
    then show "?d b < ?d (kr_to_copy kr)" using j(1) by simp
  qed
  finally show ?thesis .
qed

lemma range_inv_distinct:
  assumes n: "n < 64" and inv: "range_inv n kr ls"
  shows "distinct ls"
proof -
  let ?s = "kr_start kr"
  have "id_dist n ?s (id_at n ?s j) = j" if "j < id_dist n ?s (kr_to_copy kr)" for j
    using id_dist_at[OF n _ less_trans[OF that id_dist_less]] inv by (simp add: range_inv_def)
  then have "inj_on (id_at n ?s) (set [0..<id_dist n ?s (kr_to_copy kr)])"
    by (intro inj_on_inverseI[where g = "id_dist n ?s"]) simp
  then show ?thesis using inv by (simp add: range_inv_def distinct_map)
qed

text \<open>Locking the next bucket of a range moves its mark one step on.\<close>

lemma range_inv_lock:
  assumes n: "n < 64" and inv: "range_inv n kr ls" and ne: "kr_to_copy kr \<noteq> kr_end kr"
  shows "range_inv n (kr\<lparr>kr_seg := sg, kr_copying := cp, kr_to_copy := (kr_to_copy kr + 1) mod id_space_size n\<rparr>)
    (ls @ [kr_to_copy kr])"
proof -
  let ?s = "kr_start kr" and ?t = "kr_to_copy kr" and ?d = "id_dist n (kr_start kr)"
  have lt: "unat ?s < 2 ^ n" "unat (kr_end kr) < 2 ^ n" "unat ?t < 2 ^ n" and le: "?d ?t \<le> ?d (kr_end kr)"
    and ls: "ls = map (id_at n ?s) [0..<?d ?t]" and cb: "kr_cb kr \<noteq> None"
    using inv ne by (auto simp: range_inv_def)
  have "?d ?t < ?d (kr_end kr)" using le id_dist_inj[OF lt(1) lt(3) lt(2) n] ne by (meson le_neq_implies_less)
  moreover have "?d ((?t + 1) mod id_space_size n) = Suc (?d ?t)"
    using calculation id_dist_less[of n ?s "kr_end kr"] by (intro id_dist_next[OF n lt(1,3)]) linarith
  moreover have "ls @ [?t] = map (id_at n ?s) [0..<Suc (?d ?t)]"
    by (simp add: ls id_at_dist[OF lt(1,3) n])
  moreover have "unat ((?t + 1) mod id_space_size n) < 2 ^ n" unfolding next_id[OF n lt(3)] by simp
  ultimately show ?thesis using lt cb by (auto simp: range_inv_def)
qed

text \<open>A fully locked range: the ids are those from its start to its end.\<close>

lemma range_ids_map:
  assumes n: "n < 64"
  shows "unat i < 2 ^ n \<Longrightarrow> unat e < 2 ^ n \<Longrightarrow> id_dist n i e < fuel \<Longrightarrow>
    range_ids fuel (id_space_size n) i e = Inr (map (id_at n i) [0..<id_dist n i e])"
proof (induction fuel arbitrary: i)
  case (Suc fuel)
  show ?case
  proof (cases "i = e")
    case True
    then show ?thesis by (simp add: id_dist_def)
  next
    case False
    let ?j = "(i + 1) mod id_space_size n"
    have pos: "0 < id_dist n i e" using False id_at_dist[OF Suc.prems(1,2) n] Suc.prems(1) n
      by (cases "id_dist n i e") (auto simp: id_at_def)
    have uj: "unat ?j = (unat i + 1) mod 2 ^ n" by (rule next_id[OF n Suc.prems(1)])
    have at: "id_at n ?j k = id_at n i (Suc k)" for k
      unfolding word_unat_eq_iff unat_id_at[OF n] uj by (simp add: mod_simps)
    have "id_at n ?j (id_dist n i e - 1) = e" using pos id_at_dist[OF Suc.prems(1,2) n] by (simp add: at)
    then have d: "id_dist n ?j e = id_dist n i e - 1"
      using id_dist_at[OF n, of ?j "id_dist n i e - 1"] uj id_dist_less[of n i e] by (simp add: less_imp_diff_less)
    have "range_ids fuel (id_space_size n) ?j e = Inr (map (id_at n ?j) [0..<id_dist n ?j e])"
    proof (rule Suc.IH)
      show "unat ?j < 2 ^ n" unfolding uj by simp
    qed (use Suc.prems d pos in simp_all)
    moreover have "[0..<id_dist n i e] = 0 # map Suc [0..<id_dist n i e - 1]"
      using pos by (simp add: map_Suc_upt upt_conv_Cons)
    ultimately show ?thesis using False Suc.prems(1)
      by (simp add: d at id_at_def[of n i 0] o_def)
  qed
qed simp


lemma range_inv_ids:
  assumes n: "n < 64" and inv: "range_inv n kr ls"
  shows "\<exists>rest. range_ids (Suc (2 ^ n)) (id_space_size n) (kr_start kr) (kr_end kr) = Inr (ls @ rest) \<and>
    (kr_cb kr = None \<longrightarrow> rest = [])"
proof (intro exI conjI impI)
  let ?d = "id_dist n (kr_start kr)" and ?f = "id_at n (kr_start kr)"
  have "range_ids (Suc (2 ^ n)) (id_space_size n) (kr_start kr) (kr_end kr) = Inr (map ?f [0..<?d (kr_end kr)])"
    using inv id_dist_less[of n "kr_start kr" "kr_end kr"] by (intro range_ids_map[OF n]) (simp_all add: range_inv_def)
  moreover have "[0..<?d (kr_end kr)] = [0..<?d (kr_to_copy kr)] @ [?d (kr_to_copy kr)..<?d (kr_end kr)]"
    using inv upt_add_eq_append[of 0 "?d (kr_to_copy kr)" "?d (kr_end kr) - ?d (kr_to_copy kr)"] by (simp add: range_inv_def)
  ultimately show "range_ids (Suc (2 ^ n)) (id_space_size n) (kr_start kr) (kr_end kr) =
      Inr (ls @ map ?f [?d (kr_to_copy kr)..<?d (kr_end kr)])"
    using inv by (simp add: range_inv_def)
  assume "kr_cb kr = None"
  then show "map ?f [?d (kr_to_copy kr)..<?d (kr_end kr)] = []" using inv by (simp add: range_inv_def)
qed

section \<open>Runs of the copy\<close>

definition copy_inv :: "nat \<Rightarrow> 'c copy_ctx \<Rightarrow> 'c copy_event list \<Rightarrow> bool" where
  "copy_inv n ctx tr \<longleftrightarrow>
     distinct (map fst (cp_ranges ctx)) \<and> (\<forall>r kr. get_range ctx r = Some kr \<longrightarrow> range_inv n kr (locks r tr))"

lemma get_set_range: "get_range (set_range r kr ctx) i =
    (if i = r \<and> get_range ctx i \<noteq> None then Some kr else get_range ctx i)"
proof -
  have "map_of (map (\<lambda>(i, x). if i = r then (i, kr) else (i, x)) xs) i =
    (if i = r \<and> map_of xs i \<noteq> None then Some kr else map_of xs i)" for xs
    by (induction xs) auto
  from this[of "cp_ranges ctx"] show ?thesis by (simp only: get_range_def set_range_def) simp
qed

lemma set_range_ids [simp]: "map fst (cp_ranges (set_range r kr ctx)) = map fst (cp_ranges ctx)"
  by (simp add: set_range_def split_def comp_def if_distrib cong: if_cong)

lemma copy_inv_set:
  assumes "copy_inv n ctx tr" and "range_inv n kr (locks r (tr @ evs))" and "\<And>i. i \<noteq> r \<Longrightarrow> locks i evs = []"
  shows "copy_inv n (set_range r kr ctx) (tr @ evs)"
  unfolding copy_inv_def
proof (intro conjI allI impI)
  fix i x
  assume g: "get_range (set_range r kr ctx) i = Some x"
  show "range_inv n x (locks i (tr @ evs))"
    by (cases "i = r") (use g assms in \<open>auto simp: copy_inv_def get_set_range split: if_splits\<close>)
qed (use assms(1) in \<open>simp add: copy_inv_def\<close>)

lemma copy_inv_frame:
  assumes "copy_inv n ctx tr" and "cp_ranges ctx' = cp_ranges ctx" and "\<And>i. locks i evs = []"
  shows "copy_inv n ctx' (tr @ evs)"
  using assms by (simp add: copy_inv_def get_range_def)

lemma on_seg_copy_done_inv:
  assumes "copy_inv n ctx tr" and "on_seg_copy_done r ctx = Inr (ctx', evs)"
  shows "copy_inv n ctx' (tr @ evs)"
proof -
  obtain kr where kr: "get_range ctx r = Some kr" using assms(2) by (auto simp: on_seg_copy_done_def split: option.splits)
  then have "range_inv n kr (locks r tr)" using assms(1) by (simp add: copy_inv_def)
  then show ?thesis using assms(2) kr
    by (auto simp: on_seg_copy_done_def Let_def range_inv_def intro!: copy_inv_set[OF assms(1)] split: if_splits)
qed

lemma consume_frame: "consume vl vbuf buf q ctx = Inr (ctx', evs) \<Longrightarrow> cp_ranges ctx' = cp_ranges ctx \<and> (\<forall>i. locks i evs = [])"
  by (induction q arbitrary: ctx ctx' evs)
    (fastforce simp: rbind_eq_Inr_iff Let_def split: if_splits)+

lemma produce_one_inv:
  assumes n: "n < 64" and inv: "copy_inv n ctx tr" and p: "produce_one n r ctx = Inr (ctx', evs)"
  shows "copy_inv n ctx' (tr @ evs)"
proof -
  obtain kr where kr: "get_range ctx r = Some kr" using p by (auto simp: produce_one_def split: option.splits)
  then have ri: "range_inv n kr (locks r tr)" using inv by (simp add: copy_inv_def)
  show ?thesis using p kr inv
    by (auto simp: produce_one_def rbind_eq_Inr_iff intro!: copy_inv_set[OF inv] range_inv_lock[OF n ri] split: if_splits)
qed

lemma produce_inv:
  assumes n: "n < 64"
  shows "copy_inv n ctx tr \<Longrightarrow> produce fuel n start ctx = Inr (ctx', evs) \<Longrightarrow> copy_inv n ctx' (tr @ evs)"
proof (induction fuel arbitrary: ctx tr evs)
  case (Suc fuel)
  obtain r ctx1 e1 where r: "cp_next_range ctx = Some r" and p: "produce_one n r ctx = Inr (ctx1, e1)"
    using Suc.prems(2) by (auto simp: rbind_eq_Inr_iff split: option.splits)
  let ?c2 = "ctx1\<lparr>cp_next_range := Some (loop_next ctx1 r)\<rparr>"
  have i2: "copy_inv n ?c2 (tr @ e1)"
    using copy_inv_frame[OF produce_one_inv[OF n Suc.prems(1) p], of ?c2 "[]"] by simp
  show ?case
  proof (cases "loop_next ctx1 r = start")
    case True
    then show ?thesis using Suc.prems(2) r p i2 by (auto simp: Let_def)
  next
    case False
    then obtain e2 where "produce fuel n start ?c2 = Inr (ctx', e2)" "evs = e1 @ e2"
      using Suc.prems(2) r p by (auto simp: Let_def rbind_eq_Inr_iff)
    then show ?thesis using Suc.IH[OF i2] by simp
  qed
qed simp

lemma copy_scheduler_inv:
  assumes n: "n < 64" and inv: "copy_inv n ctx tr" and s: "copy_scheduler vl vbuf buf n ctx = Inr (ctx', evs)"
  shows "copy_inv n ctx' (tr @ evs)"
proof -
  obtain ctx1 e1 where c: "copy_consumer vl vbuf buf ctx = Inr (ctx1, e1)"
    using s by (auto simp: copy_scheduler_def rbind_eq_Inr_iff)
  have i1: "copy_inv n ctx1 (tr @ e1)"
    using consume_frame[OF c[unfolded copy_consumer_def]] by (intro copy_inv_frame[OF inv]) simp_all
  show ?thesis using s c i1 produce_inv[OF n i1]
    by (auto simp: copy_scheduler_def rbind_eq_Inr_iff copy_producer_def split: if_splits option.splits)
qed


lemma copy_commit_inv:
  assumes n: "n < 64" and inv: "copy_inv n ctx tr" and s: "kv_data_store_copy_commit vl vbuf buf n r ctx = Inr (ctx', evs)"
  shows "copy_inv n ctx' (tr @ evs)"
proof -
  obtain kr where kr: "get_range ctx r = Some kr" using s by (auto simp: kv_data_store_copy_commit_def split: option.splits)
  let ?n = "kr_item_num kr - 1"
  let ?c1 = "set_range r (kr\<lparr>kr_item_num := ?n\<rparr>) (ctx\<lparr>cp_iocnt := cp_iocnt ctx - 1\<rparr>)"
  have "range_inv n (kr\<lparr>kr_item_num := ?n\<rparr>) (locks r tr)" using inv kr by (simp add: copy_inv_def range_inv_def)
  then have i1: "copy_inv n ?c1 tr"
    using copy_inv_set[OF copy_inv_frame[OF inv, where ctx' = "ctx\<lparr>cp_iocnt := cp_iocnt ctx - 1\<rparr>" and evs = "[]"], where evs = "[]"]
    by simp
  obtain c2 e1 e2 where "(if ?n = 0 then on_seg_copy_done r ?c1 else Inr (?c1, [])) = Inr (c2, e1)"
    and s2: "copy_scheduler vl vbuf buf n c2 = Inr (ctx', e2)" and e: "evs = e1 @ e2"
    using s kr by (auto simp: kv_data_store_copy_commit_def Let_def rbind_eq_Inr_iff)
  then have "copy_inv n c2 (tr @ e1)" using on_seg_copy_done_inv[OF i1] i1 by (auto split: if_splits)
  from copy_scheduler_inv[OF n this s2] show ?thesis by (simp add: e)
qed

lemma copy_lock_cb_inv:
  assumes n: "n < 64" and inv: "copy_inv n ctx tr" and s: "copy_lock_cb vl vbuf buf n r ctx = Inr (ctx', evs)"
  shows "copy_inv n ctx' (tr @ evs)"
proof -
  obtain kr where kr: "get_range ctx r = Some kr" using s by (auto simp: copy_lock_cb_def split: option.splits)
  show ?thesis
  proof (cases "seg_chain (kr_seg kr) = []")
    case True
    then obtain c1 e1 e2 where d: "on_seg_copy_done r ctx = Inr (c1, e1)" and s2: "copy_scheduler vl vbuf buf n c1 = Inr (ctx', e2)"
      and e: "evs = e1 @ e2" using s kr by (auto simp: copy_lock_cb_def rbind_eq_Inr_iff)
    from copy_scheduler_inv[OF n on_seg_copy_done_inv[OF inv d] s2] show ?thesis by (simp add: e)
  next
    case False
    let ?its = "seg_live_items (kr_seg kr)" and ?n = "word_of_nat (length (seg_live_items (kr_seg kr))) :: u32"
    let ?c1 = "set_range r (kr\<lparr>kr_item_num := kr_item_num kr + ?n\<rparr>) ctx"
    let ?c2 = "?c1\<lparr>cp_queue_size := cp_queue_size ?c1 + ?n, cp_queue := cp_queue ?c1 @ map (\<lambda>it. (r, it)) ?its\<rparr>"
    have "range_inv n (kr\<lparr>kr_item_num := kr_item_num kr + ?n\<rparr>) (locks r tr)"
      using inv kr by (simp add: copy_inv_def range_inv_def)
    then have "copy_inv n ?c1 tr" using copy_inv_set[OF inv, where evs = "[]"] by simp
    then have i2: "copy_inv n ?c2 tr" using copy_inv_frame[where ctx' = ?c2 and evs = "[]"] by simp
    have "copy_scheduler vl vbuf buf n ?c2 = Inr (ctx', evs)"
      using s kr False by (simp add: copy_lock_cb_def rbind_eq_Inr_iff Let_def)
    then show ?thesis by (rule copy_scheduler_inv[OF n i2])
  qed
qed

lemma bucket_id_less: "0 < log_bucket_num ds \<Longrightarrow> log_bucket_num ds < 64 \<Longrightarrow> unat (kv_data_store_bucket_id ds k) < 2 ^ log_bucket_num ds"
proof -
  assume n: "0 < log_bucket_num ds" "log_bucket_num ds < 64"
  have "unat (load_u64 k) < 2 ^ (log_bucket_num ds + (64 - log_bucket_num ds))"
    using n unsigned_less[of "load_u64 k"] by simp
  then have "unat (load_u64 k) div 2 ^ (64 - log_bucket_num ds) < 2 ^ log_bucket_num ds"
    by (intro less_mult_imp_div_less) (simp add: power_add)
  moreover have "unat (drop_bit m w) = unat w div 2 ^ m" for m and w :: u64
    by (simp only: unat_drop_bit_eq) (simp only: drop_bit_eq_div)
  ultimately show ?thesis by (simp add: kv_data_store_bucket_id_def)
qed

lemma add_key_range_inv:
  assumes n: "0 < log_bucket_num ds" "log_bucket_num ds < 64" and inv: "copy_inv (log_bucket_num ds) ctx tr"
    and fresh: "r \<notin> fst ` set (cp_ranges ctx)" "locks r tr = []"
    and a: "kv_data_store_copy_add_key_range ds vbuf buf s e c r ctx = Inr (ctx', evs)"
  shows "copy_inv (log_bucket_num ds) ctx' (tr @ evs)"
proof -
  let ?s = "kv_data_store_bucket_id ds s" and ?e = "kv_data_store_bucket_id ds e"
  let ?kr = "\<lparr>kr_start = ?s, kr_end = ?e, kr_cb = Some c, kr_to_copy = ?s, kr_copying = False,
    kr_seg = kv_bucket_seg_init 0, kr_item_num = 0\<rparr>"
  have ri: "range_inv (log_bucket_num ds) ?kr (locks r tr)"
    using bucket_id_less[OF n] fresh(2) by (simp add: range_inv_def id_dist_def)
  obtain ctx1 where c1: "cp_ranges ctx1 = cp_ranges ctx"
    and s: "copy_scheduler (ds_value_log ds) vbuf buf (log_bucket_num ds) (ctx1\<lparr>cp_ranges := (r, ?kr) # cp_ranges ctx1\<rparr>) = Inr (ctx', evs)"
  proof (cases "cp_next_range ctx = None")
    case True
    show thesis by (rule that[of "ctx\<lparr>cp_next_range := Some r\<rparr>"])
      (use True a in \<open>auto simp: kv_data_store_copy_add_key_range_def Let_def rbind_eq_Inr_iff\<close>)
  next
    case False
    show thesis by (rule that[of ctx])
      (use False a in \<open>auto simp: kv_data_store_copy_add_key_range_def Let_def\<close>)
  qed
  have "copy_inv (log_bucket_num ds) (ctx1\<lparr>cp_ranges := (r, ?kr) # cp_ranges ctx1\<rparr>) tr"
    using inv fresh(1) ri c1 by (auto simp: copy_inv_def get_range_def)
  from copy_scheduler_inv[OF n(2) this s] show ?thesis .
qed

lemma del_key_range_inv:
  assumes "copy_inv n ctx tr" and "kv_data_store_copy_del_key_range ds s e b ctx = Inr (ds', ctx')"
  shows "copy_inv n ctx' tr \<and> log_bucket_num ds' = log_bucket_num ds"
proof -
  obtain r where c: "ctx' = remove_range r ctx" and l: "log_bucket_num ds' = log_bucket_num ds"
    using assms(2) by (auto simp: kv_data_store_copy_del_key_range_def Let_def rbind_eq_Inr_iff split: option.splits if_splits)
  have "map_of (filter (\<lambda>(i, _). i \<noteq> r) xs) i = (if i = r then None else map_of xs i)" for xs :: "(nat \<times> 'b key_range) list" and i
    by (induction xs) auto
  moreover have "distinct (map fst (filter (\<lambda>(i, _). i \<noteq> r) (cp_ranges ctx)))"
    using assms(1) by (simp add: copy_inv_def distinct_map_filter)
  ultimately show ?thesis using assms(1) l by (simp add: c copy_inv_def remove_range_def get_range_def Let_def)
qed


text \<open>
  A run of a copy context. The data store changes in between by its other operations; a
  lock callback finds the segment filled by the lock of the bucket; a range number is used
  for one range only.
\<close>

inductive copy_step ::
  "'c kv_data_store \<times> 'd copy_ctx \<times> 'd copy_event list \<Rightarrow> 'c kv_data_store \<times> 'd copy_ctx \<times> 'd copy_event list \<Rightarrow> bool" where
  cs_store: "log_bucket_num ds' = log_bucket_num ds \<Longrightarrow> copy_step (ds, ctx, tr) (ds', ctx, tr)"
| cs_add: "r \<notin> fst ` set (cp_ranges ctx) \<Longrightarrow> locks r tr = [] \<Longrightarrow>
    kv_data_store_copy_add_key_range ds vbuf buf s e c r ctx = Inr (ctx', evs) \<Longrightarrow>
    copy_step (ds, ctx, tr) (ds, ctx', tr @ evs)"
| cs_locked: "get_range ctx r = Some kr \<Longrightarrow>
    copy_lock_cb (ds_value_log ds) vbuf buf (log_bucket_num ds) r (set_range r (kr\<lparr>kr_seg := sg\<rparr>) ctx) = Inr (ctx', evs) \<Longrightarrow>
    copy_step (ds, ctx, tr) (ds, ctx', tr @ evs)"
| cs_commit: "kv_data_store_copy_commit (ds_value_log ds) vbuf buf (log_bucket_num ds) r ctx = Inr (ctx', evs) \<Longrightarrow>
    copy_step (ds, ctx, tr) (ds, ctx', tr @ evs)"
| cs_del: "kv_data_store_copy_del_key_range ds s e b ctx = Inr (ds', ctx') \<Longrightarrow>
    copy_step (ds, ctx, tr) (ds', ctx', tr)"

inductive_cases copy_stepE: "copy_step (ds, ctx, tr) st'"

lemma copy_step_inv:
  assumes "copy_step (ds, ctx, tr) (ds', ctx', tr')" and n: "0 < log_bucket_num ds" "log_bucket_num ds < 64"
    and inv: "copy_inv (log_bucket_num ds) ctx tr"
  shows "log_bucket_num ds' = log_bucket_num ds \<and> copy_inv (log_bucket_num ds) ctx' tr'"
  using assms(1)
proof cases
  case (cs_locked r kr vbuf buf sg evs)
  then have "range_inv (log_bucket_num ds) (kr\<lparr>kr_seg := sg\<rparr>) (locks r (tr @ []))"
    using inv by (simp add: copy_inv_def range_inv_def)
  then have "copy_inv (log_bucket_num ds) (set_range r (kr\<lparr>kr_seg := sg\<rparr>) ctx) (tr @ [])"
    by (rule copy_inv_set[OF inv]) simp
  then show ?thesis using copy_lock_cb_inv[OF n(2)] cs_locked by simp
next
  case (cs_del s e b)
  then show ?thesis using del_key_range_inv[OF inv cs_del(2)] by simp
qed (use inv n add_key_range_inv[OF n inv] copy_commit_inv[OF n(2) inv] in auto)

lemma copy_reach_inv:
  assumes "copy_step\<^sup>*\<^sup>* (ds0, kv_data_store_copy_init num, []) (ds, ctx, tr)" and "0 < log_bucket_num ds0" "log_bucket_num ds0 < 64"
  shows "log_bucket_num ds = log_bucket_num ds0 \<and> copy_inv (log_bucket_num ds0) ctx tr"
  using assms(1)
proof (induction "(ds, ctx, tr)" arbitrary: ds ctx tr rule: rtranclp_induct)
  case base
  show ?case by (simp add: copy_inv_def kv_data_store_copy_init_def get_range_def)
next
  case (step st)
  obtain d c t where "st = (d, c, t)" by (cases st)
  then show ?case using step copy_step_inv[of d c t ds ctx tr] assms(2,3) by simp
qed

text \<open>
  C14. At every moment of a run of the copy a write has to be forwarded to the new replica
  exactly if the bucket of its key has been locked for the copy of some range; every bucket
  of a range is locked at most once, in the order of the ids from the start of the range;
  and when the copy of a range has been reported as done, exactly the buckets that deleting
  the range would clear have been locked.
\<close>

theorem copy_forward_exact:
  assumes "0 < log_bucket_num ds0" and "log_bucket_num ds0 < 64"
    and "copy_step\<^sup>*\<^sup>* (ds0, kv_data_store_copy_init num, []) (ds, ctx, tr)"
  shows "(kv_data_store_copy_forward ds ctx k \<longleftrightarrow>
      (\<exists>(r, kr) \<in> set (cp_ranges ctx). kv_data_store_bucket_id ds k \<in> set (locks r tr))) \<and>
    (\<forall>(r, kr) \<in> set (cp_ranges ctx). distinct (locks r tr) \<and>
      (\<exists>rest. range_ids (Suc (2 ^ log_bucket_num ds)) (id_space_size (log_bucket_num ds)) (kr_start kr) (kr_end kr) =
         Inr (locks r tr @ rest) \<and> (kr_cb kr = None \<longrightarrow> rest = [])))"
proof -
  let ?n = "log_bucket_num ds"
  have n: "0 < ?n" "?n < 64" and inv: "copy_inv ?n ctx tr" using copy_reach_inv[OF assms(3,1,2)] assms(1,2) by simp_all
  have ri: "range_inv ?n kr (locks r tr)" if "(r, kr) \<in> set (cp_ranges ctx)" for r kr
    using inv that by (simp add: copy_inv_def get_range_def)
  have "\<exists>rest. range_ids (Suc (2 ^ ?n)) (id_space_size ?n) (kr_start kr) (kr_end kr) = Inr (locks r tr @ rest) \<and>
      (kr_cb kr = None \<longrightarrow> rest = [])" if "(r, kr) \<in> set (cp_ranges ctx)" for r kr
    by (rule range_inv_ids[OF n(2) ri[OF that]])
  moreover have "kv_data_store_copy_forward ds ctx k \<longleftrightarrow>
      (\<exists>(r, kr) \<in> set (cp_ranges ctx). kv_data_store_bucket_id ds k \<in> set (locks r tr))"
    unfolding kv_data_store_copy_forward_def list_ex_iff
    by (intro bex_cong refl) (use range_copied_iff[OF n(2) ri bucket_id_less[OF n]] in auto)
  ultimately show ?thesis using range_inv_distinct[OF n(2) ri] by (auto simp del: range_ids.simps)
qed


text \<open>A concrete run: with 16 buckets the range from bucket 0 to bucket 2 is added, and bucket 0 is locked at once.\<close>

definition copy_ex_ds :: "nat kv_data_store" where
  "copy_ex_ds = \<lparr>ds_bucket_log = \<lparr>bl_log = kv_circular_log_init 512 0 0 8 0 0 4 2 0 [], bl_size = 16, bl_head = 0,
       bl_tail = 0, bl_compact_head = 0, bl_meta = kv_bucket_meta_init\<rparr>,
     ds_value_log = \<lparr>vl_log = kv_circular_log_init 512 0 8 8 0 0 4 2 0 [], has_bucket_log = True, blk_mask = 511,
       blk_shift = 9, vl_compact_head = 0, is_compaction_started = False, bucket_id_log = null_bucket_ids, id_log_size = 1\<rparr>,
     ds_q_info = \<lparr>q_size = 0, q_cap = 1024\<rparr>, log_bucket_num = 4, dirty_set = kv_bucket_key_set_init, ds_q = [],
     ds_entries = Map.empty, ds_next = 0, ds_sets = Map.empty, ds_buffered = Map.empty, ds_gets = Map.empty, ds_dels = Map.empty\<rparr>"

definition copy_ex_ctx :: "nat copy_ctx" where
  "copy_ex_ctx = \<lparr>cp_buf_num = 4, cp_iocnt = 0, cp_queue_size = 0, cp_next_range = Some 0, cp_queue = [],
     cp_ranges = [(0, \<lparr>kr_start = 0, kr_end = 2, kr_cb = Some 9, kr_to_copy = 1, kr_copying = True,
       kr_seg = kv_bucket_seg_init 0, kr_item_num = 0\<rparr>)]\<rparr>"

lemma copy_ex_buckets: "kv_data_store_bucket_id copy_ex_ds [0, 0, 0, 0, 0, 0, 0, 0] = 0"
  "kv_data_store_bucket_id copy_ex_ds [0, 0, 0, 0, 0, 0, 0, 32] = 2"
  "log_bucket_num copy_ex_ds = 4"
  by (simp_all add: kv_data_store_bucket_id_def copy_ex_ds_def load_u64_def)

lemma copy_ex_step: "copy_step\<^sup>*\<^sup>* (copy_ex_ds, kv_data_store_copy_init 4, []) (copy_ex_ds, copy_ex_ctx, [Cp_lock 0 0])"
proof -
  have "kv_data_store_copy_add_key_range copy_ex_ds 0 0 [0, 0, 0, 0, 0, 0, 0, 0] [0, 0, 0, 0, 0, 0, 0, 32] 9 0
      (kv_data_store_copy_init 4) = Inr (copy_ex_ctx, [Cp_lock 0 0])"
    by (simp add: kv_data_store_copy_add_key_range_def kv_data_store_copy_init_def copy_ex_buckets copy_ex_ctx_def
        copy_scheduler_def copy_consumer_def copy_producer_def produce_one_def get_range_def set_range_def loop_next_def
        id_space_size_def Let_def kv_bucket_seg_init_def)
  then have "copy_step (copy_ex_ds, kv_data_store_copy_init 4, []) (copy_ex_ds, copy_ex_ctx, [] @ [Cp_lock 0 0])"
    by (intro cs_add[where r = 0]) (simp_all add: kv_data_store_copy_init_def)
  then show ?thesis by (simp add: r_into_rtranclp)
qed

theorem copy_forward_exact_witness:
  "kv_data_store_copy_forward copy_ex_ds copy_ex_ctx [0, 0, 0, 0, 0, 0, 0, 0] \<and>
   \<not> kv_data_store_copy_forward copy_ex_ds copy_ex_ctx [0, 0, 0, 0, 0, 0, 0, 32] \<and>
   (\<exists>rest. range_ids 17 (id_space_size 4) 0 2 = Inr ([0] @ rest))"
  using copy_forward_exact[OF _ _ copy_ex_step, of "[0, 0, 0, 0, 0, 0, 0, 0]"]
    copy_forward_exact[OF _ _ copy_ex_step, of "[0, 0, 0, 0, 0, 0, 0, 32]"]
  by (simp add: copy_ex_buckets copy_ex_ctx_def)

end
