(* ===== verification/Value_Log_Read.thy ===== *)
theory Value_Log_Read
  imports Kv_Value_Log Circular_Log_World
begin

unbundle bit_operations_syntax

text \<open>
  Reads of the value log at the level of bytes. A value lies at a byte offset, in general
  across blocks, possibly across the end of the device area, and is read through a bounce
  buffer when it does not start at a block boundary. The bytes delivered are those the log
  holds from that offset on.
\<close>

section \<open>Blocks of equal length\<close>

lemma concat_take_blocks:
  "\<forall>b \<in> set bs. length b = m \<Longrightarrow> concat (take n bs) = take (m * n) (concat bs)"
proof (induction bs arbitrary: n)
  case (Cons b bs)
  then show ?case by (cases n) (simp_all add: algebra_simps)
qed simp

lemma concat_drop_blocks:
  "\<forall>b \<in> set bs. length b = m \<Longrightarrow> concat (drop n bs) = drop (m * n) (concat bs)"
proof (induction bs arbitrary: n)
  case (Cons b bs)
  then show ?case by (cases n) (simp_all add: algebra_simps)
qed simp

lemma length_concat_blocks:
  "\<forall>b \<in> set bs. length b = m \<Longrightarrow> length (concat bs) = m * length bs"
  by (induction bs) auto

section \<open>Offsets\<close>

definition vl_wf :: "kv_value_log \<Rightarrow> bool" where
  "vl_wf vl \<longleftrightarrow> log_wf (vl_log vl) \<and> 2 \<le> blk_shift vl \<and> blk_shift vl \<le> 16 \<and>
     l_block_size (vl_log vl) = 2 ^ blk_shift vl \<and> blk_mask vl = mask (blk_shift vl)"

abbreviation vl_bs :: "kv_value_log \<Rightarrow> nat" where
  "vl_bs vl \<equiv> 2 ^ blk_shift vl"

lemma unat_less_2_64: "unat w < 2 ^ 64" for w :: u64
  using unsigned_less[of w] by simp

lemma unat_shift_right: "unat (drop_bit n w) = unat w div 2 ^ n" for w :: u64
  by (simp only: unat_drop_bit_eq) (simp only: drop_bit_eq_div)

lemma unat_power_16: "n \<le> 16 \<Longrightarrow> unat (2 ^ n :: u64) = 2 ^ n"
proof -
  assume "n \<le> 16"
  then have "(2 :: nat) ^ n < 2 ^ 64" by (intro power_strict_increasing) simp_all
  then show ?thesis using unat_of_nat_u64[of "2 ^ n"] by simp
qed

lemma unat_ucast_16: "unat (ucast w :: u16) = unat w mod 2 ^ 16"
  by (simp add: unsigned_ucast_eq take_bit_eq_mod)

lemma and_3_iff: "w AND 3 = 0 \<longleftrightarrow> unat w mod 4 = 0" for w :: u64
  using unat_and_mask[of w 2] by (simp add: word_unat_eq_iff mask_eq_exp_minus_1)

lemma div_round_up:
  fixes x b :: nat
  assumes "0 < b"
  shows "(x + (b - 1)) div b = x div b + (if x mod b = 0 then 0 else 1)"
proof -
  let ?y = "x mod b + (b - 1)"
  have "x + (b - 1) = ?y + b * (x div b)" by (metis add.assoc add.commute mult_div_mod_eq)
  then have "(x + (b - 1)) div b = x div b + ?y div b" using assms by (metis div_mult_self2 add.commute less_numeral_extra(3))
  moreover have "?y div b = (if x mod b = 0 then 0 else 1)"
  proof (cases "x mod b = 0")
    case False
    then have "?y = b + (x mod b - 1)" using assms by simp
    moreover have "x mod b - 1 < b" using mod_less_divisor[OF assms, of x] by (simp add: less_imp_diff_less)
    ultimately show ?thesis using False assms by (simp only: div_add_self1) simp
  qed (use assms in simp)
  ultimately show ?thesis by simp
qed

lemma round_up_ge: "0 < b \<Longrightarrow> x \<le> b * ((x + (b - 1)) div b)" for x b :: nat
proof -
  assume b: "0 < b"
  have "x \<le> b * (x div b + (if x mod b = 0 then 0 else 1))"
  proof (cases "x mod b = 0")
    case True
    then have "b * (x div b) = x" using mult_div_mod_eq[of b x] by (simp only: add_0_right)
    then show ?thesis using True by simp
  next
    case False
    then show ?thesis using dividend_less_times_div[OF b, of x] by simp
  qed
  then show ?thesis by (simp only: div_round_up[OF b])
qed

lemma align_blocks:
  assumes "blk_mask vl = mask (blk_shift vl)" and "0 < blk_shift vl"
  shows "unat (align vl w) = (unat w + (vl_bs vl - 1)) div vl_bs vl"
proof -
  let ?b = "vl_bs vl"
  have z: "w AND blk_mask vl \<noteq> 0 \<longleftrightarrow> unat w mod ?b \<noteq> 0"
    unfolding assms(1) unat_and_mask[symmetric] by (simp add: unat_eq_0)
  have d: "unat (drop_bit (blk_shift vl) w) = unat w div ?b" by (rule unat_shift_right)
  have b0: "0 < ?b" by simp
  have b2: "2 \<le> ?b" using assms(2) self_le_power[of "2::nat" "blk_shift vl"] by simp
  have "unat w div ?b \<le> unat w div 2" using b2 by (simp add: div_le_mono2)
  then have "unat w div ?b + 1 < 2 ^ 64" using unat_less_2_64[of w] by simp
  then have s: "unat (drop_bit (blk_shift vl) w + 1) = unat w div ?b + 1" by (simp add: unat_word_ariths d)
  show ?thesis unfolding div_round_up[OF b0] using z s d by (simp add: align_def)
qed


text \<open>The block and the place in the block of a byte position of the log.\<close>

lemma value_offset_split:
  fixes off :: u64
  assumes "unat off = (vl_bs vl * unat (l_head (vl_log vl)) + p) mod (vl_bs vl * unat (l_size (vl_log vl)))"
    and "0 < unat (l_size (vl_log vl))"
  shows "unat (drop_bit (blk_shift vl) off) = (unat (l_head (vl_log vl)) + p div vl_bs vl) mod unat (l_size (vl_log vl))"
    and "unat (off AND mask (blk_shift vl)) = p mod vl_bs vl"
proof -
  let ?b = "vl_bs vl" and ?h = "unat (l_head (vl_log vl))" and ?s = "unat (l_size (vl_log vl))"
  have "?b * ?h + p = ?b * (?h + p div ?b) + p mod ?b" by (simp add: algebra_simps)
  then have "unat off = ?b * ((?h + p div ?b) mod ?s) + p mod ?b"
    using assms by (simp add: mod_mult2_eq)
  then show "unat (drop_bit (blk_shift vl) off) = (?h + p div ?b) mod ?s"
    and "unat (off AND mask (blk_shift vl)) = p mod ?b"
    by (simp_all add: unat_and_mask unat_shift_right del: push_bit_eq_mult drop_bit_eq_div)
qed

lemma blocks_needed:
  fixes b k n len :: nat
  assumes "0 < b" and "b * k + len \<le> b * n"
  shows "k + (len + (b - 1)) div b \<le> n"
proof -
  have "k \<le> n" using assms by (metis add_leD1 mult_le_cancel1 not_less0)
  then obtain d where d: "n = k + d" using le_Suc_ex by blast
  then have "len \<le> b * d" using assms by (simp add: algebra_simps)
  then have "(len + (b - 1)) div b \<le> (b * d + (b - 1)) div b" by (intro div_le_mono) simp
  also have "\<dots> = d" using assms(1) by (metis diff_less div_less div_mult_self2 add.commute add_0 less_numeral_extra(1) not_less0)
  finally show ?thesis using d by simp
qed

section \<open>What a read delivers\<close>

text \<open>
  The value buffer after a read: the blocks of the vector arrive in the value buffer, after
  the part that comes through the bounce buffer if there is one, and \<open>read_cb\<close> copies that
  part to the front. \<open>old\<close> is what the buffer held before.
\<close>

definition value_delivered :: "u8 list \<Rightarrow> read_ctx option \<Rightarrow> byte_block list \<Rightarrow> u8 list" where
  "value_delivered old ctx d =
     (case ctx of None \<Rightarrow> blit old 0 (concat d)
      | Some rc \<Rightarrow> read_cb rc (hd d) (blit old (unat (rc_len_in_buf rc)) (concat (tl d))))"

lemma length_read_iov [simp]: "length (iov_blocks (read_iov a n)) = unat n"
  "iov_base (read_iov a n) = a"
  by (simp_all add: read_iov_def)

lemma take_blit_0: "n \<le> length src \<Longrightarrow> take n (blit dst 0 src) = take n src"
  by (simp add: blit_def)

lemma read_at_block_start:
  assumes wf: "vl_wf vl" and bl: "\<forall>b \<in> set (log_blocks dev (vl_log vl)). length b = vl_bs vl"
    and off: "off AND 3 = 0" "value AND 3 = 0"
    and p: "unat off = (vl_bs vl * unat (l_head (vl_log vl)) + p) mod (vl_bs vl * unat (l_size (vl_log vl)))"
    and fits: "p < vl_bs vl * llen (vl_log vl)" "p + unat vlen \<le> vl_bs vl * llen (vl_log vl)"
    and r0: "p mod vl_bs vl = 0"
  shows "\<exists>ios. kv_value_log_read vl off value vlen buf = Inr (None, Iov_issued ios) \<and>
    take (unat vlen) (value_delivered old None (concat (map (io_data dev) ios))) =
      take (unat vlen) (drop p (concat (log_blocks dev (vl_log vl))))"
proof -
  let ?b = "vl_bs vl" and ?l = "vl_log vl" and ?n = "align vl (ucast vlen)" and ?B = "log_blocks dev (vl_log vl)"
  let ?k = "p div ?b" and ?v = "[read_iov value (align vl (ucast vlen))]"
  have lw: "log_wf ?l" and m: "blk_mask vl = mask (blk_shift vl)" and sh: "0 < blk_shift vl" using wf by (simp_all add: vl_wf_def)
  have s0: "0 < unat (l_size ?l)" using lw by (auto simp: log_wf_def)
  note o = value_offset_split[OF p s0]
  have pk: "p = ?b * ?k" using r0 by (metis mult_div_mod_eq add.right_neutral)
  have n: "unat ?n = (unat vlen + (?b - 1)) div ?b" by (simp add: align_blocks[OF m sh] unsigned_ucast_eq)
  have kl: "?k < llen ?l" using fits(1) pk by (metis mult_less_cancel1)
  have fit: "?k + length (iov_data ?v) \<le> llen ?l" using blocks_needed[of ?b ?k "unat vlen" "llen ?l"] fits(2) pk n by simp
  obtain ios where ios: "kv_circular_log_readv ?l (drop_bit (blk_shift vl) off) ?v = Inr (?l, Iov_issued ios)"
    and d: "concat (map (io_data dev) ios) = take (unat ?n) (drop ?k ?B)"
    using readv_eq[OF lw _ kl fit o(1), of dev] off(2) by auto
  have z: "off AND blk_mask vl = 0" using o(2) r0 by (simp add: m unat_eq_0[symmetric] del: unat_eq_0)
  have "kv_value_log_read vl off value vlen buf = Inr (None, Iov_issued ios)"
    using ios z off(1) by (simp add: kv_value_log_read_def kv_circular_log_read_def kv_circular_log_readv_def)
  moreover have "concat (concat (map (io_data dev) ios)) = take (?b * unat ?n) (drop p (concat ?B))"
    unfolding d using bl by (subst concat_take_blocks[where m = ?b]) (auto simp: concat_drop_blocks[OF bl] pk[symmetric] dest: in_set_dropD)
  moreover have "unat vlen \<le> ?b * unat ?n" unfolding n by (rule round_up_ge) simp
  moreover have "unat vlen \<le> length (drop p (concat ?B))" using fits(2) by (simp add: length_concat_blocks[OF bl])
  ultimately show ?thesis by (intro exI[of _ ios]) (simp add: value_delivered_def take_blit_0)
qed


lemma two_part_delivery:
  assumes "length a = q" and "q < n" and "q \<le> length old" and "n - q \<le> length rest"
  shows "take n (blit (blit old q rest) 0 a) = a @ take (n - q) rest"
  using assms by (simp add: blit_def)

text \<open>The part of the value that the bounce buffer brings, as \<open>kv_value_log_read\<close> computes it.\<close>

abbreviation bounce_off :: "kv_value_log \<Rightarrow> u64 \<Rightarrow> u16" where
  "bounce_off vl off \<equiv> ucast (off AND blk_mask vl)"

abbreviation bounce_len :: "kv_value_log \<Rightarrow> u64 \<Rightarrow> u16" where
  "bounce_len vl off \<equiv> ucast (l_block_size (vl_log vl) - ucast (bounce_off vl off))"

lemma bounce_sizes:
  assumes wf: "vl_wf vl" and o: "unat (off AND mask (blk_shift vl)) = p mod vl_bs vl" and r0: "p mod vl_bs vl \<noteq> 0"
  shows "unat (bounce_off vl off) = p mod vl_bs vl" and "unat (bounce_len vl off) = vl_bs vl - p mod vl_bs vl"
    and "vl_bs vl - p mod vl_bs vl < 2 ^ 16" and "off AND blk_mask vl \<noteq> 0"
proof -
  let ?b = "vl_bs vl" and ?r = "p mod vl_bs vl"
  have m: "blk_mask vl = mask (blk_shift vl)" and sh: "blk_shift vl \<le> 16" and bs: "l_block_size (vl_log vl) = 2 ^ blk_shift vl"
    using wf by (simp_all add: vl_wf_def)
  have b16: "?b \<le> 2 ^ 16" using sh by (intro power_increasing) simp_all
  have rb: "?r < ?b" by simp
  have ubs: "unat (l_block_size (vl_log vl)) = ?b" using sh by (simp add: bs unat_power_16)
  have "?r < 2 ^ 16" by (rule less_le_trans[OF rb b16])
  then show ubo: "unat (bounce_off vl off) = ?r" using o by (simp add: m unat_ucast_16)
  show d16: "?b - ?r < 2 ^ 16" using r0 by (intro less_le_trans[OF diff_less b16]) simp_all
  have "unat (l_block_size (vl_log vl) - ucast (bounce_off vl off)) = ?b - ?r"
    using rb ubo by (subst unat_sub) (simp_all add: word_le_nat_alt ubs less_imp_le)
  then show "unat (bounce_len vl off) = ?b - ?r" using d16 by (simp add: unat_ucast_16)
  show "off AND blk_mask vl \<noteq> 0" using o r0 by (auto simp: m)
qed

lemma bounce_aligned:
  fixes off v :: u64
  assumes wf: "vl_wf vl" and o: "unat (off AND mask (blk_shift vl)) = p mod vl_bs vl" and r0: "p mod vl_bs vl \<noteq> 0"
    and al: "off AND 3 = 0" "v AND 3 = 0"
  shows "(v + ucast (bounce_len vl off)) AND 3 = 0"
proof -
  have b4: "4 dvd vl_bs vl" using wf le_imp_power_dvd[of 2 "blk_shift vl" "2::nat"] by (simp add: vl_wf_def)
  then have "4 dvd p mod vl_bs vl" using al(1) unfolding o[symmetric] unat_and_mask by (simp add: and_3_iff mod_eq_0_iff_dvd dvd_mod)
  with b4 have "4 dvd unat (bounce_len vl off)" unfolding bounce_sizes(2)[OF wf o r0] by (rule dvd_diff_nat)
  moreover have "4 dvd unat v" using al(2) by (simp add: and_3_iff mod_eq_0_iff_dvd)
  ultimately have "4 dvd unat v + unat (bounce_len vl off)" by (rule dvd_add[rotated])
  then show ?thesis by (simp add: and_3_iff unat_word_ariths mod_eq_0_iff_dvd dvd_mod_iff)
qed

lemma bytes_from_block:
  assumes bl: "\<forall>b \<in> set B. length b = n" and k: "p div n < length B" and n: "0 < n"
  shows "drop (p div n) B = B ! (p div n) # drop (Suc (p div n)) B" and "length (B ! (p div n)) = n"
    and "drop p (concat B) = drop (p mod n) (B ! (p div n)) @ concat (drop (Suc (p div n)) B)"
proof -
  let ?k = "p div n"
  show hd: "drop ?k B = B ! ?k # drop (Suc ?k) B" using k by (simp add: Cons_nth_drop_Suc)
  show bk: "length (B ! ?k) = n" using bl k by simp
  have "drop p (concat B) = drop (p mod n) (drop (n * ?k) (concat B))" by (simp add: drop_drop add.commute)
  also have "\<dots> = drop (p mod n) (concat (drop ?k B))" by (simp add: concat_drop_blocks[OF bl])
  finally show "drop p (concat B) = drop (p mod n) (B ! ?k) @ concat (drop (Suc ?k) B)"
    using bk n by (simp add: hd)
qed

lemma read_bounce_short:
  assumes wf: "vl_wf vl" and bl: "\<forall>b \<in> set (log_blocks dev (vl_log vl)). length b = vl_bs vl"
    and al: "off AND 3 = 0" "buf AND 3 = 0" and kl: "p div vl_bs vl < llen (vl_log vl)"
    and o: "unat (drop_bit (blk_shift vl) off) = (unat (l_head (vl_log vl)) + p div vl_bs vl) mod unat (l_size (vl_log vl))"
      "unat (off AND mask (blk_shift vl)) = p mod vl_bs vl"
    and r0: "p mod vl_bs vl \<noteq> 0" and short: "unat vlen \<le> vl_bs vl - p mod vl_bs vl"
  shows "\<exists>rc ios. kv_value_log_read vl off value vlen buf = Inr (Some rc, Iov_issued ios) \<and>
    take (unat vlen) (value_delivered old (Some rc) (concat (map (io_data dev) ios))) =
      take (unat vlen) (drop p (concat (log_blocks dev (vl_log vl))))"
proof -
  let ?l = "vl_log vl" and ?B = "log_blocks dev (vl_log vl)" and ?v = "[read_iov buf 1]"
  let ?rc = "\<lparr>rc_buf_offset = bounce_off vl off, rc_len_in_buf = ucast vlen\<rparr>"
  have lw: "log_wf ?l" using wf by (simp add: vl_wf_def)
  note bz = bounce_sizes[OF wf o(2) r0] and bb = bytes_from_block[OF bl _ zero_less_power, unfolded length_log_blocks, OF kl zero_less_numeral]
  obtain ios where ios: "kv_circular_log_readv ?l (drop_bit (blk_shift vl) off) ?v = Inr (?l, Iov_issued ios)"
    and d: "concat (map (io_data dev) ios) = take 1 (drop (p div vl_bs vl) ?B)"
    using readv_eq[OF lw _ kl _ o(1), of ?v dev] al(2) kl by auto
  have "\<not> ucast (bounce_len vl off) < vlen" using short bz(2) by (simp add: word_less_nat_alt)
  then have "kv_value_log_read vl off value vlen buf = Inr (Some ?rc, Iov_issued ios)"
    using ios bz(4) al(1) by (simp add: kv_value_log_read_def kv_circular_log_read_def kv_circular_log_readv_def Let_def)
  moreover have "unat (rc_len_in_buf ?rc) = unat vlen" using le_less_trans[OF short bz(3)] by (simp add: unat_ucast_16)
  ultimately show ?thesis using short bb(2) bz(1)
    by (intro exI[of _ ?rc] exI[of _ ios]) (simp add: value_delivered_def read_cb_def d bb(1,3) take_blit_0)
qed

lemma read_bounce_long:
  assumes wf: "vl_wf vl" and bl: "\<forall>b \<in> set (log_blocks dev (vl_log vl)). length b = vl_bs vl"
    and al: "off AND 3 = 0" "value AND 3 = 0" "buf AND 3 = 0" and kl: "p div vl_bs vl < llen (vl_log vl)"
    and o: "unat (drop_bit (blk_shift vl) off) = (unat (l_head (vl_log vl)) + p div vl_bs vl) mod unat (l_size (vl_log vl))"
      "unat (off AND mask (blk_shift vl)) = p mod vl_bs vl"
    and fits: "p + unat vlen \<le> vl_bs vl * llen (vl_log vl)" and r0: "p mod vl_bs vl \<noteq> 0"
    and long: "vl_bs vl - p mod vl_bs vl < unat vlen" and old: "unat vlen \<le> length old"
  shows "\<exists>rc ios. kv_value_log_read vl off value vlen buf = Inr (Some rc, Iov_issued ios) \<and>
    take (unat vlen) (value_delivered old (Some rc) (concat (map (io_data dev) ios))) =
      take (unat vlen) (drop p (concat (log_blocks dev (vl_log vl))))"
proof -
  let ?b = "vl_bs vl" and ?l = "vl_log vl" and ?B = "log_blocks dev (vl_log vl)" and ?k = "p div vl_bs vl"
  let ?q = "?b - p mod ?b" and ?lb = "bounce_len vl off"
  let ?n = "align vl (ucast (vlen - ucast ?lb))"
  let ?v = "[read_iov buf 1, read_iov (value + ucast ?lb) ?n]" and ?rc = "\<lparr>rc_buf_offset = bounce_off vl off, rc_len_in_buf = ?lb\<rparr>"
  have lw: "log_wf ?l" and m: "blk_mask vl = mask (blk_shift vl)" and sh: "0 < blk_shift vl" using wf by (simp_all add: vl_wf_def)
  note bz = bounce_sizes[OF wf o(2) r0] and bb = bytes_from_block[OF bl _ zero_less_power, unfolded length_log_blocks, OF kl zero_less_numeral]
  have lt: "ucast ?lb < vlen" using long bz(2) by (simp add: word_less_nat_alt)
  then have "unat (ucast (vlen - ucast ?lb) :: u64) = unat vlen - ?q" using bz(2) by (simp add: unat_sub)
  then have n: "unat ?n = (unat vlen - ?q + (?b - 1)) div ?b" by (simp add: align_blocks[OF m sh])
  have rb: "p mod ?b < ?b" by simp
  have "?b * Suc ?k + (unat vlen - ?q) = p + unat vlen" using long rb mult_div_mod_eq[of ?b p] by (simp only: mult_Suc_right)
  then have fit: "Suc ?k + unat ?n \<le> llen ?l" unfolding n using fits by (intro blocks_needed) simp_all
  obtain ios where ios: "kv_circular_log_readv ?l (drop_bit (blk_shift vl) off) ?v = Inr (?l, Iov_issued ios)"
    and d: "concat (map (io_data dev) ios) = take (Suc (unat ?n)) (drop ?k ?B)"
    using readv_eq[OF lw _ kl _ o(1), of ?v dev] al(3) bounce_aligned[OF wf o(2) r0 al(1,2)] fit by auto
  have rd: "kv_value_log_read vl off value vlen buf = Inr (Some ?rc, Iov_issued ios)"
    using ios bz(4) al(1) lt by (simp add: kv_value_log_read_def Let_def)
  let ?rest = "concat (take (unat ?n) (drop (Suc ?k) ?B))"
  have rest: "?rest = take (?b * unat ?n) (concat (drop (Suc ?k) ?B))"
    using bl by (intro concat_take_blocks) (auto dest: in_set_dropD)
  have enough: "unat vlen - ?q \<le> ?b * unat ?n" unfolding n by (rule round_up_ge) simp
  have "length ?rest = ?b * unat ?n" using bl fit
    by (subst length_concat_blocks[where m = ?b]) (auto dest!: in_set_takeD in_set_dropD)
  then have "take (unat vlen) (blit (blit old ?q ?rest) 0 (drop (p mod ?b) (?B ! ?k))) = drop (p mod ?b) (?B ! ?k) @ take (unat vlen - ?q) ?rest"
    using long old enough bb(2) by (intro two_part_delivery) simp_all
  also have "\<dots> = take (unat vlen) (drop p (concat ?B))" using long bb(2) rb enough by (simp add: bb(3) rest min_def)
  finally show ?thesis using rd bb(2)
    by (intro exI[of _ ?rc] exI[of _ ios]) (simp add: value_delivered_def read_cb_def d bb(1) bz)
qed

lemma value_read_all:
  assumes "vl_wf vl" and "\<forall>b \<in> set (log_blocks dev (vl_log vl)). length b = vl_bs vl"
    and "off AND 3 = 0" and "value AND 3 = 0" and "buf AND 3 = 0"
    and "unat off = (vl_bs vl * unat (l_head (vl_log vl)) + p) mod (vl_bs vl * unat (l_size (vl_log vl)))"
    and "p < vl_bs vl * llen (vl_log vl)" and "p + unat vlen \<le> vl_bs vl * llen (vl_log vl)"
    and "unat vlen \<le> length old"
  shows "\<exists>ctx ios. kv_value_log_read vl off value vlen buf = Inr (ctx, Iov_issued ios) \<and>
    take (unat vlen) (value_delivered old ctx (concat (map (io_data dev) ios))) =
      take (unat vlen) (drop p (concat (log_blocks dev (vl_log vl))))"
proof (cases "p mod vl_bs vl = 0")
  case True
  from read_at_block_start[OF assms(1-4,6-8) True, of buf old] show ?thesis by blast
next
  case False
  have "0 < unat (l_size (vl_log vl))" using assms(1) by (auto simp: vl_wf_def log_wf_def)
  note o = value_offset_split[OF assms(6) this]
  have kl: "p div vl_bs vl < llen (vl_log vl)" using assms(7) by (simp add: less_mult_imp_div_less mult.commute)
  consider "unat vlen \<le> vl_bs vl - p mod vl_bs vl" | "vl_bs vl - p mod vl_bs vl < unat vlen" by linarith
  then show ?thesis
    using read_bounce_short[OF assms(1-3,5) kl o False, of vlen _ old]
      read_bounce_long[OF assms(1-5) kl o assms(8) False _ assms(9)] by cases blast+
qed

text \<open>
  C16. A read of a value that lies within the value log is accepted, at a block boundary or
  inside a block, across block ends and across the end of the device area, and the value
  buffer then holds exactly the bytes of the log from the offset of the value on.
\<close>

theorem value_read_correct:
  assumes "vl_wf vl" and "\<forall>b \<in> set (log_blocks dev (vl_log vl)). length b = vl_bs vl"
    and "off AND 3 = 0" and "value AND 3 = 0" and "buf AND 3 = 0"
    and "unat off = (vl_bs vl * unat (l_head (vl_log vl)) + p) mod (vl_bs vl * unat (l_size (vl_log vl)))"
    and "p < vl_bs vl * llen (vl_log vl)" and "p + unat vlen \<le> vl_bs vl * llen (vl_log vl)"
    and "unat vlen \<le> length old"
  shows "\<exists>ctx ios. kv_value_log_read vl off value vlen buf = Inr (ctx, Iov_issued ios) \<and>
    take (unat vlen) (value_delivered old ctx (concat (map (io_data dev) ios))) =
      take (unat vlen) (drop p (concat (log_blocks dev (vl_log vl))))"
  using assms by (rule value_read_all)

text \<open>A log of 8-byte blocks whose three blocks are the device blocks 7, 0 and 1.\<close>

definition vl_ex :: "u64 \<Rightarrow> u64 \<Rightarrow> kv_value_log" where
  "vl_ex h t = \<lparr>vl_log = kv_circular_log_init 8 0 0 8 h t 3 1 4096 (replicate 5 []), has_bucket_log = False, blk_mask = 7,
     blk_shift = 3, vl_compact_head = 0, is_compaction_started = False,
     bucket_id_log = \<lparr>ids_log = kv_circular_log_init 512 0 8 1 0 0 256 16 0 [], blk_buf0 = empty_ids, blk_buf1 = [],
       blk_index = False, is_dumping = False\<rparr>, id_log_size = 1\<rparr>"

definition dev_ex :: "nat \<Rightarrow> byte_block" where
  "dev_ex a = replicate 8 (word_of_nat a)"

lemma vl_ex_wf: "h < 8 \<Longrightarrow> t < 8 \<Longrightarrow> vl_wf (vl_ex h t)"
  by (simp add: vl_wf_def vl_ex_def log_wf_def fetch_wf_def kv_circular_log_init_def mask_eq_exp_minus_1 word_less_nat_alt)

theorem value_read_correct_witness:
  "\<exists>ctx ios. kv_value_log_read (vl_ex 7 2) 60 64 10 128 = Inr (ctx, Iov_issued ios) \<and>
    take 10 (value_delivered (replicate 10 1) ctx (concat (map (io_data dev_ex) ios))) = [7, 7, 7, 7, 0, 0, 0, 0, 0, 0]"
proof -
  have l: "llen (vl_log (vl_ex 7 2)) = 3" by (simp add: vl_ex_def kv_circular_log_init_def circ_dist_def)
  have b: "log_blocks dev_ex (vl_log (vl_ex 7 2)) = [dev_ex 7, dev_ex 0, dev_ex 1]"
    by (simp add: log_blocks_def l numeral_3_eq_3) (simp add: vl_ex_def kv_circular_log_init_def)
  have "take 10 (drop 4 (concat (log_blocks dev_ex (vl_log (vl_ex 7 2))))) = [7, 7, 7, 7, 0, 0, 0, 0, 0, 0]"
    by (simp add: b dev_ex_def numeral_eq_Suc)
  then show ?thesis
    using value_read_correct[of "vl_ex 7 2" dev_ex 60 64 128 4 10 "replicate 10 1"] vl_ex_wf[of 7 2] b
    by (simp add: l) (simp add: vl_ex_def kv_circular_log_init_def dev_ex_def)
qed

section \<open>Reading back what was written\<close>

lemma chunks_blocks:
  "n * sz \<le> length bs \<Longrightarrow> length (chunks n sz bs) = n \<and> (\<forall>b \<in> set (chunks n sz bs). length b = sz) \<and> concat (chunks n sz bs) = take (n * sz) bs"
proof (induction n arbitrary: bs)
  case (Suc n)
  then have "n * sz \<le> length (drop sz bs)" by simp
  from Suc.IH[OF this] Suc.prems show ?case by (auto simp: take_add)
qed simp

lemma append_bucket_id_log:
  "append_bucket_id vl off bid = Inr (vl', ios) \<Longrightarrow> \<exists>b. vl' = vl\<lparr>bucket_id_log := b\<rparr>"
  by (auto simp: append_bucket_id_def Let_def res_simps split: if_splits)

lemma unat_kv_value_log_offset:
  assumes "vl_wf vl"
  shows "unat (kv_value_log_offset vl) =
    (vl_bs vl * unat (l_head (vl_log vl)) + vl_bs vl * llen (vl_log vl)) mod (vl_bs vl * unat (l_size (vl_log vl)))"
proof -
  let ?l = "vl_log vl" and ?b = "vl_bs vl"
  have w: "unat (l_size ?l) * ?b < 2 ^ 62" "unat (l_head ?l) < unat (l_size ?l)" "unat (l_tail ?l) < unat (l_size ?l)"
    using assms by (auto simp: vl_wf_def log_wf_def unat_power_16)
  have "unat (l_tail ?l) * ?b \<le> unat (l_size ?l) * ?b" using w(3) by (intro mult_le_mono1) simp
  then have "unat (l_tail ?l) * ?b < 2 ^ 62" using w(1) by (rule le_less_trans)
  then have lt: "unat (l_tail ?l) * ?b < 2 ^ 64" by simp
  have "unat (kv_value_log_offset vl) = unat (l_tail ?l) * ?b"
    unfolding kv_value_log_offset_def push_bit_eq_mult unat_word_ariths using lt assms by (simp add: vl_wf_def unat_power_16)
  also have "\<dots> = ?b * ((unat (l_head ?l) + llen ?l) mod unat (l_size ?l))"
    using circ_add_dist[OF w(2,3)] by simp
  finally show ?thesis by (simp add: mult_mod_right distrib_left)
qed

text \<open>What a write does when no compaction is due.\<close>

lemma value_write_eq:
  assumes wf: "vl_wf vl" and ids: "append_bucket_id vl (kv_value_log_offset vl) bid = Inr (vl1, ds)"
    and idle: "vl_compact_idle (vl\<lparr>vl_log := append_state (vl_log vl)
        [\<lparr>iov_base = value, iov_blocks = chunks (unat (align vl (ucast vlen))) (vl_bs vl) bytes\<rparr>]\<rparr>)"
    and room: "llen (vl_log vl) + unat (align vl (ucast vlen)) < unat (l_size (vl_log vl))"
    and buf: "unat (align vl (ucast vlen)) * vl_bs vl \<le> length bytes" and al: "value AND 3 = 0"
  shows "\<exists>ios ib. kv_value_log_write vl bid value bytes vlen c =
      Inr (vl\<lparr>bucket_id_log := ib, vl_log := append_state (vl_log vl)
        [\<lparr>iov_base = value, iov_blocks = chunks (unat (align vl (ucast vlen))) (vl_bs vl) bytes\<rparr>]\<rparr>,
        map Vl_dump ds @ [Vl_append (Vl_caller c) (Iov_issued ios)]) \<and>
      (\<forall>dev. log_blocks (exec_ios ios dev) (append_state (vl_log vl)
        [\<lparr>iov_base = value, iov_blocks = chunks (unat (align vl (ucast vlen))) (vl_bs vl) bytes\<rparr>]) = log_blocks dev (vl_log vl) @
         chunks (unat (align vl (ucast vlen))) (vl_bs vl) bytes)"
proof -
  let ?l = "vl_log vl" and ?n = "align vl (ucast vlen)"
  let ?v = "\<lparr>iov_base = value, iov_blocks = chunks (unat ?n) (vl_bs vl) bytes\<rparr>"
  let ?L = "append_state ?l [?v]"
  have lw: "log_wf ?l" and bs: "unat (l_block_size ?l) = vl_bs vl" using wf by (simp_all add: vl_wf_def unat_power_16)
  have fit: "llen ?l + length (iov_data [?v]) < unat (l_size ?l)" using chunks_blocks[OF buf] room by simp
  obtain ios where ap: "kv_circular_log_appendv ?l [?v] = Inr (?L, Iov_issued ios)"
    and ex: "\<forall>dev. exec_ios ios dev = circ_write dev (unat (l_base ?l)) (unat (l_size ?l)) (unat (l_tail ?l)) (iov_data [?v])"
    using appendv_eq[OF lw _ fit] al by auto
  obtain ib where vl1: "vl1 = vl\<lparr>bucket_id_log := ib\<rparr>" using append_bucket_id_log[OF ids] by blast
  have al1: "align vl1 = align vl" by (simp add: vl1 align_def fun_eq_iff)
  have "kv_circular_log_append (vl_log vl1) \<lparr>iov_base = value, iov_blocks = chunks (unat (align vl1 (ucast vlen)))
      (unat (l_block_size (vl_log vl1))) bytes\<rparr> = Inr (?L, Iov_issued ios)"
    unfolding al1 using ap by (simp add: vl1 bs kv_circular_log_append_def kv_circular_log_appendv_def)
  moreover have "vl_compact_idle (vl1\<lparr>vl_log := ?L\<rparr>)" using idle by (simp add: vl1 vl_compact_idle_def)
  ultimately have "kv_value_log_write vl bid value bytes vlen c =
      Inr (vl1\<lparr>vl_log := ?L\<rparr>, map Vl_dump ds @ [Vl_append (Vl_caller c) (Iov_issued ios)])"
    using ids by (simp add: kv_value_log_write_def vl_compact_def)
  then show ?thesis using ex log_blocks_append[OF lw fit] by (auto simp: vl1)
qed

lemma value_write_state:
  assumes wf: "vl_wf vl" and w: "kv_value_log_write vl bid value bytes vlen c = Inr (vl', evs)"
    and idle: "vl_compact_idle (vl\<lparr>vl_log := append_state (vl_log vl)
        [\<lparr>iov_base = value, iov_blocks = chunks (unat (align vl (ucast vlen))) (vl_bs vl) bytes\<rparr>]\<rparr>)"
    and room: "llen (vl_log vl) + unat (align vl (ucast vlen)) < unat (l_size (vl_log vl))"
    and buf: "unat (align vl (ucast vlen)) * vl_bs vl \<le> length bytes" and al: "value AND 3 = 0"
  shows "\<exists>ios ib. vl' = vl\<lparr>bucket_id_log := ib, vl_log := append_state (vl_log vl)
        [\<lparr>iov_base = value, iov_blocks = chunks (unat (align vl (ucast vlen))) (vl_bs vl) bytes\<rparr>]\<rparr> \<and>
      Vl_append (Vl_caller c) (Iov_issued ios) \<in> set evs \<and>
      (\<forall>dev. log_blocks (exec_ios ios dev) (vl_log vl') = log_blocks dev (vl_log vl) @
         chunks (unat (align vl (ucast vlen))) (vl_bs vl) bytes)"
proof -
  obtain vl1 ds where ids: "append_bucket_id vl (kv_value_log_offset vl) bid = Inr (vl1, ds)"
    using w by (auto simp: kv_value_log_write_def res_simps)
  show ?thesis using value_write_eq[OF wf ids idle room buf al, of c] w by auto
qed

text \<open>
  C17. A value written while no compaction is due is read back: once the device has carried
  out the requests of the write, a read at the offset the log had before the write delivers
  the bytes that were written.
\<close>

theorem value_write_read:
  assumes wf: "vl_wf vl" and dev: "\<forall>a. length (dev a) = vl_bs vl"
    and w: "kv_value_log_write vl bid value bytes vlen c = Inr (vl', evs)"
    and idle: "vl_compact_idle (vl\<lparr>vl_log := append_state (vl_log vl)
        [\<lparr>iov_base = value, iov_blocks = chunks (unat (align vl (ucast vlen))) (vl_bs vl) bytes\<rparr>]\<rparr>)"
    and room: "llen (vl_log vl) + unat (align vl (ucast vlen)) < unat (l_size (vl_log vl))"
    and buf: "unat (align vl (ucast vlen)) * vl_bs vl \<le> length bytes" and len: "0 < unat vlen"
    and al: "value AND 3 = 0" "value' AND 3 = 0"
  shows "\<exists>ios rios. Vl_append (Vl_caller c) (Iov_issued ios) \<in> set evs \<and>
    kv_value_log_read vl' (kv_value_log_offset vl) value' vlen buf = Inr (None, Iov_issued rios) \<and>
    take (unat vlen) (value_delivered old None (concat (map (io_data (exec_ios ios dev)) rios))) = take (unat vlen) bytes"
proof -
  let ?b = "vl_bs vl" and ?l = "vl_log vl" and ?n = "align vl (ucast vlen)" and ?p = "vl_bs vl * llen (vl_log vl)"
  let ?v = "\<lparr>iov_base = value, iov_blocks = chunks (unat ?n) ?b bytes\<rparr>"
  let ?L = "append_state (vl_log vl) [?v]"
  have lw: "log_wf ?l" and m: "blk_mask vl = mask (blk_shift vl)" and sh: "0 < blk_shift vl" using wf by (simp_all add: vl_wf_def)
  obtain ios ib where vl': "vl' = vl\<lparr>bucket_id_log := ib, vl_log := ?L\<rparr>" and ev: "Vl_append (Vl_caller c) (Iov_issued ios) \<in> set evs"
    and B: "\<forall>dev. log_blocks (exec_ios ios dev) (vl_log vl') = log_blocks dev ?l @ chunks (unat ?n) ?b bytes"
    using value_write_state[OF wf w idle room buf al(1)] by blast
  note ch = chunks_blocks[OF buf]
  have fr: "l_head ?L = l_head ?l" "l_size ?L = l_size ?l" "l_block_size ?L = l_block_size ?l"
    by (simp_all add: append_state_def copy_to_fetch_buf_frame)
  have lL: "llen ?L = llen ?l + unat ?n" using llen_append_state[OF lw, of "[?v]"] room ch by simp
  have n62: "unat ?n < 2 ^ 62" using room log_wf_size[OF lw] lw by (simp add: log_wf_def)
  have wf': "vl_wf vl'" using wf append_state_wf[OF lw, of "[?v]"] n62 ch by (simp add: vl_wf_def vl' fr)
  have bl: "\<forall>x \<in> set (log_blocks dev ?l). length x = ?b" using dev by (auto simp: log_blocks_def)
  have enough: "unat vlen \<le> ?b * unat ?n" using round_up_ge[of ?b "unat vlen"] by (simp add: align_blocks[OF m sh])
  then have n0: "0 < unat ?n" using len by (cases "unat ?n") auto
  have "4 dvd ?b" using wf le_imp_power_dvd[of 2 "blk_shift vl" "2::nat"] by (simp add: vl_wf_def)
  then have a3: "kv_value_log_offset vl AND 3 = 0"
    unfolding and_3_iff unat_kv_value_log_offset[OF wf] by (simp add: mod_eq_0_iff_dvd dvd_mod)
  have "take (unat vlen) (drop ?p (concat (log_blocks (exec_ios ios dev) (vl_log vl')))) = take (unat vlen) bytes"
    using ch enough length_concat_blocks[OF bl] by (simp add: B min_def mult.commute)
  moreover have "\<forall>x \<in> set (log_blocks (exec_ios ios dev) (vl_log vl')). length x = vl_bs vl'" unfolding B[rule_format] using bl ch by (auto simp: vl')
  then have "\<exists>rios. kv_value_log_read vl' (kv_value_log_offset vl) value' vlen buf = Inr (None, Iov_issued rios) \<and>
    take (unat vlen) (value_delivered old None (concat (map (io_data (exec_ios ios dev)) rios))) =
      take (unat vlen) (drop ?p (concat (log_blocks (exec_ios ios dev) (vl_log vl'))))"
    by (rule read_at_block_start[OF wf' _ a3 al(2)])
      (use n0 enough unat_kv_value_log_offset[OF wf] in \<open>simp_all add: vl' fr lL[unfolded fr] distrib_left\<close>)
  ultimately show ?thesis using ev by auto
qed

theorem value_write_read_witness:
  "\<exists>vl' evs ios rios. kv_value_log_write (vl_ex 6 6) 5 64 [1, 2, 3, 4, 5, 6, 7, 8, 9, 10, 11, 12, 13, 14, 15, 16] 11 (0 :: nat) = Inr (vl', evs) \<and>
    Vl_append (Vl_caller 0) (Iov_issued ios) \<in> set evs \<and>
    kv_value_log_read vl' (kv_value_log_offset (vl_ex 6 6)) 256 11 512 = Inr (None, Iov_issued rios) \<and>
    take 11 (value_delivered (replicate 11 0) None (concat (map (io_data (exec_ios ios dev_ex)) rios))) =
      [1, 2, 3, 4, 5, 6, 7, 8, 9, 10, 11]"
proof -
  let ?vl = "vl_ex 6 6" and ?bytes = "[1, 2, 3, 4, 5, 6, 7, 8, 9, 10, 11, 12, 13, 14, 15, 16] :: u8 list"
  have n: "align ?vl 11 = 2" by (simp add: align_def vl_ex_def)
  have idle: "vl_compact_idle (?vl\<lparr>vl_log := l\<rparr>)" for l by (simp add: vl_compact_idle_def vl_ex_def)
  let ?v = "\<lparr>iov_base = 64, iov_blocks = chunks 2 8 ?bytes\<rparr>"
  have lw: "log_wf (vl_log ?vl)" using vl_ex_wf[of 6 6] by (simp add: vl_wf_def)
  have av: "iov_aligned [?v]" by simp
  have "length (chunks 2 8 ?bytes) = 2" by (simp add: numeral_2_eq_2)
  then have room: "llen (vl_log ?vl) + length (iov_data [?v]) < unat (l_size (vl_log ?vl))"
    by (simp add: vl_ex_def kv_circular_log_init_def)
  obtain ios where ap: "kv_circular_log_appendv (vl_log ?vl) [?v] = Inr (append_state (vl_log ?vl) [?v], Iov_issued ios)"
    using appendv_eq[OF lw av room] by blast
  have "\<exists>b. append_bucket_id ?vl (kv_value_log_offset ?vl) 5 = Inr (?vl\<lparr>bucket_id_log := b\<rparr>, [])"
    by (simp add: append_bucket_id_def vl_ex_def kv_value_log_offset_def kv_circular_log_init_def offset_to_block_def
        BUCKET_ID_DUMP_BLKS_def Let_def)
  then obtain b where ids: "append_bucket_id ?vl (kv_value_log_offset ?vl) 5 = Inr (?vl\<lparr>bucket_id_log := b\<rparr>, [])" by blast
  have al: "align (?vl\<lparr>bucket_id_log := b\<rparr>) 11 = 2" by (simp add: align_def vl_ex_def)
  have bs: "l_block_size (vl_log ?vl) = 8" by (simp add: vl_ex_def kv_circular_log_init_def)
  have "vl_compact_idle (?vl\<lparr>bucket_id_log := b, vl_log := l\<rparr>)" for l by (simp add: vl_compact_idle_def vl_ex_def)
  then obtain r where w: "kv_value_log_write ?vl 5 64 ?bytes 11 (0 :: nat) = Inr r"
    using ap by (simp add: kv_value_log_write_def ids al bs kv_circular_log_append_def kv_circular_log_appendv_def vl_compact_def)
  obtain vl' evs where "r = (vl', evs)" by (cases r)
  with w show ?thesis
    using value_write_read[of ?vl dev_ex 5 64 ?bytes 11 0 vl' evs 256 512 "replicate 11 0"] vl_ex_wf[of 6 6] idle n
    by (simp add: dev_ex_def) (simp add: vl_ex_def kv_circular_log_init_def)
qed

end
