(* ===== verification/Bucket_Log_Store.thy ===== *)
theory Bucket_Log_Store
  imports Kv_Bucket_Log
begin

unbundle bit_operations_syntax

text \<open>
  The bucket log as a store of chains. The meta of a bucket names the place of its chain in
  the log; a segment that is put and committed becomes the chain of its bucket, every other
  chain stays, and a segment that is read holds the chain.
\<close>

section \<open>Chains on the device\<close>

definition disk_chain :: "(nat \<Rightarrow> kv_bucket) \<Rightarrow> kv_bucket_log \<Rightarrow> u64 \<Rightarrow> kv_bucket list" where
  "disk_chain dev bl b =
     (let m = kv_bucket_meta_get (bl_meta bl) b; l = bl_log bl in
      map (\<lambda>i. dev (unat (l_base l) + (unat (m_bucket_offset m) + i) mod unat (l_size l))) [0..<unat (m_chain_length m)])"

text \<open>The chain lies between the head and the tail of the log.\<close>

definition chain_inside :: "'b kv_circular_log \<Rightarrow> kv_bucket_meta \<Rightarrow> bool" where
  "chain_inside l m \<longleftrightarrow> unat (m_bucket_offset m) < unat (l_size l) \<and>
     circ_dist (unat (l_size l)) (unat (l_head l)) (unat (m_bucket_offset m)) + unat (m_chain_length m) \<le> llen l"

definition bl_inv :: "(nat \<Rightarrow> kv_bucket) \<Rightarrow> kv_bucket_log \<Rightarrow> bool" where
  "bl_inv dev bl \<longleftrightarrow> log_wf (bl_log bl) \<and> unat (l_size (bl_log bl)) \<le> 2 ^ 32 \<and> meta_inv (bl_meta bl) \<and>
     (\<forall>b. \<not> is_meta_empty (kv_bucket_meta_get (bl_meta bl) b) \<longrightarrow>
        b < KV_BUCKET_ID_EMPTY \<and> chain_inside (bl_log bl) (kv_bucket_meta_get (bl_meta bl) b) \<and>
        is_chain (ucast b) (disk_chain dev bl b))"

lemma length_disk_chain [simp]:
  "length (disk_chain dev bl b) = unat (m_chain_length (kv_bucket_meta_get (bl_meta bl) b))"
  by (simp add: disk_chain_def Let_def)

lemma disk_chain_empty:
  "is_meta_empty (kv_bucket_meta_get (bl_meta bl) b) \<Longrightarrow> disk_chain dev bl b = []"
  by (simp add: disk_chain_def is_meta_empty_def)

text \<open>A run of device blocks that lies inside the log is a part of its contents.\<close>

lemma log_run:
  assumes wf: "log_wf l" and off: "off < unat (l_size l)"
    and n: "circ_dist (unat (l_size l)) (unat (l_head l)) off + n \<le> llen l"
  shows "map (\<lambda>i. dev (unat (l_base l) + (off + i) mod unat (l_size l))) [0..<n] =
    take n (drop (circ_dist (unat (l_size l)) (unat (l_head l)) off) (log_blocks dev l))"
proof (rule nth_equalityI)
  let ?k = "circ_dist (unat (l_size l)) (unat (l_head l)) off"
  have h: "unat (l_head l) < unat (l_size l)" using wf by (simp add: log_wf_def)
  note ad = circ_add_dist[OF h off]
  fix i assume "i < length (map (\<lambda>i. dev (unat (l_base l) + (off + i) mod unat (l_size l))) [0..<n])"
  then have i: "i < n" by simp
  have "(unat (l_head l) + (?k + i)) mod unat (l_size l) = (off + i) mod unat (l_size l)"
    by (metis ad add.assoc mod_add_left_eq)
  then show "map (\<lambda>i. dev (unat (l_base l) + (off + i) mod unat (l_size l))) [0..<n] ! i =
      take n (drop ?k (log_blocks dev l)) ! i"
    using i n by (simp add: log_blocks_def)
qed (use n in simp)

lemma disk_chain_in_log:
  assumes "log_wf (bl_log bl)" and "chain_inside (bl_log bl) (kv_bucket_meta_get (bl_meta bl) b)"
  shows "disk_chain dev bl b = take (unat (m_chain_length (kv_bucket_meta_get (bl_meta bl) b)))
    (drop (circ_dist (unat (l_size (bl_log bl))) (unat (l_head (bl_log bl)))
       (unat (m_bucket_offset (kv_bucket_meta_get (bl_meta bl) b)))) (log_blocks dev (bl_log bl)))"
  using log_run[OF assms(1)] assms(2) by (simp add: disk_chain_def chain_inside_def Let_def)

section \<open>Reading a segment\<close>

lemma seg_get_reads:
  assumes inv: "bl_inv dev bl" and ne: "\<not> is_meta_empty (kv_bucket_meta_get (bl_meta bl) b)"
    and addr: "addr AND 3 = 0" and buf: "unat (m_chain_length (kv_bucket_meta_get (bl_meta bl) b)) \<le> length buf"
  shows "\<exists>ios seg. kv_bucket_seg_get bl (kv_bucket_seg_init b) None addr buf = Inr (seg, Seg_reading (Iov_issued ios)) \<and>
    seg_fill (concat (map (io_data dev) ios)) seg =
      (kv_bucket_seg_init b)\<lparr>seg_chain := [\<lparr>ce_addr = addr, ce_buckets = disk_chain dev bl b, pre_alloc_bucket = False\<rparr>],
        seg_offset := m_bucket_offset (kv_bucket_meta_get (bl_meta bl) b)\<rparr>"
proof -
  let ?m = "kv_bucket_meta_get (bl_meta bl) b" and ?l = "bl_log bl"
  let ?bs = "take (unat (m_chain_length ?m)) buf"
  let ?k = "circ_dist (unat (l_size ?l)) (unat (l_head ?l)) (unat (m_bucket_offset ?m))"
  have wf: "log_wf ?l" and ci: "chain_inside ?l ?m" using inv ne by (simp_all add: bl_inv_def)
  have n0: "0 < unat (m_chain_length ?m)" using ne by (simp add: is_meta_empty_def unat_gt_0)
  have off: "unat (m_bucket_offset ?m) < unat (l_size ?l)" and fit: "?k + unat (m_chain_length ?m) \<le> llen ?l"
    using ci by (simp_all add: chain_inside_def)
  have uo: "unat (ucast (m_bucket_offset ?m) :: u64) = (unat (l_head ?l) + ?k) mod unat (l_size ?l)"
    using circ_add_dist[OF _ off, of "unat (l_head ?l)"] wf by (simp add: log_wf_def unsigned_ucast_eq)
  have lb: "length ?bs = unat (m_chain_length ?m)" using buf by simp
  obtain ios where ios: "kv_circular_log_readv ?l (ucast (m_bucket_offset ?m)) [\<lparr>iov_base = addr, iov_blocks = ?bs\<rparr>] = Inr (?l, Iov_issued ios)"
    and d: "concat (map (io_data dev) ios) = take (unat (m_chain_length ?m)) (drop ?k (log_blocks dev ?l))"
    using readv_eq[OF wf, of "[\<lparr>iov_base = addr, iov_blocks = ?bs\<rparr>]" ?k "ucast (m_bucket_offset ?m)" dev] addr n0 fit uo lb
    by auto
  have "m_chain_length ?m \<noteq> 0" using ne by (simp add: is_meta_empty_def)
  then show ?thesis using ios d disk_chain_in_log[OF wf ci, of dev]
    by (simp add: kv_bucket_seg_get_def kv_circular_log_read_def kv_bucket_seg_init_def seg_fill_def kv_circular_log_readv_def Let_def)
qed

section \<open>Writing a segment\<close>

text \<open>The stamps of \<open>kv_bucket_log_writev\<close> change nothing else in a bucket.\<close>

definition unstamp :: "kv_bucket \<Rightarrow> kv_bucket" where
  "unstamp b = b\<lparr>b_head := 0, b_tail := 0\<rparr>"

lemma unstamp_fields [simp]:
  "items (unstamp b) = items b" "b_id (unstamp b) = b_id b" "chain_length (unstamp b) = chain_length b"
  "chain_index (unstamp b) = chain_index b"
  by (simp_all add: unstamp_def)

lemma unstamp_eqD:
  assumes "map unstamp bs = map unstamp bs'"
  shows "length bs = length bs'" and "map items bs = map items bs'" and "is_chain bid bs = is_chain bid bs'"
proof -
  show l: "length bs = length bs'" using map_eq_imp_length_eq[OF assms] .
  have f: "map f bs = map f bs'" if "\<And>b. f (unstamp b) = f b" for f :: "kv_bucket \<Rightarrow> 'a"
    using arg_cong[OF assms, of "map f"] that by (simp add: comp_def)
  show "map items bs = map items bs'" by (rule f) simp
  have "b_id (bs ! i) = b_id (bs' ! i) \<and> chain_length (bs ! i) = chain_length (bs' ! i) \<and> chain_index (bs ! i) = chain_index (bs' ! i)"
    if "i < length bs" for i
    using f[of b_id] f[of chain_length] f[of chain_index] that l by (metis unstamp_fields(2-4) nth_map)
  then show "is_chain bid bs = is_chain bid bs'" using l by (auto simp: is_chain_def)
qed

lemma stamp_buckets_same:
  "stamp_buckets sz hh tt bs = (tt', bs') \<Longrightarrow> map unstamp bs' = map unstamp bs"
  by (induction bs arbitrary: tt tt' bs') (auto simp: Let_def unstamp_def split: prod.splits)

lemma stamp_iovs_same:
  "stamp_iovs sz hh tt vs = (tt', vs') \<Longrightarrow>
     map unstamp (iov_data vs') = map unstamp (iov_data vs) \<and> map iov_base vs' = map iov_base vs"
proof (induction vs arbitrary: tt tt' vs')
  case (Cons v vs)
  then show ?case by (auto simp: Let_def split: prod.splits dest: stamp_buckets_same)
qed simp

lemma iov_aligned_bases: "iov_aligned vs \<longleftrightarrow> (\<forall>a \<in> set (map iov_base vs). a AND 3 = 0)"
  by (simp add: iov_aligned_def)

lemma iov_append_data: "iov_data (iov_append vs base bs) = iov_data vs @ bs"
proof (cases "vs = []")
  case False
  then have "iov_data vs = iov_data (butlast vs) @ iov_blocks (last vs)"
    by (metis append_butlast_last_id iov_data_simps append_Nil2)
  then show ?thesis by (simp add: iov_append_def)
qed (simp add: iov_append_def)

lemma iov_append_aligned: "iov_aligned vs \<Longrightarrow> base AND 3 = 0 \<Longrightarrow> iov_aligned (iov_append vs base bs)"
  by (auto simp: iov_append_def iov_aligned_def dest: in_set_butlastD)

definition chain_aligned :: "kv_bucket_chain_entry list \<Rightarrow> bool" where
  "chain_aligned ces \<longleftrightarrow> (\<forall>ce \<in> set ces. ce_addr ce AND 3 = 0)"

lemma fold_iov_append:
  "iov_data (fold (\<lambda>ce acc. iov_append acc (ce_addr ce) (ce_buckets ce)) ces vs) = iov_data vs @ concat (map ce_buckets ces)"
  "iov_aligned vs \<Longrightarrow> chain_aligned ces \<Longrightarrow> iov_aligned (fold (\<lambda>ce acc. iov_append acc (ce_addr ce) (ce_buckets ce)) ces vs)"
  by (induction ces arbitrary: vs) (auto simp: iov_append_data chain_aligned_def iov_append_aligned)


text \<open>The state after an append of \<open>n\<close> blocks, as far as \<open>compact\<close> looks at it.\<close>

definition put_idle :: "kv_bucket_log \<Rightarrow> nat \<Rightarrow> bool" where
  "put_idle bl n \<longleftrightarrow> compact_idle (bl\<lparr>bl_log := (bl_log bl)\<lparr>l_tail :=
     word_of_nat ((unat (l_tail (bl_log bl)) + n) mod unat (l_size (bl_log bl)))\<rparr>\<rparr>)"

lemma append_state_frame:
  "l_base (append_state l vs) = l_base l" "l_size (append_state l vs) = l_size l"
  "l_head (append_state l vs) = l_head l" "l_block_size (append_state l vs) = l_block_size l"
  "l_tail (append_state l vs) = word_of_nat ((unat (l_tail l) + length (iov_data vs)) mod unat (l_size l))"
  by (simp_all add: append_state_def copy_to_fetch_buf_frame)

lemma compact_idle_append_state:
  "compact_idle (bl\<lparr>bl_tail := t, bl_log := append_state (bl_log bl) vs\<rparr>) \<longleftrightarrow> put_idle bl (length (iov_data vs))"
  by (simp add: put_idle_def compact_idle_def append_state_frame kv_circular_log_empty_space_def kv_circular_log_length_def)

lemma chain_id_not_reserved:
  assumes "b < KV_BUCKET_ID_EMPTY"
  shows "(ucast (ucast b :: u48) :: u64) \<noteq> KV_BUCKET_ID_EMPTY"
proof -
  have "unat (ucast (ucast b :: u48) :: u64) \<le> unat b" by (simp add: unsigned_ucast_eq take_bit_eq_mod)
  then show ?thesis using assms by (metis leD word_less_nat_alt)
qed

lemma seg_put_appends:
  fixes c :: 'c
  assumes wf: "log_wf (bl_log bl)" and seg: "seg_wf seg" "seg_chain seg \<noteq> []" "chain_aligned (seg_chain seg)"
    and b: "seg_bucket_id seg < KV_BUCKET_ID_EMPTY"
    and room: "llen (bl_log bl) + length (seg_buckets seg) < unat (l_size (bl_log bl))"
    and idle: "put_idle bl (length (seg_buckets seg))"
  shows "\<exists>vs t ios. kv_bucket_seg_put bl seg c =
      Inr (bl\<lparr>bl_tail := t, bl_log := append_state (bl_log bl) vs\<rparr>,
           [seg\<lparr>seg_offset := ucast (l_tail (bl_log bl))\<rparr>], [Bl_append (Bl_caller c) (Iov_issued ios)]) \<and>
    map unstamp (iov_data vs) = map unstamp (seg_buckets seg) \<and>
    (\<forall>dev. log_blocks (exec_ios ios dev) (append_state (bl_log bl) vs) = log_blocks dev (bl_log bl) @ iov_data vs) \<and>
    (\<forall>dev. exec_ios ios dev = circ_write dev (unat (l_base (bl_log bl))) (unat (l_size (bl_log bl))) (unat (l_tail (bl_log bl))) (iov_data vs))"
proof -
  let ?l = "bl_log bl" and ?vs = "fold (\<lambda>ce acc. iov_append acc (ce_addr ce) (ce_buckets ce)) (seg_chain seg) []"
  obtain t vs where st: "stamp_iovs (bl_size bl) (bl_head bl) (bl_tail bl) ?vs = (t, vs)" by fastforce
  have d: "map unstamp (iov_data vs) = map unstamp (seg_buckets seg)" and bases: "map iov_base vs = map iov_base ?vs"
    using stamp_iovs_same[OF st] by (simp_all add: fold_iov_append(1) seg_buckets_def)
  have al: "iov_aligned vs" using fold_iov_append(2)[of "[]", OF _ seg(3)] unfolding iov_aligned_bases bases by simp
  note len = unstamp_eqD(1)[OF d]
  have room': "llen ?l + length (iov_data vs) < unat (l_size ?l)" using room len by simp
  obtain ios where ap: "kv_circular_log_appendv ?l vs = Inr (append_state ?l vs, Iov_issued ios)"
    and ex: "\<forall>dev. exec_ios ios dev = circ_write dev (unat (l_base ?l)) (unat (l_size ?l)) (unat (l_tail ?l)) (iov_data vs)"
    using appendv_eq[OF wf al room'] by blast
  have wv: "writev_append bl ?vs = Inr (bl\<lparr>bl_tail := t, bl_log := append_state ?l vs\<rparr>, Iov_issued ios)"
    using st ap by (simp add: writev_append_def)
  have cp: "compact COMPACT_FUEL (bl\<lparr>bl_tail := t, bl_log := append_state ?l vs\<rparr>) =
      Inr (bl\<lparr>bl_tail := t, bl_log := append_state ?l vs\<rparr>, [] :: 'c bl_event list)"
    using idle by (simp add: COMPACT_FUEL_def numeral_eq_Suc compact_idle_append_state len)
  have chain: "is_chain (ucast (seg_bucket_id seg)) (seg_buckets seg)" using seg by (simp add: seg_wf_def)
  note vb = verify_buckets_ok[OF chain chain_id_not_reserved[OF b]]
  have tm: "l_tail ?l mod l_size ?l = l_tail ?l" using wf by (simp add: log_wf_def word_mod_less_divisor word_unat_eq_iff unat_mod)
  have "kv_bucket_seg_put bl seg c = Inr (bl\<lparr>bl_tail := t, bl_log := append_state ?l vs\<rparr>,
      [seg\<lparr>seg_offset := ucast (l_tail ?l)\<rparr>], [Bl_append (Bl_caller c) (Iov_issued ios)])"
    using seg(2) first_bucket_eq[OF seg(1,2)] vb wv cp
    by (simp add: kv_bucket_seg_put_def kv_bucket_seg_put_bulk_def with_segments_def tm Let_def)
  then show ?thesis using d ex log_blocks_append[OF wf room'] by auto
qed


section \<open>A put keeps the chains of the log\<close>

lemma circ_write_outside:
  assumes wf: "log_wf l" and len: "llen l + n < unat (l_size l)" "length d = n"
    and off: "off < unat (l_size l)" "circ_dist (unat (l_size l)) (unat (l_head l)) off + m \<le> llen l" and i: "i < m"
  shows "circ_write dev (unat (l_base l)) (unat (l_size l)) (unat (l_tail l)) d
      (unat (l_base l) + (off + i) mod unat (l_size l)) = dev (unat (l_base l) + (off + i) mod unat (l_size l))"
proof -
  let ?s = "unat (l_size l)" and ?h = "unat (l_head l)" and ?t = "unat (l_tail l)"
  let ?k = "circ_dist ?s ?h off + i"
  have b: "?h < ?s" "?t < ?s" using wf by (auto simp: log_wf_def)
  have k: "?k < llen l" using off(2) i by simp
  moreover have "llen l < ?s" using b by simp
  ultimately have ks: "?k < ?s" by (rule less_trans)
  have "(off + i) mod ?s = (?h + ?k) mod ?s" by (metis circ_add_dist[OF b(1) off(1)] add.assoc mod_add_left_eq)
  moreover have "circ_dist ?s ?t ((?h + ?k) mod ?s) = ?s - llen l + ?k"
    using circ_dist_from_tail[OF b ks] k by simp
  ultimately have "circ_dist ?s ?t ((off + i) mod ?s) = ?s - llen l + ?k" by (simp only:)
  then have "\<not> circ_dist ?s ?t ((off + i) mod ?s) < length d" using len by linarith
  then show ?thesis by (simp add: circ_write_def)
qed

lemma chain_inside_append:
  assumes wf: "log_wf l" and room: "llen l + length (iov_data vs) < unat (l_size l)"
  shows "chain_inside l m \<Longrightarrow> chain_inside (append_state l vs) m"
    and "n = length (iov_data vs) \<Longrightarrow> unat (m_chain_length m) = n \<Longrightarrow> unat (m_bucket_offset m) = unat (l_tail l) \<Longrightarrow> chain_inside (append_state l vs) m"
  using llen_append_state[OF assms] wf by (auto simp: chain_inside_def append_state_frame log_wf_def)

lemma put_keeps_chains:
  assumes inv: "bl_inv dev bl" and room: "llen (bl_log bl) + length (iov_data vs) < unat (l_size (bl_log bl))"
    and dev': "dev' = circ_write dev (unat (l_base (bl_log bl))) (unat (l_size (bl_log bl))) (unat (l_tail (bl_log bl))) (iov_data vs)"
  shows "disk_chain dev' (bl\<lparr>bl_tail := t, bl_log := append_state (bl_log bl) vs\<rparr>) b = disk_chain dev bl b"
    and "bl_inv dev' (bl\<lparr>bl_tail := t, bl_log := append_state (bl_log bl) vs\<rparr>)"
proof -
  let ?l = "bl_log bl" and ?bl = "bl\<lparr>bl_tail := t, bl_log := append_state (bl_log bl) vs\<rparr>"
  have wf: "log_wf ?l" using inv by (simp add: bl_inv_def)
  have same: "disk_chain dev' ?bl b = disk_chain dev bl b" for b
  proof (cases "is_meta_empty (kv_bucket_meta_get (bl_meta bl) b)")
    case False
    then have "chain_inside ?l (kv_bucket_meta_get (bl_meta bl) b)" using inv by (simp add: bl_inv_def)
    then show ?thesis using circ_write_outside[OF wf room refl]
      by (auto simp: disk_chain_def Let_def append_state_frame dev' chain_inside_def)
  qed (simp add: disk_chain_empty)
  then show "disk_chain dev' ?bl b = disk_chain dev bl b" .
  have "length (iov_data vs) < 2 ^ 62" using room log_wf_size(2)[OF wf] by simp
  then show "bl_inv dev' ?bl" using inv append_state_wf[OF wf] chain_inside_append(1)[OF wf room] same
    by (simp add: bl_inv_def append_state_frame)
qed

section \<open>Commit\<close>

definition seg_meta :: "kv_bucket_segment \<Rightarrow> kv_bucket_meta" where
  "seg_meta seg =
     (if length (seg_buckets seg) \<le> 1 \<and> list_all (list_all KV_EMPTY_ITEM) (map items (seg_buckets seg)) then zero_meta
      else \<lparr>m_chain_length = chain_length (hd (seg_buckets seg)), m_bucket_offset = seg_offset seg\<rparr>)"

lemma seg_commit_eq:
  assumes wf: "seg_wf seg" "seg_dirty seg" and b: "seg_bucket_id seg < KV_BUCKET_ID_EMPTY"
  shows "kv_bucket_seg_commit m seg = Inr (kv_bucket_meta_put m (seg_bucket_id seg) (seg_meta seg), seg\<lparr>seg_dirty := False\<rparr>)"
proof (cases "seg_chain seg = []")
  case True
  then show ?thesis using wf(2) by (simp add: kv_bucket_seg_commit_def is_empty_seg_def seg_meta_def)
next
  case False
  note fb = first_bucket_eq[OF wf(1) False]
  have c: "is_chain (ucast (seg_bucket_id seg)) (seg_buckets seg)" using wf(1) False by (simp add: seg_wf_def)
  note vb = verify_buckets_ok[OF c chain_id_not_reserved[OF b]]
  obtain b0 bs where bs: "seg_buckets seg = b0 # bs" using fb(2) by (cases "seg_buckets seg") auto
  have "chain_length b0 > 1 \<longleftrightarrow> bs \<noteq> []" using is_chain_hd(1)[OF c] bs by (simp add: word_less_nat_alt)
  then show ?thesis using fb vb wf(2) False by (auto simp: kv_bucket_seg_commit_def is_empty_seg_def seg_meta_def bs)
qed

lemma commit_sets_chain:
  assumes inv: "bl_inv dev bl" and wf: "seg_wf seg" and b: "seg_bucket_id seg < KV_BUCKET_ID_EMPTY"
    and inside: "unat (seg_offset seg) < unat (l_size (bl_log bl))"
      "circ_dist (unat (l_size (bl_log bl))) (unat (l_head (bl_log bl))) (unat (seg_offset seg)) + length (seg_buckets seg) \<le> llen (bl_log bl)"
    and data: "map unstamp (map (\<lambda>i. dev (unat (l_base (bl_log bl)) + (unat (seg_offset seg) + i) mod unat (l_size (bl_log bl))))
        [0..<length (seg_buckets seg)]) = map unstamp (seg_buckets seg)"
    and live: "is_meta_empty (kv_bucket_meta_get (bl_meta bl) (seg_bucket_id seg)) \<Longrightarrow> seg_meta seg \<noteq> zero_meta"
    and bl': "bl' = bl\<lparr>bl_meta := kv_bucket_meta_put (bl_meta bl) (seg_bucket_id seg) (seg_meta seg)\<rparr>"
  shows "bl_inv dev bl'" and "x \<noteq> seg_bucket_id seg \<Longrightarrow> disk_chain dev bl' x = disk_chain dev bl x"
    and "map unstamp (disk_chain dev bl' (seg_bucket_id seg)) = (if seg_meta seg = zero_meta then [] else map unstamp (seg_buckets seg))"
proof -
  let ?b = "seg_bucket_id seg" and ?m = "bl_meta bl"
  have mi: "meta_inv ?m" using inv by (simp add: bl_inv_def)
  have ne: "seg_meta seg = zero_meta \<or> seg_chain seg \<noteq> [] \<and> seg_meta seg = \<lparr>m_chain_length = chain_length (hd (seg_buckets seg)), m_bucket_offset = seg_offset seg\<rparr>"
    by (auto simp: seg_meta_def)
  have chain: "is_chain (ucast ?b) (seg_buckets seg)" if "seg_chain seg \<noteq> []" using wf that by (simp add: seg_wf_def)
  have len: "unat (m_chain_length (seg_meta seg)) = length (seg_buckets seg)" "m_bucket_offset (seg_meta seg) = seg_offset seg"
      "is_chain (ucast ?b) (seg_buckets seg)" "\<not> is_meta_empty (seg_meta seg)" if "seg_meta seg \<noteq> zero_meta"
    using ne that is_chain_hd(1)[OF chain] chain by (auto simp: is_meta_empty_def is_chain_def)
  have ok: "meta_put_ok ?m ?b (seg_meta seg)"
    using len(4) live by (cases "seg_meta seg = zero_meta") (auto simp: meta_put_ok_def)
  note get = meta_get_put[OF mi ok] and mi' = meta_put_inv[OF mi ok]
  show other: "disk_chain dev bl' x = disk_chain dev bl x" if "x \<noteq> ?b" for x
    using that by (simp add: bl' disk_chain_def get)
  show new: "map unstamp (disk_chain dev bl' ?b) = (if seg_meta seg = zero_meta then [] else map unstamp (seg_buckets seg))"
    using len(1,2) data by (simp add: bl' disk_chain_def get Let_def zero_meta_def)
  have "b < KV_BUCKET_ID_EMPTY \<and> chain_inside (bl_log bl) (kv_bucket_meta_get (bl_meta bl') b) \<and> is_chain (ucast b) (disk_chain dev bl' b)"
    if n: "\<not> is_meta_empty (kv_bucket_meta_get (bl_meta bl') b)" for b
  proof (cases "b = ?b")
    case True
    with n have z: "seg_meta seg \<noteq> zero_meta" by (auto simp: bl' get)
    have "is_chain (ucast ?b) (disk_chain dev bl' ?b)"
      using unstamp_eqD(3)[of "disk_chain dev bl' ?b" "seg_buckets seg"] new z len(3) by simp
    then show ?thesis using True b inside len(1,2)[OF z] by (simp add: chain_inside_def bl' get)
  next
    case False
    then show ?thesis using n inv other[OF False] by (simp add: bl_inv_def bl' get)
  qed
  then show "bl_inv dev bl'" using inv mi' by (simp add: bl_inv_def bl')
qed


section \<open>A segment put and committed\<close>

text \<open>
  The whole write of a changed chain: the segment is appended, the device carries out the
  requests, and the commit makes the new chain the chain of its bucket.
\<close>

lemma seg_put_commit:
  fixes c :: 'c
  assumes inv: "bl_inv dev bl" and seg: "seg_wf seg" "seg_chain seg \<noteq> []" "chain_aligned (seg_chain seg)" "seg_dirty seg"
    and b: "seg_bucket_id seg < KV_BUCKET_ID_EMPTY"
    and room: "llen (bl_log bl) + length (seg_buckets seg) < unat (l_size (bl_log bl))"
    and idle: "put_idle bl (length (seg_buckets seg))"
    and live: "is_meta_empty (kv_bucket_meta_get (bl_meta bl) (seg_bucket_id seg)) \<Longrightarrow>
      \<not> (length (seg_buckets seg) \<le> 1 \<and> list_all (list_all KV_EMPTY_ITEM) (map items (seg_buckets seg)))"
  shows "\<exists>bl1 seg1 ios m seg2. kv_bucket_seg_put bl seg c = Inr (bl1, [seg1], [Bl_append (Bl_caller c) (Iov_issued ios)]) \<and>
    bl_meta bl1 = bl_meta bl \<and> bl_inv (exec_ios ios dev) bl1 \<and>
    kv_bucket_seg_commit (bl_meta bl1) seg1 = Inr (m, seg2) \<and> bl_inv (exec_ios ios dev) (bl1\<lparr>bl_meta := m\<rparr>) \<and>
    (\<forall>x. x \<noteq> seg_bucket_id seg \<longrightarrow> disk_chain (exec_ios ios dev) (bl1\<lparr>bl_meta := m\<rparr>) x = disk_chain dev bl x) \<and>
    map unstamp (disk_chain (exec_ios ios dev) (bl1\<lparr>bl_meta := m\<rparr>) (seg_bucket_id seg)) =
      (if length (seg_buckets seg) \<le> 1 \<and> list_all (list_all KV_EMPTY_ITEM) (map items (seg_buckets seg)) then []
       else map unstamp (seg_buckets seg))"
proof -
  let ?l = "bl_log bl" and ?seg = "seg\<lparr>seg_offset := ucast (l_tail (bl_log bl))\<rparr>"
  have wf: "log_wf ?l" and s32: "unat (l_size ?l) \<le> 2 ^ 32" using inv by (simp_all add: bl_inv_def)
  obtain vs t ios where put: "kv_bucket_seg_put bl seg c =
      Inr (bl\<lparr>bl_tail := t, bl_log := append_state ?l vs\<rparr>, [?seg], [Bl_append (Bl_caller c) (Iov_issued ios)])"
    and d: "map unstamp (iov_data vs) = map unstamp (seg_buckets seg)"
    and lb: "log_blocks (exec_ios ios dev) (append_state ?l vs) = log_blocks dev ?l @ iov_data vs"
    and ex: "exec_ios ios dev = circ_write dev (unat (l_base ?l)) (unat (l_size ?l)) (unat (l_tail ?l)) (iov_data vs)"
    using seg_put_appends[OF wf seg(1-3) b room idle, of c] by metis
  let ?bl = "bl\<lparr>bl_tail := t, bl_log := append_state ?l vs\<rparr>" and ?dev = "exec_ios ios dev"
  note len = unstamp_eqD(1)[OF d]
  have room': "llen ?l + length (iov_data vs) < unat (l_size ?l)" using room len by simp
  note kc = put_keeps_chains[OF inv room' ex, of t]
  have tl: "unat (l_tail ?l) < unat (l_size ?l)" "unat (l_head ?l) < unat (l_size ?l)" using wf by (auto simp: log_wf_def)
  have off: "unat (ucast (l_tail ?l) :: u32) = unat (l_tail ?l)" using tl s32 by (simp add: unsigned_ucast_eq take_bit_eq_mod)
  note wf' = append_state_wf[OF wf, of vs]
  have "length (iov_data vs) < 2 ^ 62" using room' log_wf_size(2)[OF wf] by simp
  note run = log_run[OF wf'[OF this], of "unat (l_tail ?l)" "length (iov_data vs)" ?dev]
  have data: "map (\<lambda>i. ?dev (unat (l_base ?l) + (unat (seg_offset ?seg) + i) mod unat (l_size ?l))) [0..<length (iov_data vs)] = iov_data vs"
    using run lb tl llen_append_state[OF wf room'] by (simp add: append_state_frame off)
  have sm: "seg_meta ?seg = zero_meta \<longleftrightarrow> length (seg_buckets seg) \<le> 1 \<and> list_all (list_all KV_EMPTY_ITEM) (map items (seg_buckets seg))"
    using is_chain_hd(1)[of "ucast (seg_bucket_id seg)" "seg_buckets seg"] seg(1,2) first_bucket_eq(2)[OF seg(1,2)]
    by (auto simp: seg_meta_def seg_wf_def zero_meta_def)
  have sw: "seg_wf ?seg" using seg(1) by (simp add: seg_wf_def)
  let ?m = "kv_bucket_meta_put (bl_meta ?bl) (seg_bucket_id ?seg) (seg_meta ?seg)"
  have com: "kv_bucket_seg_commit (bl_meta ?bl) ?seg = Inr (?m, ?seg\<lparr>seg_dirty := False\<rparr>)"
    using sw seg(4) b by (intro seg_commit_eq) simp_all
  note cs = commit_sets_chain[OF kc(2) sw, where bl' = "?bl\<lparr>bl_meta := ?m\<rparr>"]
  have pre: "seg_bucket_id ?seg < KV_BUCKET_ID_EMPTY" "unat (seg_offset ?seg) < unat (l_size (bl_log ?bl))"
    "circ_dist (unat (l_size (bl_log ?bl))) (unat (l_head (bl_log ?bl))) (unat (seg_offset ?seg)) + length (seg_buckets ?seg) \<le> llen (bl_log ?bl)"
    "map unstamp (map (\<lambda>i. ?dev (unat (l_base (bl_log ?bl)) + (unat (seg_offset ?seg) + i) mod unat (l_size (bl_log ?bl))))
        [0..<length (seg_buckets ?seg)]) = map unstamp (seg_buckets ?seg)"
    "is_meta_empty (kv_bucket_meta_get (bl_meta ?bl) (seg_bucket_id ?seg)) \<Longrightarrow> seg_meta ?seg \<noteq> zero_meta"
    using b tl llen_append_state[OF wf room'] data d len live sm by (simp_all add: off append_state_frame)
  show ?thesis using put com kc cs[OF pre refl] sm by (intro exI[of _ ?bl] exI[of _ ?seg] exI[of _ ios] exI[of _ ?m] exI[of _ "?seg\<lparr>seg_dirty := False\<rparr>"]) simp
qed

end
