(* ===== verification/Store_Map.thy ===== *)
theory Store_Map
  imports Segment_Map Value_Log_Read Bucket_Log_Store
begin

unbundle bit_operations_syntax

text \<open>
  The data store as a map from keys to values: the bucket of a key names a chain in the
  bucket log, the chain an item, and the item a place in the value log. Set, get and delete
  are run alone, with the device carrying out every request they issue; they act on this map
  like assignment, lookup and removal.
\<close>

section \<open>Lookup in a chain\<close>

lemma locate_items: "map items bs = map items bs' \<Longrightarrow> locate P bs k = locate P bs' k"
proof (induction bs arbitrary: bs' k)
  case (Cons b bs)
  then obtain b' cs where "bs' = b' # cs" "items b = items b'" "map items bs = map items cs" by (cases bs') auto
  then show ?case using Cons.IH[of cs] by (simp split: option.split)
qed simp

lemma seg_lookup_cong:
  assumes "rows s = rows s'"
  shows "seg_lookup s k = seg_lookup s' k"
proof -
  have m: "map items (seg_buckets s) = map items (seg_buckets s')" using assms by (simp add: rows_def)
  have f: "find_item_plus s k = find_item_plus s' k" unfolding find_item_plus_def by (rule locate_items[OF m])
  have "val_of (seg_item s p) = val_of (seg_item s' p)" if "find_item_plus s' k = Some p" for p
  proof -
    have "fst p < length (rows s')" using rows_Some that by (auto simp: find_item_plus_def valid_pos_def)
    then show ?thesis using seg_item_rows[of p s] seg_item_rows[of p s'] assms by simp
  qed
  then show ?thesis by (auto simp: seg_lookup_def f option.map_sel intro!: option.map_cong)
qed

definition chain_seg :: "kv_bucket list \<Rightarrow> kv_bucket_segment" where
  "chain_seg bs = (kv_bucket_seg_init 0)\<lparr>seg_chain := [\<lparr>ce_addr = 0, ce_buckets = bs, pre_alloc_bucket = False\<rparr>]\<rparr>"

lemma rows_chain_seg [simp]: "rows (chain_seg bs) = map items bs"
  by (simp add: rows_def chain_seg_def)

definition chain_lookup :: "kv_bucket list \<Rightarrow> u8 list \<Rightarrow> (u32 \<times> u48) option" where
  "chain_lookup bs k = seg_lookup (chain_seg bs) k"

lemma chain_lookup_rows: "map items bs = rows seg \<Longrightarrow> chain_lookup bs k = seg_lookup seg k"
  unfolding chain_lookup_def by (rule seg_lookup_cong) simp

lemma chain_lookup_Nil [simp]: "chain_lookup [] k = None"
  by (simp add: chain_lookup_def seg_lookup_def find_item_plus_def chain_seg_def)

lemma seg_lookup_live:
  assumes "items_inv (rows seg)" and "seg_lookup seg k = Some v" and "k \<noteq> []"
  shows "\<not> list_all (list_all KV_EMPTY_ITEM) (rows seg)"
proof -
  obtain p where "find_item_plus seg k = Some p" using assms(2) by (auto simp: seg_lookup_def)
  from find_item_Some[OF assms(1) this assms(3)] have "at_pos (rows seg) p \<in> set (concat (rows seg))" "\<not> KV_EMPTY_ITEM (at_pos (rows seg) p)"
    by (simp_all add: live_mem)
  then show ?thesis by (auto simp: list_all_iff)
qed

lemma seg_lookup_empty:
  assumes "items_inv (rows seg)" and "list_all (list_all KV_EMPTY_ITEM) (rows seg)" and "k \<noteq> []"
  shows "seg_lookup seg k = None"
  using seg_lookup_live[OF assms(1) _ assms(3)] assms(2) by (cases "seg_lookup seg k") auto

section \<open>Addresses and flags that the updates of a segment keep\<close>

lemma update_nth_bucket_addrs: "map ce_addr (update_nth_bucket ces k f) = map ce_addr ces"
  by (induction ces arbitrary: k) auto

lemma chain_aligned_addrs: "chain_aligned ces \<longleftrightarrow> (\<forall>a \<in> set (map ce_addr ces). a AND 3 = 0)"
  by (simp add: chain_aligned_def)

lemma update_item_keeps [simp]:
  "chain_aligned (seg_chain (seg_update_item seg p f)) \<longleftrightarrow> chain_aligned (seg_chain seg)"
  "seg_dirty (seg_update_item seg p f) = seg_dirty seg"
  "length (seg_buckets (seg_update_item seg p f)) = length (seg_buckets seg)"
proof -
  have "length (concat (map ce_buckets (update_nth_bucket ces k g))) = length (concat (map ce_buckets ces))" for ces k g
    by (induction ces arbitrary: k) auto
  then show "length (seg_buckets (seg_update_item seg p f)) = length (seg_buckets seg)"
    by (simp add: seg_update_item_def seg_buckets_def)
qed (simp_all add: seg_update_item_def chain_aligned_addrs update_nth_bucket_addrs)

lemma set_chain_length_keeps [simp]:
  "chain_aligned (set_chain_length n ces) \<longleftrightarrow> chain_aligned ces"
  by (simp add: chain_aligned_def set_chain_length_def)

lemma chain_aligned_append [simp]:
  "chain_aligned (xs @ ys) \<longleftrightarrow> chain_aligned xs \<and> chain_aligned ys" "chain_aligned []"
  "chain_aligned (ce # ys) \<longleftrightarrow> ce_addr ce AND 3 = 0 \<and> chain_aligned ys"
  by (auto simp: chain_aligned_def)

lemma length_set_chain_length [simp]:
  "length (seg_buckets (seg\<lparr>seg_chain := set_chain_length n ces\<rparr>)) = length (concat (map ce_buckets ces))"
  by (simp add: concat_set_chain_length del: length_concat)

lemma find_empty_keeps:
  assumes "find_empty addr seg = Inr (seg', r)" and "addr AND 3 = 0" and "chain_aligned (seg_chain seg)"
  shows "chain_aligned (seg_chain seg') \<and> length (seg_buckets seg') \<in> {length (seg_buckets seg), Suc (length (seg_buckets seg))}"
proof -
  have "chain_aligned (seg_chain s) \<and> length (seg_buckets s) \<in> {length (seg_buckets seg), Suc (length (seg_buckets seg))}"
    if "kv_bucket_alloc_extra addr seg = Inr (ok, s)" for ok s
    using that assms(2,3)
    by (auto simp: kv_bucket_alloc_extra_def res_simps Let_def simp del: seg_buckets_simps(2) length_concat split: if_splits)
      (simp_all add: seg_buckets_def)
  then show ?thesis using assms by (auto simp: find_empty_def res_simps split: option.splits)
qed

lemma seg_set_keeps:
  assumes "seg_set addr k len off seg = Inr (c, Some seg')" and "addr AND 3 = 0" and "chain_aligned (seg_chain seg)"
  shows "chain_aligned (seg_chain seg') \<and> length (seg_buckets seg') \<in> {length (seg_buckets seg), Suc (length (seg_buckets seg))}"
  using assms(1,3) by (auto simp: seg_set_def res_simps split: option.splits dest!: find_empty_keeps[OF _ assms(2,3)])

lemma free_extra_keeps:
  assumes f: "kv_bucket_free_extra seg = Inr seg'" and wf: "seg_wf seg" and n: "1 < length (seg_buckets seg)"
  shows "chain_aligned (seg_chain seg) \<longrightarrow> chain_aligned (seg_chain seg')" and "seg_dirty seg' = seg_dirty seg"
    and "length (seg_buckets seg') = length (seg_buckets seg) - 1"
proof -
  have c: "seg_chain seg \<noteq> []" using n by auto
  show "length (seg_buckets seg') = length (seg_buckets seg) - 1" using free_extra_wf[OF wf c] f
    by (metis Inr_inject length_butlast length_map)
  have "seg_chain seg = butlast (seg_chain seg) @ [last (seg_chain seg)]" using c by simp
  then have "chain_aligned (seg_chain seg) \<longleftrightarrow> chain_aligned (butlast (seg_chain seg)) \<and> ce_addr (last (seg_chain seg)) AND 3 = 0"
    by (metis chain_aligned_append)
  then show "chain_aligned (seg_chain seg) \<longrightarrow> chain_aligned (seg_chain seg')" "seg_dirty seg' = seg_dirty seg"
    using f by (auto simp: kv_bucket_free_extra_def res_simps Let_def split: if_splits)
qed

lemma fill_loop_keeps:
  assumes "fill_loop ps j seg = Inr seg'" and "seg_wf seg" and "1 < length (seg_buckets seg)"
    and "\<forall>p \<in> set ps. fst p < length (seg_buckets seg)"
  shows "(chain_aligned (seg_chain seg) \<longrightarrow> chain_aligned (seg_chain seg')) \<and> seg_dirty seg' = seg_dirty seg \<and>
    length (seg_buckets seg') \<in> {length (seg_buckets seg), length (seg_buckets seg) - 1}"
  using assms
proof (induction ps j seg rule: fill_loop.induct)
  case (2 p ps j seg)
  let ?n = "length (seg_buckets seg) - 1"
  let ?its = "items (seg_buckets seg ! ?n)"
  show ?case
  proof (cases "KV_EMPTY_ITEM (seg_item seg p)")
    case False
    then show ?thesis using 2 by simp
  next
    case True
    show ?thesis
    proof (cases "next_to_move ?its (KV_ITEM_PER_BUCKET - j) j")
      case None
      then show ?thesis using 2(3) True free_extra_keeps[OF _ 2(4,5)] by (simp add: Let_def)
    next
      case (Some j')
      let ?s1 = "seg_update_item seg p (\<lambda>_. ?its ! j')"
      let ?s2 = "seg_update_item ?s1 (?n, j') (\<lambda>it. it\<lparr>key_length := 0\<rparr>)"
      have "seg_wf ?s1" using seg_update_wf(1)[OF 2(4), of p] 2(6) by (simp add: rows_def)
      then have "seg_wf ?s2" using seg_update_wf(1)[of ?s1 "(?n, j')"] 2(5) by (simp add: rows_def)
      then show ?thesis using 2(1)[OF True refl refl Some] 2(3,5,6) True Some by (simp add: Let_def)
    qed
  qed
qed auto

lemma seg_delete_keeps:
  assumes inv: "seg_inv seg" and d: "seg_delete k seg = Inr (Some seg')"
  shows "(chain_aligned (seg_chain seg) \<longrightarrow> chain_aligned (seg_chain seg')) \<and> seg_dirty seg' \<and> seg_buckets seg' \<noteq> [] \<and>
    length (seg_buckets seg') \<in> {length (seg_buckets seg), length (seg_buckets seg) - 1}"
proof -
  obtain p where p: "find_item_plus seg k = Some p" using d by (auto simp: seg_delete_def split: option.splits)
  let ?s = "seg_update_item (seg\<lparr>seg_dirty := True\<rparr>) p (\<lambda>it. it\<lparr>key_length := 0\<rparr>)"
  have h: "fill_the_hole ?s = Inr seg'" using d p by (simp add: seg_delete_def res_simps)
  have wf: "seg_wf (seg\<lparr>seg_dirty := True\<rparr>)" using inv by (simp add: seg_inv_def seg_wf_def)
  have b: "fst p < length (rows (seg\<lparr>seg_dirty := True\<rparr>))"
    using rows_Some p by (auto simp: find_item_plus_def valid_pos_def rows_def)
  note u = seg_update_wf(1-3)[OF wf b, where f = "\<lambda>it. it\<lparr>key_length := 0\<rparr>"]
  have n0: "seg_buckets seg \<noteq> []" using b by (auto simp: rows_def)
  note fb = first_bucket_eq[OF u(1,3)]
  have "is_chain (ucast (seg_bucket_id ?s)) (seg_buckets ?s)" using u(1,3) by (simp add: seg_wf_def)
  from is_chain_hd(1)[OF this] have cl: "unat (chain_length (hd (seg_buckets ?s))) = length (seg_buckets seg)" by simp
  show ?thesis
  proof (cases "chain_length (hd (seg_buckets ?s)) = 1")
    case True
    then have "seg' = ?s" using h fb by (simp add: fill_the_hole_def)
    then show ?thesis using n0 fb(2) by simp
  next
    case False
    then have l: "1 < length (seg_buckets ?s)" using cl n0 by (cases "seg_buckets seg") (auto simp: word_unat_eq_iff)
    have f: "fill_loop (slots_before_last ?s) 0 ?s = Inr seg'" using h fb False by (simp add: fill_the_hole_def)
    have "\<forall>p \<in> set (slots_before_last ?s). fst p < length (seg_buckets ?s)" by (auto simp: slots_before_last_def)
    from fill_loop_keeps[OF f u(1) l this] l show ?thesis by auto
  qed
qed


section \<open>Places of values\<close>

text \<open>The position of a byte offset in the value log, counted from the head, and the bytes at it.\<close>

definition value_pos :: "kv_value_log \<Rightarrow> u48 \<Rightarrow> nat" where
  "value_pos vl off = circ_dist (vl_bs vl * unat (l_size (vl_log vl))) (vl_bs vl * unat (l_head (vl_log vl))) (unat off)"

definition value_bytes :: "(nat \<Rightarrow> byte_block) \<Rightarrow> kv_value_log \<Rightarrow> u32 \<times> u48 \<Rightarrow> u8 list" where
  "value_bytes dev vl v = take (unat (fst v)) (drop (value_pos vl (snd v)) (concat (log_blocks dev (vl_log vl))))"

definition value_inside :: "kv_value_log \<Rightarrow> u32 \<times> u48 \<Rightarrow> bool" where
  "value_inside vl v \<longleftrightarrow> (ucast (snd v) :: u64) AND 3 = 0 \<and> 0 < unat (fst v) \<and> unat (snd v) < vl_bs vl * unat (l_size (vl_log vl)) \<and>
     value_pos vl (snd v) + unat (fst v) \<le> vl_bs vl * llen (vl_log vl)"

definition vl_inv :: "(nat \<Rightarrow> byte_block) \<Rightarrow> kv_value_log \<Rightarrow> bool" where
  "vl_inv dev vl \<longleftrightarrow> vl_wf vl \<and> (\<forall>b \<in> set (log_blocks dev (vl_log vl)). length b = vl_bs vl) \<and>
     vl_bs vl * unat (l_size (vl_log vl)) \<le> 2 ^ 48"

lemma unat_ucast_48 [simp]: "unat (ucast (w :: u48) :: u64) = unat w"
  by (simp add: unsigned_ucast_eq)

lemma read_value_inside:
  assumes inv: "vl_inv dev vl" and v: "value_inside vl (n, off)" and al: "value AND 3 = 0" "buf AND 3 = 0"
    and old: "unat n \<le> length old"
  shows "\<exists>ctx ios. kv_value_log_read vl (ucast off) value n buf = Inr (ctx, Iov_issued ios) \<and>
    take (unat n) (value_delivered old ctx (concat (map (io_data dev) ios))) = value_bytes dev vl (n, off)"
proof -
  let ?b = "vl_bs vl" and ?l = "vl_log vl"
  have wf: "vl_wf vl" and bl: "\<forall>b \<in> set (log_blocks dev ?l). length b = ?b" using inv by (simp_all add: vl_inv_def)
  have h: "?b * unat (l_head ?l) < ?b * unat (l_size ?l)" using wf by (simp add: vl_wf_def log_wf_def)
  have o: "unat off < ?b * unat (l_size ?l)" "value_pos vl off + unat n \<le> ?b * llen ?l" "(ucast off :: u64) AND 3 = 0" "0 < unat n"
    using v by (simp_all add: value_inside_def)
  have "unat (ucast off :: u64) = (?b * unat (l_head ?l) + value_pos vl off) mod (?b * unat (l_size ?l))"
    using circ_add_dist[OF h o(1)] by (simp add: value_pos_def)
  from value_read_all[OF wf bl o(3) al this _ o(2) old] show ?thesis using o(2,4) by (simp add: value_bytes_def)
qed


text \<open>The state after an append of \<open>n\<close> blocks, as far as the compaction looks at it.\<close>

definition write_idle :: "kv_value_log \<Rightarrow> nat \<Rightarrow> bool" where
  "write_idle vl n \<longleftrightarrow> vl_compact_idle (vl\<lparr>vl_log := (vl_log vl)\<lparr>l_tail :=
     word_of_nat ((unat (l_tail (vl_log vl)) + n) mod unat (l_size (vl_log vl)))\<rparr>\<rparr>)"

lemma write_idle_append_state:
  "vl_compact_idle (vl\<lparr>vl_log := append_state (vl_log vl) vs\<rparr>) \<longleftrightarrow> write_idle vl (length (iov_data vs))"
  by (simp add: write_idle_def vl_compact_idle_def append_state_frame kv_circular_log_empty_space_def kv_circular_log_length_def)

lemma place_kept:
  assumes vl': "vl_log vl' = append_state (vl_log vl) vs" "blk_shift vl' = blk_shift vl"
    and lb: "log_blocks dev' (vl_log vl') = log_blocks dev (vl_log vl) @ new"
    and bl: "\<forall>b \<in> set (log_blocks dev (vl_log vl)). length b = vl_bs vl" and v: "value_inside vl v"
  shows "value_inside vl' v \<and> value_bytes dev' vl' v = value_bytes dev vl v"
proof -
  have p: "value_pos vl' (snd v) = value_pos vl (snd v)" by (simp add: value_pos_def vl' append_state_frame)
  have fr: "unat (l_size (vl_log vl')) = unat (l_size (vl_log vl))" by (simp add: vl' append_state_frame)
  have "llen (vl_log vl') = llen (vl_log vl) + length new" using arg_cong[OF lb, of length] by simp
  then have "vl_bs vl * llen (vl_log vl) \<le> vl_bs vl' * llen (vl_log vl')" by (simp add: vl'(2))
  then have "value_pos vl (snd v) + unat (fst v) \<le> vl_bs vl' * llen (vl_log vl')" using v by (simp only: value_inside_def) linarith
  moreover have "value_pos vl (snd v) + unat (fst v) \<le> length (concat (log_blocks dev (vl_log vl)))"
    using v by (simp add: value_inside_def length_concat_blocks[OF bl])
  ultimately show ?thesis using v unfolding value_inside_def value_bytes_def p lb by (simp add: vl'(2) fr)
qed

lemma value_write_extends:
  assumes inv: "vl_inv dev vl" and ids: "append_bucket_id vl (kv_value_log_offset vl) bid = Inr (vl1, ds)"
    and idle: "write_idle vl (unat (align vl (ucast vlen)))"
    and room: "llen (vl_log vl) + unat (align vl (ucast vlen)) < unat (l_size (vl_log vl))"
    and buf: "unat (align vl (ucast vlen)) * vl_bs vl \<le> length bytes" and al: "value AND 3 = 0" and len: "0 < unat vlen"
  shows "\<exists>vl' ios. kv_value_log_write vl bid value bytes vlen c = Inr (vl', map Vl_dump ds @ [Vl_append (Vl_caller c) (Iov_issued ios)]) \<and>
    vl_inv (exec_ios ios dev) vl' \<and> value_inside vl' (vlen, ucast (kv_value_log_offset vl)) \<and>
    value_bytes (exec_ios ios dev) vl' (vlen, ucast (kv_value_log_offset vl)) = take (unat vlen) bytes \<and>
    (\<forall>v. value_inside vl v \<longrightarrow> value_inside vl' v \<and> value_bytes (exec_ios ios dev) vl' v = value_bytes dev vl v)"
proof -
  let ?b = "vl_bs vl" and ?l = "vl_log vl" and ?n = "unat (align vl (ucast vlen))"
  let ?vs = "[\<lparr>iov_base = value, iov_blocks = chunks ?n ?b bytes\<rparr>]"
  have wf: "vl_wf vl" and bl: "\<forall>b \<in> set (log_blocks dev ?l). length b = ?b" and s48: "?b * unat (l_size ?l) \<le> 2 ^ 48"
    using inv by (simp_all add: vl_inv_def)
  have lw: "log_wf ?l" and m: "blk_mask vl = mask (blk_shift vl)" and sh: "0 < blk_shift vl" using wf by (simp_all add: vl_wf_def)
  note ch = chunks_blocks[OF buf]
  have fit: "llen ?l + length (iov_data ?vs) < unat (l_size ?l)" using ch room by simp
  have id': "vl_compact_idle (vl\<lparr>vl_log := append_state ?l ?vs\<rparr>)" unfolding write_idle_append_state using idle ch by simp
  obtain ios ib where w: "kv_value_log_write vl bid value bytes vlen c =
      Inr (vl\<lparr>bucket_id_log := ib, vl_log := append_state ?l ?vs\<rparr>, map Vl_dump ds @ [Vl_append (Vl_caller c) (Iov_issued ios)])"
    and lb: "log_blocks (exec_ios ios dev) (append_state ?l ?vs) = log_blocks dev ?l @ chunks ?n ?b bytes"
    using value_write_eq[OF wf ids id' room buf al, of c] by metis
  let ?vl = "vl\<lparr>bucket_id_log := ib, vl_log := append_state ?l ?vs\<rparr>" and ?dev = "exec_ios ios dev" and ?off = "ucast (kv_value_log_offset vl) :: u48"
  have "length (iov_data ?vs) < 2 ^ 62" using fit log_wf_size(2)[OF lw] by linarith
  then have wf': "vl_wf ?vl" using wf append_state_wf[OF lw, of ?vs] by (simp add: vl_wf_def append_state_frame)
  have inv': "vl_inv ?dev ?vl" using wf' bl s48 ch by (auto simp: vl_inv_def lb append_state_frame)
  have uo: "unat (kv_value_log_offset vl) = (?b * unat (l_head ?l) + ?b * llen ?l) mod (?b * unat (l_size ?l))"
    by (rule unat_kv_value_log_offset[OF wf])
  have s0: "0 < ?b * unat (l_size ?l)" using log_wf_size(1)[OF lw] by simp
  have lt: "unat (kv_value_log_offset vl) < ?b * unat (l_size ?l)" unfolding uo by (rule mod_less_divisor[OF s0])
  then have uoff: "unat ?off = unat (kv_value_log_offset vl)" using s48 by (simp add: unsigned_ucast_eq take_bit_eq_mod)
  have h: "?b * unat (l_head ?l) < ?b * unat (l_size ?l)" "?b * llen ?l < ?b * unat (l_size ?l)"
    using lw by (auto simp: log_wf_def)
  have pos: "value_pos ?vl ?off = ?b * llen ?l"
    using circ_dist_add[OF h] by (simp add: value_pos_def append_state_frame uoff uo)
  have enough: "unat vlen \<le> ?b * ?n" using round_up_ge[of ?b "unat vlen"] by (simp add: align_blocks[OF m sh])
  have "4 dvd ?b" using wf le_imp_power_dvd[of 2 "blk_shift vl" "2::nat"] by (simp add: vl_wf_def)
  then have a3: "(ucast ?off :: u64) AND 3 = 0"
    unfolding and_3_iff unat_ucast_48 uoff uo by (simp add: mod_eq_0_iff_dvd dvd_mod)
  have new: "value_inside ?vl (vlen, ?off)"
    using a3 len lt uoff pos enough llen_append_state[OF lw fit] ch by (simp add: value_inside_def append_state_frame distrib_left)
  have "value_bytes ?dev ?vl (vlen, ?off) = take (unat vlen) bytes"
    using ch enough length_concat_blocks[OF bl] by (simp add: value_bytes_def pos lb min_def mult.commute)
  moreover have "value_inside ?vl v \<and> value_bytes ?dev ?vl v = value_bytes dev vl v" if "value_inside vl v" for v
    by (rule place_kept[where vs = ?vs and new = "chunks ?n ?b bytes"]) (use that lb bl in simp_all)
  ultimately show ?thesis using w inv' new by blast
qed

end
