(* ===== verification/Store_Run.thy ===== *)
theory Store_Run
  imports Store_Map
begin

unbundle bit_operations_syntax

text \<open>
  Operations of the data store that run alone. The handlers of \<open>kv_data_store.c\<close> are called
  in the order in which the event loop calls them when nothing else is under way: the device
  carries out every request, the bucket lock is free, and the callbacks report success.
\<close>

section \<open>The store with its device\<close>

text \<open>The two logs lie in disjoint areas of the device, which are kept apart here.\<close>

record store =
  st_ds :: "unit kv_data_store"
  st_bdev :: "nat \<Rightarrow> kv_bucket"
  st_vdev :: "nat \<Rightarrow> byte_block"

fun exec_value_event :: "'c vl_event \<Rightarrow> (nat \<Rightarrow> byte_block) \<Rightarrow> nat \<Rightarrow> byte_block" where
  "exec_value_event (Vl_append cb (Iov_issued ios)) dev = exec_ios ios dev"
| "exec_value_event _ dev = dev"

fun exec_bucket_event :: "'c bl_event \<Rightarrow> (nat \<Rightarrow> kv_bucket) \<Rightarrow> nat \<Rightarrow> kv_bucket" where
  "exec_bucket_event (Bl_append cb (Iov_issued ios)) dev = exec_ios ios dev"
| "exec_bucket_event _ dev = dev"

fun exec_values :: "'c ds_event list \<Rightarrow> (nat \<Rightarrow> byte_block) \<Rightarrow> nat \<Rightarrow> byte_block" where
  "exec_values [] dev = dev"
| "exec_values (Ds_value vevs # evs) dev = exec_values evs (fold exec_value_event vevs dev)"
| "exec_values (_ # evs) dev = exec_values evs dev"

fun exec_buckets :: "'c ds_event list \<Rightarrow> (nat \<Rightarrow> kv_bucket) \<Rightarrow> nat \<Rightarrow> kv_bucket" where
  "exec_buckets [] dev = dev"
| "exec_buckets (Ds_bucket bevs # evs) dev = exec_buckets evs (fold exec_bucket_event bevs dev)"
| "exec_buckets (_ # evs) dev = exec_buckets evs dev"

text \<open>The completions of the dumps of bucket ids.\<close>

fun finish_dumps :: "'c vl_event list \<Rightarrow> kv_value_log \<Rightarrow> kv_value_log res" where
  "finish_dumps [] vl = Inr vl"
| "finish_dumps (Vl_dump r # evs) vl = rbind (dump_bucket_id_cb True vl) (finish_dumps evs)"
| "finish_dumps (_ # evs) vl = finish_dumps evs vl"

fun ds_finish_dumps :: "'c ds_event list \<Rightarrow> 'c kv_data_store \<Rightarrow> 'c kv_data_store res" where
  "ds_finish_dumps [] ds = Inr ds"
| "ds_finish_dumps (Ds_value vevs # evs) ds =
     rbind (finish_dumps vevs (ds_value_log ds)) (\<lambda>vl. ds_finish_dumps evs (ds\<lparr>ds_value_log := vl\<rparr>))"
| "ds_finish_dumps (_ # evs) ds = ds_finish_dumps evs ds"

fun reply_of :: "'c ds_event list \<Rightarrow> bool option" where
  "reply_of [] = None"
| "reply_of (Ds_reply c b # evs) = Some b"
| "reply_of (_ # evs) = reply_of evs"

text \<open>The chain of a segment comes into memory; \<open>addr\<close> is the address of the buffer.\<close>

definition load_chain :: "(nat \<Rightarrow> kv_bucket) \<Rightarrow> kv_bucket_log \<Rightarrow> u64 \<Rightarrow> kv_bucket_segment \<Rightarrow> kv_bucket_segment res" where
  "load_chain dev bl addr seg =
     (let buf = replicate (unat (m_chain_length (kv_bucket_meta_get (bl_meta bl) (seg_bucket_id seg)))) zero_bucket in
      rbind (kv_bucket_seg_get bl seg None addr buf) (\<lambda>(seg1, r).
        case r of
          Seg_done ok \<Rightarrow> if ok then Inr seg1 else Inl Exit_fail
        | Seg_reading (Iov_issued ios) \<Rightarrow>
            rbind (segment_get_cb bl True True (seg_fill (concat (map (io_data dev) ios)) seg1)) (\<lambda>(seg2, r2).
              case r2 of Seg_done True \<Rightarrow> Inr seg2 | _ \<Rightarrow> Inl Exit_fail)
        | _ \<Rightarrow> Inl Exit_fail))"

section \<open>Operations\<close>

definition set_chain_loaded :: "nat \<Rightarrow> kv_bucket_segment \<Rightarrow> 'c kv_data_store \<Rightarrow> 'c kv_data_store" where
  "set_chain_loaded i seg ds = ds\<lparr>ds_sets := (ds_sets ds)(i := map_option (\<lambda>c. c\<lparr>sc_seg := seg\<rparr>) (ds_sets ds i))\<rparr>"

definition get_chain_loaded :: "nat \<Rightarrow> kv_bucket_segment \<Rightarrow> 'c kv_data_store \<Rightarrow> 'c kv_data_store" where
  "get_chain_loaded i seg ds = ds\<lparr>ds_gets := (ds_gets ds)(i := map_option (\<lambda>c. c\<lparr>gc_seg := seg\<rparr>) (ds_gets ds i))\<rparr>"

definition del_chain_loaded :: "nat \<Rightarrow> kv_bucket_segment \<Rightarrow> 'c kv_data_store \<Rightarrow> 'c kv_data_store" where
  "del_chain_loaded i seg ds = ds\<lparr>ds_dels := (ds_dels ds)(i := map_option (\<lambda>c. c\<lparr>dc_seg := seg\<rparr>) (ds_dels ds i))\<rparr>"

text \<open>
  \<open>kv_data_store_set\<close> and its commit. The write of the value completes first; the write of
  the chain completes if there is one. The flag is the answer to the client, which the server
  passes to the commit.
\<close>

definition run_set :: "u64 \<Rightarrow> u8 list \<Rightarrow> u64 \<Rightarrow> u8 list \<Rightarrow> u32 \<Rightarrow> store \<Rightarrow> (store \<times> bool) res" where
  "run_set addr k value bytes len s =
     (let (ds1, i, adm) = kv_data_store_set (st_ds s) k value bytes len () in
      if adm = [] then Inl No_return
      else rbind (set_start i ds1) (\<lambda>(ds2, ev2).
        rbind (load_chain (st_bdev s) (ds_bucket_log ds2) addr (kv_bucket_seg_init (kv_data_store_bucket_id ds2 k))) (\<lambda>seg.
        rbind (set_lock_cb addr i (set_chain_loaded i seg ds2)) (\<lambda>(ds3, ev3).
        rbind (ds_finish_dumps ev2 ds3) (\<lambda>ds3'.
        rbind (set_finish_cb True i ds3') (\<lambda>(ds4, ev4).
        rbind (if reply_of ev4 = None then set_finish_cb True i ds4 else Inr (ds4, [])) (\<lambda>(ds5, ev5).
          case reply_of (ev4 @ ev5) of
            None \<Rightarrow> Inl No_return
          | Some success \<Rightarrow>
              rbind (kv_data_store_set_commit i success ds5) (\<lambda>(ds6, _).
                Inr (\<lparr>st_ds = ds6, st_bdev = exec_buckets ev3 (st_bdev s), st_vdev = exec_values ev2 (st_vdev s)\<rparr>,
                     success)))))))))"

text \<open>\<open>kv_data_store_get\<close>: the value buffer lies at \<open>value\<close>, the bounce buffer at \<open>buf\<close>.\<close>

definition value_arrives :: "(nat \<Rightarrow> byte_block) \<Rightarrow> u32 \<Rightarrow> read_ctx option \<times> byte_block iov_result \<Rightarrow> u8 list res" where
  "value_arrives dev n r =
     (case snd r of
        Iov_issued ios \<Rightarrow> Inr (take (unat n) (value_delivered (replicate (unat n) 0) (fst r) (concat (map (io_data dev) ios))))
      | _ \<Rightarrow> Inl Exit_fail)"

definition run_get :: "u64 \<Rightarrow> u8 list \<Rightarrow> u64 \<Rightarrow> u64 \<Rightarrow> store \<Rightarrow> (store \<times> u8 list option) res" where
  "run_get addr k value buf s =
     (let (ds1, i, adm) = kv_data_store_get (st_ds s) k value None () in
      if adm = [] then Inl No_return
      else
        rbind (load_chain (st_bdev s) (ds_bucket_log ds1) addr (kv_bucket_seg_init (kv_data_store_bucket_id ds1 k))) (\<lambda>seg.
        rbind (get_seg_cb True buf i (get_chain_loaded i seg ds1)) (\<lambda>(ds2, ev2).
          case ev2 of
            Ds_value_read e n r # _ \<Rightarrow>
              rbind (value_arrives (st_vdev s) n r) (\<lambda>v.
              rbind (dequeue True e ds2) (\<lambda>(ds3, _). Inr (s\<lparr>st_ds := ds3\<rparr>, Some v)))
          | _ \<Rightarrow> Inr (s\<lparr>st_ds := ds2\<rparr>, None))))"

definition run_delete :: "u64 \<Rightarrow> u8 list \<Rightarrow> store \<Rightarrow> (store \<times> bool) res" where
  "run_delete addr k s =
     (let (ds1, i, adm) = kv_data_store_delete (st_ds s) k () in
      if adm = [] then Inl No_return
      else rbind (delete_lock i ds1) (\<lambda>(ds2, _).
        rbind (load_chain (st_bdev s) (ds_bucket_log ds2) addr (kv_bucket_seg_init (kv_data_store_bucket_id ds2 k))) (\<lambda>seg.
        rbind (delete_lock_cb i (del_chain_loaded i seg ds2)) (\<lambda>(ds3, ev3).
        rbind (if reply_of ev3 = None then delete_finish_cb True i ds3 else Inr (ds3, [])) (\<lambda>(ds4, ev4).
          case reply_of (ev3 @ ev4) of
            None \<Rightarrow> Inl No_return
          | Some success \<Rightarrow>
              rbind (kv_data_store_del_commit i success ds4) (\<lambda>(ds5, _).
                Inr (s\<lparr>st_ds := ds5, st_bdev := exec_buckets ev3 (st_bdev s)\<rparr>, success)))))))"

section \<open>The map of the store\<close>

definition contents :: "store \<Rightarrow> u8 list \<Rightarrow> u8 list option" where
  "contents s k =
     map_option (value_bytes (st_vdev s) (ds_value_log (st_ds s)))
       (chain_lookup (disk_chain (st_bdev s) (ds_bucket_log (st_ds s)) (kv_data_store_bucket_id (st_ds s) k)) k)"

definition store_inv :: "nat \<Rightarrow> store \<Rightarrow> bool" where
  "store_inv n s \<longleftrightarrow>
     bl_inv (st_bdev s) (ds_bucket_log (st_ds s)) \<and> vl_inv (st_vdev s) (ds_value_log (st_ds s)) \<and>
     ds_q (st_ds s) = [] \<and> ds_q_info (st_ds s) = \<lparr>q_size = 0, q_cap = 1024\<rparr> \<and> log_bucket_num (st_ds s) = n \<and>
     (\<forall>b. items_inv (map items (disk_chain (st_bdev s) (ds_bucket_log (st_ds s)) b)) \<and>
        (\<forall>k v. k \<noteq> [] \<longrightarrow> chain_lookup (disk_chain (st_bdev s) (ds_bucket_log (st_ds s)) b) k = Some v \<longrightarrow>
           value_inside (ds_value_log (st_ds s)) v))"

definition store_key :: "nat \<Rightarrow> u8 list \<Rightarrow> bool" where
  "store_key n k \<longleftrightarrow> legal_key k \<and> drop_bit (64 - n) (load_u64 k) < KV_BUCKET_ID_EMPTY"

section \<open>Loading a chain\<close>

lemma load_chain_ok:
  assumes inv: "bl_inv dev bl" and addr: "addr AND 3 = 0" and it: "items_inv (map items (disk_chain dev bl b))"
  shows "\<exists>seg. load_chain dev bl addr (kv_bucket_seg_init b) = Inr seg \<and> seg_inv seg \<and> seg_bucket_id seg = b \<and>
    chain_aligned (seg_chain seg) \<and> seg_buckets seg = disk_chain dev bl b"
proof (cases "is_meta_empty (kv_bucket_meta_get (bl_meta bl) b)")
  case True
  then show ?thesis
    by (simp add: load_chain_def kv_bucket_seg_get_def is_meta_empty_def disk_chain_def kv_bucket_seg_init_def seg_inv_def seg_wf_def
        items_inv_def rows_def rect_def live_def distinct_keys_def)
next
  case False
  let ?m = "kv_bucket_meta_get (bl_meta bl) b"
  let ?s = "(kv_bucket_seg_init b)\<lparr>seg_chain := [\<lparr>ce_addr = addr, ce_buckets = disk_chain dev bl b, pre_alloc_bucket = False\<rparr>],
        seg_offset := m_bucket_offset ?m\<rparr>"
  obtain ios seg1 where g: "kv_bucket_seg_get bl (kv_bucket_seg_init b) None addr (replicate (unat (m_chain_length ?m)) zero_bucket) =
      Inr (seg1, Seg_reading (Iov_issued ios))" and f: "seg_fill (concat (map (io_data dev) ios)) seg1 = ?s"
    using seg_get_reads[OF inv False addr, of "replicate (unat (m_chain_length ?m)) zero_bucket"] by auto
  have bid: "seg_bucket_id (kv_bucket_seg_init b) = b" "seg_bucket_id ?s = b" by (simp_all add: kv_bucket_seg_init_def)
  have "segment_get_cb bl True True ?s = Inr (?s\<lparr>seg_empty := False\<rparr>, Seg_done True)"
    by (simp add: segment_get_cb_def kv_bucket_seg_init_def)
  then have "load_chain dev bl addr (kv_bucket_seg_init b) = Inr (?s\<lparr>seg_empty := False\<rparr>)"
    unfolding load_chain_def Let_def bid by (simp add: g f)
  moreover have "is_chain (ucast b) (disk_chain dev bl b)" using inv False by (simp add: bl_inv_def)
  ultimately show ?thesis using it addr
    by (simp add: seg_inv_def seg_wf_def kv_bucket_seg_init_def rows_def is_chain_def seg_buckets_def)
qed


section \<open>Admission of an operation that runs alone\<close>

lemma admitted_alone:
  assumes "ds_q_info ds = \<lparr>q_size = 0, q_cap = 1024\<rparr>"
  shows "enqueue ds op fn c =
    (ds\<lparr>ds_entries := (ds_entries ds)(ds_next ds \<mapsto> \<lparr>qe_op = op, qe_fn = fn, qe_cb = c\<rparr>), ds_next := Suc (ds_next ds),
       ds_q_info := \<lparr>q_size = kv_ds_op_cost op, q_cap = 1024\<rparr>\<rparr>, ds_next ds, [Ds_send fn])"
  using assms by (cases op) (simp_all add: enqueue_def kv_ds_queue_find_def Let_def)

lemma dequeue_alone:
  assumes "ds_q ds = []" and "ds_q_info ds = \<lparr>q_size = kv_ds_op_cost op, q_cap = 1024\<rparr>"
    and "ds_entries ds e = Some ent" and "qe_op ent = op"
  shows "dequeue success e ds = Inr (ds\<lparr>ds_q_info := \<lparr>q_size = 0, q_cap = 1024\<rparr>, ds_entries := (ds_entries ds)(e := None)\<rparr>,
    [Ds_reply (qe_cb ent) success])"
  using assms by (simp add: dequeue_def Let_def)

lemma finish_dumps_ok:
  "\<exists>ib. finish_dumps (map Vl_dump ds @ [Vl_append cb r]) vl = Inr (vl\<lparr>bucket_id_log := ib\<rparr>)"
proof (induction ds arbitrary: vl)
  case Nil
  have "vl\<lparr>bucket_id_log := bucket_id_log vl\<rparr> = vl" by simp
  then show ?case by (metis append_Nil finish_dumps.simps(1,3) list.map(1))
next
  case (Cons d ds)
  let ?vl = "vl\<lparr>bucket_id_log := (bucket_id_log vl)\<lparr>is_dumping := False\<rparr>\<rparr>"
  obtain ib where "finish_dumps (map Vl_dump ds @ [Vl_append cb r]) ?vl = Inr (?vl\<lparr>bucket_id_log := ib\<rparr>)" using Cons by blast
  then show ?case by (auto simp: dump_bucket_id_cb_def)
qed

lemma vl_ids_irrelevant [simp]:
  "vl_inv dev (vl\<lparr>bucket_id_log := ib\<rparr>) = vl_inv dev vl" "value_inside (vl\<lparr>bucket_id_log := ib\<rparr>) v = value_inside vl v"
  "value_bytes dev (vl\<lparr>bucket_id_log := ib\<rparr>) v = value_bytes dev vl v"
  by (simp_all add: vl_inv_def vl_wf_def value_inside_def value_bytes_def value_pos_def)

lemma exec_dumps [simp]: "fold exec_value_event (map Vl_dump ds) dev = dev"
  by (induction ds) simp_all

section \<open>One chain changes\<close>

lemma new_chain_lookup:
  assumes inv: "seg_inv seg" and c: "map unstamp ch =
      (if length (seg_buckets seg) \<le> 1 \<and> list_all (list_all KV_EMPTY_ITEM) (map items (seg_buckets seg)) then []
       else map unstamp (seg_buckets seg))"
  shows "items_inv (map items ch)" and "j \<noteq> [] \<Longrightarrow> chain_lookup ch j = seg_lookup seg j"
proof -
  have ii: "items_inv (rows seg)" using inv by (simp add: seg_inv_def)
  have *: "items_inv (map items ch) \<and> (j \<noteq> [] \<longrightarrow> chain_lookup ch j = seg_lookup seg j)" for j
  proof (cases "length (seg_buckets seg) \<le> 1 \<and> list_all (list_all KV_EMPTY_ITEM) (map items (seg_buckets seg))")
    case True
    then have "ch = []" "seg_lookup seg j = None" if "j \<noteq> []" using c seg_lookup_empty[OF ii _ that] by (simp_all add: rows_def)
    moreover have "ch = []" using c True by simp
    ultimately show ?thesis by (auto simp: items_inv_def rect_def live_def distinct_keys_def)
  next
    case False
    then have "map unstamp ch = map unstamp (seg_buckets seg)" using c by (simp only: if_False)
    then have "map items ch = rows seg" using unstamp_eqD(2)[of ch "seg_buckets seg"] by (simp add: rows_def)
    then show ?thesis using ii chain_lookup_rows by simp
  qed
  show "items_inv (map items ch)" "j \<noteq> [] \<Longrightarrow> chain_lookup ch j = seg_lookup seg j" using * by blast+
qed

lemma dirty_irrelevant [simp]:
  "seg_inv (seg\<lparr>seg_dirty := d\<rparr>) = seg_inv seg" "seg_lookup (seg\<lparr>seg_dirty := d\<rparr>) k = seg_lookup seg k"
  using seg_lookup_cong[of "seg\<lparr>seg_dirty := d\<rparr>" seg] by (simp_all add: seg_inv_def seg_wf_def rows_def)

text \<open>A changed segment is written and committed.\<close>

lemma put_changes_lookup:
  fixes c :: 'c
  assumes bi: "bl_inv dev bl" and seg: "seg_inv seg" "chain_aligned (seg_chain seg)" "seg_dirty seg" "seg_buckets seg \<noteq> []"
    and b: "seg_bucket_id seg < KV_BUCKET_ID_EMPTY"
    and room: "llen (bl_log bl) + length (seg_buckets seg) < unat (l_size (bl_log bl))" and idle: "put_idle bl (length (seg_buckets seg))"
    and live: "is_meta_empty (kv_bucket_meta_get (bl_meta bl) (seg_bucket_id seg)) \<Longrightarrow> \<exists>k v. k \<noteq> [] \<and> seg_lookup seg k = Some v"
  shows "\<exists>bl1 seg1 ios m seg2. kv_bucket_seg_put bl seg c = Inr (bl1, [seg1], [Bl_append (Bl_caller c) (Iov_issued ios)]) \<and>
    kv_bucket_seg_commit (bl_meta bl1) seg1 = Inr (m, seg2) \<and> bl_inv (exec_ios ios dev) (bl1\<lparr>bl_meta := m\<rparr>) \<and>
    (\<forall>x. x \<noteq> seg_bucket_id seg \<longrightarrow> disk_chain (exec_ios ios dev) (bl1\<lparr>bl_meta := m\<rparr>) x = disk_chain dev bl x) \<and>
    items_inv (map items (disk_chain (exec_ios ios dev) (bl1\<lparr>bl_meta := m\<rparr>) (seg_bucket_id seg))) \<and>
    (\<forall>j. j \<noteq> [] \<longrightarrow> chain_lookup (disk_chain (exec_ios ios dev) (bl1\<lparr>bl_meta := m\<rparr>) (seg_bucket_id seg)) j = seg_lookup seg j)"
proof -
  have wf: "seg_wf seg" "items_inv (rows seg)" using seg(1) by (simp_all add: seg_inv_def)
  have ne: "seg_chain seg \<noteq> []" using seg(4) by auto
  have lv: "\<not> (length (seg_buckets seg) \<le> 1 \<and> list_all (list_all KV_EMPTY_ITEM) (map items (seg_buckets seg)))"
    if "is_meta_empty (kv_bucket_meta_get (bl_meta bl) (seg_bucket_id seg))"
    using live[OF that] seg_lookup_live[OF wf(2)] by (auto simp: rows_def)
  obtain bl1 seg1 ios m seg2 where p: "kv_bucket_seg_put bl seg c = Inr (bl1, [seg1], [Bl_append (Bl_caller c) (Iov_issued ios)])"
    and r: "kv_bucket_seg_commit (bl_meta bl1) seg1 = Inr (m, seg2)" "bl_inv (exec_ios ios dev) (bl1\<lparr>bl_meta := m\<rparr>)"
      "\<forall>x. x \<noteq> seg_bucket_id seg \<longrightarrow> disk_chain (exec_ios ios dev) (bl1\<lparr>bl_meta := m\<rparr>) x = disk_chain dev bl x"
    and ch: "map unstamp (disk_chain (exec_ios ios dev) (bl1\<lparr>bl_meta := m\<rparr>) (seg_bucket_id seg)) =
      (if length (seg_buckets seg) \<le> 1 \<and> list_all (list_all KV_EMPTY_ITEM) (map items (seg_buckets seg)) then []
       else map unstamp (seg_buckets seg))"
    using seg_put_commit[OF bi wf(1) ne seg(2,3) b room idle lv, of c] by metis
  show ?thesis using p r new_chain_lookup[OF seg(1) ch]
    by (intro exI[of _ bl1] exI[of _ seg1] exI[of _ ios] exI[of _ m] exI[of _ seg2]) simp
qed

lemma store_chain_changes:
  fixes s s' :: store and k :: "u8 list"
  defines "bl \<equiv> ds_bucket_log (st_ds s)" and "bl' \<equiv> ds_bucket_log (st_ds s')"
    and "vl \<equiv> ds_value_log (st_ds s)" and "vl' \<equiv> ds_value_log (st_ds s')" and "b \<equiv> kv_data_store_bucket_id (st_ds s) k"
  assumes inv: "store_inv n s" and k: "k \<noteq> []"
    and q: "ds_q (st_ds s') = []" "ds_q_info (st_ds s') = \<lparr>q_size = 0, q_cap = 1024\<rparr>" "log_bucket_num (st_ds s') = log_bucket_num (st_ds s)"
    and logs: "bl_inv (st_bdev s') bl'" "vl_inv (st_vdev s') vl'"
    and kept: "\<And>v. value_inside vl v \<Longrightarrow> value_inside vl' v \<and> value_bytes (st_vdev s') vl' v = value_bytes (st_vdev s) vl v"
    and other: "\<And>x. x \<noteq> b \<Longrightarrow> disk_chain (st_bdev s') bl' x = disk_chain (st_bdev s) bl x"
    and new: "items_inv (map items (disk_chain (st_bdev s') bl' b))"
      "\<And>j. j \<noteq> [] \<Longrightarrow> chain_lookup (disk_chain (st_bdev s') bl' b) j = (if j = k then w else chain_lookup (disk_chain (st_bdev s) bl b) j)"
      "\<And>v. w = Some v \<Longrightarrow> value_inside vl' v"
  shows "store_inv n s' \<and> (\<forall>j. j \<noteq> [] \<longrightarrow> contents s' j = (if j = k then map_option (value_bytes (st_vdev s') vl') w else contents s j))"
proof -
  have bid: "kv_data_store_bucket_id (st_ds s') j = kv_data_store_bucket_id (st_ds s) j" for j
    using q(3) by (simp add: kv_data_store_bucket_id_def)
  have old: "log_bucket_num (st_ds s) = n" "items_inv (map items (disk_chain (st_bdev s) bl x))"
      "j \<noteq> [] \<Longrightarrow> chain_lookup (disk_chain (st_bdev s) bl x) j = Some v \<Longrightarrow> value_inside vl v" for x j v
    using inv unfolding store_inv_def bl_def vl_def by blast+
  have place: "value_inside vl' v" if "j \<noteq> []" "chain_lookup (disk_chain (st_bdev s') bl' x) j = Some v" for x j v
  proof (cases "x = b \<and> j = k")
    case True
    then show ?thesis using that new(2,3) by simp
  next
    case False
    then have "chain_lookup (disk_chain (st_bdev s) bl x) j = Some v" using that new(2)[OF that(1)] other[of x] by (cases "x = b") auto
    then show ?thesis using old(3)[OF that(1)] kept by blast
  qed
  have items: "items_inv (map items (disk_chain (st_bdev s') bl' x))" for x using new(1) old(2) other by (cases "x = b") auto
  have "store_inv n s'" unfolding store_inv_def using q old(1) logs place items by (simp add: bl'_def vl'_def del: split_paired_All)
  moreover have "contents s' j = (if j = k then map_option (value_bytes (st_vdev s') vl') w else contents s j)" if j: "j \<noteq> []" for j
  proof -
    let ?x = "kv_data_store_bucket_id (st_ds s) j"
    have "chain_lookup (disk_chain (st_bdev s') bl' ?x) j = (if j = k then w else chain_lookup (disk_chain (st_bdev s) bl ?x) j)"
      using new(2)[OF j] other[of ?x] by (cases "?x = b") (auto simp: b_def)
    then show ?thesis using old(3)[OF j] kept unfolding contents_def bid
      by (auto simp flip: bl_def bl'_def vl_def vl'_def intro!: option.map_cong)
  qed
  ultimately show ?thesis by blast
qed

section \<open>Set\<close>

text \<open>Neither log is due for compaction when the value and the chain have been appended.\<close>

definition quiet_set :: "store \<Rightarrow> u8 list \<Rightarrow> u32 \<Rightarrow> bool" where
  "quiet_set s k len \<longleftrightarrow>
     (let ds = st_ds s; vl = ds_value_log ds; bl = ds_bucket_log ds; b = kv_data_store_bucket_id ds k;
          n = unat (align vl (ucast len)); m = unat (m_chain_length (kv_bucket_meta_get (bl_meta bl) b))
      in write_idle vl n \<and> llen (vl_log vl) + n < unat (l_size (vl_log vl)) \<and>
         \<not> isl (append_bucket_id vl (kv_value_log_offset vl) b) \<and>
         put_idle bl m \<and> put_idle bl (Suc m) \<and> llen (bl_log bl) + Suc m < unat (l_size (bl_log bl)))"

text \<open>The handlers of a set in their order, given what the two logs answer.\<close>

lemma run_set_steps:
  assumes q: "ds_q (st_ds s) = []" "ds_q_info (st_ds s) = \<lparr>q_size = 0, q_cap = 1024\<rparr>"
    and w: "kv_value_log_write (ds_value_log (st_ds s)) (kv_data_store_bucket_id (st_ds s) k) value bytes len
      (Set_finish_cb (ds_next (st_ds s))) = Inr (vl', vevs)"
    and ld: "load_chain (st_bdev s) (ds_bucket_log (st_ds s)) addr (kv_bucket_seg_init (kv_data_store_bucket_id (st_ds s) k)) = Inr seg"
    and st: "seg_set addr k len (kv_value_log_offset (ds_value_log (st_ds s))) seg = Inr (c, Some seg')"
    and p: "kv_bucket_seg_put (ds_bucket_log (st_ds s)) (seg'\<lparr>seg_dirty := True\<rparr>) (Set_finish_cb (ds_next (st_ds s))) = Inr (bl1, [seg1], bevs)"
    and fd: "finish_dumps vevs vl' = Inr vl2" and cm: "kv_bucket_seg_commit (bl_meta bl1) seg1 = Inr (m, seg2)"
  shows "\<exists>s'. run_set addr k value bytes len s = Inr (s', True) \<and> st_bdev s' = fold exec_bucket_event bevs (st_bdev s) \<and>
    st_vdev s' = fold exec_value_event vevs (st_vdev s) \<and> ds_bucket_log (st_ds s') = bl1\<lparr>bl_meta := m\<rparr> \<and> ds_value_log (st_ds s') = vl2 \<and>
    ds_q (st_ds s') = [] \<and> ds_q_info (st_ds s') = \<lparr>q_size = 0, q_cap = 1024\<rparr> \<and> log_bucket_num (st_ds s') = log_bucket_num (st_ds s)"
proof -
  have w': "kv_value_log_write (ds_value_log (st_ds s)) (drop_bit (64 - log_bucket_num (st_ds s)) (load_u64 k)) value bytes len
      (Set_finish_cb (ds_next (st_ds s))) = Inr (vl', vevs)" using w by (simp add: kv_data_store_bucket_id_def)
  have ld': "load_chain (st_bdev s) (ds_bucket_log (st_ds s)) addr (kv_bucket_seg_init (drop_bit (64 - log_bucket_num (st_ds s)) (load_u64 k))) = Inr seg"
    using ld by (simp add: kv_data_store_bucket_id_def)
  show ?thesis
    using q w' ld' st p fd cm
    by (simp add: run_set_def kv_data_store_set_def admitted_alone set_start_def Let_def kv_data_store_bucket_id_def set_chain_loaded_def
        set_lock_cb_def set_finish_cb_def kv_data_store_set_commit_def dequeue_alone[where op = KV_DS_SET])
qed

lemma set_in_chain:
  assumes bi: "bl_inv dev bl" and it: "items_inv (map items (disk_chain dev bl b))" and addr: "addr AND 3 = 0"
    and k: "k \<noteq> []" "length k \<le> KV_MAX_KEY_LENGTH"
    and full: "chain_lookup (disk_chain dev bl b) k = None \<Longrightarrow> m_chain_length (kv_bucket_meta_get (bl_meta bl) b) \<noteq> 127"
  shows "\<exists>seg c seg'. load_chain dev bl addr (kv_bucket_seg_init b) = Inr seg \<and> seg_set addr k len off seg = Inr (c, Some seg') \<and>
    seg_inv seg' \<and> chain_aligned (seg_chain seg') \<and> seg_bucket_id seg' = b \<and> seg_buckets seg' \<noteq> [] \<and>
    length (seg_buckets seg') \<in> {length (disk_chain dev bl b), Suc (length (disk_chain dev bl b))} \<and>
    (\<forall>j. j \<noteq> [] \<longrightarrow> seg_lookup seg' j = (if j = k then Some (len, ucast off) else chain_lookup (disk_chain dev bl b) j))"
proof -
  obtain seg where ld: "load_chain dev bl addr (kv_bucket_seg_init b) = Inr seg" and sg: "seg_inv seg" "seg_bucket_id seg = b"
      "chain_aligned (seg_chain seg)" "seg_buckets seg = disk_chain dev bl b"
    using load_chain_ok[OF bi addr it] by blast
  have lk: "chain_lookup (disk_chain dev bl b) j = seg_lookup seg j" for j by (rule chain_lookup_rows) (simp add: rows_def sg(4))
  obtain c r where st: "seg_set addr k len off seg = Inr (c, r)" and rn: "r = None \<Longrightarrow> length (seg_buckets seg) = 127 \<and> find_item_plus seg k = None"
    and rs: "\<And>seg'. r = Some seg' \<Longrightarrow> seg_inv seg' \<and> seg_bucket_id seg' = seg_bucket_id seg \<and>
      (\<forall>j. j \<noteq> [] \<longrightarrow> seg_lookup seg' j = (if j = k then Some (len, ucast off) else seg_lookup seg j))"
    using seg_set_ok[OF sg(1) k, of addr len off] by blast
  have "r \<noteq> None"
  proof
    assume "r = None"
    with rn have "unat (m_chain_length (kv_bucket_meta_get (bl_meta bl) b)) = 127" "chain_lookup (disk_chain dev bl b) k = None"
      using lk[of k] sg(4) by (auto simp: seg_lookup_def)
    then show False using full by (simp add: word_unat_eq_iff)
  qed
  then obtain seg' where r: "r = Some seg'" by blast
  have "seg_buckets seg' \<noteq> []" using rs[OF r] k(1) by (auto simp: seg_lookup_def find_item_plus_def)
  then show ?thesis using ld st r rs[OF r] seg_set_keeps[OF st[unfolded r] addr sg(3)] sg(2,4) lk by auto
qed

lemma run_set_ok:
  assumes inv: "store_inv n s" and k: "store_key n k" and al: "addr AND 3 = 0" "value AND 3 = 0"
    and len: "0 < unat len" and buf: "unat (align (ds_value_log (st_ds s)) (ucast len)) * vl_bs (ds_value_log (st_ds s)) \<le> length bytes"
    and quiet: "quiet_set s k len" and full: "contents s k = None \<Longrightarrow>
      m_chain_length (kv_bucket_meta_get (bl_meta (ds_bucket_log (st_ds s))) (kv_data_store_bucket_id (st_ds s) k)) \<noteq> 127"
  shows "\<exists>s'. run_set addr k value bytes len s = Inr (s', True) \<and> store_inv n s' \<and>
    (\<forall>j. j \<noteq> [] \<longrightarrow> contents s' j = (if j = k then Some (take (unat len) bytes) else contents s j))"
proof -
  let ?ds = "st_ds s" and ?b = "kv_data_store_bucket_id (st_ds s) k"
  let ?vl = "ds_value_log ?ds" and ?bl = "ds_bucket_log ?ds" and ?c = "Set_finish_cb (ds_next (st_ds s))"
  let ?off = "kv_value_log_offset ?vl" and ?m = "length (disk_chain (st_bdev s) ?bl ?b)"
  have bi: "bl_inv (st_bdev s) ?bl" and vi: "vl_inv (st_vdev s) ?vl" and q: "ds_q ?ds = []" "ds_q_info ?ds = \<lparr>q_size = 0, q_cap = 1024\<rparr>"
    and it: "\<And>b. items_inv (map items (disk_chain (st_bdev s) ?bl b))"
    using inv unfolding store_inv_def by blast+
  have kb: "?b < KV_BUCKET_ID_EMPTY" and kl: "k \<noteq> []" "length k \<le> KV_MAX_KEY_LENGTH"
    using k inv by (simp_all add: store_key_def legal_key_def store_inv_def kv_data_store_bucket_id_def)
  have qv: "write_idle ?vl (unat (align ?vl (ucast len)))" "llen (vl_log ?vl) + unat (align ?vl (ucast len)) < unat (l_size (vl_log ?vl))"
    and ids: "\<not> isl (append_bucket_id ?vl ?off ?b)" and qb: "put_idle ?bl ?m" "put_idle ?bl (Suc ?m)" "llen (bl_log ?bl) + Suc ?m < unat (l_size (bl_log ?bl))"
    using quiet by (simp_all add: quiet_set_def Let_def)
  obtain vl1 dd where "append_bucket_id ?vl ?off ?b = Inr (vl1, dd)" using ids by (cases "append_bucket_id ?vl ?off ?b") auto
  from value_write_extends[OF vi this qv buf al(2) len, of ?c]
  obtain vl' vios where w: "kv_value_log_write ?vl ?b value bytes len ?c = Inr (vl', map Vl_dump dd @ [Vl_append (Vl_caller ?c) (Iov_issued vios)])"
    and v': "vl_inv (exec_ios vios (st_vdev s)) vl'" "value_inside vl' (len, ucast ?off)"
      "value_bytes (exec_ios vios (st_vdev s)) vl' (len, ucast ?off) = take (unat len) bytes"
      "\<And>v. value_inside ?vl v \<Longrightarrow> value_inside vl' v \<and> value_bytes (exec_ios vios (st_vdev s)) vl' v = value_bytes (st_vdev s) ?vl v"
    by blast
  obtain seg c seg' where ld: "load_chain (st_bdev s) ?bl addr (kv_bucket_seg_init ?b) = Inr seg" and st: "seg_set addr k len ?off seg = Inr (c, Some seg')"
    and sg: "seg_inv seg'" "chain_aligned (seg_chain seg')" "seg_bucket_id seg' = ?b" "seg_buckets seg' \<noteq> []" "length (seg_buckets seg') \<in> {?m, Suc ?m}"
      "\<forall>j. j \<noteq> [] \<longrightarrow> seg_lookup seg' j = (if j = k then Some (len, ucast ?off) else chain_lookup (disk_chain (st_bdev s) ?bl ?b) j)"
    using set_in_chain[OF bi it al(1) kl, of ?b len ?off] full by (auto simp: contents_def)
  let ?seg = "seg'\<lparr>seg_dirty := True\<rparr>"
  have pre: "seg_inv ?seg" "chain_aligned (seg_chain ?seg)" "seg_dirty ?seg" "seg_buckets ?seg \<noteq> []" "seg_bucket_id ?seg < KV_BUCKET_ID_EMPTY"
    "llen (bl_log ?bl) + length (seg_buckets ?seg) < unat (l_size (bl_log ?bl))" "put_idle ?bl (length (seg_buckets ?seg))"
    "\<exists>k v. k \<noteq> [] \<and> seg_lookup ?seg k = Some v" and id: "seg_bucket_id ?seg = ?b"
    using sg kb kl(1) qb by auto
  obtain bl1 seg1 bios m seg2 where p: "kv_bucket_seg_put ?bl ?seg ?c = Inr (bl1, [seg1], [Bl_append (Bl_caller ?c) (Iov_issued bios)])"
    and cm: "kv_bucket_seg_commit (bl_meta bl1) seg1 = Inr (m, seg2)" and b1: "bl_inv (exec_ios bios (st_bdev s)) (bl1\<lparr>bl_meta := m\<rparr>)"
      "\<And>x. x \<noteq> ?b \<Longrightarrow> disk_chain (exec_ios bios (st_bdev s)) (bl1\<lparr>bl_meta := m\<rparr>) x = disk_chain (st_bdev s) ?bl x"
      "items_inv (map items (disk_chain (exec_ios bios (st_bdev s)) (bl1\<lparr>bl_meta := m\<rparr>) ?b))"
      "\<And>j. j \<noteq> [] \<Longrightarrow> chain_lookup (disk_chain (exec_ios bios (st_bdev s)) (bl1\<lparr>bl_meta := m\<rparr>) ?b) j = seg_lookup ?seg j"
    using put_changes_lookup[OF bi pre, of ?c] unfolding id by blast
  obtain ib where fd: "finish_dumps (map Vl_dump dd @ [Vl_append (Vl_caller ?c) (Iov_issued vios)]) vl' = Inr (vl'\<lparr>bucket_id_log := ib\<rparr>)"
    using finish_dumps_ok by blast
  obtain t where run: "run_set addr k value bytes len s = Inr (t, True)"
    and t: "st_bdev t = exec_ios bios (st_bdev s)" "st_vdev t = exec_ios vios (st_vdev s)" "ds_bucket_log (st_ds t) = bl1\<lparr>bl_meta := m\<rparr>"
      "ds_value_log (st_ds t) = vl'\<lparr>bucket_id_log := ib\<rparr>"
    and tq: "ds_q (st_ds t) = []" "ds_q_info (st_ds t) = \<lparr>q_size = 0, q_cap = 1024\<rparr>" "log_bucket_num (st_ds t) = log_bucket_num (st_ds s)"
    using run_set_steps[OF q w ld st p fd cm] by auto
  have "store_inv n t \<and> (\<forall>j. j \<noteq> [] \<longrightarrow> contents t j = (if j = k then
      map_option (value_bytes (st_vdev t) (ds_value_log (st_ds t))) (Some (len, ucast ?off)) else contents s j))"
    by (rule store_chain_changes[OF inv kl(1) tq]) (use b1 v' sg(6) in \<open>simp_all add: t\<close>)
  then show ?thesis using run v'(3) by (auto simp: t)
qed


section \<open>Get\<close>

text \<open>Nothing that the map or the invariant depends on has changed.\<close>

definition same_store :: "store \<Rightarrow> store \<Rightarrow> bool" where
  "same_store s s' \<longleftrightarrow> st_bdev s' = st_bdev s \<and> st_vdev s' = st_vdev s \<and> ds_bucket_log (st_ds s') = ds_bucket_log (st_ds s) \<and>
     ds_value_log (st_ds s') = ds_value_log (st_ds s) \<and> ds_q (st_ds s') = ds_q (st_ds s) \<and> ds_q_info (st_ds s') = ds_q_info (st_ds s) \<and>
     log_bucket_num (st_ds s') = log_bucket_num (st_ds s)"

lemma same_store_inv: "same_store s s' \<Longrightarrow> store_inv n s' = store_inv n s" "same_store s s' \<Longrightarrow> contents s' = contents s"
  by (simp_all add: same_store_def store_inv_def contents_def[abs_def] kv_data_store_bucket_id_def)

lemma run_get_ok:
  assumes inv: "store_inv n s" and k: "k \<noteq> []" and al: "addr AND 3 = 0" "value AND 3 = 0" "buf AND 3 = 0"
  shows "\<exists>s'. run_get addr k value buf s = Inr (s', contents s k) \<and> same_store s s'"
proof -
  let ?ds = "st_ds s" and ?b = "kv_data_store_bucket_id (st_ds s) k"
  let ?vl = "ds_value_log ?ds" and ?bl = "ds_bucket_log ?ds"
  have bi: "bl_inv (st_bdev s) ?bl" and vi: "vl_inv (st_vdev s) ?vl" and q: "ds_q ?ds = []" "ds_q_info ?ds = \<lparr>q_size = 0, q_cap = 1024\<rparr>"
    and it: "\<And>b. items_inv (map items (disk_chain (st_bdev s) ?bl b))"
    and pl: "\<And>b v. chain_lookup (disk_chain (st_bdev s) ?bl b) k = Some v \<Longrightarrow> value_inside ?vl v"
    using inv k unfolding store_inv_def by blast+
  obtain seg where ld: "load_chain (st_bdev s) ?bl addr (kv_bucket_seg_init ?b) = Inr seg" and sg: "seg_buckets seg = disk_chain (st_bdev s) ?bl ?b"
    using load_chain_ok[OF bi al(1) it] by blast
  have lk: "chain_lookup (disk_chain (st_bdev s) ?bl ?b) k = seg_lookup seg k" by (rule chain_lookup_rows) (simp add: rows_def sg)
  have ld': "load_chain (st_bdev s) ?bl addr (kv_bucket_seg_init (drop_bit (64 - log_bucket_num ?ds) (load_u64 k))) = Inr seg"
    using ld by (simp add: kv_data_store_bucket_id_def)
  note sim = run_get_def kv_data_store_get_def admitted_alone kv_data_store_bucket_id_def get_chain_loaded_def get_seg_cb_def
    dequeue_alone[where op = KV_DS_GET] same_store_def
  show ?thesis
  proof (cases "find_item_plus seg k")
    case None
    then have "contents s k = None" using lk by (simp add: contents_def seg_lookup_def)
    then show ?thesis using None q ld' by (simp add: sim Let_def)
  next
    case (Some p)
    let ?it = "seg_item seg p"
    have v: "chain_lookup (disk_chain (st_bdev s) ?bl ?b) k = Some (value_length ?it, value_offset ?it)"
      using Some lk by (simp add: seg_lookup_def val_of_def)
    obtain ctx ios where rd: "kv_value_log_read ?vl (ucast (value_offset ?it)) value (value_length ?it) buf = Inr (ctx, Iov_issued ios)"
      and bytes: "take (unat (value_length ?it)) (value_delivered (replicate (unat (value_length ?it)) 0) ctx (concat (map (io_data (st_vdev s)) ios))) =
        value_bytes (st_vdev s) ?vl (value_length ?it, value_offset ?it)"
      using read_value_inside[OF vi pl[OF v] al(2,3), of "replicate (unat (value_length ?it)) 0"] by auto
    have "contents s k = Some (value_bytes (st_vdev s) ?vl (value_length ?it, value_offset ?it))" using v by (simp add: contents_def)
    then show ?thesis using Some q ld' rd bytes by (simp add: sim Let_def value_arrives_def)
  qed
qed

section \<open>Delete\<close>

definition quiet_delete :: "store \<Rightarrow> u8 list \<Rightarrow> bool" where
  "quiet_delete s k \<longleftrightarrow>
     (let bl = ds_bucket_log (st_ds s); m = unat (m_chain_length (kv_bucket_meta_get (bl_meta bl) (kv_data_store_bucket_id (st_ds s) k)))
      in put_idle bl m \<and> put_idle bl (m - 1) \<and> llen (bl_log bl) + m < unat (l_size (bl_log bl)))"

lemma run_delete_steps:
  assumes q: "ds_q (st_ds s) = []" "ds_q_info (st_ds s) = \<lparr>q_size = 0, q_cap = 1024\<rparr>"
    and ld: "load_chain (st_bdev s) (ds_bucket_log (st_ds s)) addr (kv_bucket_seg_init (kv_data_store_bucket_id (st_ds s) k)) = Inr seg"
  shows "seg_delete k seg = Inr None \<Longrightarrow> \<exists>s'. run_delete addr k s = Inr (s', False) \<and> same_store s s'"
    and "seg_delete k seg = Inr (Some seg') \<Longrightarrow>
      kv_bucket_seg_put (ds_bucket_log (st_ds s)) seg' (Delete_finish_cb (ds_next (st_ds s))) = Inr (bl1, [seg1], bevs) \<Longrightarrow>
      kv_bucket_seg_commit (bl_meta bl1) seg1 = Inr (m, seg2) \<Longrightarrow>
      \<exists>s'. run_delete addr k s = Inr (s', True) \<and> st_bdev s' = fold exec_bucket_event bevs (st_bdev s) \<and> st_vdev s' = st_vdev s \<and>
        ds_bucket_log (st_ds s') = bl1\<lparr>bl_meta := m\<rparr> \<and> ds_value_log (st_ds s') = ds_value_log (st_ds s) \<and> ds_q (st_ds s') = [] \<and>
        ds_q_info (st_ds s') = \<lparr>q_size = 0, q_cap = 1024\<rparr> \<and> log_bucket_num (st_ds s') = log_bucket_num (st_ds s)"
proof -
  have ld': "load_chain (st_bdev s) (ds_bucket_log (st_ds s)) addr (kv_bucket_seg_init (drop_bit (64 - log_bucket_num (st_ds s)) (load_u64 k))) = Inr seg"
    using ld by (simp add: kv_data_store_bucket_id_def)
  note sim = run_delete_def kv_data_store_delete_def admitted_alone kv_data_store_bucket_id_def del_chain_loaded_def delete_lock_def
    delete_lock_cb_def delete_finish_cb_def kv_data_store_del_commit_def dequeue_alone[where op = KV_DS_DEL] same_store_def
  show "\<exists>s'. run_delete addr k s = Inr (s', False) \<and> same_store s s'" if "seg_delete k seg = Inr None"
    using q ld' that by (simp add: sim Let_def)
  show "\<exists>s'. run_delete addr k s = Inr (s', True) \<and> st_bdev s' = fold exec_bucket_event bevs (st_bdev s) \<and> st_vdev s' = st_vdev s \<and>
        ds_bucket_log (st_ds s') = bl1\<lparr>bl_meta := m\<rparr> \<and> ds_value_log (st_ds s') = ds_value_log (st_ds s) \<and> ds_q (st_ds s') = [] \<and>
        ds_q_info (st_ds s') = \<lparr>q_size = 0, q_cap = 1024\<rparr> \<and> log_bucket_num (st_ds s') = log_bucket_num (st_ds s)"
    if "seg_delete k seg = Inr (Some seg')" "kv_bucket_seg_put (ds_bucket_log (st_ds s)) seg' (Delete_finish_cb (ds_next (st_ds s))) = Inr (bl1, [seg1], bevs)"
      "kv_bucket_seg_commit (bl_meta bl1) seg1 = Inr (m, seg2)"
    using q ld' that by (simp add: sim Let_def)
qed


lemma run_delete_missing:
  assumes inv: "store_inv n s" and k: "k \<noteq> []" and al: "addr AND 3 = 0" and no: "contents s k = None"
  shows "\<exists>s'. run_delete addr k s = Inr (s', False) \<and> same_store s s'"
proof -
  let ?bl = "ds_bucket_log (st_ds s)" and ?b = "kv_data_store_bucket_id (st_ds s) k"
  have bi: "bl_inv (st_bdev s) ?bl" and q: "ds_q (st_ds s) = []" "ds_q_info (st_ds s) = \<lparr>q_size = 0, q_cap = 1024\<rparr>"
    and it: "\<And>b. items_inv (map items (disk_chain (st_bdev s) ?bl b))"
    using inv unfolding store_inv_def by blast+
  obtain seg where ld: "load_chain (st_bdev s) ?bl addr (kv_bucket_seg_init ?b) = Inr seg" and sg: "seg_inv seg"
      "seg_buckets seg = disk_chain (st_bdev s) ?bl ?b"
    using load_chain_ok[OF bi al it] by blast
  have "chain_lookup (disk_chain (st_bdev s) ?bl ?b) k = seg_lookup seg k" by (rule chain_lookup_rows) (simp add: rows_def sg(2))
  then have "seg_delete k seg = Inr None" using no seg_delete_ok[OF sg(1) k] by (simp add: contents_def)
  then show ?thesis by (rule run_delete_steps(1)[OF q ld])
qed

lemma run_delete_ok:
  assumes inv: "store_inv n s" and k: "store_key n k" and al: "addr AND 3 = 0" and quiet: "quiet_delete s k"
  shows "\<exists>s'. run_delete addr k s = Inr (s', contents s k \<noteq> None) \<and> store_inv n s' \<and>
    (\<forall>j. j \<noteq> [] \<longrightarrow> contents s' j = (if j = k then None else contents s j))"
proof -
  let ?ds = "st_ds s" and ?b = "kv_data_store_bucket_id (st_ds s) k"
  let ?bl = "ds_bucket_log ?ds" and ?c = "Delete_finish_cb (ds_next (st_ds s))"
  let ?m = "length (disk_chain (st_bdev s) ?bl ?b)"
  have bi: "bl_inv (st_bdev s) ?bl" and vi: "vl_inv (st_vdev s) (ds_value_log ?ds)" and q: "ds_q ?ds = []" "ds_q_info ?ds = \<lparr>q_size = 0, q_cap = 1024\<rparr>"
    and it: "\<And>b. items_inv (map items (disk_chain (st_bdev s) ?bl b))"
    using inv unfolding store_inv_def by blast+
  have kb: "?b < KV_BUCKET_ID_EMPTY" and kl: "k \<noteq> []"
    using k inv by (simp_all add: store_key_def legal_key_def store_inv_def kv_data_store_bucket_id_def)
  have qb: "put_idle ?bl ?m" "put_idle ?bl (?m - 1)" "llen (bl_log ?bl) + ?m < unat (l_size (bl_log ?bl))"
    using quiet by (simp_all add: quiet_delete_def Let_def)
  obtain seg where ld: "load_chain (st_bdev s) ?bl addr (kv_bucket_seg_init ?b) = Inr seg" and sg: "seg_inv seg" "seg_bucket_id seg = ?b"
      "chain_aligned (seg_chain seg)" "seg_buckets seg = disk_chain (st_bdev s) ?bl ?b"
    using load_chain_ok[OF bi al it] by blast
  have lk: "chain_lookup (disk_chain (st_bdev s) ?bl ?b) j = seg_lookup seg j" for j by (rule chain_lookup_rows) (simp add: rows_def sg(4))
  have ck: "contents s k = None \<longleftrightarrow> seg_lookup seg k = None" by (simp add: contents_def lk)
  note dl = seg_delete_ok[OF sg(1) kl]
  show ?thesis
  proof (cases "seg_lookup seg k")
    case None
    then obtain t where "run_delete addr k s = Inr (t, False)" "same_store s t" using run_delete_missing[OF inv kl al] ck by auto
    then show ?thesis using None ck inv same_store_inv[of s t] by auto
  next
    case (Some v)
    then obtain seg' where d: "seg_delete k seg = Inr (Some seg')" and s': "seg_inv seg'" "seg_bucket_id seg' = ?b"
      "\<forall>j. j \<noteq> [] \<longrightarrow> seg_lookup seg' j = (if j = k then None else chain_lookup (disk_chain (st_bdev s) ?bl ?b) j)"
      using dl sg(2) lk by auto
    note dk = seg_delete_keeps[OF sg(1) d]
    have "disk_chain (st_bdev s) ?bl ?b \<noteq> []" using lk[of k] Some by auto
    then have "\<not> is_meta_empty (kv_bucket_meta_get (bl_meta ?bl) (seg_bucket_id seg'))" using disk_chain_empty s'(2) by metis
    then have pre: "seg_inv seg'" "chain_aligned (seg_chain seg')" "seg_dirty seg'" "seg_buckets seg' \<noteq> []" "seg_bucket_id seg' < KV_BUCKET_ID_EMPTY"
      "llen (bl_log ?bl) + length (seg_buckets seg') < unat (l_size (bl_log ?bl))" "put_idle ?bl (length (seg_buckets seg'))"
      "is_meta_empty (kv_bucket_meta_get (bl_meta ?bl) (seg_bucket_id seg')) \<Longrightarrow> \<exists>k v. k \<noteq> [] \<and> seg_lookup seg' k = Some v"
      using s' dk kb qb sg(3,4) by auto
    obtain bl1 seg1 bios m seg2 where p: "kv_bucket_seg_put ?bl seg' ?c = Inr (bl1, [seg1], [Bl_append (Bl_caller ?c) (Iov_issued bios)])"
      and cm: "kv_bucket_seg_commit (bl_meta bl1) seg1 = Inr (m, seg2)" and b1: "bl_inv (exec_ios bios (st_bdev s)) (bl1\<lparr>bl_meta := m\<rparr>)"
        "\<And>x. x \<noteq> ?b \<Longrightarrow> disk_chain (exec_ios bios (st_bdev s)) (bl1\<lparr>bl_meta := m\<rparr>) x = disk_chain (st_bdev s) ?bl x"
        "items_inv (map items (disk_chain (exec_ios bios (st_bdev s)) (bl1\<lparr>bl_meta := m\<rparr>) ?b))"
        "\<And>j. j \<noteq> [] \<Longrightarrow> chain_lookup (disk_chain (exec_ios bios (st_bdev s)) (bl1\<lparr>bl_meta := m\<rparr>) ?b) j = seg_lookup seg' j"
      using put_changes_lookup[OF bi pre, of ?c] unfolding s'(2) by blast
    obtain t where run: "run_delete addr k s = Inr (t, True)"
      and t: "st_bdev t = exec_ios bios (st_bdev s)" "st_vdev t = st_vdev s" "ds_bucket_log (st_ds t) = bl1\<lparr>bl_meta := m\<rparr>"
        "ds_value_log (st_ds t) = ds_value_log ?ds"
      and tq: "ds_q (st_ds t) = []" "ds_q_info (st_ds t) = \<lparr>q_size = 0, q_cap = 1024\<rparr>" "log_bucket_num (st_ds t) = log_bucket_num (st_ds s)"
      using run_delete_steps(2)[OF q ld d p cm] by auto
    have "store_inv n t \<and> (\<forall>j. j \<noteq> [] \<longrightarrow> contents t j = (if j = k then
        map_option (value_bytes (st_vdev t) (ds_value_log (st_ds t))) None else contents s j))"
      by (rule store_chain_changes[OF inv kl tq]) (use b1 vi s'(3) in \<open>simp_all add: t\<close>)
    then show ?thesis using run Some ck by auto
  qed
qed


section \<open>The store as a map\<close>

text \<open>
  A set and a delete as operations on the whole store; the buffer of the value is filled up
  to whole blocks. An operation is ready when neither log would start a compaction or run out
  of space, the value is not empty, and a new key does not need a 128th bucket in its chain.
\<close>

definition value_buffer :: "store \<Rightarrow> u8 list \<Rightarrow> u8 list" where
  "value_buffer s v =
     (let vl = ds_value_log (st_ds s)
      in v @ replicate (unat (align vl (word_of_nat (length v))) * vl_bs vl - length v) 0)"

definition set_ready :: "store \<Rightarrow> u8 list \<Rightarrow> u8 list \<Rightarrow> bool" where
  "set_ready s k v \<longleftrightarrow> v \<noteq> [] \<and> length v < 2 ^ 32 \<and> quiet_set s k (word_of_nat (length v)) \<and>
     (contents s k \<noteq> None \<or>
      m_chain_length (kv_bucket_meta_get (bl_meta (ds_bucket_log (st_ds s))) (kv_data_store_bucket_id (st_ds s) k)) \<noteq> 127)"

lemma same_store_ready: "same_store s s' \<Longrightarrow> set_ready s' k v = set_ready s k v"
  using same_store_inv(2)[of s s'] by (simp add: same_store_def set_ready_def quiet_set_def kv_data_store_bucket_id_def Let_def)

definition store_step :: "u64 \<Rightarrow> u64 \<Rightarrow> u8 list \<times> u8 list option \<Rightarrow> store \<Rightarrow> (store \<times> bool) res" where
  "store_step addr value x s =
     (case snd x of
        Some v \<Rightarrow> run_set addr (fst x) value (value_buffer s v) (word_of_nat (length v)) s
      | None \<Rightarrow> run_delete addr (fst x) s)"

definition op_ready :: "nat \<Rightarrow> u8 list \<times> u8 list option \<Rightarrow> store \<Rightarrow> bool" where
  "op_ready n x s \<longleftrightarrow> store_key n (fst x) \<and> (case snd x of Some v \<Rightarrow> set_ready s (fst x) v | None \<Rightarrow> quiet_delete s (fst x))"

text \<open>The map of the store on the keys that may be stored, and the operations of a map.\<close>

definition store_map :: "nat \<Rightarrow> store \<Rightarrow> u8 list \<Rightarrow> u8 list option" where
  "store_map n s k = (if store_key n k then contents s k else None)"

definition map_op :: "'k \<times> 'v option \<Rightarrow> ('k \<Rightarrow> 'v option) \<Rightarrow> ('k \<Rightarrow> 'v option) \<times> bool" where
  "map_op x m = (m(fst x := snd x), snd x \<noteq> None \<or> m (fst x) \<noteq> None)"

lemma store_key_ne: "store_key n k \<Longrightarrow> k \<noteq> []"
  by (simp add: store_key_def legal_key_def)

lemma store_put_ok:
  assumes inv: "store_inv n s" and k: "store_key n k" and al: "addr AND 3 = 0" "value AND 3 = 0" and rdy: "set_ready s k v"
  shows "\<exists>s'. run_set addr k value (value_buffer s v) (word_of_nat (length v)) s = Inr (s', True) \<and> store_inv n s' \<and>
    (\<forall>j. j \<noteq> [] \<longrightarrow> contents s' j = (if j = k then Some v else contents s j))"
proof -
  let ?len = "word_of_nat (length v) :: u32"
  have v: "v \<noteq> []" "length v < 2 ^ 32" and q: "quiet_set s k ?len"
    and f: "contents s k = None \<Longrightarrow> m_chain_length (kv_bucket_meta_get (bl_meta (ds_bucket_log (st_ds s))) (kv_data_store_bucket_id (st_ds s) k)) \<noteq> 127"
    using rdy by (auto simp: set_ready_def)
  have ul: "unat ?len = length v" using v(2) by (simp add: unat_of_nat take_bit_eq_mod)
  have uc: "ucast ?len = (word_of_nat (length v) :: u64)" using arg_cong[OF ul, of "word_of_nat :: nat \<Rightarrow> u64"] by simp
  have b: "unat (align (ds_value_log (st_ds s)) (ucast ?len)) * vl_bs (ds_value_log (st_ds s)) \<le> length (value_buffer s v)"
    by (simp add: value_buffer_def Let_def uc)
  have "take (length v) (value_buffer s v) = v" by (simp add: value_buffer_def Let_def)
  then show ?thesis using run_set_ok[OF inv k al _ b q f] ul v(1) by auto
qed

lemma store_step_refines:
  assumes al: "addr AND 3 = 0" "value AND 3 = 0" and inv: "store_inv n s" and rdy: "op_ready n x s"
  shows "\<exists>s' b. store_step addr value x s = Inr (s', b) \<and> store_inv n s' \<and> map_op x (store_map n s) = (store_map n s', b)"
proof -
  obtain k ov where x: "x = (k, ov)" by fastforce
  have k: "store_key n k" using rdy by (simp add: op_ready_def x)
  obtain s' where s': "store_step addr value x s = Inr (s', ov \<noteq> None \<or> contents s k \<noteq> None)" "store_inv n s'"
    "\<forall>j. j \<noteq> [] \<longrightarrow> contents s' j = (if j = k then ov else contents s j)"
  proof (cases ov)
    case (Some v)
    then have "set_ready s k v" using rdy by (simp add: op_ready_def x)
    then show thesis using store_put_ok[OF inv k al] that Some by (auto simp: store_step_def x)
  next
    case None
    then have "quiet_delete s k" using rdy by (simp add: op_ready_def x)
    then show thesis using run_delete_ok[OF inv k al(1)] that None by (auto simp: store_step_def x)
  qed
  have "(store_map n s)(k := ov) = store_map n s'"
    using s'(3) k store_key_ne by (auto simp: store_map_def fun_eq_iff)
  then show ?thesis using s' k by (simp add: map_op_def x store_map_def)
qed

text \<open>A buffer address that is not dword aligned makes an operation not ready: the device refuses it.\<close>

interpretation storemap: op_refinement "store_inv n" "store_map n" "\<lambda>x s. addr AND 3 = 0 \<and> value AND 3 = 0 \<and> op_ready n x s"
  "store_step addr value" map_op for n addr "value"
  by unfold_locales (use store_step_refines in blast)

lemma dequeue_loop_total:
  "\<forall>e \<in> set es. ents e \<noteq> None \<Longrightarrow> \<exists>q' rest evs. dequeue_loop ents q es = Inr (q', rest, evs)"
proof (induction es arbitrary: q)
  case (Cons e es)
  then obtain ent where "ents e = Some ent" by auto
  then show ?case using Cons.IH[of "hd (snd (kv_ds_queue_find [q] None 1 (kv_ds_op_cost (qe_op ent))))"] Cons.prems
    by (auto split: prod.splits option.splits)
qed simp

section \<open>Properties\<close>

text \<open>
  C2. The data store is a map from keys to values. A sequence of sets and deletes, run one
  after the other from the handlers' entry to the commit, ends without an abort, each is
  answered as the map answers it (a set with success, a delete with whether the key was
  there), and a get of any key afterwards delivers the value that the map holds, byte for byte
  from the value log through the chain of the bucket in the bucket log, or reports that there
  is none. The hypothesis is that each operation is ready in the state it finds: no
  compaction is due, the logs have space, and a new key finds room in its chain.
\<close>

theorem store_run_is_map:
  assumes "store_inv n s" and "run_ready (op_ready n) (store_step addr value) ops s" and "store_key n k"
    and "addr AND 3 = 0" and "value AND 3 = 0" and "buf AND 3 = 0"
  shows "\<exists>t answers t'. run_steps (store_step addr value) ops s = Inr (t, answers) \<and> store_inv n t \<and>
    run_spec map_op ops (store_map n s) = (store_map n t, answers) \<and>
    run_get addr k value buf t = Inr (t', store_map n t k)"
proof -
  have "run_ready (\<lambda>x s. addr AND 3 = 0 \<and> value AND 3 = 0 \<and> op_ready n x s) (store_step addr value) ops s"
    using assms(2,4,5) by simp
  then obtain t answers where t: "run_steps (store_step addr value) ops s = Inr (t, answers)" "store_inv n t"
    "run_spec map_op ops (store_map n s) = (store_map n t, answers)"
    using storemap.run_refines[OF assms(1)] by blast
  obtain t' where "run_get addr k value buf t = Inr (t', contents t k)"
    using run_get_ok[OF t(2) store_key_ne[OF assms(3)] assms(4-6)] by blast
  then show ?thesis using t assms(3) by (simp add: store_map_def)
qed

text \<open>
  C4. A set that finds room in both logs and in the chain of its key is answered with success,
  and after it every get delivers the new value for this key and the old one for every other
  key of the store, in the same bucket or another.
\<close>

theorem store_set_get:
  assumes "store_inv n s" and "store_key n k" and "store_key n j" and "set_ready s k v"
    and "addr AND 3 = 0" and "value AND 3 = 0" and "buf AND 3 = 0"
  shows "\<exists>s' s''. run_set addr k value (value_buffer s v) (word_of_nat (length v)) s = Inr (s', True) \<and> store_inv n s' \<and>
    run_get addr j value buf s' = Inr (s'', if j = k then Some v else contents s j)"
proof -
  obtain t where p: "run_set addr k value (value_buffer s v) (word_of_nat (length v)) s = Inr (t, True)" "store_inv n t"
    "contents t j = (if j = k then Some v else contents s j)"
    using store_put_ok[OF assms(1,2,5,6,4)] store_key_ne[OF assms(3)] by blast
  moreover obtain u where "run_get addr j value buf t = Inr (u, contents t j)"
    using run_get_ok[OF p(2) store_key_ne[OF assms(3)] assms(5-7)] by blast
  ultimately show ?thesis by (intro exI[of _ t] exI[of _ u]) simp
qed

text \<open>
  C40. The answer to a set whose chain is full and holds no item of the key depends on the order
  of its two callbacks, because \<open>set_finish_cb\<close> does not keep a failure. When the lock callback
  comes before the write of the value has completed, the set is acknowledged although nothing
  was stored, and the commit that the server then makes of the unchanged segment fails its
  assertion; in the other order the set is answered with a failure and its commit changes
  nothing.
\<close>

theorem full_chain_set_answer:
  assumes "ds_sets ds i = Some ctx" and "sc_io_cnt ctx = 2" and "sc_success ctx" and "seg_wf (sc_seg ctx)"
    and "seg_bucket_id (sc_seg ctx) < KV_BUCKET_ID_EMPTY" and "\<not> seg_dirty (sc_seg ctx)"
    and "seg_set addr (sc_key ctx) (sc_value_length ctx) (sc_value_offset ctx) (sc_seg ctx) = Inr (True, None)"
    and "ds_entries ds (sc_entry ctx) = Some ent" and "\<forall>e \<in> set (ds_q ds). ds_entries ds e \<noteq> None"
  shows "(\<exists>ds1 ds2 evs. set_lock_cb addr i ds = Inr (ds1, []) \<and>
      set_finish_cb True i ds1 = Inr (ds2, evs @ [Ds_reply (qe_cb ent) True]) \<and>
      kv_data_store_set_commit i True ds2 = Inl Assert_fail) \<and>
    (\<exists>ds1 ds2 ds3 evs. set_finish_cb True i ds = Inr (ds1, []) \<and>
      set_lock_cb addr i ds1 = Inr (ds2, evs @ [Ds_reply (qe_cb ent) False]) \<and>
      kv_data_store_set_commit i False ds2 = Inr (ds3, [Ds_unlock [sc_seg ctx]]) \<and> ds_bucket_log ds3 = ds_bucket_log ds)"
proof -
  have "verify_buckets (sc_seg ctx) = Inr ()" if "seg_chain (sc_seg ctx) \<noteq> []"
    using verify_buckets_ok[OF _ chain_id_not_reserved[OF assms(5)]] assms(4) that by (simp add: seg_wf_def)
  then have "kv_bucket_seg_commit m (sc_seg ctx) = Inl Assert_fail" for m using assms(6) by (simp add: kv_bucket_seg_commit_def)
  moreover have "\<exists>q' rest evs. dequeue_loop (ds_entries ds) q (ds_q ds) = Inr (q', rest, evs)" for q
    using dequeue_loop_total[OF assms(9)] by blast
  then obtain q' rest evs where "dequeue_loop (ds_entries ds)
      ((ds_q_info ds)\<lparr>q_size := q_size (ds_q_info ds) - kv_ds_op_cost (qe_op ent)\<rparr>) (ds_q ds) = Inr (q', rest, evs)" by blast
  ultimately show ?thesis using assms(1-3,7,8)
    by (auto simp: set_lock_cb_def set_finish_cb_def kv_data_store_set_commit_def dequeue_def Let_def)
qed

text \<open>A chain of 127 buckets whose items all carry the key 5.\<close>

definition full_bucket :: "nat \<Rightarrow> kv_bucket" where
  "full_bucket i = zero_bucket\<lparr>b_id := 9, chain_length := 127, chain_index := word_of_nat i,
     items := replicate KV_ITEM_PER_BUCKET (zero_item\<lparr>key_length := 1, key := 5 # replicate 15 0\<rparr>)\<rparr>"

text \<open>A store with an empty bucket log of 16384 blocks and an empty value log of 8 blocks of 8 bytes.\<close>

definition store_ex :: store where
  "store_ex = \<lparr>st_ds = \<lparr>ds_bucket_log = \<lparr>bl_log = kv_circular_log_init 512 0 0 16384 0 0 3 1 4096 (replicate 5 zero_bucket), bl_size = 32768,
       bl_head = 0, bl_tail = 0, bl_compact_head = 0, bl_meta = kv_bucket_meta_init\<rparr>,
     ds_value_log = vl_ex 6 6, ds_q_info = \<lparr>q_size = 0, q_cap = 1024\<rparr>, log_bucket_num = 48, dirty_set = kv_bucket_key_set_init,
     ds_q = [], ds_entries = Map.empty, ds_next = 0, ds_sets = Map.empty, ds_buffered = Map.empty, ds_gets = Map.empty, ds_dels = Map.empty\<rparr>,
     st_bdev = (\<lambda>_. zero_bucket), st_vdev = dev_ex\<rparr>"

lemma store_ex_simps:
  "kv_bucket_meta_get (bl_meta (ds_bucket_log (st_ds store_ex))) b = zero_meta"
  "disk_chain dev (ds_bucket_log (st_ds store_ex)) b = []" "ds_value_log (st_ds store_ex) = vl_ex 6 6"
  by (simp_all add: store_ex_def kv_bucket_meta_get_def kv_bucket_meta_init_def disk_chain_def zero_meta_def)

lemma store_ex_inv: "store_inv 48 store_ex"
proof -
  have "log_wf (bl_log (ds_bucket_log (st_ds store_ex)))"
    by (simp add: store_ex_def log_wf_def fetch_wf_def kv_circular_log_init_def)
  then have "bl_inv (st_bdev store_ex) (ds_bucket_log (st_ds store_ex))"
    unfolding bl_inv_def store_ex_simps by (simp add: store_ex_def kv_circular_log_init_def meta_inv_def kv_bucket_meta_init_def)
  moreover have "vl_inv (st_vdev store_ex) (vl_ex 6 6)"
    using vl_ex_wf[of 6 6] by (simp add: vl_inv_def store_ex_def log_blocks_def) (simp add: vl_ex_def kv_circular_log_init_def)
  ultimately show ?thesis unfolding store_inv_def store_ex_simps
    by (simp add: items_inv_def rect_def live_def distinct_keys_def) (simp add: store_ex_def)
qed

lemma store_ex_key: "store_key 48 [1, 2, 3, 4, 5, 6, 7, 8]"
  by (simp add: store_key_def legal_key_def KV_MAX_KEY_LENGTH_def load_u64_def KV_BUCKET_ID_EMPTY_def)

lemma store_ex_ready: "set_ready store_ex [1, 2, 3, 4, 5, 6, 7, 8] [9, 8, 7]"
proof -
  let ?k = "[1, 2, 3, 4, 5, 6, 7, 8] :: u8 list" and ?bl = "ds_bucket_log (st_ds store_ex)"
  have al: "align (vl_ex 6 6) 3 = 1" by (simp add: align_def vl_ex_def)
  have w: "write_idle (vl_ex 6 6) 1" by (simp add: write_idle_def vl_compact_idle_def vl_ex_def)
  have l: "llen (vl_log (vl_ex 6 6)) = 0" "unat (l_size (vl_log (vl_ex 6 6))) = 8" by (simp_all add: vl_ex_def kv_circular_log_init_def)
  have ids: "\<not> isl (append_bucket_id (vl_ex 6 6) (kv_value_log_offset (vl_ex 6 6)) b)" for b
    by (simp add: append_bucket_id_def vl_ex_def kv_value_log_offset_def kv_circular_log_init_def offset_to_block_def
        BUCKET_ID_DUMP_BLKS_def Let_def)
  have p: "put_idle ?bl 0" "put_idle ?bl 1" "llen (bl_log ?bl) + 1 < unat (l_size (bl_log ?bl))"
    by (simp_all add: store_ex_def put_idle_def compact_idle_def kv_circular_log_init_def kv_circular_log_empty_space_def
        kv_circular_log_length_def COMPACTION_LENGTH_def COMPACTION_CONCURRENCY_def)
  show ?thesis unfolding set_ready_def quiet_set_def Let_def store_ex_simps using al w l ids p by (simp add: zero_meta_def)
qed

theorem store_set_get_witness:
  "\<exists>s' s''. run_set 4096 [1, 2, 3, 4, 5, 6, 7, 8] 64 (value_buffer store_ex [9, 8, 7]) 3 store_ex = Inr (s', True) \<and>
    run_get 4096 [1, 2, 3, 4, 5, 6, 7, 8] 64 128 s' = Inr (s'', Some [9, 8, 7])"
  using store_set_get[OF store_ex_inv store_ex_key store_ex_key store_ex_ready, of 4096 64 128] by auto

lemma store_ex_delete_ready: "quiet_delete store_ex k"
  unfolding quiet_delete_def Let_def store_ex_simps
  by (simp add: store_ex_def put_idle_def compact_idle_def kv_circular_log_init_def kv_circular_log_empty_space_def
      kv_circular_log_length_def COMPACTION_LENGTH_def COMPACTION_CONCURRENCY_def zero_meta_def)

theorem store_run_is_map_witness:
  "\<exists>t t'. run_steps (store_step 4096 64) [([1, 2, 3, 4, 5, 6, 7, 8], None), ([1, 2, 3, 4, 5, 6, 7, 8], Some [9, 8, 7])] store_ex =
      Inr (t, [False, True]) \<and> run_get 4096 [1, 2, 3, 4, 5, 6, 7, 8] 64 128 t = Inr (t', Some [9, 8, 7])"
proof -
  let ?k = "[1, 2, 3, 4, 5, 6, 7, 8] :: u8 list"
  let ?ops = "[(?k, None), (?k, Some [9, 8, 7 :: u8])]"
  have no: "contents store_ex ?k = None" unfolding contents_def store_ex_simps by simp
  obtain u where u: "run_delete 4096 ?k store_ex = Inr (u, False)" "same_store store_ex u"
    using run_delete_missing[OF store_ex_inv _ _ no, of 4096] by auto
  have "set_ready u ?k [9, 8, 7]" using store_ex_ready same_store_ready[OF u(2)] by blast
  then have "run_ready (op_ready 48) (store_step 4096 64) ?ops store_ex"
    using store_ex_key store_ex_delete_ready u(1) by (simp add: op_ready_def store_step_def split: sum.splits)
  from store_run_is_map[OF store_ex_inv this store_ex_key, of 128] obtain t answers t' where
    r: "run_steps (store_step 4096 64) ?ops store_ex = Inr (t, answers)"
      "run_spec map_op ?ops (store_map 48 store_ex) = (store_map 48 t, answers)"
      "run_get 4096 ?k 64 128 t = Inr (t', store_map 48 t ?k)" by auto
  have "store_map 48 store_ex ?k = None" using no by (simp add: store_map_def)
  then have m: "store_map 48 t = (store_map 48 store_ex)(?k \<mapsto> [9, 8, 7])" "answers = [False, True]"
    using r(2) by (auto simp: map_op_def)
  then have "store_map 48 t ?k = Some [9, 8, 7]" by (simp only: fun_upd_same)
  then show ?thesis using r(1,3) m(2) by auto
qed

theorem full_chain_set_answer_witness:
  "\<exists>(ds :: nat kv_data_store) i ds1 ds2 ds3 ds4 evs evs'.
    set_lock_cb 0 i ds = Inr (ds1, []) \<and> set_finish_cb True i ds1 = Inr (ds2, evs @ [Ds_reply 7 True]) \<and>
    kv_data_store_set_commit i True ds2 = Inl Assert_fail \<and>
    set_finish_cb True i ds = Inr (ds3, []) \<and> set_lock_cb 0 i ds3 = Inr (ds4, evs' @ [Ds_reply 7 False])"
proof -
  let ?seg = "(kv_bucket_seg_init 9)\<lparr>seg_chain := [\<lparr>ce_addr = 0, ce_buckets = map full_bucket [0..<127], pre_alloc_bucket = False\<rparr>]\<rparr>"
  let ?ctx = "\<lparr>sc_key = [6], sc_value = 0, sc_bytes = [], sc_value_length = 1, sc_bucket_id = 9, sc_io_cnt = 2, sc_seg = ?seg,
    sc_value_offset = 0, sc_success = True, sc_entry = 1\<rparr>"
  let ?ent = "\<lparr>qe_op = KV_DS_SET, qe_fn = Set_start 0, qe_cb = 7 :: nat\<rparr>"
  let ?ds = "\<lparr>ds_bucket_log = ds_bucket_log (st_ds store_ex), ds_value_log = vl_ex 6 6, ds_q_info = \<lparr>q_size = 8, q_cap = 1024\<rparr>, log_bucket_num = 48,
    dirty_set = kv_bucket_key_set_init, ds_q = [], ds_entries = [1 \<mapsto> ?ent], ds_next = 2, ds_sets = [0 \<mapsto> ?ctx], ds_buffered = Map.empty,
    ds_gets = Map.empty, ds_dels = Map.empty\<rparr>"
  have b: "seg_buckets ?seg = map full_bucket [0..<127]" by simp
  have it: "\<not> KV_EMPTY_ITEM it \<and> \<not> item_has_key [6] it" if "x \<in> set (map full_bucket [0..<127])" "it \<in> set (items x)" for x it
    using that by (auto simp: full_bucket_def KV_EMPTY_ITEM_def item_has_key_def compare_keys_def KV_ITEM_PER_BUCKET_def)
  have no: "locate KV_EMPTY_ITEM (seg_buckets ?seg) 0 = None" "locate (item_has_key [6]) (seg_buckets ?seg) 0 = None"
    unfolding b locate_None using it by blast+
  have fb: "first_bucket ?seg = Inr (full_bucket 0)" by (simp add: first_bucket_def upt_rec[of 0])
  have st: "seg_set 0 [6] 1 0 ?seg = Inr (True, None)"
    unfolding seg_set_def find_item_plus_def find_empty_def no
    by (simp add: kv_bucket_alloc_extra_def fb) (simp add: full_bucket_def)
  have "is_chain 9 (map full_bucket [0..<127])" by (auto simp: is_chain_def full_bucket_def unat_of_nat take_bit_eq_mod)
  then have wf: "seg_wf ?seg" unfolding seg_wf_def b by (simp add: kv_bucket_seg_init_def)
  show ?thesis using full_chain_set_answer[of ?ds 0 ?ctx 0 ?ent] st wf
    by (simp add: kv_bucket_seg_init_def KV_BUCKET_ID_EMPTY_def) blast
qed

end
