(* ===== verification/Cmd_Options.thy ===== *)
theory Cmd_Options
  imports Leed_Prelude
begin

text \<open>
  What the command lines of the programs share: the conversion of an argument, the copy of one
  into an array, and the loop over the options as a locale. \<open>getopt\<close> itself is the list of
  options with their arguments.
\<close>

text \<open>\<open>atol\<close> for the digits of an argument after blanks and an optional sign; what follows them is ignored.\<close>

fun atol_digits :: "int \<Rightarrow> string \<Rightarrow> int" where
  "atol_digits n [] = n"
| "atol_digits n (c # cs) =
     (if 48 \<le> (of_char c :: int) \<and> (of_char c :: int) \<le> 57 then atol_digits (10 * n + (of_char c - 48)) cs else n)"

definition atol :: "string \<Rightarrow> int" where
  "atol s =
     (case dropWhile (\<lambda>c. c = CHR '' '') s of
        [] \<Rightarrow> 0
      | c # cs \<Rightarrow> if c = CHR ''-'' then - atol_digits 0 cs else if c = CHR ''+'' then atol_digits 0 cs else atol_digits 0 (c # cs))"

text \<open>
  \<open>strcpy\<close> into an array of \<open>n\<close> bytes. The code checks no length: a string that does not fit is
  written past the array, which is \<open>Out_of_bounds\<close> here like every access outside an object.
\<close>

definition strcpy_into :: "nat \<Rightarrow> string \<Rightarrow> string res" where
  "strcpy_into n s = (if length s < n then Inr s else Inl Out_of_bounds)"

lemma strcpy_into_Inr: "strcpy_into n s = Inr t \<longleftrightarrow> t = s \<and> length s < n"
  by (auto simp: strcpy_into_def)

locale option_parser =
  fixes option1 :: "char \<times> string \<Rightarrow> 'o \<Rightarrow> 'o res" and options :: "(char \<times> string) list \<Rightarrow> 'o \<Rightarrow> 'o res" and ok :: "'o \<Rightarrow> bool"
  assumes nil: "options [] p = Inr p" and cons: "options (a # as) p = rbind (option1 a p) (options as)"
    and keeps: "ok p \<Longrightarrow> option1 a p = Inr q \<Longrightarrow> ok q"
begin

lemma options_keep: "ok p \<Longrightarrow> options as p = Inr q \<Longrightarrow> ok q"
proof (induction as arbitrary: p)
  case (Cons a as)
  obtain x where x: "option1 a p = Inr x" "options as x = Inr q" using Cons.prems(2) by (auto simp: cons res_simps)
  show ?case using Cons.IH[OF keeps[OF Cons.prems(1) x(1)] x(2)] .
qed (simp add: nil)

lemma options_append: "options (as @ bs) p = rbind (options as p) (options bs)"
proof (induction as arbitrary: p)
  case (Cons a as)
  then have "options (as @ bs) = (\<lambda>x. rbind (options as x) (options bs))" by (simp add: fun_eq_iff)
  then show ?case by (simp add: cons rbind_assoc)
qed (simp add: nil)

text \<open>An option that is refused ends the program, wherever it stands.\<close>

lemma options_refuse: "options as p = Inr q \<Longrightarrow> option1 b q = Inl e \<Longrightarrow> options (as @ b # bs) p = Inl e"
  by (simp add: options_append cons)

end

end
