(* ===== verification/Load_Phases.thy ===== *)
theory Load_Phases
  imports Kv_Msg Cmd_Options "HOL-Library.Multiset"
begin

text \<open>
  What the two load generators, \<open>app/ring_ycsb_client/kv_client.c\<close> and
  \<open>app/ycsb_benchmark/benchmark.c\<close>, have in common: the helpers and types of both files, and
  their protocol of phases as an abstract machine with its invariant. A phase shares its
  operations out to producers and starts a fixed number of I/Os for each; an I/O that finds
  nothing left to do is retired, the last one of a producer reports it, and the last report
  starts the next phase. The locale at the end gives a program that refines the machine its
  theorem.
\<close>

section \<open>Common definitions\<close>

datatype cl_phase = INIT | FILL | TRANSACTION | SEQ_READ | SEQ_WRITE | DEL

definition LATENCY_MAX_RECORD :: u64 where "LATENCY_MAX_RECORD = 0x100000"

text \<open>
  \<open>ceil\<close> of the quotient in floating point: the division by a power of two is exact for
  counts that a double represents, which the counts of a workload are.
\<close>

definition ceil_records :: "u64 \<Rightarrow> u32" where
  "ceil_records n = word_of_nat ((unat n + (unat LATENCY_MAX_RECORD - 1)) div unat LATENCY_MAX_RECORD)"

text \<open>The index of the latency record of an answer, if one is taken.\<close>

definition latency_index :: "u64 \<Rightarrow> u32 \<Rightarrow> unit res" where
  "latency_index start per_record =
     (if per_record = 0 then Inl Div_by_zero
      else if start mod ucast per_record = 0 then
        if start div ucast per_record < LATENCY_MAX_RECORD then Inr () else Inl Out_of_bounds
      else Inr ())"

text \<open>
  What the generator and the cache answer: the operation, the key and the value of the next
  request, and the result of a lookup in the cache with the length and the bytes it stores.
\<close>

datatype kv_ycsb_operation = YCSB_INSERT | YCSB_READ | YCSB_UPDATE | YCSB_SCAN | YCSB_READMODIFYWRITE | YCSB_SEQ

record cl_input =
  in_op :: kv_ycsb_operation
  in_key :: "u8 list"
  in_value :: "u8 list"
  in_ret :: int
  in_len :: u32
  in_cached :: "u8 list"

text \<open>What \<open>kv_ycsb_next\<close> stores: a key of 16 bytes, and a value unless the operation is a read.\<close>

definition ycsb_key :: "cl_input \<Rightarrow> kv_msg \<Rightarrow> kv_msg" where
  "ycsb_key x m = m\<lparr>data := blit (data m) 0 (in_key x)\<rparr>"

definition ycsb_value :: "cl_input \<Rightarrow> kv_msg \<Rightarrow> kv_msg" where
  "ycsb_value x m = m\<lparr>data := blit (data m) (unat (KV_MSG_ALIGN (key_len m))) (in_value x)\<rparr>"

text \<open>A lookup in the cache stores the value in the request.\<close>

definition cached_msg :: "cl_input \<Rightarrow> kv_msg \<Rightarrow> kv_msg" where
  "cached_msg x m = m\<lparr>value_len := in_len x, data := blit (data m) (unat (KV_MSG_ALIGN (key_len m))) (in_cached x)\<rparr>"

text \<open>Memory from \<open>calloc\<close>.\<close>

definition zero_msg :: kv_msg where
  "zero_msg = \<lparr>msg_type = 0, key_len = 0, hop = 0, value_len = 0, put_key_ok = 0, slot_id = 0, msg_ds_id = 0,
     msg_q_info = \<lparr>q_size = 0, q_cap = 0\<rparr>, data = []\<rparr>"

text \<open>The operations left to a producer.\<close>

lemma unat_distance_less: "a \<noteq> b \<Longrightarrow> unat (b - (a + 1)) < unat (b - a)" for a b :: u64
proof -
  assume "a \<noteq> b"
  then have "0 < unat (b - a)" by (simp add: unat_gt_0)
  then have "unat (b - a - 1) < unat (b - a)" by (simp add: unat_sub word_le_nat_alt)
  then show ?thesis by (simp add: algebra_simps)
qed

section \<open>The machine of phases\<close>

text \<open>
  The continuations that are under way: of an I/O, of the initialisation (which counts for
  producer 0), and the report of a finished producer.
\<close>

datatype ph_event = Cont nat | Null | Fini

record ph_state =
  ph_idle :: bool
  ph_cnt :: "nat \<Rightarrow> u64"
  ph_from :: "nat \<Rightarrow> u64"
  ph_to :: "nat \<Rightarrow> u64"
  ph_owner :: "nat \<Rightarrow> nat"
  ph_reports :: u32

lemma ph_state_eqI:
  fixes s s' :: ph_state
  assumes "ph_idle s = ph_idle s'" and "\<And>k. ph_cnt s k = ph_cnt s' k" and "\<And>k. ph_from s k = ph_from s' k"
    and "\<And>k. ph_to s k = ph_to s' k" and "\<And>i. ph_owner s i = ph_owner s' i" and "ph_reports s = ph_reports s'"
  shows "s = s'"
  using assms by (intro ph_state.equality) auto

definition ph_retired :: "nat \<Rightarrow> ph_state \<Rightarrow> ph_state" where
  "ph_retired k s = s\<lparr>ph_cnt := (ph_cnt s)(k := ph_cnt s k - 1), ph_from := (ph_from s)(k := ph_to s k)\<rparr>"

definition ph_report :: "nat \<Rightarrow> ph_state \<Rightarrow> ph_event multiset" where
  "ph_report k s = (if ph_cnt s k - 1 = 0 then {#Fini#} else {#})"

text \<open>The start of a phase with \<open>n\<close> producers and \<open>r\<close> I/Os for each.\<close>

definition ph_started :: "nat \<Rightarrow> nat \<Rightarrow> ph_state \<Rightarrow> bool" where
  "ph_started n r s \<longleftrightarrow> \<not> ph_idle s \<and> unat (ph_reports s) = n \<and>
     (\<forall>k < n. unat (ph_cnt s k) = r \<and> unat (ph_from s k) \<le> unat (ph_to s k)) \<and> (\<forall>j < n * r. ph_owner s j = j div r)"

inductive ph_step :: "nat \<Rightarrow> nat \<Rightarrow> ph_state \<times> ph_event multiset \<Rightarrow> ph_state \<times> ph_event multiset \<Rightarrow> bool" for n r where
  ph_io: "k = ph_owner s i \<Longrightarrow> (unat (ph_from s k) \<le> unat (ph_to s k) \<Longrightarrow> unat (ph_from s k) \<le> unat x \<and> unat x \<le> unat (ph_to s k)) \<Longrightarrow>
    ph_step n r (s, add_mset (Cont i) P) (s\<lparr>ph_from := (ph_from s)(k := x)\<rparr>, add_mset (Cont i) P)"
| ph_retire: "k = ph_owner s i \<Longrightarrow> ph_step n r (s, add_mset (Cont i) P) (ph_retired k s, ph_report k s + P)"
| ph_null: "ph_from s 0 = ph_to s 0 \<Longrightarrow> ph_step n r (s, add_mset Null P) (ph_retired 0 s, ph_report 0 s + P)"
| ph_count: "ph_reports s - 1 \<noteq> 0 \<Longrightarrow> ph_step n r (s, add_mset Fini P) (s\<lparr>ph_reports := ph_reports s - 1\<rparr>, P)"
| ph_start: "ph_reports s - 1 = 0 \<Longrightarrow> ph_started n r s' \<Longrightarrow> ph_step n r (s, add_mset Fini P) (s', mset (map Cont [0..<n * r]) + P)"
| ph_stop: "ph_reports s - 1 = 0 \<Longrightarrow> ph_step n r (s, add_mset Fini P) (s', P)"

text \<open>
  One pass of an I/O through its program leaves all but its own producer alone. Either it goes
  on with one continuation, or it is retired, or it is to be run again at once.
\<close>

definition ph_frame :: "nat \<Rightarrow> ph_state \<Rightarrow> ph_state \<Rightarrow> bool" where
  "ph_frame k s s' \<longleftrightarrow> ph_idle s' = ph_idle s \<and> ph_reports s' = ph_reports s \<and> ph_owner s' = ph_owner s \<and> ph_to s' = ph_to s \<and>
     (\<forall>l. l \<noteq> k \<longrightarrow> ph_cnt s' l = ph_cnt s l \<and> ph_from s' l = ph_from s l)"

definition ph_pass :: "nat \<Rightarrow> ph_state \<Rightarrow> ph_state \<Rightarrow> ph_event list \<Rightarrow> bool \<Rightarrow> bool" where
  "ph_pass i s s' ks again \<longleftrightarrow>
     (let k = ph_owner s i in ph_frame k s s' \<and>
      (if again then ks = [] \<and> ph_cnt s' k = ph_cnt s k \<and> ph_from s k \<noteq> ph_to s k \<and> (ph_from s' k = ph_from s k \<or> ph_from s' k = ph_from s k + 1)
       else if ks = [Cont i] then ph_cnt s' k = ph_cnt s k \<and> (ph_from s' k = ph_from s k \<or> ph_from s k \<noteq> ph_to s k \<and> ph_from s' k = ph_from s k + 1)
       else ph_from s k = ph_to s k \<and> ph_from s' k = ph_from s k \<and> ph_cnt s' k = ph_cnt s k - 1 \<and> ks = (if ph_cnt s' k = 0 then [Fini] else [])))"

definition ph_effect :: "nat \<Rightarrow> ph_state \<Rightarrow> ph_state \<Rightarrow> ph_event list \<Rightarrow> bool" where
  "ph_effect i s s' ks \<longleftrightarrow>
     (let k = ph_owner s i in ph_frame k s s' \<and>
      (unat (ph_from s k) \<le> unat (ph_to s k) \<longrightarrow> unat (ph_from s k) \<le> unat (ph_from s' k) \<and> unat (ph_from s' k) \<le> unat (ph_to s k)) \<and>
      (if ks = [Cont i] then ph_cnt s' k = ph_cnt s k
       else ph_from s' k = ph_to s k \<and> ph_cnt s' k = ph_cnt s k - 1 \<and> ks = (if ph_cnt s' k = 0 then [Fini] else [])))"

lemma ph_frame_refl: "ph_frame k s s"
  by (simp add: ph_frame_def)

lemma ph_effect_refl: "ph_effect i s s [Cont i]"
  by (simp add: ph_effect_def Let_def ph_frame_refl)

lemma step_below_limit:
  fixes a b :: u64
  assumes "a \<noteq> b" and "unat a \<le> unat b"
  shows "unat (a + 1) = unat a + 1 \<and> unat (a + 1) \<le> unat b"
proof -
  have lt: "unat a < unat b" using assms by (metis le_neq_implies_less word_unat_eq_iff)
  moreover have "unat b < 2 ^ 64" using unsigned_less[of b] by simp
  ultimately have "unat a + 1 < 2 ^ 64" by linarith
  then have "unat (a + 1) = unat a + 1" by (simp add: unat_word_ariths)
  then show ?thesis using lt by simp
qed

lemma ph_pass_effect: "ph_pass i s s' ks False \<Longrightarrow> ph_effect i s s' ks"
  using step_below_limit[of "ph_from s (ph_owner s i)" "ph_to s (ph_owner s i)"]
  by (auto simp: ph_pass_def ph_effect_def Let_def split: if_splits)

lemma ph_pass_again:
  assumes p: "ph_pass i s s1 ks True" and e: "ph_effect i s1 s2 ks2"
  shows "ph_effect i s s2 (ks @ ks2)"
proof -
  let ?k = "ph_owner s i"
  have f: "ph_frame ?k s s1" "ks = []" "ph_cnt s1 ?k = ph_cnt s ?k" "ph_from s ?k \<noteq> ph_to s ?k"
    "ph_from s1 ?k = ph_from s ?k \<or> ph_from s1 ?k = ph_from s ?k + 1" using p by (simp_all add: ph_pass_def Let_def)
  have same: "ph_owner s1 i = ?k" "ph_to s1 = ph_to s" using f(1) by (simp_all add: ph_frame_def)
  have "ph_frame ?k s s2" using f(1) e same by (simp add: ph_effect_def ph_frame_def Let_def)
  then show ?thesis using e f(2-5) same step_below_limit[OF f(4)] by (auto simp: ph_effect_def Let_def)
qed

lemma ph_effect_sim:
  assumes "ph_effect i s s' ks"
  shows "ph_step n r (s, add_mset (Cont i) Q) (s', mset ks + Q)"
proof -
  let ?k = "ph_owner s i"
  have fr: "ph_frame ?k s s'" using assms by (simp add: ph_effect_def Let_def)
  show ?thesis
  proof (cases "ks = [Cont i]")
    case True
    then have "ph_cnt s' l = ph_cnt s l" for l using assms fr by (cases "l = ?k") (simp_all add: ph_effect_def ph_frame_def Let_def)
    then have "s' = s\<lparr>ph_from := (ph_from s)(?k := ph_from s' ?k)\<rparr>" using fr by (intro ph_state_eqI) (auto simp: ph_frame_def)
    moreover have "ph_step n r (s, add_mset (Cont i) Q) (s\<lparr>ph_from := (ph_from s)(?k := ph_from s' ?k)\<rparr>, add_mset (Cont i) Q)"
      by (rule ph_io) (use assms in \<open>simp_all add: ph_effect_def Let_def\<close>)
    ultimately show ?thesis using True by simp
  next
    case False
    then have e: "ph_from s' ?k = ph_to s ?k" "ph_cnt s' ?k = ph_cnt s ?k - 1" "ks = (if ph_cnt s' ?k = 0 then [Fini] else [])"
      using assms by (simp_all add: ph_effect_def Let_def)
    have "s' = ph_retired ?k s" unfolding ph_retired_def using fr e by (intro ph_state_eqI) (auto simp: ph_frame_def)
    moreover have "mset ks = ph_report ?k s" using e by (simp add: ph_report_def)
    ultimately show ?thesis using ph_retire[of ?k s i n r Q] by simp
  qed
qed

text \<open>The same for a continuation of the initialisation.\<close>

lemma ph_null_sim:
  assumes "ph_frame 0 s s'" and "ph_from s 0 = ph_to s 0" and "ph_from s' 0 = ph_from s 0" and "ph_cnt s' 0 = ph_cnt s 0 - 1"
    and "ks = (if ph_cnt s' 0 = 0 then [Fini] else [])"
  shows "ph_step n r (s, add_mset Null Q) (s', mset ks + Q)"
proof -
  have "s' = ph_retired 0 s" unfolding ph_retired_def using assms by (intro ph_state_eqI) (auto simp: ph_frame_def)
  moreover have "mset ks = ph_report 0 s" using assms by (simp add: ph_report_def)
  ultimately show ?thesis using ph_null[OF assms(2), of n r Q] by simp
qed

section \<open>Invariant of the machine\<close>

definition ph_owns :: "ph_state \<Rightarrow> nat \<Rightarrow> ph_event \<Rightarrow> bool" where
  "ph_owns s k e \<longleftrightarrow> (case e of Cont i \<Rightarrow> ph_owner s i = k | Null \<Rightarrow> k = 0 | Fini \<Rightarrow> False)"

definition ph_active :: "nat \<Rightarrow> ph_state \<Rightarrow> nat set" where
  "ph_active n s = {k. k < n \<and> ph_cnt s k \<noteq> 0}"

definition pend :: "('e \<Rightarrow> bool) \<Rightarrow> 'e multiset \<Rightarrow> nat" where
  "pend f P = size (filter_mset f P)"

lemma pend_simps [simp]:
  "pend f {#} = 0" "pend f (add_mset e P) = (if f e then Suc (pend f P) else pend f P)" "pend f (P + Q) = pend f P + pend f Q"
  "pend f (mset evs) = length (filter f evs)"
  by (simp_all add: pend_def flip: mset_filter)

lemma pend_zero: "pend f P = 0 \<longleftrightarrow> (\<forall>e \<in># P. \<not> f e)"
  by (induction P) auto

lemma ph_owns_simps [simp]: "ph_owns s k (Cont i) \<longleftrightarrow> ph_owner s i = k" "ph_owns s k Null \<longleftrightarrow> k = 0" "\<not> ph_owns s k Fini"
  by (simp_all add: ph_owns_def)

lemma ph_owns_cong: "ph_owner s' = ph_owner s \<Longrightarrow> ph_owns s' = ph_owns s"
  by (simp add: ph_owns_def fun_eq_iff split: ph_event.split)

text \<open>\<open>m\<close> is the number of I/O buffers.\<close>

definition ph_run :: "nat \<Rightarrow> nat \<Rightarrow> nat \<Rightarrow> ph_state \<Rightarrow> ph_event multiset \<Rightarrow> bool" where
  "ph_run n r m s P \<longleftrightarrow>
     (\<forall>k < n. unat (ph_cnt s k) = pend (ph_owns s k) P) \<and> (\<forall>i. Cont i \<in># P \<longrightarrow> i < m \<and> ph_owner s i < n) \<and>
     (\<forall>i. count P (Cont i) \<le> 1) \<and> unat (ph_reports s) = card (ph_active n s) + count P Fini \<and>
     (\<forall>k < n. unat (ph_from s k) \<le> unat (ph_to s k) \<and> (ph_idle s \<or> unat (ph_cnt s k) < r \<longrightarrow> ph_from s k = ph_to s k))"

definition ph_inv :: "nat \<Rightarrow> nat \<Rightarrow> nat \<Rightarrow> ph_state \<times> ph_event multiset \<Rightarrow> bool" where
  "ph_inv n r m w \<longleftrightarrow> ph_run n r m (fst w) (snd w) \<or> snd w = {#}"

lemma ph_inv_run: "ph_inv n r m (s, add_mset e P) \<Longrightarrow> ph_run n r m s (add_mset e P)"
  by (simp add: ph_inv_def)

text \<open>A continuation of producer \<open>k\<close> is over.\<close>

lemma ph_retire_run:
  assumes inv: "ph_run n r m s (add_mset e P)" and k: "ph_owns s k e" "k < n"
  shows "ph_run n r m (ph_retired k s) (ph_report k s + P)"
proof -
  let ?s = "ph_retired k s"
  have cnt: "unat (ph_cnt s l) = pend (ph_owns s l) (add_mset e P)" if "l < n" for l using inv that by (simp add: ph_run_def)
  have pos: "0 < unat (ph_cnt s k)" using cnt[OF k(2)] k(1) by simp
  then have dec: "unat (ph_cnt s k - 1) = unat (ph_cnt s k) - 1" by (simp add: unat_sub word_le_nat_alt)
  have own: "ph_owns ?s = ph_owns s" by (rule ph_owns_cong) (simp add: ph_retired_def)
  have oe: "ph_owns s l e \<longleftrightarrow> l = k" for l using k(1) by (auto simp: ph_owns_def split: ph_event.splits)
  have nr: "pend (ph_owns s l) (ph_report k s) = 0" for l by (simp add: ph_report_def)
  have A: "unat (ph_cnt ?s l) = pend (ph_owns ?s l) (ph_report k s + P)" if "l < n" for l
    using cnt[OF that] oe[of l] dec nr own by (cases "l = k") (auto simp: ph_retired_def)
  have ne: "e \<noteq> Fini" using k(1) by auto
  have rep: "ph_reports ?s = ph_reports s" by (simp add: ph_retired_def)
  have ka: "k \<in> ph_active n s" using pos k(2) by (simp add: ph_active_def unat_gt_0)
  have act: "ph_active n ?s = (if ph_cnt s k - 1 = 0 then ph_active n s - {k} else ph_active n s)"
    using ka by (auto simp: ph_active_def ph_retired_def split: if_splits)
  have fin: "finite (ph_active n s)" by (simp add: ph_active_def)
  have "Suc (card (ph_active n s - {k})) = card (ph_active n s)" by (rule card_Suc_Diff1[OF fin ka])
  moreover have "unat (ph_reports s) = card (ph_active n s) + count P Fini" using inv ne by (simp add: ph_run_def)
  ultimately have D: "unat (ph_reports ?s) = card (ph_active n ?s) + count (ph_report k s + P) Fini"
    using act rep by (simp add: ph_report_def del: card_Diff_insert)
  have C: "count (ph_report k s + P) (Cont i) \<le> 1" for i
  proof -
    have "count (add_mset e P) (Cont i) \<le> 1" using inv by (simp add: ph_run_def)
    then show ?thesis by (simp add: ph_report_def split: if_splits)
  qed
  have B: "i < m \<and> ph_owner ?s i < n" if "Cont i \<in># ph_report k s + P" for i
    using inv that by (auto simp: ph_run_def ph_report_def ph_retired_def split: if_splits)
  have E: "unat (ph_from ?s l) \<le> unat (ph_to ?s l) \<and> (ph_idle ?s \<or> unat (ph_cnt ?s l) < r \<longrightarrow> ph_from ?s l = ph_to ?s l)" if "l < n" for l
    using inv that by (auto simp: ph_run_def ph_retired_def)
  show ?thesis unfolding ph_run_def using A B C D E by blast
qed

text \<open>When the last report arrives nothing of the phase is left.\<close>

lemma ph_over:
  assumes inv: "ph_run n r m s (add_mset Fini P)" and one: "ph_reports s - 1 = 0" and n: "0 < n"
  shows "P = {#}" and "\<forall>k < n. ph_cnt s k = 0"
proof -
  have d: "card (ph_active n s) = 0" "count P Fini = 0" using inv one by (simp_all add: ph_run_def)
  have "finite (ph_active n s)" by (simp add: ph_active_def)
  then have "ph_active n s = {}" using d(1) by simp
  then show z: "\<forall>k < n. ph_cnt s k = 0" by (auto simp: ph_active_def)
  have own: "\<not> ph_owns s k e" if "e \<in># P" "k < n" for e k
  proof -
    have "pend (ph_owns s k) P = 0" using inv z that(2) by (simp add: ph_run_def)
    then show ?thesis using that(1) by (simp add: pend_zero)
  qed
  have False if e: "e \<in># P" for e
  proof (cases e)
    case (Cont i)
    then have "ph_owner s i < n" using inv e by (simp add: ph_run_def)
    then show ?thesis using own[OF e] Cont by auto
  qed (use own[OF e n] d(2) e in \<open>auto simp: count_eq_zero_iff\<close>)
  then show "P = {#}" using multiset_nonemptyE by blast
qed

lemma div_eq_interval: "0 < s \<Longrightarrow> j div s = k \<longleftrightarrow> k * s \<le> j \<and> j < Suc k * s" for s j k :: nat
  by (metis div_nat_eqI div_times_less_eq_dividend dividend_less_times_div mult.commute mult_Suc add.commute)

lemma ph_started_run:
  assumes st: "ph_started n r s" and r: "0 < r" and m: "n * r \<le> m"
  shows "ph_run n r m s (mset (map Cont [0..<n * r]))"
proof -
  have ow: "ph_owner s j = j div r" "j div r < n" if "j < n * r" for j
    using st that by (simp_all add: ph_started_def less_mult_imp_div_less)
  have num: "pend (ph_owns s k) (mset (map Cont [0..<n * r])) = r" if "k < n" for k
  proof -
    have "filter (\<lambda>j. ph_owner s j = k) [0..<n * r] = filter (\<lambda>j. j div r = k) [0..<n * r]" using ow by (intro filter_cong) auto
    then have "pend (ph_owns s k) (mset (map Cont [0..<n * r])) = length (filter (\<lambda>j. j div r = k) [0..<n * r])"
      by (simp only: pend_simps filter_map length_map comp_def ph_owns_simps)
    also have "\<dots> = card ({j. j div r = k} \<inter> {0..<n * r})" by (simp add: distinct_length_filter)
    also have "{j. j div r = k} \<inter> {0..<n * r} = {k * r..<Suc k * r}"
      using div_eq_interval[OF r] mult_le_mono1[of "Suc k" n r] that by auto
    finally show ?thesis by simp
  qed
  have "distinct (map Cont [0..<n * r])" by (simp add: distinct_map inj_on_def)
  then have C: "count (mset (map Cont [0..<n * r])) x \<le> 1" for x by (simp add: distinct_count_atmost_1)
  have F: "count (mset (map Cont [0..<n * r])) Fini = 0" by (auto simp: count_eq_zero_iff)
  have act: "ph_active n s = {..<n}"
  proof (rule set_eqI)
    fix k
    have "k < n \<Longrightarrow> ph_cnt s k \<noteq> 0" using st r by (metis ph_started_def unat_0 less_irrefl)
    then show "k \<in> ph_active n s \<longleftrightarrow> k \<in> {..<n}" by (auto simp: ph_active_def)
  qed
  have B: "i < m \<and> ph_owner s i < n" if "Cont i \<in># mset (map Cont [0..<n * r])" for i using that ow m by auto
  show ?thesis unfolding ph_run_def using st num B C F act by (auto simp: ph_started_def)
qed

lemma ph_step_inv:
  assumes "0 < n" and "0 < r" and "n * r \<le> m"
  shows "ph_step n r w w' \<Longrightarrow> ph_inv n r m w \<Longrightarrow> ph_inv n r m w'"
proof (induction rule: ph_step.induct)
  case (ph_io k s i x P)
  let ?s = "s\<lparr>ph_from := (ph_from s)(k := x)\<rparr>"
  have own: "ph_owns ?s = ph_owns s" by (rule ph_owns_cong) simp
  have act: "ph_active n ?s = ph_active n s" by (simp add: ph_active_def)
  note run = ph_inv_run[OF ph_io(3)]
  have le: "unat (ph_from s k) \<le> unat (ph_to s k)" "ph_from s k = ph_to s k \<longrightarrow> x = ph_to s k"
    using run ph_io(1,2) by (auto simp: ph_run_def word_unat_eq_iff)
  have "ph_run n r m ?s (add_mset (Cont i) P)"
    using run le ph_io(2)[OF le(1)] unfolding ph_run_def own act by auto
  then show ?case by (simp add: ph_inv_def)
next
  case (ph_retire k s i P)
  note run = ph_inv_run[OF ph_retire(2)]
  then have "k < n" using ph_retire(1) by (simp add: ph_run_def)
  then show ?case using ph_retire_run[OF run, of k] ph_retire(1) by (simp add: ph_inv_def)
next
  case (ph_null s P)
  then show ?case using ph_retire_run[OF ph_inv_run[OF ph_null(2)], of 0] assms(1) by (simp add: ph_inv_def)
next
  case (ph_count s P)
  let ?s = "s\<lparr>ph_reports := ph_reports s - 1\<rparr>"
  note run = ph_inv_run[OF ph_count(2)]
  have own: "ph_owns ?s = ph_owns s" by (rule ph_owns_cong) simp
  have act: "ph_active n ?s = ph_active n s" by (simp add: ph_active_def)
  have D: "unat (ph_reports s) = card (ph_active n s) + Suc (count P Fini)" using run by (simp add: ph_run_def)
  then have "unat (ph_reports s - 1) = unat (ph_reports s) - 1" by (simp add: unat_sub word_le_nat_alt)
  then have "ph_run n r m ?s P" using run D unfolding ph_run_def own act by auto
  then show ?case by (simp add: ph_inv_def)
next
  case (ph_start s s' P)
  then have "P = {#}" using ph_over(1)[OF ph_inv_run[OF ph_start(3)] ph_start(1) assms(1)] by simp
  then show ?case using ph_started_run[OF ph_start(2) assms(2,3)] by (simp add: ph_inv_def)
next
  case (ph_stop s P s')
  then have "P = {#}" using ph_over(1)[OF ph_inv_run[OF ph_stop(2)] ph_stop(1) assms(1)] by simp
  then show ?case by (simp add: ph_inv_def)
qed


section \<open>The start of a phase\<close>

text \<open>The loop over the producers, with the count of I/Os and the share of operations of each.\<close>

definition ph_begin :: "u64 \<Rightarrow> u64 \<Rightarrow> nat \<Rightarrow> ph_state \<Rightarrow> ph_state" where
  "ph_begin cnt q k s =
     (let i = word_of_nat k :: u64 in
      s\<lparr>ph_cnt := (ph_cnt s)(k := cnt), ph_from := (ph_from s)(k := i * q), ph_to := (ph_to s)(k := (i + 1) * q),
        ph_owner := (\<lambda>j. if unat (i * cnt) \<le> j \<and> j < unat ((i + 1) * cnt) then k else ph_owner s j)\<rparr>)"

definition ph_begin_all :: "u32 \<Rightarrow> u64 \<Rightarrow> u64 \<Rightarrow> ph_state \<Rightarrow> ph_state" where
  "ph_begin_all n cnt tot s =
     (let s' = fold (ph_begin cnt (tot div ucast n)) [0..<unat n] s in s'\<lparr>ph_to := (ph_to s')(unat n - 1 := tot)\<rparr>)"

lemma producer_bounds:
  assumes "k * unat cnt + unat cnt < 2 ^ 32" and "k + 1 < 2 ^ 32"
  shows "unat ((word_of_nat k :: u64) * cnt) = k * unat cnt" and "unat (((word_of_nat k :: u64) + 1) * cnt) = (k + 1) * unat cnt"
proof -
  have k: "unat (word_of_nat k :: u64) = k" "unat ((word_of_nat k :: u64) + 1) = k + 1"
    using assms(2) by (simp_all add: unat_of_nat take_bit_eq_mod unat_word_ariths)
  show "unat ((word_of_nat k :: u64) * cnt) = k * unat cnt" using k(1) assms(1) by (simp add: unat_word_ariths)
  show "unat (((word_of_nat k :: u64) + 1) * cnt) = (k + 1) * unat cnt" using k(2) assms(1) by (simp add: unat_word_ariths)
qed

lemma ph_begin_fold:
  fixes s :: ph_state and q :: u64
  assumes "0 < unat cnt" and "m * unat cnt < 2 ^ 32" and "m < 2 ^ 32"
  defines "s' \<equiv> fold (ph_begin cnt q) [0..<m] s"
  shows "(\<forall>k < m. ph_cnt s' k = cnt \<and> ph_from s' k = word_of_nat k * q \<and> ph_to s' k = (word_of_nat k + 1) * q) \<and>
    (\<forall>j < m * unat cnt. ph_owner s' j = j div unat cnt) \<and> ph_idle s' = ph_idle s \<and> ph_reports s' = ph_reports s"
  using assms(2,3) unfolding s'_def
proof (induction m)
  case (Suc m)
  have b: "unat ((word_of_nat m :: u64) * cnt) = m * unat cnt" "unat (((word_of_nat m :: u64) + 1) * cnt) = (m + 1) * unat cnt"
    using producer_bounds[of m cnt] Suc.prems by (simp_all add: add.commute)
  have "j div unat cnt = m" if "m * unat cnt \<le> j" "j < (m + 1) * unat cnt" for j
    using that div_eq_interval[OF assms(1), of j m] by simp
  then show ?case using Suc by (auto simp: ph_begin_def Let_def b less_Suc_eq)
qed simp

text \<open>The share of a number: its quotient, or the last producer for what is left over.\<close>

lemma share_unique:
  fixes n t x :: nat
  assumes n: "0 < n" and x: "x < t"
  shows "\<exists>!k. k < n \<and> k * (t div n) \<le> x \<and> x < (if k = n - 1 then t else (k + 1) * (t div n))"
proof (cases "x < (n - 1) * (t div n)")
  case True
  then have q: "0 < t div n" by (cases "t div n") auto
  have iff: "k * (t div n) \<le> x \<and> x < (k + 1) * (t div n) \<longleftrightarrow> x div (t div n) = k" for k using div_eq_interval[OF q] by simp
  have lt: "x div (t div n) < n - 1" using True by (simp add: less_mult_imp_div_less)
  show ?thesis
  proof (rule ex1I[of _ "x div (t div n)"])
    show "x div (t div n) < n \<and> x div (t div n) * (t div n) \<le> x \<and>
        x < (if x div (t div n) = n - 1 then t else (x div (t div n) + 1) * (t div n))" using lt iff[of "x div (t div n)"] by auto
    fix k assume "k < n \<and> k * (t div n) \<le> x \<and> x < (if k = n - 1 then t else (k + 1) * (t div n))"
    then show "k = x div (t div n)" using True iff[of k] by (auto split: if_splits)
  qed
next
  case False
  show ?thesis
  proof (rule ex1I[of _ "n - 1"])
    fix k assume k: "k < n \<and> k * (t div n) \<le> x \<and> x < (if k = n - 1 then t else (k + 1) * (t div n))"
    show "k = n - 1"
    proof (rule ccontr)
      assume "k \<noteq> n - 1"
      then have "k + 1 \<le> n - 1" "x < (k + 1) * (t div n)" using k by (linarith, simp)
      then show False using False mult_le_mono1[of "k + 1" "n - 1" "t div n"] by linarith
    qed
  qed (use False n x in simp)
qed

lemma unat_bound_64: "unat w < 2 ^ 64" for w :: u64
  using unsigned_less[of w] by simp

lemma unat_bound_32: "unat w < 2 ^ 32" for w :: u32
  using unsigned_less[of w] by simp

lemma ph_begin_all_shares:
  fixes s :: ph_state and tot :: u64
  assumes n: "0 < unat n" and cnt: "0 < unat cnt" "unat n * unat cnt < 2 ^ 32"
  defines "s' \<equiv> ph_begin_all n cnt tot s" and "q \<equiv> unat tot div unat n"
  shows "ph_idle s' = ph_idle s" and "ph_reports s' = ph_reports s" and "\<forall>j < unat n * unat cnt. ph_owner s' j = j div unat cnt"
    and "k < unat n \<Longrightarrow> ph_cnt s' k = cnt \<and> unat (ph_from s' k) = k * q \<and> unat (ph_to s' k) = (if k = unat n - 1 then unat tot else (k + 1) * q)"
proof -
  let ?q = "tot div ucast n"
  have uq: "unat ?q = q" by (simp add: unat_div q_def)
  have mul: "unat ((word_of_nat k :: u64) * ?q) = k * q" if "k \<le> unat n" for k
  proof -
    have k: "unat (word_of_nat k :: u64) = k" using that unat_bound_32[of n] by (simp add: unat_of_nat take_bit_eq_mod)
    have "k * q \<le> unat n * q" using that by (rule mult_le_mono1)
    also have "\<dots> \<le> unat tot" by (simp add: q_def)
    also have "\<dots> < 2 ^ 64" by (rule unat_bound_64)
    finally show ?thesis using k uq by (simp add: unat_word_ariths)
  qed
  note F = ph_begin_fold[OF cnt(1,2) unat_bound_32, of ?q s]
  show "ph_idle s' = ph_idle s" and "ph_reports s' = ph_reports s" and "\<forall>j < unat n * unat cnt. ph_owner s' j = j div unat cnt"
    using F by (simp_all add: s'_def ph_begin_all_def Let_def)
  show "ph_cnt s' k = cnt \<and> unat (ph_from s' k) = k * q \<and> unat (ph_to s' k) = (if k = unat n - 1 then unat tot else (k + 1) * q)" if "k < unat n"
    using F that mul[of k] mul[of "k + 1"] by (simp add: s'_def ph_begin_all_def Let_def add.commute)
qed

lemma ph_begin_all_started:
  assumes n: "0 < unat n" and cnt: "0 < unat cnt" "unat n * unat cnt < 2 ^ 32" and s: "\<not> ph_idle s" "ph_reports s = n"
  shows "ph_started (unat n) (unat cnt) (ph_begin_all n cnt tot s)"
proof -
  let ?q = "unat tot div unat n"
  have "k * ?q \<le> unat tot" if "k \<le> unat n" for k
    using mult_le_mono1[OF that, of ?q] by (meson le_trans times_div_less_eq_dividend)
  then show ?thesis using ph_begin_all_shares[OF n cnt] s unfolding ph_started_def by (auto simp del: mult_Suc)
qed

text \<open>Every operation belongs to one producer.\<close>

lemma ph_begin_all_exact:
  fixes s :: ph_state
  assumes n: "0 < unat n" and cnt: "0 < unat cnt" "unat n * unat cnt < 2 ^ 32" and x: "x < unat tot"
  defines "s' \<equiv> ph_begin_all n cnt tot s"
  shows "\<exists>!k. k < unat n \<and> unat (ph_from s' k) \<le> x \<and> x < unat (ph_to s' k)"
proof -
  let ?q = "unat tot div unat n"
  have "(k < unat n \<and> unat (ph_from s' k) \<le> x \<and> x < unat (ph_to s' k)) \<longleftrightarrow>
      (k < unat n \<and> k * ?q \<le> x \<and> x < (if k = unat n - 1 then unat tot else (k + 1) * ?q))" for k
    using ph_begin_all_shares(4)[OF n cnt] unfolding s'_def by auto
  then show ?thesis using share_unique[OF n x] by simp
qed

section \<open>Programs that refine the machine\<close>

definition kinds :: "('e \<Rightarrow> ph_event option) \<Rightarrow> 'e multiset \<Rightarrow> ph_event multiset" where
  "kinds f P = image_mset (\<lambda>e. the (f e)) (filter_mset (\<lambda>e. f e \<noteq> None) P)"

lemma kinds_simps [simp]:
  "kinds f {#} = {#}" "kinds f (add_mset e P) = (case f e of None \<Rightarrow> kinds f P | Some x \<Rightarrow> add_mset x (kinds f P))"
  "kinds f (P + Q) = kinds f P + kinds f Q" "kinds f (mset evs) = mset (List.map_filter f evs)"
  by (simp_all add: kinds_def List.map_filter_def comp_def flip: mset_filter split: option.splits)

lemma kinds_empty: "kinds f P = {#} \<longleftrightarrow> (\<forall>e \<in># P. f e = None)"
  by (induction P) (auto split: option.splits)

text \<open>
  \<open>valid\<close> says which configurations the program is made for, \<open>view\<close> is what the machine sees
  of its state, \<open>kind\<close> of its events, and \<open>wf\<close> is what the program keeps besides.
\<close>

locale load_generator =
  fixes valid :: "'p \<Rightarrow> bool" and step :: "'p \<Rightarrow> 's \<times> 'e multiset \<Rightarrow> 's \<times> 'e multiset \<Rightarrow> bool" and w0 :: "'p \<Rightarrow> 's \<times> 'e multiset"
    and view :: "'s \<Rightarrow> ph_state" and kind :: "'e \<Rightarrow> ph_event option" and wf :: "'p \<Rightarrow> 's \<Rightarrow> 'e multiset \<Rightarrow> bool" and n r m :: "'p \<Rightarrow> nat"
  assumes sizes: "valid p \<Longrightarrow> 0 < n p \<and> 0 < r p \<and> n p * r p \<le> m p"
    and start_wf: "valid p \<Longrightarrow> wf p (fst (w0 p)) (snd (w0 p))"
    and start_run: "valid p \<Longrightarrow> ph_run (n p) (r p) (m p) (view (fst (w0 p))) (kinds kind (snd (w0 p)))"
    and step_wf: "valid p \<Longrightarrow> wf p c P \<Longrightarrow> ph_inv (n p) (r p) (m p) (view c, kinds kind P) \<Longrightarrow> step p (c, P) (c', P') \<Longrightarrow> wf p c' P'"
    and step_sim: "valid p \<Longrightarrow> wf p c P \<Longrightarrow> step p (c, P) (c', P') \<Longrightarrow>
      (ph_step (n p) (r p))\<^sup>*\<^sup>* (view c, kinds kind P) (view c', kinds kind P')"
begin

lemma ph_steps_inv:
  assumes "valid p" and "(ph_step (n p) (r p))\<^sup>*\<^sup>* v v'" and "ph_inv (n p) (r p) (m p) v"
  shows "ph_inv (n p) (r p) (m p) v'"
  using assms(2,3)
proof (induction rule: rtranclp_induct)
  case (step v1 v2)
  show ?case using ph_step_inv[OF _ _ _ step(2)] step(3,4) sizes[OF assms(1)] by simp
qed

lemma runs_refine:
  assumes "valid p" and "(step p)\<^sup>*\<^sup>* (w0 p) (c, P)"
  shows "(ph_step (n p) (r p))\<^sup>*\<^sup>* (view (fst (w0 p)), kinds kind (snd (w0 p))) (view c, kinds kind P) \<and>
    wf p c P \<and> ph_inv (n p) (r p) (m p) (view c, kinds kind P)"
proof -
  let ?abs = "\<lambda>w. (view (fst w), kinds kind (snd w))"
  have "(ph_step (n p) (r p))\<^sup>*\<^sup>* (?abs (w0 p)) (?abs w) \<and> wf p (fst w) (snd w) \<and> ph_inv (n p) (r p) (m p) (?abs w)"
    if "(step p)\<^sup>*\<^sup>* (w0 p) w" for w
    using that
  proof (induction rule: rtranclp_induct)
    case base
    show ?case using start_wf[OF assms(1)] start_run[OF assms(1)] by (simp add: ph_inv_def)
  next
    case (step w w')
    obtain c P c' P' where w: "w = (c, P)" "w' = (c', P')" by (metis surj_pair)
    have IH: "(ph_step (n p) (r p))\<^sup>*\<^sup>* (?abs (w0 p)) (view c, kinds kind P)" "wf p c P" "ph_inv (n p) (r p) (m p) (view c, kinds kind P)"
      using step(3) by (simp_all add: w)
    have st: "step p (c, P) (c', P')" using step(2) by (simp add: w)
    have sim: "(ph_step (n p) (r p))\<^sup>*\<^sup>* (view c, kinds kind P) (view c', kinds kind P')" using step_sim[OF assms(1) IH(2) st] .
    show ?case using IH(1) sim step_wf[OF assms(1) IH(2,3) st] ph_steps_inv[OF assms(1) sim IH(3)] by (simp add: w)
  qed
  from this[OF assms(2)] show ?thesis by simp
qed

lemma reach_inv: "valid p \<Longrightarrow> (step p)\<^sup>*\<^sup>* (w0 p) (c, P) \<Longrightarrow> ph_inv (n p) (r p) (m p) (view c, kinds kind P)"
  using runs_refine by blast

text \<open>In every reachable state an I/O has at most one continuation, and the counters count them.\<close>

lemma one_continuation:
  assumes "valid p" and "(step p)\<^sup>*\<^sup>* (w0 p) (c, P)"
  shows "count (kinds kind P) (Cont i) \<le> 1"
    and "kinds kind P \<noteq> {#} \<Longrightarrow> k < n p \<Longrightarrow> unat (ph_cnt (view c) k) = pend (ph_owns (view c) k) (kinds kind P)"
  using reach_inv[OF assms] by (auto simp: ph_inv_def ph_run_def)

text \<open>The report that ends a phase finds nothing of it left.\<close>

lemma no_overlap:
  assumes "valid p" and "(step p)\<^sup>*\<^sup>* (w0 p) (c, add_mset e P)" and "kind e = Some Fini"
  shows "count (kinds kind P) (Cont i) \<le> 1" and "ph_reports (view c) = 1 \<Longrightarrow> kinds kind P = {#}"
    and "ph_reports (view c) = 1 \<Longrightarrow> k < n p \<Longrightarrow> ph_cnt (view c) k = 0 \<and> ph_from (view c) k = ph_to (view c) k"
proof -
  have sz: "0 < n p" "0 < r p" using sizes[OF assms(1)] by simp_all
  have run: "ph_run (n p) (r p) (m p) (view c) (add_mset Fini (kinds kind P))" using reach_inv[OF assms(1,2)] assms(3) by (simp add: ph_inv_run)
  then show "count (kinds kind P) (Cont i) \<le> 1" by (simp add: ph_run_def)
  assume "ph_reports (view c) = 1"
  then have one: "ph_reports (view c) - 1 = 0" by simp
  show "kinds kind P = {#}" using ph_over(1)[OF run one sz(1)] .
  show "ph_cnt (view c) k = 0 \<and> ph_from (view c) k = ph_to (view c) k" if "k < n p"
    using ph_over(2)[OF run one sz(1)] run sz(2) that by (simp add: ph_run_def)
qed

end

text \<open>The initialisation is a phase with \<open>a\<close> continuations of producer 0.\<close>

lemma ph_init_run:
  assumes "0 < n" and "ph_idle s" and "ph_reports s = 1" and "unat (ph_cnt s 0) = a" and "0 < a" and "\<And>k. 0 < k \<Longrightarrow> k < n \<Longrightarrow> ph_cnt s k = 0"
    and "\<And>k. k < n \<Longrightarrow> ph_from s k = ph_to s k"
  shows "ph_run n r m s (replicate_mset a Null)"
proof -
  have act: "ph_active n s = {0}"
  proof (rule set_eqI)
    fix k
    have "ph_cnt s 0 \<noteq> 0" using assms(4,5) by auto
    then show "k \<in> ph_active n s \<longleftrightarrow> k \<in> {0}" using assms(1) assms(6)[of k] by (cases "k = 0") (auto simp: ph_active_def)
  qed
  have own: "pend (ph_owns s k) (replicate_mset a Null) = (if k = 0 then a else 0)" for k by (induction a) (auto split: if_splits)
  have "unat (ph_cnt s k) = (if k = 0 then a else 0)" if "k < n" for k using assms(4) assms(6)[of k] that by auto
  then show ?thesis unfolding ph_run_def using act own assms(2,3,7) by (auto simp: in_replicate_mset split: if_splits)
qed

text \<open>The record of a latency is inside its array unless the total is a multiple of its size and all operations are issued.\<close>

lemma latency_index_bound:
  assumes "0 < unat t" and "unat t < 2 ^ 51" and "unat s \<le> unat t"
  shows "latency_index s (ceil_records t) = (if unat s = unat (ceil_records t) * 2 ^ 20 then Inl Out_of_bounds else Inr ())"
proof -
  let ?r = "(unat t + (2 ^ 20 - 1)) div 2 ^ 20" and ?s = "unat s"
  have r: "?r < 2 ^ 32" "0 < ?r" "unat t \<le> ?r * 2 ^ 20"
    using assms(1,2) div_mult_mod_eq[of "unat t + (2 ^ 20 - 1)" "2 ^ 20"] mod_less_divisor[of "2 ^ 20" "unat t + (2 ^ 20 - 1)"]
    by (simp_all add: div_greater_zero_iff less_mult_imp_div_less div_less_iff_less_mult)
  then have u: "unat (ceil_records t) = ?r" by (simp add: ceil_records_def LATENCY_MAX_RECORD_def unat_of_nat take_bit_eq_mod)
  then have nz: "ceil_records t \<noteq> 0" using r(2) by (metis unat_0 less_irrefl)
  have ud: "unat (s mod ucast (ceil_records t)) = ?s mod ?r" "unat (s div ucast (ceil_records t)) = ?s div ?r"
    by (simp_all add: unat_mod unat_div u unsigned_ucast_eq)
  have le: "?s \<le> ?r * 2 ^ 20" using assms(3) r(3) by linarith
  have full: "?s mod ?r = 0 \<and> \<not> ?s div ?r < 2 ^ 20 \<longleftrightarrow> ?s = ?r * 2 ^ 20"
  proof
    assume a: "?s mod ?r = 0 \<and> \<not> ?s div ?r < 2 ^ 20"
    then have "?r * 2 ^ 20 \<le> ?r * (?s div ?r)" by (intro mult_le_mono2) simp
    also have "\<dots> = ?s" using a by (metis add.right_neutral mult_div_mod_eq)
    finally show "?s = ?r * 2 ^ 20" using le by linarith
  qed (use r(2) in simp)
  have "s mod ucast (ceil_records t) = 0 \<longleftrightarrow> ?s mod ?r = 0" using ud(1) by (metis unat_eq_0)
  moreover have "s div ucast (ceil_records t) < LATENCY_MAX_RECORD \<longleftrightarrow> ?s div ?r < 2 ^ 20"
    using ud(2) by (simp add: word_less_nat_alt LATENCY_MAX_RECORD_def)
  ultimately show ?thesis using nz full by (auto simp: latency_index_def u)
qed

end
