(* ===== verification/Kv_Client.thy ===== *)
theory Kv_Client
  imports Load_Phases Kv_Storage Kv_Bucket
begin

unbundle bit_operations_syntax

text \<open>
  \<open>app/ring_ycsb_client/kv_client.c\<close>: the benchmark client. A run is a sequence of phases;
  in a phase every producer thread works through its share of the operations with a fixed
  number of I/O buffers, and the last I/O to find nothing left to do reports the producer as
  finished. The continuations that an I/O waits for are events. The file names the macro
  \<open>PACKED_VALUE_LEN\<close> in an assertion without including its definition and compiles only
  with assertions disabled: assertions have no effect here.
\<close>

section \<open>Options\<close>

record cl_opt =
  num_items :: u64
  operation_cnt :: u64
  value_size :: u32
  ssd_num :: u32
  thread_num :: u32
  producer_num :: u32
  concurrent_io_num :: u32
  stat_interval :: int
  client_id :: int
  seq_read :: bool
  opt_fill :: bool
  seq_write :: bool
  opt_del :: bool
  json_config_file :: string
  workload_file :: string
  client_conf_file :: string
  server_ip :: string
  server_port :: string
  memcached_ip :: string
  opt_ditto :: bool
  opt_ours :: bool
  breakdown_stage :: int

definition default_opt :: cl_opt where
  "default_opt = \<lparr>num_items = 100000000, operation_cnt = 512, value_size = 1024, ssd_num = 4, thread_num = 2, producer_num = 32,
     concurrent_io_num = 32, stat_interval = -1, client_id = 1, seq_read = False, opt_fill = False, seq_write = False, opt_del = False,
     json_config_file = ''client.config.json'', workload_file = ''workloada.spec'',
     client_conf_file = ''app/leed/ditto/experiments/configs/client_conf_sample.json'', server_ip = ''10.1.4.6'',
     server_port = ''2379'', memcached_ip = ''10.1.4.6'', opt_ditto = False, opt_ours = False, breakdown_stage = 3\<rparr>"

definition get_option :: "char \<times> string \<Rightarrow> cl_opt \<Rightarrow> cl_opt res" where
  "get_option a o1 =
     (let ch = fst a; optarg = snd a; num = word_of_int (atol optarg) in
      if ch = CHR ''w'' then rbind (strcpy_into 1024 optarg) (\<lambda>s. Inr (o1\<lparr>workload_file := s\<rparr>))
      else if ch = CHR ''c'' then rbind (strcpy_into 1024 optarg) (\<lambda>s. Inr (o1\<lparr>json_config_file := s\<rparr>))
      else if ch = CHR ''f'' then rbind (strcpy_into 1024 optarg) (\<lambda>s. Inr (o1\<lparr>client_conf_file := s\<rparr>))
      else if ch = CHR ''i'' then Inr (o1\<lparr>concurrent_io_num := num\<rparr>)
      else if ch = CHR ''d'' then Inr (o1\<lparr>ssd_num := num\<rparr>)
      else if ch = CHR ''P'' then Inr (o1\<lparr>producer_num := num\<rparr>)
      else if ch = CHR ''T'' then Inr (o1\<lparr>thread_num := num\<rparr>)
      else if ch = CHR ''s'' then rbind (strcpy_into 32 optarg) (\<lambda>s. Inr (o1\<lparr>server_ip := s\<rparr>))
      else if ch = CHR ''p'' then rbind (strcpy_into 16 optarg) (\<lambda>s. Inr (o1\<lparr>server_port := s\<rparr>))
      else if ch = CHR ''m'' then rbind (strcpy_into 32 optarg) (\<lambda>s. Inr (o1\<lparr>memcached_ip := s\<rparr>))
      else if ch = CHR ''I'' then Inr (o1\<lparr>stat_interval := sint (word_of_int (atol optarg) :: u32)\<rparr>)
      else if ch = CHR ''x'' then Inr (o1\<lparr>client_id := sint (word_of_int (atol optarg) :: u32)\<rparr>)
      else if ch = CHR ''B'' then
        let b = sint (word_of_int (atol optarg) :: u32) in if b < 0 \<or> b > 3 then Inl Exit_fail else Inr (o1\<lparr>breakdown_stage := b\<rparr>)
      else if ch = CHR ''R'' then Inr (o1\<lparr>seq_read := True\<rparr>)
      else if ch = CHR ''W'' then Inr (o1\<lparr>seq_write := True\<rparr>)
      else if ch = CHR ''D'' then Inr (o1\<lparr>opt_del := True\<rparr>)
      else if ch = CHR ''F'' then Inr (o1\<lparr>opt_fill := True\<rparr>)
      else if ch = CHR ''C'' then
        if optarg = ''ditto'' then Inr (o1\<lparr>opt_ditto := True\<rparr>)
        else if optarg = ''ours'' then Inr (o1\<lparr>opt_ours := True\<rparr>)
        else Inl Exit_fail
      else Inl Exit_fail)"

fun get_options :: "(char \<times> string) list \<Rightarrow> cl_opt \<Rightarrow> cl_opt res" where
  "get_options [] o1 = Inr o1"
| "get_options (a # as) o1 = rbind (get_option a o1) (get_options as)"

text \<open>Every argument fits its array.\<close>

definition cl_opt_ok :: "cl_opt \<Rightarrow> bool" where
  "cl_opt_ok o1 \<longleftrightarrow> length (json_config_file o1) < 1024 \<and> length (workload_file o1) < 1024 \<and> length (client_conf_file o1) < 1024 \<and> length (server_ip o1) < 32 \<and> length (server_port o1) < 16 \<and> length (memcached_ip o1) < 32"

interpretation client_opts: option_parser get_option get_options cl_opt_ok
proof
  show "cl_opt_ok q" if "cl_opt_ok p" "get_option a p = Inr q" for a p q
    using that by (auto simp: get_option_def cl_opt_ok_def Let_def res_simps strcpy_into_Inr split: if_splits)
qed simp_all

section \<open>State\<close>

record io_buffer_t =
  io_req :: kv_msg
  io_resp :: kv_msg
  io_worker_id :: u32
  io_producer_id :: u32
  read_modify_write :: bool
  is_finished :: bool
  ditto_fill :: bool
  ditto_clear :: bool
  retry_cnt :: u32

record producer_t =
  start_io :: u64
  end_io :: u64
  iocnt :: u64
  io_per_record :: u32
  counter :: u64

text \<open>
  \<open>total_io\<close>, \<open>io_per_record\<close> and \<open>producer_cnt\<close> are the static variables of \<open>test_fini\<close>.
  \<open>cl_clock\<close> numbers the answers of the workload generator and of the cache.
\<close>

record client =
  cl_phase :: cl_phase
  producers :: "producer_t list"
  io_buffers :: "io_buffer_t list"
  total_io :: u64
  record_io :: u32
  producer_cnt :: u32
  tp_poller :: bool
  cl_clock :: nat

definition client_log_bucket_num :: nat where "client_log_bucket_num = 48"

datatype cl_task = Test "nat option" | Test_fini | Io_start nat | Worker_init nat | Ring_init | Worker_stop nat | Thread_stop

datatype cl_cb = Cb_test | Cb_meta_get

datatype cl_event =
  Cl_send u32 cl_task
| Cl_dispatch nat cl_cb kv_msg
| Cl_get nat u32 kv_msg
| Cl_cache_set u32 kv_msg
| Cl_packed_set u32 kv_msg
| Cl_packed_dummy u32
| Cl_packed_retry u32
| Cl_set_commit nat bool
| Cl_buffered_commit nat bool
| Cl_del_commit nat bool
| Cl_alloc_bulk u32 u32
| Cl_free_bulk
| Cl_poller_unregister
| Cl_ring_fini
| Cl_app_stop
| Cl_store_init nat nat nat
| Cl_store_fini nat
| Cl_ring_init

section \<open>Access\<close>

definition upd_io :: "nat \<Rightarrow> (io_buffer_t \<Rightarrow> io_buffer_t) \<Rightarrow> client \<Rightarrow> client" where
  "upd_io i f c = c\<lparr>io_buffers := (io_buffers c)[i := f (io_buffers c ! i)]\<rparr>"

definition upd_producer :: "nat \<Rightarrow> (producer_t \<Rightarrow> producer_t) \<Rightarrow> client \<Rightarrow> client" where
  "upd_producer k f c = c\<lparr>producers := (producers c)[k := f (producers c ! k)]\<rparr>"

definition producer_of :: "nat option \<Rightarrow> client \<Rightarrow> nat res" where
  "producer_of arg c =
     (let k = (case arg of None \<Rightarrow> 0 | Some i \<Rightarrow> unat (io_producer_id (io_buffers c ! i)))
      in if (case arg of None \<Rightarrow> True | Some i \<Rightarrow> i < length (io_buffers c)) \<and> k < length (producers c) then Inr k
         else Inl Out_of_bounds)"

definition producer_thread :: "cl_opt \<Rightarrow> u32 \<Rightarrow> u32" where
  "producer_thread o1 k = ssd_num o1 + thread_num o1 + k"

section \<open>The work of an I/O\<close>

text \<open>The answer of a finished operation: caches, latency, and the write of a read-modify-write.\<close>

definition cache_answer :: "cl_opt \<Rightarrow> io_buffer_t \<Rightarrow> cl_event list" where
  "cache_answer o1 io =
     (if opt_ditto o1 then
        if ditto_fill io \<or> ditto_clear io then [Cl_cache_set (io_producer_id io) (io_resp io)] else []
      else if opt_ours o1 \<and> breakdown_stage o1 \<ge> 2 then
        if ditto_fill io then
          if put_key_ok (io_resp io) \<noteq> 0 then [Cl_packed_set (io_producer_id io) (io_resp io)] else [Cl_packed_dummy (io_producer_id io)]
        else []
      else [])"

definition record_latency :: "producer_t \<Rightarrow> unit res" where
  "record_latency p = latency_index (start_io p) (io_per_record p)"

text \<open>The flag says that \<open>test\<close> returns after it.\<close>

definition test_answer :: "cl_opt \<Rightarrow> nat \<Rightarrow> nat \<Rightarrow> client \<Rightarrow> (client \<times> cl_event list \<times> bool) res" where
  "test_answer o1 i k c =
     (let c1 = upd_producer k (\<lambda>p. p\<lparr>counter := counter p + 1\<rparr>) (upd_io i (\<lambda>io. io\<lparr>retry_cnt := 0\<rparr>) c);
          io = io_buffers c1 ! i; evs = cache_answer o1 io
      in rbind (record_latency (producers c1 ! k)) (\<lambda>_.
           if msg_type (io_resp io) \<noteq> KV_MSG_OK then Inl Exit_fail
           else if read_modify_write io then
             let req = (io_req io)\<lparr>msg_type := (if opt_ours o1 \<and> breakdown_stage o1 = 3 then KV_MSG_BUFFERED_SET else KV_MSG_SET),
                                   value_len := value_size o1\<rparr>
             in Inr (upd_io i (\<lambda>io. io\<lparr>io_req := req, read_modify_write := False, ditto_fill := False, ditto_clear := True\<rparr>) c1,
                     evs @ [Cl_dispatch i Cb_test req], True)
           else Inr (c1, evs, False)))"

definition do_transaction :: "cl_opt \<Rightarrow> cl_input \<Rightarrow> io_buffer_t \<Rightarrow> io_buffer_t" where
  "do_transaction o1 x io =
     (let m0 = ycsb_key x ((io_req io)\<lparr>key_len := 16\<rparr>); m = (if in_op x = YCSB_READ then m0 else ycsb_value x m0);
          get = m\<lparr>msg_type := KV_MSG_GET, value_len := 0\<rparr>; put = m\<lparr>msg_type := KV_MSG_SET, value_len := value_size o1\<rparr>
      in case in_op x of
           YCSB_READMODIFYWRITE \<Rightarrow> io\<lparr>read_modify_write := True, io_req := get\<rparr>
         | YCSB_READ \<Rightarrow> io\<lparr>io_req := get\<rparr>
         | YCSB_UPDATE \<Rightarrow> io\<lparr>io_req := put\<rparr>
         | YCSB_INSERT \<Rightarrow> io\<lparr>io_req := put\<rparr>
         | _ \<Rightarrow> io\<lparr>io_req := m\<rparr>)"

text \<open>The next operation of the phase.\<close>

definition next_request :: "cl_opt \<Rightarrow> cl_phase \<Rightarrow> cl_input \<Rightarrow> io_buffer_t \<Rightarrow> io_buffer_t" where
  "next_request o1 ph x io0 =
     (let io = io0\<lparr>read_modify_write := False\<rparr>; m = io_req io;
          put = ycsb_value x (ycsb_key x (m\<lparr>msg_type := KV_MSG_SET, key_len := 16, value_len := value_size o1\<rparr>))
      in case ph of
           SEQ_WRITE \<Rightarrow> io\<lparr>io_req := put\<rparr>
         | FILL \<Rightarrow> io\<lparr>io_req := put\<rparr>
         | SEQ_READ \<Rightarrow> io\<lparr>io_req := ycsb_key x (m\<lparr>msg_type := KV_MSG_GET, key_len := 16, value_len := 0\<rparr>)\<rparr>
         | DEL \<Rightarrow> io\<lparr>io_req := ycsb_key x (m\<lparr>msg_type := KV_MSG_DEL, key_len := 16, value_len := 0\<rparr>)\<rparr>
         | TRANSACTION \<Rightarrow> do_transaction o1 x io
         | INIT \<Rightarrow> io)"

definition worker_of_key :: "cl_opt \<Rightarrow> kv_msg \<Rightarrow> u32" where
  "worker_of_key o1 m = ucast (drop_bit (64 - 48) (load_u64 (data m)) mod ucast (ssd_num o1))"

definition test_next :: "cl_opt \<Rightarrow> cl_input \<Rightarrow> nat \<Rightarrow> nat \<Rightarrow> client \<Rightarrow> client res" where
  "test_next o1 x i k c =
     (if retry_cnt (io_buffers c ! i) = 0 then
        if ssd_num o1 = 0 then Inl Div_by_zero
        else
          let c1 = upd_io i (\<lambda>io. (next_request o1 (cl_phase c) x io)\<lparr>is_finished := True\<rparr>) c;
              c2 = upd_producer k (\<lambda>p. p\<lparr>start_io := start_io p + 1\<rparr>) c1
          in Inr (upd_io i (\<lambda>io. io\<lparr>io_worker_id := worker_of_key o1 (io_req io)\<rparr>) c2)
      else Inr c)"

text \<open>
  Where the request goes: to a server, or for a read that the cache answers to \<open>test\<close> itself.
  The flag says that \<open>test\<close> calls itself.
\<close>

definition use_cache :: "cl_opt \<Rightarrow> bool" where
  "use_cache o1 \<longleftrightarrow> opt_ditto o1 \<or> opt_ours o1 \<and> breakdown_stage o1 \<ge> 2"

definition send_read :: "cl_opt \<Rightarrow> int \<Rightarrow> kv_msg \<Rightarrow> nat \<Rightarrow> client \<Rightarrow> client \<times> cl_event list \<times> bool" where
  "send_read o1 ret m i c =
     (let io = io_buffers c ! i; n = (if ret = -2 then retry_cnt io + 1 else retry_cnt io)
      in if ret = -2 \<and> n < 100 then
           (upd_io i (\<lambda>io. io\<lparr>io_req := m\<lparr>msg_type := KV_MSG_GET\<rparr>, is_finished := False, retry_cnt := n\<rparr>) c,
            [Cl_send (producer_thread o1 (io_producer_id io)) (Test (Some i))], False)
         else if ret \<noteq> 0 \<or> value_len m = 0 then
           (upd_io i (\<lambda>io. io\<lparr>io_req := m, is_finished := True, retry_cnt := n, ditto_fill := True, ditto_clear := False\<rparr>) c,
            [Cl_dispatch i (if msg_type m = KV_MSG_META_GET then Cb_meta_get else Cb_test) m], False)
         else
           (upd_io i (\<lambda>io. io\<lparr>io_req := m, is_finished := True, retry_cnt := n, ditto_fill := False, ditto_clear := False\<rparr>) c, [], True))"

definition test_read :: "cl_opt \<Rightarrow> cl_input \<Rightarrow> nat \<Rightarrow> client \<Rightarrow> client \<times> cl_event list \<times> bool" where
  "test_read o1 x i c =
     (let io = io_buffers c ! i;
          meta = (\<not> opt_ditto o1 \<and> opt_ours o1 \<and> breakdown_stage o1 \<ge> 1);
          m0 = (if meta then (io_req io)\<lparr>msg_type := KV_MSG_META_GET\<rparr> else io_req io);
          ev = (if meta \<and> breakdown_stage o1 \<ge> 2 \<and> retry_cnt io = 1 then [Cl_packed_retry (io_producer_id io)] else []);
          (c1, evs, again) = (if use_cache o1 then send_read o1 (in_ret x) (cached_msg x m0) i c else send_read o1 (-1) m0 i c)
      in (c1, ev @ evs, again))"

definition test_write :: "cl_opt \<Rightarrow> nat \<Rightarrow> client \<Rightarrow> client \<times> cl_event list \<times> bool" where
  "test_write o1 i c =
     (let m = io_req (io_buffers c ! i);
          m' = (if opt_ours o1 \<and> breakdown_stage o1 = 3 \<and> msg_type m = KV_MSG_SET then m\<lparr>msg_type := KV_MSG_BUFFERED_SET\<rparr> else m)
      in (upd_io i (\<lambda>io. io\<lparr>io_req := m', ditto_fill := False, ditto_clear := True\<rparr>) c, [Cl_dispatch i Cb_test m'], False))"

text \<open>An I/O for which nothing is left is retired; the last one of a producer reports it.\<close>

definition test_retire :: "cl_opt \<Rightarrow> nat \<Rightarrow> client \<Rightarrow> client \<times> cl_event list" where
  "test_retire o1 k c =
     (let c1 = upd_producer k (\<lambda>p. p\<lparr>iocnt := iocnt p - 1\<rparr>) c
      in (c1, if iocnt (producers c1 ! k) = 0 then [Cl_send (producer_thread o1 0) Test_fini] else []))"

definition test_issue :: "cl_opt \<Rightarrow> (nat \<Rightarrow> cl_input) \<Rightarrow> nat \<Rightarrow> nat \<Rightarrow> client \<Rightarrow> (client \<times> cl_event list \<times> bool) res" where
  "test_issue o1 inp i k c =
     (let x = inp (cl_clock c) in
      rbind (test_next o1 x i k (c\<lparr>cl_clock := Suc (cl_clock c)\<rparr>)) (\<lambda>c1.
        Inr (if msg_type (io_req (io_buffers c1 ! i)) = KV_MSG_GET then test_read o1 x i c1 else test_write o1 i c1)))"

text \<open>One pass through \<open>test\<close>; the argument is null for the messages that count the initialisation.\<close>

definition test_once :: "cl_opt \<Rightarrow> (nat \<Rightarrow> cl_input) \<Rightarrow> nat option \<Rightarrow> client \<Rightarrow> (client \<times> cl_event list \<times> bool) res" where
  "test_once o1 inp arg c =
     rbind (producer_of arg c) (\<lambda>k.
     rbind (case arg of
              Some i \<Rightarrow> if is_finished (io_buffers c ! i) then test_answer o1 i k c else Inr (c, [], False)
            | None \<Rightarrow> Inr (c, [], False)) (\<lambda>(c1, evs, ret).
       if ret then Inr (c1, evs, False)
       else if start_io (producers c1 ! k) = end_io (producers c1 ! k) then
         let (c2, evs') = test_retire o1 k c1 in Inr (c2, evs @ evs', False)
       else case arg of
              None \<Rightarrow> Inl Null_deref
            | Some i \<Rightarrow> rbind (test_issue o1 inp i k c1) (\<lambda>(c2, evs', again). Inr (c2, evs @ evs', again))))"

text \<open>
  The calls of \<open>test\<close> by itself end: every one of them issues an operation of the producer, or
  follows a retry that has just been answered by the cache.
\<close>

definition test_measure :: "nat option \<times> client \<Rightarrow> nat" where
  "test_measure = (\<lambda>(arg, c). case arg of None \<Rightarrow> 0 | Some i \<Rightarrow>
     let io = io_buffers c ! i; p = producers c ! unat (io_producer_id io)
     in 2 * unat (end_io p - start_io p) + (if is_finished io then 0 else 1))"

lemma upd_io_simps [simp]:
  "io_buffers (upd_io i f c) = (io_buffers c)[i := f (io_buffers c ! i)]" "producers (upd_io i f c) = producers c"
  "cl_phase (upd_io i f c) = cl_phase c" "cl_clock (upd_io i f c) = cl_clock c" "producer_cnt (upd_io i f c) = producer_cnt c"
  "total_io (upd_io i f c) = total_io c" "record_io (upd_io i f c) = record_io c"
  by (simp_all add: upd_io_def)

lemma upd_producer_simps [simp]:
  "producers (upd_producer k f c) = (producers c)[k := f (producers c ! k)]" "io_buffers (upd_producer k f c) = io_buffers c"
  "cl_phase (upd_producer k f c) = cl_phase c" "cl_clock (upd_producer k f c) = cl_clock c" "producer_cnt (upd_producer k f c) = producer_cnt c"
  "total_io (upd_producer k f c) = total_io c" "record_io (upd_producer k f c) = record_io c"
  by (simp_all add: upd_producer_def)


text \<open>What an event is for the machine of phases.\<close>

fun kind_of :: "cl_event \<Rightarrow> ph_event option" where
  "kind_of (Cl_send th (Test None)) = Some Null"
| "kind_of (Cl_send th (Test (Some i))) = Some (Cont i)"
| "kind_of (Cl_send th Test_fini) = Some Fini"
| "kind_of (Cl_send th (Io_start i)) = Some (Cont i)"
| "kind_of (Cl_send th (Worker_init i)) = Some Null"
| "kind_of (Cl_send th Ring_init) = Some Null"
| "kind_of (Cl_dispatch i cb m) = Some (Cont i)"
| "kind_of (Cl_get i w m) = Some (Cont i)"
| "kind_of Cl_ring_init = Some Null"
| "kind_of _ = None"

definition conts :: "cl_event list \<Rightarrow> ph_event list" where
  "conts evs = List.map_filter kind_of evs"

lemma conts_simps [simp]:
  "conts [] = []" "conts (e # evs) = (case kind_of e of None \<Rightarrow> conts evs | Some i \<Rightarrow> i # conts evs)"
  "conts (xs @ ys) = conts xs @ conts ys"
  by (simp_all add: conts_def List.map_filter_def split: option.splits)

text \<open>What an I/O of producer \<open>k\<close> leaves alone.\<close>

definition cl_frame :: "nat \<Rightarrow> nat \<Rightarrow> client \<Rightarrow> client \<Rightarrow> bool" where
  "cl_frame i k c c' \<longleftrightarrow>
     cl_phase c' = cl_phase c \<and> producer_cnt c' = producer_cnt c \<and> total_io c' = total_io c \<and> record_io c' = record_io c \<and>
     length (io_buffers c') = length (io_buffers c) \<and> length (producers c') = length (producers c) \<and>
     (\<forall>j. j \<noteq> i \<longrightarrow> io_buffers c' ! j = io_buffers c ! j) \<and> (\<forall>l. l \<noteq> k \<longrightarrow> producers c' ! l = producers c ! l) \<and>
     io_producer_id (io_buffers c' ! i) = io_producer_id (io_buffers c ! i) \<and>
     end_io (producers c' ! k) = end_io (producers c ! k) \<and> io_per_record (producers c' ! k) = io_per_record (producers c ! k)"

lemma cl_frame_refl: "cl_frame i k c c"
  by (simp add: cl_frame_def)

lemma cl_frame_trans: "cl_frame i k c c' \<Longrightarrow> cl_frame i k c' c'' \<Longrightarrow> cl_frame i k c c''"
  by (simp add: cl_frame_def)

lemma cache_answer_events [simp]: "conts (cache_answer o1 io) = []"
  by (simp_all add: cache_answer_def)

lemma test_answer_effect:
  assumes "test_answer o1 i k c = Inr (c1, evs, ret)" and "i < length (io_buffers c)" and "k < length (producers c)"
  shows "cl_frame i k c c1 \<and> start_io (producers c1 ! k) = start_io (producers c ! k) \<and> iocnt (producers c1 ! k) = iocnt (producers c ! k) \<and>
    retry_cnt (io_buffers c1 ! i) = 0 \<and> is_finished (io_buffers c1 ! i) = is_finished (io_buffers c ! i) \<and>
    conts evs = (if ret then [Cont i] else []) \<and> cl_clock c1 = cl_clock c"
  using assms
  by (auto simp: test_answer_def Let_def res_simps cl_frame_def split: if_splits)

lemma next_request_frame [simp]:
  "io_producer_id (next_request o1 ph x io) = io_producer_id io" "retry_cnt (next_request o1 ph x io) = retry_cnt io"
  by (cases ph; simp add: next_request_def do_transaction_def Let_def split: kv_ycsb_operation.splits)+

lemma test_next_effect:
  assumes "test_next o1 x i k c = Inr c1" and "i < length (io_buffers c)" and "k < length (producers c)"
  shows "cl_frame i k c c1 \<and> iocnt (producers c1 ! k) = iocnt (producers c ! k) \<and> cl_clock c1 = cl_clock c \<and>
    retry_cnt (io_buffers c1 ! i) = retry_cnt (io_buffers c ! i) \<and>
    start_io (producers c1 ! k) = (if retry_cnt (io_buffers c ! i) = 0 then start_io (producers c ! k) + 1 else start_io (producers c ! k)) \<and>
    (retry_cnt (io_buffers c ! i) = 0 \<longrightarrow> is_finished (io_buffers c1 ! i))"
  using assms by (auto simp: test_next_def Let_def cl_frame_def split: if_splits)

lemma send_read_effect:
  assumes "send_read o1 ret m i c = (c1, evs, again)" and "i < length (io_buffers c)"
  shows "cl_frame i k c c1 \<and> producers c1 = producers c \<and> conts evs = (if again then [] else [Cont i]) \<and>
    (again \<longrightarrow> is_finished (io_buffers c1 ! i)) \<and> cl_clock c1 = cl_clock c"
  using assms by (auto simp: send_read_def Let_def cl_frame_def split: if_splits)

lemma test_read_effect:
  assumes "test_read o1 x i c = (c1, evs, again)" and "i < length (io_buffers c)"
  shows "cl_frame i k c c1 \<and> producers c1 = producers c \<and> conts evs = (if again then [] else [Cont i]) \<and>
    (again \<longrightarrow> is_finished (io_buffers c1 ! i)) \<and> cl_clock c1 = cl_clock c"
proof -
  obtain ret m evs' ev where r: "send_read o1 ret m i c = (c1, evs', again)" and e: "evs = ev @ evs'" "conts ev = []"
    using assms(1) unfolding test_read_def Let_def by (cases "use_cache o1") (fastforce split: prod.splits)+
  then show ?thesis using send_read_effect[OF r assms(2)] by simp
qed

lemma test_write_effect:
  assumes "test_write o1 i c = (c1, evs, again)" and "i < length (io_buffers c)"
  shows "cl_frame i k c c1 \<and> producers c1 = producers c \<and> conts evs = [Cont i] \<and> \<not> again \<and> cl_clock c1 = cl_clock c"
  using assms by (auto simp: test_write_def Let_def cl_frame_def split: if_splits)


lemma test_retire_effect:
  assumes "test_retire o1 k c = (c1, evs)" and "k < length (producers c)"
  shows "cl_frame i k c c1 \<and> io_buffers c1 = io_buffers c \<and> start_io (producers c1 ! k) = start_io (producers c ! k) \<and>
    iocnt (producers c1 ! k) = iocnt (producers c ! k) - 1 \<and> conts evs = (if iocnt (producers c1 ! k) = 0 then [Fini] else [])"
  using assms by (auto simp: test_retire_def Let_def cl_frame_def)

lemma test_issue_effect:
  assumes t: "test_issue o1 inp i k c = Inr (c1, evs, again)" and i: "i < length (io_buffers c)" and k: "k < length (producers c)"
  shows "cl_frame i k c c1 \<and> conts evs = (if again then [] else [Cont i]) \<and> iocnt (producers c1 ! k) = iocnt (producers c ! k) \<and>
    start_io (producers c1 ! k) = (if retry_cnt (io_buffers c ! i) = 0 then start_io (producers c ! k) + 1 else start_io (producers c ! k)) \<and>
    (again \<longrightarrow> is_finished (io_buffers c1 ! i))"
proof -
  let ?c = "c\<lparr>cl_clock := Suc (cl_clock c)\<rparr>" and ?x = "inp (cl_clock c)"
  obtain c2 where n: "test_next o1 ?x i k ?c = Inr c2"
    and r: "(if msg_type (io_req (io_buffers c2 ! i)) = KV_MSG_GET then test_read o1 ?x i c2 else test_write o1 i c2) = (c1, evs, again)"
    using t by (auto simp: test_issue_def res_simps Let_def)
  note N = test_next_effect[OF n, simplified, OF i k]
  have i2: "i < length (io_buffers c2)" using N i by (simp add: cl_frame_def)
  have R: "cl_frame i k c2 c1 \<and> producers c1 = producers c2 \<and> conts evs = (if again then [] else [Cont i]) \<and>
      (again \<longrightarrow> is_finished (io_buffers c1 ! i))"
    using r test_read_effect[of o1 ?x i c2 c1 evs again k, OF _ i2] test_write_effect[of o1 i c2 c1 evs again k, OF _ i2]
    by (auto split: if_splits)
  have "cl_frame i k c c2" using N by (simp add: cl_frame_def)
  then show ?thesis using N R cl_frame_trans by auto
qed

text \<open>One pass, seen from outside: the I/O goes on, is retired, or is to be run again at once.\<close>

lemma test_once_effect:
  assumes t: "test_once o1 inp (Some i) c = Inr (c1, evs, again)"
  defines "k \<equiv> unat (io_producer_id (io_buffers c ! i))"
  defines "p \<equiv> producers c ! k" and "p1 \<equiv> producers c1 ! k"
  shows "i < length (io_buffers c) \<and> k < length (producers c) \<and> cl_frame i k c c1 \<and>
    (if again then start_io p \<noteq> end_io p \<and> iocnt p1 = iocnt p \<and> conts evs = [] \<and> is_finished (io_buffers c1 ! i) \<and>
       (start_io p1 = start_io p + 1 \<or> start_io p1 = start_io p \<and> \<not> is_finished (io_buffers c ! i))
     else if conts evs \<noteq> [Cont i] then start_io p = end_io p \<and> start_io p1 = start_io p \<and> iocnt p1 = iocnt p - 1 \<and>
       conts evs = (if iocnt p1 = 0 then [Fini] else [])
     else conts evs = [Cont i] \<and> iocnt p1 = iocnt p \<and> (start_io p1 = start_io p \<or> start_io p \<noteq> end_io p \<and> start_io p1 = start_io p + 1))"
proof -
  have pk: "producer_of (Some i) c = Inr k" "i < length (io_buffers c)" "k < length (producers c)"
    using t by (auto simp: test_once_def producer_of_def k_def Let_def split: if_splits)
  obtain c0 ev0 ret where a: "(if is_finished (io_buffers c ! i) then test_answer o1 i k c else Inr (c, [], False)) = Inr (c0, ev0, ret)"
    using t pk(1) by (auto simp: test_once_def res_simps split: prod.splits if_splits)
  have A: "cl_frame i k c c0" "start_io (producers c0 ! k) = start_io p" "iocnt (producers c0 ! k) = iocnt p"
      "is_finished (io_buffers c ! i) \<longrightarrow> retry_cnt (io_buffers c0 ! i) = 0" "conts ev0 = (if ret then [Cont i] else [])"
    using a test_answer_effect[of o1 i k c c0 ev0 ret] pk cl_frame_refl by (auto simp: p_def split: if_splits)
  have e0: "end_io (producers c0 ! k) = end_io p" "i < length (io_buffers c0)" "k < length (producers c0)"
    using A(1) pk by (simp_all add: cl_frame_def p_def)
  consider (rmw) "ret" "c1 = c0" "evs = ev0" "\<not> again"
    | (retire) ev2 where "\<not> ret" "start_io p = end_io p" "test_retire o1 k c0 = (c1, ev2)" "evs = ev0 @ ev2" "\<not> again"
    | (issue) ev2 where "\<not> ret" "start_io p \<noteq> end_io p" "test_issue o1 inp i k c0 = Inr (c1, ev2, again)" "evs = ev0 @ ev2"
    using t pk(1) a A(2) e0(1) by (auto simp: test_once_def res_simps split: prod.splits if_splits)
  then show ?thesis
  proof cases
    case rmw
    then show ?thesis using A pk by (simp add: p1_def)
  next
    case retire
    then show ?thesis using A pk test_retire_effect[OF retire(3) e0(3), of i] cl_frame_trans[OF A(1)] by (auto simp: p1_def)
  next
    case issue
    then show ?thesis using A pk test_issue_effect[OF issue(3) e0(2,3)] cl_frame_trans[OF A(1)] by (auto simp: p1_def)
  qed
qed


lemma test_once_null: "test_once o1 inp None c = Inr (c1, evs, again) \<Longrightarrow> \<not> again"
  by (auto simp: test_once_def res_simps split: if_splits prod.splits)

lemma test_measure_decreases:
  assumes "test_once o1 inp arg c = Inr (c1, evs, True)"
  shows "test_measure (arg, c1) < test_measure (arg, c)"
proof (cases arg)
  case None
  then show ?thesis using test_once_null assms by blast
next
  case (Some i)
  let ?k = "unat (io_producer_id (io_buffers c ! i))"
  let ?p = "producers c ! ?k" and ?p1 = "producers c1 ! ?k"
  note E = test_once_effect[OF assms[unfolded Some], simplified]
  have same: "io_producer_id (io_buffers c1 ! i) = io_producer_id (io_buffers c ! i)" "end_io ?p1 = end_io ?p"
    using E by (simp_all add: cl_frame_def)
  have "unat (end_io ?p - (start_io ?p + 1)) < unat (end_io ?p - start_io ?p)" if "start_io ?p \<noteq> end_io ?p"
    using that by (rule unat_distance_less)
  then show ?thesis using E same unfolding Some test_measure_def by (auto simp: Let_def)
qed

function test :: "cl_opt \<Rightarrow> (nat \<Rightarrow> cl_input) \<Rightarrow> nat option \<Rightarrow> client \<Rightarrow> (client \<times> cl_event list) res" where
  "test o1 inp arg c =
     (case test_once o1 inp arg c of
        Inl e \<Rightarrow> Inl e
      | Inr (c1, evs, again) \<Rightarrow>
          if again then rbind (test o1 inp arg c1) (\<lambda>(c2, evs'). Inr (c2, evs @ evs')) else Inr (c1, evs))"
  by pat_completeness auto
termination
  by (relation "measure (\<lambda>(o1, inp, arg, c). test_measure (arg, c))") (use test_measure_decreases in auto)


section \<open>Phases\<close>

definition work_phase :: "cl_opt \<Rightarrow> cl_phase" where
  "work_phase o1 = (if opt_del o1 then DEL else if seq_read o1 then SEQ_READ else if seq_write o1 then SEQ_WRITE else TRANSACTION)"

text \<open>The share of producer \<open>k\<close>, its buffers, and one message for each of them.\<close>

definition start_producer :: "cl_opt \<Rightarrow> u64 \<Rightarrow> u64 \<Rightarrow> u32 \<Rightarrow> nat \<Rightarrow> client \<times> cl_event list \<Rightarrow> client \<times> cl_event list" where
  "start_producer o1 q cnt ipr k ce =
     (let i = word_of_nat k :: u64; js = [unat (i * cnt)..<unat ((i + 1) * cnt)];
          c1 = upd_producer k (\<lambda>p. p\<lparr>io_per_record := ipr, iocnt := cnt, start_io := i * q, end_io := (i + 1) * q\<rparr>) (fst ce);
          c2 = fold (\<lambda>j. upd_io j (\<lambda>io. io\<lparr>io_producer_id := word_of_nat k\<rparr>)) js c1
      in (c2, snd ce @ map (\<lambda>j. Cl_send (producer_thread o1 (word_of_nat k)) (Test (Some j))) js))"

definition start_phase :: "cl_opt \<Rightarrow> client \<Rightarrow> (client \<times> cl_event list) res" where
  "start_phase o1 c =
     (if producer_num o1 = 0 then Inl Div_by_zero
      else
        let ipr = ceil_records (total_io c); q = total_io c div ucast (producer_num o1);
            cnt = ucast (concurrent_io_num o1 div producer_num o1); n = unat (producer_num o1);
            c0 = c\<lparr>io_buffers := map (\<lambda>io. io\<lparr>is_finished := False\<rparr>) (io_buffers c), record_io := ipr\<rparr>;
            (c1, evs) = fold (start_producer o1 q cnt ipr) [0..<n] (c0, [])
        in Inr (upd_producer (n - 1) (\<lambda>p. p\<lparr>end_io := total_io c\<rparr>) c1, evs))"

definition stop :: "client \<Rightarrow> cl_event list" where
  "stop c = [Cl_free_bulk, Cl_free_bulk] @ (if tp_poller c then [Cl_poller_unregister] else []) @ [Cl_ring_fini]"

text \<open>A signal ends the run wherever it is.\<close>

definition signal_handler :: "client \<Rightarrow> cl_event list" where
  "signal_handler c = stop c"

definition thread_stop :: "cl_event list" where
  "thread_stop = [Cl_app_stop]"

definition worker_stop :: "nat \<Rightarrow> cl_event list" where
  "worker_stop i = [Cl_store_fini i, Cl_app_stop]"

definition ring_fini_cb :: "cl_opt \<Rightarrow> cl_event list" where
  "ring_fini_cb o1 =
     map (\<lambda>i. Cl_send (word_of_nat i) (Worker_stop i)) [0..<unat (ssd_num o1)] @
     map (\<lambda>i. Cl_send (ssd_num o1 + word_of_nat i) Thread_stop) [0..<unat (thread_num o1 + producer_num o1)]"

text \<open>\<open>mem\<close> is what the allocator returns as the request and response buffer of an I/O; it is not zeroed.\<close>

definition alloc_buffers :: "(nat \<Rightarrow> kv_msg \<times> kv_msg) \<Rightarrow> client \<Rightarrow> client" where
  "alloc_buffers mem c =
     c\<lparr>io_buffers := map (\<lambda>i. (io_buffers c ! i)\<lparr>io_req := fst (mem i), io_resp := snd (mem i)\<rparr>) [0..<length (io_buffers c)]\<rparr>"

text \<open>\<open>block_size\<close> is that of the first storage; the reports of latencies are left out.\<close>

definition test_fini :: "cl_opt \<Rightarrow> u32 \<Rightarrow> (nat \<Rightarrow> kv_msg \<times> kv_msg) \<Rightarrow> client \<Rightarrow> (client \<times> cl_event list) res" where
  "test_fini o1 block_size mem c =
     (let n = producer_cnt c - 1 in
      if n \<noteq> 0 then Inr (c\<lparr>producer_cnt := n\<rparr>, [])
      else if total_io c \<noteq> 0 \<and> record_io c = 0 then Inl Div_by_zero
      else
        let c1 = c\<lparr>producer_cnt := producer_num o1\<rparr>; sz = block_size + sizeof_kv_msg + word_of_nat KV_MAX_KEY_LENGTH in
        case cl_phase c of
          INIT \<Rightarrow>
            rbind (start_phase o1
                (let c1 = alloc_buffers mem c1 in
                 if opt_fill o1 then c1\<lparr>total_io := num_items o1, cl_phase := FILL\<rparr>
                 else c1\<lparr>cl_phase := work_phase o1, total_io := operation_cnt o1\<rparr>)) (\<lambda>(c2, evs).
              Inr (c2, [Cl_alloc_bulk sz (concurrent_io_num o1), Cl_alloc_bulk sz (concurrent_io_num o1)] @ evs))
        | FILL \<Rightarrow> start_phase o1 (c1\<lparr>cl_phase := work_phase o1, total_io := operation_cnt o1\<rparr>)
        | _ \<Rightarrow> Inr (c1, stop c1))"

section \<open>Callbacks\<close>

definition io_fini :: "cl_opt \<Rightarrow> bool \<Rightarrow> nat \<Rightarrow> client \<Rightarrow> client \<times> cl_event list" where
  "io_fini o1 success i c =
     (let io = io_buffers c ! i; m = (if success then io_resp io else (io_resp io)\<lparr>msg_type := KV_MSG_ERR\<rparr>);
          m' = (if msg_type m = KV_MSG_META_GET then m\<lparr>msg_type := KV_MSG_GET\<rparr> else m);
          ev = (if msg_type m = KV_MSG_SET then [Cl_set_commit i success]
                else if msg_type m = KV_MSG_BUFFERED_SET then [Cl_buffered_commit i success]
                else if msg_type m = KV_MSG_DEL then [Cl_del_commit i success] else [])
      in (upd_io i (\<lambda>io. io\<lparr>io_resp := m'\<rparr>) c, ev @ [Cl_send (producer_thread o1 (io_producer_id io)) (Test (Some i))]))"

text \<open>The client reads the value itself, at the place that the server has answered.\<close>

definition io_start :: "nat \<Rightarrow> client \<Rightarrow> cl_event list" where
  "io_start i c = (let io = io_buffers c ! i in [Cl_get i (io_worker_id io) (io_resp io)])"

definition meta_get_cb :: "cl_opt \<Rightarrow> nat \<Rightarrow> client \<Rightarrow> client \<times> cl_event list" where
  "meta_get_cb o1 i c =
     (let io = io_buffers c ! i; w = msg_ds_id (io_resp io); n = retry_cnt io + 1 in
      if put_key_ok (io_resp io) = 0 then
        if n < 100 then
          (upd_io i (\<lambda>io. io\<lparr>io_worker_id := w, retry_cnt := n, io_req := (io_req io)\<lparr>msg_type := KV_MSG_GET\<rparr>\<rparr>) c,
           [Cl_send (producer_thread o1 (io_producer_id io)) (Test (Some i))])
        else (upd_io i (\<lambda>io. io\<lparr>io_worker_id := w, retry_cnt := n\<rparr>) c, [Cl_send w (Io_start i)])
      else (upd_io i (\<lambda>io. io\<lparr>io_worker_id := w\<rparr>) c, [Cl_send w (Io_start i)]))"

definition throughput_poller :: "client \<Rightarrow> client \<times> u64" where
  "throughput_poller c =
     (fold (\<lambda>k. upd_producer k (\<lambda>p. p\<lparr>counter := 0\<rparr>)) [0..<length (producers c)] c, sum_list (map counter (producers c)))"

definition ring_ready_cb :: "cl_opt \<Rightarrow> cl_event list" where
  "ring_ready_cb o1 = [Cl_send (producer_thread o1 0) (Test None)]"

definition ring_init :: "cl_opt \<Rightarrow> client \<Rightarrow> client \<times> cl_event list" where
  "ring_init o1 c = (c\<lparr>tp_poller := stat_interval o1 > 0\<rparr>, [Cl_ring_init])"

text \<open>The size of the value log is a product in floating point and left out.\<close>

definition worker_init :: "cl_opt \<Rightarrow> nat \<Rightarrow> cl_event list res" where
  "worker_init o1 i =
     (if ssd_num o1 = 0 then Inl Div_by_zero
      else Inr [Cl_store_init i (KV_NUM_ITEMS div KV_ITEM_PER_BUCKET div unat (ssd_num o1)) client_log_bucket_num,
                Cl_send (producer_thread o1 0) (Test None)])"

text \<open>The state that \<open>main\<close> sets up and the tasks it starts.\<close>

definition zero_io :: io_buffer_t where
  "zero_io = \<lparr>io_req = zero_msg, io_resp = zero_msg, io_worker_id = 0, io_producer_id = 0, read_modify_write = False, is_finished = False,
     ditto_fill = False, ditto_clear = False, retry_cnt = 0\<rparr>"

definition zero_producer :: producer_t where
  "zero_producer = \<lparr>start_io = 0, end_io = 0, iocnt = 0, io_per_record = 0, counter = 0\<rparr>"

definition client_main :: "cl_opt \<Rightarrow> client \<times> cl_event list" where
  "client_main o1 =
     (\<lparr>cl_phase = INIT, producers = (replicate (unat (producer_num o1)) zero_producer)[0 := zero_producer\<lparr>iocnt := ucast (ssd_num o1 + 1)\<rparr>],
       io_buffers = replicate (unat (concurrent_io_num o1)) zero_io, total_io = 0, record_io = 0, producer_cnt = 1, tp_poller = False, cl_clock = 0\<rparr>,
      map (\<lambda>i. Cl_send (word_of_nat i) (Worker_init i)) [0..<unat (ssd_num o1)] @ [Cl_send (ssd_num o1) Ring_init])"

end
