(* ===== verification/Client_Phases.thy ===== *)
theory Client_Phases
  imports Kv_Client
begin

unbundle bit_operations_syntax

text \<open>
  The phases of the client as a state machine. The pending events are a multiset, so that
  messages, answers and completions come in any order. Every step of the client is a step of the
  machine of \<open>Load_Phases\<close>, so an I/O buffer has at most one continuation under way and a phase
  ends when nothing of it is left.
\<close>

section \<open>The effect of an I/O step\<close>

definition cl_view :: "client \<Rightarrow> ph_state" where
  "cl_view c = \<lparr>ph_idle = (cl_phase c = INIT), ph_cnt = (\<lambda>k. iocnt (producers c ! k)), ph_from = (\<lambda>k. start_io (producers c ! k)),
     ph_to = (\<lambda>k. end_io (producers c ! k)), ph_owner = (\<lambda>i. unat (io_producer_id (io_buffers c ! i))), ph_reports = producer_cnt c\<rparr>"

definition io_owner :: "client \<Rightarrow> nat \<Rightarrow> nat" where
  "io_owner c i = unat (io_producer_id (io_buffers c ! i))"

lemma cl_view_simps [simp]:
  "ph_cnt (cl_view c) k = iocnt (producers c ! k)" "ph_from (cl_view c) k = start_io (producers c ! k)"
  "ph_to (cl_view c) k = end_io (producers c ! k)" "ph_owner (cl_view c) i = io_owner c i" "ph_reports (cl_view c) = producer_cnt c"
  "ph_idle (cl_view c) = (cl_phase c = INIT)"
  by (simp_all add: cl_view_def io_owner_def)

text \<open>The number of buffers of a producer.\<close>

definition io_share :: "cl_opt \<Rightarrow> nat" where
  "io_share o1 = unat (concurrent_io_num o1) div unat (producer_num o1)"

definition cl_sized :: "cl_opt \<Rightarrow> client \<Rightarrow> bool" where
  "cl_sized o1 c \<longleftrightarrow> length (producers c) = unat (producer_num o1) \<and> length (io_buffers c) = unat (concurrent_io_num o1)"

text \<open>
  The continuation of I/O \<open>i\<close> has run: either there is again one continuation of it, or
  the I/O is retired because its producer has no operation left.
\<close>

definition io_effect :: "nat \<Rightarrow> client \<Rightarrow> client \<Rightarrow> cl_event list \<Rightarrow> bool" where
  "io_effect i c c' evs \<longleftrightarrow> ph_effect i (cl_view c) (cl_view c') (conts evs) \<and>
     length (producers c') = length (producers c) \<and> length (io_buffers c') = length (io_buffers c)"

lemma cl_frame_view:
  assumes "cl_frame i k c c'"
  shows "ph_frame k (cl_view c) (cl_view c')"
proof -
  have "ph_owner (cl_view c') j = ph_owner (cl_view c) j" for j using assms by (cases "j = i") (simp_all add: cl_frame_def io_owner_def)
  moreover have "ph_to (cl_view c') l = ph_to (cl_view c) l" for l using assms by (cases "l = k") (simp_all add: cl_frame_def)
  ultimately show ?thesis using assms by (auto simp: ph_frame_def cl_frame_def simp del: cl_view_simps(3,4))
qed

lemma test_once_pass:
  assumes "test_once o1 inp (Some i) c = Inr (c1, evs, again)"
  shows "ph_pass i (cl_view c) (cl_view c1) (conts evs) again"
  using test_once_effect[OF assms] cl_frame_view[of i _ c c1] by (auto simp: ph_pass_def Let_def io_owner_def split: if_splits)

lemma test_effect: "test o1 inp (Some i) c = Inr (c', evs) \<Longrightarrow> io_effect i c c' evs"
proof (induction o1 inp "Some i" c arbitrary: c' evs rule: test.induct)
  case (1 o1 inp c)
  obtain c1 ev1 again where t: "test_once o1 inp (Some i) c = Inr (c1, ev1, again)"
    using 1(2) by (simp split: sum.splits prod.splits)
  have len: "length (producers c1) = length (producers c)" "length (io_buffers c1) = length (io_buffers c)"
    using test_once_effect[OF t] by (simp_all add: cl_frame_def)
  note pass = test_once_pass[OF t]
  show ?case
  proof (cases again)
    case False
    then show ?thesis using 1(2) t len pass ph_pass_effect by (simp add: io_effect_def)
  next
    case True
    obtain ev2 where r: "test o1 inp (Some i) c1 = Inr (c', ev2)" "evs = ev1 @ ev2"
      using 1(2) t True by (auto simp: res_simps)
    have "io_effect i c1 c' ev2" using 1(1)[OF t refl refl True r(1)] .
    then show ?thesis using pass True ph_pass_again len r(2) by (simp add: io_effect_def)
  qed
qed

lemma same_view_effect: "cl_view c' = cl_view c \<Longrightarrow> length (producers c') = length (producers c) \<Longrightarrow>
    length (io_buffers c') = length (io_buffers c) \<Longrightarrow> conts evs = [Cont i] \<Longrightarrow> io_effect i c c' evs"
  by (simp add: io_effect_def ph_effect_refl)

lemma upd_io_view: "(\<And>io. io_producer_id (f io) = io_producer_id io) \<Longrightarrow> cl_view (upd_io i f c) = cl_view c"
proof (rule ph_state_eqI)
  assume "\<And>io. io_producer_id (f io) = io_producer_id io"
  then show "ph_owner (cl_view (upd_io i f c)) j = ph_owner (cl_view c) j" for j
    by (cases "j = i"; cases "i < length (io_buffers c)") (simp_all add: io_owner_def list_update_beyond)
qed simp_all

lemma resp_effect:
  assumes "io_effect i (upd_io i (\<lambda>io. io\<lparr>io_resp := r\<rparr>) c) c' evs"
  shows "io_effect i c c' evs"
  using assms by (simp add: io_effect_def upd_io_view)

lemma meta_get_effect: "meta_get_cb o1 i c = (c', evs) \<Longrightarrow> io_effect i c c' evs"
  by (auto simp: meta_get_cb_def Let_def upd_io_view split: if_splits intro!: same_view_effect)

lemma io_fini_effect: "io_fini o1 success i c = (c', evs) \<Longrightarrow> io_effect i c c' evs"
  unfolding io_fini_def Let_def by (clarify, rule same_view_effect) (simp_all add: upd_io_view)

lemma io_start_effect: "io_effect i c c (io_start i c)"
  by (rule same_view_effect) (simp_all add: io_start_def Let_def)

lemma null_retire_sim:
  assumes t: "test o1 inp None c = Inr (c', evs)"
  shows "ph_step n r (cl_view c, add_mset Null Q) (cl_view c', mset (conts evs) + Q)" and "cl_frame i 0 c c'"
proof -
  obtain c1 ev1 again where o: "test_once o1 inp None c = Inr (c1, ev1, again)" using t by (simp split: sum.splits prod.splits)
  then have na: "\<not> again" by (rule test_once_null)
  then have c': "c1 = c'" "ev1 = evs" using t o by simp_all
  have n: "0 < length (producers c)" and se: "start_io (producers c ! 0) = end_io (producers c ! 0)" and ret: "test_retire o1 0 c = (c', evs)"
    using o by (auto simp: test_once_def producer_of_def c' res_simps split: if_splits prod.splits)
  note E = test_retire_effect[OF ret n]
  show "cl_frame i 0 c c'" using E by blast
  then show "ph_step n r (cl_view c, add_mset Null Q) (cl_view c', mset (conts evs) + Q)"
    using E se by (intro ph_null_sim) (auto intro: cl_frame_view)
qed

section \<open>The start of a phase\<close>

lemma fold_upd_io:
  "length (io_buffers (fold (\<lambda>j. upd_io j f) js c)) = length (io_buffers c)"
  "producers (fold (\<lambda>j. upd_io j f) js c) = producers c" "cl_phase (fold (\<lambda>j. upd_io j f) js c) = cl_phase c"
  "producer_cnt (fold (\<lambda>j. upd_io j f) js c) = producer_cnt c" "total_io (fold (\<lambda>j. upd_io j f) js c) = total_io c"
  "record_io (fold (\<lambda>j. upd_io j f) js c) = record_io c"
  by (induction js arbitrary: c) simp_all

lemma fold_upd_io_nth:
  assumes "set js \<subseteq> {..<length (io_buffers c)}" and "\<And>io. f (f io) = f io"
  shows "io_buffers (fold (\<lambda>j. upd_io j f) js c) ! j = (if j \<in> set js then f (io_buffers c ! j) else io_buffers c ! j)"
  using assms(1)
proof (induction js arbitrary: c)
  case (Cons a js)
  then show ?case using assms(2) by (cases "a = j") auto
qed simp

lemma io_share_le: "unat (producer_num o1) * io_share o1 \<le> unat (concurrent_io_num o1)"
  by (simp add: io_share_def)

lemma start_producer_view:
  fixes q :: u64 and ipr :: u32 and evs :: "cl_event list" and o1 :: cl_opt
  assumes k: "k < length (producers c)" "k < 2 ^ 32" and b: "unat ((word_of_nat k + 1) * cnt) \<le> length (io_buffers c)"
  defines "ce \<equiv> start_producer o1 q cnt ipr k (c, evs)"
  shows "cl_view (fst ce) = ph_begin cnt q k (cl_view c)" and "length (producers (fst ce)) = length (producers c)"
    and "length (io_buffers (fst ce)) = length (io_buffers c)"
    and "conts (snd ce) = conts evs @ map Cont [unat (word_of_nat k * cnt)..<unat ((word_of_nat k + 1) * cnt)]"
proof -
  let ?js = "[unat (word_of_nat k * cnt)..<unat ((word_of_nat k + 1) * cnt)]"
  let ?f = "\<lambda>io. io\<lparr>io_producer_id := word_of_nat k\<rparr>"
  let ?c1 = "upd_producer k (\<lambda>p. p\<lparr>io_per_record := ipr, iocnt := cnt, start_io := word_of_nat k * q, end_io := (word_of_nat k + 1) * q\<rparr>) c"
  have ce: "ce = (fold (\<lambda>j. upd_io j ?f) ?js ?c1, evs @ map (\<lambda>j. Cl_send (producer_thread o1 (word_of_nat k)) (Test (Some j))) ?js)"
    by (simp add: ce_def start_producer_def Let_def)
  have nth: "io_buffers (fst ce) ! j = (if j \<in> set ?js then ?f (io_buffers c ! j) else io_buffers c ! j)" for j
    unfolding ce fst_conv using b by (subst fold_upd_io_nth) auto
  have k32: "unat (word_of_nat k :: u32) = k" using k(2) by (simp add: unat_of_nat take_bit_eq_mod)
  have "io_owner (fst ce) j = (if unat (word_of_nat k * cnt) \<le> j \<and> j < unat ((word_of_nat k + 1) * cnt) then k else io_owner c j)" for j
    unfolding io_owner_def nth using k32 by auto
  then show "cl_view (fst ce) = ph_begin cnt q k (cl_view c)"
    unfolding ph_begin_def Let_def using k(1) by (intro ph_state_eqI) (auto simp: ce fold_upd_io nth_list_update)
  show "length (producers (fst ce)) = length (producers c)" "length (io_buffers (fst ce)) = length (io_buffers c)" by (simp_all add: ce fold_upd_io)
  show "conts (snd ce) = conts evs @ map Cont ?js" by (simp add: ce conts_def List.map_filter_def comp_def)
qed


lemma start_producers_view:
  fixes q :: u64 and ipr :: u32 and o1 :: cl_opt
  assumes "m \<le> length (producers c)" and "m * unat cnt \<le> length (io_buffers c)" and "m * unat cnt < 2 ^ 32" and "m < 2 ^ 32"
  defines "ce \<equiv> fold (start_producer o1 q cnt ipr) [0..<m] (c, [])"
  shows "cl_view (fst ce) = fold (ph_begin cnt q) [0..<m] (cl_view c) \<and> length (producers (fst ce)) = length (producers c) \<and>
    length (io_buffers (fst ce)) = length (io_buffers c) \<and> conts (snd ce) = map Cont [0..<m * unat cnt]"
  using assms(1-4) unfolding ce_def
proof (induction m)
  case (Suc m)
  let ?ce = "fold (start_producer o1 q cnt ipr) [0..<m] (c, [])"
  have IH: "cl_view (fst ?ce) = fold (ph_begin cnt q) [0..<m] (cl_view c)" "length (producers (fst ?ce)) = length (producers c)"
    "length (io_buffers (fst ?ce)) = length (io_buffers c)" "conts (snd ?ce) = map Cont [0..<m * unat cnt]" using Suc by simp_all
  have b: "unat ((word_of_nat m :: u64) * cnt) = m * unat cnt" "unat (((word_of_nat m :: u64) + 1) * cnt) = (m + 1) * unat cnt"
    using producer_bounds[of m cnt] Suc.prems by (simp_all add: add.commute)
  have up: "[0..<Suc m * unat cnt] = [0..<m * unat cnt] @ [m * unat cnt..<Suc m * unat cnt]"
    using upt_add_eq_append[of 0 "m * unat cnt" "unat cnt"] by (simp add: add.commute)
  have m: "m < length (producers (fst ?ce))" "m < 2 ^ 32" "unat ((word_of_nat m + 1) * cnt) \<le> length (io_buffers (fst ?ce))"
    using Suc.prems IH b by simp_all
  show ?case using start_producer_view[OF m, of o1 q ipr "snd ?ce"] IH b up by (simp del: mult_Suc)
qed simp

lemma start_phase_view:
  assumes sz: "cl_sized o1 c" and n: "0 < unat (producer_num o1)"
  shows "\<exists>c' evs. start_phase o1 c = Inr (c', evs) \<and> cl_sized o1 c' \<and>
    (\<exists>s. ph_idle s = (cl_phase c = INIT) \<and> ph_reports s = producer_cnt c \<and>
       cl_view c' = ph_begin_all (producer_num o1) (ucast (concurrent_io_num o1 div producer_num o1)) (total_io c) s) \<and>
    conts evs = map Cont [0..<unat (producer_num o1) * io_share o1]"
proof -
  let ?n = "unat (producer_num o1)" and ?ipr = "ceil_records (total_io c)"
  let ?q = "total_io c div ucast (producer_num o1)" and ?cnt = "ucast (concurrent_io_num o1 div producer_num o1) :: u64"
  let ?c0 = "c\<lparr>io_buffers := map (\<lambda>io. io\<lparr>is_finished := False\<rparr>) (io_buffers c), record_io := ?ipr\<rparr>"
  let ?ce = "fold (start_producer o1 ?q ?cnt ?ipr) [0..<?n] (?c0, [])"
  have cnt: "unat ?cnt = io_share o1" by (simp add: io_share_def unsigned_ucast_eq unat_div)
  have le: "?n * unat ?cnt \<le> length (io_buffers ?c0)" "?n * unat ?cnt < 2 ^ 32" "?n \<le> length (producers ?c0)"
    using io_share_le[of o1] sz unat_bound_32[of "concurrent_io_num o1"] unfolding cnt by (simp_all add: cl_sized_def)
  obtain c1 evs where f: "?ce = (c1, evs)" by fastforce
  note S = start_producers_view[OF le(3,1,2) unat_bound_32, of o1 ?q ?ipr, unfolded f fst_conv snd_conv]
  let ?c' = "upd_producer (?n - 1) (\<lambda>p. p\<lparr>end_io := total_io c\<rparr>) c1"
  have len: "length (producers c1) = ?n" "length (io_buffers c1) = unat (concurrent_io_num o1)" using S sz by (simp_all add: cl_sized_def)
  have "cl_view ?c' = (cl_view c1)\<lparr>ph_to := (ph_to (cl_view c1))(?n - 1 := total_io c)\<rparr>"
    using len n by (intro ph_state_eqI) (auto simp: io_owner_def nth_list_update)
  then have v: "cl_view ?c' = ph_begin_all (producer_num o1) ?cnt (total_io c) (cl_view ?c0)"
    using S by (simp add: ph_begin_all_def Let_def)
  have "start_phase o1 c = Inr (?c', evs)"
    unfolding start_phase_def Let_def f using n by auto
  moreover have "conts evs = map Cont [0..<?n * io_share o1]" using S cnt by simp
  moreover have "\<exists>s. ph_idle s = (cl_phase c = INIT) \<and> ph_reports s = producer_cnt c \<and>
      cl_view ?c' = ph_begin_all (producer_num o1) ?cnt (total_io c) s"
    by (rule exI[of _ "cl_view ?c0"], intro conjI, simp, simp, rule v)
  moreover have "cl_sized o1 ?c'" by (simp add: cl_sized_def len)
  ultimately show ?thesis by blast
qed

section \<open>Runs\<close>

text \<open>
  \<open>bsz\<close> is the block size, \<open>mem\<close> the memory of the buffers. The answer to a request and the
  completion of a local read bring any message.
\<close>

inductive cl_step :: "cl_opt \<Rightarrow> (nat \<Rightarrow> cl_input) \<Rightarrow> u32 \<Rightarrow> (nat \<Rightarrow> kv_msg \<times> kv_msg) \<Rightarrow>
    client \<times> cl_event multiset \<Rightarrow> client \<times> cl_event multiset \<Rightarrow> bool" for o1 inp bsz mem where
  step_test: "test o1 inp arg c = Inr (c', evs) \<Longrightarrow> cl_step o1 inp bsz mem (c, add_mset (Cl_send th (Test arg)) P) (c', mset evs + P)"
| step_fini: "test_fini o1 bsz mem c = Inr (c', evs) \<Longrightarrow> cl_step o1 inp bsz mem (c, add_mset (Cl_send th Test_fini) P) (c', mset evs + P)"
| step_io_start: "cl_step o1 inp bsz mem (c, add_mset (Cl_send th (Io_start i)) P) (c, mset (io_start i c) + P)"
| step_answer: "test o1 inp (Some i) (upd_io i (\<lambda>io. io\<lparr>io_resp := r\<rparr>) c) = Inr (c', evs) \<Longrightarrow>
    cl_step o1 inp bsz mem (c, add_mset (Cl_dispatch i Cb_test m) P) (c', mset evs + P)"
| step_meta: "meta_get_cb o1 i (upd_io i (\<lambda>io. io\<lparr>io_resp := r\<rparr>) c) = (c', evs) \<Longrightarrow>
    cl_step o1 inp bsz mem (c, add_mset (Cl_dispatch i Cb_meta_get m) P) (c', mset evs + P)"
| step_got: "io_fini o1 success i (upd_io i (\<lambda>io. io\<lparr>io_resp := r\<rparr>) c) = (c', evs) \<Longrightarrow>
    cl_step o1 inp bsz mem (c, add_mset (Cl_get i w m) P) (c', mset evs + P)"
| step_worker_init: "worker_init o1 i = Inr evs \<Longrightarrow> cl_step o1 inp bsz mem (c, add_mset (Cl_send th (Worker_init i)) P) (c, mset evs + P)"
| step_ring_init: "ring_init o1 c = (c', evs) \<Longrightarrow> cl_step o1 inp bsz mem (c, add_mset (Cl_send th Ring_init) P) (c', mset evs + P)"
| step_ring_ready: "cl_step o1 inp bsz mem (c, add_mset Cl_ring_init P) (c, mset (ring_ready_cb o1) + P)"
| step_ring_fini: "cl_step o1 inp bsz mem (c, add_mset Cl_ring_fini P) (c, mset (ring_fini_cb o1) + P)"
| step_worker_stop: "cl_step o1 inp bsz mem (c, add_mset (Cl_send th (Worker_stop i)) P) (c, mset (worker_stop i) + P)"
| step_thread_stop: "cl_step o1 inp bsz mem (c, add_mset (Cl_send th Thread_stop) P) (c, mset thread_stop + P)"
| step_signal: "cl_step o1 inp bsz mem (c, P) (c, mset (signal_handler c) + P)"
| step_poller: "throughput_poller c = (c', n) \<Longrightarrow> cl_step o1 inp bsz mem (c, P) (c', P)"

text \<open>The report of a producer: counted, the start of the next phase, or the end of the run.\<close>

lemma kinds_evs: "kinds kind_of (mset evs) = mset (conts evs)"
  by (simp add: conts_def)

lemma test_fini_sim:
  assumes sz: "cl_sized o1 c" and n: "0 < unat (producer_num o1)" "unat (producer_num o1) \<le> unat (concurrent_io_num o1)"
    and t: "test_fini o1 bsz mem c = Inr (c', evs)"
  shows "ph_step (unat (producer_num o1)) (io_share o1) (cl_view c, add_mset Fini Q) (cl_view c', mset (conts evs) + Q)" and "cl_sized o1 c'"
proof -
  let ?n = "unat (producer_num o1)" and ?r = "io_share o1" and ?cnt = "ucast (concurrent_io_num o1 div producer_num o1) :: u64"
  have cnt: "unat ?cnt = ?r" by (simp add: io_share_def unsigned_ucast_eq unat_div)
  have r: "0 < ?r" "?n * ?r < 2 ^ 32"
    using n le_less_trans[OF io_share_le unat_bound_32] by (simp_all add: io_share_def div_greater_zero_iff)
  have start: "ph_step ?n ?r (cl_view c, add_mset Fini Q) (cl_view c', mset (conts (ev0 @ ev)) + Q) \<and> cl_sized o1 c'"
    if st: "start_phase o1 c2 = Inr (c', ev)" and c2: "cl_sized o1 c2" "producer_cnt c2 = producer_num o1" "cl_phase c2 \<noteq> INIT"
      and e0: "conts ev0 = []" and one: "producer_cnt c - 1 = 0" for c2 ev ev0
  proof -
    obtain s where v: "\<not> ph_idle s" "ph_reports s = producer_num o1" "cl_view c' = ph_begin_all (producer_num o1) ?cnt (total_io c2) s"
      "conts ev = map Cont [0..<?n * ?r]" "cl_sized o1 c'"
      using start_phase_view[OF c2(1) n(1)] st c2(2,3) by auto
    have "ph_started ?n ?r (cl_view c')"
      using ph_begin_all_started[OF n(1), of ?cnt] v(1-3) r unfolding cnt by simp
    then have "ph_step ?n ?r (cl_view c, add_mset Fini Q) (cl_view c', mset (map Cont [0..<?n * ?r]) + Q)" using one by (intro ph_start) simp_all
    then show ?thesis using v(4,5) e0 by simp
  qed
  have "ph_step ?n ?r (cl_view c, add_mset Fini Q) (cl_view c', mset (conts evs) + Q) \<and> cl_sized o1 c'"
  proof (cases "producer_cnt c - 1 = 0")
    case False
    then have c': "c' = c\<lparr>producer_cnt := producer_cnt c - 1\<rparr>" "evs = []" using t by (simp_all add: test_fini_def Let_def)
    have "cl_view c' = (cl_view c)\<lparr>ph_reports := ph_reports (cl_view c) - 1\<rparr>" by (rule ph_state_eqI) (simp_all add: c' io_owner_def)
    then show ?thesis using ph_count[of "cl_view c" ?n ?r Q] False sz by (simp add: c' cl_sized_def)
  next
    case one: True
    show ?thesis
    proof (cases "cl_phase c")
      case INIT
      let ?c1 = "alloc_buffers mem (c\<lparr>producer_cnt := producer_num o1\<rparr>)" and ?al = "Cl_alloc_bulk (bsz + sizeof_kv_msg + word_of_nat KV_MAX_KEY_LENGTH) (concurrent_io_num o1)"
      let ?c2 = "if opt_fill o1 then ?c1\<lparr>total_io := num_items o1, cl_phase := FILL\<rparr> else ?c1\<lparr>cl_phase := work_phase o1, total_io := operation_cnt o1\<rparr>"
      obtain ev2 where "start_phase o1 ?c2 = Inr (c', ev2)" "evs = [?al, ?al] @ ev2"
        using t one INIT by (auto simp: test_fini_def Let_def res_simps split: if_splits)
      then show ?thesis using start[of ?c2 ev2 "[?al, ?al]"] sz one by (auto simp: alloc_buffers_def cl_sized_def work_phase_def)
    next
      case FILL
      let ?c2 = "c\<lparr>producer_cnt := producer_num o1, cl_phase := work_phase o1, total_io := operation_cnt o1\<rparr>"
      have "start_phase o1 ?c2 = Inr (c', evs)" using t one FILL by (simp add: test_fini_def Let_def split: if_splits)
      then show ?thesis using start[of ?c2 evs "[]"] sz one by (auto simp: cl_sized_def work_phase_def)
    qed (use t one sz ph_stop[of "cl_view c" ?n ?r Q "cl_view c'"] in
        \<open>auto simp: test_fini_def Let_def stop_def cl_sized_def split: if_splits\<close>)
  qed
  then show "ph_step ?n ?r (cl_view c, add_mset Fini Q) (cl_view c', mset (conts evs) + Q)" and "cl_sized o1 c'" by simp_all
qed

lemma poller_view:
  assumes "throughput_poller c = (c', n)"
  shows "cl_view c' = cl_view c" and "cl_sized o1 c \<Longrightarrow> cl_sized o1 c'"
proof -
  have f: "cl_view (fold (\<lambda>k. upd_producer k (\<lambda>p. p\<lparr>counter := 0\<rparr>)) ks c) = cl_view c" if "set ks \<subseteq> {..<length (producers c)}" for ks c
    using that
  proof (induction ks arbitrary: c)
    case (Cons k ks)
    have "cl_view (upd_producer k (\<lambda>p. p\<lparr>counter := 0\<rparr>) c) = cl_view c"
      using Cons.prems by (intro ph_state_eqI) (auto simp: io_owner_def nth_list_update)
    then show ?case using Cons by simp
  qed simp
  have l: "length (producers (fold (\<lambda>k. upd_producer k g) ks c)) = length (producers c)" "io_buffers (fold (\<lambda>k. upd_producer k g) ks c) = io_buffers c" for ks c g
    by (induction ks arbitrary: c) simp_all
  have "set [0..<length (producers c)] \<subseteq> {..<length (producers c)}" by auto
  then show "cl_view c' = cl_view c" and "cl_sized o1 c \<Longrightarrow> cl_sized o1 c'"
    using assms f[of "[0..<length (producers c)]" c] l by (auto simp: throughput_poller_def cl_sized_def simp del: set_upt)
qed

section \<open>The client refines the machine\<close>

type_synonym cl_config = "cl_opt \<times> (nat \<Rightarrow> cl_input) \<times> u32 \<times> (nat \<Rightarrow> kv_msg \<times> kv_msg)"

definition cl_start :: "cl_opt \<Rightarrow> client \<times> cl_event multiset" where
  "cl_start o1 = (fst (client_main o1), mset (snd (client_main o1)))"

definition cl_valid :: "cl_opt \<Rightarrow> bool" where
  "cl_valid o1 \<longleftrightarrow> 0 < unat (producer_num o1) \<and> unat (producer_num o1) \<le> unat (concurrent_io_num o1) \<and> unat (ssd_num o1) + 1 < 2 ^ 32"

lemma cl_frame_sized: "cl_sized o1 c \<Longrightarrow> cl_frame i k c c' \<Longrightarrow> cl_sized o1 c'"
  by (simp add: cl_sized_def cl_frame_def)

lemma io_effect_sized: "cl_sized o1 c \<Longrightarrow> io_effect i c c' evs \<Longrightarrow> cl_sized o1 c'"
  by (simp add: io_effect_def cl_sized_def)

lemma io_effect_sim: "io_effect i c c' evs \<Longrightarrow> ph_step n r (cl_view c, add_mset (Cont i) Q) (cl_view c', mset (conts evs) + Q)"
  by (simp add: io_effect_def ph_effect_sim)

text \<open>A step of the initialisation or of the end of the run changes nothing that the machine sees.\<close>

lemma conts_neutral [simp]: "conts (ring_fini_cb o1) = []" "conts (worker_stop i) = []" "conts thread_stop = []" "conts (ring_ready_cb o1) = [Null]"
  "conts (signal_handler c) = []"
  by (simp_all add: ring_fini_cb_def signal_handler_def stop_def worker_stop_def thread_stop_def ring_ready_cb_def conts_def List.map_filter_def comp_def)

lemma cl_step_sim:
  assumes ok: "cl_valid o1" and st: "cl_step o1 inp bsz mem w w'" and sz: "cl_sized o1 (fst w)"
  shows "cl_sized o1 (fst w') \<and>
    (ph_step (unat (producer_num o1)) (io_share o1))\<^sup>*\<^sup>* (cl_view (fst w), kinds kind_of (snd w)) (cl_view (fst w'), kinds kind_of (snd w'))"
  using st sz
proof (cases rule: cl_step.cases)
  case (step_test arg c c' evs th P)
  show ?thesis
  proof (cases arg)
    case None
    then have t: "test o1 inp None c = Inr (c', evs)" using step_test by simp
    then have "cl_sized o1 c'" using cl_frame_sized[OF _ null_retire_sim(2)] sz step_test(1) by simp
    then show ?thesis using step_test None null_retire_sim(1)[OF t] by (auto simp: kinds_evs simp del: kinds_simps(4) test.simps)
  next
    case (Some i)
    then have "io_effect i c c' evs" using step_test test_effect by blast
    then show ?thesis using Some step_test sz io_effect_sim io_effect_sized by (auto simp: kinds_evs simp del: kinds_simps(4))
  qed
next
  case (step_fini c c' evs th P)
  then show ?thesis using ok sz test_fini_sim[OF _ _ _ step_fini(3)] by (auto simp: kinds_evs cl_valid_def simp del: kinds_simps(4))
next
  case (step_io_start c th i P)
  then show ?thesis using sz io_effect_sim[OF io_start_effect] by (auto simp: kinds_evs simp del: kinds_simps(4))
next
  case (step_answer i r c c' evs m P)
  then have "io_effect i c c' evs" using resp_effect test_effect by blast
  then show ?thesis using step_answer sz io_effect_sim io_effect_sized by (auto simp: kinds_evs simp del: kinds_simps(4))
next
  case (step_meta i r c c' evs m P)
  then have "io_effect i c c' evs" using resp_effect meta_get_effect by blast
  then show ?thesis using step_meta sz io_effect_sim io_effect_sized by (auto simp: kinds_evs simp del: kinds_simps(4))
next
  case (step_got success i r c c' evs w m P)
  then have "io_effect i c c' evs" using resp_effect io_fini_effect by blast
  then show ?thesis using step_got sz io_effect_sim io_effect_sized by (auto simp: kinds_evs simp del: kinds_simps(4))
next
  case (step_worker_init i evs c th P)
  then have "conts evs = [Null]" by (auto simp: worker_init_def split: if_splits)
  then show ?thesis using step_worker_init sz by (simp add: kinds_evs del: kinds_simps(4))
next
  case (step_ring_init c c' evs th P)
  then have "conts evs = [Null]" "cl_view c' = cl_view c" "cl_sized o1 c'" using sz by (auto simp: ring_init_def cl_view_def cl_sized_def)
  then show ?thesis using step_ring_init by (simp add: kinds_evs del: kinds_simps(4))
next
  case (step_poller c c' n P)
  then show ?thesis using poller_view[OF step_poller(3)] sz by simp
qed (auto simp: kinds_evs simp del: kinds_simps(4))

lemma cl_start_run:
  assumes "cl_valid o1"
  shows "cl_sized o1 (fst (cl_start o1))"
    and "ph_run (unat (producer_num o1)) (io_share o1) (unat (concurrent_io_num o1)) (cl_view (fst (cl_start o1))) (kinds kind_of (snd (cl_start o1)))"
proof -
  let ?n = "unat (producer_num o1)" and ?c = "fst (cl_start o1)" and ?a = "unat (ssd_num o1) + 1"
  have us: "unat (ssd_num o1 + 1) = ?a" using assms by (simp add: cl_valid_def unat_word_ariths)
  have n: "0 < ?n" using assms by (simp add: cl_valid_def)
  have c: "?c = fst (client_main o1)" by (simp add: cl_start_def)
  have p: "producers ?c ! k = (if k = 0 then zero_producer\<lparr>iocnt := ucast (ssd_num o1 + 1)\<rparr> else zero_producer)" if "k < ?n" for k
    unfolding c using that by (simp add: client_main_def nth_list_update)
  have "conts (snd (client_main o1)) = replicate ?a Null"
    by (simp add: client_main_def conts_def List.map_filter_def comp_def map_replicate_const replicate_append_same)
  then have k: "kinds kind_of (snd (cl_start o1)) = replicate_mset ?a Null"
    unfolding cl_start_def snd_conv kinds_evs by simp
  show "cl_sized o1 ?c" by (simp add: c client_main_def cl_sized_def)
  have idle: "cl_phase ?c = INIT" "producer_cnt ?c = 1" by (simp_all add: c client_main_def)
  show "ph_run ?n (io_share o1) (unat (concurrent_io_num o1)) (cl_view ?c) (kinds kind_of (snd (cl_start o1)))"
    unfolding k by (rule ph_init_run) (use n p idle us in \<open>auto simp: zero_producer_def\<close>)
qed

interpretation client: load_generator "\<lambda>(o1, _). cl_valid o1" "\<lambda>(o1, inp, bsz, mem). cl_step o1 inp bsz mem" "\<lambda>(o1, _). cl_start o1" cl_view kind_of
  "\<lambda>(o1, _) c _. cl_sized o1 c" "\<lambda>(o1, _). unat (producer_num o1)" "\<lambda>(o1, _). io_share o1" "\<lambda>(o1, _). unat (concurrent_io_num o1)"
proof (unfold_locales, goal_cases)
  case (1 p)
  then show ?case using io_share_le by (auto simp: cl_valid_def io_share_def div_greater_zero_iff split: prod.splits)
next
  case (2 p)
  then show ?case using cl_start_run(1) by (auto split: prod.splits)
next
  case (3 p)
  then show ?case using cl_start_run(2) by (auto split: prod.splits)
next
  case (4 p c P c' P')
  then show ?case using cl_step_sim[of _ _ _ _ "(c, P)" "(c', P')"] by (auto split: prod.splits)
next
  case (5 p c P c' P')
  then show ?case using cl_step_sim[of _ _ _ _ "(c, P)" "(c', P')"] by (auto split: prod.splits)
qed

section \<open>Properties\<close>

text \<open>
  C37. In every state of every run of a client with a producer, a buffer for each producer and
  fewer than \<open>2 ^ 32 - 1\<close> devices, whatever the order of messages and answers: the run is a run of
  the machine of phases; an I/O buffer has at most one continuation under way; while a phase is
  not over, the counter of a producer is the number of its continuations; and when the last
  report of a phase is handled nothing of the phase is left: no request, answer or message of
  any I/O, no other report, and every producer has gone through its whole share. Phases
  therefore never overlap.
\<close>

theorem client_phases_do_not_overlap:
  assumes "cl_valid o1" and "(cl_step o1 inp bsz mem)\<^sup>*\<^sup>* (cl_start o1) (c, P)"
  shows "(ph_step (unat (producer_num o1)) (io_share o1))\<^sup>*\<^sup>* (cl_view (fst (cl_start o1)), kinds kind_of (snd (cl_start o1))) (cl_view c, kinds kind_of P) \<and>
    (\<forall>i. count (kinds kind_of P) (Cont i) \<le> 1) \<and>
    (kinds kind_of P \<noteq> {#} \<longrightarrow> (\<forall>k < unat (producer_num o1). unat (iocnt (producers c ! k)) = pend (ph_owns (cl_view c) k) (kinds kind_of P))) \<and>
    (\<forall>th Q. P = add_mset (Cl_send th Test_fini) Q \<longrightarrow> producer_cnt c = 1 \<longrightarrow> (\<forall>e \<in># Q. kind_of e = None) \<and>
       (\<forall>k < unat (producer_num o1). iocnt (producers c ! k) = 0 \<and> start_io (producers c ! k) = end_io (producers c ! k)))"
proof -
  note R = client.runs_refine[of "(o1, inp, bsz, mem)", simplified, OF assms]
  note O = client.one_continuation[of "(o1, inp, bsz, mem)", simplified, OF assms]
  have "(\<forall>e \<in># Q. kind_of e = None) \<and> (\<forall>k < unat (producer_num o1). iocnt (producers c ! k) = 0 \<and> start_io (producers c ! k) = end_io (producers c ! k))"
    if "P = add_mset (Cl_send th Test_fini) Q" "producer_cnt c = 1" for th Q
    using client.no_overlap(2,3)[of "(o1, inp, bsz, mem)" c "Cl_send th Test_fini" Q, simplified, OF assms(1) assms(2)[unfolded that(1)] that(2)]
    by (simp add: kinds_empty)
  then show ?thesis using R O by simp
qed

text \<open>A client with one device, one producer and one buffer, up to the end of its initialisation.\<close>

definition small_opt :: cl_opt where
  "small_opt = default_opt\<lparr>ssd_num := 1, thread_num := 1, producer_num := 1, concurrent_io_num := 1\<rparr>"

definition some_input :: "nat \<Rightarrow> cl_input" where
  "some_input t = \<lparr>in_op = YCSB_READ, in_key = replicate 16 0, in_value = [], in_ret = -1, in_len = 0, in_cached = []\<rparr>"

definition ready_client :: client where
  "ready_client = (fst (client_main small_opt))\<lparr>producers := [zero_producer]\<rparr>"

lemma small_opt_simps [simp]:
  "ssd_num small_opt = 1" "thread_num small_opt = 1" "producer_num small_opt = 1" "concurrent_io_num small_opt = 1" "stat_interval small_opt = -1"
  by (simp_all add: small_opt_def default_opt_def)

lemma ready_client_reached:
  "(cl_step small_opt some_input bsz mem)\<^sup>*\<^sup>* (cl_start small_opt) (ready_client, add_mset (Cl_send 2 Test_fini) {#Cl_store_init 0 6250000 48#})"
proof -
  let ?S = "cl_step small_opt some_input bsz mem" and ?c = "fst (client_main small_opt)" and ?t = "Cl_send 2 (Test None)"
  let ?c1 = "?c\<lparr>producers := [zero_producer\<lparr>iocnt := 1\<rparr>]\<rparr>"
  have th: "producer_thread small_opt 0 = 2" by (simp add: producer_thread_def)
  have worker: "worker_init small_opt 0 = Inr [Cl_store_init 0 6250000 48, ?t]"
    by (simp add: worker_init_def th KV_NUM_ITEMS_def KV_ITEM_PER_BUCKET_def client_log_bucket_num_def)
  have start: "cl_start small_opt = (?c, add_mset (Cl_send 0 (Worker_init 0)) {#Cl_send 1 Ring_init#})"
    by (simp add: cl_start_def client_main_def)
  have a: "?S (?c, add_mset (Cl_send 0 (Worker_init 0)) {#Cl_send 1 Ring_init#}) (?c, add_mset (Cl_send 1 Ring_init) {#Cl_store_init 0 6250000 48, ?t#})"
    using step_worker_init[of small_opt 0 _ some_input bsz mem ?c 0 "{#Cl_send 1 Ring_init#}", OF worker] by simp
  have b: "?S (?c, add_mset (Cl_send 1 Ring_init) {#Cl_store_init 0 6250000 48, ?t#}) (?c, add_mset Cl_ring_init {#Cl_store_init 0 6250000 48, ?t#})"
    using step_ring_init[of small_opt ?c ?c "[Cl_ring_init]"] by (simp add: ring_init_def client_main_def)
  have c: "?S (?c, add_mset Cl_ring_init {#Cl_store_init 0 6250000 48, ?t#}) (?c, add_mset ?t {#?t, Cl_store_init 0 6250000 48#})"
    using step_ring_ready[of small_opt some_input bsz mem ?c "{#Cl_store_init 0 6250000 48, ?t#}"] by (simp add: ring_ready_cb_def th add_mset_commute)
  have t1: "test small_opt some_input None ?c = Inr (?c1, [])" "test small_opt some_input None ?c1 = Inr (ready_client, [Cl_send 2 Test_fini])"
    by (simp_all add: test_once_def test_retire_def producer_of_def th client_main_def ready_client_def zero_producer_def upd_producer_def)
  have d: "?S (?c, add_mset ?t {#?t, Cl_store_init 0 6250000 48#}) (?c1, add_mset ?t {#Cl_store_init 0 6250000 48#})"
    using step_test[OF t1(1), of bsz mem 2 "{#?t, Cl_store_init 0 6250000 48#}"] by simp
  have e: "?S (?c1, add_mset ?t {#Cl_store_init 0 6250000 48#}) (ready_client, add_mset (Cl_send 2 Test_fini) {#Cl_store_init 0 6250000 48#})"
    using step_test[OF t1(2), of bsz mem 2 "{#Cl_store_init 0 6250000 48#}"] by (simp add: add_mset_commute)
  show ?thesis unfolding start using a b c d e by (meson rtranclp.rtrancl_refl converse_rtranclp_into_rtranclp)
qed

theorem client_phases_do_not_overlap_witness:
  "(cl_step small_opt some_input 512 (\<lambda>i. (zero_msg, zero_msg)))\<^sup>*\<^sup>* (cl_start small_opt)
     (ready_client, add_mset (Cl_send 2 Test_fini) {#Cl_store_init 0 6250000 48#}) \<and>
   producer_cnt ready_client = 1 \<and> iocnt (producers ready_client ! 0) = 0 \<and> start_io (producers ready_client ! 0) = end_io (producers ready_client ! 0)"
proof -
  have ok: "cl_valid small_opt" by (simp add: cl_valid_def)
  have one: "producer_cnt ready_client = 1" by (simp add: ready_client_def client_main_def)
  note reached = ready_client_reached[of 512 "\<lambda>i. (zero_msg, zero_msg)"]
  note T = conjunct2[OF conjunct2[OF conjunct2[OF client_phases_do_not_overlap[OF ok reached]]]]
  have "iocnt (producers ready_client ! 0) = 0 \<and> start_io (producers ready_client ! 0) = end_io (producers ready_client ! 0)"
    using T[rule_format, of 2 "{#Cl_store_init 0 6250000 48#}"] one by simp
  then show ?thesis using reached one by simp
qed

text \<open>
  The start of a phase shares its operations out exactly: every operation number below the
  total belongs to one producer and to no other, and every I/O buffer in use is started once.
\<close>

theorem phase_shares_are_exact:
  assumes "cl_sized o1 c" and "cl_valid o1"
  shows "\<exists>c' evs. start_phase o1 c = Inr (c', evs) \<and>
    (\<forall>x. x < unat (total_io c) \<longrightarrow> (\<exists>!k. k < unat (producer_num o1) \<and> unat (start_io (producers c' ! k)) \<le> x \<and> x < unat (end_io (producers c' ! k)))) \<and>
    conts evs = map Cont [0..<unat (producer_num o1) * io_share o1]"
proof -
  let ?n = "unat (producer_num o1)" and ?cnt = "ucast (concurrent_io_num o1 div producer_num o1) :: u64"
  have cnt: "unat ?cnt = io_share o1" by (simp add: io_share_def unsigned_ucast_eq unat_div)
  have r: "0 < ?n" "0 < unat ?cnt" "?n * unat ?cnt < 2 ^ 32"
    using assms(2) le_less_trans[OF io_share_le unat_bound_32] unfolding cnt by (simp_all add: cl_valid_def io_share_def div_greater_zero_iff)
  obtain c' evs s where p: "start_phase o1 c = Inr (c', evs)" "cl_view c' = ph_begin_all (producer_num o1) ?cnt (total_io c) s"
    "conts evs = map Cont [0..<?n * io_share o1]" using start_phase_view[OF assms(1) r(1)] by blast
  show ?thesis using ph_begin_all_exact[OF r, of _ "total_io c" s, folded p(2)] p(1,3) by simp
qed

theorem phase_shares_are_exact_witness:
  "\<exists>c' evs. start_phase (small_opt\<lparr>producer_num := 2, concurrent_io_num := 4\<rparr>)
       ((fst (client_main (small_opt\<lparr>producer_num := 2, concurrent_io_num := 4\<rparr>)))\<lparr>total_io := 5\<rparr>) = Inr (c', evs) \<and>
     (\<exists>!k. k < 2 \<and> unat (start_io (producers c' ! k)) \<le> 4 \<and> 4 < unat (end_io (producers c' ! k))) \<and>
     conts evs = map Cont [0..<4]"
proof -
  let ?o = "small_opt\<lparr>producer_num := 2, concurrent_io_num := 4\<rparr>"
  let ?c = "(fst (client_main ?o))\<lparr>total_io := 5\<rparr>"
  have "cl_sized ?o ?c" "cl_valid ?o" by (simp_all add: cl_sized_def client_main_def cl_valid_def)
  then show ?thesis using phase_shares_are_exact[of ?o ?c] by (auto simp: io_share_def)
qed

text \<open>
  C38. The record of a latency is inside its array but for one case: when the total of a phase
  is a multiple of the array's size, the answers that come after the last operation has been
  issued are recorded one place behind the end.
\<close>

theorem latency_record_bound:
  assumes "0 < unat t" and "unat t < 2 ^ 51" and "io_per_record p = ceil_records t" and "unat (start_io p) \<le> unat t"
  shows "record_latency p = (if unat (start_io p) = unat (ceil_records t) * 2 ^ 20 then Inl Out_of_bounds else Inr ())"
  using latency_index_bound[OF assms(1,2,4)] assms(3) by (simp add: record_latency_def)

theorem latency_record_bound_witness:
  "record_latency (zero_producer\<lparr>start_io := 0x100000, end_io := 0x100000, io_per_record := ceil_records 0x100000\<rparr>) = Inl Out_of_bounds \<and>
   record_latency (zero_producer\<lparr>start_io := 0xFFFFF, end_io := 0x100000, io_per_record := ceil_records 0x100000\<rparr>) = Inr ()"
proof -
  have u: "unat (ceil_records 0x100000) = 1" by (simp add: ceil_records_def LATENCY_MAX_RECORD_def)
  show ?thesis
    using latency_record_bound[of "0x100000" "zero_producer\<lparr>start_io := 0x100000, end_io := 0x100000, io_per_record := ceil_records 0x100000\<rparr>"]
      latency_record_bound[of "0x100000" "zero_producer\<lparr>start_io := 0xFFFFF, end_io := 0x100000, io_per_record := ceil_records 0x100000\<rparr>"] u
    by simp
qed

text \<open>
  A read whose answer says that the key is not ready is to be tried again, but the buffer
  is still marked as finished: the next call of \<open>test\<close> counts the operation as done and sends
  nothing for it, and the retry counter is cleared.
\<close>

theorem unready_read_is_counted:
  assumes "i < length (io_buffers c)" and "io_owner c i < length (producers c)" and "is_finished (io_buffers c ! i)"
    and "put_key_ok (io_resp (io_buffers c ! i)) = 0" and "unat (retry_cnt (io_buffers c ! i)) < 99"
    and "msg_type (io_resp (io_buffers c ! i)) = KV_MSG_OK" and "\<not> read_modify_write (io_buffers c ! i)"
    and "record_latency (producers c ! io_owner c i) = Inr ()" and "start_io (producers c ! io_owner c i) = end_io (producers c ! io_owner c i)"
  shows "\<exists>th c1 c2 evs. meta_get_cb o1 i c = (c1, [Cl_send th (Test (Some i))]) \<and> test o1 inp (Some i) c1 = Inr (c2, evs) \<and> Cont i \<notin> set (conts evs) \<and>
    counter (producers c2 ! io_owner c i) = counter (producers c ! io_owner c i) + 1 \<and>
    iocnt (producers c2 ! io_owner c i) = iocnt (producers c ! io_owner c i) - 1"
proof -
  let ?k = "io_owner c i" and ?io = "io_buffers c ! i"
  let ?c1 = "upd_io i (\<lambda>io. io\<lparr>io_worker_id := msg_ds_id (io_resp ?io), retry_cnt := retry_cnt ?io + 1, io_req := (io_req io)\<lparr>msg_type := KV_MSG_GET\<rparr>\<rparr>) c"
  have "retry_cnt ?io + 1 < 100" using assms(5) by (simp add: word_less_nat_alt unat_word_ariths)
  then have m: "meta_get_cb o1 i c = (?c1, [Cl_send (producer_thread o1 (io_producer_id ?io)) (Test (Some i))])"
    using assms(4) by (simp add: meta_get_cb_def Let_def)
  have k: "producer_of (Some i) ?c1 = Inr ?k" using assms(1,2) by (simp add: producer_of_def io_owner_def)
  obtain c2 evs where a: "test_answer o1 i ?k ?c1 = Inr (c2, evs, False)" "producers c2 = (producers c)[?k := (producers c ! ?k)\<lparr>counter := counter (producers c ! ?k) + 1\<rparr>]"
    and e: "conts evs = []"
    using assms by (simp add: test_answer_def Let_def record_latency_def latency_index_def rbind_def split: if_splits)
  then have "test o1 inp (Some i) ?c1 = (let (c3, ev2) = test_retire o1 ?k c2 in Inr (c3, evs @ ev2))"
    using assms(1-3,9) k by (simp add: test_once_def Let_def rbind_def split: prod.splits)
  then show ?thesis using m a e assms(2) by (auto simp: test_retire_def Let_def)
qed

definition unready_client :: client where
  "unready_client = ready_client\<lparr>
     io_buffers := [zero_io\<lparr>is_finished := True, io_resp := zero_msg\<lparr>msg_type := KV_MSG_OK\<rparr>\<rparr>],
     producers := [zero_producer\<lparr>start_io := 5, end_io := 5, iocnt := 1, io_per_record := 1\<rparr>]\<rparr>"

theorem unready_read_is_counted_witness:
  "\<exists>th c1 c2 evs. meta_get_cb small_opt 0 unready_client = (c1, [Cl_send th (Test (Some 0))]) \<and>
     test small_opt some_input (Some 0) c1 = Inr (c2, evs) \<and> Cont 0 \<notin> set (conts evs) \<and> counter (producers c2 ! 0) = 1 \<and> iocnt (producers c2 ! 0) = 0"
  using unready_read_is_counted[of 0 unready_client small_opt some_input]
  by (simp add: unready_client_def io_owner_def zero_io_def zero_msg_def zero_producer_def record_latency_def latency_index_def LATENCY_MAX_RECORD_def)

end
