(* ===== verification/Ycsb_Benchmark.thy ===== *)
theory Ycsb_Benchmark
  imports Load_Phases Kv_Storage Kv_Bucket
begin

unbundle bit_operations_syntax

text \<open>
  \<open>app/ycsb_benchmark/benchmark.c\<close>: the load generator over the data stores of one machine.
  Producers issue operations that run on the worker thread of their device; a request and its
  answer share one message. The calls of the data store and its commits are events.
\<close>

section \<open>Options\<close>

record bench_opt =
  num_items :: u64
  operation_cnt :: u64
  value_size :: u32
  ssd_num :: u32
  producer_num :: u32
  concurrent_io_num :: u32
  seq_read :: bool
  opt_fill :: bool
  seq_write :: bool
  opt_del :: bool
  json_config_file :: string
  workload_file :: string
  client_conf_file :: string
  memcached_ip :: string
  opt_ditto :: bool
  opt_ours :: bool

definition default_opt :: bench_opt where
  "default_opt = \<lparr>num_items = 1024, operation_cnt = 512, value_size = 1024, ssd_num = 2, producer_num = 1, concurrent_io_num = 32,
     seq_read = False, opt_fill = False, seq_write = False, opt_del = False, json_config_file = ''config.json'',
     workload_file = ''workloada.spec'', client_conf_file = ''client_conf.json'', memcached_ip = ''10.10.1.2'', opt_ditto = False, opt_ours = False\<rparr>"

definition get_option :: "char \<times> string \<Rightarrow> bench_opt \<Rightarrow> bench_opt res" where
  "get_option a o1 =
     (let ch = fst a; optarg = snd a; num = word_of_int (atol optarg) in
      if ch = CHR ''w'' then rbind (strcpy_into 1024 optarg) (\<lambda>s. Inr (o1\<lparr>workload_file := s\<rparr>))
      else if ch = CHR ''d'' then Inr (o1\<lparr>ssd_num := num\<rparr>)
      else if ch = CHR ''c'' then rbind (strcpy_into 1024 optarg) (\<lambda>s. Inr (o1\<lparr>json_config_file := s\<rparr>))
      else if ch = CHR ''f'' then rbind (strcpy_into 1024 optarg) (\<lambda>s. Inr (o1\<lparr>client_conf_file := s\<rparr>))
      else if ch = CHR ''i'' then Inr (o1\<lparr>concurrent_io_num := num\<rparr>)
      else if ch = CHR ''P'' then Inr (o1\<lparr>producer_num := num\<rparr>)
      else if ch = CHR ''m'' then rbind (strcpy_into 32 optarg) (\<lambda>s. Inr (o1\<lparr>memcached_ip := s\<rparr>))
      else if ch = CHR ''R'' then Inr (o1\<lparr>seq_read := True\<rparr>)
      else if ch = CHR ''W'' then Inr (o1\<lparr>seq_write := True\<rparr>)
      else if ch = CHR ''D'' then Inr (o1\<lparr>opt_del := True\<rparr>)
      else if ch = CHR ''F'' then Inr (o1\<lparr>opt_fill := True\<rparr>)
      else if ch = CHR ''C'' then
        if optarg = ''ditto'' then Inr (o1\<lparr>opt_ditto := True\<rparr>)
        else if optarg = ''ours'' then Inr (o1\<lparr>opt_ours := True\<rparr>)
        else Inl Exit_fail
      else Inl Exit_fail)"

fun get_options :: "(char \<times> string) list \<Rightarrow> bench_opt \<Rightarrow> bench_opt res" where
  "get_options [] o1 = Inr o1"
| "get_options (a # as) o1 = rbind (get_option a o1) (get_options as)"

text \<open>Every argument fits its array.\<close>

definition bm_opt_ok :: "bench_opt \<Rightarrow> bool" where
  "bm_opt_ok o1 \<longleftrightarrow> length (json_config_file o1) < 1024 \<and> length (workload_file o1) < 1024 \<and> length (client_conf_file o1) < 1024 \<and> length (memcached_ip o1) < 32"

interpretation bench_opts: option_parser get_option get_options bm_opt_ok
proof
  show "bm_opt_ok q" if "bm_opt_ok p" "get_option a p = Inr q" for a p q
    using that by (auto simp: get_option_def bm_opt_ok_def Let_def res_simps strcpy_into_Inr split: if_splits)
qed simp_all

section \<open>State\<close>

record producer =
  start_io :: u64
  end_io :: u64
  iocnt :: u64
  io_per_record :: u32

record io_buffer_t =
  worker_id :: u32
  producer_id :: u32
  io_msg :: kv_msg
  read_modify_write :: bool
  is_finished :: bool
  ditto_fill :: bool

text \<open>
  \<open>total_io\<close>, \<open>record_io\<close> and \<open>producer_cnt\<close> are the static variables of \<open>test_fini\<close>;
  \<open>bm_clock\<close> numbers the answers of the workload generator and of the cache.
\<close>

record bench =
  state :: cl_phase
  producers :: "producer list"
  io_buffers :: "io_buffer_t list"
  total_io :: u64
  record_io :: u32
  producer_cnt :: u32
  bm_clock :: nat

datatype bm_task = Test "nat option" | Test_fini | Io_start nat | Worker_init nat | Worker_stop nat | Producer_stop

datatype bm_event =
  Bm_send u32 bm_task
| Bm_set nat u32 kv_msg
| Bm_get nat u32 kv_msg
| Bm_delete nat u32 kv_msg
| Bm_set_commit nat
| Bm_del_commit nat
| Bm_cache_set u32 kv_msg u32
| Bm_malloc nat
| Bm_free nat
| Bm_store_init nat u32 nat
| Bm_store_fini nat
| Bm_app_stop

definition upd_io :: "nat \<Rightarrow> (io_buffer_t \<Rightarrow> io_buffer_t) \<Rightarrow> bench \<Rightarrow> bench" where
  "upd_io i f c = c\<lparr>io_buffers := (io_buffers c)[i := f (io_buffers c ! i)]\<rparr>"

definition upd_producer :: "nat \<Rightarrow> (producer \<Rightarrow> producer) \<Rightarrow> bench \<Rightarrow> bench" where
  "upd_producer k f c = c\<lparr>producers := (producers c)[k := f (producers c ! k)]\<rparr>"

definition producer_of :: "nat option \<Rightarrow> bench \<Rightarrow> nat res" where
  "producer_of arg c =
     (let k = (case arg of None \<Rightarrow> 0 | Some i \<Rightarrow> unat (producer_id (io_buffers c ! i)))
      in if (case arg of None \<Rightarrow> True | Some i \<Rightarrow> i < length (io_buffers c)) \<and> k < length (producers c) then Inr k
         else Inl Out_of_bounds)"

section \<open>The data store\<close>

text \<open>The completion of an operation; a failure ends the program.\<close>

definition io_fini :: "bench_opt \<Rightarrow> bool \<Rightarrow> nat \<Rightarrow> bench \<Rightarrow> (bench \<times> bm_event list) res" where
  "io_fini o1 success i c =
     (if \<not> success then Inl Exit_fail
      else
        let io = io_buffers c ! i; t = msg_type (io_msg io);
            ev = (if t = KV_MSG_SET then [Bm_set_commit i] else if t = KV_MSG_DEL then [Bm_del_commit i] else []);
            c1 = (if \<not> opt_ditto o1 \<or> state c = FILL then upd_io i (\<lambda>io. io\<lparr>io_msg := (io_msg io)\<lparr>msg_type := KV_MSG_OK\<rparr>\<rparr>) c else c)
        in Inr (c1, ev @ [Bm_send (ssd_num o1 + producer_id io) (Test (Some i))]))"

text \<open>The last case of the switch names the phase \<open>INIT\<close>, whose number is that of \<open>KV_MSG_OK\<close>.\<close>

definition io_start :: "nat \<Rightarrow> bench \<Rightarrow> bm_event list res" where
  "io_start i c =
     (let io = io_buffers c ! i; m = io_msg io; w = worker_id io in
      if msg_type m = KV_MSG_SET then Inr [Bm_set i w m]
      else if msg_type m = KV_MSG_GET then Inr [Bm_get i w m]
      else if msg_type m = KV_MSG_DEL then Inr [Bm_delete i w m]
      else if msg_type m = 0 then Inl Assert_fail
      else Inr [])"

section \<open>The work of an I/O\<close>

definition cache_answer :: "bench_opt \<Rightarrow> cl_phase \<Rightarrow> io_buffer_t \<Rightarrow> io_buffer_t \<times> bm_event list" where
  "cache_answer o1 ph io =
     (if ph \<noteq> FILL \<and> opt_ditto o1 then
        (io\<lparr>io_msg := (io_msg io)\<lparr>msg_type := KV_MSG_OK\<rparr>\<rparr>,
         if msg_type (io_msg io) = KV_MSG_GET then
           if ditto_fill io then [Bm_cache_set (producer_id io) (io_msg io) (value_len (io_msg io))] else []
         else [Bm_cache_set (producer_id io) (io_msg io) 0])
      else (io, []))"

text \<open>The flag says that \<open>test\<close> returns after it.\<close>

definition test_answer :: "bench_opt \<Rightarrow> nat \<Rightarrow> nat \<Rightarrow> bench \<Rightarrow> (bench \<times> bm_event list \<times> bool) res" where
  "test_answer o1 i k c =
     (let (io, evs) = cache_answer o1 (state c) (io_buffers c ! i); c1 = upd_io i (\<lambda>_. io) c; p = producers c ! k in
      rbind (latency_index (start_io p) (io_per_record p)) (\<lambda>_.
        if msg_type (io_msg io) \<noteq> KV_MSG_OK then Inl Exit_fail
        else if read_modify_write io then
          Inr (upd_io i (\<lambda>io. io\<lparr>io_msg := (io_msg io)\<lparr>msg_type := KV_MSG_SET, value_len := value_size o1\<rparr>, read_modify_write := False\<rparr>) c1,
               evs @ [Bm_send (worker_id io) (Io_start i)], True)
        else Inr (c1, evs, False)))"

definition do_transaction :: "bench_opt \<Rightarrow> cl_input \<Rightarrow> io_buffer_t \<Rightarrow> io_buffer_t res" where
  "do_transaction o1 x io =
     (let m0 = ycsb_key x ((io_msg io)\<lparr>key_len := 16\<rparr>); m = (if in_op x = YCSB_READ then m0 else ycsb_value x m0);
          get = m\<lparr>msg_type := KV_MSG_GET, value_len := 0\<rparr>; put = m\<lparr>msg_type := KV_MSG_SET, value_len := value_size o1\<rparr>
      in case in_op x of
           YCSB_READMODIFYWRITE \<Rightarrow> Inr (io\<lparr>read_modify_write := True, io_msg := get\<rparr>)
         | YCSB_READ \<Rightarrow> Inr (io\<lparr>io_msg := get\<rparr>)
         | YCSB_UPDATE \<Rightarrow> Inr (io\<lparr>io_msg := put\<rparr>)
         | YCSB_INSERT \<Rightarrow> Inr (io\<lparr>io_msg := put\<rparr>)
         | _ \<Rightarrow> Inl Assert_fail)"

definition next_request :: "bench_opt \<Rightarrow> cl_phase \<Rightarrow> cl_input \<Rightarrow> io_buffer_t \<Rightarrow> io_buffer_t res" where
  "next_request o1 ph x io0 =
     (let io = io0\<lparr>read_modify_write := False\<rparr>; m = io_msg io;
          put = ycsb_value x (ycsb_key x (m\<lparr>msg_type := KV_MSG_SET, key_len := 16, value_len := value_size o1\<rparr>))
      in case ph of
           SEQ_WRITE \<Rightarrow> Inr (io\<lparr>io_msg := put\<rparr>)
         | FILL \<Rightarrow> Inr (io\<lparr>io_msg := put\<rparr>)
         | SEQ_READ \<Rightarrow> Inr (io\<lparr>io_msg := ycsb_key x (m\<lparr>msg_type := KV_MSG_GET, key_len := 16, value_len := 0\<rparr>)\<rparr>)
         | DEL \<Rightarrow> Inr (io\<lparr>io_msg := ycsb_key x (m\<lparr>msg_type := KV_MSG_DEL, key_len := 16, value_len := 0\<rparr>)\<rparr>)
         | TRANSACTION \<Rightarrow> do_transaction o1 x io
         | INIT \<Rightarrow> Inl Assert_fail)"

definition worker_of_key :: "bench_opt \<Rightarrow> kv_msg \<Rightarrow> u32" where
  "worker_of_key o1 m = ucast (drop_bit (64 - 3) (load_u64 (data m)) mod ucast (ssd_num o1))"

definition test_next :: "bench_opt \<Rightarrow> cl_input \<Rightarrow> nat \<Rightarrow> nat \<Rightarrow> bench \<Rightarrow> bench res" where
  "test_next o1 x i k c =
     rbind (next_request o1 (state c) x (io_buffers c ! i)) (\<lambda>io.
       if ssd_num o1 = 0 then Inl Div_by_zero
       else Inr (upd_producer k (\<lambda>p. p\<lparr>start_io := start_io p + 1\<rparr>)
              (upd_io i (\<lambda>_. io\<lparr>is_finished := True, worker_id := worker_of_key o1 (io_msg io)\<rparr>) c)))"

text \<open>A read is looked up in the cache first; the flag says that \<open>test\<close> calls itself.\<close>

definition test_read :: "bench_opt \<Rightarrow> cl_input \<Rightarrow> nat \<Rightarrow> bench \<Rightarrow> (bench \<times> bm_event list \<times> bool) res" where
  "test_read o1 x i c =
     (let io = io_buffers c ! i; m = (if opt_ditto o1 then cached_msg x (io_msg io) else io_msg io); ret = (if opt_ditto o1 then in_ret x else -1) in
      if state c = FILL then Inl Assert_fail
      else if ret \<noteq> 0 \<or> value_len m = 0 then
        Inr (upd_io i (\<lambda>io. io\<lparr>io_msg := m, ditto_fill := True\<rparr>) c, [Bm_send (worker_id io) (Io_start i)], False)
      else Inr (upd_io i (\<lambda>io. io\<lparr>io_msg := m, ditto_fill := False\<rparr>) c, [], True))"

definition test_issue :: "bench_opt \<Rightarrow> (nat \<Rightarrow> cl_input) \<Rightarrow> nat \<Rightarrow> nat \<Rightarrow> bench \<Rightarrow> (bench \<times> bm_event list \<times> bool) res" where
  "test_issue o1 inp i k c =
     (let x = inp (bm_clock c) in
      rbind (test_next o1 x i k (c\<lparr>bm_clock := Suc (bm_clock c)\<rparr>)) (\<lambda>c1.
        if msg_type (io_msg (io_buffers c1 ! i)) = KV_MSG_GET then test_read o1 x i c1
        else Inr (c1, [Bm_send (worker_id (io_buffers c1 ! i)) (Io_start i)], False)))"

definition test_retire :: "bench_opt \<Rightarrow> nat \<Rightarrow> bench \<Rightarrow> bench \<times> bm_event list" where
  "test_retire o1 k c =
     (let c1 = upd_producer k (\<lambda>p. p\<lparr>iocnt := iocnt p - 1\<rparr>) c
      in (c1, if iocnt (producers c1 ! k) = 0 then [Bm_send (ssd_num o1) Test_fini] else []))"

definition test_once :: "bench_opt \<Rightarrow> (nat \<Rightarrow> cl_input) \<Rightarrow> nat option \<Rightarrow> bench \<Rightarrow> (bench \<times> bm_event list \<times> bool) res" where
  "test_once o1 inp arg c =
     rbind (producer_of arg c) (\<lambda>k.
     rbind (case arg of
              Some i \<Rightarrow> if is_finished (io_buffers c ! i) then test_answer o1 i k c else Inr (c, [], False)
            | None \<Rightarrow> Inr (c, [], False)) (\<lambda>(c1, evs, ret).
       if ret then Inr (c1, evs, False)
       else if start_io (producers c1 ! k) = end_io (producers c1 ! k) then
         let (c2, evs') = test_retire o1 k c1 in Inr (c2, evs @ evs', False)
       else case arg of
              None \<Rightarrow> Inl Null_deref
            | Some i \<Rightarrow> rbind (test_issue o1 inp i k c1) (\<lambda>(c2, evs', again). Inr (c2, evs @ evs', again))))"

text \<open>Every call of \<open>test\<close> by itself follows an operation that has been issued.\<close>

definition test_measure :: "nat option \<times> bench \<Rightarrow> nat" where
  "test_measure = (\<lambda>(arg, c). case arg of None \<Rightarrow> 0 | Some i \<Rightarrow>
     let p = producers c ! unat (producer_id (io_buffers c ! i)) in unat (end_io p - start_io p))"

lemma bm_upd_simps [simp]:
  "io_buffers (upd_io i f c) = (io_buffers c)[i := f (io_buffers c ! i)]" "producers (upd_io i f c) = producers c"
  "state (upd_io i f c) = state c" "producer_cnt (upd_io i f c) = producer_cnt c"
  "producers (upd_producer k g c) = (producers c)[k := g (producers c ! k)]" "io_buffers (upd_producer k g c) = io_buffers c"
  "state (upd_producer k g c) = state c" "producer_cnt (upd_producer k g c) = producer_cnt c"
  by (simp_all add: upd_io_def upd_producer_def)

text \<open>What an event is for the machine of phases.\<close>

fun bm_kind :: "bm_event \<Rightarrow> ph_event option" where
  "bm_kind (Bm_send th (Test None)) = Some Null"
| "bm_kind (Bm_send th (Test (Some i))) = Some (Cont i)"
| "bm_kind (Bm_send th Test_fini) = Some Fini"
| "bm_kind (Bm_send th (Io_start i)) = Some (Cont i)"
| "bm_kind (Bm_send th (Worker_init i)) = Some Null"
| "bm_kind (Bm_set i w m) = Some (Cont i)"
| "bm_kind (Bm_get i w m) = Some (Cont i)"
| "bm_kind (Bm_delete i w m) = Some (Cont i)"
| "bm_kind _ = None"

definition bm_conts :: "bm_event list \<Rightarrow> ph_event list" where
  "bm_conts evs = List.map_filter bm_kind evs"

lemma bm_conts_simps [simp]:
  "bm_conts [] = []" "bm_conts (e # evs) = (case bm_kind e of None \<Rightarrow> bm_conts evs | Some i \<Rightarrow> i # bm_conts evs)"
  "bm_conts (xs @ ys) = bm_conts xs @ bm_conts ys"
  by (simp_all add: bm_conts_def List.map_filter_def split: option.splits)

text \<open>What an I/O of producer \<open>k\<close> leaves alone.\<close>

definition bm_frame :: "nat \<Rightarrow> nat \<Rightarrow> bench \<Rightarrow> bench \<Rightarrow> bool" where
  "bm_frame i k c c' \<longleftrightarrow>
     state c' = state c \<and> producer_cnt c' = producer_cnt c \<and>
     length (io_buffers c') = length (io_buffers c) \<and> length (producers c') = length (producers c) \<and>
     (\<forall>j. j \<noteq> i \<longrightarrow> io_buffers c' ! j = io_buffers c ! j) \<and> (\<forall>l. l \<noteq> k \<longrightarrow> producers c' ! l = producers c ! l) \<and>
     producer_id (io_buffers c' ! i) = producer_id (io_buffers c ! i) \<and>
     end_io (producers c' ! k) = end_io (producers c ! k)"

lemma bm_frame_refl: "bm_frame i k c c"
  by (simp add: bm_frame_def)

lemma bm_frame_trans: "bm_frame i k c c' \<Longrightarrow> bm_frame i k c' c'' \<Longrightarrow> bm_frame i k c c''"
  by (simp add: bm_frame_def)

lemma bm_answer_effect:
  assumes "test_answer o1 i k c = Inr (c1, evs, ret)" and "i < length (io_buffers c)"
  shows "bm_frame i k c c1 \<and> producers c1 = producers c \<and> bm_conts evs = (if ret then [Cont i] else [])"
  using assms by (auto simp: test_answer_def cache_answer_def Let_def res_simps bm_frame_def split: if_splits)

lemma bm_request_frame: "next_request o1 ph x io = Inr io' \<Longrightarrow> producer_id io' = producer_id io"
  by (auto simp: next_request_def do_transaction_def Let_def split: cl_phase.splits kv_ycsb_operation.splits)

lemma bm_issue_effect:
  assumes "test_issue o1 inp i k c = Inr (c1, evs, again)" and "i < length (io_buffers c)" and "k < length (producers c)"
  shows "bm_frame i k c c1 \<and> bm_conts evs = (if again then [] else [Cont i]) \<and> iocnt (producers c1 ! k) = iocnt (producers c ! k) \<and>
    start_io (producers c1 ! k) = start_io (producers c ! k) + 1"
  using assms by (auto simp: test_issue_def test_next_def test_read_def Let_def res_simps bm_frame_def dest: bm_request_frame split: if_splits)

lemma bm_retire_effect:
  assumes "test_retire o1 k c = (c1, evs)" and "k < length (producers c)"
  shows "bm_frame i k c c1 \<and> io_buffers c1 = io_buffers c \<and> start_io (producers c1 ! k) = start_io (producers c ! k) \<and>
    iocnt (producers c1 ! k) = iocnt (producers c ! k) - 1 \<and> bm_conts evs = (if iocnt (producers c1 ! k) = 0 then [Fini] else [])"
  using assms by (auto simp: test_retire_def Let_def bm_frame_def)

lemma bm_once_effect:
  assumes t: "test_once o1 inp (Some i) c = Inr (c1, evs, again)"
  defines "k \<equiv> unat (producer_id (io_buffers c ! i))"
  defines "p \<equiv> producers c ! k" and "p1 \<equiv> producers c1 ! k"
  shows "i < length (io_buffers c) \<and> k < length (producers c) \<and> bm_frame i k c c1 \<and>
    (if again then start_io p \<noteq> end_io p \<and> iocnt p1 = iocnt p \<and> bm_conts evs = [] \<and> start_io p1 = start_io p + 1
     else if bm_conts evs \<noteq> [Cont i] then start_io p = end_io p \<and> start_io p1 = start_io p \<and> iocnt p1 = iocnt p - 1 \<and>
       bm_conts evs = (if iocnt p1 = 0 then [Fini] else [])
     else iocnt p1 = iocnt p \<and> (start_io p1 = start_io p \<or> start_io p \<noteq> end_io p \<and> start_io p1 = start_io p + 1))"
proof -
  have pk: "producer_of (Some i) c = Inr k" "i < length (io_buffers c)" "k < length (producers c)"
    using t by (auto simp: test_once_def producer_of_def k_def Let_def split: if_splits)
  obtain c0 ev0 ret where a: "(if is_finished (io_buffers c ! i) then test_answer o1 i k c else Inr (c, [], False)) = Inr (c0, ev0, ret)"
    using t pk(1) by (auto simp: test_once_def res_simps split: prod.splits if_splits)
  have A: "bm_frame i k c c0" "producers c0 = producers c" "bm_conts ev0 = (if ret then [Cont i] else [])"
    using a bm_answer_effect[of o1 i k c c0 ev0 ret] pk bm_frame_refl by (auto split: if_splits)
  have e0: "i < length (io_buffers c0)" "k < length (producers c0)" using A(1) pk by (simp_all add: bm_frame_def)
  consider (rmw) "ret" "c1 = c0" "evs = ev0" "\<not> again"
    | (retire) ev2 where "\<not> ret" "start_io p = end_io p" "test_retire o1 k c0 = (c1, ev2)" "evs = ev0 @ ev2" "\<not> again"
    | (issue) ev2 where "\<not> ret" "start_io p \<noteq> end_io p" "test_issue o1 inp i k c0 = Inr (c1, ev2, again)" "evs = ev0 @ ev2"
    using t pk(1) a A(2) by (auto simp: test_once_def p_def res_simps split: prod.splits if_splits)
  then show ?thesis
  proof cases
    case rmw
    then show ?thesis using A pk by (simp add: p1_def p_def)
  next
    case retire
    then show ?thesis using A pk bm_retire_effect[OF retire(3) e0(2), of i] bm_frame_trans[OF A(1)] by (auto simp: p1_def p_def)
  next
    case issue
    then show ?thesis using A pk bm_issue_effect[OF issue(3) e0] bm_frame_trans[OF A(1)] by (auto simp: p1_def p_def)
  qed
qed

lemma bm_once_null: "test_once o1 inp None c = Inr (c1, evs, again) \<Longrightarrow> \<not> again"
  by (auto simp: test_once_def res_simps split: if_splits prod.splits)

lemma bm_measure_decreases:
  assumes "test_once o1 inp arg c = Inr (c1, evs, True)"
  shows "test_measure (arg, c1) < test_measure (arg, c)"
proof (cases arg)
  case None
  then show ?thesis using bm_once_null assms by blast
next
  case (Some i)
  let ?k = "unat (producer_id (io_buffers c ! i))"
  let ?p = "producers c ! ?k" and ?p1 = "producers c1 ! ?k"
  note E = bm_once_effect[OF assms[unfolded Some], simplified]
  have same: "producer_id (io_buffers c1 ! i) = producer_id (io_buffers c ! i)" "end_io ?p1 = end_io ?p"
    using E by (simp_all add: bm_frame_def)
  have "unat (end_io ?p - (start_io ?p + 1)) < unat (end_io ?p - start_io ?p)" using E by (intro unat_distance_less) auto
  then show ?thesis using E same unfolding Some test_measure_def by (simp add: Let_def)
qed

function test :: "bench_opt \<Rightarrow> (nat \<Rightarrow> cl_input) \<Rightarrow> nat option \<Rightarrow> bench \<Rightarrow> (bench \<times> bm_event list) res" where
  "test o1 inp arg c =
     (case test_once o1 inp arg c of
        Inl e \<Rightarrow> Inl e
      | Inr (c1, evs, again) \<Rightarrow>
          if again then rbind (test o1 inp arg c1) (\<lambda>(c2, evs'). Inr (c2, evs @ evs')) else Inr (c1, evs))"
  by pat_completeness auto
termination
  by (relation "measure (\<lambda>(o1, inp, arg, c). test_measure (arg, c))") (use bm_measure_decreases in auto)

section \<open>Phases\<close>

definition work_phase :: "bench_opt \<Rightarrow> cl_phase" where
  "work_phase o1 = (if opt_del o1 then DEL else if seq_read o1 then SEQ_READ else if seq_write o1 then SEQ_WRITE else TRANSACTION)"

definition start_producer :: "bench_opt \<Rightarrow> u64 \<Rightarrow> u64 \<Rightarrow> u32 \<Rightarrow> nat \<Rightarrow> bench \<times> bm_event list \<Rightarrow> bench \<times> bm_event list" where
  "start_producer o1 q cnt ipr k ce =
     (let i = word_of_nat k :: u64; js = [unat (i * cnt)..<unat ((i + 1) * cnt)];
          c1 = upd_producer k (\<lambda>p. p\<lparr>io_per_record := ipr, iocnt := cnt, start_io := i * q, end_io := (i + 1) * q\<rparr>) (fst ce);
          c2 = fold (\<lambda>j. upd_io j (\<lambda>io. io\<lparr>producer_id := word_of_nat k\<rparr>)) js c1
      in (c2, snd ce @ map (\<lambda>j. Bm_send (ssd_num o1 + word_of_nat k) (Test (Some j))) js))"

definition start_phase :: "bench_opt \<Rightarrow> bench \<Rightarrow> (bench \<times> bm_event list) res" where
  "start_phase o1 c =
     (if producer_num o1 = 0 then Inl Div_by_zero
      else
        let ipr = ceil_records (total_io c); q = total_io c div ucast (producer_num o1);
            cnt = ucast (concurrent_io_num o1 div producer_num o1); n = unat (producer_num o1);
            c0 = c\<lparr>io_buffers := map (\<lambda>io. io\<lparr>is_finished := False\<rparr>) (io_buffers c), record_io := ipr\<rparr>;
            (c1, evs) = fold (start_producer o1 q cnt ipr) [0..<n] (c0, [])
        in Inr (upd_producer (n - 1) (\<lambda>p. p\<lparr>end_io := total_io c\<rparr>) c1, evs))"

text \<open>The buffers are freed before the threads are told to stop.\<close>

definition stop :: "bench_opt \<Rightarrow> bench \<Rightarrow> bench \<times> bm_event list" where
  "stop o1 c =
     (c\<lparr>io_buffers := []\<rparr>,
      map Bm_free [0..<unat (concurrent_io_num o1)] @ map (\<lambda>i. Bm_send (word_of_nat i) (Worker_stop i)) [0..<unat (ssd_num o1)] @
      map (\<lambda>i. Bm_send (ssd_num o1 + word_of_nat i) Producer_stop) [0..<unat (producer_num o1)])"

definition worker_stop :: "nat \<Rightarrow> bm_event list" where
  "worker_stop i = [Bm_store_fini i, Bm_app_stop]"

definition producer_stop :: "bm_event list" where
  "producer_stop = [Bm_app_stop]"

text \<open>\<open>mem\<close> is the memory that the allocator returns for the messages; it is not zeroed.\<close>

definition alloc_buffers :: "bench_opt \<Rightarrow> (nat \<Rightarrow> kv_msg) \<Rightarrow> io_buffer_t list" where
  "alloc_buffers o1 mem =
     map (\<lambda>i. \<lparr>worker_id = 0, producer_id = 0, io_msg = mem i, read_modify_write = False, is_finished = False, ditto_fill = False\<rparr>)
       [0..<unat (concurrent_io_num o1)]"

text \<open>\<open>block_size\<close> is that of the first storage; the reports of latencies are left out.\<close>

definition test_fini :: "bench_opt \<Rightarrow> u32 \<Rightarrow> (nat \<Rightarrow> kv_msg) \<Rightarrow> bench \<Rightarrow> (bench \<times> bm_event list) res" where
  "test_fini o1 block_size mem c =
     (let n = producer_cnt c - 1 in
      if n \<noteq> 0 then Inr (c\<lparr>producer_cnt := n\<rparr>, [])
      else if total_io c \<noteq> 0 \<and> record_io c = 0 then Inl Div_by_zero
      else
        let c1 = c\<lparr>producer_cnt := producer_num o1\<rparr>; sz = unat (value_size o1) + unat sizeof_kv_msg + 16 + unat block_size in
        case state c of
          INIT \<Rightarrow>
            rbind (start_phase o1
                (let c2 = c1\<lparr>io_buffers := alloc_buffers o1 mem\<rparr> in
                 if opt_fill o1 then c2\<lparr>total_io := num_items o1, state := FILL\<rparr>
                 else c2\<lparr>state := work_phase o1, total_io := operation_cnt o1\<rparr>)) (\<lambda>(c3, evs).
              Inr (c3, replicate (unat (concurrent_io_num o1)) (Bm_malloc sz) @ evs))
        | FILL \<Rightarrow> start_phase o1 (c1\<lparr>state := work_phase o1, total_io := operation_cnt o1\<rparr>)
        | _ \<Rightarrow> Inr (stop o1 c1))"

text \<open>The size of the value log is a product in floating point and left out.\<close>

definition worker_init :: "bench_opt \<Rightarrow> nat \<Rightarrow> bm_event list res" where
  "worker_init o1 i =
     (if ssd_num o1 = 0 then Inl Div_by_zero
      else
        let bucket_num = ucast (num_items o1 div word_of_nat KV_ITEM_PER_BUCKET div ucast (ssd_num o1)) :: u32 in
        rbind (shrink_log_bucket_num (unat (num_items o1) div KV_ITEM_PER_BUCKET) 48) (\<lambda>log.
          Inr [Bm_store_init i bucket_num (log + 1), Bm_send (ssd_num o1) (Test None)]))"

definition bench_main :: "bench_opt \<Rightarrow> bench \<times> bm_event list" where
  "bench_main o1 =
     (\<lparr>state = INIT,
       producers = (replicate (unat (producer_num o1)) \<lparr>start_io = 0, end_io = 0, iocnt = 0, io_per_record = 0\<rparr>)
         [0 := \<lparr>start_io = 0, end_io = 0, iocnt = ucast (ssd_num o1), io_per_record = 0\<rparr>],
       io_buffers = [], total_io = 0, record_io = 0, producer_cnt = 1, bm_clock = 0\<rparr>,
      map (\<lambda>i. Bm_send (word_of_nat i) (Worker_init i)) [0..<unat (ssd_num o1)])"

end
