(* ===== verification/Benchmark_Phases.thy ===== *)
theory Benchmark_Phases
  imports Ycsb_Benchmark
begin

unbundle bit_operations_syntax

text \<open>
  The phases of the benchmark, with the same argument as for the client: every step of the
  program is a step of the machine of \<open>Load_Phases\<close>.
\<close>

section \<open>The effect of an I/O step\<close>

definition io_owner :: "bench \<Rightarrow> nat \<Rightarrow> nat" where
  "io_owner c i = unat (producer_id (io_buffers c ! i))"

definition bm_view :: "bench \<Rightarrow> ph_state" where
  "bm_view c = \<lparr>ph_idle = (state c = INIT), ph_cnt = (\<lambda>k. iocnt (producers c ! k)), ph_from = (\<lambda>k. start_io (producers c ! k)),
     ph_to = (\<lambda>k. end_io (producers c ! k)), ph_owner = io_owner c, ph_reports = producer_cnt c\<rparr>"

lemma bm_view_simps [simp]:
  "ph_cnt (bm_view c) k = iocnt (producers c ! k)" "ph_from (bm_view c) k = start_io (producers c ! k)"
  "ph_to (bm_view c) k = end_io (producers c ! k)" "ph_owner (bm_view c) i = io_owner c i" "ph_reports (bm_view c) = producer_cnt c"
  "ph_idle (bm_view c) = (state c = INIT)"
  by (simp_all add: bm_view_def)

definition io_share :: "bench_opt \<Rightarrow> nat" where
  "io_share o1 = unat (concurrent_io_num o1) div unat (producer_num o1)"

lemma bm_share_le: "unat (producer_num o1) * io_share o1 \<le> unat (concurrent_io_num o1)"
  by (simp add: io_share_def)

text \<open>The buffers exist from the end of the initialisation on; the last phase frees them.\<close>

definition bm_sized :: "bench_opt \<Rightarrow> bench \<Rightarrow> bool" where
  "bm_sized o1 c \<longleftrightarrow> length (producers c) = unat (producer_num o1) \<and> (state c = FILL \<longrightarrow> length (io_buffers c) = unat (concurrent_io_num o1))"

definition bm_effect :: "nat \<Rightarrow> bench \<Rightarrow> bench \<Rightarrow> bm_event list \<Rightarrow> bool" where
  "bm_effect i c c' evs \<longleftrightarrow> ph_effect i (bm_view c) (bm_view c') (bm_conts evs) \<and> state c' = state c \<and> (\<forall>j. j \<noteq> i \<longrightarrow> io_buffers c' ! j = io_buffers c ! j) \<and>
     length (producers c') = length (producers c) \<and> length (io_buffers c') = length (io_buffers c)"

lemma bm_frame_view:
  assumes "bm_frame i k c c'"
  shows "ph_frame k (bm_view c) (bm_view c')"
proof -
  have "ph_owner (bm_view c') j = ph_owner (bm_view c) j" for j using assms by (cases "j = i") (simp_all add: bm_frame_def io_owner_def)
  moreover have "ph_to (bm_view c') l = ph_to (bm_view c) l" for l using assms by (cases "l = k") (simp_all add: bm_frame_def)
  ultimately show ?thesis using assms by (auto simp: ph_frame_def bm_frame_def simp del: bm_view_simps(3,4))
qed

lemma bm_once_pass:
  assumes "test_once o1 inp (Some i) c = Inr (c1, evs, again)"
  shows "ph_pass i (bm_view c) (bm_view c1) (bm_conts evs) again"
  using bm_once_effect[OF assms] bm_frame_view[of i _ c c1] by (auto simp: ph_pass_def Let_def io_owner_def split: if_splits)

lemma bm_test_effect: "test o1 inp (Some i) c = Inr (c', evs) \<Longrightarrow> bm_effect i c c' evs"
proof (induction o1 inp "Some i" c arbitrary: c' evs rule: test.induct)
  case (1 o1 inp c)
  obtain c1 ev1 again where t: "test_once o1 inp (Some i) c = Inr (c1, ev1, again)"
    using 1(2) by (simp split: sum.splits prod.splits)
  have len: "length (producers c1) = length (producers c)" "length (io_buffers c1) = length (io_buffers c)" "state c1 = state c"
    "\<forall>j. j \<noteq> i \<longrightarrow> io_buffers c1 ! j = io_buffers c ! j"
    using bm_once_effect[OF t] by (simp_all add: bm_frame_def)
  note pass = bm_once_pass[OF t]
  show ?case
  proof (cases again)
    case False
    then show ?thesis using 1(2) t len pass ph_pass_effect by (simp add: bm_effect_def)
  next
    case True
    obtain ev2 where r: "test o1 inp (Some i) c1 = Inr (c', ev2)" "evs = ev1 @ ev2"
      using 1(2) t True by (auto simp: res_simps)
    have "bm_effect i c1 c' ev2" using 1(1)[OF t refl refl True r(1)] .
    then show ?thesis using pass True ph_pass_again len r(2) by (simp add: bm_effect_def)
  qed
qed

lemma bm_same_view_effect: "bm_view c' = bm_view c \<Longrightarrow> state c' = state c \<Longrightarrow> (\<And>j. j \<noteq> i \<Longrightarrow> io_buffers c' ! j = io_buffers c ! j) \<Longrightarrow> length (producers c') = length (producers c) \<Longrightarrow>
    length (io_buffers c') = length (io_buffers c) \<Longrightarrow> bm_conts evs = [Cont i] \<Longrightarrow> bm_effect i c c' evs"
  by (simp add: bm_effect_def ph_effect_refl)

lemma bm_upd_io_view: "(\<And>io. producer_id (f io) = producer_id io) \<Longrightarrow> bm_view (upd_io i f c) = bm_view c"
proof (rule ph_state_eqI)
  assume "\<And>io. producer_id (f io) = producer_id io"
  then show "ph_owner (bm_view (upd_io i f c)) j = ph_owner (bm_view c) j" for j
    by (cases "j = i"; cases "i < length (io_buffers c)") (simp_all add: io_owner_def list_update_beyond)
qed simp_all

lemma bm_fini_effect: "io_fini o1 success i c = Inr (c', evs) \<Longrightarrow> bm_effect i c c' evs"
  by (rule bm_same_view_effect) (auto simp: io_fini_def Let_def bm_upd_io_view split: if_splits)

lemma bm_null_retire_sim:
  assumes t: "test o1 inp None c = Inr (c', evs)"
  shows "ph_step n r (bm_view c, add_mset Null Q) (bm_view c', mset (bm_conts evs) + Q)" and "bm_frame i 0 c c'"
    and "io_buffers c' = io_buffers c" and "Cont j \<notin> set (bm_conts evs)"
proof -
  obtain c1 ev1 again where o: "test_once o1 inp None c = Inr (c1, ev1, again)" using t by (simp split: sum.splits prod.splits)
  then have na: "\<not> again" by (rule bm_once_null)
  then have c': "c1 = c'" "ev1 = evs" using t o by simp_all
  have n: "0 < length (producers c)" and se: "start_io (producers c ! 0) = end_io (producers c ! 0)" and ret: "test_retire o1 0 c = (c', evs)"
    using o by (auto simp: test_once_def producer_of_def c' res_simps split: if_splits prod.splits)
  note E = bm_retire_effect[OF ret n]
  show "io_buffers c' = io_buffers c" and "Cont j \<notin> set (bm_conts evs)" using E by (simp_all split: if_splits)
  show "bm_frame i 0 c c'" using E by blast
  then show "ph_step n r (bm_view c, add_mset Null Q) (bm_view c', mset (bm_conts evs) + Q)"
    using E se by (intro ph_null_sim) (auto intro: bm_frame_view)
qed

text \<open>A message that is sent to a worker holds a request.\<close>

definition is_request :: "bench \<Rightarrow> bm_event \<Rightarrow> bool" where
  "is_request c e \<longleftrightarrow> (case e of Bm_send th (Io_start i) \<Rightarrow> msg_type (io_msg (io_buffers c ! i)) \<in> {KV_MSG_SET, KV_MSG_GET, KV_MSG_DEL} | _ \<Rightarrow> True)"

lemma is_request_simps [simp]:
  "is_request c (Bm_send th (Io_start i)) \<longleftrightarrow> msg_type (io_msg (io_buffers c ! i)) \<in> {KV_MSG_SET, KV_MSG_GET, KV_MSG_DEL}"
  "is_request c (Bm_send th (Test arg))" "is_request c (Bm_send th Test_fini)" "is_request c (Bm_cache_set q m l)"
  by (simp_all add: is_request_def)

lemma request_type:
  "next_request o1 ph x io = Inr io' \<Longrightarrow> msg_type (io_msg io') \<in> {KV_MSG_SET, KV_MSG_GET, KV_MSG_DEL}"
  by (auto simp: next_request_def do_transaction_def Let_def ycsb_key_def ycsb_value_def split: cl_phase.splits kv_ycsb_operation.splits)

lemma answer_requests: "test_answer o1 i k c = Inr (c1, evs, ret) \<Longrightarrow> i < length (io_buffers c) \<Longrightarrow> list_all (is_request c1) evs"
  by (auto simp: test_answer_def cache_answer_def Let_def res_simps split: if_splits)

lemma issue_requests: "test_issue o1 inp i k c = Inr (c1, evs, again) \<Longrightarrow> i < length (io_buffers c) \<Longrightarrow> list_all (is_request c1) evs"
  by (auto simp: test_issue_def test_next_def test_read_def cached_msg_def Let_def res_simps dest: request_type split: if_splits)

lemma quiet_requests: "(\<And>i. Cont i \<notin> set (bm_conts evs)) \<Longrightarrow> list_all (is_request c) evs"
proof (induction evs)
  case (Cons e evs)
  have "Cont i \<notin> set (bm_conts evs)" "bm_kind e \<noteq> Some (Cont i)" for i using Cons.prems[of i] by (auto split: option.splits)
  then show ?case using Cons.IH by (cases e rule: bm_kind.cases) (auto simp: is_request_def)
qed simp

lemma once_requests:
  assumes t: "test_once o1 inp (Some i) c = Inr (c1, evs, again)"
  shows "list_all (is_request c1) evs"
proof -
  have i: "i < length (io_buffers c)" using bm_once_effect[OF t] by simp
  obtain k c0 ev0 ret where k: "producer_of (Some i) c = Inr k"
    and a: "(if is_finished (io_buffers c ! i) then test_answer o1 i k c else Inr (c, [], False)) = Inr (c0, ev0, ret)"
    and r: "(if ret then Inr (c0, ev0, False)
       else if start_io (producers c0 ! k) = end_io (producers c0 ! k) then let (c2, evs') = test_retire o1 k c0 in Inr (c2, ev0 @ evs', False)
       else rbind (test_issue o1 inp i k c0) (\<lambda>(c2, evs', again). Inr (c2, ev0 @ evs', again))) = Inr (c1, evs, again)"
    using t unfolding test_once_def rbind_eq_Inr_iff option.case by (auto split: prod.splits)
  have q: "ret \<or> bm_conts ev0 = []" "i < length (io_buffers c0)" "list_all (is_request c0) ev0"
    using a i bm_answer_effect[of o1 i k c c0 ev0 ret] answer_requests[of o1 i k c c0 ev0 ret] by (auto simp: bm_frame_def split: if_splits)
  show ?thesis using r q issue_requests[of o1 inp i k c0] quiet_requests[of ev0]
    by (auto simp: test_retire_def Let_def res_simps split: if_splits)
qed

lemma test_requests: "test o1 inp (Some i) c = Inr (c', evs) \<Longrightarrow> list_all (is_request c') evs"
proof (induction o1 inp "Some i" c arbitrary: c' evs rule: test.induct)
  case (1 o1 inp c)
  obtain c1 ev1 again where t: "test_once o1 inp (Some i) c = Inr (c1, ev1, again)"
    using 1(2) by (simp split: sum.splits prod.splits)
  show ?case
  proof (cases again)
    case False
    then show ?thesis using 1(2) t once_requests[OF t] by simp
  next
    case True
    obtain ev2 where r: "test o1 inp (Some i) c1 = Inr (c', ev2)" "evs = ev1 @ ev2"
      using 1(2) t True by (auto simp: res_simps)
    have "list_all (is_request c') ev2" using 1(1)[OF t refl refl True r(1)] .
    moreover have "bm_conts ev1 = []" using bm_once_effect[OF t] True by simp
    ultimately show ?thesis using quiet_requests r(2) by simp
  qed
qed

section \<open>The start of a phase\<close>

lemma bm_fold_upd_io:
  "length (io_buffers (fold (\<lambda>j. upd_io j f) js c)) = length (io_buffers c)" "producers (fold (\<lambda>j. upd_io j f) js c) = producers c"
  "state (fold (\<lambda>j. upd_io j f) js c) = state c" "producer_cnt (fold (\<lambda>j. upd_io j f) js c) = producer_cnt c"
  by (induction js arbitrary: c) simp_all

lemma bm_fold_upd_io_nth:
  assumes "set js \<subseteq> {..<length (io_buffers c)}" and "\<And>io. f (f io) = f io"
  shows "io_buffers (fold (\<lambda>j. upd_io j f) js c) ! j = (if j \<in> set js then f (io_buffers c ! j) else io_buffers c ! j)"
  using assms(1)
proof (induction js arbitrary: c)
  case (Cons a js)
  then show ?case using assms(2) by (cases "a = j") auto
qed simp

lemma bm_start_producer_view:
  fixes q :: u64 and ipr :: u32 and evs :: "bm_event list" and o1 :: bench_opt
  assumes k: "k < length (producers c)" "k < 2 ^ 32" and b: "unat ((word_of_nat k + 1) * cnt) \<le> length (io_buffers c)"
  defines "ce \<equiv> start_producer o1 q cnt ipr k (c, evs)"
  shows "bm_view (fst ce) = ph_begin cnt q k (bm_view c)" and "length (producers (fst ce)) = length (producers c)"
    and "length (io_buffers (fst ce)) = length (io_buffers c)"
    and "bm_conts (snd ce) = bm_conts evs @ map Cont [unat (word_of_nat k * cnt)..<unat ((word_of_nat k + 1) * cnt)]"
proof -
  let ?js = "[unat (word_of_nat k * cnt)..<unat ((word_of_nat k + 1) * cnt)]"
  let ?f = "\<lambda>io. io\<lparr>producer_id := word_of_nat k\<rparr>"
  let ?c1 = "upd_producer k (\<lambda>p. p\<lparr>io_per_record := ipr, iocnt := cnt, start_io := word_of_nat k * q, end_io := (word_of_nat k + 1) * q\<rparr>) c"
  have ce: "ce = (fold (\<lambda>j. upd_io j ?f) ?js ?c1, evs @ map (\<lambda>j. Bm_send (ssd_num o1 + word_of_nat k) (Test (Some j))) ?js)"
    by (simp add: ce_def start_producer_def Let_def)
  have nth: "io_buffers (fst ce) ! j = (if j \<in> set ?js then ?f (io_buffers c ! j) else io_buffers c ! j)" for j
    unfolding ce fst_conv using b by (subst bm_fold_upd_io_nth) auto
  have k32: "unat (word_of_nat k :: u32) = k" using k(2) by (simp add: unat_of_nat take_bit_eq_mod)
  have "io_owner (fst ce) j = (if unat (word_of_nat k * cnt) \<le> j \<and> j < unat ((word_of_nat k + 1) * cnt) then k else io_owner c j)" for j
    unfolding io_owner_def nth using k32 by auto
  then show "bm_view (fst ce) = ph_begin cnt q k (bm_view c)"
    unfolding ph_begin_def Let_def using k(1) by (intro ph_state_eqI) (auto simp: ce bm_fold_upd_io nth_list_update)
  show "length (producers (fst ce)) = length (producers c)" "length (io_buffers (fst ce)) = length (io_buffers c)" by (simp_all add: ce bm_fold_upd_io)
  show "bm_conts (snd ce) = bm_conts evs @ map Cont ?js" by (simp add: ce bm_conts_def List.map_filter_def comp_def)
qed

lemma bm_start_producers_view:
  fixes q :: u64 and ipr :: u32 and o1 :: bench_opt
  assumes "m \<le> length (producers c)" and "m * unat cnt \<le> length (io_buffers c)" and "m * unat cnt < 2 ^ 32" and "m < 2 ^ 32"
  defines "ce \<equiv> fold (start_producer o1 q cnt ipr) [0..<m] (c, [])"
  shows "bm_view (fst ce) = fold (ph_begin cnt q) [0..<m] (bm_view c) \<and> length (producers (fst ce)) = length (producers c) \<and>
    length (io_buffers (fst ce)) = length (io_buffers c) \<and> bm_conts (snd ce) = map Cont [0..<m * unat cnt]"
  using assms(1-4) unfolding ce_def
proof (induction m)
  case (Suc m)
  let ?ce = "fold (start_producer o1 q cnt ipr) [0..<m] (c, [])"
  have IH: "bm_view (fst ?ce) = fold (ph_begin cnt q) [0..<m] (bm_view c)" "length (producers (fst ?ce)) = length (producers c)"
    "length (io_buffers (fst ?ce)) = length (io_buffers c)" "bm_conts (snd ?ce) = map Cont [0..<m * unat cnt]" using Suc by simp_all
  have b: "unat ((word_of_nat m :: u64) * cnt) = m * unat cnt" "unat (((word_of_nat m :: u64) + 1) * cnt) = (m + 1) * unat cnt"
    using producer_bounds[of m cnt] Suc.prems by (simp_all add: add.commute)
  have up: "[0..<Suc m * unat cnt] = [0..<m * unat cnt] @ [m * unat cnt..<Suc m * unat cnt]"
    using upt_add_eq_append[of 0 "m * unat cnt" "unat cnt"] by (simp add: add.commute)
  have m: "m < length (producers (fst ?ce))" "m < 2 ^ 32" "unat ((word_of_nat m + 1) * cnt) \<le> length (io_buffers (fst ?ce))"
    using Suc.prems IH b by simp_all
  show ?case using bm_start_producer_view[OF m, of o1 q ipr "snd ?ce"] IH b up by (simp del: mult_Suc)
qed simp

lemma bm_start_phase_view:
  assumes sz: "length (producers c) = unat (producer_num o1)" "length (io_buffers c) = unat (concurrent_io_num o1)" and n: "0 < unat (producer_num o1)"
  shows "\<exists>c' evs. start_phase o1 c = Inr (c', evs) \<and>
    length (producers c') = unat (producer_num o1) \<and> length (io_buffers c') = unat (concurrent_io_num o1) \<and>
    (\<exists>s. ph_idle s = (state c = INIT) \<and> ph_reports s = producer_cnt c \<and>
       bm_view c' = ph_begin_all (producer_num o1) (ucast (concurrent_io_num o1 div producer_num o1)) (total_io c) s) \<and>
    bm_conts evs = map Cont [0..<unat (producer_num o1) * io_share o1]"
proof -
  let ?n = "unat (producer_num o1)" and ?ipr = "ceil_records (total_io c)"
  let ?q = "total_io c div ucast (producer_num o1)" and ?cnt = "ucast (concurrent_io_num o1 div producer_num o1) :: u64"
  let ?c0 = "c\<lparr>io_buffers := map (\<lambda>io. io\<lparr>is_finished := False\<rparr>) (io_buffers c), record_io := ?ipr\<rparr>"
  let ?ce = "fold (start_producer o1 ?q ?cnt ?ipr) [0..<?n] (?c0, [])"
  have cnt: "unat ?cnt = io_share o1" by (simp add: io_share_def unsigned_ucast_eq unat_div)
  have le: "?n * unat ?cnt \<le> length (io_buffers ?c0)" "?n * unat ?cnt < 2 ^ 32" "?n \<le> length (producers ?c0)"
    using bm_share_le[of o1] sz unat_bound_32[of "concurrent_io_num o1"] unfolding cnt by simp_all
  obtain c1 evs where f: "?ce = (c1, evs)" by fastforce
  note S = bm_start_producers_view[OF le(3,1,2) unat_bound_32, of o1 ?q ?ipr, unfolded f fst_conv snd_conv]
  let ?c' = "upd_producer (?n - 1) (\<lambda>p. p\<lparr>end_io := total_io c\<rparr>) c1"
  have len: "length (producers c1) = ?n" "length (io_buffers c1) = unat (concurrent_io_num o1)" using S sz by simp_all
  have "bm_view ?c' = (bm_view c1)\<lparr>ph_to := (ph_to (bm_view c1))(?n - 1 := total_io c)\<rparr>"
    using len n by (intro ph_state_eqI) (auto simp: io_owner_def nth_list_update)
  then have v: "bm_view ?c' = ph_begin_all (producer_num o1) ?cnt (total_io c) (bm_view ?c0)"
    using S by (simp add: ph_begin_all_def Let_def)
  have "start_phase o1 c = Inr (?c', evs)"
    unfolding start_phase_def Let_def f using n by auto
  moreover have "bm_conts evs = map Cont [0..<?n * io_share o1]" using S cnt by simp
  moreover have "\<exists>s. ph_idle s = (state c = INIT) \<and> ph_reports s = producer_cnt c \<and>
      bm_view ?c' = ph_begin_all (producer_num o1) ?cnt (total_io c) s"
    by (rule exI[of _ "bm_view ?c0"], intro conjI, simp, simp, rule v)
  moreover have "length (producers ?c') = ?n" "length (io_buffers ?c') = unat (concurrent_io_num o1)" by (simp_all add: len)
  ultimately show ?thesis by blast
qed

lemma bm_start_phase_sim:
  assumes c: "length (producers c) = unat (producer_num o1)" "length (io_buffers c) = unat (concurrent_io_num o1)" "producer_cnt c = producer_num o1" "state c \<noteq> INIT"
    and n: "0 < unat (producer_num o1)" "unat (producer_num o1) \<le> unat (concurrent_io_num o1)"
    and one: "ph_reports s0 - 1 = 0" and t: "start_phase o1 c = Inr (c', evs)"
  shows "ph_step (unat (producer_num o1)) (io_share o1) (s0, add_mset Fini Q) (bm_view c', mset (bm_conts evs) + Q) \<and> bm_sized o1 c'"
proof -
  let ?n = "unat (producer_num o1)" and ?r = "io_share o1" and ?cnt = "ucast (concurrent_io_num o1 div producer_num o1) :: u64"
  have cnt: "unat ?cnt = ?r" by (simp add: io_share_def unsigned_ucast_eq unat_div)
  have r: "0 < ?r" "?n * ?r < 2 ^ 32"
    using n le_less_trans[OF bm_share_le unat_bound_32] by (simp_all add: io_share_def div_greater_zero_iff)
  obtain s where v: "\<not> ph_idle s" "ph_reports s = producer_num o1" "bm_view c' = ph_begin_all (producer_num o1) ?cnt (total_io c) s"
    "bm_conts evs = map Cont [0..<?n * ?r]" "bm_sized o1 c'"
    using bm_start_phase_view[OF c(1,2) n(1)] t c(3,4) by (auto simp: bm_sized_def)
  have "ph_started ?n ?r (bm_view c')" using ph_begin_all_started[OF n(1), of ?cnt] v(1-3) r unfolding cnt by simp
  then show ?thesis using v(4,5) ph_start[OF one, of ?n ?r "bm_view c'" Q] by simp
qed

section \<open>Runs\<close>

text \<open>A read of the data store may leave any value and length in the message.\<close>

definition got_value :: "u32 \<Rightarrow> u8 list \<Rightarrow> io_buffer_t \<Rightarrow> io_buffer_t" where
  "got_value l d io = io\<lparr>io_msg := (io_msg io)\<lparr>value_len := l, data := d\<rparr>\<rparr>"

inductive bm_step :: "bench_opt \<Rightarrow> (nat \<Rightarrow> cl_input) \<Rightarrow> u32 \<Rightarrow> (nat \<Rightarrow> kv_msg) \<Rightarrow>
    bench \<times> bm_event multiset \<Rightarrow> bench \<times> bm_event multiset \<Rightarrow> bool" for o1 inp bsz mem where
  bm_step_test: "test o1 inp arg c = Inr (c', evs) \<Longrightarrow> bm_step o1 inp bsz mem (c, add_mset (Bm_send th (Test arg)) P) (c', mset evs + P)"
| bm_step_fini: "test_fini o1 bsz mem c = Inr (c', evs) \<Longrightarrow> bm_step o1 inp bsz mem (c, add_mset (Bm_send th Test_fini) P) (c', mset evs + P)"
| bm_step_io_start: "io_start i c = Inr evs \<Longrightarrow> bm_step o1 inp bsz mem (c, add_mset (Bm_send th (Io_start i)) P) (c, mset evs + P)"
| bm_step_set: "io_fini o1 success i c = Inr (c', evs) \<Longrightarrow> bm_step o1 inp bsz mem (c, add_mset (Bm_set i w m) P) (c', mset evs + P)"
| bm_step_get: "io_fini o1 success i (upd_io i (got_value l d) c) = Inr (c', evs) \<Longrightarrow>
    bm_step o1 inp bsz mem (c, add_mset (Bm_get i w m) P) (c', mset evs + P)"
| bm_step_delete: "io_fini o1 success i c = Inr (c', evs) \<Longrightarrow> bm_step o1 inp bsz mem (c, add_mset (Bm_delete i w m) P) (c', mset evs + P)"
| bm_step_worker_init: "worker_init o1 i = Inr evs \<Longrightarrow> bm_step o1 inp bsz mem (c, add_mset (Bm_send th (Worker_init i)) P) (c, mset evs + P)"
| bm_step_worker_stop: "bm_step o1 inp bsz mem (c, add_mset (Bm_send th (Worker_stop i)) P) (c, mset (worker_stop i) + P)"
| bm_step_producer_stop: "bm_step o1 inp bsz mem (c, add_mset (Bm_send th Producer_stop) P) (c, mset producer_stop + P)"

section \<open>The benchmark refines the machine\<close>

definition bm_start :: "bench_opt \<Rightarrow> bench \<times> bm_event multiset" where
  "bm_start o1 = (fst (bench_main o1), mset (snd (bench_main o1)))"

definition bm_valid :: "bench_opt \<Rightarrow> bool" where
  "bm_valid o1 \<longleftrightarrow> 0 < unat (producer_num o1) \<and> unat (producer_num o1) \<le> unat (concurrent_io_num o1) \<and> 0 < unat (ssd_num o1)"

definition bm_wf :: "bench_opt \<Rightarrow> bench \<Rightarrow> bm_event multiset \<Rightarrow> bool" where
  "bm_wf o1 c P \<longleftrightarrow> bm_sized o1 c \<and> (\<forall>e \<in># P. is_request c e)"

lemma bm_kinds_evs: "kinds bm_kind (mset evs) = mset (bm_conts evs)"
  by (simp add: bm_conts_def)

lemma stop_conts: "stop o1 c = (c', evs) \<Longrightarrow> bm_conts evs = []"
  by (auto simp: stop_def bm_conts_def List.map_filter_def comp_def)

lemma bm_fini_sim:
  assumes sz: "bm_sized o1 c" and ok: "bm_valid o1" and t: "test_fini o1 bsz mem c = Inr (c', evs)"
  shows "ph_step (unat (producer_num o1)) (io_share o1) (bm_view c, add_mset Fini Q) (bm_view c', mset (bm_conts evs) + Q) \<and> bm_sized o1 c'"
proof (cases "producer_cnt c - 1 = 0")
  case False
  then have c': "c' = c\<lparr>producer_cnt := producer_cnt c - 1\<rparr>" "evs = []" using t by (simp_all add: test_fini_def Let_def)
  have "bm_view c' = (bm_view c)\<lparr>ph_reports := ph_reports (bm_view c) - 1\<rparr>" by (rule ph_state_eqI) (simp_all add: c' io_owner_def)
  then show ?thesis using ph_count[of "bm_view c" _ _ Q] False sz by (simp add: c' bm_sized_def)
next
  case one: True
  have n: "0 < unat (producer_num o1)" "unat (producer_num o1) \<le> unat (concurrent_io_num o1)" using ok by (simp_all add: bm_valid_def)
  have one': "ph_reports (bm_view c) - 1 = 0" using one by simp
  show ?thesis
  proof (cases "state c")
    case INIT
    let ?c1 = "c\<lparr>producer_cnt := producer_num o1, io_buffers := alloc_buffers o1 mem\<rparr>"
    let ?al = "replicate (unat (concurrent_io_num o1)) (Bm_malloc (unat (value_size o1) + unat sizeof_kv_msg + 16 + unat bsz))"
    let ?c2 = "if opt_fill o1 then ?c1\<lparr>total_io := num_items o1, state := FILL\<rparr> else ?c1\<lparr>state := work_phase o1, total_io := operation_cnt o1\<rparr>"
    obtain ev2 where s: "start_phase o1 ?c2 = Inr (c', ev2)" "evs = ?al @ ev2"
      using t one INIT by (auto simp: test_fini_def Let_def res_simps split: if_splits)
    have "bm_conts ?al = []" by (simp add: bm_conts_def List.map_filter_def)
    then show ?thesis using bm_start_phase_sim[OF _ _ _ _ n one' s(1), of Q] sz s(2) by (auto simp: alloc_buffers_def bm_sized_def work_phase_def)
  next
    case FILL
    let ?c2 = "c\<lparr>producer_cnt := producer_num o1, state := work_phase o1, total_io := operation_cnt o1\<rparr>"
    have s: "start_phase o1 ?c2 = Inr (c', evs)" using t one FILL by (simp add: test_fini_def Let_def split: if_splits)
    then show ?thesis using bm_start_phase_sim[OF _ _ _ _ n one' s, of Q] sz FILL by (auto simp: bm_sized_def work_phase_def)
  qed (use t one sz ph_stop[OF one', of _ _ Q "bm_view c'"] stop_conts[of o1 "c\<lparr>producer_cnt := producer_num o1\<rparr>" c' evs] in
      \<open>auto simp: test_fini_def Let_def stop_def bm_sized_def split: if_splits\<close>)
qed

text \<open>An I/O step keeps the requests of the others.\<close>

lemma bm_effect_wf:
  assumes wf: "bm_wf o1 c (add_mset e P)" and inv: "ph_inv n r m (bm_view c, kinds bm_kind (add_mset e P))" and e: "bm_kind e = Some (Cont i)"
    and eff: "bm_effect i c c' evs" and new: "list_all (is_request c') evs"
  shows "bm_wf o1 c' (mset evs + P)"
proof -
  have "ph_run n r m (bm_view c) (add_mset (Cont i) (kinds bm_kind P))" using ph_inv_run inv e by simp
  then have "count (add_mset (Cont i) (kinds bm_kind P)) (Cont i) \<le> 1" unfolding ph_run_def by blast
  then have cnt: "count (kinds bm_kind P) (Cont i) = 0" by simp
  have "is_request c' x" if "x \<in># P" for x
  proof (cases "\<exists>th j. x = Bm_send th (Io_start j)")
    case True
    then obtain th j where x: "x = Bm_send th (Io_start j)" by blast
    have "Cont j \<in># kinds bm_kind P" using that x by (force simp: kinds_def)
    then have "j \<noteq> i" using cnt by (auto simp: count_eq_zero_iff)
    then show ?thesis using wf that eff x by (auto simp: bm_wf_def bm_effect_def)
  qed (auto simp: is_request_def split: bm_event.splits bm_task.splits)
  then show ?thesis using wf eff new by (auto simp: bm_wf_def bm_effect_def bm_sized_def list_all_iff)
qed

lemma io_start_conts:
  assumes "io_start i c = Inr evs" and "is_request c (Bm_send th (Io_start i))"
  shows "bm_conts evs = [Cont i] \<and> list_all (is_request c) evs"
  using assms by (auto simp: io_start_def Let_def is_request_def split: if_splits)

lemma bm_fini_requests: "io_fini o1 success i c = Inr (c', evs) \<Longrightarrow> list_all (is_request c') evs"
  by (auto simp: io_fini_def Let_def is_request_def split: if_splits)

lemma got_value_effect:
  assumes "io_fini o1 success i (upd_io i (got_value l d) c) = Inr (c', evs)"
  shows "bm_effect i c c' evs"
  using bm_fini_effect[OF assms] by (simp add: bm_effect_def bm_upd_io_view got_value_def)

text \<open>The continuation of an I/O, seen by the machine and by the invariant.\<close>

lemma bm_io_step:
  assumes st: "bm_step o1 inp bsz mem (c, P) (c', P')" and wf: "bm_wf o1 c P"
  obtains (io) i e evs Q where "P = add_mset e Q" "P' = mset evs + Q" "bm_kind e = Some (Cont i)" "bm_effect i c c' evs" "list_all (is_request c') evs"
    | (null) th evs Q where "P = add_mset (Bm_send th (Test None)) Q" "P' = mset evs + Q" "test o1 inp None c = Inr (c', evs)"
    | (fini) th evs Q where "P = add_mset (Bm_send th Test_fini) Q" "P' = mset evs + Q" "test_fini o1 bsz mem c = Inr (c', evs)"
    | (other) e evs Q where "P = add_mset e Q" "P' = mset evs + Q" "c' = c" "bm_conts evs = (case bm_kind e of None \<Rightarrow> [] | Some x \<Rightarrow> [x])" "list_all (is_request c) evs"
  using st
proof (cases rule: bm_step.cases)
  case (bm_step_test arg evs th P)
  then show thesis
  proof (cases arg)
    case None
    then show ?thesis using bm_step_test null by simp
  next
    case (Some i)
    then show ?thesis using bm_step_test io[of _ P evs i] bm_test_effect test_requests by simp
  qed
next
  case (bm_step_fini evs th P)
  then show thesis using fini by simp
next
  case (bm_step_io_start i evs th Q)
  have "is_request c (Bm_send th (Io_start i))" using wf bm_step_io_start(1) by (simp add: bm_wf_def del: is_request_simps)
  then have "bm_conts evs = [Cont i]" "list_all (is_request c) evs" using io_start_conts bm_step_io_start(4) by blast+
  then show thesis using other[of "Bm_send th (Io_start i)" Q evs] bm_step_io_start by simp
next
  case (bm_step_set success i evs w m P)
  then show thesis using io[of _ P evs i] bm_fini_effect bm_fini_requests by simp
next
  case (bm_step_get success i l d evs w m P)
  then show thesis using io[of _ P evs i] got_value_effect bm_fini_requests by simp
next
  case (bm_step_delete success i evs w m P)
  then show thesis using io[of _ P evs i] bm_fini_effect bm_fini_requests by simp
next
  case (bm_step_worker_init i evs th P)
  then have "bm_conts evs = [Null]" "list_all (is_request c) evs" by (auto simp: worker_init_def Let_def res_simps is_request_def split: if_splits)
  then show thesis using other[of "Bm_send th (Worker_init i)" P evs] bm_step_worker_init by simp
next
  case (bm_step_worker_stop th i P)
  then show thesis using other[of "Bm_send th (Worker_stop i)" P "worker_stop i"] by (simp add: worker_stop_def is_request_def)
next
  case (bm_step_producer_stop th P)
  then show thesis using other[of "Bm_send th Producer_stop" P producer_stop] by (simp add: producer_stop_def is_request_def)
qed

lemma start_phase_requests:
  assumes "start_phase o1 c = Inr (c', evs)"
  shows "list_all (is_request x) evs"
proof -
  have f: "list_all (is_request x) (snd (fold (start_producer o1 q cnt ipr) ks ce))" if "list_all (is_request x) (snd ce)" for q cnt ipr ks ce
    using that
  proof (induction ks arbitrary: ce)
    case (Cons k ks)
    have "list_all (is_request x) (snd (start_producer o1 q cnt ipr k ce))"
      using Cons.prems by (auto simp: start_producer_def Let_def list_all_iff)
    then show ?case using Cons.IH by simp
  qed simp
  obtain q cnt ipr ks c0 c1 where e: "fold (start_producer o1 q cnt ipr) ks (c0, []) = (c1, evs)"
    using assms by (auto simp: start_phase_def Let_def split: if_splits prod.splits)
  show ?thesis using f[of "(c0, [])" q cnt ipr ks] by (simp add: e)
qed

lemma fini_requests: "test_fini o1 bsz mem c = Inr (c', evs) \<Longrightarrow> list_all (is_request x) evs"
  using start_phase_requests
  by (auto simp: test_fini_def stop_def Let_def res_simps list_all_iff is_request_def split: if_splits cl_phase.splits)

lemma fini_keeps_requests:
  assumes "test_fini o1 bsz mem c = Inr (c', evs)" and "producer_cnt c - 1 = 0 \<Longrightarrow> kinds bm_kind Q = {#}" and "e \<in># Q" and "is_request c e"
  shows "is_request c' e"
proof (cases "producer_cnt c - 1 = 0")
  case True
  then have "bm_kind e = None" using assms(2,3) by (simp add: kinds_empty)
  then show ?thesis using quiet_requests[of "[e]" c'] by simp
next
  case False
  then have "c' = c\<lparr>producer_cnt := producer_cnt c - 1\<rparr>" using assms(1) by (simp add: test_fini_def Let_def)
  then show ?thesis using assms(4) by (simp add: is_request_def split: bm_event.splits bm_task.splits)
qed

lemma bm_step_both:
  assumes ok: "bm_valid o1" and wf: "bm_wf o1 c P" and st: "bm_step o1 inp bsz mem (c, P) (c', P')"
  shows "(ph_step (unat (producer_num o1)) (io_share o1))\<^sup>*\<^sup>* (bm_view c, kinds bm_kind P) (bm_view c', kinds bm_kind P')"
    and "ph_inv (unat (producer_num o1)) r m (bm_view c, kinds bm_kind P) \<Longrightarrow> bm_wf o1 c' P'"
proof -
  let ?n = "unat (producer_num o1)" and ?r = "io_share o1"
  have "(ph_step ?n ?r)\<^sup>*\<^sup>* (bm_view c, kinds bm_kind P) (bm_view c', kinds bm_kind P') \<and>
      (ph_inv ?n r m (bm_view c, kinds bm_kind P) \<longrightarrow> bm_wf o1 c' P')"
    using st wf
  proof (cases rule: bm_io_step)
    case (io i e evs Q)
    then have "ph_effect i (bm_view c) (bm_view c') (bm_conts evs)" by (simp add: bm_effect_def)
    then have "ph_step ?n ?r (bm_view c, kinds bm_kind P) (bm_view c', kinds bm_kind P')"
      using ph_effect_sim io(1-3) by (simp add: bm_kinds_evs del: kinds_simps(4))
    moreover have "bm_wf o1 c' P'" if "ph_inv ?n r m (bm_view c, kinds bm_kind P)"
      using bm_effect_wf[OF _ _ io(3,4,5)] wf that unfolding io(1,2) by blast
    ultimately show ?thesis by blast
  next
    case (null th evs Q)
    note N = bm_null_retire_sim[OF null(3)]
    have "bm_wf o1 c' P'" using wf N(2,3) quiet_requests[of evs c'] N(4) unfolding null(1,2)
      by (auto simp: bm_wf_def bm_sized_def bm_frame_def list_all_iff is_request_def split: bm_event.splits bm_task.splits)
    then show ?thesis using N(1) null(1,2) by (auto simp: bm_kinds_evs simp del: kinds_simps(4))
  next
    case (fini th evs Q)
    have F: "ph_step ?n ?r (bm_view c, add_mset Fini (kinds bm_kind Q)) (bm_view c', mset (bm_conts evs) + kinds bm_kind Q)" "bm_sized o1 c'"
      using bm_fini_sim[OF _ ok fini(3)] wf by (simp_all add: bm_wf_def)
    have "bm_wf o1 c' P'" if inv: "ph_inv ?n r m (bm_view c, kinds bm_kind P)"
    proof -
      have "ph_run ?n r m (bm_view c) (add_mset Fini (kinds bm_kind Q))" using inv ph_inv_run fini(1) by simp
      then have "producer_cnt c - 1 = 0 \<Longrightarrow> kinds bm_kind Q = {#}" using ph_over(1) ok by (simp add: bm_valid_def)
      then have "is_request c' e" if "e \<in># Q" for e using fini_keeps_requests[OF fini(3)] wf that fini(1) by (auto simp: bm_wf_def)
      then show ?thesis using F(2) fini_requests[OF fini(3)] by (auto simp: fini(2) bm_wf_def list_all_iff)
    qed
    then show ?thesis using F(1) fini(1,2) by (auto simp: bm_kinds_evs simp del: kinds_simps(4))
  next
    case (other e evs Q)
    then have "kinds bm_kind P = kinds bm_kind P'" by (auto simp: bm_kinds_evs simp del: kinds_simps(4) split: option.splits)
    moreover have "bm_wf o1 c' P'" using wf other by (auto simp: bm_wf_def list_all_iff)
    ultimately show ?thesis using other(3) by simp
  qed
  then show "(ph_step ?n ?r)\<^sup>*\<^sup>* (bm_view c, kinds bm_kind P) (bm_view c', kinds bm_kind P')"
    and "ph_inv ?n r m (bm_view c, kinds bm_kind P) \<Longrightarrow> bm_wf o1 c' P'" by blast+
qed

lemma bm_start_run:
  assumes "bm_valid o1"
  shows "bm_wf o1 (fst (bm_start o1)) (snd (bm_start o1))"
    and "ph_run (unat (producer_num o1)) (io_share o1) (unat (concurrent_io_num o1)) (bm_view (fst (bm_start o1))) (kinds bm_kind (snd (bm_start o1)))"
proof -
  let ?n = "unat (producer_num o1)" and ?c = "fst (bm_start o1)" and ?a = "unat (ssd_num o1)"
  have c: "?c = fst (bench_main o1)" by (simp add: bm_start_def)
  have n: "0 < ?n" "0 < ?a" using assms by (simp_all add: bm_valid_def)
  have p: "iocnt (producers ?c ! k) = (if k = 0 then ucast (ssd_num o1) else 0)" "start_io (producers ?c ! k) = end_io (producers ?c ! k)" if "k < ?n" for k
    unfolding c using that by (simp_all add: bench_main_def nth_list_update)
  have "bm_conts (snd (bench_main o1)) = replicate ?a Null"
    by (simp add: bench_main_def bm_conts_def List.map_filter_def comp_def map_replicate_const)
  then have k: "kinds bm_kind (snd (bm_start o1)) = replicate_mset ?a Null" unfolding bm_start_def snd_conv bm_kinds_evs by simp
  have "list_all (is_request ?c) (snd (bench_main o1))" by (auto simp: bench_main_def list_all_iff is_request_def)
  then show "bm_wf o1 ?c (snd (bm_start o1))" by (simp add: bm_wf_def bm_sized_def bm_start_def bench_main_def list_all_iff)
  have idle: "state ?c = INIT" "producer_cnt ?c = 1" by (simp_all add: c bench_main_def)
  show "ph_run ?n (io_share o1) (unat (concurrent_io_num o1)) (bm_view ?c) (kinds bm_kind (snd (bm_start o1)))"
    unfolding k by (rule ph_init_run) (use n p idle in auto)
qed

interpretation benchmark: load_generator "\<lambda>(o1, _). bm_valid o1" "\<lambda>(o1, inp, bsz, mem). bm_step o1 inp bsz mem" "\<lambda>(o1, _). bm_start o1" bm_view bm_kind
  "\<lambda>(o1, _). bm_wf o1" "\<lambda>(o1, _). unat (producer_num o1)" "\<lambda>(o1, _). io_share o1" "\<lambda>(o1, _). unat (concurrent_io_num o1)"
proof (unfold_locales, goal_cases)
  case (1 p)
  then show ?case using bm_share_le by (auto simp: bm_valid_def io_share_def div_greater_zero_iff split: prod.splits)
next
  case (2 p)
  then show ?case using bm_start_run(1) by (auto split: prod.splits)
next
  case (3 p)
  then show ?case using bm_start_run(2) by (auto split: prod.splits)
next
  case (4 p c P c' P')
  obtain o1 inp bsz mem where p: "p = (o1, inp, bsz, mem)" by (metis surj_pair)
  show ?case using bm_step_both(2)[of o1 c P inp bsz mem c' P'] 4 by (simp add: p)
next
  case (5 p c P c' P')
  obtain o1 inp bsz mem where p: "p = (o1, inp, bsz, mem)" by (metis surj_pair)
  show ?case using bm_step_both(1)[of o1 c P inp bsz mem c' P'] 5 by (simp add: p)
qed

section \<open>Properties\<close>

text \<open>
  C39. Every run of the benchmark, whatever the order in which messages are handled and the data
  store completes, is a run of the machine of phases: when the last report of a phase is handled no
  operation of it is under way and every producer has gone through its whole share. A message
  that is sent to a worker always holds a set, a get or a delete.
\<close>

theorem benchmark_phases_do_not_overlap:
  assumes "bm_valid o1" and "(bm_step o1 inp bsz mem)\<^sup>*\<^sup>* (bm_start o1) (c, P)"
  shows "(ph_step (unat (producer_num o1)) (io_share o1))\<^sup>*\<^sup>* (bm_view (fst (bm_start o1)), kinds bm_kind (snd (bm_start o1))) (bm_view c, kinds bm_kind P) \<and>
    (\<forall>th Q. P = add_mset (Bm_send th Test_fini) Q \<longrightarrow> producer_cnt c = 1 \<longrightarrow> (\<forall>e \<in># Q. bm_kind e = None) \<and>
       (\<forall>k < unat (producer_num o1). iocnt (producers c ! k) = 0 \<and> start_io (producers c ! k) = end_io (producers c ! k))) \<and>
    (\<forall>th i. Bm_send th (Io_start i) \<in># P \<longrightarrow> msg_type (io_msg (io_buffers c ! i)) \<in> {KV_MSG_SET, KV_MSG_GET, KV_MSG_DEL})"
proof -
  note R = benchmark.runs_refine[of "(o1, inp, bsz, mem)", simplified, OF assms]
  have "(\<forall>e \<in># Q. bm_kind e = None) \<and> (\<forall>k < unat (producer_num o1). iocnt (producers c ! k) = 0 \<and> start_io (producers c ! k) = end_io (producers c ! k))"
    if "P = add_mset (Bm_send th Test_fini) Q" "producer_cnt c = 1" for th Q
    using benchmark.no_overlap(2,3)[of "(o1, inp, bsz, mem)" c "Bm_send th Test_fini" Q, simplified, OF assms(1) assms(2)[unfolded that(1)] that(2)]
    by (simp add: kinds_empty)
  moreover have "msg_type (io_msg (io_buffers c ! i)) \<in> {KV_MSG_SET, KV_MSG_GET, KV_MSG_DEL}" if "Bm_send th (Io_start i) \<in># P" for th i
  proof -
    have "is_request c (Bm_send th (Io_start i))" using R that unfolding bm_wf_def by blast
    then show ?thesis by simp
  qed
  ultimately show ?thesis using R by simp
qed

text \<open>A run with one device, one producer and one buffer up to its first report.\<close>

definition small_bench :: bench_opt where
  "small_bench = default_opt\<lparr>ssd_num := 1, producer_num := 1, concurrent_io_num := 1\<rparr>"

definition some_request :: "nat \<Rightarrow> cl_input" where
  "some_request t = \<lparr>in_op = YCSB_READ, in_key = replicate 16 0, in_value = [], in_ret = -1, in_len = 0, in_cached = []\<rparr>"

definition ready_bench :: bench where
  "ready_bench = (fst (bench_main small_bench))\<lparr>producers := [\<lparr>start_io = 0, end_io = 0, iocnt = 0, io_per_record = 0\<rparr>]\<rparr>"

lemma small_bench_simps [simp]:
  "ssd_num small_bench = 1" "producer_num small_bench = 1" "concurrent_io_num small_bench = 1" "num_items small_bench = 1024"
  by (simp_all add: small_bench_def default_opt_def)

lemma shrink_result: "2 ^ k < n \<Longrightarrow> n \<le> 2 ^ (k + 1) \<Longrightarrow> k \<le> j \<Longrightarrow> shrink_log_bucket_num n j = Inr k"
proof (induction j)
  case (Suc j)
  show ?case
  proof (cases "k = Suc j")
    case False
    then have "2 ^ (k + 1) \<le> (2 ^ Suc j :: nat)" using Suc.prems(3) by (intro power_increasing) simp_all
    then have "n \<le> 2 ^ Suc j" using Suc.prems(2) by (rule le_trans[rotated])
    then show ?thesis using Suc False by simp
  qed (use Suc in simp)
qed simp

lemma ready_bench_reached:
  "(bm_step small_bench some_request bsz mem)\<^sup>*\<^sup>* (bm_start small_bench) (ready_bench, add_mset (Bm_send 1 Test_fini) {#Bm_store_init 0 64 6#})"
proof -
  let ?S = "bm_step small_bench some_request bsz mem" and ?c = "fst (bench_main small_bench)" and ?t = "Bm_send 1 (Test None)"
  have w: "worker_init small_bench 0 = Inr [Bm_store_init 0 64 6, ?t]"
    using shrink_result[of 5 64 48] by (simp add: worker_init_def KV_ITEM_PER_BUCKET_def)
  have a: "?S (bm_start small_bench) (?c, add_mset ?t {#Bm_store_init 0 64 6#})"
    using bm_step_worker_init[OF w, of some_request bsz mem ?c 0 "{#}"] by (simp add: bm_start_def bench_main_def add_mset_commute)
  have t: "test small_bench some_request None ?c = Inr (ready_bench, [Bm_send 1 Test_fini])"
    by (simp add: test_once_def test_retire_def producer_of_def bench_main_def ready_bench_def upd_producer_def)
  have b: "?S (?c, add_mset ?t {#Bm_store_init 0 64 6#}) (ready_bench, add_mset (Bm_send 1 Test_fini) {#Bm_store_init 0 64 6#})"
    using bm_step_test[OF t, of bsz mem 1 "{#Bm_store_init 0 64 6#}"] by (simp add: add_mset_commute)
  show ?thesis using a b by (meson rtranclp.rtrancl_refl converse_rtranclp_into_rtranclp)
qed

theorem benchmark_phases_do_not_overlap_witness:
  "(bm_step small_bench some_request 512 (\<lambda>i. zero_msg))\<^sup>*\<^sup>* (bm_start small_bench)
     (ready_bench, add_mset (Bm_send 1 Test_fini) {#Bm_store_init 0 64 6#}) \<and>
   producer_cnt ready_bench = 1 \<and> iocnt (producers ready_bench ! 0) = 0 \<and> start_io (producers ready_bench ! 0) = end_io (producers ready_bench ! 0)"
proof -
  let ?P = "add_mset (Bm_send 1 Test_fini) {#Bm_store_init 0 64 6#}"
  have ok: "bm_valid small_bench" by (simp add: bm_valid_def)
  have one: "producer_cnt ready_bench = 1" by (simp add: ready_bench_def bench_main_def)
  note reached = ready_bench_reached[of 512 "\<lambda>i. zero_msg"]
  note T = conjunct1[OF conjunct2[OF benchmark_phases_do_not_overlap[OF ok reached]]]
  have "iocnt (producers ready_bench ! 0) = 0 \<and> start_io (producers ready_bench ! 0) = end_io (producers ready_bench ! 0)"
    using T[rule_format, of 1 "{#Bm_store_init 0 64 6#}"] one by simp
  then show ?thesis using reached one by simp
qed

end
