(* ===== verification/Server_Options.thy ===== *)
theory Server_Options
  imports Kv_Server Cmd_Options Ring_Keys
begin

text \<open>The command line of the server (\<open>get_options\<close> and \<open>main\<close> of \<open>kv_server.c\<close>), with the options that only the start uses.\<close>

record server_args = server_opt +
  storage_stride :: u32
  rpl_num :: u32
  json_config_file :: string
  server_conf_file :: string
  etcd_ip :: string
  etcd_port :: string
  local_ip :: string
  local_port :: string
  ditto :: bool

definition default_args :: server_args where
  "default_args = \<lparr>ssd_num = 4, worker_num = 4, so_thread_num = 3, concurrent_io_num = 2048, copy_concurrency = 32, set_batch = 1,
     vid_per_ssd = 128, so_ring_num = 128, ours = False, storage_stride = 4, rpl_num = 1, json_config_file = ''server.config.json'',
     server_conf_file = ''app/leed/ditto/experiments/configs/server_conf_sample.json'', etcd_ip = ''127.0.0.1'', etcd_port = ''2379'',
     local_ip = ''10.3.4.6'', local_port = ''9000'', ditto = False\<rparr>"

definition get_option :: "char \<times> string \<Rightarrow> server_args \<Rightarrow> server_args res" where
  "get_option a o1 =
     (let ch = fst a; optarg = snd a; num = word_of_int (atol optarg) in
      if ch = CHR ''d'' then Inr (o1\<lparr>ssd_num := num\<rparr>)
      else if ch = CHR ''S'' then Inr (o1\<lparr>storage_stride := num\<rparr>)
      else if ch = CHR ''c'' then rbind (strcpy_into 1024 optarg) (\<lambda>s. Inr (o1\<lparr>json_config_file := s\<rparr>))
      else if ch = CHR ''f'' then rbind (strcpy_into 1024 optarg) (\<lambda>s. Inr (o1\<lparr>server_conf_file := s\<rparr>))
      else if ch = CHR ''i'' then Inr (o1\<lparr>concurrent_io_num := num\<rparr>)
      else if ch = CHR ''I'' then Inr (o1\<lparr>copy_concurrency := num\<rparr>)
      else if ch = CHR ''b'' then Inr (o1\<lparr>set_batch := num\<rparr>)
      else if ch = CHR ''T'' then Inr (o1\<lparr>so_thread_num := num\<rparr>)
      else if ch = CHR ''s'' then rbind (strcpy_into 32 optarg) (\<lambda>s. Inr (o1\<lparr>etcd_ip := s\<rparr>))
      else if ch = CHR ''P'' then rbind (strcpy_into 16 optarg) (\<lambda>s. Inr (o1\<lparr>etcd_port := s\<rparr>))
      else if ch = CHR ''l'' then rbind (strcpy_into 32 optarg) (\<lambda>s. Inr (o1\<lparr>local_ip := s\<rparr>))
      else if ch = CHR ''p'' then rbind (strcpy_into 16 optarg) (\<lambda>s. Inr (o1\<lparr>local_port := s\<rparr>))
      else if ch = CHR ''m'' then Inr (o1\<lparr>vid_per_ssd := num\<rparr>)
      else if ch = CHR ''R'' then Inr (o1\<lparr>rpl_num := num\<rparr>)
      else if ch = CHR ''C'' then
        if optarg = ''ditto'' then Inr (o1\<lparr>ditto := True\<rparr>)
        else if optarg = ''ours'' then Inr (o1\<lparr>ours := True\<rparr>)
        else Inl Exit_fail
      else Inl Exit_fail)"

fun get_options :: "(char \<times> string) list \<Rightarrow> server_args \<Rightarrow> server_args res" where
  "get_options [] o1 = Inr o1"
| "get_options (a # as) o1 = rbind (get_option a o1) (get_options as)"

text \<open>The signal handler: the poller of the set buffers is stopped, then the ring, whose callback stops the threads.\<close>

datatype sig_event = Poller_unregister | Ring_fini

definition signal_handler :: "bool \<Rightarrow> sig_event list" where
  "signal_handler buf_poller = (if buf_poller then [Poller_unregister] else []) @ [Ring_fini]"

definition args_ok :: "server_args \<Rightarrow> bool" where
  "args_ok o1 \<longleftrightarrow> length (json_config_file o1) < 1024 \<and> length (server_conf_file o1) < 1024 \<and> length (etcd_ip o1) < 32 \<and>
     length (etcd_port o1) < 16 \<and> length (local_ip o1) < 32 \<and> length (local_port o1) < 16"

interpretation server_opts: option_parser get_option get_options args_ok
proof
  show "args_ok q" if "args_ok p" "get_option a p = Inr q" for a p q
    using that by (auto simp: get_option_def args_ok_def Let_def res_simps strcpy_into_Inr split: if_splits)
qed simp_all

text \<open>A printed number is read back.\<close>

lemma atol_digits_all: "\<forall>c \<in> set s. is_digit c \<Longrightarrow> atol_digits (int n) s = int (fold dec_step s n)"
proof (induction s arbitrary: n)
  case (Cons c s)
  then have d: "48 \<le> (of_char c :: nat)" "(of_char c :: nat) < 58" by (simp_all add: is_digit_def)
  have i: "(of_char c :: int) = int (of_char c)" by (rule of_nat_of_char[symmetric])
  have "atol_digits (int n) (c # s) = atol_digits (int (n * 10 + (of_char c - 48))) s"
    using d unfolding atol_digits.simps i by (simp add: of_nat_diff algebra_simps)
  also have "\<dots> = int (fold dec_step s (n * 10 + (of_char c - 48)))" by (rule Cons.IH) (use Cons.prems in simp)
  finally show ?case by (simp del: atol_digits.simps)
qed simp

lemma atol_show_nat: "atol (show_nat n) = int n"
proof -
  obtain c s where cs: "show_nat n = c # s" using show_nat_not_Nil[of n] by (cases "show_nat n") auto
  have dig: "is_digit c" using show_nat_digits[of n] by (simp add: cs)
  then have "c \<noteq> CHR '' ''" "c \<noteq> CHR ''-''" "c \<noteq> CHR ''+''" by (auto simp: is_digit_def)
  then have "atol (show_nat n) = atol_digits (int 0) (show_nat n)" by (simp add: atol_def cs)
  then show ?thesis using atol_digits_all[OF show_nat_digits, of 0 n] fold_show_nat[of n] by simp
qed

end
