(* ===== verification/Compaction_Scan.thy ===== *)
theory Compaction_Scan
  imports Bucket_Log_Store
begin

unbundle bit_operations_syntax

text \<open>
  The loops of the bucket log compaction. The log is a sequence of whole chains; the loop of
  \<open>compact\<close> collects the live chains of a stretch from the prefetch window, the loop of
  \<open>compact_move_head\<close> counts the blocks of dead chains at the head.
\<close>

section \<open>Logs of whole chains\<close>

inductive chain_seq :: "kv_bucket list \<Rightarrow> bool" where
  chain_seq_Nil [simp, intro]: "chain_seq []"
| chain_seq_Cons: "is_chain bid cs \<Longrightarrow> chain_seq bs \<Longrightarrow> chain_seq (cs @ bs)"

lemma chain_seq_append: "chain_seq as \<Longrightarrow> chain_seq bs \<Longrightarrow> chain_seq (as @ bs)"
  by (induction rule: chain_seq.induct) (auto intro: chain_seq_Cons)

lemma chain_seq_one: "is_chain bid cs \<Longrightarrow> chain_seq cs"
  using chain_seq_Cons[of bid cs "[]"] by simp

lemma chain_seq_first:
  assumes "chain_seq bs" and "bs \<noteq> []"
  obtains bid n where "is_chain bid (take n bs)" "chain_seq (drop n bs)" "n \<le> length bs"
    "n = unat (chain_length (hd bs))" "b_id (hd bs) = bid" "chain_index (hd bs) = 0" "0 < n" "n < 128"
  using assms
proof (cases rule: chain_seq.cases)
  case (chain_seq_Cons bid cs rest)
  have ne: "cs \<noteq> []" "length cs < 128" using chain_seq_Cons(2) by (auto simp: is_chain_def)
  note h = is_chain_hd[OF chain_seq_Cons(2)]
  have hd: "hd bs = hd cs" using ne by (simp add: chain_seq_Cons(1))
  show ?thesis
  proof (rule that)
    show "is_chain bid (take (length cs) bs)" "chain_seq (drop (length cs) bs)" "length cs \<le> length bs"
      using chain_seq_Cons(2,3) by (simp_all add: chain_seq_Cons(1))
  qed (use ne h hd in simp_all)
qed simp

text \<open>A bucket with index 0 starts a chain that ends inside the sequence.\<close>

lemma chain_seq_start:
  assumes "chain_seq bs" and "k < length bs" and "chain_index (bs ! k) = 0"
  shows "k + unat (chain_length (bs ! k)) \<le> length bs"
  using assms
proof (induction arbitrary: k rule: chain_seq.induct)
  case (chain_seq_Cons bid cs bs)
  show ?case
  proof (cases "k < length cs")
    case True
    then have "unat (chain_index (cs ! k)) = k" "unat (chain_length (cs ! k)) = length cs"
      using chain_seq_Cons.hyps(1) by (auto simp: is_chain_def)
    then show ?thesis using True chain_seq_Cons.prems(2) by (simp add: nth_append)
  next
    case False
    moreover have "k - length cs < length bs" using False chain_seq_Cons.prems(1) by (simp add: less_diff_conv2)
    ultimately show ?thesis using chain_seq_Cons.IH[of "k - length cs"] chain_seq_Cons.prems(2) by (simp add: nth_append)
  qed
qed simp

text \<open>The stamps of a write leave a sequence of chains one.\<close>

lemma chain_seq_unstamp:
  assumes "chain_seq bs" and "map unstamp bs' = map unstamp bs"
  shows "chain_seq bs'"
  using assms
proof (induction arbitrary: bs' rule: chain_seq.induct)
  case (chain_seq_Cons bid cs bs)
  let ?n = "length cs"
  have "map unstamp (take ?n bs') = map unstamp cs" "map unstamp (drop ?n bs') = map unstamp bs"
    using arg_cong[OF chain_seq_Cons.prems, of "take ?n"] arg_cong[OF chain_seq_Cons.prems, of "drop ?n"]
    by (simp_all add: take_map drop_map)
  then have "is_chain bid (take ?n bs')" "chain_seq (drop ?n bs')"
    using unstamp_eqD(3) chain_seq_Cons.hyps(1) chain_seq_Cons.IH by blast+
  then show ?case using chain_seq.chain_seq_Cons[of bid "take ?n bs'" "drop ?n bs'"] by (simp only: append_take_drop_id)
qed simp

section \<open>Collecting live chains\<close>

text \<open>The distance from the head of the log to the compaction head.\<close>

abbreviation compacted :: "kv_bucket_log \<Rightarrow> nat" where
  "compacted bl \<equiv> circ_dist (unat (l_size (bl_log bl))) (unat (l_head (bl_log bl))) (unat (bl_compact_head bl))"

text \<open>A segment of a compaction: the chain of a bucket, in the prefetch window.\<close>

definition collected :: "(nat \<Rightarrow> kv_bucket) \<Rightarrow> kv_bucket_log \<Rightarrow> kv_bucket_segment \<Rightarrow> bool" where
  "collected dev bl seg \<longleftrightarrow> seg_wf seg \<and> seg_chain seg \<noteq> [] \<and> chain_aligned (seg_chain seg) \<and>
     \<not> is_meta_empty (kv_bucket_meta_get (bl_meta bl) (seg_bucket_id seg)) \<and>
     seg_buckets seg = disk_chain dev bl (seg_bucket_id seg)"

definition segs_blocks :: "kv_bucket_segment list \<Rightarrow> kv_bucket list" where
  "segs_blocks segs = concat (map seg_buckets segs)"

lemma segs_blocks_simps [simp]:
  "segs_blocks [] = []" "segs_blocks (seg # segs) = seg_buckets seg @ segs_blocks segs"
  "segs_blocks (xs @ ys) = segs_blocks xs @ segs_blocks ys"
  by (simp_all add: segs_blocks_def)

lemma llen_less_size:
  assumes "log_wf l" and "k \<le> llen l"
  shows "k < unat (l_size l)"
  using assms(2) circ_dist_less[OF log_wf_size(1)[OF assms(1)]] le_less_trans by blast

lemma unat_ucast_32: "unat (x :: u64) < 2 ^ 32 \<Longrightarrow> unat (ucast x :: u32) = unat x"
  by (simp add: unsigned_ucast_eq take_bit_eq_mod)

text \<open>An offset of the code that lies \<open>i\<close> blocks past a position of the log.\<close>

lemma scan_offset:
  fixes a i :: u64
  assumes wf: "log_wf l" and s: "unat (l_size l) \<le> 2 ^ 32" and a: "unat a = (unat (l_head l) + k) mod unat (l_size l)"
    and i: "unat i < 2 ^ 32"
  shows "unat (ucast ((a + i) mod l_size l) :: u32) = (unat (l_head l) + (k + unat i)) mod unat (l_size l)"
proof -
  have S: "0 < unat (l_size l)" using log_wf_size[OF wf] by simp
  then have a2: "unat a < 2 ^ 32" using a s by (metis le_trans linorder_not_less mod_less_divisor)
  have "unat a + unat i < 2 ^ 64" using a2 i by simp
  then have e: "unat ((a + i) mod l_size l) = (unat (l_head l) + (k + unat i)) mod unat (l_size l)"
    unfolding unat_add_mod[OF \<open>unat a + unat i < 2 ^ 64\<close>] a by (simp add: mod_add_left_eq add.assoc)
  have "(unat (l_head l) + (k + unat i)) mod unat (l_size l) < 2 ^ 32" using S s by (meson less_le_trans mod_less_divisor)
  then show ?thesis using e by (simp add: unat_ucast_32 del: unat_mod)
qed

text \<open>A live chain is the chain of its bucket, and the chain that starts at its offset.\<close>

lemma live_chain:
  assumes inv: "bl_inv dev bl" and k: "k < llen (bl_log bl)"
    and off: "unat off = (unat (l_head (bl_log bl)) + k) mod unat (l_size (bl_log bl))"
    and live: "chain_live (bl_meta bl) (log_blocks dev (bl_log bl) ! k) off"
    and b: "b = ucast (b_id (log_blocks dev (bl_log bl) ! k))"
  shows "\<not> is_meta_empty (kv_bucket_meta_get (bl_meta bl) b)" "m_bucket_offset (kv_bucket_meta_get (bl_meta bl) b) = off"
    "m_chain_length (kv_bucket_meta_get (bl_meta bl) b) = chain_length (log_blocks dev (bl_log bl) ! k)"
    "disk_chain dev bl b = take (unat (chain_length (log_blocks dev (bl_log bl) ! k))) (drop k (log_blocks dev (bl_log bl)))"
proof -
  let ?l = "bl_log bl" and ?m = "kv_bucket_meta_get (bl_meta bl) b" and ?B = "log_blocks dev (bl_log bl)"
  show ne: "\<not> is_meta_empty ?m" and o: "m_bucket_offset ?m = off"
    using live b by (simp_all add: chain_live_def is_meta_empty_def Let_def)
  have wf: "log_wf ?l" and ci: "chain_inside ?l ?m" and ic: "is_chain (ucast b) (disk_chain dev bl b)"
    using inv ne by (simp_all add: bl_inv_def)
  have d: "circ_dist (unat (l_size ?l)) (unat (l_head ?l)) (unat (m_bucket_offset ?m)) = k"
    unfolding o off using llen_less_size[OF wf] k wf by (intro circ_dist_add) (auto simp: log_wf_def)
  note dc = disk_chain_in_log[OF wf ci, of dev, unfolded d]
  have "0 < unat (m_chain_length ?m)" using ne by (simp add: is_meta_empty_def unat_gt_0)
  then have "hd (disk_chain dev bl b) = ?B ! k" unfolding dc using k by (simp add: hd_drop_conv_nth)
  then have "unat (m_chain_length ?m) = unat (chain_length (?B ! k))" using is_chain_hd(1)[OF ic] by simp
  then show m: "m_chain_length ?m = chain_length (?B ! k)" by (rule unat_u8_inj)
  show "disk_chain dev bl b = take (unat (chain_length (?B ! k))) (drop k ?B)" using dc m by simp
qed

text \<open>The distance of the chain of a bucket from the head of the log.\<close>

abbreviation chain_pos :: "kv_bucket_log \<Rightarrow> u64 \<Rightarrow> nat" where
  "chain_pos bl b \<equiv> circ_dist (unat (l_size (bl_log bl))) (unat (l_head (bl_log bl)))
     (unat (m_bucket_offset (kv_bucket_meta_get (bl_meta bl) b)))"

text \<open>A live chain that starts inside a chain of the log is that chain.\<close>

lemma live_in_chain:
  assumes inv: "bl_inv dev bl" and ne: "\<not> is_meta_empty (kv_bucket_meta_get (bl_meta bl) b)"
    and c: "is_chain bid (take n (drop k (log_blocks dev (bl_log bl))))" and n: "k + n \<le> llen (bl_log bl)"
    and p: "k \<le> chain_pos bl b" "chain_pos bl b < k + n"
  shows "chain_pos bl b = k" and "ucast (b_id (log_blocks dev (bl_log bl) ! k)) = b"
    and "unat off = (unat (l_head (bl_log bl)) + k) mod unat (l_size (bl_log bl)) \<Longrightarrow> chain_live (bl_meta bl) (log_blocks dev (bl_log bl) ! k) off"
proof -
  let ?l = "bl_log bl" and ?B = "log_blocks dev (bl_log bl)" and ?m = "kv_bucket_meta_get (bl_meta bl) b" and ?p = "chain_pos bl b"
  have wf: "log_wf ?l" and bE: "b < KV_BUCKET_ID_EMPTY" and ci: "chain_inside ?l ?m" and ic: "is_chain (ucast b) (disk_chain dev bl b)"
    using inv ne by (simp_all add: bl_inv_def)
  have "0 < unat (m_chain_length ?m)" using ne by (simp add: is_meta_empty_def unat_gt_0)
  then have hd: "hd (disk_chain dev bl b) = ?B ! ?p"
    unfolding disk_chain_in_log[OF wf ci, of dev] using p n by (simp add: hd_drop_conv_nth)
  have at: "take n (drop k ?B) ! (?p - k) = ?B ! ?p" using p n by simp
  have lt: "?p - k < length (take n (drop k ?B))" using p n by simp
  have "unat (chain_index (?B ! ?p)) = ?p - k" using c lt at unfolding is_chain_def by metis
  moreover have "chain_index (?B ! ?p) = 0" using is_chain_hd(3)[OF ic] hd by simp
  ultimately show pk: "?p = k" using p by simp
  have "b_id (?B ! k) = ucast b" using is_chain_hd(2)[OF ic] hd pk by simp
  then show id: "ucast (b_id (?B ! k)) = b"
    using bE by (simp add: KV_BUCKET_ID_EMPTY_def word_unat_eq_iff word_less_nat_alt unsigned_ucast_eq take_bit_eq_mod)
  show "chain_live (bl_meta bl) (?B ! k) off" if off: "unat off = (unat (l_head ?l) + k) mod unat (l_size ?l)"
  proof -
    have "unat (m_bucket_offset ?m) < unat (l_size ?l)" using ci by (simp add: chain_inside_def)
    then have "m_bucket_offset ?m = off"
      unfolding word_unat_eq_iff
      using circ_add_dist[of "unat (l_head ?l)" "unat (l_size ?l)" "unat (m_bucket_offset ?m)"] pk off wf by (simp add: log_wf_def)
    then show ?thesis using ne by (simp add: chain_live_def id Let_def is_meta_empty_def)
  qed
qed

lemma collect_segment:
  assumes inv: "bl_inv dev bl" and li: "log_inv dev (bl_log bl) cs" and k: "k + unat (chain_length b) \<le> wlen (l_fetch (bl_log bl))"
    and b: "b = log_blocks dev (bl_log bl) ! k" and n0: "0 < unat (chain_length b)"
    and off: "unat off = (unat (l_head (bl_log bl)) + k) mod unat (l_size (bl_log bl))"
    and live: "chain_live (bl_meta bl) b off"
  shows "\<exists>v0 v1. kv_circular_log_fetch_iov (bl_log bl) (ucast (m_bucket_offset (kv_bucket_meta_get (bl_meta bl) (ucast (b_id b)))))
      (ucast (m_chain_length (kv_bucket_meta_get (bl_meta bl) (ucast (b_id b))))) = Inr (v0, v1) \<and>
    collected dev bl ((kv_bucket_seg_init (ucast (b_id b)))\<lparr>seg_empty := False,
      seg_chain := map (\<lambda>v. \<lparr>ce_addr = iov_base v, ce_buckets = iov_blocks v, pre_alloc_bucket = True\<rparr>)
        (takeWhile (\<lambda>v. iov_len v \<noteq> 0) [v0, v1])\<rparr>)"
proof -
  let ?l = "bl_log bl" and ?b = "ucast (b_id b) :: u64"
  have w: "wlen (l_fetch ?l) \<le> llen ?l" using li by (auto simp: log_inv_def window_inv_def Let_def)
  have kl: "k < llen ?l" using k n0 w by linarith
  note lv = live_chain[OF inv kl off live[unfolded b] refl, folded b]
  obtain v0 v1 where f: "kv_circular_log_fetch_iov ?l (ucast off) (ucast (chain_length b)) = Inr (v0, v1)"
    and d: "iov_data (takeWhile (\<lambda>v. iov_len v \<noteq> 0) [v0, v1]) = take (unat (chain_length b)) (drop k (log_blocks dev ?l))"
    and a: "\<forall>v \<in> set (takeWhile (\<lambda>v. iov_len v \<noteq> 0) [v0, v1]). iov_base v AND 3 = 0 \<and> iov_blocks v \<noteq> []"
    using fetch_iov_correct[OF li, of "ucast (chain_length b)" k "ucast off"] n0 k off by auto
  define vs where "vs = takeWhile (\<lambda>v. iov_len v \<noteq> 0) [v0, v1]"
  note a = a[folded vs_def]
  define seg where "seg = (kv_bucket_seg_init ?b)\<lparr>seg_empty := False,
      seg_chain := map (\<lambda>v. \<lparr>ce_addr = iov_base v, ce_buckets = iov_blocks v, pre_alloc_bucket = True\<rparr>) vs\<rparr>"
  have sb: "seg_buckets seg = disk_chain dev bl ?b" "seg_bucket_id seg = ?b"
    using d lv(4) by (simp_all add: seg_def vs_def kv_bucket_seg_init_def iov_data_def comp_def seg_buckets_def)
  have "is_chain (ucast ?b) (disk_chain dev bl ?b)" using inv lv(1) by (simp add: bl_inv_def)
  then have "seg_wf seg" "seg_chain seg \<noteq> []"
    using sb a by (auto simp: seg_wf_def vs_def[symmetric] seg_def kv_bucket_seg_init_def is_chain_def seg_buckets_def)
  moreover have "chain_aligned (seg_chain seg)"
    using a by (auto simp: chain_aligned_def seg_def vs_def[symmetric] kv_bucket_seg_init_def)
  ultimately have "collected dev bl seg" using sb lv(1) by (simp add: collected_def)
  then show ?thesis using f lv(2,3) by (simp add: seg_def vs_def)
qed

text \<open>One pass of the loop: the chain at the offset is skipped, or becomes a segment.\<close>

lemma compact_collect_step:
  assumes inv: "bl_inv dev bl" and li: "log_inv dev (bl_log bl) cs" and ch: "unat (bl_compact_head bl) < unat (l_size (bl_log bl))"
    and b: "b = log_blocks dev (bl_log bl) ! (compacted bl + unat len)" and lt: "unat len < 512"
    and n: "0 < unat (chain_length b)" "chain_index b = 0"
    and win: "compacted bl + unat len + unat (chain_length b) \<le> wlen (l_fetch (bl_log bl))"
  shows "\<exists>new. compact_collect (Suc fuel) bl len segs = compact_collect fuel bl (len + ucast (chain_length b)) (segs @ new) \<and>
    length (segs_blocks new) \<le> unat (chain_length b) \<and> (\<forall>seg \<in> set new. collected dev bl seg) \<and>
    (is_chain bid (take (unat (chain_length b)) (drop (compacted bl + unat len) (log_blocks dev (bl_log bl)))) \<longrightarrow>
       (\<forall>x. \<not> is_meta_empty (kv_bucket_meta_get (bl_meta bl) x) \<and> compacted bl + unat len \<le> chain_pos bl x \<and>
          chain_pos bl x < compacted bl + unat len + unat (chain_length b) \<longrightarrow> x \<in> seg_bucket_id ` set new))"
proof -
  let ?l = "bl_log bl" and ?c = "compacted bl"
  let ?k = "?c + unat len"
  have wf: "log_wf ?l" and s32: "unat (l_size ?l) \<le> 2 ^ 32" using inv by (simp_all add: bl_inv_def)
  have w: "wlen (l_fetch ?l) \<le> llen ?l" using li by (auto simp: log_inv_def window_inv_def Let_def)
  have kw: "?k < wlen (l_fetch ?l)" using win n by linarith
  then have kl: "?k < llen ?l" using w by linarith
  define off where "off = (ucast ((ucast (bl_compact_head bl) + ucast len) mod l_size ?l :: u64) :: u32)"
  have "unat (ucast (bl_compact_head bl) :: u64) = (unat (l_head ?l) + ?c) mod unat (l_size ?l)"
    using circ_add_dist[of "unat (l_head ?l)" "unat (l_size ?l)" "unat (bl_compact_head bl)"] wf ch by (simp add: log_wf_def)
  then have off: "unat off = (unat (l_head ?l) + ?k) mod unat (l_size ?l)"
    unfolding off_def using scan_offset[OF wf s32, of "ucast (bl_compact_head bl)" ?c "ucast len"] lt by simp
  have f1: "kv_circular_log_fetch_one ?l (ucast off) = Inr b"
    using fetch_one_correct[OF li kw, of "ucast off"] off by (simp add: b)
  have guard: "len < ucast COMPACTION_LENGTH" using lt by (simp add: COMPACTION_LENGTH_def word_less_nat_alt)
  have n0: "chain_length b \<noteq> 0" using n(1) by (simp add: unat_gt_0)
  have kn: "?k + unat (chain_length b) \<le> llen ?l" using win w by linarith
  have lc: "ucast (b_id b) = x \<and> chain_live (bl_meta bl) b off"
    if "is_chain bid (take (unat (chain_length b)) (drop ?k (log_blocks dev ?l)))" "\<not> is_meta_empty (kv_bucket_meta_get (bl_meta bl) x)"
      "?k \<le> chain_pos bl x" "chain_pos bl x < ?k + unat (chain_length b)" for x
    using live_in_chain(2,3)[OF inv that(2,1) kn that(3,4)] off by (simp add: b)
  show ?thesis
  proof (cases "chain_live (bl_meta bl) b off")
    case True
    let ?m = "kv_bucket_meta_get (bl_meta bl) (ucast (b_id b))"
    let ?seg = "\<lambda>v0 v1. (kv_bucket_seg_init (ucast (b_id b)))\<lparr>seg_empty := False,
      seg_chain := map (\<lambda>v. \<lparr>ce_addr = iov_base v, ce_buckets = iov_blocks v, pre_alloc_bucket = True\<rparr>)
        (takeWhile (\<lambda>v. iov_len v \<noteq> 0) [v0, v1])\<rparr>"
    obtain v0 v1 where f: "kv_circular_log_fetch_iov ?l (ucast (m_bucket_offset ?m)) (ucast (m_chain_length ?m)) = Inr (v0, v1)"
      and col: "collected dev bl (?seg v0 v1)"
      using collect_segment[OF inv li win b n(1) off True] by blast
    have "m_chain_length ?m = chain_length b" using live_chain(3)[OF inv kl off _ refl, folded b] True by simp
    then have len: "length (seg_buckets (?seg v0 v1)) = unat (chain_length b)"
      using col unfolding collected_def by (simp add: kv_bucket_seg_init_def)
    have "compact_collect (Suc fuel) bl len segs =
        compact_collect fuel bl (len + ucast (chain_length b)) (segs @ [?seg v0 v1])"
      using True f1 f guard n(2) n0 by (simp add: Let_def flip: off_def)
    moreover have "seg_bucket_id (?seg v0 v1) = ucast (b_id b)" by (simp add: kv_bucket_seg_init_def)
    ultimately show ?thesis using col len lc by (intro exI[of _ "[?seg v0 v1]"]) auto
  next
    case False
    then have "compact_collect (Suc fuel) bl len segs = compact_collect fuel bl (len + ucast (chain_length b)) (segs @ [])"
      using f1 guard n(2) n0 by (simp add: Let_def flip: off_def)
    then show ?thesis using False lc by (intro exI[of _ "[]"]) auto
  qed
qed

lemma compact_collect_correct:
  assumes inv: "bl_inv dev bl" and li: "log_inv dev (bl_log bl) cs" and ch: "unat (bl_compact_head bl) < unat (l_size (bl_log bl))"
    and win: "compacted bl + 638 \<le> wlen (l_fetch (bl_log bl))"
    and seq: "chain_seq (drop (compacted bl + unat len) (log_blocks dev (bl_log bl)))"
    and fuel: "512 - unat len < fuel" and len: "unat len \<le> 638"
  shows "\<exists>len' new. compact_collect fuel bl len segs = Inr (len', segs @ new) \<and>
    unat len \<le> unat len' \<and> 512 \<le> unat len' \<and> unat len' \<le> 638 \<and>
    chain_seq (drop (compacted bl + unat len') (log_blocks dev (bl_log bl))) \<and>
    chain_seq (take (unat len' - unat len) (drop (compacted bl + unat len) (log_blocks dev (bl_log bl)))) \<and>
    length (segs_blocks new) \<le> unat len' - unat len \<and> (\<forall>seg \<in> set new. collected dev bl seg) \<and>
    (\<forall>x. \<not> is_meta_empty (kv_bucket_meta_get (bl_meta bl) x) \<and> compacted bl + unat len \<le> chain_pos bl x \<and>
       chain_pos bl x < compacted bl + unat len' \<longrightarrow> x \<in> seg_bucket_id ` set new)"
  using seq fuel len
proof (induction fuel arbitrary: len segs)
  case (Suc fuel)
  let ?c = "compacted bl" and ?B = "log_blocks dev (bl_log bl)"
  have w: "wlen (l_fetch (bl_log bl)) \<le> llen (bl_log bl)" using li by (auto simp: log_inv_def window_inv_def Let_def)
  show ?case
  proof (cases "unat len < 512")
    case False
    then have "\<not> len < ucast COMPACTION_LENGTH" by (simp add: COMPACTION_LENGTH_def word_less_nat_alt)
    then show ?thesis using False Suc.prems by (intro exI[of _ len] exI[of _ "[]"]) simp
  next
    case lt: True
    let ?k = "?c + unat len"
    have kl: "?k < llen (bl_log bl)" using lt win w by linarith
    then have ne: "drop ?k ?B \<noteq> []" and hd: "hd (drop ?k ?B) = ?B ! ?k" by (simp_all add: hd_drop_conv_nth)
    obtain bid n where c: "is_chain bid (take n (drop ?k ?B))" "chain_seq (drop n (drop ?k ?B))"
      and n: "n = unat (chain_length (?B ! ?k))" "0 < n" "n < 128" and i0: "chain_index (?B ! ?k) = 0"
      using chain_seq_first[OF Suc.prems(1) ne] unfolding hd by metis
    let ?len = "len + ucast (chain_length (?B ! ?k))"
    have ul: "unat ?len = unat len + n" using lt n by (simp add: unat_word_ariths)
    have rec: "chain_seq (drop (?c + unat ?len) ?B)" "512 - unat ?len < fuel" "unat ?len \<le> 638"
      using c(2) Suc.prems(2) lt n(2,3) unfolding ul by (simp_all add: ac_simps)
    have "0 < unat (chain_length (?B ! ?k))" "?k + unat (chain_length (?B ! ?k)) \<le> wlen (l_fetch (bl_log bl))"
      using n win lt by linarith+
    then obtain new0 where step: "compact_collect (Suc fuel) bl len segs = compact_collect fuel bl ?len (segs @ new0)"
      "length (segs_blocks new0) \<le> n" "\<forall>seg \<in> set new0. collected dev bl seg"
      and all0: "\<forall>x. \<not> is_meta_empty (kv_bucket_meta_get (bl_meta bl) x) \<and> ?k \<le> chain_pos bl x \<and> chain_pos bl x < ?k + n \<longrightarrow> x \<in> seg_bucket_id ` set new0"
      using compact_collect_step[OF inv li ch refl lt _ i0, of fuel segs bid] c(1) n(1) by blast
    obtain len' new where r: "compact_collect fuel bl ?len (segs @ new0) = Inr (len', (segs @ new0) @ new)"
      "unat ?len \<le> unat len'" "512 \<le> unat len'" "unat len' \<le> 638" "chain_seq (drop (?c + unat len') ?B)"
      "chain_seq (take (unat len' - unat ?len) (drop (?c + unat ?len) ?B))"
      "length (segs_blocks new) \<le> unat len' - unat ?len" "\<forall>seg \<in> set new. collected dev bl seg"
      and all1: "\<forall>x. \<not> is_meta_empty (kv_bucket_meta_get (bl_meta bl) x) \<and> ?c + unat ?len \<le> chain_pos bl x \<and>
        chain_pos bl x < ?c + unat len' \<longrightarrow> x \<in> seg_bucket_id ` set new"
      using Suc.IH[OF rec, of "segs @ new0"] by blast
    have "x \<in> seg_bucket_id ` set (new0 @ new)" if "\<not> is_meta_empty (kv_bucket_meta_get (bl_meta bl) x)" "?k \<le> chain_pos bl x"
        "chain_pos bl x < ?c + unat len'" for x
      using that all0 all1 unfolding ul by (cases "chain_pos bl x < ?k + n") auto
    note all = this
    have split: "unat len' - unat len = n + (unat len' - unat ?len)" using r(2) ul by simp
    have "take (unat len' - unat len) (drop ?k ?B) = take n (drop ?k ?B) @ take (unat len' - unat ?len) (drop (?c + unat ?len) ?B)"
      unfolding split take_add ul by (simp add: ac_simps)
    then have "chain_seq (take (unat len' - unat len) (drop ?k ?B))" using chain_seq_Cons[OF c(1) r(6)] by simp
    moreover have "length (segs_blocks (new0 @ new)) \<le> unat len' - unat len" using r(7) step(2) split by simp
    moreover have "unat len \<le> unat len'" using r(2) ul by simp
    ultimately show ?thesis using step(1,3) r(1,3-5,8) all by (intro exI[of _ len'] exI[of _ "new0 @ new"]) auto
  qed
qed simp

section \<open>Counting dead chains\<close>

lemma scan_stop:
  fixes i :: u32
  assumes wf: "log_wf (bl_log bl)" and ch: "unat (bl_compact_head bl) < unat (l_size (bl_log bl))" and i: "unat i \<le> compacted bl"
  shows "(l_size (bl_log bl) - ucast (bl_compact_head bl) + l_head (bl_log bl) + ucast i) mod l_size (bl_log bl) = 0 \<longleftrightarrow> unat i = compacted bl"
    (is "?w = 0 \<longleftrightarrow> _")
proof -
  let ?l = "bl_log bl"
  let ?S = "unat (l_size ?l)" and ?h = "unat (l_head ?l)" and ?c = "unat (bl_compact_head bl)"
  have h: "?h < ?S" and S: "?S < 2 ^ 62" "0 < ?S" using wf log_wf_size[OF wf] by (auto simp: log_wf_def)
  have c: "compacted bl < ?S" using S by simp
  have iS: "unat i < ?S" using i c by (rule le_less_trans)
  have u1: "unat (l_size ?l - ucast (bl_compact_head bl) :: u64) = ?S - ?c" using ch by (simp add: unat_sub_le)
  have u2: "unat (l_size ?l - ucast (bl_compact_head bl) + l_head ?l) = ?S - ?c + ?h"
    using u1 h S ch by (simp add: unat_add_less)
  have "unat (l_size ?l - ucast (bl_compact_head bl) + l_head ?l) + unat (ucast i :: u64) < 2 ^ 64"
    unfolding u2 using h S iS by simp
  then have "unat (l_size ?l - ucast (bl_compact_head bl) + l_head ?l + ucast i) = ?S - ?c + ?h + unat i"
    by (simp only: unat_add_less u2 unat_ucast_simps)
  then have "unat ?w = (?S - ?c + (?h + unat i)) mod ?S" by (simp add: add.assoc)
  also have "\<dots> = (?S - ?c + (?h + unat i) mod ?S) mod ?S" by (simp add: mod_add_right_eq)
  also have "\<dots> = circ_dist ?S ?c ((?h + unat i) mod ?S)" using ch by (simp add: circ_dist_def)
  finally have w: "unat ?w = circ_dist ?S ?c ((?h + unat i) mod ?S)" .
  have hc: "(?h + compacted bl) mod ?S = ?c" using circ_add_dist[OF h ch] .
  have "circ_dist ?S ?c ((?h + unat i) mod ?S) = 0 \<longleftrightarrow> (?h + unat i) mod ?S = ?c"
    using circ_add_dist[OF ch, of "(?h + unat i) mod ?S"] S ch by auto
  also have "\<dots> \<longleftrightarrow> unat i = compacted bl" using circ_add_inj[OF iS c, of ?h] hc by auto
  finally show ?thesis using w by (metis unat_eq_zero)
qed

text \<open>Every live chain lies at least \<open>i\<close> blocks past the head.\<close>

definition live_from :: "kv_bucket_log \<Rightarrow> nat \<Rightarrow> bool" where
  "live_from bl i \<longleftrightarrow> (\<forall>b. \<not> is_meta_empty (kv_bucket_meta_get (bl_meta bl) b) \<longrightarrow> i \<le> chain_pos bl b)"

lemma live_from_dead_chain:
  assumes inv: "bl_inv dev bl" and lf: "live_from bl k" and c: "is_chain bid (take n (drop k (log_blocks dev (bl_log bl))))"
    and n: "k + n \<le> llen (bl_log bl)" and off: "unat off = (unat (l_head (bl_log bl)) + k) mod unat (l_size (bl_log bl))"
    and dead: "\<not> chain_live (bl_meta bl) (log_blocks dev (bl_log bl) ! k) off"
  shows "live_from bl (k + n)"
  unfolding live_from_def
proof (intro allI impI, rule ccontr)
  fix b assume ne: "\<not> is_meta_empty (kv_bucket_meta_get (bl_meta bl) b)" and "\<not> k + n \<le> chain_pos bl b"
  then have "k \<le> chain_pos bl b" "chain_pos bl b < k + n" using lf by (auto simp: live_from_def)
  then show False using live_in_chain(3)[OF inv ne c n _ _ off] dead by blast
qed

lemma move_head_scan_correct:
  assumes inv: "bl_inv dev bl" and li: "log_inv dev (bl_log bl) cs" and ch: "unat (bl_compact_head bl) < unat (l_size (bl_log bl))"
    and win: "compacted bl \<le> wlen (l_fetch (bl_log bl))"
    and seq: "chain_seq (drop (unat i) (take (compacted bl) (log_blocks dev (bl_log bl))))"
    and i: "unat i \<le> compacted bl" and fuel: "compacted bl - unat i < fuel" and lf: "live_from bl (unat i)"
  shows "\<exists>i'. move_head_scan fuel bl i = Inr i' \<and> unat i' \<le> compacted bl \<and> live_from bl (unat i') \<and>
    chain_seq (drop (unat i') (take (compacted bl) (log_blocks dev (bl_log bl)))) \<and>
    (unat i' = compacted bl \<or> (\<exists>b. \<not> is_meta_empty (kv_bucket_meta_get (bl_meta bl) b) \<and> chain_pos bl b = unat i'))"
  using seq i fuel lf
proof (induction fuel arbitrary: i)
  case (Suc fuel)
  let ?l = "bl_log bl" and ?c = "compacted bl" and ?B = "log_blocks dev (bl_log bl)"
  have wf: "log_wf ?l" and s32: "unat (l_size ?l) \<le> 2 ^ 32" using inv by (simp_all add: bl_inv_def)
  have w: "wlen (l_fetch ?l) \<le> llen ?l" using li by (auto simp: log_inv_def window_inv_def Let_def)
  note stop = scan_stop[OF wf ch Suc.prems(2)]
  show ?case
  proof (cases "unat i = ?c")
    case True
    then show ?thesis using stop Suc.prems by (intro exI[of _ i]) (simp add: Let_def)
  next
    case False
    then have ic: "unat i < ?c" using Suc.prems(2) by simp
    define off where "off = (ucast ((l_head ?l + ucast i) mod l_size ?l) :: u32)"
    have hm: "unat (l_head ?l) = (unat (l_head ?l) + 0) mod unat (l_size ?l)" using wf by (simp add: log_wf_def)
    have off: "unat off = (unat (l_head ?l) + unat i) mod unat (l_size ?l)"
      unfolding off_def using scan_offset[OF wf s32 hm, of "ucast i"] unsigned_less[of i] by simp
    have kw: "unat i < wlen (l_fetch ?l)" using ic win by simp
    then have kl: "unat i < llen ?l" using w by simp
    let ?b = "?B ! unat i"
    have f1: "kv_circular_log_fetch_one ?l (ucast off) = Inr ?b"
      using fetch_one_correct[OF li kw, of "ucast off"] off by simp
    show ?thesis
    proof (cases "chain_live (bl_meta bl) ?b off")
      case True
      note lv = live_chain(1,2)[OF inv kl off True refl]
      have "chain_pos bl (ucast (b_id ?b)) = unat i"
        unfolding lv(2) off using llen_less_size[OF wf] kl wf by (intro circ_dist_add) (auto simp: log_wf_def)
      then have "\<exists>b. \<not> is_meta_empty (kv_bucket_meta_get (bl_meta bl) b) \<and> chain_pos bl b = unat i" using lv(1) by blast
      then show ?thesis using True stop False f1 Suc.prems by (intro exI[of _ i]) (simp add: Let_def flip: off_def)
    next
      case dead: False
      have ne: "drop (unat i) (take ?c ?B) \<noteq> []" and hd: "hd (drop (unat i) (take ?c ?B)) = ?b"
        using ic kl win w by (simp_all add: hd_drop_conv_nth)
      obtain bid n where c: "is_chain bid (take n (drop (unat i) (take ?c ?B)))" "chain_seq (drop n (drop (unat i) (take ?c ?B)))"
        and n: "n = unat (chain_length ?b)" "0 < n" "n < 128" and le: "n \<le> length (drop (unat i) (take ?c ?B))"
        using chain_seq_first[OF Suc.prems(1) ne] unfolding hd by metis
      have nc: "unat i + n \<le> ?c" using le ic win w by simp
      let ?i = "i + ucast (chain_length ?b)"
      have S: "?c < 2 ^ 32" using llen_less_size[OF wf, of ?c] win w s32 by simp
      have ui: "unat ?i = unat i + n" using nc S n(1) by (simp add: unat_word_ariths)
      have "take n (drop (unat i) (take ?c ?B)) = take n (drop (unat i) ?B)" using nc by (simp add: take_drop min_absorb1)
      then have "live_from bl (unat i + n)"
        using live_from_dead_chain[OF inv Suc.prems(4) _ _ off dead, of bid n] c(1) nc win w by simp
      then have "\<exists>i'. move_head_scan fuel bl ?i = Inr i' \<and> unat i' \<le> ?c \<and> live_from bl (unat i') \<and> chain_seq (drop (unat i') (take ?c ?B)) \<and>
          (unat i' = ?c \<or> (\<exists>b. \<not> is_meta_empty (kv_bucket_meta_get (bl_meta bl) b) \<and> chain_pos bl b = unat i'))"
        using c(2) nc Suc.prems(3) n(2) by (intro Suc.IH) (simp_all add: ui ac_simps)
      then show ?thesis using stop False f1 dead by (simp add: Let_def flip: off_def)
    qed
  qed
qed simp

end
