(* ===== verification/Bucket_Compaction.thy ===== *)
theory Bucket_Compaction
  imports Compaction_Scan
begin

unbundle bit_operations_syntax

text \<open>
  What the compaction of the bucket log does to the log: appends of segments, moves of the
  compaction head, commits of copies and trims of the head keep the log a sequence of whole
  chains, keep the segments in flight on the log, and leave the chain of every bucket as it
  is. The code stamps the buckets of a copy in place, in the prefetch window, before it
  appends them; the model stamps the appended copy, and no loop here reads the stamps.
\<close>

section \<open>Segments in flight\<close>

text \<open>The distance of the copy of a segment from the head of the log.\<close>

abbreviation seg_pos :: "kv_bucket_log \<Rightarrow> kv_bucket_segment \<Rightarrow> nat" where
  "seg_pos bl seg \<equiv> circ_dist (unat (l_size (bl_log bl))) (unat (l_head (bl_log bl))) (unat (seg_offset seg))"

text \<open>A run of blocks on the device, from an offset of the log on.\<close>

definition run_at :: "(nat \<Rightarrow> 'b) \<Rightarrow> 'b kv_circular_log \<Rightarrow> nat \<Rightarrow> nat \<Rightarrow> 'b list" where
  "run_at dev l off n = map (\<lambda>i. dev (unat (l_base l) + (off + i) mod unat (l_size l))) [0..<n]"

lemma run_at_cong: "l_base l = l_base l' \<Longrightarrow> l_size l = l_size l' \<Longrightarrow> run_at dev l off n = run_at dev l' off n"
  by (simp add: run_at_def)

lemma length_run_at [simp]: "length (run_at dev l off n) = n"
  by (simp add: run_at_def)

lemma disk_chain_run_at:
  "disk_chain dev bl b = (let m = kv_bucket_meta_get (bl_meta bl) b in
     run_at dev (bl_log bl) (unat (m_bucket_offset m)) (unat (m_chain_length m)))"
  by (simp add: disk_chain_def run_at_def Let_def)

text \<open>A segment that has been written past the compaction head and may be committed.\<close>

definition on_log :: "(nat \<Rightarrow> kv_bucket) \<Rightarrow> kv_bucket_log \<Rightarrow> kv_bucket_segment \<Rightarrow> bool" where
  "on_log dev bl seg \<longleftrightarrow> seg_wf seg \<and> seg_chain seg \<noteq> [] \<and> seg_bucket_id seg < KV_BUCKET_ID_EMPTY \<and>
     unat (seg_offset seg) < unat (l_size (bl_log bl)) \<and> compacted bl \<le> seg_pos bl seg \<and>
     seg_pos bl seg + length (seg_buckets seg) \<le> llen (bl_log bl) \<and>
     map unstamp (run_at dev (bl_log bl) (unat (seg_offset seg)) (length (seg_buckets seg))) = map unstamp (seg_buckets seg)"

text \<open>The chain of the bucket lies in the stretch of the compaction: the test of \<open>compact_write_cb\<close>.\<close>

definition in_stretch :: "kv_bucket_log \<Rightarrow> compact_ctx \<Rightarrow> u64 \<Rightarrow> bool" where
  "in_stretch bl ctx b \<longleftrightarrow> (let m = kv_bucket_meta_get (bl_meta bl) b in
     circ_dist (unat (l_size (bl_log bl))) (unat (cc_compact_head ctx)) (unat (m_bucket_offset m)) < unat (cc_len ctx) \<and>
     m_chain_length m \<noteq> 0)"

text \<open>The distance from the stretch of a compaction to the compaction head.\<close>

abbreviation ctx_dist :: "kv_bucket_log \<Rightarrow> compact_ctx \<Rightarrow> nat" where
  "ctx_dist bl ctx \<equiv> circ_dist (unat (l_size (bl_log bl))) (unat (cc_compact_head ctx)) (unat (bl_compact_head bl))"

text \<open>
  A compaction under way: its stretch ends before the compaction head, the tail has not come
  round to it, and the copy of a chain that is still in the stretch is a copy of that chain.
\<close>

definition ctx_ok :: "(nat \<Rightarrow> kv_bucket) \<Rightarrow> kv_bucket_log \<Rightarrow> compact_ctx \<Rightarrow> bool" where
  "ctx_ok dev bl ctx \<longleftrightarrow> unat (cc_compact_head ctx) < unat (l_size (bl_log bl)) \<and> unat (cc_len ctx) \<le> ctx_dist bl ctx \<and>
     ctx_dist bl ctx + (llen (bl_log bl) - compacted bl) < unat (l_size (bl_log bl)) \<and>
     (\<forall>seg \<in> set (cc_segments ctx). on_log dev bl seg \<and>
        (in_stretch bl ctx (seg_bucket_id seg) \<longrightarrow>
           map unstamp (disk_chain dev bl (seg_bucket_id seg)) = map unstamp (seg_buckets seg)))"

text \<open>Every live chain before the compaction head is being copied by a compaction.\<close>

definition covered :: "kv_bucket_log \<Rightarrow> compact_ctx list \<Rightarrow> bool" where
  "covered bl ctxs \<longleftrightarrow> (\<forall>b. \<not> is_meta_empty (kv_bucket_meta_get (bl_meta bl) b) \<and> chain_pos bl b < compacted bl \<longrightarrow>
     (\<exists>ctx \<in> set ctxs. in_stretch bl ctx b \<and> b \<in> seg_bucket_id ` set (cc_segments ctx)))"

section \<open>The log between compactions\<close>

definition empty_chain :: "kv_bucket list \<Rightarrow> bool" where
  "empty_chain bs \<longleftrightarrow> length bs \<le> 1 \<and> list_all (list_all KV_EMPTY_ITEM) (map items bs)"

lemma empty_chain_unstamp: "map unstamp bs = map unstamp bs' \<Longrightarrow> empty_chain bs = empty_chain bs'"
  using unstamp_eqD(1,2)[of bs bs'] by (simp add: empty_chain_def)

text \<open>
  The sizes are those of \<open>kv_bucket_log_init\<close>. The log is a sequence of whole chains with a
  boundary at the compaction head, the window reaches to the compaction head, and a log that
  is partly compacted is longer than its window.
\<close>

definition bl_ok :: "(nat \<Rightarrow> kv_bucket) \<Rightarrow> kv_bucket_log \<Rightarrow> kv_bucket fetch_ctx list \<Rightarrow> bool" where
  "bl_ok dev bl cs \<longleftrightarrow> bl_inv dev bl \<and> log_inv dev (bl_log bl) cs \<and> window_sync (bl_log bl) \<and>
     32768 \<le> unat (l_size (bl_log bl)) \<and> unat (f_size (l_fetch (bl_log bl))) \<le> 8193 \<and>
     unat (bl_compact_head bl) < unat (l_size (bl_log bl)) \<and> compacted bl \<le> wlen (l_fetch (bl_log bl)) \<and>
     (compacted bl = 0 \<or> unat (f_size (l_fetch (bl_log bl))) - 1 + compacted bl \<le> llen (bl_log bl)) \<and>
     chain_seq (take (compacted bl) (log_blocks dev (bl_log bl))) \<and>
     chain_seq (drop (compacted bl) (log_blocks dev (bl_log bl))) \<and>
     (\<forall>b. \<not> is_meta_empty (kv_bucket_meta_get (bl_meta bl) b) \<longrightarrow> \<not> empty_chain (disk_chain dev bl b))"

lemma bl_okD:
  assumes "bl_ok dev bl cs"
  shows "bl_inv dev bl" "log_inv dev (bl_log bl) cs" "log_wf (bl_log bl)" "unat (l_size (bl_log bl)) \<le> 2 ^ 32"
    "unat (l_head (bl_log bl)) < unat (l_size (bl_log bl))" "unat (l_tail (bl_log bl)) < unat (l_size (bl_log bl))"
    "wlen (l_fetch (bl_log bl)) \<le> llen (bl_log bl)" "compacted bl \<le> llen (bl_log bl)"
    "llen (bl_log bl) < unat (l_size (bl_log bl))" "unat (bl_compact_head bl) < unat (l_size (bl_log bl))"
proof -
  show inv: "bl_inv dev bl" and li: "log_inv dev (bl_log bl) cs" and c: "unat (bl_compact_head bl) < unat (l_size (bl_log bl))"
    using assms by (simp_all add: bl_ok_def)
  show wf: "log_wf (bl_log bl)" using inv by (simp add: bl_inv_def)
  show "unat (l_size (bl_log bl)) \<le> 2 ^ 32" using inv by (simp add: bl_inv_def)
  show "unat (l_head (bl_log bl)) < unat (l_size (bl_log bl))" "unat (l_tail (bl_log bl)) < unat (l_size (bl_log bl))"
    using wf by (auto simp: log_wf_def)
  show w: "wlen (l_fetch (bl_log bl)) \<le> llen (bl_log bl)" using li by (auto simp: log_inv_def window_inv_def Let_def)
  then show "compacted bl \<le> llen (bl_log bl)" using assms by (simp add: bl_ok_def)
  show "llen (bl_log bl) < unat (l_size (bl_log bl))" using log_wf_size[OF wf] by simp
qed

text \<open>An offset past the compaction head lies outside the stretch of every compaction.\<close>

lemma past_compaction_head:
  assumes ok: "bl_ok dev bl cs" and ctx: "ctx_ok dev bl ctx" and o: "x < unat (l_size (bl_log bl))"
    and c: "compacted bl \<le> circ_dist (unat (l_size (bl_log bl))) (unat (l_head (bl_log bl))) x"
    and e: "circ_dist (unat (l_size (bl_log bl))) (unat (l_head (bl_log bl))) x \<le> llen (bl_log bl)"
  shows "\<not> circ_dist (unat (l_size (bl_log bl))) (unat (cc_compact_head ctx)) x < unat (cc_len ctx)"
proof -
  let ?l = "bl_log bl" and ?h = "unat (cc_compact_head ctx)"
  let ?S = "unat (l_size ?l)"
  let ?p = "circ_dist ?S (unat (l_head ?l)) x"
  let ?j = "?p - compacted bl"
  note d = bl_okD[OF ok]
  have h: "?h < ?S" and len: "unat (cc_len ctx) \<le> ctx_dist bl ctx" and r: "ctx_dist bl ctx + (llen ?l - compacted bl) < ?S"
    using ctx by (simp_all add: ctx_ok_def)
  have "(unat (bl_compact_head bl) + ?j) mod ?S = ((unat (l_head ?l) + compacted bl) mod ?S + ?j) mod ?S"
    using circ_add_dist[OF d(5,10)] by simp
  also have "\<dots> = (unat (l_head ?l) + ?p) mod ?S" unfolding mod_shift using c by simp
  also have "\<dots> = x" using circ_add_dist[OF d(5) o] .
  finally have e1: "(unat (bl_compact_head bl) + ?j) mod ?S = x" .
  have "(?h + (ctx_dist bl ctx + ?j)) mod ?S = ((?h + ctx_dist bl ctx) mod ?S + ?j) mod ?S" by (simp only: mod_shift)
  then have "x = (?h + (ctx_dist bl ctx + ?j)) mod ?S" using e1 circ_add_dist[OF h d(10)] by simp
  moreover have "ctx_dist bl ctx + ?j < ?S" using e r by linarith
  ultimately have "circ_dist ?S ?h x = ctx_dist bl ctx + ?j" using circ_dist_add[OF h] by metis
  then show ?thesis using len by simp
qed

lemma on_log_not_in_stretch:
  assumes "bl_ok dev bl cs" and "ctx_ok dev bl ctx" and "on_log dev bl seg"
  shows "\<not> circ_dist (unat (l_size (bl_log bl))) (unat (cc_compact_head ctx)) (unat (seg_offset seg)) < unat (cc_len ctx)"
  using past_compaction_head[OF assms(1,2), of "unat (seg_offset seg)"] assms(3) by (simp add: on_log_def)

text \<open>
  The segments of a compaction point into the prefetch window. A chain that its completion
  commits still lies there: the head has not passed it, and the window has not moved on.
\<close>

lemma stretch_in_window:
  assumes ok: "bl_ok dev bl cs" and ctx: "ctx_ok dev bl ctx" and st: "in_stretch bl ctx b"
  shows "chain_pos bl b + unat (m_chain_length (kv_bucket_meta_get (bl_meta bl) b)) \<le> wlen (l_fetch (bl_log bl))"
proof -
  let ?m = "kv_bucket_meta_get (bl_meta bl) b" and ?B = "log_blocks dev (bl_log bl)" and ?p = "chain_pos bl b"
  note d = bl_okD[OF ok]
  have ne: "\<not> is_meta_empty ?m" using st by (simp add: in_stretch_def is_meta_empty_def Let_def)
  have ci: "chain_inside (bl_log bl) ?m" and ic: "is_chain (ucast b) (disk_chain dev bl b)" using d(1) ne by (simp_all add: bl_inv_def)
  have "\<not> compacted bl \<le> ?p" using past_compaction_head[OF ok ctx, of "unat (m_bucket_offset ?m)"] st ci
    by (auto simp: in_stretch_def chain_inside_def Let_def)
  then have p: "?p < compacted bl" by simp
  have "0 < unat (m_chain_length ?m)" using ne by (simp add: is_meta_empty_def unat_gt_0)
  then have "hd (disk_chain dev bl b) = take (compacted bl) ?B ! ?p"
    unfolding disk_chain_in_log[OF d(3) ci, of dev] using p d(8) by (simp add: hd_drop_conv_nth)
  then have "?p + unat (m_chain_length ?m) \<le> length (take (compacted bl) ?B)"
    using chain_seq_start[of "take (compacted bl) ?B" ?p] is_chain_hd(1,3)[OF ic] ok p d(8) by (simp add: bl_ok_def)
  then show ?thesis using ok d(8) by (simp add: bl_ok_def)
qed

section \<open>Appends\<close>

text \<open>A log that is longer than its window does not copy appended blocks into it.\<close>

lemma append_fetch:
  assumes "log_wf l" and "length (iov_data vs) < 2 ^ 62"
  shows "f_size (l_fetch (append_state l vs)) = f_size (l_fetch l)"
    and "unat (f_size (l_fetch l)) - 1 \<le> llen l \<Longrightarrow> l_fetch (append_state l vs) = l_fetch l"
  using assms by (cases rule: copy_to_fetch_buf_cases; simp add: append_state_def)+

lemma append_ok:
  fixes vs :: "kv_bucket iovec list" and t :: u32
  assumes ok: "bl_ok dev bl cs" and room: "llen (bl_log bl) + length (iov_data vs) < unat (l_size (bl_log bl))"
    and seq: "chain_seq (iov_data vs)"
  defines "dev' \<equiv> circ_write dev (unat (l_base (bl_log bl))) (unat (l_size (bl_log bl))) (unat (l_tail (bl_log bl))) (iov_data vs)"
    and "bl' \<equiv> bl\<lparr>bl_tail := t, bl_log := append_state (bl_log bl) vs\<rparr>"
  shows "llen (bl_log bl') = llen (bl_log bl) + length (iov_data vs)" and "compacted bl' = compacted bl"
    and "log_blocks dev' (bl_log bl') = log_blocks dev (bl_log bl) @ iov_data vs"
    and "disk_chain dev' bl' b = disk_chain dev bl b" and "bl_ok dev' bl' cs"
    and "on_log dev bl seg \<Longrightarrow> on_log dev' bl' seg"
    and "ctx_ok dev bl ctx \<Longrightarrow> ctx_dist bl ctx + (llen (bl_log bl) + length (iov_data vs) - compacted bl) < unat (l_size (bl_log bl)) \<Longrightarrow>
      ctx_ok dev' bl' ctx"
proof -
  let ?l = "bl_log bl"
  note d = bl_okD[OF ok]
  have D62: "length (iov_data vs) < 2 ^ 62" using room log_wf_size(2)[OF d(3)] by simp
  show ll: "llen (bl_log bl') = llen ?l + length (iov_data vs)" using llen_append_state[OF d(3) room] by (simp add: bl'_def)
  show c: "compacted bl' = compacted bl" by (simp add: bl'_def append_state_frame)
  show lb: "log_blocks dev' (bl_log bl') = log_blocks dev ?l @ iov_data vs"
    using log_blocks_append[OF d(3) room] by (simp add: dev'_def bl'_def)
  note kc = put_keeps_chains[OF d(1) room dev'_def[THEN meta_eq_to_obj_eq], of t, folded bl'_def]
  show "disk_chain dev' bl' b = disk_chain dev bl b" by (rule kc(1))
  have sync: "window_sync ?l" "window_inv dev ?l" using ok d(2) by (simp_all add: bl_ok_def log_inv_def)
  note li = append_inv[OF d(2) sync(1) room, folded dev'_def] and aw = append_window[OF d(3) room sync(2,1), folded dev'_def]
  have cw: "compacted bl' \<le> wlen (l_fetch (bl_log bl'))"
  proof (cases "compacted bl = 0")
    case False
    then have "l_fetch (append_state ?l vs) = l_fetch ?l" using ok append_fetch(2)[OF d(3) D62] by (auto simp: bl_ok_def)
    then have "l_fetch (bl_log bl') = l_fetch ?l" by (simp add: bl'_def)
    then show ?thesis unfolding c using ok by (simp add: bl_ok_def)
  qed (use c in simp)
  have "chain_seq (drop (compacted bl) (log_blocks dev ?l) @ iov_data vs)" using ok seq chain_seq_append by (simp add: bl_ok_def)
  then have "chain_seq (take (compacted bl') (log_blocks dev' (bl_log bl')))" "chain_seq (drop (compacted bl') (log_blocks dev' (bl_log bl')))"
    unfolding c lb using ok d(8) by (simp_all add: bl_ok_def)
  moreover have "compacted bl' = 0 \<or> unat (f_size (l_fetch (bl_log bl'))) - 1 + compacted bl' \<le> llen (bl_log bl')"
    unfolding c ll using ok append_fetch(1)[OF d(3) D62] by (auto simp: bl_ok_def bl'_def)
  ultimately show "bl_ok dev' bl' cs"
    using ok kc li aw cw append_fetch(1)[OF d(3) D62] by (simp add: bl_ok_def bl'_def append_state_frame)
  show ol: "on_log dev' bl' seg" if "on_log dev bl seg" for seg
  proof -
    have f: "unat (seg_offset seg) < unat (l_size ?l)" "seg_pos bl seg + length (seg_buckets seg) \<le> llen ?l"
      using that by (simp_all add: on_log_def)
    have fr: "seg_pos bl' seg = seg_pos bl seg" "l_base (bl_log bl') = l_base ?l" "l_size (bl_log bl') = l_size ?l"
      by (simp_all add: bl'_def append_state_frame)
    have "run_at dev' (bl_log bl') (unat (seg_offset seg)) (length (seg_buckets seg)) =
        run_at dev ?l (unat (seg_offset seg)) (length (seg_buckets seg))"
      using circ_write_outside[OF d(3) room refl f] by (auto simp: dev'_def fr run_at_def)
    then show ?thesis using that ll c fr unfolding on_log_def by simp
  qed
  show "ctx_ok dev' bl' ctx" if co: "ctx_ok dev bl ctx"
    and r: "ctx_dist bl ctx + (llen ?l + length (iov_data vs) - compacted bl) < unat (l_size ?l)"
  proof -
    have fr: "l_size (bl_log bl') = l_size ?l" "bl_compact_head bl' = bl_compact_head bl" "bl_meta bl' = bl_meta bl"
      by (simp_all add: bl'_def append_state_frame)
    then have "in_stretch bl' = in_stretch bl" by (intro ext) (simp add: in_stretch_def)
    then show ?thesis using co r ol kc(1) ll c fr unfolding ctx_ok_def by simp
  qed
qed

section \<open>Segments put in bulk\<close>

definition seg_ready :: "kv_bucket_segment \<Rightarrow> bool" where
  "seg_ready seg \<longleftrightarrow> seg_wf seg \<and> seg_chain seg \<noteq> [] \<and> chain_aligned (seg_chain seg) \<and> seg_bucket_id seg < KV_BUCKET_ID_EMPTY"

lemma seg_ready_chain: "seg_ready seg \<Longrightarrow> is_chain (ucast (seg_bucket_id seg)) (seg_buckets seg)"
  by (simp add: seg_ready_def seg_wf_def)

text \<open>The offsets that \<open>kv_bucket_seg_put_bulk\<close> gives its segments.\<close>

fun place_segs :: "kv_bucket_log \<Rightarrow> nat \<Rightarrow> kv_bucket_segment list \<Rightarrow> kv_bucket_segment list" where
  "place_segs bl n [] = []"
| "place_segs bl n (seg # segs) =
     seg\<lparr>seg_offset := word_of_nat ((unat (l_tail (bl_log bl)) + n) mod unat (l_size (bl_log bl)))\<rparr> #
     place_segs bl (n + length (seg_buckets seg)) segs"

lemma put_bulk_loop_eq:
  assumes wf: "log_wf (bl_log bl)" and s32: "unat (l_size (bl_log bl)) \<le> 2 ^ 32"
    and "list_all seg_ready segs" and "unat len + length (segs_blocks segs) < 2 ^ 32"
  shows "\<exists>iovs'. put_bulk_loop bl len iovs segs = Inr (place_segs bl (unat len) segs, iovs') \<and>
    iov_data iovs' = iov_data iovs @ segs_blocks segs \<and> (iov_aligned iovs \<longrightarrow> iov_aligned iovs')"
  using assms(3,4)
proof (induction segs arbitrary: len iovs)
  case (Cons seg segs)
  let ?l = "bl_log bl" and ?n = "length (seg_buckets seg)"
  let ?iovs = "fold (\<lambda>ce acc. iov_append acc (ce_addr ce) (ce_buckets ce)) (seg_chain seg) iovs"
  have r: "seg_wf seg" "seg_chain seg \<noteq> []" "chain_aligned (seg_chain seg)" "seg_bucket_id seg < KV_BUCKET_ID_EMPTY"
    and c: "is_chain (ucast (seg_bucket_id seg)) (seg_buckets seg)"
    using Cons.prems(1) seg_ready_chain[of seg] by (auto simp: seg_ready_def)
  note vb = verify_buckets_ok[OF c chain_id_not_reserved[OF r(4)]] and fb = first_bucket_eq[OF r(1,2)]
  have un: "unat (chain_length (hd (seg_buckets seg))) = ?n" using is_chain_hd(1)[OF c] .
  have ul: "unat (len + ucast (chain_length (hd (seg_buckets seg)))) = unat len + ?n"
    using Cons.prems(2) un by (simp add: unat_word_ariths)
  have S: "0 < unat (l_size ?l)" using log_wf_size[OF wf] by simp
  have tl: "unat (l_tail ?l) = (unat (l_head ?l) + llen ?l) mod unat (l_size ?l)"
    using circ_add_dist[of "unat (l_head ?l)" "unat (l_size ?l)" "unat (l_tail ?l)"] wf by (simp add: log_wf_def)
  have "unat (ucast ((l_tail ?l + ucast len) mod l_size ?l) :: u32) = (unat (l_tail ?l) + unat len) mod unat (l_size ?l)"
    using scan_offset[OF wf s32 tl, of "ucast len"] unsigned_less[of len] by (simp only: mod_shift[symmetric] tl[symmetric] unat_ucast_simps) simp
  moreover have "(unat (l_tail ?l) + unat len) mod unat (l_size ?l) < 2 ^ 32" using S s32 by (meson less_le_trans mod_less_divisor)
  ultimately have off: "(ucast ((l_tail ?l + ucast len) mod l_size ?l) :: u32) = word_of_nat ((unat (l_tail ?l) + unat len) mod unat (l_size ?l))"
    by (simp add: word_unat_eq_iff unat_of_nat del: unat_mod)
  obtain iovs' where ih: "put_bulk_loop bl (len + ucast (chain_length (hd (seg_buckets seg)))) ?iovs segs =
      Inr (place_segs bl (unat len + ?n) segs, iovs')" "iov_data iovs' = iov_data ?iovs @ segs_blocks segs" "iov_aligned ?iovs \<longrightarrow> iov_aligned iovs'"
    using Cons.IH[of "len + ucast (chain_length (hd (seg_buckets seg)))" ?iovs] Cons.prems unfolding ul by auto
  show ?case using ih vb fb(1) off fold_iov_append(1)[of "seg_chain seg" iovs] fold_iov_append(2)[OF _ r(3), of iovs]
    by (simp add: Let_def seg_buckets_def)
qed simp

lemma placed_position:
  assumes ok: "bl_ok dev bl cs" and n: "llen (bl_log bl) + n < unat (l_size (bl_log bl))"
  defines "off \<equiv> word_of_nat ((unat (l_tail (bl_log bl)) + n) mod unat (l_size (bl_log bl))) :: u32"
  shows "unat off = (unat (l_tail (bl_log bl)) + n) mod unat (l_size (bl_log bl))"
    and "circ_dist (unat (l_size (bl_log bl))) (unat (l_head (bl_log bl))) (unat off) = llen (bl_log bl) + n"
proof -
  note d = bl_okD[OF ok]
  have "(unat (l_tail (bl_log bl)) + n) mod unat (l_size (bl_log bl)) < 2 ^ 32" 
    using d(4,5) by (meson less_le_trans mod_less_divisor order_le_less_trans zero_le)
  then show u: "unat off = (unat (l_tail (bl_log bl)) + n) mod unat (l_size (bl_log bl))" by (simp add: off_def unat_of_nat)
  show "circ_dist (unat (l_size (bl_log bl))) (unat (l_head (bl_log bl))) (unat off) = llen (bl_log bl) + n"
    unfolding u using circ_dist_advance_tail[OF d(5,6) n] .
qed

lemma placed_on_log:
  fixes vs :: "kv_bucket iovec list" and t :: u32
  assumes ok: "bl_ok dev bl cs" and room: "llen (bl_log bl) + length (iov_data vs) < unat (l_size (bl_log bl))"
    and seq: "chain_seq (iov_data vs)"
    and data: "map unstamp (iov_data vs) = map unstamp (pre @ segs_blocks segs)" and ready: "list_all seg_ready segs"
    and seg: "seg \<in> set (place_segs bl (length pre) segs)"
  defines "dev' \<equiv> circ_write dev (unat (l_base (bl_log bl))) (unat (l_size (bl_log bl))) (unat (l_tail (bl_log bl))) (iov_data vs)"
    and "bl' \<equiv> bl\<lparr>bl_tail := t, bl_log := append_state (bl_log bl) vs\<rparr>"
  shows "on_log dev' bl' seg \<and> llen (bl_log bl) \<le> seg_pos bl' seg"
  using data ready seg
proof (induction segs arbitrary: pre)
  case (Cons sg segs)
  let ?l = "bl_log bl" and ?n = "length (seg_buckets sg)"
  let ?sg = "sg\<lparr>seg_offset := word_of_nat ((unat (l_tail ?l) + length pre) mod unat (l_size ?l))\<rparr>"
  note ap = append_ok[OF ok room seq, where t = t, folded dev'_def bl'_def]
  show ?case
  proof (cases "seg = ?sg")
    case False
    then show ?thesis using Cons.IH[of "pre @ seg_buckets sg"] Cons.prems by simp
  next
    case True
    have c: "is_chain (ucast (seg_bucket_id sg)) (seg_buckets sg)" using Cons.prems(2) seg_ready_chain by simp
    then have n0: "0 < ?n" by (simp add: is_chain_def)
    have len: "length (iov_data vs) = length pre + ?n + length (segs_blocks segs)"
      using map_eq_imp_length_eq[OF Cons.prems(1)] by simp
    have lt: "llen ?l + length pre < unat (l_size ?l)" using room len by simp
    note pl = placed_position[OF ok lt]
    have fr: "l_size (bl_log bl') = l_size ?l" "l_head (bl_log bl') = l_head ?l" by (simp_all add: bl'_def append_state_frame)
    have pos: "seg_pos bl' seg = llen ?l + length pre" using pl(2) True fr by simp
    have off: "unat (seg_offset seg) < unat (l_size ?l)" using pl(1) True bl_okD(5)[OF ok] by simp
    have inside: "seg_pos bl' seg + ?n \<le> llen (bl_log bl')" unfolding pos ap(1) using len by simp
    have "run_at dev' (bl_log bl') (unat (seg_offset seg)) ?n = take ?n (drop (seg_pos bl' seg) (log_blocks dev' (bl_log bl')))"
      unfolding run_at_def using log_run[OF bl_okD(3)[OF ap(5)], of "unat (seg_offset seg)" ?n dev'] off inside fr by simp
    also have "\<dots> = take ?n (drop (length pre) (iov_data vs))" unfolding pos ap(3) by simp
    finally have "map unstamp (run_at dev' (bl_log bl') (unat (seg_offset seg)) ?n) = take ?n (drop (length pre) (map unstamp (iov_data vs)))"
      by (simp add: take_map drop_map)
    also have "\<dots> = map unstamp (seg_buckets sg)" unfolding Cons.prems(1) by simp
    finally have "map unstamp (run_at dev' (bl_log bl') (unat (seg_offset seg)) ?n) = map unstamp (seg_buckets sg)" .
    moreover have "compacted bl' \<le> llen ?l" unfolding ap(2) by (rule bl_okD(8)[OF ok])
    moreover have "seg_wf seg" "seg_chain seg \<noteq> []" "seg_bucket_id seg < KV_BUCKET_ID_EMPTY" "seg_buckets seg = seg_buckets sg"
      using Cons.prems(2) by (auto simp: True seg_ready_def seg_wf_def)
    ultimately show ?thesis using off inside pos fr unfolding on_log_def by simp
  qed
qed simp

text \<open>What an append of segments leaves: the same log, longer, with the segments at its tail.\<close>

definition log_grown :: "(nat \<Rightarrow> kv_bucket) \<Rightarrow> kv_bucket_log \<Rightarrow> kv_bucket_segment list \<Rightarrow> kv_bucket fetch_ctx list
    \<Rightarrow> (nat \<Rightarrow> kv_bucket) \<Rightarrow> kv_bucket_log \<Rightarrow> bool" where
  "log_grown dev bl segs cs dev' bl' \<longleftrightarrow> bl_ok dev' bl' cs \<and>
     llen (bl_log bl') = llen (bl_log bl) + length (segs_blocks segs) \<and>
     unat (l_tail (bl_log bl')) = (unat (l_tail (bl_log bl)) + length (segs_blocks segs)) mod unat (l_size (bl_log bl)) \<and> l_size (bl_log bl') = l_size (bl_log bl) \<and>
     l_head (bl_log bl') = l_head (bl_log bl) \<and> bl_compact_head bl' = bl_compact_head bl \<and> bl_meta bl' = bl_meta bl \<and>
     (\<forall>b. disk_chain dev' bl' b = disk_chain dev bl b) \<and> (\<forall>seg. on_log dev bl seg \<longrightarrow> on_log dev' bl' seg) \<and>
     (\<forall>ctx. ctx_ok dev bl ctx \<longrightarrow>
        ctx_dist bl ctx + (llen (bl_log bl) + length (segs_blocks segs) - compacted bl) < unat (l_size (bl_log bl)) \<longrightarrow> ctx_ok dev' bl' ctx) \<and>
     (\<forall>seg \<in> set (place_segs bl 0 segs). on_log dev' bl' seg \<and> llen (bl_log bl) \<le> seg_pos bl' seg) \<and>
     (unat (f_size (l_fetch (bl_log bl))) - 1 \<le> llen (bl_log bl) \<longrightarrow> l_fetch (bl_log bl') = l_fetch (bl_log bl)) \<and>
     (compact_idle bl' \<longleftrightarrow> put_idle bl (length (segs_blocks segs)))"

lemma log_grownD:
  assumes "log_grown dev bl segs cs dev' bl'"
  shows "bl_ok dev' bl' cs" "llen (bl_log bl') = llen (bl_log bl) + length (segs_blocks segs)" "l_size (bl_log bl') = l_size (bl_log bl)"
    "compact_idle bl' \<longleftrightarrow> put_idle bl (length (segs_blocks segs))"
    "\<And>seg. seg \<in> set (place_segs bl 0 segs) \<Longrightarrow> on_log dev' bl' seg \<and> llen (bl_log bl) \<le> seg_pos bl' seg"
  using assms unfolding log_grown_def by blast+

lemma chain_seq_segs: "list_all seg_ready segs \<Longrightarrow> chain_seq (segs_blocks segs)"
  by (induction segs) (auto intro: chain_seq_Cons dest: seg_ready_chain)

lemma put_bulk_appends:
  fixes cb :: "'c bl_cb"
  assumes ok: "bl_ok dev bl cs" and ready: "list_all seg_ready segs" and ne: "segs \<noteq> []"
    and room: "llen (bl_log bl) + length (segs_blocks segs) < unat (l_size (bl_log bl))"
  shows "\<exists>bl1 ios. seg_put_bulk fuel bl segs cb = rbind (compact fuel bl1) (\<lambda>(bl', evs).
      Inr (bl', place_segs bl 0 segs, Bl_append (with_segments (place_segs bl 0 segs) cb) (Iov_issued ios) # evs)) \<and>
    log_grown dev bl segs cs (exec_ios ios dev) bl1"
proof -
  let ?l = "bl_log bl" and ?D = "segs_blocks segs"
  note d = bl_okD[OF ok]
  have "length ?D < 2 ^ 32" using room d(4) by simp
  then obtain iovs where pb: "put_bulk_loop bl 0 [] segs = Inr (place_segs bl 0 segs, iovs)" and di: "iov_data iovs = ?D" and ai: "iov_aligned iovs"
    using put_bulk_loop_eq[OF d(3,4) ready, of 0 "[]"] by auto
  obtain t vs where st: "stamp_iovs (bl_size bl) (bl_head bl) (bl_tail bl) iovs = (t, vs)" by fastforce
  have un: "map unstamp (iov_data vs) = map unstamp ?D" and ba: "map iov_base vs = map iov_base iovs"
    using stamp_iovs_same[OF st] di by simp_all
  have al: "iov_aligned vs" using ai by (simp only: iov_aligned_bases ba)
  have len: "length (iov_data vs) = length ?D" using map_eq_imp_length_eq[OF un] .
  have room': "llen ?l + length (iov_data vs) < unat (l_size ?l)" using room len by simp
  have seq: "chain_seq (iov_data vs)" using chain_seq_unstamp[OF chain_seq_segs[OF ready] un] .
  obtain ios where av: "kv_circular_log_appendv ?l vs = Inr (append_state ?l vs, Iov_issued ios)"
    and ex: "exec_ios ios dev = circ_write dev (unat (l_base ?l)) (unat (l_size ?l)) (unat (l_tail ?l)) (iov_data vs)"
    using appendv_eq[OF d(3) al room'] by blast
  let ?bl = "bl\<lparr>bl_tail := t, bl_log := append_state ?l vs\<rparr>"
  have wv: "writev_append bl iovs = Inr (?bl, Iov_issued ios)" using st av by (simp add: writev_append_def)
  have "\<not> list_all (\<lambda>seg. seg_chain seg = []) segs" using ready ne by (cases segs) (auto simp: seg_ready_def)
  then have eq: "seg_put_bulk fuel bl segs cb = rbind (compact fuel ?bl) (\<lambda>(bl', evs).
      Inr (bl', place_segs bl 0 segs, Bl_append (with_segments (place_segs bl 0 segs) cb) (Iov_issued ios) # evs))"
    using pb wv by (simp add: rbind_assoc case_prod_beta')
  have D62: "length (iov_data vs) < 2 ^ 62" using room' log_wf_size(2)[OF d(3)] by simp
  note ap = append_ok[OF ok room' seq, where t = t, folded ex] and af = append_fetch[OF d(3) D62]
  have pl: "on_log (exec_ios ios dev) ?bl seg \<and> llen ?l \<le> seg_pos ?bl seg" if "seg \<in> set (place_segs bl 0 segs)" for seg
    using placed_on_log[OF ok room' seq, where pre = "[]" and segs = segs and t = t, folded ex] un ready that by simp
  have "log_grown dev bl segs cs (exec_ios ios dev) ?bl"
    unfolding log_grown_def using ap af(2) pl unat_append_tail[OF d(3), of vs] compact_idle_append_state[where bl = bl and t = t and vs = vs]
    unfolding len by (auto simp: append_state_frame)
  then show ?thesis using eq by blast
qed

section \<open>The compaction head moves\<close>

lemma in_stretch_cong:
  "l_size (bl_log bl') = l_size (bl_log bl) \<Longrightarrow> bl_meta bl' = bl_meta bl \<Longrightarrow> in_stretch bl' = in_stretch bl"
  by (intro ext) (simp add: in_stretch_def)

lemma disk_chain_cong:
  "l_size (bl_log bl') = l_size (bl_log bl) \<Longrightarrow> l_base (bl_log bl') = l_base (bl_log bl) \<Longrightarrow> bl_meta bl' = bl_meta bl \<Longrightarrow>
     disk_chain dev bl' = disk_chain dev bl"
  by (intro ext) (simp add: disk_chain_def Let_def)

lemma covered_mono: "covered bl ctxs \<Longrightarrow> set ctxs \<subseteq> set ctxs' \<Longrightarrow> covered bl ctxs'"
  unfolding covered_def by (meson subset_iff)

lemma covered_cong:
  assumes "l_size (bl_log bl') = l_size (bl_log bl)" "l_head (bl_log bl') = l_head (bl_log bl)"
    "bl_compact_head bl' = bl_compact_head bl" "bl_meta bl' = bl_meta bl"
  shows "covered bl' = covered bl"
  using in_stretch_cong[OF assms(1,4)] by (intro ext) (simp add: covered_def assms)

text \<open>The new stretch is covered by the compaction that collected its live chains.\<close>

lemma covered_advance:
  assumes ok: "bl_ok dev bl cs" and cov: "covered bl ctxs" and c: "compacted bl' = compacted bl + unat (cc_len ctx)"
    and fr: "bl_log bl' = bl_log bl" "bl_meta bl' = bl_meta bl" and ch: "cc_compact_head ctx = bl_compact_head bl"
    and all: "\<forall>x. \<not> is_meta_empty (kv_bucket_meta_get (bl_meta bl) x) \<and> compacted bl \<le> chain_pos bl x \<and>
       chain_pos bl x < compacted bl + unat (cc_len ctx) \<longrightarrow> x \<in> seg_bucket_id ` set (cc_segments ctx)"
  shows "covered bl' (ctx # ctxs)"
  unfolding covered_def
proof (intro allI impI)
  let ?S = "unat (l_size (bl_log bl))"
  note d = bl_okD[OF ok]
  fix b assume a: "\<not> is_meta_empty (kv_bucket_meta_get (bl_meta bl') b) \<and> chain_pos bl' b < compacted bl'"
  then have ne: "\<not> is_meta_empty (kv_bucket_meta_get (bl_meta bl) b)" and p: "chain_pos bl b < compacted bl + unat (cc_len ctx)"
    unfolding c by (simp_all add: fr)
  have st: "in_stretch bl' = in_stretch bl" by (rule in_stretch_cong) (simp_all add: fr)
  show "\<exists>ctx \<in> set (ctx # ctxs). in_stretch bl' ctx b \<and> b \<in> seg_bucket_id ` set (cc_segments ctx)"
  proof (cases "chain_pos bl b < compacted bl")
    case True
    then show ?thesis using cov ne st unfolding covered_def by auto
  next
    case False
    let ?o = "unat (m_bucket_offset (kv_bucket_meta_get (bl_meta bl) b))" and ?j = "chain_pos bl b - compacted bl"
    have o: "?o < ?S" using d(1) ne by (simp add: bl_inv_def chain_inside_def)
    have "(unat (bl_compact_head bl) + ?j) mod ?S = ((unat (l_head (bl_log bl)) + compacted bl) mod ?S + ?j) mod ?S"
      using circ_add_dist[OF d(5,10)] by simp
    also have "\<dots> = (unat (l_head (bl_log bl)) + chain_pos bl b) mod ?S" unfolding mod_shift using False by simp
    also have "\<dots> = ?o" using circ_add_dist[OF d(5) o] .
    finally have e: "(unat (bl_compact_head bl) + ?j) mod ?S = ?o" .
    have "chain_pos bl b < ?S" using d(5) by simp
    then have "?j < ?S" by linarith
    then have "circ_dist ?S (unat (cc_compact_head ctx)) ?o = ?j" unfolding ch using circ_dist_add[OF d(10)] e by metis
    moreover have "?j < unat (cc_len ctx)" using p False by linarith
    ultimately have "in_stretch bl ctx b" using ne by (simp add: in_stretch_def is_meta_empty_def Let_def)
    moreover have "b \<in> seg_bucket_id ` set (cc_segments ctx)" using all ne p False by simp
    ultimately show ?thesis using st by auto
  qed
qed

lemma advance_ok:
  fixes len :: u32
  assumes ok: "bl_ok dev bl cs" and w: "compacted bl + unat len \<le> wlen (l_fetch (bl_log bl))"
    and long: "unat (f_size (l_fetch (bl_log bl))) - 1 + (compacted bl + unat len) \<le> llen (bl_log bl)"
    and seq: "chain_seq (take (unat len) (drop (compacted bl) (log_blocks dev (bl_log bl))))"
      "chain_seq (drop (compacted bl + unat len) (log_blocks dev (bl_log bl)))"
  defines "bl' \<equiv> bl\<lparr>bl_compact_head := ucast ((ucast (bl_compact_head bl) + ucast len) mod l_size (bl_log bl) :: u64)\<rparr>"
  shows "compacted bl' = compacted bl + unat len" and "bl_ok dev bl' cs"
    and "on_log dev bl seg \<Longrightarrow> compacted bl' \<le> seg_pos bl seg \<Longrightarrow> on_log dev bl' seg"
    and "ctx_ok dev bl ctx \<Longrightarrow> \<forall>seg \<in> set (cc_segments ctx). compacted bl' \<le> seg_pos bl seg \<Longrightarrow> ctx_ok dev bl' ctx"
proof -
  let ?l = "bl_log bl" and ?c = "compacted bl"
  let ?S = "unat (l_size ?l)"
  note d = bl_okD[OF ok]
  have ch: "unat (ucast (bl_compact_head bl) :: u64) = (unat (l_head ?l) + ?c) mod ?S"
    using circ_add_dist[OF d(5,10)] by simp
  have cl: "?c + unat len \<le> llen ?l" using w d(7) by (rule le_trans)
  then have clS: "?c + unat len < ?S" using d(9) by (rule le_less_trans)
  have fr: "bl_log bl' = ?l" "bl_meta bl' = bl_meta bl" by (simp_all add: bl'_def)
  have uc: "unat (bl_compact_head bl') = (unat (l_head ?l) + (?c + unat len)) mod ?S"
    unfolding bl'_def using scan_offset[OF d(3,4) ch, of "ucast len"] unsigned_less[of len] by simp
  then have ucS: "unat (bl_compact_head bl') < ?S" using d(5) by simp
  show c: "compacted bl' = ?c + unat len" unfolding fr uc by (rule circ_dist_add[OF d(5) clS])
  have "take (?c + unat len) (log_blocks dev ?l) = take ?c (log_blocks dev ?l) @ take (unat len) (drop ?c (log_blocks dev ?l))"
    by (rule take_add)
  then have "chain_seq (take (?c + unat len) (log_blocks dev ?l))" using ok seq(1) chain_seq_append by (simp add: bl_ok_def)
  moreover have "bl_inv dev bl'" using d(1) disk_chain_cong[of bl' bl dev] by (simp add: bl_inv_def fr)
  ultimately show "bl_ok dev bl' cs"
    using ok w long seq(2) ucS disk_chain_cong[of bl' bl dev] unfolding bl_ok_def c unfolding fr by simp
  show ol: "on_log dev bl' seg" if "on_log dev bl seg" "compacted bl' \<le> seg_pos bl seg" for seg
    using that unfolding on_log_def by (simp add: fr)
  show "ctx_ok dev bl' ctx" if co: "ctx_ok dev bl ctx" and far: "\<forall>seg \<in> set (cc_segments ctx). compacted bl' \<le> seg_pos bl seg"
  proof -
    let ?h = "unat (cc_compact_head ctx)"
    have h: "?h < ?S" and r: "ctx_dist bl ctx + (llen ?l - ?c) < ?S" using co by (simp_all add: ctx_ok_def)
    have r': "ctx_dist bl ctx + unat len < ?S" using r cl by linarith
    have "(unat (bl_compact_head bl) + unat len) mod ?S = unat (bl_compact_head bl')"
      unfolding uc using circ_add_dist[OF d(5,10)] by (metis mod_shift)
    then have cd: "ctx_dist bl' ctx = ctx_dist bl ctx + unat len"
      using circ_dist_advance_tail[OF h d(10) r'] by (simp add: fr)
    have "ctx_dist bl' ctx + (llen ?l - compacted bl') < ?S" unfolding cd c using r cl by linarith
    moreover have "in_stretch bl' = in_stretch bl" "disk_chain dev bl' = disk_chain dev bl"
      by (rule in_stretch_cong disk_chain_cong; simp add: fr)+
    ultimately show ?thesis using co ol far cd unfolding ctx_ok_def unfolding fr by auto
  qed
qed

section \<open>The head moves\<close>

text \<open>The log after its head moved over \<open>i\<close> blocks.\<close>

definition head_moved :: "nat \<Rightarrow> kv_bucket_log \<Rightarrow> kv_bucket_log \<Rightarrow> bool" where
  "head_moved i bl bl' \<longleftrightarrow> l_size (bl_log bl') = l_size (bl_log bl) \<and> l_base (bl_log bl') = l_base (bl_log bl) \<and>
     l_tail (bl_log bl') = l_tail (bl_log bl) \<and>
     unat (l_head (bl_log bl')) = (unat (l_head (bl_log bl)) + i) mod unat (l_size (bl_log bl)) \<and>
     f_size (l_fetch (bl_log bl')) = f_size (l_fetch (bl_log bl)) \<and> bl_meta bl' = bl_meta bl \<and>
     bl_compact_head bl' = bl_compact_head bl"

lemma head_moved_frame:
  assumes ok: "bl_ok dev bl cs" and m: "head_moved i bl bl'" and ic: "i \<le> compacted bl"
  shows "llen (bl_log bl') = llen (bl_log bl) - i" "compacted bl' = compacted bl - i"
    "disk_chain dev bl' = disk_chain dev bl" "in_stretch bl' = in_stretch bl"
    "\<And>x. \<lbrakk>x < unat (l_size (bl_log bl)); i \<le> circ_dist (unat (l_size (bl_log bl))) (unat (l_head (bl_log bl))) x\<rbrakk> \<Longrightarrow>
      circ_dist (unat (l_size (bl_log bl'))) (unat (l_head (bl_log bl'))) x =
      circ_dist (unat (l_size (bl_log bl))) (unat (l_head (bl_log bl))) x - i"
proof -
  note d = bl_okD[OF ok] and f = m[unfolded head_moved_def]
  show adv: "circ_dist (unat (l_size (bl_log bl'))) (unat (l_head (bl_log bl'))) x =
      circ_dist (unat (l_size (bl_log bl))) (unat (l_head (bl_log bl))) x - i"
    if "x < unat (l_size (bl_log bl))" "i \<le> circ_dist (unat (l_size (bl_log bl))) (unat (l_head (bl_log bl))) x" for x
    using f circ_dist_advance_head[OF d(5) that] by simp
  have "i \<le> llen (bl_log bl)" using ic d(8) by (rule le_trans)
  then show "llen (bl_log bl') = llen (bl_log bl) - i" using f adv[OF d(6)] by simp
  show "compacted bl' = compacted bl - i" using f adv[OF d(10) ic] by simp
  show "disk_chain dev bl' = disk_chain dev bl" by (rule disk_chain_cong) (simp_all add: f)
  show "in_stretch bl' = in_stretch bl" by (rule in_stretch_cong) (simp_all add: f)
qed

lemma head_moved_chain_pos:
  assumes ok: "bl_ok dev bl cs" and m: "head_moved i bl bl'" and ic: "i \<le> compacted bl" and lf: "live_from bl i"
    and ne: "\<not> is_meta_empty (kv_bucket_meta_get (bl_meta bl) b)"
  shows "chain_pos bl' b = chain_pos bl b - i" "i \<le> chain_pos bl b"
proof -
  have "unat (m_bucket_offset (kv_bucket_meta_get (bl_meta bl) b)) < unat (l_size (bl_log bl))"
    using bl_okD(1)[OF ok] ne by (simp add: bl_inv_def chain_inside_def)
  moreover show "i \<le> chain_pos bl b" using lf ne by (simp add: live_from_def)
  ultimately show "chain_pos bl' b = chain_pos bl b - i"
    using head_moved_frame(5)[OF ok m ic] m by (simp add: head_moved_def)
qed

lemma head_moved_on_log:
  assumes ok: "bl_ok dev bl cs" and m: "head_moved i bl bl'" and ic: "i \<le> compacted bl" and on: "on_log dev bl seg"
  shows "on_log dev bl' seg"
proof -
  note f = m[unfolded head_moved_def] and h = head_moved_frame[OF ok m ic]
  have o: "unat (seg_offset seg) < unat (l_size (bl_log bl))" "compacted bl \<le> seg_pos bl seg"
    using on by (simp_all add: on_log_def)
  then have "seg_pos bl' seg = seg_pos bl seg - i" using h(5)[OF o(1)] ic by simp
  moreover have "i \<le> llen (bl_log bl)" using ic bl_okD(8)[OF ok] by (rule le_trans)
  ultimately show ?thesis
    using on o ic h(1,2) f run_at_cong[of "bl_log bl'" "bl_log bl" dev] unfolding on_log_def by (simp add: diff_le_mono)
qed

lemma head_moved_ctx_ok:
  assumes ok: "bl_ok dev bl cs" and m: "head_moved i bl bl'" and ic: "i \<le> compacted bl" and cx: "ctx_ok dev bl ctx"
  shows "ctx_ok dev bl' ctx"
proof -
  note h = head_moved_frame[OF ok m ic]
  have "i \<le> llen (bl_log bl)" using ic bl_okD(8)[OF ok] by (rule le_trans)
  then have "llen (bl_log bl') - compacted bl' = llen (bl_log bl) - compacted bl" unfolding h(1,2) using ic by simp
  then show ?thesis using cx head_moved_on_log[OF ok m ic] m unfolding ctx_ok_def h(3,4) by (simp add: head_moved_def)
qed

lemma head_moved_covered:
  assumes ok: "bl_ok dev bl cs" and m: "head_moved i bl bl'" and ic: "i \<le> compacted bl" and lf: "live_from bl i"
    and cov: "covered bl ctxs"
  shows "covered bl' ctxs"
  unfolding covered_def
proof (intro allI impI)
  note h = head_moved_frame[OF ok m ic]
  fix b assume a: "\<not> is_meta_empty (kv_bucket_meta_get (bl_meta bl') b) \<and> chain_pos bl' b < compacted bl'"
  then have ne: "\<not> is_meta_empty (kv_bucket_meta_get (bl_meta bl) b)" using m by (simp add: head_moved_def)
  have "chain_pos bl b < compacted bl" using a head_moved_chain_pos[OF ok m ic lf ne] unfolding h(2) by linarith
  then show "\<exists>ctx \<in> set ctxs. in_stretch bl' ctx b \<and> b \<in> seg_bucket_id ` set (cc_segments ctx)"
    using cov ne unfolding covered_def h(4) by blast
qed

lemma head_moved_ok:
  assumes ok: "bl_ok dev bl cs" and m: "head_moved i bl bl'" and ic: "i \<le> compacted bl" and lf: "live_from bl i"
    and li: "log_inv dev (bl_log bl') cs'" and lb: "log_blocks dev (bl_log bl') = drop i (log_blocks dev (bl_log bl))"
    and wl: "wlen (l_fetch (bl_log bl)) - i \<le> wlen (l_fetch (bl_log bl'))"
    and sq: "chain_seq (drop i (take (compacted bl) (log_blocks dev (bl_log bl))))"
  shows "bl_ok dev bl' cs'"
proof -
  let ?l = "bl_log bl" and ?l' = "bl_log bl'" and ?c = "compacted bl"
  note d = bl_okD[OF ok] and f = m[unfolded head_moved_def] and h = head_moved_frame[OF ok m ic]
  have cw: "?c \<le> wlen (l_fetch ?l)" using ok by (simp add: bl_ok_def)
  have bi: "bl_inv dev bl'"
    using d(1) lf li f h(1,5) unfolding bl_inv_def h(3) live_from_def chain_inside_def by (auto simp: log_inv_def)
  have wl': "wlen (l_fetch ?l') \<le> llen ?l'" using li by (auto simp: log_inv_def window_inv_def Let_def)
  have "wlen (l_fetch ?l) = llen ?l \<or> unat (f_size (l_fetch ?l)) - 1 \<le> llen ?l"
    "?c = 0 \<or> unat (f_size (l_fetch ?l)) - 1 + ?c \<le> llen ?l"
    using ok window_sync_iff[OF d(2)] by (simp_all add: bl_ok_def)
  then have "wlen (l_fetch ?l') = llen ?l' \<or> unat (f_size (l_fetch ?l)) - 1 \<le> llen ?l'"
    using wl wl' ic unfolding h(1) by linarith
  then have sync: "window_sync ?l'" using window_sync_iff[OF li] f by simp
  have cw': "compacted bl' \<le> wlen (l_fetch ?l')" unfolding h(2) using cw wl by linarith
  have "chain_seq (take (compacted bl') (log_blocks dev ?l'))" "chain_seq (drop (compacted bl') (log_blocks dev ?l'))"
    unfolding h(2) lb using sq ok ic by (simp_all add: drop_take bl_ok_def)
  moreover have "compacted bl' = 0 \<or> unat (f_size (l_fetch ?l')) - 1 + compacted bl' \<le> llen ?l'"
    unfolding h(1,2) using f ok ic by (auto simp: bl_ok_def)
  ultimately show ?thesis
    using ok bi li sync cw' d(10) f unfolding bl_ok_def h(3) by auto
qed

lemma move_head_ok:
  assumes ok: "bl_ok dev bl cs"
  shows "\<exists>bl' new. compact_move_head bl = (Inr (bl', [Bl_prefetch new]) :: (kv_bucket_log \<times> 'c bl_event list) res) \<and> bl_ok dev bl' (cs @ new) \<and>
    (\<forall>b. disk_chain dev bl' b = disk_chain dev bl b) \<and> (\<forall>seg. on_log dev bl seg \<longrightarrow> on_log dev bl' seg) \<and>
    (\<forall>ctx. ctx_ok dev bl ctx \<longrightarrow> ctx_ok dev bl' ctx) \<and> (\<forall>ctxs. covered bl ctxs \<longrightarrow> covered bl' ctxs) \<and>
    (compacted bl' = 0 \<or> (\<exists>b. \<not> is_meta_empty (kv_bucket_meta_get (bl_meta bl') b) \<and> chain_pos bl' b = 0)) \<and>
    bl_compact_head bl' = bl_compact_head bl"
proof -
  let ?l = "bl_log bl" and ?c = "compacted bl" and ?S = "unat (l_size (bl_log bl))"
  note d = bl_okD[OF ok]
  have cw: "?c \<le> wlen (l_fetch ?l)" and cs: "chain_seq (take ?c (log_blocks dev ?l))" using ok by (simp_all add: bl_ok_def)
  have "?c < Suc ?S" using d(8,9) by linarith
  then obtain i where sc: "move_head_scan (Suc ?S) bl 0 = Inr i" and ic: "unat i \<le> ?c" and lf: "live_from bl (unat i)"
    and sq: "chain_seq (drop (unat i) (take ?c (log_blocks dev ?l)))"
    and mx: "unat i = ?c \<or> (\<exists>b. \<not> is_meta_empty (kv_bucket_meta_get (bl_meta bl) b) \<and> chain_pos bl b = unat i)"
    using move_head_scan_correct[OF d(1,2,10) cw, of 0 "Suc ?S"] cs by (auto simp: live_from_def)
  have n: "unat (ucast i :: u64) \<le> wlen (l_fetch ?l)" using ic cw by simp
  obtain l' new where mh: "kv_circular_log_move_head ?l (ucast i) = Inr (l', new)" and li: "log_inv dev l' (cs @ new)"
    and fr: "log_frame (trimmed ?l (ucast i)) l'" and wl: "wlen (l_fetch ?l) - unat i \<le> wlen (l_fetch l')"
    using move_head_inv[OF d(2) n] by auto
  note tr = trimmed_inv[OF d(2) n]
  define bl' where "bl' = bl\<lparr>bl_head := (bl_head bl + i) mod bl_size bl, bl_log := l'\<rparr>"
  have eq: "compact_move_head bl = (Inr (bl', [Bl_prefetch new]) :: (kv_bucket_log \<times> 'c bl_event list) res)"
    using sc mh by (simp add: compact_move_head_def bl'_def)
  have m: "head_moved (unat i) bl bl'"
    using fr tr by (simp add: head_moved_def log_frame_def trimmed_def bl'_def)
  have lb: "log_blocks dev l' = drop (unat i) (log_blocks dev ?l)" using log_frame_blocks[OF fr] tr by simp
  have "bl_ok dev bl' (cs @ new)" using li lb wl by (intro head_moved_ok[OF ok m ic lf _ _ _ sq]) (simp_all add: bl'_def)
  moreover have "compacted bl' = 0 \<or> (\<exists>b. \<not> is_meta_empty (kv_bucket_meta_get (bl_meta bl') b) \<and> chain_pos bl' b = 0)"
    using mx head_moved_chain_pos[OF ok m ic lf] head_moved_frame(2)[OF ok m ic] m
    unfolding head_moved_def by (metis diff_self_eq_0)
  ultimately show ?thesis
    using eq m head_moved_frame(3)[OF ok m ic] head_moved_on_log[OF ok m ic] head_moved_ctx_ok[OF ok m ic]
      head_moved_covered[OF ok m ic lf]
    by (intro exI[of _ bl'] exI[of _ new]) (simp add: head_moved_def)
qed

section \<open>Commits\<close>

lemma seg_meta_zero:
  assumes "seg_wf seg" and "seg_chain seg \<noteq> []"
  shows "seg_meta seg = zero_meta \<longleftrightarrow> empty_chain (seg_buckets seg)"
  using is_chain_hd(1)[of "ucast (seg_bucket_id seg)" "seg_buckets seg"] assms first_bucket_eq(2)[OF assms]
  by (auto simp: seg_meta_def seg_wf_def zero_meta_def empty_chain_def)

lemma commit_ok:
  assumes ok: "bl_ok dev bl cs" and seg: "on_log dev bl seg"
    and live: "is_meta_empty (kv_bucket_meta_get (bl_meta bl) (seg_bucket_id seg)) \<longrightarrow> seg_meta seg \<noteq> zero_meta"
  defines "bl' \<equiv> bl\<lparr>bl_meta := kv_bucket_meta_put (bl_meta bl) (seg_bucket_id seg) (seg_meta seg)\<rparr>"
  shows "bl_ok dev bl' cs" and "on_log dev bl s \<Longrightarrow> on_log dev bl' s" and "ctx_ok dev bl ctx \<Longrightarrow> ctx_ok dev bl' ctx"
    and "x \<noteq> seg_bucket_id seg \<Longrightarrow> disk_chain dev bl' x = disk_chain dev bl x"
    and "map unstamp (disk_chain dev bl' (seg_bucket_id seg)) = (if empty_chain (seg_buckets seg) then [] else map unstamp (seg_buckets seg))"
    and "ctx_ok dev bl ctx \<Longrightarrow> in_stretch bl' ctx y \<Longrightarrow> y \<noteq> seg_bucket_id seg \<and> in_stretch bl ctx y"
    and "kv_bucket_meta_get (bl_meta bl') y = kv_bucket_meta_get (bl_meta bl) y \<or> is_meta_empty (kv_bucket_meta_get (bl_meta bl') y) \<or>
      compacted bl' \<le> chain_pos bl' y"
proof -
  let ?b = "seg_bucket_id seg"
  note d = bl_okD[OF ok]
  have s: "seg_wf seg" "seg_chain seg \<noteq> []" "?b < KV_BUCKET_ID_EMPTY" "unat (seg_offset seg) < unat (l_size (bl_log bl))"
    "seg_pos bl seg + length (seg_buckets seg) \<le> llen (bl_log bl)"
    "map unstamp (run_at dev (bl_log bl) (unat (seg_offset seg)) (length (seg_buckets seg))) = map unstamp (seg_buckets seg)"
    using seg by (simp_all add: on_log_def)
  note z = seg_meta_zero[OF s(1,2)]
  note cc = commit_sets_chain[OF d(1) s(1,3,4,5) s(6)[unfolded run_at_def] live[THEN mp] bl'_def[THEN meta_eq_to_obj_eq]]
  show other: "disk_chain dev bl' x = disk_chain dev bl x" if "x \<noteq> ?b" for x using cc(2) that by blast
  show new: "map unstamp (disk_chain dev bl' ?b) = (if empty_chain (seg_buckets seg) then [] else map unstamp (seg_buckets seg))"
    using cc(3) z by simp
  have mi: "meta_inv (bl_meta bl)" using d(1) by (simp add: bl_inv_def)
  have m: "seg_meta seg \<noteq> zero_meta \<Longrightarrow> seg_meta seg = \<lparr>m_chain_length = chain_length (hd (seg_buckets seg)), m_bucket_offset = seg_offset seg\<rparr>"
    by (auto simp: seg_meta_def)
  have "is_chain (ucast ?b) (seg_buckets seg)" using s(1,2) by (simp add: seg_wf_def)
  then have "unat (chain_length (hd (seg_buckets seg))) \<noteq> 0" using is_chain_hd(1) first_bucket_eq(2)[OF s(1,2)] by simp
  then have "chain_length (hd (seg_buckets seg)) \<noteq> 0" by auto
  then have "meta_put_ok (bl_meta bl) ?b (seg_meta seg)"
    using live m by (cases "seg_meta seg = zero_meta") (auto simp: meta_put_ok_def is_meta_empty_def)
  note get = meta_get_put[OF mi this]
  have "\<not> empty_chain (disk_chain dev bl' b)" if "\<not> is_meta_empty (kv_bucket_meta_get (bl_meta bl') b)" for b
  proof (cases "b = ?b")
    case True
    then have "\<not> empty_chain (seg_buckets seg)" using that z by (auto simp: bl'_def get)
    then show ?thesis using new True empty_chain_unstamp[of "disk_chain dev bl' ?b" "seg_buckets seg"] by simp
  next
    case False
    then show ?thesis using that other ok by (simp add: bl'_def get bl_ok_def)
  qed
  then show "bl_ok dev bl' cs" using ok cc(1) unfolding bl_ok_def by (simp add: bl'_def)
  show ol: "on_log dev bl' s" if "on_log dev bl s" for s using that by (simp add: on_log_def bl'_def)
  have gb: "kv_bucket_meta_get (bl_meta bl') y = (if y = ?b then seg_meta seg else kv_bucket_meta_get (bl_meta bl) y)" "bl_log bl' = bl_log bl"
    "bl_compact_head bl' = bl_compact_head bl" for y
    by (simp_all add: bl'_def get)
  have no: "y \<noteq> ?b \<and> in_stretch bl ctx y" if co: "ctx_ok dev bl ctx" and i: "in_stretch bl' ctx y" for ctx y
  proof -
    have "\<not> in_stretch bl' ctx ?b"
      using on_log_not_in_stretch[OF ok co seg] m unfolding in_stretch_def gb Let_def
      by (cases "seg_meta seg = zero_meta") (simp_all add: zero_meta_def)
    moreover have "in_stretch bl' ctx y = in_stretch bl ctx y" if "y \<noteq> ?b"
      using that unfolding in_stretch_def gb by simp
    ultimately show ?thesis using i by (cases "y = ?b") auto
  qed
  then show "y \<noteq> ?b \<and> in_stretch bl ctx y" if "ctx_ok dev bl ctx" "in_stretch bl' ctx y" using that by blast
  show "kv_bucket_meta_get (bl_meta bl') y = kv_bucket_meta_get (bl_meta bl) y \<or> is_meta_empty (kv_bucket_meta_get (bl_meta bl') y) \<or>
      compacted bl' \<le> chain_pos bl' y"
    using seg m unfolding gb on_log_def by (cases "seg_meta seg = zero_meta") auto
  show "ctx_ok dev bl' ctx" if co: "ctx_ok dev bl ctx"
  proof -
    have "on_log dev bl' s \<and> (in_stretch bl' ctx (seg_bucket_id s) \<longrightarrow>
        map unstamp (disk_chain dev bl' (seg_bucket_id s)) = map unstamp (seg_buckets s))" if "s \<in> set (cc_segments ctx)" for s
      using co that ol no[OF co] other by (auto simp: ctx_ok_def)
    then show ?thesis using co unfolding ctx_ok_def by (simp add: bl'_def)
  qed
qed

text \<open>A commit moves the chain of its bucket out of the compacted part.\<close>

definition moves_on :: "kv_bucket_log \<Rightarrow> kv_bucket_log \<Rightarrow> bool" where
  "moves_on bl bl' \<longleftrightarrow> bl_log bl' = bl_log bl \<and> bl_compact_head bl' = bl_compact_head bl \<and>
     (\<forall>y. kv_bucket_meta_get (bl_meta bl') y = kv_bucket_meta_get (bl_meta bl) y \<or> is_meta_empty (kv_bucket_meta_get (bl_meta bl') y) \<or>
        compacted bl' \<le> chain_pos bl' y)"

lemma moves_on_refl [simp]: "moves_on bl bl"
  by (simp add: moves_on_def)

lemma moves_on_trans: "moves_on bl bl1 \<Longrightarrow> moves_on bl1 bl2 \<Longrightarrow> moves_on bl bl2"
  unfolding moves_on_def by (metis (no_types, lifting))

lemma covered_moves_on:
  assumes cov: "covered bl (ctx # ctxs)" and mo: "moves_on bl bl'"
    and out: "\<forall>y \<in> seg_bucket_id ` set (cc_segments ctx). \<not> in_stretch bl' ctx y"
  shows "covered bl' ctxs"
  unfolding covered_def
proof (intro allI impI)
  fix b assume a: "\<not> is_meta_empty (kv_bucket_meta_get (bl_meta bl') b) \<and> chain_pos bl' b < compacted bl'"
  have f: "bl_log bl' = bl_log bl" "bl_compact_head bl' = bl_compact_head bl" using mo by (simp_all add: moves_on_def)
  have "kv_bucket_meta_get (bl_meta bl') b = kv_bucket_meta_get (bl_meta bl) b \<or> is_meta_empty (kv_bucket_meta_get (bl_meta bl') b) \<or>
      compacted bl' \<le> chain_pos bl' b" using mo unfolding moves_on_def by blast
  then have m: "kv_bucket_meta_get (bl_meta bl') b = kv_bucket_meta_get (bl_meta bl) b" using a leD by blast
  have s: "in_stretch bl' c b = in_stretch bl c b" for c by (simp add: in_stretch_def m f)
  have "\<not> is_meta_empty (kv_bucket_meta_get (bl_meta bl) b) \<and> chain_pos bl b < compacted bl" using a by (simp add: m f)
  then obtain c where c: "c \<in> set (ctx # ctxs)" "in_stretch bl c b" "b \<in> seg_bucket_id ` set (cc_segments c)"
    using cov unfolding covered_def by blast
  then have "c \<noteq> ctx" using out s by auto
  then show "\<exists>ctx \<in> set ctxs. in_stretch bl' ctx b \<and> b \<in> seg_bucket_id ` set (cc_segments ctx)" using c s by auto
qed

text \<open>The commits of a compaction change no chain.\<close>

lemma compact_commit_ok:
  assumes "bl_ok dev bl cs" and "ctx_ok dev bl (ctx\<lparr>cc_segments := segs\<rparr>)"
  shows "\<exists>m. compact_commit bl (cc_compact_head ctx) (cc_len ctx) segs = Inr m \<and> bl_ok dev (bl\<lparr>bl_meta := m\<rparr>) cs \<and>
    (\<forall>b. map unstamp (disk_chain dev (bl\<lparr>bl_meta := m\<rparr>) b) = map unstamp (disk_chain dev bl b)) \<and>
    (\<forall>s. on_log dev bl s \<longrightarrow> on_log dev (bl\<lparr>bl_meta := m\<rparr>) s) \<and> (\<forall>c. ctx_ok dev bl c \<longrightarrow> ctx_ok dev (bl\<lparr>bl_meta := m\<rparr>) c) \<and>
    moves_on bl (bl\<lparr>bl_meta := m\<rparr>) \<and> (\<forall>y. in_stretch (bl\<lparr>bl_meta := m\<rparr>) ctx y \<longrightarrow> in_stretch bl ctx y \<and> y \<notin> seg_bucket_id ` set segs)"
  using assms
proof (induction segs arbitrary: bl)
  case Nil
  then show ?case by (intro exI[of _ "bl_meta bl"]) simp
next
  case (Cons seg segs)
  let ?b = "seg_bucket_id seg" and ?m = "kv_bucket_meta_get (bl_meta bl) (seg_bucket_id seg)" and ?l = "bl_log bl"
  note d = bl_okD[OF Cons.prems(1)]
  have seg: "on_log dev bl seg" and h: "unat (cc_compact_head ctx) < unat (l_size ?l)"
    and cp: "in_stretch bl ctx ?b \<Longrightarrow> map unstamp (disk_chain dev bl ?b) = map unstamp (seg_buckets seg)"
    and rest: "ctx_ok dev bl (ctx\<lparr>cc_segments := segs\<rparr>)"
    using Cons.prems(2) by (auto simp: ctx_ok_def in_stretch_def)
  have "unat ((l_size ?l - ucast (cc_compact_head ctx) + ucast (m_bucket_offset ?m)) mod l_size ?l :: u64) =
      circ_dist (unat (l_size ?l)) (unat (cc_compact_head ctx)) (unat (m_bucket_offset ?m))"
    using h d(4) unsigned_less[of "m_bucket_offset ?m", where ?'a = nat]
      unat_circ_dist'[of "ucast (cc_compact_head ctx)" "l_size ?l" "ucast (m_bucket_offset ?m)"] by simp
  then have test: "(l_size ?l - ucast (cc_compact_head ctx) + ucast (m_bucket_offset ?m)) mod l_size ?l < ucast (cc_len ctx) \<and> m_chain_length ?m \<noteq> 0 \<longleftrightarrow>
      in_stretch bl ctx ?b" by (simp add: in_stretch_def Let_def word_less_nat_alt del: unat_mod)
  show ?case
  proof (cases "in_stretch bl ctx ?b")
    case False
    then have "compact_commit bl (cc_compact_head ctx) (cc_len ctx) (seg # segs) = compact_commit bl (cc_compact_head ctx) (cc_len ctx) segs"
      unfolding compact_commit.simps Let_def test by simp
    then show ?thesis using Cons.IH[OF Cons.prems(1) rest] False by auto
  next
    case True
    then have ne: "\<not> is_meta_empty ?m" by (simp add: in_stretch_def is_meta_empty_def Let_def)
    let ?bl = "bl\<lparr>bl_meta := kv_bucket_meta_put (bl_meta bl) ?b (seg_meta seg)\<rparr>"
    have lv: "is_meta_empty ?m \<longrightarrow> seg_meta seg \<noteq> zero_meta" using ne by simp
    note ck = commit_ok[OF Cons.prems(1) seg lv]
    have "\<not> empty_chain (seg_buckets seg)" 
      using empty_chain_unstamp[OF cp[OF True]] Cons.prems(1) ne by (simp add: bl_ok_def)
    then have same: "map unstamp (disk_chain dev ?bl b) = map unstamp (disk_chain dev bl b)" for b
      using ck(4,5) cp[OF True] by (cases "b = ?b") simp_all
    have s: "seg_wf seg" "?b < KV_BUCKET_ID_EMPTY" using seg by (simp_all add: on_log_def)
    have com: "kv_bucket_seg_commit (bl_meta bl) (seg\<lparr>seg_dirty := True\<rparr>) =
        Inr (kv_bucket_meta_put (bl_meta bl) ?b (seg_meta seg), seg\<lparr>seg_dirty := False\<rparr>)"
      using seg_commit_eq[of "seg\<lparr>seg_dirty := True\<rparr>" "bl_meta bl"] s by (simp add: seg_wf_def seg_meta_def)
    obtain m where ih: "compact_commit ?bl (cc_compact_head ctx) (cc_len ctx) segs = Inr m" "bl_ok dev (?bl\<lparr>bl_meta := m\<rparr>) cs"
      "\<forall>b. map unstamp (disk_chain dev (?bl\<lparr>bl_meta := m\<rparr>) b) = map unstamp (disk_chain dev ?bl b)"
      "\<forall>s. on_log dev ?bl s \<longrightarrow> on_log dev (?bl\<lparr>bl_meta := m\<rparr>) s" "\<forall>c. ctx_ok dev ?bl c \<longrightarrow> ctx_ok dev (?bl\<lparr>bl_meta := m\<rparr>) c"
      "moves_on ?bl (?bl\<lparr>bl_meta := m\<rparr>)" "\<forall>y. in_stretch (?bl\<lparr>bl_meta := m\<rparr>) ctx y \<longrightarrow> in_stretch ?bl ctx y \<and> y \<notin> seg_bucket_id ` set segs"
      using Cons.IH[OF ck(1) ck(3)[OF rest]] by blast
    have "moves_on bl ?bl" using ck(7) by (simp add: moves_on_def)
    then have mo: "moves_on bl (bl\<lparr>bl_meta := m\<rparr>)" using moves_on_trans ih(6) by simp
    have "in_stretch c1 (ctx\<lparr>cc_segments := segs\<rparr>) = in_stretch c1 ctx" for c1 by (simp add: in_stretch_def fun_eq_iff)
    then have out: "in_stretch ?bl ctx y \<Longrightarrow> y \<noteq> ?b \<and> in_stretch bl ctx y" for y using ck(6)[OF rest] by simp
    have "compact_commit bl (cc_compact_head ctx) (cc_len ctx) (seg # segs) = Inr m"
      unfolding compact_commit.simps Let_def test using True com ih(1) by simp
    then show ?thesis using ih(2-5,7) same ck(2,3) mo out by (intro exI[of _ m]) (simp; blast)
  qed
qed

text \<open>The completion of a compaction: commits, then the trim.\<close>

lemma compact_write_cb_ok:
  assumes ok: "bl_ok dev bl cs" and ctx: "ctx_ok dev bl ctx"
  shows "\<exists>bl' new. compact_write_cb True ctx bl = (Inr (bl', [Bl_prefetch new]) :: (kv_bucket_log \<times> 'c bl_event list) res) \<and> bl_ok dev bl' (cs @ new) \<and>
    (\<forall>b. map unstamp (disk_chain dev bl' b) = map unstamp (disk_chain dev bl b)) \<and>
    (\<forall>s. on_log dev bl s \<longrightarrow> on_log dev bl' s) \<and> (\<forall>c. ctx_ok dev bl c \<longrightarrow> ctx_ok dev bl' c) \<and>
    (\<forall>ctxs. covered bl (ctx # ctxs) \<longrightarrow> covered bl' ctxs) \<and>
    (compacted bl' = 0 \<or> (\<exists>b. \<not> is_meta_empty (kv_bucket_meta_get (bl_meta bl') b) \<and> chain_pos bl' b = 0)) \<and>
    bl_compact_head bl' = bl_compact_head bl"
proof -
  have c: "ctx_ok dev bl (ctx\<lparr>cc_segments := cc_segments ctx\<rparr>)" using ctx by simp
  obtain m where m: "compact_commit bl (cc_compact_head ctx) (cc_len ctx) (cc_segments ctx) = Inr m"
    and ok': "bl_ok dev (bl\<lparr>bl_meta := m\<rparr>) cs"
    and r: "\<forall>b. map unstamp (disk_chain dev (bl\<lparr>bl_meta := m\<rparr>) b) = map unstamp (disk_chain dev bl b)"
      "\<forall>s. on_log dev bl s \<longrightarrow> on_log dev (bl\<lparr>bl_meta := m\<rparr>) s" "\<forall>c. ctx_ok dev bl c \<longrightarrow> ctx_ok dev (bl\<lparr>bl_meta := m\<rparr>) c"
    and mo: "moves_on bl (bl\<lparr>bl_meta := m\<rparr>)" 
    and out: "\<forall>y. in_stretch (bl\<lparr>bl_meta := m\<rparr>) ctx y \<longrightarrow> in_stretch bl ctx y \<and> y \<notin> seg_bucket_id ` set (cc_segments ctx)"
    using compact_commit_ok[OF ok c] by (elim exE conjE) blast
  have cov: "covered bl (ctx # ctxs) \<longrightarrow> covered (bl\<lparr>bl_meta := m\<rparr>) ctxs" for ctxs
    using covered_moves_on[OF _ mo] out by blast
  obtain bl' new where mh: "compact_move_head (bl\<lparr>bl_meta := m\<rparr>) = (Inr (bl', [Bl_prefetch new]) :: (kv_bucket_log \<times> 'c bl_event list) res)"
    and r': "bl_ok dev bl' (cs @ new)" "\<forall>b. disk_chain dev bl' b = disk_chain dev (bl\<lparr>bl_meta := m\<rparr>) b"
      "\<forall>seg. on_log dev (bl\<lparr>bl_meta := m\<rparr>) seg \<longrightarrow> on_log dev bl' seg" "\<forall>ctx. ctx_ok dev (bl\<lparr>bl_meta := m\<rparr>) ctx \<longrightarrow> ctx_ok dev bl' ctx"
      "\<forall>ctxs. covered (bl\<lparr>bl_meta := m\<rparr>) ctxs \<longrightarrow> covered bl' ctxs" "bl_compact_head bl' = bl_compact_head (bl\<lparr>bl_meta := m\<rparr>)"
      "compacted bl' = 0 \<or> (\<exists>b. \<not> is_meta_empty (kv_bucket_meta_get (bl_meta bl') b) \<and> chain_pos bl' b = 0)"
    using move_head_ok[OF ok'] by blast
  show ?thesis using mh r' m r cov by (intro exI[of _ bl'] exI[of _ new]) (simp add: compact_write_cb_def)
qed

end
