(* ===== verification/Bucket_World.thy ===== *)
theory Bucket_World
  imports Bucket_Compaction
begin

unbundle bit_operations_syntax

text \<open>
  The bucket log as its callers see it. Puts append chains and start compactions, compactions
  copy the live chains of the oldest stretch to the tail, their completions commit the copies
  and trim the head. In every interleaving of puts, commits, completions and prefetches, the
  chain of each bucket is the one that was committed last, and the completion of the last
  compaction reclaims the compacted part of the log.
\<close>

section \<open>The log with its requests in flight\<close>

text \<open>
  \<open>bw_puts\<close> are segments of callers that are on the device and not committed yet,
  \<open>bw_compactions\<close> compactions whose copies are on the device and whose completion has not
  run yet. Requests take effect in the order of their submission; callbacks come in any order.
\<close>

record bucket_world =
  bw_dev :: "nat \<Rightarrow> kv_bucket"
  bw_bl :: kv_bucket_log
  bw_flights :: "kv_bucket fetch_ctx list"
  bw_compactions :: "compact_ctx list"
  bw_puts :: "kv_bucket_segment list"

text \<open>An append that finds no room fails: the caller learns it, a compaction ends the process.\<close>

fun bw_event :: "kv_bucket_segment list \<Rightarrow> 'c bl_event \<Rightarrow> bucket_world \<Rightarrow> bucket_world res" where
  "bw_event segs (Bl_append (Bl_caller c) (Iov_issued ios)) w =
     Inr (w\<lparr>bw_dev := exec_ios ios (bw_dev w), bw_puts := bw_puts w @ segs\<rparr>)"
| "bw_event segs (Bl_append (Bl_compact ctx) (Iov_issued ios)) w =
     Inr (w\<lparr>bw_dev := exec_ios ios (bw_dev w), bw_compactions := bw_compactions w @ [ctx]\<rparr>)"
| "bw_event segs (Bl_append (Bl_caller c) Iov_no_space) w = Inr w"
| "bw_event segs (Bl_append (Bl_compact ctx) Iov_no_space) w =
     rbind (compact_write_cb False ctx (bw_bl w)) (\<lambda>(bl, evs :: 'c bl_event list). Inr (w\<lparr>bw_bl := bl\<rparr>))"
| "bw_event segs (Bl_prefetch cs) w = Inr (w\<lparr>bw_flights := bw_flights w @ cs\<rparr>)"
| "bw_event segs (Bl_callback c b) w = Inr w"

fun bw_events :: "kv_bucket_segment list \<Rightarrow> 'c bl_event list \<Rightarrow> bucket_world \<Rightarrow> bucket_world res" where
  "bw_events segs [] w = Inr w"
| "bw_events segs (ev # evs) w = rbind (bw_event segs ev w) (bw_events segs evs)"

definition bw_safe :: "bucket_world \<Rightarrow> bool" where
  "bw_safe w \<longleftrightarrow> bl_ok (bw_dev w) (bw_bl w) (bw_flights w) \<and>
     (\<forall>seg \<in> set (bw_puts w). on_log (bw_dev w) (bw_bl w) seg \<and> seg_dirty seg) \<and>
     (\<forall>ctx \<in> set (bw_compactions w). ctx_ok (bw_dev w) (bw_bl w) ctx)"

definition bw_inv :: "bucket_world \<Rightarrow> bool" where
  "bw_inv w \<longleftrightarrow> bw_safe w \<and> covered (bw_bl w) (bw_compactions w)"

text \<open>The chain of a bucket, without the stamps of the writes.\<close>

definition bw_chain :: "bucket_world \<Rightarrow> u64 \<Rightarrow> kv_bucket list" where
  "bw_chain w b = map unstamp (disk_chain (bw_dev w) (bw_bl w) b)"

definition in_flight :: "bucket_world \<Rightarrow> kv_bucket_segment list" where
  "in_flight w = bw_puts w @ concat (map cc_segments (bw_compactions w))"

text \<open>The distance from the stretch of a compaction to the tail.\<close>

abbreviation ctx_span :: "kv_bucket_log \<Rightarrow> compact_ctx \<Rightarrow> nat" where
  "ctx_span bl ctx \<equiv> circ_dist (unat (l_size (bl_log bl))) (unat (cc_compact_head ctx)) (unat (l_tail (bl_log bl)))"

definition bw_room :: "nat \<Rightarrow> bucket_world \<Rightarrow> bool" where
  "bw_room k w \<longleftrightarrow> llen (bl_log (bw_bl w)) + k < unat (l_size (bl_log (bw_bl w))) \<and>
     (\<forall>ctx \<in> set (bw_compactions w). ctx_span (bw_bl w) ctx + k < unat (l_size (bl_log (bw_bl w))))"

text \<open>The farthest a cascade of compactions reaches past the head: 2048 blocks and one stretch.\<close>

definition COMPACT_REACH :: nat where "COMPACT_REACH = 2686"

text \<open>What a compaction relies on: the window holds its stretch and no write in flight lies there.\<close>

definition bw_ready :: "bucket_world \<Rightarrow> bool" where
  "bw_ready w \<longleftrightarrow> COMPACT_REACH \<le> wlen (l_fetch (bl_log (bw_bl w))) \<and> (\<forall>seg \<in> set (in_flight w). COMPACT_REACH \<le> seg_pos (bw_bl w) seg)"

lemma compact_idle_iff:
  assumes "bl_ok dev bl cs"
  shows "compact_idle bl \<longleftrightarrow> llen (bl_log bl) + 12288 < unat (l_size (bl_log bl)) \<or> 2048 < compacted bl"
proof -
  let ?l = "bl_log bl"
  note d = bl_okD[OF assms]
  have "unat ((l_size ?l - l_head ?l + ucast (bl_compact_head bl)) mod l_size ?l) = compacted bl"
    using d(4,5,10) unat_circ_dist'[of "l_head ?l" "l_size ?l" "ucast (bl_compact_head bl)"] by simp
  then have "(l_size ?l - l_head ?l + ucast (bl_compact_head bl)) mod l_size ?l > 2048 \<longleftrightarrow> 2048 < compacted bl"
    by (simp add: word_less_nat_alt del: unat_mod)
  moreover have "log_empty_space ?l \<ge> 12288 \<longleftrightarrow> llen ?l + 12288 < unat (l_size ?l)"
    using unat_log_empty_space[OF d(3)] d(9) by (simp add: word_le_nat_alt; linarith)
  ultimately show ?thesis by (simp add: compact_idle_def COMPACTION_LENGTH_def COMPACTION_CONCURRENCY_def)
qed

lemma ctx_span_eq:
  assumes ok: "bl_ok dev bl cs" and ctx: "ctx_ok dev bl ctx"
  shows "ctx_dist bl ctx + (llen (bl_log bl) - compacted bl) = ctx_span bl ctx"
proof -
  let ?l = "bl_log bl" and ?h = "unat (cc_compact_head ctx)"
  let ?S = "unat (l_size ?l)" and ?j = "llen ?l - compacted bl"
  note d = bl_okD[OF ok]
  have h: "?h < ?S" and r: "ctx_dist bl ctx + ?j < ?S" using ctx by (simp_all add: ctx_ok_def)
  have "(unat (bl_compact_head bl) + ?j) mod ?S = ((unat (l_head ?l) + compacted bl) mod ?S + ?j) mod ?S"
    using circ_add_dist[OF d(5,10)] by simp
  also have "\<dots> = (unat (l_head ?l) + llen ?l) mod ?S" unfolding mod_shift using d(8) by simp
  also have "\<dots> = unat (l_tail ?l)" using circ_add_dist[OF d(5,6)] .
  finally have e1: "(unat (bl_compact_head bl) + ?j) mod ?S = unat (l_tail ?l)" .
  have "(?h + (ctx_dist bl ctx + ?j)) mod ?S = ((?h + ctx_dist bl ctx) mod ?S + ?j) mod ?S" by (simp only: mod_shift)
  then have "(?h + (ctx_dist bl ctx + ?j)) mod ?S = unat (l_tail ?l)" using e1 circ_add_dist[OF h d(10)] by simp
  then show ?thesis using circ_dist_add[OF h r] by simp
qed

lemma grow_world:
  assumes inv: "bw_safe w" and g: "log_grown (bw_dev w) (bw_bl w) segs (bw_flights w) dev1 bl1"
    and room: "bw_room (length (segs_blocks segs) + k) w"
  defines "w1 \<equiv> w\<lparr>bw_dev := dev1, bw_bl := bl1\<rparr>"
  shows "bw_safe w1" and "bw_chain w1 = bw_chain w" and "bw_room k w1" and "compacted bl1 = compacted (bw_bl w)"
    and "seg_pos bl1 seg = seg_pos (bw_bl w) seg"
    and "unat (f_size (l_fetch (bl_log (bw_bl w)))) - 1 \<le> llen (bl_log (bw_bl w)) \<Longrightarrow> bw_ready w \<Longrightarrow> bw_ready w1"
proof -
  let ?bl = "bw_bl w" and ?n = "length (segs_blocks segs)"
  have ok: "bl_ok (bw_dev w) ?bl (bw_flights w)" using inv by (simp add: bw_safe_def)
  note d = bl_okD[OF ok] and gd = g[unfolded log_grown_def]
  have fr: "l_size (bl_log bl1) = l_size (bl_log ?bl)" "l_head (bl_log bl1) = l_head (bl_log ?bl)" "bl_compact_head bl1 = bl_compact_head ?bl"
    and tl: "unat (l_tail (bl_log bl1)) = (unat (l_tail (bl_log ?bl)) + ?n) mod unat (l_size (bl_log ?bl))"
    and ll: "llen (bl_log bl1) = llen (bl_log ?bl) + ?n" using gd by auto
  have sp: "ctx_span bl1 ctx = ctx_span ?bl ctx + ?n" if "ctx_ok (bw_dev w) ?bl ctx" "ctx_span ?bl ctx + ?n < unat (l_size (bl_log ?bl))" for ctx
    unfolding tl fr using circ_dist_advance_tail[OF _ d(6) that(2)] that(1) by (simp add: ctx_ok_def)
  have r: "ctx_ok (bw_dev w) ?bl ctx" "ctx_span ?bl ctx + (?n + k) < unat (l_size (bl_log ?bl))" if "ctx \<in> set (bw_compactions w)" for ctx
    using that inv room by (simp_all add: bw_safe_def bw_room_def)
  have co: "ctx_ok dev1 bl1 ctx" if "ctx \<in> set (bw_compactions w)" for ctx
  proof -
    have "ctx_dist ?bl ctx + (llen (bl_log ?bl) + ?n - compacted ?bl) < unat (l_size (bl_log ?bl))"
      using ctx_span_eq[OF ok r(1)[OF that]] r(2)[OF that] d(8) by linarith
    then show ?thesis using gd r(1)[OF that] by blast
  qed
  show "bw_safe w1" using inv gd co by (auto simp: bw_safe_def w1_def)
  show "bw_chain w1 = bw_chain w" using gd by (intro ext) (simp add: bw_chain_def w1_def)
  have "ctx_span bl1 ctx + k < unat (l_size (bl_log bl1))" if "ctx \<in> set (bw_compactions w)" for ctx
    using r(2)[OF that] sp[OF r(1)[OF that]] by (simp add: fr)
  then show "bw_room k w1" using room ll by (simp add: w1_def bw_room_def fr)
  show c: "compacted bl1 = compacted ?bl" and sg: "seg_pos bl1 seg = seg_pos ?bl seg" for seg by (simp_all add: fr)
  show "bw_ready w1" if "unat (f_size (l_fetch (bl_log ?bl))) - 1 \<le> llen (bl_log ?bl)" "bw_ready w"
    using gd that sg by (simp add: bw_ready_def w1_def in_flight_def fr)
qed

lemma advance_world:
  fixes len :: u32
  assumes inv: "bw_safe w" and w: "compacted (bw_bl w) + unat len \<le> wlen (l_fetch (bl_log (bw_bl w)))"
    and long: "unat (f_size (l_fetch (bl_log (bw_bl w)))) - 1 + (compacted (bw_bl w) + unat len) \<le> llen (bl_log (bw_bl w))"
    and seq: "chain_seq (take (unat len) (drop (compacted (bw_bl w)) (log_blocks (bw_dev w) (bl_log (bw_bl w)))))"
      "chain_seq (drop (compacted (bw_bl w) + unat len) (log_blocks (bw_dev w) (bl_log (bw_bl w))))"
    and far: "\<forall>seg \<in> set (in_flight w). compacted (bw_bl w) + unat len \<le> seg_pos (bw_bl w) seg"
  defines "bl' \<equiv> (bw_bl w)\<lparr>bl_compact_head := ucast ((ucast (bl_compact_head (bw_bl w)) + ucast len) mod l_size (bl_log (bw_bl w)) :: u64)\<rparr>"
  shows "bw_safe (w\<lparr>bw_bl := bl'\<rparr>)" and "compacted bl' = compacted (bw_bl w) + unat len"
    and "ctx_ok (bw_dev w) bl' \<lparr>cc_compact_head = bl_compact_head (bw_bl w), cc_len = len, cc_segments = []\<rparr>"
    and "disk_chain (bw_dev w) bl' = disk_chain (bw_dev w) (bw_bl w)"
proof -
  let ?bl = "bw_bl w"
  have ok: "bl_ok (bw_dev w) ?bl (bw_flights w)" using inv by (simp add: bw_safe_def)
  note d = bl_okD[OF ok] and ad = advance_ok[OF ok w long seq, folded bl'_def]
  show c: "compacted bl' = compacted ?bl + unat len" by (rule ad(1))
  have fs: "compacted bl' \<le> seg_pos ?bl seg" if "seg \<in> set (bw_puts w) \<or> (\<exists>ctx \<in> set (bw_compactions w). seg \<in> set (cc_segments ctx))" for seg
    using far that unfolding c by (auto simp: in_flight_def)
  then have "ctx_ok (bw_dev w) bl' ctx" if "ctx \<in> set (bw_compactions w)" for ctx
    using that inv by (intro ad(4)) (auto simp: bw_safe_def)
  then show "bw_safe (w\<lparr>bw_bl := bl'\<rparr>)" using inv ad(2,3) fs by (simp add: bw_safe_def)
  show dc: "disk_chain (bw_dev w) bl' = disk_chain (bw_dev w) ?bl" by (rule disk_chain_cong) (simp_all add: bl'_def)
  have cl: "compacted ?bl + unat len \<le> llen (bl_log ?bl)" using w d(7) by (rule le_trans)
  then have "compacted ?bl + unat len < unat (l_size (bl_log ?bl))" using d(9) by (rule le_less_trans)
  then have lS: "unat len < unat (l_size (bl_log ?bl))" by linarith
  have fr: "bl_log bl' = bl_log ?bl" by (simp add: bl'_def)
  have "unat (bl_compact_head bl') = (unat (l_head (bl_log ?bl)) + compacted bl') mod unat (l_size (bl_log ?bl))"
    using circ_add_dist[OF d(5) bl_okD(10)[OF ad(2), unfolded fr]] by (simp add: fr)
  also have "\<dots> = ((unat (l_head (bl_log ?bl)) + compacted ?bl) mod unat (l_size (bl_log ?bl)) + unat len) mod unat (l_size (bl_log ?bl))"
    unfolding c by (simp only: mod_shift)
  also have "\<dots> = (unat (bl_compact_head ?bl) + unat len) mod unat (l_size (bl_log ?bl))" using circ_add_dist[OF d(5,10)] by simp
  finally have cd: "circ_dist (unat (l_size (bl_log ?bl))) (unat (bl_compact_head ?bl)) (unat (bl_compact_head bl')) = unat len"
    using circ_dist_add[OF d(10) lS] by simp
  have "unat len + (llen (bl_log ?bl) - compacted bl') < unat (l_size (bl_log ?bl))" unfolding c using cl d(9) by linarith
  then show "ctx_ok (bw_dev w) bl' \<lparr>cc_compact_head = bl_compact_head ?bl, cc_len = len, cc_segments = []\<rparr>"
    using cd d(10) unfolding ctx_ok_def by (simp add: fr)
qed

section \<open>The cascade of compactions\<close>

lemma place_segs_mem:
  "s \<in> set (place_segs bl n segs) \<Longrightarrow>
     \<exists>seg \<in> set segs. seg_bucket_id s = seg_bucket_id seg \<and> seg_buckets s = seg_buckets seg \<and> seg_dirty s = seg_dirty seg"
  by (induction segs arbitrary: n) auto

lemma place_segs_ids: "seg_bucket_id ` set (place_segs bl n segs) = seg_bucket_id ` set segs"
  by (induction segs arbitrary: n) simp_all

lemma collected_ready: "bl_inv dev bl \<Longrightarrow> collected dev bl seg \<Longrightarrow> seg_ready seg"
  by (simp add: collected_def seg_ready_def bl_inv_def)

text \<open>A compaction that finds live chains: the copies are appended and the compaction is under way.\<close>

lemma compact_appends:
  fixes len :: u32
  assumes inv: "bw_safe w" and w: "compacted (bw_bl w) + unat len \<le> COMPACT_REACH" and ready: "bw_ready w"
    and long: "unat (f_size (l_fetch (bl_log (bw_bl w)))) - 1 + COMPACT_REACH \<le> llen (bl_log (bw_bl w))"
    and seq: "chain_seq (take (unat len) (drop (compacted (bw_bl w)) (log_blocks (bw_dev w) (bl_log (bw_bl w)))))"
      "chain_seq (drop (compacted (bw_bl w) + unat len) (log_blocks (bw_dev w) (bl_log (bw_bl w))))"
    and col: "\<forall>seg \<in> set segs. collected (bw_dev w) (bw_bl w) seg" and ne: "segs \<noteq> []"
    and all: "\<forall>x. \<not> is_meta_empty (kv_bucket_meta_get (bl_meta (bw_bl w)) x) \<and> compacted (bw_bl w) \<le> chain_pos (bw_bl w) x \<and>
       chain_pos (bw_bl w) x < compacted (bw_bl w) + unat len \<longrightarrow> x \<in> seg_bucket_id ` set segs"
    and room: "bw_room (length (segs_blocks segs) + k) w"
    and bl': "bl' = (bw_bl w)\<lparr>bl_compact_head := ucast ((ucast (bl_compact_head (bw_bl w)) + ucast len) mod l_size (bl_log (bw_bl w)) :: u64)\<rparr>"
    and ctx: "ctx = \<lparr>cc_compact_head = bl_compact_head (bw_bl w), cc_len = len, cc_segments = segs\<rparr>"
  shows "\<exists>bl1 ios w1 segs' ctx1. seg_put_bulk fuel bl' segs (Bl_compact ctx) = rbind (compact fuel bl1) (\<lambda>(bl2, evs :: 'c bl_event list).
        Inr (bl2, segs', Bl_append (Bl_compact ctx1) (Iov_issued ios) # evs)) \<and>
    w1 = w\<lparr>bw_dev := exec_ios ios (bw_dev w), bw_bl := bl1, bw_compactions := bw_compactions w @ [ctx1]\<rparr> \<and>
    bw_safe w1 \<and> bw_chain w1 = bw_chain w \<and> bw_room k w1 \<and> bw_ready w1 \<and> compacted bl1 = compacted (bw_bl w) + unat len \<and>
    (covered (bw_bl w) (bw_compactions w) \<longrightarrow> covered bl1 (bw_compactions w1))"
proof -
  let ?P = "place_segs bl' 0 segs" and ?w' = "w\<lparr>bw_bl := bl'\<rparr>" and ?c = "compacted (bw_bl w)"
  have win: "?c + unat len \<le> wlen (l_fetch (bl_log (bw_bl w)))"
    and far: "\<forall>seg \<in> set (in_flight w). ?c + unat len \<le> seg_pos (bw_bl w) seg"
    using ready w by (auto simp: bw_ready_def)
  have lg: "unat (f_size (l_fetch (bl_log (bw_bl w)))) - 1 + (?c + unat len) \<le> llen (bl_log (bw_bl w))" using long w by linarith
  note ad = advance_world[OF inv win lg seq far, folded bl']
  have bi: "bl_inv (bw_dev w) (bw_bl w)" using inv bl_okD(1) by (auto simp: bw_safe_def)
  have rs: "list_all seg_ready segs" using col collected_ready[OF bi] by (auto simp: list_all_iff)
  have ok': "bl_ok (bw_dev w) bl' (bw_flights w)" using ad(1) by (simp add: bw_safe_def)
  have fr: "bl_log bl' = bl_log (bw_bl w)" by (simp add: bl')
  define ctx0 where "ctx0 = ctx\<lparr>cc_segments := []\<rparr>"
  define w2 where "w2 = w\<lparr>bw_bl := bl', bw_compactions := bw_compactions w @ [ctx0]\<rparr>"
  have "bw_safe w2" using ad(1,3) by (auto simp: bw_safe_def w2_def ctx0_def ctx)
  have ok: "bl_ok (bw_dev w) (bw_bl w) (bw_flights w)" using inv by (simp add: bw_safe_def)
  note d = bl_okD[OF ok]
  have "ctx_span (bw_bl w) ctx0 = llen (bl_log (bw_bl w)) - ?c"
    using circ_dist_advance_head[OF d(5,6,8)] circ_add_dist[OF d(5,10)] by (simp add: ctx0_def ctx)
  then have rm: "bw_room (length (segs_blocks segs) + k) w2" using room by (auto simp: bw_room_def w2_def fr)
  then have "llen (bl_log bl') + length (segs_blocks segs) < unat (l_size (bl_log bl'))" by (simp add: bw_room_def w2_def)
  then obtain bl1 ios where sp: "seg_put_bulk fuel bl' segs (Bl_compact ctx) = rbind (compact fuel bl1) (\<lambda>(bl2, evs :: 'c bl_event list).
      Inr (bl2, ?P, Bl_append (with_segments ?P (Bl_compact ctx)) (Iov_issued ios) # evs))"
    and g: "log_grown (bw_dev w) bl' segs (bw_flights w) (exec_ios ios (bw_dev w)) bl1"
    using put_bulk_appends[OF ok' rs ne] by blast
  let ?dev = "exec_ios ios (bw_dev w)" and ?ctx = "ctx\<lparr>cc_segments := ?P\<rparr>"
  have "log_grown (bw_dev w2) (bw_bl w2) segs (bw_flights w2) ?dev bl1" using g by (simp add: w2_def)
  note gw = grow_world[OF \<open>bw_safe w2\<close> this rm] and gd = g[unfolded log_grown_def]
  have c1: "compacted bl1 = ?c + unat len" using gw(4) ad(2) by (simp add: w2_def)
  have "on_log ?dev bl1 s \<and> map unstamp (disk_chain ?dev bl1 (seg_bucket_id s)) = map unstamp (seg_buckets s)" if s: "s \<in> set ?P" for s
  proof -
    obtain seg where "seg \<in> set segs" "seg_bucket_id s = seg_bucket_id seg" "seg_buckets s = seg_buckets seg"
      using place_segs_mem[OF s] by blast
    then show ?thesis using gd s col ad(4) by (simp add: collected_def)
  qed
  moreover have "ctx_ok ?dev bl1 ctx0" using gw(1) by (simp add: bw_safe_def w2_def)
  ultimately have cok: "ctx_ok ?dev bl1 ?ctx" by (simp add: ctx_ok_def ctx0_def)
  define w1 where "w1 = w\<lparr>bw_dev := ?dev, bw_bl := bl1, bw_compactions := bw_compactions w @ [?ctx]\<rparr>"
  have "bw_safe w1" using gw(1) cok by (auto simp: bw_safe_def w1_def w2_def)
  moreover have "bw_chain w1 = bw_chain w" using gd ad(4) by (intro ext) (simp add: bw_chain_def w1_def)
  moreover have "bw_room k w1" using gw(3) by (simp add: bw_room_def w1_def w2_def ctx0_def)
  moreover have "bw_ready w1"
  proof -
    have "bw_ready w2" using ready by (simp add: bw_ready_def w2_def fr in_flight_def ctx0_def)
    then have "bw_ready (w2\<lparr>bw_dev := ?dev, bw_bl := bl1\<rparr>)" using gw(6) long by (simp add: w2_def fr)
    moreover have "COMPACT_REACH \<le> seg_pos bl1 s" if "s \<in> set ?P" for s
      using gd that long unfolding fr by (meson le_trans le_add2)
    ultimately show ?thesis by (auto simp: bw_ready_def w1_def w2_def in_flight_def ctx0_def)
  qed
  moreover have "covered bl1 (bw_compactions w1)" if cov: "covered (bw_bl w) (bw_compactions w)"
  proof -
    have ids: "seg_bucket_id ` set ?P = seg_bucket_id ` set segs" using place_segs_ids by metis
    have fm: "bl_meta bl' = bl_meta (bw_bl w)" by (simp add: bl')
    have "covered bl' (?ctx # bw_compactions w)"
      using all ids by (intro covered_advance[OF ok cov _ fr fm]) (simp_all add: ad(2) ctx)
    then have "covered bl1 (?ctx # bw_compactions w)" using covered_cong[of bl1 bl'] gd by simp
    then show ?thesis by (rule covered_mono) (simp add: w1_def)
  qed
  ultimately show ?thesis using sp c1
    by (intro exI[of _ bl1] exI[of _ ios] exI[of _ w1] exI[of _ ?P] exI[of _ ?ctx]) (simp add: w1_def with_segments_def)
qed

text \<open>A compaction that finds no live chain completes at once and trims the head.\<close>

lemma compact_write_world:
  assumes inv: "bw_safe w" and ctx: "ctx_ok (bw_dev w) (bw_bl w) ctx"
  shows "\<exists>bl' evs w'. compact_write_cb True ctx (bw_bl w) = Inr (bl', evs :: 'c bl_event list) \<and>
    bw_events segs evs (w\<lparr>bw_bl := bl'\<rparr>) = Inr w' \<and> bw_safe w' \<and> bw_chain w' = bw_chain w \<and>
    bw_puts w' = bw_puts w \<and> bw_compactions w' = bw_compactions w \<and>
    (covered (bw_bl w) (ctx # bw_compactions w) \<longrightarrow> covered (bw_bl w') (bw_compactions w')) \<and>
    (compacted (bw_bl w') = 0 \<or> (\<exists>b. \<not> is_meta_empty (kv_bucket_meta_get (bl_meta (bw_bl w')) b) \<and> chain_pos (bw_bl w') b = 0)) \<and>
    bl_compact_head (bw_bl w') = bl_compact_head (bw_bl w)"
proof -
  have ok: "bl_ok (bw_dev w) (bw_bl w) (bw_flights w)" using inv by (simp add: bw_safe_def)
  obtain bl' new where e: "compact_write_cb True ctx (bw_bl w) = (Inr (bl', [Bl_prefetch new]) :: (kv_bucket_log \<times> 'c bl_event list) res)"
    and r: "bl_ok (bw_dev w) bl' (bw_flights w @ new)" "\<forall>b. map unstamp (disk_chain (bw_dev w) bl' b) = map unstamp (disk_chain (bw_dev w) (bw_bl w) b)"
      "\<forall>s. on_log (bw_dev w) (bw_bl w) s \<longrightarrow> on_log (bw_dev w) bl' s" "\<forall>c. ctx_ok (bw_dev w) (bw_bl w) c \<longrightarrow> ctx_ok (bw_dev w) bl' c"
      "\<forall>ctxs. covered (bw_bl w) (ctx # ctxs) \<longrightarrow> covered bl' ctxs" "bl_compact_head bl' = bl_compact_head (bw_bl w)"
      "compacted bl' = 0 \<or> (\<exists>b. \<not> is_meta_empty (kv_bucket_meta_get (bl_meta bl') b) \<and> chain_pos bl' b = 0)"
    using compact_write_cb_ok[OF ok ctx] by (elim exE conjE) blast
  let ?w = "w\<lparr>bw_bl := bl', bw_flights := bw_flights w @ new\<rparr>"
  have "bw_safe ?w" using inv r by (simp add: bw_safe_def)
  moreover have "bw_chain ?w = bw_chain w" using r(2) by (intro ext) (simp add: bw_chain_def)
  ultimately show ?thesis using e r(5-7) by (intro exI[of _ bl'] exI[of _ "[Bl_prefetch new]"] exI[of _ ?w]) simp
qed

lemma compact_scans:
  assumes inv: "bw_safe w" and ready: "bw_ready w" and busy: "\<not> compact_idle (bw_bl w)"
  obtains len new where "compact_collect (Suc (unat COMPACTION_LENGTH)) (bw_bl w) 0 [] = Inr (len, new)"
    and "512 \<le> unat len" "compacted (bw_bl w) \<le> 2048" "compacted (bw_bl w) + unat len \<le> COMPACT_REACH"
    and "chain_seq (take (unat len) (drop (compacted (bw_bl w)) (log_blocks (bw_dev w) (bl_log (bw_bl w)))))"
      "chain_seq (drop (compacted (bw_bl w) + unat len) (log_blocks (bw_dev w) (bl_log (bw_bl w))))"
    and "length (segs_blocks new) \<le> unat len" "\<forall>seg \<in> set new. collected (bw_dev w) (bw_bl w) seg"
    and "\<forall>x. \<not> is_meta_empty (kv_bucket_meta_get (bl_meta (bw_bl w)) x) \<and> compacted (bw_bl w) \<le> chain_pos (bw_bl w) x \<and>
       chain_pos (bw_bl w) x < compacted (bw_bl w) + unat len \<longrightarrow> x \<in> seg_bucket_id ` set new"
    and "unat (f_size (l_fetch (bl_log (bw_bl w)))) - 1 + COMPACT_REACH \<le> llen (bl_log (bw_bl w))"
proof -
  let ?bl = "bw_bl w" and ?c = "compacted (bw_bl w)" and ?B = "log_blocks (bw_dev w) (bl_log (bw_bl w))"
  have ok: "bl_ok (bw_dev w) ?bl (bw_flights w)" using inv by (simp add: bw_safe_def)
  note d = bl_okD[OF ok]
  have c: "?c \<le> 2048" and sz: "unat (l_size (bl_log ?bl)) \<le> llen (bl_log ?bl) + 12288"
    using busy compact_idle_iff[OF ok] by auto
  have "32768 \<le> unat (l_size (bl_log ?bl))" "unat (f_size (l_fetch (bl_log ?bl))) \<le> 8193" using ok by (simp_all add: bl_ok_def)
  then have long: "unat (f_size (l_fetch (bl_log ?bl))) - 1 + COMPACT_REACH \<le> llen (bl_log ?bl)"
    using sz by (simp add: COMPACT_REACH_def)
  have win: "?c + 638 \<le> wlen (l_fetch (bl_log ?bl))" using ready c by (simp add: bw_ready_def COMPACT_REACH_def)
  have "chain_seq (drop (?c + unat (0 :: u32)) ?B)" using ok by (simp add: bl_ok_def)
  then obtain len new where co: "compact_collect (Suc (unat COMPACTION_LENGTH)) ?bl 0 [] = Inr (len, new)"
    and len: "512 \<le> unat len" "unat len \<le> 638" and sq: "chain_seq (drop (?c + unat len) ?B)" "chain_seq (take (unat len) (drop ?c ?B))"
    and nl: "length (segs_blocks new) \<le> unat len" and col: "\<forall>seg \<in> set new. collected (bw_dev w) ?bl seg"
    and all: "\<forall>x. \<not> is_meta_empty (kv_bucket_meta_get (bl_meta ?bl) x) \<and> ?c \<le> chain_pos ?bl x \<and> chain_pos ?bl x < ?c + unat len \<longrightarrow>
      x \<in> seg_bucket_id ` set new"
    using compact_collect_correct[OF d(1,2,10) win, of 0 "Suc (unat COMPACTION_LENGTH)" "[]"] by (auto simp: COMPACTION_LENGTH_def)
  have cl: "?c + unat len \<le> COMPACT_REACH" using c len by (simp add: COMPACT_REACH_def)
  show thesis using that[OF co len(1) c cl sq(2,1) nl col all long] .
qed

text \<open>A stretch with no live chain is finished at once: the compaction head moves over it and the head follows.\<close>

lemma compact_skips:
  fixes len :: u32
  assumes inv: "bw_safe w" and w: "compacted (bw_bl w) + unat len \<le> COMPACT_REACH" and ready: "bw_ready w"
    and long: "unat (f_size (l_fetch (bl_log (bw_bl w)))) - 1 + COMPACT_REACH \<le> llen (bl_log (bw_bl w))"
    and seq: "chain_seq (take (unat len) (drop (compacted (bw_bl w)) (log_blocks (bw_dev w) (bl_log (bw_bl w)))))"
      "chain_seq (drop (compacted (bw_bl w) + unat len) (log_blocks (bw_dev w) (bl_log (bw_bl w))))"
    and all: "\<forall>x. \<not> is_meta_empty (kv_bucket_meta_get (bl_meta (bw_bl w)) x) \<and> compacted (bw_bl w) \<le> chain_pos (bw_bl w) x \<longrightarrow>
       \<not> chain_pos (bw_bl w) x < compacted (bw_bl w) + unat len"
    and bl': "bl' = (bw_bl w)\<lparr>bl_compact_head := ucast ((ucast (bl_compact_head (bw_bl w)) + ucast len) mod l_size (bl_log (bw_bl w)) :: u64)\<rparr>"
    and ctx: "ctx = \<lparr>cc_compact_head = bl_compact_head (bw_bl w), cc_len = len, cc_segments = []\<rparr>"
  shows "\<exists>bl'' evs w'. compact_write_cb True ctx bl' = Inr (bl'', evs :: 'c bl_event list) \<and>
    bw_events segs evs (w\<lparr>bw_bl := bl''\<rparr>) = Inr w' \<and> bw_safe w' \<and> bw_chain w' = bw_chain w \<and> bw_puts w' = bw_puts w \<and>
    (covered (bw_bl w) (bw_compactions w) \<longrightarrow> covered (bw_bl w') (bw_compactions w'))"
proof -
  let ?bl = "bw_bl w" and ?c = "compacted (bw_bl w)"
  have ok: "bl_ok (bw_dev w) ?bl (bw_flights w)" using inv by (simp add: bw_safe_def)
  have wc: "?c + unat len \<le> wlen (l_fetch (bl_log ?bl))" "\<forall>seg \<in> set (in_flight w). ?c + unat len \<le> seg_pos ?bl seg"
    using ready w by (auto simp: bw_ready_def)
  have lg: "unat (f_size (l_fetch (bl_log ?bl))) - 1 + (?c + unat len) \<le> llen (bl_log ?bl)" using long w by linarith
  note ad = advance_world[OF inv wc(1) lg seq wc(2), folded bl']
  define wa where "wa = w\<lparr>bw_bl := bl'\<rparr>"
  have "bw_safe wa" "ctx_ok (bw_dev wa) (bw_bl wa) ctx" using ad(1,3) by (simp_all add: ctx wa_def)
  from compact_write_world[OF this, of segs] obtain bl'' evs w' where
    wr0: "compact_write_cb True ctx (bw_bl wa) = Inr (bl'', evs :: 'c bl_event list)" "bw_events segs evs (wa\<lparr>bw_bl := bl''\<rparr>) = Inr w'" "bw_safe w'"
      "bw_chain w' = bw_chain wa" "bw_puts w' = bw_puts wa"
      "covered (bw_bl wa) (ctx # bw_compactions wa) \<longrightarrow> covered (bw_bl w') (bw_compactions w')" by blast
  note wr = wr0[unfolded wa_def, simplified]
  have "covered bl' (ctx # bw_compactions w)" if "covered ?bl (bw_compactions w)"
  proof (rule covered_advance[OF ok that])
    show "compacted bl' = ?c + unat (cc_len ctx)" using ad(2) by (simp add: ctx)
  qed (use all in \<open>auto simp: ctx bl'\<close>)
  moreover have "bw_chain (w\<lparr>bw_bl := bl'\<rparr>) = bw_chain w" using ad(4) by (intro ext) (simp add: bw_chain_def)
  ultimately show ?thesis using wr by (intro exI[of _ bl''] exI[of _ evs] exI[of _ w']) simp
qed

lemma compact_cascade:
  assumes "bw_safe w" and "\<not> compact_idle (bw_bl w) \<longrightarrow> bw_ready w" and "bw_room (COMPACT_REACH - compacted (bw_bl w)) w"
    and "2560 < compacted (bw_bl w) + 512 * fuel" and "0 < fuel"
  shows "\<exists>bl' evs w'. compact fuel (bw_bl w) = Inr (bl', evs :: 'c bl_event list) \<and>
    bw_events segs evs (w\<lparr>bw_bl := bl'\<rparr>) = Inr w' \<and> bw_safe w' \<and> bw_chain w' = bw_chain w \<and> bw_puts w' = bw_puts w \<and>
    (covered (bw_bl w) (bw_compactions w) \<longrightarrow> covered (bw_bl w') (bw_compactions w'))"
  using assms
proof (induction fuel arbitrary: w)
  case (Suc fuel)
  let ?bl = "bw_bl w" and ?c = "compacted (bw_bl w)" and ?B = "log_blocks (bw_dev w) (bl_log (bw_bl w))"
  have ok: "bl_ok (bw_dev w) ?bl (bw_flights w)" using Suc.prems(1) by (simp add: bw_safe_def)
  note d = bl_okD[OF ok]
  show ?case
  proof (cases "compact_idle ?bl")
    case True
    then show ?thesis using Suc.prems(1) by (intro exI[of _ ?bl] exI[of _ "[]"] exI[of _ w]) simp
  next
    case False
    have ready: "bw_ready w" using False Suc.prems(2) by simp
    obtain len new where co: "compact_collect (Suc (unat COMPACTION_LENGTH)) ?bl 0 [] = Inr (len, new)"
      and len: "512 \<le> unat len" and c: "?c \<le> 2048" and cl: "?c + unat len \<le> COMPACT_REACH"
      and sq: "chain_seq (take (unat len) (drop ?c ?B))" "chain_seq (drop (?c + unat len) ?B)"
      and nl: "length (segs_blocks new) \<le> unat len" and col: "\<forall>seg \<in> set new. collected (bw_dev w) ?bl seg"
      and all: "\<forall>x. \<not> is_meta_empty (kv_bucket_meta_get (bl_meta ?bl) x) \<and> ?c \<le> chain_pos ?bl x \<and> chain_pos ?bl x < ?c + unat len \<longrightarrow>
        x \<in> seg_bucket_id ` set new"
      and long: "unat (f_size (l_fetch (bl_log ?bl))) - 1 + COMPACT_REACH \<le> llen (bl_log ?bl)"
      by (rule compact_scans[OF Suc.prems(1) ready False])
    define bl' where "bl' = ?bl\<lparr>bl_compact_head := ucast ((ucast (bl_compact_head ?bl) + ucast len) mod l_size (bl_log ?bl) :: u64)\<rparr>"
    define ctx where "ctx = \<lparr>cc_compact_head = bl_compact_head ?bl, cc_len = len, cc_segments = new\<rparr>"
    have cp: "compact (Suc fuel) ?bl = rbind (seg_put_bulk fuel bl' new (Bl_compact ctx)) (\<lambda>(bl'', _, evs :: 'c bl_event list). Inr (bl'', evs))"
      unfolding compact.simps(2) co by (simp only: False if_False rbind_Inr prod.case Let_def bl'_def ctx_def)
    show ?thesis
    proof (cases "new = []")
      case True
      have cx: "ctx = \<lparr>cc_compact_head = bl_compact_head ?bl, cc_len = len, cc_segments = []\<rparr>" using True by (simp add: ctx_def)
      have no: "\<forall>x. \<not> is_meta_empty (kv_bucket_meta_get (bl_meta ?bl) x) \<and> ?c \<le> chain_pos ?bl x \<longrightarrow> \<not> chain_pos ?bl x < ?c + unat len"
      proof (intro allI impI notI, goal_cases)
        case (1 x)
        then have "x \<in> seg_bucket_id ` set new" using all by simp
        then show False using True by simp
      qed
      obtain bl'' evs w' where wr: "compact_write_cb True ctx bl' = Inr (bl'', evs :: 'c bl_event list)"
        "bw_events segs evs (w\<lparr>bw_bl := bl''\<rparr>) = Inr w'" "bw_safe w'" "bw_chain w' = bw_chain w" "bw_puts w' = bw_puts w"
        "covered ?bl (bw_compactions w) \<longrightarrow> covered (bw_bl w') (bw_compactions w')"
        using compact_skips[OF Suc.prems(1) cl ready long sq no bl'_def cx, of segs] by blast
      have "compact (Suc fuel) ?bl = Inr (bl'', evs)" using wr(1) True unfolding cp by (simp add: run_bl_cb_def)
      then show ?thesis using wr(2-6) by (intro exI[of _ bl''] exI[of _ evs] exI[of _ w']) (simp del: compact.simps)
    next
      case ne: False
      let ?k = "COMPACT_REACH - ?c - length (segs_blocks new)"
      have "length (segs_blocks new) + ?k = COMPACT_REACH - ?c" using nl cl by simp
      then have rm: "bw_room (length (segs_blocks new) + ?k) w" using Suc.prems(3) by simp
      obtain bl1 ios w1 segs' ctx1 where sp: "seg_put_bulk fuel bl' new (Bl_compact ctx) = rbind (compact fuel bl1) (\<lambda>(bl2, evs :: 'c bl_event list).
          Inr (bl2, segs', Bl_append (Bl_compact ctx1) (Iov_issued ios) # evs))"
        and w1: "w1 = w\<lparr>bw_dev := exec_ios ios (bw_dev w), bw_bl := bl1, bw_compactions := bw_compactions w @ [ctx1]\<rparr>"
        and r: "bw_safe w1" "bw_chain w1 = bw_chain w" "bw_room ?k w1" "bw_ready w1" "compacted bl1 = ?c + unat len"
          "covered ?bl (bw_compactions w) \<longrightarrow> covered bl1 (bw_compactions w1)"
        using compact_appends[OF Suc.prems(1) cl ready long sq col ne all rm bl'_def ctx_def, of fuel] by blast
      have "COMPACT_REACH - compacted (bw_bl w1) \<le> ?k" using r(5) nl by (simp add: w1)
      then have "bw_room (COMPACT_REACH - compacted (bw_bl w1)) w1" using r(3) by (auto simp: bw_room_def)
      moreover have "2560 < compacted (bw_bl w1) + 512 * fuel" "0 < fuel" using r(5) Suc.prems(4) len c by (auto simp: w1)
      ultimately obtain bl2 evs w2 where ih: "compact fuel bl1 = Inr (bl2, evs :: 'c bl_event list)" "bw_events segs evs (w1\<lparr>bw_bl := bl2\<rparr>) = Inr w2"
          "bw_safe w2" "bw_chain w2 = bw_chain w1" "bw_puts w2 = bw_puts w1"
          "covered bl1 (bw_compactions w1) \<longrightarrow> covered (bw_bl w2) (bw_compactions w2)"
        using Suc.IH[OF r(1)] r(4) by (auto simp: w1)
      have ww: "w\<lparr>bw_bl := bl2, bw_dev := exec_ios ios (bw_dev w), bw_compactions := bw_compactions w @ [ctx1]\<rparr> = w1\<lparr>bw_bl := bl2\<rparr>"
        by (simp add: w1)
      have "bw_puts w2 = bw_puts w" using ih(5) by (simp add: w1)
      moreover have "compact (Suc fuel) ?bl = Inr (bl2, Bl_append (Bl_compact ctx1) (Iov_issued ios) # evs)"
        using ih(1) unfolding cp sp by simp
      ultimately show ?thesis using ih(2,3,4,6) r(2,6) ww
        by (intro exI[of _ bl2] exI[of _ "Bl_append (Bl_compact ctx1) (Iov_issued ios) # evs"] exI[of _ w2]) (simp del: compact.simps)
    qed
  qed
qed simp

section \<open>Runs\<close>

text \<open>
  The steps of the log: a put of a changed segment with the compactions it starts, the
  commit of a segment that has been written, the completion of a compaction, and the arrival
  or failure of a prefetch.
\<close>

datatype bucket_step = Bk_put kv_bucket_segment | Bk_commit kv_bucket_segment | Bk_compacted compact_ctx | Bk_fetched bool nat

definition drop_nth :: "nat \<Rightarrow> 'a list \<Rightarrow> 'a list" where
  "drop_nth i xs = take i xs @ drop (Suc i) xs"

fun bw_run :: "bucket_step \<Rightarrow> bucket_world \<Rightarrow> bucket_world res" where
  "bw_run (Bk_put seg) w =
     rbind (kv_bucket_seg_put (bw_bl w) seg ()) (\<lambda>(bl, segs, evs). bw_events segs evs (w\<lparr>bw_bl := bl\<rparr>))"
| "bw_run (Bk_commit seg) w =
     rbind (kv_bucket_seg_commit (bl_meta (bw_bl w)) seg) (\<lambda>(m, _).
       Inr (w\<lparr>bw_bl := (bw_bl w)\<lparr>bl_meta := m\<rparr>, bw_puts := remove1 seg (bw_puts w)\<rparr>))"
| "bw_run (Bk_compacted ctx) w =
     rbind (compact_write_cb True ctx (bw_bl w)) (\<lambda>(bl, evs :: unit bl_event list).
       bw_events [] evs (w\<lparr>bw_bl := bl, bw_compactions := remove1 ctx (bw_compactions w)\<rparr>))"
| "bw_run (Bk_fetched success i) w =
     (let c = bw_flights w ! i; l = bl_log (bw_bl w) in
      rbind (fetch_cb success c (if success then fetch_arrive (read_blocks (bw_dev w) l c) c l else l)) (\<lambda>(l', rd).
        Inr (w\<lparr>bw_bl := (bw_bl w)\<lparr>bl_log := l'\<rparr>, bw_flights := drop_nth i (bw_flights w) @ opt_list rd\<rparr>)))"

text \<open>
  What the callers keep to: segments are well-formed chains, the log has room for the segment
  and a cascade of compactions, and where a compaction is due its stretch is in the window;
  a commit that removes a bucket finds it in the meta; callbacks come for requests in flight.
\<close>

fun bw_ok :: "bucket_step \<Rightarrow> bucket_world \<Rightarrow> bool" where
  "bw_ok (Bk_put seg) w \<longleftrightarrow> seg_ready seg \<and> seg_dirty seg \<and> bw_room (length (seg_buckets seg) + COMPACT_REACH) w \<and>
     (put_idle (bw_bl w) (length (seg_buckets seg)) \<or> bw_ready w)"
| "bw_ok (Bk_commit seg) w \<longleftrightarrow> seg \<in> set (bw_puts w) \<and>
     (is_meta_empty (kv_bucket_meta_get (bl_meta (bw_bl w)) (seg_bucket_id seg)) \<longrightarrow> \<not> empty_chain (seg_buckets seg))"
| "bw_ok (Bk_compacted ctx) w \<longleftrightarrow> ctx \<in> set (bw_compactions w)"
| "bw_ok (Bk_fetched success i) w \<longleftrightarrow> i < length (bw_flights w)"

text \<open>The specification: only commits change the chain of a bucket.\<close>

fun bw_spec :: "bucket_step \<Rightarrow> (u64 \<Rightarrow> kv_bucket list) \<Rightarrow> u64 \<Rightarrow> kv_bucket list" where
  "bw_spec (Bk_commit seg) m = m(seg_bucket_id seg := if empty_chain (seg_buckets seg) then [] else map unstamp (seg_buckets seg))"
| "bw_spec (Bk_put seg) m = m"
| "bw_spec (Bk_compacted ctx) m = m"
| "bw_spec (Bk_fetched success i) m = m"

lemma bw_put_step:
  assumes "bw_inv w" and ok: "bw_ok (Bk_put seg) w"
  shows "\<exists>w'. bw_run (Bk_put seg) w = Inr w' \<and> bw_inv w' \<and> bw_chain w' = bw_chain w \<and>
    bw_puts w' = bw_puts w @ place_segs (bw_bl w) 0 [seg]"
proof -
  have inv: "bw_safe w" and cov: "covered (bw_bl w) (bw_compactions w)" using assms(1) by (simp_all add: bw_inv_def)
  let ?bl = "bw_bl w" and ?n = "length (seg_buckets seg)" and ?P = "place_segs (bw_bl w) 0 [seg]"
  have bok: "bl_ok (bw_dev w) ?bl (bw_flights w)" using inv by (simp add: bw_safe_def)
  have sr: "list_all seg_ready [seg]" "seg_dirty seg" and rm: "bw_room (length (segs_blocks [seg]) + COMPACT_REACH) w"
    using ok by simp_all
  then have "llen (bl_log ?bl) + length (segs_blocks [seg]) < unat (l_size (bl_log ?bl))" by (simp add: bw_room_def)
  then obtain bl1 ios where sp: "kv_bucket_seg_put ?bl seg () = rbind (compact COMPACT_FUEL bl1) (\<lambda>(bl', evs).
      Inr (bl', ?P, Bl_append (with_segments ?P (Bl_caller ())) (Iov_issued ios) # evs))"
    and g: "log_grown (bw_dev w) ?bl [seg] (bw_flights w) (exec_ios ios (bw_dev w)) bl1"
    using put_bulk_appends[OF bok sr(1), of COMPACT_FUEL "Bl_caller ()"]
    unfolding kv_bucket_seg_put_def kv_bucket_seg_put_bulk_def by blast
  let ?w1 = "w\<lparr>bw_dev := exec_ios ios (bw_dev w), bw_bl := bl1\<rparr>"
  define w1 where "w1 = ?w1\<lparr>bw_puts := bw_puts w @ ?P\<rparr>"
  note gw = grow_world[OF inv g rm] and gd = log_grownD[OF g]
  have i1: "bw_safe w1" using gw(1) gd(5) sr(2) by (auto simp: bw_safe_def w1_def)
  have chains: "bw_chain w1 = bw_chain w" using gw(2) by (simp add: bw_chain_def fun_eq_iff w1_def)
  have rdy: "bw_ready w1" if due: "\<not> compact_idle (bw_bl w1)"
  proof -
    have b1: "bl_ok (exec_ios ios (bw_dev w)) bl1 (bw_flights w)" using gd(1) .
    have "\<not> put_idle ?bl ?n" using gd(4) due by (simp add: w1_def)
    then have r: "bw_ready w" using ok by simp
    have "unat (l_size (bl_log bl1)) \<le> llen (bl_log bl1) + 12288" using compact_idle_iff[OF b1] due by (simp add: w1_def)
    then have "unat (l_size (bl_log ?bl)) \<le> llen (bl_log ?bl) + ?n + 12288"
      unfolding gd(2) unfolding gd(3) by (simp only: segs_blocks_simps append_Nil2)
    moreover have "?n < 128" using seg_ready_chain[of seg] sr(1) by (simp add: is_chain_def)
    moreover have "32768 \<le> unat (l_size (bl_log ?bl))" "unat (f_size (l_fetch (bl_log ?bl))) \<le> 8193" using bok by (simp_all add: bl_ok_def)
    ultimately have lg: "8192 \<le> llen (bl_log ?bl)" "unat (f_size (l_fetch (bl_log ?bl))) - 1 \<le> llen (bl_log ?bl)" by linarith+
    have "bw_ready ?w1" using gw(6)[OF lg(2) r] .
    moreover have "COMPACT_REACH \<le> seg_pos bl1 s" if "s \<in> set ?P" for s
      using gd(5)[OF that] lg(1) unfolding COMPACT_REACH_def by linarith
    ultimately show ?thesis by (auto simp: bw_ready_def w1_def in_flight_def)
  qed
  have "bw_room (COMPACT_REACH - compacted (bw_bl w1)) w1" using gw(3) by (auto simp: bw_room_def w1_def)
  then obtain bl' evs w' where c: "compact COMPACT_FUEL bl1 = Inr (bl', evs :: unit bl_event list)" "bw_events ?P evs (w1\<lparr>bw_bl := bl'\<rparr>) = Inr w'"
      "bw_safe w'" "bw_chain w' = bw_chain w1" "bw_puts w' = bw_puts w1" "covered bl1 (bw_compactions w) \<longrightarrow> covered (bw_bl w') (bw_compactions w')"
    using compact_cascade[OF i1, of COMPACT_FUEL ?P] rdy by (auto simp: COMPACT_FUEL_def w1_def)
  have ww: "w\<lparr>bw_bl := bl', bw_dev := exec_ios ios (bw_dev w), bw_puts := bw_puts w @ ?P\<rparr> = w1\<lparr>bw_bl := bl'\<rparr>" by (simp add: w1_def)
  have "bw_run (Bk_put seg) w = bw_events ?P evs (w1\<lparr>bw_bl := bl'\<rparr>)" unfolding ww[symmetric] by (simp add: sp c(1) with_segments_def)
  moreover have "covered bl1 (bw_compactions w)" using covered_cong[of bl1 ?bl] g cov by (simp add: log_grown_def)
  ultimately show ?thesis using c chains by (simp add: bw_inv_def w1_def)
qed

lemma bw_commit_step:
  assumes "bw_inv w" and ok: "bw_ok (Bk_commit seg) w"
  shows "\<exists>w'. bw_run (Bk_commit seg) w = Inr w' \<and> bw_inv w' \<and> bw_chain w' = bw_spec (Bk_commit seg) (bw_chain w)"
proof -
  let ?bl = "bw_bl w"
  have inv: "bw_safe w" and cov: "covered ?bl (bw_compactions w)" using assms(1) by (simp_all add: bw_inv_def)
  have bok: "bl_ok (bw_dev w) ?bl (bw_flights w)" and ol: "on_log (bw_dev w) ?bl seg" "seg_dirty seg"
    using inv ok by (auto simp: bw_safe_def)
  have s: "seg_wf seg" "seg_chain seg \<noteq> []" "seg_bucket_id seg < KV_BUCKET_ID_EMPTY" using ol(1) by (simp_all add: on_log_def)
  have live: "is_meta_empty (kv_bucket_meta_get (bl_meta ?bl) (seg_bucket_id seg)) \<longrightarrow> seg_meta seg \<noteq> zero_meta"
    using ok seg_meta_zero[OF s(1,2)] by simp
  note ck = commit_ok[OF bok ol(1) live]
  let ?bl' = "?bl\<lparr>bl_meta := kv_bucket_meta_put (bl_meta ?bl) (seg_bucket_id seg) (seg_meta seg)\<rparr>"
  let ?w = "w\<lparr>bw_bl := ?bl', bw_puts := remove1 seg (bw_puts w)\<rparr>"
  have "bw_run (Bk_commit seg) w = Inr ?w" using seg_commit_eq[OF s(1) ol(2) s(3)] by simp
  moreover have "moves_on ?bl ?bl'" using ck(7) by (simp add: moves_on_def)
  then have "covered ?bl' (bw_compactions w)"
    using covered_moves_on[of ?bl "\<lparr>cc_compact_head = 0, cc_len = 0, cc_segments = []\<rparr>"] covered_mono[OF cov] by (simp add: subset_insertI)
  moreover have "bw_safe ?w" using inv ck(1-3) set_remove1_subset[of seg "bw_puts w"] by (auto simp: bw_safe_def)
  moreover have "bw_chain ?w b = bw_spec (Bk_commit seg) (bw_chain w) b" for b
    using ck(4,5) by (cases "b = seg_bucket_id seg") (simp_all add: bw_chain_def)
  ultimately show ?thesis by (intro exI[of _ ?w]) (auto simp: bw_inv_def)
qed

lemma bw_compacted_step:
  assumes "bw_inv w" and ok: "bw_ok (Bk_compacted ctx) w"
  shows "\<exists>w'. bw_run (Bk_compacted ctx) w = Inr w' \<and> bw_inv w' \<and> bw_chain w' = bw_chain w \<and>
    bw_compactions w' = remove1 ctx (bw_compactions w) \<and> bl_compact_head (bw_bl w') = bl_compact_head (bw_bl w) \<and>
    (compacted (bw_bl w') = 0 \<or> (\<exists>b. \<not> is_meta_empty (kv_bucket_meta_get (bl_meta (bw_bl w')) b) \<and> chain_pos (bw_bl w') b = 0))"
proof -
  have inv: "bw_safe w" and cov: "covered (bw_bl w) (bw_compactions w)" using assms(1) by (simp_all add: bw_inv_def)
  define wa where "wa = w\<lparr>bw_compactions := remove1 ctx (bw_compactions w)\<rparr>"
  have "bw_safe wa" using inv set_remove1_subset[of ctx "bw_compactions w"] by (auto simp: bw_safe_def wa_def)
  moreover have "ctx_ok (bw_dev wa) (bw_bl wa) ctx" using inv ok by (simp add: bw_safe_def wa_def)
  ultimately obtain bl' evs w' where r0: "compact_write_cb True ctx (bw_bl wa) = Inr (bl', evs :: unit bl_event list)"
      "bw_events [] evs (wa\<lparr>bw_bl := bl'\<rparr>) = Inr w'" "bw_safe w'" "bw_chain w' = bw_chain wa" "bw_compactions w' = bw_compactions wa"
      "covered (bw_bl wa) (ctx # bw_compactions wa) \<longrightarrow> covered (bw_bl w') (bw_compactions w')"
      "compacted (bw_bl w') = 0 \<or> (\<exists>b. \<not> is_meta_empty (kv_bucket_meta_get (bl_meta (bw_bl w')) b) \<and> chain_pos (bw_bl w') b = 0)"
      "bl_compact_head (bw_bl w') = bl_compact_head (bw_bl wa)"
    using compact_write_world[of wa ctx "[]"] by blast
  have f: "bw_bl wa = bw_bl w" "bw_compactions wa = remove1 ctx (bw_compactions w)" "bw_chain wa = bw_chain w"
    by (simp_all add: wa_def bw_chain_def fun_eq_iff)
  note r = r0[unfolded f]
  have e: "w\<lparr>bw_bl := bl', bw_compactions := remove1 ctx (bw_compactions w)\<rparr> = wa\<lparr>bw_bl := bl'\<rparr>" by (simp add: wa_def)
  have "bw_run (Bk_compacted ctx) w = Inr w'" unfolding bw_run.simps r(1) rbind_Inr prod.case e by (rule r(2))
  moreover have "set (bw_compactions w) \<subseteq> set (ctx # remove1 ctx (bw_compactions w))" using in_set_remove1 by fastforce
  then have "covered (bw_bl w) (ctx # remove1 ctx (bw_compactions w))" using covered_mono[OF cov] by blast
  ultimately show ?thesis using r(3-8) by (auto simp: bw_inv_def)
qed

text \<open>The prefetcher leaves the blocks of the log and its ends as they are.\<close>

lemma frame_ok:
  assumes ok: "bl_ok dev bl cs" and li: "log_inv dev l' cs'" and fr: "log_frame (bl_log bl) l'"
    and wl: "wlen (l_fetch (bl_log bl)) \<le> wlen (l_fetch l')"
  shows "bl_ok dev (bl\<lparr>bl_log := l'\<rparr>) cs'" and "on_log dev bl seg \<Longrightarrow> on_log dev (bl\<lparr>bl_log := l'\<rparr>) seg"
    and "ctx_ok dev bl ctx \<Longrightarrow> ctx_ok dev (bl\<lparr>bl_log := l'\<rparr>) ctx" and "disk_chain dev (bl\<lparr>bl_log := l'\<rparr>) = disk_chain dev bl"
proof -
  let ?bl = "bl\<lparr>bl_log := l'\<rparr>"
  have f: "l_base l' = l_base (bl_log bl)" "l_size l' = l_size (bl_log bl)" "l_head l' = l_head (bl_log bl)" "l_tail l' = l_tail (bl_log bl)"
    "f_size (l_fetch l') = f_size (l_fetch (bl_log bl))"
    using fr by (simp_all add: log_frame_def)
  note d = bl_okD[OF ok]
  show dc: "disk_chain dev ?bl = disk_chain dev bl" by (rule disk_chain_cong) (simp_all add: f)
  have wf: "log_wf l'" using li by (simp add: log_inv_def)
  have "bl_inv dev ?bl" using d(1) wf unfolding bl_inv_def dc by (simp add: f chain_inside_def)
  moreover have "window_sync l'" using sync_mono[OF li _ wl d(2)] ok by (simp add: f bl_ok_def)
  ultimately show "bl_ok dev ?bl cs'" using ok li wl log_frame_blocks[OF fr, of dev] unfolding bl_ok_def dc by (auto simp: f)
  show ol: "on_log dev ?bl seg" if "on_log dev bl seg" for seg
    using that run_at_cong[of l' "bl_log bl" dev] unfolding on_log_def by (simp add: f)
  have "in_stretch ?bl = in_stretch bl" by (rule in_stretch_cong) (simp_all add: f)
  then show "ctx_ok dev ?bl ctx" if "ctx_ok dev bl ctx" using that ol unfolding ctx_ok_def dc by (simp add: f)
qed

lemma bw_fetched_step:
  assumes "bw_inv w" and i: "i < length (bw_flights w)"
  shows "\<exists>w'. bw_run (Bk_fetched success i) w = Inr w' \<and> bw_inv w' \<and> bw_chain w' = bw_chain w"
proof -
  have inv: "bw_safe w" and cov: "covered (bw_bl w) (bw_compactions w)" using assms(1) by (simp_all add: bw_inv_def)
  let ?l = "bl_log (bw_bl w)" and ?c = "bw_flights w ! i"
  have bok: "bl_ok (bw_dev w) (bw_bl w) (bw_flights w)" using inv by (simp add: bw_safe_def)
  have e: "bw_flights w = take i (bw_flights w) @ ?c # drop (Suc i) (bw_flights w)" using i by (simp add: id_take_nth_drop)
  have li: "log_inv (bw_dev w) ?l (take i (bw_flights w) @ ?c # drop (Suc i) (bw_flights w))" using bl_okD(2)[OF bok] e by simp
  have "\<exists>l' rd. fetch_cb success ?c (if success then fetch_arrive (read_blocks (bw_dev w) ?l ?c) ?c ?l else ?l) = Inr (l', rd) \<and>
      log_inv (bw_dev w) l' (drop_nth i (bw_flights w) @ opt_list rd) \<and> log_frame ?l l' \<and> wlen (l_fetch ?l) \<le> wlen (l_fetch l')"
  proof (cases success)
    case True
    then show ?thesis using fetch_cb_arrival[OF li] by (simp add: drop_nth_def)
  next
    case False
    have "fetch_cb False ?c ?l = Inr (?l, Some ?c)" using fetch_cb_failure[OF li] by simp
    then show ?thesis using False log_inv_perm[OF li] by (simp add: drop_nth_def)
  qed
  then obtain l' rd where r: "fetch_cb success ?c (if success then fetch_arrive (read_blocks (bw_dev w) ?l ?c) ?c ?l else ?l) = Inr (l', rd)"
    "log_inv (bw_dev w) l' (drop_nth i (bw_flights w) @ opt_list rd)" "log_frame ?l l'" "wlen (l_fetch ?l) \<le> wlen (l_fetch l')" by blast
  note fo = frame_ok[OF bok r(2-4)]
  let ?w = "w\<lparr>bw_bl := (bw_bl w)\<lparr>bl_log := l'\<rparr>, bw_flights := drop_nth i (bw_flights w) @ opt_list rd\<rparr>"
  have "bw_inv ?w" using inv fo cov covered_cong[of "(bw_bl w)\<lparr>bl_log := l'\<rparr>" "bw_bl w"] r(3) by (simp add: bw_safe_def bw_inv_def log_frame_def)
  moreover have "bw_chain ?w = bw_chain w" by (intro ext) (simp add: bw_chain_def fo(4))
  ultimately show ?thesis using r(1) by (intro exI[of _ ?w]) (simp add: Let_def)
qed

lemma bw_step:
  assumes "bw_inv w" and "bw_ok st w"
  shows "\<exists>w'. bw_run st w = Inr w' \<and> bw_inv w' \<and> bw_chain w' = bw_spec st (bw_chain w)"
proof (cases st)
  case (Bk_put seg)
  then show ?thesis using bw_put_step[of w seg] assms by auto
next
  case (Bk_commit seg)
  then show ?thesis using bw_commit_step assms by blast
next
  case (Bk_compacted ctx)
  then show ?thesis using bw_compacted_step[of w ctx] assms by auto
next
  case (Bk_fetched success i)
  then show ?thesis using bw_fetched_step assms by simp
qed




section \<open>A fresh log\<close>



section \<open>Properties\<close>

text \<open>A log of one bucket, as it is when it has been filled once: a compaction is due and one is under way.\<close>

definition demo_bucket :: kv_bucket where
  "demo_bucket = zero_bucket\<lparr>b_id := 5, chain_length := 1, items := [zero_item\<lparr>key_length := 1\<rparr>]\<rparr>"

definition demo_segment :: kv_bucket_segment where
  "demo_segment = \<lparr>seg_bucket_id = 5, seg_chain = [\<lparr>ce_addr = 0, ce_buckets = [demo_bucket], pre_alloc_bucket = False\<rparr>],
     seg_offset = 0, seg_dirty = True, seg_empty = False\<rparr>"

definition demo_compaction :: compact_ctx where
  "demo_compaction = \<lparr>cc_compact_head = 0, cc_len = 512, cc_segments = [demo_segment\<lparr>seg_offset := 20479\<rparr>]\<rparr>"

definition demo_world :: bucket_world where
  "demo_world = \<lparr>bw_dev = (\<lambda>_. demo_bucket),
     bw_bl = \<lparr>bl_log = \<lparr>l_block_size = 512, l_thread_index = 0, l_base = 0, l_size = 32768, l_head = 0, l_tail = 20480,
         l_fetch = \<lparr>fetch_len = 256, f_head = 0, f_tail = 4096, f_tail1 = 4096, f_size = 8193, f_addr = 0,
           f_buffer = replicate 8194 demo_bucket, f_valid = replicate 4096 True @ replicate 4097 False\<rparr>\<rparr>,
       bl_size = 65536, bl_head = 0, bl_tail = 20480, bl_compact_head = 512,
       bl_meta = kv_bucket_meta_put kv_bucket_meta_init 5 \<lparr>m_chain_length = 1, m_bucket_offset = 0\<rparr>\<rparr>,
     bw_flights = [], bw_compactions = [demo_compaction], bw_puts = []\<rparr>"

lemma demo_chain: "is_chain 5 [demo_bucket]" "\<not> empty_chain [demo_bucket]"
  by (simp_all add: is_chain_def demo_bucket_def zero_bucket_def zero_item_def empty_chain_def KV_EMPTY_ITEM_def)

lemma demo_seg_ready:
  "seg_ready demo_segment" "seg_dirty demo_segment" "seg_buckets demo_segment = [demo_bucket]" "seg_bucket_id demo_segment = 5"
  using demo_chain(1) by (simp_all add: demo_segment_def seg_ready_def seg_wf_def chain_aligned_def seg_buckets_def KV_BUCKET_ID_EMPTY_def)




lemma demo_chain_seq: "chain_seq (replicate n demo_bucket)"
proof (induction n)
  case (Suc n)
  then show ?case using chain_seq_Cons[OF demo_chain(1), of "replicate n demo_bucket"] by simp
qed simp

lemma demo_meta:
  "kv_bucket_meta_get (bl_meta (bw_bl demo_world)) b = (if b = 5 then \<lparr>m_chain_length = 1, m_bucket_offset = 0\<rparr> else zero_meta)"
  "meta_inv (bl_meta (bw_bl demo_world))"
proof -
  have i: "meta_inv kv_bucket_meta_init" and g: "kv_bucket_meta_get kv_bucket_meta_init b = zero_meta" for b
    by (simp_all add: kv_bucket_meta_init_def meta_inv_def kv_bucket_meta_get_def)
  have ok: "meta_put_ok kv_bucket_meta_init 5 \<lparr>m_chain_length = 1, m_bucket_offset = 0\<rparr>" by (simp add: meta_put_ok_def is_meta_empty_def)
  show "kv_bucket_meta_get (bl_meta (bw_bl demo_world)) b = (if b = 5 then \<lparr>m_chain_length = 1, m_bucket_offset = 0\<rparr> else zero_meta)"
    using meta_get_put[OF i ok] g by (simp add: demo_world_def)
  show "meta_inv (bl_meta (bw_bl demo_world))" using meta_put_inv[OF i ok] by (simp add: demo_world_def)
qed

lemma demo_log:
  "llen (bl_log (bw_bl demo_world)) = 20480" "wlen (l_fetch (bl_log (bw_bl demo_world))) = 4096" "compacted (bw_bl demo_world) = 512"
  "log_blocks (bw_dev demo_world) (bl_log (bw_bl demo_world)) = replicate 20480 demo_bucket"
  "disk_chain (bw_dev demo_world) (bw_bl demo_world) b = (if b = 5 then [demo_bucket] else [])"
proof -
  show l: "llen (bl_log (bw_bl demo_world)) = 20480" "wlen (l_fetch (bl_log (bw_bl demo_world))) = 4096" "compacted (bw_bl demo_world) = 512"
    by (simp_all add: demo_world_def circ_dist_def)
  show "log_blocks (bw_dev demo_world) (bl_log (bw_bl demo_world)) = replicate 20480 demo_bucket"
    unfolding log_blocks_def l by (simp add: demo_world_def map_replicate_const)
  show "disk_chain (bw_dev demo_world) (bw_bl demo_world) b = (if b = 5 then [demo_bucket] else [])"
    unfolding disk_chain_def demo_meta by (simp add: demo_world_def zero_meta_def)
qed

lemma demo_world_inv: "bw_inv demo_world"
proof -
  let ?w = demo_world
  let ?bl = "bw_bl demo_world"
  have wf: "log_wf (bl_log ?bl)" by (simp add: demo_world_def log_wf_def fetch_wf_def)
  have win: "window_inv (bw_dev ?w) (bl_log ?bl)"
    by (simp add: window_inv_def Let_def demo_world_def circ_dist_def nth_append)
  have bi: "bl_inv (bw_dev ?w) ?bl"
    unfolding bl_inv_def demo_log(5) demo_meta(1) using wf demo_meta(2) demo_chain(1)
    by (simp add: chain_inside_def is_meta_empty_def zero_meta_def KV_BUCKET_ID_EMPTY_def) (simp add: demo_world_def circ_dist_def)
  have "log_inv (bw_dev ?w) (bl_log ?bl) (bw_flights ?w)" using wf win by (simp add: log_inv_def flights_ok_def demo_world_def)
  moreover have "window_sync (bl_log ?bl)" unfolding window_sync_def demo_log by (simp add: demo_world_def)
  moreover have "32768 \<le> unat (l_size (bl_log ?bl))" "unat (f_size (l_fetch (bl_log ?bl))) = 8193" "unat (bl_compact_head ?bl) < unat (l_size (bl_log ?bl))"
    by (simp_all add: demo_world_def)
  ultimately have ok: "bl_ok (bw_dev ?w) ?bl (bw_flights ?w)"
    unfolding bl_ok_def demo_log demo_meta(1) using bi demo_chain_seq demo_chain(2) by simp
  have "on_log (bw_dev ?w) ?bl (demo_segment\<lparr>seg_offset := 20479\<rparr>)"
    unfolding on_log_def demo_log using demo_chain(1)
    by (simp add: demo_segment_def seg_wf_def seg_buckets_def KV_BUCKET_ID_EMPTY_def run_at_def) (simp add: demo_world_def circ_dist_def)
  moreover have "ctx_dist ?bl demo_compaction = 512" by (simp add: demo_world_def demo_compaction_def circ_dist_def)
  ultimately have "ctx_ok (bw_dev ?w) ?bl demo_compaction"
    unfolding ctx_ok_def demo_log demo_meta(1)
    by (simp add: demo_compaction_def demo_segment_def seg_buckets_def) (simp add: demo_world_def)
  then have safe: "bw_safe ?w" using ok by (simp add: bw_safe_def) (simp add: demo_world_def)
  have "in_stretch ?bl demo_compaction 5" unfolding in_stretch_def demo_meta(1) by (simp add: demo_world_def demo_compaction_def circ_dist_def)
  moreover have "5 \<in> seg_bucket_id ` set (cc_segments demo_compaction)" by (simp add: demo_compaction_def demo_segment_def)
  ultimately have "covered ?bl [demo_compaction]" unfolding covered_def demo_meta(1) by simp
  then show ?thesis using safe by (simp add: bw_inv_def) (simp add: demo_world_def)
qed



text \<open>
  C11. The completion of the last compaction under way reclaims the log up to the compaction
  head: the head of the log moves there, and no chain changes.
\<close>

theorem compaction_reclaims:
  assumes "bw_inv w" and "bw_compactions w = [ctx]"
  shows "\<exists>w'. bw_run (Bk_compacted ctx) w = Inr w' \<and> bw_inv w' \<and> bw_chain w' = bw_chain w \<and>
    unat (l_head (bl_log (bw_bl w'))) = unat (bl_compact_head (bw_bl w))"
proof -
  have "bw_ok (Bk_compacted ctx) w" using assms(2) by simp
  then obtain w' where r: "bw_run (Bk_compacted ctx) w = Inr w'" "bw_inv w'" "bw_chain w' = bw_chain w"
      "bw_compactions w' = remove1 ctx (bw_compactions w)" "bl_compact_head (bw_bl w') = bl_compact_head (bw_bl w)"
      "compacted (bw_bl w') = 0 \<or> (\<exists>b. \<not> is_meta_empty (kv_bucket_meta_get (bl_meta (bw_bl w')) b) \<and> chain_pos (bw_bl w') b = 0)"
    using bw_compacted_step[OF assms(1)] by blast
  have "covered (bw_bl w') []" using r(2,4) assms(2) by (simp add: bw_inv_def)
  then have c: "compacted (bw_bl w') = 0" using r(6) by (auto simp: covered_def)
  have "bl_ok (bw_dev w') (bw_bl w') (bw_flights w')" using r(2) by (simp add: bw_inv_def bw_safe_def)
  note d = bl_okD[OF this]
  have "unat (l_head (bl_log (bw_bl w'))) = unat (bl_compact_head (bw_bl w'))" using circ_add_dist[OF d(5,10)] c d(5) by simp
  then show ?thesis using r(1-3,5) by auto
qed

theorem compaction_reclaims_witness:
  "\<exists>w'. bw_run (Bk_compacted demo_compaction) demo_world = Inr w' \<and> bw_chain w' 5 = [demo_bucket] \<and>
     unat (l_head (bl_log (bw_bl w'))) = 512"
proof -
  have c: "bw_compactions demo_world = [demo_compaction]" "bl_compact_head (bw_bl demo_world) = 512" by (simp_all add: demo_world_def)
  have "bw_chain demo_world 5 = [demo_bucket]" unfolding bw_chain_def demo_log
    by (simp add: unstamp_def demo_bucket_def zero_bucket_def)
  then show ?thesis using compaction_reclaims[OF demo_world_inv c(1)] c(2) by auto
qed

text \<open>With a compaction due, a put starts the cascade and every chain stays.\<close>

lemma demo_cascade:
  "\<not> put_idle (bw_bl demo_world) 1 \<and> (\<exists>w. bw_run (Bk_put demo_segment) demo_world = Inr w \<and> bw_chain w = bw_chain demo_world)"
proof -
  have ok: "bl_ok (bw_dev demo_world) (bw_bl demo_world) (bw_flights demo_world)" using demo_world_inv by (simp add: bw_inv_def bw_safe_def)
  have "\<not> put_idle (bw_bl demo_world) 1"
    by (simp add: put_idle_def compact_idle_def demo_world_def kv_circular_log_empty_space_def kv_circular_log_length_def
        COMPACTION_LENGTH_def COMPACTION_CONCURRENCY_def)
  moreover have "bw_room (1 + COMPACT_REACH) demo_world"
    unfolding bw_room_def demo_log by (simp add: demo_world_def demo_compaction_def COMPACT_REACH_def circ_dist_def)
  moreover have "bw_ready demo_world"
    unfolding bw_ready_def demo_log by (simp add: demo_world_def demo_compaction_def COMPACT_REACH_def circ_dist_def in_flight_def)
  ultimately have "\<not> put_idle (bw_bl demo_world) 1" "bw_ok (Bk_put demo_segment) demo_world" using demo_seg_ready by simp_all
  then show ?thesis using bw_step[OF demo_world_inv, of "Bk_put demo_segment"] by auto
qed

end
