(* ===== verification/Packed_Hash.thy ===== *)
theory Packed_Hash
  imports City
begin

unbundle bit_operations_syntax

text \<open>
  \<open>ditto/src/dmc_table.cc\<close> and \<open>dmc_table.h\<close>: the hash functions that place a key in the packed
  cache, as the server and the clients compute them. The key is its bytes, a pointer is an
  offset into them, and a read past the end is an error.
\<close>

section \<open>The string hash\<close>

definition NUMBER64_1 :: u64 where "NUMBER64_1 = 11400714785074694791"
definition NUMBER64_2 :: u64 where "NUMBER64_2 = 14029467366897019727"
definition NUMBER64_3 :: u64 where "NUMBER64_3 = 1609587929392839161"
definition NUMBER64_4 :: u64 where "NUMBER64_4 = 9650029242287828579"
definition NUMBER64_5 :: u64 where "NUMBER64_5 = 2870177450012600261"

definition shifting_hash :: "u64 \<Rightarrow> nat \<Rightarrow> u64" where
  "shifting_hash x r = push_bit r x OR drop_bit (64 - r) x"

text \<open>One lane of the loop over stripes, and the merge of a lane into the hash.\<close>

definition hash_lane :: "u64 \<Rightarrow> u64 \<Rightarrow> u64" where
  "hash_lane v x = shifting_hash (v + x * NUMBER64_2) 31 * NUMBER64_1"

definition hash_merge :: "u64 \<Rightarrow> u64 \<Rightarrow> u64" where
  "hash_merge h v = (h XOR shifting_hash (v * NUMBER64_2) 31 * NUMBER64_1) * NUMBER64_1 + NUMBER64_4"

type_synonym lanes = "u64 \<times> u64 \<times> u64 \<times> u64"

text \<open>The \<open>do\<close> loop over stripes of 32 bytes; \<open>p \<le> limitation\<close> is \<open>p + 32 \<le> length\<close>.\<close>

function hash_stripes :: "u8 list \<Rightarrow> nat \<Rightarrow> lanes \<Rightarrow> (nat \<times> lanes) res" where
  "hash_stripes buf p (v1, v2, v3, v4) =
     rbind (Fetch64 buf (int p)) (\<lambda>x1.
     rbind (Fetch64 buf (int p + 8)) (\<lambda>x2.
     rbind (Fetch64 buf (int p + 16)) (\<lambda>x3.
     rbind (Fetch64 buf (int p + 24)) (\<lambda>x4.
       let vs = (hash_lane v1 x1, hash_lane v2 x2, hash_lane v3 x3, hash_lane v4 x4)
       in if p + 32 + 32 \<le> length buf then hash_stripes buf (p + 32) vs else Inr (p + 32, vs)))))"
  by pat_completeness auto
termination by (relation "measure (\<lambda>(buf, p, _). length buf - p)") auto

declare hash_stripes.simps [simp del]

text \<open>The loop over the words of eight bytes that are left.\<close>

function hash_words :: "u8 list \<Rightarrow> nat \<Rightarrow> u64 \<Rightarrow> (nat \<times> u64) res" where
  "hash_words buf p hash =
     (if p + 8 \<le> length buf then
        rbind (Fetch64 buf (int p)) (\<lambda>x.
          let k = shifting_hash (x * NUMBER64_2) 31 * NUMBER64_1
          in hash_words buf (p + 8) (shifting_hash (hash XOR k) 27 * NUMBER64_1 + NUMBER64_4))
      else Inr (p, hash))"
  by pat_completeness auto
termination by (relation "measure (\<lambda>(buf, p, _). length buf - p)") auto

declare hash_words.simps [simp del]

definition hash_half :: "u8 list \<Rightarrow> nat \<Rightarrow> u64 \<Rightarrow> (nat \<times> u64) res" where
  "hash_half buf p hash =
     (if p + 4 \<le> length buf then
        rbind (Fetch32 buf (int p)) (\<lambda>x.
          Inr (p + 4, shifting_hash (hash XOR ucast x * NUMBER64_1) 23 * NUMBER64_2 + NUMBER64_3))
      else Inr (p, hash))"

text \<open>The loop over the bytes that are left.\<close>

function hash_bytes :: "u8 list \<Rightarrow> nat \<Rightarrow> u64 \<Rightarrow> u64 res" where
  "hash_bytes buf p hash =
     (if p < length buf then
        rbind (Fetch8 buf (int p)) (\<lambda>x. hash_bytes buf (p + 1) (shifting_hash (hash XOR ucast x * NUMBER64_5) 11 * NUMBER64_1))
      else Inr hash)"
  by pat_completeness auto
termination by (relation "measure (\<lambda>(buf, p, _). length buf - p)") auto

declare hash_bytes.simps [simp del]

definition hash_final :: "u64 \<Rightarrow> u64" where
  "hash_final hash =
     (let hash = hash XOR drop_bit 33 hash; hash = hash * NUMBER64_2;
          hash = hash XOR drop_bit 29 hash; hash = hash * NUMBER64_3
      in hash XOR drop_bit 32 hash)"

definition string_key_hash_computation :: "u8 list \<Rightarrow> u64 \<Rightarrow> u64 res" where
  "string_key_hash_computation buf seed =
     rbind (if length buf \<ge> 32 then
              rbind (hash_stripes buf 0 (seed + NUMBER64_1 + NUMBER64_2, seed + NUMBER64_2, seed + 0, seed - NUMBER64_1))
                (\<lambda>(p, v1, v2, v3, v4).
                  let h = shifting_hash v1 1 + shifting_hash v2 7 + shifting_hash v3 12 + shifting_hash v4 18
                  in Inr (p, hash_merge (hash_merge (hash_merge (hash_merge h v1) v2) v3) v4))
            else Inr (0, seed + NUMBER64_5)) (\<lambda>(p, hash).
     rbind (hash_words buf p (hash + word_of_nat (length buf))) (\<lambda>(p, hash).
     rbind (hash_half buf p hash) (\<lambda>(p, hash).
     rbind (hash_bytes buf p hash) (\<lambda>hash. Inr (hash_final hash)))))"

text \<open>
  \<open>VariableLengthHash\<close> passes on whether the key is aligned, which decides between two loads
  of the same bytes; both functions of \<open>DefaultHash\<close> hash with the seed 0.
\<close>

definition VariableLengthHash :: "u8 list \<Rightarrow> u64 \<Rightarrow> u64 res" where
  "VariableLengthHash buf seed = string_key_hash_computation buf seed"

datatype hash_type = HASH_DEFAULT | HASH_DUMB

definition hash_func1 :: "hash_type \<Rightarrow> u8 list \<Rightarrow> u64 res" where
  "hash_func1 t buf = (case t of HASH_DEFAULT \<Rightarrow> VariableLengthHash buf 0 | HASH_DUMB \<Rightarrow> Inr 233)"

section \<open>Every read is inside the key\<close>

lemma hash_stripes_ok:
  "p + 32 \<le> length buf \<Longrightarrow> \<exists>p' vs'. hash_stripes buf p vs = Inr (p', vs')"
proof (induction buf p vs rule: hash_stripes.induct)
  case (1 buf p v1 v2 v3 v4)
  have f: "res_ok (Fetch64 buf (int p))" "res_ok (Fetch64 buf (int p + 8))"
    "res_ok (Fetch64 buf (int p + 16))" "res_ok (Fetch64 buf (int p + 24))" using 1(2) by (auto intro!: ok_Fetch)
  then obtain x1 x2 x3 x4 where x: "Fetch64 buf (int p) = Inr x1" "Fetch64 buf (int p + 8) = Inr x2"
    "Fetch64 buf (int p + 16) = Inr x3" "Fetch64 buf (int p + 24) = Inr x4" by (auto simp: res_ok_def)
  show ?case
  proof (cases "p + 32 + 32 \<le> length buf")
    case True
    then show ?thesis using 1(1)[OF refl True] by (simp add: hash_stripes.simps[of buf p] x Let_def)
  next
    case False
    then show ?thesis by (simp add: hash_stripes.simps[of buf p] x Let_def)
  qed
qed

lemma hash_words_ok: "\<exists>p' h'. hash_words buf p h = Inr (p', h')"
proof (induction buf p h rule: hash_words.induct)
  case (1 buf p hash)
  show ?case
  proof (cases "p + 8 \<le> length buf")
    case True
    then have "res_ok (Fetch64 buf (int p))" by (auto intro!: ok_Fetch)
    then show ?thesis using 1[OF True refl] True by (auto simp: hash_words.simps[of buf p] res_ok_def Let_def)
  next
    case False
    then show ?thesis by (simp add: hash_words.simps[of buf p])
  qed
qed

lemma hash_bytes_ok: "\<exists>h'. hash_bytes buf p h = Inr h'"
proof (induction buf p h rule: hash_bytes.induct)
  case (1 buf p hash)
  show ?case
  proof (cases "p < length buf")
    case True
    then have "res_ok (Fetch8 buf (int p))" by (auto intro!: ok_Fetch)
    then show ?thesis using 1[OF True] True by (auto simp: hash_bytes.simps[of buf p] res_ok_def)
  next
    case False
    then show ?thesis by (simp add: hash_bytes.simps[of buf p])
  qed
qed

lemma hash_half_ok: "\<exists>p' h'. hash_half buf p h = Inr (p', h')"
proof -
  have "res_ok (Fetch32 buf (int p))" if "p + 4 \<le> length buf" using that by (auto intro!: ok_Fetch)
  then show ?thesis by (auto simp: hash_half_def res_ok_def)
qed

lemma string_key_hash_ok: "\<exists>h. string_key_hash_computation buf seed = Inr h"
proof -
  have tail: "\<exists>h. rbind (hash_words buf p h0) (\<lambda>(p, hash).
     rbind (hash_half buf p hash) (\<lambda>(p, hash). rbind (hash_bytes buf p hash) (\<lambda>hash. Inr (hash_final hash)))) = Inr h" for p h0
  proof -
    obtain p1 h1 where 1: "hash_words buf p h0 = Inr (p1, h1)" using hash_words_ok by blast
    obtain p2 h2 where 2: "hash_half buf p1 h1 = Inr (p2, h2)" using hash_half_ok by blast
    obtain h3 where "hash_bytes buf p2 h2 = Inr h3" using hash_bytes_ok by blast
    then show ?thesis using 1 2 by simp
  qed
  show ?thesis
  proof (cases "length buf \<ge> 32")
    case True
    obtain p v1 v2 v3 v4 where "hash_stripes buf 0 (seed + NUMBER64_1 + NUMBER64_2, seed + NUMBER64_2, seed + 0, seed - NUMBER64_1) = Inr (p, v1, v2, v3, v4)"
      using hash_stripes_ok[of 0 buf] True by (metis add_0 prod_cases4)
    then show ?thesis using True tail by (simp add: string_key_hash_computation_def Let_def)
  next
    case False
    then show ?thesis using tail by (simp add: string_key_hash_computation_def)
  qed
qed

lemma hash_func1_ok: "\<exists>h. hash_func1 t buf = Inr h"
  by (cases t) (simp_all add: hash_func1_def VariableLengthHash_def string_key_hash_ok)

end
