(* ===== verification/Packed_Table.thy ===== *)
theory Packed_Table
  imports Packed_Hash
begin

unbundle bit_operations_syntax

text \<open>
  The packed cache of \<open>ditto/src\<close>: a table of buckets of eight slots in the memory of a
  server. The server (\<open>PackedServer\<close> of \<open>server.cc\<close>) reserves and invalidates slots, clients
  (\<open>PackedClient\<close> of \<open>client.cc\<close>) read whole buckets and write the fields of a slot by their
  remote addresses. Both are modelled on the bytes of the table (\<open>packed_data_struct.h\<close>), and
  the bytes are then shown to be a table of slots whose fields are changed one at a time.
\<close>

section \<open>Memory and its layout\<close>

type_synonym memory = "u64 \<Rightarrow> u8"

definition peek :: "memory \<Rightarrow> u64 \<Rightarrow> nat \<Rightarrow> u8 list" where
  "peek mem a n = map (\<lambda>i. mem (a + of_nat i)) [0..<n]"

definition poke :: "u64 \<Rightarrow> u8 list \<Rightarrow> memory \<Rightarrow> memory" where
  "poke a bs mem = (\<lambda>x. let d = unat (x - a) in if d < length bs then bs ! d else mem x)"

definition PACKED_KEY_LEN :: nat where "PACKED_KEY_LEN = 16"
definition PACKED_VALUE_LEN :: nat where "PACKED_VALUE_LEN = 64"
definition PACKED_HASH_BUCKET_ASSOC_NUM :: nat where "PACKED_HASH_BUCKET_ASSOC_NUM = 8"
definition PACKED_HASH_NUM_BUCKETS :: u64 where "PACKED_HASH_NUM_BUCKETS = 280576"

definition PACKED_SLOT_VISIBILITY_OFF :: nat where "PACKED_SLOT_VISIBILITY_OFF = 0"
definition PACKED_SLOT_INTEGRITY_OFF :: nat where "PACKED_SLOT_INTEGRITY_OFF = 1"
definition PACKED_SLOT_KEY_OFF :: nat where "PACKED_SLOT_KEY_OFF = 2"
definition PACKED_SLOT_VALUE_OFF :: nat where "PACKED_SLOT_VALUE_OFF = 18"
definition PACKED_SLOT_ACC_TS_OFF :: nat where "PACKED_SLOT_ACC_TS_OFF = 82"

lemmas packed_layout = PACKED_KEY_LEN_def PACKED_VALUE_LEN_def PACKED_HASH_BUCKET_ASSOC_NUM_def PACKED_SLOT_VISIBILITY_OFF_def
  PACKED_SLOT_INTEGRITY_OFF_def PACKED_SLOT_KEY_OFF_def PACKED_SLOT_VALUE_OFF_def PACKED_SLOT_ACC_TS_OFF_def

record packed_slot =
  visibility :: u8
  integrity :: u8
  ps_key :: "u8 list"
  ps_value :: "u8 list"
  acc_ts :: u64

definition sizeof_PackedSlot :: nat where "sizeof_PackedSlot = 90"
definition sizeof_PackedBucket :: nat where "sizeof_PackedBucket = 720"

text \<open>The packed structure has no padding: its fields lie one after the other.\<close>

definition PackedSlot :: "u8 list \<Rightarrow> packed_slot" where
  "PackedSlot bs =
     \<lparr>visibility = bs ! PACKED_SLOT_VISIBILITY_OFF, integrity = bs ! PACKED_SLOT_INTEGRITY_OFF,
      ps_key = take PACKED_KEY_LEN (drop PACKED_SLOT_KEY_OFF bs),
      ps_value = take PACKED_VALUE_LEN (drop PACKED_SLOT_VALUE_OFF bs),
      acc_ts = load_u64 (drop PACKED_SLOT_ACC_TS_OFF bs)\<rparr>"

definition slot_addr :: "u64 \<Rightarrow> nat \<Rightarrow> u64" where
  "slot_addr bucket_addr i = bucket_addr + of_nat (i * sizeof_PackedSlot)"

definition load_slot :: "memory \<Rightarrow> u64 \<Rightarrow> packed_slot" where
  "load_slot mem a = PackedSlot (peek mem a sizeof_PackedSlot)"

definition bucket_slots :: "memory \<Rightarrow> u64 \<Rightarrow> packed_slot list" where
  "bucket_slots mem bucket_addr = map (\<lambda>i. load_slot mem (slot_addr bucket_addr i)) [0..<PACKED_HASH_BUCKET_ASSOC_NUM]"

text \<open>\<open>base_addr_\<close> of the server is \<open>server_base_addr_\<close> of the clients, and both take the same hash.\<close>

record packed_conf =
  base_addr :: u64
  base_len :: u64
  pc_hash :: hash_type
  evict_non :: bool

definition bucket_addr_of :: "packed_conf \<Rightarrow> u8 list \<Rightarrow> u64 res" where
  "bucket_addr_of c key =
     rbind (hash_func1 (pc_hash c) key) (\<lambda>h.
       Inr (h mod PACKED_HASH_NUM_BUCKETS * of_nat sizeof_PackedBucket + base_addr c))"

section \<open>The server\<close>

text \<open>The loop of the constructor; the mapping is fresh and zero, and a table longer than it is not mapped.\<close>

definition init_slot :: "u64 \<Rightarrow> nat \<Rightarrow> memory \<Rightarrow> memory" where
  "init_slot bucket_addr j mem =
     poke (slot_addr bucket_addr j + of_nat PACKED_SLOT_INTEGRITY_OFF) [1]
       (poke (slot_addr bucket_addr j + of_nat PACKED_SLOT_VISIBILITY_OFF) [0] mem)"

definition packed_server_init :: "packed_conf \<Rightarrow> memory res" where
  "packed_server_init c =
     (if unat PACKED_HASH_NUM_BUCKETS * sizeof_PackedBucket \<le> unat (base_len c) then
        Inr (fold (\<lambda>i. fold (init_slot (of_nat (i * sizeof_PackedBucket) + base_addr c)) [0..<PACKED_HASH_BUCKET_ASSOC_NUM])
               [0..<unat PACKED_HASH_NUM_BUCKETS] (\<lambda>_. 0))
      else Inl Out_of_bounds)"

text \<open>
  The scan of \<open>put_key\<close>: the key is there already, a free slot is found, or the oldest of
  the slots whose value is complete, if there is one. \<open>key_buf\<close> is the key filled up with
  zeros; \<open>v\<close> is the victim with its time stamp.
\<close>

datatype put_scan = Put_present | Put_free nat | Put_victim "nat option"

definition key_buf :: "u8 list \<Rightarrow> u8 list" where
  "key_buf key = key @ replicate (PACKED_KEY_LEN - length key) 0"

definition key_match :: "u8 list \<Rightarrow> packed_slot \<Rightarrow> bool" where
  "key_match key s \<longleftrightarrow> visibility s \<noteq> 0 \<and> take PACKED_KEY_LEN (key_buf key) = ps_key s"

fun put_key_scan :: "u8 list \<Rightarrow> packed_slot list \<Rightarrow> nat \<Rightarrow> (nat \<times> u64) option \<Rightarrow> put_scan" where
  "put_key_scan key [] i v = Put_victim (map_option fst v)"
| "put_key_scan key (s # ss) i v =
     (if key_match key s then Put_present
      else if visibility s = 0 \<and> integrity s \<noteq> 0 then Put_free i
      else
        let v' = (if visibility s \<noteq> 0 \<and> integrity s \<noteq> 0 then
                    (case v of None \<Rightarrow> Some (i, acc_ts s)
                     | Some (_, ts) \<Rightarrow> if ts > acc_ts s then Some (i, acc_ts s) else v)
                  else v)
        in put_key_scan key ss (i + 1) v')"

text \<open>A slot is taken: the three stores in the order of the code; a longer key would leave its field.\<close>

definition take_slot :: "u64 \<Rightarrow> u8 list \<Rightarrow> memory \<Rightarrow> memory res" where
  "take_slot a key mem =
     (if length key \<le> PACKED_KEY_LEN then
        Inr (poke (a + of_nat PACKED_SLOT_VISIBILITY_OFF) [1]
              (poke (a + of_nat PACKED_SLOT_KEY_OFF) key
                (poke (a + of_nat PACKED_SLOT_INTEGRITY_OFF) [0] mem)))
      else Inl Out_of_bounds)"

definition packed_put_key :: "packed_conf \<Rightarrow> u8 list \<Rightarrow> memory \<Rightarrow> (int \<times> memory) res" where
  "packed_put_key c key mem =
     rbind (bucket_addr_of c key) (\<lambda>ba.
       case put_key_scan key (bucket_slots mem ba) 0 None of
         Put_present \<Rightarrow> Inr (- 1, mem)
       | Put_free i \<Rightarrow> rbind (take_slot (slot_addr ba i) key mem) (\<lambda>mem. Inr (int i, mem))
       | Put_victim (Some i) \<Rightarrow> rbind (take_slot (slot_addr ba i) key mem) (\<lambda>mem. Inr (int i, mem))
       | Put_victim None \<Rightarrow> Inr (- 1, mem))"

fun find_key :: "u8 list \<Rightarrow> packed_slot list \<Rightarrow> nat \<Rightarrow> nat option" where
  "find_key key [] i = None"
| "find_key key (s # ss) i = (if key_match key s then Some i else find_key key ss (i + 1))"

definition packed_invalidate_key :: "packed_conf \<Rightarrow> u8 list \<Rightarrow> memory \<Rightarrow> (int \<times> memory) res" where
  "packed_invalidate_key c key mem =
     rbind (bucket_addr_of c key) (\<lambda>ba.
       case find_key key (bucket_slots mem ba) 0 of
         Some i \<Rightarrow> Inr (int i, poke (slot_addr ba i + of_nat PACKED_SLOT_VISIBILITY_OFF) [0] mem)
       | None \<Rightarrow> Inr (- 1, mem))"

section \<open>The clients\<close>

text \<open>A remote write is its address and its bytes; the queue pair keeps the order of a client's writes.\<close>

type_synonym rdma_write = "u64 \<times> u8 list"

definition rdma_apply :: "rdma_write \<Rightarrow> memory \<Rightarrow> memory" where
  "rdma_apply w = poke (fst w) (snd w)"

text \<open>
  \<open>kv_get\<close>: the bucket that has been read is searched; -1 is \<open>Get_miss\<close>, -2 is \<open>Get_retry\<close>.
  A hit returns the whole field and writes the time of the access.
\<close>

datatype get_result = Get_miss | Get_retry | Get_hit nat "u8 list"

fun packed_get_scan :: "u8 list \<Rightarrow> packed_slot list \<Rightarrow> nat \<Rightarrow> get_result res" where
  "packed_get_scan key [] i = Inr Get_miss"
| "packed_get_scan key (s # ss) i =
     (if visibility s = 0 then packed_get_scan key ss (i + 1)
      else if length key > PACKED_KEY_LEN then Inl Out_of_bounds
      else if key \<noteq> take (length key) (ps_key s) then packed_get_scan key ss (i + 1)
      else if integrity s = 0 then Inr Get_retry
      else Inr (Get_hit i (ps_value s)))"

definition packed_kv_get :: "packed_conf \<Rightarrow> u64 \<Rightarrow> u8 list \<Rightarrow> memory \<Rightarrow> (get_result \<times> rdma_write list) res" where
  "packed_kv_get c now key mem =
     rbind (bucket_addr_of c key) (\<lambda>ba.
     rbind (packed_get_scan key (bucket_slots mem ba) 0) (\<lambda>r.
       Inr (r, case r of
           Get_hit i v \<Rightarrow> if evict_non c then [] else [(slot_addr ba i + of_nat PACKED_SLOT_ACC_TS_OFF, store_u64 now)]
         | _ \<Rightarrow> [])))"

text \<open>\<open>kv_set\<close>: the value, the time of the access and at last the mark that the slot is complete.\<close>

definition packed_kv_set :: "packed_conf \<Rightarrow> u64 \<Rightarrow> u8 list \<Rightarrow> u8 list \<Rightarrow> u8 \<Rightarrow> rdma_write list res" where
  "packed_kv_set c now key val sid =
     rbind (bucket_addr_of c key) (\<lambda>ba.
       if length val > PACKED_VALUE_LEN then Inl Out_of_bounds
       else
         let a = slot_addr ba (unat sid) in
         Inr ([(a + of_nat PACKED_SLOT_VALUE_OFF, val @ replicate (PACKED_VALUE_LEN - length val) 0)] @
              (if evict_non c then [] else [(a + of_nat PACKED_SLOT_ACC_TS_OFF, store_u64 now)]) @
              [(a + of_nat PACKED_SLOT_INTEGRITY_OFF, [1])]))"

section \<open>The wrapper\<close>

text \<open>
  \<open>utils/ditto_wrapper.cpp\<close>: the calls of the clients with their counters; the vectors that are
  filled at every tick of the clock, for a report, are left out.
\<close>

record packed_stat =
  n_miss :: u32
  stat_seq :: u32
  n_get :: u32
  n_get_retry :: u32
  n_set :: u32
  n_set_dummy :: u32

definition get_ret :: "get_result \<Rightarrow> int" where
  "get_ret r = (case r of Get_miss \<Rightarrow> - 1 | Get_retry \<Rightarrow> - 2 | Get_hit _ _ \<Rightarrow> 0)"

definition packed_update_stat :: "bool \<Rightarrow> packed_stat \<Rightarrow> packed_stat" where
  "packed_update_stat miss st = st\<lparr>n_miss := n_miss st + of_bool miss, stat_seq := stat_seq st + 1\<rparr>"

definition packed_get :: "packed_conf \<Rightarrow> u64 \<Rightarrow> u8 list \<Rightarrow> memory \<Rightarrow> packed_stat \<Rightarrow> (int \<times> get_result \<times> rdma_write list \<times> packed_stat) res" where
  "packed_get c now key mem st =
     rbind (packed_kv_get c now key mem) (\<lambda>(r, ws).
       Inr (get_ret r, r, ws, packed_update_stat (get_ret r \<noteq> 0) (st\<lparr>n_get := n_get st + 1\<rparr>)))"

definition packed_get_retry :: "packed_stat \<Rightarrow> int \<times> packed_stat" where
  "packed_get_retry st = (0, st\<lparr>n_get_retry := n_get_retry st + 1\<rparr>)"

definition packed_set :: "packed_conf \<Rightarrow> u64 \<Rightarrow> u8 list \<Rightarrow> u8 list \<Rightarrow> u8 \<Rightarrow> packed_stat \<Rightarrow> (int \<times> rdma_write list \<times> packed_stat) res" where
  "packed_set c now key val sid st =
     rbind (packed_kv_set c now key val sid) (\<lambda>ws. Inr (0, ws, packed_update_stat False (st\<lparr>n_set := n_set st + 1\<rparr>)))"

definition packed_set_dummy :: "packed_stat \<Rightarrow> int \<times> packed_stat" where
  "packed_set_dummy st = (- 1, st\<lparr>n_set_dummy := n_set_dummy st + 1\<rparr>)"

text \<open>The sequence number counts the gets and sets, also when the counters wrap around.\<close>

lemma packed_seq_counts:
  assumes "stat_seq st = n_get st + n_set st"
  shows "packed_get c now key mem st = Inr (r, g, ws, st') \<Longrightarrow> stat_seq st' = n_get st' + n_set st'"
    and "packed_set c now key val sid st = Inr (q, ws, st') \<Longrightarrow> stat_seq st' = n_get st' + n_set st'"
  using assms by (auto simp: packed_get_def packed_set_def packed_update_stat_def res_simps)

section \<open>Bytes as slots\<close>

lemma length_peek [simp]: "length (peek mem a n) = n"
  by (simp add: peek_def)

lemma nth_peek [simp]: "i < n \<Longrightarrow> peek mem a n ! i = mem (a + of_nat i)"
  by (simp add: peek_def)

text \<open>Positions relative to the base of the table.\<close>

lemma unat_diff_offsets:
  assumes "x < 2 ^ 63" and "y < 2 ^ 63"
  shows "unat ((a + of_nat x) - (a + of_nat y) :: u64) = (if y \<le> x then x - y else 2 ^ 64 + x - y)"
proof -
  have e: "(a + of_nat x) - (a + of_nat y) = (of_nat (if y \<le> x then x - y else 2 ^ 64 + x - y) :: u64)"
    using assms by (simp add: of_nat_diff)
  have "(if y \<le> x then x - y else 2 ^ 64 + x - y) < 2 ^ 64" using assms by (simp; linarith)
  then show ?thesis unfolding e by (simp only: unat_of_nat len_num0 len_num1 len_bit0 len_bit1) simp
qed

lemma peek_poke:
  assumes "x + n < 2 ^ 63" and "y + length bs < 2 ^ 63"
  shows "peek (poke (a + of_nat y) bs mem) (a + of_nat x) n =
    map (\<lambda>i. if y \<le> x + i \<and> x + i < y + length bs then bs ! (x + i - y) else mem (a + of_nat (x + i))) [0..<n]"
proof -
  have "unat ((a + of_nat (x + i)) - (a + of_nat y) :: u64) = (if y \<le> x + i then x + i - y else 2 ^ 64 + (x + i) - y)" if "i < n" for i
    using that assms by (intro unat_diff_offsets) auto
  then show ?thesis unfolding peek_def poke_def Let_def
    using assms by (auto simp: add.assoc of_nat_add[symmetric] simp del: of_nat_add)
qed

lemma peek_poke_inside:
  assumes "x + n < 2 ^ 63" and "f + length bs \<le> n"
  shows "peek (poke (a + of_nat (x + f)) bs mem) (a + of_nat x) n = blit (peek mem (a + of_nat x) n) f bs"
proof (rule nth_equalityI)
  show "length (peek (poke (a + of_nat (x + f)) bs mem) (a + of_nat x) n) = length (blit (peek mem (a + of_nat x) n) f bs)"
    using assms(2) by simp
  fix i assume "i < length (peek (poke (a + of_nat (x + f)) bs mem) (a + of_nat x) n)"
  then have i: "i < n" by simp
  have p: "peek (poke (a + of_nat (x + f)) bs mem) (a + of_nat x) n =
    map (\<lambda>i. if x + f \<le> x + i \<and> x + i < x + f + length bs then bs ! (x + i - (x + f)) else mem (a + of_nat (x + i))) [0..<n]"
    using assms by (intro peek_poke) auto
  show "peek (poke (a + of_nat (x + f)) bs mem) (a + of_nat x) n ! i = blit (peek mem (a + of_nat x) n) f bs ! i"
    unfolding p using i assms(2) by (auto simp: blit_def nth_append add.assoc min_def)
qed

lemma peek_poke_outside:
  assumes "x + n < 2 ^ 63" and "y + length bs < 2 ^ 63" and "y + length bs \<le> x \<or> x + n \<le> y"
  shows "peek (poke (a + of_nat y) bs mem) (a + of_nat x) n = peek mem (a + of_nat x) n"
  unfolding peek_poke[OF assms(1,2)] using assms(3) by (auto simp: peek_def add.assoc)


section \<open>The table of slots\<close>

definition slot_off :: "nat \<Rightarrow> nat \<Rightarrow> nat" where
  "slot_off b i = b * sizeof_PackedBucket + i * sizeof_PackedSlot"

definition slot_at :: "packed_conf \<Rightarrow> memory \<Rightarrow> nat \<Rightarrow> nat \<Rightarrow> packed_slot" where
  "slot_at c mem b i = load_slot mem (base_addr c + of_nat (slot_off b i))"

definition field_addr :: "packed_conf \<Rightarrow> nat \<Rightarrow> nat \<Rightarrow> nat \<Rightarrow> u64" where
  "field_addr c b i f = base_addr c + of_nat (slot_off b i) + of_nat f"

text \<open>The number of a key's bucket.\<close>

definition bucket_id :: "packed_conf \<Rightarrow> u8 list \<Rightarrow> nat" where
  "bucket_id c key = (case hash_func1 (pc_hash c) key of Inl _ \<Rightarrow> 0 | Inr h \<Rightarrow> unat (h mod PACKED_HASH_NUM_BUCKETS))"

abbreviation in_table :: "nat \<Rightarrow> nat \<Rightarrow> bool" where
  "in_table b i \<equiv> b < 280576 \<and> i < 8"

lemma packed_bucket_less: "bucket_id c key < 280576"
proof -
  have "unat (h mod 280576 :: u64) < 280576" for h by (simp add: unat_mod)
  then show ?thesis by (simp add: bucket_id_def PACKED_HASH_NUM_BUCKETS_def split: sum.splits)
qed

lemma bucket_addr_of_eq: "bucket_addr_of c key = Inr (base_addr c + of_nat (bucket_id c key * sizeof_PackedBucket))"
proof -
  obtain h where h: "hash_func1 (pc_hash c) key = Inr h" using hash_func1_ok by blast
  have "of_nat (unat (h mod PACKED_HASH_NUM_BUCKETS) * sizeof_PackedBucket) = h mod PACKED_HASH_NUM_BUCKETS * of_nat sizeof_PackedBucket"
    by (simp only: of_nat_mult word_of_nat_eq_iff of_nat_unat ucast_id)
  then show ?thesis by (simp add: bucket_addr_of_def bucket_id_def h add.commute)
qed

lemma slot_addr_eq: "slot_addr (base_addr c + of_nat (b * sizeof_PackedBucket)) i = base_addr c + of_nat (slot_off b i)"
  by (simp add: slot_addr_def slot_off_def)

lemma bucket_slots_eq: "bucket_slots mem (base_addr c + of_nat (b * sizeof_PackedBucket)) = map (slot_at c mem b) [0..<8]"
  unfolding bucket_slots_def slot_addr_eq by (simp add: slot_at_def PACKED_HASH_BUCKET_ASSOC_NUM_def)

lemma slot_off_apart:
  assumes "in_table b i" and "in_table b' i'" and "(b, i) \<noteq> (b', i')"
  shows "slot_off b i + 90 \<le> slot_off b' i' \<or> slot_off b' i' + 90 \<le> slot_off b i"
proof (cases "b = b'")
  case True
  then show ?thesis using assms by (auto simp: slot_off_def sizeof_PackedSlot_def)
next
  case False
  then have "b + 1 \<le> b' \<or> b' + 1 \<le> b" by linarith
  then show ?thesis using assms by (auto simp: slot_off_def sizeof_PackedSlot_def sizeof_PackedBucket_def)
qed

lemma slot_off_less: "in_table b i \<Longrightarrow> slot_off b i + 90 \<le> 202014720"
  by (simp add: slot_off_def sizeof_PackedSlot_def sizeof_PackedBucket_def)

lemma slot_at_poke:
  assumes "in_table b i" and "in_table b' i'" and "f + length bs \<le> 90"
  shows "slot_at c (poke (field_addr c b i f) bs mem) b' i' =
    (if b' = b \<and> i' = i then PackedSlot (blit (peek mem (base_addr c + of_nat (slot_off b i)) 90) f bs) else slot_at c mem b' i')"
proof -
  have a: "field_addr c b i f = base_addr c + of_nat (slot_off b i + f)" by (simp add: field_addr_def)
  show ?thesis
  proof (cases "b' = b \<and> i' = i")
    case True
    then show ?thesis unfolding slot_at_def load_slot_def a sizeof_PackedSlot_def
      using slot_off_less[OF assms(1)] assms(3) by (simp add: peek_poke_inside del: of_nat_add)
  next
    case False
    have "peek (poke (base_addr c + of_nat (slot_off b i + f)) bs mem) (base_addr c + of_nat (slot_off b' i')) 90
        = peek mem (base_addr c + of_nat (slot_off b' i')) 90"
      using slot_off_apart[OF assms(1,2)] slot_off_less[OF assms(1)] slot_off_less[OF assms(2)] assms(3) False
      by (intro peek_poke_outside) auto
    then show ?thesis unfolding slot_at_def load_slot_def a sizeof_PackedSlot_def by (simp only: False if_False)
  qed
qed

text \<open>A store to a field changes this field of its slot and nothing else.\<close>

lemma blit_fields:
  assumes "length bs = 90"
  shows "PackedSlot (blit bs PACKED_SLOT_VISIBILITY_OFF [v]) = (PackedSlot bs)\<lparr>visibility := v\<rparr>"
    and "PackedSlot (blit bs PACKED_SLOT_INTEGRITY_OFF [v]) = (PackedSlot bs)\<lparr>integrity := v\<rparr>"
    and "length k = PACKED_KEY_LEN \<Longrightarrow> PackedSlot (blit bs PACKED_SLOT_KEY_OFF k) = (PackedSlot bs)\<lparr>ps_key := k\<rparr>"
    and "length x = PACKED_VALUE_LEN \<Longrightarrow> PackedSlot (blit bs PACKED_SLOT_VALUE_OFF x) = (PackedSlot bs)\<lparr>ps_value := x\<rparr>"
    and "PackedSlot (blit bs PACKED_SLOT_ACC_TS_OFF (store_u64 w)) = (PackedSlot bs)\<lparr>acc_ts := w\<rparr>"
  using assms load_store_u64[of w "[]"] by (simp_all add: PackedSlot_def blit_def packed_layout nth_append drop_take numeral_2_eq_2)


lemma field_stores:
  assumes "in_table b i" and "in_table b' i'"
  shows "slot_at c (poke (field_addr c b i PACKED_SLOT_VISIBILITY_OFF) [v] mem) b' i' =
      (if b' = b \<and> i' = i then (slot_at c mem b i)\<lparr>visibility := v\<rparr> else slot_at c mem b' i')"
    and "slot_at c (poke (field_addr c b i PACKED_SLOT_INTEGRITY_OFF) [v] mem) b' i' =
      (if b' = b \<and> i' = i then (slot_at c mem b i)\<lparr>integrity := v\<rparr> else slot_at c mem b' i')"
    and "length k = PACKED_KEY_LEN \<Longrightarrow> slot_at c (poke (field_addr c b i PACKED_SLOT_KEY_OFF) k mem) b' i' =
      (if b' = b \<and> i' = i then (slot_at c mem b i)\<lparr>ps_key := k\<rparr> else slot_at c mem b' i')"
    and "length x = PACKED_VALUE_LEN \<Longrightarrow> slot_at c (poke (field_addr c b i PACKED_SLOT_VALUE_OFF) x mem) b' i' =
      (if b' = b \<and> i' = i then (slot_at c mem b i)\<lparr>ps_value := x\<rparr> else slot_at c mem b' i')"
    and "slot_at c (poke (field_addr c b i PACKED_SLOT_ACC_TS_OFF) (store_u64 w) mem) b' i' =
      (if b' = b \<and> i' = i then (slot_at c mem b i)\<lparr>acc_ts := w\<rparr> else slot_at c mem b' i')"
proof -
  let ?bs = "peek mem (base_addr c + of_nat (slot_off b i)) 90"
  have s: "slot_at c mem b i = PackedSlot ?bs" by (simp add: slot_at_def load_slot_def sizeof_PackedSlot_def)
  note p = slot_at_poke[OF assms, of _ _ c mem, folded s] and f = blit_fields[of ?bs, folded s]
  show "slot_at c (poke (field_addr c b i PACKED_SLOT_VISIBILITY_OFF) [v] mem) b' i' =
      (if b' = b \<and> i' = i then (slot_at c mem b i)\<lparr>visibility := v\<rparr> else slot_at c mem b' i')"
    by (subst p) (simp_all add: f(1), simp add: packed_layout)
  show "slot_at c (poke (field_addr c b i PACKED_SLOT_INTEGRITY_OFF) [v] mem) b' i' =
      (if b' = b \<and> i' = i then (slot_at c mem b i)\<lparr>integrity := v\<rparr> else slot_at c mem b' i')"
    by (subst p) (simp_all add: f(2), simp add: packed_layout)
  show "slot_at c (poke (field_addr c b i PACKED_SLOT_KEY_OFF) k mem) b' i' =
      (if b' = b \<and> i' = i then (slot_at c mem b i)\<lparr>ps_key := k\<rparr> else slot_at c mem b' i')" if "length k = PACKED_KEY_LEN"
    by (subst p) (simp_all add: f(3) that, simp add: packed_layout)
  show "slot_at c (poke (field_addr c b i PACKED_SLOT_VALUE_OFF) x mem) b' i' =
      (if b' = b \<and> i' = i then (slot_at c mem b i)\<lparr>ps_value := x\<rparr> else slot_at c mem b' i')" if "length x = PACKED_VALUE_LEN"
    by (subst p) (simp_all add: f(4) that, simp add: packed_layout)
  show "slot_at c (poke (field_addr c b i PACKED_SLOT_ACC_TS_OFF) (store_u64 w) mem) b' i' =
      (if b' = b \<and> i' = i then (slot_at c mem b i)\<lparr>acc_ts := w\<rparr> else slot_at c mem b' i')"
    by (subst p) (simp_all add: f(5), simp add: packed_layout)
qed

lemma slot_lengths [simp]: "length (ps_key (slot_at c mem b i)) = PACKED_KEY_LEN" "length (ps_value (slot_at c mem b i)) = PACKED_VALUE_LEN"
  by (simp_all add: slot_at_def load_slot_def PackedSlot_def sizeof_PackedSlot_def packed_layout)

text \<open>The table of a new server: no slot is visible and every slot is complete.\<close>

lemma init_slot_at:
  assumes "in_table b i" and "in_table b' i'"
  shows "slot_at c (init_slot (of_nat (b * sizeof_PackedBucket) + base_addr c) i mem) b' i' =
    (if b' = b \<and> i' = i then (slot_at c mem b i)\<lparr>visibility := 0, integrity := 1\<rparr> else slot_at c mem b' i')"
proof -
  have a: "slot_addr (of_nat (b * sizeof_PackedBucket) + base_addr c) i + of_nat f = field_addr c b i f" for f
    using slot_addr_eq[of c b i] by (simp add: field_addr_def add.commute)
  show ?thesis unfolding init_slot_def a by (simp add: field_stores[OF assms] field_stores[OF assms(1,1)])
qed

abbreviation fresh_slot :: "packed_slot \<Rightarrow> bool" where
  "fresh_slot s \<equiv> visibility s = 0 \<and> integrity s = 1"

lemma init_bucket_at:
  assumes "b < 280576" and "set is \<subseteq> {..<8}" and "in_table b' i'" and "b' = b \<and> i' \<in> set is \<or> fresh_slot (slot_at c mem b' i')"
  shows "fresh_slot (slot_at c (fold (init_slot (of_nat (b * sizeof_PackedBucket) + base_addr c)) is mem) b' i')"
  using assms(2,4)
proof (induction "is" arbitrary: mem)
  case Nil
  then show ?case by simp
next
  case (Cons i "is")
  have t: "in_table b i" using assms(1) Cons.prems(1) by simp
  show ?case unfolding fold_Cons o_apply using Cons.prems by (intro Cons.IH) (auto simp: init_slot_at[OF t assms(3)] simp del: of_nat_mult)
qed

lemma init_table_at:
  assumes "set bs \<subseteq> {..<280576}" and "in_table b' i'" and "b' \<in> set bs \<or> fresh_slot (slot_at c mem b' i')"
  shows "fresh_slot (slot_at c (fold (\<lambda>i. fold (init_slot (of_nat (i * sizeof_PackedBucket) + base_addr c)) [0..<8]) bs mem) b' i')"
  using assms(1,3)
proof (induction bs arbitrary: mem)
  case Nil
  then show ?case by simp
next
  case (Cons b bs)
  have b: "b < 280576" and js: "set [0..<8] \<subseteq> {..<8 :: nat}" and i: "i' \<in> set [0..<8]" using Cons.prems(1) assms(2) by auto
  have "b' = b \<and> i' \<in> set [0..<8] \<or> fresh_slot (slot_at c mem b' i')" if "b' \<notin> set bs" using Cons.prems(2) that i by auto
  then have "b' \<in> set bs \<or> fresh_slot (slot_at c (fold (init_slot (of_nat (b * sizeof_PackedBucket) + base_addr c)) [0..<8] mem) b' i')"
    using init_bucket_at[OF b js assms(2)] by blast
  then show ?case unfolding fold_Cons o_apply by (intro Cons.IH) (use Cons.prems(1) in auto)
qed

lemma packed_server_init_fresh:
  assumes "packed_server_init c = Inr mem" and "in_table b i"
  shows "fresh_slot (slot_at c mem b i)"
proof -
  have n: "unat PACKED_HASH_NUM_BUCKETS = 280576" by (simp add: PACKED_HASH_NUM_BUCKETS_def)
  have "mem = fold (\<lambda>i. fold (init_slot (of_nat (i * sizeof_PackedBucket) + base_addr c)) [0..<8]) [0..<280576] (\<lambda>_. 0)"
    using assms(1) unfolding packed_server_init_def n PACKED_HASH_BUCKET_ASSOC_NUM_def by (simp split: if_splits)
  moreover have "set [0..<280576] \<subseteq> {..<280576}" and "b \<in> set [0..<280576]" using assms(2) by auto
  ultimately show ?thesis using init_table_at[OF _ assms(2)] by blast
qed


section \<open>What the operations do to the table\<close>

abbreviation free_slot :: "packed_slot \<Rightarrow> bool" where
  "free_slot s \<equiv> visibility s = 0 \<and> integrity s \<noteq> 0"

abbreviation complete_slot :: "packed_slot \<Rightarrow> bool" where
  "complete_slot s \<equiv> visibility s \<noteq> 0 \<and> integrity s \<noteq> 0"

lemma key_match_iff: "length key = PACKED_KEY_LEN \<Longrightarrow> key_match key s \<longleftrightarrow> visibility s \<noteq> 0 \<and> ps_key s = key"
  by (auto simp: key_match_def key_buf_def)

text \<open>The victim of the scan is the least recently used of the complete slots that were passed.\<close>

definition victim_ok :: "packed_slot list \<Rightarrow> (nat \<times> u64) option \<Rightarrow> bool" where
  "victim_ok ss v \<longleftrightarrow> (case v of None \<Rightarrow> \<forall>s \<in> set ss. \<not> complete_slot s
     | Some (i, ts) \<Rightarrow> i < length ss \<and> complete_slot (ss ! i) \<and> ts = acc_ts (ss ! i) \<and> (\<forall>s \<in> set ss. complete_slot s \<longrightarrow> ts \<le> acc_ts s))"

lemma victim_ok_snoc:
  assumes "victim_ok ss v"
  shows "victim_ok (ss @ [s])
    (if complete_slot s then (case v of None \<Rightarrow> Some (length ss, acc_ts s) | Some (_, ts) \<Rightarrow> if ts > acc_ts s then Some (length ss, acc_ts s) else v) else v)"
  using assms by (cases v) (auto simp: victim_ok_def nth_append not_less split: if_splits, meson less_imp_le order.strict_trans2)

definition scan_spec :: "u8 list \<Rightarrow> packed_slot list \<Rightarrow> put_scan \<Rightarrow> bool" where
  "scan_spec key ss r \<longleftrightarrow> (case r of
       Put_present \<Rightarrow> \<exists>s \<in> set ss. key_match key s
     | Put_free i \<Rightarrow> i < length ss \<and> free_slot (ss ! i) \<and> (\<forall>j < i. \<not> key_match key (ss ! j))
     | Put_victim None \<Rightarrow> (\<forall>s \<in> set ss. \<not> key_match key s \<and> \<not> free_slot s \<and> \<not> complete_slot s)
     | Put_victim (Some i) \<Rightarrow> i < length ss \<and> complete_slot (ss ! i) \<and> (\<forall>s \<in> set ss. \<not> key_match key s \<and> \<not> free_slot s) \<and>
         (\<forall>s \<in> set ss. complete_slot s \<longrightarrow> acc_ts (ss ! i) \<le> acc_ts s))"

lemma put_key_scan_from:
  assumes "victim_ok pre v" and "\<forall>s \<in> set pre. \<not> key_match key s \<and> \<not> free_slot s"
  shows "scan_spec key (pre @ ss) (put_key_scan key ss (length pre) v)"
  using assms
proof (induction ss arbitrary: pre v)
  case Nil
  then show ?case by (cases v) (auto simp: scan_spec_def victim_ok_def)
next
  case (Cons s ss)
  consider (present) "key_match key s" | (free) "\<not> key_match key s" "free_slot s" | (other) "\<not> key_match key s" "\<not> free_slot s" by blast
  then show ?case
  proof cases
    case present
    then show ?thesis by (simp add: scan_spec_def)
  next
    case free
    then show ?thesis using Cons.prems(2) by (simp add: scan_spec_def nth_append)
  next
    case other
    let ?v = "if complete_slot s then (case v of None \<Rightarrow> Some (length pre, acc_ts s) | Some (_, ts) \<Rightarrow> if ts > acc_ts s then Some (length pre, acc_ts s) else v) else v"
    have "scan_spec key ((pre @ [s]) @ ss) (put_key_scan key ss (length (pre @ [s])) ?v)"
      using Cons.prems(2) other by (intro Cons.IH victim_ok_snoc[OF Cons.prems(1)]) auto
    then show ?thesis using other by (cases "visibility s = 0") (simp_all add: Let_def)
  qed
qed

lemma put_key_scan_spec: "scan_spec key ss (put_key_scan key ss 0 None)"
  using put_key_scan_from[of "[]" None key ss] by (simp add: victim_ok_def)

lemma scan_spec_taken:
  assumes "scan_spec key ss r" and "r = Put_free i \<or> r = Put_victim (Some i)"
  shows "i < length ss \<and> integrity (ss ! i) \<noteq> 0 \<and> \<not> key_match key (ss ! i)"
  using assms(2)
proof
  assume "r = Put_free i"
  then show ?thesis using assms(1) by (auto simp: scan_spec_def key_match_def)
next
  assume "r = Put_victim (Some i)"
  then show ?thesis using assms(1) by (auto simp: scan_spec_def)
qed

lemma take_slot_at:
  assumes "in_table b i" and "length key = PACKED_KEY_LEN"
  shows "\<exists>mem'. take_slot (base_addr c + of_nat (slot_off b i)) key mem = Inr mem' \<and>
    (\<forall>b' i'. in_table b' i' \<longrightarrow> slot_at c mem' b' i' =
      (if b' = b \<and> i' = i then (slot_at c mem b i)\<lparr>integrity := 0, ps_key := key, visibility := 1\<rparr> else slot_at c mem b' i'))"
proof -
  have a: "base_addr c + of_nat (slot_off b i) + of_nat f = field_addr c b i f" for f by (simp add: field_addr_def)
  show ?thesis unfolding take_slot_def a using assms by (auto simp: field_stores)
qed

lemma packed_put_key_cases:
  fixes c :: packed_conf and mem :: memory
  assumes "length key = PACKED_KEY_LEN"
  defines "b \<equiv> bucket_id c key"
  shows "(\<exists>mem'. packed_put_key c key mem = Inr (- 1, mem) \<and> mem' = mem) \<or>
    (\<exists>i mem'. i < 8 \<and> packed_put_key c key mem = Inr (int i, mem') \<and> integrity (slot_at c mem b i) \<noteq> 0 \<and>
      \<not> key_match key (slot_at c mem b i) \<and>
      (\<forall>b' i'. in_table b' i' \<longrightarrow> slot_at c mem' b' i' =
        (if b' = b \<and> i' = i then (slot_at c mem b i)\<lparr>integrity := 0, ps_key := key, visibility := 1\<rparr> else slot_at c mem b' i')))"
proof -
  let ?ss = "map (slot_at c mem b) [0..<8]"
  let ?r = "put_key_scan key ?ss 0 None"
  have b: "b < 280576" using packed_bucket_less by (simp add: b_def)
  have sp: "scan_spec key ?ss ?r" by (rule put_key_scan_spec)
  have e: "packed_put_key c key mem = (case ?r of
         Put_present \<Rightarrow> Inr (- 1, mem)
       | Put_free i \<Rightarrow> rbind (take_slot (base_addr c + of_nat (slot_off b i)) key mem) (\<lambda>mem. Inr (int i, mem))
       | Put_victim (Some i) \<Rightarrow> rbind (take_slot (base_addr c + of_nat (slot_off b i)) key mem) (\<lambda>mem. Inr (int i, mem))
       | Put_victim None \<Rightarrow> Inr (- 1, mem))"
    unfolding packed_put_key_def bucket_addr_of_eq rbind_Inr bucket_slots_eq slot_addr_eq b_def ..
  consider (none) "?r = Put_present \<or> ?r = Put_victim None" | (taken) i where "?r = Put_free i \<or> ?r = Put_victim (Some i)"
    by (metis option.exhaust put_scan.exhaust)
  then show ?thesis
  proof cases
    case none
    then show ?thesis using e by auto
  next
    case (taken i)
    have i: "i < 8" "integrity (slot_at c mem b i) \<noteq> 0" "\<not> key_match key (slot_at c mem b i)"
      using taken scan_spec_taken[OF sp] by auto
    obtain mem' where "take_slot (base_addr c + of_nat (slot_off b i)) key mem = Inr mem'" and
      "\<forall>b' i'. in_table b' i' \<longrightarrow> slot_at c mem' b' i' =
        (if b' = b \<and> i' = i then (slot_at c mem b i)\<lparr>integrity := 0, ps_key := key, visibility := 1\<rparr> else slot_at c mem b' i')"
      using take_slot_at[of b i key c mem] b i(1) assms(1) by blast
    then show ?thesis using e taken i by (intro disjI2 exI[of _ i] exI[of _ mem']) auto
  qed
qed

lemma find_key_spec:
  "case find_key key ss i of None \<Rightarrow> \<forall>s \<in> set ss. \<not> key_match key s
   | Some j \<Rightarrow> i \<le> j \<and> j < i + length ss \<and> key_match key (ss ! (j - i))"
proof (induction ss arbitrary: i)
  case Nil
  then show ?case by simp
next
  case (Cons s ss)
  show ?case using Cons.IH[of "i + 1"] by (auto split: option.splits simp: nth_Cons')
qed

lemma packed_invalidate_cases:
  fixes c :: packed_conf and mem :: memory and key :: "u8 list"
  defines "b \<equiv> bucket_id c key"
  shows "(packed_invalidate_key c key mem = Inr (- 1, mem) \<and> (\<forall>i < 8. \<not> key_match key (slot_at c mem b i))) \<or>
    (\<exists>i mem'. i < 8 \<and> packed_invalidate_key c key mem = Inr (int i, mem') \<and> key_match key (slot_at c mem b i) \<and>
      (\<forall>b' i'. in_table b' i' \<longrightarrow> slot_at c mem' b' i' =
        (if b' = b \<and> i' = i then (slot_at c mem b i)\<lparr>visibility := 0\<rparr> else slot_at c mem b' i')))"
proof -
  let ?ss = "map (slot_at c mem b) [0..<8]"
  have b: "b < 280576" using packed_bucket_less by (simp add: b_def)
  have e: "packed_invalidate_key c key mem = (case find_key key ?ss 0 of
         Some i \<Rightarrow> Inr (int i, poke (field_addr c b i PACKED_SLOT_VISIBILITY_OFF) [0] mem)
       | None \<Rightarrow> Inr (- 1, mem))"
    unfolding packed_invalidate_key_def bucket_addr_of_eq rbind_Inr bucket_slots_eq slot_addr_eq b_def field_addr_def ..
  note sp = find_key_spec[where key = key and ss = ?ss and i = 0]
  show ?thesis
  proof (cases "find_key key ?ss 0")
    case None
    then show ?thesis using e sp by auto
  next
    case (Some i)
    then have i: "i < 8" "key_match key (slot_at c mem b i)" using sp by auto
    then show ?thesis using e Some b by (intro disjI2 exI[of _ i]) (auto simp: field_stores)
  qed
qed

text \<open>A hit returns the value of a complete slot with the key.\<close>

lemma packed_get_scan_hit:
  assumes "packed_get_scan key ss i = Inr (Get_hit j v)" and "length key = PACKED_KEY_LEN" and "\<forall>s \<in> set ss. length (ps_key s) = PACKED_KEY_LEN"
  shows "i \<le> j \<and> j < i + length ss \<and> complete_slot (ss ! (j - i)) \<and> ps_key (ss ! (j - i)) = key \<and> v = ps_value (ss ! (j - i))"
  using assms
proof (induction ss arbitrary: i)
  case Nil
  then show ?case by simp
next
  case (Cons s ss)
  have l: "\<forall>s \<in> set ss. length (ps_key s) = PACKED_KEY_LEN" "length (ps_key s) = PACKED_KEY_LEN" using Cons.prems(3) by simp_all
  show ?case
  proof (cases "visibility s = 0 \<or> key \<noteq> ps_key s")
    case True
    then have "packed_get_scan key ss (i + 1) = Inr (Get_hit j v)" using Cons.prems(1,2) l(2) by (auto split: if_splits)
    then have "i + 1 \<le> j \<and> j < i + 1 + length ss \<and> complete_slot (ss ! (j - (i + 1))) \<and> ps_key (ss ! (j - (i + 1))) = key \<and> v = ps_value (ss ! (j - (i + 1)))"
      by (rule Cons.IH[OF _ Cons.prems(2) l(1)])
    then show ?thesis by (auto simp: nth_Cons')
  next
    case False
    then show ?thesis using Cons.prems(1,2) l(2) by (auto split: if_splits)
  qed
qed

lemma packed_kv_get_hit:
  assumes "packed_kv_get c now key mem = Inr (Get_hit j v, ws)" and "length key = PACKED_KEY_LEN"
  shows "j < 8 \<and> complete_slot (slot_at c mem (bucket_id c key) j) \<and> ps_key (slot_at c mem (bucket_id c key) j) = key \<and>
    v = ps_value (slot_at c mem (bucket_id c key) j) \<and>
    ws = (if evict_non c then [] else [(field_addr c (bucket_id c key) j PACKED_SLOT_ACC_TS_OFF, store_u64 now)])"
proof -
  have "packed_get_scan key (map (slot_at c mem (bucket_id c key)) [0..<8]) 0 = Inr (Get_hit j v)"
    and ws: "ws = (if evict_non c then [] else [(base_addr c + of_nat (slot_off (bucket_id c key) j) + of_nat PACKED_SLOT_ACC_TS_OFF, store_u64 now)])"
    using assms(1) unfolding packed_kv_get_def bucket_addr_of_eq rbind_Inr bucket_slots_eq slot_addr_eq by (auto simp: res_simps)
  note h = packed_get_scan_hit[OF this(1) assms(2)]
  have "j < 8" using h by auto
  then show ?thesis using h ws by (auto simp: field_addr_def)
qed

end
