(* ===== verification/Packed_Cache.thy ===== *)
theory Packed_Cache
  imports Packed_Table
begin

text \<open>
  The packed cache shared by a server and its clients, as a state machine: the server
  reserves a slot for a key and tells the client, the client reads the value from the store
  and writes it into the slot, and a write of the key invalidates it. Remote writes reach
  the table one by one, in any order between clients. A hit returns a value that was filled
  in for its key; it is not older than the last invalidation as long as no key has two slots.
\<close>

section \<open>The machine\<close>

text \<open>
  A fill is a slot that was reserved for a client: \<open>fl_writes\<close> are the writes that have not
  reached the table, once the client has called \<open>kv_set\<close> with \<open>fl_value\<close>. \<open>fl_fresh\<close> says that
  the key has not been invalidated since the reservation.
\<close>

record fill =
  fl_key :: "u8 list"
  fl_slot :: u8
  fl_value :: "u8 list"
  fl_writes :: "rdma_write list option"
  fl_fresh :: bool

text \<open>
  \<open>pw_touches\<close> are the writes of time stamps of \<open>kv_get\<close> under way. \<open>pw_filled\<close> and \<open>pw_valid\<close>
  are the specification: the values that were ever filled in for a key, and those that were
  reserved and filled in since its last invalidation.
\<close>

record packed_world =
  pw_mem :: memory
  pw_fills :: "fill list"
  pw_touches :: "rdma_write list"
  pw_filled :: "u8 list \<Rightarrow> u8 list set"
  pw_valid :: "u8 list \<Rightarrow> u8 list set"

datatype packed_step =
  Pk_put "u8 list"
| Pk_invalidate "u8 list"
| Pk_set nat "u8 list" u64
| Pk_write nat
| Pk_get "u8 list" u64
| Pk_touched nat

definition pad_value :: "u8 list \<Rightarrow> u8 list" where
  "pad_value v = v @ replicate (PACKED_VALUE_LEN - length v) 0"

definition remove_nth :: "nat \<Rightarrow> 'a list \<Rightarrow> 'a list" where
  "remove_nth n xs = take n xs @ drop (Suc n) xs"

definition mark_stale :: "u8 list \<Rightarrow> fill \<Rightarrow> fill" where
  "mark_stale key f = (if fl_key f = key then f\<lparr>fl_fresh := False\<rparr> else f)"

text \<open>The end of a fill: its value is in the table.\<close>

definition finish_fill :: "nat \<Rightarrow> packed_world \<Rightarrow> packed_world" where
  "finish_fill n w =
     (let f = pw_fills w ! n; k = fl_key f in
      w\<lparr>pw_fills := remove_nth n (pw_fills w),
        pw_filled := (pw_filled w)(k := insert (fl_value f) (pw_filled w k)),
        pw_valid := (if fl_fresh f then (pw_valid w)(k := insert (fl_value f) (pw_valid w k)) else pw_valid w)\<rparr>)"

fun pk_run :: "packed_conf \<Rightarrow> packed_step \<Rightarrow> packed_world \<Rightarrow> packed_world res" where
  "pk_run c (Pk_put key) w =
     rbind (packed_put_key c key (pw_mem w)) (\<lambda>(r, mem).
       Inr (w\<lparr>pw_mem := mem, pw_fills := pw_fills w @
         (if r \<ge> 0 then [\<lparr>fl_key = key, fl_slot = word_of_int r, fl_value = [], fl_writes = None, fl_fresh = True\<rparr>] else [])\<rparr>))"
| "pk_run c (Pk_invalidate key) w =
     rbind (packed_invalidate_key c key (pw_mem w)) (\<lambda>(r, mem).
       Inr (w\<lparr>pw_mem := mem, pw_fills := map (mark_stale key) (pw_fills w),
              pw_valid := (pw_valid w)(key := {})\<rparr>))"
| "pk_run c (Pk_set n val now) w =
     (let f = pw_fills w ! n in
      rbind (packed_kv_set c now (fl_key f) val (fl_slot f)) (\<lambda>ws.
        Inr (w\<lparr>pw_fills := (pw_fills w)[n := f\<lparr>fl_value := pad_value val, fl_writes := Some ws\<rparr>]\<rparr>)))"
| "pk_run c (Pk_write n) w =
     (let f = pw_fills w ! n in
      case fl_writes f of
        Some (wr # ws) \<Rightarrow>
          let w1 = w\<lparr>pw_mem := rdma_apply wr (pw_mem w)\<rparr>
          in Inr (if ws = [] then finish_fill n w1 else w1\<lparr>pw_fills := (pw_fills w)[n := f\<lparr>fl_writes := Some ws\<rparr>]\<rparr>)
      | _ \<Rightarrow> Inr w)"
| "pk_run c (Pk_get key now) w =
     rbind (packed_kv_get c now key (pw_mem w)) (\<lambda>(r, ws). Inr (w\<lparr>pw_touches := pw_touches w @ ws\<rparr>))"
| "pk_run c (Pk_touched n) w =
     Inr (w\<lparr>pw_mem := rdma_apply (pw_touches w ! n) (pw_mem w), pw_touches := remove_nth n (pw_touches w)\<rparr>)"

text \<open>Keys have the length of their field and values fit in theirs; callbacks belong to requests under way.\<close>

fun pk_ok :: "packed_step \<Rightarrow> packed_world \<Rightarrow> bool" where
  "pk_ok (Pk_put key) w \<longleftrightarrow> length key = PACKED_KEY_LEN"
| "pk_ok (Pk_invalidate key) w \<longleftrightarrow> length key = PACKED_KEY_LEN"
| "pk_ok (Pk_set n val now) w \<longleftrightarrow> n < length (pw_fills w) \<and> fl_writes (pw_fills w ! n) = None \<and> length val \<le> PACKED_VALUE_LEN"
| "pk_ok (Pk_write n) w \<longleftrightarrow> n < length (pw_fills w)"
| "pk_ok (Pk_get key now) w \<longleftrightarrow> length key = PACKED_KEY_LEN"
| "pk_ok (Pk_touched n) w \<longleftrightarrow> n < length (pw_touches w)"

text \<open>No slot is reserved for a key that has a visible slot already.\<close>

fun pk_single :: "packed_conf \<Rightarrow> packed_step \<Rightarrow> packed_world \<Rightarrow> bool" where
  "pk_single c (Pk_put key) w \<longleftrightarrow>
     list_ex (key_match key) (map (slot_at c (pw_mem w) (bucket_id c key)) [0..<8]) \<longrightarrow> packed_put_key c key (pw_mem w) = Inr (- 1, pw_mem w)"
| "pk_single c _ w \<longleftrightarrow> True"

text \<open>A run from a world to a world; the flag says that every reservation was the only one of its key.\<close>

inductive pk_steps :: "packed_conf \<Rightarrow> packed_world \<Rightarrow> bool \<Rightarrow> packed_world \<Rightarrow> bool" for c where
  pk_start: "pk_steps c w True w"
| pk_more: "pk_steps c w single w1 \<Longrightarrow> pk_ok st w1 \<Longrightarrow> pk_run c st w1 = Inr w2 \<Longrightarrow>
    pk_steps c w (single \<and> pk_single c st w1) w2"

definition fresh_packed_world :: "memory \<Rightarrow> packed_world" where
  "fresh_packed_world mem = \<lparr>pw_mem = mem, pw_fills = [], pw_touches = [], pw_filled = (\<lambda>_. {}), pw_valid = (\<lambda>_. {})\<rparr>"

section \<open>The invariant\<close>

abbreviation fl_place :: "packed_conf \<Rightarrow> fill \<Rightarrow> nat \<times> nat" where
  "fl_place c f \<equiv> (bucket_id c (fl_key f), unat (fl_slot f))"

definition fl_at :: "packed_conf \<Rightarrow> memory \<Rightarrow> fill \<Rightarrow> packed_slot" where
  "fl_at c mem f = slot_at c mem (bucket_id c (fl_key f)) (unat (fl_slot f))"

definition set_writes :: "packed_conf \<Rightarrow> u64 \<Rightarrow> fill \<Rightarrow> rdma_write list" where
  "set_writes c now f =
     (let a = field_addr c (bucket_id c (fl_key f)) (unat (fl_slot f)) in
      (a PACKED_SLOT_VALUE_OFF, fl_value f) #
      (if evict_non c then [] else [(a PACKED_SLOT_ACC_TS_OFF, store_u64 now)]) @ [(a PACKED_SLOT_INTEGRITY_OFF, [1])])"

text \<open>A fill holds its slot: it is incomplete and keeps the key; the value is there once it is written.\<close>

definition fill_ok :: "packed_conf \<Rightarrow> memory \<Rightarrow> fill \<Rightarrow> bool" where
  "fill_ok c mem f \<longleftrightarrow> length (fl_key f) = PACKED_KEY_LEN \<and> unat (fl_slot f) < 8 \<and>
     integrity (fl_at c mem f) = 0 \<and> ps_key (fl_at c mem f) = fl_key f \<and>
     (\<forall>ws. fl_writes f = Some ws \<longrightarrow> length (fl_value f) = PACKED_VALUE_LEN \<and> ws \<noteq> [] \<and>
       (\<exists>now pre. pre @ ws = set_writes c now f \<and> (pre \<noteq> [] \<longrightarrow> ps_value (fl_at c mem f) = fl_value f)))"

definition touch_ok :: "packed_conf \<Rightarrow> rdma_write \<Rightarrow> bool" where
  "touch_ok c wr \<longleftrightarrow> (\<exists>b i t. in_table b i \<and> wr = (field_addr c b i PACKED_SLOT_ACC_TS_OFF, store_u64 t))"

text \<open>\<open>hits_in c mem vs\<close>: the value of every complete slot in the bucket of its key is in \<open>vs\<close>.\<close>

definition hits_in :: "packed_conf \<Rightarrow> memory \<Rightarrow> (u8 list \<Rightarrow> u8 list set) \<Rightarrow> bool" where
  "hits_in c mem vs \<longleftrightarrow> (\<forall>b i. in_table b i \<and> complete_slot (slot_at c mem b i) \<and> bucket_id c (ps_key (slot_at c mem b i)) = b
     \<longrightarrow> ps_value (slot_at c mem b i) \<in> vs (ps_key (slot_at c mem b i)))"

definition pk_inv :: "packed_conf \<Rightarrow> packed_world \<Rightarrow> bool" where
  "pk_inv c w \<longleftrightarrow> list_all (fill_ok c (pw_mem w)) (pw_fills w) \<and> distinct (map (fl_place c) (pw_fills w)) \<and>
     list_all (touch_ok c) (pw_touches w) \<and> hits_in c (pw_mem w) (pw_filled w)"

text \<open>No two visible slots of a bucket have the same key.\<close>

definition keys_once :: "packed_conf \<Rightarrow> memory \<Rightarrow> bool" where
  "keys_once c mem \<longleftrightarrow> (\<forall>b i j. in_table b i \<and> in_table b j \<and> visibility (slot_at c mem b i) \<noteq> 0 \<and> visibility (slot_at c mem b j) \<noteq> 0 \<and>
     ps_key (slot_at c mem b i) = ps_key (slot_at c mem b j) \<longrightarrow> i = j)"

definition pk_single_inv :: "packed_conf \<Rightarrow> packed_world \<Rightarrow> bool" where
  "pk_single_inv c w \<longleftrightarrow>
     keys_once c (pw_mem w) \<and>
     (\<forall>f \<in> set (pw_fills w). visibility (fl_at c (pw_mem w) f) \<noteq> 0 \<longrightarrow> fl_fresh f) \<and>
     hits_in c (pw_mem w) (pw_valid w)"

lemma keys_onceI:
  assumes "\<And>b i j. in_table b i \<Longrightarrow> in_table b j \<Longrightarrow> visibility (slot_at c mem b i) \<noteq> 0 \<Longrightarrow> visibility (slot_at c mem b j) \<noteq> 0 \<Longrightarrow>
    ps_key (slot_at c mem b i) = ps_key (slot_at c mem b j) \<Longrightarrow> i = j"
  shows "keys_once c mem"
  using assms unfolding keys_once_def by blast

lemma keys_onceD:
  "keys_once c mem \<Longrightarrow> in_table b i \<Longrightarrow> in_table b j \<Longrightarrow> visibility (slot_at c mem b i) \<noteq> 0 \<Longrightarrow> visibility (slot_at c mem b j) \<noteq> 0 \<Longrightarrow>
    ps_key (slot_at c mem b i) = ps_key (slot_at c mem b j) \<Longrightarrow> i = j"
  unfolding keys_once_def by blast

text \<open>A change of one slot, and what it keeps.\<close>

definition slot_changed :: "packed_conf \<Rightarrow> nat \<Rightarrow> nat \<Rightarrow> (packed_slot \<Rightarrow> packed_slot) \<Rightarrow> memory \<Rightarrow> memory \<Rightarrow> bool" where
  "slot_changed c b i g mem mem' \<longleftrightarrow> in_table b i \<and>
     (\<forall>b' i'. in_table b' i' \<longrightarrow> slot_at c mem' b' i' = (if b' = b \<and> i' = i then g (slot_at c mem b i) else slot_at c mem b' i'))"

lemma slot_changedD:
  assumes "slot_changed c b i g mem mem'"
  shows "in_table b i" and "slot_at c mem' b i = g (slot_at c mem b i)"
    and "in_table b' i' \<Longrightarrow> (b', i') \<noteq> (b, i) \<Longrightarrow> slot_at c mem' b' i' = slot_at c mem b' i'"
  using assms by (auto simp: slot_changed_def)

lemma fl_at_changed:
  assumes "slot_changed c b i g mem mem'" and "unat (fl_slot f) < 8"
  shows "fl_at c mem' f = (if fl_place c f = (b, i) then g (fl_at c mem f) else fl_at c mem f)"
  using slot_changedD[OF assms(1)] assms(2) packed_bucket_less[of c "fl_key f"] by (auto simp: fl_at_def)

lemma fill_ok_changed:
  assumes "slot_changed c b i g mem mem'" and "fill_ok c mem f"
    and "fl_place c f = (b, i) \<Longrightarrow> integrity (g (fl_at c mem f)) = integrity (fl_at c mem f) \<and>
      ps_key (g (fl_at c mem f)) = ps_key (fl_at c mem f) \<and> ps_value (g (fl_at c mem f)) = ps_value (fl_at c mem f)"
  shows "fill_ok c mem' f"
proof -
  have "unat (fl_slot f) < 8" using assms(2) by (simp add: fill_ok_def)
  note e = fl_at_changed[OF assms(1) this]
  have "integrity (fl_at c mem' f) = integrity (fl_at c mem f)" "ps_key (fl_at c mem' f) = ps_key (fl_at c mem f)"
    "ps_value (fl_at c mem' f) = ps_value (fl_at c mem f)" unfolding e using assms(3) by (cases "fl_place c f = (b, i)"; simp)+
  then show ?thesis using assms(2) by (simp add: fill_ok_def)
qed

lemma hits_in_changed:
  assumes "slot_changed c b i g mem mem'" and "hits_in c mem vs" and "\<And>k. bucket_id c k \<noteq> b \<Longrightarrow> vs k \<subseteq> vs' k"
    and "\<And>j. in_table b j \<Longrightarrow> j \<noteq> i \<Longrightarrow> complete_slot (slot_at c mem b j) \<Longrightarrow> bucket_id c (ps_key (slot_at c mem b j)) = b \<Longrightarrow>
      ps_value (slot_at c mem b j) \<in> vs' (ps_key (slot_at c mem b j))"
    and "complete_slot (g (slot_at c mem b i)) \<Longrightarrow> bucket_id c (ps_key (g (slot_at c mem b i))) = b \<Longrightarrow>
      ps_value (g (slot_at c mem b i)) \<in> vs' (ps_key (g (slot_at c mem b i)))"
  shows "hits_in c mem' vs'"
  unfolding hits_in_def
proof (intro allI impI)
  fix b' i'
  assume h: "in_table b' i' \<and> complete_slot (slot_at c mem' b' i') \<and> bucket_id c (ps_key (slot_at c mem' b' i')) = b'"
  consider "b' = b" "i' = i" | "b' = b" "i' \<noteq> i" | "b' \<noteq> b" by blast
  then show "ps_value (slot_at c mem' b' i') \<in> vs' (ps_key (slot_at c mem' b' i'))"
  proof cases
    case 1
    then show ?thesis using h assms(5) slot_changedD(2)[OF assms(1)] by auto
  next
    case 2
    then show ?thesis using h assms(4)[of i'] slot_changedD(3)[OF assms(1), of b' i'] by auto
  next
    case 3
    then have e: "slot_at c mem' b' i' = slot_at c mem b' i'" using h slot_changedD(3)[OF assms(1)] by auto
    then have "ps_value (slot_at c mem b' i') \<in> vs (ps_key (slot_at c mem b' i'))" using h assms(2) by (auto simp: hits_in_def)
    then show ?thesis using assms(3)[of "ps_key (slot_at c mem b' i')"] h e 3 by auto
  qed
qed


lemma hits_in_mono:
  assumes "slot_changed c b i g mem mem'" and "hits_in c mem vs" and "\<And>k. vs k \<subseteq> vs' k"
    and "complete_slot (g (slot_at c mem b i)) \<Longrightarrow> bucket_id c (ps_key (g (slot_at c mem b i))) = b \<Longrightarrow>
      ps_value (g (slot_at c mem b i)) \<in> vs' (ps_key (g (slot_at c mem b i)))"
  shows "hits_in c mem' vs'"
proof (rule hits_in_changed[OF assms(1,2)])
  show "ps_value (slot_at c mem b j) \<in> vs' (ps_key (slot_at c mem b j))"
    if "in_table b j" "complete_slot (slot_at c mem b j)" "bucket_id c (ps_key (slot_at c mem b j)) = b" for j
    using that assms(2,3) by (auto simp: hits_in_def)
qed (use assms(3,4) in auto)

text \<open>The stores of the machine as changes of a slot.\<close>

lemma write_changes:
  assumes "in_table b i"
  shows "length x = PACKED_VALUE_LEN \<Longrightarrow> slot_changed c b i (ps_value_update (\<lambda>_. x)) mem (rdma_apply (field_addr c b i PACKED_SLOT_VALUE_OFF, x) mem)"
    and "slot_changed c b i (acc_ts_update (\<lambda>_. t)) mem (rdma_apply (field_addr c b i PACKED_SLOT_ACC_TS_OFF, store_u64 t) mem)"
    and "slot_changed c b i (integrity_update (\<lambda>_. v)) mem (rdma_apply (field_addr c b i PACKED_SLOT_INTEGRITY_OFF, [v]) mem)"
  unfolding slot_changed_def rdma_apply_def fst_conv snd_conv using assms field_stores[OF assms] by auto

definition taken_slot :: "u8 list \<Rightarrow> packed_slot \<Rightarrow> packed_slot" where
  "taken_slot key s = s\<lparr>integrity := 0, ps_key := key, visibility := 1\<rparr>"

lemma put_changes:
  assumes "packed_put_key c key mem = Inr (r, mem')" and "length key = PACKED_KEY_LEN"
  shows "r = - 1 \<and> mem' = mem \<or> (\<exists>i. i < 8 \<and> r = int i \<and> integrity (slot_at c mem (bucket_id c key) i) \<noteq> 0 \<and>
    \<not> key_match key (slot_at c mem (bucket_id c key) i) \<and> slot_changed c (bucket_id c key) i (taken_slot key) mem mem')"
  using packed_put_key_cases[OF assms(2), of c mem] assms(1) packed_bucket_less[of c key] by (auto simp: slot_changed_def taken_slot_def)

lemma invalidate_changes:
  assumes "packed_invalidate_key c key mem = Inr (r, mem')"
  shows "mem' = mem \<and> (\<forall>i < 8. \<not> key_match key (slot_at c mem (bucket_id c key) i)) \<or>
    (\<exists>i < 8. key_match key (slot_at c mem (bucket_id c key) i) \<and> slot_changed c (bucket_id c key) i (visibility_update (\<lambda>_. 0)) mem mem')"
  using packed_invalidate_cases[of c key mem] assms packed_bucket_less[of c key] by (auto simp: slot_changed_def)

lemma kv_set_writes:
  assumes "length val \<le> PACKED_VALUE_LEN"
  shows "packed_kv_set c now (fl_key f) val (fl_slot f) = Inr (set_writes c now (f\<lparr>fl_value := pad_value val\<rparr>))"
  using assms unfolding packed_kv_set_def bucket_addr_of_eq rbind_Inr slot_addr_eq set_writes_def pad_value_def
  by (simp add: Let_def field_addr_def)


lemma set_writes_split:
  assumes "pre @ wr # ws = set_writes c now f"
  defines "a \<equiv> field_addr c (bucket_id c (fl_key f)) (unat (fl_slot f))"
  shows "pre = [] \<and> ws \<noteq> [] \<and> wr = (a PACKED_SLOT_VALUE_OFF, fl_value f) \<or>
    pre \<noteq> [] \<and> ws \<noteq> [] \<and> wr = (a PACKED_SLOT_ACC_TS_OFF, store_u64 now) \<or>
    pre \<noteq> [] \<and> ws = [] \<and> wr = (a PACKED_SLOT_INTEGRITY_OFF, [1])"
  using assms(1) unfolding set_writes_def a_def Let_def
  by (cases "evict_non c"; cases pre; cases "tl pre") (auto simp: append_eq_Cons_conv)

lemma set_remove_nth: "x \<in> set (remove_nth n xs) \<Longrightarrow> \<exists>m < length xs. m \<noteq> n \<and> x = xs ! m"
  by (auto simp: remove_nth_def in_set_conv_nth) (metis add_Suc_right add_diff_cancel_left' less_diff_conv add.commute less_irrefl not_add_less1 lessI nat_neq_iff add_lessD1)

lemma map_remove_nth: "map f (remove_nth n xs) = remove_nth n (map f xs)"
  by (simp add: remove_nth_def take_map drop_map)

lemma distinct_remove_nth: "distinct xs \<Longrightarrow> distinct (remove_nth n xs)"
  by (auto simp: remove_nth_def dest: set_take_disj_set_drop_if_distinct[of _ n "Suc n"])

text \<open>A change of the slot of one fill leaves the other fills alone.\<close>

lemma other_fills_ok:
  assumes fs: "list_all (fill_ok c mem) fs" "distinct (map (fl_place c) fs)" and n: "n < length fs"
    and ch: "slot_changed c b i g mem mem'" "fl_place c (fs ! n) = (b, i)" and m: "m < length fs" "m \<noteq> n"
  shows "fill_ok c mem' (fs ! m)"
proof (rule fill_ok_changed[OF ch(1)])
  show "fill_ok c mem (fs ! m)" using fs(1) m(1) by (simp add: list_all_length)
  have "fl_place c (fs ! m) \<noteq> fl_place c (fs ! n)" using nth_eq_iff_index_eq[OF fs(2), of m n] m n by simp
  then show "integrity (g (fl_at c mem (fs ! m))) = integrity (fl_at c mem (fs ! m)) \<and> ps_key (g (fl_at c mem (fs ! m))) = ps_key (fl_at c mem (fs ! m)) \<and>
      ps_value (g (fl_at c mem (fs ! m))) = ps_value (fl_at c mem (fs ! m))" if "fl_place c (fs ! m) = (b, i)"
    using that ch(2) by simp
qed

lemma update_fill_ok:
  assumes "list_all (fill_ok c mem) fs" "distinct (map (fl_place c) fs)" and "n < length fs"
    and "slot_changed c b i g mem mem'" "fl_place c (fs ! n) = (b, i)" and "fill_ok c mem' f'"
  shows "list_all (fill_ok c mem') (fs[n := f'])"
  using other_fills_ok[OF assms(1-5)] assms(3,6) by (auto simp: list_all_length nth_list_update)

lemma remove_fill_ok:
  assumes "list_all (fill_ok c mem) fs" "distinct (map (fl_place c) fs)" and "n < length fs"
    and "slot_changed c b i g mem mem'" "fl_place c (fs ! n) = (b, i)"
  shows "list_all (fill_ok c mem') (remove_nth n fs)"
  using other_fills_ok[OF assms] set_remove_nth[of _ n fs] by (auto simp: list_all_iff)

lemma same_places:
  assumes "fl_place c f' = fl_place c (fs ! n)" "n < length fs"
  shows "map (fl_place c) (fs[n := f']) = map (fl_place c) fs"
  by (simp add: map_update assms list_update_same_conv)

section \<open>The steps\<close>

lemma put_step:
  assumes inv: "pk_inv c w" and ok: "length key = PACKED_KEY_LEN"
  shows "\<exists>w'. pk_run c (Pk_put key) w = Inr w' \<and> pk_inv c w' \<and> (pk_single_inv c w \<and> pk_single c (Pk_put key) w \<longrightarrow> pk_single_inv c w')"
proof -
  let ?b = "bucket_id c key" and ?m = "pw_mem w"
  obtain r mem' where p: "packed_put_key c key ?m = Inr (r, mem')" using packed_put_key_cases[OF ok, of c ?m] by blast
  consider (none) "r = - 1" "mem' = ?m" | (taken) i where "i < 8" "r = int i" "integrity (slot_at c ?m ?b i) \<noteq> 0"
      "\<not> key_match key (slot_at c ?m ?b i)" "slot_changed c ?b i (taken_slot key) ?m mem'"
    using put_changes[OF p ok] by blast
  then show ?thesis
  proof cases
    case none
    then show ?thesis using p inv by simp
  next
    case (taken i)
    let ?f = "\<lparr>fl_key = key, fl_slot = word_of_int (int i), fl_value = [], fl_writes = None, fl_fresh = True\<rparr>"
    have u: "unat (word_of_nat i :: u8) = i" using taken(1) by (simp add: unat_of_nat)
    have pl: "fl_place c ?f = (?b, i)" using u by simp
    have nw: "fl_at c mem' ?f = taken_slot key (slot_at c ?m ?b i)" using slot_changedD(2)[OF taken(5)] u by (simp add: fl_at_def)
    have other: "fl_place c f \<noteq> (?b, i)" if "f \<in> set (pw_fills w)" for f
      using that inv taken(3) by (auto simp: pk_inv_def list_all_iff fill_ok_def fl_at_def)
    have fok: "fill_ok c mem' f" if "f \<in> set (pw_fills w)" for f
      by (rule fill_ok_changed[OF taken(5)]) (use other[OF that] inv that in \<open>simp_all add: pk_inv_def list_all_iff\<close>)
    have new_ok: "fill_ok c mem' ?f" using ok u taken(1) unfolding fill_ok_def nw by (simp add: taken_slot_def)
    have run: "pk_run c (Pk_put key) w = Inr (w\<lparr>pw_mem := mem', pw_fills := pw_fills w @ [?f]\<rparr>)" using p taken(2) by simp
    have "hits_in c mem' (pw_filled w)" using inv by (intro hits_in_mono[OF taken(5)]) (auto simp: pk_inv_def taken_slot_def)
    moreover have "fl_place c ?f \<notin> set (map (fl_place c) (pw_fills w))" unfolding pl using other by force
    ultimately have i1: "pk_inv c (w\<lparr>pw_mem := mem', pw_fills := pw_fills w @ [?f]\<rparr>)"
      using inv fok new_ok by (simp add: pk_inv_def list_all_iff)
    have "pk_single_inv c (w\<lparr>pw_mem := mem', pw_fills := pw_fills w @ [?f]\<rparr>)" if s: "pk_single_inv c w" "pk_single c (Pk_put key) w"
    proof -
      have once: "keys_once c ?m" using s(1) by (simp add: pk_single_inv_def)
      have nk: "\<not> key_match key (slot_at c ?m ?b j)" if "j < 8" for j
        using s(2) p taken(2) that by (auto simp: list_ex_iff)
      have sl: "slot_at c mem' b j = (if b = ?b \<and> j = i then taken_slot key (slot_at c ?m ?b i) else slot_at c ?m b j)" if "in_table b j" for b j
        using taken(5) that by (simp add: slot_changed_def)
      have "hits_in c mem' (pw_valid w)" using s(1) by (intro hits_in_mono[OF taken(5)]) (auto simp: pk_single_inv_def taken_slot_def)
      moreover have "fl_fresh f" if "f \<in> set (pw_fills w)" "visibility (fl_at c mem' f) \<noteq> 0" for f
        using that s(1) fl_at_changed[OF taken(5)] other[OF that(1)] inv by (auto simp: pk_single_inv_def pk_inv_def list_all_iff fill_ok_def)
      moreover have "keys_once c mem'"
      proof (rule keys_onceI)
        fix b j l
        assume t: "in_table b j" "in_table b l" and v: "visibility (slot_at c mem' b j) \<noteq> 0" "visibility (slot_at c mem' b l) \<noteq> 0"
          and k: "ps_key (slot_at c mem' b j) = ps_key (slot_at c mem' b l)"
        show "j = l"
        proof (cases "b = ?b \<and> (j = i \<or> l = i)")
          case True
          then show ?thesis using v k t nk[of j] nk[of l] sl[OF t(1)] sl[OF t(2)] by (auto simp: taken_slot_def key_match_iff[OF ok] split: if_splits)
        next
          case False
          then have "slot_at c mem' b j = slot_at c ?m b j" "slot_at c mem' b l = slot_at c ?m b l" using sl[OF t(1)] sl[OF t(2)] by auto
          then show ?thesis using keys_onceD[OF once t] v k by simp
        qed
      qed
      ultimately show ?thesis unfolding pk_single_inv_def by auto
    qed
    then show ?thesis using run i1 by blast
  qed
qed

lemma mark_stale_simps [simp]:
  "fl_key (mark_stale key f) = fl_key f" "fl_slot (mark_stale key f) = fl_slot f" "fl_at c mem (mark_stale key f) = fl_at c mem f"
  "fill_ok c mem (mark_stale key f) = fill_ok c mem f" "fl_fresh (mark_stale key f) \<longleftrightarrow> fl_fresh f \<and> fl_key f \<noteq> key"
  by (simp_all add: mark_stale_def fl_at_def fill_ok_def set_writes_def)

lemma invalidate_step:
  assumes inv: "pk_inv c w" and ok: "length key = PACKED_KEY_LEN"
  shows "\<exists>w'. pk_run c (Pk_invalidate key) w = Inr w' \<and> pk_inv c w' \<and> (pk_single_inv c w \<longrightarrow> pk_single_inv c w')"
proof -
  let ?b = "bucket_id c key" and ?m = "pw_mem w"
  obtain r mem' where p: "packed_invalidate_key c key ?m = Inr (r, mem')" using packed_invalidate_cases[of c key ?m] by blast
  let ?w = "w\<lparr>pw_mem := mem', pw_fills := map (mark_stale key) (pw_fills w), pw_valid := (pw_valid w)(key := {})\<rparr>"
  have run: "pk_run c (Pk_invalidate key) w = Inr ?w" using p by simp
  consider (none) "mem' = ?m" "\<forall>i < 8. \<not> key_match key (slot_at c ?m ?b i)"
    | (hit) i where "i < 8" "key_match key (slot_at c ?m ?b i)" "slot_changed c ?b i (visibility_update (\<lambda>_. 0)) ?m mem'"
    using invalidate_changes[OF p] by blast
  then show ?thesis
  proof cases
    case none
    have "pk_inv c ?w" using inv none(1) by (simp add: pk_inv_def list_all_iff comp_def)
    moreover have "pk_single_inv c ?w" if s: "pk_single_inv c w"
    proof -
      have "hits_in c ?m ((pw_valid w)(key := {}))"
        using s none(2) by (auto simp: hits_in_def pk_single_inv_def key_match_iff[OF ok])
      moreover have "fl_key f \<noteq> key" if "f \<in> set (pw_fills w)" "visibility (fl_at c ?m f) \<noteq> 0" for f
        using that inv none(2) by (auto simp: pk_inv_def list_all_iff fill_ok_def fl_at_def key_match_iff[OF ok])
      ultimately show ?thesis using s none(1) by (auto simp: pk_single_inv_def)
    qed
    ultimately show ?thesis using run by blast
  next
    case (hit i)
    have sl: "slot_at c mem' b j = (if b = ?b \<and> j = i then (slot_at c ?m ?b i)\<lparr>visibility := 0\<rparr> else slot_at c ?m b j)" if "in_table b j" for b j
      using hit(3) that by (simp add: slot_changed_def)
    have "fill_ok c mem' f" if "f \<in> set (pw_fills w)" for f
      using fill_ok_changed[OF hit(3)] inv that by (simp add: pk_inv_def list_all_iff)
    moreover have "hits_in c mem' (pw_filled w)" using inv by (intro hits_in_mono[OF hit(3)]) (auto simp: pk_inv_def)
    ultimately have "pk_inv c ?w" using inv by (simp add: pk_inv_def list_all_iff comp_def)
    moreover have "pk_single_inv c ?w" if s: "pk_single_inv c w"
    proof -
      have once: "keys_once c ?m" using s by (simp add: pk_single_inv_def)
      have only: "ps_key (slot_at c ?m ?b j) \<noteq> key" if "j < 8" "j \<noteq> i" "visibility (slot_at c ?m ?b j) \<noteq> 0" for j
        using keys_onceD[OF once, of ?b j i] that hit(1,2) packed_bucket_less[of c key] by (auto simp: key_match_iff[OF ok])
      have "hits_in c mem' ((pw_valid w)(key := {}))"
      proof (rule hits_in_changed[OF hit(3)])
        show "hits_in c ?m (pw_valid w)" using s by (simp add: pk_single_inv_def)
        show "ps_value (slot_at c ?m ?b j) \<in> ((pw_valid w)(key := {})) (ps_key (slot_at c ?m ?b j))"
          if "in_table ?b j" "j \<noteq> i" "complete_slot (slot_at c ?m ?b j)" "bucket_id c (ps_key (slot_at c ?m ?b j)) = ?b" for j
          using that only[of j] s by (auto simp: pk_single_inv_def hits_in_def)
      qed auto
      moreover have "fl_fresh f \<and> fl_key f \<noteq> key" if "f \<in> set (pw_fills w)" "visibility (fl_at c mem' f) \<noteq> 0" for f
      proof -
        have f: "unat (fl_slot f) < 8" "ps_key (fl_at c ?m f) = fl_key f" using inv that(1) by (auto simp: pk_inv_def list_all_iff fill_ok_def)
        have e: "fl_place c f \<noteq> (?b, i)" "visibility (fl_at c ?m f) \<noteq> 0" using that(2) fl_at_changed[OF hit(3) f(1)] by (auto split: if_splits)
        then have "fl_key f \<noteq> key" using only[of "unat (fl_slot f)"] f by (auto simp: fl_at_def)
        then show ?thesis using e(2) s that(1) by (auto simp: pk_single_inv_def)
      qed
      moreover have "keys_once c mem'"
      proof (rule keys_onceI)
        fix b j l
        assume t: "in_table b j" "in_table b l" and v: "visibility (slot_at c mem' b j) \<noteq> 0" "visibility (slot_at c mem' b l) \<noteq> 0"
          and k: "ps_key (slot_at c mem' b j) = ps_key (slot_at c mem' b l)"
        have "slot_at c mem' b j = slot_at c ?m b j" "slot_at c mem' b l = slot_at c ?m b l" using sl[OF t(1)] sl[OF t(2)] v by (auto split: if_splits)
        then show "j = l" using keys_onceD[OF once t] v k by simp
      qed
      ultimately show ?thesis unfolding pk_single_inv_def by auto
    qed
    ultimately show ?thesis using run by blast
  qed
qed


lemma set_step:
  assumes inv: "pk_inv c w" and ok: "pk_ok (Pk_set n val now) w"
  shows "\<exists>w'. pk_run c (Pk_set n val now) w = Inr w' \<and> pk_inv c w' \<and> (pk_single_inv c w \<longrightarrow> pk_single_inv c w')"
proof -
  let ?f = "pw_fills w ! n"
  let ?f' = "?f\<lparr>fl_value := pad_value val, fl_writes := Some (set_writes c now (?f\<lparr>fl_value := pad_value val\<rparr>))\<rparr>"
  let ?w = "w\<lparr>pw_fills := (pw_fills w)[n := ?f']\<rparr>"
  have n: "n < length (pw_fills w)" "length val \<le> PACKED_VALUE_LEN" using ok by simp_all
  have run: "pk_run c (Pk_set n val now) w = Inr ?w" using kv_set_writes[OF n(2), of c now ?f] by (simp add: Let_def)
  have same: "set_writes c now (?f\<lparr>fl_value := pad_value val\<rparr>) = set_writes c now ?f'" "fl_at c (pw_mem w) ?f' = fl_at c (pw_mem w) ?f"
    by (simp_all add: set_writes_def fl_at_def)
  have old: "fill_ok c (pw_mem w) ?f" using inv n(1) by (simp add: pk_inv_def list_all_length)
  have "length (pad_value val) = PACKED_VALUE_LEN" using n(2) by (simp add: pad_value_def)
  moreover have "set_writes c now (?f\<lparr>fl_value := pad_value val\<rparr>) \<noteq> []" by (simp add: set_writes_def Let_def)
  moreover have "\<exists>t pre. pre @ set_writes c now (?f\<lparr>fl_value := pad_value val\<rparr>) = set_writes c t ?f' \<and> (pre \<noteq> [] \<longrightarrow> ps_value (fl_at c (pw_mem w) ?f') = fl_value ?f')"
    using same(1) by (intro exI[of _ now] exI[of _ "[]"]) (simp only: append_Nil simp_thms)
  ultimately have "fill_ok c (pw_mem w) ?f'" using old unfolding fill_ok_def same(2) by simp
  then have "list_all (fill_ok c (pw_mem w)) ((pw_fills w)[n := ?f'])"
    using inv n(1) by (auto simp: pk_inv_def list_all_length nth_list_update)
  moreover have "map (fl_place c) ((pw_fills w)[n := ?f']) = map (fl_place c) (pw_fills w)" using n(1) by (intro same_places) simp_all
  ultimately have "pk_inv c ?w" using inv by (simp add: pk_inv_def)
  moreover have "pk_single_inv c ?w" if "pk_single_inv c w"
    using that n(1) by (auto simp: pk_single_inv_def fl_at_def dest!: set_update_subset_insert[THEN subsetD])
  ultimately show ?thesis using run by blast
qed

text \<open>Stores that leave visibility and key of a slot alone keep a key in one slot.\<close>

lemma keys_once_changed:
  assumes ch: "slot_changed c b i g mem mem'" and g: "\<And>s. visibility (g s) = visibility s \<and> ps_key (g s) = ps_key s" and once: "keys_once c mem"
  shows "keys_once c mem'"
proof (rule keys_onceI)
  have e: "visibility (slot_at c mem' b' j) = visibility (slot_at c mem b' j) \<and> ps_key (slot_at c mem' b' j) = ps_key (slot_at c mem b' j)"
    if "in_table b' j" for b' j using ch that g by (simp add: slot_changed_def)
  fix b' j l
  assume t: "in_table b' j" "in_table b' l" and v: "visibility (slot_at c mem' b' j) \<noteq> 0" "visibility (slot_at c mem' b' l) \<noteq> 0"
    and k: "ps_key (slot_at c mem' b' j) = ps_key (slot_at c mem' b' l)"
  then show "j = l" using keys_onceD[OF once t] e[OF t(1)] e[OF t(2)] by simp
qed

lemma fresh_changed:
  assumes "slot_changed c b i g mem mem'" and "\<And>s. visibility (g s) = visibility s" and "unat (fl_slot f) < 8"
  shows "visibility (fl_at c mem' f) = visibility (fl_at c mem f)"
  using fl_at_changed[OF assms(1,3)] assms(2) by simp

lemma touched_step:
  assumes inv: "pk_inv c w" and ok: "pk_ok (Pk_touched n) w"
  shows "\<exists>w'. pk_run c (Pk_touched n) w = Inr w' \<and> pk_inv c w' \<and> (pk_single_inv c w \<longrightarrow> pk_single_inv c w')"
proof -
  have "touch_ok c (pw_touches w ! n)" using inv ok by (simp add: pk_inv_def list_all_length)
  then obtain b i t where t: "in_table b i" "pw_touches w ! n = (field_addr c b i PACKED_SLOT_ACC_TS_OFF, store_u64 t)"
    by (auto simp: touch_ok_def)
  let ?mem = "rdma_apply (pw_touches w ! n) (pw_mem w)" and ?g = "acc_ts_update (\<lambda>_. t)"
  have ch: "slot_changed c b i ?g (pw_mem w) ?mem" unfolding t(2) by (rule write_changes(2)[OF t(1)])
  have hits: "hits_in c ?mem vs" if "hits_in c (pw_mem w) vs" for vs
    using that t(1) by (intro hits_in_mono[OF ch that]) (auto simp: hits_in_def)
  have "fill_ok c ?mem f" if "f \<in> set (pw_fills w)" for f
    by (rule fill_ok_changed[OF ch]) (use inv that in \<open>simp_all add: pk_inv_def list_all_iff\<close>)
  moreover have "list_all (touch_ok c) (remove_nth n (pw_touches w))"
    using inv by (auto simp: pk_inv_def remove_nth_def list_all_iff dest: in_set_takeD in_set_dropD)
  ultimately have "pk_inv c (w\<lparr>pw_mem := ?mem, pw_touches := remove_nth n (pw_touches w)\<rparr>)"
    using inv hits by (simp add: pk_inv_def list_all_iff)
  moreover have "pk_single_inv c (w\<lparr>pw_mem := ?mem, pw_touches := remove_nth n (pw_touches w)\<rparr>)" if s: "pk_single_inv c w"
  proof -
    have "unat (fl_slot f) < 8" if "f \<in> set (pw_fills w)" for f using inv that by (simp add: pk_inv_def list_all_iff fill_ok_def)
    then show ?thesis using s hits keys_once_changed[OF ch] fresh_changed[OF ch] by (simp add: pk_single_inv_def)
  qed
  ultimately show ?thesis by simp
qed

lemma get_step:
  assumes inv: "pk_inv c w" and ok: "length key = PACKED_KEY_LEN"
  shows "\<exists>w'. pk_run c (Pk_get key now) w = Inr w' \<and> pk_inv c w' \<and> (pk_single_inv c w \<longrightarrow> pk_single_inv c w')"
proof -
  have scan: "\<exists>r. packed_get_scan key ss i = Inr r" for ss i by (induction ss arbitrary: i) (use ok in auto)
  obtain r where r: "packed_get_scan key (bucket_slots (pw_mem w) (base_addr c + of_nat (bucket_id c key * sizeof_PackedBucket))) 0 = Inr r"
    using scan by blast
  obtain ws where g: "packed_kv_get c now key (pw_mem w) = Inr (r, ws)"
    unfolding packed_kv_get_def bucket_addr_of_eq rbind_Inr r by blast
  have "list_all (touch_ok c) ws"
  proof (cases r)
    case (Get_hit j v)
    then show ?thesis using packed_kv_get_hit[of c now key "pw_mem w" j v ws] g ok packed_bucket_less[of c key] by (auto simp: touch_ok_def)
  qed (use g in \<open>auto simp: packed_kv_get_def res_simps\<close>)
  then show ?thesis using g inv by (auto simp: pk_inv_def pk_single_inv_def)
qed

text \<open>A write of a fill that is not the last one, and the last one.\<close>

lemma write_mid:
  assumes inv: "pk_inv c w" and n: "n < length (pw_fills w)"
  defines "f \<equiv> pw_fills w ! n"
  assumes W: "fl_writes f = Some (wr # ws)" "ws \<noteq> []"
    and ch: "slot_changed c (bucket_id c (fl_key f)) (unat (fl_slot f)) g (pw_mem w) mem"
    and g: "\<And>s. visibility (g s) = visibility s \<and> ps_key (g s) = ps_key s \<and> integrity (g s) = integrity s"
    and v: "ps_value (g (fl_at c (pw_mem w) f)) = fl_value f"
  shows "pk_inv c (w\<lparr>pw_mem := mem, pw_fills := (pw_fills w)[n := f\<lparr>fl_writes := Some ws\<rparr>]\<rparr>)"
    and "pk_single_inv c w \<Longrightarrow> pk_single_inv c (w\<lparr>pw_mem := mem, pw_fills := (pw_fills w)[n := f\<lparr>fl_writes := Some ws\<rparr>]\<rparr>)"
proof -
  let ?f' = "f\<lparr>fl_writes := Some ws\<rparr>"
  have fs: "list_all (fill_ok c (pw_mem w)) (pw_fills w)" "distinct (map (fl_place c) (pw_fills w))" using inv by (simp_all add: pk_inv_def)
  have fok: "fill_ok c (pw_mem w) f" using fs(1) n by (simp add: list_all_length f_def)
  have small: "unat (fl_slot h) < 8" if "h \<in> set (pw_fills w)" for h using fs(1) that by (simp add: list_all_iff fill_ok_def)
  have at: "fl_at c mem f = g (fl_at c (pw_mem w) f)" using fl_at_changed[OF ch] small n by (simp add: f_def)
  have at': "fl_at c mem ?f' = fl_at c mem f" "\<And>now. set_writes c now ?f' = set_writes c now f" by (simp_all add: fl_at_def set_writes_def)
  obtain now pre where P: "pre @ wr # ws = set_writes c now f" and len: "length (fl_value f) = PACKED_VALUE_LEN"
    using fok W(1) by (auto simp: fill_ok_def)
  have "\<exists>now pre. pre @ ws = set_writes c now f \<and> (pre \<noteq> [] \<longrightarrow> ps_value (fl_at c mem f) = fl_value f)"
    using P v at by (intro exI[of _ now] exI[of _ "pre @ [wr]"]) simp
  then have "fill_ok c mem ?f'" using fok g W(2) len unfolding fill_ok_def at' at by simp
  moreover have "fl_place c (pw_fills w ! n) = (bucket_id c (fl_key f), unat (fl_slot f))" by (simp add: f_def)
  ultimately have "list_all (fill_ok c mem) ((pw_fills w)[n := ?f'])" using update_fill_ok[OF fs n ch] by blast
  moreover have places: "map (fl_place c) ((pw_fills w)[n := ?f']) = map (fl_place c) (pw_fills w)" using n by (intro same_places) (simp_all add: f_def)
  moreover have hits: "hits_in c mem vs" if "hits_in c (pw_mem w) vs" for vs
    using fok g by (intro hits_in_mono[OF ch that]) (simp_all add: fill_ok_def fl_at_def)
  ultimately show "pk_inv c (w\<lparr>pw_mem := mem, pw_fills := (pw_fills w)[n := ?f']\<rparr>)" using inv by (simp add: pk_inv_def)
  show "pk_single_inv c (w\<lparr>pw_mem := mem, pw_fills := (pw_fills w)[n := ?f']\<rparr>)" if s: "pk_single_inv c w"
  proof -
    have "fl_fresh h" if h: "h \<in> set ((pw_fills w)[n := ?f'])" "visibility (fl_at c mem h) \<noteq> 0" for h
    proof -
      have "h = ?f' \<or> h \<in> set (pw_fills w)" using set_update_subset_insert[of "pw_fills w" n ?f'] h(1) by blast
      moreover have "f \<in> set (pw_fills w)" using n by (simp add: f_def)
      moreover have "fl_fresh ?f' = fl_fresh f" by simp
      ultimately obtain h' where h': "h' \<in> set (pw_fills w)" "fl_fresh h = fl_fresh h'" "fl_at c mem h = fl_at c mem h'" using at'(1) by blast
      then show ?thesis using s h(2) fresh_changed[OF ch _ small[OF h'(1)]] g by (simp add: pk_single_inv_def)
    qed
    then show ?thesis using s hits keys_once_changed[OF ch] g by (simp add: pk_single_inv_def)
  qed
qed

lemma write_last:
  assumes inv: "pk_inv c w" and n: "n < length (pw_fills w)"
  defines "f \<equiv> pw_fills w ! n"
  assumes ch: "slot_changed c (bucket_id c (fl_key f)) (unat (fl_slot f)) (integrity_update (\<lambda>_. 1)) (pw_mem w) mem"
    and v: "ps_value (fl_at c (pw_mem w) f) = fl_value f"
  shows "pk_inv c (finish_fill n (w\<lparr>pw_mem := mem\<rparr>))" and "pk_single_inv c w \<Longrightarrow> pk_single_inv c (finish_fill n (w\<lparr>pw_mem := mem\<rparr>))"
proof -
  let ?b = "bucket_id c (fl_key f)" and ?i = "unat (fl_slot f)" and ?g = "integrity_update (\<lambda>_. 1) :: packed_slot \<Rightarrow> packed_slot"
  have fs: "list_all (fill_ok c (pw_mem w)) (pw_fills w)" "distinct (map (fl_place c) (pw_fills w))" using inv by (simp_all add: pk_inv_def)
  have fok: "fill_ok c (pw_mem w) f" using fs(1) n by (simp add: list_all_length f_def)
  have slot: "ps_key (?g (slot_at c (pw_mem w) ?b ?i)) = fl_key f" "ps_value (?g (slot_at c (pw_mem w) ?b ?i)) = fl_value f"
    using fok v by (simp_all add: fill_ok_def fl_at_def)
  have mem: "h \<in> set (pw_fills w)" if "h \<in> set (remove_nth n (pw_fills w))" for h using set_remove_nth[OF that] by auto
  have "list_all (fill_ok c mem) (remove_nth n (pw_fills w))" using remove_fill_ok[OF fs n ch] by (simp add: f_def)
  moreover have "distinct (map (fl_place c) (remove_nth n (pw_fills w)))" unfolding map_remove_nth by (rule distinct_remove_nth[OF fs(2)])
  moreover have "hits_in c mem ((pw_filled w)(fl_key f := insert (fl_value f) (pw_filled w (fl_key f))))"
    using inv by (intro hits_in_mono[OF ch]) (use slot in \<open>auto simp: pk_inv_def\<close>)
  ultimately show "pk_inv c (finish_fill n (w\<lparr>pw_mem := mem\<rparr>))" using inv by (simp add: pk_inv_def finish_fill_def Let_def f_def)
  show "pk_single_inv c (finish_fill n (w\<lparr>pw_mem := mem\<rparr>))" if s: "pk_single_inv c w"
  proof -
    let ?vs = "if fl_fresh f then (pw_valid w)(fl_key f := insert (fl_value f) (pw_valid w (fl_key f))) else pw_valid w"
    have fr: "fl_fresh f" if "visibility (slot_at c (pw_mem w) ?b ?i) \<noteq> 0" using s n that by (simp add: pk_single_inv_def f_def fl_at_def)
    have "hits_in c mem ?vs"
      using s by (intro hits_in_mono[OF ch]) (use slot fr in \<open>auto simp: pk_single_inv_def\<close>)
    moreover have "fl_fresh h" if h: "h \<in> set (remove_nth n (pw_fills w))" "visibility (fl_at c mem h) \<noteq> 0" for h
    proof -
      have "unat (fl_slot h) < 8" using fs(1) mem[OF h(1)] by (simp add: list_all_iff fill_ok_def)
      then show ?thesis using s h(2) mem[OF h(1)] fresh_changed[OF ch] by (simp add: pk_single_inv_def)
    qed
    ultimately show ?thesis using s keys_once_changed[OF ch] unfolding f_def by (simp add: pk_single_inv_def finish_fill_def Let_def split: if_splits)
  qed
qed

lemma write_step:
  assumes inv: "pk_inv c w" and n: "n < length (pw_fills w)"
  shows "\<exists>w'. pk_run c (Pk_write n) w = Inr w' \<and> pk_inv c w' \<and> (pk_single_inv c w \<longrightarrow> pk_single_inv c w')"
proof (cases "fl_writes (pw_fills w ! n)")
  case None
  then show ?thesis using inv by (simp add: Let_def)
next
  case (Some wws)
  let ?f = "pw_fills w ! n" and ?m = "pw_mem w"
  let ?b = "bucket_id c (fl_key ?f)" and ?i = "unat (fl_slot ?f)"
  have fok: "fill_ok c ?m ?f" using inv n by (simp add: pk_inv_def list_all_length)
  have tab: "in_table ?b ?i" using fok packed_bucket_less by (simp add: fill_ok_def)
  obtain wr ws where W: "fl_writes ?f = Some (wr # ws)" using fok Some by (cases wws) (auto simp: fill_ok_def)
  obtain now pre where P: "pre @ wr # ws = set_writes c now ?f" "pre \<noteq> [] \<Longrightarrow> ps_value (fl_at c ?m ?f) = fl_value ?f"
    and len: "length (fl_value ?f) = PACKED_VALUE_LEN" using fok W by (auto simp: fill_ok_def)
  let ?w1 = "w\<lparr>pw_mem := rdma_apply wr ?m, pw_fills := (pw_fills w)[n := ?f\<lparr>fl_writes := Some ws\<rparr>]\<rparr>"
  have run: "pk_run c (Pk_write n) w = Inr (if ws = [] then finish_fill n (w\<lparr>pw_mem := rdma_apply wr ?m\<rparr>) else ?w1)"
    using W by (simp add: Let_def)
  consider (val) "ws \<noteq> []" "wr = (field_addr c ?b ?i PACKED_SLOT_VALUE_OFF, fl_value ?f)"
    | (ts) "ws \<noteq> []" "pre \<noteq> []" "wr = (field_addr c ?b ?i PACKED_SLOT_ACC_TS_OFF, store_u64 now)"
    | (last) "ws = []" "pre \<noteq> []" "wr = (field_addr c ?b ?i PACKED_SLOT_INTEGRITY_OFF, [1])"
    using set_writes_split[OF P(1)] by blast
  then show ?thesis
  proof cases
    case val
    have "slot_changed c ?b ?i (ps_value_update (\<lambda>_. fl_value ?f)) ?m (rdma_apply wr ?m)" unfolding val(2) by (rule write_changes(1)[OF tab len])
    note m = write_mid[OF inv n W val(1) this]
    show ?thesis using run val(1) m by simp
  next
    case ts
    have "slot_changed c ?b ?i (acc_ts_update (\<lambda>_. now)) ?m (rdma_apply wr ?m)" unfolding ts(3) by (rule write_changes(2)[OF tab])
    note m = write_mid[OF inv n W ts(1) this]
    show ?thesis using run ts(1) m P(2)[OF ts(2)] by simp
  next
    case last
    have "slot_changed c ?b ?i (integrity_update (\<lambda>_. 1)) ?m (rdma_apply wr ?m)" unfolding last(3) by (rule write_changes(3)[OF tab])
    note m = write_last[OF inv n this P(2)[OF last(2)]]
    show ?thesis using run last(1) m by simp
  qed
qed

lemma pk_step:
  assumes "pk_inv c w" and "pk_ok st w"
  shows "\<exists>w'. pk_run c st w = Inr w' \<and> pk_inv c w' \<and> (pk_single_inv c w \<and> pk_single c st w \<longrightarrow> pk_single_inv c w')"
proof (cases st)
  case (Pk_put key)
  then show ?thesis using put_step[OF assms(1)] assms(2) by (simp del: pk_run.simps pk_single.simps)
next
  case (Pk_invalidate key)
  then show ?thesis using invalidate_step[OF assms(1)] assms(2) by (simp del: pk_run.simps)
next
  case (Pk_set n val now)
  then show ?thesis using set_step[OF assms(1)] assms(2) by (simp del: pk_run.simps pk_ok.simps)
next
  case (Pk_write n)
  then show ?thesis using write_step[OF assms(1)] assms(2) by (simp del: pk_run.simps)
next
  case (Pk_get key now)
  then show ?thesis using get_step[OF assms(1)] assms(2) by (simp del: pk_run.simps)
next
  case (Pk_touched n)
  then show ?thesis using touched_step[OF assms(1)] assms(2) by (simp del: pk_run.simps pk_ok.simps)
qed


lemma pk_steps_inv:
  assumes "pk_steps c w single w'" and "pk_inv c w" and "pk_single_inv c w"
  shows "pk_inv c w' \<and> (single \<longrightarrow> pk_single_inv c w')"
  using assms
proof (induction rule: pk_steps.induct)
  case (pk_start w)
  then show ?case by simp
next
  case (pk_more w single w1 st w2)
  then show ?case using pk_step[of c w1 st] by auto
qed

lemma fresh_packed_world_inv:
  assumes "packed_server_init c = Inr mem"
  shows "pk_inv c (fresh_packed_world mem)" and "pk_single_inv c (fresh_packed_world mem)"
proof -
  have v: "visibility (slot_at c mem b i) = 0" if "in_table b i" for b i using packed_server_init_fresh[OF assms that] by simp
  have "hits_in c mem vs" for vs unfolding hits_in_def using v by blast
  moreover have "keys_once c mem" by (rule keys_onceI) (use v in blast)
  ultimately show "pk_inv c (fresh_packed_world mem)" "pk_single_inv c (fresh_packed_world mem)"
    by (simp_all add: pk_inv_def pk_single_inv_def fresh_packed_world_def)
qed

section \<open>Reading what was filled in\<close>

lemma hits_inD:
  assumes "hits_in c mem vs" and "j < 8" and "complete_slot (slot_at c mem (bucket_id c key) j)" and "ps_key (slot_at c mem (bucket_id c key) j) = key"
  shows "ps_value (slot_at c mem (bucket_id c key) j) \<in> vs key"
  using assms(1)[unfolded hits_in_def, rule_format, of "bucket_id c key" j] assms(2-4) packed_bucket_less[of c key] by simp

lemma packed_get_scan_found:
  assumes "i < length ss" and "complete_slot (ss ! i)" and "ps_key (ss ! i) = key" and "length key = PACKED_KEY_LEN"
    and "\<forall>s \<in> set ss. length (ps_key s) = PACKED_KEY_LEN" and "\<And>j. j < i \<Longrightarrow> visibility (ss ! j) = 0 \<or> ps_key (ss ! j) \<noteq> key"
  shows "packed_get_scan key ss k = Inr (Get_hit (k + i) (ps_value (ss ! i)))"
  using assms
proof (induction ss arbitrary: i k)
  case Nil
  then show ?case by simp
next
  case (Cons s ss)
  show ?case
  proof (cases i)
    case 0
    then show ?thesis using Cons.prems by auto
  next
    case (Suc i')
    have "packed_get_scan key ss (k + 1) = Inr (Get_hit (k + 1 + i') (ps_value (ss ! i')))"
      using Cons.prems(1-5) Cons.prems(6)[of "Suc _"] Suc by (intro Cons.IH) auto
    moreover have "visibility s = 0 \<or> ps_key s \<noteq> key" using Cons.prems(6)[of 0] Suc by simp
    ultimately show ?thesis using Cons.prems(4,5) Suc by auto
  qed
qed

lemma packed_kv_get_found:
  assumes "i < 8" and "complete_slot (slot_at c mem (bucket_id c key) i)" and "ps_key (slot_at c mem (bucket_id c key) i) = key"
    and "length key = PACKED_KEY_LEN" and "\<And>j. j < i \<Longrightarrow> visibility (slot_at c mem (bucket_id c key) j) = 0 \<or> ps_key (slot_at c mem (bucket_id c key) j) \<noteq> key"
  shows "\<exists>ws. packed_kv_get c now key mem = Inr (Get_hit i (ps_value (slot_at c mem (bucket_id c key) i)), ws)"
proof -
  let ?ss = "map (slot_at c mem (bucket_id c key)) [0..<8]"
  have "packed_get_scan key ?ss 0 = Inr (Get_hit (0 + i) (ps_value (?ss ! i)))"
    using assms by (intro packed_get_scan_found) auto
  then show ?thesis using assms(1) unfolding packed_kv_get_def bucket_addr_of_eq rbind_Inr bucket_slots_eq by simp
qed

text \<open>The writes of \<open>kv_set\<close> one after the other.\<close>

lemma set_writes_apply:
  assumes "in_table (bucket_id c (fl_key f)) (unat (fl_slot f))" and "length (fl_value f) = PACKED_VALUE_LEN"
  shows "\<exists>t. slot_changed c (bucket_id c (fl_key f)) (unat (fl_slot f)) (\<lambda>s. s\<lparr>ps_value := fl_value f, acc_ts := t s, integrity := 1\<rparr>)
    mem (fold rdma_apply (set_writes c now f) mem)"
proof -
  note ch = write_changes[OF assms(1)]
  note u = ch(1)[OF assms(2), unfolded slot_changed_def] ch(2)[unfolded slot_changed_def] ch(3)[unfolded slot_changed_def]
  show ?thesis
  proof (cases "evict_non c")
    case True
    then show ?thesis using u by (intro exI[of _ acc_ts]) (simp add: set_writes_def Let_def slot_changed_def)
  next
    case False
    then show ?thesis using u by (intro exI[of _ "\<lambda>_. now"]) (simp add: set_writes_def Let_def slot_changed_def)
  qed
qed

lemma put_key_scan_free:
  assumes "\<forall>s \<in> set pre. \<not> key_match key s \<and> \<not> free_slot s" and "free_slot s"
  shows "put_key_scan key (pre @ s # ss) n v = Put_free (n + length pre)"
  using assms(1)
proof (induction pre arbitrary: n v)
  case Nil
  then show ?case using assms(2) by (simp add: key_match_def)
next
  case (Cons p pre)
  then show ?case by (cases "visibility p = 0") (simp_all add: Let_def)
qed

lemma find_key_first: "\<forall>s \<in> set pre. \<not> key_match key s \<Longrightarrow> key_match key s \<Longrightarrow> find_key key (pre @ s # ss) n = Some (n + length pre)"
  by (induction pre arbitrary: n) auto

lemma upt_split: "i < 8 \<Longrightarrow> [0..<8] = [0..<i] @ i # [Suc i..<8 :: nat]"
  using upt_add_eq_append[of 0 i "8 - i"] upt_conv_Cons[of i 8] by simp

text \<open>A slot that was taken and then written is found.\<close>

lemma filled_slot_found:
  fixes f :: fill and c :: packed_conf
  defines "b \<equiv> bucket_id c (fl_key f)" and "i \<equiv> unat (fl_slot f)"
  assumes "length (fl_key f) = PACKED_KEY_LEN" and "length (fl_value f) = PACKED_VALUE_LEN" and "i < 8"
    and ch: "slot_changed c b i (taken_slot (fl_key f)) mem mem1" and "\<forall>j < 8. \<not> key_match (fl_key f) (slot_at c mem b j)"
  shows "\<exists>ts. packed_kv_get c later (fl_key f) (fold rdma_apply (set_writes c now f) mem1) = Inr (Get_hit i (fl_value f), ts)"
proof -
  let ?m = "fold rdma_apply (set_writes c now f) mem1"
  have t: "in_table b i" using assms(5) packed_bucket_less by (simp add: b_def)
  obtain t where ch2: "slot_changed c b i (\<lambda>s. s\<lparr>ps_value := fl_value f, acc_ts := t s, integrity := 1\<rparr>) mem1 ?m"
    using set_writes_apply[of c f mem1 now] t assms(4) by (auto simp: b_def i_def)
  have s: "slot_at c ?m b i = (taken_slot (fl_key f) (slot_at c mem b i))\<lparr>ps_value := fl_value f, acc_ts := t (slot_at c mem1 b i), integrity := 1\<rparr>"
    using slot_changedD(2)[OF ch2] slot_changedD(2)[OF ch] by simp
  have o: "slot_at c ?m b j = slot_at c mem b j" if "j < i" for j
    using slot_changedD(3)[OF ch2, of b j] slot_changedD(3)[OF ch, of b j] that t by simp
  have "\<exists>ts. packed_kv_get c later (fl_key f) ?m = Inr (Get_hit i (ps_value (slot_at c ?m b i)), ts)"
    unfolding b_def using assms(3,5,7) o s by (intro packed_kv_get_found) (auto simp: taken_slot_def key_match_iff b_def)
  then show ?thesis by (simp add: s)
qed

text \<open>A concrete server and key.\<close>

definition demo_packed :: packed_conf where
  "demo_packed = \<lparr>base_addr = 0x10000000, base_len = 0x10000000, pc_hash = HASH_DUMB, evict_non = False\<rparr>"

definition demo_packed_key :: "u8 list" where "demo_packed_key = replicate 16 7"

lemma demo_packed_simps [simp]:
  "length demo_packed_key = PACKED_KEY_LEN" "bucket_id demo_packed k = 233" "\<exists>mem. packed_server_init demo_packed = Inr mem"
  by (simp_all add: demo_packed_key_def PACKED_KEY_LEN_def bucket_id_def demo_packed_def hash_func1_def PACKED_HASH_NUM_BUCKETS_def
      packed_server_init_def sizeof_PackedBucket_def)

lemma fresh_no_match:
  assumes "packed_server_init c = Inr mem" and "j < 8"
  shows "\<not> key_match key (slot_at c mem (bucket_id c key) j)"
  using packed_server_init_fresh[OF assms(1), of "bucket_id c key" j] assms(2) packed_bucket_less by (simp add: key_match_def)

lemma fresh_put:
  assumes "packed_server_init c = Inr mem" and "length key = PACKED_KEY_LEN"
  shows "\<exists>mem1. packed_put_key c key mem = Inr (0, mem1) \<and> slot_changed c (bucket_id c key) 0 (taken_slot key) mem mem1"
proof -
  let ?s = "slot_at c mem (bucket_id c key)"
  have f: "free_slot (?s 0)" using packed_server_init_fresh[OF assms(1), of "bucket_id c key" 0] packed_bucket_less by simp
  have "put_key_scan key (map ?s [0..<8]) 0 None = Put_free (0 + length ([] :: packed_slot list))"
    unfolding upt_split[of 0, simplified] using put_key_scan_free[of "[]" key "?s 0", OF _ f] by simp
  then have "packed_put_key c key mem = rbind (take_slot (base_addr c + of_nat (slot_off (bucket_id c key) 0)) key mem) (\<lambda>mem. Inr (0, mem))"
    unfolding packed_put_key_def bucket_addr_of_eq rbind_Inr bucket_slots_eq slot_addr_eq by simp
  then show ?thesis
    using take_slot_at[of "bucket_id c key" 0 key c mem] assms(2) packed_bucket_less[of c key] by (auto simp: slot_changed_def taken_slot_def)
qed

section \<open>Properties\<close>

text \<open>
  C7. The packed cache: in every run of the server and its clients, with remote writes
  reaching the table in any interleaving, a hit returns a value that was filled in for this
  very key, and no step that keeps to the rules aborts. As long as no key has been given a
  second slot, the value was reserved and filled in after the last invalidation of the key.
\<close>

theorem packed_cache_hits:
  assumes "packed_server_init c = Inr mem" and "pk_steps c (fresh_packed_world mem) single w"
  shows "(\<forall>key now j v ws. length key = PACKED_KEY_LEN \<and> packed_kv_get c now key (pw_mem w) = Inr (Get_hit j v, ws)
      \<longrightarrow> v \<in> pw_filled w key \<and> (single \<longrightarrow> v \<in> pw_valid w key)) \<and>
    (\<forall>st. pk_ok st w \<longrightarrow> (\<exists>w'. pk_run c st w = Inr w'))"
proof -
  note r = pk_steps_inv[OF assms(2) fresh_packed_world_inv[OF assms(1)]]
  have "v \<in> pw_filled w key \<and> (single \<longrightarrow> v \<in> pw_valid w key)"
    if "length key = PACKED_KEY_LEN" "packed_kv_get c now key (pw_mem w) = Inr (Get_hit j v, ws)" for key now j v ws
    using packed_kv_get_hit[OF that(2,1)] r hits_inD[of c "pw_mem w" _ j key] by (auto simp: pk_inv_def pk_single_inv_def)
  moreover have "\<exists>w'. pk_run c st w = Inr w'" if "pk_ok st w" for st using pk_step[OF _ that] r by blast
  ultimately show ?thesis by blast
qed

theorem packed_cache_hits_witness:
  "\<exists>mem w ts. packed_server_init demo_packed = Inr mem \<and> pk_steps demo_packed (fresh_packed_world mem) True w \<and>
     packed_kv_get demo_packed 9 demo_packed_key (pw_mem w) = Inr (Get_hit 0 (pad_value [1]), ts) \<and> pad_value [1] \<in> pw_valid w demo_packed_key"
proof -
  obtain mem where m: "packed_server_init demo_packed = Inr mem" using demo_packed_simps(3) by blast
  obtain mem1 where p: "packed_put_key demo_packed demo_packed_key mem = Inr (0, mem1)"
    and ch: "slot_changed demo_packed (bucket_id demo_packed demo_packed_key) 0 (taken_slot demo_packed_key) mem mem1"
    using fresh_put[OF m demo_packed_simps(1)] by blast
  note n = fresh_no_match[OF m, of _ demo_packed_key]
  let ?f = "\<lparr>fl_key = demo_packed_key, fl_slot = 0, fl_value = [], fl_writes = None, fl_fresh = True\<rparr>"
  let ?g = "?f\<lparr>fl_value := pad_value [1]\<rparr>"
  let ?w0 = "fresh_packed_world mem" and ?ws = "set_writes demo_packed 5 ?g"
  let ?w1 = "?w0\<lparr>pw_mem := mem1, pw_fills := [?f]\<rparr>"
  let ?w2 = "?w1\<lparr>pw_fills := [?g\<lparr>fl_writes := Some ?ws\<rparr>]\<rparr>"
  have l: "length [1 :: u8] \<le> PACKED_VALUE_LEN" by (simp add: PACKED_VALUE_LEN_def)
  have s1: "pk_steps demo_packed ?w0 True ?w1"
    using pk_more[OF pk_start, of "Pk_put demo_packed_key" ?w0 demo_packed ?w1] p n by (simp add: fresh_packed_world_def list_ex_iff)
  have s2: "pk_steps demo_packed ?w0 True ?w2"
    using pk_more[OF s1, of "Pk_set 0 [1] 5" ?w2] l kv_set_writes[OF l, of demo_packed 5 ?f] by simp
  obtain a b d where ws: "?ws = [a, b, d]" by (simp add: set_writes_def Let_def demo_packed_def)
  let ?w3 = "?w1\<lparr>pw_mem := rdma_apply a mem1, pw_fills := [?g\<lparr>fl_writes := Some [b, d]\<rparr>]\<rparr>"
  let ?w4 = "?w1\<lparr>pw_mem := rdma_apply b (rdma_apply a mem1), pw_fills := [?g\<lparr>fl_writes := Some [d]\<rparr>]\<rparr>"
  let ?w5 = "finish_fill 0 (?w4\<lparr>pw_mem := fold rdma_apply ?ws mem1\<rparr>)"
  have s3: "pk_steps demo_packed ?w0 True ?w3" using pk_more[OF s2, of "Pk_write 0" ?w3] unfolding ws by simp
  have s4: "pk_steps demo_packed ?w0 True ?w4" using pk_more[OF s3, of "Pk_write 0" ?w4] by simp
  have s5: "pk_steps demo_packed ?w0 True ?w5" using pk_more[OF s4, of "Pk_write 0" ?w5] unfolding ws by simp
  have "\<exists>ts. packed_kv_get demo_packed 9 (fl_key ?g) (fold rdma_apply ?ws mem1) = Inr (Get_hit (unat (fl_slot ?g)) (fl_value ?g), ts)"
    by (rule filled_slot_found[where mem = mem]) (use n ch in \<open>simp_all add: pad_value_def PACKED_VALUE_LEN_def\<close>)
  then obtain ts where g: "packed_kv_get demo_packed 9 demo_packed_key (pw_mem ?w5) = Inr (Get_hit 0 (pad_value [1]), ts)"
    by (auto simp: finish_fill_def Let_def)
  then have "pad_value [1] \<in> pw_valid ?w5 demo_packed_key" using packed_cache_hits[OF m s5] demo_packed_simps(1) by blast
  then show ?thesis using m s5 g by blast
qed

text \<open>
  C19. A value that was filled in is found: after the server has reserved a slot for a key that
  has none and the writes of \<open>kv_set\<close> have arrived, \<open>kv_get\<close> returns the value, filled up with
  zeros, from this slot.
\<close>

theorem packed_fill_then_get:
  assumes "length key = PACKED_KEY_LEN" and "length val \<le> PACKED_VALUE_LEN" and "\<forall>j < 8. \<not> key_match key (slot_at c mem (bucket_id c key) j)"
    and "packed_put_key c key mem = Inr (r, mem1)" and "0 \<le> r" and "packed_kv_set c now key val (word_of_int r) = Inr ws"
  shows "\<exists>ts. packed_kv_get c later key (fold rdma_apply ws mem1) = Inr (Get_hit (nat r) (pad_value val), ts)"
proof -
  obtain i where i: "i < 8" "r = int i" "slot_changed c (bucket_id c key) i (taken_slot key) mem mem1" using put_changes[OF assms(4,1)] assms(5) by auto
  let ?f = "\<lparr>fl_key = key, fl_slot = word_of_int r, fl_value = pad_value val, fl_writes = None, fl_fresh = True\<rparr>"
  have ws: "ws = set_writes c now ?f" using assms(6) kv_set_writes[OF assms(2), of c now ?f] by simp
  have u: "unat (fl_slot ?f) = i" and b: "bucket_id c (fl_key ?f) = bucket_id c key" using i by (simp_all add: unat_of_nat)
  have "\<exists>ts. packed_kv_get c later (fl_key ?f) (fold rdma_apply (set_writes c now ?f) mem1) = Inr (Get_hit (unat (fl_slot ?f)) (fl_value ?f), ts)"
    by (rule filled_slot_found[where mem = mem]) (use assms(1-3) i u b in \<open>simp_all add: pad_value_def\<close>)
  then show ?thesis using i(1,2) u ws by (simp add: unat_of_nat)
qed

theorem packed_fill_then_get_witness:
  "\<exists>mem mem1 ws ts. packed_server_init demo_packed = Inr mem \<and> packed_put_key demo_packed demo_packed_key mem = Inr (0, mem1) \<and>
     packed_kv_set demo_packed 5 demo_packed_key [1, 2, 3] 0 = Inr ws \<and>
     packed_kv_get demo_packed 9 demo_packed_key (fold rdma_apply ws mem1) = Inr (Get_hit 0 ([1, 2, 3] @ replicate 61 0), ts)"
proof -
  obtain mem where m: "packed_server_init demo_packed = Inr mem" using demo_packed_simps(3) by blast
  obtain mem1 where p: "packed_put_key demo_packed demo_packed_key mem = Inr (0, mem1)" using fresh_put[OF m demo_packed_simps(1)] by blast
  have l: "length [1, 2, 3 :: u8] \<le> PACKED_VALUE_LEN" by (simp add: PACKED_VALUE_LEN_def)
  obtain ws where w: "packed_kv_set demo_packed 5 demo_packed_key [1, 2, 3] (word_of_int 0) = Inr ws"
    unfolding packed_kv_set_def bucket_addr_of_eq by (simp add: PACKED_VALUE_LEN_def Let_def)
  have n: "\<forall>j < 8. \<not> key_match demo_packed_key (slot_at demo_packed mem (bucket_id demo_packed demo_packed_key) j)" using fresh_no_match[OF m] by blast
  have "pad_value [1, 2, 3] = [1, 2, 3] @ replicate 61 0" by (simp add: pad_value_def PACKED_VALUE_LEN_def)
  then show ?thesis using packed_fill_then_get[OF demo_packed_simps(1) l n p order.refl w, of 9] m p w by auto
qed

text \<open>
  C20. A key with two slots: when a slot before the one of a key is free, \<open>put_key\<close> does not see
  that the key is there and reserves the free slot as well; the next invalidation of the key
  hides only this slot, and \<open>kv_get\<close> goes on returning the old value.
\<close>

theorem packed_duplicate_survives:
  assumes "length key = PACKED_KEY_LEN" and "i < j" and "j < 8"
    and "\<forall>l < j. \<not> key_match key (slot_at c mem (bucket_id c key) l)" and "\<forall>l < i. \<not> free_slot (slot_at c mem (bucket_id c key) l)"
    and "free_slot (slot_at c mem (bucket_id c key) i)"
    and "complete_slot (slot_at c mem (bucket_id c key) j)" and "ps_key (slot_at c mem (bucket_id c key) j) = key"
  shows "\<exists>mem1 mem2 ts. packed_put_key c key mem = Inr (int i, mem1) \<and> packed_invalidate_key c key mem1 = Inr (int i, mem2) \<and>
    packed_kv_get c now key mem2 = Inr (Get_hit j (ps_value (slot_at c mem (bucket_id c key) j)), ts)"
proof -
  let ?b = "bucket_id c key" and ?s = "slot_at c mem (bucket_id c key)"
  have b: "?b < 280576" and i: "i < 8" using packed_bucket_less assms(2,3) by auto
  have "put_key_scan key (map ?s [0..<8]) 0 None = Put_free (0 + length (map ?s [0..<i]))"
    unfolding upt_split[OF i] map_append list.map using assms(2,4-6) by (intro put_key_scan_free) auto
  then have "packed_put_key c key mem = rbind (take_slot (base_addr c + of_nat (slot_off ?b i)) key mem) (\<lambda>mem. Inr (int i, mem))"
    unfolding packed_put_key_def bucket_addr_of_eq rbind_Inr bucket_slots_eq slot_addr_eq by simp
  then obtain mem1 where p: "packed_put_key c key mem = Inr (int i, mem1)"
    and s1: "\<And>l. l < 8 \<Longrightarrow> slot_at c mem1 ?b l = (if l = i then taken_slot key (?s i) else ?s l)"
    using take_slot_at[of ?b i key c mem] b i assms(1) by (auto simp: taken_slot_def)
  have "find_key key (map (slot_at c mem1 ?b) [0..<8]) 0 = Some (0 + length (map (slot_at c mem1 ?b) [0..<i]))"
    unfolding upt_split[OF i] map_append list.map using assms(1,2,4) i s1 by (intro find_key_first) (auto simp: key_match_iff taken_slot_def)
  then have v: "packed_invalidate_key c key mem1 = Inr (int i, poke (field_addr c ?b i PACKED_SLOT_VISIBILITY_OFF) [0] mem1)"
    unfolding packed_invalidate_key_def bucket_addr_of_eq rbind_Inr bucket_slots_eq slot_addr_eq by (simp add: field_addr_def)
  let ?mem2 = "poke (field_addr c ?b i PACKED_SLOT_VISIBILITY_OFF) [0] mem1"
  have s2: "slot_at c ?mem2 ?b l = (if l = i then (taken_slot key (?s i))\<lparr>visibility := 0\<rparr> else ?s l)" if "l < 8" for l
    using field_stores(1)[of ?b i ?b l c 0 mem1] b i that s1 by simp
  have "\<exists>ts. packed_kv_get c now key ?mem2 = Inr (Get_hit j (ps_value (slot_at c ?mem2 ?b j)), ts)"
    using assms i by (intro packed_kv_get_found) (auto simp: s2 key_match_iff)
  then show ?thesis using p v s2[OF assms(3)] assms(2) by auto
qed


theorem packed_duplicate_survives_witness:
  "\<exists>mem mem1 mem2 ts. packed_put_key demo_packed demo_packed_key mem = Inr (0, mem1) \<and>
     packed_invalidate_key demo_packed demo_packed_key mem1 = Inr (0, mem2) \<and>
     packed_kv_get demo_packed 9 demo_packed_key mem2 = Inr (Get_hit 1 (replicate 64 3), ts)"
proof -
  let ?a = "field_addr demo_packed 233"
  let ?m0 = "poke (?a 1 PACKED_SLOT_INTEGRITY_OFF) [1] (poke (?a 1 PACKED_SLOT_VISIBILITY_OFF) [1] (poke (?a 1 PACKED_SLOT_VALUE_OFF) (replicate 64 3)
    (poke (?a 1 PACKED_SLOT_KEY_OFF) demo_packed_key (poke (?a 0 PACKED_SLOT_INTEGRITY_OFF) [1] (poke (?a 0 PACKED_SLOT_VISIBILITY_OFF) [0] (\<lambda>_. 0))))))"
  have v: "length (replicate 64 (3 :: u8)) = PACKED_VALUE_LEN" by (simp add: PACKED_VALUE_LEN_def)
  note st = field_stores(1,2,5) field_stores(3)[OF _ _ demo_packed_simps(1)] field_stores(4)[OF _ _ v]
  have s0: "free_slot (slot_at demo_packed ?m0 233 0)" by (simp add: st)
  have s1: "complete_slot (slot_at demo_packed ?m0 233 1)" "ps_key (slot_at demo_packed ?m0 233 1) = demo_packed_key"
    "ps_value (slot_at demo_packed ?m0 233 1) = replicate 64 3" by (simp_all add: st)
  show ?thesis
    using packed_duplicate_survives[of demo_packed_key 0 1 demo_packed ?m0 9] s0 s1 by (auto simp: key_match_def)
qed

end
