(* ===== verification/Spec2Isabelle.thy ===== *)
theory Spec2Isabelle
  imports Kv_Ds_Queue Circular_Log_World Kv_Copy Kv_Ring_Update Kv_Memory Kv_Storage Kv_App Kv_Rdma Kv_Server Segment_Map Kv_Bucket_Lock
    Admission Ring_Order Write_Path City Copy_Ranges Value_Log_Read Ring_Keys
    Store_Run Client_Phases Benchmark_Phases Server_Options Bucket_World Packed_Cache
begin

text \<open>
  LEED/Scalio, the replicated key-value store under \<open>src/spdk/app/leed\<close>.

  \<^bold>\<open>The program.\<close> A server node runs one worker thread per group of SSDs and a few ring
  threads. A client computes from the first eight bytes of a key the ring and on it the
  owner, a virtual node; the owner and the next running virtual nodes clockwise are the
  chain of the key. A write enters at the head of the chain and every replica passes it on;
  a read is served by any replica, unless the key is dirty there, that is, a write of it has
  not come back from the tail, in which case the read goes on to the tail. On a node the
  ring hands an accepted request to the worker of its data store (\<open>kv_server.c\<close>). A data
  store (\<open>kv_data_store.c\<close>) admits requests by cost, finds the bucket of the key, locks it
  (\<open>kv_bucket.cpp\<close>), reads its chain of buckets from the bucket log (\<open>kv_bucket_log.c\<close>),
  writes values to the value log (\<open>kv_value_log.c\<close>), writes the changed chain back and, when
  the rest of the replication chain has answered, commits the place of the chain to the meta
  table or drops it. Both logs are circular logs of device blocks with a prefetch window
  (\<open>kv_circular_log.c\<close>) on a storage device (\<open>kv_storage.c\<close>) and compact themselves: live
  chains and live values at the head are appended again and the head moves on. When a
  virtual node joins or leaves, the tail copies the key ranges concerned to the new replica
  while writes go on. The rings follow the keys of a coordination service; nodes talk over
  RDMA (\<open>kv_rdma.c\<close>) with messages of \<open>kv_msg.h\<close>; threads exchange tasks (\<open>kv_app.c\<close>). Clients
  keep values in a packed cache in the memory of a server, which they read and write with
  remote accesses; the server reserves its slots and invalidates them at a write
  (\<open>PackedServer\<close> and \<open>PackedClient\<close> of \<open>ditto/src\<close>).

  \<^bold>\<open>Conventions.\<close> A C structure is a record with the same fields, an unsigned integer a word
  of its width, so that sums wrap as in C; a pointer that only names an object is a natural
  number or a position in a list, and a table of objects is a map. An operation takes the
  state and returns the new one together with the list of things it makes happen outside
  (device requests, messages, callbacks): these lists are the event datatypes of the
  theories, and a callback is a constructor that says which continuation runs, so that the
  continuation is an operation of its own that is run when the event is answered. The build
  with assertions is modelled: a failed assertion, a call of \<open>exit\<close>, the dereference of a null
  pointer, an access outside an array and a read of an uninitialised variable are the values
  of the type \<open>err\<close> of Leed_Prelude, and every operation that can meet one returns \<open>res\<close>. The
  client compiles only without assertions and is modelled so.

  \<^bold>\<open>Theories and sources.\<close>
  \<^item> Leed_Prelude: machine integers, little-endian loads and stores, results, positions on a
    circle, and the collections of rewrite rules \<open>res_simps\<close> and \<open>circ_simps\<close>.
  \<^item> Kv_Ds_Queue (\<open>kv_ds_queue.c\<close>): costs of operations and the counters of the stores. A
    request goes to the first idle store, uncharged; without one it is charged to the store
    with most room, and refused only if none has room.
    Admission: the queue of a data store over the life of its requests (\<open>enqueue\<close>, \<open>dequeue\<close>
    of \<open>kv_data_store.c\<close>): the counter is the cost of the running requests, the capacity is
    kept, and requests are started in their order as soon as there is room.
  \<^item> Kv_Circular_Log (\<open>kv_circular_log.c\<close>), with Circular_Log_Append for the vectored I/O,
    Circular_Log_Fetch for the prefetcher and Circular_Log_World for the log with its device
    and the reads in flight as a state machine. Every run is a run of a bounded list of
    blocks (locale \<open>block_log\<close>); assertions fail only for callers that break the contract of
    the log, and no loop runs on; offsets keep their block until it is trimmed; the window answers with the log's blocks.
  \<^item> Kv_Bucket (\<open>kv_bucket_log.h\<close> and the meta table and key sets of \<open>kv_bucket.cpp\<close>),
    Kv_Bucket_Log (\<open>kv_bucket_log.c\<close>) and Kv_Bucket_Lock (the lock of \<open>kv_bucket.cpp\<close>): the
    meta table is a map with exact counts (locale \<open>meta_table\<close>), a key set counts pending operations, no bucket is
    locked twice at a time and no waiting request is forgotten, also when a request unlocks
    its segments in parts.
  \<^item> Compaction_Scan, Bucket_Compaction and Bucket_World: the bucket log with its compaction. The
    log is a sequence of whole chains, the scan of \<open>compact\<close> collects the live ones of its
    stretch, \<open>compact_write_cb\<close> commits the copies that are still current, and
    \<open>compact_move_head\<close> trims dead chains only. Puts, commits, completions and prefetches are
    steps of a machine with the device; every run of it is a run of a map from buckets to
    chains that compactions leave as it is, and the completion of the last compaction moves
    the head of the log to the compaction head. The callers leave room for a cascade of
    compactions (\<open>bw_room\<close>), the window holds the stretch and no write in flight lies in it
    (\<open>bw_ready\<close>); writes take effect in the order of their submission and do not fail.
  \<^item> Kv_Value_Log (\<open>kv_value_log.c\<close>) and Value_Log_Read: values as bytes, the log of bucket
    ids, the compaction; a read delivers the bytes of the log, a written value is read back.
  \<^item> Kv_Data_Store (\<open>kv_data_store.c\<close>): set, buffered set, get, delete and their continuations.
    Segment_Map: a chain of buckets implements a map from keys to values with as many
    places as the chain can have (locale \<open>op_refinement\<close>): no operation aborts, a set is refused
    exactly when there is no place left, a delete exactly when the key is absent; this
    includes the creation and release of buckets and \<open>fill_the_hole\<close>.
  \<^item> Bucket_Log_Store, Store_Map and Store_Run: the handlers of set, get and delete composed with
    the lock granted, the value log, the bucket log, the meta table and their device. Chains
    and values on the device are abstracted to a map, every operation keeps the rest of the map,
    and the whole store is an instance of \<open>op_refinement\<close>: a run of sets and deletes whose
    preconditions hold never aborts, answers as a map does, and a get returns what was set. No compaction is due in these runs: that one keeps the
    chains is shown for the bucket log by itself, in Bucket_World.
  \<^item> Kv_Copy (the copy of \<open>kv_data_store.c\<close>) and Copy_Ranges: the buckets of a range are
    locked once each in order, and a write is forwarded exactly if its bucket was locked.
  \<^item> Kv_Msg (\<open>kv_msg.h\<close>): key and value are read back from the message.
  \<^item> City (\<open>utils/city.c\<close>): CityHash with every read checked against its input.
  \<^item> Kv_Ring and Kv_Ring_Update (\<open>kv_ring.c\<close>): lookup, chains, dispatch, forwarding and the
    handling of requests; registration, ring changes, nodes and connections. Ring_Order: in
    every reachable state the rings are in order and the search returns the successor of a
    key (locale \<open>hash_ring\<close>); a virtual node that comes or goes moves only keys of its own
    range. Ring_Keys: the keys a node prints are parsed back by the others. Ring_Chain: the
    chain of a key is the specified one, with its copy target.
  \<^item> Kv_Memory (\<open>kv_memory.c\<close>), Kv_Storage (\<open>kv_storage.c\<close>), Kv_App (\<open>kv_app.c\<close>) and Kv_Rdma
    (\<open>kv_rdma.c\<close>): pools hand out every element to one holder; what becomes of a device
    request in each case; the application stops once (the queues of its threads are a library
    and a parameter); every receive slot is in one state, the receives posted at the start
    overlap, and a response finds the context of its request.
  \<^item> Kv_Server (\<open>app/ring_server/kv_server.c\<close>): requests on the workers, forwarding, answers,
    batches of buffered sets, range copies, start and stop. Server_Consistency: the dirty
    marks are the writes under way, a read is served locally only if there is none of its
    key; failed operations are neither forwarded nor committed, with the exception of
    batches, which are acknowledged although they failed. Write_Path: the way of a request
    over the code of the ring and of the server at each node. A set or delete is carried out
    at every replica of its chain in order and then at the target of a copy if its bucket has
    been copied; a batch of buffered sets stays on the replica that got it.

  \<^item> Packed_Hash, Packed_Table and Packed_Cache (\<open>ditto/src/dmc_table.cc\<close>, \<open>packed_data_struct.h\<close>,
    \<open>put_key\<close> and \<open>invalidate_key\<close> of \<open>server.cc\<close>, \<open>kv_get\<close> and \<open>kv_set\<close> of \<open>PackedClient\<close> in
    \<open>client.cc\<close>, the calls of \<open>utils/ditto_wrapper.cpp\<close>): the table is bytes of memory, a remote
    write an address with bytes; the bytes are a table of slots and every store changes one
    field of one slot. Server and clients form a machine in which the writes of a fill
    arrive one at a time: a hit returns a value filled in for its key, and not an older one
    than the last invalidation, unless a key has been given two slots, which the code does
    not exclude. A bucket is read in one step, and the operations of the server are atomic.
  \<^item> Cmd_Options and Server_Options: the command lines (locale \<open>option_parser\<close>, with an instance for
    each of the three programs) and the signal handler of the server.
  \<^item> Load_Phases: what the two load generators share, above all the protocol of phases as an
    abstract machine (\<open>ph_step\<close>) with its invariant, and the locale \<open>load_generator\<close> of the programs
    that refine it. Kv_Client (\<open>app/ring_ycsb_client/kv_client.c\<close>) with Client_Phases and
    Ycsb_Benchmark (\<open>app/ycsb_benchmark/benchmark.c\<close>) with Benchmark_Phases are its instances: no
    phase starts while an operation of the last one is under way, operations are shared out
    exactly, latencies are recorded inside their array but for one case.

  \<^bold>\<open>Fuel.\<close> A loop whose end depends on the data has a fuel argument and returns \<open>No_return\<close>
  when it runs out. The scans of a log have as many steps as it has blocks or units
  (\<open>move_head_scan\<close>, \<open>head_move_scan\<close>, \<open>move_head_loop\<close>, \<open>fetch_advance\<close>), \<open>compact_collect\<close> one
  step for each of the \<open>COMPACTION_LENGTH\<close> blocks; the loops around a ring or the circle of
  ids one more than there are elements (\<open>chain_loop\<close>, \<open>produce\<close>, \<open>range_ids\<close>), the walk of a write as many as it has targets (\<open>write_walk\<close>);
  \<open>find_shift\<close> and
  \<open>log_rings\<close> the width of the word and one more. A compaction of the bucket log calls the
  write that may start the next one: each moves the compaction head by at least 512 blocks
  and the guard stops it 2048 blocks after the head, so that \<open>COMPACT_FUEL\<close>, 6, suffices, as
  \<open>compact_cascade\<close> of Bucket_World shows. That
  the loops of the circular log, of the chain, of the ranges and of the hash end is part of
  the theorems on them.

  \<^bold>\<open>Interleaving.\<close> Threads of the program share almost nothing but messages; operations are
  atomic, and the theorems on state machines quantify over every order of operations and of
  the answers to their events (\<open>log_event_run\<close>, \<open>lock_step\<close>, \<open>adm_step\<close>, \<open>ring_step\<close>,
  \<open>server_step\<close>, \<open>copy_step\<close>, \<open>slot_step\<close>, \<open>cl_step\<close>, \<open>bm_step\<close>, \<open>bw_steps\<close>, \<open>pk_steps\<close>). The atomic request counters of \<open>kv_ring.c\<close> are
  plain counters.

  \<^bold>\<open>Not modelled.\<close> SPDK and DPDK, the etcd binding in Go, the ditto cache the system is compared
  with, the connections of the packed cache and the YCSB generator in C++, uthash and the lock-free queue are outside: what the code gets from them
  is an argument of the operations or a step of the relations. The timing functions, latency
  sums and printed statistics are floating point for the reader of a report, and so is the size
  of the value log, a product with 0.95, which is an argument of the stores. The manual tests
  under \<open>tests/\<close> drive the modules by hand. The dispatch variants of \<open>kv_ring.c\<close> that
  \<open>DISPATCH_TYPE\<close> switches off, and the CRC variants of CityHash, are not compiled. Addresses of
  buffers are kept only where the code computes with them (alignment, the overlap of moves
  in the window, registered memory). The compaction of the value log is modelled with all its
  callbacks; that it keeps every value is not proved.
\<close>

text \<open>
  The command lines of the server, the client and the benchmark. The programs do not check the
  length of an argument; a line all of whose copies stay inside their arrays leaves the options
  well formed, the first option that is refused or overruns its array ends the run of the
  model, and a number given to the server with \<open>-d\<close> is the one that is stored.
\<close>

theorem command_line_in_bounds:
  "(Server_Options.get_options as default_args = Inr sa \<longrightarrow> args_ok sa \<and>
      (\<forall>n. n < 2 ^ 32 \<longrightarrow> (\<exists>q. Server_Options.get_options (as @ [(CHR ''d'', show_nat n)]) default_args = Inr q \<and> unat (server_opt.ssd_num q) = n)) \<and>
      (\<forall>b e bs. Server_Options.get_option b sa = Inl e \<longrightarrow> Server_Options.get_options (as @ b # bs) default_args = Inl e)) \<and>
   (Kv_Client.get_options as Kv_Client.default_opt = Inr co \<longrightarrow> cl_opt_ok co) \<and>
   (Ycsb_Benchmark.get_options as Ycsb_Benchmark.default_opt = Inr bo \<longrightarrow> bm_opt_ok bo)"
proof (intro conjI impI allI)
  assume sa: "Server_Options.get_options as default_args = Inr sa"
  show "args_ok sa" by (rule server_opts.options_keep[OF _ sa]) (simp add: default_args_def args_ok_def)
  show "\<exists>q. Server_Options.get_options (as @ [(CHR ''d'', show_nat n)]) default_args = Inr q \<and> unat (server_opt.ssd_num q) = n" if "n < 2 ^ 32" for n
    using sa that by (simp add: server_opts.options_append Server_Options.get_option_def atol_show_nat unat_of_nat take_bit_eq_mod)
  show "Server_Options.get_options (as @ b # bs) default_args = Inl e" if "Server_Options.get_option b sa = Inl e" for b e bs
    by (rule server_opts.options_refuse[OF sa that])
next
  assume "Kv_Client.get_options as Kv_Client.default_opt = Inr co"
  then show "cl_opt_ok co" by (rule client_opts.options_keep[rotated]) (simp add: Kv_Client.default_opt_def cl_opt_ok_def)
next
  assume "Ycsb_Benchmark.get_options as Ycsb_Benchmark.default_opt = Inr bo"
  then show "bm_opt_ok bo" by (rule bench_opts.options_keep[rotated]) (simp add: Ycsb_Benchmark.default_opt_def bm_opt_ok_def)
qed

theorem command_line_in_bounds_witness:
  "args_ok (default_args\<lparr>local_ip := ''10.0.0.7''\<rparr>) \<and>
   Server_Options.get_options [(CHR ''l'', ''10.0.0.7''), (CHR ''C'', ''none''), (CHR ''h'', [])] default_args = Inl Exit_fail"
proof -
  have a: "Server_Options.get_options [(CHR ''l'', ''10.0.0.7'')] default_args = Inr (default_args\<lparr>local_ip := ''10.0.0.7''\<rparr>)"
    by (simp add: Server_Options.get_option_def strcpy_into_def)
  have b: "Server_Options.get_option (CHR ''C'', ''none'') (default_args\<lparr>local_ip := ''10.0.0.7''\<rparr>) = Inl Exit_fail"
    by (simp add: Server_Options.get_option_def)
  note T = mp[OF conjunct1[OF command_line_in_bounds[of "[(CHR ''l'', ''10.0.0.7'')]" "default_args\<lparr>local_ip := ''10.0.0.7''\<rparr>"]] a]
  then have "Server_Options.get_options ([(CHR ''l'', ''10.0.0.7'')] @ (CHR ''C'', ''none'') # [(CHR ''h'', [])]) default_args = Inl Exit_fail" using b by blast
  then show ?thesis using conjunct1[OF T] unfolding append.simps by blast
qed

end
